(* ===== verification/GoPrelude.thy ===== *)
theory GoPrelude
  imports Main "HOL-Library.Word"
begin

unbundle bit_operations_syntax

text \<open>
  Shared vocabulary of the development: Go's machine integers as words, results of calls that
  may return an error, and the generic facts on results, lists and words that the component
  theories use.

  \<^item> \<open>u8\<close>, \<open>u64\<close> are Go's \<^verbatim>\<open>byte\<close> and \<^verbatim>\<open>uint64\<close>; \<open>i64\<close> is \<^verbatim>\<open>int64\<close> in two's complement (the same
    64 bits, read with \<open>sint\<close>), so that \<open>+\<close> and \<open>-\<close> wrap exactly as Go's do.
  \<^item> a Go function returning \<^verbatim>\<open>(T, error)\<close> is a function into \<open>'e + 'a\<close>; \<open>res_bind\<close> is the
    \<^verbatim>\<open>if err != nil { return nil, err }\<close> chain.
\<close>

type_synonym u8 = "8 word"
type_synonym u64 = "64 word"
type_synonym i64 = "64 word"
type_synonym u32 = "32 word"

named_theorems roundtrip \<open>decode-after-encode equations, applied left to right\<close>
named_theorems res_simps \<open>evaluation of error chains\<close>

section \<open>Results with errors\<close>

definition res_bind :: "'e + 'a \<Rightarrow> ('a \<Rightarrow> 'e + 'b) \<Rightarrow> 'e + 'b" where
  "res_bind m f = (case m of Inl e \<Rightarrow> Inl e | Inr x \<Rightarrow> f x)"

lemma res_bind_Inr [simp, res_simps]: "res_bind (Inr x) f = f x"
  by (simp add: res_bind_def)

lemma res_bind_Inl [simp, res_simps]: "res_bind (Inl e) f = Inl e"
  by (simp add: res_bind_def)

lemma res_bind_eq_Inr_iff:
  "res_bind m f = Inr y \<longleftrightarrow> (\<exists>x. m = Inr x \<and> f x = Inr y)"
  by (cases m) simp_all

lemma res_bind_eq_Inl_iff:
  "res_bind m f = Inl e \<longleftrightarrow> m = Inl e \<or> (\<exists>x. m = Inr x \<and> f x = Inl e)"
  by (cases m) simp_all

lemma res_bind_cong [fundef_cong]:
  "m = m' \<Longrightarrow> (\<And>x. m' = Inr x \<Longrightarrow> f x = f' x) \<Longrightarrow> res_bind m f = res_bind m' f'"
  by (cases m') simp_all

text \<open>A loop that runs a fallible body over a list and collects the results in order.\<close>

fun res_map :: "('a \<Rightarrow> 'e + 'b) \<Rightarrow> 'a list \<Rightarrow> 'e + 'b list" where
  "res_map f [] = Inr []"
| "res_map f (x # xs) = res_bind (f x) (\<lambda>y. res_bind (res_map f xs) (\<lambda>ys. Inr (y # ys)))"

lemma res_map_Inr_length: "res_map f xs = Inr ys \<Longrightarrow> length ys = length xs"
  by (induction xs arbitrary: ys) (auto simp: res_bind_eq_Inr_iff)

lemma res_map_append:
  "res_map f (xs @ ys) = res_bind (res_map f xs) (\<lambda>as. res_bind (res_map f ys) (\<lambda>bs. Inr (as @ bs)))"
proof (induction xs)
  case Nil
  then show ?case by (cases "res_map f ys") simp_all
next
  case (Cons x xs)
  then show ?case
    by (cases "f x"; cases "res_map f xs"; cases "res_map f ys") simp_all
qed

section \<open>Bits\<close>

lemma unat_u64_less: "unat x < 18446744073709551616" for x :: u64
  using unsigned_less [of x, where ?'a = nat] by simp

lemma sint_of_nat_u64 [simp]: "n < 2 ^ 63 \<Longrightarrow> sint (of_nat n :: u64) = int n"
  by (simp add: signed_of_nat signed_take_bit_int_eq_self)

lemma unat_drop_bit: "unat (drop_bit n v) = unat v div 2 ^ n"
  for v :: "'a::len word"
  by (subst unat_drop_bit_eq) (rule drop_bit_eq_div)

lemma unat_drop_bit_less:
  fixes v :: "'a::len word"
  assumes "unat v < 2 ^ (k + n)"
  shows "unat (drop_bit n v) < 2 ^ k"
  using assms by (subst unat_drop_bit) (simp add: less_mult_imp_div_less power_add)

text \<open>Go's \<^verbatim>\<open>bits.Len64\<close>: the number of bits needed to write a value, 0 for 0.\<close>

fun nat_len :: "nat \<Rightarrow> nat" where
  "nat_len n = (if n = 0 then 0 else Suc (nat_len (n div 2)))"

declare nat_len.simps [simp del]

definition len64 :: "u64 \<Rightarrow> nat" where
  "len64 u = nat_len (unat u)"

lemma nat_len_0 [simp]: "nat_len 0 = 0"
  by (simp add: nat_len.simps)

lemma nat_len_le_iff: "nat_len n \<le> w \<longleftrightarrow> n < 2 ^ w"
proof (induction n arbitrary: w rule: nat_len.induct)
  case (1 n)
  show ?case
  proof (cases "n = 0")
    case True
    then show ?thesis by simp
  next
    case False
    show ?thesis
    proof (cases w)
      case 0
      with False show ?thesis by (simp add: nat_len.simps [of n])
    next
      case (Suc w')
      have "nat_len n \<le> w \<longleftrightarrow> nat_len (n div 2) \<le> w'"
        using False Suc by (simp add: nat_len.simps [of n])
      also have "\<dots> \<longleftrightarrow> n div 2 < 2 ^ w'"
        using "1.IH" [OF False] by simp
      also have "\<dots> \<longleftrightarrow> n < 2 ^ w"
        using Suc by (auto simp: div_less_iff_less_mult mult.commute)
      finally show ?thesis .
    qed
  qed
qed

lemma len64_le_iff: "len64 u \<le> w \<longleftrightarrow> unat u < 2 ^ w"
  by (simp add: len64_def nat_len_le_iff)

lemma len64_le_64: "len64 u \<le> 64"
  using unsigned_less [of u] by (simp add: len64_le_iff)

section \<open>Strings with separators\<close>

lemma sep_cancel:
  assumes "c \<notin> set a" and "c \<notin> set b"
  shows "a @ c # x = b @ c # y \<longleftrightarrow> a = b \<and> x = y"
  using assms by (induction a b rule: list_induct2') auto

text \<open>
  Records terminated by a separator, followed by one more separator: the list of records is
  determined when none of them is empty.
\<close>

lemma sep_records_cancel:
  assumes "\<forall>x \<in> set xs. x \<noteq> [] \<and> c \<notin> set x" and "\<forall>x \<in> set ys. x \<noteq> [] \<and> c \<notin> set x"
    and "concat (map (\<lambda>x. x @ [c]) xs) @ c # r = concat (map (\<lambda>x. x @ [c]) ys) @ c # s"
  shows "xs = ys \<and> r = s"
  using assms
proof (induction xs ys rule: list_induct2')
  case (2 x xs)
  then show ?case by (cases x) auto
next
  case (3 y ys)
  then show ?case by (cases y) auto
next
  case (4 x xs y ys)
  then show ?case by (simp add: sep_cancel)
qed simp

lemma sep_records_inj:
  assumes "\<forall>x \<in> set xs. c \<notin> set x" and "\<forall>x \<in> set ys. c \<notin> set x"
    and "concat (map (\<lambda>x. x @ [c]) xs) = concat (map (\<lambda>x. x @ [c]) ys)"
  shows "xs = ys"
  using assms by (induction xs ys rule: list_induct2') (simp_all add: sep_cancel)

section \<open>Decimal numerals\<close>

text \<open>\<^verbatim>\<open>strconv.FormatUint(v, 10)\<close> and \<^verbatim>\<open>strconv.FormatInt(v, 10)\<close>.\<close>

fun nat_digits :: "nat \<Rightarrow> string" where
  "nat_digits n = (if n < 10 then [char_of (48 + n)] else nat_digits (n div 10) @ [char_of (48 + n mod 10)])"

declare nat_digits.simps [simp del]

definition FormatUint :: "u64 \<Rightarrow> string" where
  "FormatUint v = nat_digits (unat v)"

definition FormatInt :: "i64 \<Rightarrow> string" where
  "FormatInt v = (if sint v < 0 then ''-'' else []) @ nat_digits (nat \<bar>sint v\<bar>)"

section \<open>Little-endian words\<close>

text \<open>\<^verbatim>\<open>binary.LittleEndian.PutUint64\<close> and \<^verbatim>\<open>Uint64\<close>.\<close>

fun putLE :: "nat \<Rightarrow> nat \<Rightarrow> u8 list" where
  "putLE 0 n = []"
| "putLE (Suc k) n = word_of_nat (n mod 256) # putLE k (n div 256)"

fun getLE :: "u8 list \<Rightarrow> nat" where
  "getLE [] = 0"
| "getLE (b # bs) = unat b + 256 * getLE bs"

definition putUint64 :: "u64 \<Rightarrow> u8 list" where
  "putUint64 v = putLE 8 (unat v)"

definition getUint64 :: "u8 list \<Rightarrow> u64" where
  "getUint64 b = word_of_nat (getLE (take 8 b))"

lemma length_putLE [simp]: "length (putLE k n) = k"
  by (induction k n rule: putLE.induct) auto

lemma getLE_putLE: "getLE (putLE k n) = n mod 256 ^ k"
proof (induction k n rule: putLE.induct)
  case (2 k n)
  have "unat (word_of_nat (n mod 256) :: u8) = n mod 256"
    by (simp add: unat_of_nat)
  with 2 show ?case by (simp add: mod_mult2_eq)
qed simp

lemma getUint64_putUint64 [simp, roundtrip]: "getUint64 (putUint64 v @ rest) = v"
  using unat_u64_less [of v] by (simp add: getUint64_def putUint64_def getLE_putLE)

lemma length_putUint64 [simp]: "length (putUint64 v) = 8"
  by (simp add: putUint64_def)

definition putUint32 :: "u32 \<Rightarrow> u8 list" where
  "putUint32 v = putLE 4 (unat v)"

definition getUint32 :: "u8 list \<Rightarrow> u32" where
  "getUint32 b = word_of_nat (getLE (take 4 b))"

lemma getUint32_putUint32 [simp, roundtrip]: "getUint32 (putUint32 v @ rest) = v"
proof -
  have "unat v < 4294967296" using unsigned_less [of v, where ?'a = nat] by simp
  then show ?thesis by (simp add: getUint32_def putUint32_def getLE_putLE)
qed

lemma length_putUint32 [simp]: "length (putUint32 v) = 4"
  by (simp add: putUint32_def)

end
