(* ===== verification/GoHeap.thy ===== *)
theory GoHeap
  imports GoPrelude "HOL-Library.Multiset"
begin

text \<open>
  Go's \<^verbatim>\<open>container/heap\<close> on slices: a binary heap in an array, with the sift-up and sift-down loops of the
  package. The order is given by a key; \<^verbatim>\<open>Less(i, j)\<close> compares the keys of two elements, \<^verbatim>\<open>Swap\<close> exchanges
  them, \<^verbatim>\<open>Push\<close> appends and \<^verbatim>\<open>Pop\<close> takes the last element off, as in all the heaps of the repository. The locale
  \<open>min_queue\<close> is what their clients rely on.
\<close>

section \<open>The loops\<close>

definition heap_swap :: "nat \<Rightarrow> nat \<Rightarrow> 'a list \<Rightarrow> 'a list" where
  "heap_swap i j xs = xs[i := xs ! j, j := xs ! i]"

function heap_up :: "('a \<Rightarrow> 'k::linorder) \<Rightarrow> nat \<Rightarrow> 'a list \<Rightarrow> 'a list" where
  "heap_up f j xs =
     (let i = (j - 1) div 2
      in if i = j \<or> \<not> f (xs ! j) < f (xs ! i) then xs else heap_up f i (heap_swap i j xs))"
  by pat_completeness auto
termination
  by (relation "measure (\<lambda>(f, j, xs). j)") auto

text \<open>The smaller child, or the left one.\<close>

definition heap_child :: "('a \<Rightarrow> 'k::linorder) \<Rightarrow> nat \<Rightarrow> nat \<Rightarrow> 'a list \<Rightarrow> nat" where
  "heap_child f i n xs =
     (let j1 = 2 * i + 1 in if j1 + 1 < n \<and> f (xs ! (j1 + 1)) < f (xs ! j1) then j1 + 1 else j1)"

function heap_down :: "('a \<Rightarrow> 'k::linorder) \<Rightarrow> nat \<Rightarrow> nat \<Rightarrow> 'a list \<Rightarrow> 'a list" where
  "heap_down f i n xs =
     (if n \<le> 2 * i + 1 then xs
      else let j = heap_child f i n xs
           in if \<not> f (xs ! j) < f (xs ! i) then xs else heap_down f j n (heap_swap i j xs))"
  by pat_completeness auto
termination
  by (relation "measure (\<lambda>(f, i, n, xs). n - i)") (auto simp: heap_child_def Let_def)

declare heap_up.simps [simp del] heap_down.simps [simp del]

definition heap_push :: "('a \<Rightarrow> 'k::linorder) \<Rightarrow> 'a \<Rightarrow> 'a list \<Rightarrow> 'a list" where
  "heap_push f x xs = heap_up f (length xs) (xs @ [x])"

definition heap_pop :: "('a \<Rightarrow> 'k::linorder) \<Rightarrow> 'a list \<Rightarrow> 'a \<times> 'a list" where
  "heap_pop f xs =
     (let n = length xs - 1; ys = heap_down f 0 n (heap_swap 0 n xs) in (ys ! n, take n ys))"

section \<open>Content\<close>

lemma length_heap_swap [simp]: "length (heap_swap i j xs) = length xs"
  by (simp add: heap_swap_def)

lemma mset_heap_swap [simp]: "i < length xs \<Longrightarrow> j < length xs \<Longrightarrow> mset (heap_swap i j xs) = mset xs"
  unfolding heap_swap_def by (rule mset_swap)

lemma nth_heap_swap:
  "i < length xs \<Longrightarrow> j < length xs \<Longrightarrow> k < length xs \<Longrightarrow>
   heap_swap i j xs ! k = (if k = j then xs ! i else if k = i then xs ! j else xs ! k)"
  by (simp add: heap_swap_def nth_list_update)

lemma mset_heap_up: "j < length xs \<Longrightarrow> mset (heap_up f j xs) = mset xs"
proof (induction f j xs rule: heap_up.induct)
  case (1 f j xs)
  have "(j - 1) div 2 < length xs" using "1.prems" by simp
  with 1 show ?case by (subst heap_up.simps) (simp add: Let_def)
qed

lemma heap_child_cases:
  assumes "2 * i + 1 < n"
  shows "heap_child f i n xs < n" "i < heap_child f i n xs" "(heap_child f i n xs - 1) div 2 = i"
    and "k < n \<Longrightarrow> 0 < k \<Longrightarrow> (k - 1) div 2 = i \<Longrightarrow> f (xs ! heap_child f i n xs) \<le> f (xs ! k)"
proof -
  show "heap_child f i n xs < n" "i < heap_child f i n xs" "(heap_child f i n xs - 1) div 2 = i"
    using assms by (auto simp: heap_child_def Let_def)
  assume k: "k < n" "0 < k" "(k - 1) div 2 = i"
  then have "k = 2 * i + 1 \<or> k = 2 * i + 2" by presburger
  then show "f (xs ! heap_child f i n xs) \<le> f (xs ! k)" using k(1) by (auto simp: heap_child_def Let_def)
qed

lemma heap_down_cases:
  obtains (stop) "n \<le> 2 * i + 1 \<or> \<not> f (xs ! heap_child f i n xs) < f (xs ! i)" "heap_down f i n xs = xs"
  | (step) "2 * i + 1 < n" "f (xs ! heap_child f i n xs) < f (xs ! i)"
      "heap_down f i n xs = heap_down f (heap_child f i n xs) n (heap_swap i (heap_child f i n xs) xs)"
  using heap_down.simps [of f i n xs] by (cases "n \<le> 2 * i + 1") (auto simp: Let_def)

lemma heap_down_frame:
  "i < n \<Longrightarrow> n \<le> length xs \<Longrightarrow>
   mset (heap_down f i n xs) = mset xs \<and> drop n (heap_down f i n xs) = drop n xs"
proof (induction f i n xs rule: heap_down.induct)
  case (1 f i n xs)
  let ?j = "heap_child f i n xs"
  show ?case
  proof (cases rule: heap_down_cases [where n = n and i = i and f = f and xs = xs])
    case step
    note j = heap_child_cases [OF step(1), where f = f and xs = xs]
    have "drop n (heap_swap i ?j xs) = drop n xs" using j "1.prems" by (simp add: heap_swap_def)
    with "1.IH" [OF _ refl] step j "1.prems" show ?thesis by simp
  qed simp
qed

lemma length_heap_down: "i < n \<Longrightarrow> n \<le> length xs \<Longrightarrow> length (heap_down f i n xs) = length xs"
  by (metis heap_down_frame size_mset)

lemma mset_heap_push: "mset (heap_push f x xs) = add_mset x (mset xs)"
  by (simp add: heap_push_def mset_heap_up)

lemma heap_push_not_Nil [simp]: "heap_push f x xs \<noteq> []"
  using mset_heap_push [of f x xs] by auto

lemma heap_pop_root:
  assumes "xs \<noteq> []"
  shows "fst (heap_pop f xs) = xs ! 0" and "add_mset (xs ! 0) (mset (snd (heap_pop f xs))) = mset xs"
proof -
  define n where "n = length xs - 1"
  define ys where "ys = heap_swap 0 n xs"
  have n: "n < length xs" "length ys = Suc n" using assms by (auto simp: n_def ys_def)
  have ys: "mset ys = mset xs" "ys ! n = xs ! 0" using n by (auto simp: ys_def nth_heap_swap)
  let ?zs = "heap_down f 0 n ys"
  have zs: "mset ?zs = mset xs \<and> ?zs ! n = xs ! 0 \<and> length ?zs = Suc n"
  proof (cases "n = 0")
    case True
    then show ?thesis using n ys by (subst (1 2 3) heap_down.simps) simp
  next
    case False
    then have f: "mset ?zs = mset ys" "drop n ?zs = drop n ys" "length ?zs = length ys"
      using heap_down_frame [of 0 n ys f] length_heap_down [of 0 n ys f] n by auto
    have "drop n ?zs = [?zs ! n]" "drop n ys = [ys ! n]" using f(3) n(2) by (simp_all add: Cons_nth_drop_Suc [symmetric])
    with f n ys show ?thesis by simp
  qed
  have pop: "heap_pop f xs = (?zs ! n, take n ?zs)" by (simp add: heap_pop_def n_def ys_def Let_def)
  show "fst (heap_pop f xs) = xs ! 0" using zs pop by simp
  have "take n ?zs @ [?zs ! n] = ?zs" using zs take_Suc_conv_app_nth [of n ?zs] by simp
  then have "mset ?zs = add_mset (?zs ! n) (mset (take n ?zs))" by (metis mset_append mset.simps union_mset_add_mset_right add.right_neutral)
  then show "add_mset (xs ! 0) (mset (snd (heap_pop f xs))) = mset xs" using zs pop by simp
qed

section \<open>Order\<close>

definition heap_upto :: "('a \<Rightarrow> 'k::linorder) \<Rightarrow> nat \<Rightarrow> 'a list \<Rightarrow> bool" where
  "heap_upto f n xs \<longleftrightarrow> (\<forall>k<n. 0 < k \<longrightarrow> f (xs ! ((k - 1) div 2)) \<le> f (xs ! k))"

abbreviation is_heap :: "('a \<Rightarrow> 'k::linorder) \<Rightarrow> 'a list \<Rightarrow> bool" where
  "is_heap f xs \<equiv> heap_upto f (length xs) xs"

lemma heap_root_least: "heap_upto f n xs \<Longrightarrow> k < n \<Longrightarrow> f (xs ! 0) \<le> f (xs ! k)"
proof (induction k rule: less_induct)
  case (less k)
  show ?case
  proof (cases "k = 0")
    case False
    then have "f (xs ! 0) \<le> f (xs ! ((k - 1) div 2))" using less by auto
    also have "\<dots> \<le> f (xs ! k)" using less.prems False by (simp add: heap_upto_def)
    finally show ?thesis .
  qed simp
qed

lemma heap_down_heap:
  assumes "i < n" "n \<le> length xs"
    and "\<forall>k<n. 0 < k \<and> (k - 1) div 2 \<noteq> i \<longrightarrow> f (xs ! ((k - 1) div 2)) \<le> f (xs ! k)"
    and "0 < i \<longrightarrow> (\<forall>k<n. 0 < k \<and> (k - 1) div 2 = i \<longrightarrow> f (xs ! ((i - 1) div 2)) \<le> f (xs ! k))"
  shows "heap_upto f n (heap_down f i n xs)"
  using assms
proof (induction f i n xs rule: heap_down.induct)
  case (1 f i n xs)
  let ?j = "heap_child f i n xs"
  show ?case
  proof (cases rule: heap_down_cases [where n = n and i = i and f = f and xs = xs])
    case stop
    have "f (xs ! ((k - 1) div 2)) \<le> f (xs ! k)" if k: "k < n" "0 < k" for k
    proof (cases "(k - 1) div 2 = i")
      case True
      then have n: "2 * i + 1 < n" using k by linarith
      with stop(1) have "f (xs ! i) \<le> f (xs ! ?j)" by auto
      also have "\<dots> \<le> f (xs ! k)" using heap_child_cases(4) [OF n k True] .
      finally show ?thesis using True by simp
    qed (use "1.prems"(3) k in auto)
    then show ?thesis using stop(2) by (simp add: heap_upto_def)
  next
    case step
    note j = heap_child_cases [OF step(1), where f = f and xs = xs]
    let ?ys = "heap_swap i ?j xs"
    have nth: "?ys ! k = (if k = ?j then xs ! i else if k = i then xs ! ?j else xs ! k)" if "k < n" for k
      using that j "1.prems"(1,2) by (subst nth_heap_swap) auto
    have par: "(k - 1) div 2 < k" if "0 < k" for k :: nat using that by auto
    have "f (?ys ! ((k - 1) div 2)) \<le> f (?ys ! k)" if k: "k < n" "0 < k" "(k - 1) div 2 \<noteq> ?j" for k
    proof -
      have pk: "(k - 1) div 2 < n" using par [OF k(2)] k(1) by simp
      consider "k = ?j" | "k \<noteq> ?j" "(k - 1) div 2 = i" | "k \<noteq> ?j" "(k - 1) div 2 \<noteq> i" "k = i" | "k \<noteq> ?j" "(k - 1) div 2 \<noteq> i" "k \<noteq> i" by blast
      then show ?thesis
      proof cases
        case 1
        then show ?thesis using nth [OF pk] nth [OF k(1)] step(2) j by auto
      next
        case 2
        then have "k \<noteq> i" using par [OF k(2)] by auto
        with 2 show ?thesis using nth [OF pk] nth [OF k(1)] k j(4) [OF k(1,2)] by auto
      next
        case 3
        then have "f (xs ! ((i - 1) div 2)) \<le> f (xs ! ?j)" using "1.prems"(4) k j by auto
        with 3 show ?thesis using nth [OF pk] nth [OF k(1)] k by auto
      next
        case 4
        then show ?thesis using nth [OF pk] nth [OF k(1)] k "1.prems"(3) by auto
      qed
    qed
    moreover have "f (?ys ! ((?j - 1) div 2)) \<le> f (?ys ! k)" if k: "k < n" "0 < k" "(k - 1) div 2 = ?j" for k
    proof -
      have "?j < k" using par [OF k(2)] k(3) by simp
      moreover have "f (xs ! ?j) \<le> f (xs ! k)" using "1.prems"(3) k j by (metis less_irrefl)
      ultimately show ?thesis using nth [OF "1.prems"(1)] nth [OF k(1)] j by auto
    qed
    ultimately have "heap_upto f n (heap_down f ?j n ?ys)"
      by (intro "1.IH" [OF _ refl]) (use step j "1.prems" in auto)
    then show ?thesis using step(3) by simp
  qed
qed

lemma heap_up_heap:
  assumes "j < length xs"
    and "\<forall>k<length xs. 0 < k \<and> k \<noteq> j \<longrightarrow> f (xs ! ((k - 1) div 2)) \<le> f (xs ! k)"
    and "0 < j \<longrightarrow> (\<forall>k<length xs. 0 < k \<and> (k - 1) div 2 = j \<longrightarrow> f (xs ! ((j - 1) div 2)) \<le> f (xs ! k))"
  shows "is_heap f (heap_up f j xs)"
  using assms
proof (induction f j xs rule: heap_up.induct)
  case (1 f j xs)
  let ?i = "(j - 1) div 2"
  show ?case
  proof (cases "?i = j \<or> \<not> f (xs ! j) < f (xs ! ?i)")
    case True
    then have "heap_up f j xs = xs" by (subst heap_up.simps) (simp add: Let_def)
    moreover have "f (xs ! ((k - 1) div 2)) \<le> f (xs ! k)" if "k < length xs" "0 < k" for k
      using that True "1.prems"(2) by (cases "k = j") auto
    ultimately show ?thesis by (simp add: heap_upto_def)
  next
    case False
    then have ij: "0 < j" "?i < j" by auto
    let ?ys = "heap_swap ?i j xs"
    have step: "heap_up f j xs = heap_up f ?i ?ys" using False by (subst heap_up.simps) (simp add: Let_def)
    have nth: "?ys ! k = (if k = j then xs ! ?i else if k = ?i then xs ! j else xs ! k)" if "k < length xs" for k
      using that ij "1.prems"(1) by (subst nth_heap_swap) auto
    have lt: "f (xs ! j) < f (xs ! ?i)" using False by simp
    have par: "(k - 1) div 2 < k" if "0 < k" for k :: nat using that by auto
    have "f (?ys ! ((k - 1) div 2)) \<le> f (?ys ! k)" if k: "k < length xs" "0 < k" "k \<noteq> ?i" for k
    proof -
      have pk: "(k - 1) div 2 < length xs" "(k - 1) div 2 < k" using par [OF k(2)] k(1) by auto
      consider "k = j" | "k \<noteq> j" "(k - 1) div 2 = ?i" | "k \<noteq> j" "(k - 1) div 2 = j" | "k \<noteq> j" "(k - 1) div 2 \<noteq> ?i" "(k - 1) div 2 \<noteq> j" by blast
      then show ?thesis
      proof cases
        case 2
        have "f (xs ! ?i) \<le> f (xs ! k)" using "1.prems"(2) k 2 by metis
        with 2 lt k ij show ?thesis using nth [OF pk(1)] nth [OF k(1)] by auto
      next
        case 3
        then have "f (xs ! ?i) \<le> f (xs ! k)" using "1.prems"(3) k ij by blast
        with 3 k show ?thesis using nth [OF pk(1)] nth [OF k(1)] by auto
      next
        case 4
        then show ?thesis using nth [OF pk(1)] nth [OF k(1)] k "1.prems"(2) by auto
      qed (use nth [OF pk(1)] nth [OF k(1)] lt ij in auto)
    qed
    moreover have "f (?ys ! ((?i - 1) div 2)) \<le> f (?ys ! k)" if k: "0 < ?i" "k < length xs" "0 < k" "(k - 1) div 2 = ?i" for k
    proof -
      have p: "(?i - 1) div 2 < ?i" using par [OF k(1)] .
      have up: "f (xs ! ((?i - 1) div 2)) \<le> f (xs ! ?i)" using "1.prems"(1,2) k(1) ij by auto
      have "f (xs ! ?i) \<le> f (xs ! k)" if "k \<noteq> j" using "1.prems"(2) k that by metis
      with up p ij k show ?thesis using nth [of "(?i - 1) div 2"] nth [OF k(2)] par [OF k(3)] "1.prems"(1) by (cases "k = j") auto
    qed
    ultimately have "is_heap f (heap_up f ?i ?ys)"
      by (intro "1.IH" [OF refl False, simplified length_heap_swap]) (use ij "1.prems"(1) in auto)
    then show ?thesis using step by simp
  qed
qed

lemma is_heap_push: "is_heap f xs \<Longrightarrow> is_heap f (heap_push f x xs)"
  unfolding heap_push_def
proof (rule heap_up_heap)
  assume "is_heap f xs"
  moreover have "(k - 1) div 2 < length xs" if "k < length xs" for k using that by auto
  ultimately show "\<forall>k<length (xs @ [x]). 0 < k \<and> k \<noteq> length xs \<longrightarrow> f ((xs @ [x]) ! ((k - 1) div 2)) \<le> f ((xs @ [x]) ! k)"
    by (auto simp: heap_upto_def nth_append less_Suc_eq)
qed auto

lemma is_heap_pop: "is_heap f xs \<Longrightarrow> xs \<noteq> [] \<Longrightarrow> is_heap f (snd (heap_pop f xs))"
proof (cases "length xs = 1")
  case False
  assume heap: "is_heap f xs" and "xs \<noteq> []"
  define n where "n = length xs - 1"
  have n: "0 < n" "n < length xs" using False \<open>xs \<noteq> []\<close> by (cases xs; auto simp: n_def)+
  let ?ys = "heap_swap 0 n xs"
  have "f (?ys ! ((k - 1) div 2)) \<le> f (?ys ! k)" if k: "k < n" "0 < k" "(k - 1) div 2 \<noteq> 0" for k
  proof -
    define p where "p = (k - 1) div 2"
    have p: "p < n" "p \<noteq> 0" "f (xs ! p) \<le> f (xs ! k)" using k n heap by (auto simp: p_def heap_upto_def)
    have "?ys ! p = xs ! p" "?ys ! k = xs ! k" 
      using p k n nth_heap_swap [of 0 xs n p] nth_heap_swap [of 0 xs n k] by (cases xs; simp)+
    then show ?thesis using p unfolding p_def by simp
  qed
  with n have "heap_upto f n (heap_down f 0 n ?ys)" by (intro heap_down_heap) auto
  moreover have "length (heap_down f 0 n ?ys) = length xs" using n by (simp add: length_heap_down)
  ultimately show ?thesis using n unfolding heap_pop_def n_def [symmetric] Let_def
    by (auto simp: heap_upto_def)
qed (simp add: heap_pop_def heap_upto_def Let_def)

section \<open>The contract\<close>

locale min_queue =
  fixes key :: "'a \<Rightarrow> 'k::linorder"
    and push :: "'a \<Rightarrow> 'a list \<Rightarrow> 'a list"
    and pop :: "'a list \<Rightarrow> 'a \<times> 'a list"
    and inv :: "'a list \<Rightarrow> bool"
  assumes inv_Nil: "inv []"
    and push_mset: "mset (push x q) = add_mset x (mset q)"
    and push_inv: "inv q \<Longrightarrow> inv (push x q)"
    and pop_fst: "q \<noteq> [] \<Longrightarrow> fst (pop q) = q ! 0"
    and pop_mset: "q \<noteq> [] \<Longrightarrow> add_mset (q ! 0) (mset (snd (pop q))) = mset q"
    and pop_inv: "inv q \<Longrightarrow> q \<noteq> [] \<Longrightarrow> inv (snd (pop q))"
    and root_least: "inv q \<Longrightarrow> x \<in> set q \<Longrightarrow> key (q ! 0) \<le> key x"
begin

lemma push_set: "set (push x q) = insert x (set q)"
  by (metis push_mset set_mset_add_mset_insert set_mset_mset)

lemma push_length: "length (push x q) = Suc (length q)"
  by (metis push_mset size_add_mset size_mset)

lemma push_not_Nil: "push x q \<noteq> []"
  using push_length [of x q] by auto

lemma pop_set: "q \<noteq> [] \<Longrightarrow> insert (q ! 0) (set (snd (pop q))) = set q"
  by (metis pop_mset set_mset_add_mset_insert set_mset_mset)

lemma pop_length: "q \<noteq> [] \<Longrightarrow> Suc (length (snd (pop q))) = length q"
  by (metis pop_mset size_add_mset size_mset)

text \<open>Looking at the root decides whether anything is due.\<close>

lemma due_iff_root: "inv q \<Longrightarrow> (\<exists>x \<in> set q. key x \<le> w) \<longleftrightarrow> q \<noteq> [] \<and> key (q ! 0) \<le> w"
proof
  assume "inv q" "\<exists>x \<in> set q. key x \<le> w"
  then show "q \<noteq> [] \<and> key (q ! 0) \<le> w" using root_least order_trans by fastforce
qed force

lemma pop_count: "q \<noteq> [] \<Longrightarrow> length (filter P q) = (if P (q ! 0) then 1 else 0) + length (filter P (snd (pop q)))"
proof -
  assume "q \<noteq> []"
  then have "size (filter_mset P (mset q)) = size (filter_mset P (add_mset (q ! 0) (mset (snd (pop q)))))"
    using pop_mset by simp
  then show ?thesis by (simp flip: mset_filter split: if_splits)
qed

lemma push_count: "length (filter P (push x q)) = (if P x then 1 else 0) + length (filter P q)"
proof -
  have "size (filter_mset P (mset (push x q))) = size (filter_mset P (add_mset x (mset q)))"
    by (simp add: push_mset)
  then show ?thesis by (simp flip: mset_filter split: if_splits)
qed

end

interpretation go_heap: min_queue f "heap_push f" "heap_pop f" "is_heap f" for f :: "'a \<Rightarrow> 'k::linorder"
proof unfold_locales
  show "is_heap f ([] :: 'a list)" by (simp add: heap_upto_def)
  show "f (q ! 0) \<le> f x" if "is_heap f q" "x \<in> set q" for q x
    using that heap_root_least [OF that(1)] by (auto simp: in_set_conv_nth)
qed (simp_all add: mset_heap_push is_heap_push heap_pop_root is_heap_pop)

section \<open>Popping what is due\<close>

lemma length_heap_pop: "xs \<noteq> [] \<Longrightarrow> length (snd (heap_pop f xs)) < length xs"
  using go_heap.pop_length [of xs f] by linarith

text \<open>The loop \<^verbatim>\<open>for h.Len() > 0 && h[0].key <= w { p := heap.Pop(h); ... }\<close>: the elements popped, in order, and the rest.\<close>

function heap_drain :: "('a \<Rightarrow> 'k::linorder) \<Rightarrow> 'k \<Rightarrow> 'a list \<Rightarrow> 'a list \<times> 'a list" where
  "heap_drain f w h =
     (if h \<noteq> [] \<and> f (h ! 0) \<le> w
      then let d = heap_drain f w (snd (heap_pop f h)) in (fst (heap_pop f h) # fst d, snd d)
      else ([], h))"
  by pat_completeness auto
termination
  by (relation "measure (\<lambda>(f, w, h). length h)") (auto simp: length_heap_pop)

declare heap_drain.simps [simp del]

lemma heap_drain_stop: "\<not> (h \<noteq> [] \<and> f (h ! 0) \<le> w) \<Longrightarrow> heap_drain f w h = ([], h)"
  by (subst heap_drain.simps) auto

lemma heap_drain_step:
  "h \<noteq> [] \<Longrightarrow> f (h ! 0) \<le> w \<Longrightarrow>
   heap_drain f w h = (h ! 0 # fst (heap_drain f w (snd (heap_pop f h))), snd (heap_drain f w (snd (heap_pop f h))))"
  by (subst heap_drain.simps) (simp add: heap_pop_root Let_def)

lemma heap_drain_mset: "mset (fst (heap_drain f w h)) + mset (snd (heap_drain f w h)) = mset h"
proof (induction f w h rule: heap_drain.induct)
  case (1 f w h)
  show ?case
  proof (cases "h \<noteq> [] \<and> f (h ! 0) \<le> w")
    case True
    then show ?thesis using "1.IH" [OF True] heap_pop_root(2) [of h f]
      by (simp add: heap_drain_step)
  qed (simp add: heap_drain_stop)
qed

lemma heap_drain_rest: "snd (heap_drain f w h) \<noteq> [] \<Longrightarrow> w < f (snd (heap_drain f w h) ! 0)"
proof (induction f w h rule: heap_drain.induct)
  case (1 f w h)
  show ?case
  proof (cases "h \<noteq> [] \<and> f (h ! 0) \<le> w")
    case True
    then show ?thesis using "1.IH" [OF True] "1.prems" by (simp add: heap_drain_step)
  next
    case False
    then show ?thesis using "1.prems" by (auto simp: heap_drain_stop)
  qed
qed

lemma heap_drain_heap:
  "is_heap f h \<Longrightarrow>
   is_heap f (snd (heap_drain f w h)) \<and> sorted (map f (fst (heap_drain f w h))) \<and>
   (\<forall>p \<in> set (fst (heap_drain f w h)). f p \<le> w) \<and> (\<forall>p \<in> set (snd (heap_drain f w h)). w < f p)"
proof (induction f w h rule: heap_drain.induct)
  case (1 f w h)
  show ?case
  proof (cases "h \<noteq> [] \<and> f (h ! 0) \<le> w")
    case True
    let ?d = "heap_drain f w (snd (heap_pop f h))"
    have "set (fst ?d) \<subseteq> set h"
      using heap_drain_mset [of f w "snd (heap_pop f h)"] go_heap.pop_set [of h f] True
      by (metis mset_subset_eq_add_left set_mset_mono set_mset_mset subset_insertI2 subset_trans insert_subset)
    then have "\<forall>p \<in> set (fst ?d). f (h ! 0) \<le> f p" using go_heap.root_least [OF "1.prems"] by blast
    moreover have "is_heap f (snd (heap_pop f h))" using True "1.prems" is_heap_pop by blast
    ultimately show ?thesis using "1.IH" [OF True] True by (simp add: heap_drain_step)
  next
    case False
    have "w < f p" if "p \<in> set h" for p
    proof -
      have "w < f (h ! 0)" using False that by auto
      also have "\<dots> \<le> f p" using go_heap.root_least [OF "1.prems" that] .
      finally show ?thesis .
    qed
    then show ?thesis using "1.prems" by (simp add: heap_drain_stop [of h f w, OF False])
  qed
qed

end
