(* ===== verification/PointHeap.thy ===== *)
theory PointHeap
  imports GoHeap "HOL-Library.List_Lexorder" "HOL-Library.Product_Lexorder"
begin

text \<open>
  What the two streaming encoders of \<^verbatim>\<open>asap-gorilla-go\<close> (\<^verbatim>\<open>tsdb.go\<close>, \<^verbatim>\<open>fragment.go\<close>) share: the samples, the heap
  of pending points, and the interface of the Prometheus packages they call.

  A Go string is its bytes. Times are milliseconds as integers: they are nanosecond readings divided by a million, so
  every sum and difference of them formed below stays far inside 64 bits (\<open>unixMs_bound\<close>), where Go's arithmetic is that
  of the integers.

  The Prometheus packages are not part of the repository: they are the record \<open>promLib\<close>, an argument of every definition that
  calls them, and \<open>prom_laws\<close> is what the code relies on: appending to an XOR chunk appends to what it holds (up to the
  65535 samples its header can count), a label builder keeps the last value set for a name and drops empty ones, and
  labels are compared as the sorted lists they are ranged over as.
\<close>

type_synonym gostr = "u8 list"
type_synonym goattrs = "(gostr \<times> gostr) list"

definition bytes_of :: "string \<Rightarrow> gostr" where
  "bytes_of s = map of_char s"

definition unixMs :: "i64 \<Rightarrow> int" where
  "unixMs ns = sgn (sint ns) * (\<bar>sint ns\<bar> div 1000000)"

abbreviation MaxInt64 :: int where "MaxInt64 \<equiv> 9223372036854775807"
abbreviation MinInt64 :: int where "MinInt64 \<equiv> - 9223372036854775808"

lemma unixMs_bound: "\<bar>unixMs ns\<bar> \<le> 9223372036854"
proof -
  have "\<bar>sint ns\<bar> \<le> 2 ^ 63" using sint_greater_eq [of ns] sint_less [of ns] by simp
  then have "\<bar>sint ns\<bar> div 1000000 \<le> 2 ^ 63 div 1000000" by (rule zdiv_mono1) simp
  then show ?thesis by (simp add: unixMs_def abs_mult abs_sgn_eq)
qed

record TSDBSample =
  sMetricName :: gostr
  sAttributes :: goattrs
  sTimestamp :: i64
  sValue :: u64

record pendingPoint =
  ppT :: int
  ppV :: u64

abbreviation point :: "pendingPoint \<Rightarrow> int \<times> u64" where "point p \<equiv> (ppT p, ppV p)"

record 'c chunkMeta =
  mChunk :: 'c
  mMinTime :: int
  mMaxTime :: int

section \<open>The Prometheus packages\<close>

record ('c, 'l) promLib =
  xNew :: 'c
  xAppend :: "'c \<Rightarrow> int \<Rightarrow> u64 \<Rightarrow> 'c"
  lBuild :: "(gostr \<times> gostr) list \<Rightarrow> 'l"
  lRange :: "'l \<Rightarrow> (gostr \<times> gostr) list"
  lCompare :: "'l \<Rightarrow> 'l \<Rightarrow> int"

text \<open>The label set a sequence of \<^verbatim>\<open>Builder.Set\<close> calls leaves: the last value of each name, none when it is empty.\<close>

definition label_set :: "(gostr \<times> gostr) list \<Rightarrow> gostr \<Rightarrow> gostr option" where
  "label_set sets k = (case map_of (rev sets) k of None \<Rightarrow> None | Some v \<Rightarrow> if v = [] then None else Some v)"

definition xor_laws :: "('c, 'l) promLib \<Rightarrow> ('c \<Rightarrow> (int \<times> u64) list) \<Rightarrow> bool" where
  "xor_laws lib content \<longleftrightarrow>
     content (xNew lib) = [] \<and>
     (\<forall>c t v. length (content c) < 65535 \<longrightarrow> content (xAppend lib c t v) = content c @ [(t, v)])"

definition label_laws :: "('c, 'l) promLib \<Rightarrow> bool" where
  "label_laws lib \<longleftrightarrow>
     (\<forall>sets. sorted_wrt (<) (map fst (lRange lib (lBuild lib sets))) \<and>
             map_of (lRange lib (lBuild lib sets)) = label_set sets) \<and>
     (\<forall>a b. lRange lib a = lRange lib b \<longrightarrow> a = b) \<and>
     (\<forall>a b. lCompare lib a b < 0 \<longleftrightarrow> lRange lib a < lRange lib b)"

text \<open>\<^verbatim>\<open>sort.Slice\<close> with a comparison, and \<^verbatim>\<open>sort.Strings\<close>.\<close>

fun insert_less :: "('a \<Rightarrow> 'a \<Rightarrow> bool) \<Rightarrow> 'a \<Rightarrow> 'a list \<Rightarrow> 'a list" where
  "insert_less lt x [] = [x]"
| "insert_less lt x (y # ys) = (if lt y x then y # insert_less lt x ys else x # y # ys)"

definition sort_Slice :: "('a \<Rightarrow> 'a \<Rightarrow> bool) \<Rightarrow> 'a list \<Rightarrow> 'a list" where
  "sort_Slice lt xs = foldr (insert_less lt) xs []"

lemma insert_less_key: "insert_less (\<lambda>x y. f x < f y) x ys = insort_key f x ys"
  by (induction ys) auto

lemma sort_Slice_key: "sort_Slice (\<lambda>x y. f x < f y) xs = sort_key f xs"
proof -
  have "insert_less (\<lambda>x y. f x < f y) = insort_key f" by (intro ext insert_less_key)
  then show ?thesis by (simp add: sort_Slice_def sort_key_def)
qed

lemma mset_sort_Slice [simp]: "mset (sort_Slice lt xs) = mset xs"
proof -
  have "mset (insert_less lt x ys) = add_mset x (mset ys)" for x ys by (induction ys) auto
  then show ?thesis by (induction xs) (simp_all add: sort_Slice_def)
qed

lemma set_sort_Slice [simp]: "set (sort_Slice lt xs) = set xs"
  by (metis mset_sort_Slice set_mset_mset)

lemma length_sort_Slice [simp]: "length (sort_Slice lt xs) = length xs"
  by (metis mset_sort_Slice size_mset)

lemma sorted_wrt_last: "sorted_wrt (<) (map f xs) \<Longrightarrow> x \<in> set xs \<Longrightarrow> f x \<le> (f (last xs) :: 'k::linorder)"
  by (induction xs) (auto intro: less_imp_le)

section \<open>Points accepted\<close>

text \<open>
  Of the points popped, in order, those later than every one before them are kept. The argument is the time of the last
  point kept.
\<close>

fun accepted :: "int option \<Rightarrow> pendingPoint list \<Rightarrow> pendingPoint list" where
  "accepted l [] = []"
| "accepted l (p # ps) =
     (if l \<noteq> None \<and> ppT p \<le> the l then accepted l ps else p # accepted (Some (ppT p)) ps)"

lemma accepted_increasing:
  "sorted_wrt (<) (map ppT (accepted l ps)) \<and> (\<forall>p \<in> set (accepted l ps). l \<noteq> None \<longrightarrow> the l < ppT p)"
proof (induction l ps rule: accepted.induct)
  case (2 l p ps)
  show ?case
  proof (cases "l \<noteq> None \<and> ppT p \<le> the l")
    case False
    then show ?thesis using "2.IH"(2) [OF False] by fastforce
  qed (use "2.IH"(1) in simp)
qed simp

lemma accepted_subset: "mset (accepted l ps) \<subseteq># mset ps"
  by (induction l ps rule: accepted.induct) (auto intro: subset_mset.order_trans)

lemma length_accepted: "length (accepted l ps) \<le> length ps"
  by (induction l ps rule: accepted.induct) auto

lemma accepted_all:
  "sorted (map ppT ps) \<Longrightarrow> distinct (map ppT ps) \<Longrightarrow> \<forall>p \<in> set ps. l \<noteq> None \<longrightarrow> the l < ppT p \<Longrightarrow> accepted l ps = ps"
proof (induction l ps rule: accepted.induct)
  case (2 l p ps)
  then have "\<not> (l \<noteq> None \<and> ppT p \<le> the l)" by auto
  moreover have "\<forall>q \<in> set ps. ppT p < ppT q" using "2.prems"(1,2) by (fastforce simp: order.strict_iff_order image_iff)
  ultimately show ?case using 2 by auto
qed simp

end
