(* ===== verification/Varint.thy ===== *)
theory Varint
  imports GoPrelude
begin

text \<open>
  The byte layer of the cold-tier chunk codec (\<^verbatim>\<open>asap-gorilla-go/intchunk/codec.go\<close>): zigzag,
  the standard library's unsigned varints (\<^verbatim>\<open>encoding/binary\<close>: \<^verbatim>\<open>PutUvarint\<close>, \<^verbatim>\<open>Uvarint\<close>), the
  \<^verbatim>\<open>byteWriter\<close> and the \<^verbatim>\<open>byteReader\<close> with its cursor, and the fixed-width bit packer.
  The lemmas show that each reader inverts its writer and leaves the cursor just after the bytes
  it consumed, and characterise \<^verbatim>\<open>unpackBits\<close> on every input.
\<close>

section \<open>Errors\<close>

text \<open>
  \<open>Panic\<close> is a Go run-time panic (a \<^verbatim>\<open>make\<close> with a length out of range, an index out of range):
  not an error value of the package, so it is kept apart from them.
\<close>

datatype chunk_err = ErrEmpty | ErrCorruptChunk | ErrBadCodecTag | Panic

section \<open>Zigzag and varints\<close>

definition zigzag :: "i64 \<Rightarrow> u64" where
  "zigzag v = push_bit 1 v XOR signed_drop_bit 63 v"

definition unzigzag :: "u64 \<Rightarrow> i64" where
  "unzigzag u = drop_bit 1 u XOR - (u AND 1)"

definition MaxVarintLen64 :: nat where
  "MaxVarintLen64 = 10"

text \<open>\<^verbatim>\<open>binary.PutUvarint\<close>: seven bits a byte, low group first, the top bit set on all but the last.\<close>

function put_uvarint :: "u64 \<Rightarrow> u8 list" where
  "put_uvarint v =
     (if 0x80 \<le> v then (ucast v OR 0x80) # put_uvarint (drop_bit 7 v) else [ucast v])"
  by pat_completeness auto
termination
proof (relation "measure unat")
  fix v :: u64
  assume "0x80 \<le> v"
  then have "0x80 \<le> unat v" by (simp add: word_le_nat_alt)
  moreover have "unat (drop_bit 7 v) = unat v div 2 ^ 7"
    by (rule unat_drop_bit)
  ultimately show "(drop_bit 7 v, v) \<in> measure unat" by simp
qed simp

declare put_uvarint.simps [simp del]

text \<open>
  \<^verbatim>\<open>binary.Uvarint\<close>: the loop over the buffer with the index \<open>i\<close> and the accumulator \<open>x\<close> (the shift
  \<^verbatim>\<open>s\<close> is \<open>7 * i\<close>). The second component is \<open>n\<close>: the bytes read, 0 when the buffer is too small,
  negative on 64-bit overflow.
\<close>

fun uvarint_loop :: "u8 list \<Rightarrow> nat \<Rightarrow> u64 \<Rightarrow> u64 \<times> int" where
  "uvarint_loop [] i x = (0, 0)"
| "uvarint_loop (b # bs) i x =
     (if i = MaxVarintLen64 then (0, - (int i + 1))
      else if b < 0x80
        then (if i = MaxVarintLen64 - 1 \<and> 1 < b then (0, - (int i + 1))
              else (x OR push_bit (7 * i) (ucast b), int i + 1))
      else uvarint_loop bs (Suc i) (x OR push_bit (7 * i) (ucast (b AND 0x7f))))"

definition binary_Uvarint :: "u8 list \<Rightarrow> u64 \<times> int" where
  "binary_Uvarint bs = uvarint_loop bs 0 0"

section \<open>Writer and reader\<close>

text \<open>
  A writer is its buffer. The writer methods append, so they are given by the bytes they append;
  a reader is the buffer and the cursor, as in the source.
\<close>

definition w_u8 :: "u8 \<Rightarrow> u8 list \<Rightarrow> u8 list" where
  "w_u8 b buf = buf @ [b]"

definition w_uvarint :: "u64 \<Rightarrow> u8 list \<Rightarrow> u8 list" where
  "w_uvarint v buf = buf @ put_uvarint v"

definition w_varint :: "i64 \<Rightarrow> u8 list \<Rightarrow> u8 list" where
  "w_varint v buf = w_uvarint (zigzag v) buf"

record byteReader =
  rbuf :: "u8 list"
  rpos :: nat

definition r_u8 :: "byteReader \<Rightarrow> chunk_err + u8 \<times> byteReader" where
  "r_u8 r = (if length (rbuf r) \<le> rpos r then Inl ErrCorruptChunk
     else Inr (rbuf r ! rpos r, r\<lparr>rpos := rpos r + 1\<rparr>))"

definition r_uvarint :: "byteReader \<Rightarrow> chunk_err + u64 \<times> byteReader" where
  "r_uvarint r = (case binary_Uvarint (drop (rpos r) (rbuf r)) of (v, n) \<Rightarrow>
     if n \<le> 0 then Inl ErrCorruptChunk else Inr (v, r\<lparr>rpos := rpos r + nat n\<rparr>))"

definition r_varint :: "byteReader \<Rightarrow> chunk_err + i64 \<times> byteReader" where
  "r_varint r = res_bind (r_uvarint r) (\<lambda>(u, r'). Inr (unzigzag u, r'))"

section \<open>Bit packer\<close>

text \<open>\<^verbatim>\<open>max\<close> over the values starting from 0, then \<^verbatim>\<open>bits.Len64\<close>.\<close>

definition bitPackWidth :: "u64 list \<Rightarrow> nat" where
  "bitPackWidth us = (let mx = fold (\<lambda>u m. if m < u then u else m) us 0
     in if mx = 0 then 0 else len64 mx)"

text \<open>The inner loop \<^verbatim>\<open>for nbits >= 8\<close>: whole bytes leave the accumulator, most significant first.\<close>

fun emit_bytes :: "u64 \<Rightarrow> nat \<Rightarrow> u8 list \<Rightarrow> u8 list \<times> nat" where
  "emit_bytes cur nbits dst =
     (if 8 \<le> nbits
      then emit_bytes cur (nbits - 8) (dst @ [ucast (drop_bit (nbits - 8) cur)])
      else (dst, nbits))"

declare emit_bytes.simps [simp del]

fun pack_loop :: "nat \<Rightarrow> u64 list \<Rightarrow> u64 \<Rightarrow> nat \<Rightarrow> u8 list \<Rightarrow> u64 \<times> nat \<times> u8 list" where
  "pack_loop width [] cur nbits dst = (cur, nbits, dst)"
| "pack_loop width (u # us) cur nbits dst =
     (let cur' = push_bit width cur OR (u AND (push_bit width 1 - 1));
          (dst', nbits') = emit_bytes cur' (nbits + width) dst
      in pack_loop width us cur' nbits' dst')"

definition packBits :: "u8 list \<Rightarrow> u64 list \<Rightarrow> nat \<Rightarrow> u8 list" where
  "packBits dst us width =
     (if width = 0 then dst
      else case pack_loop width us 0 0 dst of (cur, nbits, dst') \<Rightarrow>
        if 0 < nbits then dst' @ [ucast (push_bit (8 - nbits) cur)] else dst')"

text \<open>The inner loop \<^verbatim>\<open>for nbits < width\<close>: bytes enter the accumulator; the input may run out.\<close>

fun fill_bits :: "nat \<Rightarrow> u8 list \<Rightarrow> u64 \<Rightarrow> nat \<Rightarrow> chunk_err + u8 list \<times> u64 \<times> nat" where
  "fill_bits width src cur nbits =
     (if nbits < width
      then (case src of [] \<Rightarrow> Inl ErrCorruptChunk
            | b # src' \<Rightarrow> fill_bits width src' (push_bit 8 cur OR ucast b) (nbits + 8))
      else Inr (src, cur, nbits))"

declare fill_bits.simps [simp del]

fun unpack_loop :: "nat \<Rightarrow> nat \<Rightarrow> u8 list \<Rightarrow> u64 \<Rightarrow> nat \<Rightarrow> chunk_err + u64 list" where
  "unpack_loop width 0 src cur nbits = Inr []"
| "unpack_loop width (Suc n) src cur nbits =
     res_bind (fill_bits width src cur nbits) (\<lambda>(src', cur', nbits').
       res_bind (unpack_loop width n src' cur' (nbits' - width)) (\<lambda>us.
         Inr ((drop_bit (nbits' - width) cur' AND (push_bit width 1 - 1)) # us)))"

definition unpackBits :: "u8 list \<Rightarrow> nat \<Rightarrow> nat \<Rightarrow> chunk_err + u64 list" where
  "unpackBits src n width =
     (if width = 0 then Inr (replicate n 0) else unpack_loop width n src 0 0)"

section \<open>Zigzag and varints round trip\<close>

lemma bit_zigzag:
  "bit (zigzag v) n \<longleftrightarrow> n < 64 \<and> (if n = 0 then bit v 63 else bit v (n - 1) \<noteq> bit v 63)"
  unfolding zigzag_def
  by (simp only: bit_xor_iff bit_push_bit_iff bit_signed_drop_bit_iff)
    (auto dest: bit_imp_le_length)

lemma bit_unzigzag:
  "bit (unzigzag u) n \<longleftrightarrow> n < 64 \<and> (bit u (n + 1) \<noteq> bit u 0)"
proof -
  have *: "- (u AND 1) = (if bit u 0 then - 1 else 0)"
    by (simp add: and_one_eq mod_2_eq_odd bit_0)
  show ?thesis
    unfolding unzigzag_def * by (simp only: bit_xor_iff bit_drop_bit_eq)
      (auto dest: bit_imp_le_length)
qed

lemma unzigzag_zigzag [simp, roundtrip]: "unzigzag (zigzag v) = v"
proof (rule bit_word_eqI)
  fix n
  assume "n < LENGTH(64)"
  then show "bit (unzigzag (zigzag v)) n \<longleftrightarrow> bit v n"
    by (cases "n = 63") (auto simp: bit_zigzag bit_unzigzag)
qed

lemma zigzag_unzigzag [simp]: "zigzag (unzigzag u) = u"
  by (rule bit_word_eqI) (auto simp: bit_zigzag bit_unzigzag dest: bit_imp_le_length)

lemma push_bit_group:
  fixes v :: u64
  shows "push_bit s (ucast ((ucast v OR 0x80 :: u8) AND 0x7f)) OR push_bit (s + 7) (drop_bit 7 v) = push_bit s v"
proof -
  have m: "(0x7f :: u8) = mask 7" and s: "(0x80 :: u8) = push_bit 7 1"
    by (simp_all add: mask_eq_exp_minus_1)
  have "(ucast ((ucast v OR 0x80 :: u8) AND 0x7f) :: u64) = take_bit 7 v"
    unfolding m s
    by (rule bit_word_eqI) (simp only: bit_ucast_iff bit_and_iff bit_or_iff bit_mask_iff bit_push_bit_iff bit_take_bit_iff, auto simp: bit_1_iff)
  then show ?thesis
    by (auto intro!: bit_word_eqI simp: bit_or_iff bit_push_bit_iff bit_take_bit_iff bit_drop_bit_eq)
qed

lemma put_uvarint_high_bit: "\<not> (ucast v OR 0x80 :: u8) < 0x80"
  using le_word_or2 [of "0x80 :: u8" "ucast v"] by (simp add: not_less or.commute)

lemma unat_ucast_u8: "v < 0x80 \<Longrightarrow> unat (ucast v :: u8) = unat v" for v :: u64
  by (simp add: unsigned_ucast_eq take_bit_eq_mod word_less_nat_alt)

lemma ucast_ucast_u8: "v < 0x80 \<Longrightarrow> ucast (ucast v :: u8) = v" for v :: u64
  by (rule word_unat_eq_iff [THEN iffD2], subst unsigned_ucast_eq, subst unat_ucast_u8)
    (simp_all add: take_bit_nat_eq_self word_less_nat_alt)

lemma uvarint_loop_put_uvarint:
  assumes "i \<le> 9" and "unat v < 2 ^ (64 - 7 * i)"
  shows "uvarint_loop (put_uvarint v @ rest) i x =
    (x OR push_bit (7 * i) v, int (i + length (put_uvarint v)))"
  using assms
proof (induction v arbitrary: i x rule: put_uvarint.induct)
  case (1 v)
  show ?case
  proof (cases "0x80 \<le> v")
    case True
    then have v: "128 \<le> unat v" by (simp add: word_le_nat_alt)
    have "i \<noteq> 9" using v "1.prems"(2) by auto
    with "1.prems" have i: "Suc i \<le> 9" and e: "64 - 7 * i = (64 - 7 * Suc i) + 7" by auto
    have "unat (drop_bit 7 v) < 2 ^ (64 - 7 * Suc i)"
      using "1.prems"(2) unfolding e by (rule unat_drop_bit_less)
    note IH = "1.IH" [OF True i this]
    have p: "put_uvarint v = (ucast v OR 0x80) # put_uvarint (drop_bit 7 v)"
      using True by (subst put_uvarint.simps) simp
    let ?g = "ucast ((ucast v OR 0x80 :: u8) AND 0x7f) :: u64"
    have "uvarint_loop (put_uvarint v @ rest) i x =
        uvarint_loop (put_uvarint (drop_bit 7 v) @ rest) (Suc i) (x OR push_bit (7 * i) ?g)"
      using i by (simp only: p append_Cons uvarint_loop.simps(2) put_uvarint_high_bit if_False)
        (simp add: MaxVarintLen64_def)
    also have "\<dots> = (x OR (push_bit (7 * i) ?g OR push_bit (7 * i + 7) (drop_bit 7 v)),
        int (Suc i + length (put_uvarint (drop_bit 7 v))))"
      by (simp only: IH or.assoc) (simp only: mult_Suc_right add.commute)
    finally show ?thesis by (simp only: push_bit_group p) simp
  next
    case False
    then have v: "v < 0x80" by simp
    have b: "(ucast v :: u8) < 0x80"
      using v by (simp add: word_less_nat_alt unat_ucast_u8)
    have "i = 9 \<Longrightarrow> \<not> 1 < (ucast v :: u8)"
      using "1.prems"(2) v by (simp add: word_less_nat_alt unat_ucast_u8)
    with v b "1.prems"(1) show ?thesis
      by (subst put_uvarint.simps, subst (2) put_uvarint.simps)
        (auto simp: MaxVarintLen64_def ucast_ucast_u8)
  qed
qed

lemma put_uvarint_not_Nil [simp]: "put_uvarint v \<noteq> []"
  by (subst put_uvarint.simps) simp

lemma binary_Uvarint_put_uvarint:
  "binary_Uvarint (put_uvarint v @ rest) = (v, int (length (put_uvarint v)))"
  using uvarint_loop_put_uvarint [of 0 v rest 0] unsigned_less [of v]
  by (simp add: binary_Uvarint_def)

lemma put_uvarint_max: "length (put_uvarint v) \<le> 10"
proof -
  have "length (put_uvarint v) \<le> 10 - i" if "i \<le> 9" "unat v < 2 ^ (64 - 7 * i)" for i v
    using that
  proof (induction v arbitrary: i rule: put_uvarint.induct)
    case (1 v)
    show ?case
    proof (cases "0x80 \<le> v")
      case True
      then have v: "128 \<le> unat v" by (simp add: word_le_nat_alt)
      have "i \<noteq> 9" using v "1.prems"(2) by auto
      with "1.prems" have i: "Suc i \<le> 9" and e: "64 - 7 * i = (64 - 7 * Suc i) + 7" by auto
      have "unat (drop_bit 7 v) < 2 ^ (64 - 7 * Suc i)"
        using "1.prems"(2) unfolding e by (rule unat_drop_bit_less)
      from "1.IH" [OF True i this] True i show ?thesis by (subst put_uvarint.simps) simp
    next
      case False
      with "1.prems" show ?thesis by (subst put_uvarint.simps) simp
    qed
  qed
  from this [of 0 v] show ?thesis using unsigned_less [of v] by simp
qed

section \<open>Readers invert writers\<close>

text \<open>
  The reader laws are stated at a cursor: the buffer is what was already read, the bytes of the
  value, and what follows; the reader returns the value and stands before what follows.
\<close>

definition reader_at :: "u8 list \<Rightarrow> u8 list \<Rightarrow> byteReader" where
  "reader_at before after = \<lparr>rbuf = before @ after, rpos = length before\<rparr>"

lemma reader_at_start: "\<lparr>rbuf = buf, rpos = 0\<rparr> = reader_at [] buf"
  by (simp add: reader_at_def)

lemma rest_reader_at [simp]: "drop (rpos (reader_at before after)) (rbuf (reader_at before after)) = after"
  by (simp add: reader_at_def)

lemma r_u8_at [simp, roundtrip]:
  "r_u8 (reader_at before (b # after)) = Inr (b, reader_at (before @ [b]) after)"
  by (simp add: r_u8_def reader_at_def)

lemma r_uvarint_at [simp, roundtrip]:
  "r_uvarint (reader_at before (put_uvarint v @ after)) = Inr (v, reader_at (before @ put_uvarint v) after)"
  by (simp add: r_uvarint_def reader_at_def binary_Uvarint_put_uvarint)

lemma r_varint_at [simp, roundtrip]:
  "r_varint (reader_at before (put_uvarint (zigzag v) @ after)) =
     Inr (v, reader_at (before @ put_uvarint (zigzag v)) after)"
  by (simp add: r_varint_def)

lemma advance_reader_at:
  "k = length x \<Longrightarrow> (reader_at before (x @ after))\<lparr>rpos := rpos (reader_at before (x @ after)) + k\<rparr> =
     reader_at (before @ x) after"
  by (simp add: reader_at_def)

lemma w_append:
  "w_u8 b w = w @ [b]" "w_uvarint v w = w @ put_uvarint v" "w_varint i w = w @ put_uvarint (zigzag i)"
  by (simp_all add: w_u8_def w_uvarint_def w_varint_def)

section \<open>Bit streams\<close>

text \<open>
  The abstract view of a packed body: a list of bits, most significant first. The accumulator
  \<^verbatim>\<open>cur\<close> with \<^verbatim>\<open>nbits\<close> stands for its low \<open>nbits\<close> bits; the bits above are junk that the code
  never masks off.
\<close>

definition to_bits :: "nat \<Rightarrow> 'a::len word \<Rightarrow> bool list" where
  "to_bits n w = map (bit w) (rev [0..<n])"

definition bytes_bits :: "u8 list \<Rightarrow> bool list" where
  "bytes_bits bs = concat (map (to_bits 8) bs)"

lemma length_to_bits [simp]: "length (to_bits n w) = n"
  by (simp add: to_bits_def)

lemma to_bits_0 [simp]: "to_bits 0 w = []"
  by (simp add: to_bits_def)

lemma to_bits_cong: "(\<And>k. k < n \<Longrightarrow> bit v k = bit w k) \<Longrightarrow> to_bits n v = to_bits n w"
  by (simp add: to_bits_def)

lemma to_bits_add: "to_bits (m + n) w = to_bits m (drop_bit n w) @ to_bits n w"
proof -
  have "[0..<m + n] = [0..<n] @ [n..<n + m]"
    using upt_add_eq_append [of 0 n m] by (simp add: add.commute)
  also have "[n..<n + m] = map (\<lambda>k. k + n) [0..<m]"
    using map_add_upt [of n m] by (simp add: add.commute)
  finally show ?thesis
    by (simp add: to_bits_def rev_map bit_drop_bit_eq o_def add.commute)
qed

lemma to_bits_inj:
  assumes "to_bits n v = to_bits n w" and "unat v < 2 ^ n" and "unat w < 2 ^ n"
  shows "v = w"
proof (rule bit_word_eqI)
  fix k
  have small: "\<not> bit x k" if "n \<le> k" "unat x < 2 ^ n" for x :: "'a word"
  proof -
    have "unat x < 2 ^ k" using that power_increasing [of n k "2::nat"] by linarith
    then have "\<not> bit (unat x) k" by (simp add: bit_iff_odd)
    then show ?thesis by (simp add: bit_unsigned_iff)
  qed
  show "bit v k = bit w k"
  proof (cases "k < n")
    case True
    have "to_bits n v ! (n - Suc k) = to_bits n w ! (n - Suc k)" using assms(1) by simp
    with True show ?thesis by (simp add: to_bits_def rev_nth)
  next
    case False
    with assms(2,3) small [of v] small [of w] show ?thesis by simp
  qed
qed

lemma bytes_bits_simps [simp]:
  "bytes_bits [] = []"
  "bytes_bits (b # bs) = to_bits 8 b @ bytes_bits bs"
  "bytes_bits (as @ bs) = bytes_bits as @ bytes_bits bs"
  by (simp_all add: bytes_bits_def)

lemma length_bytes_bits [simp]: "length (bytes_bits bs) = 8 * length bs"
  by (induction bs) simp_all

lemma to_bits_zero [simp]: "to_bits n 0 = replicate n False"
  by (rule nth_equalityI) (auto simp: to_bits_def)

lemma to_bits_push:
  assumes "m + w \<le> 64"
  shows "to_bits (m + w) (push_bit w cur OR (u AND mask w)) = to_bits m cur @ to_bits w (u :: u64)"
  unfolding to_bits_add
  using assms
  by (intro arg_cong2 [where f = append] to_bits_cong)
    (auto simp: bit_simps)

lemma to_bits_ucast_byte: "to_bits 8 (ucast w :: u8) = to_bits 8 (w :: u64)"
  by (rule to_bits_cong) (simp add: bit_ucast_iff)

lemma to_bits_push_byte:
  assumes "m + 8 \<le> 64"
  shows "to_bits (m + 8) (push_bit 8 cur OR ucast (b :: u8) :: u64) = to_bits m cur @ to_bits 8 b"
  unfolding to_bits_add
  using assms
  by (intro arg_cong2 [where f = append] to_bits_cong)
    (auto simp: bit_simps dest: bit_imp_le_length)

section \<open>The bit packer as a stream\<close>

lemma emit_bytes_bits:
  "emit_bytes cur nbits dst = (dst', nb') \<Longrightarrow>
     nb' < 8 \<and> bytes_bits dst' @ to_bits nb' cur = bytes_bits dst @ to_bits nbits cur"
proof (induction cur nbits dst rule: emit_bytes.induct)
  case (1 cur nbits dst)
  show ?case
  proof (cases "8 \<le> nbits")
    case True
    let ?b = "ucast (drop_bit (nbits - 8) cur) :: u8"
    have "emit_bytes cur (nbits - 8) (dst @ [?b]) = (dst', nb')"
      using "1.prems" True by (subst (asm) emit_bytes.simps) simp
    from "1.IH" [OF True this] True show ?thesis
      using to_bits_add [of 8 "nbits - 8" cur] by (simp add: to_bits_ucast_byte)
  next
    case False
    with "1.prems" show ?thesis by (subst (asm) emit_bytes.simps) auto
  qed
qed

lemma pack_loop_bits:
  assumes "pack_loop width us cur nbits dst = (cur', nb', dst')" and "nbits < 8" and "width \<le> 57"
  shows "nb' < 8 \<and> bytes_bits dst' @ to_bits nb' cur' =
    bytes_bits dst @ to_bits nbits cur @ concat (map (to_bits width) us)"
  using assms
proof (induction us arbitrary: cur nbits dst)
  case Nil
  then show ?case by simp
next
  case (Cons u us)
  let ?c = "push_bit width cur OR (u AND mask width)"
  obtain d n where e: "emit_bytes ?c (nbits + width) dst = (d, n)" by force
  from emit_bytes_bits [OF e] have n: "n < 8"
    and b: "bytes_bits d @ to_bits n ?c = bytes_bits dst @ to_bits (nbits + width) ?c" by auto
  have "pack_loop width us ?c n d = (cur', nb', dst')"
    using Cons.prems(1) e by (simp add: Let_def flip: mask_eq_exp_minus_1)
  from Cons.IH [OF this n Cons.prems(3)] b Cons.prems show ?case
    by (simp add: to_bits_push flip: append_assoc)
qed

lemma packBits_bits:
  assumes "width \<le> 57"
  shows "\<exists>pad. bytes_bits (packBits dst us width) =
    bytes_bits dst @ concat (map (to_bits width) us) @ pad \<and> length pad < 8"
proof (cases "width = 0")
  case True
  then show ?thesis by (auto simp: packBits_def intro!: exI [of _ "[]"])
next
  case False
  obtain cur nb dst' where p: "pack_loop width us 0 0 dst = (cur, nb, dst')"
    by (cases "pack_loop width us 0 0 dst") auto
  from pack_loop_bits [OF p _ assms] have nb: "nb < 8"
    and b: "bytes_bits dst' @ to_bits nb cur = bytes_bits dst @ concat (map (to_bits width) us)" by auto
  have t: "to_bits 8 (ucast (push_bit (8 - nb) cur) :: u8) = to_bits nb cur @ replicate (8 - nb) False"
    using nb to_bits_push [of nb "8 - nb" cur 0] by (simp add: to_bits_ucast_byte)
  show ?thesis
  proof (cases "0 < nb")
    case True
    with False p b t nb show ?thesis
      by (intro exI [of _ "replicate (8 - nb) False"]) (simp add: packBits_def flip: append_assoc)
  next
    case nb0: False
    with False p b show ?thesis by (intro exI [of _ "[]"]) (simp add: packBits_def)
  qed
qed

lemma fill_bits_bits:
  assumes "width \<le> 57" and "nbits \<le> 63"
  shows "if width \<le> nbits + 8 * length src
     then \<exists>src' cur' nb'. fill_bits width src cur nbits = Inr (src', cur', nb') \<and>
       width \<le> nb' \<and> nb' \<le> 64 \<and> nb' \<le> max nbits (width + 7) \<and>
       to_bits nb' cur' @ bytes_bits src' = to_bits nbits cur @ bytes_bits src
     else fill_bits width src cur nbits = Inl ErrCorruptChunk"
  using assms(2)
proof (induction src arbitrary: cur nbits)
  case Nil
  then show ?case by (subst (1 2) fill_bits.simps) auto
next
  case (Cons b src)
  show ?case
  proof (cases "nbits < width")
    case True
    with assms(1) have le: "nbits + 8 \<le> 64" by simp
    let ?c = "push_bit 8 cur OR ucast b"
    have f: "fill_bits width (b # src) cur nbits = fill_bits width src ?c (nbits + 8)"
      using True by (subst fill_bits.simps) simp
    have t: "to_bits (nbits + 8) ?c = to_bits nbits cur @ to_bits 8 b"
      using le by (rule to_bits_push_byte)
    show ?thesis
    proof (cases "nbits + 8 \<le> 63")
      case True
      from Cons.IH [OF this, of ?c] t \<open>nbits < width\<close> show ?thesis
        by (auto simp: f max_def split: if_splits)
    next
      case False
      with \<open>nbits < width\<close> assms(1) have "\<not> nbits + 8 < width" "nbits + 8 = 64" by auto
      with t \<open>nbits < width\<close> show ?thesis
        unfolding f by (subst (1 2) fill_bits.simps) auto
    qed
  next
    case False
    with Cons.prems show ?thesis by (subst (1 2) fill_bits.simps) auto
  qed
qed

lemma unat_and_mask_less: "unat (x AND mask w) < 2 ^ w" for x :: u64
  by (simp add: unsigned_take_bit_eq flip: take_bit_eq_mask)

lemma unpack_loop_spec:
  assumes "width \<le> 57" and "nbits \<le> 63"
  shows "if n * width \<le> nbits + 8 * length src
     then \<exists>us. unpack_loop width n src cur nbits = Inr us \<and> length us = n \<and>
       (\<forall>u \<in> set us. unat u < 2 ^ width) \<and>
       concat (map (to_bits width) us) = take (n * width) (to_bits nbits cur @ bytes_bits src)
     else unpack_loop width n src cur nbits = Inl ErrCorruptChunk"
  using assms(2)
proof (induction n arbitrary: src cur nbits)
  case 0
  then show ?case by simp
next
  case (Suc n)
  note fill = fill_bits_bits [OF assms(1) Suc.prems, of src cur]
  show ?case
  proof (cases "width \<le> nbits + 8 * length src")
    case False
    with fill show ?thesis by auto
  next
    case True
    with fill obtain src' cur' nb' where f: "fill_bits width src cur nbits = Inr (src', cur', nb')"
      and nb: "width \<le> nb'" "nb' \<le> 64" "nb' \<le> max nbits (width + 7)"
      and bits: "to_bits nb' cur' @ bytes_bits src' = to_bits nbits cur @ bytes_bits src" by auto
    let ?u = "drop_bit (nb' - width) cur' AND mask width"
    have len: "nb' + 8 * length src' = nbits + 8 * length src"
      using arg_cong [OF bits, of length] by simp
    have u: "to_bits width ?u = to_bits width (drop_bit (nb' - width) cur')"
      using assms(1) by (intro to_bits_cong) (simp add: bit_simps)
    have split: "to_bits nbits cur @ bytes_bits src =
        to_bits width ?u @ to_bits (nb' - width) cur' @ bytes_bits src'"
      using to_bits_add [of width "nb' - width" cur'] nb by (simp add: u flip: bits)
    have step: "unpack_loop width (Suc n) src cur nbits =
        res_bind (unpack_loop width n src' cur' (nb' - width)) (\<lambda>us. Inr (?u # us))"
      by (simp add: f flip: mask_eq_exp_minus_1)
    have "nb' - width \<le> 63" using nb Suc.prems assms(1) by (cases "width = 0") auto
    from Suc.IH [OF this, of src' cur'] show ?thesis
      unfolding step split using len nb
      by (auto simp: unat_and_mask_less add.commute split: if_splits)
  qed
qed

lemma unpackBits_packBits:
  assumes "width \<le> 57" and "\<forall>u \<in> set us. unat u < 2 ^ width"
  shows "unpackBits (packBits [] us width @ rest) (length us) width = Inr us"
proof (cases "width = 0")
  case True
  then have "us = replicate (length us) 0"
    using assms(2) by (intro nth_equalityI) (auto simp: unat_eq_zero)
  with True show ?thesis by (simp add: unpackBits_def)
next
  case False
  obtain pad where pad: "bytes_bits (packBits [] us width) = concat (map (to_bits width) us) @ pad"
    using packBits_bits [OF assms(1), of "[]" us] by auto
  have len: "length (concat (map (to_bits width) us)) = length us * width"
    by (induction us) simp_all
  have enough: "length us * width \<le> 8 * length (packBits [] us width)"
    using arg_cong [OF pad, of length] len by simp
  with unpack_loop_spec [OF assms(1), of 0 "length us" "packBits [] us width @ rest" 0]
  obtain vs where vs: "unpack_loop width (length us) (packBits [] us width @ rest) 0 0 = Inr vs"
    "length vs = length us" "\<forall>u \<in> set vs. unat u < 2 ^ width"
    "concat (map (to_bits width) vs) = take (length us * width) (bytes_bits (packBits [] us width @ rest))"
    by auto
  have "concat (map (to_bits width) vs) = concat (map (to_bits width) us)"
    using vs(4) len by (simp add: pad)
  then have "map (to_bits width) vs = map (to_bits width) us"
    by (rule concat_injective) (auto simp: vs(2) zip_map1 zip_map2)
  then have "vs = us"
    using vs(2,3) assms(2) by (auto simp: list_eq_iff_nth_eq intro!: to_bits_inj [of width])
  with False vs(1) show ?thesis by (simp add: unpackBits_def)
qed

lemma length_packBits:
  assumes "width \<le> 57"
  shows "length (packBits [] us width) = (length us * width + 7) div 8"
proof -
  have len: "length (concat (map (to_bits width) us)) = length us * width"
    by (induction us) simp_all
  obtain pad where "bytes_bits (packBits [] us width) = concat (map (to_bits width) us) @ pad"
    and "length pad < 8"
    using packBits_bits [OF assms, of "[]" us] by auto
  from arg_cong [OF this(1), of length] this(2) len show ?thesis by simp
qed

lemma packBits_append: "packBits dst us width = dst @ packBits [] us width"
proof -
  have e: "emit_bytes cur n (d @ e) = map_prod ((@) d) id (emit_bytes cur n e)" for cur n d e
    by (induction cur n e rule: emit_bytes.induct) (subst (1 2) emit_bytes.simps, auto simp: id_def)
  have "pack_loop width us cur n (d @ e) = map_prod id (map_prod id ((@) d)) (pack_loop width us cur n e)" for cur n d e
    by (induction us arbitrary: cur n e) (auto simp: Let_def e split: prod.splits)
  from this [of 0 0 dst "[]"] show ?thesis
    by (auto simp: packBits_def split: prod.splits)
qed

lemma fold_word_max:
  "(\<forall>u \<in> set us. u \<le> fold (\<lambda>u m. if m < u then u else m) us m) \<and>
   m \<le> fold (\<lambda>u m. if m < u then u else m) us m \<and>
   fold (\<lambda>u m. if m < u then u else m) us m \<in> insert m (set us)"
  for us :: "u64 list"
proof (induction us arbitrary: m)
  case Nil
  then show ?case by simp
next
  case (Cons u us)
  show ?case
  proof (cases "m < u")
    case True
    with Cons.IH [of u] show ?thesis by (auto intro: order.trans [of m u])
  next
    case False
    with Cons.IH [of m] show ?thesis by (auto simp: not_less intro: order.trans [of u m])
  qed
qed

lemma bitPackWidth_bound:
  assumes "\<forall>u \<in> set us. len64 u \<le> w"
  shows "bitPackWidth us \<le> w" and "\<forall>u \<in> set us. unat u < 2 ^ bitPackWidth us"
proof -
  define mx where "mx = fold (\<lambda>u m. if m < u then u else m) us (0 :: u64)"
  have mx: "mx \<in> insert 0 (set us)" and le: "\<forall>u \<in> set us. u \<le> mx"
    using fold_word_max [of us 0] by (auto simp: mx_def)
  have w: "bitPackWidth us = (if mx = 0 then 0 else len64 mx)"
    by (simp add: bitPackWidth_def mx_def)
  show "bitPackWidth us \<le> w" using assms mx by (auto simp: w)
  show "\<forall>u \<in> set us. unat u < 2 ^ bitPackWidth us"
  proof
    fix u
    assume "u \<in> set us"
    with le have "unat u \<le> unat mx" by (simp add: word_le_nat_alt)
    moreover have "unat mx < 2 ^ bitPackWidth us"
      using len64_le_iff [of mx "len64 mx"] by (simp add: w)
    ultimately show "unat u < 2 ^ bitPackWidth us" by linarith
  qed
qed

section \<open>Properties\<close>

text \<open>
  \<^verbatim>\<open>unpackBits\<close> on any bytes, for a field width the encoder can emit: with too few bits it
  reports a corrupt chunk; otherwise it returns exactly the \<open>n\<close> fields that the first
  \<open>n * width\<close> bits spell, most significant bit first. It inverts \<^verbatim>\<open>packBits\<close>, whose output is
  \<open>n * width\<close> bits rounded up to whole bytes.
\<close>

theorem unpackBits_spec:
  assumes "width \<le> 57" and "\<forall>u \<in> set vs. unat u < 2 ^ width"
  shows "(if n * width \<le> 8 * length src
     then \<exists>us. unpackBits src n width = Inr us \<and> length us = n \<and>
       (\<forall>u \<in> set us. unat u < 2 ^ width) \<and>
       concat (map (to_bits width) us) = take (n * width) (bytes_bits src)
     else unpackBits src n width = Inl ErrCorruptChunk) \<and>
   unpackBits (packBits [] vs width) (length vs) width = Inr vs \<and>
   length (packBits [] vs width) = (length vs * width + 7) div 8"
proof (intro conjI)
  show "if n * width \<le> 8 * length src
     then \<exists>us. unpackBits src n width = Inr us \<and> length us = n \<and>
       (\<forall>u \<in> set us. unat u < 2 ^ width) \<and>
       concat (map (to_bits width) us) = take (n * width) (bytes_bits src)
     else unpackBits src n width = Inl ErrCorruptChunk"
  proof (cases "width = 0")
    case True
    then show ?thesis by (auto simp: unpackBits_def intro!: concat_eq_Nil_conv [THEN iffD2])
  next
    case False
    with unpack_loop_spec [OF assms(1), of 0 n src 0] show ?thesis by (auto simp: unpackBits_def)
  qed
qed (use unpackBits_packBits [OF assms, of "[]"] length_packBits [OF assms(1)] in simp_all)

theorem unpackBits_spec_witness:
  "unpackBits (packBits [] [5, 0, 7] 3) (length [5, 0, 7 :: u64]) 3 = Inr [5, 0, 7] \<and>
   unpackBits [1] 3 3 = Inl ErrCorruptChunk"
  using unpackBits_spec [of 3 "[5, 0, 7]" 3 "[1]"] by auto

text \<open>
  A \<^verbatim>\<open>varint\<close> written at any point of a buffer takes at most ten bytes and is read back as
  the same signed 64-bit value, with the cursor just after it, whatever bytes follow.
\<close>

theorem varint_roundtrip:
  "length (w_varint v before) \<le> length before + MaxVarintLen64 \<and>
   r_varint \<lparr>rbuf = w_varint v before @ after, rpos = length before\<rparr> =
     Inr (v, \<lparr>rbuf = w_varint v before @ after, rpos = length (w_varint v before)\<rparr>)"
  using r_varint_at [of before v after] put_uvarint_max [of "zigzag v"]
  by (simp add: w_append reader_at_def MaxVarintLen64_def)

end
