(* ===== verification/TsdbBuilder.thy ===== *)
theory TsdbBuilder
  imports PointHeap Varint "HOL-Library.AList"
begin

text \<open>
  The streaming TSDB block builder (\<^verbatim>\<open>asap-gorilla-go/tsdb.go\<close>): samples are held per series in a heap of pending points until the
  watermark passes them, then appended to the series' open XOR chunk or dropped; a queue of series ordered by
  their earliest pending point tells which series to visit.

  A pointer to a series state is its key: states are created by \<^verbatim>\<open>admitSeriesLocked\<close>, stored under their key and never
  removed. The map of series is an association list; its order, which in Go is arbitrary, plays no role.
  The writers of the chunk, index and meta files are \<^verbatim>\<open>os\<close> and Prometheus code: \<open>Finalize\<close> yields what they are called with.
\<close>

section \<open>State\<close>

record ('c, 'l) tsdbSeriesState =
  tsKey :: gostr
  tsLabels :: 'l
  tsPending :: "pendingPoint list"
  tsOpenChunk :: "'c option"
  tsOpenMin :: int
  tsOpenMax :: int
  tsOpenCount :: int
  tsLastTs :: int
  tsHasLast :: bool
  tsChunks :: "'c chunkMeta list"
  tsSamples :: nat

record drainEntry =
  deT :: int
  deSt :: gostr

record ('c, 'l) StreamingTSDBBlockBuilder =
  bReorderGrace :: int
  bSamplesPerChk :: int
  bExtLabels :: goattrs
  bSeries :: "(gostr \<times> ('c, 'l) tsdbSeriesState) list"
  bDrainQueue :: "drainEntry list"
  bMaxObserved :: int
  bMinTime :: int
  bMaxTime :: int
  bNumSamples :: nat
  bNumChunks :: nat
  bNumDropped :: nat
  bClosed :: bool

record StreamingTSDBOptions =
  toReorderGrace :: i64
  toSamplesPerChunk :: int
  toExternalLabels :: goattrs

definition defaultTSDBSamplesPerChunk :: int where
  "defaultTSDBSamplesPerChunk = 120"

definition NewStreamingTSDBBlockBuilder :: "StreamingTSDBOptions \<Rightarrow> ('c, 'l) StreamingTSDBBlockBuilder" where
  "NewStreamingTSDBBlockBuilder opts =
     \<lparr>bReorderGrace = unixMs (toReorderGrace opts),
      bSamplesPerChk = (if toSamplesPerChunk opts \<le> 0 then defaultTSDBSamplesPerChunk else toSamplesPerChunk opts),
      bExtLabels = toExternalLabels opts, bSeries = [], bDrainQueue = [], bMaxObserved = 0,
      bMinTime = MaxInt64, bMaxTime = MinInt64,
      bNumSamples = 0, bNumChunks = 0, bNumDropped = 0, bClosed = False\<rparr>"

section \<open>Series identity\<close>

definition MetricName :: gostr where
  "MetricName = bytes_of ''__name__''"

definition sanitizePromLabelValue :: "gostr \<Rightarrow> gostr" where
  "sanitizePromLabelValue v = (if v = [] then bytes_of ''unknown'' else v)"

definition labelsFor :: "('c, 'l) promLib \<Rightarrow> gostr \<Rightarrow> goattrs \<Rightarrow> goattrs \<Rightarrow> 'l" where
  "labelsFor lib metricName attrs extLabels =
     lBuild lib ((MetricName, sanitizePromLabelValue metricName) # attrs @ extLabels)"

definition resolveLabelValue :: "gostr \<Rightarrow> gostr \<Rightarrow> goattrs \<Rightarrow> goattrs \<Rightarrow> gostr option" where
  "resolveLabelValue k metricName attrs extLabels =
     (case map_of extLabels k of Some v \<Rightarrow> Some v
      | None \<Rightarrow> (case map_of attrs k of Some v \<Rightarrow> Some v
      | None \<Rightarrow> if k = MetricName then Some (sanitizePromLabelValue metricName) else None))"

definition appendLenPrefixed :: "u8 list \<Rightarrow> gostr \<Rightarrow> u8 list" where
  "appendLenPrefixed dst s = dst @ put_uvarint (of_nat (length s)) @ s"

fun seriesKeyLoop :: "gostr \<Rightarrow> goattrs \<Rightarrow> goattrs \<Rightarrow> gostr list \<Rightarrow> gostr \<Rightarrow> bool \<Rightarrow> u8 list \<Rightarrow> u8 list" where
  "seriesKeyLoop metricName attrs extLabels [] prev first buf = buf"
| "seriesKeyLoop metricName attrs extLabels (k # ks) prev first buf =
     (if \<not> first \<and> k = prev then seriesKeyLoop metricName attrs extLabels ks prev first buf
      else case resolveLabelValue k metricName attrs extLabels of
             None \<Rightarrow> seriesKeyLoop metricName attrs extLabels ks k False buf
           | Some v \<Rightarrow> if v = [] then seriesKeyLoop metricName attrs extLabels ks k False buf
               else seriesKeyLoop metricName attrs extLabels ks k False (appendLenPrefixed (appendLenPrefixed buf k) v))"

definition appendSeriesKeyInto :: "gostr \<Rightarrow> goattrs \<Rightarrow> goattrs \<Rightarrow> u8 list" where
  "appendSeriesKeyInto metricName attrs extLabels =
     (let keys = MetricName # filter (\<lambda>k. k \<noteq> MetricName) (map fst attrs)
                 @ filter (\<lambda>k. k \<noteq> MetricName) (map fst extLabels)
      in seriesKeyLoop metricName attrs extLabels (sort keys) [] True [])"

definition SeriesKey :: "gostr \<Rightarrow> goattrs \<Rightarrow> goattrs \<Rightarrow> gostr" where
  "SeriesKey metricName attrs extLabels = appendSeriesKeyInto metricName attrs extLabels"

definition admitSeriesLocked ::
    "('c, 'l) promLib \<Rightarrow> gostr \<Rightarrow> gostr \<Rightarrow> goattrs \<Rightarrow> ('c, 'l) StreamingTSDBBlockBuilder \<Rightarrow> ('c, 'l) StreamingTSDBBlockBuilder" where
  "admitSeriesLocked lib key metricName attrs b =
     (let st = \<lparr>tsKey = key, tsLabels = labelsFor lib metricName attrs (bExtLabels b), tsPending = [],
                tsOpenChunk = None, tsOpenMin = 0, tsOpenMax = 0, tsOpenCount = 0, tsLastTs = MinInt64,
                tsHasLast = False, tsChunks = [], tsSamples = 0\<rparr>
      in b\<lparr>bSeries := AList.update key st (bSeries b)\<rparr>)"

text \<open>The builder in which the series of a key exists.\<close>

definition getSeriesKeyed ::
    "('c, 'l) promLib \<Rightarrow> gostr \<Rightarrow> gostr \<Rightarrow> goattrs \<Rightarrow> ('c, 'l) StreamingTSDBBlockBuilder \<Rightarrow> ('c, 'l) StreamingTSDBBlockBuilder" where
  "getSeriesKeyed lib key metricName attrs b =
     (if map_of (bSeries b) key \<noteq> None then b else admitSeriesLocked lib key metricName attrs b)"

definition getSeries ::
    "('c, 'l) promLib \<Rightarrow> gostr \<Rightarrow> goattrs \<Rightarrow> ('c, 'l) StreamingTSDBBlockBuilder \<Rightarrow> gostr \<times> ('c, 'l) StreamingTSDBBlockBuilder" where
  "getSeries lib metricName attrs b =
     (let key = appendSeriesKeyInto metricName attrs (bExtLabels b)
      in if map_of (bSeries b) key \<noteq> None then (key, b) else (key, admitSeriesLocked lib key metricName attrs b))"

section \<open>Chunks\<close>

type_synonym ('c, 'l) builder_series = "('c, 'l) StreamingTSDBBlockBuilder \<times> ('c, 'l) tsdbSeriesState"

definition flushOpenChunkLocked :: "('c, 'l) builder_series \<Rightarrow> ('c, 'l) builder_series" where
  "flushOpenChunkLocked bs = (case bs of (b, st) \<Rightarrow>
     (case tsOpenChunk st of None \<Rightarrow> (b, st)
      | Some c \<Rightarrow> if tsOpenCount st = 0 then (b, st)
          else (b\<lparr>bNumChunks := bNumChunks b + 1\<rparr>,
                st\<lparr>tsChunks := tsChunks st @ [\<lparr>mChunk = c, mMinTime = tsOpenMin st, mMaxTime = tsOpenMax st\<rparr>],
                   tsOpenChunk := None, tsOpenCount := 0\<rparr>)))"

definition appendLocked :: "('c, 'l) promLib \<Rightarrow> pendingPoint \<Rightarrow> ('c, 'l) builder_series \<Rightarrow> ('c, 'l) builder_series" where
  "appendLocked lib p bs = (case bs of (b, st) \<Rightarrow>
     (let st1 = (if tsOpenChunk st = None
                 then st\<lparr>tsOpenChunk := Some (xNew lib), tsOpenMin := ppT p, tsOpenMax := ppT p, tsOpenCount := 0\<rparr> else st);
          st2 = st1\<lparr>tsOpenChunk := map_option (\<lambda>c. xAppend lib c (ppT p) (ppV p)) (tsOpenChunk st1),
                    tsOpenMax := ppT p, tsOpenCount := tsOpenCount st1 + 1, tsLastTs := ppT p, tsHasLast := True,
                    tsSamples := tsSamples st1 + 1\<rparr>;
          b2 = b\<lparr>bNumSamples := bNumSamples b + 1,
                 bMinTime := (if ppT p < bMinTime b then ppT p else bMinTime b),
                 bMaxTime := (if ppT p > bMaxTime b then ppT p else bMaxTime b)\<rparr>
      in if tsOpenCount st2 \<ge> bSamplesPerChk b2 then flushOpenChunkLocked (b2, st2) else (b2, st2)))"

section \<open>Draining\<close>

lemma tsPending_flush [simp]: "tsPending (snd (flushOpenChunkLocked bs)) = tsPending (snd bs)"
  by (auto simp: flushOpenChunkLocked_def split: prod.splits option.splits)

lemma tsPending_append [simp]: "tsPending (snd (appendLocked lib p bs)) = tsPending (snd bs)"
  by (auto simp: appendLocked_def Let_def split: prod.splits)

text \<open>The inner loop of \<^verbatim>\<open>drainWatermarkLocked\<close>, on one series.\<close>

function drainPoints :: "('c, 'l) promLib \<Rightarrow> int \<Rightarrow> ('c, 'l) builder_series \<Rightarrow> ('c, 'l) builder_series" where
  "drainPoints lib w bs = (case bs of (b, st) \<Rightarrow>
     if tsPending st \<noteq> [] \<and> ppT (tsPending st ! 0) \<le> w
     then let p = fst (heap_pop ppT (tsPending st));
              st1 = st\<lparr>tsPending := snd (heap_pop ppT (tsPending st))\<rparr>
          in if tsHasLast st1 \<and> ppT p \<le> tsLastTs st1
             then drainPoints lib w (b\<lparr>bNumDropped := bNumDropped b + 1\<rparr>, st1)
             else drainPoints lib w (appendLocked lib p (b, st1))
     else (b, st))"
  by pat_completeness auto
termination
  by (relation "measure (\<lambda>(lib, w, bs). length (tsPending (snd bs)))") (auto simp: length_heap_pop)

declare drainPoints.simps [simp del]

text \<open>One turn of the outer loop: the series of the queue's root is visited, and queued again if points are left.\<close>

definition drainTurn :: "('c, 'l) promLib \<Rightarrow> int \<Rightarrow> ('c, 'l) StreamingTSDBBlockBuilder \<Rightarrow> ('c, 'l) StreamingTSDBBlockBuilder" where
  "drainTurn lib w b =
     (let key = deSt (fst (heap_pop deT (bDrainQueue b)));
          b1 = b\<lparr>bDrainQueue := snd (heap_pop deT (bDrainQueue b))\<rparr>
      in case map_of (bSeries b1) key of
           None \<Rightarrow> b1
         | Some st \<Rightarrow>
             (let (b2, st2) = drainPoints lib w (b1, st);
                  b3 = b2\<lparr>bSeries := AList.update key st2 (bSeries b2)\<rparr>
              in if tsPending st2 \<noteq> []
                 then b3\<lparr>bDrainQueue := heap_push deT \<lparr>deT = ppT (tsPending st2 ! 0), deSt = key\<rparr> (bDrainQueue b3)\<rparr>
                 else b3))"

text \<open>The three ways a drain step can go, as the loops branch.\<close>

lemma drainPoints_cases:
  obtains (stop) "\<not> (tsPending st \<noteq> [] \<and> ppT (tsPending st ! 0) \<le> w)" "drainPoints lib w (b, st) = (b, st)"
  | (drop) "tsPending st \<noteq> []" "ppT (tsPending st ! 0) \<le> w" "tsHasLast st" "ppT (tsPending st ! 0) \<le> tsLastTs st"
      "drainPoints lib w (b, st) =
         drainPoints lib w (b\<lparr>bNumDropped := bNumDropped b + 1\<rparr>, st\<lparr>tsPending := snd (heap_pop ppT (tsPending st))\<rparr>)"
  | (add) "tsPending st \<noteq> []" "ppT (tsPending st ! 0) \<le> w" "\<not> (tsHasLast st \<and> ppT (tsPending st ! 0) \<le> tsLastTs st)"
      "drainPoints lib w (b, st) =
         drainPoints lib w (appendLocked lib (tsPending st ! 0) (b, st\<lparr>tsPending := snd (heap_pop ppT (tsPending st))\<rparr>))"
  using drainPoints.simps [of lib w "(b, st)"] by (auto simp: Let_def heap_pop_root split: if_splits)

lemma drainPoints_induct [consumes 0, case_names stop drop add]:
  assumes "\<And>b st. \<not> (tsPending st \<noteq> [] \<and> ppT (tsPending st ! 0) \<le> w) \<Longrightarrow> P (b, st) (b, st)"
    and "\<And>b st r. tsPending st \<noteq> [] \<Longrightarrow> ppT (tsPending st ! 0) \<le> w \<Longrightarrow> tsHasLast st \<Longrightarrow> ppT (tsPending st ! 0) \<le> tsLastTs st \<Longrightarrow>
           P (b\<lparr>bNumDropped := bNumDropped b + 1\<rparr>, st\<lparr>tsPending := snd (heap_pop ppT (tsPending st))\<rparr>) r \<Longrightarrow> P (b, st) r"
    and "\<And>b st r. tsPending st \<noteq> [] \<Longrightarrow> ppT (tsPending st ! 0) \<le> w \<Longrightarrow> \<not> (tsHasLast st \<and> ppT (tsPending st ! 0) \<le> tsLastTs st) \<Longrightarrow>
           P (appendLocked lib (tsPending st ! 0) (b, st\<lparr>tsPending := snd (heap_pop ppT (tsPending st))\<rparr>)) r \<Longrightarrow> P (b, st) r"
  shows "P bs (drainPoints lib w bs)"
proof (induction "length (tsPending (snd bs))" arbitrary: bs rule: less_induct)
  case less
  obtain b st where bs: "bs = (b, st)" by (cases bs)
  show ?case unfolding bs
  proof (cases rule: drainPoints_cases [where st = st and w = w and lib = lib and b = b])
    case stop
    then show "P (b, st) (drainPoints lib w (b, st))" using assms(1) by simp
  next
    case drop
    then show "P (b, st) (drainPoints lib w (b, st))" using assms(2) less bs by (simp add: length_heap_pop)
  next
    case add
    then show "P (b, st) (drainPoints lib w (b, st))" using assms(3) less bs by (simp add: length_heap_pop)
  qed
qed

lemma drainPoints_pending: "tsPending (snd (drainPoints lib w bs)) = snd (heap_drain ppT w (tsPending (snd bs)))"
  by (induction rule: drainPoints_induct [where bs = bs and lib = lib and w = w]) (auto simp: heap_drain_stop heap_drain_step)

text \<open>What a drained series leaves of the rest of the builder.\<close>

definition same_frame :: "('c, 'l) StreamingTSDBBlockBuilder \<Rightarrow> ('c, 'l) StreamingTSDBBlockBuilder \<Rightarrow> bool" where
  "same_frame b b' \<longleftrightarrow>
     bReorderGrace b' = bReorderGrace b \<and> bSamplesPerChk b' = bSamplesPerChk b \<and> bExtLabels b' = bExtLabels b \<and>
     bSeries b' = bSeries b \<and> bDrainQueue b' = bDrainQueue b \<and> bMaxObserved b' = bMaxObserved b \<and> bClosed b' = bClosed b"

lemma same_frame_flush: "same_frame (fst bs) (fst (flushOpenChunkLocked bs))"
  by (auto simp: same_frame_def flushOpenChunkLocked_def split: prod.splits option.splits)

lemma same_frame_append: "same_frame (fst bs) (fst (appendLocked lib p bs))"
  by (cases bs) (auto simp: same_frame_def appendLocked_def flushOpenChunkLocked_def Let_def split: option.splits)

lemma same_frame_drain: "same_frame (fst bs) (fst (drainPoints lib w bs))"
proof (induction rule: drainPoints_induct [where bs = bs and lib = lib and w = w])
  case (add b st r)
  then show ?case using same_frame_append [of "(b, st\<lparr>tsPending := snd (heap_pop ppT (tsPending st))\<rparr>)" lib "tsPending st ! 0"]
    by (simp add: same_frame_def)
qed (auto simp: same_frame_def)

lemma same_identity_drain:
  "tsKey (snd (drainPoints lib w bs)) = tsKey (snd bs) \<and> tsLabels (snd (drainPoints lib w bs)) = tsLabels (snd bs)"
  by (induction rule: drainPoints_induct [where bs = bs and lib = lib and w = w])
    (auto simp: appendLocked_def flushOpenChunkLocked_def Let_def split: if_splits option.splits)

lemma drainTurn_queue_count:
  assumes "bDrainQueue b \<noteq> []" and "deT (bDrainQueue b ! 0) \<le> w"
  shows "length (filter (\<lambda>e. deT e \<le> w) (bDrainQueue (drainTurn lib w b))) < length (filter (\<lambda>e. deT e \<le> w) (bDrainQueue b))"
proof -
  let ?q = "snd (heap_pop deT (bDrainQueue b))" and ?b1 = "b\<lparr>bDrainQueue := snd (heap_pop deT (bDrainQueue b))\<rparr>"
  let ?due = "\<lambda>q. length (filter (\<lambda>e. deT e \<le> w) q)"
  have q: "?due ?q < ?due (bDrainQueue b)"
    using go_heap.pop_count [OF assms(1), of "\<lambda>e. deT e \<le> w" deT] assms(2) by simp
  have "?due (bDrainQueue (drainTurn lib w b)) = ?due ?q"
  proof (cases "map_of (bSeries b) (deSt (fst (heap_pop deT (bDrainQueue b))))")
    case (Some st)
    obtain b2 st2 where d: "drainPoints lib w (?b1, st) = (b2, st2)" by fastforce
    have b2: "bDrainQueue b2 = ?q" using same_frame_drain [of "(?b1, st)" lib w] d by (simp add: same_frame_def)
    have "tsPending st2 \<noteq> [] \<longrightarrow> w < ppT (tsPending st2 ! 0)"
      using drainPoints_pending [of lib w "(?b1, st)"] heap_drain_rest [of ppT w "tsPending st"] d by simp
    then show ?thesis using Some d b2
      by (auto simp: drainTurn_def Let_def go_heap.push_count)
  qed (simp add: drainTurn_def Let_def)
  with q show ?thesis by simp
qed

text \<open>The loop visits a finite number of series: every turn takes one due entry off the queue and adds none.\<close>

function drainWatermarkLocked :: "('c, 'l) promLib \<Rightarrow> int \<Rightarrow> ('c, 'l) StreamingTSDBBlockBuilder \<Rightarrow> ('c, 'l) StreamingTSDBBlockBuilder" where
  "drainWatermarkLocked lib w b =
     (if bDrainQueue b \<noteq> [] \<and> deT (bDrainQueue b ! 0) \<le> w then drainWatermarkLocked lib w (drainTurn lib w b) else b)"
  by pat_completeness auto
termination
  by (relation "measure (\<lambda>(lib, w, b). length (filter (\<lambda>e. deT e \<le> w) (bDrainQueue b)))") (simp_all add: drainTurn_queue_count)

declare drainWatermarkLocked.simps [simp del]

section \<open>Operations\<close>

datatype tsdb_error = ErrBuilderClosed

definition addToSeriesLocked ::
    "('c, 'l) promLib \<Rightarrow> gostr \<Rightarrow> int \<Rightarrow> u64 \<Rightarrow> ('c, 'l) StreamingTSDBBlockBuilder \<Rightarrow> ('c, 'l) StreamingTSDBBlockBuilder" where
  "addToSeriesLocked lib key tms v b =
     (case map_of (bSeries b) key of
        None \<Rightarrow> b
      | Some st \<Rightarrow>
          (let pending = heap_push ppT \<lparr>ppT = tms, ppV = v\<rparr> (tsPending st);
               b1 = b\<lparr>bSeries := AList.update key (st\<lparr>tsPending := pending\<rparr>) (bSeries b)\<rparr>;
               b2 = (if ppT (pending ! 0) = tms
                     then b1\<lparr>bDrainQueue := heap_push deT \<lparr>deT = tms, deSt = key\<rparr> (bDrainQueue b1)\<rparr> else b1)
           in drainWatermarkLocked lib (bMaxObserved b2 - bReorderGrace b2) b2))"

definition observe :: "int \<Rightarrow> ('c, 'l) StreamingTSDBBlockBuilder \<Rightarrow> ('c, 'l) StreamingTSDBBlockBuilder" where
  "observe tms b = (if tms > bMaxObserved b then b\<lparr>bMaxObserved := tms\<rparr> else b)"

definition AddSample ::
    "('c, 'l) promLib \<Rightarrow> TSDBSample \<Rightarrow> ('c, 'l) StreamingTSDBBlockBuilder \<Rightarrow> tsdb_error + ('c, 'l) StreamingTSDBBlockBuilder" where
  "AddSample lib s b =
     (if bClosed b then Inl ErrBuilderClosed
      else let tms = unixMs (sTimestamp s);
               (key, b1) = getSeries lib (sMetricName s) (sAttributes s) (observe tms b)
           in Inr (addToSeriesLocked lib key tms (sValue s) b1))"

definition AddSampleKeyed ::
    "('c, 'l) promLib \<Rightarrow> gostr \<Rightarrow> TSDBSample \<Rightarrow> ('c, 'l) StreamingTSDBBlockBuilder \<Rightarrow> tsdb_error + ('c, 'l) StreamingTSDBBlockBuilder" where
  "AddSampleKeyed lib key s b =
     (if bClosed b then Inl ErrBuilderClosed
      else let tms = unixMs (sTimestamp s);
               b1 = getSeriesKeyed lib key (sMetricName s) (sAttributes s) (observe tms b)
           in Inr (addToSeriesLocked lib key tms (sValue s) b1))"

definition DrainWatermark ::
    "('c, 'l) promLib \<Rightarrow> i64 \<Rightarrow> ('c, 'l) StreamingTSDBBlockBuilder \<Rightarrow> tsdb_error + ('c, 'l) StreamingTSDBBlockBuilder" where
  "DrainWatermark lib watermark b =
     (if bClosed b then Inl ErrBuilderClosed else Inr (drainWatermarkLocked lib (unixMs watermark) b))"

definition ActiveSeries :: "('c, 'l) StreamingTSDBBlockBuilder \<Rightarrow> nat" where
  "ActiveSeries b = length (bSeries b)"

text \<open>Closing the open chunk of every series.\<close>

fun flushSeries ::
    "('c, 'l) StreamingTSDBBlockBuilder \<Rightarrow> (gostr \<times> ('c, 'l) tsdbSeriesState) list \<Rightarrow>
     ('c, 'l) StreamingTSDBBlockBuilder \<times> (gostr \<times> ('c, 'l) tsdbSeriesState) list" where
  "flushSeries b [] = (b, [])"
| "flushSeries b ((k, st) # xs) =
     (let (b1, st1) = flushOpenChunkLocked (b, st); (b2, ys) = flushSeries b1 xs in (b2, (k, st1) # ys))"

definition nonEmptySeries :: "('c, 'l) StreamingTSDBBlockBuilder \<Rightarrow> ('c, 'l) tsdbSeriesState list" where
  "nonEmptySeries b = filter (\<lambda>st. tsChunks st \<noteq> []) (map snd (bSeries b))"

definition sortedSymbols :: "('c, 'l) promLib \<Rightarrow> ('c, 'l) StreamingTSDBBlockBuilder \<Rightarrow> gostr list" where
  "sortedSymbols lib b =
     sort (remdups (concat (map (\<lambda>st. concat (map (\<lambda>(n, v). [n, v]) (lRange lib (tsLabels st)))) (nonEmptySeries b))))"

definition labelSortedSeries :: "('c, 'l) promLib \<Rightarrow> ('c, 'l) StreamingTSDBBlockBuilder \<Rightarrow> ('c, 'l) tsdbSeriesState list" where
  "labelSortedSeries lib b = sort_Slice (\<lambda>x y. lCompare lib (tsLabels x) (tsLabels y) < 0) (nonEmptySeries b)"

text \<open>The calls of \<^verbatim>\<open>WriteChunks\<close>, \<^verbatim>\<open>AddSymbol\<close> and \<^verbatim>\<open>AddSeries\<close>, in order, and the contents of \<^verbatim>\<open>meta.json\<close>.\<close>

definition writeChunks :: "('c, 'l) promLib \<Rightarrow> ('c, 'l) StreamingTSDBBlockBuilder \<Rightarrow> 'c chunkMeta list list" where
  "writeChunks lib b = map tsChunks (labelSortedSeries lib b)"

definition writeIndex ::
    "('c, 'l) promLib \<Rightarrow> ('c, 'l) StreamingTSDBBlockBuilder \<Rightarrow> gostr list \<times> (nat \<times> 'l \<times> 'c chunkMeta list) list" where
  "writeIndex lib b =
     (sortedSymbols lib b,
      map (\<lambda>(i, st). (i + 1, tsLabels st, tsChunks st)) (enumerate 0 (labelSortedSeries lib b)))"

record BlockMeta =
  bmMinTime :: int
  bmMaxTime :: int
  bmNumSamples :: nat
  bmNumFloatSamples :: nat
  bmNumSeries :: nat
  bmNumChunks :: nat

definition writeMeta :: "('c, 'l) StreamingTSDBBlockBuilder \<Rightarrow> BlockMeta" where
  "writeMeta b = \<lparr>bmMinTime = bMinTime b, bmMaxTime = bMaxTime b + 1, bmNumSamples = bNumSamples b,
     bmNumFloatSamples = bNumSamples b, bmNumSeries = length (nonEmptySeries b), bmNumChunks = bNumChunks b\<rparr>"

record ('c, 'l) TSDBBlockArtifact =
  aChunks :: "'c chunkMeta list list"
  aIndex :: "gostr list \<times> (nat \<times> 'l \<times> 'c chunkMeta list) list"
  aMeta :: BlockMeta
  aMinTime :: int
  aMaxTime :: int
  aNumSeries :: nat
  aNumSamples :: nat
  aNumChunks :: nat
  aNumOOODropped :: nat

definition Finalize ::
    "('c, 'l) promLib \<Rightarrow> ('c, 'l) StreamingTSDBBlockBuilder \<Rightarrow>
     tsdb_error + ('c, 'l) StreamingTSDBBlockBuilder \<times> ('c, 'l) TSDBBlockArtifact option" where
  "Finalize lib b =
     (if bClosed b then Inl ErrBuilderClosed
      else let b1 = drainWatermarkLocked lib MaxInt64 (b\<lparr>bClosed := True\<rparr>);
               (b2, ss) = flushSeries b1 (bSeries b1);
               b3 = b2\<lparr>bSeries := ss\<rparr>
           in if bNumSamples b3 = 0 then Inr (b3, None)
              else Inr (b3, Some \<lparr>aChunks = writeChunks lib b3, aIndex = writeIndex lib b3, aMeta = writeMeta b3,
                     aMinTime = bMinTime b3, aMaxTime = bMaxTime b3, aNumSeries = length (nonEmptySeries b3),
                     aNumSamples = bNumSamples b3, aNumChunks = bNumChunks b3, aNumOOODropped = bNumDropped b3\<rparr>))"

section \<open>The content of a series\<close>

definition emitted :: "('c \<Rightarrow> (int \<times> u64) list) \<Rightarrow> ('c, 'l) tsdbSeriesState \<Rightarrow> (int \<times> u64) list" where
  "emitted content st =
     concat (map (content \<circ> mChunk) (tsChunks st)) @ (case tsOpenChunk st of None \<Rightarrow> [] | Some c \<Rightarrow> content c)"

definition chunk_ok :: "('c \<Rightarrow> (int \<times> u64) list) \<Rightarrow> int \<Rightarrow> 'c chunkMeta \<Rightarrow> bool" where
  "chunk_ok content n m \<longleftrightarrow>
     content (mChunk m) \<noteq> [] \<and> int (length (content (mChunk m))) \<le> n \<and>
     mMinTime m = fst (hd (content (mChunk m))) \<and> mMaxTime m = fst (last (content (mChunk m)))"

definition open_ok :: "('c \<Rightarrow> (int \<times> u64) list) \<Rightarrow> int \<Rightarrow> ('c, 'l) tsdbSeriesState \<Rightarrow> bool" where
  "open_ok content n st \<longleftrightarrow> (case tsOpenChunk st of None \<Rightarrow> tsOpenCount st = 0
     | Some c \<Rightarrow> chunk_ok content n \<lparr>mChunk = c, mMinTime = tsOpenMin st, mMaxTime = tsOpenMax st\<rparr> \<and>
                 tsOpenCount st = int (length (content c)) \<and> tsOpenCount st < n)"

definition wf_series :: "('c \<Rightarrow> (int \<times> u64) list) \<Rightarrow> int \<Rightarrow> ('c, 'l) tsdbSeriesState \<Rightarrow> bool" where
  "wf_series content n st \<longleftrightarrow>
     is_heap ppT (tsPending st) \<and> open_ok content n st \<and> (\<forall>m \<in> set (tsChunks st). chunk_ok content n m) \<and>
     sorted_wrt (<) (map fst (emitted content st)) \<and> tsSamples st = length (emitted content st) \<and>
     (tsHasLast st \<longleftrightarrow> emitted content st \<noteq> []) \<and> (tsHasLast st \<longrightarrow> tsLastTs st = fst (last (emitted content st)))"

definition last_time :: "('c, 'l) tsdbSeriesState \<Rightarrow> int option" where
  "last_time st = (if tsHasLast st then Some (tsLastTs st) else None)"

lemma pending_irrelevant [simp]:
  "emitted content (st\<lparr>tsPending := q\<rparr>) = emitted content st" "open_ok content n (st\<lparr>tsPending := q\<rparr>) = open_ok content n st"
  "last_time (st\<lparr>tsPending := q\<rparr>) = last_time st"
  by (simp_all add: emitted_def open_ok_def last_time_def split: option.split)

lemma wf_series_pending: "wf_series content n st \<Longrightarrow> is_heap ppT q \<Longrightarrow> wf_series content n (st\<lparr>tsPending := q\<rparr>)"
  by (simp add: wf_series_def)

lemma wf_series_pop:
  "wf_series content n st \<Longrightarrow> tsPending st \<noteq> [] \<Longrightarrow> wf_series content n (st\<lparr>tsPending := snd (heap_pop ppT (tsPending st))\<rparr>)"
  by (intro wf_series_pending is_heap_pop) (simp_all add: wf_series_def)

lemma flush_content:
  assumes "flushOpenChunkLocked (b, st) = (b', st')" and "open_ok content n st"
  shows "emitted content st' = emitted content st" and "tsOpenChunk st' = None \<and> tsOpenCount st' = 0"
    and "wf_series content n st \<Longrightarrow> wf_series content n st'"
    and "bNumChunks b' + length (tsChunks st) = bNumChunks b + length (tsChunks st')"
    and "bNumSamples b' = bNumSamples b" "bNumDropped b' = bNumDropped b" "bMinTime b' = bMinTime b" "bMaxTime b' = bMaxTime b"
    and "last_time st' = last_time st"
  using assms
  by (auto simp: flushOpenChunkLocked_def emitted_def open_ok_def wf_series_def chunk_ok_def last_time_def split: option.splits if_splits)

lemma append_content:
  assumes "xor_laws lib content" "1 \<le> n" "n \<le> 65535" "wf_series content n st" "bSamplesPerChk b = n"
    and "\<not> (tsHasLast st \<and> ppT p \<le> tsLastTs st)"
    and "appendLocked lib p (b, st) = (b', st')"
  shows "emitted content st' = emitted content st @ [point p]" and "wf_series content n st'"
    and "bNumChunks b' + length (tsChunks st) = bNumChunks b + length (tsChunks st')"
    and "bNumSamples b' = bNumSamples b + 1" "bNumDropped b' = bNumDropped b"
    and "bMinTime b' = min (bMinTime b) (ppT p)" "bMaxTime b' = max (bMaxTime b) (ppT p)"
    and "last_time st' = Some (ppT p)" "tsPending st' = tsPending st"
proof -
  define st1 where "st1 = (if tsOpenChunk st = None
    then st\<lparr>tsOpenChunk := Some (xNew lib), tsOpenMin := ppT p, tsOpenMax := ppT p, tsOpenCount := 0\<rparr> else st)"
  obtain c where c: "tsOpenChunk st1 = Some c" by (cases "tsOpenChunk st") (auto simp: st1_def)
  define st2 where "st2 = st1\<lparr>tsOpenChunk := Some (xAppend lib c (ppT p) (ppV p)),
    tsOpenMax := ppT p, tsOpenCount := tsOpenCount st1 + 1, tsLastTs := ppT p, tsHasLast := True, tsSamples := tsSamples st1 + 1\<rparr>"
  define b2 where "b2 = b\<lparr>bNumSamples := bNumSamples b + 1,
    bMinTime := (if ppT p < bMinTime b then ppT p else bMinTime b), bMaxTime := (if ppT p > bMaxTime b then ppT p else bMaxTime b)\<rparr>"
  have wf: "is_heap ppT (tsPending st)" "open_ok content n st" "\<forall>m \<in> set (tsChunks st). chunk_ok content n m"
    "sorted_wrt (<) (map fst (emitted content st))" "tsSamples st = length (emitted content st)"
    "tsHasLast st \<longleftrightarrow> emitted content st \<noteq> []" "tsHasLast st \<longrightarrow> tsLastTs st = fst (last (emitted content st))"
    using assms(4) by (auto simp: wf_series_def)
  have len: "tsOpenCount st1 = int (length (content c))" "length (content c) < 65535" "int (length (content c)) < n"
    using c wf(2) assms(1-3) by (auto simp: st1_def open_ok_def xor_laws_def split: if_splits option.splits)
  then have app: "content (xAppend lib c (ppT p) (ppV p)) = content c @ [point p]" using assms(1) by (simp add: xor_laws_def)
  have e1: "emitted content st = concat (map (content \<circ> mChunk) (tsChunks st)) @ content c"
    using c assms(1) by (auto simp: st1_def emitted_def xor_laws_def split: if_splits)
  have e2: "emitted content st2 = emitted content st @ [point p]" "tsChunks st2 = tsChunks st" "tsPending st2 = tsPending st"
    using e1 app by (auto simp: st2_def st1_def emitted_def)
  have min: "tsOpenMin st2 = fst (hd (content c @ [point p]))"
    using c wf(2) assms(1) by (auto simp: st2_def st1_def open_ok_def chunk_ok_def xor_laws_def split: if_splits option.splits)
  have mem: "tsOpenChunk st2 = Some (xAppend lib c (ppT p) (ppV p))" "tsOpenMax st2 = ppT p"
    "tsOpenCount st2 = int (length (content c)) + 1" "tsHasLast st2" "tsLastTs st2 = ppT p" "tsSamples st2 = Suc (tsSamples st)"
    using len by (auto simp: st2_def) (auto simp: st1_def)
  have lt: "fst x < ppT p" if "x \<in> set (emitted content st)" for x
    using sorted_wrt_last [OF wf(4) that] wf(6,7) assms(6) that by auto
  have full: "chunk_ok content n \<lparr>mChunk = xAppend lib c (ppT p) (ppV p), mMinTime = tsOpenMin st2, mMaxTime = tsOpenMax st2\<rparr>"
    using app min mem len by (simp add: chunk_ok_def)
  have sorted: "sorted_wrt (<) (map fst (emitted content st2))" using e2(1) wf(4) lt by (simp add: sorted_wrt_append)
  have res: "appendLocked lib p (b, st) = (if tsOpenCount st2 \<ge> n then flushOpenChunkLocked (b2, st2) else (b2, st2))"
    using assms(5) c by (simp add: appendLocked_def Let_def st1_def [symmetric] st2_def b2_def)
  have flush: "flushOpenChunkLocked (b2, st2) =
     (b2\<lparr>bNumChunks := bNumChunks b2 + 1\<rparr>,
      st2\<lparr>tsChunks := tsChunks st @ [\<lparr>mChunk = xAppend lib c (ppT p) (ppV p), mMinTime = tsOpenMin st2, mMaxTime = tsOpenMax st2\<rparr>],
         tsOpenChunk := None, tsOpenCount := 0\<rparr>)"
    using mem e2(2) by (simp add: flushOpenChunkLocked_def)
  have emit: "emitted content st' = emitted content st2"
    using res flush assms(7) mem e2(2) by (auto simp: emitted_def split: if_splits)
  show "emitted content st' = emitted content st @ [point p]" using emit e2 by simp
  have "open_ok content n st' \<and> (\<forall>m \<in> set (tsChunks st'). chunk_ok content n m)"
    using res flush assms(7) mem full e2(2) wf(3) app by (auto simp: open_ok_def split: if_splits)
  moreover have "tsHasLast st' \<and> tsLastTs st' = ppT p \<and> tsSamples st' = Suc (tsSamples st) \<and> tsPending st' = tsPending st"
    using res flush assms(7) mem e2(3) by (auto split: if_splits)
  ultimately show "wf_series content n st'" "last_time st' = Some (ppT p)" "tsPending st' = tsPending st"
    using wf(1,5) sorted emit e2(1) by (simp_all add: wf_series_def last_time_def)
  show "bNumChunks b' + length (tsChunks st) = bNumChunks b + length (tsChunks st')" "bNumSamples b' = bNumSamples b + 1"
    "bNumDropped b' = bNumDropped b" "bMinTime b' = min (bMinTime b) (ppT p)" "bMaxTime b' = max (bMaxTime b) (ppT p)"
    using res flush assms(7) e2(2) by (auto simp: b2_def split: if_splits)
qed

text \<open>
  Draining one series, completely described: the points due are popped in time order, those not later than the last one
  kept are dropped, the others are appended.
\<close>

definition drained :: "int \<Rightarrow> ('c, 'l) tsdbSeriesState \<Rightarrow> pendingPoint list" where
  "drained w st = accepted (last_time st) (fst (heap_drain ppT w (tsPending st)))"

lemma drained_step:
  assumes "tsPending st \<noteq> []" "ppT (tsPending st ! 0) \<le> w"
  shows "drained w st =
     (if tsHasLast st \<and> ppT (tsPending st ! 0) \<le> tsLastTs st
      then accepted (last_time st) (fst (heap_drain ppT w (snd (heap_pop ppT (tsPending st)))))
      else tsPending st ! 0 # accepted (Some (ppT (tsPending st ! 0))) (fst (heap_drain ppT w (snd (heap_pop ppT (tsPending st))))))"
  using assms by (simp add: drained_def heap_drain_step last_time_def)

abbreviation extremes :: "(int \<Rightarrow> int \<Rightarrow> int) \<Rightarrow> int \<Rightarrow> pendingPoint list \<Rightarrow> int" where
  "extremes f x ps \<equiv> foldl f x (map ppT ps)"

lemma drain_content:
  assumes "xor_laws lib content" "1 \<le> n" "n \<le> 65535"
  shows "wf_series content n (snd bs) \<Longrightarrow> bSamplesPerChk (fst bs) = n \<Longrightarrow>
    (case (bs, drainPoints lib w bs) of ((b, st), (b', st')) \<Rightarrow>
       emitted content st' = emitted content st @ map point (drained w st) \<and> wf_series content n st' \<and>
       bNumSamples b' = bNumSamples b + length (drained w st) \<and>
       bNumDropped b' + length (drained w st) = bNumDropped b + length (fst (heap_drain ppT w (tsPending st))) \<and>
       bNumChunks b' + length (tsChunks st) = bNumChunks b + length (tsChunks st') \<and>
       bMinTime b' = extremes min (bMinTime b) (drained w st) \<and> bMaxTime b' = extremes max (bMaxTime b) (drained w st))"
proof (induction rule: drainPoints_induct [where bs = bs and lib = lib and w = w])
  case (stop b st)
  then show ?case by (simp add: drained_def heap_drain_stop)
next
  case (drop b st r)
  let ?st = "st\<lparr>tsPending := snd (heap_pop ppT (tsPending st))\<rparr>"
  have "wf_series content n ?st" using drop(1,6) by (simp add: wf_series_pop)
  moreover have "drained w ?st = drained w st" using drop(1-4) by (simp add: drained_step) (simp add: drained_def)
  ultimately show ?case using drop(5,7) drop(1,2) by (auto simp: heap_drain_step split: prod.splits)
next
  case (add b st r)
  let ?st = "st\<lparr>tsPending := snd (heap_pop ppT (tsPending st))\<rparr>" and ?p = "tsPending st ! 0"
  obtain b1 st1 where a: "appendLocked lib ?p (b, ?st) = (b1, st1)" by fastforce
  have wf: "wf_series content n ?st" using add(1,5) by (simp add: wf_series_pop)
  have per: "bSamplesPerChk b = n" using add(6) by simp
  have nl: "\<not> (tsHasLast ?st \<and> ppT ?p \<le> tsLastTs ?st)" using add(3) by simp
  note app = append_content [OF assms wf per nl a]
  have per1: "bSamplesPerChk b1 = n" using same_frame_append [of "(b, ?st)" lib ?p] a per by (simp add: same_frame_def)
  have "drained w st = ?p # drained w st1" using drained_step [OF add(1,2)] add(3) app(8,9) by (simp add: drained_def)
  moreover have "fst (heap_drain ppT w (tsPending st)) = ?p # fst (heap_drain ppT w (tsPending st1))"
    using add(1,2) app(9) by (simp add: heap_drain_step)
  ultimately show ?case using add(4) [unfolded a] app per1 by (auto split: prod.splits)
qed

end
