(* ===== verification/TsdbKeys.thy ===== *)
theory TsdbKeys
  imports TsdbBuilder
begin

text \<open>
  The series key of \<^verbatim>\<open>asap-gorilla-go/tsdb.go\<close> is the length-prefixed serialization of the label set that \<^verbatim>\<open>labelsFor\<close> builds: two
  samples share a key exactly when they share their labels.
\<close>

definition key_pairs :: "gostr \<Rightarrow> goattrs \<Rightarrow> goattrs \<Rightarrow> gostr list \<Rightarrow> (gostr \<times> gostr) list" where
  "key_pairs m a e ks = concat (map (\<lambda>k. case resolveLabelValue k m a e of None \<Rightarrow> [] | Some v \<Rightarrow> if v = [] then [] else [(k, v)]) ks)"

definition encode_pairs :: "(gostr \<times> gostr) list \<Rightarrow> u8 list" where
  "encode_pairs ps = concat (map (\<lambda>(k, v). appendLenPrefixed (appendLenPrefixed [] k) v) ps)"

lemma key_pairs_Cons:
  "key_pairs m a e (k # ks) =
     (case resolveLabelValue k m a e of None \<Rightarrow> [] | Some v \<Rightarrow> if v = [] then [] else [(k, v)]) @ key_pairs m a e ks"
  by (simp add: key_pairs_def)

lemma loop_pairs_rest:
  "seriesKeyLoop m a e ks prev False buf = buf @ encode_pairs (key_pairs m a e (tl (remdups_adj (prev # ks))))"
proof (induction ks arbitrary: prev buf)
  case (Cons k ks)
  have "key_pairs m a e (remdups_adj (k # ks)) = key_pairs m a e (k # tl (remdups_adj (k # ks)))" by simp
  with Cons show ?case
    by (auto simp: key_pairs_Cons encode_pairs_def appendLenPrefixed_def simp del: remdups_adj_Cons_alt split: option.splits)
qed (simp add: key_pairs_def encode_pairs_def)

lemma loop_pairs: "seriesKeyLoop m a e ks prev True buf = buf @ encode_pairs (key_pairs m a e (remdups_adj ks))"
proof (cases ks)
  case (Cons k ks')
  have "key_pairs m a e (remdups_adj (k # ks')) = key_pairs m a e (k # tl (remdups_adj (k # ks')))" by simp
  then show ?thesis
    by (auto simp: Cons loop_pairs_rest key_pairs_Cons encode_pairs_def appendLenPrefixed_def simp del: remdups_adj_Cons_alt split: option.splits)
qed (simp add: key_pairs_def encode_pairs_def)

lemma strict_sorted_remdups_adj: "sorted xs \<Longrightarrow> sorted_wrt (<) (remdups_adj xs)" for xs :: "'k::linorder list"
  by (induction xs rule: remdups_adj.induct) (auto simp: order.strict_iff_order)

lemma sorted_pairs_unique:
  fixes xs ys :: "('k::linorder \<times> 'v) list"
  assumes "sorted_wrt (<) (map fst xs)" "sorted_wrt (<) (map fst ys)" "map_of xs = map_of ys"
  shows "xs = ys"
proof -
  have d: "distinct (map fst xs)" "distinct (map fst ys)" using assms(1,2) strict_sorted_iff by blast+
  then have "set xs = set ys" using assms(3) map_of_eq_Some_iff by (metis surj_pair subsetI subset_antisym)
  then have "map fst xs = map fst ys" using assms(1,2) strict_sorted_equal by (metis list.set_map)
  moreover have "inj_on fst (set xs \<union> set ys)" using d(1) \<open>set xs = set ys\<close> by (simp add: distinct_map)
  ultimately show ?thesis by (rule map_inj_on)
qed

lemma map_of_key_pairs:
  "distinct ks \<Longrightarrow> map_of (key_pairs m a e ks) k =
     (if k \<in> set ks then (case resolveLabelValue k m a e of None \<Rightarrow> None | Some v \<Rightarrow> if v = [] then None else Some v) else None)"
  by (induction ks) (auto simp: key_pairs_Cons map_add_def, auto simp: key_pairs_def split: option.splits)

lemma sorted_key_pairs: "sorted_wrt (<) ks \<Longrightarrow> sorted_wrt (<) (map fst (key_pairs m a e ks))"
proof (induction ks)
  case (Cons k ks)
  have "fst ` set (key_pairs m a e ks) \<subseteq> set ks" by (auto simp: key_pairs_def split: option.splits if_splits)
  with Cons show ?case by (auto simp: key_pairs_Cons split: option.splits)
qed (simp add: key_pairs_def)

lemma option_eq_iff_Some: "(\<And>v. x = Some v \<longleftrightarrow> y = Some v) \<Longrightarrow> x = y"
  by (cases x; cases y) auto

lemma map_of_rev_distinct: "distinct (map fst xs) \<Longrightarrow> map_of (rev xs) = map_of xs"
proof (intro ext option_eq_iff_Some)
  fix k v
  assume "distinct (map fst xs)"
  then show "map_of (rev xs) k = Some v \<longleftrightarrow> map_of xs k = Some v"
    by (simp add: map_of_eq_Some_iff rev_map [symmetric])
qed

declare map_of_eq_Some_iff [simp del]

lemma label_set_resolve:
  assumes "distinct (map fst a)" "distinct (map fst e)"
  shows "label_set ((MetricName, sanitizePromLabelValue m) # a @ e) k =
    (case resolveLabelValue k m a e of None \<Rightarrow> None | Some v \<Rightarrow> if v = [] then None else Some v)"
  using assms by (auto simp: label_set_def resolveLabelValue_def map_of_rev_distinct map_add_def split: option.splits)

text \<open>The key spells out the labels: it encodes the pairs of the label set in the order of their names.\<close>

abbreviation label_sets :: "gostr \<Rightarrow> goattrs \<Rightarrow> goattrs \<Rightarrow> (gostr \<times> gostr) list" where
  "label_sets m a e \<equiv> (MetricName, sanitizePromLabelValue m) # a @ e"

lemma SeriesKey_pairs:
  assumes "distinct (map fst a)" "distinct (map fst e)"
  obtains ps where "SeriesKey m a e = encode_pairs ps" "sorted_wrt (<) (map fst ps)" "map_of ps = label_set (label_sets m a e)"
proof -
  define ks where "ks = MetricName # filter (\<lambda>k. k \<noteq> MetricName) (map fst a) @ filter (\<lambda>k. k \<noteq> MetricName) (map fst e)"
  let ?ks = "remdups_adj (sort ks)"
  have ks: "sorted_wrt (<) ?ks" "set ?ks = set ks" by (simp_all add: strict_sorted_remdups_adj)
  have "distinct ?ks" using ks(1) strict_sorted_iff by blast
  have "map_of (key_pairs m a e ?ks) = label_set (label_sets m a e)"
  proof
    fix k
    have "resolveLabelValue k m a e = None" if "k \<notin> set ks"
      using that by (auto simp: ks_def resolveLabelValue_def map_of_eq_None_iff split: option.splits dest: map_of_SomeD)
    then show "map_of (key_pairs m a e ?ks) k = label_set (label_sets m a e) k"
      using ks(2) assms \<open>distinct ?ks\<close> by (auto simp: map_of_key_pairs label_set_resolve)
  qed
  moreover have "SeriesKey m a e = encode_pairs (key_pairs m a e ?ks)"
    by (simp add: SeriesKey_def appendSeriesKeyInto_def Let_def loop_pairs ks_def)
  ultimately show ?thesis using that sorted_key_pairs [OF ks(1)] by blast
qed

section \<open>Injectivity\<close>

definition go_string :: "gostr \<Rightarrow> bool" where
  "go_string s \<longleftrightarrow> length s < 2 ^ 63"

lemma len_prefix_cancel:
  assumes "go_string s" "go_string s'" "put_uvarint (of_nat (length s)) @ s @ r = put_uvarint (of_nat (length s')) @ s' @ r'"
  shows "s = s' \<and> r = r'"
proof -
  have b: "length s < 2 ^ 64" "length s' < 2 ^ 64" using assms(1,2) by (auto simp: go_string_def)
  have "binary_Uvarint (put_uvarint (of_nat (length s)) @ s @ r) = binary_Uvarint (put_uvarint (of_nat (length s')) @ s' @ r')"
    using assms(3) by simp
  then have "(of_nat (length s) :: u64) = of_nat (length s')" by (simp add: binary_Uvarint_put_uvarint)
  then have "unat (of_nat (length s) :: u64) = unat (of_nat (length s') :: u64)" by simp
  then have "length s = length s'" using b by (simp add: unsigned_of_nat take_bit_nat_eq_self)
  then show ?thesis using assms(3) by simp
qed

lemma encode_pairs_inj:
  assumes "\<forall>(k, v) \<in> set ps. go_string k \<and> go_string v" "\<forall>(k, v) \<in> set qs. go_string k \<and> go_string v"
    and "encode_pairs ps = encode_pairs qs"
  shows "ps = qs"
  using assms
proof (induction ps qs rule: list_induct2')
  case (4 p ps q qs)
  obtain k v k' v' where pq: "p = (k, v)" "q = (k', v')" by fastforce
  have eq: "put_uvarint (of_nat (length k)) @ k @ put_uvarint (of_nat (length v)) @ v @ encode_pairs ps =
        put_uvarint (of_nat (length k')) @ k' @ put_uvarint (of_nat (length v')) @ v' @ encode_pairs qs"
    using "4.prems"(3) pq by (simp add: encode_pairs_def appendLenPrefixed_def)
  then have "k = k'" "put_uvarint (of_nat (length v)) @ v @ encode_pairs ps = put_uvarint (of_nat (length v')) @ v' @ encode_pairs qs"
    using len_prefix_cancel [OF _ _ eq] "4.prems" pq by auto
  moreover from this(2) have "v = v' \<and> encode_pairs ps = encode_pairs qs"
    using len_prefix_cancel "4.prems" pq by auto
  ultimately show ?case using 4 pq by simp
qed (auto simp: encode_pairs_def appendLenPrefixed_def)

definition go_attrs :: "goattrs \<Rightarrow> bool" where
  "go_attrs a \<longleftrightarrow> distinct (map fst a) \<and> (\<forall>(k, v) \<in> set a. go_string k \<and> go_string v)"

lemma go_string_labels:
  assumes "go_string m" "go_attrs a" "go_attrs e" "distinct (map fst ps)" "map_of ps = label_set (label_sets m a e)"
  shows "\<forall>(k, v) \<in> set ps. go_string k \<and> go_string v"
proof clarify
  fix k v assume "(k, v) \<in> set ps"
  then have "label_set (label_sets m a e) k = Some v" using assms(4,5) by (simp add: map_of_eq_Some_iff flip: assms(5))
  then have "(k, v) \<in> set (label_sets m a e)"
    by (auto simp: label_set_def split: option.splits if_splits dest!: map_of_SomeD)
  then show "go_string k \<and> go_string v" using assms(1-3)
    by (auto simp: go_attrs_def go_string_def MetricName_def sanitizePromLabelValue_def bytes_of_def)
qed

lemma SeriesKey_eq_iff:
  assumes "go_string m" "go_attrs a" "go_attrs e" and "go_string m'" "go_attrs a'" "go_attrs e'"
  shows "SeriesKey m a e = SeriesKey m' a' e' \<longleftrightarrow> label_set (label_sets m a e) = label_set (label_sets m' a' e')"
proof -
  have d: "distinct (map fst a)" "distinct (map fst e)" "distinct (map fst a')" "distinct (map fst e')"
    using assms by (auto simp: go_attrs_def)
  obtain ps where ps: "SeriesKey m a e = encode_pairs ps" "sorted_wrt (<) (map fst ps)" "map_of ps = label_set (label_sets m a e)"
    by (rule SeriesKey_pairs [OF d(1,2)])
  obtain qs where qs: "SeriesKey m' a' e' = encode_pairs qs" "sorted_wrt (<) (map fst qs)" "map_of qs = label_set (label_sets m' a' e')"
    by (rule SeriesKey_pairs [OF d(3,4)])
  have "distinct (map fst ps)" "distinct (map fst qs)" using ps(2) qs(2) strict_sorted_iff by blast+
  then have "encode_pairs ps = encode_pairs qs \<Longrightarrow> ps = qs"
    using encode_pairs_inj go_string_labels [OF assms(1-3) _ ps(3)] go_string_labels [OF assms(4-6) _ qs(3)] by blast
  moreover have "map_of ps = map_of qs \<Longrightarrow> ps = qs" by (rule sorted_pairs_unique [OF ps(2) qs(2)])
  ultimately show ?thesis using ps qs by auto
qed

lemma labels_eq_iff:
  assumes "label_laws lib"
  shows "labelsFor lib m a e = labelsFor lib m' a' e' \<longleftrightarrow> label_set (label_sets m a e) = label_set (label_sets m' a' e')"
proof
  assume "label_set (label_sets m a e) = label_set (label_sets m' a' e')"
  then have "lRange lib (labelsFor lib m a e) = lRange lib (labelsFor lib m' a' e')"
    using assms by (intro sorted_pairs_unique) (auto simp: label_laws_def labelsFor_def)
  then show "labelsFor lib m a e = labelsFor lib m' a' e'" using assms by (simp add: label_laws_def)
next
  assume "labelsFor lib m a e = labelsFor lib m' a' e'"
  then show "label_set (label_sets m a e) = label_set (label_sets m' a' e')"
    using assms unfolding label_laws_def labelsFor_def by metis
qed

text \<open>
  Property C29. The key under which the builder files a sample identifies its label set: whatever the metric names, attributes and
  external labels of two samples, their keys are equal exactly when the labels built for them are.
\<close>

theorem SeriesKey_identifies:
  assumes "label_laws lib" and "go_string m" "go_attrs a" "go_attrs e" and "go_string m'" "go_attrs a'" "go_attrs e'"
  shows "SeriesKey m a e = SeriesKey m' a' e' \<longleftrightarrow> labelsFor lib m a e = labelsFor lib m' a' e'"
  using SeriesKey_eq_iff [OF assms(2-7)] labels_eq_iff [OF assms(1)] by blast

section \<open>An instance of the interface\<close>

text \<open>Chunks that list their samples and labels that list their pairs satisfy the laws.\<close>

definition listLib :: "((int \<times> u64) list, (gostr \<times> gostr) list) promLib" where
  "listLib = \<lparr>xNew = [], xAppend = (\<lambda>c t v. c @ [(t, v)]),
     lBuild = (\<lambda>sets. concat (map (\<lambda>k. case label_set sets k of None \<Rightarrow> [] | Some v \<Rightarrow> [(k, v)]) (sort (remdups (map fst sets))))),
     lRange = (\<lambda>l. l), lCompare = (\<lambda>a b. if a < b then - 1 else if a = b then 0 else 1)\<rparr>"

lemma listLib_xor: "xor_laws listLib (\<lambda>c. c)"
  by (simp add: xor_laws_def listLib_def)

lemma pick_pairs:
  assumes "sorted_wrt (<) ks"
  shows "sorted_wrt (<) (map fst (concat (map (\<lambda>k. case f k of None \<Rightarrow> [] | Some v \<Rightarrow> [(k, v)]) ks)))"
    and "map_of (concat (map (\<lambda>k. case f k of None \<Rightarrow> [] | Some v \<Rightarrow> [(k, v)]) ks)) k = (if k \<in> set ks then f k else None)"
  using assms by (induction ks) (fastforce simp: map_add_def split: option.splits)+

lemma listLib_labels: "label_laws listLib"
proof -
  have "sorted_wrt (<) (sort (remdups (map fst sets)))" for sets :: goattrs by (simp add: strict_sorted_iff)
  note pick = pick_pairs [OF this]
  have "label_set sets k = None" if "k \<notin> set (sort (remdups (map fst sets)))" for sets k
    using that by (force simp: label_set_def split: option.splits dest!: map_of_SomeD)
  then have "map_of (lBuild listLib sets) = label_set sets" for sets by (auto simp: listLib_def pick(2))
  then show ?thesis using pick(1) by (simp add: label_laws_def) (auto simp: listLib_def)
qed

end
