(* ===== verification/TsdbRuns.thy ===== *)
theory TsdbRuns
  imports TsdbKeys
begin

text \<open>
  Runs of the streaming TSDB block builder: the invariant that links the queue of series with their pending points, what
  the queue-driven drain does to every series, and what a finished block contains.
\<close>

declare map_of_eq_Some_iff [simp del]

section \<open>The invariant of the builder\<close>

abbreviation series_sum :: "(('c, 'l) tsdbSeriesState \<Rightarrow> nat) \<Rightarrow> (gostr \<times> ('c, 'l) tsdbSeriesState) list \<Rightarrow> nat" where
  "series_sum f ss \<equiv> sum_list (map (f \<circ> snd) ss)"

lemma series_sum_update:
  "map_of ss k = Some st \<Longrightarrow> series_sum f (AList.update k st' ss) + f st = series_sum f ss + f st'"
  by (induction ss) (auto split: if_splits)

lemma series_sum_new: "map_of ss k = None \<Longrightarrow> series_sum f (AList.update k st' ss) = series_sum f ss + f st'"
  by (induction ss) (auto split: if_splits)

lemma series_union_new:
  "map_of ss k = None \<Longrightarrow> (\<Union>(k, st) \<in> set (AList.update k st' ss). g st) = (\<Union>(k, st) \<in> set ss. g st) \<union> g st'"
  by (induction ss) (auto split: if_splits)

lemma series_union_update:
  "map_of ss k = Some st \<Longrightarrow> g st \<subseteq> g st' \<Longrightarrow>
   (\<Union>(k, st) \<in> set (AList.update k st' ss). g st) = (\<Union>(k, st) \<in> set ss. g st) \<union> g st'"
  by (induction ss) (auto split: if_splits)

text \<open>
  The invariant that the comment on \<^verbatim>\<open>drainEntry\<close> states: a series with pending points has a queue entry no later
  than its earliest one.
\<close>

definition queued_early :: "('c, 'l) StreamingTSDBBlockBuilder \<Rightarrow> bool" where
  "queued_early b \<longleftrightarrow>
     (\<forall>k st. map_of (bSeries b) k = Some st \<and> tsPending st \<noteq> [] \<longrightarrow>
        (\<exists>e \<in> set (bDrainQueue b). deSt e = k \<and> deT e \<le> ppT (tsPending st ! 0)))"

lemma queued_earlyD:
  "queued_early b \<Longrightarrow> map_of (bSeries b) k = Some st \<Longrightarrow> tsPending st \<noteq> [] \<Longrightarrow>
   \<exists>e \<in> set (bDrainQueue b). deSt e = k \<and> deT e \<le> ppT (tsPending st ! 0)"
  by (auto simp: queued_early_def)

definition block_times :: "('c \<Rightarrow> (int \<times> u64) list) \<Rightarrow> ('c, 'l) StreamingTSDBBlockBuilder \<Rightarrow> int set" where
  "block_times content b = (\<Union>(k, st) \<in> set (bSeries b). fst ` set (emitted content st))"

definition accounts :: "('c \<Rightarrow> (int \<times> u64) list) \<Rightarrow> nat \<Rightarrow> ('c, 'l) StreamingTSDBBlockBuilder \<Rightarrow> bool" where
  "accounts content N b \<longleftrightarrow>
     bNumSamples b = series_sum (length \<circ> emitted content) (bSeries b) \<and>
     bNumChunks b = series_sum (length \<circ> tsChunks) (bSeries b) \<and>
     bNumSamples b + bNumDropped b + series_sum (length \<circ> tsPending) (bSeries b) = N \<and>
     bMinTime b = Min (insert MaxInt64 (block_times content b)) \<and> bMaxTime b = Max (insert MinInt64 (block_times content b))"

definition tsdb_inv :: "('c \<Rightarrow> (int \<times> u64) list) \<Rightarrow> ('c, 'l) StreamingTSDBBlockBuilder \<Rightarrow> bool" where
  "tsdb_inv content b \<longleftrightarrow>
     1 \<le> bSamplesPerChk b \<and> bSamplesPerChk b \<le> 65535 \<and> distinct (map fst (bSeries b)) \<and>
     (\<forall>k st. map_of (bSeries b) k = Some st \<longrightarrow> tsKey st = k \<and> wf_series content (bSamplesPerChk b) st) \<and>
     is_heap deT (bDrainQueue b) \<and> (\<forall>e \<in> set (bDrainQueue b). map_of (bSeries b) (deSt e) \<noteq> None) \<and> queued_early b"

lemma times_map: "distinct (map fst (bSeries b)) \<Longrightarrow>
  block_times content b = {t. \<exists>k st. map_of (bSeries b) k = Some st \<and> t \<in> fst ` set (emitted content st)}"
  by (simp only: block_times_def map_of_eq_Some_iff) blast

lemma finite_times [simp]: "finite (block_times content b)"
  by (auto simp: block_times_def)

lemma Min_insert_Un: "finite A \<Longrightarrow> finite B \<Longrightarrow> Min (insert (Min (insert x A)) B) = Min (insert x (A \<union> B))" for x :: int
  using Min_Un [of "insert x A" B] by (cases "B = {}") auto

lemma Max_insert_Un: "finite A \<Longrightarrow> finite B \<Longrightarrow> Max (insert (Max (insert x A)) B) = Max (insert x (A \<union> B))" for x :: int
  using Max_Un [of "insert x A" B] by (cases "B = {}") auto

lemma extremes_Min: "extremes min x ps = Min (insert x (ppT ` set ps))"
proof (induction ps arbitrary: x)
  case (Cons p ps)
  have "Min (insert (min x (ppT p)) (ppT ` set ps)) = Min (insert x (insert (ppT p) (ppT ` set ps)))"
    by (cases "ps = []") (auto simp: min.assoc)
  with Cons show ?case by simp
qed simp

lemma extremes_Max: "extremes max x ps = Max (insert x (ppT ` set ps))"
proof (induction ps arbitrary: x)
  case (Cons p ps)
  have "Max (insert (max x (ppT p)) (ppT ` set ps)) = Max (insert x (insert (ppT p) (ppT ` set ps)))"
    by (cases "ps = []") (auto simp: max.assoc)
  with Cons show ?case by simp
qed simp

text \<open>What one turn of the loop does, for a builder in its invariant whose queue has a due root.\<close>

lemma drainTurn_effect:
  assumes laws: "xor_laws lib content" and inv: "tsdb_inv content b" and q: "bDrainQueue b \<noteq> []"
  obtains k st b2 st2 where "k = deSt (bDrainQueue b ! 0)" "map_of (bSeries b) k = Some st"
    "drainPoints lib w (b\<lparr>bDrainQueue := snd (heap_pop deT (bDrainQueue b))\<rparr>, st) = (b2, st2)"
    "bSeries b2 = bSeries b"
    "drainTurn lib w b = b2\<lparr>bSeries := AList.update k st2 (bSeries b),
       bDrainQueue := (if tsPending st2 \<noteq> [] then heap_push deT \<lparr>deT = ppT (tsPending st2 ! 0), deSt = k\<rparr> (snd (heap_pop deT (bDrainQueue b)))
                       else snd (heap_pop deT (bDrainQueue b)))\<rparr>"
proof -
  let ?b1 = "b\<lparr>bDrainQueue := snd (heap_pop deT (bDrainQueue b))\<rparr>" and ?k = "deSt (bDrainQueue b ! 0)"
  have "bDrainQueue b ! 0 \<in> set (bDrainQueue b)" using q by simp
  then obtain st where st: "map_of (bSeries b) ?k = Some st" using inv by (auto simp: tsdb_inv_def)
  obtain b2 st2 where d: "drainPoints lib w (?b1, st) = (b2, st2)" by fastforce
  have "bSeries b2 = bSeries b" "bDrainQueue b2 = snd (heap_pop deT (bDrainQueue b))"
    using same_frame_drain [of "(?b1, st)" lib w] d by (simp_all add: same_frame_def)
  moreover from this have "drainTurn lib w b = b2\<lparr>bSeries := AList.update ?k st2 (bSeries b),
       bDrainQueue := (if tsPending st2 \<noteq> [] then heap_push deT \<lparr>deT = ppT (tsPending st2 ! 0), deSt = ?k\<rparr> (snd (heap_pop deT (bDrainQueue b)))
                       else snd (heap_pop deT (bDrainQueue b)))\<rparr>"
    using st d by (cases b2) (auto simp: drainTurn_def Let_def heap_pop_root(1) [OF q])
  ultimately show ?thesis using that st d by blast
qed

abbreviation visit :: "('c, 'l) promLib \<Rightarrow> int \<Rightarrow> ('c, 'l) StreamingTSDBBlockBuilder \<Rightarrow> ('c, 'l) tsdbSeriesState \<Rightarrow> ('c, 'l) tsdbSeriesState" where
  "visit lib w b st \<equiv> snd (drainPoints lib w (b, st))"

lemma append_cong: "bSamplesPerChk b = bSamplesPerChk b' \<Longrightarrow> snd (appendLocked lib p (b, st)) = snd (appendLocked lib p (b', st))"
  by (cases "tsOpenChunk st") (simp_all add: appendLocked_def Let_def flushOpenChunkLocked_def)

lemma visit_cong: "bSamplesPerChk b = bSamplesPerChk b' \<Longrightarrow> visit lib w b st = visit lib w b' st"
proof (induction "length (tsPending st)" arbitrary: b b' st rule: less_induct)
  case less
  let ?p = "tsPending st ! 0" and ?st = "st\<lparr>tsPending := snd (heap_pop ppT (tsPending st))\<rparr>"
  show ?case
  proof (cases rule: drainPoints_cases [where st = st and w = w and lib = lib and b = b])
    case stop
    then have "drainPoints lib w (b', st) = (b', st)" by (subst drainPoints.simps) auto
    with stop(2) show ?thesis by simp
  next
    case drop
    then have "drainPoints lib w (b', st) = drainPoints lib w (b'\<lparr>bNumDropped := bNumDropped b' + 1\<rparr>, ?st)"
      by (subst drainPoints.simps) (simp add: Let_def heap_pop_root)
    moreover have "length (tsPending ?st) < length (tsPending st)" using drop by (simp add: length_heap_pop)
    ultimately show ?thesis using drop(5) less.prems
        less.hyps [of ?st "b\<lparr>bNumDropped := bNumDropped b + 1\<rparr>" "b'\<lparr>bNumDropped := bNumDropped b' + 1\<rparr>"] by simp
  next
    case add
    then have e: "drainPoints lib w (b', st) = drainPoints lib w (appendLocked lib ?p (b', ?st))"
      by (subst drainPoints.simps) (auto simp: Let_def heap_pop_root)
    obtain b1 s1 where a1: "appendLocked lib ?p (b, ?st) = (b1, s1)" by fastforce
    obtain b2 s2 where a2: "appendLocked lib ?p (b', ?st) = (b2, s2)" by fastforce
    note a = a1 a2
    have "s2 = s1" "length (tsPending s1) < length (tsPending st)" "bSamplesPerChk b1 = bSamplesPerChk b2"
      using a append_cong [OF less.prems, of lib ?p ?st] tsPending_append [of lib ?p "(b, ?st)"] add(1) less.prems
        same_frame_append [of "(b, ?st)" lib ?p] same_frame_append [of "(b', ?st)" lib ?p]
      by (auto simp: length_heap_pop same_frame_def)
    then show ?thesis using less.hyps [of s1 b1 b2] add(4) e a by simp
  qed
qed

lemma visit_not_due: "\<not> (tsPending st \<noteq> [] \<and> ppT (tsPending st ! 0) \<le> w) \<Longrightarrow> visit lib w b st = st"
  by (subst drainPoints.simps) auto

lemma visit_idem: "visit lib w b (visit lib w b' st) = visit lib w b' st"
proof (rule visit_not_due)
  show "\<not> (tsPending (visit lib w b' st) \<noteq> [] \<and> ppT (tsPending (visit lib w b' st) ! 0) \<le> w)"
    using heap_drain_rest [of ppT w "tsPending st"] by (auto simp: drainPoints_pending not_le)
qed

lemma drainTurn_frame:
  assumes "xor_laws lib content" "tsdb_inv content b" "bDrainQueue b \<noteq> []"
  shows "bReorderGrace (drainTurn lib w b) = bReorderGrace b" "bSamplesPerChk (drainTurn lib w b) = bSamplesPerChk b"
    "bExtLabels (drainTurn lib w b) = bExtLabels b" "bMaxObserved (drainTurn lib w b) = bMaxObserved b"
    "bClosed (drainTurn lib w b) = bClosed b" "map fst (bSeries (drainTurn lib w b)) = map fst (bSeries b)"
    and "map_of (bSeries (drainTurn lib w b)) = (\<lambda>k. if k = deSt (bDrainQueue b ! 0) then map_option (visit lib w b) (map_of (bSeries b) k)
           else map_of (bSeries b) k)"
proof -
  let ?b1 = "b\<lparr>bDrainQueue := snd (heap_pop deT (bDrainQueue b))\<rparr>"
  obtain k st b2 st2 where e: "k = deSt (bDrainQueue b ! 0)" "map_of (bSeries b) k = Some st" "drainPoints lib w (?b1, st) = (b2, st2)"
    "drainTurn lib w b = b2\<lparr>bSeries := AList.update k st2 (bSeries b),
       bDrainQueue := (if tsPending st2 \<noteq> [] then heap_push deT \<lparr>deT = ppT (tsPending st2 ! 0), deSt = k\<rparr> (snd (heap_pop deT (bDrainQueue b)))
                       else snd (heap_pop deT (bDrainQueue b)))\<rparr>"
    by (rule drainTurn_effect [OF assms, where w = w])
  have f: "same_frame ?b1 b2" using same_frame_drain [of "(?b1, st)" lib w] e(3) by simp
  show "bReorderGrace (drainTurn lib w b) = bReorderGrace b" "bSamplesPerChk (drainTurn lib w b) = bSamplesPerChk b"
    "bExtLabels (drainTurn lib w b) = bExtLabels b" "bMaxObserved (drainTurn lib w b) = bMaxObserved b"
    "bClosed (drainTurn lib w b) = bClosed b" using f unfolding e(4) by (simp_all add: same_frame_def)
  have "k \<in> set (map fst (bSeries b))" using e(2) by (force dest: map_of_SomeD)
  then show "map fst (bSeries (drainTurn lib w b)) = map fst (bSeries b)" unfolding e(4) by (simp add: update_keys)
  have "st2 = visit lib w b st" using visit_cong [of b ?b1 lib w st] e(3) by simp
  then show "map_of (bSeries (drainTurn lib w b)) = (\<lambda>k. if k = deSt (bDrainQueue b ! 0) then map_option (visit lib w b) (map_of (bSeries b) k)
           else map_of (bSeries b) k)"
    using e(1,2) unfolding e(4) by (auto simp: update_conv fun_eq_iff)
qed

lemma drainTurn_inv:
  assumes "xor_laws lib content" "tsdb_inv content b" "bDrainQueue b \<noteq> []"
  shows "tsdb_inv content (drainTurn lib w b)"
proof -
  let ?q = "snd (heap_pop deT (bDrainQueue b))" and ?b1 = "b\<lparr>bDrainQueue := snd (heap_pop deT (bDrainQueue b))\<rparr>"
  let ?e = "\<lambda>st2 k. \<lparr>deT = ppT (tsPending st2 ! 0), deSt = k\<rparr>"
  obtain k st b2 st2 where e: "k = deSt (bDrainQueue b ! 0)" "map_of (bSeries b) k = Some st" "drainPoints lib w (?b1, st) = (b2, st2)"
    "drainTurn lib w b = b2\<lparr>bSeries := AList.update k st2 (bSeries b),
       bDrainQueue := (if tsPending st2 \<noteq> [] then heap_push deT (?e st2 k) ?q else ?q)\<rparr>"
    by (rule drainTurn_effect [OF assms, where w = w])
  have qs: "set (bDrainQueue b) = insert (bDrainQueue b ! 0) (set ?q)" using go_heap.pop_set [OF assms(3), of deT] by simp
  have inv: "wf_series content (bSamplesPerChk b) st" "tsKey st = k" "1 \<le> bSamplesPerChk b" "bSamplesPerChk b \<le> 65535"
    using assms(2) e(2) by (auto simp: tsdb_inv_def)
  have st2: "wf_series content (bSamplesPerChk b) st2" "tsKey st2 = k"
    using drain_content [OF assms(1) inv(3,4), where bs = "(?b1, st)" and w = w] inv(1,2) e(3) same_identity_drain [of lib w "(?b1, st)"] by auto
  have "is_heap deT ?q" using is_heap_pop assms(2,3) by (auto simp: tsdb_inv_def)
  then have heap: "is_heap deT (bDrainQueue (drainTurn lib w b))" unfolding e(4) by (simp add: is_heap_push)
  have ser: "bSeries (drainTurn lib w b) = AList.update k st2 (bSeries b)" by (simp add: e(4))
  have qset: "set (bDrainQueue (drainTurn lib w b)) = (if tsPending st2 \<noteq> [] then {?e st2 k} else {}) \<union> set ?q"
    unfolding e(4) by (simp add: go_heap.push_set)
  have "queued_early (drainTurn lib w b)"
    unfolding queued_early_def ser
  proof (intro allI impI, elim conjE)
    fix k' st' assume k': "map_of (AList.update k st2 (bSeries b)) k' = Some st'" "tsPending st' \<noteq> []"
    show "\<exists>e \<in> set (bDrainQueue (drainTurn lib w b)). deSt e = k' \<and> deT e \<le> ppT (tsPending st' ! 0)"
    proof (cases "k' = k")
      case False
      then obtain e' where "e' \<in> set (bDrainQueue b)" "deSt e' = k'" "deT e' \<le> ppT (tsPending st' ! 0)"
        using assms(2) k' queued_earlyD [of b k' st'] by (auto simp: tsdb_inv_def update_conv)
      with False e(1) qs qset show ?thesis by auto
    qed (use k' qset in \<open>auto simp: update_conv\<close>)
  qed
  moreover have "\<forall>e \<in> set (bDrainQueue (drainTurn lib w b)). map_of (AList.update k st2 (bSeries b)) (deSt e) \<noteq> None"
    using assms(2) qs unfolding qset by (auto simp: tsdb_inv_def update_conv)
  moreover have "\<forall>k' st'. map_of (AList.update k st2 (bSeries b)) k' = Some st' \<longrightarrow> tsKey st' = k' \<and> wf_series content (bSamplesPerChk b) st'"
    using assms(2) st2 by (auto simp: tsdb_inv_def update_conv)
  moreover have "distinct (map fst (AList.update k st2 (bSeries b)))" using assms(2) by (simp add: tsdb_inv_def distinct_update)
  ultimately show ?thesis using heap inv(3,4) drainTurn_frame(2) [OF assms, of w] unfolding tsdb_inv_def ser by simp
qed

lemma drainTurn_accounts:
  assumes "xor_laws lib content" "tsdb_inv content b" "bDrainQueue b \<noteq> []" "accounts content N b"
  shows "accounts content N (drainTurn lib w b)"
proof -
  let ?q = "snd (heap_pop deT (bDrainQueue b))" and ?b1 = "b\<lparr>bDrainQueue := snd (heap_pop deT (bDrainQueue b))\<rparr>"
  obtain k st b2 st2 where e: "k = deSt (bDrainQueue b ! 0)" "map_of (bSeries b) k = Some st" "drainPoints lib w (?b1, st) = (b2, st2)"
    "drainTurn lib w b = b2\<lparr>bSeries := AList.update k st2 (bSeries b),
       bDrainQueue := (if tsPending st2 \<noteq> [] then heap_push deT \<lparr>deT = ppT (tsPending st2 ! 0), deSt = k\<rparr> ?q else ?q)\<rparr>"
    by (rule drainTurn_effect [OF assms(1-3), where w = w])
  have inv: "wf_series content (bSamplesPerChk b) st" "1 \<le> bSamplesPerChk b" "bSamplesPerChk b \<le> 65535" "distinct (map fst (bSeries b))"
    using assms(2) e(2) by (auto simp: tsdb_inv_def)
  have d: "emitted content st2 = emitted content st @ map point (drained w st)" "bNumSamples b2 = bNumSamples b + length (drained w st)"
    "bNumDropped b2 + length (drained w st) = bNumDropped b + length (fst (heap_drain ppT w (tsPending st)))"
    "bNumChunks b2 + length (tsChunks st) = bNumChunks b + length (tsChunks st2)"
    "bMinTime b2 = extremes min (bMinTime b) (drained w st)" "bMaxTime b2 = extremes max (bMaxTime b) (drained w st)"
    using drain_content [OF assms(1) inv(2,3), where bs = "(?b1, st)" and w = w] inv(1) e(3) by auto
  have p: "length (fst (heap_drain ppT w (tsPending st))) + length (tsPending st2) = length (tsPending st)"
    using drainPoints_pending [of lib w "(?b1, st)"] arg_cong [OF heap_drain_mset [of ppT w "tsPending st"], of size] e(3) by simp
  note up = series_sum_update [OF e(2), where st' = st2]
  have t: "block_times content (drainTurn lib w b) = block_times content b \<union> ppT ` set (drained w st)"
    using series_union_update [OF e(2), of "\<lambda>st. fst ` set (emitted content st)" st2] d(1) e(2)
    by (auto simp: block_times_def e(4) image_Un image_comp comp_def dest: map_of_SomeD)
  show ?thesis
    using assms(4) d up [of "length \<circ> emitted content"] up [of "length \<circ> tsChunks"] up [of "length \<circ> tsPending"] p
    unfolding accounts_def t by (simp add: e(4) extremes_Min extremes_Max Min_insert_Un Max_insert_Un)
qed

lemma drainWatermark_effect:
  assumes "xor_laws lib content" "tsdb_inv content b"
  shows "tsdb_inv content (drainWatermarkLocked lib w b) \<and>
    map fst (bSeries (drainWatermarkLocked lib w b)) = map fst (bSeries b) \<and>
    (\<forall>k. map_of (bSeries (drainWatermarkLocked lib w b)) k = map_option (visit lib w b) (map_of (bSeries b) k)) \<and>
    (accounts content N b \<longrightarrow> accounts content N (drainWatermarkLocked lib w b)) \<and>
    bReorderGrace (drainWatermarkLocked lib w b) = bReorderGrace b \<and> bSamplesPerChk (drainWatermarkLocked lib w b) = bSamplesPerChk b \<and>
    bExtLabels (drainWatermarkLocked lib w b) = bExtLabels b \<and> bMaxObserved (drainWatermarkLocked lib w b) = bMaxObserved b \<and>
    bClosed (drainWatermarkLocked lib w b) = bClosed b"
  using assms
proof (induction lib w b rule: drainWatermarkLocked.induct)
  case (1 lib w b)
  show ?case
  proof (cases "bDrainQueue b \<noteq> [] \<and> deT (bDrainQueue b ! 0) \<le> w")
    case True
    let ?t = "drainTurn lib w b"
    note f = drainTurn_frame [OF "1.prems", of w]
    have "map_option (visit lib w ?t) (map_of (bSeries ?t) k) = map_option (visit lib w b) (map_of (bSeries b) k)" for k
      using True f(2,7) visit_cong [of ?t b lib w] by (auto simp: option.map_comp comp_def visit_idem)
    moreover have "drainWatermarkLocked lib w b = drainWatermarkLocked lib w ?t" using True by (subst drainWatermarkLocked.simps) simp
    ultimately show ?thesis
      using "1.IH" [OF True "1.prems"(1)] drainTurn_inv [OF "1.prems"] drainTurn_accounts [OF "1.prems"] True f by auto
  next
    case False
    then have "drainWatermarkLocked lib w b = b" by (subst drainWatermarkLocked.simps) auto
    moreover have "visit lib w b st = st" if st: "map_of (bSeries b) k = Some st" for k st
    proof (rule visit_not_due, rule notI, elim conjE)
      assume "tsPending st \<noteq> []" "ppT (tsPending st ! 0) \<le> w"
      moreover from this obtain e where "e \<in> set (bDrainQueue b)" "deT e \<le> ppT (tsPending st ! 0)"
        using queued_earlyD [OF _ st] "1.prems"(2) by (auto simp: tsdb_inv_def)
      moreover have "is_heap deT (bDrainQueue b)" using "1.prems"(2) by (simp add: tsdb_inv_def)
      ultimately show False using False go_heap.due_iff_root [of deT "bDrainQueue b" w] by fastforce
    qed
    ultimately show ?thesis using "1.prems"(2) by (auto simp: option.map_ident_strong intro!: option.map_ident_strong [symmetric])
  qed
qed

lemma drainWatermark_facts:
  assumes "xor_laws lib content" "tsdb_inv content b"
  shows "tsdb_inv content (drainWatermarkLocked lib w b)" "map fst (bSeries (drainWatermarkLocked lib w b)) = map fst (bSeries b)"
    "map_of (bSeries (drainWatermarkLocked lib w b)) = (\<lambda>k. map_option (visit lib w b) (map_of (bSeries b) k))"
    "accounts content N b \<Longrightarrow> accounts content N (drainWatermarkLocked lib w b)"
    "bReorderGrace (drainWatermarkLocked lib w b) = bReorderGrace b" "bSamplesPerChk (drainWatermarkLocked lib w b) = bSamplesPerChk b"
    "bExtLabels (drainWatermarkLocked lib w b) = bExtLabels b" "bMaxObserved (drainWatermarkLocked lib w b) = bMaxObserved b"
    "bClosed (drainWatermarkLocked lib w b) = bClosed b"
  using drainWatermark_effect [OF assms, of w N] by (blast, blast, simp add: fun_eq_iff, blast+)

section \<open>Adding samples\<close>

definition freshSeries :: "('c, 'l) promLib \<Rightarrow> gostr \<Rightarrow> gostr \<Rightarrow> goattrs \<Rightarrow> goattrs \<Rightarrow> ('c, 'l) tsdbSeriesState" where
  "freshSeries lib key metricName attrs ext =
     \<lparr>tsKey = key, tsLabels = labelsFor lib metricName attrs ext, tsPending = [], tsOpenChunk = None, tsOpenMin = 0,
      tsOpenMax = 0, tsOpenCount = 0, tsLastTs = MinInt64, tsHasLast = False, tsChunks = [], tsSamples = 0\<rparr>"

lemma freshSeries_simps [simp]:
  "tsKey (freshSeries lib k m a e) = k" "tsPending (freshSeries lib k m a e) = []" "emitted content (freshSeries lib k m a e) = []"
  "tsChunks (freshSeries lib k m a e) = []" "tsHasLast (freshSeries lib k m a e) = False" "wf_series content n (freshSeries lib k m a e)"
  by (simp_all add: freshSeries_def emitted_def wf_series_def open_ok_def heap_upto_def)

text \<open>The state a sample finds for its series: the stored one, or a new one.\<close>

definition found :: "('c, 'l) promLib \<Rightarrow> gostr \<Rightarrow> TSDBSample \<Rightarrow> ('c, 'l) StreamingTSDBBlockBuilder \<Rightarrow> ('c, 'l) tsdbSeriesState" where
  "found lib key s b = (case map_of (bSeries b) key of Some st \<Rightarrow> st
     | None \<Rightarrow> freshSeries lib key (sMetricName s) (sAttributes s) (bExtLabels b))"

lemma found_wf: "tsdb_inv content b \<Longrightarrow> wf_series content (bSamplesPerChk b) (found lib key s b) \<and> tsKey (found lib key s b) = key"
  by (auto simp: found_def tsdb_inv_def split: option.splits)

text \<open>The builder just before the drain of \<^verbatim>\<open>addToSeriesLocked\<close>.\<close>

definition withPoint :: "('c, 'l) promLib \<Rightarrow> gostr \<Rightarrow> TSDBSample \<Rightarrow> ('c, 'l) StreamingTSDBBlockBuilder \<Rightarrow> ('c, 'l) StreamingTSDBBlockBuilder" where
  "withPoint lib key s b =
     (let tms = unixMs (sTimestamp s); st = found lib key s b; pending = heap_push ppT \<lparr>ppT = tms, ppV = sValue s\<rparr> (tsPending st)
      in b\<lparr>bMaxObserved := max tms (bMaxObserved b), bSeries := AList.update key (st\<lparr>tsPending := pending\<rparr>) (bSeries b),
           bDrainQueue := (if ppT (pending ! 0) = tms then heap_push deT \<lparr>deT = tms, deSt = key\<rparr> (bDrainQueue b) else bDrainQueue b)\<rparr>)"

lemma AddSampleKeyed_eq:
  "AddSampleKeyed lib key s b =
     (if bClosed b then Inl ErrBuilderClosed
      else let b' = withPoint lib key s b in Inr (drainWatermarkLocked lib (bMaxObserved b' - bReorderGrace b') b'))"
  by (cases "map_of (bSeries b) key")
    (simp_all add: AddSampleKeyed_def withPoint_def found_def addToSeriesLocked_def getSeriesKeyed_def admitSeriesLocked_def
      observe_def Let_def freshSeries_def update_conv max_def)

lemma AddSample_keyed: "AddSample lib s b = AddSampleKeyed lib (SeriesKey (sMetricName s) (sAttributes s) (bExtLabels b)) s b"
  by (auto simp: AddSample_def AddSampleKeyed_def getSeries_def getSeriesKeyed_def SeriesKey_def observe_def Let_def)

lemma push_root:
  assumes "is_heap f q" "f (heap_push f x q ! 0) \<noteq> f x"
  shows "q \<noteq> [] \<and> f (q ! 0) \<le> f (heap_push f x q ! 0)"
proof -
  have "heap_push f x q ! 0 \<in> set (heap_push f x q)" by simp
  with assms(2) have "heap_push f x q ! 0 \<in> set q" unfolding go_heap.push_set by auto
  then show ?thesis using go_heap.root_least [OF assms(1)] by auto
qed

lemma withPoint_inv:
  assumes "tsdb_inv content b"
  shows "tsdb_inv content (withPoint lib key s b)"
proof -
  let ?p = "\<lparr>ppT = unixMs (sTimestamp s), ppV = sValue s\<rparr>" and ?st = "found lib key s b" and ?b' = "withPoint lib key s b"
  let ?h = "heap_push ppT ?p (tsPending ?st)" and ?e = "\<lparr>deT = unixMs (sTimestamp s), deSt = key\<rparr>"
  let ?ss = "AList.update key (?st\<lparr>tsPending := ?h\<rparr>) (bSeries b)"
  have wf: "wf_series content (bSamplesPerChk b) ?st" "tsKey ?st = key" using found_wf [OF assms] by blast+
  then have heap: "is_heap ppT (tsPending ?st)" by (simp add: wf_series_def)
  have q: "bDrainQueue ?b' = (if ppT (?h ! 0) = ppT ?p then heap_push deT ?e (bDrainQueue b) else bDrainQueue b)"
    by (simp add: withPoint_def Let_def)
  have ser: "bSeries ?b' = ?ss" "bSamplesPerChk ?b' = bSamplesPerChk b" by (simp_all add: withPoint_def Let_def)
  have qset: "set (bDrainQueue b) \<subseteq> set (bDrainQueue ?b')" "\<forall>e \<in> set (bDrainQueue ?b'). e = ?e \<or> e \<in> set (bDrainQueue b)"
    unfolding q by (auto simp: go_heap.push_set)
  have "queued_early ?b'" unfolding queued_early_def ser
  proof (intro allI impI, elim conjE)
    fix k st assume st: "map_of ?ss k = Some st" "tsPending st \<noteq> []"
    show "\<exists>e \<in> set (bDrainQueue ?b'). deSt e = k \<and> deT e \<le> ppT (tsPending st ! 0)"
    proof (cases "k = key \<and> ppT (?h ! 0) = ppT ?p")
      case True
      then show ?thesis using st unfolding q by (auto simp: update_conv go_heap.push_set)
    next
      case False
      define st0 where "st0 = (if k = key then ?st else st)"
      have "tsPending st0 \<noteq> [] \<and> ppT (tsPending st0 ! 0) \<le> ppT (tsPending st ! 0)"
        using st False push_root [OF heap, of ?p] by (auto simp: st0_def update_conv)
      moreover have "map_of (bSeries b) k = Some st0"
        using calculation st by (auto simp: st0_def update_conv found_def split: option.splits)
      ultimately obtain e where "e \<in> set (bDrainQueue b)" "deSt e = k" "deT e \<le> ppT (tsPending st0 ! 0)"
        using queued_earlyD [of b k st0] assms by (auto simp: tsdb_inv_def)
      then show ?thesis using qset(1) \<open>tsPending st0 \<noteq> [] \<and> _\<close> by force
    qed
  qed
  moreover have "\<forall>e \<in> set (bDrainQueue ?b'). map_of ?ss (deSt e) \<noteq> None"
    using qset(2) assms by (auto simp: tsdb_inv_def update_conv)
  moreover have "\<forall>k st. map_of ?ss k = Some st \<longrightarrow> tsKey st = k \<and> wf_series content (bSamplesPerChk b) st"
    using assms wf heap by (auto simp: tsdb_inv_def update_conv wf_series_pending is_heap_push)
  moreover have "is_heap deT (bDrainQueue ?b')" using assms unfolding q by (auto simp: tsdb_inv_def is_heap_push)
  moreover have "distinct (map fst ?ss)" using assms by (simp add: tsdb_inv_def distinct_update)
  ultimately show ?thesis using assms unfolding tsdb_inv_def ser by simp
qed

lemma withPoint_accounts:
  assumes "accounts content N b"
  shows "accounts content (Suc N) (withPoint lib key s b)"
proof -
  let ?st = "found lib key s b"
  let ?st' = "?st\<lparr>tsPending := heap_push ppT \<lparr>ppT = unixMs (sTimestamp s), ppV = sValue s\<rparr> (tsPending ?st)\<rparr>"
  let ?ss = "AList.update key ?st' (bSeries b)"
  have sums: "series_sum f ?ss + f ?st = series_sum f (bSeries b) + f ?st'"
    if "\<And>m a e. f (freshSeries lib key m a e) = 0" for f
    using that series_sum_update [of "bSeries b" key _ f ?st'] series_sum_new [of "bSeries b" key f ?st']
    by (cases "map_of (bSeries b) key") (simp_all add: found_def)
  have "block_times content (withPoint lib key s b) = block_times content b \<union> fst ` set (emitted content ?st')"
    using series_union_update [of "bSeries b" key _ "\<lambda>st. fst ` set (emitted content st)" ?st']
      series_union_new [of "bSeries b" key "\<lambda>st. fst ` set (emitted content st)" ?st']
    by (cases "map_of (bSeries b) key") (simp_all add: found_def block_times_def withPoint_def Let_def)
  also have "\<dots> = block_times content b"
    by (cases "map_of (bSeries b) key") (force simp: found_def block_times_def dest: map_of_SomeD)+
  finally show ?thesis
    using assms sums [of "length \<circ> emitted content"] sums [of "length \<circ> tsChunks"] sums [of "length \<circ> tsPending"]
    by (simp add: accounts_def go_heap.push_length) (simp add: withPoint_def Let_def)
qed

definition added :: "('c, 'l) promLib \<Rightarrow> gostr \<Rightarrow> TSDBSample \<Rightarrow> ('c, 'l) StreamingTSDBBlockBuilder \<Rightarrow> ('c, 'l) tsdbSeriesState" where
  "added lib key s b = (found lib key s b)\<lparr>tsPending :=
     heap_push ppT \<lparr>ppT = unixMs (sTimestamp s), ppV = sValue s\<rparr> (tsPending (found lib key s b))\<rparr>"

lemma AddSampleKeyed_facts:
  assumes "xor_laws lib content" "tsdb_inv content b" "AddSampleKeyed lib key s b = Inr b'"
  shows "tsdb_inv content b'" "accounts content N b \<Longrightarrow> accounts content (Suc N) b'"
    "bMaxObserved b' = max (unixMs (sTimestamp s)) (bMaxObserved b)" "bReorderGrace b' = bReorderGrace b"
    "bSamplesPerChk b' = bSamplesPerChk b" "bExtLabels b' = bExtLabels b" "\<not> bClosed b'"
    "map_of (bSeries b') = (\<lambda>k. map_option (visit lib (bMaxObserved b' - bReorderGrace b') b)
       (if k = key then Some (added lib key s b) else map_of (bSeries b) k))"
proof -
  let ?b1 = "withPoint lib key s b"
  have "\<not> bClosed b" using assms(3) by (auto simp: AddSampleKeyed_def)
  then have f: "bMaxObserved ?b1 = max (unixMs (sTimestamp s)) (bMaxObserved b)" "bReorderGrace ?b1 = bReorderGrace b"
    "bSamplesPerChk ?b1 = bSamplesPerChk b" "bExtLabels ?b1 = bExtLabels b" "\<not> bClosed ?b1"
    "map_of (bSeries ?b1) = (\<lambda>k. if k = key then Some (added lib key s b) else map_of (bSeries b) k)"
    by (auto simp: withPoint_def added_def Let_def update_conv fun_eq_iff)
  have vc: "visit lib w ?b1 = visit lib w b" for w using visit_cong f(3) by blast
  have b': "b' = drainWatermarkLocked lib (bMaxObserved ?b1 - bReorderGrace ?b1) ?b1"
    using assms(3) by (simp add: AddSampleKeyed_eq Let_def split: if_splits)
  note e = drainWatermark_facts [OF assms(1) withPoint_inv [OF assms(2), of lib key s]]
  show "accounts content N b \<Longrightarrow> accounts content (Suc N) b'" unfolding b' by (rule e(4) [OF withPoint_accounts])
  show "tsdb_inv content b'"
    "bMaxObserved b' = max (unixMs (sTimestamp s)) (bMaxObserved b)" "bReorderGrace b' = bReorderGrace b"
    "bSamplesPerChk b' = bSamplesPerChk b" "bExtLabels b' = bExtLabels b" "\<not> bClosed b'"
    "map_of (bSeries b') = (\<lambda>k. map_option (visit lib (bMaxObserved b' - bReorderGrace b') b)
       (if k = key then Some (added lib key s b) else map_of (bSeries b) k))"
    unfolding b' by (simp_all add: e f vc)
qed

section \<open>Reachable builders\<close>

text \<open>
  The calls a builder can see before it is finalized; the count is of the samples added. A caller of \<^verbatim>\<open>AddSampleKeyed\<close> passes the
  key that \<^verbatim>\<open>SeriesKey\<close> gives, as its comment demands.
\<close>

definition go_sample :: "TSDBSample \<Rightarrow> bool" where
  "go_sample s \<longleftrightarrow> go_string (sMetricName s) \<and> go_attrs (sAttributes s)"

abbreviation sample_key :: "goattrs \<Rightarrow> TSDBSample \<Rightarrow> gostr" where
  "sample_key ext s \<equiv> SeriesKey (sMetricName s) (sAttributes s) ext"

abbreviation sample_labels :: "('c, 'l) promLib \<Rightarrow> goattrs \<Rightarrow> TSDBSample \<Rightarrow> 'l" where
  "sample_labels lib ext s \<equiv> labelsFor lib (sMetricName s) (sAttributes s) ext"

inductive reach :: "('c, 'l) promLib \<Rightarrow> StreamingTSDBOptions \<Rightarrow> nat \<Rightarrow> ('c, 'l) StreamingTSDBBlockBuilder \<Rightarrow> bool"
  for lib opts where
  init: "reach lib opts 0 (NewStreamingTSDBBlockBuilder opts)"
| keyed: "reach lib opts N b \<Longrightarrow> go_sample s \<Longrightarrow> AddSampleKeyed lib (sample_key (bExtLabels b) s) s b = Inr b' \<Longrightarrow> reach lib opts (Suc N) b'"
| drain: "reach lib opts N b \<Longrightarrow> DrainWatermark lib w b = Inr b' \<Longrightarrow> reach lib opts N b'"

lemma reach_add: "reach lib opts N b \<Longrightarrow> go_sample s \<Longrightarrow> AddSample lib s b = Inr b' \<Longrightarrow> reach lib opts (Suc N) b'"
  unfolding AddSample_keyed by (rule reach.keyed)

definition none_ready :: "('c, 'l) StreamingTSDBBlockBuilder \<Rightarrow> bool" where
  "none_ready b \<longleftrightarrow> (\<forall>k st. map_of (bSeries b) k = Some st \<longrightarrow> (\<forall>p \<in> set (tsPending st). bMaxObserved b - bReorderGrace b < ppT p))"

definition times_bounded :: "('c, 'l) StreamingTSDBBlockBuilder \<Rightarrow> bool" where
  "times_bounded b \<longleftrightarrow> (\<forall>k st. map_of (bSeries b) k = Some st \<longrightarrow> (\<forall>p \<in> set (tsPending st). ppT p \<le> MaxInt64))"

text \<open>Every series carries the labels of the samples its key is made from.\<close>

definition labelled :: "('c, 'l) promLib \<Rightarrow> ('c, 'l) StreamingTSDBBlockBuilder \<Rightarrow> bool" where
  "labelled lib b \<longleftrightarrow> (\<forall>k st. map_of (bSeries b) k = Some st \<longrightarrow>
     (\<exists>s. go_sample s \<and> k = sample_key (bExtLabels b) s \<and> tsLabels st = sample_labels lib (bExtLabels b) s))"

lemma labelled_map:
  assumes "map_of (bSeries b') = (\<lambda>k. map_option f (map_of (bSeries b) k))" "bExtLabels b' = bExtLabels b"
    and "\<And>st. tsLabels (f st) = tsLabels st" "labelled lib b"
  shows "labelled lib b'"
  using assms by (auto simp: labelled_def)

lemma visit_pending:
  assumes "is_heap ppT (tsPending st)" "p \<in> set (tsPending (visit lib w b st))"
  shows "w < ppT p" "p \<in> set (tsPending st)"
  using assms heap_drain_heap [OF assms(1), of w] arg_cong [OF heap_drain_mset [of ppT w "tsPending st"], of set_mset]
  by (auto simp: drainPoints_pending)

lemma tsdb_inv_heap: "tsdb_inv content b \<Longrightarrow> map_of (bSeries b) k = Some st \<Longrightarrow> is_heap ppT (tsPending st)"
  by (auto simp: tsdb_inv_def wf_series_def)

definition opts_ok :: "StreamingTSDBOptions \<Rightarrow> bool" where
  "opts_ok opts \<longleftrightarrow> toSamplesPerChunk opts \<le> 65535 \<and> 0 \<le> unixMs (toReorderGrace opts) \<and> go_attrs (toExternalLabels opts)"

lemma New_inv:
  assumes "opts_ok opts"
  shows "tsdb_inv content (NewStreamingTSDBBlockBuilder opts)" "accounts content 0 (NewStreamingTSDBBlockBuilder opts)"
    "none_ready (NewStreamingTSDBBlockBuilder opts)" "\<not> bClosed (NewStreamingTSDBBlockBuilder opts)"
  using assms by (simp_all add: NewStreamingTSDBBlockBuilder_def tsdb_inv_def accounts_def none_ready_def block_times_def queued_early_def
      defaultTSDBSamplesPerChunk_def opts_ok_def heap_upto_def)

lemma added_wf: "tsdb_inv content b \<Longrightarrow> wf_series content (bSamplesPerChk b) (added lib key s b)"
  using found_wf [of content b lib key s] by (simp add: added_def wf_series_pending is_heap_push wf_series_def)

lemma AddSampleKeyed_series:
  assumes "xor_laws lib content" "tsdb_inv content b" "AddSampleKeyed lib key s b = Inr b'" "map_of (bSeries b') k = Some st"
  obtains st0 where "st = visit lib (bMaxObserved b' - bReorderGrace b') b st0" "is_heap ppT (tsPending st0)"
    "(if k = key then Some (added lib key s b) else map_of (bSeries b) k) = Some st0"
proof -
  obtain st0 where st0: "st = visit lib (bMaxObserved b' - bReorderGrace b') b st0"
    "(if k = key then Some (added lib key s b) else map_of (bSeries b) k) = Some st0"
    using AddSampleKeyed_facts(8) [OF assms(1-3)] assms(4) by auto
  then have "is_heap ppT (tsPending st0)"
    using added_wf [OF assms(2)] tsdb_inv_heap [OF assms(2)] by (auto simp: wf_series_def split: if_splits)
  with st0 that show ?thesis by blast
qed

lemma AddSampleKeyed_ready:
  assumes "xor_laws lib content" "tsdb_inv content b" "AddSampleKeyed lib key s b = Inr b'"
  shows "none_ready b'" and "times_bounded b \<Longrightarrow> times_bounded b'"
proof -
  show "none_ready b'"
    unfolding none_ready_def by (metis AddSampleKeyed_series [OF assms] visit_pending(1))
  assume tb: "times_bounded b"
  show "times_bounded b'" unfolding times_bounded_def
  proof (intro allI impI ballI)
    fix k st p assume st: "map_of (bSeries b') k = Some st" "p \<in> set (tsPending st)"
    obtain st0 where st0: "st = visit lib (bMaxObserved b' - bReorderGrace b') b st0" "is_heap ppT (tsPending st0)"
      "(if k = key then Some (added lib key s b) else map_of (bSeries b) k) = Some st0"
      by (rule AddSampleKeyed_series [OF assms st(1)])
    have "p \<in> set (tsPending st0)" using visit_pending(2) [OF st0(2)] st(2) st0(1) by blast
    then show "ppT p \<le> MaxInt64" using st0(3) tb unixMs_bound [of "sTimestamp s"]
      by (auto simp: times_bounded_def added_def found_def go_heap.push_set split: if_splits option.splits)
  qed
qed

lemma tsLabels_found:
  "tsLabels (added lib key s b) = (case map_of (bSeries b) key of Some st \<Rightarrow> tsLabels st | None \<Rightarrow> sample_labels lib (bExtLabels b) s)"
  by (simp add: added_def found_def freshSeries_def split: option.split)

lemma AddSampleKeyed_labelled:
  assumes "xor_laws lib content" "tsdb_inv content b" "AddSampleKeyed lib (sample_key (bExtLabels b) s) s b = Inr b'"
    and "go_sample s" "labelled lib b"
  shows "labelled lib b'"
  unfolding labelled_def AddSampleKeyed_facts(6) [OF assms(1-3)]
proof (intro allI impI)
  let ?key = "sample_key (bExtLabels b) s"
  fix k st assume "map_of (bSeries b') k = Some st"
  then obtain st0 where st0: "st = visit lib (bMaxObserved b' - bReorderGrace b') b st0"
    "(if k = ?key then Some (added lib ?key s b) else map_of (bSeries b) k) = Some st0"
    by (rule AddSampleKeyed_series [OF assms(1-3)])
  have "tsLabels st = tsLabels st0" using st0(1) same_identity_drain by fastforce
  then show "\<exists>s. go_sample s \<and> k = sample_key (bExtLabels b) s \<and> tsLabels st = sample_labels lib (bExtLabels b) s"
    using st0(2) assms(4,5) by (auto simp: labelled_def tsLabels_found split: if_splits option.splits)
qed

lemma reach_inv:
  assumes "xor_laws lib content" "opts_ok opts" "reach lib opts N b"
  shows "tsdb_inv content b \<and> accounts content N b \<and> none_ready b \<and> \<not> bClosed b \<and> times_bounded b \<and> labelled lib b \<and>
    bExtLabels b = toExternalLabels opts"
  using assms(3)
proof induction
  case init
  then show ?case using New_inv [OF assms(2)] by (auto simp: times_bounded_def labelled_def NewStreamingTSDBBlockBuilder_def)
next
  case (keyed N b s b')
  then have inv: "tsdb_inv content b" by blast
  note f = AddSampleKeyed_facts [OF assms(1) inv keyed(3)]
  show ?case
    using keyed(4) AddSampleKeyed_ready [OF assms(1) inv keyed(3)] AddSampleKeyed_labelled [OF assms(1) inv keyed(3,2)] f(1,7) f(2) [of N]
    by (simp add: f(6))
next
  case (drain N b w b')
  have b': "b' = drainWatermarkLocked lib (unixMs w) b" using drain(2) by (auto simp: DrainWatermark_def split: if_splits)
  have inv: "tsdb_inv content b" using drain(3) by blast
  note e = drainWatermark_facts [OF assms(1) inv, where w = "unixMs w"]
  have "none_ready b'" "times_bounded b'" using drain(3) tsdb_inv_heap [OF inv] unfolding b' none_ready_def times_bounded_def
    by (auto simp: e dest!: visit_pending(2) [rotated])
  moreover have "labelled lib b'" using drain(3) unfolding b'
    by (intro labelled_map [OF e(3) e(7)]) (simp_all add: same_identity_drain)
  ultimately show ?case using drain(3) b' by (simp add: e)
qed

section \<open>Finalizing\<close>

abbreviation flushed :: "('c, 'l) StreamingTSDBBlockBuilder \<Rightarrow> ('c, 'l) tsdbSeriesState \<Rightarrow> ('c, 'l) tsdbSeriesState" where
  "flushed b st \<equiv> snd (flushOpenChunkLocked (b, st))"

lemma flushed_cong: "flushed b st = flushed b' st"
  by (simp add: flushOpenChunkLocked_def split: option.split)

lemma flushSeries_effect:
  assumes "\<forall>(k, st) \<in> set ss. open_ok content n st"
  shows "snd (flushSeries b ss) = map (\<lambda>(k, st). (k, flushed b st)) ss \<and> same_frame b (fst (flushSeries b ss)) \<and>
    bNumChunks (fst (flushSeries b ss)) + series_sum (length \<circ> tsChunks) ss =
       bNumChunks b + series_sum (length \<circ> tsChunks) (snd (flushSeries b ss)) \<and>
    bNumSamples (fst (flushSeries b ss)) = bNumSamples b \<and> bNumDropped (fst (flushSeries b ss)) = bNumDropped b \<and>
    bMinTime (fst (flushSeries b ss)) = bMinTime b \<and> bMaxTime (fst (flushSeries b ss)) = bMaxTime b"
  using assms
proof (induction b ss rule: flushSeries.induct)
  case (2 b k st ss)
  obtain b1 st1 where f: "flushOpenChunkLocked (b, st) = (b1, st1)" by fastforce
  obtain b2 ys where r: "flushSeries b1 ss = (b2, ys)" by fastforce
  have "open_ok content n st" using "2.prems" by auto
  note fc = flush_content [OF f this]
  have fr: "same_frame b b1" using same_frame_flush [of "(b, st)"] f by simp
  have IH: "ys = map (\<lambda>(k, st). (k, flushed b1 st)) ss" "same_frame b1 b2"
    "bNumChunks b2 + series_sum (length \<circ> tsChunks) ss = bNumChunks b1 + series_sum (length \<circ> tsChunks) ys"
    "bNumSamples b2 = bNumSamples b1" "bNumDropped b2 = bNumDropped b1" "bMinTime b2 = bMinTime b1" "bMaxTime b2 = bMaxTime b1"
    using "2.IH" [OF f [symmetric] refl] "2.prems" r by (auto simp: comp_def)
  have "(\<lambda>(k :: gostr, st). (k, flushed b1 st)) = (\<lambda>(k, st). (k, flushed b st))" by (auto intro: flushed_cong)
  then have ys: "map (\<lambda>(k, st). (k, flushed b st)) ((k, st) # ss) = (k, st1) # ys" using f IH(1) by simp
  have res: "flushSeries b ((k, st) # ss) = (b2, (k, st1) # ys)" by (simp add: f r)
  show ?case unfolding res fst_conv snd_conv ys using IH(2-7) fc(4-8) fr by (simp add: same_frame_def comp_def)
qed (simp add: same_frame_def)

text \<open>The builder that \<^verbatim>\<open>Finalize\<close> leaves behind: everything pending is appended or dropped, every open chunk closed.\<close>

lemma Finalize_facts:
  assumes "xor_laws lib content" "tsdb_inv content b" "\<not> bClosed b" "Finalize lib b = Inr (b', r)"
  shows "map_of (bSeries b') = (\<lambda>k. map_option (flushed b \<circ> visit lib MaxInt64 b) (map_of (bSeries b) k))"
    "map fst (bSeries b') = map fst (bSeries b)" "accounts content N b \<Longrightarrow> accounts content N b'"
    "bExtLabels b' = bExtLabels b" "bSamplesPerChk b' = bSamplesPerChk b"
proof -
  let ?c = "b\<lparr>bClosed := True\<rparr>"
  let ?b1 = "drainWatermarkLocked lib MaxInt64 ?c"
  obtain b2 ss where f: "flushSeries ?b1 (bSeries ?b1) = (b2, ss)" by fastforce
  have b': "b' = b2\<lparr>bSeries := ss\<rparr>" using assms(3,4) f by (auto simp: Finalize_def Let_def split: if_splits)
  have "tsdb_inv content ?c" using assms(2) by (simp add: tsdb_inv_def queued_early_def)
  note d = drainWatermark_facts [OF assms(1) this, where w = MaxInt64]
  have "\<forall>(k, st) \<in> set (bSeries ?b1). open_ok content (bSamplesPerChk ?b1) st"
    using d(1) by (auto simp: tsdb_inv_def wf_series_def map_of_eq_Some_iff)
  note e = flushSeries_effect [OF this, of ?b1, unfolded f fst_conv snd_conv]
  have ok: "open_ok content (bSamplesPerChk ?b1) st" if "(k, st) \<in> set (bSeries ?b1)" for k st
    using that d(1) by (auto simp: tsdb_inv_def wf_series_def map_of_eq_Some_iff)
  have em: "emitted content (flushed ?b1 st) = emitted content st" "tsPending (flushed ?b1 st) = tsPending st"
    if "(k, st) \<in> set (bSeries ?b1)" for k st
    using flush_content(1) [OF surjective_pairing ok [OF that]] by simp_all
  have "flushed ?b1 = flushed b" "visit lib MaxInt64 ?c = visit lib MaxInt64 b" using flushed_cong visit_cong [of ?c b] by (blast, simp)
  then show "map_of (bSeries b') = (\<lambda>k. map_option (flushed b \<circ> visit lib MaxInt64 b) (map_of (bSeries b) k))"
    using e d(3) by (simp add: b' map_of_map fun_eq_iff option.map_comp)
  show "map fst (bSeries b') = map fst (bSeries b)" using e d(2) by (auto simp: b' comp_def case_prod_unfold)
  show "bExtLabels b' = bExtLabels b" "bSamplesPerChk b' = bSamplesPerChk b" using e d(6,7) by (simp_all add: b' same_frame_def)
  have "series_sum (length \<circ> emitted content) ss = series_sum (length \<circ> emitted content) (bSeries ?b1)"
    "series_sum (length \<circ> tsPending) ss = series_sum (length \<circ> tsPending) (bSeries ?b1)"
    using e em by (auto intro!: arg_cong [where f = sum_list] simp: case_prod_unfold)
  moreover have "block_times content b' = block_times content ?b1" using e em by (force simp: block_times_def b')
  ultimately show "accounts content N b'" if "accounts content N b"
    using d(4) [of N] that e by (simp add: accounts_def b' block_times_def)
qed

lemma finalized_series:
  assumes "xor_laws lib content" "tsdb_inv content b" "times_bounded b" "\<not> bClosed b" "Finalize lib b = Inr (b', r)"
    and "map_of (bSeries b') k = Some st"
  shows "tsPending st = []" "tsOpenChunk st = None" "wf_series content (bSamplesPerChk b) st"
    and "\<exists>st0. map_of (bSeries b) k = Some st0 \<and> tsLabels st = tsLabels st0 \<and>
           emitted content st = emitted content st0 @ map point (drained MaxInt64 st0)"
proof -
  obtain st0 where st0: "map_of (bSeries b) k = Some st0" "st = flushed b (visit lib MaxInt64 b st0)"
    using Finalize_facts(1) [OF assms(1,2,4,5)] assms(6) by auto
  have inv: "wf_series content (bSamplesPerChk b) st0" "1 \<le> bSamplesPerChk b" "bSamplesPerChk b \<le> 65535"
    using assms(2) st0(1) by (auto simp: tsdb_inv_def)
  have d: "wf_series content (bSamplesPerChk b) (visit lib MaxInt64 b st0)"
    "emitted content (visit lib MaxInt64 b st0) = emitted content st0 @ map point (drained MaxInt64 st0)"
    using drain_content [OF assms(1) inv(2,3), where bs = "(b, st0)" and w = MaxInt64] inv(1) by (auto split: prod.splits)
  then have "open_ok content (bSamplesPerChk b) (visit lib MaxInt64 b st0)" by (simp add: wf_series_def)
  note f = flush_content [OF surjective_pairing this, of b]
  have "tsPending (visit lib MaxInt64 b st0) = []"
  proof (rule ccontr)
    assume "tsPending (visit lib MaxInt64 b st0) \<noteq> []"
    then obtain p where "p \<in> set (tsPending (visit lib MaxInt64 b st0))" using hd_in_set by blast
    then have "MaxInt64 < ppT p" "p \<in> set (tsPending st0)" using visit_pending [of st0] inv(1) by (auto simp: wf_series_def)
    then show False using assms(3) st0(1) unfolding times_bounded_def by (meson not_le)
  qed
  then show "tsPending st = []" "tsOpenChunk st = None" "wf_series content (bSamplesPerChk b) st" using f d st0 by simp_all
  have "tsLabels st = tsLabels st0" using st0(2) same_identity_drain [of lib MaxInt64 "(b, st0)"]
    by (auto simp: flushOpenChunkLocked_def split: prod.splits option.splits)
  then show "\<exists>st0. map_of (bSeries b) k = Some st0 \<and> tsLabels st = tsLabels st0 \<and>
      emitted content st = emitted content st0 @ map point (drained MaxInt64 st0)"
    using f(1) d(2) st0 by auto
qed

text \<open>
  Property C22. No sample is lost or counted twice: for a builder that has accepted \<open>N\<close> samples, in whatever order and through
  whichever of its entry points, \<^verbatim>\<open>Finalize\<close> leaves nothing pending and no chunk open, the samples of the block
  and the samples reported as dropped add up to \<open>N\<close>, and the numbers of samples and chunks in the metadata are those the
  series really have.
\<close>

theorem Finalize_accounts:
  assumes "xor_laws lib content" and "opts_ok opts" and "reach lib opts N b" and "Finalize lib b = Inr (b', Some a)"
  shows "(\<forall>(k, st) \<in> set (bSeries b'). tsPending st = [] \<and> tsOpenChunk st = None) \<and>
    aNumSamples a + aNumOOODropped a = N \<and>
    aNumSamples a = length (concat (map (concat \<circ> map (content \<circ> mChunk)) (aChunks a))) \<and>
    aNumChunks a = length (concat (aChunks a)) \<and> aNumSeries a = length (aChunks a)"
proof -
  have inv: "tsdb_inv content b" "accounts content N b" "\<not> bClosed b" "times_bounded b"
    using reach_inv [OF assms(1-3)] by blast+
  note f = Finalize_facts [OF assms(1) inv(1,3) assms(4)] and s = finalized_series [OF assms(1) inv(1,4,3) assms(4)]
  have d: "distinct (map fst (bSeries b'))" using f(2) inv(1) by (simp add: tsdb_inv_def)
  then have st: "tsPending st = [] \<and> tsOpenChunk st = None" if "(k, st) \<in> set (bSeries b')" for k st
    using s(1,2) that by (simp add: map_of_eq_Some_iff)
  have acc: "accounts content N b'" using f(3) inv(2) .
  have pend: "series_sum (length \<circ> tsPending) (bSeries b') = 0" using st by (fastforce simp: sum_list_eq_0_iff)
  have art: "aNumSamples a = bNumSamples b'" "aNumOOODropped a = bNumDropped b'" "aNumChunks a = bNumChunks b'"
    "aNumSeries a = length (nonEmptySeries b')" "aChunks a = writeChunks lib b'"
    using assms(4) by (auto simp: Finalize_def Let_def split: if_splits prod.splits)
  have sums: "sum_list (map g (aChunks a)) = series_sum (g \<circ> tsChunks) (bSeries b')" if "g [] = 0" for g :: "'a chunkMeta list \<Rightarrow> nat"
  proof -
    have "mset (map g (aChunks a)) = mset (map (g \<circ> tsChunks) (nonEmptySeries b'))"
      by (simp add: art(5) writeChunks_def labelSortedSeries_def image_mset.compositionality)
    then have "sum_list (map g (aChunks a)) = sum_list (map (g \<circ> tsChunks) (nonEmptySeries b'))" by (metis sum_mset_sum_list)
    also have "\<dots> = sum_list (map (g \<circ> tsChunks) (map snd (bSeries b')))"
      unfolding nonEmptySeries_def by (rule sum_list_map_filter) (use that in auto)
    finally show ?thesis by (simp add: comp_assoc)
  qed
  have "series_sum (length \<circ> emitted content) (bSeries b') = series_sum ((length \<circ> (concat \<circ> map (content \<circ> mChunk))) \<circ> tsChunks) (bSeries b')"
    using st by (intro arg_cong [where f = sum_list] map_cong) (fastforce simp: emitted_def)+
  also have "\<dots> = length (concat (map (concat \<circ> map (content \<circ> mChunk)) (aChunks a)))"
    by (subst sums [symmetric]) (simp_all add: length_concat)
  finally have samples: "series_sum (length \<circ> emitted content) (bSeries b') = length (concat (map (concat \<circ> map (content \<circ> mChunk)) (aChunks a)))" .
  moreover have "series_sum (length \<circ> tsChunks) (bSeries b') = length (concat (aChunks a))"
    using sums [of length] by (simp add: length_concat)
  moreover have "length (nonEmptySeries b') = length (aChunks a)" by (simp add: art(5) writeChunks_def labelSortedSeries_def)
  ultimately show ?thesis using st acc art pend unfolding accounts_def by auto
qed

lemma drainTurn_heap:
  assumes "is_heap deT (bDrainQueue b)" "bDrainQueue b \<noteq> []"
  shows "is_heap deT (bDrainQueue (drainTurn lib w b))"
proof -
  let ?b1 = "b\<lparr>bDrainQueue := snd (heap_pop deT (bDrainQueue b))\<rparr>"
  have "is_heap deT (bDrainQueue ?b1)" using is_heap_pop [OF assms] by simp
  moreover have "bDrainQueue (fst (drainPoints lib w (?b1, st))) = bDrainQueue ?b1" for st using same_frame_drain [of "(?b1, st)" lib w] by (simp add: same_frame_def)
  ultimately show ?thesis by (auto simp: drainTurn_def Let_def is_heap_push split: option.split prod.split) (metis fst_conv is_heap_push)+
qed

lemma drainWatermark_heap:
  "is_heap deT (bDrainQueue b) \<Longrightarrow> is_heap deT (bDrainQueue (drainWatermarkLocked lib w b))"
proof (induction lib w b rule: drainWatermarkLocked.induct)
  case (1 lib w b)
  have "drainWatermarkLocked lib w b = (if bDrainQueue b \<noteq> [] \<and> deT (bDrainQueue b ! 0) \<le> w then drainWatermarkLocked lib w (drainTurn lib w b) else b)"
    by (rule drainWatermarkLocked.simps)
  then show ?case using 1 drainTurn_heap [of b lib w] by (simp split: if_splits)
qed

lemma drainWatermark_turns:
  "\<exists>n \<le> length (filter (\<lambda>e. deT e \<le> w) (bDrainQueue b)). drainWatermarkLocked lib w b = (drainTurn lib w ^^ n) b \<and>
     \<not> (bDrainQueue (drainWatermarkLocked lib w b) \<noteq> [] \<and> deT (bDrainQueue (drainWatermarkLocked lib w b) ! 0) \<le> w)"
proof (induction lib w b rule: drainWatermarkLocked.induct)
  case (1 lib w b)
  show ?case
  proof (cases "bDrainQueue b \<noteq> [] \<and> deT (bDrainQueue b ! 0) \<le> w")
    case True
    then have e: "drainWatermarkLocked lib w b = drainWatermarkLocked lib w (drainTurn lib w b)" by (subst drainWatermarkLocked.simps) simp
    obtain n where "n \<le> length (filter (\<lambda>e. deT e \<le> w) (bDrainQueue (drainTurn lib w b)))"
      "drainWatermarkLocked lib w (drainTurn lib w b) = (drainTurn lib w ^^ n) (drainTurn lib w b)"
      "\<not> (bDrainQueue (drainWatermarkLocked lib w b) \<noteq> [] \<and> deT (bDrainQueue (drainWatermarkLocked lib w b) ! 0) \<le> w)"
      using "1.IH" [OF True] e by auto
    moreover from this have "Suc n \<le> length (filter (\<lambda>e. deT e \<le> w) (bDrainQueue b))"
      using drainTurn_queue_count [of b w lib] True by simp
    ultimately show ?thesis using e by (metis comp_apply funpow_Suc_right)
  next
    case False
    then have "drainWatermarkLocked lib w b = b" by (subst drainWatermarkLocked.simps) auto
    with False show ?thesis by (intro exI [of _ 0]) simp
  qed
qed

text \<open>
  Property C21. The drain loop ends: from any state it makes at most as many turns as the queue has entries that are due, and from a
  queue in heap order, as every reachable builder's is, it leaves a queue in heap order none of whose entries is due.
\<close>

theorem drain_terminates:
  "(\<exists>n \<le> length (filter (\<lambda>e. deT e \<le> w) (bDrainQueue b)). drainWatermarkLocked lib w b = (drainTurn lib w ^^ n) b) \<and>
   (is_heap deT (bDrainQueue b) \<longrightarrow>
     is_heap deT (bDrainQueue (drainWatermarkLocked lib w b)) \<and> (\<forall>e \<in> set (bDrainQueue (drainWatermarkLocked lib w b)). w < deT e))"
proof -
  let ?q = "bDrainQueue (drainWatermarkLocked lib w b)"
  obtain n where n: "n \<le> length (filter (\<lambda>e. deT e \<le> w) (bDrainQueue b))" "drainWatermarkLocked lib w b = (drainTurn lib w ^^ n) b"
    "\<not> (?q \<noteq> [] \<and> deT (?q ! 0) \<le> w)" using drainWatermark_turns by blast
  have "\<forall>e \<in> set ?q. w < deT e" if "is_heap deT (bDrainQueue b)"
    using go_heap.due_iff_root [of deT ?q w] drainWatermark_heap [OF that] n(3) by (auto simp: not_le)
  then show ?thesis using n(1,2) drainWatermark_heap by blast
qed

text \<open>
  No ready series is missed: in every state a builder reaches through its entry points, each point still
  pending is later than the watermark, the largest time seen less the reorder grace.
\<close>

theorem no_ready_point_left:
  assumes "xor_laws lib content" "opts_ok opts" "reach lib opts N b" and "(k, st) \<in> set (bSeries b)" "p \<in> set (tsPending st)"
  shows "bMaxObserved b - bReorderGrace b < ppT p"
proof -
  have "none_ready b" "distinct (map fst (bSeries b))" using reach_inv [OF assms(1-3)] by (auto simp: tsdb_inv_def)
  then show ?thesis using assms(4,5) by (auto simp: none_ready_def map_of_eq_Some_iff)
qed

section \<open>The scan that the queue replaces\<close>

fun scanSeries ::
    "('c, 'l) promLib \<Rightarrow> int \<Rightarrow> ('c, 'l) StreamingTSDBBlockBuilder \<Rightarrow> (gostr \<times> ('c, 'l) tsdbSeriesState) list \<Rightarrow>
     ('c, 'l) StreamingTSDBBlockBuilder \<times> (gostr \<times> ('c, 'l) tsdbSeriesState) list" where
  "scanSeries lib w b [] = (b, [])"
| "scanSeries lib w b ((k, st) # xs) =
     (let (b1, st1) = drainPoints lib w (b, st); (b2, ys) = scanSeries lib w b1 xs in (b2, (k, st1) # ys))"

definition scanDrain :: "('c, 'l) promLib \<Rightarrow> int \<Rightarrow> ('c, 'l) StreamingTSDBBlockBuilder \<Rightarrow> ('c, 'l) StreamingTSDBBlockBuilder" where
  "scanDrain lib w b = (let (b1, ss) = scanSeries lib w b (bSeries b) in b1\<lparr>bSeries := ss\<rparr>)"

abbreviation held :: "('c \<Rightarrow> (int \<times> u64) list) \<Rightarrow> ('c, 'l) tsdbSeriesState \<Rightarrow> nat" where
  "held content st \<equiv> length (emitted content st) + length (tsPending st)"

lemma scanSeries_effect:
  assumes "xor_laws lib content" "1 \<le> n" "n \<le> 65535"
  shows "\<forall>(k, st) \<in> set ss. wf_series content n st \<Longrightarrow> bSamplesPerChk b = n \<Longrightarrow>
    snd (scanSeries lib w b ss) = map (\<lambda>(k, st). (k, visit lib w b st)) ss \<and> same_frame b (fst (scanSeries lib w b ss)) \<and>
    bNumSamples (fst (scanSeries lib w b ss)) + series_sum (length \<circ> emitted content) ss =
      bNumSamples b + series_sum (length \<circ> emitted content) (snd (scanSeries lib w b ss)) \<and>
    bNumChunks (fst (scanSeries lib w b ss)) + series_sum (length \<circ> tsChunks) ss =
      bNumChunks b + series_sum (length \<circ> tsChunks) (snd (scanSeries lib w b ss)) \<and>
    bNumDropped (fst (scanSeries lib w b ss)) + series_sum (held content) (snd (scanSeries lib w b ss)) =
      bNumDropped b + series_sum (held content) ss \<and>
    bMinTime (fst (scanSeries lib w b ss)) = Min (insert (bMinTime b) (\<Union>(k, st) \<in> set ss. ppT ` set (drained w st))) \<and>
    bMaxTime (fst (scanSeries lib w b ss)) = Max (insert (bMaxTime b) (\<Union>(k, st) \<in> set ss. ppT ` set (drained w st)))"
proof (induction ss arbitrary: b)
  case (Cons x ss)
  obtain k st where x: "x = (k, st)" by fastforce
  obtain b1 st1 where f: "drainPoints lib w (b, st) = (b1, st1)" by fastforce
  obtain b2 ys where r: "scanSeries lib w b1 ss = (b2, ys)" by fastforce
  have wf: "wf_series content n st" using Cons.prems x by auto
  have d: "emitted content st1 = emitted content st @ map point (drained w st)" "bNumSamples b1 = bNumSamples b + length (drained w st)"
    "bNumDropped b1 + length (drained w st) = bNumDropped b + length (fst (heap_drain ppT w (tsPending st)))"
    "bNumChunks b1 + length (tsChunks st) = bNumChunks b + length (tsChunks st1)"
    "bMinTime b1 = Min (insert (bMinTime b) (ppT ` set (drained w st)))" "bMaxTime b1 = Max (insert (bMaxTime b) (ppT ` set (drained w st)))"
    using drain_content [OF assms, where bs = "(b, st)" and w = w] wf Cons.prems(2) f by (auto simp: extremes_Min extremes_Max)
  have p: "length (fst (heap_drain ppT w (tsPending st))) + length (tsPending st1) = length (tsPending st)"
    using drainPoints_pending [of lib w "(b, st)"] arg_cong [OF heap_drain_mset [of ppT w "tsPending st"], of size] f by simp
  have fr: "same_frame b b1" using same_frame_drain [of "(b, st)" lib w] f by simp
  then have n: "bSamplesPerChk b1 = n" using Cons.prems(2) by (simp add: same_frame_def)
  have IH: "ys = map (\<lambda>(k, st). (k, visit lib w b1 st)) ss" "same_frame b1 b2"
    "bNumSamples b2 + series_sum (length \<circ> emitted content) ss = bNumSamples b1 + series_sum (length \<circ> emitted content) ys"
    "bNumChunks b2 + series_sum (length \<circ> tsChunks) ss = bNumChunks b1 + series_sum (length \<circ> tsChunks) ys"
    "bNumDropped b2 + series_sum (held content) ys = bNumDropped b1 + series_sum (held content) ss"
    "bMinTime b2 = Min (insert (bMinTime b1) (\<Union>(k, st) \<in> set ss. ppT ` set (drained w st)))"
    "bMaxTime b2 = Max (insert (bMaxTime b1) (\<Union>(k, st) \<in> set ss. ppT ` set (drained w st)))"
    using Cons.IH [of b1] Cons.prems n r x by (auto simp: comp_def)
  have "(\<lambda>(k :: gostr, st). (k, visit lib w b1 st)) = (\<lambda>(k, st). (k, visit lib w b st))" using visit_cong [of b1 b] n Cons.prems(2) by auto
  then have ys: "map (\<lambda>(k, st). (k, visit lib w b st)) (x # ss) = (k, st1) # ys" using f IH(1) x by simp
  have res: "scanSeries lib w b (x # ss) = (b2, (k, st1) # ys)" by (simp add: x f r)
  have "bMinTime b2 = Min (insert (bMinTime b) (\<Union>(k, st) \<in> set (x # ss). ppT ` set (drained w st)))"
    "bMaxTime b2 = Max (insert (bMaxTime b) (\<Union>(k, st) \<in> set (x # ss). ppT ` set (drained w st)))"
    unfolding IH(6,7) d(5,6) by (subst Min_insert_Un Max_insert_Un; simp add: x case_prod_unfold)+
  then show ?case unfolding res fst_conv snd_conv ys using IH(2-5) d(1-4) p fr by (simp add: same_frame_def comp_def x)
qed (simp add: same_frame_def)

lemma alist_eqI: "distinct (map fst xs) \<Longrightarrow> map fst xs = map fst ys \<Longrightarrow> map_of xs = map_of ys \<Longrightarrow> xs = ys"
proof (rule nth_equalityI)
  assume d: "distinct (map fst xs)" and k: "map fst xs = map fst ys" and m: "map_of xs = map_of ys"
  show len: "length xs = length ys" using k by (metis length_map)
  fix i assume i: "i < length xs"
  have "map_of xs (fst (xs ! i)) = Some (snd (xs ! i))" using d i by (intro map_of_is_SomeI) auto
  moreover have "map_of ys (fst (ys ! i)) = Some (snd (ys ! i))" using d k i len by (intro map_of_is_SomeI) auto
  moreover have "fst (xs ! i) = fst (ys ! i)" using k i len by (metis nth_map)
  ultimately show "xs ! i = ys ! i" using m by (metis option.inject prod.expand)
qed

lemma accounts_determine:
  assumes "accounts content N b" "accounts content N b'" "bSeries b = bSeries b'"
  shows "bNumSamples b = bNumSamples b'" "bNumChunks b = bNumChunks b'" "bNumDropped b = bNumDropped b'"
    "bMinTime b = bMinTime b'" "bMaxTime b = bMaxTime b'"
  using assms unfolding accounts_def by (auto simp: block_times_def)

lemma scanDrain_accounts:
  assumes "xor_laws lib content" "tsdb_inv content b" "accounts content N b"
  shows "accounts content N (scanDrain lib w b)"
proof -
  let ?n = "bSamplesPerChk b"
  obtain b1 ss where r: "scanSeries lib w b (bSeries b) = (b1, ss)" by fastforce
  have wf: "\<forall>(k, st) \<in> set (bSeries b). wf_series content ?n st" "1 \<le> ?n" "?n \<le> 65535"
    using assms(2) by (auto simp: tsdb_inv_def map_of_eq_Some_iff)
  note e = scanSeries_effect [OF assms(1) wf(2,3,1) refl, of w, unfolded r fst_conv snd_conv]
  have vis: "emitted content (visit lib w b st) = emitted content st @ map point (drained w st)" if "(k, st) \<in> set (bSeries b)" for k st
    using drain_content [OF assms(1) wf(2,3), where bs = "(b, st)" and w = w] wf(1) that by (auto split: prod.splits)
  have t: "block_times content (b1\<lparr>bSeries := ss\<rparr>) = block_times content b \<union> (\<Union>(k, st) \<in> set (bSeries b). ppT ` set (drained w st))"
    using e vis by (force simp: block_times_def image_Un image_comp comp_def)
  have held: "series_sum (held content) xs = series_sum (length \<circ> emitted content) xs + series_sum (length \<circ> tsPending) xs"
    for xs :: "(gostr \<times> ('a, 'b) tsdbSeriesState) list" by (induction xs) auto
  have fin: "finite (\<Union>(k, st) \<in> set (bSeries b). ppT ` set (drained w st))" by auto
  have acc: "bNumSamples b = series_sum (length \<circ> emitted content) (bSeries b)" "bNumChunks b = series_sum (length \<circ> tsChunks) (bSeries b)"
    "bNumSamples b + bNumDropped b + series_sum (length \<circ> tsPending) (bSeries b) = N"
    "bMinTime b = Min (insert MaxInt64 (block_times content b))" "bMaxTime b = Max (insert MinInt64 (block_times content b))"
    using assms(3) unfolding accounts_def by blast+
  have num: "bNumSamples b1 = series_sum (length \<circ> emitted content) ss" "bNumChunks b1 = series_sum (length \<circ> tsChunks) ss"
    "bNumSamples b1 + bNumDropped b1 + series_sum (length \<circ> tsPending) ss = N"
    using e [THEN conjunct2, unfolded held] acc(1-3) by linarith+
  have ext: "bMinTime b1 = Min (insert MaxInt64 (block_times content (b1\<lparr>bSeries := ss\<rparr>)))"
    "bMaxTime b1 = Max (insert MinInt64 (block_times content (b1\<lparr>bSeries := ss\<rparr>)))"
    using e [THEN conjunct2] unfolding t acc(4,5) Min_insert_Un [OF finite_times fin] Max_insert_Un [OF finite_times fin] by blast+
  have scan: "scanDrain lib w b = b1\<lparr>bSeries := ss\<rparr>" by (simp add: scanDrain_def r)
  show ?thesis unfolding accounts_def scan using num ext by simp
qed

text \<open>
  Property C18. The queue changes nothing but the work: draining the series that the queue names gives the same builder, series by
  series, chunk by chunk and counter by counter, as scanning every series.
\<close>

theorem drain_equals_scan:
  assumes "xor_laws lib content" "opts_ok opts" "reach lib opts N b"
  shows "(drainWatermarkLocked lib w b)\<lparr>bDrainQueue := []\<rparr> = (scanDrain lib w b)\<lparr>bDrainQueue := []\<rparr>"
proof -
  let ?d = "drainWatermarkLocked lib w b" and ?s = "scanDrain lib w b"
  have inv: "tsdb_inv content b" "accounts content N b" using reach_inv [OF assms(1-3)] by blast+
  have wf: "\<forall>(k, st) \<in> set (bSeries b). wf_series content (bSamplesPerChk b) st" "1 \<le> bSamplesPerChk b" "bSamplesPerChk b \<le> 65535"
    using inv(1) by (auto simp: tsdb_inv_def map_of_eq_Some_iff)
  note d = drainWatermark_facts [OF assms(1) inv(1), where w = w]
  have s: "bSeries ?s = map (\<lambda>(k, st). (k, visit lib w b st)) (bSeries b)" "bReorderGrace ?s = bReorderGrace b"
    "bSamplesPerChk ?s = bSamplesPerChk b" "bExtLabels ?s = bExtLabels b" "bMaxObserved ?s = bMaxObserved b" "bClosed ?s = bClosed b"
    using scanSeries_effect [OF assms(1) wf(2,3,1) refl, of w]
    by (auto simp: scanDrain_def Let_def same_frame_def split: prod.splits)
  have "bSeries ?d = bSeries ?s"
  proof (rule alist_eqI)
    show "distinct (map fst (bSeries ?d))" using d(2) inv(1) by (simp add: tsdb_inv_def)
    show "map fst (bSeries ?d) = map fst (bSeries ?s)" using d(2) s(1) by (simp add: comp_def case_prod_unfold)
    show "map_of (bSeries ?d) = map_of (bSeries ?s)" using d(3) s(1) by (simp add: map_of_map fun_eq_iff)
  qed
  moreover from this have "bNumSamples ?d = bNumSamples ?s" "bNumChunks ?d = bNumChunks ?s" "bNumDropped ?d = bNumDropped ?s"
    "bMinTime ?d = bMinTime ?s" "bMaxTime ?d = bMaxTime ?s"
    using accounts_determine [OF d(4) [OF inv(2)] scanDrain_accounts [OF assms(1) inv]] by blast+
  ultimately show ?thesis using d(5-9) s(2-6) by (cases ?d; cases ?s) simp
qed

end
