(* ===== verification/TsdbBlock.thy ===== *)
theory TsdbBlock
  imports TsdbRuns
begin

text \<open>
  The finished block of the streaming TSDB builder: what the Prometheus chunk and index writers are given satisfies what they
  demand, and samples that arrive within the reorder grace are all in it, in time order.
\<close>

section \<open>What the index writer is given\<close>

lemma concat_no_overlap:
  "sorted_wrt (<) (map fst (concat css)) \<Longrightarrow> \<forall>cs \<in> set css. cs \<noteq> [] \<Longrightarrow> sorted_wrt (\<lambda>a b. fst (last a) < fst (hd b)) css"
  for css :: "('t::linorder \<times> 'v) list list"
proof (induction css)
  case (Cons c css)
  have "fst (last c) < fst (hd b)" if "b \<in> set css" for b
  proof -
    have "last c \<in> set c" using Cons.prems(2) by simp
    moreover have "hd b \<in> set (concat css)" using Cons.prems(2) that by (auto intro!: bexI [of _ b])
    ultimately show ?thesis using Cons.prems(1) by (auto simp: sorted_wrt_append)
  qed
  then show ?case using Cons by (simp add: sorted_wrt_append)
qed simp

lemma labelled_keys:
  assumes "label_laws lib" "go_attrs (bExtLabels b)" "labelled lib b" "map_of (bSeries b) k = Some st" "map_of (bSeries b) k' = Some st'"
    and "tsLabels st = tsLabels st'"
  shows "k = k'"
proof -
  obtain s s' where s: "go_sample s" "k = sample_key (bExtLabels b) s" "tsLabels st = sample_labels lib (bExtLabels b) s"
    "go_sample s'" "k' = sample_key (bExtLabels b) s'" "tsLabels st' = sample_labels lib (bExtLabels b) s'"
    using assms(3-5) unfolding labelled_def by metis
  then show ?thesis
    using SeriesKey_eq_iff [of "sMetricName s" "sAttributes s" "bExtLabels b" "sMetricName s'" "sAttributes s'" "bExtLabels b"]
      labels_eq_iff [OF assms(1)] assms(2,6) by (simp add: go_sample_def)
qed

lemma labels_distinct:
  assumes "label_laws lib" "go_attrs (bExtLabels b)" "labelled lib b" "distinct (map fst (bSeries b))"
  shows "distinct (map (\<lambda>st. lRange lib (tsLabels st)) (map snd (bSeries b)))"
proof -
  have "inj_on (\<lambda>(k, st). lRange lib (tsLabels st)) (set (bSeries b))"
  proof (rule inj_onI, clarify)
    fix k st k' st' assume in_b: "(k, st) \<in> set (bSeries b)" "(k', st') \<in> set (bSeries b)" and "lRange lib (tsLabels st) = lRange lib (tsLabels st')"
    then have "tsLabels st = tsLabels st'" using assms(1) by (simp add: label_laws_def)
    then have "k = k'" using labelled_keys [OF assms(1-3)] in_b assms(4) by (simp add: map_of_eq_Some_iff)
    then show "k = k' \<and> st = st'" using in_b assms(4) by (auto dest: eq_key_imp_eq_value)
  qed
  then have "distinct (map (\<lambda>(k, st). lRange lib (tsLabels st)) (bSeries b))"
    using assms(4) by (simp add: distinct_map)
  then show ?thesis by (simp add: case_prod_unfold comp_def)
qed

lemma finalized_builder:
  assumes "xor_laws lib content" "label_laws lib" "opts_ok opts" "reach lib opts N b" "Finalize lib b = Inr (b', r)"
  shows "distinct (map fst (bSeries b'))" "labelled lib b'" "go_attrs (bExtLabels b')" "accounts content N b'"
proof -
  have inv: "tsdb_inv content b" "accounts content N b" "\<not> bClosed b" "labelled lib b" "bExtLabels b = toExternalLabels opts"
    using reach_inv [OF assms(1,3,4)] by blast+
  note f = Finalize_facts [OF assms(1) inv(1,3) assms(5)]
  show "distinct (map fst (bSeries b'))" "go_attrs (bExtLabels b')" "accounts content N b'"
    using f inv assms(3) by (simp_all add: tsdb_inv_def opts_ok_def)
  have "tsLabels (flushed b st) = tsLabels st" for st
    by (simp add: flushOpenChunkLocked_def split: option.split)
  then show "labelled lib b'" using inv(4) by (intro labelled_map [OF f(1,4)]) (simp_all add: same_identity_drain)
qed

definition index_ready :: "('c, 'l) promLib \<Rightarrow> ('c \<Rightarrow> (int \<times> u64) list) \<Rightarrow> int \<Rightarrow> ('c, 'l) TSDBBlockArtifact \<Rightarrow> bool" where
  "index_ready lib content n a \<longleftrightarrow>
     sorted_wrt (<) (fst (aIndex a)) \<and>
     map fst (snd (aIndex a)) = [1..<Suc (length (snd (aIndex a)))] \<and>
     sorted_wrt (\<lambda>(_, l, _) (_, l', _). lRange lib l < lRange lib l') (snd (aIndex a)) \<and>
     (\<forall>(i, l, cs) \<in> set (snd (aIndex a)).
        cs \<noteq> [] \<and> (\<forall>m \<in> set cs. chunk_ok content n m \<and> bmMinTime (aMeta a) \<le> mMinTime m \<and> mMaxTime m < bmMaxTime (aMeta a)) \<and>
        sorted_wrt (\<lambda>m m'. mMaxTime m < mMinTime m') cs \<and>
        (\<forall>(x, y) \<in> set (lRange lib l). x \<in> set (fst (aIndex a)) \<and> y \<in> set (fst (aIndex a))))"

text \<open>The index that the series of a block give, whatever record holds their labels and chunks.\<close>

definition index_of ::
    "('c, 'l) promLib \<Rightarrow> ('s \<Rightarrow> 'l) \<Rightarrow> ('s \<Rightarrow> 'c chunkMeta list) \<Rightarrow> 's list \<Rightarrow> gostr list \<times> (nat \<times> 'l \<times> 'c chunkMeta list) list" where
  "index_of lib labels chunks ss =
     (sort (remdups (concat (map (\<lambda>st. concat (map (\<lambda>(n, v). [n, v]) (lRange lib (labels st)))) ss))),
      map (\<lambda>(i, st). (i + 1, labels st, chunks st)) (enumerate 0 (sort_Slice (\<lambda>x y. lCompare lib (labels x) (labels y) < 0) ss)))"

lemma sort_labels_strict:
  assumes "label_laws lib" "distinct (map (\<lambda>st. lRange lib (labels st)) ss)"
  shows "sorted_wrt (\<lambda>x y. lRange lib (labels x) < lRange lib (labels y)) (sort_Slice (\<lambda>x y. lCompare lib (labels x) (labels y) < 0) ss)"
proof -
  let ?f = "\<lambda>st. lRange lib (labels st)" and ?ss = "sort_Slice (\<lambda>x y. lCompare lib (labels x) (labels y) < 0) ss"
  have eq: "?ss = sort_key ?f ss" using assms(1) sort_Slice_key [of ?f] by (simp add: label_laws_def)
  then have "distinct (map ?f ?ss)" using assms(2) by (simp add: distinct_map distinct_sort)
  then have "sorted_wrt (<) (map ?f ?ss)" unfolding eq by (simp add: strict_sorted_iff)
  then show ?thesis by (simp add: sorted_wrt_map)
qed

lemma index_of_ready:
  assumes laws: "label_laws lib" and dist: "distinct (map (\<lambda>st. lRange lib (labels st)) ss)"
    and ok: "\<forall>st \<in> set ss. chunks st \<noteq> [] \<and> (\<forall>m \<in> set (chunks st). chunk_ok content n m \<and> bmMinTime (aMeta a) \<le> mMinTime m \<and>
      mMaxTime m < bmMaxTime (aMeta a)) \<and> sorted_wrt (\<lambda>m m'. mMaxTime m < mMinTime m') (chunks st)"
    and idx: "aIndex a = index_of lib labels chunks ss"
  shows "index_ready lib content n a"
proof -
  have sorted: "sorted_wrt (\<lambda>(_, l, _) (_, l', _). lRange lib l < lRange lib l') (snd (aIndex a))"
    using sort_labels_strict [OF laws dist] by (simp add: idx index_of_def sorted_wrt_iff_nth_less nth_enumerate_eq)
  have refs: "map fst (snd (aIndex a)) = [1..<Suc (length (snd (aIndex a)))]"
    by (rule nth_equalityI) (auto simp: idx index_of_def nth_enumerate_eq simp del: upt_Suc)
  have entries: "cs \<noteq> [] \<and> (\<forall>m \<in> set cs. chunk_ok content n m \<and> bmMinTime (aMeta a) \<le> mMinTime m \<and> mMaxTime m < bmMaxTime (aMeta a)) \<and>
      sorted_wrt (\<lambda>m m'. mMaxTime m < mMinTime m') cs \<and> (\<forall>(x, y) \<in> set (lRange lib l). x \<in> set (fst (aIndex a)) \<and> y \<in> set (fst (aIndex a)))"
    if ent: "(i, l, cs) \<in> set (snd (aIndex a))" for i l cs
  proof -
    let ?ss = "sort_Slice (\<lambda>x y. lCompare lib (labels x) (labels y) < 0) ss"
    obtain j where "j < length ss" "l = labels (?ss ! j)" "cs = chunks (?ss ! j)" using ent by (auto simp: idx index_of_def in_set_enumerate_eq)
    then obtain st where st: "st \<in> set ss" "l = labels st" "cs = chunks st" using nth_mem [of j ?ss] by auto
    have "\<forall>(x, y) \<in> set (lRange lib l). x \<in> set (fst (aIndex a)) \<and> y \<in> set (fst (aIndex a))"
      using st(1,2) by (force simp: idx index_of_def)
    then show ?thesis using bspec [OF ok st(1)] st(3) by simp
  qed
  then have all: "\<forall>(i, l, cs) \<in> set (snd (aIndex a)). cs \<noteq> [] \<and> (\<forall>m \<in> set cs. chunk_ok content n m \<and> bmMinTime (aMeta a) \<le> mMinTime m \<and>
      mMaxTime m < bmMaxTime (aMeta a)) \<and> sorted_wrt (\<lambda>m m'. mMaxTime m < mMinTime m') cs \<and>
      (\<forall>(x, y) \<in> set (lRange lib l). x \<in> set (fst (aIndex a)) \<and> y \<in> set (fst (aIndex a)))"
    by (simp add: split_paired_all Ball_def del: split_paired_All)
  have "sorted_wrt (<) (fst (aIndex a))" by (simp add: idx index_of_def strict_sorted_iff)
  then show ?thesis unfolding index_ready_def using sorted refs all by blast
qed

lemma nonEmpty_labels:
  assumes "label_laws lib" "distinct (map (\<lambda>st. lRange lib (tsLabels st)) (map snd (bSeries b)))"
  shows "distinct (map (\<lambda>st. lRange lib (tsLabels st)) (nonEmptySeries b))"
    and "sorted_wrt (\<lambda>x y. lRange lib (tsLabels x) < lRange lib (tsLabels y)) (labelSortedSeries lib b)"
proof -
  show d: "distinct (map (\<lambda>st. lRange lib (tsLabels st)) (nonEmptySeries b))"
    using assms(2) unfolding nonEmptySeries_def by (rule distinct_map_filter)
  show "sorted_wrt (\<lambda>x y. lRange lib (tsLabels x) < lRange lib (tsLabels y)) (labelSortedSeries lib b)"
    using sort_labels_strict [OF assms(1) d] by (simp add: labelSortedSeries_def)
qed

lemma finalized_chunks:
  assumes "wf_series content n st" "tsOpenChunk st = None"
  shows "emitted content st = concat (map (content \<circ> mChunk) (tsChunks st))" "\<forall>m \<in> set (tsChunks st). chunk_ok content n m"
    "sorted_wrt (\<lambda>m m'. mMaxTime m < mMinTime m') (tsChunks st)"
proof -
  show e: "emitted content st = concat (map (content \<circ> mChunk) (tsChunks st))" and ok: "\<forall>m \<in> set (tsChunks st). chunk_ok content n m"
    using assms by (simp_all add: emitted_def wf_series_def)
  have "sorted_wrt (\<lambda>a b. fst (last a) < fst (hd b)) (map (content \<circ> mChunk) (tsChunks st))"
    using assms(1) e ok by (intro concat_no_overlap) (auto simp: wf_series_def chunk_ok_def)
  then have "sorted_wrt (\<lambda>m m'. fst (last (content (mChunk m))) < fst (hd (content (mChunk m')))) (tsChunks st)"
    by (simp add: sorted_wrt_map)
  then show "sorted_wrt (\<lambda>m m'. mMaxTime m < mMinTime m') (tsChunks st)"
    by (rule sorted_wrt_mono_rel [rotated]) (use ok in \<open>auto simp: chunk_ok_def\<close>)
qed

lemma finalized_bounds:
  assumes "accounts content N b" "(k, st) \<in> set (bSeries b)" "wf_series content n st" "tsOpenChunk st = None" "m \<in> set (tsChunks st)"
  shows "bMinTime b \<le> mMinTime m" "mMaxTime m \<le> bMaxTime b"
proof -
  note c = finalized_chunks [OF assms(3,4)]
  have ok: "chunk_ok content n m" using c(2) assms(5) by blast
  have sub: "set (content (mChunk m)) \<subseteq> set (emitted content st)" using c(1) assms(5) by auto
  have "mMinTime m \<in> fst ` set (emitted content st)" "mMaxTime m \<in> fst ` set (emitted content st)"
    using ok sub unfolding chunk_ok_def by (metis hd_in_set image_eqI subsetD, metis last_in_set image_eqI subsetD)
  then have "mMinTime m \<in> block_times content b" "mMaxTime m \<in> block_times content b"
    using assms(2) unfolding block_times_def by blast+
  then show "bMinTime b \<le> mMinTime m" "mMaxTime m \<le> bMaxTime b" using assms(1) unfolding accounts_def
    by (metis Min_le finite_insert finite_times insertI2, metis Max_ge finite_insert finite_times insertI2)
qed

text \<open>
  Property C23. The block handed to the Prometheus writers is one they accept and can be read back: the symbols and the series are
  strictly ordered, each series has chunks, the chunks of a series follow one another in time without overlapping,
  their time bounds are those of the samples in them and lie within the block's, and every label name and value is a symbol.
\<close>

theorem Finalize_index_ready:
  assumes "xor_laws lib content" "label_laws lib" "opts_ok opts" "reach lib opts N b" "Finalize lib b = Inr (b', Some a)"
  shows "index_ready lib content (bSamplesPerChk b) a"
proof -
  have inv: "tsdb_inv content b" "times_bounded b" "\<not> bClosed b" using reach_inv [OF assms(1,3,4)] by blast+
  note f = finalized_builder [OF assms] and fs = finalized_series [OF assms(1) inv assms(5)]
  have entry: "tsChunks st \<noteq> [] \<and> (\<forall>m \<in> set (tsChunks st). chunk_ok content (bSamplesPerChk b) m \<and> bMinTime b' \<le> mMinTime m \<and>
      mMaxTime m \<le> bMaxTime b') \<and> sorted_wrt (\<lambda>m m'. mMaxTime m < mMinTime m') (tsChunks st)" if st: "st \<in> set (nonEmptySeries b')" for st
  proof -
    obtain k where k: "(k, st) \<in> set (bSeries b')" "tsChunks st \<noteq> []" using st by (auto simp: nonEmptySeries_def)
    have w: "wf_series content (bSamplesPerChk b) st" "tsOpenChunk st = None" using fs(2,3) f(1) k by (auto simp: map_of_eq_Some_iff)
    show ?thesis using k(2) finalized_chunks [OF w] finalized_bounds [OF f(4) k(1) w] by blast
  qed
  from nonEmpty_labels(1) [OF assms(2) labels_distinct [OF assms(2) f(3,2,1)]] show ?thesis
  proof (rule index_of_ready [OF assms(2), where chunks = tsChunks])
    show "aIndex a = index_of lib tsLabels tsChunks (nonEmptySeries b')"
      using assms(5) by (auto simp: Finalize_def Let_def index_of_def writeIndex_def sortedSymbols_def labelSortedSeries_def split: if_splits prod.splits)
    have "aMeta a = writeMeta b'" using assms(5) by (auto simp: Finalize_def Let_def split: if_splits prod.splits)
    then show "\<forall>st \<in> set (nonEmptySeries b'). tsChunks st \<noteq> [] \<and> (\<forall>m \<in> set (tsChunks st). chunk_ok content (bSamplesPerChk b) m \<and>
        bmMinTime (aMeta a) \<le> mMinTime m \<and> mMaxTime m < bmMaxTime (aMeta a)) \<and> sorted_wrt (\<lambda>m m'. mMaxTime m < mMinTime m') (tsChunks st)"
      using entry by (simp add: writeMeta_def)
  qed
qed

section \<open>Samples within the grace\<close>

abbreviation sample_point :: "TSDBSample \<Rightarrow> int \<times> u64" where
  "sample_point s \<equiv> (unixMs (sTimestamp s), sValue s)"

fun addAll ::
    "('c, 'l) promLib \<Rightarrow> TSDBSample list \<Rightarrow> ('c, 'l) StreamingTSDBBlockBuilder \<Rightarrow> tsdb_error + ('c, 'l) StreamingTSDBBlockBuilder" where
  "addAll lib [] b = Inr b"
| "addAll lib (s # ss) b = res_bind (AddSample lib s b) (addAll lib ss)"

text \<open>No sample is as late as the grace behind the largest time before it.\<close>

fun on_time :: "int \<Rightarrow> int \<Rightarrow> TSDBSample list \<Rightarrow> bool" where
  "on_time grace latest [] = True"
| "on_time grace latest (s # ss) \<longleftrightarrow>
     latest - grace < unixMs (sTimestamp s) \<and> on_time grace (max (unixMs (sTimestamp s)) latest) ss"

definition holds :: "('c \<Rightarrow> (int \<times> u64) list) \<Rightarrow> ('c, 'l) tsdbSeriesState \<Rightarrow> (int \<times> u64) multiset" where
  "holds content st = mset (emitted content st) + mset (map point (tsPending st))"

definition keeps_all :: "('c \<Rightarrow> (int \<times> u64) list) \<Rightarrow> TSDBSample list \<Rightarrow> ('c, 'l) StreamingTSDBBlockBuilder \<Rightarrow> bool" where
  "keeps_all content xs b \<longleftrightarrow>
     (\<forall>k. (case map_of (bSeries b) k of None \<Rightarrow> {#} | Some st \<Rightarrow> holds content st) =
          mset (map sample_point (filter (\<lambda>s. sample_key (bExtLabels b) s = k) xs))) \<and>
     (\<forall>k st x. map_of (bSeries b) k = Some st \<longrightarrow> x \<in> set (emitted content st) \<longrightarrow> fst x \<le> bMaxObserved b - bReorderGrace b)"

lemma drained_all:
  assumes "wf_series content n st" "\<forall>x \<in> set (emitted content st). fst x \<le> w0" "\<forall>p \<in> set (tsPending st). w0 < ppT p"
    and "distinct (map ppT (tsPending st))"
  shows "drained w st = fst (heap_drain ppT w (tsPending st))"
  unfolding drained_def
proof (rule accepted_all)
  let ?ps = "fst (heap_drain ppT w (tsPending st))"
  have heap: "is_heap ppT (tsPending st)" using assms(1) by (simp add: wf_series_def)
  show "sorted (map ppT ?ps)" using heap_drain_heap [OF heap] by blast
  have m: "mset ?ps \<subseteq># mset (tsPending st)" using heap_drain_mset [of ppT w "tsPending st"] by (metis mset_subset_eq_add_left)
  have "mset (map ppT (?ps @ snd (heap_drain ppT w (tsPending st)))) = mset (map ppT (tsPending st))"
    using arg_cong [OF heap_drain_mset [of ppT w "tsPending st"], of "image_mset ppT"] by simp
  then have "distinct (map ppT (?ps @ snd (heap_drain ppT w (tsPending st))))" using assms(4) mset_eq_imp_distinct_iff by blast
  then show "distinct (map ppT ?ps)" by simp
  have "set ?ps \<subseteq> set (tsPending st)" using m by (metis set_mset_mono set_mset_mset)
  then have "\<forall>p \<in> set ?ps. w0 < ppT p" using assms(3) by blast
  moreover have "tsHasLast st \<longrightarrow> tsLastTs st \<le> w0" using assms(1,2) by (auto simp: wf_series_def)
  ultimately show "\<forall>p \<in> set ?ps. last_time st \<noteq> None \<longrightarrow> the (last_time st) < ppT p"
    by (auto simp: last_time_def intro: le_less_trans)
qed

lemma visit_holds:
  assumes "xor_laws lib content" "1 \<le> bSamplesPerChk b" "bSamplesPerChk b \<le> 65535" "wf_series content (bSamplesPerChk b) st"
    and "\<forall>x \<in> set (emitted content st). fst x \<le> w0" "\<forall>p \<in> set (tsPending st). w0 < ppT p" "distinct (map ppT (tsPending st))"
  shows "holds content (visit lib w b st) = holds content st" "\<forall>x \<in> set (emitted content (visit lib w b st)). fst x \<le> max w0 w"
proof -
  let ?d = "heap_drain ppT w (tsPending st)"
  have e: "emitted content (visit lib w b st) = emitted content st @ map point (fst ?d)"
    using drain_content [OF assms(1-3), where bs = "(b, st)" and w = w] assms(4) drained_all [OF assms(4-7), of w] by (auto split: prod.splits)
  have "image_mset point (mset (fst ?d)) + image_mset point (mset (snd ?d)) = image_mset point (mset (tsPending st))"
    using heap_drain_mset [of ppT w "tsPending st"] by (metis image_mset_union)
  then show "holds content (visit lib w b st) = holds content st"
    by (simp add: holds_def e drainPoints_pending union_assoc)
  have "\<forall>p \<in> set (fst ?d). ppT p \<le> w" using heap_drain_heap [of ppT "tsPending st" w] assms(4) by (simp add: wf_series_def)
  then show "\<forall>x \<in> set (emitted content (visit lib w b st)). fst x \<le> max w0 w" using assms(5) by (auto simp: e le_max_iff_disj)
qed

text \<open>The samples of one series have distinct times when no two samples share both series and time.\<close>

definition no_duplicates :: "goattrs \<Rightarrow> TSDBSample list \<Rightarrow> bool" where
  "no_duplicates ext xs \<longleftrightarrow> distinct (map (\<lambda>s. (sample_key ext s, unixMs (sTimestamp s))) xs)"

lemma no_duplicates_times:
  assumes "no_duplicates ext xs" "holds content st = mset (map sample_point (filter (\<lambda>s. sample_key ext s = k) xs))"
  shows "distinct (map fst (emitted content st @ map point (tsPending st)))"
proof -
  have "distinct (map (\<lambda>s. unixMs (sTimestamp s)) (filter (\<lambda>s. sample_key ext s = k) xs))"
    using assms(1) unfolding no_duplicates_def by (induction xs) (auto simp: image_iff)
  moreover have m: "mset (emitted content st @ map point (tsPending st)) = mset (map sample_point (filter (\<lambda>s. sample_key ext s = k) xs))"
    using assms(2) by (simp add: holds_def)
  have "mset (map fst (emitted content st @ map point (tsPending st))) =
      mset (map (\<lambda>s. unixMs (sTimestamp s)) (filter (\<lambda>s. sample_key ext s = k) xs))"
    using arg_cong [OF m, of "image_mset fst"] by (simp add: image_mset.compositionality comp_def)
  ultimately show ?thesis using mset_eq_imp_distinct_iff by blast
qed

lemma keeps_all_times:
  assumes "keeps_all content xs b" "no_duplicates (bExtLabels b) xs" "map_of (bSeries b) k = Some st"
  shows "holds content st = mset (map sample_point (filter (\<lambda>s. sample_key (bExtLabels b) s = k) xs))"
    "distinct (map ppT (tsPending st))"
proof -
  show h: "holds content st = mset (map sample_point (filter (\<lambda>s. sample_key (bExtLabels b) s = k) xs))"
    using assms(1,3) by (auto simp: keeps_all_def dest: spec [of _ k])
  show "distinct (map ppT (tsPending st))" using no_duplicates_times [OF assms(2) h] by (simp add: comp_def)
qed

lemma keeps_all_step:
  assumes laws: "xor_laws lib content" and inv: "tsdb_inv content b" "none_ready b" "keeps_all content xs b"
    and nd: "no_duplicates (bExtLabels b) (xs @ [s])" and late: "bMaxObserved b - bReorderGrace b < unixMs (sTimestamp s)"
    and add: "AddSampleKeyed lib (sample_key (bExtLabels b) s) s b = Inr b'"
  shows "keeps_all content (xs @ [s]) b'"
proof -
  let ?key = "sample_key (bExtLabels b) s" and ?lo = "bMaxObserved b - bReorderGrace b" and ?w = "bMaxObserved b' - bReorderGrace b'"
  note f = AddSampleKeyed_facts [OF laws inv(1) add]
  define cur where "cur k = (if k = ?key then Some (added lib ?key s b) else map_of (bSeries b) k)" for k
  have w: "?lo \<le> ?w" using f(3,4) by simp
  have held: "(case cur k of None \<Rightarrow> {#} | Some st \<Rightarrow> holds content st) =
      mset (map sample_point (filter (\<lambda>s. sample_key (bExtLabels b) s = k) (xs @ [s])))" for k
    using inv(3) unfolding keeps_all_def
    by (auto simp: cur_def added_def found_def holds_def mset_heap_push dest!: spec [of _ k] split: option.splits)
  let ?old = "\<lambda>st. (\<forall>x \<in> set (emitted content st). fst x \<le> ?lo) \<and> (\<forall>p \<in> set (tsPending st). ?lo < ppT p)"
  have stored: "?old st \<and> wf_series content (bSamplesPerChk b) st" if st: "map_of (bSeries b) k = Some st" for k st
  proof (intro conjI ballI)
    show "fst x \<le> ?lo" if "x \<in> set (emitted content st)" for x
      using inv(3) [unfolded keeps_all_def, THEN conjunct2] st that by blast
    show "?lo < ppT p" if "p \<in> set (tsPending st)" for p using inv(2) st that by (simp add: none_ready_def)
    show "wf_series content (bSamplesPerChk b) st" using inv(1) st by (simp add: tsdb_inv_def)
  qed
  then have "?old (found lib ?key s b)" by (simp add: found_def split: option.split)
  then have "?old (added lib ?key s b)" using late by (simp add: added_def go_heap.push_set)
  then have old: "?old st \<and> wf_series content (bSamplesPerChk b) st" if "cur k = Some st" for k st
    using that stored [of k st] added_wf [OF inv(1), of lib ?key s] by (cases "k = ?key") (auto simp: cur_def)
  have vis: "holds content (visit lib ?w b st) = holds content st \<and> (\<forall>x \<in> set (emitted content (visit lib ?w b st)). fst x \<le> ?w)"
    if c: "cur k = Some st" for k st
  proof -
    have h: "holds content st = mset (map sample_point (filter (\<lambda>s. sample_key (bExtLabels b) s = k) (xs @ [s])))"
      using held [of k] c by simp
    have "distinct (map ppT (tsPending st))" using no_duplicates_times [OF nd h] by (simp add: comp_def)
    with visit_holds [OF laws, of b st ?lo ?w] old [OF c] inv(1) w show ?thesis by (auto simp: tsdb_inv_def max_absorb2)
  qed
  have ser: "map_of (bSeries b') = (\<lambda>k. map_option (visit lib ?w b) (cur k))" using f(8) by (simp add: cur_def fun_eq_iff)
  show ?thesis unfolding keeps_all_def f(6)
  proof (intro conjI allI impI)
    fix k
    show "(case map_of (bSeries b') k of None \<Rightarrow> {#} | Some st \<Rightarrow> holds content st) =
        mset (map sample_point (filter (\<lambda>s. sample_key (bExtLabels b) s = k) (xs @ [s])))"
      unfolding held [symmetric] ser by (cases "cur k") (simp_all add: vis)
  next
    fix k st x
    assume "map_of (bSeries b') k = Some st" "x \<in> set (emitted content st)"
    then show "fst x \<le> ?w" using vis [of k] by (auto simp: ser)
  qed
qed

lemma addAll_keeps:
  assumes "xor_laws lib content" "opts_ok opts"
  shows "reach lib opts N b \<Longrightarrow> keeps_all content xs b \<Longrightarrow> on_time (bReorderGrace b) (bMaxObserved b) ys \<Longrightarrow>
    no_duplicates (toExternalLabels opts) (xs @ ys) \<Longrightarrow> \<forall>s \<in> set ys. go_sample s \<Longrightarrow>
    \<exists>b'. addAll lib ys b = Inr b' \<and> reach lib opts (N + length ys) b' \<and> keeps_all content (xs @ ys) b'"
proof (induction ys arbitrary: N b xs)
  case (Cons s ys)
  have inv: "tsdb_inv content b" "none_ready b" "\<not> bClosed b" "bExtLabels b = toExternalLabels opts"
    using reach_inv [OF assms Cons.prems(1)] by blast+
  obtain b1 where b1: "AddSampleKeyed lib (sample_key (bExtLabels b) s) s b = Inr b1" using inv(3) by (simp add: AddSampleKeyed_eq Let_def)
  note f = AddSampleKeyed_facts [OF assms(1) inv(1) b1]
  have "no_duplicates (bExtLabels b) (xs @ [s])" using Cons.prems(4) inv(4) by (auto simp: no_duplicates_def)
  moreover have "bMaxObserved b - bReorderGrace b < unixMs (sTimestamp s)" using Cons.prems(3) by simp
  ultimately have "keeps_all content (xs @ [s]) b1" by (rule keeps_all_step [OF assms(1) inv(1,2) Cons.prems(2) _ _ b1])
  moreover have "reach lib opts (Suc N) b1" using reach.keyed [OF Cons.prems(1) _ b1] Cons.prems(5) by simp
  ultimately obtain b' where "addAll lib ys b1 = Inr b'" "reach lib opts (Suc N + length ys) b'" "keeps_all content ((xs @ [s]) @ ys) b'"
    using Cons.IH [of "Suc N" b1 "xs @ [s]"] Cons.prems(3-5) f(3,4) by auto
  then show ?case using b1 by (simp add: AddSample_keyed)
qed auto

lemma addAll_from_new:
  assumes "xor_laws lib content" "opts_ok opts" "\<forall>s \<in> set xs. go_sample s"
    and "on_time (unixMs (toReorderGrace opts)) 0 xs" "no_duplicates (toExternalLabels opts) xs"
  shows "\<exists>b. addAll lib xs (NewStreamingTSDBBlockBuilder opts) = Inr b \<and> reach lib opts (length xs) b \<and> keeps_all content xs b"
proof -
  let ?b0 = "NewStreamingTSDBBlockBuilder opts :: ('a, 'b) StreamingTSDBBlockBuilder"
  have new: "keeps_all content [] ?b0" "bReorderGrace ?b0 = unixMs (toReorderGrace opts)" "bMaxObserved ?b0 = 0"
    by (simp_all add: keeps_all_def NewStreamingTSDBBlockBuilder_def)
  then show ?thesis using addAll_keeps [OF assms(1,2) reach.init, of "[]" xs] assms(3-5) by simp
qed

lemma partition_length:
  "distinct ks \<Longrightarrow> \<forall>x \<in> set xs. f x \<in> set ks \<Longrightarrow> sum_list (map (\<lambda>k. length (filter (\<lambda>x. f x = k) xs)) ks) = length xs"
proof (induction xs)
  case (Cons x xs)
  have "sum_list (map (\<lambda>k. length (filter (\<lambda>y. f y = k) (x # xs))) ks) =
      sum_list (map (\<lambda>k. (if f x = k then 1 else 0) + length (filter (\<lambda>y. f y = k) xs)) ks)"
    by (intro arg_cong [where f = sum_list] map_cong) auto
  also have "\<dots> = sum_list (map (\<lambda>k. if f x = k then 1 else 0) ks) + length xs" using Cons by (simp add: sum_list_addf)
  also have "sum_list (map (\<lambda>k. if f x = k then 1 else 0 :: nat) ks) = 1" using Cons.prems by (simp add: sum_list_distinct_conv_sum_set)
  finally show ?case by simp
qed simp

text \<open>A finished series holds, in time order, the samples of its key.\<close>

lemma finalized_keeps_all:
  assumes "xor_laws lib content" "opts_ok opts" "reach lib opts N b" "keeps_all content xs b" "no_duplicates (bExtLabels b) xs"
    and "Finalize lib b = Inr (b', r)" "map_of (bSeries b') k = Some st"
  shows "emitted content st = sort_key fst (map sample_point (filter (\<lambda>s. sample_key (bExtLabels b) s = k) xs))"
proof -
  have inv: "tsdb_inv content b" "none_ready b" "times_bounded b" "\<not> bClosed b" using reach_inv [OF assms(1-3)] by blast+
  note fs = finalized_series [OF assms(1) inv(1,3,4) assms(6,7)]
  obtain st0 where st0: "map_of (bSeries b) k = Some st0" "emitted content st = emitted content st0 @ map point (drained MaxInt64 st0)"
    using fs(4) by blast
  have wf: "wf_series content (bSamplesPerChk b) st0" "is_heap ppT (tsPending st0)" using inv(1) st0(1) by (auto simp: tsdb_inv_def wf_series_def)
  note h = keeps_all_times [OF assms(4,5) st0(1)]
  have "\<forall>x \<in> set (emitted content st0). fst x \<le> bMaxObserved b - bReorderGrace b"
    using assms(4) [unfolded keeps_all_def, THEN conjunct2] st0(1) by blast
  then have "drained MaxInt64 st0 = fst (heap_drain ppT MaxInt64 (tsPending st0))"
    using drained_all [OF wf(1) _ _ h(2)] inv(2) st0(1) unfolding none_ready_def by blast
  moreover have "snd (heap_drain ppT MaxInt64 (tsPending st0)) = []"
  proof (rule ccontr)
    let ?r = "snd (heap_drain ppT MaxInt64 (tsPending st0))"
    assume "?r \<noteq> []"
    then have "?r ! 0 \<in> set (tsPending st0)" "MaxInt64 < ppT (?r ! 0)"
      using heap_drain_rest [of ppT MaxInt64 "tsPending st0"] heap_drain_mset [of ppT MaxInt64 "tsPending st0"]
      by (metis in_multiset_in_set length_greater_0_conv nth_mem union_iff, blast)
    then show False using inv(3) st0(1) unfolding times_bounded_def by (meson not_le)
  qed
  ultimately have "mset (drained MaxInt64 st0) = mset (tsPending st0)" using heap_drain_mset [of ppT MaxInt64 "tsPending st0"] by simp
  then have m: "mset (map sample_point (filter (\<lambda>s. sample_key (bExtLabels b) s = k) xs)) = mset (emitted content st)"
    using h(1) st0(2) by (simp add: holds_def)
  have s: "sorted_wrt (<) (map fst (emitted content st))" using fs(3) by (simp add: wf_series_def)
  then have "sorted (map fst (emitted content st))" "inj_on fst (set (emitted content st))"
    using strict_sorted_iff distinct_map by blast+
  then show ?thesis using sort_key_inj_key_eq [OF m, of fst] mset_eq_setD [OF m] by simp
qed

lemma sorted_by_unique:
  fixes f :: "'a \<Rightarrow> 'k::linorder"
  assumes "inj f" "sorted_wrt (\<lambda>x y. f x < f y) xs" "set xs = set ys" "distinct ys"
  shows "xs = sort_key f ys"
proof -
  have "sorted_wrt (<) (map f xs)" using assms(2) by (simp add: sorted_wrt_map)
  moreover have "sorted_wrt (<) (map f (sort_key f ys))"
    using assms(1,4) by (simp add: strict_sorted_iff distinct_map inj_on_subset [OF _ subset_UNIV])
  ultimately have "map f xs = map f (sort_key f ys)" using strict_sorted_equal assms(3) by (metis set_map set_sort)
  then show ?thesis using assms(1) by (simp add: inj_map_eq_map)
qed

definition block_content :: "('c \<Rightarrow> (int \<times> u64) list) \<Rightarrow> ('c, 'l) TSDBBlockArtifact \<Rightarrow> ('l \<times> (int \<times> u64) list) list" where
  "block_content content a = map (\<lambda>(i, l, cs). (l, concat (map (content \<circ> mChunk) cs))) (snd (aIndex a))"

definition expected_content :: "('c, 'l) promLib \<Rightarrow> goattrs \<Rightarrow> TSDBSample list \<Rightarrow> ('l \<times> (int \<times> u64) list) list" where
  "expected_content lib ext xs =
     map (\<lambda>l. (l, sort_key fst (map sample_point (filter (\<lambda>s. sample_labels lib ext s = l) xs))))
       (sort_key (lRange lib) (remdups (map (sample_labels lib ext) xs)))"

lemma keeps_all_series:
  assumes "keeps_all content xs b" "s \<in> set xs"
  shows "map_of (bSeries b) (sample_key (bExtLabels b) s) \<noteq> None"
proof
  assume "map_of (bSeries b) (sample_key (bExtLabels b) s) = None"
  with assms(1) [unfolded keeps_all_def, THEN conjunct1, rule_format, of "sample_key (bExtLabels b) s"]
  have "filter (\<lambda>s'. sample_key (bExtLabels b) s' = sample_key (bExtLabels b) s) xs = []" by (simp flip: mset_filter)
  then show False using assms(2) by (metis (mono_tags, lifting) filter_empty_conv)
qed

lemma key_iff_labels:
  assumes "label_laws lib" "go_attrs ext" "go_sample s" "go_sample s'"
  shows "sample_key ext s = sample_key ext s' \<longleftrightarrow> sample_labels lib ext s = sample_labels lib ext s'"
  using SeriesKey_eq_iff [of "sMetricName s" "sAttributes s" ext "sMetricName s'" "sAttributes s'" ext] labels_eq_iff [OF assms(1)]
    assms(2-4) by (simp add: go_sample_def)

lemma finalized_counts:
  assumes "xor_laws lib content" "opts_ok opts" "reach lib opts (length xs) b" "keeps_all content xs b"
    and "no_duplicates (bExtLabels b) xs" "Finalize lib b = Inr (b', r)"
  shows "bNumSamples b' = length xs" "bNumDropped b' = 0"
proof -
  let ?key = "sample_key (bExtLabels b)"
  have inv: "tsdb_inv content b" "accounts content (length xs) b" "\<not> bClosed b" using reach_inv [OF assms(1-3)] by blast+
  note f = Finalize_facts [OF assms(1) inv(1,3) assms(6)]
  have d: "distinct (map fst (bSeries b'))" using f(2) inv(1) by (simp add: tsdb_inv_def)
  have "series_sum (length \<circ> emitted content) (bSeries b') = sum_list (map ((\<lambda>k. length (filter (\<lambda>s. ?key s = k) xs)) \<circ> fst) (bSeries b'))"
  proof (rule arg_cong [where f = sum_list], rule map_cong [OF refl])
    fix x assume "x \<in> set (bSeries b')"
    then have "map_of (bSeries b') (fst x) = Some (snd x)" using d by (simp add: map_of_is_SomeI)
    then show "((length \<circ> emitted content) \<circ> snd) x = ((\<lambda>k. length (filter (\<lambda>s. ?key s = k) xs)) \<circ> fst) x"
      using finalized_keeps_all [OF assms] by simp
  qed
  also have "\<dots> = length xs"
    unfolding map_map [symmetric] by (rule partition_length [OF d])
      (use keeps_all_series [OF assms(4)] f(2) in \<open>metis map_of_eq_None_iff list.set_map\<close>)
  finally show "bNumSamples b' = length xs" "bNumDropped b' = 0" using f(3) [OF inv(2)] unfolding accounts_def by linarith+
qed

lemma finalized_content:
  assumes "xor_laws lib content" "label_laws lib" "opts_ok opts" "reach lib opts (length xs) b" "keeps_all content xs b"
    and "no_duplicates (bExtLabels b) xs" "\<forall>s \<in> set xs. go_sample s" "Finalize lib b = Inr (b', r)"
  shows "map (\<lambda>st. (tsLabels st, concat (map (content \<circ> mChunk) (tsChunks st)))) (labelSortedSeries lib b') =
     expected_content lib (toExternalLabels opts) xs"
proof -
  let ?e = "toExternalLabels opts" and ?ser = "labelSortedSeries lib b'"
  let ?of = "\<lambda>l. sort_key fst (map sample_point (filter (\<lambda>s. sample_labels lib ?e s = l) xs))"
  have inv: "tsdb_inv content b" "times_bounded b" "\<not> bClosed b" "bExtLabels b = ?e" using reach_inv [OF assms(1,3,4)] by blast+
  note fb = finalized_builder [OF assms(1-4,8)] and fs = finalized_series [OF assms(1) inv(1-3) assms(8)]
  note f = Finalize_facts [OF assms(1) inv(1,3) assms(8)]
  have go: "go_attrs ?e" using assms(3) by (simp add: opts_ok_def)
  have one: "concat (map (content \<circ> mChunk) (tsChunks st)) = ?of (tsLabels st) \<and> (tsChunks st = [] \<longleftrightarrow> ?of (tsLabels st) = []) \<and>
      (\<exists>s. go_sample s \<and> k = sample_key ?e s \<and> tsLabels st = sample_labels lib ?e s)"
    if k: "map_of (bSeries b') k = Some st" for k st
  proof -
    obtain s where s: "go_sample s" "k = sample_key ?e s" "tsLabels st = sample_labels lib ?e s"
      using fb(2) k f(4) inv(4) unfolding labelled_def by metis
    have "filter (\<lambda>s. sample_key ?e s = k) xs = filter (\<lambda>s. sample_labels lib ?e s = tsLabels st) xs"
      using key_iff_labels [OF assms(2) go _ s(1)] s(2,3) assms(7) by (auto intro!: filter_cong)
    then have "emitted content st = ?of (tsLabels st)"
      using finalized_keeps_all [OF assms(1,3-6,8) k] inv(4) by simp
    moreover have "emitted content st = concat (map (content \<circ> mChunk) (tsChunks st))" "\<forall>m \<in> set (tsChunks st). chunk_ok content (bSamplesPerChk b) m"
      using finalized_chunks [OF fs(3) [OF k] fs(2) [OF k]] by blast+
    ultimately show ?thesis using s by (cases "tsChunks st") (auto simp: chunk_ok_def)
  qed
  have mem: "(st \<in> set ?ser) = (\<exists>k. map_of (bSeries b') k = Some st \<and> tsChunks st \<noteq> [])" for st
    using fb(1) by (auto simp: labelSortedSeries_def nonEmptySeries_def map_of_eq_Some_iff intro: rev_image_eqI)
  have "tsLabels ` set ?ser = set (map (sample_labels lib ?e) xs)"
  proof (intro equalityI subsetI)
    fix l assume "l \<in> tsLabels ` set ?ser"
    then obtain k st where "map_of (bSeries b') k = Some st" "tsChunks st \<noteq> []" "l = tsLabels st" using mem by auto
    then have "?of l \<noteq> []" using one [of k st] by simp
    then have "filter (\<lambda>s. sample_labels lib ?e s = l) xs \<noteq> []" by auto
    then show "l \<in> set (map (sample_labels lib ?e) xs)" by (auto simp: filter_empty_conv)
  next
    fix l assume "l \<in> set (map (sample_labels lib ?e) xs)"
    then obtain s where s: "s \<in> set xs" "l = sample_labels lib ?e s" by auto
    then obtain st where st: "map_of (bSeries b') (sample_key ?e s) = Some st"
      using keeps_all_series [OF assms(5) s(1)] f(1) inv(4) by auto
    obtain s' where "go_sample s'" "sample_key ?e s = sample_key ?e s'" "tsLabels st = sample_labels lib ?e s'" using one [OF st] by blast
    then have "tsLabels st = l" using key_iff_labels [OF assms(2) go, of s s'] assms(7) s by simp
    moreover have "?of l \<noteq> []" using s by (metis (mono_tags, lifting) filter_empty_conv length_0_conv length_map length_sort)
    ultimately show "l \<in> tsLabels ` set ?ser" using mem [of st] st one [OF st] by (intro image_eqI [of _ _ st]) auto
  qed
  moreover have "sorted_wrt (\<lambda>x y. lRange lib x < lRange lib y) (map tsLabels ?ser)"
    using nonEmpty_labels(2) [OF assms(2) labels_distinct [OF assms(2) fb(3,2,1)]] by (simp add: sorted_wrt_map)
  moreover have "inj (lRange lib)" using assms(2) by (auto simp: label_laws_def inj_def)
  ultimately have "map tsLabels ?ser = sort_key (lRange lib) (remdups (map (sample_labels lib ?e) xs))"
    by (intro sorted_by_unique) auto
  moreover have "map (\<lambda>st. (tsLabels st, concat (map (content \<circ> mChunk) (tsChunks st)))) ?ser = map (\<lambda>l. (l, ?of l)) (map tsLabels ?ser)"
    using mem one by (auto simp: comp_def)
  ultimately show ?thesis by (simp add: expected_content_def)
qed

text \<open>
  Property C7. Samples within the grace are neither lost nor misplaced: when every sample arrives less than the reorder grace behind the
  latest one before it, and no series has two samples of one time, the block built from them drops nothing and holds, for
  every label set that occurs, in the order of the label sets, exactly the samples carrying it, sorted by time,
  whatever the order they arrived in.
\<close>

theorem within_grace_lossless:
  assumes "xor_laws lib content" "label_laws lib" "opts_ok opts" "xs \<noteq> []" "\<forall>s \<in> set xs. go_sample s"
    and "on_time (unixMs (toReorderGrace opts)) 0 xs" "no_duplicates (toExternalLabels opts) xs"
  shows "\<exists>b b' a. addAll lib xs (NewStreamingTSDBBlockBuilder opts) = Inr b \<and> Finalize lib b = Inr (b', Some a) \<and>
    aNumSamples a = length xs \<and> aNumOOODropped a = 0 \<and> block_content content a = expected_content lib (toExternalLabels opts) xs"
proof -
  obtain b where b: "addAll lib xs (NewStreamingTSDBBlockBuilder opts) = Inr b" "reach lib opts (length xs) b" "keeps_all content xs b"
    using addAll_from_new [OF assms(1,3,5-7)] by blast
  have inv: "\<not> bClosed b" "bExtLabels b = toExternalLabels opts" using reach_inv [OF assms(1,3) b(2)] by blast+
  obtain b' r where fin: "Finalize lib b = Inr (b', r)" using inv(1) by (fastforce simp: Finalize_def Let_def split: prod.splits)
  note c = finalized_counts [OF assms(1,3) b(2,3) _ fin] and k = finalized_content [OF assms(1-3) b(2,3) _ assms(5) fin]
  have nd: "no_duplicates (bExtLabels b) xs" using assms(7) inv(2) by simp
  have "bNumSamples b' \<noteq> 0" using c(1) [OF nd] assms(4) by simp
  then obtain a where a: "r = Some a" "aNumSamples a = bNumSamples b'" "aNumOOODropped a = bNumDropped b'" "aIndex a = writeIndex lib b'"
    using fin inv(1) by (auto simp: Finalize_def Let_def split: if_splits prod.splits)
  have "block_content content a = map (\<lambda>st. (tsLabels st, concat (map (content \<circ> mChunk) (tsChunks st)))) (labelSortedSeries lib b')"
    by (rule nth_equalityI) (auto simp: block_content_def a(4) writeIndex_def nth_enumerate_eq)
  then show ?thesis using b(1) fin a c [OF nd] k [OF nd] by auto
qed

section \<open>Witnesses\<close>

definition demo_opts :: StreamingTSDBOptions where
  "demo_opts = \<lparr>toReorderGrace = 10000000, toSamplesPerChunk = 2, toExternalLabels = [(bytes_of ''env'', bytes_of ''p'')]\<rparr>"

definition demo_sample :: "string \<Rightarrow> i64 \<Rightarrow> TSDBSample" where
  "demo_sample host ns =
     \<lparr>sMetricName = bytes_of ''cpu'', sAttributes = [(bytes_of ''host'', bytes_of host)], sTimestamp = ns, sValue = 1\<rparr>"

text \<open>Two series whose samples arrive out of order, within the grace of ten milliseconds.\<close>

definition demo_samples :: "TSDBSample list" where
  "demo_samples = [demo_sample ''a'' 20000000, demo_sample ''b'' 15000000, demo_sample ''a'' 11000000, demo_sample ''a'' 40000000]"

lemma demo_ok:
  "opts_ok demo_opts" "\<forall>s \<in> set demo_samples. go_sample s" "on_time (unixMs (toReorderGrace demo_opts)) 0 demo_samples"
  "no_duplicates (toExternalLabels demo_opts) demo_samples"
  by (simp_all add: opts_ok_def demo_opts_def demo_samples_def demo_sample_def go_sample_def go_string_def go_attrs_def bytes_of_def
      unixMs_def) code_simp+

theorem within_grace_lossless_witness:
  "\<exists>b b' a. addAll listLib demo_samples (NewStreamingTSDBBlockBuilder demo_opts) = Inr b \<and> Finalize listLib b = Inr (b', Some a) \<and>
    aNumSamples a = 4 \<and> aNumOOODropped a = 0 \<and>
    block_content (\<lambda>c. c) a = expected_content listLib (toExternalLabels demo_opts) demo_samples"
proof -
  have "demo_samples \<noteq> []" "length demo_samples = 4" by (simp_all add: demo_samples_def)
  with within_grace_lossless [OF listLib_xor listLib_labels demo_ok(1) _ demo_ok(2,3,4)] show ?thesis by simp
qed

lemma demo_built:
  obtains b b' a where "addAll listLib demo_samples (NewStreamingTSDBBlockBuilder demo_opts) = Inr b" "reach listLib demo_opts 4 b"
    "Finalize listLib b = Inr (b', Some a)"
proof -
  have len: "length demo_samples = 4" by (simp add: demo_samples_def)
  obtain b where b: "addAll listLib demo_samples (NewStreamingTSDBBlockBuilder demo_opts) = Inr b" "reach listLib demo_opts 4 b"
      "keeps_all (\<lambda>c. c) demo_samples b"
    using addAll_from_new [OF listLib_xor demo_ok] len by auto
  have inv: "\<not> bClosed b" "bExtLabels b = toExternalLabels demo_opts" using reach_inv [OF listLib_xor demo_ok(1) b(2)] by blast+
  obtain b' r where fin: "Finalize listLib b = Inr (b', r)" using inv(1) by (fastforce simp: Finalize_def Let_def split: prod.splits)
  have "bNumSamples b' = 4"
    using finalized_counts(1) [OF listLib_xor demo_ok(1) _ b(3) _ fin] b(2) demo_ok(4) inv(2) len by simp
  then have "\<exists>a. r = Some a" using fin inv(1) by (auto simp: Finalize_def Let_def split: if_splits prod.splits)
  then show ?thesis using that b fin by blast
qed

theorem Finalize_accounts_witness:
  "\<exists>b b' a. addAll listLib demo_samples (NewStreamingTSDBBlockBuilder demo_opts) = Inr b \<and> Finalize listLib b = Inr (b', Some a) \<and>
     (\<forall>(k, st) \<in> set (bSeries b'). tsPending st = [] \<and> tsOpenChunk st = None) \<and> aNumSamples a + aNumOOODropped a = 4 \<and>
     aNumSamples a = length (concat (map (concat \<circ> map ((\<lambda>c. c) \<circ> mChunk)) (aChunks a))) \<and>
     aNumChunks a = length (concat (aChunks a)) \<and> aNumSeries a = length (aChunks a)"
proof -
  obtain b b' a where d: "addAll listLib demo_samples (NewStreamingTSDBBlockBuilder demo_opts) = Inr b" "reach listLib demo_opts 4 b"
    "Finalize listLib b = Inr (b', Some a)" by (rule demo_built)
  show ?thesis using Finalize_accounts [OF listLib_xor demo_ok(1) d(2,3)] d(1,3) by blast
qed

theorem Finalize_index_ready_witness:
  "\<exists>b b' a. addAll listLib demo_samples (NewStreamingTSDBBlockBuilder demo_opts) = Inr b \<and> Finalize listLib b = Inr (b', Some a) \<and>
     index_ready listLib (\<lambda>c. c) (bSamplesPerChk b) a"
  using Finalize_index_ready [OF listLib_xor listLib_labels demo_ok(1)] by (metis demo_built)

theorem drain_equals_scan_witness:
  "\<exists>b. addAll listLib demo_samples (NewStreamingTSDBBlockBuilder demo_opts) = Inr b \<and>
     (drainWatermarkLocked listLib 40 b)\<lparr>bDrainQueue := []\<rparr> = (scanDrain listLib 40 b)\<lparr>bDrainQueue := []\<rparr>"
  using drain_equals_scan [OF listLib_xor demo_ok(1)] by (metis demo_built)

theorem drain_terminates_witness:
  "\<exists>b n. addAll listLib demo_samples (NewStreamingTSDBBlockBuilder demo_opts) = Inr b \<and>
     n \<le> length (filter (\<lambda>e. deT e \<le> 40) (bDrainQueue b)) \<and> drainWatermarkLocked listLib 40 b = (drainTurn listLib 40 ^^ n) b \<and>
     list_all (\<lambda>e. 40 < deT e) (bDrainQueue (drainWatermarkLocked listLib 40 b))"
proof -
  obtain b where b: "addAll listLib demo_samples (NewStreamingTSDBBlockBuilder demo_opts) = Inr b" "reach listLib demo_opts 4 b" using demo_built by blast
  have "is_heap deT (bDrainQueue b)" using reach_inv [OF listLib_xor demo_ok(1) b(2)] by (simp add: tsdb_inv_def)
  then show ?thesis using drain_terminates [of 40 b listLib] b(1) unfolding list_all_iff by blast
qed

text \<open>A sample within the grace is still pending after it is added, and not ready.\<close>

lemma demo_pending:
  "(case AddSample listLib (demo_sample ''a'' 20000000) (NewStreamingTSDBBlockBuilder demo_opts) of Inl e \<Rightarrow> []
    | Inr b \<Rightarrow> map (\<lambda>(k, st). length (tsPending st)) (bSeries b)) = [1]"
  by code_simp

theorem no_ready_point_left_witness:
  "\<exists>b k st p. AddSample listLib (demo_sample ''a'' 20000000) (NewStreamingTSDBBlockBuilder demo_opts) = Inr b \<and>
     (k, st) \<in> set (bSeries b) \<and> p \<in> set (tsPending st) \<and> bMaxObserved b - bReorderGrace b < ppT p"
proof -
  let ?s = "demo_sample ''a'' 20000000" and ?b0 = "NewStreamingTSDBBlockBuilder demo_opts"
  obtain b where b: "AddSample listLib ?s ?b0 = Inr b" "map (\<lambda>(k, st). length (tsPending st)) (bSeries b) = [1]"
    using demo_pending by (cases "AddSample listLib ?s ?b0") auto
  have "go_sample ?s" using demo_ok(2) by (simp add: demo_samples_def)
  then have r: "reach listLib demo_opts 1 b" using reach_add [OF reach.init _ b(1)] by simp
  obtain k st where ks: "(k, st) \<in> set (bSeries b)" "length (tsPending st) = 1" using b(2) by (cases "bSeries b") auto
  then have "tsPending st ! 0 \<in> set (tsPending st)" by simp
  then show ?thesis using no_ready_point_left [OF listLib_xor demo_ok(1) r ks(1)] b(1) ks(1) by blast
qed

theorem SeriesKey_identifies_witness:
  "SeriesKey (bytes_of ''cpu'') [(bytes_of ''env'', [])] [] = SeriesKey (bytes_of ''cpu'') [] [] \<longleftrightarrow>
   labelsFor listLib (bytes_of ''cpu'') [(bytes_of ''env'', [])] [] = labelsFor listLib (bytes_of ''cpu'') [] []"
  by (rule SeriesKey_identifies [OF listLib_labels]) (simp_all add: go_string_def go_attrs_def bytes_of_def)

end
