(* ===== verification/FragmentStream.thy ===== *)
theory FragmentStream
  imports PointHeap "HOL-Library.AList"
begin

text \<open>
  The streaming fragment encoder (\<^verbatim>\<open>asap-gorilla-go/fragment.go\<close>): raw samples become XOR-chunk fragments; a series that is idle and fully
  shipped is evicted, and comes back as a new state object when it reappears.

  Because of that, and because the queues hold pointers, the series states are objects in a store: \<open>eObjs\<close> lists them in the
  order of allocation, a pointer is an index, \<open>eSeries\<close> maps keys to pointers. \<^verbatim>\<open>range\<close> over the map of series visits the
  keys in an order of the runtime's choice, the argument \<open>ord\<close>. XOR chunks, labels and ULIDs are those of
  the packages the code imports, the record \<open>fragLib\<close>.
\<close>

section \<open>State\<close>

record ('c, 'l) fragLib =
  flProm :: "('c, 'l) promLib"
  xBytes :: "'c \<Rightarrow> u8 list"
  xFromData :: "u8 list \<Rightarrow> 'c option"
  xIterate :: "'c \<Rightarrow> (int \<times> u64) list option"
  lString :: "'l \<Rightarrow> gostr"
  ulidMake :: "nat \<Rightarrow> gostr"

record Fragment =
  fMetricName :: gostr
  fAttributes :: goattrs
  fMinTime :: int
  fMaxTime :: int
  fCount :: int
  fEncoding :: gostr
  fData :: "u8 list"
  fOOODropCount :: nat
  fFragmentULID :: gostr
  fSource :: gostr
  fWatermarkTime :: int

record 'c fragmentSeriesState =
  fsKey :: gostr
  fsMetricName :: gostr
  fsAttrs :: goattrs
  fsPending :: "pendingPoint list"
  fsOpenChunk :: "'c option"
  fsOpenMin :: int
  fsOpenMax :: int
  fsOpenCount :: int
  fsLastTs :: int
  fsHasLast :: bool
  fsLastActive :: int
  fsInEvictQueue :: bool

record fragmentDrainEntry =
  fdT :: int
  fdSt :: nat

record fragmentEvictEntry =
  feLastActive :: int
  feSt :: nat

record 'c StreamingFragmentEncoder =
  eReorderGrace :: int
  eSamplesPerChk :: int
  eSource :: gostr
  eIdleEvictMs :: int
  eObjs :: "'c fragmentSeriesState list"
  eSeries :: "(gostr \<times> nat) list"
  eDrainQueue :: "fragmentDrainEntry list"
  eEvictQueue :: "fragmentEvictEntry list"
  eMaxObserved :: int
  eQueued :: "Fragment list"
  eDropped :: nat
  eLastReported :: nat
  eEvicted :: nat
  eUlids :: nat
  eClosed :: bool

record StreamingFragmentOptions =
  foReorderGrace :: i64
  foSamplesPerChunk :: int
  foSource :: gostr
  foIdleEvict :: i64

definition NewStreamingFragmentEncoder :: "StreamingFragmentOptions \<Rightarrow> 'c StreamingFragmentEncoder" where
  "NewStreamingFragmentEncoder opts =
     (let reorderGrace = unixMs (foReorderGrace opts);
          idleEvictMs = (if sint (foIdleEvict opts) < 0 then 0
                         else if sint (foIdleEvict opts) > 0 then unixMs (foIdleEvict opts) else 3 * reorderGrace)
      in \<lparr>eReorderGrace = reorderGrace,
          eSamplesPerChk = (if foSamplesPerChunk opts \<le> 0 then 120 else foSamplesPerChunk opts),
          eSource = foSource opts, eIdleEvictMs = idleEvictMs, eObjs = [], eSeries = [], eDrainQueue = [], eEvictQueue = [],
          eMaxObserved = 0, eQueued = [], eDropped = 0, eLastReported = 0, eEvicted = 0, eUlids = 0, eClosed = False\<rparr>)"

section \<open>Series\<close>

fun attrsKeyLoop :: "goattrs \<Rightarrow> gostr list \<Rightarrow> u8 list \<Rightarrow> u8 list" where
  "attrsKeyLoop attrs [] b = b"
| "attrsKeyLoop attrs (k # ks) b =
     attrsKeyLoop attrs ks (b @ k @ bytes_of ''='' @ (case map_of attrs k of None \<Rightarrow> [] | Some v \<Rightarrow> v) @ bytes_of '';'')"

definition canonicalAttrsKey :: "goattrs \<Rightarrow> gostr" where
  "canonicalAttrsKey attrs = (if attrs = [] then [] else attrsKeyLoop attrs (sort (map fst attrs)) [])"

definition fragmentKey :: "gostr \<Rightarrow> goattrs \<Rightarrow> gostr" where
  "fragmentKey metricName attrs = metricName @ [0xff] @ canonicalAttrsKey attrs"

definition newFragmentSeries :: "gostr \<Rightarrow> gostr \<Rightarrow> goattrs \<Rightarrow> 'c fragmentSeriesState" where
  "newFragmentSeries key metricName attrs =
     \<lparr>fsKey = key, fsMetricName = metricName, fsAttrs = attrs, fsPending = [], fsOpenChunk = None, fsOpenMin = 0, fsOpenMax = 0,
      fsOpenCount = 0, fsLastTs = MinInt64, fsHasLast = False, fsLastActive = MinInt64, fsInEvictQueue = False\<rparr>"

definition getSeriesF :: "gostr \<Rightarrow> goattrs \<Rightarrow> 'c StreamingFragmentEncoder \<Rightarrow> nat \<times> 'c StreamingFragmentEncoder" where
  "getSeriesF metricName attrs e =
     (let key = fragmentKey metricName attrs
      in case map_of (eSeries e) key of
           Some p \<Rightarrow> (p, e)
         | None \<Rightarrow> (length (eObjs e),
             e\<lparr>eObjs := eObjs e @ [newFragmentSeries key metricName attrs], eSeries := AList.update key (length (eObjs e)) (eSeries e)\<rparr>))"

section \<open>Chunks and fragments\<close>

type_synonym 'c encoder_series = "'c StreamingFragmentEncoder \<times> 'c fragmentSeriesState"

definition flushFragment :: "('c, 'l) fragLib \<Rightarrow> int \<Rightarrow> nat \<Rightarrow> 'c encoder_series \<Rightarrow> 'c encoder_series" where
  "flushFragment lib watermark p es = (case es of (e, st) \<Rightarrow>
     (case fsOpenChunk st of None \<Rightarrow> (e, st)
      | Some c \<Rightarrow> if fsOpenCount st = 0 then (e, st)
          else let stampWatermark = (if watermark = MaxInt64 then eMaxObserved e - eReorderGrace e else watermark);
                   f = \<lparr>fMetricName = fsMetricName st, fAttributes = fsAttrs st, fMinTime = fsOpenMin st, fMaxTime = fsOpenMax st,
                        fCount = fsOpenCount st, fEncoding = bytes_of ''xor'', fData = xBytes lib c,
                        fOOODropCount = eDropped e - eLastReported e, fFragmentULID = ulidMake lib (eUlids e),
                        fSource = eSource e, fWatermarkTime = stampWatermark\<rparr>;
                   e1 = e\<lparr>eQueued := eQueued e @ [f], eLastReported := eDropped e, eUlids := eUlids e + 1\<rparr>;
                   st1 = st\<lparr>fsOpenChunk := None, fsOpenCount := 0\<rparr>
               in if eIdleEvictMs e1 > 0 \<and> \<not> fsInEvictQueue st1
                  then (e1\<lparr>eEvictQueue := heap_push feLastActive \<lparr>feLastActive = fsLastActive st1, feSt = p\<rparr> (eEvictQueue e1)\<rparr>,
                        st1\<lparr>fsInEvictQueue := True\<rparr>)
                  else (e1, st1)))"

definition appendFragment :: "('c, 'l) fragLib \<Rightarrow> nat \<Rightarrow> pendingPoint \<Rightarrow> 'c encoder_series \<Rightarrow> 'c encoder_series" where
  "appendFragment lib p pt es = (case es of (e, st) \<Rightarrow>
     (let st1 = (if fsOpenChunk st = None
                 then st\<lparr>fsOpenChunk := Some (xNew (flProm lib)), fsOpenMin := ppT pt, fsOpenMax := ppT pt, fsOpenCount := 0\<rparr> else st);
          st2 = st1\<lparr>fsOpenChunk := map_option (\<lambda>c. xAppend (flProm lib) c (ppT pt) (ppV pt)) (fsOpenChunk st1),
                    fsOpenMax := ppT pt, fsOpenCount := fsOpenCount st1 + 1, fsLastTs := ppT pt, fsHasLast := True\<rparr>
      in if fsOpenCount st2 \<ge> eSamplesPerChk e then flushFragment lib (eMaxObserved e - eReorderGrace e) p (e, st2) else (e, st2)))"

section \<open>Draining\<close>

lemma fsPending_flush [simp]: "fsPending (snd (flushFragment lib w p es)) = fsPending (snd es)"
  by (auto simp: flushFragment_def Let_def split: prod.splits option.splits)

lemma fsPending_append [simp]: "fsPending (snd (appendFragment lib p pt es)) = fsPending (snd es)"
  by (auto simp: appendFragment_def Let_def split: prod.splits)

function drainSeriesLocked :: "('c, 'l) fragLib \<Rightarrow> int \<Rightarrow> nat \<Rightarrow> 'c encoder_series \<Rightarrow> 'c encoder_series" where
  "drainSeriesLocked lib w p es = (case es of (e, st) \<Rightarrow>
     if fsPending st \<noteq> [] \<and> ppT (fsPending st ! 0) \<le> w
     then let pt = fst (heap_pop ppT (fsPending st));
              st1 = st\<lparr>fsPending := snd (heap_pop ppT (fsPending st))\<rparr>
          in if fsHasLast st1 \<and> ppT pt \<le> fsLastTs st1
             then drainSeriesLocked lib w p (e\<lparr>eDropped := eDropped e + 1\<rparr>, st1)
             else drainSeriesLocked lib w p (appendFragment lib p pt (e, st1))
     else (e, st))"
  by pat_completeness auto
termination
  by (relation "measure (\<lambda>(lib, w, p, es). length (fsPending (snd es)))") (auto simp: length_heap_pop)

declare drainSeriesLocked.simps [simp del]

abbreviation obj :: "'c StreamingFragmentEncoder \<Rightarrow> nat \<Rightarrow> 'c fragmentSeriesState" where
  "obj e p \<equiv> eObjs e ! p"

text \<open>Writing a state back to its object.\<close>

definition store :: "nat \<Rightarrow> 'c encoder_series \<Rightarrow> 'c StreamingFragmentEncoder" where
  "store p es = (case es of (e, st) \<Rightarrow> e\<lparr>eObjs := (eObjs e)[p := st]\<rparr>)"

definition fragmentDrainTurn :: "('c, 'l) fragLib \<Rightarrow> int \<Rightarrow> 'c StreamingFragmentEncoder \<Rightarrow> 'c StreamingFragmentEncoder" where
  "fragmentDrainTurn lib w e =
     (let p = fdSt (fst (heap_pop fdT (eDrainQueue e)));
          e1 = e\<lparr>eDrainQueue := snd (heap_pop fdT (eDrainQueue e))\<rparr>;
          (e2, st) = drainSeriesLocked lib w p (e1, obj e1 p);
          e3 = store p (e2, st)
      in if fsPending st \<noteq> []
         then e3\<lparr>eDrainQueue := heap_push fdT \<lparr>fdT = ppT (fsPending st ! 0), fdSt = p\<rparr> (eDrainQueue e3)\<rparr> else e3)"

lemma drainSeries_induct [case_names stop drop add]:
  assumes stop: "\<And>e st. \<not> (fsPending st \<noteq> [] \<and> ppT (fsPending st ! 0) \<le> w) \<Longrightarrow> P (e, st) (e, st)"
    and drop: "\<And>e st r. fsPending st \<noteq> [] \<Longrightarrow> ppT (fsPending st ! 0) \<le> w \<Longrightarrow> fsHasLast st \<Longrightarrow> ppT (fsPending st ! 0) \<le> fsLastTs st \<Longrightarrow>
           P (e\<lparr>eDropped := eDropped e + 1\<rparr>, st\<lparr>fsPending := snd (heap_pop ppT (fsPending st))\<rparr>) r \<Longrightarrow> P (e, st) r"
    and add: "\<And>e st r. fsPending st \<noteq> [] \<Longrightarrow> ppT (fsPending st ! 0) \<le> w \<Longrightarrow> \<not> (fsHasLast st \<and> ppT (fsPending st ! 0) \<le> fsLastTs st) \<Longrightarrow>
           P (appendFragment lib p (fsPending st ! 0) (e, st\<lparr>fsPending := snd (heap_pop ppT (fsPending st))\<rparr>)) r \<Longrightarrow> P (e, st) r"
  shows "P es (drainSeriesLocked lib w p es)"
proof (induction "length (fsPending (snd es))" arbitrary: es rule: less_induct)
  case less
  obtain e st where es: "es = (e, st)" by (cases es)
  let ?st = "st\<lparr>fsPending := snd (heap_pop ppT (fsPending st))\<rparr>"
  note r = drainSeriesLocked.simps [of lib w p "(e, st)"]
  show ?case unfolding es
  proof (cases "fsPending st \<noteq> [] \<and> ppT (fsPending st ! 0) \<le> w")
    case False
    then have "drainSeriesLocked lib w p (e, st) = (e, st)" by (subst r) auto
    then show "P (e, st) (drainSeriesLocked lib w p (e, st))" using stop [OF False] by simp
  next
    case True
    then have len: "length (fsPending ?st) < length (fsPending (snd es))" by (simp add: es length_heap_pop)
    show "P (e, st) (drainSeriesLocked lib w p (e, st))"
    proof (cases "fsHasLast st \<and> ppT (fsPending st ! 0) \<le> fsLastTs st")
      case True
      with \<open>_ \<noteq> [] \<and> _\<close> have "drainSeriesLocked lib w p (e, st) = drainSeriesLocked lib w p (e\<lparr>eDropped := eDropped e + 1\<rparr>, ?st)"
        by (subst r) (simp add: Let_def heap_pop_root)
      then show ?thesis using less [of "(e\<lparr>eDropped := eDropped e + 1\<rparr>, ?st)"] len drop True \<open>_ \<noteq> [] \<and> _\<close> by simp
    next
      case False
      with \<open>_ \<noteq> [] \<and> _\<close> have "drainSeriesLocked lib w p (e, st) = drainSeriesLocked lib w p (appendFragment lib p (fsPending st ! 0) (e, ?st))"
        by (subst r) (auto simp: Let_def heap_pop_root)
      then show ?thesis using less [of "appendFragment lib p (fsPending st ! 0) (e, ?st)"] len add False \<open>_ \<noteq> [] \<and> _\<close> by simp
    qed
  qed
qed

lemma drainSeries_pending: "fsPending (snd (drainSeriesLocked lib w p es)) = snd (heap_drain ppT w (fsPending (snd es)))"
  by (induction rule: drainSeries_induct [where es = es and lib = lib and w = w and p = p]) (auto simp: heap_drain_stop heap_drain_step)

text \<open>What stays the same while a series is drained: the store, the map and the queue of series, the settings.\<close>

definition same_series :: "'c StreamingFragmentEncoder \<Rightarrow> 'c StreamingFragmentEncoder \<Rightarrow> bool" where
  "same_series e e' \<longleftrightarrow>
     eReorderGrace e' = eReorderGrace e \<and> eSamplesPerChk e' = eSamplesPerChk e \<and> eSource e' = eSource e \<and>
     eIdleEvictMs e' = eIdleEvictMs e \<and> eObjs e' = eObjs e \<and> eSeries e' = eSeries e \<and> eDrainQueue e' = eDrainQueue e \<and>
     eMaxObserved e' = eMaxObserved e \<and> eEvicted e' = eEvicted e \<and> eClosed e' = eClosed e"

lemma same_series_trans: "same_series e e' \<Longrightarrow> same_series e' e'' \<Longrightarrow> same_series e e''"
  by (simp add: same_series_def)

lemma same_series_flush: "same_series (fst es) (fst (flushFragment lib w p es))"
  by (auto simp: same_series_def flushFragment_def Let_def split: prod.splits option.splits)

lemma same_series_append: "same_series (fst es) (fst (appendFragment lib p pt es))"
  by (cases es) (auto simp: appendFragment_def Let_def same_series_def flushFragment_def split: option.splits)

lemma same_series_drain: "same_series (fst es) (fst (drainSeriesLocked lib w p es))"
proof (induction rule: drainSeries_induct [where es = es and lib = lib and w = w and p = p])
  case (add e st r)
  then show ?case using same_series_append same_series_trans by fastforce
qed (auto simp: same_series_def)

definition same_object :: "'c fragmentSeriesState \<Rightarrow> 'c fragmentSeriesState \<Rightarrow> bool" where
  "same_object st st' \<longleftrightarrow> fsKey st' = fsKey st \<and> fsMetricName st' = fsMetricName st \<and> fsAttrs st' = fsAttrs st \<and> fsLastActive st' = fsLastActive st"

lemma same_object_flush: "same_object (snd es) (snd (flushFragment lib w p es))"
  by (auto simp: same_object_def flushFragment_def Let_def split: prod.splits option.splits)

lemma same_object_append: "same_object (snd es) (snd (appendFragment lib p pt es))"
  by (cases es) (auto simp: appendFragment_def Let_def same_object_def flushFragment_def split: option.splits)

lemma same_object_drain: "same_object (snd es) (snd (drainSeriesLocked lib w p es))"
proof (induction rule: drainSeries_induct [where es = es and lib = lib and w = w and p = p])
  case (add e st r)
  then show ?case
    using same_object_append [of "(e, st\<lparr>fsPending := snd (heap_pop ppT (fsPending st))\<rparr>)" lib p "fsPending st ! 0"] by (simp add: same_object_def)
qed (auto simp: same_object_def)

lemma fragmentDrainTurn_count:
  assumes "eDrainQueue e \<noteq> []" and "fdT (eDrainQueue e ! 0) \<le> w"
  shows "length (filter (\<lambda>x. fdT x \<le> w) (eDrainQueue (fragmentDrainTurn lib w e))) < length (filter (\<lambda>x. fdT x \<le> w) (eDrainQueue e))"
proof -
  let ?e1 = "e\<lparr>eDrainQueue := snd (heap_pop fdT (eDrainQueue e))\<rparr>" and ?p = "fdSt (fst (heap_pop fdT (eDrainQueue e)))"
  let ?due = "\<lambda>q. length (filter (\<lambda>x. fdT x \<le> w) q)"
  obtain e2 st where d: "drainSeriesLocked lib w ?p (?e1, obj ?e1 ?p) = (e2, st)" by fastforce
  have q: "eDrainQueue e2 = snd (heap_pop fdT (eDrainQueue e))"
    using same_series_drain [of "(?e1, obj ?e1 ?p)" lib w ?p] d by (simp add: same_series_def)
  have "fsPending st \<noteq> [] \<longrightarrow> w < ppT (fsPending st ! 0)"
    using drainSeries_pending [of lib w ?p "(?e1, obj ?e1 ?p)"] heap_drain_rest [of ppT w "fsPending (obj ?e1 ?p)"] d by simp
  then have "?due (eDrainQueue (fragmentDrainTurn lib w e)) = ?due (snd (heap_pop fdT (eDrainQueue e)))"
    using d q by (auto simp: fragmentDrainTurn_def Let_def store_def go_heap.push_count)
  then show ?thesis using go_heap.pop_count [OF assms(1), of "\<lambda>x. fdT x \<le> w" fdT] assms(2) by simp
qed

text \<open>The per-sample path of \<^verbatim>\<open>drainLocked\<close>.\<close>

function drainQueueLoop :: "('c, 'l) fragLib \<Rightarrow> int \<Rightarrow> 'c StreamingFragmentEncoder \<Rightarrow> 'c StreamingFragmentEncoder" where
  "drainQueueLoop lib w e =
     (if eDrainQueue e \<noteq> [] \<and> fdT (eDrainQueue e ! 0) \<le> w then drainQueueLoop lib w (fragmentDrainTurn lib w e) else e)"
  by pat_completeness auto
termination
  by (relation "measure (\<lambda>(lib, w, e). length (filter (\<lambda>x. fdT x \<le> w) (eDrainQueue e)))") (simp_all add: fragmentDrainTurn_count)

declare drainQueueLoop.simps [simp del]

section \<open>Eviction\<close>

definition sweepTurn :: "'c StreamingFragmentEncoder \<Rightarrow> 'c StreamingFragmentEncoder" where
  "sweepTurn e =
     (let ent = fst (heap_pop feLastActive (eEvictQueue e));
          e1 = e\<lparr>eEvictQueue := snd (heap_pop feLastActive (eEvictQueue e))\<rparr>;
          p = feSt ent; st = obj e1 p; out = st\<lparr>fsInEvictQueue := False\<rparr>
      in if map_of (eSeries e1) (fsKey st) \<noteq> Some p then store p (e1, out)
         else if fsLastActive st > feLastActive ent
         then e1\<lparr>eEvictQueue := heap_push feLastActive \<lparr>feLastActive = fsLastActive st, feSt = p\<rparr> (eEvictQueue e1)\<rparr>
         else if fsPending st \<noteq> [] \<or> fsOpenChunk st \<noteq> None \<or> fsOpenCount st > 0 then store p (e1, out)
         else if eMaxObserved e1 - fsLastActive st \<le> eIdleEvictMs e1 then store p (e1, out)
         else (store p (e1, out))\<lparr>eSeries := AList.delete (fsKey st) (eSeries e1), eEvicted := eEvicted e1 + 1\<rparr>)"

text \<open>
  Each turn takes an entry off the queue or replaces one by an up-to-date entry for the same series, which the next visit takes
  off: entries behind their series weigh two, the others one.
\<close>

definition sweep_weight :: "int \<Rightarrow> 'c StreamingFragmentEncoder \<Rightarrow> fragmentEvictEntry \<Rightarrow> nat" where
  "sweep_weight cutoff e x = (if feLastActive x \<le> cutoff then (if fsLastActive (obj e (feSt x)) > feLastActive x then 2 else 1) else 0)"

abbreviation sweep_measure :: "int \<Rightarrow> 'c StreamingFragmentEncoder \<Rightarrow> nat" where
  "sweep_measure cutoff e \<equiv> \<Sum>\<^sub># (image_mset (sweep_weight cutoff e) (mset (eEvictQueue e)))"

lemma nth_update_same: "g y = g (xs ! p) \<Longrightarrow> g (xs[p := y] ! q) = g (xs ! q)"
  by (cases "p < length xs") (auto simp: nth_list_update list_update_beyond)

lemma sweepTurn_objects: "fsLastActive (obj (sweepTurn e) q) = fsLastActive (obj e q)"
  by (simp add: sweepTurn_def Let_def store_def nth_update_same [of fsLastActive])

lemma sweepTurn_decreases:
  assumes "eEvictQueue e \<noteq> []" "feLastActive (eEvictQueue e ! 0) \<le> cutoff"
  shows "sweep_measure cutoff (sweepTurn e) < sweep_measure cutoff e"
proof -
  let ?x = "eEvictQueue e ! 0" and ?q = "snd (heap_pop feLastActive (eEvictQueue e))"
  let ?again = "\<lparr>feLastActive = fsLastActive (obj e (feSt ?x)), feSt = feSt ?x\<rparr>"
  note pop = heap_pop_root [OF assms(1), of feLastActive]
  have w: "sweep_weight cutoff (sweepTurn e) = sweep_weight cutoff e" using sweepTurn_objects [of e] by (simp add: sweep_weight_def fun_eq_iff)
  have "mset (eEvictQueue (sweepTurn e)) = mset ?q \<or>
      fsLastActive (obj e (feSt ?x)) > feLastActive ?x \<and> mset (eEvictQueue (sweepTurn e)) = add_mset ?again (mset ?q)"
    using pop(1) by (auto simp: sweepTurn_def Let_def store_def mset_heap_push)
  moreover have "sweep_measure cutoff e = sweep_weight cutoff e ?x + \<Sum>\<^sub># (image_mset (sweep_weight cutoff e) (mset ?q))"
    using pop(2) by (metis image_mset_add_mset sum_mset.insert)
  moreover have "sweep_weight cutoff e ?again \<le> 1" "0 < sweep_weight cutoff e ?x"
    "fsLastActive (obj e (feSt ?x)) > feLastActive ?x \<Longrightarrow> sweep_weight cutoff e ?x = 2"
    using assms(2) by (auto simp: sweep_weight_def)
  ultimately show ?thesis unfolding w by auto
qed

function sweepLoop :: "int \<Rightarrow> 'c StreamingFragmentEncoder \<Rightarrow> 'c StreamingFragmentEncoder" where
  "sweepLoop cutoff e =
     (if eEvictQueue e \<noteq> [] \<and> feLastActive (eEvictQueue e ! 0) \<le> cutoff then sweepLoop cutoff (sweepTurn e) else e)"
  by pat_completeness auto
termination
  by (relation "measure (\<lambda>(cutoff, e). sweep_measure cutoff e)") (simp_all add: sweepTurn_decreases)

declare sweepLoop.simps [simp del]

definition sweepEvictionsLocked :: "'c StreamingFragmentEncoder \<Rightarrow> 'c StreamingFragmentEncoder" where
  "sweepEvictionsLocked e = (if eIdleEvictMs e \<le> 0 then e else sweepLoop (eMaxObserved e - eIdleEvictMs e) e)"

section \<open>Operations\<close>

text \<open>The flush path: every series, in the order of the map's iteration.\<close>

fun forceSeries :: "('c, 'l) fragLib \<Rightarrow> int \<Rightarrow> gostr list \<Rightarrow> 'c StreamingFragmentEncoder \<Rightarrow> 'c StreamingFragmentEncoder" where
  "forceSeries lib w [] e = e"
| "forceSeries lib w (k # ks) e =
     (case map_of (eSeries e) k of None \<Rightarrow> forceSeries lib w ks e
      | Some p \<Rightarrow> forceSeries lib w ks (store p (flushFragment lib w p (drainSeriesLocked lib w p (e, obj e p)))))"

text \<open>The drops that no flush carried are added to the last queued fragment.\<close>

definition reportResidual :: "'c StreamingFragmentEncoder \<Rightarrow> 'c StreamingFragmentEncoder" where
  "reportResidual e =
     (if eDropped e > eLastReported e \<and> eQueued e \<noteq> []
      then e\<lparr>eQueued := butlast (eQueued e) @ [(last (eQueued e))\<lparr>fOOODropCount := fOOODropCount (last (eQueued e)) + (eDropped e - eLastReported e)\<rparr>],
             eLastReported := eDropped e\<rparr>
      else e)"

definition drainLocked :: "('c, 'l) fragLib \<Rightarrow> gostr list \<Rightarrow> int \<Rightarrow> bool \<Rightarrow> 'c StreamingFragmentEncoder \<Rightarrow> 'c StreamingFragmentEncoder" where
  "drainLocked lib ord w force e =
     (if force then sweepEvictionsLocked (reportResidual ((forceSeries lib w ord e)\<lparr>eDrainQueue := []\<rparr>))
      else drainQueueLoop lib w e)"

datatype fragment_error = ErrEncoderClosed

definition AddSampleF :: "('c, 'l) fragLib \<Rightarrow> TSDBSample \<Rightarrow> 'c StreamingFragmentEncoder \<Rightarrow> fragment_error + 'c StreamingFragmentEncoder" where
  "AddSampleF lib s e =
     (if eClosed e then Inl ErrEncoderClosed
      else let tms = unixMs (sTimestamp s);
               e1 = (if tms > eMaxObserved e then e\<lparr>eMaxObserved := tms\<rparr> else e);
               (p, e2) = getSeriesF (sMetricName s) (sAttributes s) e1;
               st = obj e2 p;
               st1 = (if tms > fsLastActive st then st\<lparr>fsLastActive := tms\<rparr> else st);
               st2 = st1\<lparr>fsPending := heap_push ppT \<lparr>ppT = tms, ppV = sValue s\<rparr> (fsPending st1)\<rparr>;
               e3 = store p (e2, st2);
               e4 = (if ppT (fsPending st2 ! 0) = tms
                     then e3\<lparr>eDrainQueue := heap_push fdT \<lparr>fdT = tms, fdSt = p\<rparr> (eDrainQueue e3)\<rparr> else e3)
           in Inr (drainLocked lib [] (eMaxObserved e4 - eReorderGrace e4) False e4))"

definition DrainF :: "('c, 'l) fragLib \<Rightarrow> gostr list \<Rightarrow> bool \<Rightarrow> 'c StreamingFragmentEncoder \<Rightarrow> Fragment list \<times> 'c StreamingFragmentEncoder" where
  "DrainF lib ord force e =
     (let watermark = (if force then MaxInt64 else eMaxObserved e - eReorderGrace e);
          e1 = drainLocked lib ord watermark force e
      in (eQueued e1, e1\<lparr>eQueued := []\<rparr>))"

definition DroppedSamples :: "'c StreamingFragmentEncoder \<Rightarrow> nat" where "DroppedSamples e = eDropped e"

definition EvictedSeries :: "'c StreamingFragmentEncoder \<Rightarrow> nat" where "EvictedSeries e = eEvicted e"

definition ActiveSeriesF :: "'c StreamingFragmentEncoder \<Rightarrow> nat" where "ActiveSeriesF e = length (eSeries e)"

section \<open>Reading fragments\<close>

datatype decode_error = ErrUnsupportedEncoding gostr | ErrFromData | ErrIterate

definition DecodeFragmentSamples :: "('c, 'l) fragLib \<Rightarrow> Fragment \<Rightarrow> decode_error + (int \<times> u64) list" where
  "DecodeFragmentSamples lib f =
     (if fEncoding f \<noteq> [] \<and> fEncoding f \<noteq> bytes_of ''xor'' then Inl (ErrUnsupportedEncoding (fEncoding f))
      else if fData f = [] then Inr []
      else case xFromData lib (fData f) of None \<Rightarrow> Inl ErrFromData
           | Some c \<Rightarrow> (case xIterate lib c of None \<Rightarrow> Inl ErrIterate | Some xs \<Rightarrow> Inr xs))"

end
