(* ===== verification/FragmentRuns.thy ===== *)
theory FragmentRuns
  imports FragmentStream
begin

text \<open>
  Runs of the streaming fragment encoder: no sample is lost across draining, flushing and eviction, the drop counts stamped on
  the fragments add up, and what is shipped can be decoded.
\<close>

declare map_of_eq_Some_iff [simp del]

section \<open>The packages\<close>

definition frag_laws :: "('c, 'l) fragLib \<Rightarrow> ('c \<Rightarrow> (int \<times> u64) list) \<Rightarrow> bool" where
  "frag_laws lib content \<longleftrightarrow> xor_laws (flProm lib) content \<and>
     (\<forall>c. xBytes lib c \<noteq> [] \<and> (\<exists>c'. xFromData lib (xBytes lib c) = Some c' \<and> content c' = content c \<and> xIterate lib c' = Some (content c)))"

section \<open>Objects and fragments\<close>

definition open_points :: "('c \<Rightarrow> (int \<times> u64) list) \<Rightarrow> 'c fragmentSeriesState \<Rightarrow> (int \<times> u64) list" where
  "open_points content st = (case fsOpenChunk st of None \<Rightarrow> [] | Some c \<Rightarrow> content c)"

definition obj_ok :: "('c \<Rightarrow> (int \<times> u64) list) \<Rightarrow> int \<Rightarrow> 'c fragmentSeriesState \<Rightarrow> bool" where
  "obj_ok content n st \<longleftrightarrow>
     is_heap ppT (fsPending st) \<and> fsKey st = fragmentKey (fsMetricName st) (fsAttrs st) \<and>
     fsOpenCount st = int (length (open_points content st)) \<and> fsOpenCount st \<le> n \<and>
     (fsOpenChunk st \<noteq> None \<longrightarrow>
        open_points content st \<noteq> [] \<and> sorted_wrt (<) (map fst (open_points content st)) \<and>
        fsOpenMin st = fst (hd (open_points content st)) \<and> fsOpenMax st = fst (last (open_points content st)) \<and>
        fsHasLast st \<and> fsLastTs st = fst (last (open_points content st)))"

definition frag_ok :: "('c, 'l) fragLib \<Rightarrow> int \<Rightarrow> Fragment \<Rightarrow> bool" where
  "frag_ok lib n f \<longleftrightarrow> (case DecodeFragmentSamples lib f of Inl err \<Rightarrow> False
     | Inr xs \<Rightarrow> xs \<noteq> [] \<and> fCount f = int (length xs) \<and> fCount f \<le> n \<and> sorted_wrt (<) (map fst xs) \<and>
         fMinTime f = fst (hd xs) \<and> fMaxTime f = fst (last xs))"

text \<open>Samples with the key of their series.\<close>

type_synonym keyed_points = "(gostr \<times> int \<times> u64) multiset"

definition obj_points :: "('c \<Rightarrow> (int \<times> u64) list) \<Rightarrow> 'c fragmentSeriesState \<Rightarrow> keyed_points" where
  "obj_points content st = mset (map (Pair (fsKey st)) (open_points content st @ map point (fsPending st)))"

definition frag_points :: "('c, 'l) fragLib \<Rightarrow> Fragment \<Rightarrow> keyed_points" where
  "frag_points lib f = (case DecodeFragmentSamples lib f of Inl err \<Rightarrow> {#}
     | Inr xs \<Rightarrow> mset (map (Pair (fragmentKey (fMetricName f) (fAttributes f))) xs))"

section \<open>The invariant of the encoder\<close>

definition live :: "'c StreamingFragmentEncoder \<Rightarrow> nat \<Rightarrow> bool" where
  "live e p \<longleftrightarrow> p < length (eObjs e) \<and> map_of (eSeries e) (fsKey (obj e p)) = Some p"

definition objs_inv :: "('c \<Rightarrow> (int \<times> u64) list) \<Rightarrow> 'c StreamingFragmentEncoder \<Rightarrow> bool" where
  "objs_inv content e \<longleftrightarrow>
     1 \<le> eSamplesPerChk e \<and> eSamplesPerChk e \<le> 65535 \<and> distinct (map fst (eSeries e)) \<and>
     (\<forall>k p. map_of (eSeries e) k = Some p \<longrightarrow> p < length (eObjs e) \<and> fsKey (obj e p) = k \<and> obj_ok content (eSamplesPerChk e) (obj e p))"

definition queue_inv :: "'c StreamingFragmentEncoder \<Rightarrow> bool" where
  "queue_inv e \<longleftrightarrow> is_heap fdT (eDrainQueue e) \<and> (\<forall>x \<in> set (eDrainQueue e). live e (fdSt x))"

text \<open>A series is in the eviction queue at most once, with a time no later than its last activity, and is flagged exactly then.\<close>

definition evict_inv :: "'c StreamingFragmentEncoder \<Rightarrow> bool" where
  "evict_inv e \<longleftrightarrow> is_heap feLastActive (eEvictQueue e) \<and> distinct (map feSt (eEvictQueue e)) \<and>
     (\<forall>x \<in> set (eEvictQueue e). live e (feSt x) \<and> fsInEvictQueue (obj e (feSt x)) \<and> feLastActive x \<le> fsLastActive (obj e (feSt x))) \<and>
     (\<forall>p. live e p \<and> fsInEvictQueue (obj e p) \<longrightarrow> p \<in> feSt ` set (eEvictQueue e))"

definition enc_inv :: "('c, 'l) fragLib \<Rightarrow> ('c \<Rightarrow> (int \<times> u64) list) \<Rightarrow> 'c StreamingFragmentEncoder \<Rightarrow> bool" where
  "enc_inv lib content e \<longleftrightarrow> objs_inv content e \<and> queue_inv e \<and> evict_inv e \<and>
     (\<forall>f \<in> set (eQueued e). frag_ok lib (eSamplesPerChk e) f) \<and> eLastReported e \<le> eDropped e"

definition live_points :: "('c \<Rightarrow> (int \<times> u64) list) \<Rightarrow> 'c StreamingFragmentEncoder \<Rightarrow> keyed_points" where
  "live_points content e = sum_list (map (\<lambda>(k, p). obj_points content (obj e p)) (eSeries e))"

definition shipped_points :: "('c, 'l) fragLib \<Rightarrow> Fragment list \<Rightarrow> keyed_points" where
  "shipped_points lib fs = sum_list (map (frag_points lib) fs)"

abbreviation reported :: "Fragment list \<Rightarrow> nat" where
  "reported fs \<equiv> sum_list (map fOOODropCount fs)"

text \<open>
  What every step of draining does: the invariant is kept, points only move from the series to the fragments or are dropped and
  counted, and what is newly reported is stamped on the fragments.
\<close>

definition moves :: "('c, 'l) fragLib \<Rightarrow> ('c \<Rightarrow> (int \<times> u64) list) \<Rightarrow> 'c StreamingFragmentEncoder \<Rightarrow> 'c StreamingFragmentEncoder \<Rightarrow> bool" where
  "moves lib content e e' \<longleftrightarrow>
     enc_inv lib content e' \<and>
     (\<exists>D. shipped_points lib (eQueued e') + live_points content e' + D = shipped_points lib (eQueued e) + live_points content e \<and>
          eDropped e' = eDropped e + size D) \<and>
     reported (eQueued e') + eLastReported e = reported (eQueued e) + eLastReported e' \<and>
     eSamplesPerChk e' = eSamplesPerChk e \<and> eReorderGrace e' = eReorderGrace e \<and> eMaxObserved e' = eMaxObserved e \<and>
     eIdleEvictMs e' = eIdleEvictMs e \<and> eClosed e' = eClosed e"

lemma moves_trans:
  assumes "moves lib content e e'" "moves lib content e' e''"
  shows "moves lib content e e''"
proof -
  obtain D D' where "shipped_points lib (eQueued e') + live_points content e' + D = shipped_points lib (eQueued e) + live_points content e"
    "eDropped e' = eDropped e + size D"
    "shipped_points lib (eQueued e'') + live_points content e'' + D' = shipped_points lib (eQueued e') + live_points content e'"
    "eDropped e'' = eDropped e' + size D'" using assms unfolding moves_def by blast
  moreover have "shipped_points lib (eQueued e'') + live_points content e'' + (D + D') =
      (shipped_points lib (eQueued e'') + live_points content e'' + D') + D" by (simp add: ac_simps)
  ultimately have "shipped_points lib (eQueued e'') + live_points content e'' + (D + D') = shipped_points lib (eQueued e) + live_points content e \<and>
      eDropped e'' = eDropped e + size (D + D')" by simp
  moreover have "reported (eQueued e'') + eLastReported e = reported (eQueued e) + eLastReported e''"
    using assms unfolding moves_def by linarith
  moreover have "eSamplesPerChk e'' = eSamplesPerChk e" "eReorderGrace e'' = eReorderGrace e" "eMaxObserved e'' = eMaxObserved e"
    "eIdleEvictMs e'' = eIdleEvictMs e" "eClosed e'' = eClosed e" "enc_inv lib content e''" using assms unfolding moves_def by simp_all
  ultimately show ?thesis unfolding moves_def by blast
qed

lemma moves_refl: "enc_inv lib content e \<Longrightarrow> moves lib content e e"
  by (auto simp: moves_def intro: exI [of _ "{#}"])

text \<open>Replacing one object.\<close>

lemma sum_objects_update:
  fixes f :: "'s \<Rightarrow> keyed_points"
  assumes "map_of ss k = Some p" "\<forall>(k', p') \<in> set ss. p' = p \<longrightarrow> k' = k" "distinct (map fst ss)" "p < length objs"
  shows "sum_list (map (\<lambda>(k, p'). f (objs[p := st] ! p')) ss) + f (objs ! p) = sum_list (map (\<lambda>(k, p). f (objs ! p)) ss) + f st"
  using assms
proof (induction ss)
  case (Cons x ss)
  obtain k' p' where x: "x = (k', p')" by fastforce
  show ?case
  proof (cases "k' = k")
    case True
    then have "p' = p" and "\<forall>y \<in> set ss. snd y \<noteq> p" using Cons.prems x by (auto simp: image_iff)
    then have "sum_list (map (\<lambda>(k, p'). f (objs[p := st] ! p')) ss) = sum_list (map (\<lambda>(k, p). f (objs ! p)) ss)"
      by (intro arg_cong [where f = sum_list]) auto
    then show ?thesis using x Cons.prems \<open>p' = p\<close> by (simp add: add.commute)
  next
    case False
    then have "p' \<noteq> p" using Cons.prems x by auto
    then show ?thesis using Cons False x by (simp add: add.assoc)
  qed
qed simp

lemma live_unique: "objs_inv content e \<Longrightarrow> live e p \<Longrightarrow> \<forall>(k', p') \<in> set (eSeries e). p' = p \<longrightarrow> k' = fsKey (obj e p)"
  by (auto simp: live_def objs_inv_def map_of_eq_Some_iff)

lemma live_points_store:
  assumes "objs_inv content e" "live e p"
  shows "live_points content (store p (e, st)) + obj_points content (obj e p) = live_points content e + obj_points content st"
  using sum_objects_update [of "eSeries e" "fsKey (obj e p)" p "eObjs e" "obj_points content" st] live_unique [OF assms] assms
  by (auto simp: live_def live_points_def store_def objs_inv_def)

lemma store_simps [simp]:
  "eObjs (store p (e, st)) = (eObjs e)[p := st]" "eSeries (store p (e, st)) = eSeries e" "eQueued (store p (e, st)) = eQueued e"
  "eDropped (store p (e, st)) = eDropped e" "eLastReported (store p (e, st)) = eLastReported e" "eDrainQueue (store p (e, st)) = eDrainQueue e"
  "eEvictQueue (store p (e, st)) = eEvictQueue e" "eSamplesPerChk (store p (e, st)) = eSamplesPerChk e"
  "eReorderGrace (store p (e, st)) = eReorderGrace e" "eMaxObserved (store p (e, st)) = eMaxObserved e"
  "eIdleEvictMs (store p (e, st)) = eIdleEvictMs e" "eClosed (store p (e, st)) = eClosed e" "eEvicted (store p (e, st)) = eEvicted e"
  by (simp_all add: store_def)

lemma objs_inv_store:
  assumes "objs_inv content e" "obj_ok content (eSamplesPerChk e) st" "fsKey st = fsKey (obj e p)"
  shows "objs_inv content (store p (e, st))"
  unfolding objs_inv_def
proof (intro conjI allI impI)
  fix k q assume q: "map_of (eSeries (store p (e, st))) k = Some q"
  then have old: "q < length (eObjs e)" "fsKey (obj e q) = k" "obj_ok content (eSamplesPerChk e) (obj e q)"
    using assms(1) by (auto simp: objs_inv_def)
  then show "q < length (eObjs (store p (e, st)))" "fsKey (obj (store p (e, st)) q) = k"
    "obj_ok content (eSamplesPerChk (store p (e, st))) (obj (store p (e, st)) q)"
    using assms(2,3) by (cases "p = q"; simp)+
qed (use assms(1) in \<open>auto simp: objs_inv_def\<close>)

lemma live_store: "fsKey st = fsKey (obj e p) \<Longrightarrow> live (store p (e, st)) q \<longleftrightarrow> live e q"
  by (simp add: live_def nth_update_same [of fsKey])

lemma evict_inv_same:
  assumes "evict_inv e" "eEvictQueue e' = eEvictQueue e" "\<And>q. live e' q \<longleftrightarrow> live e q"
    and "\<And>q. q < length (eObjs e) \<Longrightarrow> fsInEvictQueue (obj e' q) = fsInEvictQueue (obj e q)"
    and "\<And>q. q < length (eObjs e) \<Longrightarrow> fsLastActive (obj e q) \<le> fsLastActive (obj e' q)"
  shows "evict_inv e'"
proof -
  have b: "q < length (eObjs e)" if "live e q" for q using that by (simp add: live_def)
  have old: "is_heap feLastActive (eEvictQueue e)" "distinct (map feSt (eEvictQueue e))"
    "x \<in> set (eEvictQueue e) \<Longrightarrow> live e (feSt x) \<and> fsInEvictQueue (obj e (feSt x)) \<and> feLastActive x \<le> fsLastActive (obj e (feSt x))"
    "live e q \<Longrightarrow> fsInEvictQueue (obj e q) \<Longrightarrow> q \<in> feSt ` set (eEvictQueue e)" for x q
    using assms(1) unfolding evict_inv_def by blast+
  show ?thesis unfolding evict_inv_def assms(2,3)
  proof (intro conjI ballI allI impI old(1,2))
    fix x assume x: "x \<in> set (eEvictQueue e)"
    note o = old(3) [OF x]
    then show "live e (feSt x)" "fsInEvictQueue (obj e' (feSt x))" "feLastActive x \<le> fsLastActive (obj e' (feSt x))"
      using assms(4,5) [OF b, of "feSt x"] by simp_all
  next
    fix q assume "live e q \<and> fsInEvictQueue (obj e' q)"
    then show "q \<in> feSt ` set (eEvictQueue e)" using old(4) assms(4) b by blast
  qed
qed

lemma store_moves:
  assumes inv: "enc_inv lib content (store p (e, st))" and lv: "live (store p (e, st)) p"
    and same: "same_series e e'" "same_object st st'" and ok: "obj_ok content (eSamplesPerChk e) st'"
    and frags: "\<forall>f \<in> set (eQueued e'). frag_ok lib (eSamplesPerChk e) f" and le: "eLastReported e' \<le> eDropped e'"
    and evict: "evict_inv (store p (e', st'))"
    and pts: "shipped_points lib (eQueued e') + obj_points content st' + D = shipped_points lib (eQueued e) + obj_points content st"
    and drops: "eDropped e' = eDropped e + size D" "reported (eQueued e') + eLastReported e = reported (eQueued e) + eLastReported e'"
  shows "moves lib content (store p (e, st)) (store p (e', st'))"
proof -
  let ?E = "store p (e, st)" and ?E' = "store p (e', st')"
  have p: "p < length (eObjs e)" using lv by (simp add: live_def)
  have key: "fsKey st' = fsKey (obj ?E p)" using same(2) p by (simp add: same_object_def)
  have o: "objs_inv content ?E" using inv by (simp add: enc_inv_def)
  have "objs_inv content (store p (?E, st'))" using objs_inv_store [OF o _ key] ok by simp
  then have objs: "objs_inv content ?E'" using same(1) by (simp add: objs_inv_def same_series_def)
  have lives: "live ?E' q \<longleftrightarrow> live ?E q" for q using live_store [OF key, of q] same(1) by (simp add: same_series_def live_def)
  then have "queue_inv ?E'" using inv same(1) by (simp add: enc_inv_def queue_inv_def same_series_def)
  then have inv': "enc_inv lib content ?E'" using objs evict frags le same(1) by (simp add: enc_inv_def same_series_def)
  have "live_points content ?E' = live_points content (store p (?E, st'))" using same(1) by (simp add: live_points_def same_series_def)
  then have "live_points content ?E' + obj_points content st = live_points content ?E + obj_points content st'"
    using live_points_store [OF o lv, of st'] p by simp
  with pts have "(shipped_points lib (eQueued e') + obj_points content st' + D) + (live_points content ?E' + obj_points content st) =
      (shipped_points lib (eQueued e) + obj_points content st) + (live_points content ?E + obj_points content st')" by simp
  then have "(shipped_points lib (eQueued e') + live_points content ?E' + D) + (obj_points content st + obj_points content st') =
      (shipped_points lib (eQueued e) + live_points content ?E) + (obj_points content st + obj_points content st')" by (simp only: ac_simps)
  then have "shipped_points lib (eQueued e') + live_points content ?E' + D = shipped_points lib (eQueued e) + live_points content ?E" by simp
  then show ?thesis unfolding moves_def using inv' drops same(1) by (auto simp: same_series_def intro!: exI [of _ D])
qed

section \<open>The steps of draining\<close>

lemma decode_shipped:
  assumes "frag_laws lib content" "fEncoding f = bytes_of ''xor''" "fData f = xBytes lib c"
  shows "DecodeFragmentSamples lib f = Inr (content c)"
proof -
  obtain c' where "xBytes lib c \<noteq> []" "xFromData lib (xBytes lib c) = Some c'" "xIterate lib c' = Some (content c)"
    using assms(1) unfolding frag_laws_def by blast
  then show ?thesis using assms(2,3) by (simp add: DecodeFragmentSamples_def)
qed

lemma nth_update_agree: "g y = g z \<Longrightarrow> g (xs[p := y] ! q) = g (xs[p := z] ! q)"
  by (cases "p < length xs") (auto simp: nth_list_update list_update_beyond)

lemma live_same: "same_series e e' \<Longrightarrow> same_object st st' \<Longrightarrow> live (store p (e', st')) q \<longleftrightarrow> live (store p (e, st)) q"
  using nth_update_agree [of fsKey st' st "eObjs e" p q] by (simp add: live_def same_series_def same_object_def)

lemma evict_inv_push:
  assumes "evict_inv (store p (e, st))" "live (store p (e, st)) p" "\<not> fsInEvictQueue st"
    and "eEvictQueue e' = heap_push feLastActive \<lparr>feLastActive = fsLastActive st, feSt = p\<rparr> (eEvictQueue e)"
    and "same_series e e'" "same_object st st'" "fsInEvictQueue st'"
  shows "evict_inv (store p (e', st'))"
proof -
  let ?E = "store p (e, st)" and ?E' = "store p (e', st')" and ?x = "\<lparr>feLastActive = fsLastActive st, feSt = p\<rparr>"
  have p: "p < length (eObjs e)" using assms(2) by (simp add: live_def)
  have old: "is_heap feLastActive (eEvictQueue e)" "distinct (map feSt (eEvictQueue e))"
    "x \<in> set (eEvictQueue e) \<Longrightarrow> live ?E (feSt x) \<and> fsInEvictQueue (obj ?E (feSt x)) \<and> feLastActive x \<le> fsLastActive (obj ?E (feSt x))"
    "live ?E q \<Longrightarrow> fsInEvictQueue (obj ?E q) \<Longrightarrow> q \<in> feSt ` set (eEvictQueue e)" for x q
    using assms(1) unfolding evict_inv_def by auto
  have fresh: "p \<notin> feSt ` set (eEvictQueue e)" using old(3) assms(3) p by (metis imageE nth_list_update_eq store_simps(1))
  note lives = live_same [OF assms(5,6), of p]
  have objs: "obj ?E' q = (if q = p then st' else obj ?E q)" if "q < length (eObjs e)" for q
    using that assms(5) by (simp add: same_series_def)
  have set: "set (eEvictQueue e') = insert ?x (set (eEvictQueue e))" unfolding assms(4) by (rule go_heap.push_set)
  have "mset (map feSt (eEvictQueue e')) = add_mset p (mset (map feSt (eEvictQueue e)))" unfolding assms(4) by (simp add: mset_heap_push)
  then have "distinct (map feSt (eEvictQueue e'))"
    using fresh old(2) by (metis distinct.simps(2) list.set_map mset.simps(2) mset_eq_imp_distinct_iff)
  moreover have "is_heap feLastActive (eEvictQueue e')" unfolding assms(4) by (rule is_heap_push [OF old(1)])
  moreover have "live ?E' (feSt x) \<and> fsInEvictQueue (obj ?E' (feSt x)) \<and> feLastActive x \<le> fsLastActive (obj ?E' (feSt x))"
    if "x \<in> set (eEvictQueue e')" for x
  proof (cases "x = ?x")
    case True
    then show ?thesis using assms(2,6,7) lives objs [OF p] by (simp add: same_object_def)
  next
    case False
    then have x: "x \<in> set (eEvictQueue e)" using that set by blast
    then have "feSt x \<noteq> p" using fresh by auto
    moreover have "feSt x < length (eObjs e)" using old(3) [OF x] by (simp add: live_def)
    ultimately show ?thesis using old(3) [OF x] lives objs [of "feSt x"] by simp
  qed
  moreover have "q \<in> feSt ` set (eEvictQueue e')" if "live ?E' q" "fsInEvictQueue (obj ?E' q)" for q
  proof (cases "q = p")
    case False
    have "q < length (eObjs e)" using that(1) lives by (simp add: live_def)
    then have "fsInEvictQueue (obj ?E q)" using objs [of q] that(2) False by simp
    then show ?thesis using old(4) [of q] that(1) lives set by simp
  qed (simp add: set)
  ultimately show ?thesis unfolding evict_inv_def by simp
qed

lemma evict_inv_keep:
  assumes "evict_inv (store p (e, st))" "same_series e e'" "same_object st st'" "eEvictQueue e' = eEvictQueue e"
    "fsInEvictQueue st' = fsInEvictQueue st"
  shows "evict_inv (store p (e', st'))"
proof (rule evict_inv_same [OF assms(1) _ live_same [OF assms(2,3)]])
  fix q
  show "fsInEvictQueue (obj (store p (e', st')) q) = fsInEvictQueue (obj (store p (e, st)) q)"
    "fsLastActive (obj (store p (e, st)) q) \<le> fsLastActive (obj (store p (e', st')) q)"
    using assms(2,3,5) nth_update_agree [of fsInEvictQueue st' st "eObjs e" p q] nth_update_agree [of fsLastActive st' st "eObjs e" p q]
    by (simp_all add: same_series_def same_object_def)
qed (simp add: assms(4))

lemma live_object:
  assumes "enc_inv lib content (store p (e, st))" "live (store p (e, st)) p"
  shows "obj_ok content (eSamplesPerChk e) st"
proof -
  have p: "p < length (eObjs e)" using assms(2) by (simp add: live_def)
  moreover have "map_of (eSeries e) (fsKey st) = Some p" using assms(2) p by (simp add: live_def)
  ultimately show ?thesis using assms(1) unfolding enc_inv_def objs_inv_def by (metis nth_list_update_eq store_simps(1,2,8))
qed

lemma flush_moves:
  assumes laws: "frag_laws lib content" and inv: "enc_inv lib content (store p (e, st))" "live (store p (e, st)) p"
  shows "moves lib content (store p (e, st)) (store p (flushFragment lib w p (e, st)))"
proof (cases "fsOpenChunk st = None")
  case True
  then show ?thesis using moves_refl [OF inv(1)] by (simp add: flushFragment_def)
next
  case False
  then obtain c where c: "fsOpenChunk st = Some c" by blast
  note ok = live_object [OF inv]
  have pts: "open_points content st = content c" "content c \<noteq> []" "fsOpenCount st = int (length (content c))"
    "fsKey st = fragmentKey (fsMetricName st) (fsAttrs st)"
    using ok c by (auto simp: obj_ok_def open_points_def)
  obtain e' st' where f: "flushFragment lib w p (e, st) = (e', st')" by fastforce
  define frag where "frag = last (eQueued e')"
  have f': "eQueued e' = eQueued e @ [frag]" "eLastReported e' = eDropped e" "eDropped e' = eDropped e"
    "fMetricName frag = fsMetricName st" "fAttributes frag = fsAttrs st" "fMinTime frag = fsOpenMin st" "fMaxTime frag = fsOpenMax st"
    "fCount frag = fsOpenCount st" "fEncoding frag = bytes_of ''xor''" "fData frag = xBytes lib c"
    "fOOODropCount frag = eDropped e - eLastReported e" "fsOpenChunk st' = None" "fsOpenCount st' = 0" "fsPending st' = fsPending st"
    using f c pts(2,3) by (auto simp: flushFragment_def Let_def frag_def split: if_splits)
  note dec = decode_shipped [OF laws f'(9,10)]
  have same: "same_series e e'" "same_object st st'"
    using same_series_flush [of "(e, st)" lib w p] same_object_flush [of "(e, st)" lib w p] f by simp_all
  have "frag_ok lib (eSamplesPerChk e) frag" using dec ok c pts f'(6-8) by (simp add: frag_ok_def obj_ok_def)
  then have frags: "\<forall>f \<in> set (eQueued e'). frag_ok lib (eSamplesPerChk e) f" using inv(1) f'(1) by (simp add: enc_inv_def)
  have ok': "obj_ok content (eSamplesPerChk e) st'"
    using ok same(2) f'(12-14) inv(1) by (auto simp: obj_ok_def open_points_def same_object_def enc_inv_def objs_inv_def)
  have ev: "evict_inv (store p (e, st))" using inv(1) by (simp add: enc_inv_def)
  have evict: "evict_inv (store p (e', st'))"
  proof (cases "eIdleEvictMs e > 0 \<and> \<not> fsInEvictQueue st")
    case True
    then have "eEvictQueue e' = heap_push feLastActive \<lparr>feLastActive = fsLastActive st, feSt = p\<rparr> (eEvictQueue e)" "fsInEvictQueue st'"
      using f c pts(2,3) by (auto simp: flushFragment_def Let_def)
    then show ?thesis using evict_inv_push [OF ev inv(2)] True same by blast
  next
    case False
    then have "eEvictQueue e' = eEvictQueue e" "fsInEvictQueue st' = fsInEvictQueue st"
      using f c pts(2,3) by (auto simp: flushFragment_def Let_def)
    then show ?thesis using evict_inv_keep [OF ev same] by blast
  qed
  have sp: "shipped_points lib (eQueued e') + obj_points content st' + {#} = shipped_points lib (eQueued e) + obj_points content st"
    using dec f'(1,4,5,12,14) pts(1,4) same(2)
    by (simp add: shipped_points_def frag_points_def obj_points_def open_points_def same_object_def add.assoc)
  have "moves lib content (store p (e, st)) (store p (e', st'))"
    by (rule store_moves [OF inv same ok' frags _ evict sp]) (use f' inv(1) in \<open>simp_all add: enc_inv_def\<close>)
  then show ?thesis using f by simp
qed

lemma obj_points_pop:
  assumes "fsPending st \<noteq> []"
  shows "obj_points content st =
    add_mset (fsKey st, point (fsPending st ! 0)) (obj_points content (st\<lparr>fsPending := snd (heap_pop ppT (fsPending st))\<rparr>))"
proof -
  have "mset (fsPending st) = add_mset (fsPending st ! 0) (mset (snd (heap_pop ppT (fsPending st))))"
    using heap_pop_root(2) [OF assms, of ppT] by simp
  then show ?thesis by (simp add: obj_points_def open_points_def)
qed

lemma obj_ok_pop: "obj_ok content n st \<Longrightarrow> fsPending st \<noteq> [] \<Longrightarrow> obj_ok content n (st\<lparr>fsPending := snd (heap_pop ppT (fsPending st))\<rparr>)"
  by (simp add: obj_ok_def open_points_def is_heap_pop)

lemma drop_moves:
  assumes "enc_inv lib content (store p (e, st))" "live (store p (e, st)) p" "fsPending st \<noteq> []"
  shows "moves lib content (store p (e, st))
    (store p (e\<lparr>eDropped := eDropped e + 1\<rparr>, st\<lparr>fsPending := snd (heap_pop ppT (fsPending st))\<rparr>))"
proof -
  let ?e = "e\<lparr>eDropped := eDropped e + 1\<rparr>" and ?st = "st\<lparr>fsPending := snd (heap_pop ppT (fsPending st))\<rparr>"
  have same: "same_series e ?e" "same_object st ?st" by (simp_all add: same_series_def same_object_def)
  have "obj_ok content (eSamplesPerChk e) ?st" by (rule obj_ok_pop [OF live_object [OF assms(1,2)] assms(3)])
  moreover have "evict_inv (store p (?e, ?st))" using assms(1) by (intro evict_inv_keep [OF _ same]) (simp_all add: enc_inv_def)
  ultimately show ?thesis
    by (intro store_moves [OF assms(1,2) same, where D = "{#(fsKey st, point (fsPending st ! 0))#}"])
      (use assms(1) in \<open>simp_all add: enc_inv_def obj_points_pop [OF assms(3)]\<close>)
qed

lemma append_open:
  assumes xor: "xor_laws (flProm lib) content" and n: "n \<le> 65535" "eSamplesPerChk e = n" and ok: "obj_ok content n st" "fsOpenCount st < n"
    and new: "\<not> (fsHasLast st \<and> ppT x \<le> fsLastTs st)"
  obtains st2 where "obj_ok content n st2" "open_points content st2 = open_points content st @ [point x]" "fsPending st2 = fsPending st"
    "same_object st st2" "fsInEvictQueue st2 = fsInEvictQueue st"
    "appendFragment lib p x (e, st) =
       (if fsOpenCount st2 \<ge> n then flushFragment lib (eMaxObserved e - eReorderGrace e) p (e, st2) else (e, st2))"
proof -
  define st1 where "st1 = (if fsOpenChunk st = None
    then st\<lparr>fsOpenChunk := Some (xNew (flProm lib)), fsOpenMin := ppT x, fsOpenMax := ppT x, fsOpenCount := 0\<rparr> else st)"
  obtain c where c: "fsOpenChunk st1 = Some c" by (cases "fsOpenChunk st") (auto simp: st1_def)
  define st2 where "st2 = st1\<lparr>fsOpenChunk := Some (xAppend (flProm lib) c (ppT x) (ppV x)),
    fsOpenMax := ppT x, fsOpenCount := fsOpenCount st1 + 1, fsLastTs := ppT x, fsHasLast := True\<rparr>"
  have cnt: "content c = open_points content st" using c xor by (auto simp: st1_def open_points_def xor_laws_def split: if_splits)
  have count: "fsOpenCount st1 = int (length (content c))" "fsOpenCount st1 < n"
    using ok c cnt n by (auto simp: st1_def obj_ok_def open_points_def split: if_splits option.splits)
  then have ap: "open_points content st2 = open_points content st @ [point x]"
    using xor n cnt by (simp add: st2_def open_points_def xor_laws_def)
  have min: "fsOpenMin st2 = fst (hd (open_points content st2))"
    using ok(1) ap by (auto simp: st2_def st1_def obj_ok_def open_points_def hd_append split: option.splits)
  have lt: "fst y < ppT x" if "y \<in> set (open_points content st)" for y
    using that ok(1) new sorted_wrt_last [of fst "open_points content st" y]
    by (cases "fsOpenChunk st") (auto simp: obj_ok_def open_points_def)
  have rest: "fsPending st2 = fsPending st" "same_object st st2" "fsInEvictQueue st2 = fsInEvictQueue st"
    by (simp_all add: st2_def st1_def same_object_def)
  have "sorted_wrt (<) (map fst (open_points content st))" using ok(1) by (cases "fsOpenChunk st") (auto simp: obj_ok_def open_points_def)
  then have "sorted_wrt (<) (map fst (open_points content st2))" using ap lt by (simp add: sorted_wrt_append)
  moreover have "fsOpenCount st2 = int (length (open_points content st2))" "fsOpenMax st2 = ppT x" "fsHasLast st2" "fsLastTs st2 = ppT x"
    "is_heap ppT (fsPending st2)" "fsKey st2 = fragmentKey (fsMetricName st2) (fsAttrs st2)" "fsOpenCount st2 \<le> n"
    using count cnt ap rest ok(1) by (auto simp: st2_def obj_ok_def same_object_def)
  ultimately have ok2: "obj_ok content n st2" using ap min by (simp add: obj_ok_def)
  have "appendFragment lib p x (e, st) =
      (if fsOpenCount st2 \<ge> n then flushFragment lib (eMaxObserved e - eReorderGrace e) p (e, st2) else (e, st2))"
    using c n(2) by (simp add: appendFragment_def Let_def st1_def [symmetric] st2_def)
  then show ?thesis using that ok2 ap rest by blast
qed

lemma flush_empties: "obj_ok content n st \<Longrightarrow> fsOpenCount (snd (flushFragment lib w p (e, st))) = 0 \<and> fsOpenChunk (snd (flushFragment lib w p (e, st))) = None"
  by (auto simp: flushFragment_def Let_def obj_ok_def open_points_def split: option.splits)

lemma append_moves:
  assumes laws: "frag_laws lib content" and inv: "enc_inv lib content (store p (e, st))" "live (store p (e, st)) p"
    and pend: "fsPending st \<noteq> []" "\<not> (fsHasLast st \<and> ppT (fsPending st ! 0) \<le> fsLastTs st)" and calm: "fsOpenCount st < eSamplesPerChk e"
    and app: "appendFragment lib p (fsPending st ! 0) (e, st\<lparr>fsPending := snd (heap_pop ppT (fsPending st))\<rparr>) = (e', st')"
  shows "moves lib content (store p (e, st)) (store p (e', st'))" "fsOpenCount st' < eSamplesPerChk e"
proof -
  let ?x = "fsPending st ! 0" and ?st = "st\<lparr>fsPending := snd (heap_pop ppT (fsPending st))\<rparr>" and ?n = "eSamplesPerChk e"
  have n: "1 \<le> ?n" "?n \<le> 65535" using inv(1) by (simp_all add: enc_inv_def objs_inv_def)
  have xor: "xor_laws (flProm lib) content" using laws by (simp add: frag_laws_def)
  have ok: "obj_ok content ?n ?st" by (rule obj_ok_pop [OF live_object [OF inv] pend(1)])
  obtain st2 where st2: "obj_ok content ?n st2" "open_points content st2 = open_points content ?st @ [point ?x]" "fsPending st2 = fsPending ?st"
    "same_object ?st st2" "fsInEvictQueue st2 = fsInEvictQueue ?st"
    "(e', st') = (if fsOpenCount st2 \<ge> ?n then flushFragment lib (eMaxObserved e - eReorderGrace e) p (e, st2) else (e, st2))"
    using append_open [OF xor n(2) refl ok, of ?x p] calm pend(2) unfolding app by auto
  have same: "same_object st st2" using st2(4) by (simp add: same_object_def)
  have ev: "evict_inv (store p (e, st2))"
    by (rule evict_inv_keep [of p e st, OF _ _ same refl]) (use inv(1) st2(5) in \<open>simp_all add: enc_inv_def same_series_def\<close>)
  have "open_points content ?st = open_points content st" by (simp add: open_points_def)
  then have sp: "shipped_points lib (eQueued e) + obj_points content st2 + {#} = shipped_points lib (eQueued e) + obj_points content st"
    unfolding obj_points_pop [OF pend(1)] using st2(2,3) same by (simp add: obj_points_def same_object_def)
  have m2: "moves lib content (store p (e, st)) (store p (e, st2))"
    by (rule store_moves [OF inv _ same st2(1) _ _ ev sp]) (use inv(1) in \<open>simp_all add: enc_inv_def same_series_def\<close>)
  then have inv2: "enc_inv lib content (store p (e, st2))" by (simp add: moves_def)
  have live2: "live (store p (e, st2)) p" using live_same [OF _ same, of e e p p] inv(2) by (simp add: same_series_def)
  have "moves lib content (store p (e, st)) (store p (e', st')) \<and> fsOpenCount st' < ?n"
  proof (cases "fsOpenCount st2 \<ge> ?n")
    case True
    with st2(6) have r: "(e', st') = flushFragment lib (eMaxObserved e - eReorderGrace e) p (e, st2)" by simp
    have "moves lib content (store p (e, st)) (store p (e', st'))"
      using moves_trans [OF m2 flush_moves [OF laws inv2 live2, of "eMaxObserved e - eReorderGrace e"]] r [symmetric] by simp
    moreover have "fsOpenCount st' = 0" using flush_empties [OF st2(1), of lib "eMaxObserved e - eReorderGrace e" p e] r [symmetric] by simp
    ultimately show ?thesis using n(1) by simp
  qed (use st2(6) m2 in simp_all)
  then show "moves lib content (store p (e, st)) (store p (e', st'))" "fsOpenCount st' < ?n" by blast+
qed

lemma drain_moves:
  assumes laws: "frag_laws lib content"
  shows "enc_inv lib content (store p es) \<Longrightarrow> live (store p es) p \<Longrightarrow> fsOpenCount (snd es) < eSamplesPerChk (fst es) \<Longrightarrow>
    moves lib content (store p es) (store p (drainSeriesLocked lib w p es)) \<and>
    fsOpenCount (snd (drainSeriesLocked lib w p es)) < eSamplesPerChk (fst es)"
proof (induction rule: drainSeries_induct [where es = es and lib = lib and w = w and p = p])
  case (stop e st)
  then show ?case using moves_refl by auto
next
  case (drop e st r)
  let ?e = "e\<lparr>eDropped := eDropped e + 1\<rparr>" and ?st = "st\<lparr>fsPending := snd (heap_pop ppT (fsPending st))\<rparr>"
  have m: "moves lib content (store p (e, st)) (store p (?e, ?st))" by (rule drop_moves [OF drop(6,7,1)])
  moreover have "live (store p (?e, ?st)) p" using live_same [of e ?e st ?st p p] drop(7) by (simp add: same_series_def same_object_def)
  moreover have "enc_inv lib content (store p (?e, ?st))" using m unfolding moves_def by blast
  ultimately show ?case using drop(5,8) moves_trans [OF m] by simp
next
  case (add e st r)
  let ?st = "st\<lparr>fsPending := snd (heap_pop ppT (fsPending st))\<rparr>"
  obtain e' st' where a: "appendFragment lib p (fsPending st ! 0) (e, ?st) = (e', st')" by fastforce
  have calm: "fsOpenCount st < eSamplesPerChk e" using add(7) by simp
  note m = append_moves [OF laws add(5,6,1,3) calm a]
  have same: "same_series e e'" "same_object st st'"
    using same_series_append [of "(e, ?st)" lib p "fsPending st ! 0"] same_object_append [of "(e, ?st)" lib p "fsPending st ! 0"] a
    by (simp_all add: same_object_def)
  then have "live (store p (e', st')) p" "eSamplesPerChk e' = eSamplesPerChk e"
    using live_same [OF same, of p p] add(6) by (simp_all add: same_series_def)
  moreover have "enc_inv lib content (store p (e', st'))" using m(1) by (simp add: moves_def)
  ultimately show ?case using add(4) [unfolded a] m moves_trans [OF m(1)] by simp
qed

section \<open>The loops\<close>

definition calm :: "'c StreamingFragmentEncoder \<Rightarrow> bool" where
  "calm e \<longleftrightarrow> (\<forall>p. live e p \<longrightarrow> fsOpenCount (obj e p) < eSamplesPerChk e)"

lemma store_own [simp]: "store p (e, obj e p) = e"
  by (simp add: store_def)

lemma calm_store:
  assumes "calm e" "same_series e e'" "same_object (obj e p) st'" "fsOpenCount st' < eSamplesPerChk e"
  shows "calm (store p (e', st'))"
  unfolding calm_def
proof (intro allI impI)
  fix q assume q: "live (store p (e', st')) q"
  then have "live e q" using live_same [OF assms(2,3), of p q] by simp
  then show "fsOpenCount (obj (store p (e', st')) q) < eSamplesPerChk (store p (e', st'))"
    using assms by (cases "q = p") (auto simp: calm_def same_series_def live_def)
qed

text \<open>The drain queue can be replaced by any heap of live series.\<close>

lemma moves_queue:
  assumes "enc_inv lib content e" "is_heap fdT q" "\<forall>x \<in> set q. live e (fdSt x)"
  shows "moves lib content e (e\<lparr>eDrainQueue := q\<rparr>)"
proof -
  have "live (e\<lparr>eDrainQueue := q\<rparr>) p \<longleftrightarrow> live e p" for p by (simp add: live_def)
  then have "enc_inv lib content (e\<lparr>eDrainQueue := q\<rparr>)"
    using assms by (simp add: enc_inv_def objs_inv_def queue_inv_def evict_inv_def)
  then show ?thesis by (auto simp: moves_def live_points_def intro!: exI [of _ "{#}"])
qed

lemma calm_queue [simp]: "calm (e\<lparr>eDrainQueue := q\<rparr>) = calm e"
  by (simp add: calm_def live_def)

text \<open>Visiting one series: drain it, and on the flush path also ship its open chunk.\<close>

lemma visit_moves:
  assumes laws: "frag_laws lib content" and inv: "enc_inv lib content e" "calm e" "live e p"
  shows "moves lib content e (store p (drainSeriesLocked lib w p (e, obj e p)))" "calm (store p (drainSeriesLocked lib w p (e, obj e p)))"
    "live (store p (drainSeriesLocked lib w p (e, obj e p))) q \<longleftrightarrow> live e q"
proof -
  obtain e' st' where d: "drainSeriesLocked lib w p (e, obj e p) = (e', st')" by fastforce
  have m: "moves lib content e (store p (e', st'))" "fsOpenCount st' < eSamplesPerChk e"
    using drain_moves [OF laws, of p "(e, obj e p)" w] inv d by (auto simp: calm_def)
  have same: "same_series e e'" "same_object (obj e p) st'"
    using same_series_drain [of "(e, obj e p)" lib w p] same_object_drain [of "(e, obj e p)" lib w p] d by simp_all
  show "moves lib content e (store p (drainSeriesLocked lib w p (e, obj e p)))" "calm (store p (drainSeriesLocked lib w p (e, obj e p)))"
    "live (store p (drainSeriesLocked lib w p (e, obj e p))) q \<longleftrightarrow> live e q"
    using m calm_store [OF inv(2) same m(2)] live_same [OF same, of p q] d by simp_all
qed

lemma turn_moves:
  assumes laws: "frag_laws lib content" and inv: "enc_inv lib content e" "calm e" "eDrainQueue e \<noteq> []"
  shows "moves lib content e (fragmentDrainTurn lib w e) \<and> calm (fragmentDrainTurn lib w e)"
proof -
  let ?q = "snd (heap_pop fdT (eDrainQueue e))" and ?p = "fdSt (eDrainQueue e ! 0)"
  let ?e1 = "e\<lparr>eDrainQueue := ?q\<rparr>"
  have q: "is_heap fdT ?q" "\<forall>x \<in> set ?q. live e (fdSt x)" "live e ?p"
    using inv is_heap_pop [of fdT "eDrainQueue e"] go_heap.pop_set [OF inv(3), of fdT] by (auto simp: enc_inv_def queue_inv_def)
  have m1: "moves lib content e ?e1" by (rule moves_queue [OF inv(1) q(1,2)])
  then have inv1: "enc_inv lib content ?e1" by (simp add: moves_def)
  have live1: "live ?e1 p \<longleftrightarrow> live e p" for p by (simp add: live_def)
  obtain e2 st where d: "drainSeriesLocked lib w ?p (?e1, obj ?e1 ?p) = (e2, st)" by fastforce
  let ?e3 = "store ?p (e2, st)"
  note v = visit_moves [OF laws inv1, of ?p w, unfolded d]
  have m3: "moves lib content ?e1 ?e3" "calm ?e3" and live3: "\<And>p. live ?e3 p \<longleftrightarrow> live e p"
    using v inv(2) q(3) live1 by simp_all
  have inv3: "enc_inv lib content ?e3" using m3(1) by (simp add: moves_def)
  have "fragmentDrainTurn lib w e =
      (if fsPending st \<noteq> [] then ?e3\<lparr>eDrainQueue := heap_push fdT \<lparr>fdT = ppT (fsPending st ! 0), fdSt = ?p\<rparr> (eDrainQueue ?e3)\<rparr> else ?e3)"
    using d by (simp add: fragmentDrainTurn_def Let_def heap_pop_root(1) [OF inv(3)])
  moreover have "moves lib content ?e3 (?e3\<lparr>eDrainQueue := heap_push fdT \<lparr>fdT = ppT (fsPending st ! 0), fdSt = ?p\<rparr> (eDrainQueue ?e3)\<rparr>)"
    using inv3 q(3) live3 by (intro moves_queue [OF inv3]) (auto simp: enc_inv_def queue_inv_def is_heap_push go_heap.push_set)
  ultimately show ?thesis using moves_trans [OF m1 m3(1)] m3(2) moves_trans by auto
qed

lemma drainQueueLoop_moves:
  "frag_laws lib content \<Longrightarrow> enc_inv lib content e \<Longrightarrow> calm e \<Longrightarrow>
   moves lib content e (drainQueueLoop lib w e) \<and> calm (drainQueueLoop lib w e)"
proof (induction lib w e rule: drainQueueLoop.induct)
  case (1 lib w e)
  show ?case
  proof (cases "eDrainQueue e \<noteq> [] \<and> fdT (eDrainQueue e ! 0) \<le> w")
    case True
    then have l: "drainQueueLoop lib w e = drainQueueLoop lib w (fragmentDrainTurn lib w e)" by (subst drainQueueLoop.simps) simp
    have t: "moves lib content e (fragmentDrainTurn lib w e)" "calm (fragmentDrainTurn lib w e)" using turn_moves "1.prems" True by blast+
    then have "enc_inv lib content (fragmentDrainTurn lib w e)" by (simp add: moves_def)
    then show ?thesis using "1.IH" [OF True "1.prems"(1)] t moves_trans [OF t(1)] l by simp
  next
    case False
    then have "drainQueueLoop lib w e = e" by (subst drainQueueLoop.simps) auto
    then show ?thesis using moves_refl "1.prems" by simp
  qed
qed

lemma force_moves:
  assumes laws: "frag_laws lib content"
  shows "enc_inv lib content e \<Longrightarrow> calm e \<Longrightarrow>
    moves lib content e (forceSeries lib w ks e) \<and> calm (forceSeries lib w ks e) \<and> eSeries (forceSeries lib w ks e) = eSeries e"
proof (induction ks arbitrary: e)
  case (Cons k ks)
  show ?case
  proof (cases "map_of (eSeries e) k")
    case (Some p)
    then have lv: "live e p" using Cons.prems(1) by (auto simp: enc_inv_def objs_inv_def live_def)
    obtain e1 st1 where d: "drainSeriesLocked lib w p (e, obj e p) = (e1, st1)" by fastforce
    note v = visit_moves [OF laws Cons.prems lv, of w, unfolded d]
    have inv1: "enc_inv lib content (store p (e1, st1))" "live (store p (e1, st1)) p" using v lv by (auto simp: moves_def)
    let ?e2 = "store p (flushFragment lib w p (e1, st1))"
    have m2: "moves lib content e ?e2" by (rule moves_trans [OF v(1) flush_moves [OF laws inv1]])
    obtain e2 st2 where f: "flushFragment lib w p (e1, st1) = (e2, st2)" by fastforce
    have s1: "same_series e e1" "same_object (obj e p) st1"
      using same_series_drain [of "(e, obj e p)" lib w p] same_object_drain [of "(e, obj e p)" lib w p] d by simp_all
    have s2: "same_series e1 e2" "same_object st1 st2"
      using same_series_flush [of "(e1, st1)" lib w p] same_object_flush [of "(e1, st1)" lib w p] f by simp_all
    have z: "fsOpenCount st2 = 0" using flush_empties [OF live_object [OF inv1], of lib w p e1] f by simp
    have "1 \<le> eSamplesPerChk e" using Cons.prems(1) by (simp add: enc_inv_def objs_inv_def)
    then have "calm ?e2" unfolding f
      using calm_store [OF Cons.prems(2) same_series_trans [OF s1(1) s2(1)], of p st2] z s1(2) s2(2) by (simp add: same_object_def)
    moreover have "eSeries ?e2 = eSeries e" using s1(1) s2(1) f by (simp add: same_series_def)
    moreover have "enc_inv lib content ?e2" using m2 by (simp add: moves_def)
    ultimately show ?thesis using Cons.IH [of ?e2] moves_trans [OF m2] Some d by simp
  qed (use Cons in simp)
qed (simp add: moves_refl)

lemma residual_moves:
  assumes "enc_inv lib content e"
  shows "moves lib content e (reportResidual e)"
proof (cases "eDropped e > eLastReported e \<and> eQueued e \<noteq> []")
  case True
  define f where "f = last (eQueued e)"
  define g where "g = f\<lparr>fOOODropCount := fOOODropCount f + (eDropped e - eLastReported e)\<rparr>"
  have q: "eQueued e = butlast (eQueued e) @ [f]" using True by (simp add: f_def)
  have r: "reportResidual e = e\<lparr>eQueued := butlast (eQueued e) @ [g], eLastReported := eDropped e\<rparr>" using True by (simp add: reportResidual_def f_def g_def)
  have dec: "DecodeFragmentSamples lib g = DecodeFragmentSamples lib f" by (simp add: g_def DecodeFragmentSamples_def)
  have lives: "live (reportResidual e) p \<longleftrightarrow> live e p" for p by (simp add: r live_def)
  have "f \<in> set (eQueued e)" using True by (simp add: f_def)
  moreover have "fCount g = fCount f" "fMinTime g = fMinTime f" "fMaxTime g = fMaxTime f" by (simp_all add: g_def)
  ultimately have "frag_ok lib (eSamplesPerChk e) g" using assms dec by (fastforce simp: enc_inv_def frag_ok_def split: sum.splits)
  then have inv: "enc_inv lib content (reportResidual e)"
    using assms lives in_set_butlastD [of _ "eQueued e"]
    by (auto simp: r enc_inv_def objs_inv_def queue_inv_def evict_inv_def)
  have "frag_points lib g = frag_points lib f" unfolding frag_points_def dec by (simp add: g_def split: sum.split)
  moreover have "shipped_points lib (eQueued e) = shipped_points lib (butlast (eQueued e)) + frag_points lib f"
    by (subst q) (simp add: shipped_points_def)
  ultimately have "shipped_points lib (eQueued (reportResidual e)) = shipped_points lib (eQueued e)" by (simp add: r shipped_points_def)
  moreover have "reported (eQueued e) = reported (butlast (eQueued e)) + fOOODropCount f" by (subst q) simp
  ultimately show ?thesis using inv True by (auto simp: moves_def live_points_def r g_def intro!: exI [of _ "{#}"])
next
  case False
  then have "reportResidual e = e" by (auto simp: reportResidual_def)
  then show ?thesis using moves_refl [OF assms] by simp
qed

section \<open>Eviction\<close>

lemma live_key_unique: "live e p \<Longrightarrow> live e q \<Longrightarrow> fsKey (obj e p) = fsKey (obj e q) \<Longrightarrow> p = q"
  by (auto simp: live_def)

lemma evict_root:
  assumes "evict_inv e" "eEvictQueue e \<noteq> []"
  shows "live e (feSt (eEvictQueue e ! 0))" "feLastActive (eEvictQueue e ! 0) \<le> fsLastActive (obj e (feSt (eEvictQueue e ! 0)))"
    "is_heap feLastActive (snd (heap_pop feLastActive (eEvictQueue e)))"
    "distinct (map feSt (snd (heap_pop feLastActive (eEvictQueue e))))"
    "feSt (eEvictQueue e ! 0) \<notin> feSt ` set (snd (heap_pop feLastActive (eEvictQueue e)))"
    "set (eEvictQueue e) = insert (eEvictQueue e ! 0) (set (snd (heap_pop feLastActive (eEvictQueue e))))"
proof -
  let ?q = "snd (heap_pop feLastActive (eEvictQueue e))"
  have "eEvictQueue e ! 0 \<in> set (eEvictQueue e)" using assms(2) by simp
  then show "live e (feSt (eEvictQueue e ! 0))" "feLastActive (eEvictQueue e ! 0) \<le> fsLastActive (obj e (feSt (eEvictQueue e ! 0)))"
    using assms(1) unfolding evict_inv_def by blast+
  show "is_heap feLastActive ?q" using assms is_heap_pop by (auto simp: evict_inv_def)
  have "mset (map feSt (eEvictQueue e)) = add_mset (feSt (eEvictQueue e ! 0)) (mset (map feSt ?q))"
    using arg_cong [OF heap_pop_root(2) [OF assms(2), of feLastActive], of "image_mset feSt"] by simp
  then have "distinct (feSt (eEvictQueue e ! 0) # map feSt ?q)"
    using assms(1) mset_eq_imp_distinct_iff [of "feSt (eEvictQueue e ! 0) # map feSt ?q" "map feSt (eEvictQueue e)"] by (simp add: evict_inv_def)
  then show "distinct (map feSt ?q)" "feSt (eEvictQueue e ! 0) \<notin> feSt ` set ?q" by auto
  show "set (eEvictQueue e) = insert (eEvictQueue e ! 0) (set ?q)" using go_heap.pop_set [OF assms(2), of feLastActive] by simp
qed

text \<open>Taking the root off the queue and clearing its flag.\<close>

lemma evict_inv_leave:
  assumes "evict_inv e" "eEvictQueue e \<noteq> []" and p: "p = feSt (eEvictQueue e ! 0)"
    and e': "eEvictQueue e' = snd (heap_pop feLastActive (eEvictQueue e))" "eObjs e' = (eObjs e)[p := (obj e p)\<lparr>fsInEvictQueue := False\<rparr>]"
    and lives: "\<And>q. q \<noteq> p \<Longrightarrow> live e' q \<longleftrightarrow> live e q"
  shows "evict_inv e'"
proof -
  note r = evict_root [OF assms(1,2), folded p]
  have pl: "p < length (eObjs e)" using r(1) by (simp add: live_def)
  have objs: "obj e' q = (if q = p then (obj e p)\<lparr>fsInEvictQueue := False\<rparr> else obj e q)" for q using pl e'(2) by simp
  have old: "x \<in> set (eEvictQueue e) \<Longrightarrow> live e (feSt x) \<and> fsInEvictQueue (obj e (feSt x)) \<and> feLastActive x \<le> fsLastActive (obj e (feSt x))"
    "live e q \<Longrightarrow> fsInEvictQueue (obj e q) \<Longrightarrow> q \<in> feSt ` set (eEvictQueue e)" for x q
    using assms(1) unfolding evict_inv_def by blast+
  show ?thesis unfolding evict_inv_def e'(1)
  proof (intro conjI ballI allI impI r(3,4))
    fix x assume x: "x \<in> set (snd (heap_pop feLastActive (eEvictQueue e)))"
    then have "feSt x \<noteq> p" "x \<in> set (eEvictQueue e)" using r(5,6) by auto
    then show "live e' (feSt x)" "fsInEvictQueue (obj e' (feSt x))" "feLastActive x \<le> fsLastActive (obj e' (feSt x))"
      using old(1) lives objs by simp_all
  next
    fix q assume q: "live e' q \<and> fsInEvictQueue (obj e' q)"
    then have "q \<noteq> p" "fsInEvictQueue (obj e q)" using objs [of q] by (auto split: if_splits)
    then show "q \<in> feSt ` set (snd (heap_pop feLastActive (eEvictQueue e)))" using old(2) [of q] lives q r(6) p by auto
  qed
qed

lemma leave_moves:
  assumes inv: "enc_inv lib content e" "eEvictQueue e \<noteq> []" and p: "p = feSt (eEvictQueue e ! 0)"
  defines "e' \<equiv> store p (e\<lparr>eEvictQueue := snd (heap_pop feLastActive (eEvictQueue e))\<rparr>, (obj e p)\<lparr>fsInEvictQueue := False\<rparr>)"
  shows "moves lib content e e'" and "live e' q \<longleftrightarrow> live e q"
proof -
  have ev: "evict_inv e" and o: "objs_inv content e" using inv(1) by (simp_all add: enc_inv_def)
  have lp: "live e p" using evict_root(1) [OF ev inv(2)] p by simp
  let ?st = "(obj e p)\<lparr>fsInEvictQueue := False\<rparr>"
  show lives: "live e' q \<longleftrightarrow> live e q" for q using live_store [of ?st e p q] by (simp add: e'_def live_def)
  have "evict_inv e'" by (rule evict_inv_leave [OF ev inv(2) p]) (simp_all add: e'_def lives [unfolded e'_def])
  moreover have "obj_ok content (eSamplesPerChk e) (obj e p)" using o lp by (auto simp: objs_inv_def live_def)
  then have "obj_ok content (eSamplesPerChk e) ?st" by (simp add: obj_ok_def open_points_def)
  then have "objs_inv content (store p (e, ?st))" using objs_inv_store [OF o, of ?st p] by simp
  then have "objs_inv content e'" by (simp add: e'_def objs_inv_def)
  moreover have "queue_inv e'" using inv(1) lives by (simp add: enc_inv_def queue_inv_def) (simp add: e'_def)
  ultimately have "enc_inv lib content e'" using inv(1) by (simp add: enc_inv_def) (simp add: e'_def)
  moreover have "live_points content e' = live_points content (store p (e, ?st))" by (simp add: e'_def live_points_def)
  then have "live_points content e' + obj_points content (obj e p) = live_points content e + obj_points content (obj e p)"
    using live_points_store [OF o lp, of ?st] by (simp add: obj_points_def open_points_def)
  ultimately show "moves lib content e e'" by (auto simp: moves_def e'_def intro!: exI [of _ "{#}"])
qed

lemma requeue_moves:
  assumes inv: "enc_inv lib content e" "eEvictQueue e \<noteq> []" and p: "p = feSt (eEvictQueue e ! 0)"
  defines "e' \<equiv> e\<lparr>eEvictQueue := heap_push feLastActive \<lparr>feLastActive = fsLastActive (obj e p), feSt = p\<rparr> (snd (heap_pop feLastActive (eEvictQueue e)))\<rparr>"
  shows "moves lib content e e'" and "live e' q \<longleftrightarrow> live e q"
proof -
  have ev: "evict_inv e" using inv(1) by (simp add: enc_inv_def)
  note r = evict_root [OF ev inv(2), folded p]
  let ?q = "snd (heap_pop feLastActive (eEvictQueue e))"
  show lives: "live e' q \<longleftrightarrow> live e q" for q by (simp add: e'_def live_def)
  have old: "x \<in> set (eEvictQueue e) \<Longrightarrow> live e (feSt x) \<and> fsInEvictQueue (obj e (feSt x)) \<and> feLastActive x \<le> fsLastActive (obj e (feSt x))"
    "live e q \<Longrightarrow> fsInEvictQueue (obj e q) \<Longrightarrow> q \<in> feSt ` set (eEvictQueue e)" for x q
    using ev unfolding evict_inv_def by blast+
  have set: "set (eEvictQueue e') = insert \<lparr>feLastActive = fsLastActive (obj e p), feSt = p\<rparr> (set ?q)" by (simp add: e'_def go_heap.push_set)
  have flag: "fsInEvictQueue (obj e p)" using old(1) [of "eEvictQueue e ! 0"] inv(2) p by simp
  have "mset (map feSt (eEvictQueue e')) = mset (p # map feSt ?q)" by (simp add: e'_def mset_heap_push)
  then have "distinct (map feSt (eEvictQueue e'))" using r(4,5) mset_eq_imp_distinct_iff [of "map feSt (eEvictQueue e')" "p # map feSt ?q"] by auto
  moreover have "is_heap feLastActive (eEvictQueue e')" using is_heap_push [OF r(3)] by (simp add: e'_def)
  moreover have "live e (feSt x) \<and> fsInEvictQueue (obj e (feSt x)) \<and> feLastActive x \<le> fsLastActive (obj e (feSt x))"
    if "x \<in> set (eEvictQueue e')" for x using that set r(1,6) flag old(1) by auto
  moreover have "q \<in> feSt ` set (eEvictQueue e')" if "live e q" "fsInEvictQueue (obj e q)" for q
    using old(2) [OF that] set r(6) p by auto
  ultimately have "evict_inv e'" unfolding evict_inv_def lives by (simp add: e'_def)
  then have "enc_inv lib content e'" using inv(1) lives by (simp add: enc_inv_def objs_inv_def queue_inv_def) (simp add: e'_def)
  then show "moves lib content e e'" by (auto simp: moves_def e'_def live_points_def intro!: exI [of _ "{#}"])
qed

text \<open>Removing a series that holds nothing.\<close>

lemma delete_moves:
  assumes inv: "enc_inv lib content e" "live e p" and empty: "obj_points content (obj e p) = {#}" and off: "\<not> fsInEvictQueue (obj e p)" "eDrainQueue e = []"
  shows "moves lib content e (e\<lparr>eSeries := AList.delete (fsKey (obj e p)) (eSeries e), eEvicted := n\<rparr>)"
proof -
  let ?e = "e\<lparr>eSeries := AList.delete (fsKey (obj e p)) (eSeries e), eEvicted := n\<rparr>"
  have o: "objs_inv content e" and ev: "evict_inv e" using inv(1) by (simp_all add: enc_inv_def)
  have kp: "map_of (eSeries e) (fsKey (obj e p)) = Some p" using inv(2) by (simp add: live_def)
  have lives: "live ?e q \<longleftrightarrow> live e q \<and> q \<noteq> p" for q
    using kp by (cases "fsKey (obj e q) = fsKey (obj e p)") (auto simp: live_def delete_conv)
  have "objs_inv content ?e" using o by (auto simp: objs_inv_def delete_conv distinct_delete split: if_splits)
  moreover have "queue_inv ?e" using off(2) by (simp add: queue_inv_def heap_upto_def)
  moreover have "evict_inv ?e" using ev off(1) unfolding evict_inv_def lives by auto
  ultimately have "enc_inv lib content ?e" using inv(1) by (simp add: enc_inv_def)
  moreover have "live_points content ?e = live_points content e"
  proof -
    have d: "distinct (map fst (eSeries e))" "map_of (eSeries e) (fsKey (obj e p)) = Some p" using o inv(2) by (auto simp: objs_inv_def live_def)
    then have "sum_list (map (\<lambda>(k, p). obj_points content (obj e p)) (AList.delete (fsKey (obj e p)) (eSeries e))) =
        sum_list (map (\<lambda>(k, p). obj_points content (obj e p)) (eSeries e))"
      unfolding AList.delete_eq
      by (intro sum_list_map_filter) (use empty d in \<open>auto simp: map_of_eq_Some_iff dest: eq_key_imp_eq_value\<close>)
    then show ?thesis by (simp add: live_points_def)
  qed
  ultimately show ?thesis by (auto simp: moves_def intro!: exI [of _ "{#}"])
qed

lemma sweepTurn_cases:
  assumes "eEvictQueue e \<noteq> []" "live e p" and p: "p = feSt (eEvictQueue e ! 0)"
  defines "out \<equiv> store p (e\<lparr>eEvictQueue := snd (heap_pop feLastActive (eEvictQueue e))\<rparr>, (obj e p)\<lparr>fsInEvictQueue := False\<rparr>)"
  obtains (requeue) "sweepTurn e = e\<lparr>eEvictQueue := heap_push feLastActive \<lparr>feLastActive = fsLastActive (obj e p), feSt = p\<rparr>
      (snd (heap_pop feLastActive (eEvictQueue e)))\<rparr>" "feLastActive (eEvictQueue e ! 0) < fsLastActive (obj e p)"
  | (keep) "sweepTurn e = out"
      "fsPending (obj e p) \<noteq> [] \<or> fsOpenChunk (obj e p) \<noteq> None \<or> fsOpenCount (obj e p) > 0 \<or> eMaxObserved e - fsLastActive (obj e p) \<le> eIdleEvictMs e"
  | (evict) "sweepTurn e = out\<lparr>eSeries := AList.delete (fsKey (obj e p)) (eSeries e), eEvicted := eEvicted e + 1\<rparr>"
      "fsPending (obj e p) = []" "fsOpenChunk (obj e p) = None" "eMaxObserved e - fsLastActive (obj e p) > eIdleEvictMs e"
proof -
  let ?again = "e\<lparr>eEvictQueue := heap_push feLastActive \<lparr>feLastActive = fsLastActive (obj e p), feSt = p\<rparr>
      (snd (heap_pop feLastActive (eEvictQueue e)))\<rparr>"
  let ?gone = "out\<lparr>eSeries := AList.delete (fsKey (obj e p)) (eSeries e), eEvicted := eEvicted e + 1\<rparr>"
  have "map_of (eSeries e) (fsKey (obj e p)) = Some p" using assms(2) by (simp add: live_def)
  then have eq: "sweepTurn e = (if fsLastActive (obj e p) > feLastActive (eEvictQueue e ! 0) then ?again
      else if fsPending (obj e p) \<noteq> [] \<or> fsOpenChunk (obj e p) \<noteq> None \<or> fsOpenCount (obj e p) > 0 then out
      else if eMaxObserved e - fsLastActive (obj e p) \<le> eIdleEvictMs e then out else ?gone)"
    using heap_pop_root(1) [OF assms(1), of feLastActive] by (simp add: sweepTurn_def Let_def out_def p)
  show ?thesis
  proof (cases "fsLastActive (obj e p) > feLastActive (eEvictQueue e ! 0)")
    case True
    then show ?thesis using requeue eq by simp
  next
    case False
    show ?thesis
    proof (cases "fsPending (obj e p) \<noteq> [] \<or> fsOpenChunk (obj e p) \<noteq> None \<or> fsOpenCount (obj e p) > 0 \<or> eMaxObserved e - fsLastActive (obj e p) \<le> eIdleEvictMs e")
      case True
      moreover from this have "sweepTurn e = out" unfolding eq if_not_P [OF False] by (simp only: if_cancel simp_thms split: if_split) blast
      ultimately show ?thesis using keep by blast
    next
      case False
      moreover from this have "sweepTurn e = ?gone" unfolding eq if_not_P [OF \<open>\<not> fsLastActive (obj e p) > _\<close>]
        by (simp only: de_Morgan_disj simp_thms if_False)
      ultimately show ?thesis using evict by (simp add: not_le)
    qed
  qed
qed

lemma sweepTurn_moves:
  assumes inv: "enc_inv lib content e" "calm e" "eDrainQueue e = []" "eEvictQueue e \<noteq> []"
  shows "moves lib content e (sweepTurn e) \<and> calm (sweepTurn e) \<and> eDrainQueue (sweepTurn e) = []"
proof -
  define p where "p = feSt (eEvictQueue e ! 0)"
  have ev: "evict_inv e" using inv(1) by (simp add: enc_inv_def)
  have lp: "live e p" using evict_root(1) [OF ev inv(4)] by (simp add: p_def)
  let ?out = "store p (e\<lparr>eEvictQueue := snd (heap_pop feLastActive (eEvictQueue e))\<rparr>, (obj e p)\<lparr>fsInEvictQueue := False\<rparr>)"
  note leave = leave_moves [OF inv(1,4) p_def]
  have pl: "p < length (eObjs e)" using lp by (simp add: live_def)
  have out: "enc_inv lib content ?out" "obj ?out p = (obj e p)\<lparr>fsInEvictQueue := False\<rparr>" "eSeries ?out = eSeries e" "eEvicted ?out = eEvicted e"
    using leave(1) pl by (simp_all add: moves_def)
  have "fsOpenCount (obj ?out q) = fsOpenCount (obj e q)" for q by (simp add: nth_update_same [of fsOpenCount])
  then have calm_out: "calm ?out" using inv(2) leave(2) unfolding calm_def by simp
  show ?thesis
  proof (cases rule: sweepTurn_cases [OF inv(4) lp p_def])
    case 1
    then show ?thesis using requeue_moves [OF inv(1,4) p_def] inv(2,3) by (simp add: calm_def live_def)
  next
    case 2
    then show ?thesis using leave(1) calm_out inv(3) by simp
  next
    case 3
    let ?gone = "?out\<lparr>eSeries := AList.delete (fsKey (obj e p)) (eSeries e), eEvicted := eEvicted e + 1\<rparr>"
    have "moves lib content ?out ?gone"
      using delete_moves [OF out(1), of p "eEvicted e + 1"] lp leave(2) out(2) 3 inv(3)
      by (simp add: obj_points_def open_points_def)
    moreover have "calm ?gone" using calm_out by (auto simp: calm_def live_def delete_conv split: if_splits)
    ultimately show ?thesis using moves_trans [OF leave(1)] 3 inv(3) by simp
  qed
qed

lemma sweep_moves:
  "enc_inv lib content e \<Longrightarrow> calm e \<Longrightarrow> eDrainQueue e = [] \<Longrightarrow> moves lib content e (sweepLoop cutoff e) \<and> calm (sweepLoop cutoff e)"
proof (induction cutoff e rule: sweepLoop.induct)
  case (1 cutoff e)
  show ?case
  proof (cases "eEvictQueue e \<noteq> [] \<and> feLastActive (eEvictQueue e ! 0) \<le> cutoff")
    case True
    then have l: "sweepLoop cutoff e = sweepLoop cutoff (sweepTurn e)" by (subst sweepLoop.simps) simp
    have t: "moves lib content e (sweepTurn e)" "calm (sweepTurn e)" "eDrainQueue (sweepTurn e) = []"
      using sweepTurn_moves "1.prems" True by blast+
    then have "enc_inv lib content (sweepTurn e)" by (simp add: moves_def)
    then show ?thesis using "1.IH" [OF True] t moves_trans [OF t(1)] l by simp
  next
    case False
    then have "sweepLoop cutoff e = e" by (subst sweepLoop.simps) auto
    then show ?thesis using moves_refl "1.prems" by simp
  qed
qed

lemma drainLocked_moves:
  assumes laws: "frag_laws lib content" and inv: "enc_inv lib content e" "calm e"
  shows "moves lib content e (drainLocked lib ord w force e) \<and> calm (drainLocked lib ord w force e)"
proof (cases force)
  case True
  let ?e1 = "forceSeries lib w ord e" and ?e2 = "(forceSeries lib w ord e)\<lparr>eDrainQueue := []\<rparr>"
  have m1: "moves lib content e ?e1" "calm ?e1" using force_moves [OF laws inv, of w ord] by blast+
  then have "enc_inv lib content ?e1" by (simp add: moves_def)
  then have "moves lib content ?e1 ?e2" by (rule moves_queue) (simp_all add: heap_upto_def)
  then have m2: "moves lib content e ?e2" by (rule moves_trans [OF m1(1)])
  then have "moves lib content ?e2 (reportResidual ?e2)" by (intro residual_moves) (simp add: moves_def)
  then have m3: "moves lib content e (reportResidual ?e2)" by (rule moves_trans [OF m2])
  then have inv3: "enc_inv lib content (reportResidual ?e2)" by (simp add: moves_def)
  have c3: "calm (reportResidual ?e2)" "eDrainQueue (reportResidual ?e2) = []" using m1(2) by (simp_all add: reportResidual_def calm_def live_def)
  show ?thesis
    using True moves_trans [OF m3] sweep_moves [OF inv3 c3] m3 c3(1) by (simp add: drainLocked_def sweepEvictionsLocked_def)
next
  case False
  then show ?thesis using drainQueueLoop_moves [OF laws inv] by (simp add: drainLocked_def)
qed

section \<open>Adding samples\<close>

text \<open>The encoder before the drain of \<^verbatim>\<open>AddSample\<close>: the point is in its series.\<close>

definition pending_added :: "TSDBSample \<Rightarrow> 'c StreamingFragmentEncoder \<Rightarrow> 'c StreamingFragmentEncoder" where
  "pending_added s e =
     (let tms = unixMs (sTimestamp s); (p, e2) = getSeriesF (sMetricName s) (sAttributes s) (e\<lparr>eMaxObserved := max tms (eMaxObserved e)\<rparr>);
          st = obj e2 p;
          st2 = st\<lparr>fsLastActive := max tms (fsLastActive st), fsPending := heap_push ppT \<lparr>ppT = tms, ppV = sValue s\<rparr> (fsPending st)\<rparr>;
          e3 = store p (e2, st2)
      in if ppT (fsPending st2 ! 0) = tms then e3\<lparr>eDrainQueue := heap_push fdT \<lparr>fdT = tms, fdSt = p\<rparr> (eDrainQueue e3)\<rparr> else e3)"

lemma max_update:
  "(if a > fsLastActive st then st\<lparr>fsLastActive := a\<rparr> else st) = st\<lparr>fsLastActive := max a (fsLastActive st)\<rparr>"
  "(if a > eMaxObserved e then e\<lparr>eMaxObserved := a\<rparr> else e) = e\<lparr>eMaxObserved := max a (eMaxObserved e)\<rparr>"
  by (simp_all add: max_def)

lemma AddSampleF_eq:
  "AddSampleF lib s e = (if eClosed e then Inl ErrEncoderClosed
     else let e' = pending_added s e in Inr (drainLocked lib [] (eMaxObserved e' - eReorderGrace e') False e'))"
  unfolding AddSampleF_def max_update by (simp add: pending_added_def Let_def split: prod.split)

lemma new_series_ok: "1 \<le> n \<Longrightarrow> obj_ok content n (newFragmentSeries (fragmentKey m a) m a)"
  by (simp add: obj_ok_def newFragmentSeries_def open_points_def heap_upto_def)

lemma getSeries_inv:
  assumes "enc_inv lib content e" "calm e" "getSeriesF m a e = (p, e')"
  shows "enc_inv lib content e'" "calm e'" "live e' p" "fsKey (obj e' p) = fragmentKey m a" "live_points content e' = live_points content e"
    "eQueued e' = eQueued e" "eDropped e' = eDropped e" "eLastReported e' = eLastReported e" "eSamplesPerChk e' = eSamplesPerChk e"
    "eReorderGrace e' = eReorderGrace e" "eMaxObserved e' = eMaxObserved e" "eIdleEvictMs e' = eIdleEvictMs e" "eClosed e' = eClosed e"
proof -
  let ?k = "fragmentKey m a"
  show f: "eQueued e' = eQueued e" "eDropped e' = eDropped e" "eLastReported e' = eLastReported e" "eSamplesPerChk e' = eSamplesPerChk e"
    "eReorderGrace e' = eReorderGrace e" "eMaxObserved e' = eMaxObserved e" "eIdleEvictMs e' = eIdleEvictMs e" "eClosed e' = eClosed e"
    using assms(3) by (auto simp: getSeriesF_def Let_def split: option.splits)
  have o: "objs_inv content e" and n: "1 \<le> eSamplesPerChk e" using assms(1) by (simp_all add: enc_inv_def objs_inv_def)
  have "enc_inv lib content e' \<and> calm e' \<and> live e' p \<and> fsKey (obj e' p) = ?k \<and> live_points content e' = live_points content e"
  proof (cases "map_of (eSeries e) ?k")
    case (Some q)
    then have "p = q" "e' = e" using assms(3) by (simp_all add: getSeriesF_def Let_def)
    then show ?thesis using Some assms(1,2) o by (auto simp: objs_inv_def live_def)
  next
    case None
    let ?new = "newFragmentSeries ?k m a"
    have e': "p = length (eObjs e)" "eObjs e' = eObjs e @ [?new]" "eSeries e' = AList.update ?k p (eSeries e)"
      "eDrainQueue e' = eDrainQueue e" "eEvictQueue e' = eEvictQueue e"
      using None assms(3) by (auto simp: getSeriesF_def Let_def)
    have objs: "obj e' q = obj e q" if "q < length (eObjs e)" for q using that by (simp add: e' nth_append)
    have lives: "live e' q \<longleftrightarrow> live e q \<or> q = p" for q
    proof (cases "q < length (eObjs e)")
      case True
      then show ?thesis using objs [OF True] None e'(1) by (auto simp: live_def e' update_conv)
    next
      case False
      then show ?thesis by (auto simp: live_def e' update_conv nth_append newFragmentSeries_def)
    qed
    have inb: "q < length (eObjs e)" if "live e q" for q using that by (simp add: live_def)
    have new: "obj e' p = ?new" "\<not> fsInEvictQueue ?new" "fsOpenCount ?new = 0" "fsKey ?new = ?k" "obj_points content ?new = {#}"
      by (simp_all add: e' newFragmentSeries_def obj_points_def open_points_def)
    have "objs_inv content e'" unfolding objs_inv_def
    proof (intro conjI allI impI)
      fix k q assume "map_of (eSeries e') k = Some q"
      then have "k = ?k \<and> q = p \<or> map_of (eSeries e) k = Some q" by (auto simp: e' update_conv split: if_splits)
      moreover have "q < length (eObjs e)" if "map_of (eSeries e) k = Some q" using o that by (simp add: objs_inv_def)
      ultimately show "q < length (eObjs e')" "fsKey (obj e' q) = k" "obj_ok content (eSamplesPerChk e') (obj e' q)"
        using o objs [of q] new f(4) new_series_ok [OF n, of content m a] by (auto simp: objs_inv_def e'(1,2) intro: less_SucI)
    qed (use o f(4) in \<open>auto simp: objs_inv_def e' distinct_update\<close>)
    moreover have "queue_inv e'" using assms(1) lives by (auto simp: enc_inv_def queue_inv_def e')
    moreover have "evict_inv e'" using assms(1) new(1,2) objs inb unfolding enc_inv_def evict_inv_def lives e'(5) by metis
    ultimately have "enc_inv lib content e'" using assms(1) f by (simp add: enc_inv_def)
    moreover have "calm e'" using assms(2) objs inb new n f(4) unfolding calm_def lives by (metis less_le_trans zero_less_one)
    moreover have "live_points content e' = live_points content e"
    proof -
      have "sum_list (map (\<lambda>(k, q). obj_points content (obj e' q)) (AList.update ?k p ss)) = sum_list (map (\<lambda>(k, q). obj_points content (obj e q)) ss)"
        if "map_of ss ?k = None" "\<forall>(k, q) \<in> set ss. q < length (eObjs e)" for ss
        using that by (induction ss) (auto simp: new objs split: if_splits)
      moreover have "\<forall>(k, q) \<in> set (eSeries e). q < length (eObjs e)" using o by (auto simp: objs_inv_def map_of_eq_Some_iff)
      ultimately show ?thesis using None by (simp add: live_points_def e'(3))
    qed
    ultimately show ?thesis using lives new by simp
  qed
  then show "enc_inv lib content e'" "calm e'" "live e' p" "fsKey (obj e' p) = ?k" "live_points content e' = live_points content e" by blast+
qed

lemma pending_added_inv:
  assumes inv: "enc_inv lib content e" "calm e"
  shows "enc_inv lib content (pending_added s e)" "calm (pending_added s e)"
    "live_points content (pending_added s e) =
       add_mset (fragmentKey (sMetricName s) (sAttributes s), unixMs (sTimestamp s), sValue s) (live_points content e)"
    "eQueued (pending_added s e) = eQueued e" "eDropped (pending_added s e) = eDropped e" "eLastReported (pending_added s e) = eLastReported e"
    "eReorderGrace (pending_added s e) = eReorderGrace e" "eSamplesPerChk (pending_added s e) = eSamplesPerChk e"
    "eMaxObserved (pending_added s e) = max (unixMs (sTimestamp s)) (eMaxObserved e)" "eClosed (pending_added s e) = eClosed e"
proof -
  let ?t = "unixMs (sTimestamp s)"
  let ?e1 = "e\<lparr>eMaxObserved := max ?t (eMaxObserved e)\<rparr>"
  obtain p e2 where g: "getSeriesF (sMetricName s) (sAttributes s) ?e1 = (p, e2)" by fastforce
  have "live ?e1 q \<longleftrightarrow> live e q" for q by (simp add: live_def)
  then have "enc_inv lib content ?e1" "calm ?e1"
    using inv by (simp_all add: enc_inv_def objs_inv_def queue_inv_def evict_inv_def calm_def)
  note gs = getSeries_inv [OF this g]
  let ?x = "\<lparr>ppT = ?t, ppV = sValue s\<rparr>" and ?st = "obj e2 p"
  define st2 where "st2 = ?st\<lparr>fsLastActive := max ?t (fsLastActive ?st), fsPending := heap_push ppT ?x (fsPending ?st)\<rparr>"
  let ?e3 = "store p (e2, st2)"
  have o2: "objs_inv content e2" and pl: "p < length (eObjs e2)" using gs(1,3) by (simp_all add: enc_inv_def live_def)
  have "obj_ok content (eSamplesPerChk e2) ?st" using o2 gs(3) by (auto simp: objs_inv_def live_def)
  then have ok2: "obj_ok content (eSamplesPerChk e2) st2" by (simp add: st2_def obj_ok_def open_points_def is_heap_push)
  have key2: "fsKey st2 = fsKey ?st" by (simp add: st2_def)
  note lives = live_store [OF key2]
  have "evict_inv ?e3"
    by (rule evict_inv_same [of e2]) (use gs(1) lives pl in \<open>auto simp: enc_inv_def nth_list_update st2_def\<close>)
  moreover have "queue_inv ?e3" using gs(1) lives by (simp add: enc_inv_def queue_inv_def)
  ultimately have inv3: "enc_inv lib content ?e3" using objs_inv_store [OF o2 ok2 key2] gs(1) by (simp add: enc_inv_def)
  have calm3: "calm ?e3" using gs(2) lives pl by (auto simp: calm_def nth_list_update st2_def)
  have "obj_points content st2 = add_mset (fsKey ?st, ?t, sValue s) (obj_points content ?st)"
    by (simp add: st2_def obj_points_def open_points_def mset_heap_push)
  then have "live_points content ?e3 + obj_points content ?st = add_mset (fsKey ?st, ?t, sValue s) (live_points content e2) + obj_points content ?st"
    using live_points_store [OF o2 gs(3), of st2] by simp
  moreover have "live_points content ?e1 = live_points content e" by (simp add: live_points_def)
  ultimately have pts3: "live_points content ?e3 = add_mset (fragmentKey (sMetricName s) (sAttributes s), ?t, sValue s) (live_points content e)"
    using gs(4,5) by simp
  let ?q = "heap_push fdT \<lparr>fdT = ?t, fdSt = p\<rparr> (eDrainQueue ?e3)"
  have r: "pending_added s e = (if ppT (fsPending st2 ! 0) = ?t then ?e3\<lparr>eDrainQueue := ?q\<rparr> else ?e3)"
    using g by (simp add: pending_added_def Let_def st2_def)
  have m: "moves lib content ?e3 (?e3\<lparr>eDrainQueue := ?q\<rparr>)"
    using inv3 gs(3) lives by (intro moves_queue [OF inv3]) (auto simp: enc_inv_def queue_inv_def is_heap_push go_heap.push_set)
  show "enc_inv lib content (pending_added s e)" "calm (pending_added s e)" using inv3 calm3 m r by (auto simp: moves_def)
  have "live_points content (pending_added s e) = live_points content ?e3" by (simp add: r live_points_def)
  then show "live_points content (pending_added s e) =
       add_mset (fragmentKey (sMetricName s) (sAttributes s), ?t, sValue s) (live_points content e)" using pts3 by simp
  show "eQueued (pending_added s e) = eQueued e" "eDropped (pending_added s e) = eDropped e" "eLastReported (pending_added s e) = eLastReported e"
    "eReorderGrace (pending_added s e) = eReorderGrace e" "eSamplesPerChk (pending_added s e) = eSamplesPerChk e"
    "eMaxObserved (pending_added s e) = max ?t (eMaxObserved e)" "eClosed (pending_added s e) = eClosed e" using gs(6-13) by (simp_all add: r)
qed

section \<open>Runs\<close>

text \<open>
  The encoders reached from a new one, with the samples added so far and the fragments handed out. A flush visits all the
  series the map has, in some order.
\<close>

inductive encodes :: "('c, 'l) fragLib \<Rightarrow> StreamingFragmentOptions \<Rightarrow> TSDBSample multiset \<Rightarrow> Fragment list \<Rightarrow> 'c StreamingFragmentEncoder \<Rightarrow> bool"
  for lib opts where
  created: "encodes lib opts {#} [] (NewStreamingFragmentEncoder opts)"
| added: "encodes lib opts ss out e \<Longrightarrow> AddSampleF lib s e = Inr e' \<Longrightarrow> encodes lib opts (add_mset s ss) out e'"
| drained: "encodes lib opts ss out e \<Longrightarrow> DrainF lib ord force e = (fs, e') \<Longrightarrow> set ord = fst ` set (eSeries e) \<Longrightarrow>
    encodes lib opts ss (out @ fs) e'"

definition keyed :: "TSDBSample \<Rightarrow> gostr \<times> int \<times> u64" where
  "keyed s = (fragmentKey (sMetricName s) (sAttributes s), unixMs (sTimestamp s), sValue s)"

definition run_inv :: "('c, 'l) fragLib \<Rightarrow> ('c \<Rightarrow> (int \<times> u64) list) \<Rightarrow> TSDBSample multiset \<Rightarrow> Fragment list \<Rightarrow> 'c StreamingFragmentEncoder \<Rightarrow> bool" where
  "run_inv lib content ss out e \<longleftrightarrow>
     enc_inv lib content e \<and> calm e \<and> \<not> eClosed e \<and> (\<forall>f \<in> set out. frag_ok lib (eSamplesPerChk e) f) \<and>
     reported out + reported (eQueued e) = eLastReported e \<and>
     (\<exists>D. shipped_points lib out + shipped_points lib (eQueued e) + live_points content e + D = image_mset keyed ss \<and> size D = eDropped e)"

lemma new_inv:
  assumes "foSamplesPerChunk opts \<le> 65535"
  shows "run_inv lib content {#} [] (NewStreamingFragmentEncoder opts)"
  using assms
  by (simp add: run_inv_def NewStreamingFragmentEncoder_def Let_def enc_inv_def objs_inv_def queue_inv_def evict_inv_def calm_def live_def
    live_points_def shipped_points_def heap_upto_def)

text \<open>A step that moves points keeps the accounts of the run.\<close>

lemma run_moves:
  assumes "run_inv lib content ss out e" "moves lib content e e'" "calm e'"
  shows "run_inv lib content ss out e'"
proof -
  obtain D where D: "shipped_points lib out + shipped_points lib (eQueued e) + live_points content e + D = image_mset keyed ss" "size D = eDropped e"
    using assms(1) by (auto simp: run_inv_def)
  obtain D' where D': "shipped_points lib (eQueued e') + live_points content e' + D' = shipped_points lib (eQueued e) + live_points content e"
    "eDropped e' = eDropped e + size D'" using assms(2) by (auto simp: moves_def)
  have "shipped_points lib out + shipped_points lib (eQueued e') + live_points content e' + (D' + D) =
      shipped_points lib out + (shipped_points lib (eQueued e') + live_points content e' + D') + D" by (simp only: ac_simps)
  also have "\<dots> = image_mset keyed ss" unfolding D'(1) D(1) [symmetric] by (simp only: ac_simps)
  finally have "\<exists>D. shipped_points lib out + shipped_points lib (eQueued e') + live_points content e' + D = image_mset keyed ss \<and> size D = eDropped e'"
    using D(2) D'(2) by (intro exI [of _ "D' + D"]) simp
  then show ?thesis using assms by (simp add: run_inv_def moves_def)
qed

lemma run_added:
  assumes laws: "frag_laws lib content" and inv: "run_inv lib content ss out e" and add: "AddSampleF lib s e = Inr e'"
  shows "run_inv lib content (add_mset s ss) out e'"
proof -
  let ?e = "pending_added s e"
  have e: "enc_inv lib content e" "calm e" "\<not> eClosed e" using inv by (simp_all add: run_inv_def)
  have e': "e' = drainLocked lib [] (eMaxObserved ?e - eReorderGrace ?e) False ?e" using add e(3) by (simp add: AddSampleF_eq Let_def)
  note p = pending_added_inv [OF e(1,2), of s]
  have "run_inv lib content (add_mset s ss) out ?e" using inv p by (auto simp: run_inv_def keyed_def)
  then show ?thesis unfolding e' using drainLocked_moves [OF laws p(1,2)] run_moves by blast
qed

lemma run_drained:
  assumes laws: "frag_laws lib content" and inv: "run_inv lib content ss out e" and d: "DrainF lib ord force e = (fs, e')"
  shows "run_inv lib content ss (out @ fs) e'"
proof -
  let ?w = "if force then MaxInt64 else eMaxObserved e - eReorderGrace e"
  let ?e = "drainLocked lib ord ?w force e"
  have r: "fs = eQueued ?e" "e' = ?e\<lparr>eQueued := []\<rparr>" using d by (auto simp: DrainF_def Let_def)
  have "run_inv lib content ss out ?e"
    using run_moves [OF inv] drainLocked_moves [OF laws, of e ord ?w force] inv by (auto simp: run_inv_def)
  moreover have "live e' p \<longleftrightarrow> live ?e p" for p by (simp add: r live_def)
  ultimately show ?thesis
    by (auto simp: run_inv_def r enc_inv_def objs_inv_def queue_inv_def evict_inv_def calm_def shipped_points_def live_points_def)
qed

lemma encodes_inv:
  "encodes lib opts ss out e \<Longrightarrow> frag_laws lib content \<Longrightarrow> foSamplesPerChunk opts \<le> 65535 \<Longrightarrow> run_inv lib content ss out e"
  by (induction rule: encodes.induct) (auto intro: new_inv run_added run_drained)

section \<open>The flush path\<close>

definition shipped_out :: "'c fragmentSeriesState \<Rightarrow> bool" where
  "shipped_out st \<longleftrightarrow> fsPending st = [] \<and> fsOpenChunk st = None"

lemma visit_empty: "shipped_out st \<Longrightarrow> flushFragment lib w p (drainSeriesLocked lib w p (e, st)) = (e, st)"
  by (subst drainSeriesLocked.simps) (simp add: shipped_out_def flushFragment_def)

lemma visit_ships:
  assumes "obj_ok content (eSamplesPerChk e) st" "\<forall>x \<in> set (fsPending st). ppT x \<le> w"
    "obj_ok content n (snd (drainSeriesLocked lib w p (e, st)))"
  shows "shipped_out (snd (flushFragment lib w p (drainSeriesLocked lib w p (e, st))))"
proof -
  obtain e1 st1 where d: "drainSeriesLocked lib w p (e, st) = (e1, st1)" by fastforce
  have "set (snd (heap_drain ppT w (fsPending st))) \<subseteq> set (fsPending st)"
    using heap_drain_mset [of ppT w "fsPending st"] by (metis mset_subset_eq_add_right set_mset_mono set_mset_mset)
  moreover have "is_heap ppT (fsPending st)" using assms(1) by (simp add: obj_ok_def)
  ultimately have "snd (heap_drain ppT w (fsPending st)) = []"
    using heap_drain_heap [of ppT "fsPending st" w] assms(2) by (metis hd_in_set leD subsetD)
  then have "fsPending st1 = []" using drainSeries_pending [of lib w p "(e, st)"] d by simp
  then show ?thesis using flush_empties [of content n st1 lib w p e1] assms(3) d by (simp add: shipped_out_def)
qed

lemma force_ships:
  assumes laws: "frag_laws lib content"
  shows "enc_inv lib content e \<Longrightarrow> calm e \<Longrightarrow> \<forall>p. live e p \<longrightarrow> (\<forall>x \<in> set (fsPending (obj e p)). ppT x \<le> w) \<Longrightarrow>
    map_of (eSeries e) k = Some p \<Longrightarrow> k \<in> set ks \<or> shipped_out (obj e p) \<Longrightarrow> shipped_out (obj (forceSeries lib w ks e) p)"
proof (induction ks arbitrary: e)
  case (Cons k' ks)
  show ?case
  proof (cases "map_of (eSeries e) k'")
    case None
    then show ?thesis using Cons by auto
  next
    case (Some q)
    then have lq: "live e q" using Cons.prems(1) by (auto simp: enc_inv_def objs_inv_def live_def)
    obtain e2 st2 where f: "flushFragment lib w q (drainSeriesLocked lib w q (e, obj e q)) = (e2, st2)" by fastforce
    let ?e2 = "store q (e2, st2)"
    have F: "forceSeries lib w (k' # ks) e = forceSeries lib w ks ?e2" "forceSeries lib w [k'] e = ?e2" using Some f by simp_all
    have m: "moves lib content e ?e2" "calm ?e2" "eSeries ?e2 = eSeries e" using force_moves [OF laws Cons.prems(1,2), of w "[k']"] F(2) by simp_all
    obtain e1 st1 where d: "drainSeriesLocked lib w q (e, obj e q) = (e1, st1)" by fastforce
    note v = visit_moves [OF laws Cons.prems(1,2) lq, of w, unfolded d]
    have "obj_ok content (eSamplesPerChk e1) st1"
      using live_object [of lib content q e1 st1] v lq by (simp add: moves_def)
    moreover have "obj_ok content (eSamplesPerChk e) (obj e q)" using Cons.prems(1) Some by (auto simp: enc_inv_def objs_inv_def)
    ultimately have ships: "shipped_out st2" using visit_ships [of content e "obj e q" w "eSamplesPerChk e1" lib q] Cons.prems(3) lq d f by simp
    have same: "same_series e e2" "same_object (obj e q) st2"
      using same_series_drain [of "(e, obj e q)" lib w q] same_series_flush [of "drainSeriesLocked lib w q (e, obj e q)" lib w q]
        same_object_drain [of "(e, obj e q)" lib w q] same_object_flush [of "drainSeriesLocked lib w q (e, obj e q)" lib w q] f
      by (auto simp: same_series_def same_object_def)
    have ql: "q < length (eObjs e2)" using lq same(1) by (simp add: live_def same_series_def)
    have "set (fsPending (obj ?e2 p)) \<subseteq> set (fsPending (obj e p))" for p
      using ships same(1) ql by (cases "p = q") (simp_all add: shipped_out_def same_series_def)
    then have "\<forall>p. live ?e2 p \<longrightarrow> (\<forall>x \<in> set (fsPending (obj ?e2 p)). ppT x \<le> w)"
      using Cons.prems(3) live_same [OF same, of q] by (metis store_own subsetD)
    moreover have "enc_inv lib content ?e2" using m(1) by (simp add: moves_def)
    moreover have "k \<in> set ks \<or> shipped_out (obj ?e2 p)"
      using Cons.prems(4,5) Some ships same(1) ql by (cases "p = q") (auto simp: same_series_def)
    ultimately show ?thesis unfolding F(1) using Cons.IH [of ?e2] m(2,3) Cons.prems(4) by simp
  qed
qed simp

definition all_shipped :: "'c StreamingFragmentEncoder \<Rightarrow> bool" where
  "all_shipped e \<longleftrightarrow> (\<forall>k p. map_of (eSeries e) k = Some p \<longrightarrow> shipped_out (obj e p))"

lemma all_shipped_points:
  assumes "distinct (map fst (eSeries e))" "all_shipped e"
  shows "live_points content e = {#}"
proof -
  have "shipped_out (obj e p)" if "(k, p) \<in> set (eSeries e)" for k p
    using assms that unfolding all_shipped_def by (metis map_of_is_SomeI)
  then have "\<forall>x \<in> set (eSeries e). (case x of (k, p) \<Rightarrow> obj_points content (obj e p)) = {#}"
    by (auto simp: obj_points_def open_points_def shipped_out_def)
  then show ?thesis unfolding live_points_def by (induction "eSeries e") (simp_all add: sum_list_0 cong: map_cong)
qed

text \<open>The sweep leaves the fragments and the counts alone.\<close>

definition sweeps :: "'c StreamingFragmentEncoder \<Rightarrow> 'c StreamingFragmentEncoder \<Rightarrow> bool" where
  "sweeps e e' \<longleftrightarrow> eQueued e' = eQueued e \<and> eDropped e' = eDropped e \<and> eLastReported e' = eLastReported e \<and> (all_shipped e \<longrightarrow> all_shipped e')"

lemma sweepTurn_sweeps: "sweeps e (sweepTurn e)"
proof -
  have "shipped_out (obj (sweepTurn e) q) = shipped_out (obj e q)" for q
    unfolding shipped_out_def by (simp add: sweepTurn_def Let_def store_def nth_update_same [of fsPending] nth_update_same [of fsOpenChunk])
  moreover have "map_of (eSeries (sweepTurn e)) k = Some q \<longrightarrow> map_of (eSeries e) k = Some q" for k q
    by (simp add: sweepTurn_def Let_def store_def delete_conv)
  ultimately have "all_shipped e \<longrightarrow> all_shipped (sweepTurn e)" unfolding all_shipped_def by metis
  then show ?thesis by (simp add: sweeps_def sweepTurn_def Let_def store_def)
qed

lemma sweepLoop_sweeps: "sweeps e (sweepLoop cutoff e)"
proof (induction cutoff e rule: sweepLoop.induct)
  case (1 cutoff e)
  then show ?case using sweepTurn_sweeps [of e] by (subst sweepLoop.simps) (auto simp: sweeps_def)
qed

lemma member_sum:
  fixes f :: "'s \<Rightarrow> keyed_points"
  shows "x \<in> set xs \<Longrightarrow> f x \<subseteq># sum_list (map f xs)"
  by (induction xs) (auto intro: subset_mset.order_trans mset_subset_eq_add_right)

lemma forced_state:
  assumes laws: "frag_laws lib content" and opts: "foSamplesPerChunk opts \<le> 65535"
    and run: "encodes lib opts ss out e" and d: "DrainF lib ord True e = (fs, e')" "set ord = fst ` set (eSeries e)"
  shows "all_shipped e'" "fs \<noteq> [] \<longrightarrow> eLastReported e' = eDropped e'"
proof -
  have inv: "run_inv lib content ss out e" by (rule encodes_inv [OF run laws opts])
  then have enc: "enc_inv lib content e" "calm e" by (simp_all add: run_inv_def)
  have times: "ppT x \<le> MaxInt64" if lv: "live e p" and x: "x \<in> set (fsPending (obj e p))" for p x
  proof -
    have "(fsKey (obj e p), p) \<in> set (eSeries e)" using lv by (auto simp: live_def dest: map_of_SomeD)
    then have "obj_points content (obj e p) \<subseteq># live_points content e"
      using member_sum [of "(fsKey (obj e p), p)" "eSeries e" "\<lambda>(k, p). obj_points content (obj e p)"] by (simp add: live_points_def)
    moreover have "(fsKey (obj e p), point x) \<in># obj_points content (obj e p)" using x by (auto simp: obj_points_def)
    moreover have "live_points content e \<subseteq># image_mset keyed ss"
    proof -
      obtain D where "shipped_points lib out + shipped_points lib (eQueued e) + live_points content e + D = image_mset keyed ss"
        using inv by (auto simp: run_inv_def)
      then have "image_mset keyed ss = live_points content e + (shipped_points lib out + shipped_points lib (eQueued e) + D)" by (simp only: ac_simps)
      then show ?thesis by simp
    qed
    ultimately have "(fsKey (obj e p), point x) \<in># image_mset keyed ss" by (meson mset_subset_eqD)
    then obtain s :: TSDBSample where "ppT x = unixMs (sTimestamp s)" by (auto simp: keyed_def)
    then show ?thesis using unixMs_bound [of "sTimestamp s"] by linarith
  qed
  let ?e1 = "forceSeries lib MaxInt64 ord e"
  let ?e2 = "reportResidual (?e1\<lparr>eDrainQueue := []\<rparr>)"
  have r: "fs = eQueued (sweepEvictionsLocked ?e2)" "e' = (sweepEvictionsLocked ?e2)\<lparr>eQueued := []\<rparr>"
    using d(1) by (auto simp: DrainF_def drainLocked_def Let_def)
  have sw: "sweeps ?e2 (sweepEvictionsLocked ?e2)"
    using sweepLoop_sweeps by (auto simp: sweepEvictionsLocked_def sweeps_def)
  have ser: "eSeries ?e1 = eSeries e" using force_moves [OF laws enc] by blast
  have "shipped_out (obj ?e1 p)" if k: "map_of (eSeries e) k = Some p" for k p
  proof -
    have "k \<in> set ord" using d(2) map_of_SomeD [OF k] by force
    then show ?thesis using force_ships [OF laws enc _ k, of MaxInt64 ord] times by blast
  qed
  then have "all_shipped ?e2" using ser by (simp add: all_shipped_def reportResidual_def)
  then show "all_shipped e'" using sw by (simp add: r sweeps_def all_shipped_def)
  have "enc_inv lib content ?e1" using force_moves [OF laws enc] by (simp add: moves_def)
  then have "eQueued ?e2 \<noteq> [] \<longrightarrow> eLastReported ?e2 = eDropped ?e2" by (auto simp: reportResidual_def enc_inv_def)
  then show "fs \<noteq> [] \<longrightarrow> eLastReported e' = eDropped e'" using sw by (simp add: r sweeps_def)
qed

section \<open>What a flush promises\<close>

lemma flush_complete:
  assumes "frag_laws lib content" "foSamplesPerChunk opts \<le> 65535" "encodes lib opts ss out e"
    and "DrainF lib ord True e = (fs, e')" "set ord = fst ` set (eSeries e)"
  shows "(\<exists>D. shipped_points lib (out @ fs) + D = image_mset keyed ss \<and> size D = DroppedSamples e') \<and>
    (\<forall>f \<in> set (out @ fs). frag_ok lib (eSamplesPerChk e') f)"
proof -
  have inv: "run_inv lib content ss (out @ fs) e'"
    by (rule encodes_inv [OF encodes.drained [OF assms(3,4,5)] assms(1,2)])
  then have "distinct (map fst (eSeries e'))" by (simp add: run_inv_def enc_inv_def objs_inv_def)
  then have "live_points content e' = {#}" using all_shipped_points forced_state(1) [OF assms] by blast
  moreover have "eQueued e' = []" using assms(4) by (auto simp: DrainF_def Let_def)
  ultimately show ?thesis using inv by (auto simp: run_inv_def DroppedSamples_def shipped_points_def)
qed

text \<open>
  Property C8. A flush loses nothing: after \<^verbatim>\<open>Drain(true)\<close> the samples in the fragments handed out so far, each under the
  key of its fragment's series, together with as many dropped samples as \<^verbatim>\<open>DroppedSamples\<close> counts, are exactly the samples
  added, and every fragment decodes to as many samples as it announces, in strictly increasing time, from its minimum to its
  maximum time. Series evicted in between had shipped everything.
\<close>

theorem flush_ships_everything:
  assumes "frag_laws lib content" "foSamplesPerChunk opts \<le> 65535" "encodes lib opts ss out e"
    and "DrainF lib ord True e = (fs, e')" "set ord = fst ` set (eSeries e)"
  shows "(\<exists>D. shipped_points lib (out @ fs) + D = image_mset keyed ss \<and> size D = DroppedSamples e') \<and>
    (\<forall>f \<in> set (out @ fs). frag_ok lib (eSamplesPerChk e') f)"
  by (rule flush_complete [OF assms])

text \<open>
  Property C24. The drop counts stamped on the fragments add up: their sum over all fragments handed out never exceeds
  \<^verbatim>\<open>DroppedSamples\<close>, and equals it after a flush that hands out a fragment.
\<close>

theorem drop_counts_add_up:
  assumes "frag_laws lib content" "foSamplesPerChunk opts \<le> 65535" "encodes lib opts ss out e"
    and "DrainF lib ord force e = (fs, e')" "set ord = fst ` set (eSeries e)"
  shows "reported (out @ fs) \<le> DroppedSamples e' \<and> (force \<and> fs \<noteq> [] \<longrightarrow> reported (out @ fs) = DroppedSamples e')"
proof -
  have "run_inv lib content ss (out @ fs) e'" by (rule encodes_inv [OF encodes.drained [OF assms(3,4,5)] assms(1,2)])
  moreover have "eQueued e' = []" using assms(4) by (auto simp: DrainF_def Let_def)
  ultimately have "reported (out @ fs) = eLastReported e'" "eLastReported e' \<le> eDropped e'" by (auto simp: run_inv_def enc_inv_def)
  moreover have "force \<and> fs \<noteq> [] \<longrightarrow> eLastReported e' = eDropped e'" using forced_state(2) [OF assms(1-3) _ assms(5)] assms(4) by (cases force) auto
  ultimately show ?thesis by (simp add: DroppedSamples_def)
qed

section \<open>A concrete chunk format\<close>

text \<open>Chunks that list their samples, written as bytes: the count, then sign, magnitude and bits of every sample.\<close>

fun natBytes :: "nat \<Rightarrow> u8 list" where
  "natBytes n = (if n = 0 then [0] else word_of_nat (n mod 255 + 1) # natBytes (n div 255))"

fun takeNat :: "u8 list \<Rightarrow> (nat \<times> u8 list) option" where
  "takeNat [] = None"
| "takeNat (b # bs) = (if b = 0 then Some (0, bs) else case takeNat bs of None \<Rightarrow> None | Some (m, rest) \<Rightarrow> Some (unat b - 1 + 255 * m, rest))"

declare natBytes.simps [simp del]

lemma takeNat_natBytes: "takeNat (natBytes n @ rest) = Some (n, rest)"
proof (induction n rule: natBytes.induct)
  case (1 n)
  have b: "unat (word_of_nat (n mod 255 + 1) :: u8) = n mod 255 + 1"
    unfolding unat_of_nat by (rule mod_less) (use mod_less_divisor [of 255 n] in simp)
  then have "(word_of_nat (n mod 255 + 1) :: u8) \<noteq> 0" by (metis Suc_eq_plus1 nat.distinct(1) unat_0)
  then show ?case using 1 b by (subst natBytes.simps) auto
qed

definition sampleBytes :: "int \<times> u64 \<Rightarrow> u8 list" where
  "sampleBytes = (\<lambda>(t, v). natBytes (if t < 0 then 1 else 0) @ natBytes (nat \<bar>t\<bar>) @ natBytes (unat v))"

fun takeSamples :: "nat \<Rightarrow> u8 list \<Rightarrow> (int \<times> u64) list option" where
  "takeSamples 0 bs = Some []"
| "takeSamples (Suc n) bs =
     (case takeNat bs of None \<Rightarrow> None | Some (s, bs1) \<Rightarrow> case takeNat bs1 of None \<Rightarrow> None | Some (a, bs2) \<Rightarrow>
      case takeNat bs2 of None \<Rightarrow> None | Some (v, bs3) \<Rightarrow>
      map_option (Cons (if s = 0 then int a else - int a, word_of_nat v)) (takeSamples n bs3))"

lemma takeSamples_sampleBytes: "takeSamples (length xs) (concat (map sampleBytes xs)) = Some xs"
proof (induction xs)
  case (Cons x xs)
  obtain t v where "x = (t, v)" by (cases x)
  then show ?case using Cons by (simp add: sampleBytes_def takeNat_natBytes)
qed simp

definition listFrag :: "((int \<times> u64) list, (gostr \<times> gostr) list) fragLib" where
  "listFrag = \<lparr>flProm = \<lparr>xNew = [], xAppend = (\<lambda>c t v. c @ [(t, v)]), lBuild = (\<lambda>sets. sets), lRange = (\<lambda>l. l), lCompare = (\<lambda>a b. 0)\<rparr>,
     xBytes = (\<lambda>c. natBytes (length c) @ concat (map sampleBytes c)),
     xFromData = (\<lambda>bs. case takeNat bs of None \<Rightarrow> None | Some (n, rest) \<Rightarrow> takeSamples n rest),
     xIterate = Some, lString = concat \<circ> map fst, ulidMake = (\<lambda>n. [word_of_nat n])\<rparr>"

lemma listFrag_laws: "frag_laws listFrag (\<lambda>c. c)"
proof -
  have "natBytes n \<noteq> []" for n by (subst natBytes.simps) simp
  then show ?thesis by (simp add: frag_laws_def xor_laws_def listFrag_def takeNat_natBytes takeSamples_sampleBytes)
qed

text \<open>One late sample: the flush ships the other two and reports one drop.\<close>

definition frag_opts :: StreamingFragmentOptions where
  "frag_opts = \<lparr>foReorderGrace = 0, foSamplesPerChunk = 4, foSource = [], foIdleEvict = 5000000\<rparr>"

definition frag_sample :: "goattrs \<Rightarrow> i64 \<Rightarrow> u64 \<Rightarrow> TSDBSample" where
  "frag_sample attrs ns v = \<lparr>sMetricName = bytes_of ''m'', sAttributes = attrs, sTimestamp = ns, sValue = v\<rparr>"

fun encodeAll :: "('c, 'l) fragLib \<Rightarrow> TSDBSample list \<Rightarrow> 'c StreamingFragmentEncoder \<Rightarrow> fragment_error + 'c StreamingFragmentEncoder" where
  "encodeAll lib [] e = Inr e"
| "encodeAll lib (s # ss) e = (case AddSampleF lib s e of Inl err \<Rightarrow> Inl err | Inr e' \<Rightarrow> encodeAll lib ss e')"

lemma encodeAll_encodes:
  "encodes lib opts ss out e \<Longrightarrow> encodeAll lib xs e = Inr e' \<Longrightarrow> encodes lib opts (ss + mset xs) out e'"
proof (induction xs arbitrary: ss e)
  case (Cons x xs)
  then obtain e1 where "AddSampleF lib x e = Inr e1" "encodeAll lib xs e1 = Inr e'" by (auto split: sum.splits)
  then show ?case using Cons.IH [OF encodes.added [OF Cons.prems(1)]] by simp
qed simp

definition late_samples :: "TSDBSample list" where
  "late_samples = [frag_sample [] 10000000 7, frag_sample [] 20000000 8, frag_sample [] 5000000 9]"

definition late_run :: "((int \<times> u64) list) StreamingFragmentEncoder" where
  "late_run = (case encodeAll listFrag late_samples (NewStreamingFragmentEncoder frag_opts) of Inl err \<Rightarrow> NewStreamingFragmentEncoder frag_opts | Inr e \<Rightarrow> e)"

lemma late_run_ok:
  "encodeAll listFrag late_samples (NewStreamingFragmentEncoder frag_opts) = Inr late_run"
  "map fst (eSeries late_run) = [fragmentKey (bytes_of ''m'') []]"
  "DroppedSamples (snd (DrainF listFrag [fragmentKey (bytes_of ''m'') []] True late_run)) = 1"
  "fst (DrainF listFrag [fragmentKey (bytes_of ''m'') []] True late_run) \<noteq> []"
  by code_simp+

theorem flush_ships_everything_witness:
  "\<exists>fs e'. DrainF listFrag [fragmentKey (bytes_of ''m'') []] True late_run = (fs, e') \<and>
     (\<exists>D. shipped_points listFrag fs + D = image_mset keyed (mset late_samples) \<and> size D = 1) \<and>
     (\<forall>f \<in> set fs. frag_ok listFrag (eSamplesPerChk e') f)"
proof -
  obtain fs e' where d: "DrainF listFrag [fragmentKey (bytes_of ''m'') []] True late_run = (fs, e')" by fastforce
  have run: "encodes listFrag frag_opts (mset late_samples) [] late_run"
    using encodeAll_encodes [OF encodes.created late_run_ok(1)] by simp
  have "set [fragmentKey (bytes_of ''m'') []] = fst ` set (eSeries late_run)" using arg_cong [OF late_run_ok(2), of set] by simp
  from flush_ships_everything [OF listFrag_laws _ run d this] show ?thesis using d late_run_ok(3) by (simp add: frag_opts_def)
qed

theorem drop_counts_add_up_witness:
  "\<exists>fs e'. DrainF listFrag [fragmentKey (bytes_of ''m'') []] True late_run = (fs, e') \<and> reported fs = 1"
proof -
  obtain fs e' where d: "DrainF listFrag [fragmentKey (bytes_of ''m'') []] True late_run = (fs, e')" by fastforce
  have run: "encodes listFrag frag_opts (mset late_samples) [] late_run"
    using encodeAll_encodes [OF encodes.created late_run_ok(1)] by simp
  have "set [fragmentKey (bytes_of ''m'') []] = fst ` set (eSeries late_run)" using arg_cong [OF late_run_ok(2), of set] by simp
  from drop_counts_add_up [OF listFrag_laws _ run d this] show ?thesis using d late_run_ok(3,4) by (simp add: frag_opts_def)
qed

section \<open>Two defects\<close>

definition flushAll :: "((int \<times> u64) list) StreamingFragmentEncoder \<Rightarrow> Fragment list \<times> ((int \<times> u64) list) StreamingFragmentEncoder" where
  "flushAll e = DrainF listFrag (map fst (eSeries e)) True e"

text \<open>
  The key of an attribute set does not escape its separators: \<^verbatim>\<open>{a: "1;b=2"}\<close> and \<^verbatim>\<open>{a: "1", b: "2"}\<close> have one key, so
  samples of the second set are shipped under the attributes of the first.
\<close>

definition joined_attrs :: goattrs where "joined_attrs = [(bytes_of ''a'', bytes_of ''1;b=2'')]"

definition split_attrs :: goattrs where "split_attrs = [(bytes_of ''a'', bytes_of ''1''), (bytes_of ''b'', bytes_of ''2'')]"

theorem attribute_keys_collide:
  "canonicalAttrsKey joined_attrs = canonicalAttrsKey split_attrs \<and>
   (case encodeAll listFrag [frag_sample joined_attrs 10000000 7, frag_sample split_attrs 20000000 8] (NewStreamingFragmentEncoder frag_opts) of
      Inl err \<Rightarrow> False
    | Inr e \<Rightarrow> map (\<lambda>f. (fAttributes f, DecodeFragmentSamples listFrag f)) (fst (flushAll e)) = [(joined_attrs, Inr [(10, 7), (20, 8)])])"
  by code_simp

text \<open>
  A series whose idle time equals the threshold when a flush sweeps is taken off the eviction queue without being
  evicted or queued again, so it stays for ever; one that is a millisecond further behind is evicted. Here the
  first series sees one sample at 10 ms, the threshold is 5 ms, and the other series' clock reads 15 or 16 ms at the
  first flush and 900 ms at the second.
\<close>

definition two_flushes :: "i64 \<Rightarrow> nat option" where
  "two_flushes ns =
     (case encodeAll listFrag [frag_sample joined_attrs 10000000 7] (NewStreamingFragmentEncoder frag_opts) of Inl err \<Rightarrow> None
      | Inr e0 \<Rightarrow> case encodeAll listFrag [frag_sample [] ns 8] (snd (flushAll e0)) of Inl err \<Rightarrow> None
      | Inr e1 \<Rightarrow> case encodeAll listFrag [frag_sample [] 900000000 8] (snd (flushAll e1)) of Inl err \<Rightarrow> None
      | Inr e2 \<Rightarrow> Some (ActiveSeriesF (snd (flushAll e2))))"

theorem idle_at_threshold_stays: "two_flushes 15000000 = Some 2 \<and> two_flushes 16000000 = Some 1"
  by code_simp

end
