(* ===== verification/FragmentBlock.thy ===== *)
theory FragmentBlock
  imports TsdbBlock FragmentRuns
begin

text \<open>
  The fragment finalizer (\<^verbatim>\<open>asap-gorilla-go/fragment.go\<close>): fragments, of one or several encoders, become the chunks of a
  Prometheus block; chunks that overlap an earlier chunk of their series are left out.

  As for the block builder, the writers of the block's files are not part of the repository, and \<open>FinalizeF\<close> yields what they are called
  with. Where \<^verbatim>\<open>sort.Slice\<close> may order equal elements in several ways the model takes the stable one. Counts of samples are
  64-bit words: the code converts a fragment's count, which comes off the wire.
\<close>

section \<open>State and operations\<close>

record ('c, 'l) fragmentBlockSeries =
  bsLabels :: 'l
  bsChunks :: "'c chunkMeta list"
  bsSamples :: u64

record ('c, 'l) FragmentBlockFinalizer =
  fbExternal :: goattrs
  fbSeries :: "(gostr \<times> ('c, 'l) fragmentBlockSeries) list"
  fbMinTime :: int
  fbMaxTime :: int
  fbNumSamples :: u64
  fbNumChunks :: nat
  fbNumOOODropped :: nat

definition NewFragmentBlockFinalizer :: "goattrs \<Rightarrow> ('c, 'l) FragmentBlockFinalizer" where
  "NewFragmentBlockFinalizer external =
     \<lparr>fbExternal = external, fbSeries = [], fbMinTime = MaxInt64, fbMaxTime = MinInt64, fbNumSamples = 0, fbNumChunks = 0, fbNumOOODropped = 0\<rparr>"

definition FragmentLabels :: "('c, 'l) fragLib \<Rightarrow> gostr \<Rightarrow> goattrs \<Rightarrow> goattrs \<Rightarrow> 'l" where
  "FragmentLabels lib metricName attrs external =
     lBuild (flProm lib) ((MetricName, sanitizePromLabelValue metricName) # attrs @ external)"

datatype finalizer_error = ErrFragmentChunk

definition AddFragment ::
    "('c, 'l) fragLib \<Rightarrow> Fragment \<Rightarrow> ('c, 'l) FragmentBlockFinalizer \<Rightarrow> finalizer_error + ('c, 'l) FragmentBlockFinalizer" where
  "AddFragment lib fragment f =
     (if fCount fragment = 0 \<or> fData fragment = [] then Inr f
      else case xFromData lib (fData fragment) of None \<Rightarrow> Inl ErrFragmentChunk
        | Some chunk \<Rightarrow>
            (let ls = FragmentLabels lib (fMetricName fragment) (fAttributes fragment) (fbExternal f);
                 key = lString lib ls;
                 st = (case map_of (fbSeries f) key of Some st \<Rightarrow> st | None \<Rightarrow> \<lparr>bsLabels = ls, bsChunks = [], bsSamples = 0\<rparr>);
                 m = \<lparr>mChunk = chunk, mMinTime = fMinTime fragment, mMaxTime = fMaxTime fragment\<rparr>;
                 st = st\<lparr>bsChunks := bsChunks st @ [m], bsSamples := bsSamples st + word_of_int (fCount fragment)\<rparr>
             in Inr (f\<lparr>fbSeries := AList.update key st (fbSeries f),
                       fbNumSamples := fbNumSamples f + word_of_int (fCount fragment), fbNumChunks := fbNumChunks f + 1,
                       fbNumOOODropped := fbNumOOODropped f + fOOODropCount fragment,
                       fbMinTime := (if fMinTime fragment < fbMinTime f then fMinTime fragment else fbMinTime f),
                       fbMaxTime := (if fMaxTime fragment > fbMaxTime f then fMaxTime fragment else fbMaxTime f)\<rparr>)))"

text \<open>Of chunks in the order of their minimum times, those that begin after every one kept before.\<close>

fun dropOverlaps :: "int \<Rightarrow> 'c chunkMeta list \<Rightarrow> nat \<Rightarrow> 'c chunkMeta list \<times> nat" where
  "dropOverlaps lastMax [] dropped = ([], dropped)"
| "dropOverlaps lastMax (chk # cs) dropped =
     (if mMinTime chk \<le> lastMax then dropOverlaps lastMax cs (dropped + 1)
      else let (dst, d) = dropOverlaps (mMaxTime chk) cs dropped in (chk # dst, d))"

fun mergeSeries ::
    "(gostr \<times> ('c, 'l) fragmentBlockSeries) list \<Rightarrow> nat \<Rightarrow> (gostr \<times> ('c, 'l) fragmentBlockSeries) list \<times> nat" where
  "mergeSeries [] dropped = ([], dropped)"
| "mergeSeries ((k, st) # xs) dropped =
     (let (dst, d) = dropOverlaps MinInt64 (sort_Slice (\<lambda>x y. mMinTime x < mMinTime y) (bsChunks st)) dropped;
          (ys, d) = mergeSeries xs d
      in ((k, st\<lparr>bsChunks := dst\<rparr>) # ys, d))"

definition nonEmptySeriesF :: "('c, 'l) FragmentBlockFinalizer \<Rightarrow> ('c, 'l) fragmentBlockSeries list" where
  "nonEmptySeriesF f = filter (\<lambda>st. bsChunks st \<noteq> []) (map snd (fbSeries f))"

definition sortedSeriesF :: "('c, 'l) fragLib \<Rightarrow> ('c, 'l) FragmentBlockFinalizer \<Rightarrow> ('c, 'l) fragmentBlockSeries list" where
  "sortedSeriesF lib f = sort_Slice (\<lambda>x y. lCompare (flProm lib) (bsLabels x) (bsLabels y) < 0) (nonEmptySeriesF f)"

definition sortedSymbolsF :: "('c, 'l) fragLib \<Rightarrow> ('c, 'l) FragmentBlockFinalizer \<Rightarrow> gostr list" where
  "sortedSymbolsF lib f =
     sort (remdups (concat (map (\<lambda>st. concat (map (\<lambda>(n, v). [n, v]) (lRange (flProm lib) (bsLabels st)))) (nonEmptySeriesF f))))"

definition writeChunksF :: "('c, 'l) fragLib \<Rightarrow> ('c, 'l) FragmentBlockFinalizer \<Rightarrow> 'c chunkMeta list list" where
  "writeChunksF lib f = map bsChunks (sortedSeriesF lib f)"

definition writeIndexF ::
    "('c, 'l) fragLib \<Rightarrow> ('c, 'l) FragmentBlockFinalizer \<Rightarrow> gostr list \<times> (nat \<times> 'l \<times> 'c chunkMeta list) list" where
  "writeIndexF lib f =
     (sortedSymbolsF lib f, map (\<lambda>(i, st). (i + 1, bsLabels st, bsChunks st)) (enumerate 0 (sortedSeriesF lib f)))"

definition writeMetaF :: "('c, 'l) FragmentBlockFinalizer \<Rightarrow> BlockMeta" where
  "writeMetaF f = \<lparr>bmMinTime = fbMinTime f, bmMaxTime = fbMaxTime f + 1, bmNumSamples = unat (fbNumSamples f),
     bmNumFloatSamples = unat (fbNumSamples f), bmNumSeries = length (nonEmptySeriesF f), bmNumChunks = fbNumChunks f\<rparr>"

definition FinalizeF :: "('c, 'l) fragLib \<Rightarrow> ('c, 'l) FragmentBlockFinalizer \<Rightarrow> ('c, 'l) TSDBBlockArtifact option" where
  "FinalizeF lib f =
     (if fbNumSamples f = 0 then None
      else let (ss, d) = mergeSeries (fbSeries f) (fbNumOOODropped f);
               f = f\<lparr>fbSeries := ss, fbNumOOODropped := d\<rparr>
           in Some \<lparr>aChunks = writeChunksF lib f, aIndex = writeIndexF lib f, aMeta = writeMetaF f, aMinTime = fbMinTime f, aMaxTime = fbMaxTime f,
                aNumSeries = length (nonEmptySeriesF f), aNumSamples = unat (fbNumSamples f), aNumChunks = fbNumChunks f, aNumOOODropped = fbNumOOODropped f\<rparr>)"

section \<open>Overlaps\<close>

lemma dropOverlaps_kept:
  "\<forall>m \<in> set cs. mMinTime m \<le> mMaxTime m \<Longrightarrow>
   sorted_wrt (\<lambda>m m'. mMaxTime m < mMinTime m') (fst (dropOverlaps w cs d)) \<and>
   (\<forall>m \<in> set (fst (dropOverlaps w cs d)). m \<in> set cs \<and> w < mMinTime m) \<and>
   length (fst (dropOverlaps w cs d)) + snd (dropOverlaps w cs d) = length cs + d"
proof (induction w cs d rule: dropOverlaps.induct)
  case (2 w m cs d)
  show ?case
  proof (cases "mMinTime m \<le> w")
    case False
    obtain dst n where r: "dropOverlaps (mMaxTime m) cs d = (dst, n)" by fastforce
    have "sorted_wrt (\<lambda>m m'. mMaxTime m < mMinTime m') dst \<and> (\<forall>c \<in> set dst. c \<in> set cs \<and> mMaxTime m < mMinTime c) \<and> length dst + n = length cs + d"
      using "2.IH"(2) [OF False] "2.prems" r by simp
    then show ?thesis using False "2.prems" r by (auto simp: Let_def)
  qed (use 2 in auto)
qed simp

lemma dropOverlaps_all:
  "sorted_wrt (\<lambda>m m'. mMaxTime m < mMinTime m') cs \<Longrightarrow> cs = [] \<or> w < mMinTime (hd cs) \<Longrightarrow> dropOverlaps w cs d = (cs, d)"
proof (induction cs arbitrary: w)
  case (Cons m cs)
  then have "cs = [] \<or> mMaxTime m < mMinTime (hd cs)" by (cases cs) auto
  then show ?case using Cons by simp
qed simp

definition merged :: "('c, 'l) fragmentBlockSeries \<Rightarrow> ('c, 'l) fragmentBlockSeries" where
  "merged st = st\<lparr>bsChunks := fst (dropOverlaps MinInt64 (sort_key mMinTime (bsChunks st)) 0)\<rparr>"

lemma dropOverlaps_shift: "dropOverlaps w cs d = (fst (dropOverlaps w cs 0), d + snd (dropOverlaps w cs 0))"
proof (induction cs arbitrary: w d)
  case (Cons m cs)
  show ?case using Cons [of w "d + 1"] Cons [of w 1] Cons [of "mMaxTime m" d] Cons [of "mMaxTime m" 0] by (simp add: split_beta)
qed simp

lemma mergeSeries_eq:
  "mergeSeries ss d = (map (\<lambda>(k, st). (k, merged st)) ss,
     d + sum_list (map (\<lambda>(k, st). snd (dropOverlaps MinInt64 (sort_key mMinTime (bsChunks st)) 0)) ss))"
proof (induction ss d rule: mergeSeries.induct)
  case (2 k st xs d)
  show ?case
    using 2 dropOverlaps_shift [of MinInt64 "sort_key mMinTime (bsChunks st)" d] by (simp add: sort_Slice_key merged_def split_beta)
qed simp

section \<open>Fragments into blocks\<close>

text \<open>
  Beside the chunks and labels, the finalizer relies on the string of a label set being its identity and on iterating over a chunk
  returning its samples.
\<close>

definition block_laws :: "('c, 'l) fragLib \<Rightarrow> ('c \<Rightarrow> (int \<times> u64) list) \<Rightarrow> bool" where
  "block_laws lib content \<longleftrightarrow> label_laws (flProm lib) \<and> inj (lString lib) \<and> (\<forall>c xs. xIterate lib c = Some xs \<longrightarrow> content c = xs)"

fun addFragments ::
    "('c, 'l) fragLib \<Rightarrow> Fragment list \<Rightarrow> ('c, 'l) FragmentBlockFinalizer \<Rightarrow> finalizer_error + ('c, 'l) FragmentBlockFinalizer" where
  "addFragments lib [] f = Inr f"
| "addFragments lib (x # xs) f = res_bind (AddFragment lib x f) (addFragments lib xs)"

text \<open>The chunk a sound fragment carries.\<close>

definition frag_chunk :: "('c, 'l) fragLib \<Rightarrow> Fragment \<Rightarrow> 'c chunkMeta" where
  "frag_chunk lib x = \<lparr>mChunk = the (xFromData lib (fData x)), mMinTime = fMinTime x, mMaxTime = fMaxTime x\<rparr>"

definition frag_labels :: "('c, 'l) fragLib \<Rightarrow> goattrs \<Rightarrow> Fragment \<Rightarrow> 'l" where
  "frag_labels lib ext x = FragmentLabels lib (fMetricName x) (fAttributes x) ext"

definition labelled_frags :: "('c, 'l) fragLib \<Rightarrow> goattrs \<Rightarrow> Fragment list \<Rightarrow> 'l \<Rightarrow> 'c chunkMeta list" where
  "labelled_frags lib ext xs l = map (frag_chunk lib) (filter (\<lambda>x. frag_labels lib ext x = l) xs)"

lemma frag_ok_chunk:
  assumes "block_laws lib content" "frag_ok lib n x"
  shows "xFromData lib (fData x) = Some (mChunk (frag_chunk lib x))" "chunk_ok content n (frag_chunk lib x)" "0 < fCount x" "fData x \<noteq> []"
    "fCount x = int (length (content (mChunk (frag_chunk lib x))))" "fMinTime x \<le> fMaxTime x"
proof -
  obtain xs where d: "DecodeFragmentSamples lib x = Inr xs" "xs \<noteq> []" "fCount x = int (length xs)" "fCount x \<le> n" "sorted_wrt (<) (map fst xs)"
    "fMinTime x = fst (hd xs)" "fMaxTime x = fst (last xs)" using assms(2) by (auto simp: frag_ok_def split: sum.splits)
  then show ne: "fData x \<noteq> []" by (auto simp: DecodeFragmentSamples_def split: if_splits)
  obtain c where c: "xFromData lib (fData x) = Some c" "xIterate lib c = Some xs"
    using d(1,2) by (auto simp: DecodeFragmentSamples_def split: if_splits option.splits)
  then have "content c = xs" using assms(1) by (simp add: block_laws_def)
  then show "xFromData lib (fData x) = Some (mChunk (frag_chunk lib x))" "chunk_ok content n (frag_chunk lib x)" "0 < fCount x"
    "fCount x = int (length (content (mChunk (frag_chunk lib x))))"
    using c d by (simp_all add: frag_chunk_def chunk_ok_def)
  have "fst (hd xs) \<le> fst (last xs)" using sorted_wrt_last [OF d(5), of "hd xs"] d(2) by simp
  then show "fMinTime x \<le> fMaxTime x" using d by simp
qed

text \<open>What the finalizer holds after adding sound fragments.\<close>

definition holds :: "('c, 'l) fragLib \<Rightarrow> Fragment list \<Rightarrow> ('c, 'l) FragmentBlockFinalizer \<Rightarrow> bool" where
  "holds lib xs f \<longleftrightarrow>
     distinct (map fst (fbSeries f)) \<and>
     (\<forall>k st. map_of (fbSeries f) k = Some st \<longrightarrow> k = lString lib (bsLabels st) \<and> bsChunks st = labelled_frags lib (fbExternal f) xs (bsLabels st) \<and> bsChunks st \<noteq> []) \<and>
     (\<forall>x \<in> set xs. map_of (fbSeries f) (lString lib (frag_labels lib (fbExternal f) x)) \<noteq> None \<and> fbMinTime f \<le> fMinTime x \<and> fMaxTime x \<le> fbMaxTime f) \<and>
     fbNumSamples f = word_of_int (sum_list (map fCount xs)) \<and> fbNumChunks f = length xs \<and> fbNumOOODropped f = reported xs \<and>
     mset (concat (map (bsChunks \<circ> snd) (fbSeries f))) = mset (map (frag_chunk lib) xs)"

lemma mset_chunks_update:
  "mset (concat (map (bsChunks \<circ> snd) (AList.update k st' ss))) + mset (case map_of ss k of None \<Rightarrow> [] | Some st \<Rightarrow> bsChunks st) =
   mset (concat (map (bsChunks \<circ> snd) ss)) + mset (bsChunks st')"
  by (induction ss) (auto split: if_splits option.splits)

lemma labelled_frags_snoc:
  "labelled_frags lib ext (xs @ [x]) l = labelled_frags lib ext xs l @ (if frag_labels lib ext x = l then [frag_chunk lib x] else [])"
  by (simp add: labelled_frags_def)

lemma AddFragment_holds:
  assumes laws: "block_laws lib content" and ok: "frag_ok lib n x" and h: "holds lib xs f"
  obtains f' where "AddFragment lib x f = Inr f'" "holds lib (xs @ [x]) f'" "fbExternal f' = fbExternal f"
proof -
  note c = frag_ok_chunk [OF laws ok]
  let ?l = "frag_labels lib (fbExternal f) x"
  let ?k = "lString lib ?l"
  define st where "st = (case map_of (fbSeries f) ?k of Some st \<Rightarrow> st | None \<Rightarrow> \<lparr>bsLabels = ?l, bsChunks = [], bsSamples = 0\<rparr>)"
  define st' where "st' = st\<lparr>bsChunks := bsChunks st @ [frag_chunk lib x], bsSamples := bsSamples st + word_of_int (fCount x)\<rparr>"
  have inj: "lString lib a = lString lib b \<longleftrightarrow> a = b" for a b using laws by (auto simp: block_laws_def inj_def)
  have st: "bsLabels st = ?l \<and> bsChunks st = labelled_frags lib (fbExternal f) xs ?l"
  proof (cases "map_of (fbSeries f) ?k")
    case None
    have "filter (\<lambda>y. frag_labels lib (fbExternal f) y = ?l) xs = []"
      using h None by (auto simp: holds_def filter_empty_conv)
    then show ?thesis using None by (simp add: st_def labelled_frags_def)
  next
    case (Some s)
    then have "?k = lString lib (bsLabels s)" "bsChunks s = labelled_frags lib (fbExternal f) xs (bsLabels s)" using h by (auto simp: holds_def)
    then show ?thesis using Some inj by (simp add: st_def)
  qed
  define f' where "f' = f\<lparr>fbSeries := AList.update ?k st' (fbSeries f),
     fbNumSamples := fbNumSamples f + word_of_int (fCount x), fbNumChunks := fbNumChunks f + 1,
     fbNumOOODropped := fbNumOOODropped f + fOOODropCount x,
     fbMinTime := (if fMinTime x < fbMinTime f then fMinTime x else fbMinTime f),
     fbMaxTime := (if fMaxTime x > fbMaxTime f then fMaxTime x else fbMaxTime f)\<rparr>"
  have "frag_chunk lib x = \<lparr>mChunk = mChunk (frag_chunk lib x), mMinTime = fMinTime x, mMaxTime = fMaxTime x\<rparr>" by (simp add: frag_chunk_def)
  note ch = c(1) this
  have ne: "\<not> (fCount x = 0 \<or> fData x = [])" using c(3,4) by simp
  have "AddFragment lib x f = Inr f'"
    unfolding AddFragment_def if_not_P [OF ne] ch(1) option.case Let_def frag_labels_def [symmetric] st_def [symmetric]
      ch(2) [symmetric] st'_def [symmetric] f'_def [symmetric] by (rule refl)
  moreover have "fbExternal f' = fbExternal f" by (simp add: f'_def)
  moreover have "holds lib (xs @ [x]) f'" unfolding holds_def
  proof (intro conjI allI impI ballI)
    show "distinct (map fst (fbSeries f'))" using h by (simp add: f'_def holds_def distinct_update)
    show "fbNumSamples f' = word_of_int (sum_list (map fCount (xs @ [x])))" "fbNumChunks f' = length (xs @ [x])" "fbNumOOODropped f' = reported (xs @ [x])"
      using h by (simp_all add: f'_def holds_def)
    have "mset (bsChunks st) = mset (case map_of (fbSeries f) ?k of None \<Rightarrow> [] | Some st \<Rightarrow> bsChunks st)"
      by (simp add: st_def split: option.split)
    then show "mset (concat (map (bsChunks \<circ> snd) (fbSeries f'))) = mset (map (frag_chunk lib) (xs @ [x]))"
      using h mset_chunks_update [of ?k st' "fbSeries f"] by (simp add: f'_def holds_def st'_def)
    fix k s assume k: "map_of (fbSeries f') k = Some s"
    have cases: "(k = ?k \<and> s = st') \<or> (k \<noteq> ?k \<and> map_of (fbSeries f) k = Some s)" using k by (auto simp: f'_def update_conv split: if_splits)
    then have "k = lString lib (bsLabels s) \<and> bsChunks s = labelled_frags lib (fbExternal f) (xs @ [x]) (bsLabels s) \<and> bsChunks s \<noteq> []"
      using h st inj by (auto simp: holds_def labelled_frags_snoc st'_def)
    then show "k = lString lib (bsLabels s)" "bsChunks s = labelled_frags lib (fbExternal f') (xs @ [x]) (bsLabels s)" "bsChunks s \<noteq> []"
      unfolding \<open>fbExternal f' = fbExternal f\<close> by blast+
  next
    fix y assume "y \<in> set (xs @ [x])"
    then show "map_of (fbSeries f') (lString lib (frag_labels lib (fbExternal f') y)) \<noteq> None" "fbMinTime f' \<le> fMinTime y" "fMaxTime y \<le> fbMaxTime f'"
      using h by (auto simp: f'_def holds_def update_conv)
  qed
  ultimately show ?thesis using that by blast
qed

lemma addFragments_holds:
  assumes "block_laws lib content"
  shows "\<forall>x \<in> set xs. frag_ok lib n x \<Longrightarrow> holds lib ys f \<Longrightarrow>
    \<exists>f'. addFragments lib xs f = Inr f' \<and> holds lib (ys @ xs) f' \<and> fbExternal f' = fbExternal f"
proof (induction xs arbitrary: ys f)
  case (Cons x xs)
  then obtain f1 where f1: "AddFragment lib x f = Inr f1" "holds lib (ys @ [x]) f1" "fbExternal f1 = fbExternal f"
    using AddFragment_holds [OF assms, of n x ys f] by auto
  then show ?case using Cons.IH [of "ys @ [x]" f1] Cons.prems by simp
qed simp

lemma new_finalizer_holds: "holds lib [] (NewFragmentBlockFinalizer ext)" "fbExternal (NewFragmentBlockFinalizer ext) = ext"
  by (simp_all add: holds_def NewFragmentBlockFinalizer_def)

section \<open>Finished blocks\<close>

lemma finalized_block:
  assumes laws: "block_laws lib content" and ok: "\<forall>x \<in> set xs. frag_ok lib n x" and h: "holds lib xs f" and fin: "FinalizeF lib f = Some a"
  defines "ss \<equiv> filter (\<lambda>st. bsChunks st \<noteq> []) (map (merged \<circ> snd) (fbSeries f))"
  shows "aIndex a = index_of (flProm lib) bsLabels bsChunks ss" "aChunks a = map bsChunks (sort_Slice (\<lambda>x y. lCompare (flProm lib) (bsLabels x) (bsLabels y) < 0) ss)"
    "distinct (map (\<lambda>st. lRange (flProm lib) (bsLabels st)) ss)" "bmMinTime (aMeta a) = fbMinTime f" "bmMaxTime (aMeta a) = fbMaxTime f + 1"
    "aNumSamples a = unat (word_of_int (sum_list (map fCount xs)) :: u64)" "aNumChunks a = length xs" "aNumSeries a = length ss"
    "aNumOOODropped a = reported xs + sum_list (map (\<lambda>(k, st). snd (dropOverlaps MinInt64 (sort_key mMinTime (bsChunks st)) 0)) (fbSeries f))"
proof -
  have m: "map snd (map (\<lambda>(k, st). (k, merged st)) (fbSeries f)) = map (merged \<circ> snd) (fbSeries f)" by auto
  have "fbNumSamples f \<noteq> 0" using fin by (auto simp: FinalizeF_def)
  then have a: "a = (let g = f\<lparr>fbSeries := fst (mergeSeries (fbSeries f) (fbNumOOODropped f)), fbNumOOODropped := snd (mergeSeries (fbSeries f) (fbNumOOODropped f))\<rparr>
      in \<lparr>aChunks = writeChunksF lib g, aIndex = writeIndexF lib g, aMeta = writeMetaF g, aMinTime = fbMinTime g, aMaxTime = fbMaxTime g,
          aNumSeries = length (nonEmptySeriesF g), aNumSamples = unat (fbNumSamples g), aNumChunks = fbNumChunks g, aNumOOODropped = fbNumOOODropped g\<rparr>)"
    using fin by (simp add: FinalizeF_def Let_def split_beta)
  note defs = a Let_def mergeSeries_eq nonEmptySeriesF_def
  show "aIndex a = index_of (flProm lib) bsLabels bsChunks ss"
    by (simp add: defs writeIndexF_def index_of_def sortedSymbolsF_def sortedSeriesF_def ss_def m del: map_map)
  show "aChunks a = map bsChunks (sort_Slice (\<lambda>x y. lCompare (flProm lib) (bsLabels x) (bsLabels y) < 0) ss)"
    by (simp add: defs writeChunksF_def sortedSeriesF_def ss_def m del: map_map)
  show "aNumSeries a = length ss" unfolding ss_def m [symmetric] by (simp add: defs del: map_map)
  show "bmMinTime (aMeta a) = fbMinTime f" "bmMaxTime (aMeta a) = fbMaxTime f + 1" by (simp_all add: defs writeMetaF_def)
  show "aNumSamples a = unat (word_of_int (sum_list (map fCount xs)) :: u64)" "aNumChunks a = length xs"
    "aNumOOODropped a = reported xs + sum_list (map (\<lambda>(k, st). snd (dropOverlaps MinInt64 (sort_key mMinTime (bsChunks st)) 0)) (fbSeries f))"
    using h by (simp_all add: defs holds_def)
  have "inj (lRange (flProm lib))" using laws by (auto simp: block_laws_def label_laws_def inj_def)
  moreover have "distinct (map (bsLabels \<circ> snd) (fbSeries f))"
  proof -
    have "map fst (fbSeries f) = map (lString lib \<circ> (bsLabels \<circ> snd)) (fbSeries f)" and d: "distinct (map fst (fbSeries f))"
      using h by (auto simp: holds_def map_of_eq_Some_iff)
    then have "distinct (map (lString lib) (map (bsLabels \<circ> snd) (fbSeries f)))" by (simp only: map_map)
    then show ?thesis using distinct_map by blast
  qed
  ultimately have "distinct (map (\<lambda>st. lRange (flProm lib) (bsLabels st)) (map (merged \<circ> snd) (fbSeries f)))"
    by (simp add: merged_def comp_def distinct_map inj_on_def inj_def)
  then show "distinct (map (\<lambda>st. lRange (flProm lib) (bsLabels st)) ss)" unfolding ss_def by (rule distinct_map_filter)
qed

lemma mset_concat_map: "mset (concat (map g xs)) = (\<Sum>x \<in># mset xs. mset (g x))"
  by (induction xs) simp_all

lemma length_concat_mset: "length (concat (map g xs)) = (\<Sum>x \<in># mset xs. length (g x))"
  by (induction xs) simp_all

lemma sum_chunks_filter: "sum_list (map (length \<circ> bsChunks) (filter (\<lambda>st. bsChunks st \<noteq> []) ss)) = sum_list (map (length \<circ> bsChunks) ss)"
  by (induction ss) auto

text \<open>The chunks of a series as they were added.\<close>

lemma held_series: "holds lib xs f \<Longrightarrow> (k, st) \<in> set (fbSeries f) \<Longrightarrow> bsChunks st = labelled_frags lib (fbExternal f) xs (bsLabels st) \<and> bsChunks st \<noteq> []"
  unfolding holds_def by (metis map_of_eq_Some_iff)

lemma held_chunks:
  assumes "block_laws lib content" "\<forall>x \<in> set xs. frag_ok lib n x" "holds lib xs f" "(k, st) \<in> set (fbSeries f)" "m \<in> set (bsChunks st)"
  shows "chunk_ok content n m \<and> mMinTime m \<le> mMaxTime m \<and> fbMinTime f \<le> mMinTime m \<and> mMaxTime m \<le> fbMaxTime f"
proof -
  have "bsChunks st = labelled_frags lib (fbExternal f) xs (bsLabels st)" using held_series [OF assms(3,4)] by blast
  then obtain x where x: "x \<in> set xs" "m = frag_chunk lib x" using assms(5) by (auto simp: labelled_frags_def)
  have "mMinTime m = fMinTime x" "mMaxTime m = fMaxTime x" using x(2) by (simp_all add: frag_chunk_def)
  then show ?thesis using frag_ok_chunk [OF assms(1), of n x] assms(2,3) x by (auto simp: holds_def)
qed

text \<open>
  Property C27. Whatever sound fragments are added, in any order and from any encoders, the finished block is one the Prometheus writers
  accept: the series have distinct label sets in increasing order, the chunks of a series are sorted and do not overlap and carry the
  time bounds of their samples within those of the block, all label names and values are symbols; and
  every fragment's chunk is either written or counted as one drop beside the drops the fragments report.
\<close>

theorem FinalizeF_index_ready:
  assumes "block_laws lib content" "\<forall>x \<in> set xs. frag_ok lib n x" "addFragments lib xs (NewFragmentBlockFinalizer ext) = Inr f" "FinalizeF lib f = Some a"
  shows "index_ready (flProm lib) content n a \<and> length (concat (aChunks a)) + aNumOOODropped a = length xs + reported xs \<and> aNumSeries a = length (aChunks a)"
proof -
  obtain f' where "addFragments lib xs (NewFragmentBlockFinalizer ext) = Inr f'" "holds lib ([] @ xs) f'"
    using addFragments_holds [OF assms(1,2) new_finalizer_holds(1)] by blast
  then have h: "holds lib xs f" using assms(3) by simp
  note fb = finalized_block [OF assms(1,2) h assms(4)]
  let ?ss = "filter (\<lambda>st. bsChunks st \<noteq> []) (map (merged \<circ> snd) (fbSeries f))"
  have kept: "sorted_wrt (\<lambda>m m'. mMaxTime m < mMinTime m') (bsChunks (merged st)) \<and> set (bsChunks (merged st)) \<subseteq> set (bsChunks st) \<and>
      length (bsChunks (merged st)) + snd (dropOverlaps MinInt64 (sort_key mMinTime (bsChunks st)) 0) = length (bsChunks st)"
    if "(k, st) \<in> set (fbSeries f)" for k st
    using dropOverlaps_kept [of "sort_key mMinTime (bsChunks st)" MinInt64 0] held_chunks [OF assms(1,2) h that] by (auto simp: merged_def)
  have "label_laws (flProm lib)" using assms(1) by (simp add: block_laws_def)
  then have "index_ready (flProm lib) content n a"
  proof (rule index_of_ready [OF _ fb(3) _ fb(1)], intro ballI)
    fix st assume "st \<in> set ?ss"
    then obtain k s where s: "(k, s) \<in> set (fbSeries f)" "st = merged s" "bsChunks st \<noteq> []" by auto
    then show "bsChunks st \<noteq> [] \<and> (\<forall>m \<in> set (bsChunks st). chunk_ok content n m \<and> bmMinTime (aMeta a) \<le> mMinTime m \<and> mMaxTime m < bmMaxTime (aMeta a)) \<and>
        sorted_wrt (\<lambda>m m'. mMaxTime m < mMinTime m') (bsChunks st)"
      using kept [OF s(1)] held_chunks [OF assms(1,2) h s(1)] fb(4,5) by fastforce
  qed
  moreover have "length (concat (aChunks a)) + aNumOOODropped a = length xs + reported xs"
  proof -
    let ?lost = "\<lambda>(k, st). snd (dropOverlaps MinInt64 (sort_key mMinTime (bsChunks st)) 0)"
    have "length (concat (aChunks a)) = sum_list (map (length \<circ> bsChunks) ?ss)"
      unfolding fb(2) length_concat_mset mset_sort_Slice by (simp only: length_concat_mset [symmetric] length_concat map_map)
    also have "\<dots> = sum_list (map (length \<circ> bsChunks \<circ> merged \<circ> snd) (fbSeries f))"
      unfolding sum_chunks_filter by (simp add: comp_assoc)
    finally have len: "length (concat (aChunks a)) = sum_list (map (\<lambda>(k, st). length (bsChunks (merged st))) (fbSeries f))" by (simp add: comp_def case_prod_unfold)
    have "sum_list (map (\<lambda>(k, st). length (bsChunks (merged st))) ps) + sum_list (map ?lost ps) = length (concat (map (bsChunks \<circ> snd) ps))"
      if "set ps \<subseteq> set (fbSeries f)" for ps
      using that
    proof (induction ps)
      case (Cons p ps)
      obtain k st where p: "p = (k, st)" by (cases p)
      then show ?case using Cons kept [of k st] by simp
    qed simp
    from this [of "fbSeries f"] have "length (concat (aChunks a)) + sum_list (map ?lost (fbSeries f)) = length (concat (map (bsChunks \<circ> snd) (fbSeries f)))"
      using len by simp
    moreover have "length (concat (map (bsChunks \<circ> snd) (fbSeries f))) = length xs" using h unfolding holds_def by (metis length_map size_mset)
    ultimately show ?thesis using fb(9) by simp
  qed
  moreover have "aNumSeries a = length (aChunks a)" using fb(2,8) by simp
  ultimately show ?thesis by blast
qed

text \<open>Fragments of one label set do not overlap, in whatever order they are added.\<close>

definition apart :: "'c chunkMeta \<Rightarrow> 'c chunkMeta \<Rightarrow> bool" where
  "apart m m' \<longleftrightarrow> mMaxTime m < mMinTime m' \<or> mMaxTime m' < mMinTime m"

definition frags_apart :: "('c, 'l) fragLib \<Rightarrow> goattrs \<Rightarrow> Fragment list \<Rightarrow> bool" where
  "frags_apart lib ext xs \<longleftrightarrow>
     sorted_wrt (\<lambda>x y. frag_labels lib ext x = frag_labels lib ext y \<longrightarrow> fMaxTime x < fMinTime y \<or> fMaxTime y < fMinTime x) xs"

lemma apart_sort: "sorted_wrt apart cs \<Longrightarrow> sorted_wrt apart (sort_key mMinTime cs)"
proof (induction cs)
  case (Cons c cs)
  have "sorted_wrt apart (insort_key mMinTime c ds)" if "sorted_wrt apart ds" "\<forall>d \<in> set ds. apart c d" for ds
    using that by (induction ds) (auto simp: set_insort_key apart_def)
  then show ?case using Cons by simp
qed simp

lemma apart_sorted:
  assumes "sorted_wrt apart cs" "\<forall>m \<in> set cs. mMinTime m \<le> mMaxTime m"
  shows "sorted_wrt (\<lambda>m m'. mMaxTime m < mMinTime m') (sort_key mMinTime cs)"
proof -
  let ?ds = "sort_key mMinTime cs"
  have "mMaxTime (?ds ! i) < mMinTime (?ds ! j)" if ij: "i < j" "j < length ?ds" for i j
  proof -
    have "apart (?ds ! i) (?ds ! j)" using apart_sort [OF assms(1)] ij by (simp add: sorted_wrt_iff_nth_less)
    moreover have "mMinTime (?ds ! i) \<le> mMinTime (?ds ! j)" using sorted_sort_key [of mMinTime cs] ij by (simp add: sorted_iff_nth_mono_less)
    moreover have "mMinTime (?ds ! j) \<le> mMaxTime (?ds ! j)" using assms(2) ij nth_mem [of j ?ds] by simp
    ultimately show ?thesis by (auto simp: apart_def)
  qed
  then show ?thesis by (simp add: sorted_wrt_iff_nth_less)
qed

lemma labelled_apart: "frags_apart lib ext xs \<Longrightarrow> sorted_wrt apart (labelled_frags lib ext xs l)"
  by (induction xs) (auto simp: frags_apart_def labelled_frags_def apart_def frag_chunk_def)

text \<open>
  Property C26. When the fragments of each label set cover disjoint time ranges, the block is lossless: every chunk is written, under its
  label set and in time order, the drop count is the sum of the reported ones, and the counts of chunks and (below
  $2^{64}$) samples are those of what is written.
\<close>

theorem apart_fragments_kept:
  assumes "block_laws lib content" "\<forall>x \<in> set xs. frag_ok lib n x \<and> MinInt64 < fMinTime x" "frags_apart lib ext xs"
    "addFragments lib xs (NewFragmentBlockFinalizer ext) = Inr f" "FinalizeF lib f = Some a" "sum_list (map fCount xs) < 2 ^ 64"
  shows "mset (concat (aChunks a)) = mset (map (frag_chunk lib) xs) \<and>
    (\<forall>(i, l, cs) \<in> set (snd (aIndex a)). cs = sort_key mMinTime (labelled_frags lib ext xs l)) \<and>
    aNumOOODropped a = reported xs \<and> aNumChunks a = length (concat (aChunks a)) \<and>
    int (aNumSamples a) = (\<Sum>m\<leftarrow>concat (aChunks a). int (length (content (mChunk m))))"
proof -
  have ok: "\<forall>x \<in> set xs. frag_ok lib n x" using assms(2) by blast
  obtain f' where "addFragments lib xs (NewFragmentBlockFinalizer ext) = Inr f'" "holds lib ([] @ xs) f'" "fbExternal f' = ext"
    using addFragments_holds [OF assms(1) ok new_finalizer_holds(1)] new_finalizer_holds(2) by metis
  then have h: "holds lib xs f" "fbExternal f = ext" using assms(4) by simp_all
  note fb = finalized_block [OF assms(1) ok h(1) assms(5)]
  let ?ss = "filter (\<lambda>st. bsChunks st \<noteq> []) (map (merged \<circ> snd) (fbSeries f))"
  have all: "dropOverlaps MinInt64 (sort_key mMinTime (bsChunks st)) 0 = (sort_key mMinTime (bsChunks st), 0) \<and>
      bsChunks st = labelled_frags lib ext xs (bsLabels st) \<and> bsChunks st \<noteq> []" if st: "(k, st) \<in> set (fbSeries f)" for k st
  proof -
    have c: "bsChunks st = labelled_frags lib ext xs (bsLabels st)" "bsChunks st \<noteq> []" using held_series [OF h(1) st] unfolding h(2) by blast+
    have "sorted_wrt (\<lambda>m m'. mMaxTime m < mMinTime m') (sort_key mMinTime (bsChunks st))"
      using labelled_apart [OF assms(3)] held_chunks [OF assms(1) ok h(1) st] c(1) by (intro apart_sorted) simp_all
    moreover have "MinInt64 < mMinTime m" if "m \<in> set (sort_key mMinTime (bsChunks st))" for m
      using that assms(2) unfolding c(1) by (auto simp: labelled_frags_def frag_chunk_def)
    then have "MinInt64 < mMinTime (hd (sort_key mMinTime (bsChunks st)))" using c(2) by (metis hd_in_set length_0_conv length_sort)
    ultimately show ?thesis using dropOverlaps_all c by blast
  qed
  have m: "merged st = st\<lparr>bsChunks := sort_key mMinTime (bsChunks st)\<rparr>" "bsChunks (merged st) \<noteq> []" if "(k, st) \<in> set (fbSeries f)" for k st
    using all [OF that] by (auto simp: merged_def) (metis length_0_conv length_sort)
  have ss: "?ss = map (merged \<circ> snd) (fbSeries f)" using m(2) by (auto simp: filter_id_conv)
  have "mset (concat (aChunks a)) = mset (concat (map bsChunks ?ss))" unfolding fb(2) mset_concat_map mset_sort_Slice ..
  also have "\<dots> = mset (concat (map (bsChunks \<circ> snd) (fbSeries f)))"
  proof -
    have "mset (concat (map bsChunks (map (merged \<circ> snd) ps))) = mset (concat (map (bsChunks \<circ> snd) ps))" if "set ps \<subseteq> set (fbSeries f)" for ps
      using that by (induction ps) (auto simp: m(1))
    then show ?thesis unfolding ss by blast
  qed
  also have "\<dots> = mset (map (frag_chunk lib) xs)" using h(1) by (simp add: holds_def)
  finally have chunks: "mset (concat (aChunks a)) = mset (map (frag_chunk lib) xs)" .
  have "cs = sort_key mMinTime (labelled_frags lib ext xs l)" if ent: "(i, l, cs) \<in> set (snd (aIndex a))" for i l cs
  proof -
    let ?sl = "sort_Slice (\<lambda>x y. lCompare (flProm lib) (bsLabels x) (bsLabels y) < 0) ?ss"
    obtain j where "j < length ?ss" "l = bsLabels (?sl ! j)" "cs = bsChunks (?sl ! j)"
      using ent unfolding fb(1) by (auto simp: index_of_def in_set_enumerate_eq)
    then obtain st where "st \<in> set ?ss" "l = bsLabels st" "cs = bsChunks st" using nth_mem [of j ?sl] by auto
    then obtain k s where "(k, s) \<in> set (fbSeries f)" "l = bsLabels (merged s)" "cs = bsChunks (merged s)" by auto
    then show ?thesis using all [of k s] m(1) [of k s] by simp
  qed
  moreover have "snd (dropOverlaps MinInt64 (sort_key mMinTime (bsChunks st)) 0) = 0" if "(k, st) \<in> set (fbSeries f)" for k st
    using conjunct1 [OF all [OF that]] by simp
  then have "sum_list (map (\<lambda>(k, st). snd (dropOverlaps MinInt64 (sort_key mMinTime (bsChunks st)) 0)) (fbSeries f)) = 0"
    by (fastforce simp: sum_list_eq_0_iff)
  then have "aNumOOODropped a = reported xs" using fb(9) by simp
  moreover have len: "length (concat (aChunks a)) = length xs" using chunks by (metis length_map size_mset)
  moreover have "int (aNumSamples a) = (\<Sum>m\<leftarrow>concat (aChunks a). int (length (content (mChunk m))))"
  proof -
    have "(\<Sum>m\<leftarrow>concat (aChunks a). int (length (content (mChunk m)))) = (\<Sum>m\<leftarrow>map (frag_chunk lib) xs. int (length (content (mChunk m))))"
      by (simp only: sum_mset_sum_list [symmetric] mset_map chunks)
    also have "\<dots> = sum_list (map fCount xs)"
    proof -
      have "fCount x = int (length (content (mChunk (frag_chunk lib x))))" if "x \<in> set xs" for x using frag_ok_chunk(5) [OF assms(1)] ok that by blast
      then have "map (\<lambda>m. int (length (content (mChunk m)))) (map (frag_chunk lib) xs) = map fCount xs" by simp
      then show ?thesis by (rule arg_cong)
    qed
    finally have s: "(\<Sum>m\<leftarrow>concat (aChunks a). int (length (content (mChunk m)))) = sum_list (map fCount xs)" .
    moreover have "0 \<le> sum_list (map fCount xs)" unfolding s [symmetric] by (intro sum_list_nonneg) auto
    ultimately show ?thesis using assms(6) fb(6) by (simp add: unsigned_of_int take_bit_int_eq_self)
  qed
  ultimately show ?thesis using chunks fb(7) by auto
qed

section \<open>Examples\<close>

text \<open>Label sets as strings, every byte marked and every string ended.\<close>

definition quote :: "gostr \<Rightarrow> gostr" where
  "quote s = concat (map (\<lambda>b. [1, b]) s) @ [0]"

lemma quote_cancel: "quote s @ x = quote t @ y \<longleftrightarrow> s = t \<and> x = y"
proof (induction s arbitrary: t)
  case Nil
  then show ?case by (cases t) (auto simp: quote_def)
next
  case (Cons b s)
  then show ?case by (cases t) (auto simp: quote_def)
qed

definition quoteLabels :: "goattrs \<Rightarrow> gostr" where
  "quoteLabels ls = concat (map (\<lambda>(k, v). quote k @ quote v) ls)"

lemma inj_quoteLabels: "inj quoteLabels"
proof (rule injI)
  have ne: "quote k \<noteq> []" for k by (simp add: quote_def)
  show "x = y" if "quoteLabels x = quoteLabels y" for x y
    using that
  proof (induction x arbitrary: y)
    case Nil
    then show ?case using ne by (cases y) (auto simp: quoteLabels_def)
  next
    case (Cons p x)
    obtain k v where p: "p = (k, v)" by (cases p)
    show ?case
    proof (cases y)
      case Nil
      then show ?thesis using Cons.prems p ne by (simp add: quoteLabels_def)
    next
      case (Cons q z)
      obtain k' v' where q: "q = (k', v')" by (cases q)
      then have "quote k @ (quote v @ quoteLabels x) = quote k' @ (quote v' @ quoteLabels z)" using Cons.prems p Cons by (simp add: quoteLabels_def)
      then show ?thesis using Cons.IH [of z] p q Cons unfolding quote_cancel by simp
    qed
  qed
qed

definition listBlock :: "((int \<times> u64) list, (gostr \<times> gostr) list) fragLib" where
  "listBlock = listFrag\<lparr>flProm := listLib, lString := quoteLabels\<rparr>"

lemma listBlock_laws: "block_laws listBlock (\<lambda>c. c)"
  using listLib_labels inj_quoteLabels by (simp add: block_laws_def listBlock_def listFrag_def)

definition block_fragment :: "int \<Rightarrow> int \<Rightarrow> Fragment" where
  "block_fragment t t' = \<lparr>fMetricName = bytes_of ''m'', fAttributes = [], fMinTime = t, fMaxTime = t', fCount = 2, fEncoding = [],
     fData = xBytes listBlock [(t, 7), (t', 8)], fOOODropCount = 1, fFragmentULID = [], fSource = [], fWatermarkTime = 0\<rparr>"

definition built_block :: "Fragment list \<Rightarrow> ((int \<times> u64) list, (gostr \<times> gostr) list) TSDBBlockArtifact option" where
  "built_block xs = (case addFragments listBlock xs (NewFragmentBlockFinalizer []) of Inl err \<Rightarrow> None | Inr f \<Rightarrow> FinalizeF listBlock f)"

definition apart_pair :: "Fragment list" where "apart_pair = [block_fragment 30 40, block_fragment 10 20]"

definition overlapping_pair :: "Fragment list" where "overlapping_pair = [block_fragment 10 30, block_fragment 20 40]"

lemma apart_pair_ok:
  "\<forall>x \<in> set apart_pair. frag_ok listBlock 120 x \<and> MinInt64 < fMinTime x" "frags_apart listBlock [] apart_pair"
  "sum_list (map fCount apart_pair) < 2 ^ 64" "\<exists>a. built_block apart_pair = Some a"
proof -
  have "frag_ok listBlock 120 (block_fragment 30 40)" "frag_ok listBlock 120 (block_fragment 10 20)" by code_simp+
  then show "\<forall>x \<in> set apart_pair. frag_ok listBlock 120 x \<and> MinInt64 < fMinTime x" by (simp add: apart_pair_def) (simp add: block_fragment_def)
  show "frags_apart listBlock [] apart_pair" by (simp add: frags_apart_def apart_pair_def) (simp add: block_fragment_def)
  show "sum_list (map fCount apart_pair) < 2 ^ 64" by (simp add: apart_pair_def block_fragment_def)
  have "built_block apart_pair \<noteq> None" by code_simp
  then show "\<exists>a. built_block apart_pair = Some a" by simp
qed

theorem apart_fragments_kept_witness:
  "\<exists>a. built_block apart_pair = Some a \<and> mset (concat (aChunks a)) = mset (map (frag_chunk listBlock) apart_pair) \<and> aNumOOODropped a = reported apart_pair"
proof -
  obtain a where a: "built_block apart_pair = Some a" using apart_pair_ok(4) by blast
  then obtain f where "addFragments listBlock apart_pair (NewFragmentBlockFinalizer []) = Inr f" "FinalizeF listBlock f = Some a"
    by (auto simp: built_block_def split: sum.splits)
  from apart_fragments_kept [OF listBlock_laws apart_pair_ok(1,2) this apart_pair_ok(3)] show ?thesis using a by blast
qed

theorem FinalizeF_index_ready_witness:
  "\<exists>a. built_block overlapping_pair = Some a \<and> index_ready listLib (\<lambda>c. c) 120 a \<and> length (concat (aChunks a)) + aNumOOODropped a = 4"
proof -
  have ok: "\<forall>x \<in> set overlapping_pair. frag_ok listBlock 120 x" by code_simp
  have "built_block overlapping_pair \<noteq> None" by code_simp
  then obtain a f where a: "built_block overlapping_pair = Some a"
    "addFragments listBlock overlapping_pair (NewFragmentBlockFinalizer []) = Inr f" "FinalizeF listBlock f = Some a"
    by (auto simp: built_block_def split: sum.splits)
  from FinalizeF_index_ready [OF listBlock_laws ok a(2,3)] a(1) show ?thesis by (auto simp: listBlock_def overlapping_pair_def block_fragment_def)
qed

text \<open>
  A chunk left out for overlap is still counted in the block: two overlapping fragments of two samples each give a block
  with one chunk of two samples whose meta data announce two chunks and four samples, and whose drop count grows by one.
\<close>

theorem overlap_overcounts:
  "map_option (\<lambda>a. (aChunks a, aNumChunks a, aNumSamples a, bmNumSamples (aMeta a), aNumOOODropped a)) (built_block overlapping_pair) =
   Some ([[\<lparr>mChunk = [(10, 7), (30, 8)], mMinTime = 10, mMaxTime = 30\<rparr>]], 2, 4, 4, 3)"
  by code_simp

end
