(* ===== verification/ByteCursor.thy ===== *)
theory ByteCursor
  imports Varint "HOL-Library.Sublist"
begin

text \<open>
  Cursors over bytes. Two packages of the repository declare the same struct, a buffer and a position, with bounds-checked
  reads: \<^verbatim>\<open>codecReader\<close> in \<^verbatim>\<open>asap-gorilla-go/fragment_codec.go\<close> and \<^verbatim>\<open>reader\<close> in \<^verbatim>\<open>asap-gorilla-go/coldpart/coldpart.go\<close>. The
  record is shared; each package's theory models its own reads, with its own errors, and the locale \<open>byte_cursor\<close> is what
  they have in common: what reading a field of a format means and how fields are put together.
\<close>

record codecReader =
  crBuf :: "u8 list"
  crPos :: nat

text \<open>The cursor between what has been read and what follows.\<close>

definition at :: "u8 list \<Rightarrow> u8 list \<Rightarrow> codecReader" where
  "at before after = \<lparr>crBuf = before @ after, crPos = length before\<rparr>"

lemma rest_at [simp]: "drop (crPos (at before after)) (crBuf (at before after)) = after"
  by (simp add: at_def)

lemma at_advance [simp]: "(at before (x @ after))\<lparr>crPos := length before + length x\<rparr> = at (before @ x) after"
  by (simp add: at_def)

lemma at_simps [simp]: "crPos (at before after) = length before" "crBuf (at before after) = before @ after"
  by (simp_all add: at_def)

section \<open>Truncated fields\<close>

lemma strict_prefix_split:
  assumes "strict_prefix z (x @ y)"
  obtains "strict_prefix z x" | y' where "z = x @ y'" "strict_prefix y' y"
proof (cases "z = x")
  case True
  then show ?thesis using assms that(2) [of "[]"] by (auto simp: strict_prefix_def)
next
  case False
  then show ?thesis using assms that by (auto simp: strict_prefix_def prefix_append)
qed

lemma put_uvarint_bytes: "\<exists>bs b. put_uvarint v = bs @ [b] \<and> (\<forall>c \<in> set bs. \<not> c < 0x80)"
proof (induction v rule: put_uvarint.induct)
  case (1 v)
  show ?case
  proof (cases "0x80 \<le> v")
    case True
    then obtain bs b where "put_uvarint (drop_bit 7 v) = bs @ [b]" "\<forall>c \<in> set bs. \<not> c < 0x80" using 1 by blast
    then have "put_uvarint v = ((ucast v OR 0x80) # bs) @ [b] \<and> (\<forall>c \<in> set ((ucast v OR 0x80) # bs). \<not> c < 0x80)"
      using True put_uvarint_high_bit by (subst put_uvarint.simps) simp
    then show ?thesis by blast
  qed (subst put_uvarint.simps, auto)
qed

lemma uvarint_loop_short: "\<forall>c \<in> set bs. \<not> c < 0x80 \<Longrightarrow> length bs + i \<le> 10 \<Longrightarrow> uvarint_loop bs i x = (0, 0)"
  by (induction bs arbitrary: i x) (auto simp: MaxVarintLen64_def)

lemma uvarint_truncated:
  assumes "strict_prefix y (put_uvarint v)"
  shows "binary_Uvarint y = (0, 0)"
proof -
  obtain bs b where bs: "put_uvarint v = bs @ [b]" "\<forall>c \<in> set bs. \<not> c < 0x80" using put_uvarint_bytes by blast
  then have "prefix y bs" using assms by (auto simp: strict_prefix_def)
  then have "\<forall>c \<in> set y. \<not> c < 0x80" "length y \<le> length bs" using bs(2) by (auto simp: prefix_def)
  then show ?thesis using uvarint_loop_short [of y 0 0] put_uvarint_max [of v] bs(1) by (simp add: binary_Uvarint_def)
qed

text \<open>The end of a slice of a buffer that fits an \<^verbatim>\<open>int\<close>.\<close>

lemma slice_end:
  assumes "m + n < 2 ^ 63"
  shows "sint (word_of_nat m + word_of_nat n :: i64) = int m + int n" "sint (word_of_nat n :: i64) = int n"
proof -
  show "sint (word_of_nat m + word_of_nat n :: i64) = int m + int n" using sint_of_nat_u64 [OF assms] by (simp del: sint_of_nat_u64)
  show "sint (word_of_nat n :: i64) = int n" using assms by (intro sint_of_nat_u64) simp
qed

section \<open>Reading fields\<close>

text \<open>
  A cursor reads a field when it returns the field's value and moves past its bytes whatever follows, and reports an error that is not
  a panic when the bytes are cut short.
\<close>

definition reads :: "'e \<Rightarrow> (codecReader \<Rightarrow> 'e + 'a \<times> codecReader) \<Rightarrow> u8 list \<Rightarrow> 'a \<Rightarrow> bool" where
  "reads panic p x v \<longleftrightarrow>
     (\<forall>before after. length before + length x + length after < 2 ^ 63 \<longrightarrow> p (at before (x @ after)) = Inr (v, at (before @ x) after)) \<and>
     (\<forall>before y. strict_prefix y x \<and> length before + length x < 2 ^ 63 \<longrightarrow> (\<exists>err. p (at before y) = Inl err \<and> err \<noteq> panic))"

lemma reads_full:
  "reads panic p x v \<Longrightarrow> length before + length x + length after < 2 ^ 63 \<Longrightarrow> p (at before (x @ after)) = Inr (v, at (before @ x) after)"
  by (simp add: reads_def)

lemma reads_cut: "reads panic p x v \<Longrightarrow> strict_prefix y x \<Longrightarrow> length before + length x < 2 ^ 63 \<Longrightarrow> \<exists>err. p (at before y) = Inl err \<and> err \<noteq> panic"
  by (simp add: reads_def)

lemma reads_bind:
  assumes "reads panic p x v" "reads panic (q v) y w"
  shows "reads panic (\<lambda>d. res_bind (p d) (\<lambda>(v, d). q v d)) (x @ y) w"
  unfolding reads_def
proof (intro conjI allI impI)
  fix before after :: "u8 list" assume l: "length before + length (x @ y) + length after < 2 ^ 63"
  then have "p (at before (x @ (y @ after))) = Inr (v, at (before @ x) (y @ after))" using assms(1) unfolding reads_def by simp
  moreover have "q v (at (before @ x) (y @ after)) = Inr (w, at ((before @ x) @ y) after)" using assms(2) l unfolding reads_def by simp
  ultimately show "res_bind (p (at before ((x @ y) @ after))) (\<lambda>(v, d). q v d) = Inr (w, at (before @ x @ y) after)" by simp
next
  fix before z :: "u8 list" assume z: "strict_prefix z (x @ y) \<and> length before + length (x @ y) < 2 ^ 63"
  then have "strict_prefix z (x @ y)" by simp
  then show "\<exists>err. res_bind (p (at before z)) (\<lambda>(v, d). q v d) = Inl err \<and> err \<noteq> panic"
  proof (cases rule: strict_prefix_split)
    case 1
    then have "\<exists>err. p (at before z) = Inl err \<and> err \<noteq> panic" using assms(1) z unfolding reads_def by simp
    then show ?thesis by auto
  next
    case (2 y')
    then have "length y' < length y" by (auto simp: strict_prefix_def prefix_def)
    then have "p (at before (x @ y')) = Inr (v, at (before @ x) y')" using assms(1) z unfolding reads_def by simp
    moreover have "\<exists>err. q v (at (before @ x) y') = Inl err \<and> err \<noteq> panic" using assms(2) z 2 unfolding reads_def by simp
    ultimately show ?thesis using 2 by auto
  qed
qed

lemma reads_return: "reads panic (\<lambda>d. Inr (v, d)) [] v"
  by (simp add: reads_def)


text \<open>What both cursors promise: slices and varints are read, or refused when they are cut short.\<close>

locale byte_cursor =
  fixes take_slice :: "i64 \<Rightarrow> codecReader \<Rightarrow> 'e + u8 list \<times> codecReader"
    and read_uvarint :: "codecReader \<Rightarrow> 'e + u64 \<times> codecReader"
    and panic :: 'e
  assumes take_full: "length before + length s + length after < 2 ^ 63 \<Longrightarrow>
      take_slice (word_of_nat (length s)) (at before (s @ after)) = Inr (s, at (before @ s) after)"
    and take_cut: "length before + n < 2 ^ 63 \<Longrightarrow> length y < n \<Longrightarrow> \<exists>err. take_slice (word_of_nat n) (at before y) = Inl err \<and> err \<noteq> panic"
    and uvarint_full: "read_uvarint (at before (put_uvarint v @ after)) = Inr (v, at (before @ put_uvarint v) after)"
    and uvarint_cut: "binary_Uvarint y = (0, 0) \<Longrightarrow> \<exists>err. read_uvarint (at before y) = Inl err \<and> err \<noteq> panic"
begin

lemma reads_take: "reads panic (take_slice (word_of_nat (length s))) s s"
  unfolding reads_def
proof (intro conjI allI impI)
  fix before y :: "u8 list" assume y: "strict_prefix y s \<and> length before + length s < 2 ^ 63"
  then have "length y < length s" by (auto simp: strict_prefix_def prefix_def)
  then show "\<exists>err. take_slice (word_of_nat (length s)) (at before y) = Inl err \<and> err \<noteq> panic" using take_cut y by blast
qed (rule take_full)

lemma reads_uvarint: "reads panic read_uvarint (put_uvarint v) v"
  using uvarint_full uvarint_cut uvarint_truncated by (auto simp: reads_def)

text \<open>A length and that many bytes.\<close>

lemma reads_str: "reads panic (\<lambda>d. res_bind (read_uvarint d) (\<lambda>(l, d). take_slice l d)) (put_uvarint (word_of_nat (length s)) @ s) s"
  by (rule reads_bind [OF reads_uvarint]) (rule reads_take)

end

end
