(* ===== verification/FragmentCodec.thy ===== *)
theory FragmentCodec
  imports FragmentStream ByteCursor
begin

text \<open>
  The wire format between edge and merger (\<^verbatim>\<open>asap-gorilla-go/fragment_codec.go\<close>): a batch of fragments as one binary frame.

  Lengths and cursors are 64-bit integers where the code adds them. A panic of the runtime (a slice out of range, a capacity
  that \<^verbatim>\<open>make\<close> refuses) is the error \<open>CodecPanic\<close>; the largest capacity \<^verbatim>\<open>make\<close> accepts depends on the platform and is an
  argument of the decoder. The messages that wrap an error are left out.
\<close>

section \<open>Encoding\<close>

definition fragmentBatchMagic :: "u8 list" where "fragmentBatchMagic = bytes_of ''ASAPFRG1''"

definition fragmentBatchVersion :: u8 where "fragmentBatchVersion = 1"

definition fragmentEncodingXOR :: u8 where "fragmentEncodingXOR = 0"

definition fragmentEncodingUnsupported :: u8 where "fragmentEncodingUnsupported = 0xff"

definition appendCodecStr :: "u8 list \<Rightarrow> gostr \<Rightarrow> u8 list" where
  "appendCodecStr dst s = dst @ put_uvarint (word_of_nat (length s)) @ s"

definition encodingByte :: "gostr \<Rightarrow> u8" where
  "encodingByte enc = (if enc = [] \<or> enc = bytes_of ''xor'' then fragmentEncodingXOR else fragmentEncodingUnsupported)"

text \<open>\<^verbatim>\<open>binary.AppendVarint\<close> writes the zigzag form.\<close>

definition AppendVarint :: "u8 list \<Rightarrow> int \<Rightarrow> u8 list" where
  "AppendVarint dst t = dst @ put_uvarint (zigzag (word_of_int t))"

fun appendLabels :: "goattrs \<Rightarrow> gostr list \<Rightarrow> u8 list \<Rightarrow> u8 list" where
  "appendLabels attrs [] buf = buf"
| "appendLabels attrs (k # ks) buf =
     appendLabels attrs ks (appendCodecStr (appendCodecStr buf k) (case map_of attrs k of None \<Rightarrow> [] | Some v \<Rightarrow> v))"

definition appendFragmentFrame :: "u8 list \<Rightarrow> Fragment \<Rightarrow> u8 list" where
  "appendFragmentFrame buf f =
     (let keys = sort (map fst (fAttributes f));
          buf = appendCodecStr buf (fMetricName f);
          buf = buf @ put_uvarint (word_of_nat (length keys));
          buf = appendLabels (fAttributes f) keys buf;
          buf = AppendVarint buf (fMinTime f);
          buf = AppendVarint buf (fMaxTime f);
          buf = buf @ put_uvarint (word_of_int (fCount f));
          buf = buf @ [encodingByte (fEncoding f)];
          buf = appendCodecStr buf (fSource f);
          buf = buf @ put_uvarint (word_of_nat (length (fData f)))
      in buf @ fData f)"

definition EncodeFragmentBatch :: "Fragment list \<Rightarrow> u8 list" where
  "EncodeFragmentBatch frags =
     foldl appendFragmentFrame (fragmentBatchMagic @ [fragmentBatchVersion] @ put_uvarint (word_of_nat (length frags))) frags"

section \<open>Reading\<close>

datatype codec_error = ErrBuffer | ErrUvarint | ErrVarint | ErrEncoding u8 | ErrMagic | ErrVersion u8 | CodecPanic

definition take_bytes :: "i64 \<Rightarrow> codecReader \<Rightarrow> codec_error + u8 list \<times> codecReader" where
  "take_bytes n d =
     (let end = word_of_nat (crPos d) + n
      in if sint n < 0 \<or> int (length (crBuf d)) < sint end then Inl ErrBuffer
         else if sint end < int (crPos d) then Inl CodecPanic
         else Inr (take (nat (sint end) - crPos d) (drop (crPos d) (crBuf d)), d\<lparr>crPos := nat (sint end)\<rparr>))"

definition readByte :: "codecReader \<Rightarrow> codec_error + u8 \<times> codecReader" where
  "readByte d = (if length (crBuf d) \<le> crPos d then Inl ErrBuffer else Inr (crBuf d ! crPos d, d\<lparr>crPos := crPos d + 1\<rparr>))"

definition codecUvarint :: "codecReader \<Rightarrow> codec_error + u64 \<times> codecReader" where
  "codecUvarint d = (case binary_Uvarint (drop (crPos d) (crBuf d)) of (v, n) \<Rightarrow>
     if n \<le> 0 then Inl ErrUvarint else Inr (v, d\<lparr>crPos := crPos d + nat n\<rparr>))"

definition codecVarint :: "codecReader \<Rightarrow> codec_error + int \<times> codecReader" where
  "codecVarint d = (case binary_Uvarint (drop (crPos d) (crBuf d)) of (v, n) \<Rightarrow>
     if n \<le> 0 then Inl ErrVarint else Inr (sint (unzigzag v), d\<lparr>crPos := crPos d + nat n\<rparr>))"

definition codecStr :: "codecReader \<Rightarrow> codec_error + gostr \<times> codecReader" where
  "codecStr d = res_bind (codecUvarint d) (\<lambda>(l, d). take_bytes l d)"

definition encodingString :: "u8 \<Rightarrow> codec_error + gostr" where
  "encodingString b = (if b = fragmentEncodingXOR then Inr (bytes_of ''xor'') else Inl (ErrEncoding b))"

fun decodeLabels :: "nat \<Rightarrow> goattrs \<Rightarrow> codecReader \<Rightarrow> codec_error + goattrs \<times> codecReader" where
  "decodeLabels 0 attrs d = Inr (attrs, d)"
| "decodeLabels (Suc n) attrs d =
     res_bind (codecStr d) (\<lambda>(k, d). res_bind (codecStr d) (\<lambda>(v, d). decodeLabels n (AList.update k v attrs) d))"

definition decodeFragment :: "codecReader \<Rightarrow> codec_error + Fragment \<times> codecReader" where
  "decodeFragment d =
     res_bind (codecStr d) (\<lambda>(metric, d).
     res_bind (codecUvarint d) (\<lambda>(nl, d).
     res_bind (decodeLabels (unat nl) [] d) (\<lambda>(attrs, d).
     res_bind (codecVarint d) (\<lambda>(minT, d).
     res_bind (codecVarint d) (\<lambda>(maxT, d).
     res_bind (codecUvarint d) (\<lambda>(cnt, d).
     res_bind (readByte d) (\<lambda>(encB, d).
     res_bind (encodingString encB) (\<lambda>enc.
     res_bind (codecStr d) (\<lambda>(source, d).
     res_bind (codecUvarint d) (\<lambda>(dl, d).
     res_bind (take_bytes dl d) (\<lambda>(data, d).
     Inr (\<lparr>fMetricName = metric, fAttributes = attrs, fMinTime = minT, fMaxTime = maxT, fCount = sint cnt, fEncoding = enc, fData = data,
           fOOODropCount = 0, fFragmentULID = [], fSource = source, fWatermarkTime = 0\<rparr>, d))))))))))))"

fun decodeFragments :: "nat \<Rightarrow> codecReader \<Rightarrow> codec_error + Fragment list \<times> codecReader" where
  "decodeFragments 0 d = Inr ([], d)"
| "decodeFragments (Suc n) d =
     res_bind (decodeFragment d) (\<lambda>(f, d). res_bind (decodeFragments n d) (\<lambda>(fs, d). Inr (f # fs, d)))"

definition DecodeFragmentBatch :: "nat \<Rightarrow> u8 list \<Rightarrow> codec_error + Fragment list" where
  "DecodeFragmentBatch maxCap b =
     res_bind (take_bytes (word_of_nat (length fragmentBatchMagic)) \<lparr>crBuf = b, crPos = 0\<rparr>) (\<lambda>(magic, d).
     if magic \<noteq> fragmentBatchMagic then Inl ErrMagic else
     res_bind (readByte d) (\<lambda>(ver, d).
     if ver \<noteq> fragmentBatchVersion then Inl (ErrVersion ver) else
     res_bind (codecUvarint d) (\<lambda>(n, d).
     if maxCap < unat n then Inl CodecPanic else
     res_bind (decodeFragments (unat n) d) (\<lambda>(fs, d). Inr fs))))"

section \<open>Fields\<close>

interpretation frag_cursor: byte_cursor take_bytes codecUvarint CodecPanic
proof
  show "take_bytes (word_of_nat (length s)) (at before (s @ after)) = Inr (s, at (before @ s) after)"
    if "length before + length s + length after < 2 ^ 63" for before s after
    using slice_end [of "length before" "length s"] that by (simp add: take_bytes_def Let_def nat_add_distrib)
  show "\<exists>err. take_bytes (word_of_nat n) (at before y) = Inl err \<and> err \<noteq> CodecPanic"
    if "length before + n < 2 ^ 63" "length y < n" for before n y
    using slice_end [of "length before" n] that by (simp add: take_bytes_def Let_def)
qed (simp_all add: codecUvarint_def binary_Uvarint_put_uvarint)

lemma reads_varint: "- (2 ^ 63) \<le> t \<Longrightarrow> t < 2 ^ 63 \<Longrightarrow> reads CodecPanic codecVarint (put_uvarint (zigzag (word_of_int t))) t"
  by (auto simp: reads_def codecVarint_def binary_Uvarint_put_uvarint uvarint_truncated at_def signed_take_bit_int_eq_self sint_sbintrunc')

lemma reads_byte: "reads CodecPanic readByte [b] b"
proof -
  have "y = []" if "strict_prefix y [b]" for y using that by (cases y) auto
  then show ?thesis by (auto simp: reads_def readByte_def at_def)
qed

lemma reads_codecStr: "reads CodecPanic codecStr (put_uvarint (word_of_nat (length s)) @ s) s"
  using frag_cursor.reads_str by (simp add: codecStr_def [abs_def])

lemmas reads_uvarint = frag_cursor.reads_uvarint and reads_take = frag_cursor.reads_take

section \<open>Fragments\<close>

definition labelBytes :: "goattrs \<Rightarrow> gostr list \<Rightarrow> u8 list" where
  "labelBytes attrs ks = concat (map (\<lambda>k. appendCodecStr (appendCodecStr [] k) (case map_of attrs k of None \<Rightarrow> [] | Some v \<Rightarrow> v)) ks)"

lemma appendLabels_eq: "appendLabels attrs ks buf = buf @ labelBytes attrs ks"
  by (induction ks arbitrary: buf) (simp_all add: labelBytes_def appendCodecStr_def)

definition read_labels :: "goattrs \<Rightarrow> gostr list \<Rightarrow> goattrs \<Rightarrow> goattrs" where
  "read_labels attrs ks acc = foldl (\<lambda>acc k. AList.update k (case map_of attrs k of None \<Rightarrow> [] | Some v \<Rightarrow> v) acc) acc ks"

lemma reads_labels: "reads CodecPanic (decodeLabels (length ks) acc) (labelBytes attrs ks) (read_labels attrs ks acc)"
proof (induction ks arbitrary: acc)
  case Nil
  then show ?case using reads_return by (simp add: labelBytes_def read_labels_def fun_eq_iff [symmetric] reads_def)
next
  case (Cons k ks)
  let ?v = "case map_of attrs k of None \<Rightarrow> [] | Some v \<Rightarrow> v"
  let ?q = "\<lambda>k d. res_bind (codecStr d) (\<lambda>(v, d). decodeLabels (length ks) (AList.update k v acc) d)"
  have "reads CodecPanic (?q k) ((put_uvarint (word_of_nat (length ?v)) @ ?v) @ labelBytes attrs ks) (read_labels attrs (k # ks) acc)"
    using Cons [of "AList.update k ?v acc"] by (intro reads_bind [OF reads_codecStr]) (simp add: read_labels_def)
  then have "reads CodecPanic (\<lambda>d. res_bind (codecStr d) (\<lambda>(k, d). ?q k d)) ((put_uvarint (word_of_nat (length k)) @ k) @
      (put_uvarint (word_of_nat (length ?v)) @ ?v) @ labelBytes attrs ks) (read_labels attrs (k # ks) acc)"
    by (rule reads_bind [OF reads_codecStr])
  moreover have "decodeLabels (length (k # ks)) acc = (\<lambda>d. res_bind (codecStr d) (\<lambda>(k, d). ?q k d))" by (simp add: fun_eq_iff)
  moreover have "labelBytes attrs (k # ks) = (put_uvarint (word_of_nat (length k)) @ k) @ (put_uvarint (word_of_nat (length ?v)) @ ?v) @ labelBytes attrs ks"
    by (simp add: labelBytes_def appendCodecStr_def)
  ultimately show ?case by simp
qed

text \<open>The labels of a fragment come back in the order of their names.\<close>

lemma read_sorted_labels:
  assumes "distinct (map fst attrs)"
  shows "read_labels attrs (sort (map fst attrs)) [] = map (\<lambda>k. (k, the (map_of attrs k))) (sort (map fst attrs))"
proof -
  have "read_labels attrs ks acc = acc @ map (\<lambda>k. (k, the (map_of attrs k))) ks"
    if "distinct (map fst acc @ ks)" "set ks \<subseteq> fst ` set attrs" for ks acc
    using that
  proof (induction ks arbitrary: acc)
    case (Cons k ks)
    then obtain v where v: "map_of attrs k = Some v" by (metis domD dom_map_of_conv_image_fst list.set_intros(1) subsetD)
    have "k \<notin> fst ` set acc" using Cons.prems(1) by simp
    then have "AList.update k v acc = acc @ [(k, v)]" by (induction acc) auto
    then show ?case using Cons.IH [of "acc @ [(k, v)]"] Cons.prems v by (simp add: read_labels_def)
  qed (simp add: read_labels_def)
  then show ?thesis using assms by simp
qed

text \<open>What the frame carries of a fragment.\<close>

definition wire_part :: "Fragment \<Rightarrow> Fragment" where
  "wire_part f = f\<lparr>fAttributes := map (\<lambda>k. (k, the (map_of (fAttributes f) k))) (sort (map fst (fAttributes f))), fEncoding := bytes_of ''xor'',
     fOOODropCount := 0, fFragmentULID := [], fWatermarkTime := 0\<rparr>"

definition int64 :: "int \<Rightarrow> bool" where "int64 t \<longleftrightarrow> - (2 ^ 63) \<le> t \<and> t < 2 ^ 63"

definition frameable :: "Fragment \<Rightarrow> bool" where
  "frameable f \<longleftrightarrow> distinct (map fst (fAttributes f)) \<and> length (fAttributes f) < 2 ^ 63 \<and> (fEncoding f = [] \<or> fEncoding f = bytes_of ''xor'') \<and>
     int64 (fMinTime f) \<and> int64 (fMaxTime f) \<and> int64 (fCount f)"

definition strBytes :: "gostr \<Rightarrow> u8 list" where
  "strBytes s = put_uvarint (word_of_nat (length s)) @ s"

definition fragBytes :: "Fragment \<Rightarrow> u8 list" where
  "fragBytes f =
     strBytes (fMetricName f) @ put_uvarint (word_of_nat (length (fAttributes f))) @ labelBytes (fAttributes f) (sort (map fst (fAttributes f))) @
     put_uvarint (zigzag (word_of_int (fMinTime f))) @ put_uvarint (zigzag (word_of_int (fMaxTime f))) @ put_uvarint (word_of_int (fCount f)) @
     [encodingByte (fEncoding f)] @ strBytes (fSource f) @ put_uvarint (word_of_nat (length (fData f))) @ fData f @ []"

lemma appendFragmentFrame_eq: "appendFragmentFrame buf f = buf @ fragBytes f"
  by (simp add: appendFragmentFrame_def Let_def fragBytes_def strBytes_def appendCodecStr_def AppendVarint_def appendLabels_eq)

lemma sint_word_of_int: "int64 t \<Longrightarrow> sint (word_of_int t :: i64) = t"
  by (simp add: int64_def sint_sbintrunc' signed_take_bit_int_eq_self)

lemma reads_fragment:
  assumes "frameable f"
  shows "reads CodecPanic decodeFragment (fragBytes f) (wire_part f)"
proof -
  have ok: "distinct (map fst (fAttributes f))" "int64 (fMinTime f)" "int64 (fMaxTime f)" "int64 (fCount f)"
    and enc: "encodingString (encodingByte (fEncoding f)) = Inr (bytes_of ''xor'')"
    using assms by (auto simp: frameable_def encodingByte_def encodingString_def)
  have len: "unat (word_of_nat (length (fAttributes f)) :: u64) = length (map fst (fAttributes f))"
    using assms by (simp add: frameable_def unat_of_nat take_bit_nat_eq_self)
  have wire: "wire_part f = \<lparr>fMetricName = fMetricName f, fAttributes = map (\<lambda>k. (k, the (map_of (fAttributes f) k))) (sort (map fst (fAttributes f))),
      fMinTime = fMinTime f, fMaxTime = fMaxTime f, fCount = fCount f, fEncoding = bytes_of ''xor'', fData = fData f,
      fOOODropCount = 0, fFragmentULID = [], fSource = fSource f, fWatermarkTime = 0\<rparr>"
    by (cases f) (simp add: wire_part_def)
  note times = reads_varint [OF ok(2) [unfolded int64_def, THEN conjunct1] ok(2) [unfolded int64_def, THEN conjunct2]]
    reads_varint [OF ok(3) [unfolded int64_def, THEN conjunct1] ok(3) [unfolded int64_def, THEN conjunct2]]
  have labels: "reads CodecPanic (decodeLabels (unat (word_of_nat (length (fAttributes f)) :: u64)) []) (labelBytes (fAttributes f) (sort (map fst (fAttributes f))))
      (read_labels (fAttributes f) (sort (map fst (fAttributes f))) [])"
    unfolding len using reads_labels [of "sort (map fst (fAttributes f))" "[]" "fAttributes f"] by simp
  show ?thesis
    unfolding decodeFragment_def [abs_def] fragBytes_def strBytes_def
    apply (rule reads_bind [OF reads_codecStr])
    apply (rule reads_bind [OF reads_uvarint])
    apply (rule reads_bind [OF labels])
    apply (rule reads_bind [OF times(1)])
    apply (rule reads_bind [OF times(2)])
    apply (rule reads_bind [OF reads_uvarint])
    apply (rule reads_bind [OF reads_byte])
    apply (simp only: enc res_bind_Inr)
    apply (rule reads_bind [OF reads_codecStr])
    apply (rule reads_bind [OF reads_uvarint])
    apply (rule reads_bind [OF reads_take])
    using reads_return [of CodecPanic "wire_part f"] ok by (simp add: wire read_sorted_labels sint_word_of_int)
qed

lemma reads_fragments: "\<forall>f \<in> set fs. frameable f \<Longrightarrow> reads CodecPanic (decodeFragments (length fs)) (concat (map fragBytes fs) @ []) (map wire_part fs)"
proof (induction fs)
  case Nil
  then show ?case using reads_return by (simp add: reads_def)
next
  case (Cons f fs)
  have e: "decodeFragments (length (f # fs)) = (\<lambda>d. res_bind (decodeFragment d) (\<lambda>(f, d). res_bind (decodeFragments (length fs) d) (\<lambda>(fs, d). Inr (f # fs, d))))"
    by (simp add: fun_eq_iff)
  have "reads CodecPanic (\<lambda>d. res_bind (decodeFragments (length fs) d) (\<lambda>(fs, d). Inr (wire_part f # fs, d))) ((concat (map fragBytes fs) @ []) @ []) (map wire_part (f # fs))"
    by (rule reads_bind) (use Cons reads_return [of CodecPanic "map wire_part (f # fs)"] in simp_all)
  then have "reads CodecPanic (\<lambda>d. res_bind (decodeFragment d) (\<lambda>(f, d). res_bind (decodeFragments (length fs) d) (\<lambda>(fs, d). Inr (f # fs, d))))
      (fragBytes f @ (concat (map fragBytes fs) @ []) @ []) (map wire_part (f # fs))"
    by (rule reads_bind [OF reads_fragment, rotated]) (use Cons.prems in simp)
  then show ?case unfolding e by simp
qed

section \<open>Frames\<close>

definition readBatch :: "nat \<Rightarrow> codecReader \<Rightarrow> codec_error + Fragment list \<times> codecReader" where
  "readBatch maxCap d =
     res_bind (take_bytes (word_of_nat (length fragmentBatchMagic)) d) (\<lambda>(magic, d).
     if magic \<noteq> fragmentBatchMagic then Inl ErrMagic else
     res_bind (readByte d) (\<lambda>(ver, d).
     if ver \<noteq> fragmentBatchVersion then Inl (ErrVersion ver) else
     res_bind (codecUvarint d) (\<lambda>(n, d).
     if maxCap < unat n then Inl CodecPanic else decodeFragments (unat n) d)))"

lemma DecodeFragmentBatch_eq: "DecodeFragmentBatch maxCap b = res_bind (readBatch maxCap (at [] b)) (\<lambda>(fs, d). Inr fs)"
  by (auto simp: DecodeFragmentBatch_def readBatch_def at_def res_bind_def split: sum.splits)

lemma EncodeFragmentBatch_eq:
  "EncodeFragmentBatch fs = fragmentBatchMagic @ [fragmentBatchVersion] @ put_uvarint (word_of_nat (length fs)) @ concat (map fragBytes fs) @ []"
proof -
  have "foldl appendFragmentFrame buf fs = buf @ concat (map fragBytes fs)" for buf
    by (induction fs arbitrary: buf) (simp_all add: appendFragmentFrame_eq)
  then show ?thesis by (simp add: EncodeFragmentBatch_def)
qed

lemma reads_batch:
  assumes "\<forall>f \<in> set fs. frameable f" "length fs \<le> maxCap" "maxCap < 2 ^ 63"
  shows "reads CodecPanic (readBatch maxCap) (EncodeFragmentBatch fs) (map wire_part fs)"
proof -
  have n: "unat (word_of_nat (length fs) :: u64) = length fs" using assms(2,3) by (simp add: unat_of_nat take_bit_nat_eq_self)
  show ?thesis
    unfolding readBatch_def [abs_def] EncodeFragmentBatch_eq
    apply (rule reads_bind [OF reads_take], simp only: simp_thms if_False)
    apply (rule reads_bind [OF reads_byte], simp only: simp_thms if_False)
    apply (rule reads_bind [OF reads_uvarint])
    using reads_fragments [OF assms(1)] assms(2) by (simp add: n)
qed

text \<open>
  Property C25. A batch survives the wire: for fragments with distinct label names, 64-bit times and counts and the XOR encoding, decoding
  the encoded frame returns the fragments with their labels in the order of the names, the encoding spelled out and
  the edge's bookkeeping (drop count, identifier, watermark) cleared.
\<close>

theorem fragment_batch_roundtrip:
  assumes "\<forall>f \<in> set fs. frameable f" "length fs \<le> maxCap" "maxCap < 2 ^ 63" "length (EncodeFragmentBatch fs) < 2 ^ 63"
  shows "DecodeFragmentBatch maxCap (EncodeFragmentBatch fs) = Inr (map wire_part fs)"
proof -
  have "readBatch maxCap (at [] (EncodeFragmentBatch fs @ [])) = Inr (map wire_part fs, at ([] @ EncodeFragmentBatch fs) [])"
    using reads_batch [OF assms(1-3)] assms(4) unfolding reads_def by (metis add.right_neutral add_0 list.size(3))
  then show ?thesis by (simp add: DecodeFragmentBatch_eq)
qed

text \<open>
  Property C28. A frame that is cut short anywhere is refused with an error, never a panic, and never read as a shorter batch.
\<close>

theorem truncated_batch_refused:
  assumes "\<forall>f \<in> set fs. frameable f" "length fs \<le> maxCap" "maxCap < 2 ^ 63" "length (EncodeFragmentBatch fs) < 2 ^ 63"
    and "strict_prefix b (EncodeFragmentBatch fs)"
  shows "\<exists>err. DecodeFragmentBatch maxCap b = Inl err \<and> err \<noteq> CodecPanic"
proof -
  have "\<exists>err. readBatch maxCap (at [] b) = Inl err \<and> err \<noteq> CodecPanic"
    using reads_batch [OF assms(1-3)] assms(4,5) unfolding reads_def by (metis add_0 list.size(3))
  then show ?thesis by (auto simp: DecodeFragmentBatch_eq)
qed

definition demo_fragment :: Fragment where
  "demo_fragment = \<lparr>fMetricName = bytes_of ''cpu'', fAttributes = [(bytes_of ''zone'', bytes_of ''b''), (bytes_of ''env'', [])], fMinTime = - 5, fMaxTime = 7,
     fCount = 2, fEncoding = [], fData = [1, 2, 3], fOOODropCount = 4, fFragmentULID = [9], fSource = bytes_of ''edge'', fWatermarkTime = 3\<rparr>"

lemma demo_frameable: "\<forall>f \<in> set [demo_fragment]. frameable f"
  by (simp add: frameable_def demo_fragment_def int64_def bytes_of_def)

lemma demo_length: "length (EncodeFragmentBatch [demo_fragment]) = 40"
  by code_simp

theorem fragment_batch_roundtrip_witness:
  "DecodeFragmentBatch 1000 (EncodeFragmentBatch [demo_fragment]) = Inr [wire_part demo_fragment] \<and>
   fAttributes (wire_part demo_fragment) = [(bytes_of ''env'', []), (bytes_of ''zone'', bytes_of ''b'')]"
proof
  show "DecodeFragmentBatch 1000 (EncodeFragmentBatch [demo_fragment]) = Inr [wire_part demo_fragment]"
    using fragment_batch_roundtrip [OF demo_frameable, of 1000] demo_length by simp
  show "fAttributes (wire_part demo_fragment) = [(bytes_of ''env'', []), (bytes_of ''zone'', bytes_of ''b'')]" by code_simp
qed

theorem truncated_batch_refused_witness:
  "\<exists>err. DecodeFragmentBatch 1000 (take 39 (EncodeFragmentBatch [demo_fragment])) = Inl err \<and> err \<noteq> CodecPanic"
proof (rule truncated_batch_refused [OF demo_frameable])
  show "strict_prefix (take 39 (EncodeFragmentBatch [demo_fragment])) (EncodeFragmentBatch [demo_fragment])"
    using demo_length arg_cong [of _ _ length] by (fastforce simp: strict_prefix_def take_is_prefix)
qed (simp_all add: demo_length)

text \<open>
  A frame can crash its reader: a count that \<^verbatim>\<open>make\<close> refuses panics before any fragment is read, and a string
  length of $2^{63} - 1$ makes the end of the slice wrap below its start, past the bounds check of \<^verbatim>\<open>take\<close>.
\<close>

definition hugeCountFrame :: "u8 list" where
  "hugeCountFrame = fragmentBatchMagic @ [fragmentBatchVersion] @ put_uvarint (- 1)"

definition hugeLengthFrame :: "u8 list" where
  "hugeLengthFrame = fragmentBatchMagic @ [fragmentBatchVersion, 1] @ put_uvarint 0x7fffffffffffffff"

lemma readBatch_header:
  assumes "length rest < 2 ^ 62"
  shows "readBatch maxCap (at [] (fragmentBatchMagic @ [fragmentBatchVersion] @ put_uvarint n @ rest)) =
    (if maxCap < unat n then Inl CodecPanic
     else decodeFragments (unat n) (at (fragmentBatchMagic @ [fragmentBatchVersion] @ put_uvarint n) rest))"
proof -
  let ?r = "put_uvarint n @ rest"
  have len: "length fragmentBatchMagic = 8" "length ?r < 2 ^ 62 + 10" using assms put_uvarint_max [of n] by (simp_all add: fragmentBatchMagic_def bytes_of_def)
  have "take_bytes (word_of_nat (length fragmentBatchMagic)) (at [] (fragmentBatchMagic @ ([fragmentBatchVersion] @ ?r))) =
      Inr (fragmentBatchMagic, at ([] @ fragmentBatchMagic) ([fragmentBatchVersion] @ ?r))"
    using reads_take [of fragmentBatchMagic] len unfolding reads_def by simp
  moreover have "readByte (at fragmentBatchMagic ([fragmentBatchVersion] @ ?r)) = Inr (fragmentBatchVersion, at (fragmentBatchMagic @ [fragmentBatchVersion]) ?r)"
    using reads_byte [of fragmentBatchVersion] len unfolding reads_def by simp
  moreover have "codecUvarint (at (fragmentBatchMagic @ [fragmentBatchVersion]) ?r) =
      Inr (n, at ((fragmentBatchMagic @ [fragmentBatchVersion]) @ put_uvarint n) rest)"
    using reads_uvarint [of n] len unfolding reads_def by simp
  ultimately show ?thesis by (simp add: readBatch_def)
qed

lemma take_huge: "take_bytes 0x7fffffffffffffff \<lparr>crBuf = hugeLengthFrame, crPos = 19\<rparr> = Inl CodecPanic"
  by code_simp

theorem frames_can_panic:
  assumes "1 \<le> maxCap" "maxCap < 2 ^ 63"
  shows "DecodeFragmentBatch maxCap hugeCountFrame = Inl CodecPanic \<and> DecodeFragmentBatch maxCap hugeLengthFrame = Inl CodecPanic"
proof
  show "DecodeFragmentBatch maxCap hugeCountFrame = Inl CodecPanic"
    using readBatch_header [of "[]" maxCap "- 1"] assms(2) by (simp add: DecodeFragmentBatch_eq hugeCountFrame_def unsigned_minus_1_eq_mask mask_eq_exp_minus_1)
  have one: "put_uvarint 1 = [1]" by code_simp
  let ?before = "fragmentBatchMagic @ [fragmentBatchVersion] @ put_uvarint 1" and ?l = "put_uvarint 0x7fffffffffffffff"
  have "length ?l = 9" by code_simp
  then have "at (?before @ ?l) [] = \<lparr>crBuf = hugeLengthFrame, crPos = 19\<rparr>"
    by (simp add: at_def hugeLengthFrame_def one fragmentBatchMagic_def bytes_of_def)
  moreover have "codecUvarint (at ?before (?l @ [])) = Inr (0x7fffffffffffffff, at (?before @ ?l) [])"
    using reads_uvarint [of "0x7fffffffffffffff", unfolded reads_def, THEN conjunct1, THEN spec [of _ ?before], THEN spec [of _ "[]"]]
      \<open>length ?l = 9\<close> by (simp add: one fragmentBatchMagic_def bytes_of_def)
  ultimately have "decodeFragments 1 (at ?before ?l) = Inl CodecPanic"
    using take_huge by (simp add: decodeFragment_def codecStr_def)
  then show "DecodeFragmentBatch maxCap hugeLengthFrame = Inl CodecPanic"
    using readBatch_header [of ?l maxCap 1] assms(1) \<open>length ?l = 9\<close> by (simp add: DecodeFragmentBatch_eq hugeLengthFrame_def one)
qed

end
