(* ===== verification/Float64.thy ===== *)
theory Float64
  imports GoPrelude
begin

text \<open>
  Go's \<^verbatim>\<open>float64\<close>: IEEE 754 binary64 values as their 64-bit patterns, and the operations on them
  that the modelled code uses, each computed exactly over the rationals and rounded once to
  nearest, ties to even, as the language requires. A finite value is
  \<open>(-1)^sign * mant * 2 ^ (ex - 1075)\<close>.

  The Go specification leaves the conversion of an out-of-range \<^verbatim>\<open>float64\<close> to \<^verbatim>\<open>int64\<close> to the
  implementation; that result is the parameter \<open>oob\<close> of \<open>f64_to_int64\<close>.
\<close>

type_synonym f64 = "64 word"

section \<open>Layout\<close>

definition f64_sign :: "f64 \<Rightarrow> bool" where
  "f64_sign x = bit x 63"

definition f64_exp :: "f64 \<Rightarrow> nat" where
  "f64_exp x = unat x div 2 ^ 52 mod 2 ^ 11"

definition f64_frac :: "f64 \<Rightarrow> nat" where
  "f64_frac x = unat x mod 2 ^ 52"

definition f64_isnan :: "f64 \<Rightarrow> bool" where
  "f64_isnan x \<longleftrightarrow> f64_exp x = 2047 \<and> f64_frac x \<noteq> 0"

definition f64_isinf :: "f64 \<Rightarrow> bool" where
  "f64_isinf x \<longleftrightarrow> f64_exp x = 2047 \<and> f64_frac x = 0"

definition f64_iszero :: "f64 \<Rightarrow> bool" where
  "f64_iszero x \<longleftrightarrow> f64_exp x = 0 \<and> f64_frac x = 0"

definition f64_finite :: "f64 \<Rightarrow> bool" where
  "f64_finite x \<longleftrightarrow> f64_exp x \<noteq> 2047"

text \<open>The significand and the exponent (biased by 1075) of a finite value.\<close>

definition f64_mant :: "f64 \<Rightarrow> nat" where
  "f64_mant x = (if f64_exp x = 0 then f64_frac x else 2 ^ 52 + f64_frac x)"

definition f64_ex :: "f64 \<Rightarrow> nat" where
  "f64_ex x = max 1 (f64_exp x)"

definition f64_nan :: f64 where
  "f64_nan = 0x7FF8000000000001"

definition f64_signed :: "bool \<Rightarrow> nat \<Rightarrow> f64" where
  "f64_signed s n = of_nat (n + (if s then 2 ^ 63 else 0))"

definition f64_inf :: "bool \<Rightarrow> f64" where
  "f64_inf s = f64_signed s (2047 * 2 ^ 52)"

definition f64_zero :: "bool \<Rightarrow> f64" where
  "f64_zero s = f64_signed s 0"

section \<open>Rounding\<close>

text \<open>\<open>round_div n d\<close> is \<open>n / d\<close> rounded to the nearest integer, ties to even.\<close>

definition round_div :: "nat \<Rightarrow> nat \<Rightarrow> nat" where
  "round_div n d = (let q = n div d; r = n mod d
     in if d < 2 * r \<or> (2 * r = d \<and> odd q) then q + 1 else q)"

text \<open>\<open>floor_log n d\<close> is the exponent of the leading bit of \<open>n / d\<close>, both positive.\<close>

definition floor_log :: "nat \<Rightarrow> nat \<Rightarrow> int" where
  "floor_log n d = (let k = int (nat_len n) - int (nat_len d)
     in if (if 0 \<le> k then d * 2 ^ nat k \<le> n else d \<le> n * 2 ^ nat (- k)) then k else k - 1)"

text \<open>
  The binary64 value nearest to \<open>\<plusminus> n / d\<close>. With the exponent of the leading bit raised to at least
  \<open>-1022\<close>, the significand is \<open>n / d\<close> scaled so that its unit is the last place; adding it to
  \<open>(e + 1022) * 2 ^ 52\<close> gives the pattern, a carry out of the significand included.
\<close>

definition f64_of_ratio :: "bool \<Rightarrow> nat \<Rightarrow> nat \<Rightarrow> f64" where
  "f64_of_ratio s n d =
     (if n = 0 then f64_zero s
      else let e = max (floor_log n d) (- 1022);
               m = (if e \<le> 52 then round_div (n * 2 ^ nat (52 - e)) d
                    else round_div n (d * 2 ^ nat (e - 52)));
               b = nat (e + 1022) * 2 ^ 52 + m
           in if 2047 * 2 ^ 52 \<le> b then f64_inf s else f64_signed s b)"

text \<open>\<open>f64_of_scaled s m p\<close> is \<open>\<plusminus> m * 2 ^ p\<close> rounded.\<close>

definition f64_of_scaled :: "bool \<Rightarrow> nat \<Rightarrow> int \<Rightarrow> f64" where
  "f64_of_scaled s m p =
     (if 0 \<le> p then f64_of_ratio s (m * 2 ^ nat p) 1 else f64_of_ratio s m (2 ^ nat (- p)))"

section \<open>Operations\<close>

definition f64_mul :: "f64 \<Rightarrow> f64 \<Rightarrow> f64" where
  "f64_mul x y =
     (let s = (f64_sign x \<noteq> f64_sign y)
      in if f64_isnan x \<or> f64_isnan y then f64_nan
         else if f64_isinf x \<or> f64_isinf y
           then (if f64_iszero x \<or> f64_iszero y then f64_nan else f64_inf s)
         else f64_of_scaled s (f64_mant x * f64_mant y) (int (f64_ex x) + int (f64_ex y) - 2150))"

definition f64_div :: "f64 \<Rightarrow> f64 \<Rightarrow> f64" where
  "f64_div x y =
     (let s = (f64_sign x \<noteq> f64_sign y)
      in if f64_isnan x \<or> f64_isnan y then f64_nan
         else if f64_isinf x then (if f64_isinf y then f64_nan else f64_inf s)
         else if f64_isinf y then f64_zero s
         else if f64_iszero y then (if f64_iszero x then f64_nan else f64_inf s)
         else let p = int (f64_ex x) - int (f64_ex y)
              in if 0 \<le> p then f64_of_ratio s (f64_mant x * 2 ^ nat p) (f64_mant y)
                 else f64_of_ratio s (f64_mant x) (f64_mant y * 2 ^ nat (- p)))"

text \<open>\<^verbatim>\<open>float64(i)\<close> for an \<^verbatim>\<open>int64\<close>.\<close>

definition f64_of_int64 :: "i64 \<Rightarrow> f64" where
  "f64_of_int64 i = f64_of_ratio (sint i < 0) (nat \<bar>sint i\<bar>) 1"

text \<open>The magnitude of a finite value cut to an integer, and rounded half away from zero.\<close>

definition f64_trunc_nat :: "f64 \<Rightarrow> nat" where
  "f64_trunc_nat x =
     (if 1075 \<le> f64_ex x then f64_mant x * 2 ^ (f64_ex x - 1075)
      else f64_mant x div 2 ^ (1075 - f64_ex x))"

definition f64_round_nat :: "f64 \<Rightarrow> nat" where
  "f64_round_nat x =
     (if 1075 \<le> f64_ex x then f64_mant x * 2 ^ (f64_ex x - 1075)
      else (2 * f64_mant x + 2 ^ (1075 - f64_ex x)) div 2 ^ (1076 - f64_ex x))"

text \<open>\<^verbatim>\<open>math.Round\<close>.\<close>

definition f64_round :: "f64 \<Rightarrow> f64" where
  "f64_round x = (if f64_finite x then f64_of_ratio (f64_sign x) (f64_round_nat x) 1 else x)"

text \<open>The integer part of a finite value, with its sign.\<close>

definition f64_trunc :: "f64 \<Rightarrow> int" where
  "f64_trunc x = (if f64_sign x then - int (f64_trunc_nat x) else int (f64_trunc_nat x))"

text \<open>\<^verbatim>\<open>int64(x)\<close>.\<close>

definition f64_to_int64 :: "(f64 \<Rightarrow> i64) \<Rightarrow> f64 \<Rightarrow> i64" where
  "f64_to_int64 oob x =
     (if f64_finite x \<and> - (2 ^ 63) \<le> f64_trunc x \<and> f64_trunc x < 2 ^ 63
      then word_of_int (f64_trunc x) else oob x)"

text \<open>
  Conversions to unsigned integers, and \<^verbatim>\<open>math.Trunc\<close> and \<^verbatim>\<open>math.Ceil\<close>, which return non-finite values
  unchanged.
\<close>

definition f64_to_uint :: "(f64 \<Rightarrow> 'a word) \<Rightarrow> f64 \<Rightarrow> 'a::len word" where
  "f64_to_uint oob x =
     (if f64_finite x \<and> 0 \<le> f64_trunc x \<and> f64_trunc x < 2 ^ LENGTH('a) then word_of_int (f64_trunc x) else oob x)"

definition f64_truncf :: "f64 \<Rightarrow> f64" where
  "f64_truncf x = (if f64_finite x then f64_of_ratio (f64_sign x) (f64_trunc_nat x) 1 else x)"

text \<open>Go's \<open>==\<close> and \<open><\<close> on \<^verbatim>\<open>float64\<close>: no NaN is equal to anything, and the two zeros are equal.\<close>

definition f64_eq :: "f64 \<Rightarrow> f64 \<Rightarrow> bool" where
  "f64_eq x y \<longleftrightarrow> \<not> f64_isnan x \<and> \<not> f64_isnan y \<and> (x = y \<or> f64_iszero x \<and> f64_iszero y)"

text \<open>The patterns ordered as signed magnitudes: the order of the values for non-NaN operands.\<close>

definition f64_key :: "f64 \<Rightarrow> int" where
  "f64_key x = (if f64_sign x then - int (unat x mod 2 ^ 63) else int (unat x mod 2 ^ 63))"

definition f64_less :: "f64 \<Rightarrow> f64 \<Rightarrow> bool" where
  "f64_less x y \<longleftrightarrow> \<not> f64_isnan x \<and> \<not> f64_isnan y \<and> f64_key x < f64_key y"

definition f64_le :: "f64 \<Rightarrow> f64 \<Rightarrow> bool" where
  "f64_le x y \<longleftrightarrow> \<not> f64_isnan x \<and> \<not> f64_isnan y \<and> f64_key x \<le> f64_key y"

definition f64_ceil :: "f64 \<Rightarrow> f64" where
  "f64_ceil x =
     (if \<not> f64_finite x \<or> f64_eq (f64_truncf x) x then x
      else if f64_sign x then f64_truncf x else f64_of_ratio False (f64_trunc_nat x + 1) 1)"

text \<open>\<^verbatim>\<open>math.Abs\<close>, negation, addition and subtraction.\<close>

definition f64_abs :: "f64 \<Rightarrow> f64" where
  "f64_abs x = x AND 0x7FFFFFFFFFFFFFFF"

definition f64_neg :: "f64 \<Rightarrow> f64" where
  "f64_neg x = x XOR 0x8000000000000000"

definition f64_smant :: "f64 \<Rightarrow> int" where
  "f64_smant x = (if f64_sign x then - int (f64_mant x) else int (f64_mant x))"

definition f64_add :: "f64 \<Rightarrow> f64 \<Rightarrow> f64" where
  "f64_add x y =
     (if f64_isnan x \<or> f64_isnan y then f64_nan
      else if f64_isinf x then (if f64_isinf y \<and> f64_sign x \<noteq> f64_sign y then f64_nan else x)
      else if f64_isinf y then y
      else if f64_iszero x \<and> f64_iszero y then f64_zero (f64_sign x \<and> f64_sign y)
      else if f64_iszero x then y
      else if f64_iszero y then x
      else let e = min (f64_ex x) (f64_ex y);
               v = f64_smant x * 2 ^ (f64_ex x - e) + f64_smant y * 2 ^ (f64_ex y - e)
           in if v = 0 then f64_zero False
              else f64_of_scaled (v < 0) (nat \<bar>v\<bar>) (int e - 1075))"

definition f64_sub :: "f64 \<Rightarrow> f64 \<Rightarrow> f64" where
  "f64_sub x y = f64_add x (f64_neg y)"

section \<open>Facts\<close>

text \<open>The defining equations, for evaluating an operation on patterns given as numerals.\<close>

lemmas f64_eval = f64_sign_def f64_exp_def f64_frac_def f64_isnan_def f64_isinf_def f64_iszero_def
  f64_finite_def f64_mant_def f64_ex_def f64_nan_def f64_signed_def f64_inf_def f64_zero_def
  round_div_def floor_log_def nat_len.simps f64_of_ratio_def f64_of_scaled_def f64_mul_def f64_div_def
  f64_of_int64_def f64_trunc_nat_def f64_round_nat_def f64_round_def f64_trunc_def f64_eq_def
  f64_key_def f64_less_def f64_le_def f64_abs_def f64_neg_def f64_smant_def f64_add_def f64_sub_def
  f64_truncf_def f64_ceil_def f64_to_uint_def

lemma f64_eq_sym: "f64_eq x y \<longleftrightarrow> f64_eq y x"
  by (auto simp: f64_eq_def)

lemma f64_eq_refl_iff: "f64_eq x x \<longleftrightarrow> \<not> f64_isnan x"
  by (simp add: f64_eq_def)

lemma f64_iszero_iff: "f64_iszero x \<longleftrightarrow> x = 0 \<or> x = 0x8000000000000000"
proof
  assume "f64_iszero x"
  then have e: "unat x div 2 ^ 52 mod 2 ^ 11 = 0" and f: "unat x mod 2 ^ 52 = 0"
    by (simp_all add: f64_iszero_def f64_exp_def f64_frac_def)
  define k where "k = unat x div 2 ^ 52 div 2 ^ 11"
  have "unat x div 2 ^ 52 = k * 2 ^ 11"
    using e div_mult_mod_eq [of "unat x div 2 ^ 52" "2 ^ 11"] by (simp add: k_def)
  then have x: "unat x = k * 2 ^ 63"
    using f div_mult_mod_eq [of "unat x" "2 ^ 52"] by simp
  then have "k < 2" using unat_u64_less [of x] by simp
  then have "k = 0 \<or> k = 1" by auto
  then show "x = 0 \<or> x = 0x8000000000000000"
    using x by (auto simp: word_unat_eq_iff)
qed (auto simp: f64_iszero_def f64_exp_def f64_frac_def)

end
