(* ===== verification/IntChunk.thy ===== *)
theory IntChunk
  imports Varint Float64
begin

text \<open>
  The cold-tier chunk codec (\<^verbatim>\<open>asap-gorilla-go/intchunk\<close>: \<^verbatim>\<open>intchunk.go\<close>, \<^verbatim>\<open>scale.go\<close>, \<^verbatim>\<open>gorilla.go\<close>,
  \<^verbatim>\<open>bestofn.go\<close>): the timestamp column, the integer residual transforms, the overflow chunk cut, the
  decimal scale guard, and the best-of-N encoder with its decoder.

  The XOR chunk of \<^verbatim>\<open>prometheus/tsdb/chunkenc\<close> is not part of the repository: its encoder and
  decoder are the parameters \<open>xor_enc\<close> and \<open>xor_dec\<close> (\<open>None\<close> from \<open>xor_dec\<close>: \<^verbatim>\<open>FromData\<close> fails;
  \<open>Some (Inl XorErr)\<close>: the iterator ends with an error; \<open>Some (Inl XorPanic)\<close>: the library panics).
\<close>

section \<open>Samples, tags and slices\<close>

record sample =
  sT :: i64
  sV :: f64

type_synonym xor_encoder = "sample list \<Rightarrow> u8 list option"
datatype xor_failure = XorErr | XorPanic

type_synonym xor_decoder = "u8 list \<Rightarrow> (xor_failure + sample list) option"

definition CodecGorillaXOR :: u8 where "CodecGorillaXOR = 0"
definition CodecIntForDelta :: u8 where "CodecIntForDelta = 1"
definition CodecIntForDoD :: u8 where "CodecIntForDoD = 2"
definition CodecIntForDeltaVarint :: u8 where "CodecIntForDeltaVarint = 3"
definition CodecIntForDoDVarint :: u8 where "CodecIntForDoDVarint = 4"

lemmas codec_tags = CodecGorillaXOR_def CodecIntForDelta_def CodecIntForDoD_def
  CodecIntForDeltaVarint_def CodecIntForDoDVarint_def

definition maxResidualWidth :: nat where
  "maxResidualWidth = 56"

text \<open>
  \<^verbatim>\<open>make([]T, n)\<close> with elements of \<open>esize\<close> bytes: the run time panics when \<open>n\<close> is negative or the
  block is larger than the address space it manages (\<open>2 ^ 48\<close> bytes on 64-bit platforms).
\<close>

definition makeslice :: "nat \<Rightarrow> int \<Rightarrow> chunk_err + nat" where
  "makeslice esize n = (if n < 0 \<or> 2 ^ 48 < int esize * n then Inl Panic else Inr (nat n))"

section \<open>Timestamp column\<close>

fun enc_dods :: "i64 \<Rightarrow> i64 \<Rightarrow> i64 list \<Rightarrow> u8 list \<Rightarrow> u8 list" where
  "enc_dods prev prevDelta [] w = w"
| "enc_dods prev prevDelta (t # ts) w =
     (let delta = t - prev; dod = delta - prevDelta in enc_dods t delta ts (w_varint dod w))"

fun encodeTimestamps :: "u8 list \<Rightarrow> i64 list \<Rightarrow> u8 list" where
  "encodeTimestamps w [] = w"
| "encodeTimestamps w [t0] = w_varint t0 w"
| "encodeTimestamps w (t0 # t1 # ts) =
     (let w = w_varint t0 w; prevDelta = t1 - t0; w = w_varint prevDelta w
      in enc_dods t1 prevDelta ts w)"

fun dec_dods :: "nat \<Rightarrow> i64 \<Rightarrow> i64 \<Rightarrow> byteReader \<Rightarrow> chunk_err + i64 list \<times> byteReader" where
  "dec_dods 0 prev prevDelta r = Inr ([], r)"
| "dec_dods (Suc n) prev prevDelta r =
     res_bind (r_varint r) (\<lambda>(dod, r).
       let prevDelta = prevDelta + dod; prev = prev + prevDelta
       in res_bind (dec_dods n prev prevDelta r) (\<lambda>(ts, r). Inr (prev # ts, r)))"

definition decodeTimestamps :: "byteReader \<Rightarrow> int \<Rightarrow> chunk_err + i64 list \<times> byteReader" where
  "decodeTimestamps r n =
     res_bind (makeslice 8 n) (\<lambda>n.
       if n = 0 then Inr ([], r)
       else res_bind (r_varint r) (\<lambda>(t0, r).
         if n = 1 then Inr ([t0], r)
         else res_bind (r_varint r) (\<lambda>(delta, r).
           let prev = t0 + delta
           in res_bind (dec_dods (n - 2) prev delta r) (\<lambda>(ts, r). Inr (t0 # prev # ts, r)))))"

section \<open>Residual transforms\<close>

definition residualFits :: "i64 \<Rightarrow> bool" where
  "residualFits v \<longleftrightarrow> len64 (zigzag v) \<le> maxResidualWidth"

fun delta_residuals :: "i64 \<Rightarrow> i64 list \<Rightarrow> i64 list option" where
  "delta_residuals prev [] = Some []"
| "delta_residuals prev (x # xs) =
     (let d = x - prev in if \<not> residualFits d then None
      else map_option ((#) d) (delta_residuals x xs))"

fun dod_residuals :: "i64 \<Rightarrow> i64 \<Rightarrow> i64 list \<Rightarrow> i64 list option" where
  "dod_residuals prev prevDelta [] = Some []"
| "dod_residuals prev prevDelta (x # xs) =
     (let delta = x - prev; dodVal = delta - prevDelta in if \<not> residualFits dodVal then None
      else map_option ((#) dodVal) (dod_residuals x delta xs))"

text \<open>\<open>None\<close> is \<^verbatim>\<open>ok = false\<close>; otherwise the base, the first residual and the residual body.\<close>

fun intResiduals :: "i64 list \<Rightarrow> bool \<Rightarrow> (i64 \<times> i64 \<times> i64 list) option" where
  "intResiduals [] dod = None"
| "intResiduals [x] dod = Some (x, 0, [])"
| "intResiduals (x0 # x1 # xs) dod =
     (let firstResidual = x1 - x0
      in if \<not> residualFits firstResidual then None
         else map_option (\<lambda>rs. (x0, firstResidual, rs))
           (if \<not> dod then delta_residuals x1 xs else dod_residuals x1 firstResidual xs))"

fun sum_deltas :: "i64 \<Rightarrow> i64 list \<Rightarrow> i64 list" where
  "sum_deltas prev [] = []"
| "sum_deltas prev (d # ds) = (let prev = prev + d in prev # sum_deltas prev ds)"

fun sum_dods :: "i64 \<Rightarrow> i64 \<Rightarrow> i64 list \<Rightarrow> i64 list" where
  "sum_dods prev prevDelta [] = []"
| "sum_dods prev prevDelta (dd # ds) =
     (let prevDelta = prevDelta + dd; prev = prev + prevDelta in prev # sum_dods prev prevDelta ds)"

definition reconstructInts :: "i64 \<Rightarrow> i64 \<Rightarrow> i64 list \<Rightarrow> nat \<Rightarrow> bool \<Rightarrow> i64 list" where
  "reconstructInts base firstResidual residuals n dod =
     (if n = 1 then [base]
      else let prev = base + firstResidual
           in base # prev # (if \<not> dod then sum_deltas prev residuals
                             else sum_dods prev firstResidual residuals))"

section \<open>Chunk bodies\<close>

datatype intBodyFormat = bodyFixed | bodyVarint

definition codecTagFor :: "bool \<Rightarrow> intBodyFormat \<Rightarrow> u8" where
  "codecTagFor dod body =
     (if \<not> dod \<and> body = bodyFixed then CodecIntForDelta
      else if dod \<and> body = bodyFixed then CodecIntForDoD
      else if \<not> dod \<and> body = bodyVarint then CodecIntForDeltaVarint
      else CodecIntForDoDVarint)"

definition encodeIntChunk ::
  "sample list \<Rightarrow> u8 \<Rightarrow> i64 list \<Rightarrow> bool \<Rightarrow> intBodyFormat \<Rightarrow> u8 list option" where
  "encodeIntChunk samples scaleExp ints dod body =
     (let tag = codecTagFor dod body
      in case intResiduals ints dod of
        None \<Rightarrow> None
      | Some (base, firstResidual, residuals) \<Rightarrow>
          let w = w_u8 tag [];
              w = w_uvarint (of_nat (length samples)) w;
              w = encodeTimestamps w (map sT samples);
              w = w_u8 scaleExp w;
              w = w_varint base w;
              w = w_varint firstResidual w
          in Some (case body of
               bodyVarint \<Rightarrow> fold w_varint residuals w
             | bodyFixed \<Rightarrow>
                 let zz = map zigzag residuals; width = bitPackWidth zz
                 in packBits (w_u8 (of_nat width) w) zz width))"

definition pow10 :: "f64 list" where
  "pow10 = map (\<lambda>e. f64_of_int64 (10 ^ e)) [0..<16]"

definition pow10Abs :: "u8 \<Rightarrow> f64" where
  "pow10Abs e =
     (if 0 \<le> sint e \<and> sint e < int (length pow10) then pow10 ! nat (sint e)
      else ((\<lambda>f. f64_mul f (f64_of_int64 10)) ^^ nat (sint e)) (f64_of_int64 1))"

fun read_varints :: "nat \<Rightarrow> byteReader \<Rightarrow> chunk_err + i64 list \<times> byteReader" where
  "read_varints 0 r = Inr ([], r)"
| "read_varints (Suc n) r =
     res_bind (r_varint r) (\<lambda>(d, r).
       res_bind (read_varints n r) (\<lambda>(ds, r). Inr (d # ds, r)))"

definition n_residuals :: "nat \<Rightarrow> nat" where
  "n_residuals n = (if 3 \<le> n then n - 2 else 0)"

text \<open>The residual body of a chunk: varints, or a width byte and the packed fields.\<close>

definition decode_residuals :: "bool \<Rightarrow> nat \<Rightarrow> byteReader \<Rightarrow> chunk_err + i64 list \<times> byteReader" where
  "decode_residuals varintBody nResiduals r =
     (if varintBody then read_varints nResiduals r
      else res_bind (r_u8 r) (\<lambda>(width, r).
        res_bind (unpackBits (drop (rpos r) (rbuf r)) nResiduals (unat width)) (\<lambda>zz.
          let packedBytes = (nResiduals * unat width + 7) div 8
          in if length (rbuf r) < rpos r + packedBytes then Inl ErrCorruptChunk
             else Inr (map unzigzag zz, r\<lparr>rpos := rpos r + packedBytes\<rparr>))))"

text \<open>
  The result keeps the reader: \<^verbatim>\<open>decodeIntChunk\<close> advances the caller's cursor. The last step indexes
  \<^verbatim>\<open>ints[i]\<close> for \<open>i < n\<close>, which would panic beyond its length.
\<close>

definition decodeIntChunk :: "byteReader \<Rightarrow> u8 \<Rightarrow> chunk_err + sample list \<times> byteReader" where
  "decodeIntChunk r tag =
     (let dod = (tag = CodecIntForDoD \<or> tag = CodecIntForDoDVarint);
          varintBody = (tag = CodecIntForDeltaVarint \<or> tag = CodecIntForDoDVarint)
      in res_bind (r_uvarint r) (\<lambda>(nU, r).
         res_bind (decodeTimestamps r (sint nU)) (\<lambda>(ts, r).
         res_bind (r_u8 r) (\<lambda>(rawExp, r).
         res_bind (r_varint r) (\<lambda>(base, r).
         res_bind (r_varint r) (\<lambda>(firstResidual, r).
           let n = nat (sint nU);
               nResiduals = n_residuals n
           in res_bind (decode_residuals varintBody nResiduals r)
             (\<lambda>(residuals, r).
               let ints = reconstructInts base firstResidual residuals n dod;
                   factor = pow10Abs rawExp
               in res_bind (makeslice 16 (sint nU)) (\<lambda>_.
                 if length ts < n \<or> length ints < n then Inl Panic
                 else Inr (map (\<lambda>i. \<lparr>sT = ts ! i, sV = f64_div (f64_of_int64 (ints ! i)) factor\<rparr>)
                             [0..<n], r)))))))))"

section \<open>Chunk cut\<close>

fun cut_delta :: "i64 \<Rightarrow> nat \<Rightarrow> i64 list \<Rightarrow> nat" where
  "cut_delta prev i [] = i"
| "cut_delta prev i (x # xs) = (if \<not> residualFits (x - prev) then i else cut_delta x (Suc i) xs)"

fun cut_dod :: "i64 \<Rightarrow> i64 \<Rightarrow> nat \<Rightarrow> i64 list \<Rightarrow> nat" where
  "cut_dod prev prevDelta i [] = i"
| "cut_dod prev prevDelta i (x # xs) =
     (let delta = x - prev
      in if \<not> residualFits (delta - prevDelta) then i else cut_dod x delta (Suc i) xs)"

fun findCutEnd :: "i64 list \<Rightarrow> bool \<Rightarrow> nat" where
  "findCutEnd [] dod = 0"
| "findCutEnd [x] dod = 1"
| "findCutEnd (x0 # x1 # xs) dod =
     (if \<not> dod then cut_delta x0 1 (x1 # xs)
      else let prevDelta = x1 - x0
           in if \<not> residualFits prevDelta then 1 else cut_dod x1 prevDelta 2 xs)"

lemma encodeIntChunk_Nil [simp]: "encodeIntChunk samples e [] dod body = None"
  by (simp add: encodeIntChunk_def)

text \<open>The loop \<^verbatim>\<open>for start < len(samples)\<close>, on what is left from \<^verbatim>\<open>start\<close> on.\<close>

function cut_loop ::
  "sample list \<Rightarrow> u8 \<Rightarrow> i64 list \<Rightarrow> bool \<Rightarrow> intBodyFormat \<Rightarrow> u8 list list option" where
  "cut_loop samples scaleExp ints dod body =
     (if samples = [] then Some []
      else let e = findCutEnd ints dod
           in case encodeIntChunk (take e samples) scaleExp (take e ints) dod body of
                None \<Rightarrow> None
              | Some b \<Rightarrow> map_option ((#) b) (cut_loop (drop e samples) scaleExp (drop e ints) dod body))"
  by pat_completeness auto
termination
proof (relation "measure (\<lambda>(samples, _). length samples)")
  fix samples :: "sample list" and scaleExp ints dod body e b
  assume "samples \<noteq> []" and "e = findCutEnd ints dod"
    and "encodeIntChunk (take e samples) scaleExp (take e ints) dod body = Some b"
  then have "e \<noteq> 0" by (cases e) auto
  with \<open>samples \<noteq> []\<close>
  show "((drop e samples, scaleExp, drop e ints, dod, body), samples, scaleExp, ints, dod, body)
    \<in> measure (\<lambda>(samples, _). length samples)" by simp
qed simp

declare cut_loop.simps [simp del]

definition encodeIntChunks ::
  "sample list \<Rightarrow> u8 \<Rightarrow> i64 list \<Rightarrow> bool \<Rightarrow> intBodyFormat \<Rightarrow> u8 list list option" where
  "encodeIntChunks samples scaleExp ints dod body =
     (if samples = [] then None else cut_loop samples scaleExp ints dod body)"

section \<open>Decimal scale guard\<close>

definition maxScaleExp :: nat where
  "maxScaleExp = 15"

text \<open>\<^verbatim>\<open>math.MaxInt64\<close> and \<^verbatim>\<open>math.MinInt64\<close> as the \<^verbatim>\<open>float64\<close> constants they are converted to.\<close>

definition f64_MaxInt64 :: f64 where
  "f64_MaxInt64 = f64_of_ratio False (2 ^ 63 - 1) 1"

definition f64_MinInt64 :: f64 where
  "f64_MinInt64 = f64_of_ratio True (2 ^ 63) 1"

fun scale_all :: "(f64 \<Rightarrow> i64) \<Rightarrow> f64 \<Rightarrow> f64 list \<Rightarrow> i64 list option" where
  "scale_all oob factor [] = Some []"
| "scale_all oob factor (v # vs) =
     (let scaled = f64_mul v factor; r = f64_round scaled
      in if f64_less f64_MaxInt64 r \<or> f64_less r f64_MinInt64 then None
         else let iv = f64_to_int64 oob r
              in if \<not> f64_eq (f64_div (f64_of_int64 iv) factor) v then None
                 else map_option ((#) iv) (scale_all oob factor vs))"

text \<open>The loop over the exponents from \<open>e\<close> on, \<open>k\<close> of them left.\<close>

fun try_exps :: "(f64 \<Rightarrow> i64) \<Rightarrow> nat \<Rightarrow> nat \<Rightarrow> f64 list \<Rightarrow> (u8 \<times> i64 list) option" where
  "try_exps oob 0 e vals = None"
| "try_exps oob (Suc k) e vals =
     (case scale_all oob (pow10 ! e) vals of
        Some cand \<Rightarrow> Some (of_nat e, cand)
      | None \<Rightarrow> try_exps oob k (Suc e) vals)"

definition tryScaleToInt64 :: "(f64 \<Rightarrow> i64) \<Rightarrow> f64 list \<Rightarrow> (u8 \<times> i64 list) option" where
  "tryScaleToInt64 oob vals =
     (if \<exists>v \<in> set vals. f64_isnan v \<or> f64_isinf v then None
      else try_exps oob (maxScaleExp + 1) 0 vals)"

section \<open>XOR fallback\<close>

definition xorChunkMaxSamples :: nat where
  "xorChunkMaxSamples = 2 ^ 16"

definition encodeGorillaChunk :: "xor_encoder \<Rightarrow> sample list \<Rightarrow> u8 list option" where
  "encodeGorillaChunk xor_enc samples =
     (if samples = [] \<or> xorChunkMaxSamples \<le> length samples then None
      else case xor_enc samples of
        None \<Rightarrow> None
      | Some xorBytes \<Rightarrow>
          let w = w_u8 CodecGorillaXOR []; w = w_uvarint (of_nat (length samples)) w
          in Some (w @ xorBytes))"

definition decodeGorillaChunk :: "xor_decoder \<Rightarrow> byteReader \<Rightarrow> chunk_err + sample list" where
  "decodeGorillaChunk xor_dec r =
     res_bind (r_uvarint r) (\<lambda>(nU, r).
       case xor_dec (drop (rpos r) (rbuf r)) of
         None \<Rightarrow> Inl ErrCorruptChunk
       | Some it \<Rightarrow>
           res_bind (makeslice 16 (sint nU)) (\<lambda>_.
             case it of Inl XorErr \<Rightarrow> Inl ErrCorruptChunk | Inl XorPanic \<Rightarrow> Inl Panic | Inr out \<Rightarrow> Inr out))"

section \<open>Best of N\<close>

record EncodeResult =
  erTag :: u8
  erChunks :: "u8 list list"
  erBytes :: nat

definition totalLen :: "u8 list list \<Rightarrow> nat" where
  "totalLen chunks = fold (\<lambda>c n. n + length c) chunks 0"

definition int_variants :: "(bool \<times> intBodyFormat \<times> u8) list" where
  "int_variants =
     [(False, bodyFixed, CodecIntForDelta), (True, bodyFixed, CodecIntForDoD),
      (False, bodyVarint, CodecIntForDeltaVarint), (True, bodyVarint, CodecIntForDoDVarint)]"

definition mk_cand :: "u8 \<Rightarrow> u8 list list \<Rightarrow> EncodeResult" where
  "mk_cand tag chunks = \<lparr>erTag = tag, erChunks = chunks, erBytes = totalLen chunks\<rparr>"

text \<open>The candidates in the order \<^verbatim>\<open>Encode\<close> appends them.\<close>

definition candidates :: "(f64 \<Rightarrow> i64) \<Rightarrow> xor_encoder \<Rightarrow> sample list \<Rightarrow> EncodeResult list" where
  "candidates oob xor_enc samples =
     (case tryScaleToInt64 oob (map sV samples) of
        None \<Rightarrow> []
      | Some (scaleExp, ints) \<Rightarrow>
          List.map_filter (\<lambda>(dod, body, tag).
            map_option (mk_cand tag) (encodeIntChunks samples scaleExp ints dod body)) int_variants)
     @ (case encodeGorillaChunk xor_enc samples of
          None \<Rightarrow> [] | Some gb \<Rightarrow> [mk_cand CodecGorillaXOR [gb]])"

definition Encode ::
  "(f64 \<Rightarrow> i64) \<Rightarrow> xor_encoder \<Rightarrow> sample list \<Rightarrow> chunk_err + EncodeResult" where
  "Encode oob xor_enc samples =
     (if samples = [] then Inl ErrEmpty
      else case candidates oob xor_enc samples of
        [] \<Rightarrow> Inl ErrEmpty
      | c # cs \<Rightarrow> Inr (fold (\<lambda>c best. if erBytes c < erBytes best then c else best) cs c))"

definition DecodeChunk :: "xor_decoder \<Rightarrow> u8 list \<Rightarrow> chunk_err + sample list" where
  "DecodeChunk xor_dec chunk =
     res_bind (r_u8 \<lparr>rbuf = chunk, rpos = 0\<rparr>) (\<lambda>(tag, r).
       if tag = CodecGorillaXOR then decodeGorillaChunk xor_dec r
       else if tag \<in> {CodecIntForDelta, CodecIntForDoD, CodecIntForDeltaVarint, CodecIntForDoDVarint}
         then res_bind (decodeIntChunk r tag) (\<lambda>(samples, _). Inr samples)
       else Inl ErrBadCodecTag)"

definition DecodeChunks :: "xor_decoder \<Rightarrow> u8 list list \<Rightarrow> chunk_err + sample list" where
  "DecodeChunks xor_dec chunks =
     res_bind (res_map (DecodeChunk xor_dec) chunks) (\<lambda>outs. Inr (concat outs))"

definition PeekTag :: "u8 list \<Rightarrow> chunk_err + u8" where
  "PeekTag chunk = (case chunk of [] \<Rightarrow> Inl ErrCorruptChunk | b # _ \<Rightarrow> Inr b)"

section \<open>Timestamps round trip\<close>

lemma enc_dods_append: "enc_dods prev pd ts w = w @ enc_dods prev pd ts []"
proof (induction ts arbitrary: prev pd w)
  case (Cons t ts)
  show ?case
    using Cons.IH [of t "t - prev" "w_varint (t - prev - pd) w"]
      Cons.IH [of t "t - prev" "w_varint (t - prev - pd) []"]
    by (simp add: Let_def w_append)
qed simp

lemma encodeTimestamps_append: "encodeTimestamps w ts = w @ encodeTimestamps [] ts"
proof (induction w ts rule: encodeTimestamps.induct)
  case (3 w t0 t1 ts)
  show ?case
    by (simp add: Let_def w_append) (subst (1 2) enc_dods_append, simp)
qed (simp_all add: w_append)

lemma dec_dods_enc_dods:
  "dec_dods (length ts) prev pd (reader_at before (enc_dods prev pd ts [] @ after)) =
     Inr (ts, reader_at (before @ enc_dods prev pd ts []) after)"
proof (induction ts arbitrary: prev pd before)
  case (Cons t ts)
  have "enc_dods prev pd (t # ts) [] = put_uvarint (zigzag (t - prev - pd)) @ enc_dods t (t - prev) ts []"
    by (simp add: Let_def w_append) (rule enc_dods_append)
  then show ?case
    using Cons.IH [of t "t - prev" "before @ put_uvarint (zigzag (t - prev - pd))"]
    by (simp add: Let_def)
qed simp

lemma decodeTimestamps_encodeTimestamps [roundtrip]:
  assumes "length ts \<le> 2 ^ 45"
  shows "decodeTimestamps (reader_at before (encodeTimestamps [] ts @ after)) (int (length ts)) =
    Inr (ts, reader_at (before @ encodeTimestamps [] ts) after)"
proof -
  have m: "makeslice 8 (int (length ts)) = Inr (length ts)"
    using assms by (simp add: makeslice_def)
  show ?thesis
  proof (cases ts)
    case Nil
    then show ?thesis by (simp add: decodeTimestamps_def makeslice_def)
  next
    case (Cons t0 ts')
    show ?thesis
    proof (cases ts')
      case Nil
      with Cons m show ?thesis by (simp add: decodeTimestamps_def w_append)
    next
      case (Cons t1 us)
      have "encodeTimestamps [] ts =
          put_uvarint (zigzag t0) @ put_uvarint (zigzag (t1 - t0)) @ enc_dods t1 (t1 - t0) us []"
        using \<open>ts = t0 # ts'\<close> Cons by (simp add: Let_def w_append) (subst enc_dods_append, simp)
      with \<open>ts = t0 # ts'\<close> Cons m dec_dods_enc_dods [of us t1 "t1 - t0"] show ?thesis
        by (simp add: decodeTimestamps_def Let_def)
    qed
  qed
qed

section \<open>Residuals round trip\<close>

lemma sum_deltas_delta_residuals:
  "delta_residuals prev xs = Some rs \<Longrightarrow> sum_deltas prev rs = xs"
  by (induction xs arbitrary: prev rs) (auto simp: Let_def split: if_splits)

lemma sum_dods_dod_residuals:
  "dod_residuals prev pd xs = Some rs \<Longrightarrow> sum_dods prev pd rs = xs"
  by (induction xs arbitrary: prev pd rs) (auto simp: Let_def split: if_splits)

lemma delta_residuals_fit:
  "delta_residuals prev xs = Some rs \<Longrightarrow> length rs = length xs \<and> (\<forall>d \<in> set rs. residualFits d)"
  by (induction xs arbitrary: prev rs) (fastforce simp: Let_def split: if_splits)+

lemma dod_residuals_fit:
  "dod_residuals prev pd xs = Some rs \<Longrightarrow> length rs = length xs \<and> (\<forall>d \<in> set rs. residualFits d)"
  by (induction xs arbitrary: prev pd rs) (fastforce simp: Let_def split: if_splits)+

lemma intResiduals_props:
  assumes "intResiduals ints dod = Some (base, f, rs)"
  shows "reconstructInts base f rs (length ints) dod = ints"
    and "length rs = (if 3 \<le> length ints then length ints - 2 else 0)"
    and "\<forall>d \<in> set rs. residualFits d"
proof -
  have "reconstructInts base f rs (length ints) dod = ints \<and>
      length rs = (if 3 \<le> length ints then length ints - 2 else 0) \<and> (\<forall>d \<in> set rs. residualFits d)"
    using assms
  proof (cases "(ints, dod)" rule: intResiduals.cases)
    case (3 x0 x1 xs dod')
    let ?rs = "if \<not> dod then delta_residuals x1 xs else dod_residuals x1 (x1 - x0) xs"
    have rs: "?rs = Some rs" and base: "base = x0" and f: "f = x1 - x0"
      using assms 3 by (auto simp: Let_def split: if_splits)
    have "length rs = length xs \<and> (\<forall>d \<in> set rs. residualFits d)"
      using rs by (cases dod) (auto dest: delta_residuals_fit dod_residuals_fit)
    moreover have "(if \<not> dod then sum_deltas x1 rs else sum_dods x1 (x1 - x0) rs) = xs"
      using rs by (cases dod) (auto dest: sum_deltas_delta_residuals sum_dods_dod_residuals)
    ultimately show ?thesis
      using 3 by (cases xs) (auto simp: reconstructInts_def Let_def base f)
  qed (auto simp: reconstructInts_def)
  then show "reconstructInts base f rs (length ints) dod = ints"
    and "length rs = (if 3 \<le> length ints then length ints - 2 else 0)"
    and "\<forall>d \<in> set rs. residualFits d" by auto
qed

section \<open>Chunk round trip\<close>

lemma fold_w_varint: "fold w_varint ds w = w @ concat (map (\<lambda>d. put_uvarint (zigzag d)) ds)"
  by (induction ds arbitrary: w) (simp_all add: w_append)

lemma read_varints_at:
  "read_varints (length ds) (reader_at before (concat (map (\<lambda>d. put_uvarint (zigzag d)) ds) @ after)) =
     Inr (ds, reader_at (before @ concat (map (\<lambda>d. put_uvarint (zigzag d)) ds)) after)"
  by (induction ds arbitrary: before) simp_all

lemma packed_at:
  assumes "\<forall>d \<in> set rs. residualFits d"
  defines "zz \<equiv> map zigzag rs"
  defines "width \<equiv> bitPackWidth zz"
  shows "unpackBits (packBits [] zz width @ after) (length rs) width = Inr zz"
    and "(length rs * width + 7) div 8 = length (packBits [] zz width)"
    and "width \<le> 56"
proof -
  have "\<forall>u \<in> set zz. len64 u \<le> 56"
    using assms(1) by (auto simp: zz_def residualFits_def maxResidualWidth_def)
  note b = bitPackWidth_bound [OF this, folded width_def]
  from b(1) show "width \<le> 56" .
  then have w: "width \<le> 57" by simp
  from unpackBits_packBits [OF w b(2), of after]
  show "unpackBits (packBits [] zz width @ after) (length rs) width = Inr zz"
    by (simp add: zz_def)
  from length_packBits [OF w, of zz]
  show "(length rs * width + 7) div 8 = length (packBits [] zz width)"
    by (simp add: zz_def)
qed

text \<open>What a decoded chunk holds: the timestamps, and each integer divided by the scale.\<close>

definition scaled_samples :: "u8 \<Rightarrow> sample list \<Rightarrow> i64 list \<Rightarrow> sample list" where
  "scaled_samples e samples ints =
     map2 (\<lambda>s i. s\<lparr>sV := f64_div (f64_of_int64 i) (pow10Abs e)\<rparr>) samples ints"

lemma codecTagFor_dod:
  "(codecTagFor dod body = CodecIntForDoD \<or> codecTagFor dod body = CodecIntForDoDVarint) = dod"
  "(codecTagFor dod body = CodecIntForDeltaVarint \<or> codecTagFor dod body = CodecIntForDoDVarint)
     = (body = bodyVarint)"
  "codecTagFor dod body \<noteq> CodecGorillaXOR"
  "codecTagFor dod body \<in> {CodecIntForDelta, CodecIntForDoD, CodecIntForDeltaVarint, CodecIntForDoDVarint}"
  by (cases dod; cases body; simp add: codecTagFor_def codec_tags)+

lemma decodeIntChunk_encodeIntChunk:
  assumes enc: "encodeIntChunk samples e ints dod body = Some bytes"
    and len: "length ints = length samples" "length samples \<le> 2 ^ 44"
  shows "\<exists>tl. bytes = codecTagFor dod body # tl \<and>
    decodeIntChunk (reader_at before (tl @ after)) (codecTagFor dod body) =
      Inr (scaled_samples e samples ints, reader_at (before @ tl) after)"
proof -
  obtain base f rs where res: "intResiduals ints dod = Some (base, f, rs)"
    using enc by (auto simp: encodeIntChunk_def split: option.splits)
  note props = intResiduals_props [OF res]
  define hd where "hd = put_uvarint (of_nat (length samples)) @ encodeTimestamps [] (map sT samples) @
      [e] @ put_uvarint (zigzag base) @ put_uvarint (zigzag f)"
  define zz where "zz = map zigzag rs"
  define bd where "bd = (case body of bodyVarint \<Rightarrow> concat (map (\<lambda>d. put_uvarint (zigzag d)) rs)
      | bodyFixed \<Rightarrow> of_nat (bitPackWidth zz) # packBits [] zz (bitPackWidth zz))"
  have bytes: "bytes = codecTagFor dod body # hd @ bd"
    using enc res
    by (cases body) (auto simp: encodeIntChunk_def Let_def w_append fold_w_varint hd_def bd_def zz_def
        packBits_append [of "_ @ _"] packBits_append [of "_ # _"] encodeTimestamps_append [of "_ @ _"]
        encodeTimestamps_append [of "_ # _"])
  have n: "sint (of_nat (length samples) :: u64) = int (length samples)"
    and m: "makeslice 16 (int (length samples)) = Inr (length samples)"
    using len(2) by (simp_all add: makeslice_def)
  have nres: "length rs = n_residuals (length samples)"
    using props(2) len(1) by (simp add: n_residuals_def)
  have body: "decode_residuals (body = bodyVarint) (n_residuals (length samples)) (reader_at (before @ hd) (bd @ after))
     = Inr (rs, reader_at (before @ hd @ bd) after)"
  proof (cases body)
    case bodyVarint
    then show ?thesis
      using read_varints_at [of rs "before @ hd" after] by (simp add: decode_residuals_def bd_def flip: nres)
  next
    case bodyFixed
    let ?w = "bitPackWidth zz" and ?p = "packBits [] zz (bitPackWidth zz)"
    note pk = packed_at [OF props(3), folded zz_def]
    have w: "unat (of_nat ?w :: u8) = ?w"
      using pk(3) by (simp add: unat_of_nat)
    have le: "\<not> length (rbuf (reader_at b (?p @ after))) < rpos (reader_at b (?p @ after)) + length ?p" for b
      by (simp add: reader_at_def)
    have adv: "(reader_at b (?p @ after))\<lparr>rpos := rpos (reader_at b (?p @ after)) + length ?p\<rparr> =
        reader_at (b @ ?p) after" for b
      by (rule advance_reader_at) simp
    have mz: "map unzigzag zz = rs" by (simp add: zz_def o_def)
    show ?thesis
      using bodyFixed pk(1,2) w
      by (simp add: decode_residuals_def le adv mz Let_def bd_def flip: nres)
  qed
  have ints: "reconstructInts base f rs (length samples) dod = ints"
    using props(1) len(1) by simp
  have out: "map (\<lambda>i. \<lparr>sT = map sT samples ! i, sV = f64_div (f64_of_int64 (ints ! i)) (pow10Abs e)\<rparr>)
      [0..<length samples] = scaled_samples e samples ints"
    using len(1) by (intro nth_equalityI) (simp_all add: scaled_samples_def)
  have "decodeIntChunk (reader_at before ((hd @ bd) @ after)) (codecTagFor dod body) =
      Inr (scaled_samples e samples ints, reader_at (before @ hd @ bd) after)"
    using body decodeTimestamps_encodeTimestamps [of "map sT samples"] len m
    by (simp add: n decodeIntChunk_def codecTagFor_dod hd_def ints out Let_def del: sint_of_nat_u64)
  with bytes show ?thesis by simp
qed

lemma DecodeChunk_encodeIntChunk:
  assumes "encodeIntChunk samples e ints dod body = Some bytes"
    and "length ints = length samples" "length samples \<le> 2 ^ 44"
  shows "DecodeChunk xor_dec bytes = Inr (scaled_samples e samples ints)"
proof -
  obtain tl where "bytes = codecTagFor dod body # tl"
    and "decodeIntChunk (reader_at [codecTagFor dod body] (tl @ [])) (codecTagFor dod body) =
      Inr (scaled_samples e samples ints, reader_at ([codecTagFor dod body] @ tl) [])"
    using decodeIntChunk_encodeIntChunk [OF assms] by blast
  then show ?thesis
    using codecTagFor_dod(3,4) [of dod body]
    by (simp add: DecodeChunk_def reader_at_start del: insert_iff)
qed

section \<open>The chunk cut\<close>

lemma cut_delta_prefix:
  "\<exists>k \<le> length xs. cut_delta prev i xs = i + k \<and> delta_residuals prev (take k xs) \<noteq> None \<and>
     (\<forall>j. k < j \<and> j \<le> length xs \<longrightarrow> delta_residuals prev (take j xs) = None)"
proof (induction xs arbitrary: prev i)
  case (Cons x xs)
  show ?case
  proof (cases "residualFits (x - prev)")
    case True
    from Cons.IH [of x "Suc i"] obtain k where "k \<le> length xs" "cut_delta x (Suc i) xs = Suc i + k"
      "delta_residuals x (take k xs) \<noteq> None"
      "\<forall>j. k < j \<and> j \<le> length xs \<longrightarrow> delta_residuals x (take j xs) = None" by blast
    with True show ?thesis
      by (intro exI [of _ "Suc k"]) (auto simp: Let_def take_Cons split: nat.splits)
  next
    case False
    then show ?thesis by (intro exI [of _ 0]) (auto simp: Let_def take_Cons split: nat.splits)
  qed
qed simp

lemma cut_dod_prefix:
  "\<exists>k \<le> length xs. cut_dod prev pd i xs = i + k \<and> dod_residuals prev pd (take k xs) \<noteq> None \<and>
     (\<forall>j. k < j \<and> j \<le> length xs \<longrightarrow> dod_residuals prev pd (take j xs) = None)"
proof (induction xs arbitrary: prev pd i)
  case (Cons x xs)
  show ?case
  proof (cases "residualFits (x - prev - pd)")
    case True
    from Cons.IH [of x "x - prev" "Suc i"] obtain k where "k \<le> length xs"
      "cut_dod x (x - prev) (Suc i) xs = Suc i + k" "dod_residuals x (x - prev) (take k xs) \<noteq> None"
      "\<forall>j. k < j \<and> j \<le> length xs \<longrightarrow> dod_residuals x (x - prev) (take j xs) = None" by blast
    with True show ?thesis
      by (intro exI [of _ "Suc k"]) (auto simp: Let_def take_Cons split: nat.splits)
  next
    case False
    then show ?thesis by (intro exI [of _ 0]) (auto simp: Let_def take_Cons split: nat.splits)
  qed
qed simp

lemma findCutEnd_prefix:
  assumes "ints \<noteq> []"
  shows "1 \<le> findCutEnd ints dod \<and> findCutEnd ints dod \<le> length ints \<and>
    intResiduals (take (findCutEnd ints dod) ints) dod \<noteq> None \<and>
    (\<forall>j. findCutEnd ints dod < j \<and> j \<le> length ints \<longrightarrow> intResiduals (take j ints) dod = None)"
proof (cases "(ints, dod)" rule: findCutEnd.cases)
  case (3 x0 x1 xs dod')
  let ?rest = "\<lambda>j. if \<not> dod then delta_residuals x1 (take j xs) else dod_residuals x1 (x1 - x0) (take j xs)"
  obtain k where k: "k \<le> length xs" "?rest k \<noteq> None" "\<forall>j. k < j \<and> j \<le> length xs \<longrightarrow> ?rest j = None"
    and cut: "findCutEnd ints dod = (if residualFits (x1 - x0) then 2 + k else 1)"
    using cut_delta_prefix [of xs x1 2] cut_dod_prefix [of xs x1 "x1 - x0" 2] 3
    by (cases dod) (auto simp: Let_def numeral_2_eq_2)
  have many: "intResiduals (take (Suc (Suc j)) ints) dod =
      (if residualFits (x1 - x0) then map_option (\<lambda>rs. (x0, x1 - x0, rs)) (?rest j) else None)" for j
    using 3 by (simp add: Let_def)
  have beyond: "intResiduals (take j ints) dod = None" if "findCutEnd ints dod < j" "j \<le> length ints" for j
  proof -
    have "2 \<le> j" using that(1) cut by (auto split: if_splits)
    then obtain j' where j': "j = Suc (Suc j')" by (metis add_2_eq_Suc le_Suc_ex)
    show ?thesis
      using that k(3) cut 3 unfolding j' many by (auto split: if_splits)
  qed
  have "intResiduals (take (findCutEnd ints dod) ints) dod \<noteq> None"
  proof (cases "residualFits (x1 - x0)")
    case True
    with k(2) many [of k] show ?thesis by (simp add: cut)
  next
    case False
    then have "take (findCutEnd ints dod) ints = [x0]" unfolding cut using 3 by simp
    then show ?thesis by simp
  qed
  moreover have "1 \<le> findCutEnd ints dod \<and> findCutEnd ints dod \<le> length ints"
    unfolding cut using k(1) 3 by simp
  ultimately show ?thesis using beyond by blast
qed (use assms in auto)

lemma scaled_samples_append:
  assumes "length as = length is"
  shows "scaled_samples e (as @ bs) (is @ js) = scaled_samples e as is @ scaled_samples e bs js"
  using assms by (simp add: scaled_samples_def)

lemma cut_loop_roundtrip:
  assumes "length ints = length samples" and "length samples \<le> 2 ^ 44"
  shows "\<exists>cs. cut_loop samples e ints dod body = Some cs \<and>
    DecodeChunks xor_dec cs = Inr (scaled_samples e samples ints)"
  using assms
proof (induction samples e ints dod body rule: cut_loop.induct)
  case (1 samples e ints dod body)
  show ?case
  proof (cases "samples = []")
    case True
    then show ?thesis
      by (subst cut_loop.simps) (simp add: DecodeChunks_def scaled_samples_def)
  next
    case False
    define k where "k = findCutEnd ints dod"
    have ints: "ints \<noteq> []" using False "1.prems"(1) by auto
    note cut = findCutEnd_prefix [OF ints, of dod, folded k_def]
    obtain b where b: "encodeIntChunk (take k samples) e (take k ints) dod body = Some b"
      using cut by (auto simp: encodeIntChunk_def Let_def split: prod.splits)
    have dec: "DecodeChunk xor_dec b = Inr (scaled_samples e (take k samples) (take k ints))"
      using "1.prems" by (intro DecodeChunk_encodeIntChunk [OF b]) auto
    have "\<exists>cs. cut_loop (drop k samples) e (drop k ints) dod body = Some cs \<and>
        DecodeChunks xor_dec cs = Inr (scaled_samples e (drop k samples) (drop k ints))"
      using "1.prems" by (intro "1.IH" [OF False k_def b]) auto
    then obtain cs where cs: "cut_loop (drop k samples) e (drop k ints) dod body = Some cs"
      "DecodeChunks xor_dec cs = Inr (scaled_samples e (drop k samples) (drop k ints))" by blast
    have "scaled_samples e samples ints =
        scaled_samples e (take k samples) (take k ints) @ scaled_samples e (drop k samples) (drop k ints)"
      using "1.prems"(1) by (subst scaled_samples_append [symmetric]) auto
    with cs dec show ?thesis
      using False b by (subst cut_loop.simps)
        (auto simp: DecodeChunks_def res_bind_eq_Inr_iff simp flip: k_def)
  qed
qed

section \<open>The scale guard\<close>

text \<open>Two samples that Go's \<open>==\<close> cannot tell apart, or that are the same bits (a NaN included).\<close>

definition same_sample :: "sample \<Rightarrow> sample \<Rightarrow> bool" where
  "same_sample s t \<longleftrightarrow> sT s = sT t \<and> (sV s = sV t \<or> f64_eq (sV s) (sV t))"

lemma same_sample_bits:
  assumes "same_sample s t" and "\<not> f64_iszero (sV s)"
  shows "s = t"
  using assms by (cases s; cases t) (auto simp: same_sample_def f64_eq_def)

lemma scale_all_exact:
  "scale_all oob factor vals = Some ints \<Longrightarrow>
     list_all2 (\<lambda>v i. f64_eq (f64_div (f64_of_int64 i) factor) v) vals ints"
  by (induction vals arbitrary: ints) (auto simp: Let_def split: if_splits)

lemma try_exps_exact:
  "try_exps oob k e vals = Some (e', ints) \<Longrightarrow>
     \<exists>m. e \<le> m \<and> m < e + k \<and> e' = of_nat m \<and> scale_all oob (pow10 ! m) vals = Some ints"
proof (induction k arbitrary: e)
  case (Suc k)
  show ?case
  proof (cases "scale_all oob (pow10 ! e) vals")
    case None
    with Suc.prems Suc.IH [of "Suc e"] show ?thesis by auto (use le_Suc_eq less_Suc_eq_le in blast)
  next
    case (Some c)
    with Suc.prems show ?thesis by auto
  qed
qed simp

lemma pow10Abs_of_nat: "m < 16 \<Longrightarrow> pow10Abs (of_nat m) = pow10 ! m"
  by (simp add: pow10Abs_def pow10_def signed_of_nat signed_take_bit_int_eq_self)

lemma tryScaleToInt64_exact:
  assumes "tryScaleToInt64 oob (map sV samples) = Some (e, ints)"
  shows "length ints = length samples" and "list_all2 same_sample samples (scaled_samples e samples ints)"
proof -
  obtain m where "m < 16" "e = of_nat m" "scale_all oob (pow10 ! m) (map sV samples) = Some ints"
    using assms by (auto simp: tryScaleToInt64_def maxScaleExp_def dest!: try_exps_exact split: if_splits)
  then have "list_all2 (\<lambda>v i. f64_eq (f64_div (f64_of_int64 i) (pow10Abs e)) v) (map sV samples) ints"
    by (simp add: scale_all_exact pow10Abs_of_nat)
  then have *: "list_all2 (\<lambda>s i. f64_eq (f64_div (f64_of_int64 i) (pow10Abs e)) (sV s)) samples ints"
    by (simp add: list_all2_map1)
  then show "length ints = length samples" by (simp add: list_all2_lengthD)
  from * show "list_all2 same_sample samples (scaled_samples e samples ints)"
    by (induction samples ints rule: list_all2_induct)
      (simp_all add: scaled_samples_def same_sample_def f64_eq_sym)
qed

section \<open>Best of N\<close>

lemma totalLen_eq: "totalLen cs = length (concat cs)"
proof -
  have "fold (\<lambda>c n. n + length c) cs m = m + length (concat cs)" for m
    by (induction cs arbitrary: m) simp_all
  then show ?thesis by (simp add: totalLen_def)
qed

lemma fold_best:
  assumes "b = fold (\<lambda>c best. if erBytes c < erBytes best then c else best) cs c0"
  shows "b \<in> set (c0 # cs) \<and> (\<forall>c \<in> set (c0 # cs). erBytes b \<le> erBytes c)"
  using assms
proof (induction cs arbitrary: c0)
  case (Cons c cs)
  then show ?case by (cases "erBytes c < erBytes c0") fastforce+
qed simp

lemma encodeGorillaChunk_bytes:
  assumes "encodeGorillaChunk xor_enc samples = Some gb"
  obtains bs where "xor_enc samples = Some bs" "length samples < 2 ^ 16" "samples \<noteq> []"
    "gb = CodecGorillaXOR # put_uvarint (of_nat (length samples)) @ bs"
  using assms by (auto simp: encodeGorillaChunk_def xorChunkMaxSamples_def w_append split: if_splits option.splits)

lemma encodeGorillaChunk_tag:
  "encodeGorillaChunk xor_enc samples = Some gb \<Longrightarrow> PeekTag gb = Inr CodecGorillaXOR"
  by (erule encodeGorillaChunk_bytes) (simp add: PeekTag_def)

lemma encodeGorillaChunk_lossless:
  assumes enc: "encodeGorillaChunk xor_enc samples = Some gb"
    and xor: "\<And>bs. length samples < 2 ^ 16 \<Longrightarrow> xor_enc samples = Some bs \<Longrightarrow> xor_dec bs = Some (Inr samples)"
  shows "DecodeChunks xor_dec [gb] = Inr samples"
proof -
  obtain bs where bs: "xor_enc samples = Some bs" and len: "length samples < 2 ^ 16"
    and gb: "gb = CodecGorillaXOR # put_uvarint (of_nat (length samples)) @ bs"
    using enc by (rule encodeGorillaChunk_bytes)
  have m: "makeslice 16 (int (length samples)) = Inr (length samples)"
    using len by (simp add: makeslice_def)
  have "xor_dec bs = Some (Inr samples)" using len bs by (rule xor)
  then show ?thesis
    using m len by (simp add: gb DecodeChunks_def DecodeChunk_def decodeGorillaChunk_def reader_at_start)
qed

lemma encodeIntChunk_tag:
  "encodeIntChunk samples e ints dod body = Some b \<Longrightarrow> PeekTag b = Inr (codecTagFor dod body)"
  by (auto simp: encodeIntChunk_def PeekTag_def Let_def w_append fold_w_varint
      packBits_append [of "_ @ _"] packBits_append [of "_ # _"] encodeTimestamps_append [of "_ @ _"]
      encodeTimestamps_append [of "_ # _"] split: option.splits intBodyFormat.splits)

lemma cut_loop_tags:
  "cut_loop samples e ints dod body = Some cs \<Longrightarrow> \<forall>c \<in> set cs. PeekTag c = Inr (codecTagFor dod body)"
proof (induction samples e ints dod body arbitrary: cs rule: cut_loop.induct)
  case (1 samples e ints dod body)
  show ?case
  proof (cases "samples = []")
    case True
    with "1.prems" show ?thesis by (subst (asm) cut_loop.simps) simp
  next
    case False
    with "1.prems" obtain b cs' where "cs = b # cs'"
      and b: "encodeIntChunk (take (findCutEnd ints dod) samples) e (take (findCutEnd ints dod) ints) dod body = Some b"
      and "cut_loop (drop (findCutEnd ints dod) samples) e (drop (findCutEnd ints dod) ints) dod body = Some cs'"
      by (subst (asm) cut_loop.simps) (auto simp: Let_def split: option.splits)
    with "1.IH" [OF False refl b] encodeIntChunk_tag [OF b] show ?thesis by simp
  qed
qed

lemma int_variants_tag: "(dod, body, tag) \<in> set int_variants \<Longrightarrow> tag = codecTagFor dod body"
  by (auto simp: int_variants_def codecTagFor_def)

text \<open>A candidate is one of the integer variants over the scaled block, or the XOR chunk.\<close>

lemma candidates_cases:
  assumes "c \<in> set (candidates oob xor_enc samples)"
  obtains (int) e ints dod body cs where
    "tryScaleToInt64 oob (map sV samples) = Some (e, ints)" "cut_loop samples e ints dod body = Some cs"
    "c = mk_cand (codecTagFor dod body) cs"
  | (xor) gb where "encodeGorillaChunk xor_enc samples = Some gb" "c = mk_cand CodecGorillaXOR [gb]"
proof (cases "\<exists>gb. encodeGorillaChunk xor_enc samples = Some gb \<and> c = mk_cand CodecGorillaXOR [gb]")
  case True
  then show ?thesis using xor by blast
next
  case False
  then obtain e ints where e: "tryScaleToInt64 oob (map sV samples) = Some (e, ints)"
    and c: "c \<in> set (List.map_filter (\<lambda>(dod, body, tag).
      map_option (mk_cand tag) (encodeIntChunks samples e ints dod body)) int_variants)"
    using assms by (cases "tryScaleToInt64 oob (map sV samples)"; cases "encodeGorillaChunk xor_enc samples")
      (auto simp: candidates_def)
  then obtain dod body tag cs where v: "(dod, body, tag) \<in> set int_variants"
    and cs: "encodeIntChunks samples e ints dod body = Some cs" "c = mk_cand tag cs"
    by (auto simp: map_filter_def)
  have "cut_loop samples e ints dod body = Some cs"
    using cs(1) by (simp add: encodeIntChunks_def split: if_splits)
  with e cs(2) int_variants_tag [OF v] show ?thesis by (intro int) auto
qed

lemma candidates_shape:
  assumes "c \<in> set (candidates oob xor_enc samples)"
  shows "erBytes c = length (concat (erChunks c))"
    and "\<forall>chunk \<in> set (erChunks c). PeekTag chunk = Inr (erTag c)"
proof -
  have "erBytes c = length (concat (erChunks c)) \<and> (\<forall>chunk \<in> set (erChunks c). PeekTag chunk = Inr (erTag c))"
    using assms
  proof (cases rule: candidates_cases)
    case (int e ints dod body cs)
    with cut_loop_tags [OF int(2)] show ?thesis by (simp add: mk_cand_def totalLen_eq)
  next
    case (xor gb)
    with encodeGorillaChunk_tag [OF xor(1)] show ?thesis by (simp add: mk_cand_def totalLen_eq)
  qed
  then show "erBytes c = length (concat (erChunks c))"
    and "\<forall>chunk \<in> set (erChunks c). PeekTag chunk = Inr (erTag c)" by auto
qed

lemma candidates_lossless:
  assumes c: "c \<in> set (candidates oob xor_enc samples)" and len: "length samples \<le> 2 ^ 44"
    and xor: "\<And>bs. length samples < 2 ^ 16 \<Longrightarrow> xor_enc samples = Some bs \<Longrightarrow> xor_dec bs = Some (Inr samples)"
  shows "\<exists>out. DecodeChunks xor_dec (erChunks c) = Inr out \<and> list_all2 same_sample samples out"
  using c
proof (cases rule: candidates_cases)
  case (int e ints dod body cs)
  have "DecodeChunks xor_dec cs = Inr (scaled_samples e samples ints)"
    using cut_loop_roundtrip [OF tryScaleToInt64_exact(1) [OF int(1)] len, of e dod body xor_dec] int(2)
    by auto
  with int tryScaleToInt64_exact(2) [OF int(1)] show ?thesis by (auto simp: mk_cand_def)
next
  case (xor gb)
  have "list_all2 same_sample samples samples"
    by (simp add: list_all2_same same_sample_def)
  with xor encodeGorillaChunk_lossless [OF xor(1) assms(3)] show ?thesis by (auto simp: mk_cand_def)
qed

lemma Encode_in_candidates:
  assumes "Encode oob xor_enc samples = Inr res"
  shows "res \<in> set (candidates oob xor_enc samples)"
    and "\<forall>c \<in> set (candidates oob xor_enc samples). erBytes res \<le> erBytes c"
proof -
  obtain c cs where c: "candidates oob xor_enc samples = c # cs"
    and "res = fold (\<lambda>c best. if erBytes c < erBytes best then c else best) cs c"
    using assms by (auto simp: Encode_def split: if_splits list.splits)
  from fold_best [OF this(2)] show "res \<in> set (candidates oob xor_enc samples)"
    and "\<forall>c \<in> set (candidates oob xor_enc samples). erBytes res \<le> erBytes c"
    unfolding c by auto
qed

section \<open>Decoding arbitrary bytes\<close>

text \<open>The readers fail only with \<open>ErrCorruptChunk\<close>; none of them can panic.\<close>

lemma reader_errors:
  "r_u8 r = Inl x \<Longrightarrow> x = ErrCorruptChunk"
  "r_uvarint r = Inl x \<Longrightarrow> x = ErrCorruptChunk"
  "r_varint r = Inl x \<Longrightarrow> x = ErrCorruptChunk"
  by (auto simp: r_u8_def r_uvarint_def r_varint_def res_bind_eq_Inl_iff split: if_splits prod.splits)

lemma dec_dods_shape:
  "dec_dods n prev pd r = Inl x \<Longrightarrow> x = ErrCorruptChunk"
  "dec_dods n prev pd r = Inr (ts, r') \<Longrightarrow> length ts = n"
  by (induction n arbitrary: prev pd r ts r')
    (auto simp: Let_def res_bind_eq_Inl_iff res_bind_eq_Inr_iff dest: reader_errors split: prod.splits)

lemma read_varints_shape:
  "read_varints n r = Inl x \<Longrightarrow> x = ErrCorruptChunk"
  "read_varints n r = Inr (ds, r') \<Longrightarrow> length ds = n"
  by (induction n arbitrary: r ds r')
    (auto simp: res_bind_eq_Inl_iff res_bind_eq_Inr_iff dest: reader_errors split: prod.splits)

lemma decodeTimestamps_shape:
  "decodeTimestamps r n = Inl x \<Longrightarrow> 0 \<le> n \<Longrightarrow> n \<le> 2 ^ 44 \<Longrightarrow> x = ErrCorruptChunk"
  "decodeTimestamps r n = Inr (ts, r') \<Longrightarrow> length ts = nat n"
  by (auto simp: decodeTimestamps_def makeslice_def Let_def res_bind_eq_Inl_iff res_bind_eq_Inr_iff
      dest: reader_errors dec_dods_shape split: prod.splits if_splits)

lemma fill_bits_error: "fill_bits w src cur nb = Inl x \<Longrightarrow> x = ErrCorruptChunk"
proof (induction src arbitrary: cur nb)
  case Nil
  then show ?case by (subst (asm) fill_bits.simps) (auto split: if_splits)
next
  case (Cons b src)
  then show ?case by (subst (asm) fill_bits.simps) (auto split: if_splits)
qed

lemma unpackBits_shape:
  "unpackBits src n w = Inl x \<Longrightarrow> x = ErrCorruptChunk"
  "unpackBits src n w = Inr us \<Longrightarrow> length us = n"
proof -
  have "unpack_loop w n src cur nb = Inl x \<Longrightarrow> x = ErrCorruptChunk" for cur nb
    by (induction n arbitrary: src cur nb)
      (auto simp: res_bind_eq_Inl_iff dest: fill_bits_error split: prod.splits)
  moreover have "unpack_loop w n src cur nb = Inr us \<Longrightarrow> length us = n" for cur nb us
    by (induction n arbitrary: src cur nb us)
      (auto simp: res_bind_eq_Inr_iff split: prod.splits)
  ultimately show "unpackBits src n w = Inl x \<Longrightarrow> x = ErrCorruptChunk"
    and "unpackBits src n w = Inr us \<Longrightarrow> length us = n"
    by (auto simp: unpackBits_def split: if_splits)
qed

lemma decode_residuals_shape:
  "decode_residuals v n r = Inl x \<Longrightarrow> x = ErrCorruptChunk"
  "decode_residuals v n r = Inr (rs, r') \<Longrightarrow> length rs = n"
  by (auto simp: decode_residuals_def Let_def res_bind_eq_Inl_iff res_bind_eq_Inr_iff
      dest: reader_errors read_varints_shape unpackBits_shape split: prod.splits if_splits)

lemma length_reconstructInts:
  assumes "length rs = n_residuals n"
  shows "n \<le> length (reconstructInts base f rs n dod)"
proof -
  have "length (sum_deltas p ds) = length ds" "length (sum_dods p q ds) = length ds" for p q ds
    by (induction ds arbitrary: p q) (simp_all add: Let_def)
  with assms show ?thesis by (auto simp: reconstructInts_def Let_def n_residuals_def split: if_splits)
qed

lemma decodeIntChunk_errors:
  assumes "decodeIntChunk r tag = Inl x"
    and "r_uvarint r = Inr (nU, r')" and "0 \<le> sint nU" and "sint nU \<le> 2 ^ 44"
  shows "x = ErrCorruptChunk"
proof -
  have mk: "makeslice 16 (sint nU) = Inr (nat (sint nU))"
    using assms(3,4) by (simp add: makeslice_def)
  show ?thesis
    using assms(1) decodeTimestamps_shape(1) [OF _ assms(3,4)]
    by (auto simp: decodeIntChunk_def Let_def assms(2) mk res_bind_eq_Inl_iff
        dest: reader_errors decode_residuals_shape decodeTimestamps_shape(2) split: prod.splits if_splits)
      (metis decode_residuals_shape(2) length_reconstructInts not_le)+
qed

section \<open>Properties\<close>

text \<open>
  A fixed codec for the XOR parameter, used where a property is applied at a concrete input: the
  sample count, then each timestamp and value pattern as a varint.
\<close>

fun pair_up :: "i64 list \<Rightarrow> sample list" where
  "pair_up (t # v # xs) = \<lparr>sT = t, sV = v\<rparr> # pair_up xs"
| "pair_up _ = []"

definition plain_enc :: xor_encoder where
  "plain_enc ss = Some (fold w_varint (concat (map (\<lambda>s. [sT s, sV s]) ss)) (w_uvarint (of_nat (length ss)) []))"

definition plain_dec :: xor_decoder where
  "plain_dec bs = (case r_uvarint \<lparr>rbuf = bs, rpos = 0\<rparr> of
     Inl _ \<Rightarrow> None
   | Inr (n, r) \<Rightarrow> (case read_varints (2 * unat n) r of
       Inl _ \<Rightarrow> Some (Inl XorErr) | Inr (xs, _) \<Rightarrow> Some (Inr (pair_up xs))))"

lemma plain_dec_enc:
  assumes "length ss < 2 ^ 16" and "plain_enc ss = Some bs"
  shows "plain_dec bs = Some (Inr ss)"
proof -
  let ?xs = "concat (map (\<lambda>s. [sT s, sV s]) ss)"
  have "pair_up ?xs = ss" by (induction ss) simp_all
  moreover have "length ?xs = 2 * length ss" by (induction ss) simp_all
  moreover have "unat (of_nat (length ss) :: u64) = length ss"
    using assms(1) by (simp add: unat_of_nat)
  ultimately show ?thesis
    using assms(2) read_varints_at [of ?xs "put_uvarint (of_nat (length ss))" "[]"]
    by (auto simp: plain_enc_def plain_dec_def w_append fold_w_varint reader_at_start)
qed

text \<open>
  Property C6. Whatever the block, if \<^verbatim>\<open>Encode\<close> returns chunks then \<^verbatim>\<open>DecodeChunks\<close> accepts them and
  gives back the block: the same number of samples in the same order, every timestamp equal, and
  every value with the same bits, except that a zero may come back as the other zero. The XOR chunk
  of the library is assumed to be lossless on the blocks it accepts.
\<close>

theorem Encode_DecodeChunks:
  assumes "Encode oob xor_enc samples = Inr res" and "length samples \<le> 2 ^ 44"
    and "\<And>ss bs. length ss < 2 ^ 16 \<Longrightarrow> xor_enc ss = Some bs \<Longrightarrow> xor_dec bs = Some (Inr ss)"
  shows "\<exists>out. DecodeChunks xor_dec (erChunks res) = Inr out \<and> length out = length samples \<and>
    (\<forall>i < length samples. sT (out ! i) = sT (samples ! i) \<and>
      (sV (out ! i) = sV (samples ! i) \<or> f64_iszero (sV (out ! i)) \<and> f64_iszero (sV (samples ! i))))"
proof -
  obtain out where "DecodeChunks xor_dec (erChunks res) = Inr out" and "list_all2 same_sample samples out"
    using candidates_lossless [where xor_dec = xor_dec, OF Encode_in_candidates(1) [OF assms(1)] assms(2)] assms(3)
    by blast
  then show ?thesis
    by (auto simp: list_all2_conv_all_nth same_sample_def f64_eq_def)
qed

theorem Encode_DecodeChunks_witness:
  "\<exists>res out. Encode (\<lambda>_. 0) plain_enc [\<lparr>sT = 1000, sV = 0x3FF8000000000000\<rparr>] = Inr res \<and>
     DecodeChunks plain_dec (erChunks res) = Inr out \<and> length out = 1"
proof -
  let ?ss = "[\<lparr>sT = 1000, sV = 0x3FF8000000000000\<rparr> :: sample]"
  have "\<exists>res. Encode (\<lambda>_. 0) plain_enc ?ss = Inr res"
    by (simp add: Encode_def candidates_def encodeGorillaChunk_def xorChunkMaxSamples_def plain_enc_def split: list.split)
  then obtain res where res: "Encode (\<lambda>_. 0) plain_enc ?ss = Inr res" by blast
  have "length ?ss \<le> 2 ^ 44" by simp
  note ok = Encode_DecodeChunks [where xor_dec = plain_dec, OF res this plain_dec_enc]
  then have "\<exists>out. DecodeChunks plain_dec (erChunks res) = Inr out \<and> length out = length ?ss" by blast
  with res show ?thesis by auto
qed

text \<open>
  A non-empty block the XOR chunk accepts is always encoded, the result is one of the
  candidates, no candidate is smaller in bytes, its byte count is the length of its chunks, and
  every chunk starts with the codec tag of the result.
\<close>

theorem Encode_best:
  assumes "samples \<noteq> []" and "length samples < 2 ^ 16" and "xor_enc samples \<noteq> None"
  shows "\<exists>res. Encode oob xor_enc samples = Inr res \<and> res \<in> set (candidates oob xor_enc samples) \<and>
    (\<forall>c \<in> set (candidates oob xor_enc samples). erBytes res \<le> erBytes c) \<and>
    erBytes res = length (concat (erChunks res)) \<and>
    (\<forall>chunk \<in> set (erChunks res). PeekTag chunk = Inr (erTag res))"
proof -
  have "candidates oob xor_enc samples \<noteq> []"
    using assms by (auto simp: candidates_def encodeGorillaChunk_def xorChunkMaxSamples_def)
  then obtain res where res: "Encode oob xor_enc samples = Inr res"
    using assms(1) by (cases "candidates oob xor_enc samples") (auto simp: Encode_def)
  with Encode_in_candidates [OF res] candidates_shape [OF Encode_in_candidates(1) [OF res]]
  show ?thesis by blast
qed

theorem Encode_best_witness:
  "\<exists>res. Encode (\<lambda>_. 0) plain_enc [\<lparr>sT = 7, sV = 0\<rparr>] = Inr res \<and>
     erBytes res = length (concat (erChunks res))"
proof -
  have "[\<lparr>sT = 7, sV = 0\<rparr>] \<noteq> ([] :: sample list)" "length [\<lparr>sT = 7, sV = 0\<rparr> :: sample] < 2 ^ 16"
    "plain_enc [\<lparr>sT = 7, sV = 0\<rparr>] \<noteq> None"
    by (simp_all add: plain_enc_def)
  from Encode_best [where oob = "\<lambda>_. 0" and xor_enc = plain_enc, OF this] show ?thesis by blast
qed

text \<open>
  The decimal guard lets negative zero through: the block holding one \<open>-0.0\<close> at time 0
  is encoded by an integer codec whenever the XOR chunk takes at least five bytes (a header, a
  timestamp and a value always do), and it decodes to \<open>+0.0\<close>: the bits of the value change, although
  the package promises bit-exact chunks.
\<close>

theorem negative_zero_loses_sign:
  assumes "xor_enc [\<lparr>sT = 0, sV = 0x8000000000000000\<rparr>] = Some bs" and "5 \<le> length bs"
  shows "\<exists>res. Encode oob xor_enc [\<lparr>sT = 0, sV = 0x8000000000000000\<rparr>] = Inr res \<and>
    erTag res = CodecIntForDeltaVarint \<and> DecodeChunks xor_dec (erChunks res) = Inr [\<lparr>sT = 0, sV = 0\<rparr>]"
proof -
  let ?z = "0x8000000000000000 :: f64" and ?ss = "[\<lparr>sT = 0, sV = 0x8000000000000000\<rparr>]"
  have "f64_of_int64 1 = 0x3FF0000000000000" by (simp add: f64_eval)
  then have p: "pow10 ! 0 = 0x3FF0000000000000" by (simp add: pow10_def)
  have arith: "f64_mul ?z 0x3FF0000000000000 = ?z" "f64_round ?z = ?z" "f64_finite ?z" "f64_trunc ?z = 0"
    "\<not> f64_less f64_MaxInt64 ?z" "\<not> f64_less ?z f64_MinInt64" "\<not> f64_isnan ?z" "\<not> f64_isinf ?z"
    "f64_div (f64_of_int64 0) 0x3FF0000000000000 = 0" "f64_eq 0 ?z"
    by (simp_all add: f64_eval f64_MaxInt64_def f64_MinInt64_def)
  have "scale_all oob (pow10 ! 0) [?z] = Some [0]"
    by (simp add: p arith f64_to_int64_def)
  then have scale: "tryScaleToInt64 oob [?z] = Some (0, [0])"
    by (simp add: tryScaleToInt64_def maxScaleExp_def arith numeral_eq_Suc)
  have chunk: "encodeIntChunk ?ss 0 [0] False bodyFixed = Some [1, 1, 0, 0, 0, 0, 0]"
    "encodeIntChunk ?ss 0 [0] True bodyFixed = Some [2, 1, 0, 0, 0, 0, 0]"
    "encodeIntChunk ?ss 0 [0] False bodyVarint = Some [3, 1, 0, 0, 0, 0]"
    "encodeIntChunk ?ss 0 [0] True bodyVarint = Some [4, 1, 0, 0, 0, 0]"
    by (simp_all add: encodeIntChunk_def w_append codecTagFor_def codec_tags zigzag_def put_uvarint.simps
        bitPackWidth_def packBits_def word_le_nat_alt)
  have gorilla: "encodeGorillaChunk xor_enc ?ss = Some (0 # put_uvarint 1 @ bs)"
    using assms(1) by (simp add: encodeGorillaChunk_def xorChunkMaxSamples_def w_append CodecGorillaXOR_def)
  have enc: "Encode oob xor_enc ?ss = Inr (mk_cand CodecIntForDeltaVarint [[3, 1, 0, 0, 0, 0]])"
    using assms(2) by (simp add: Encode_def candidates_def scale gorilla chunk int_variants_def map_filter_simps
        mk_cand_def totalLen_eq encodeIntChunks_def cut_loop.simps)
  have "pow10Abs 0 = 0x3FF0000000000000" using pow10Abs_of_nat [of 0] p by simp
  with DecodeChunk_encodeIntChunk [OF chunk(3), of xor_dec]
  have dec: "DecodeChunks xor_dec [[3, 1, 0, 0, 0, 0]] = Inr [\<lparr>sT = 0, sV = 0\<rparr>]"
    by (simp add: DecodeChunks_def scaled_samples_def arith)
  show ?thesis using enc dec by (simp add: mk_cand_def)
qed

theorem negative_zero_loses_sign_witness:
  "\<exists>res. Encode (\<lambda>_. 0) (\<lambda>_. Some [0, 1, 0, 128, 0, 0, 0, 0, 0, 0, 0]) [\<lparr>sT = 0, sV = 0x8000000000000000\<rparr>] = Inr res \<and>
     DecodeChunks plain_dec (erChunks res) = Inr [\<lparr>sT = 0, sV = 0\<rparr>] \<and>
     [\<lparr>sT = 0, sV = 0\<rparr>] \<noteq> [\<lparr>sT = 0, sV = 0x8000000000000000\<rparr> :: sample]"
proof -
  have "5 \<le> length [0 :: u8, 1, 0, 128, 0, 0, 0, 0, 0, 0, 0]" by simp
  from negative_zero_loses_sign [where xor_enc = "\<lambda>_. Some [0, 1, 0, 128, 0, 0, 0, 0, 0, 0, 0]"
      and oob = "\<lambda>_. 0" and xor_dec = plain_dec, OF refl this]
  show ?thesis by auto
qed

text \<open>
  The chunk cut takes the longest prefix whose residuals fit in 56 bits: at least one
  sample, never more than there are, the prefix transforms, and no longer prefix does. With it
  \<^verbatim>\<open>encodeIntChunks\<close> always succeeds on a block with as many integers as samples, and every chunk
  it emits decodes, in order, to the timestamps and the integers divided by the scale.
\<close>

theorem encodeIntChunks_complete:
  assumes "samples \<noteq> []" and "length ints = length samples" and "length samples \<le> 2 ^ 44"
  shows "1 \<le> findCutEnd ints dod \<and> findCutEnd ints dod \<le> length ints \<and>
    intResiduals (take (findCutEnd ints dod) ints) dod \<noteq> None \<and>
    (\<forall>j. findCutEnd ints dod < j \<and> j \<le> length ints \<longrightarrow> intResiduals (take j ints) dod = None) \<and>
    (\<exists>cs. encodeIntChunks samples e ints dod body = Some cs \<and>
      DecodeChunks xor_dec cs =
        Inr (map2 (\<lambda>s i. s\<lparr>sV := f64_div (f64_of_int64 i) (pow10Abs e)\<rparr>) samples ints))"
proof -
  have "ints \<noteq> []" using assms(1,2) by auto
  from findCutEnd_prefix [OF this] cut_loop_roundtrip [OF assms(2,3)] assms(1)
  show ?thesis by (simp add: encodeIntChunks_def scaled_samples_def)
qed

theorem encodeIntChunks_complete_witness:
  "findCutEnd [1, 1 + 2 ^ 60, 2] False \<le> 3 \<and>
   (\<exists>cs. encodeIntChunks [\<lparr>sT = 1, sV = 0\<rparr>, \<lparr>sT = 2, sV = 0\<rparr>, \<lparr>sT = 3, sV = 0\<rparr>] 0 [1, 1 + 2 ^ 60, 2] False bodyFixed
      = Some cs)"
  using encodeIntChunks_complete [of "[\<lparr>sT = 1, sV = 0\<rparr>, \<lparr>sT = 2, sV = 0\<rparr>, \<lparr>sT = 3, sV = 0\<rparr>]"
      "[1, 1 + 2 ^ 60, 2]" False 0 bodyFixed plain_dec] by auto

text \<open>
  Property C39. The decoder's own code never panics: if the sample count of the header, where it can be
  read, is between 0 and \<open>2 ^ 44\<close>, then on any bytes \<^verbatim>\<open>DecodeChunk\<close> returns samples or one of the
  package's errors, unless the chunk is a Gorilla chunk on whose body the XOR library panics; then,
  and only then, it panics too.
\<close>

theorem DecodeChunk_no_panic:
  assumes "\<And>nU r. r_uvarint \<lparr>rbuf = chunk, rpos = 1\<rparr> = Inr (nU, r) \<Longrightarrow> 0 \<le> sint nU \<and> sint nU \<le> 2 ^ 44"
  shows "DecodeChunk xor_dec chunk = Inl Panic \<longleftrightarrow>
    chunk \<noteq> [] \<and> hd chunk = CodecGorillaXOR \<and>
    (\<exists>nU r. r_uvarint \<lparr>rbuf = chunk, rpos = 1\<rparr> = Inr (nU, r) \<and> xor_dec (drop (rpos r) (rbuf r)) = Some (Inl XorPanic))"
proof (cases chunk)
  case Nil
  then show ?thesis by (simp add: DecodeChunk_def r_u8_def)
next
  case (Cons tag tl)
  have rd: "\<lparr>rbuf = chunk, rpos = 1\<rparr> = reader_at [tag] tl" using Cons by (simp add: reader_at_def)
  show ?thesis
  proof (cases "r_uvarint (reader_at [tag] tl)")
    case (Inl e)
    then have "e = ErrCorruptChunk" using reader_errors by blast
    then have "decodeIntChunk (reader_at [tag] tl) tag \<noteq> Inl Panic" "decodeGorillaChunk xor_dec (reader_at [tag] tl) \<noteq> Inl Panic"
      by (simp_all add: decodeIntChunk_def decodeGorillaChunk_def Inl)
    then show ?thesis
      by (auto simp: Cons DecodeChunk_def reader_at_start res_bind_eq_Inl_iff Inl rd [unfolded Cons One_nat_def])
  next
    case (Inr nr)
    then obtain nU r where r: "r_uvarint (reader_at [tag] tl) = Inr (nU, r)" by (cases nr) simp
    then have n: "0 \<le> sint nU" "sint nU \<le> 2 ^ 44" using assms [unfolded rd] by blast+
    then have mk: "makeslice 16 (sint nU) = Inr (nat (sint nU))" by (simp add: makeslice_def)
    have "decodeGorillaChunk xor_dec (reader_at [tag] tl) = Inl Panic \<longleftrightarrow> xor_dec (drop (rpos r) (rbuf r)) = Some (Inl XorPanic)"
      by (auto simp: decodeGorillaChunk_def r mk split: option.splits sum.splits xor_failure.splits)
    moreover have "decodeIntChunk (reader_at [tag] tl) tag \<noteq> Inl Panic"
      using decodeIntChunk_errors [OF _ r n, of tag Panic] by auto
    ultimately show ?thesis
      by (auto simp: Cons DecodeChunk_def reader_at_start res_bind_eq_Inl_iff r rd [unfolded Cons One_nat_def])
  qed
qed

text \<open>The witness: a truncated integer chunk, and a Gorilla chunk whose body is shorter than the library's header.\<close>

definition picky_dec :: xor_decoder where
  "picky_dec bs = (if length bs < 2 then Some (Inl XorPanic) else plain_dec bs)"

theorem DecodeChunk_no_panic_witness:
  "DecodeChunk picky_dec [2, 1, 255] \<noteq> Inl Panic \<and> DecodeChunk picky_dec [0, 1, 255] = Inl Panic"
proof -
  have r: "r_uvarint \<lparr>rbuf = [t, 1, 255], rpos = 1\<rparr> = Inr (1, \<lparr>rbuf = [t, 1, 255], rpos = 2\<rparr>)" for t
    by (simp add: r_uvarint_def binary_Uvarint_def MaxVarintLen64_def word_less_nat_alt)
  have sane: "0 \<le> sint nU \<and> sint nU \<le> 2 ^ 44" if "r_uvarint \<lparr>rbuf = [t, 1, 255], rpos = 1\<rparr> = Inr (nU, r')" for t nU r'
    using that unfolding r by auto
  show ?thesis
    using DecodeChunk_no_panic [of "[2, 1, 255]" picky_dec, OF sane]
      DecodeChunk_no_panic [of "[0, 1, 255]" picky_dec, OF sane]
    unfolding r by (simp add: CodecGorillaXOR_def picky_dec_def)
qed

text \<open>
  The length of a Gorilla body is not checked before it is handed to the library: with one that
  panics on a body shorter than its two-byte sample counter, a chunk cut off inside that counter
  panics instead of being refused.
\<close>

theorem short_xor_body_panics:
  assumes "\<And>bs. length bs < 2 \<Longrightarrow> xor_dec bs = Some (Inl XorPanic)"
    and "length body < 2" and "0 \<le> sint n" and "sint n \<le> 2 ^ 44"
  shows "DecodeChunk xor_dec (CodecGorillaXOR # put_uvarint n @ body) = Inl Panic"
proof -
  have "makeslice 16 (sint n) = Inr (nat (sint n))" using assms(3,4) by (simp add: makeslice_def)
  moreover have "xor_dec body = Some (Inl XorPanic)" using assms(1,2) by simp
  ultimately show ?thesis
    by (simp add: DecodeChunk_def decodeGorillaChunk_def reader_at_start)
qed

theorem short_xor_body_panics_witness: "DecodeChunk picky_dec (CodecGorillaXOR # put_uvarint 3 @ [0]) = Inl Panic"
  by (rule short_xor_body_panics) (simp_all add: picky_dec_def)

text \<open>
  A header whose count does not fit a non-negative \<^verbatim>\<open>int\<close> is not rejected with
  \<^verbatim>\<open>ErrCorruptChunk\<close>: the integer decoders pass it to \<^verbatim>\<open>make\<close>, which panics.
\<close>

theorem DecodeChunk_huge_count_panics:
  assumes "sint nU < 0"
    and "tag \<in> {CodecIntForDelta, CodecIntForDoD, CodecIntForDeltaVarint, CodecIntForDoDVarint}"
  shows "DecodeChunk xor_dec (tag # put_uvarint nU @ rest) = Inl Panic"
proof -
  have "makeslice 8 (sint nU) = Inl Panic" using assms(1) by (simp add: makeslice_def)
  then have "decodeIntChunk (reader_at [tag] (put_uvarint nU @ rest)) tag = Inl Panic"
    by (simp add: decodeIntChunk_def decodeTimestamps_def)
  with assms(2) show ?thesis
    by (auto simp: DecodeChunk_def reader_at_start codec_tags)
qed

theorem DecodeChunk_huge_count_panics_witness:
  "DecodeChunk plain_dec (CodecIntForDelta # put_uvarint 0x8000000000000000 @ []) = Inl Panic"
  by (rule DecodeChunk_huge_count_panics) simp_all

text \<open>
  The timestamp column is exact for every \<^verbatim>\<open>int64\<close> input, wrap-around included: decoding
  what \<^verbatim>\<open>encodeTimestamps\<close> wrote gives the same timestamps and leaves the cursor after the column.
\<close>

theorem timestamps_roundtrip:
  assumes "length ts \<le> 2 ^ 45"
  shows "decodeTimestamps \<lparr>rbuf = encodeTimestamps before ts @ after, rpos = length before\<rparr> (int (length ts)) =
    Inr (ts, \<lparr>rbuf = encodeTimestamps before ts @ after, rpos = length (encodeTimestamps before ts)\<rparr>)"
  using decodeTimestamps_encodeTimestamps [OF assms, of before after]
  by (simp add: encodeTimestamps_append [of before] reader_at_def)

theorem timestamps_roundtrip_witness:
  "decodeTimestamps \<lparr>rbuf = encodeTimestamps [] [0x8000000000000000, 0x7fffffffffffffff, 0x8000000000000000],
      rpos = 0\<rparr> 3 = Inr ([0x8000000000000000, 0x7fffffffffffffff, 0x8000000000000000],
     \<lparr>rbuf = encodeTimestamps [] [0x8000000000000000, 0x7fffffffffffffff, 0x8000000000000000],
      rpos = length (encodeTimestamps [] [0x8000000000000000, 0x7fffffffffffffff, 0x8000000000000000])\<rparr>)"
  using timestamps_roundtrip [of "[0x8000000000000000, 0x7fffffffffffffff, 0x8000000000000000]" "[]" "[]"]
  by simp

end
