(* ===== verification/ColdPart.thy ===== *)
theory ColdPart
  imports IntChunk TsdbKeys ByteCursor
begin

text \<open>
  The cold part (\<^verbatim>\<open>asap-gorilla-go/coldpart/coldpart.go\<close>): many series in one object, each as a run of value chunks, behind an index, a
  symbol table and a checksummed footer; a reader answers queries from the index and decodes only the runs that match.

  Label sets are those of Prometheus (\<open>promLib\<close>), chunks those of the theory \<open>IntChunk\<close>. \<^verbatim>\<open>WritePart\<close> yields the bytes it hands
  to the writer. Panics of the run time are the error \<open>PartPanic\<close>; \<^verbatim>\<open>make\<close> refuses slices above $2^{48}$ bytes, and the
  largest number of index entries it accepts, whose size depends on the build, is an argument of \<open>OpenPart\<close>. A matcher is a name with a
  predicate on values, \<open>None\<close> the nil pointer.
\<close>

section \<open>CRC-32C\<close>

text \<open>\<^verbatim>\<open>hash/crc32\<close> with the Castagnoli polynomial: bit by bit into a table, byte by byte over the data.\<close>

definition Castagnoli :: u32 where "Castagnoli = 0x82f63b78"

definition crc_bit :: "u32 \<Rightarrow> u32" where
  "crc_bit c = (if bit c 0 then drop_bit 1 c XOR Castagnoli else drop_bit 1 c)"

definition crc32cTable :: "u8 \<Rightarrow> u32" where
  "crc32cTable i = (crc_bit ^^ 8) (ucast i)"

definition crc_update :: "u32 \<Rightarrow> u8 \<Rightarrow> u32" where
  "crc_update c b = crc32cTable (ucast c XOR b) XOR drop_bit 8 c"

definition Checksum :: "u8 list \<Rightarrow> u32" where
  "Checksum bs = NOT (foldl crc_update (NOT 0) bs)"

section \<open>Constants, errors and the symbol table\<close>

definition Magic :: "u8 list" where "Magic = bytes_of ''ASAPCC1''"

definition Version :: u8 where "Version = 1"

definition magicLen :: nat where "magicLen = length Magic"

definition footerLen :: nat where "footerLen = 8 + 8 + 8 + 4"

datatype part_error = ErrShort | ErrBadMagic | ErrBadVersion u8 | ErrBadCRC | ErrCorrupt | ErrNoSamples nat | ErrBadTimeRange
  | ErrEncode nat chunk_err | ErrDecode chunk_err | PartPanic

record 'l Series =
  seLabels :: 'l
  seSamples :: "sample list"

record symbolTable =
  stSyms :: "gostr list"
  stIdx :: "(gostr \<times> u64) list"

definition newSymbolTable :: symbolTable where
  "newSymbolTable = \<lparr>stSyms = [], stIdx = []\<rparr>"

definition intern :: "gostr \<Rightarrow> symbolTable \<Rightarrow> symbolTable" where
  "intern s t = (if map_of (stIdx t) s \<noteq> None then t
     else t\<lparr>stIdx := AList.update s (word_of_nat (length (stSyms t))) (stIdx t), stSyms := stSyms t @ [s]\<rparr>)"

definition ref :: "gostr \<Rightarrow> symbolTable \<Rightarrow> u64" where
  "ref s t = (case map_of (stIdx t) s of None \<Rightarrow> 0 | Some r \<Rightarrow> r)"

section \<open>Writing\<close>

fun internLabels :: "(gostr \<times> gostr) list \<Rightarrow> symbolTable \<Rightarrow> symbolTable" where
  "internLabels [] t = t"
| "internLabels ((n, v) # ls) t = internLabels ls (intern v (intern n t))"

fun internSeries :: "('c, 'l) promLib \<Rightarrow> nat \<Rightarrow> 'l Series list \<Rightarrow> symbolTable \<Rightarrow> part_error + symbolTable" where
  "internSeries lib i [] t = Inr t"
| "internSeries lib i (s # ss) t =
     (if seSamples s = [] then Inl (ErrNoSamples i) else internSeries lib (i + 1) ss (internLabels (lRange lib (seLabels s)) t))"

record idxEntry =
  ieLabelRefs :: "u64 list"
  ieChunkOff :: u64
  ieChunkLen :: u32
  ieChunkLens :: "nat list"
  ieMinTS :: i64
  ieMaxTS :: i64

fun encodeEntries ::
    "(f64 \<Rightarrow> i64) \<Rightarrow> xor_encoder \<Rightarrow> ('c, 'l) promLib \<Rightarrow> symbolTable \<Rightarrow> nat \<Rightarrow> 'l Series list \<Rightarrow> u8 list \<Rightarrow> part_error + idxEntry list \<times> u8 list" where
  "encodeEntries oob xor_enc lib t i [] region = Inr ([], region)"
| "encodeEntries oob xor_enc lib t i (s # ss) region =
     (case Encode oob xor_enc (seSamples s) of Inl e \<Rightarrow> Inl (ErrEncode i e)
      | Inr res \<Rightarrow>
          (let e = \<lparr>ieLabelRefs = concat (map (\<lambda>(n, v). [ref n t, ref v t]) (lRange lib (seLabels s))),
                    ieChunkOff = word_of_nat (length region), ieChunkLen = word_of_nat (length (concat (erChunks res))),
                    ieChunkLens = map length (erChunks res), ieMinTS = sT (hd (seSamples s)), ieMaxTS = sT (last (seSamples s))\<rparr>
           in res_bind (encodeEntries oob xor_enc lib t (i + 1) ss (region @ concat (erChunks res))) (\<lambda>(es, region). Inr (e # es, region))))"

definition entryBytes :: "u64 \<Rightarrow> idxEntry \<Rightarrow> u8 list" where
  "entryBytes chunksStart e =
     put_uvarint (word_of_nat (length (ieLabelRefs e) div 2)) @ concat (map put_uvarint (ieLabelRefs e)) @
     putUint64 (chunksStart + ieChunkOff e) @ putUint32 (ieChunkLen e) @
     put_uvarint (word_of_nat (length (ieChunkLens e))) @ concat (map (\<lambda>l. put_uvarint (word_of_nat l)) (ieChunkLens e)) @
     putUint64 (ieMinTS e) @ putUint64 (ieMaxTS e)"

definition headerBytes :: "i64 \<Rightarrow> i64 \<Rightarrow> nat \<Rightarrow> u8 list" where
  "headerBytes blockStartMs blockEndMs n = Magic @ [Version] @ putUint64 blockStartMs @ putUint64 blockEndMs @ put_uvarint (word_of_nat n)"

definition symtabBytes :: "gostr list \<Rightarrow> u8 list" where
  "symtabBytes syms = put_uvarint (word_of_nat (length syms)) @ concat (map (\<lambda>s. put_uvarint (word_of_nat (length s)) @ s) syms)"

definition WritePart ::
    "(f64 \<Rightarrow> i64) \<Rightarrow> xor_encoder \<Rightarrow> ('c, 'l) promLib \<Rightarrow> i64 \<Rightarrow> i64 \<Rightarrow> 'l Series list \<Rightarrow> part_error + u8 list" where
  "WritePart oob xor_enc lib blockStartMs blockEndMs series =
     (if sint blockEndMs < sint blockStartMs then Inl ErrBadTimeRange
      else let sorted = sort_Slice (\<lambda>x y. lCompare lib (seLabels x) (seLabels y) < 0) series
           in res_bind (internSeries lib 0 sorted newSymbolTable) (\<lambda>symtab.
              res_bind (encodeEntries oob xor_enc lib symtab 0 sorted []) (\<lambda>(entries, chunksRegion).
              let buf = headerBytes blockStartMs blockEndMs (length sorted);
                  chunksStart = word_of_nat (length buf);
                  buf = buf @ chunksRegion;
                  indexOff = word_of_nat (length buf);
                  buf = buf @ concat (map (entryBytes chunksStart) entries);
                  indexLen = word_of_nat (length buf) - indexOff;
                  symtabOff = word_of_nat (length buf);
                  buf = buf @ symtabBytes (stSyms symtab);
                  buf = buf @ putUint64 indexOff @ putUint64 indexLen @ putUint64 symtabOff
              in Inr (buf @ putUint32 (Checksum buf)))))"

section \<open>Reading\<close>

definition part_take :: "i64 \<Rightarrow> codecReader \<Rightarrow> part_error + u8 list \<times> codecReader" where
  "part_take n r =
     (let end = word_of_nat (crPos r) + n
      in if sint n < 0 \<or> int (length (crBuf r)) < sint end then Inl ErrShort
         else if sint end < int (crPos r) then Inl PartPanic
         else Inr (take (nat (sint end) - crPos r) (drop (crPos r) (crBuf r)), r\<lparr>crPos := nat (sint end)\<rparr>))"

definition part_u8 :: "codecReader \<Rightarrow> part_error + u8 \<times> codecReader" where
  "part_u8 r = res_bind (part_take 1 r) (\<lambda>(b, r). Inr (b ! 0, r))"

definition part_u32 :: "codecReader \<Rightarrow> part_error + u32 \<times> codecReader" where
  "part_u32 r = res_bind (part_take 4 r) (\<lambda>(b, r). Inr (getUint32 b, r))"

definition part_u64 :: "codecReader \<Rightarrow> part_error + u64 \<times> codecReader" where
  "part_u64 r = res_bind (part_take 8 r) (\<lambda>(b, r). Inr (getUint64 b, r))"

definition part_uvarint :: "codecReader \<Rightarrow> part_error + u64 \<times> codecReader" where
  "part_uvarint r = (case binary_Uvarint (drop (crPos r) (crBuf r)) of (v, n) \<Rightarrow>
     if n \<le> 0 then Inl ErrCorrupt else Inr (v, r\<lparr>crPos := crPos r + nat n\<rparr>))"

record 'l indexSeries =
  isLabels :: 'l
  isChunkOff :: u64
  isChunkLen :: u32
  isChunkLens :: "u64 list"
  isMinTS :: i64
  isMaxTS :: i64

record 'l Part =
  ptVersion :: u8
  ptBlockStartMs :: i64
  ptBlockEndMs :: i64
  ptBuf :: "u8 list"
  ptSymbols :: "gostr list"
  ptSeries :: "'l indexSeries list"

fun parseSymbols :: "nat \<Rightarrow> codecReader \<Rightarrow> part_error + gostr list \<times> codecReader" where
  "parseSymbols 0 r = Inr ([], r)"
| "parseSymbols (Suc n) r =
     res_bind (part_uvarint r) (\<lambda>(l, r). res_bind (part_take l r) (\<lambda>(s, r). res_bind (parseSymbols n r) (\<lambda>(ss, r). Inr (s # ss, r))))"

fun parseLabels :: "gostr list \<Rightarrow> nat \<Rightarrow> codecReader \<Rightarrow> part_error + (gostr \<times> gostr) list \<times> codecReader" where
  "parseLabels symbols 0 r = Inr ([], r)"
| "parseLabels symbols (Suc n) r =
     res_bind (part_uvarint r) (\<lambda>(nameRef, r). res_bind (part_uvarint r) (\<lambda>(valRef, r).
       if length symbols \<le> unat nameRef \<or> length symbols \<le> unat valRef then Inl ErrCorrupt
       else res_bind (parseLabels symbols n r) (\<lambda>(sets, r). Inr ((symbols ! unat nameRef, symbols ! unat valRef) # sets, r))))"

fun parseLens :: "nat \<Rightarrow> codecReader \<Rightarrow> part_error + u64 list \<times> codecReader" where
  "parseLens 0 r = Inr ([], r)"
| "parseLens (Suc n) r = res_bind (part_uvarint r) (\<lambda>(cl, r). res_bind (parseLens n r) (\<lambda>(ls, r). Inr (cl # ls, r)))"

definition parseEntry :: "('c, 'l) promLib \<Rightarrow> nat \<Rightarrow> gostr list \<Rightarrow> codecReader \<Rightarrow> part_error + 'l indexSeries \<times> codecReader" where
  "parseEntry lib bufLen symbols r =
     res_bind (part_uvarint r) (\<lambda>(nLabels, r).
     res_bind (parseLabels symbols (unat nLabels) r) (\<lambda>(sets, r).
     res_bind (part_u64 r) (\<lambda>(chunkOff, r).
     res_bind (part_u32 r) (\<lambda>(chunkLen, r).
     res_bind (part_uvarint r) (\<lambda>(chunkCount, r).
     if 2 ^ 48 < 8 * unat chunkCount then Inl PartPanic else
     res_bind (parseLens (unat chunkCount) r) (\<lambda>(chunkLens, r).
     res_bind (part_u64 r) (\<lambda>(minTS, r).
     res_bind (part_u64 r) (\<lambda>(maxTS, r).
     if bufLen < unat (chunkOff + ucast chunkLen) then Inl ErrCorrupt
     else if sum_list chunkLens \<noteq> ucast chunkLen then Inl ErrCorrupt
     else Inr (\<lparr>isLabels = lBuild lib sets, isChunkOff = chunkOff, isChunkLen = chunkLen, isChunkLens = chunkLens,
                isMinTS = minTS, isMaxTS = maxTS\<rparr>, r)))))))))"

fun parseIndex :: "('c, 'l) promLib \<Rightarrow> nat \<Rightarrow> gostr list \<Rightarrow> nat \<Rightarrow> codecReader \<Rightarrow> part_error + 'l indexSeries list \<times> codecReader" where
  "parseIndex lib bufLen symbols 0 r = Inr ([], r)"
| "parseIndex lib bufLen symbols (Suc n) r =
     res_bind (parseEntry lib bufLen symbols r) (\<lambda>(e, r). res_bind (parseIndex lib bufLen symbols n r) (\<lambda>(es, r). Inr (e # es, r)))"

text \<open>The errors of the footer's reads are discarded; they cannot occur.\<close>

definition footerField :: "codecReader \<Rightarrow> u64 \<times> codecReader" where
  "footerField r = (case part_u64 r of Inl e \<Rightarrow> (0, r) | Inr x \<Rightarrow> x)"

definition OpenPart :: "nat \<Rightarrow> ('c, 'l) promLib \<Rightarrow> u8 list \<Rightarrow> part_error + 'l Part" where
  "OpenPart maxSeries lib b =
     (if length b < magicLen + 1 + 8 + 8 + 1 + footerLen then Inl ErrShort
      else if take magicLen b \<noteq> Magic then Inl ErrBadMagic
      else if Checksum (take (length b - 4) b) \<noteq> getUint32 (drop (length b - 4) b) then Inl ErrBadCRC
      else
     res_bind (part_u8 \<lparr>crBuf = b, crPos = magicLen\<rparr>) (\<lambda>(ver, r).
     if ver \<noteq> Version then Inl (ErrBadVersion ver) else
     res_bind (part_u64 r) (\<lambda>(blockStart, r).
     res_bind (part_u64 r) (\<lambda>(blockEnd, r).
     res_bind (part_uvarint r) (\<lambda>(seriesCount, r).
     let footerStart = length b - footerLen; footerOff = (word_of_nat footerStart :: u64);
         (indexOff, fr) = footerField \<lparr>crBuf = b, crPos = footerStart\<rparr>;
         (indexLen, fr) = footerField fr;
         (symtabOff, fr) = footerField fr
     in if footerOff < indexOff then Inl ErrCorrupt
        else if footerOff - indexOff < indexLen then Inl ErrCorrupt
        else if indexOff + indexLen \<noteq> symtabOff then Inl ErrCorrupt
        else if footerOff < symtabOff then Inl ErrCorrupt
        else
     res_bind (part_uvarint \<lparr>crBuf = b, crPos = unat symtabOff\<rparr>) (\<lambda>(symCount, sr).
     if 2 ^ 48 < 16 * unat symCount then Inl PartPanic else
     res_bind (parseSymbols (unat symCount) sr) (\<lambda>(symbols, sr).
     if maxSeries < unat seriesCount then Inl PartPanic else
     res_bind (parseIndex lib (length b) symbols (unat seriesCount) \<lparr>crBuf = b, crPos = unat indexOff\<rparr>) (\<lambda>(parsed, ir).
     Inr \<lparr>ptVersion = ver, ptBlockStartMs = blockStart, ptBlockEndMs = blockEnd, ptBuf = b, ptSymbols = symbols, ptSeries = parsed\<rparr>))))))))"

section \<open>Queries\<close>

definition NumSeries :: "'l Part \<Rightarrow> nat" where "NumSeries p = length (ptSeries p)"

definition SeriesLabels :: "'l Part \<Rightarrow> 'l list" where "SeriesLabels p = map isLabels (ptSeries p)"

type_synonym matcher = "(gostr \<times> (gostr \<Rightarrow> bool)) option"

definition labelGet :: "('c, 'l) promLib \<Rightarrow> 'l \<Rightarrow> gostr \<Rightarrow> gostr" where
  "labelGet lib l name = (case map_of (lRange lib l) name of None \<Rightarrow> [] | Some v \<Rightarrow> v)"

fun MatchesAll :: "('c, 'l) promLib \<Rightarrow> 'l \<Rightarrow> matcher list \<Rightarrow> bool" where
  "MatchesAll lib ls [] = True"
| "MatchesAll lib ls (m # ms) =
     (case m of None \<Rightarrow> MatchesAll lib ls ms
      | Some (name, matches) \<Rightarrow> if \<not> matches (labelGet lib ls name) then False else MatchesAll lib ls ms)"

text \<open>
  A slice \<^verbatim>\<open>b[i:j]\<close> of 64-bit bounds. The bound is the capacity: for the buffer of the part this is its length, for a run within it
  everything up to the end of the buffer, which \<open>splitChunks\<close> is therefore given.
\<close>

definition slice64 :: "u8 list \<Rightarrow> u64 \<Rightarrow> u64 \<Rightarrow> part_error + u8 list" where
  "slice64 b i j = (if j < i \<or> length b < unat j then Inl PartPanic else Inr (take (unat j - unat i) (drop (unat i) b)))"

fun splitChunks :: "u8 list \<Rightarrow> u64 \<Rightarrow> u64 list \<Rightarrow> part_error + u8 list list" where
  "splitChunks run off [] = Inr []"
| "splitChunks run off (l # ls) =
     res_bind (slice64 run off (off + l)) (\<lambda>c. res_bind (splitChunks run (off + l) ls) (\<lambda>cs. Inr (c # cs)))"

definition decoded :: "chunk_err + 'a \<Rightarrow> part_error + 'a" where
  "decoded res = (case res of Inl e \<Rightarrow> Inl (if e = Panic then PartPanic else ErrDecode e) | Inr x \<Rightarrow> Inr x)"

definition decodeSeries :: "xor_decoder \<Rightarrow> 'l Part \<Rightarrow> 'l indexSeries \<Rightarrow> part_error + sample list" where
  "decodeSeries xor_dec p s =
     res_bind (slice64 (ptBuf p) (isChunkOff s) (isChunkOff s + ucast (isChunkLen s))) (\<lambda>run.
     if length (isChunkLens s) \<le> 1 then decoded (DecodeChunk xor_dec run)
     else res_bind (splitChunks (drop (unat (isChunkOff s)) (ptBuf p)) 0 (isChunkLens s)) (\<lambda>chunks. decoded (DecodeChunks xor_dec chunks)))"

fun querySeries ::
    "('c, 'l) promLib \<Rightarrow> xor_decoder \<Rightarrow> 'l Part \<Rightarrow> matcher list \<Rightarrow> i64 \<Rightarrow> i64 \<Rightarrow> 'l indexSeries list \<Rightarrow> part_error + ('l \<times> sample list) list" where
  "querySeries lib xor_dec p matchers mintMs maxtMs [] = Inr []"
| "querySeries lib xor_dec p matchers mintMs maxtMs (s # ss) =
     (if sint maxtMs < sint (isMinTS s) \<or> sint (isMaxTS s) < sint mintMs then querySeries lib xor_dec p matchers mintMs maxtMs ss
      else if \<not> MatchesAll lib (isLabels s) matchers then querySeries lib xor_dec p matchers mintMs maxtMs ss
      else res_bind (decodeSeries xor_dec p s) (\<lambda>samples.
           res_bind (querySeries lib xor_dec p matchers mintMs maxtMs ss) (\<lambda>out. Inr ((isLabels s, samples) # out))))"

definition PartSeries :: "('c, 'l) promLib \<Rightarrow> xor_decoder \<Rightarrow> 'l Part \<Rightarrow> matcher list \<Rightarrow> i64 \<Rightarrow> i64 \<Rightarrow> part_error + ('l \<times> sample list) list" where
  "PartSeries lib xor_dec p matchers mintMs maxtMs = querySeries lib xor_dec p matchers mintMs maxtMs (ptSeries p)"

end
