(* ===== verification/ColdPartFormat.thy ===== *)
theory ColdPartFormat
  imports ColdPart
begin

text \<open>
  What a cold part promises: a part written is read back, queries return the samples of the series they select, and a part
  with a damaged byte is refused.
\<close>

section \<open>The checksum\<close>

lemma xor_zero: "x XOR y = 0 \<longleftrightarrow> x = (y :: 'a::len word)"
  by (metis xor.assoc xor.left_neutral xor.right_neutral xor_self_eq)

lemma xor_cancel: "x XOR u = y XOR u \<longleftrightarrow> x = (y :: 'a::len word)"
  by (auto simp: bit_eq_iff bit_xor_iff)

lemma crc_bit_xor: "crc_bit (x XOR y) = crc_bit x XOR crc_bit y"
proof -
  have "bit (x XOR y) 0 \<longleftrightarrow> bit x 0 \<noteq> bit y 0" by (simp add: bit_xor_iff)
  then show ?thesis by (cases "bit x 0"; cases "bit y 0") (simp_all add: crc_bit_def drop_bit_xor ac_simps xor.left_commute)
qed

lemma crc_bit_zero: "crc_bit z = 0 \<Longrightarrow> z = 0"
proof -
  assume z: "crc_bit z = 0"
  have "\<not> bit z 0"
  proof
    assume "bit z 0"
    then have "drop_bit 1 z = Castagnoli" using z by (simp add: crc_bit_def xor_zero)
    moreover have "\<not> bit (drop_bit 1 z) 31" by (simp add: bit_drop_bit_eq) (use bit_imp_le_length [of z 32] in auto)
    moreover have "bit Castagnoli 31" by (simp add: Castagnoli_def)
    ultimately show False by simp
  qed
  then have "drop_bit 1 z = 0" using z by (simp add: crc_bit_def)
  then have "\<not> bit z (Suc m)" for m using bit_drop_bit_eq [of 1 z] by (metis bit_0_eq bot_apply bot_bool_def comp_apply plus_1_eq_Suc)
  then show "z = 0" using \<open>\<not> bit z 0\<close> by (intro bit_word_eqI) (metis bit_0_eq bot_apply bot_bool_def not0_implies_Suc)
qed

lemma crc_bits_xor: "(crc_bit ^^ n) (x XOR y) = (crc_bit ^^ n) x XOR (crc_bit ^^ n) y"
  by (induction n) (simp_all add: crc_bit_xor)

lemma crc_bits_zero: "(crc_bit ^^ n) z = 0 \<Longrightarrow> z = 0"
  by (induction n) (auto dest: crc_bit_zero)

lemma crc_bits_inj: "(crc_bit ^^ n) x = (crc_bit ^^ n) y \<Longrightarrow> x = y"
  using crc_bits_zero [of n "x XOR y"] by (simp add: crc_bits_xor xor_zero)

lemma crc_bits_high: "(\<And>i. i < n \<Longrightarrow> \<not> bit y i) \<Longrightarrow> (crc_bit ^^ n) y = drop_bit n y"
proof (induction n)
  case (Suc n)
  then have "(crc_bit ^^ n) y = drop_bit n y" by simp
  moreover have "\<not> bit (drop_bit n y) 0" using Suc.prems [of n] by (simp add: bit_drop_bit_eq)
  ultimately show ?case by (simp add: crc_bit_def [of "drop_bit n y"])
qed simp

lemma crc_update_eq: "crc_update c b = (crc_bit ^^ 8) (c XOR ucast b)"
proof -
  let ?low = "ucast (ucast c XOR b :: u8) :: u32" and ?high = "push_bit 8 (drop_bit 8 c)"
  have "c XOR ucast b = ?low XOR ?high"
    by (rule bit_word_eqI) (auto simp: bit_simps bit_ucast_iff dest: bit_imp_le_length)
  moreover have "(crc_bit ^^ 8) ?high = drop_bit 8 ?high" by (rule crc_bits_high) (simp add: bit_push_bit_iff)
  moreover have "drop_bit 8 ?high = drop_bit 8 c" by (rule bit_word_eqI) (auto simp: bit_simps dest: bit_imp_le_length)
  ultimately show ?thesis by (simp add: crc_update_def crc32cTable_def crc_bits_xor)
qed

lemma crc_update_inj: "crc_update c b = crc_update d b \<Longrightarrow> c = d" "crc_update c b = crc_update c b' \<Longrightarrow> b = b'"
proof -
  show "c = d" if "crc_update c b = crc_update d b"
    using crc_bits_inj [of 8 "c XOR ucast b" "d XOR ucast b"] that unfolding crc_update_eq xor_cancel by blast
  show "b = b'" if "crc_update c b = crc_update c b'"
  proof -
    have "c XOR ucast b = c XOR (ucast b' :: u32)" using crc_bits_inj that unfolding crc_update_eq by blast
    then have "(ucast b :: u32) = ucast b'" by (simp only: xor.commute [of c] xor_cancel)
    then have "unat (ucast b :: u32) = unat (ucast b' :: u32)" by simp
    then show ?thesis by (simp add: unsigned_ucast_eq take_bit_nat_eq_self less_trans [OF unsigned_less] word_unat_eq_iff)
  qed
qed

lemma crc_foldl_inj: "foldl crc_update c bs = foldl crc_update d bs \<Longrightarrow> c = d"
  by (induction bs arbitrary: c d) (auto dest: crc_update_inj)

text \<open>One byte changed changes the checksum.\<close>

lemma Checksum_byte:
  assumes "i < length bs" "x \<noteq> bs ! i"
  shows "Checksum (bs[i := x]) \<noteq> Checksum bs"
proof
  assume "Checksum (bs[i := x]) = Checksum bs"
  then have "foldl crc_update (NOT 0) (take i bs @ x # drop (Suc i) bs) = foldl crc_update (NOT 0) (take i bs @ bs ! i # drop (Suc i) bs)"
    using assms(1) by (simp add: Checksum_def upd_conv_take_nth_drop id_take_nth_drop [symmetric])
  then have "crc_update (foldl crc_update (NOT 0) (take i bs)) x = crc_update (foldl crc_update (NOT 0) (take i bs)) (bs ! i)"
    by (auto dest: crc_foldl_inj)
  then show False using crc_update_inj(2) assms(2) by blast
qed

section \<open>Layout\<close>

definition partBody :: "i64 \<Rightarrow> i64 \<Rightarrow> nat \<Rightarrow> u8 list \<Rightarrow> u8 list \<Rightarrow> u8 list \<Rightarrow> u8 list" where
  "partBody t t' n region index symtab =
     (let h = length (headerBytes t t' n); i = h + length region
      in headerBytes t t' n @ region @ index @ symtab @
         putUint64 (word_of_nat i) @ putUint64 (word_of_nat (length index)) @ putUint64 (word_of_nat (i + length index)))"

definition sealed :: "u8 list \<Rightarrow> u8 list" where
  "sealed body = body @ putUint32 (Checksum body)"

abbreviation by_labels :: "('c, 'l) promLib \<Rightarrow> 'l Series list \<Rightarrow> 'l Series list" where
  "by_labels lib series \<equiv> sort_Slice (\<lambda>x y. lCompare lib (seLabels x) (seLabels y) < 0) series"

lemma WritePart_layout:
  assumes "WritePart oob xor_enc lib t t' series = Inr b"
  obtains symtab entries region where
    "internSeries lib 0 (by_labels lib series) newSymbolTable = Inr symtab"
    "encodeEntries oob xor_enc lib symtab 0 (by_labels lib series) [] = Inr (entries, region)"
    "b = sealed (partBody t t' (length series) region
       (concat (map (entryBytes (word_of_nat (length (headerBytes t t' (length series))))) entries)) (symtabBytes (stSyms symtab)))"
  using assms by (auto simp: WritePart_def Let_def res_bind_eq_Inr_iff partBody_def sealed_def add.assoc split: if_splits prod.splits)

lemma length_headerBytes: "17 + length Magic \<le> length (headerBytes t t' n)" "length (headerBytes t t' n) \<le> 27 + length Magic"
  using put_uvarint_max [of "word_of_nat n"] by (simp_all add: headerBytes_def)

lemma Magic_length [simp]: "length Magic = 7" "magicLen = 7"
  by (simp_all add: Magic_def magicLen_def bytes_of_def)

lemma getLE_bound: "getLE bs < 256 ^ length bs"
proof (induction bs)
  case (Cons b bs)
  have "unat b \<le> 255" using unsigned_less [of b, where ?'a = nat] by simp
  then show ?case using Cons by simp
qed simp

lemma low_digit: "b < 256 \<Longrightarrow> c < 256 \<Longrightarrow> b + 256 * x = c + 256 * y \<Longrightarrow> b = c \<and> x = (y :: nat)"
proof -
  assume a: "b < 256" "c < 256" "b + 256 * x = c + 256 * y"
  have "(b + 256 * x) mod 256 = b" "(c + 256 * y) mod 256 = c" using a(1,2) by simp_all
  then show ?thesis using a(3) by simp
qed

lemma getLE_inj: "length bs = length cs \<Longrightarrow> getLE bs = getLE cs \<Longrightarrow> bs = cs"
proof (induction bs cs rule: list_induct2)
  case (Cons b bs c cs)
  have "unat b < 256" "unat c < 256" using unsigned_less [of b, where ?'a = nat] unsigned_less [of c, where ?'a = nat] by simp_all
  moreover have "unat b + 256 * getLE bs = unat c + 256 * getLE cs" using Cons.prems by simp
  ultimately have "unat b = unat c" "getLE bs = getLE cs" using low_digit by blast+
  then show ?case using Cons.IH by (simp add: word_unat_eq_iff)
qed simp

lemma getUint32_inj:
  assumes "length bs = 4" "length cs = 4" "getUint32 bs = getUint32 cs"
  shows "bs = cs"
proof -
  have "unat (getUint32 xs) = getLE xs" if "length xs = 4" for xs :: "u8 list"
    using getLE_bound [of xs] that by (simp add: getUint32_def unat_of_nat)
  then show ?thesis using assms getLE_inj by metis
qed

text \<open>
  Property C17. Damage is noticed: a part in which any one byte was changed, whichever and to whatever, is refused when it is
  opened, for its magic or for its checksum.
\<close>

theorem damaged_byte_refused:
  assumes "WritePart oob xor_enc lib t t' series = Inr b" "i < length b" "x \<noteq> b ! i"
  shows "OpenPart maxSeries lib (b[i := x]) \<in> {Inl ErrBadMagic, Inl ErrBadCRC}"
proof -
  obtain body where b: "b = sealed body" and len: "49 \<le> length body"
  proof (rule WritePart_layout [OF assms(1)])
    fix symtab entries region
    let ?body = "partBody t t' (length series) region (concat (map (entryBytes (word_of_nat (length (headerBytes t t' (length series))))) entries)) (symtabBytes (stSyms symtab))"
    assume "b = sealed ?body"
    moreover have "1 \<le> length (symtabBytes (stSyms symtab))" by (simp add: symtabBytes_def Suc_le_eq)
    then have "49 \<le> length ?body" using length_headerBytes(1) [of t t' "length series"] by (simp add: partBody_def Let_def)
    ultimately show thesis using that by blast
  qed
  have n: "length b = length body + 4" using b by (simp add: sealed_def)
  have stored: "getUint32 (putUint32 (Checksum body)) = Checksum body" using getUint32_putUint32 [of _ "[]"] by simp
  have crc: "Checksum (take (length b - 4) (b[i := x])) \<noteq> getUint32 (drop (length b - 4) (b[i := x]))"
  proof (cases "i < length body")
    case True
    then have "b[i := x] = body[i := x] @ putUint32 (Checksum body)" "x \<noteq> body ! i" using b assms(3) by (simp_all add: sealed_def list_update_append nth_append)
    then show ?thesis using Checksum_byte [OF True] stored n by simp
  next
    case False
    let ?c = "putUint32 (Checksum body)"
    have u: "b[i := x] = body @ ?c[i - length body := x]" using b False by (simp add: sealed_def list_update_append)
    have "i - length body < length ?c" "x \<noteq> ?c ! (i - length body)" using False assms(2,3) n b by (auto simp: sealed_def nth_append)
    then have "?c[i - length body := x] \<noteq> ?c" by (metis nth_list_update_eq)
    then show ?thesis using getUint32_inj [of "?c[i - length body := x]" ?c] stored u n by auto
  qed
  show ?thesis using crc n len by (auto simp: OpenPart_def footerLen_def)
qed

section \<open>Fields\<close>

interpretation part_cursor: byte_cursor part_take part_uvarint PartPanic
proof
  show "part_take (word_of_nat (length s)) (at before (s @ after)) = Inr (s, at (before @ s) after)"
    if "length before + length s + length after < 2 ^ 63" for before s after
    using slice_end [of "length before" "length s"] that by (simp add: part_take_def Let_def nat_add_distrib)
  show "\<exists>err. part_take (word_of_nat n) (at before y) = Inl err \<and> err \<noteq> PartPanic"
    if "length before + n < 2 ^ 63" "length y < n" for before n y
    using slice_end [of "length before" n] that by (simp add: part_take_def Let_def)
qed (simp_all add: part_uvarint_def binary_Uvarint_put_uvarint)

lemma reads_fixed:
  assumes "length x = k" "f x = v"
  shows "reads PartPanic (\<lambda>r. res_bind (part_take (word_of_nat k) r) (\<lambda>(b, r). Inr (f b, r))) x v"
proof -
  have t: "reads PartPanic (part_take (word_of_nat k)) x x" using part_cursor.reads_take [of x] assms(1) by simp
  have "reads PartPanic (\<lambda>r. res_bind (part_take (word_of_nat k) r) (\<lambda>(b, r). Inr (f b, r))) (x @ []) v"
    by (rule reads_bind [OF t]) (simp add: assms(2) reads_return)
  then show ?thesis by simp
qed

lemma reads_u8: "reads PartPanic part_u8 [v] v"
  using reads_fixed [of "[v]" 1 "\<lambda>b. b ! 0"] by (simp add: part_u8_def [abs_def])

lemma reads_u32: "reads PartPanic part_u32 (putUint32 v) v"
  using reads_fixed [of "putUint32 v" 4 getUint32] getUint32_putUint32 [of v "[]"] by (simp add: part_u32_def [abs_def])

lemma reads_u64: "reads PartPanic part_u64 (putUint64 v) v"
  using reads_fixed [of "putUint64 v" 8 getUint64] getUint64_putUint64 [of v "[]"] by (simp add: part_u64_def [abs_def])

text \<open>A list of fields read by a loop that conses its values.\<close>

lemma reads_cons:
  assumes "reads PartPanic p x v" "reads PartPanic q y vs"
  shows "reads PartPanic (\<lambda>r. res_bind (p r) (\<lambda>(v, r). res_bind (q r) (\<lambda>(vs, r). Inr (v # vs, r)))) (x @ y) (v # vs)"
proof -
  have "reads PartPanic (\<lambda>r. res_bind (q r) (\<lambda>(vs, r). Inr (v # vs, r))) (y @ []) (v # vs)"
    by (rule reads_bind [OF assms(2)]) (rule reads_return)
  then show ?thesis using reads_bind [OF assms(1), of "\<lambda>v r. res_bind (q r) (\<lambda>(vs, r). Inr (v # vs, r))"] by simp
qed

lemma reads_lens: "reads PartPanic (parseLens (length ls)) (concat (map put_uvarint ls)) ls"
proof (induction ls)
  case Nil
  show ?case using reads_return [of PartPanic "[]"] by simp
next
  case (Cons l ls)
  show ?case using reads_cons [OF part_cursor.reads_uvarint [of l] Cons] by simp
qed

lemma reads_symbols: "reads PartPanic (parseSymbols (length ss)) (concat (map (\<lambda>s. put_uvarint (word_of_nat (length s)) @ s) ss)) ss"
proof (induction ss)
  case Nil
  show ?case using reads_return [of PartPanic "[]"] by simp
next
  case (Cons s ss)
  have "(\<lambda>r. res_bind (res_bind (part_uvarint r) (\<lambda>(l, r). part_take l r)) (\<lambda>(s, r). res_bind (parseSymbols (length ss) r) (\<lambda>(ss, r). Inr (s # ss, r)))) =
      parseSymbols (length (s # ss))"
    by (auto simp: fun_eq_iff res_bind_def split: sum.splits)
  then show ?case using reads_cons [OF part_cursor.reads_str [of s] Cons] by (simp del: parseSymbols.simps)
qed

lemma reads_part_labels:
  assumes "\<forall>(n, v) \<in> set ls. unat (f n) < length syms \<and> syms ! unat (f n) = n \<and> unat (f v) < length syms \<and> syms ! unat (f v) = v"
  shows "reads PartPanic (parseLabels syms (length ls)) (concat (map put_uvarint (concat (map (\<lambda>(n, v). [f n, f v]) ls)))) ls"
  using assms
proof (induction ls)
  case Nil
  show ?case using reads_return [of PartPanic "[]"] by simp
next
  case (Cons p ls)
  obtain n v where p: "p = (n, v)" by (cases p)
  let ?more = "\<lambda>pr r. res_bind (parseLabels syms (length ls) r) (\<lambda>(sets, r). Inr (pr # sets, r))"
  let ?q = "\<lambda>nr vr r. if length syms \<le> unat nr \<or> length syms \<le> unat vr then Inl ErrCorrupt else ?more (syms ! unat nr, syms ! unat vr) r"
  have "reads PartPanic (?more p) (concat (map put_uvarint (concat (map (\<lambda>(n, v). [f n, f v]) ls))) @ []) (p # ls)"
    by (rule reads_bind) (use Cons reads_return in auto)
  then have "reads PartPanic (?q (f n) (f v)) (concat (map put_uvarint (concat (map (\<lambda>(n, v). [f n, f v]) ls)))) (p # ls)"
    using Cons.prems p by simp
  then have "reads PartPanic (\<lambda>r. res_bind (part_uvarint r) (\<lambda>(vr, r). ?q (f n) vr r))
      (put_uvarint (f v) @ concat (map put_uvarint (concat (map (\<lambda>(n, v). [f n, f v]) ls)))) (p # ls)"
    by (rule reads_bind [OF part_cursor.reads_uvarint])
  then have "reads PartPanic (\<lambda>r. res_bind (part_uvarint r) (\<lambda>(nr, r). res_bind (part_uvarint r) (\<lambda>(vr, r). ?q nr vr r)))
      (put_uvarint (f n) @ put_uvarint (f v) @ concat (map put_uvarint (concat (map (\<lambda>(n, v). [f n, f v]) ls)))) (p # ls)"
    by (rule reads_bind [OF part_cursor.reads_uvarint])
  then show ?case using p by simp
qed

section \<open>Symbols\<close>

definition table_ok :: "symbolTable \<Rightarrow> bool" where
  "table_ok t \<longleftrightarrow> (\<forall>i < length (stSyms t). map_of (stIdx t) (stSyms t ! i) = Some (word_of_nat i)) \<and> dom (map_of (stIdx t)) = set (stSyms t)"

lemma intern_ok:
  assumes "table_ok t"
  shows "table_ok (intern s t)" "set (stSyms (intern s t)) = insert s (set (stSyms t))"
proof -
  have "table_ok (intern s t) \<and> set (stSyms (intern s t)) = insert s (set (stSyms t))"
  proof (cases "map_of (stIdx t) s")
    case None
    then have "s \<notin> dom (map_of (stIdx t))" by blast
    then have "s \<notin> set (stSyms t)" using assms by (simp add: table_ok_def)
    then show ?thesis using assms None by (auto simp: table_ok_def intern_def update_conv nth_append less_Suc_eq dom_def)
  next
    case (Some r)
    then show ?thesis using assms by (auto simp: table_ok_def intern_def dom_def)
  qed
  then show "table_ok (intern s t)" "set (stSyms (intern s t)) = insert s (set (stSyms t))" by blast+
qed

lemma internLabels_ok:
  "table_ok t \<Longrightarrow> table_ok (internLabels ls t) \<and> set (stSyms (internLabels ls t)) = set (stSyms t) \<union> fst ` set ls \<union> snd ` set ls"
proof (induction ls t rule: internLabels.induct)
  case (2 n v ls t)
  have "table_ok (intern n t)" "table_ok (intern v (intern n t))" using 2(2) intern_ok(1) by blast+
  then show ?case using 2 intern_ok(2) [of t n] intern_ok(2) [of "intern n t" v] by auto
qed simp

lemma internSeries_ok:
  "internSeries lib i ss t = Inr t' \<Longrightarrow> table_ok t \<Longrightarrow>
   table_ok t' \<and> set (stSyms t) \<subseteq> set (stSyms t') \<and>
   (\<forall>s \<in> set ss. seSamples s \<noteq> [] \<and> (\<forall>(n, v) \<in> set (lRange lib (seLabels s)). n \<in> set (stSyms t') \<and> v \<in> set (stSyms t')))"
proof (induction lib i ss t rule: internSeries.induct)
  case (2 lib i s ss t)
  let ?t = "internLabels (lRange lib (seLabels s)) t"
  have ne: "seSamples s \<noteq> []" and r: "internSeries lib (i + 1) ss ?t = Inr t'" using "2.prems"(1) by (auto split: if_splits)
  have t: "table_ok ?t" "set (stSyms ?t) = set (stSyms t) \<union> fst ` set (lRange lib (seLabels s)) \<union> snd ` set (lRange lib (seLabels s))"
    using internLabels_ok "2.prems"(2) by blast+
  note ih = "2.IH" [OF ne r t(1)]
  have "fst ` set (lRange lib (seLabels s)) \<union> snd ` set (lRange lib (seLabels s)) \<subseteq> set (stSyms t')" using ih t(2) by blast
  then have "\<forall>(n, v) \<in> set (lRange lib (seLabels s)). n \<in> set (stSyms t') \<and> v \<in> set (stSyms t')" by (auto simp: subset_iff image_iff)
  then show ?case using ih t(2) ne by auto
qed simp

lemma ref_ok:
  assumes "table_ok t" "s \<in> set (stSyms t)" "length (stSyms t) < 2 ^ 64"
  shows "unat (ref s t) < length (stSyms t)" "stSyms t ! unat (ref s t) = s"
proof -
  obtain i where "i < length (stSyms t)" "stSyms t ! i = s" using assms(2) by (auto simp: in_set_conv_nth)
  then have i: "i < length (stSyms t)" "stSyms t ! i = s" "ref s t = word_of_nat i" using assms(1) by (auto simp: table_ok_def ref_def)
  then have "unat (ref s t) = i" using assms(3) by (simp add: unat_of_nat)
  then show "unat (ref s t) < length (stSyms t)" "stSyms t ! unat (ref s t) = s" using i by simp_all
qed

section \<open>Entries\<close>

text \<open>The chunks of the series and where their runs lie in the region.\<close>

fun entries_of :: "('c, 'l) promLib \<Rightarrow> symbolTable \<Rightarrow> nat \<Rightarrow> ('l Series \<times> u8 list list) list \<Rightarrow> idxEntry list" where
  "entries_of lib t off [] = []"
| "entries_of lib t off ((s, cs) # ps) =
     \<lparr>ieLabelRefs = concat (map (\<lambda>(n, v). [ref n t, ref v t]) (lRange lib (seLabels s))), ieChunkOff = word_of_nat off,
      ieChunkLen = word_of_nat (length (concat cs)), ieChunkLens = map length cs,
      ieMinTS = sT (hd (seSamples s)), ieMaxTS = sT (last (seSamples s))\<rparr> # entries_of lib t (off + length (concat cs)) ps"

definition run_region :: "('l Series \<times> u8 list list) list \<Rightarrow> u8 list" where
  "run_region ps = concat (map (concat \<circ> snd) ps)"

lemma encodeEntries_spec:
  "encodeEntries oob xor_enc lib t i ss region = Inr (es, region') \<Longrightarrow>
   \<exists>ps. map fst ps = ss \<and> (\<forall>(s, cs) \<in> set ps. \<exists>res. Encode oob xor_enc (seSamples s) = Inr res \<and> cs = erChunks res) \<and>
     es = entries_of lib t (length region) ps \<and> region' = region @ run_region ps"
proof (induction oob xor_enc lib t i ss region arbitrary: es region' rule: encodeEntries.induct)
  case (1 oob xor_enc lib t i region)
  then show ?case by (auto simp: run_region_def)
next
  case (2 oob xor_enc lib t i s ss region)
  then obtain res where res: "Encode oob xor_enc (seSamples s) = Inr res" by (auto split: sum.splits)
  then obtain es' where e: "encodeEntries oob xor_enc lib t (i + 1) ss (region @ concat (erChunks res)) = Inr (es', region')"
    "es = \<lparr>ieLabelRefs = concat (map (\<lambda>(n, v). [ref n t, ref v t]) (lRange lib (seLabels s))),
      ieChunkOff = word_of_nat (length region), ieChunkLen = word_of_nat (length (concat (erChunks res))),
      ieChunkLens = map length (erChunks res), ieMinTS = sT (hd (seSamples s)), ieMaxTS = sT (last (seSamples s))\<rparr> # es'"
    using "2.prems" by (auto simp: Let_def res_bind_eq_Inr_iff split: prod.splits)
  obtain ps where "map fst ps = ss" "\<forall>(s, cs) \<in> set ps. \<exists>res. Encode oob xor_enc (seSamples s) = Inr res \<and> cs = erChunks res"
    "es' = entries_of lib t (length (region @ concat (erChunks res))) ps" "region' = (region @ concat (erChunks res)) @ run_region ps"
    using "2.IH" [OF res refl e(1)] by blast
  then show ?case using e(2) res by (intro exI [of _ "(s, erChunks res) # ps"]) (auto simp: run_region_def)
qed

text \<open>What an entry is read back as.\<close>

definition entry_series :: "'l \<Rightarrow> u64 \<Rightarrow> idxEntry \<Rightarrow> 'l indexSeries" where
  "entry_series l chunksStart e =
     \<lparr>isLabels = l, isChunkOff = chunksStart + ieChunkOff e, isChunkLen = ieChunkLen e, isChunkLens = map word_of_nat (ieChunkLens e),
      isMinTS = ieMinTS e, isMaxTS = ieMaxTS e\<rparr>"

definition entry_sound :: "nat \<Rightarrow> u64 \<Rightarrow> idxEntry \<Rightarrow> bool" where
  "entry_sound bufLen chunksStart e \<longleftrightarrow>
     8 * length (ieChunkLens e) \<le> 2 ^ 48 \<and> unat (chunksStart + ieChunkOff e + ucast (ieChunkLen e)) \<le> bufLen \<and>
     sum_list (map word_of_nat (ieChunkLens e)) = (ucast (ieChunkLen e) :: u64)"

definition names_labels :: "('c, 'l) promLib \<Rightarrow> gostr list \<Rightarrow> 'l \<Rightarrow> u64 list \<Rightarrow> bool" where
  "names_labels lib syms l refs \<longleftrightarrow>
     (\<exists>ls f. lBuild lib ls = l \<and> length ls < 2 ^ 64 \<and> refs = concat (map (\<lambda>(n, v). [f n, f v]) ls) \<and>
       (\<forall>(n, v) \<in> set ls. unat (f n) < length syms \<and> syms ! unat (f n) = n \<and> unat (f v) < length syms \<and> syms ! unat (f v) = v))"

lemma length_refs: "length (concat (map (\<lambda>(n, v). [f n, f v]) ls)) = 2 * length ls"
  by (induction ls) auto

lemma reads_entry:
  assumes "names_labels lib syms l (ieLabelRefs e)" "entry_sound bufLen chunksStart e"
  shows "reads PartPanic (parseEntry lib bufLen syms) (entryBytes chunksStart e) (entry_series l chunksStart e)"
proof -
  obtain ls f where ls: "lBuild lib ls = l" "length ls < 2 ^ 64" "ieLabelRefs e = concat (map (\<lambda>(n, v). [f n, f v]) ls)"
    "\<forall>(n, v) \<in> set ls. unat (f n) < length syms \<and> syms ! unat (f n) = n \<and> unat (f v) < length syms \<and> syms ! unat (f v) = v"
    using assms(1) by (auto simp: names_labels_def)
  have nl: "unat (word_of_nat (length (ieLabelRefs e) div 2) :: u64) = length ls" using ls(2) by (simp add: ls(3) length_refs unat_of_nat)
  have nc: "unat (word_of_nat (length (ieChunkLens e)) :: u64) = length (map word_of_nat (ieChunkLens e) :: u64 list)"
    using assms(2) by (simp add: entry_sound_def unat_of_nat)
  have bytes: "entryBytes chunksStart e = put_uvarint (word_of_nat (length (ieLabelRefs e) div 2)) @ concat (map put_uvarint (ieLabelRefs e)) @
     putUint64 (chunksStart + ieChunkOff e) @ putUint32 (ieChunkLen e) @ put_uvarint (word_of_nat (length (ieChunkLens e))) @
     concat (map put_uvarint (map word_of_nat (ieChunkLens e))) @ putUint64 (ieMinTS e) @ putUint64 (ieMaxTS e) @ []"
    by (simp add: entryBytes_def comp_def)
  have labels: "reads PartPanic (parseLabels syms (unat (word_of_nat (length (ieLabelRefs e) div 2) :: u64))) (concat (map put_uvarint (ieLabelRefs e))) ls"
    unfolding nl unfolding ls(3) by (rule reads_part_labels [OF ls(4)])
  have lens: "reads PartPanic (parseLens (unat (word_of_nat (length (ieChunkLens e)) :: u64)))
      (concat (map put_uvarint (map word_of_nat (ieChunkLens e)))) (map word_of_nat (ieChunkLens e))"
    unfolding nc by (rule reads_lens)
  have big: "(2 ^ 48 < 8 * unat (word_of_nat (length (ieChunkLens e)) :: u64)) = False" using assms(2) unfolding nc by (simp add: entry_sound_def)
  show ?thesis
    unfolding parseEntry_def [abs_def] bytes
    apply (rule reads_bind [OF part_cursor.reads_uvarint])
    apply (rule reads_bind [OF labels])
    apply (rule reads_bind [OF reads_u64])
    apply (rule reads_bind [OF reads_u32])
    apply (rule reads_bind [OF part_cursor.reads_uvarint])
    apply (simp only: big if_False)
    apply (rule reads_bind [OF lens])
    apply (rule reads_bind [OF reads_u64])
    apply (rule reads_bind [OF reads_u64])
    using assms(2) apply (simp add: entry_sound_def ls(1) entry_series_def reads_return not_less)
    done
qed

lemma reads_index:
  assumes "list_all2 (\<lambda>l e. names_labels lib syms l (ieLabelRefs e) \<and> entry_sound bufLen chunksStart e) lbls es"
  shows "reads PartPanic (parseIndex lib bufLen syms (length es)) (concat (map (entryBytes chunksStart) es)) (map2 (\<lambda>l e. entry_series l chunksStart e) lbls es)"
  using assms
proof (induction rule: list_all2_induct)
  case Nil
  show ?case using reads_return [of PartPanic "[]"] by simp
next
  case (Cons l ls e es)
  have "reads PartPanic (parseEntry lib bufLen syms) (entryBytes chunksStart e) (entry_series l chunksStart e)" using Cons(1) by (intro reads_entry) simp_all
  from reads_cons [OF this Cons(3)] show ?case by simp
qed

section \<open>Opening\<close>

lemma cursor_at: "b = before @ after \<Longrightarrow> \<lparr>crBuf = b, crPos = length before\<rparr> = at before after"
  by (simp add: at_def)

lemma reads_footer:
  assumes "length before + length after < 2 ^ 62"
  shows "footerField (at before (putUint64 v @ after)) = (v, at (before @ putUint64 v) after)"
  using reads_full [OF reads_u64, of before v after] assms by (simp add: footerField_def)

text \<open>The region contract of the footer holds of the offsets that the writer stores.\<close>

lemma footer_contract:
  assumes "i + k + s < 2 ^ 64"
  shows "\<not> (word_of_nat (i + k + s) :: u64) < word_of_nat i" "\<not> word_of_nat (i + k + s) - (word_of_nat i :: u64) < word_of_nat k"
    "(word_of_nat i :: u64) + word_of_nat k = word_of_nat (i + k)" "\<not> (word_of_nat (i + k + s) :: u64) < word_of_nat (i + k)"
proof -
  have small: "unat (word_of_nat m :: u64) = m" if "m \<le> i + k + s" for m using that assms by (simp add: unat_of_nat)
  have "word_of_nat (i + k + s) - (word_of_nat i :: u64) = word_of_nat (k + s)" by simp
  then show "\<not> word_of_nat (i + k + s) - (word_of_nat i :: u64) < word_of_nat k"
    using small [of "k + s"] small [of k] by (simp only: word_less_nat_alt)
  show "\<not> (word_of_nat (i + k + s) :: u64) < word_of_nat i" "\<not> (word_of_nat (i + k + s) :: u64) < word_of_nat (i + k)"
    unfolding word_less_nat_alt using small [of i] small [of "i + k"] small [of "i + k + s"] by linarith+
  show "(word_of_nat i :: u64) + word_of_nat k = word_of_nat (i + k)" by simp
qed

lemma OpenPart_fields:
  assumes b: "b = (Magic @ [Version] @ putUint64 t @ putUint64 t' @ put_uvarint (word_of_nat n)) @ region @ index @
      (put_uvarint (word_of_nat (length syms)) @ symdata) @ putUint64 x @ putUint64 y @ putUint64 z @ crc"
    and len: "length b < 2 ^ 32" "length crc = 4" and sum: "Checksum (take (length b - 4) b) = getUint32 (drop (length b - 4) b)"
    and i: "i = length (Magic @ [Version] @ putUint64 t @ putUint64 t' @ put_uvarint (word_of_nat n)) + length region"
    and xyz: "x = word_of_nat i" "y = word_of_nat (length index)" "z = word_of_nat (i + length index)"
    and index: "reads PartPanic (parseIndex lib (length b) syms n) index ss"
    and symdata: "reads PartPanic (parseSymbols (length syms)) symdata syms"
    and n: "n \<le> maxSeries" "n < 2 ^ 64" and syms: "16 * length syms \<le> 2 ^ 48"
  shows "OpenPart maxSeries lib b = Inr \<lparr>ptVersion = Version, ptBlockStartMs = t, ptBlockEndMs = t', ptBuf = b, ptSymbols = syms, ptSeries = ss\<rparr>"
proof -
  let ?h = "Magic @ [Version] @ putUint64 t @ putUint64 t' @ put_uvarint (word_of_nat n)" and ?q = "put_uvarint (word_of_nat (length syms))"
  let ?f = "putUint64 x @ putUint64 y @ putUint64 z @ crc"
  define s where "s = length (?q @ symdata)"
  have q: "0 < length ?q" by simp
  have lb: "length b = i + length index + s + 28" using len(2) by (simp add: b i s_def)
  define rest where "rest = region @ index @ (?q @ symdata) @ ?f"
  have split_h: "b = Magic @ [Version] @ putUint64 t @ putUint64 t' @ put_uvarint (word_of_nat n) @ rest" unfolding b rest_def by simp
  have "length rest < 2 ^ 32" using len(1) unfolding split_h by simp
  then have r: "part_u8 (at Magic ([Version] @ putUint64 t @ putUint64 t' @ put_uvarint (word_of_nat n) @ rest)) =
      Inr (Version, at (Magic @ [Version]) (putUint64 t @ putUint64 t' @ put_uvarint (word_of_nat n) @ rest))"
    "part_u64 (at (Magic @ [Version]) (putUint64 t @ putUint64 t' @ put_uvarint (word_of_nat n) @ rest)) =
      Inr (t, at ((Magic @ [Version]) @ putUint64 t) (putUint64 t' @ put_uvarint (word_of_nat n) @ rest))"
    "part_u64 (at ((Magic @ [Version]) @ putUint64 t) (putUint64 t' @ put_uvarint (word_of_nat n) @ rest)) =
      Inr (t', at (((Magic @ [Version]) @ putUint64 t) @ putUint64 t') (put_uvarint (word_of_nat n) @ rest))"
    "part_uvarint (at (((Magic @ [Version]) @ putUint64 t) @ putUint64 t') (put_uvarint (word_of_nat n) @ rest)) =
      Inr (word_of_nat n, at ((((Magic @ [Version]) @ putUint64 t) @ putUint64 t') @ put_uvarint (word_of_nat n)) rest)"
    using put_uvarint_max [of "word_of_nat n"] reads_full [OF reads_u8, of Magic Version]
    by (simp_all add: reads_full [OF reads_u64] reads_full [OF part_cursor.reads_uvarint])
  have r0: "\<lparr>crBuf = b, crPos = 7\<rparr> = at Magic ([Version] @ putUint64 t @ putUint64 t' @ put_uvarint (word_of_nat n) @ rest)"
    using cursor_at [OF split_h] by simp
  let ?p = "?h @ region @ index"
  have total: "length ?p + length (?q @ symdata) + length ?f < 2 ^ 32" using len unfolding b by simp
  have fr: "footerField (at (?p @ ?q @ symdata) ?f) = (x, at ((?p @ ?q @ symdata) @ putUint64 x) (putUint64 y @ putUint64 z @ crc))"
    "footerField (at ((?p @ ?q @ symdata) @ putUint64 x) (putUint64 y @ putUint64 z @ crc)) =
      (y, at (((?p @ ?q @ symdata) @ putUint64 x) @ putUint64 y) (putUint64 z @ crc))"
    "footerField (at (((?p @ ?q @ symdata) @ putUint64 x) @ putUint64 y) (putUint64 z @ crc)) =
      (z, at ((((?p @ ?q @ symdata) @ putUint64 x) @ putUint64 y) @ putUint64 z) crc)"
    by (rule reads_footer, use total in simp)+
  have f0: "\<lparr>crBuf = b, crPos = i + length index + s\<rparr> = at (?p @ ?q @ symdata) ?f"
    using cursor_at [of b "?p @ ?q @ symdata" ?f] by (simp add: b i s_def add.assoc)
  have s0: "\<lparr>crBuf = b, crPos = i + length index\<rparr> = at ?p (?q @ symdata @ ?f)"
    using cursor_at [of b ?p "?q @ symdata @ ?f"] by (simp add: b i add.assoc)
  have s1: "part_uvarint (at ?p (?q @ symdata @ ?f)) = Inr (word_of_nat (length syms), at (?p @ ?q) (symdata @ ?f))"
    by (rule reads_full [OF part_cursor.reads_uvarint]) (use total in simp)
  have s2: "parseSymbols (length syms) (at (?p @ ?q) (symdata @ ?f)) = Inr (syms, at ((?p @ ?q) @ symdata) ?f)"
    by (rule reads_full [OF symdata]) (use total in simp)
  have i0: "\<lparr>crBuf = b, crPos = i\<rparr> = at (?h @ region) (index @ (?q @ symdata) @ ?f)"
    using cursor_at [of b "?h @ region" "index @ (?q @ symdata) @ ?f"] by (simp add: b i)
  have i1: "parseIndex lib (length b) syms n (at (?h @ region) (index @ (?q @ symdata) @ ?f)) = Inr (ss, at ((?h @ region) @ index) ((?q @ symdata) @ ?f))"
    by (rule reads_full [OF index]) (use total in simp)
  have start: "\<not> length b < 7 + 1 + 8 + 8 + 1 + footerLen" "take 7 b = Magic" "length b - footerLen = i + length index + s"
    using lb q split_h by (simp_all add: footerLen_def i s_def)
  have un: "unat x = i" "unat z = i + length index" "unat (word_of_nat (length syms) :: u64) = length syms" "unat (word_of_nat n :: u64) = n"
    using lb len(1) n syms by (simp_all add: xyz unat_of_nat del: of_nat_add)
  have "i + length index + s < 2 ^ 64" using lb len(1) by simp
  note contract = footer_contract [OF this, folded xyz]
  have bounds: "\<not> 2 ^ 48 < 16 * length syms" "\<not> maxSeries < n" using n syms by simp_all
  show ?thesis
    unfolding OpenPart_def
    by (simp only: start sum Magic_length r0 r res_bind_Inr prod.case Let_def f0 fr contract un s0 s1 s2 i0 i1 bounds if_False if_True simp_thms)
qed

lemma OpenPart_sealed:
  assumes b: "b = sealed (partBody t t' n region index (symtabBytes syms))" and len: "length b < 2 ^ 32"
    and "reads PartPanic (parseIndex lib (length b) syms n) index ss" "n \<le> maxSeries" "n < 2 ^ 64" "16 * length syms \<le> 2 ^ 48"
  shows "OpenPart maxSeries lib b = Inr \<lparr>ptVersion = Version, ptBlockStartMs = t, ptBlockEndMs = t', ptBuf = b, ptSymbols = syms, ptSeries = ss\<rparr>"
proof (rule OpenPart_fields [OF _ len _ _ refl refl refl refl assms(3) reads_symbols assms(4-6)])
  let ?body = "partBody t t' n region index (symtabBytes syms)"
  show "length (putUint32 (Checksum ?body)) = 4" by simp
  show "Checksum (take (length b - 4) b) = getUint32 (drop (length b - 4) b)"
    using getUint32_putUint32 [of "Checksum ?body" "[]"] by (simp add: b sealed_def)
qed (simp add: b sealed_def partBody_def headerBytes_def symtabBytes_def Let_def)

section \<open>What was written\<close>

lemma label_set_range:
  assumes "label_laws lib"
  shows "label_set (lRange lib (lBuild lib sets)) = label_set sets"
proof -
  let ?r = "lRange lib (lBuild lib sets)"
  have r: "sorted_wrt (<) (map fst ?r)" "map_of ?r = label_set sets" using assms unfolding label_laws_def by blast+
  then have "distinct (map fst ?r)" using strict_sorted_iff by blast
  then have "map_of (rev ?r) = label_set sets" using r(2) map_of_rev_distinct by metis
  moreover have "label_set sets k \<noteq> Some []" for k by (auto simp: label_set_def split: option.splits)
  ultimately show ?thesis by (auto simp: label_set_def [of ?r] fun_eq_iff split: option.splits)
qed

lemma built_labels:
  assumes "label_laws lib"
  shows "lBuild lib (lRange lib (lBuild lib sets)) = lBuild lib sets"
proof -
  let ?s = "lRange lib (lBuild lib sets)"
  have "map_of (lRange lib (lBuild lib ?s)) = map_of ?s" using assms label_set_range [OF assms] unfolding label_laws_def by metis
  then have "lRange lib (lBuild lib ?s) = ?s" using assms sorted_pairs_unique unfolding label_laws_def by blast
  then show ?thesis using assms unfolding label_laws_def by blast
qed

lemma length_uvarints: "length vs \<le> length (concat (map put_uvarint vs))"
proof (induction vs)
  case (Cons v vs)
  have "1 \<le> length (put_uvarint v)" by (simp add: Suc_le_eq)
  then show ?case using Cons by simp
qed simp

lemma length_entryBytes: "length (ieChunkLens e) \<le> length (entryBytes c e)" "length (ieLabelRefs e) \<le> length (entryBytes c e)" "1 \<le> length (entryBytes c e)"
  using length_uvarints [of "map word_of_nat (ieChunkLens e)"] length_uvarints [of "ieLabelRefs e"] by (simp_all add: entryBytes_def comp_def)

lemma length_symtabBytes: "length syms \<le> length (symtabBytes syms)"
proof -
  have "length ss \<le> length (concat (map (\<lambda>s. put_uvarint (word_of_nat (length s)) @ s) ss))" for ss :: "gostr list"
  proof (induction ss)
    case (Cons s ss)
    have "1 \<le> length (put_uvarint (word_of_nat (length s)))" by (simp add: Suc_le_eq)
    then show ?case using Cons by simp
  qed simp
  from this [of syms] show ?thesis by (simp add: symtabBytes_def)
qed

lemma sum_of_nats: "sum_list (map word_of_nat ns) = (word_of_nat (sum_list ns) :: u64)"
  by (induction ns) simp_all

lemma entries_sound:
  assumes "\<forall>(s, cs) \<in> set ps. lBuild lib (lRange lib (seLabels s)) = seLabels s \<and>
      (\<forall>(n, v) \<in> set (lRange lib (seLabels s)). n \<in> set (stSyms t) \<and> v \<in> set (stSyms t))"
    and t: "table_ok t" "length (stSyms t) < 2 ^ 64"
    and region: "h + off + length (run_region ps) \<le> bufLen" "bufLen < 2 ^ 32"
    and bytes: "length (concat (map (entryBytes (word_of_nat h)) (entries_of lib t off ps))) < 2 ^ 32"
  shows "list_all2 (\<lambda>l e. names_labels lib (stSyms t) l (ieLabelRefs e) \<and> entry_sound bufLen (word_of_nat h) e) (map (seLabels \<circ> fst) ps) (entries_of lib t off ps)"
  using assms(1) region(1) bytes
proof (induction ps arbitrary: off)
  case (Cons p ps)
  obtain s cs where p: "p = (s, cs)" by (cases p)
  let ?ls = "lRange lib (seLabels s)" and ?e = "hd (entries_of lib t off (p # ps))" and ?len = "length (concat cs)"
  have fit: "h + off + ?len + length (run_region ps) \<le> bufLen" using Cons.prems(2) p by (simp add: run_region_def)
  have eb: "length (entryBytes (word_of_nat h) ?e) < 2 ^ 32" using Cons.prems(3) p by simp
  have "2 * length ?ls < 2 ^ 32" using length_entryBytes(2) [of ?e "word_of_nat h"] eb p by (simp add: length_refs)
  moreover have "\<forall>(n, v) \<in> set ?ls. unat (ref n t) < length (stSyms t) \<and> stSyms t ! unat (ref n t) = n \<and> unat (ref v t) < length (stSyms t) \<and> stSyms t ! unat (ref v t) = v"
    using Cons.prems(1) p ref_ok [OF t(1) _ t(2)] by auto
  ultimately have "names_labels lib (stSyms t) (seLabels s) (ieLabelRefs ?e)"
    unfolding names_labels_def using Cons.prems(1) p by (intro exI [of _ ?ls] exI [of _ "\<lambda>x. ref x t"]) auto
  moreover have "entry_sound bufLen (word_of_nat h) ?e"
  proof -
    have "length cs < 2 ^ 32" using length_entryBytes(1) [of ?e "word_of_nat h"] eb p by simp
    moreover have w: "ucast (word_of_nat ?len :: u32) = (word_of_nat ?len :: u64)" using fit region(2) by (simp add: word_unat_eq_iff unsigned_ucast_eq unat_of_nat take_bit_nat_eq_self)
    moreover have "unat (word_of_nat h + word_of_nat off + word_of_nat ?len :: u64) = h + off + ?len"
      using fit region(2) by (simp add: unat_of_nat flip: of_nat_add)
    ultimately show ?thesis using fit p sum_of_nats [of "map length cs"] by (simp add: entry_sound_def length_concat)
  qed
  moreover have "list_all2 (\<lambda>l e. names_labels lib (stSyms t) l (ieLabelRefs e) \<and> entry_sound bufLen (word_of_nat h) e) (map (seLabels \<circ> fst) ps) (entries_of lib t (off + ?len) ps)"
    by (rule Cons.IH) (use Cons.prems p fit in \<open>auto simp: add.assoc\<close>)
  ultimately show ?case using p by (simp add: comp_def)
qed simp

lemma length_entries: "length (entries_of lib t off ps) = length ps"
  by (induction lib t off ps rule: entries_of.induct) simp_all

lemma length_index: "length es \<le> length (concat (map (entryBytes c) es))"
proof (induction es)
  case (Cons e es)
  then show ?case using length_entryBytes(3) [of c e] by simp
qed simp

text \<open>A part opened after it was written: its entries are those of the encoded series.\<close>

lemma OpenPart_written:
  assumes laws: "label_laws lib" and built: "\<forall>s \<in> set series. \<exists>sets. seLabels s = lBuild lib sets"
    and w: "WritePart oob xor_enc lib t t' series = Inr b" and len: "length b < 2 ^ 32" and n: "length series \<le> maxSeries"
  obtains ps symtab h tail where "map fst ps = by_labels lib series"
    "\<forall>(s, cs) \<in> set ps. seSamples s \<noteq> [] \<and> (\<exists>res. Encode oob xor_enc (seSamples s) = Inr res \<and> cs = erChunks res)"
    "b = h @ run_region ps @ tail"
    "OpenPart maxSeries lib b = Inr \<lparr>ptVersion = Version, ptBlockStartMs = t, ptBlockEndMs = t', ptBuf = b, ptSymbols = stSyms symtab,
       ptSeries = map2 (\<lambda>l e. entry_series l (word_of_nat (length h)) e) (map (seLabels \<circ> fst) ps) (entries_of lib symtab 0 ps)\<rparr>"
proof (rule WritePart_layout [OF w])
  fix symtab entries region
  let ?h = "headerBytes t t' (length series)"
  let ?index = "concat (map (entryBytes (word_of_nat (length ?h))) entries)"
  assume st: "internSeries lib 0 (by_labels lib series) newSymbolTable = Inr symtab"
    and ee: "encodeEntries oob xor_enc lib symtab 0 (by_labels lib series) [] = Inr (entries, region)"
    and b: "b = sealed (partBody t t' (length series) region ?index (symtabBytes (stSyms symtab)))"
  have "table_ok newSymbolTable" by (simp add: table_ok_def newSymbolTable_def)
  note tab = internSeries_ok [OF st this]
  obtain ps where ps: "map fst ps = by_labels lib series" "\<forall>(s, cs) \<in> set ps. \<exists>res. Encode oob xor_enc (seSamples s) = Inr res \<and> cs = erChunks res"
    "entries = entries_of lib symtab 0 ps" "region = run_region ps"
    using encodeEntries_spec [OF ee] by auto
  have mem: "s \<in> set (by_labels lib series)" if "(s, cs) \<in> set ps" for s cs using that by (force simp flip: ps(1))
  have sizes: "length ?h + length region + length ?index + length (symtabBytes (stSyms symtab)) + 28 = length b" by (simp add: b sealed_def partBody_def Let_def)
  have np: "length ps = length series" using ps(1) length_map [of fst ps] by simp
  let ?ss = "map2 (\<lambda>l e. entry_series l (word_of_nat (length ?h)) e) (map (seLabels \<circ> fst) ps) (entries_of lib symtab 0 ps)"
  have "list_all2 (\<lambda>l e. names_labels lib (stSyms symtab) l (ieLabelRefs e) \<and> entry_sound (length b) (word_of_nat (length ?h)) e) (map (seLabels \<circ> fst) ps) entries"
    unfolding ps(3)
  proof (rule entries_sound)
    show "\<forall>(s, cs) \<in> set ps. lBuild lib (lRange lib (seLabels s)) = seLabels s \<and>
        (\<forall>(n, v) \<in> set (lRange lib (seLabels s)). n \<in> set (stSyms symtab) \<and> v \<in> set (stSyms symtab))"
    proof (intro ballI prod.case_eq_if [THEN iffD2], goal_cases)
      case (1 p)
      then have m: "fst p \<in> set (by_labels lib series)" using mem [of "fst p" "snd p"] by simp
      then obtain sets where "seLabels (fst p) = lBuild lib sets" using built by auto
      then show ?case using built_labels [OF laws] tab m by (auto simp: split_beta)
    qed
    show "length (concat (map (entryBytes (word_of_nat (length ?h))) (entries_of lib symtab 0 ps))) < 2 ^ 32" using sizes len ps(3) by simp
  qed (use tab sizes len ps(4) length_symtabBytes [of "stSyms symtab"] in simp_all)
  from reads_index [OF this] have idx: "reads PartPanic (parseIndex lib (length b) (stSyms symtab) (length series)) ?index ?ss"
    by (simp add: ps(3) length_entries np)
  have "OpenPart maxSeries lib b = Inr \<lparr>ptVersion = Version, ptBlockStartMs = t, ptBlockEndMs = t', ptBuf = b, ptSymbols = stSyms symtab, ptSeries = ?ss\<rparr>"
  proof (rule OpenPart_sealed [OF b len idx n])
    show "16 * length (stSyms symtab) \<le> 2 ^ 48" using length_symtabBytes [of "stSyms symtab"] sizes len by simp
    show "length series < 2 ^ 64" using length_index [of entries "word_of_nat (length ?h)"] sizes len by (simp add: ps(3) length_entries np)
  qed
  moreover have "b = ?h @ run_region ps @ ?index @ drop (length (?h @ region @ ?index)) b" unfolding b sealed_def partBody_def Let_def ps(4) by simp
  moreover have "\<forall>(s, cs) \<in> set ps. seSamples s \<noteq> [] \<and> (\<exists>res. Encode oob xor_enc (seSamples s) = Inr res \<and> cs = erChunks res)"
    using ps(2) tab mem by fast
  ultimately show thesis using that ps(1) by blast
qed

section \<open>Queries\<close>

lemma slice64_mid:
  assumes "length (pre @ x @ post) < 2 ^ 63"
  shows "slice64 (pre @ x @ post) (word_of_nat (length pre)) (word_of_nat (length pre) + word_of_nat (length x)) = Inr x"
proof -
  have "unat (word_of_nat (length pre) :: u64) = length pre" "unat (word_of_nat (length pre) + word_of_nat (length x) :: u64) = length pre + length x"
    using assms by (simp_all add: unat_of_nat flip: of_nat_add)
  then show ?thesis by (simp add: slice64_def word_less_nat_alt)
qed

lemma splitChunks_concat:
  "length (pre @ concat cs @ post) < 2 ^ 63 \<Longrightarrow> splitChunks (pre @ concat cs @ post) (word_of_nat (length pre)) (map word_of_nat (map length cs)) = Inr cs"
proof (induction cs arbitrary: pre)
  case (Cons c cs)
  have "splitChunks ((pre @ c) @ concat cs @ post) (word_of_nat (length (pre @ c))) (map word_of_nat (map length cs)) = Inr cs"
    by (rule Cons.IH) (use Cons.prems in simp)
  then show ?case using slice64_mid [of pre c "concat cs @ post"] Cons.prems by simp
qed simp

lemma decodeSeries_entry:
  assumes "ptBuf p = pre @ concat cs @ post" "length (ptBuf p) < 2 ^ 32" "DecodeChunks xor_dec cs = Inr out" "out \<noteq> []"
    "isChunkOff s = word_of_nat (length pre)" "isChunkLen s = word_of_nat (length (concat cs))" "isChunkLens s = map word_of_nat (map length cs)"
  shows "decodeSeries xor_dec p s = Inr out"
proof -
  have len: "length (pre @ concat cs @ post) < 2 ^ 63" "length (concat cs) < 2 ^ 32" using assms(1,2) by simp_all
  have "(ucast (word_of_nat (length (concat cs)) :: u32) :: u64) = word_of_nat (length (concat cs))"
    using len(2) by (simp add: word_unat_eq_iff unsigned_ucast_eq unat_of_nat take_bit_nat_eq_self)
  then have run: "slice64 (ptBuf p) (isChunkOff s) (isChunkOff s + ucast (isChunkLen s)) = Inr (concat cs)"
    unfolding assms(1,5,6) using slice64_mid [OF len(1)] by simp
  show ?thesis
  proof (cases "length cs \<le> 1")
    case True
    then obtain c where c: "cs = [c]" using assms(3,4) by (cases cs) (auto simp: DecodeChunks_def)
    then show ?thesis using run assms(3,7) by (cases "DecodeChunk xor_dec c") (simp_all add: decodeSeries_def DecodeChunks_def decoded_def)
  next
    case False
    have "unat (word_of_nat (length pre) :: u64) = length pre" using len(1) by (simp add: unat_of_nat)
    then have "drop (unat (isChunkOff s)) (ptBuf p) = concat cs @ post" by (simp add: assms(1,5))
    then show ?thesis using False run assms(3,7) splitChunks_concat [of "[]" cs post] len(1) by (simp add: decodeSeries_def decoded_def)
  qed
qed

text \<open>The series that a query selects: the time between its first and its last sample meets the window, and every matcher accepts it.\<close>

definition selected :: "('c, 'l) promLib \<Rightarrow> matcher list \<Rightarrow> i64 \<Rightarrow> i64 \<Rightarrow> 'l Series \<Rightarrow> bool" where
  "selected lib matchers lo hi s \<longleftrightarrow>
     sint (sT (hd (seSamples s))) \<le> sint hi \<and> sint lo \<le> sint (sT (last (seSamples s))) \<and> MatchesAll lib (seLabels s) matchers"

definition answers :: "'l Series list \<Rightarrow> ('l \<times> sample list) list \<Rightarrow> bool" where
  "answers = list_all2 (\<lambda>s (l, samples). l = seLabels s \<and> list_all2 same_sample (seSamples s) samples)"

lemma query_entries:
  assumes "ptBuf p = h @ pre @ run_region ps @ post" "length (ptBuf p) < 2 ^ 32"
    "\<forall>(s, cs) \<in> set ps. seSamples s \<noteq> [] \<and> (\<exists>out. DecodeChunks xor_dec cs = Inr out \<and> list_all2 same_sample (seSamples s) out)"
  shows "\<exists>out. querySeries lib xor_dec p matchers lo hi
      (map2 (\<lambda>l e. entry_series l (word_of_nat (length h)) e) (map (seLabels \<circ> fst) ps) (entries_of lib t (length pre) ps)) = Inr out \<and>
    answers (filter (selected lib matchers lo hi) (map fst ps)) out"
  using assms
proof (induction ps arbitrary: pre)
  case (Cons x ps)
  obtain s cs where x: "x = (s, cs)" by (cases x)
  then obtain samples where s: "seSamples s \<noteq> []" "DecodeChunks xor_dec cs = Inr samples" "list_all2 same_sample (seSamples s) samples"
    using Cons.prems(3) by auto
  then have "samples \<noteq> []" by auto
  let ?es = "map2 (\<lambda>l e. entry_series l (word_of_nat (length h)) e)"
  let ?e = "entry_series (seLabels s) (word_of_nat (length h)) (hd (entries_of lib t (length pre) (x # ps)))"
  have "\<exists>out. querySeries lib xor_dec p matchers lo hi (?es (map (seLabels \<circ> fst) ps) (entries_of lib t (length (pre @ concat cs)) ps)) = Inr out \<and>
      answers (filter (selected lib matchers lo hi) (map fst ps)) out"
    by (rule Cons.IH) (use Cons.prems x in \<open>auto simp: run_region_def\<close>)
  then obtain out where out: "querySeries lib xor_dec p matchers lo hi (?es (map (seLabels \<circ> fst) ps) (entries_of lib t (length pre + length (concat cs)) ps)) = Inr out"
    "answers (filter (selected lib matchers lo hi) (map fst ps)) out" by auto
  have dec: "decodeSeries xor_dec p ?e = Inr samples"
    by (rule decodeSeries_entry [of _ "h @ pre" cs "run_region ps @ post"])
      (use Cons.prems x s \<open>samples \<noteq> []\<close> in \<open>simp_all add: run_region_def entry_series_def\<close>)
  have q: "isMinTS ?e = sT (hd (seSamples s))" "isMaxTS ?e = sT (last (seSamples s))" "isLabels ?e = seLabels s" using x by (simp_all add: entry_series_def)
  have es: "?es (map (seLabels \<circ> fst) (x # ps)) (entries_of lib t (length pre) (x # ps)) =
      ?e # ?es (map (seLabels \<circ> fst) ps) (entries_of lib t (length pre + length (concat cs)) ps)" using x by simp
  show ?case
  proof (cases "selected lib matchers lo hi s")
    case True
    then have "querySeries lib xor_dec p matchers lo hi (?es (map (seLabels \<circ> fst) (x # ps)) (entries_of lib t (length pre) (x # ps))) = Inr ((seLabels s, samples) # out)"
      unfolding es querySeries.simps q dec out(1) by (simp add: selected_def not_less)
    moreover have "answers (filter (selected lib matchers lo hi) (map fst (x # ps))) ((seLabels s, samples) # out)"
      using True out(2) s(3) x by (simp add: answers_def)
    ultimately show ?thesis by blast
  next
    case False
    then have "querySeries lib xor_dec p matchers lo hi (?es (map (seLabels \<circ> fst) (x # ps)) (entries_of lib t (length pre) (x # ps))) = Inr out"
      unfolding es querySeries.simps q out(1) by (auto simp: selected_def not_less)
    moreover have "answers (filter (selected lib matchers lo hi) (map fst (x # ps))) out" using False out(2) x by simp
    ultimately show ?thesis by blast
  qed
qed (simp add: answers_def)

lemma written_part_reads:
  assumes "label_laws lib" "\<forall>s \<in> set series. (\<exists>sets. seLabels s = lBuild lib sets) \<and> length (seSamples s) \<le> 2 ^ 44"
    and xor: "\<forall>samples bs. length samples < 2 ^ 16 \<and> xor_enc samples = Some bs \<longrightarrow> xor_dec bs = Some (Inr samples)"
    and w: "WritePart oob xor_enc lib t t' series = Inr b" "length b < 2 ^ 32" "length series \<le> maxSeries"
  shows "\<exists>p. OpenPart maxSeries lib b = Inr p \<and> ptBlockStartMs p = t \<and> ptBlockEndMs p = t' \<and> SeriesLabels p = map seLabels (by_labels lib series) \<and>
    (\<forall>matchers lo hi. \<exists>out. PartSeries lib xor_dec p matchers lo hi = Inr out \<and> answers (filter (selected lib matchers lo hi) (by_labels lib series)) out)"
proof (rule OpenPart_written [OF assms(1) _ w])
  show "\<forall>s \<in> set series. \<exists>sets. seLabels s = lBuild lib sets" using assms(2) by blast
  fix ps symtab and h tail :: "u8 list"
  let ?ss = "map2 (\<lambda>l e. entry_series l (word_of_nat (length h)) e) (map (seLabels \<circ> fst) ps) (entries_of lib symtab 0 ps)"
  let ?p = "\<lparr>ptVersion = Version, ptBlockStartMs = t, ptBlockEndMs = t', ptBuf = b, ptSymbols = stSyms symtab, ptSeries = ?ss\<rparr>"
  assume ps: "map fst ps = by_labels lib series" and b: "b = h @ run_region ps @ tail"
    and enc: "\<forall>(s, cs) \<in> set ps. seSamples s \<noteq> [] \<and> (\<exists>res. Encode oob xor_enc (seSamples s) = Inr res \<and> cs = erChunks res)"
    and p: "OpenPart maxSeries lib b = Inr ?p"
  have dec: "seSamples s \<noteq> [] \<and> (\<exists>out. DecodeChunks xor_dec cs = Inr out \<and> list_all2 same_sample (seSamples s) out)" if m: "(s, cs) \<in> set ps" for s cs
  proof -
    obtain res where "Encode oob xor_enc (seSamples s) = Inr res" "cs = erChunks res" "seSamples s \<noteq> []" using bspec [OF enc m] by auto
    moreover have "s \<in> set (map fst ps)" using m by force
    then have "length (seSamples s) \<le> 2 ^ 44" using assms(2) unfolding ps by simp
    ultimately show ?thesis using candidates_lossless [OF Encode_in_candidates(1), of oob xor_enc "seSamples s" res xor_dec] xor by simp
  qed
  have "\<exists>out. PartSeries lib xor_dec ?p matchers lo hi = Inr out \<and> answers (filter (selected lib matchers lo hi) (by_labels lib series)) out" for matchers lo hi
    using query_entries [of ?p h "[]" ps tail xor_dec lib matchers lo hi symtab] dec b w(2) by (auto simp: PartSeries_def ps)
  moreover have "SeriesLabels ?p = map seLabels (by_labels lib series)"
    by (simp add: SeriesLabels_def entry_series_def length_entries comp_def split_beta flip: ps)
  ultimately show ?thesis using p by (intro exI [of _ ?p]) simp
qed

text \<open>
  Property C13. A part that was written is read back: it opens with the block's times and the label sets of the series in their order, and
  every query returns the series that it selects, each with all of its samples, in that order and with the same value bits except that a zero may change its sign, and no other.
  The part is shorter than 4 GiB; label sets come from Prometheus's builder.
\<close>

theorem part_roundtrip:
  assumes "label_laws lib" "\<forall>s \<in> set series. (\<exists>sets. seLabels s = lBuild lib sets) \<and> length (seSamples s) \<le> 2 ^ 44"
    and xor: "\<forall>samples bs. length samples < 2 ^ 16 \<and> xor_enc samples = Some bs \<longrightarrow> xor_dec bs = Some (Inr samples)"
    and w: "WritePart oob xor_enc lib t t' series = Inr b" "length b < 2 ^ 32" "length series \<le> maxSeries"
  shows "\<exists>p. OpenPart maxSeries lib b = Inr p \<and> ptBlockStartMs p = t \<and> ptBlockEndMs p = t' \<and> SeriesLabels p = map seLabels (by_labels lib series) \<and>
    (\<forall>matchers lo hi. \<exists>out. PartSeries lib xor_dec p matchers lo hi = Inr out \<and> answers (filter (selected lib matchers lo hi) (by_labels lib series)) out)"
  by (rule written_part_reads [OF assms])

section \<open>Forged parts\<close>

text \<open>An entry whose run lies four bytes before the end of the 64-bit address space: its end wraps around to zero.\<close>

definition wrapped_entry :: "u64 \<Rightarrow> idxEntry" where
  "wrapped_entry chunksStart = \<lparr>ieLabelRefs = [], ieChunkOff = - 4 - chunksStart, ieChunkLen = 4, ieChunkLens = [4], ieMinTS = 0, ieMaxTS = 0\<rparr>"

definition forged_part :: "u8 list" where
  "forged_part = (let c = word_of_nat (length (headerBytes 0 0 1)) in sealed (partBody 0 0 1 [] (entryBytes c (wrapped_entry c)) (symtabBytes [])))"

text \<open>
  The checksum does not protect a reader from a part that was made to harm it: the bound on an entry's run is checked on a sum
  that may wrap around, and \<^verbatim>\<open>OpenPart\<close> accepts a part with which the query for its first millisecond makes \<^verbatim>\<open>Series\<close> panic.
\<close>

theorem forged_part_panics:
  assumes "1 \<le> maxSeries"
  shows "\<exists>p. OpenPart maxSeries lib forged_part = Inr p \<and> PartSeries lib xor_dec p [] 0 0 = Inl PartPanic"
proof -
  define c where "c = (word_of_nat (length (headerBytes 0 0 1)) :: u64)"
  let ?e = "wrapped_entry c" let ?s = "entry_series (lBuild lib []) c ?e"
  have b: "forged_part = sealed (partBody 0 0 1 [] (entryBytes c ?e) (symtabBytes []))" by (simp add: forged_part_def c_def Let_def)
  have "length (entryBytes c ?e) \<le> 58" "length (symtabBytes []) \<le> 10"
    using put_uvarint_max [of 0] put_uvarint_max [of 1] put_uvarint_max [of 4] by (simp_all add: entryBytes_def wrapped_entry_def symtabBytes_def)
  then have len: "length forged_part < 2 ^ 32" using length_headerBytes(2) [of 0 0 1] by (simp add: b sealed_def partBody_def Let_def)
  have "names_labels lib [] (lBuild lib []) (ieLabelRefs ?e)" unfolding names_labels_def by (rule exI [of _ "[]"]) (simp add: wrapped_entry_def)
  moreover have "entry_sound (length forged_part) c ?e" by (simp add: entry_sound_def wrapped_entry_def)
  ultimately have "reads PartPanic (parseIndex lib (length forged_part) [] 1) (entryBytes c ?e) [?s]"
    using reads_index [of lib "[]" "length forged_part" c "[lBuild lib []]" "[?e]"] by simp
  from OpenPart_sealed [OF b len this assms] have o: "OpenPart maxSeries lib forged_part =
      Inr \<lparr>ptVersion = Version, ptBlockStartMs = 0, ptBlockEndMs = 0, ptBuf = forged_part, ptSymbols = [], ptSeries = [?s]\<rparr>" by simp
  have "decodeSeries xor_dec p ?s = Inl PartPanic" for p
    by (simp add: decodeSeries_def entry_series_def wrapped_entry_def slice64_def word_less_nat_alt)
  then have "PartSeries lib xor_dec \<lparr>ptVersion = Version, ptBlockStartMs = 0, ptBlockEndMs = 0, ptBuf = forged_part, ptSymbols = [], ptSeries = [?s]\<rparr> [] 0 0 = Inl PartPanic"
    by (simp add: PartSeries_def) (simp add: entry_series_def wrapped_entry_def)
  then show ?thesis using o by blast
qed

section \<open>Witnesses\<close>

text \<open>Two series of stale markers.\<close>

definition demo_series :: "(gostr \<times> gostr) list Series list" where
  "demo_series = map (\<lambda>v. \<lparr>seLabels = lBuild listLib [([97], [v])], seSamples = [\<lparr>sT = 1, sV = 0x7FF0000000000002\<rparr>, \<lparr>sT = 2, sV = 0x7FF0000000000002\<rparr>]\<rparr>) [99, 98]"

lemma demo_Encode:
  "\<exists>gb. Encode (\<lambda>_. 0) plain_enc [\<lparr>sT = 1, sV = 0x7FF0000000000002\<rparr>, \<lparr>sT = 2, sV = 0x7FF0000000000002\<rparr>] = Inr (mk_cand CodecGorillaXOR [gb]) \<and> length gb \<le> 100"
proof -
  have nan: "f64_isnan 0x7FF0000000000002" by (simp add: f64_isnan_def f64_exp_def f64_frac_def)
  let ?gb = "CodecGorillaXOR # put_uvarint 2 @ put_uvarint 2 @ put_uvarint (zigzag 1) @ put_uvarint (zigzag 0x7FF0000000000002) @
      put_uvarint (zigzag 2) @ put_uvarint (zigzag 0x7FF0000000000002)"
  have "Encode (\<lambda>_. 0) plain_enc [\<lparr>sT = 1, sV = 0x7FF0000000000002\<rparr>, \<lparr>sT = 2, sV = 0x7FF0000000000002\<rparr>] = Inr (mk_cand CodecGorillaXOR [?gb])"
    by (simp add: nan Encode_def candidates_def tryScaleToInt64_def encodeGorillaChunk_def xorChunkMaxSamples_def plain_enc_def w_varint_def w_uvarint_def w_u8_def)
  moreover have "length ?gb \<le> 100"
    using put_uvarint_max [of "zigzag 1"] put_uvarint_max [of "zigzag 2"] put_uvarint_max [of "2"] put_uvarint_max [of "zigzag 0x7FF0000000000002"] by simp
  ultimately show ?thesis by blast
qed

lemma length_uvarints_max: "length (concat (map put_uvarint vs)) \<le> 10 * length vs"
proof (induction vs)
  case (Cons v vs)
  then show ?case using put_uvarint_max [of v] by simp
qed simp

lemma length_entryBytes_max: "length (entryBytes c e) \<le> 48 + 10 * (length (ieLabelRefs e) + length (ieChunkLens e))"
  using length_uvarints_max [of "map word_of_nat (ieChunkLens e)"] length_uvarints_max [of "ieLabelRefs e"]
    put_uvarint_max [of "word_of_nat (length (ieLabelRefs e) div 2)"] put_uvarint_max [of "word_of_nat (length (ieChunkLens e))"]
  by (simp add: entryBytes_def comp_def)

lemma demo_written: "\<exists>b. WritePart (\<lambda>_. 0) plain_enc listLib 0 10 demo_series = Inr b \<and> length b < 2 ^ 32"
proof -
  obtain gb where gb: "Encode (\<lambda>_. 0) plain_enc [\<lparr>sT = 1, sV = 0x7FF0000000000002\<rparr>, \<lparr>sT = 2, sV = 0x7FF0000000000002\<rparr>] = Inr (mk_cand CodecGorillaXOR [gb])"
    and len: "length gb \<le> 100" using demo_Encode by blast
  note eval = demo_series_def sort_Slice_def listLib_def label_set_def gb mk_cand_def Let_def
  obtain b where b: "WritePart (\<lambda>_. 0) plain_enc listLib 0 10 demo_series = Inr b" by (simp add: WritePart_def eval)
  have "length b < 2 ^ 32"
  proof (rule WritePart_layout [OF b])
    fix symtab entries region
    let ?h = "headerBytes 0 10 (length demo_series)" let ?c = "word_of_nat (length ?h) :: u64"
    assume st: "internSeries listLib 0 (by_labels listLib demo_series) newSymbolTable = Inr symtab"
      and ee: "encodeEntries (\<lambda>_. 0) plain_enc listLib symtab 0 (by_labels listLib demo_series) [] = Inr (entries, region)"
      and b: "b = sealed (partBody 0 10 (length demo_series) region (concat (map (entryBytes ?c) entries)) (symtabBytes (stSyms symtab)))"
    obtain e e' where es: "entries = [e, e']" "length (ieLabelRefs e) = 2" "length (ieLabelRefs e') = 2" "length (ieChunkLens e) = 1" "length (ieChunkLens e') = 1"
      and region: "length region \<le> 200" using ee len by (auto simp: eval)
    have "stSyms symtab = [[97], [98], [99]]" using st by (auto simp: eval newSymbolTable_def intern_def)
    then have "length (symtabBytes (stSyms symtab)) \<le> 100" using put_uvarint_max [of 3] put_uvarint_max [of 1] by (simp add: symtabBytes_def)
    moreover have "length (concat (map (entryBytes ?c) entries)) \<le> 200"
      using length_entryBytes_max [of ?c e] length_entryBytes_max [of ?c e'] es by simp
    ultimately show ?thesis using region length_headerBytes(2) [of 0 10 "length demo_series"] by (simp add: b sealed_def partBody_def Let_def)
  qed
  then show ?thesis using b by blast
qed

lemma demo_sorted: "by_labels listLib demo_series = rev demo_series"
  by (simp add: demo_series_def sort_Slice_def listLib_def label_set_def)

theorem part_roundtrip_witness:
  "\<exists>b p out. WritePart (\<lambda>_. 0) plain_enc listLib 0 10 demo_series = Inr b \<and> OpenPart 2 listLib b = Inr p \<and>
     SeriesLabels p = [[([97], [98])], [([97], [99])]] \<and> PartSeries listLib plain_dec p [] 2 9 = Inr out \<and> length out = 2"
proof -
  obtain b where b: "WritePart (\<lambda>_. 0) plain_enc listLib 0 10 demo_series = Inr b" "length b < 2 ^ 32" using demo_written by blast
  have s: "\<forall>s \<in> set demo_series. (\<exists>sets. seLabels s = lBuild listLib sets) \<and> length (seSamples s) \<le> 2 ^ 44" by (auto simp: demo_series_def)
  have x: "\<forall>samples bs. length samples < 2 ^ 16 \<and> plain_enc samples = Some bs \<longrightarrow> plain_dec bs = Some (Inr samples)" using plain_dec_enc by blast
  have n: "length demo_series \<le> 2" by (simp add: demo_series_def)
  obtain p out where p: "OpenPart 2 listLib b = Inr p" "SeriesLabels p = map seLabels (by_labels listLib demo_series)"
      "PartSeries listLib plain_dec p [] 2 9 = Inr out" and out: "answers (filter (selected listLib [] 2 9) (by_labels listLib demo_series)) out"
    using part_roundtrip [OF listLib_labels s x b n] by blast
  have "length out = length (filter (selected listLib [] 2 9) (by_labels listLib demo_series))" using out list_all2_lengthD by (fastforce simp: answers_def)
  then have "length out = 2" by (simp add: demo_sorted) (simp add: demo_series_def selected_def)
  moreover have "map seLabels (by_labels listLib demo_series) = [[([97], [98])], [([97], [99])]]"
    by (simp add: demo_sorted) (simp add: demo_series_def listLib_def label_set_def)
  ultimately show ?thesis using b p by metis
qed

theorem damaged_byte_refused_witness:
  "\<exists>b. WritePart (\<lambda>_. 0) plain_enc listLib 0 10 demo_series = Inr b \<and> OpenPart 2 listLib (b[0 := b ! 0 + 1]) \<in> {Inl ErrBadMagic, Inl ErrBadCRC}"
proof -
  obtain b where b: "WritePart (\<lambda>_. 0) plain_enc listLib 0 10 demo_series = Inr b" using demo_written by blast
  obtain body where "b = sealed body" using WritePart_layout [OF b] by blast
  then have "0 < length b" by (simp add: sealed_def)
  moreover have "b ! 0 + 1 \<noteq> b ! 0" by simp
  ultimately show ?thesis using damaged_byte_refused [OF b] b by blast
qed

theorem forged_part_panics_witness:
  "\<exists>p. OpenPart 1 listLib forged_part = Inr p \<and> PartSeries listLib plain_dec p [] 0 0 = Inl PartPanic"
  by (rule forged_part_panics) simp

end
