(* ===== verification/ColdAccum.thy ===== *)
theory ColdAccum
  imports FragmentBlock ColdPartFormat
begin

text \<open>
  The accumulator of the edge processor (\<^verbatim>\<open>processor/asapedgeprocessor/cold_intchunk_accum.go\<close>) and the encoding of its series as a cold part
  (\<^verbatim>\<open>cold_intchunk_shipper.go\<close>): fragments of many flushes are decoded and merged by label set until a block is sealed.

  \<open>caByKey\<close> lists the map of series in the order in which they were first seen, which the code keeps in \<^verbatim>\<open>order\<close>.
\<close>

section \<open>The accumulator\<close>

record 'l coldSeriesAcc =
  csLbls :: 'l
  csSamples :: "sample list"

record 'l coldPartAccumulator =
  caExternal :: goattrs
  caByKey :: "(gostr \<times> 'l coldSeriesAcc) list"
  caBlockStart :: i64
  caBlockEnd :: i64
  caHaveBounds :: bool
  caSamples :: nat

definition newColdPartAccumulator :: "goattrs \<Rightarrow> 'l coldPartAccumulator" where
  "newColdPartAccumulator external = \<lparr>caExternal = external, caByKey = [], caBlockStart = 0, caBlockEnd = 0, caHaveBounds = False, caSamples = 0\<rparr>"

definition acc_empty :: "'l coldPartAccumulator \<Rightarrow> bool" where
  "acc_empty a \<longleftrightarrow> caSamples a = 0"

definition spanMs :: "'l coldPartAccumulator \<Rightarrow> i64" where
  "spanMs a = (if \<not> caHaveBounds a then 0 else caBlockEnd a - caBlockStart a)"

text \<open>A decoded sample as \<^verbatim>\<open>coldpart.Sample\<close>.\<close>

definition coldSample :: "int \<times> u64 \<Rightarrow> sample" where
  "coldSample tv = \<lparr>sT = word_of_int (fst tv), sV = snd tv\<rparr>"

definition extendBounds :: "sample \<Rightarrow> 'l coldPartAccumulator \<Rightarrow> 'l coldPartAccumulator" where
  "extendBounds sm a =
     (if \<not> caHaveBounds a then a\<lparr>caBlockStart := sT sm, caBlockEnd := sT sm, caHaveBounds := True\<rparr>
      else let a = (if sint (sT sm) < sint (caBlockStart a) then a\<lparr>caBlockStart := sT sm\<rparr> else a)
           in if sint (caBlockEnd a) < sint (sT sm) then a\<lparr>caBlockEnd := sT sm\<rparr> else a)"

text \<open>What \<^verbatim>\<open>add\<close> has merged before an error stays in the accumulator.\<close>

fun acc_add :: "('c, 'l) fragLib \<Rightarrow> Fragment list \<Rightarrow> 'l coldPartAccumulator \<Rightarrow> decode_error option \<times> 'l coldPartAccumulator" where
  "acc_add lib [] a = (None, a)"
| "acc_add lib (f # frags) a =
     (case DecodeFragmentSamples lib f of Inl e \<Rightarrow> (Some e, a)
      | Inr xs \<Rightarrow>
          if xs = [] then acc_add lib frags a
          else let samples = map coldSample xs;
                   ls = FragmentLabels lib (fMetricName f) (fAttributes f) (caExternal a);
                   key = lString lib ls;
                   sa = (case map_of (caByKey a) key of None \<Rightarrow> \<lparr>csLbls = ls, csSamples = []\<rparr> | Some sa \<Rightarrow> sa);
                   sa = sa\<lparr>csSamples := csSamples sa @ samples\<rparr>
               in acc_add lib frags (fold extendBounds samples
                    (a\<lparr>caByKey := AList.update key sa (caByKey a), caSamples := caSamples a + length samples\<rparr>)))"

fun dedupLoop :: "sample list \<Rightarrow> sample list \<Rightarrow> sample list" where
  "dedupLoop out [] = out"
| "dedupLoop out (sm # rest) = (if sT sm = sT (last out) then dedupLoop (butlast out @ [sm]) rest else dedupLoop (out @ [sm]) rest)"

definition dedupSamples :: "sample list \<Rightarrow> sample list" where
  "dedupSamples xs = (if length xs < 2 then xs else dedupLoop [hd xs] (tl xs))"

definition acc_reset :: "'l coldPartAccumulator \<Rightarrow> 'l coldPartAccumulator" where
  "acc_reset a = a\<lparr>caByKey := [], caBlockStart := 0, caBlockEnd := 0, caHaveBounds := False, caSamples := 0\<rparr>"

definition sealSeries :: "'l coldSeriesAcc \<Rightarrow> 'l Series list" where
  "sealSeries sa = (let ss = dedupSamples (sort_key (\<lambda>s. sint (sT s)) (csSamples sa)) in if ss = [] then [] else [\<lparr>seLabels = csLbls sa, seSamples = ss\<rparr>])"

definition seal :: "'l coldPartAccumulator \<Rightarrow> ('l Series list \<times> i64 \<times> i64) \<times> 'l coldPartAccumulator" where
  "seal a = (if \<not> caHaveBounds a then (([], 0, 0), acc_reset a)
     else ((concat (map (sealSeries \<circ> snd) (caByKey a)), caBlockStart a, caBlockEnd a), acc_reset a))"

definition fragmentsToSeries :: "('c, 'l) fragLib \<Rightarrow> Fragment list \<Rightarrow> goattrs \<Rightarrow> decode_error + 'l Series list \<times> i64 \<times> i64" where
  "fragmentsToSeries lib frags external = (case acc_add lib frags (newColdPartAccumulator external) of (Some e, _) \<Rightarrow> Inl e | (None, a) \<Rightarrow> Inr (fst (seal a)))"

definition encodePart :: "(f64 \<Rightarrow> i64) \<Rightarrow> xor_encoder \<Rightarrow> ('c, 'l) fragLib \<Rightarrow> i64 \<Rightarrow> i64 \<Rightarrow> 'l Series list \<Rightarrow> part_error + u8 list" where
  "encodePart oob xor_enc lib blockStart blockEnd series = WritePart oob xor_enc (flProm lib) blockStart blockEnd series"

datatype build_error = BuildDecode decode_error | BuildWrite part_error

definition buildPart :: "(f64 \<Rightarrow> i64) \<Rightarrow> xor_encoder \<Rightarrow> ('c, 'l) fragLib \<Rightarrow> goattrs \<Rightarrow> Fragment list \<Rightarrow> build_error + u8 list option" where
  "buildPart oob xor_enc lib external frags =
     (case fragmentsToSeries lib frags external of Inl e \<Rightarrow> Inl (BuildDecode e)
      | Inr (series, blockStart, blockEnd) \<Rightarrow>
          if series = [] then Inr None
          else case encodePart oob xor_enc lib blockStart blockEnd series of Inl e \<Rightarrow> Inl (BuildWrite e) | Inr b \<Rightarrow> Inr (Some b))"

section \<open>The latest value of every time\<close>

text \<open>The samples of a run, given in the order of arrival, as a block keeps them: each time once, ascending, with the value that arrived last.\<close>

definition latest :: "sample list \<Rightarrow> sample list" where
  "latest xs = map (\<lambda>t. \<lparr>sT = t, sV = the (map_of (rev (map (\<lambda>s. (sT s, sV s)) xs)) t)\<rparr>) (sort_key sint (remdups (map sT xs)))"

lemma map_of_last:
  "map_of (rev (map (\<lambda>s. (sT s, sV s)) xs)) t =
     (if filter (\<lambda>s. sT s = t) xs = [] then None else Some (sV (last (filter (\<lambda>s. sT s = t) xs))))"
  by (induction xs rule: rev_induct) auto

lemma sint_same: "sint a = sint b \<longleftrightarrow> a = (b :: i64)"
  by (metis signed_word_eqI)

lemma map_of_stable: "map_of (rev (map (\<lambda>s. (sT s, sV s)) (sort_key (\<lambda>s. sint (sT s)) xs))) = map_of (rev (map (\<lambda>s. (sT s, sV s)) xs))"
proof
  fix t :: i64
  have "filter (\<lambda>s. sint (sT s) = sint t) (sort_key (\<lambda>s. sint (sT s)) xs) = filter (\<lambda>s. sint (sT s) = sint t) xs"
    by (rule sort_key_stable)
  then show "map_of (rev (map (\<lambda>s. (sT s, sV s)) (sort_key (\<lambda>s. sint (sT s)) xs))) t = map_of (rev (map (\<lambda>s. (sT s, sV s)) xs)) t"
    by (simp add: map_of_last sint_same)
qed

lemma dedupLoop_spec:
  "out \<noteq> [] \<Longrightarrow> sorted_wrt (<) (map (\<lambda>s. sint (sT s)) out) \<Longrightarrow> sorted (map (\<lambda>s. sint (sT s)) (last out # xs)) \<Longrightarrow>
   sorted_wrt (<) (map (\<lambda>s. sint (sT s)) (dedupLoop out xs)) \<and>
   map_of (rev (map (\<lambda>s. (sT s, sV s)) (dedupLoop out xs))) = map_of (rev (map (\<lambda>s. (sT s, sV s)) (out @ xs)))"
proof (induction out xs rule: dedupLoop.induct)
  case (2 out sm rest)
  obtain pre x where out: "out = pre @ [x]" using 2(3) by (cases out rule: rev_cases) auto
  show ?case
  proof (cases "sT sm = sT x")
    case True
    then show ?thesis using 2(1,4,5) by (auto simp: out sorted_wrt_append)
  next
    case False
    then have "sint (sT x) < sint (sT sm)" using 2(5) by (auto simp: out order_less_le sint_same)
    then have "sorted_wrt (<) (map (\<lambda>s. sint (sT s)) (out @ [sm]))" using 2(4) by (auto simp: out sorted_wrt_append)
    then show ?thesis using 2(2,5) False by (auto simp: out)
  qed
qed simp

lemma dedupSamples_spec:
  assumes "sorted (map (\<lambda>s. sint (sT s)) xs)"
  shows "sorted_wrt (<) (map (\<lambda>s. sint (sT s)) (dedupSamples xs))"
    "map_of (rev (map (\<lambda>s. (sT s, sV s)) (dedupSamples xs))) = map_of (rev (map (\<lambda>s. (sT s, sV s)) xs))"
proof -
  have "sorted_wrt (<) (map (\<lambda>s. sint (sT s)) (dedupSamples xs)) \<and>
    map_of (rev (map (\<lambda>s. (sT s, sV s)) (dedupSamples xs))) = map_of (rev (map (\<lambda>s. (sT s, sV s)) xs))"
  proof (cases "length xs < 2")
    case True
    then show ?thesis by (cases xs) (auto simp: dedupSamples_def)
  next
    case False
    then obtain x ys where "xs = x # ys" by (cases xs) auto
    then show ?thesis using dedupLoop_spec [of "[x]" ys] assms False by (simp add: dedupSamples_def)
  qed
  then show "sorted_wrt (<) (map (\<lambda>s. sint (sT s)) (dedupSamples xs))"
    "map_of (rev (map (\<lambda>s. (sT s, sV s)) (dedupSamples xs))) = map_of (rev (map (\<lambda>s. (sT s, sV s)) xs))" by blast+
qed

lemma ascending_unique:
  assumes "sorted_wrt (<) (map sint ts)" "set ts = set us"
  shows "ts = sort_key sint (remdups (us :: i64 list))"
proof -
  have "distinct (map sint ts)" "sorted (map sint ts)" using assms(1) by (simp_all add: strict_sorted_iff)
  moreover have "distinct (map sint (sort_key sint (remdups us)))" by (simp add: distinct_map inj_on_def sint_same)
  ultimately have "map sint ts = map sint (sort_key sint (remdups us))"
    using assms(2) by (intro sorted_distinct_set_unique) simp_all
  then show ?thesis by (rule map_injective) (simp add: inj_on_def sint_same)
qed

text \<open>Sorting stably and removing duplicates gives the latest values.\<close>

lemma dedup_latest: "dedupSamples (sort_key (\<lambda>s. sint (sT s)) xs) = latest xs"
proof -
  define ys where "ys = dedupSamples (sort_key (\<lambda>s. sint (sT s)) xs)"
  define m where "m = map_of (rev (map (\<lambda>s. (sT s, sV s)) xs))"
  have "sorted (map (\<lambda>s. sint (sT s)) (sort_key (\<lambda>s. sint (sT s)) xs))" by simp
  note d = dedupSamples_spec [OF this]
  have s: "sorted_wrt (<) (map sint (map sT ys))" using d(1) by (simp add: ys_def comp_def)
  have my: "map_of (rev (map (\<lambda>s. (sT s, sV s)) ys)) = m" using d(2) map_of_stable by (simp add: ys_def m_def)
  have dom: "dom m = sT ` set xs" unfolding m_def by (simp add: dom_map_of_conv_image_fst image_image)
  have "dom m = sT ` set ys" unfolding my [symmetric] by (simp add: dom_map_of_conv_image_fst image_image)
  then have t: "map sT ys = sort_key sint (remdups (map sT xs))" using ascending_unique [OF s, of "map sT xs"] dom by simp
  have dist: "distinct (map sT ys)" using s distinct_map [of sint "map sT ys"] by (simp add: strict_sorted_iff)
  have "m (sT y) = Some (sV y)" if "y \<in> set ys" for y
  proof -
    have "distinct (map fst (rev (map (\<lambda>s. (sT s, sV s)) ys)))" using dist by (simp add: rev_map [symmetric] comp_def)
    then show ?thesis unfolding my [symmetric] using that by (auto intro: map_of_is_SomeI)
  qed
  then have "ys = map (\<lambda>t. \<lparr>sT = t, sV = the (m t)\<rparr>) (map sT ys)" by (auto simp: comp_def intro!: map_idI [symmetric])
  then show ?thesis unfolding t by (simp add: ys_def latest_def m_def)
qed

lemma latest_nil [simp]: "latest xs = [] \<longleftrightarrow> xs = []"
proof -
  have "length (latest xs) = card (sT ` set xs)" by (simp add: latest_def length_remdups_card_conv)
  then show ?thesis by (metis card_eq_0_iff image_is_empty length_0_conv list.set_finite finite_imageI set_empty)
qed

section \<open>What the accumulator holds\<close>

definition decodedSamples :: "('c, 'l) fragLib \<Rightarrow> Fragment \<Rightarrow> sample list" where
  "decodedSamples lib f = (case DecodeFragmentSamples lib f of Inl e \<Rightarrow> [] | Inr xs \<Rightarrow> map coldSample xs)"

text \<open>The samples of a list of fragments that carry a label set, in the order of arrival.\<close>

definition arrived :: "('c, 'l) fragLib \<Rightarrow> goattrs \<Rightarrow> Fragment list \<Rightarrow> 'l \<Rightarrow> sample list" where
  "arrived lib ext frags l = concat (map (decodedSamples lib) (filter (\<lambda>f. frag_labels lib ext f = l) frags))"

definition heldAs :: "'l \<Rightarrow> sample list \<Rightarrow> 'l coldSeriesAcc option" where
  "heldAs l xs = (if xs = [] then None else Some \<lparr>csLbls = l, csSamples = xs\<rparr>)"

text \<open>The smallest interval around the times of some samples.\<close>

definition tight_span :: "i64 \<Rightarrow> i64 \<Rightarrow> sample set \<Rightarrow> bool" where
  "tight_span t t' S \<longleftrightarrow> t \<in> sT ` S \<and> t' \<in> sT ` S \<and> (\<forall>s \<in> S. sint t \<le> sint (sT s) \<and> sint (sT s) \<le> sint t')"

definition accumulates :: "('c, 'l) fragLib \<Rightarrow> goattrs \<Rightarrow> Fragment list \<Rightarrow> 'l coldPartAccumulator \<Rightarrow> bool" where
  "accumulates lib ext frags a \<longleftrightarrow>
     caExternal a = ext \<and> distinct (map fst (caByKey a)) \<and> (\<forall>(k, sa) \<in> set (caByKey a). k = lString lib (csLbls sa)) \<and>
     (\<forall>l. map_of (caByKey a) (lString lib l) = heldAs l (arrived lib ext frags l)) \<and>
     (let S = concat (map (decodedSamples lib) frags)
      in caSamples a = length S \<and> (if caHaveBounds a then tight_span (caBlockStart a) (caBlockEnd a) (set S) else S = [] \<and> caByKey a = []))"

lemma extendBounds_spans:
  assumes "if caHaveBounds a then tight_span (caBlockStart a) (caBlockEnd a) S else S = {}"
  shows "caHaveBounds (extendBounds sm a) \<and> tight_span (caBlockStart (extendBounds sm a)) (caBlockEnd (extendBounds sm a)) (insert sm S)"
  using assms by (fastforce simp: extendBounds_def tight_span_def Let_def)

lemma foldBounds_spans:
  assumes "if caHaveBounds a then tight_span (caBlockStart a) (caBlockEnd a) S else S = {}" "xs \<noteq> []"
  shows "caHaveBounds (fold extendBounds xs a) \<and> tight_span (caBlockStart (fold extendBounds xs a)) (caBlockEnd (fold extendBounds xs a)) (S \<union> set xs)"
  using assms
proof (induction xs arbitrary: a S)
  case (Cons x xs)
  have x: "caHaveBounds (extendBounds x a) \<and> tight_span (caBlockStart (extendBounds x a)) (caBlockEnd (extendBounds x a)) (insert x S)"
    using Cons.prems(1) by (rule extendBounds_spans)
  show ?case
  proof (cases "xs = []")
    case True
    then show ?thesis using x by simp
  next
    case False
    then show ?thesis using Cons.IH [of "extendBounds x a" "insert x S"] x by simp
  qed
qed simp

lemma foldBounds_keeps [simp]:
  "caExternal (fold extendBounds xs a) = caExternal a" "caByKey (fold extendBounds xs a) = caByKey a" "caSamples (fold extendBounds xs a) = caSamples a"
  by (induction xs arbitrary: a) (simp_all add: extendBounds_def Let_def)

lemma accumulates_new: "accumulates lib ext [] (newColdPartAccumulator ext)"
  by (simp add: accumulates_def newColdPartAccumulator_def heldAs_def arrived_def)

lemma accumulates_step:
  assumes inj: "inj (lString lib)" and a: "accumulates lib ext frags a" and ok: "acc_add lib [f] a = (None, a')"
  shows "accumulates lib ext (frags @ [f]) a'"
proof -
  let ?S = "concat (map (decodedSamples lib) frags)" let ?l = "frag_labels lib ext f"
  obtain xs where xs: "DecodeFragmentSamples lib f = Inr xs" using ok by (auto split: sum.splits)
  have ext: "caExternal a = ext" using a by (simp add: accumulates_def)
  have m: "arrived lib ext (frags @ [f]) l = arrived lib ext frags l @ (if ?l = l then decodedSamples lib f else [])" for l by (simp add: arrived_def)
  show ?thesis
  proof (cases "xs = []")
    case True
    then have "decodedSamples lib f = []" using xs by (simp add: decodedSamples_def)
    moreover have "a' = a" using ok xs True by simp
    ultimately show ?thesis using a by (simp add: accumulates_def m)
  next
    case False
    define new where "new = map coldSample xs"
    have d: "decodedSamples lib f = new" "new \<noteq> []" using xs False by (simp_all add: decodedSamples_def new_def)
    define sa where "sa = \<lparr>csLbls = ?l, csSamples = arrived lib ext frags ?l @ new\<rparr>"
    have old: "map_of (caByKey a) (lString lib ?l) = heldAs ?l (arrived lib ext frags ?l)" using a by (simp add: accumulates_def)
    have upd: "(case map_of (caByKey a) (lString lib ?l) of None \<Rightarrow> \<lparr>csLbls = ?l, csSamples = []\<rparr> | Some sa \<Rightarrow> sa)\<lparr>csSamples :=
        csSamples (case map_of (caByKey a) (lString lib ?l) of None \<Rightarrow> \<lparr>csLbls = ?l, csSamples = []\<rparr> | Some sa \<Rightarrow> sa) @ new\<rparr> = sa"
      unfolding old by (simp add: heldAs_def sa_def)
    define b where "b = a\<lparr>caByKey := AList.update (lString lib ?l) sa (caByKey a), caSamples := caSamples a + length new\<rparr>"
    have a': "a' = fold extendBounds new b"
      using ok False ext upd unfolding acc_add.simps xs frag_labels_def new_def b_def by (simp add: Let_def)
    have bounds: "if caHaveBounds b then tight_span (caBlockStart b) (caBlockEnd b) (set ?S) else set ?S = {}"
      using a by (auto simp: b_def accumulates_def Let_def split: if_splits)
    have keys: "map_of (caByKey a') (lString lib l) = heldAs l (arrived lib ext (frags @ [f]) l)" for l
    proof (cases "?l = l")
      case True
      then show ?thesis using d by (simp add: a' b_def update_conv heldAs_def m sa_def)
    next
      case False
      then have "lString lib l \<noteq> lString lib ?l" using inj by (auto simp: inj_def)
      then show ?thesis using a False by (simp add: a' b_def update_conv accumulates_def m)
    qed
    have dist: "distinct (map fst (caByKey a'))" using a by (simp add: a' b_def distinct_update accumulates_def)
    have "k = lString lib (csLbls s)" if "(k, s) \<in> set (caByKey a')" for k s
    proof (cases "k = lString lib ?l")
      case False
      have "map_of (caByKey a') k = Some s" using that dist by (simp add: map_of_is_SomeI)
      then have "(k, s) \<in> set (caByKey a)" using False by (simp add: a' b_def update_conv map_of_SomeD)
      then show ?thesis using a by (auto simp: accumulates_def)
    next
      case True
      have "map_of (caByKey a') k = Some s" using that dist by (simp add: map_of_is_SomeI)
      then show ?thesis using True by (auto simp: a' b_def update_conv sa_def)
    qed
    then have "\<forall>(k, s) \<in> set (caByKey a'). k = lString lib (csLbls s)" by blast
    then show ?thesis using a keys foldBounds_spans [OF bounds d(2)] d unfolding accumulates_def
      by (simp add: a' b_def distinct_update Let_def)
  qed
qed

lemma acc_add_cons:
  "acc_add lib (f # frags) a = (case acc_add lib [f] a of (Some e, b) \<Rightarrow> (Some e, b) | (None, b) \<Rightarrow> acc_add lib frags b)"
  by (simp add: Let_def split: sum.splits)

lemma accumulates_add:
  assumes "inj (lString lib)" "accumulates lib ext frags a" "acc_add lib new a = (None, a')"
  shows "accumulates lib ext (frags @ new) a'"
  using assms(2,3)
proof (induction new arbitrary: frags a)
  case (Cons f new)
  obtain b where b: "acc_add lib [f] a = (None, b)" "acc_add lib new b = (None, a')"
    using Cons.prems(2) unfolding acc_add_cons [of lib f new] by (auto split: prod.splits option.splits)
  show ?case using Cons.IH [OF accumulates_step [OF assms(1) Cons.prems(1) b(1)] b(2)] by simp
qed simp

section \<open>Sealing\<close>

lemma acc_series:
  assumes "accumulates lib ext frags a" "(k, sa) \<in> set (caByKey a)"
  shows "k = lString lib (csLbls sa)" "csSamples sa = arrived lib ext frags (csLbls sa)" "csSamples sa \<noteq> []"
proof -
  show k: "k = lString lib (csLbls sa)" using assms by (auto simp: accumulates_def)
  have "map_of (caByKey a) k = Some sa" using assms by (simp add: accumulates_def map_of_is_SomeI)
  then have "heldAs (csLbls sa) (arrived lib ext frags (csLbls sa)) = Some sa" using assms(1) k by (simp add: accumulates_def)
  then show "csSamples sa = arrived lib ext frags (csLbls sa)" "csSamples sa \<noteq> []" by (cases sa; auto simp: heldAs_def split: if_splits)+
qed

lemma seal_accumulates:
  assumes a: "accumulates lib ext frags a" and s: "seal a = ((series, t, t'), a')"
  shows "distinct (map seLabels series)"
    "\<lparr>seLabels = l, seSamples = samples\<rparr> \<in> set series \<longleftrightarrow> arrived lib ext frags l \<noteq> [] \<and> samples = latest (arrived lib ext frags l)"
    "series \<noteq> [] \<Longrightarrow> tight_span t t' (set (concat (map (decodedSamples lib) frags)))" "a' = newColdPartAccumulator ext"
proof -
  have one: "sealSeries sa = [\<lparr>seLabels = csLbls sa, seSamples = latest (csSamples sa)\<rparr>]" if "(k, sa) \<in> set (caByKey a)" for k sa
    using acc_series(3) [OF a that] by (simp add: sealSeries_def dedup_latest)
  have series: "series = map (\<lambda>(k, sa). \<lparr>seLabels = csLbls sa, seSamples = latest (csSamples sa)\<rparr>) (caByKey a)"
  proof (cases "caHaveBounds a")
    case True
    have "concat (map (sealSeries \<circ> snd) xs) = map (\<lambda>(k, sa). \<lparr>seLabels = csLbls sa, seSamples = latest (csSamples sa)\<rparr>) xs"
      if "set xs \<subseteq> set (caByKey a)" for xs using that one by (induction xs) auto
    then show ?thesis using s True by (simp add: seal_def)
  next
    case False
    then show ?thesis using s a by (simp add: seal_def accumulates_def Let_def)
  qed
  have "map fst (caByKey a) = map (lString lib) (map seLabels series)" using acc_series(1) [OF a] by (auto simp: series)
  moreover have "distinct (map fst (caByKey a))" using a by (simp add: accumulates_def)
  ultimately show "distinct (map seLabels series)" by (metis distinct_map)
  show "\<lparr>seLabels = l, seSamples = samples\<rparr> \<in> set series \<longleftrightarrow> arrived lib ext frags l \<noteq> [] \<and> samples = latest (arrived lib ext frags l)"
  proof
    assume "\<lparr>seLabels = l, seSamples = samples\<rparr> \<in> set series"
    then obtain k sa where "(k, sa) \<in> set (caByKey a)" "l = csLbls sa" "samples = latest (csSamples sa)" by (auto simp: series)
    then show "arrived lib ext frags l \<noteq> [] \<and> samples = latest (arrived lib ext frags l)" using acc_series(2,3) [OF a] by metis
  next
    assume r: "arrived lib ext frags l \<noteq> [] \<and> samples = latest (arrived lib ext frags l)"
    then have "map_of (caByKey a) (lString lib l) = Some \<lparr>csLbls = l, csSamples = arrived lib ext frags l\<rparr>" using a by (simp add: accumulates_def heldAs_def)
    from map_of_SomeD [OF this] show "\<lparr>seLabels = l, seSamples = samples\<rparr> \<in> set series" using r by (force simp: series)
  qed
  show "tight_span t t' (set (concat (map (decodedSamples lib) frags)))" if "series \<noteq> []"
    using that a s by (auto simp: series seal_def accumulates_def Let_def split: if_splits)
  have "caExternal a = ext" using a by (simp add: accumulates_def)
  then show "a' = newColdPartAccumulator ext" using s by (auto simp: seal_def acc_reset_def newColdPartAccumulator_def split: if_splits)
qed

text \<open>
  Property C19. Sealing a block gives exactly what the fragments carried: when every fragment given to the accumulator decoded, \<^verbatim>\<open>seal\<close> returns one series for each
  label set that has samples, whose samples are those of all its fragments with each time once, ascending, at the value that arrived last; the
  block's bounds are the smallest and the largest time, and the accumulator is as new. So sorting and removing duplicates in place agree with
  this reference.
\<close>

theorem sealed_latest:
  assumes "inj (lString lib)" "acc_add lib frags (newColdPartAccumulator ext) = (None, a)" "seal a = ((series, t, t'), a')"
  shows "distinct (map seLabels series) \<and>
    (\<forall>l samples. \<lparr>seLabels = l, seSamples = samples\<rparr> \<in> set series \<longleftrightarrow> arrived lib ext frags l \<noteq> [] \<and> samples = latest (arrived lib ext frags l)) \<and>
    (series \<noteq> [] \<longrightarrow> tight_span t t' (set (concat (map (decodedSamples lib) frags)))) \<and> a' = newColdPartAccumulator ext"
proof -
  have "accumulates lib ext frags a" using accumulates_add [OF assms(1) accumulates_new assms(2)] by simp
  from seal_accumulates [OF this assms(3)] show ?thesis by blast
qed

section \<open>The archived block\<close>

lemma Encode_total:
  assumes "xs \<noteq> []" "length xs < 2 ^ 16" "xor_enc xs = Some bs"
  shows "\<exists>res. Encode oob xor_enc xs = Inr res"
proof -
  have "encodeGorillaChunk xor_enc xs \<noteq> None" using assms by (simp add: encodeGorillaChunk_def xorChunkMaxSamples_def Let_def)
  then have "candidates oob xor_enc xs \<noteq> []" by (auto simp: candidates_def split: option.splits)
  then show ?thesis using assms(1) by (auto simp: Encode_def split: list.splits)
qed

lemma internSeries_total: "\<forall>s \<in> set series. seSamples s \<noteq> [] \<Longrightarrow> \<exists>t'. internSeries lib i series t = Inr t'"
  by (induction series arbitrary: i t) auto

lemma encodeEntries_total:
  "\<forall>s \<in> set series. \<exists>res. Encode oob xor_enc (seSamples s) = Inr res \<Longrightarrow> \<exists>es r. encodeEntries oob xor_enc lib t i series region = Inr (es, r)"
proof (induction series arbitrary: i region)
  case (Cons s series)
  then obtain res where "Encode oob xor_enc (seSamples s) = Inr res" by auto
  then show ?case using Cons.IH [of "i + 1" "region @ concat (erChunks res)"] Cons.prems by (auto simp: Let_def)
qed simp

lemma WritePart_total:
  assumes "sint t \<le> sint t'" "\<forall>s \<in> set series. seSamples s \<noteq> [] \<and> (\<exists>res. Encode oob xor_enc (seSamples s) = Inr res)"
  shows "\<exists>b. WritePart oob xor_enc lib t t' series = Inr b"
proof -
  let ?ss = "by_labels lib series"
  have all: "\<forall>s \<in> set ?ss. seSamples s \<noteq> []" "\<forall>s \<in> set ?ss. \<exists>res. Encode oob xor_enc (seSamples s) = Inr res" using assms(2) by auto
  obtain symtab where "internSeries lib 0 ?ss newSymbolTable = Inr symtab" using internSeries_total [OF all(1)] by blast
  moreover obtain es r where "encodeEntries oob xor_enc lib symtab 0 ?ss [] = Inr (es, r)" using encodeEntries_total [OF all(2)] by blast
  ultimately show ?thesis using assms(1) by (simp add: WritePart_def Let_def)
qed

lemma WritePart_series: "WritePart oob xor_enc lib t t' series = Inr b \<Longrightarrow> length series \<le> length b"
proof (erule WritePart_layout)
  fix symtab entries region
  let ?c = "word_of_nat (length (headerBytes t t' (length series))) :: u64"
  assume ee: "encodeEntries oob xor_enc lib symtab 0 (by_labels lib series) [] = Inr (entries, region)"
    and b: "b = sealed (partBody t t' (length series) region (concat (map (entryBytes ?c) entries)) (symtabBytes (stSyms symtab)))"
  obtain ps where "map fst ps = by_labels lib series" "entries = entries_of lib symtab 0 ps" using encodeEntries_spec [OF ee] by auto
  then have "length entries = length series" by (metis length_entries length_map length_sort_Slice)
  then show ?thesis using length_index [of entries ?c] by (simp add: b sealed_def partBody_def Let_def)
qed

lemma latest_length: "length (latest xs) \<le> length xs"
  unfolding latest_def by simp (metis length_map length_remdups_leq)

text \<open>
  What a query to the archive of a list of fragments returns: one entry for each label set with samples that the query selects, with the latest values of these samples.
\<close>

definition archived :: "('c, 'l) fragLib \<Rightarrow> goattrs \<Rightarrow> Fragment list \<Rightarrow> matcher list \<Rightarrow> i64 \<Rightarrow> i64 \<Rightarrow> ('l \<times> sample list) list \<Rightarrow> bool" where
  "archived lib ext frags matchers lo hi out \<longleftrightarrow>
     distinct (map fst out) \<and>
     (\<forall>l. l \<in> fst ` set out \<longleftrightarrow>
        arrived lib ext frags l \<noteq> [] \<and> selected (flProm lib) matchers lo hi \<lparr>seLabels = l, seSamples = latest (arrived lib ext frags l)\<rparr>) \<and>
     (\<forall>(l, samples) \<in> set out. list_all2 same_sample (latest (arrived lib ext frags l)) samples)"

text \<open>The encoder and decoder of XOR chunks (Prometheus), as far as the archive relies on them.\<close>

definition xor_codec :: "xor_encoder \<Rightarrow> xor_decoder \<Rightarrow> bool" where
  "xor_codec xor_enc xor_dec \<longleftrightarrow> (\<forall>samples. length samples < 2 ^ 16 \<longrightarrow>
     (samples \<noteq> [] \<longrightarrow> xor_enc samples \<noteq> None) \<and> (\<forall>bs. xor_enc samples = Some bs \<longrightarrow> xor_dec bs = Some (Inr samples)))"

definition opens_as :: "nat \<Rightarrow> xor_decoder \<Rightarrow> ('c, 'l) fragLib \<Rightarrow> goattrs \<Rightarrow> Fragment list \<Rightarrow> u8 list \<Rightarrow> bool" where
  "opens_as maxSeries xor_dec lib ext frags b \<longleftrightarrow>
     (\<exists>p. OpenPart maxSeries (flProm lib) b = Inr p \<and>
       (\<forall>matchers lo hi. \<exists>out. PartSeries (flProm lib) xor_dec p matchers lo hi = Inr out \<and> archived lib ext frags matchers lo hi out))"

lemma answers_archived:
  assumes a: "accumulates lib ext frags a" and s: "seal a = ((series, t, t'), a')" and o: "answers (filter (selected (flProm lib) matchers lo hi) (by_labels (flProm lib) series)) out"
  shows "archived lib ext frags matchers lo hi out"
proof -
  let ?sel = "filter (selected (flProm lib) matchers lo hi) (by_labels (flProm lib) series)"
  note se = seal_accumulates [OF a s]
  have rel: "list_all2 (\<lambda>s (l, samples). l = seLabels s \<and> list_all2 same_sample (seSamples s) samples) ?sel out" using o by (simp add: answers_def)
  then have fst: "map fst out = map seLabels ?sel" by (induction rule: list_all2_induct) auto
  have "distinct (map seLabels (by_labels (flProm lib) series))"
    using se(1) mset_eq_imp_distinct_iff [of "map seLabels (by_labels (flProm lib) series)" "map seLabels series"] by simp
  then have dist: "distinct (map fst out)" unfolding fst by (rule distinct_map_filter)
  have in_series: "\<lparr>seLabels = l, seSamples = samples\<rparr> \<in> set series \<longleftrightarrow> arrived lib ext frags l \<noteq> [] \<and> samples = latest (arrived lib ext frags l)" for l samples
    by (rule se(2))
  have ser: "s = \<lparr>seLabels = seLabels s, seSamples = seSamples s\<rparr>" for s :: "'b Series" by simp
  have lab: "l \<in> fst ` set out \<longleftrightarrow>
      arrived lib ext frags l \<noteq> [] \<and> selected (flProm lib) matchers lo hi \<lparr>seLabels = l, seSamples = latest (arrived lib ext frags l)\<rparr>" for l
  proof -
    have "l \<in> fst ` set out \<longleftrightarrow> l \<in> seLabels ` set ?sel" using fst by (metis list.set_map)
    also have "\<dots> \<longleftrightarrow> (\<exists>samples. \<lparr>seLabels = l, seSamples = samples\<rparr> \<in> set series \<and> selected (flProm lib) matchers lo hi \<lparr>seLabels = l, seSamples = samples\<rparr>)"
      by (auto simp: image_iff) (metis ser)
    finally show ?thesis using in_series by auto
  qed
  have "list_all2 same_sample (latest (arrived lib ext frags l)) samples" if m: "(l, samples) \<in> set out" for l samples
  proof -
    obtain i where i: "i < length out" "out ! i = (l, samples)" using m by (auto simp: in_set_conv_nth)
    then have len: "i < length ?sel" using list_all2_lengthD [OF rel] by simp
    have q: "l = seLabels (?sel ! i)" "list_all2 same_sample (seSamples (?sel ! i)) samples" using list_all2_nthD2 [OF rel i(1)] i(2) by auto
    have "?sel ! i \<in> set series" using nth_mem [OF len] by simp
    then have "seSamples (?sel ! i) = latest (arrived lib ext frags l)" using in_series [of l "seSamples (?sel ! i)"] ser [of "?sel ! i"] q(1) by simp
    then show ?thesis using q(2) by simp
  qed
  then show ?thesis using dist lab by (auto simp: archived_def)
qed

lemma block_archived:
  assumes laws: "label_laws (flProm lib)" "xor_codec xor_enc xor_dec" and a: "accumulates lib ext frags a" and s: "seal a = ((series, t, t'), a')"
    and n: "\<And>l. length (latest (arrived lib ext frags l)) < 2 ^ 16"
  shows "series \<noteq> [] \<Longrightarrow> \<exists>b. encodePart oob xor_enc lib t t' series = Inr b"
    "encodePart oob xor_enc lib t t' series = Inr b \<Longrightarrow> length b < 2 ^ 32 \<Longrightarrow> 2 ^ 32 \<le> maxSeries \<Longrightarrow> opens_as maxSeries xor_dec lib ext frags b"
proof -
  note se = seal_accumulates [OF a s]
  have each: "arrived lib ext frags (seLabels x) \<noteq> [] \<and> seSamples x = latest (arrived lib ext frags (seLabels x))" if "x \<in> set series" for x
    using se(2) [of "seLabels x" "seSamples x"] that by (cases x) simp
  have enc: "\<exists>res. Encode oob xor_enc (seSamples x) = Inr res" if "x \<in> set series" for x
  proof -
    have "seSamples x \<noteq> []" "length (seSamples x) < 2 ^ 16" using each [OF that] n by simp_all
    moreover from this obtain bs where "xor_enc (seSamples x) = Some bs" using laws(2) unfolding xor_codec_def by blast
    ultimately show ?thesis by (rule Encode_total)
  qed
  show "\<exists>b. encodePart oob xor_enc lib t t' series = Inr b" if "series \<noteq> []"
  proof -
    have "sint t \<le> sint t'" using se(3) [OF that] by (auto simp: tight_span_def)
    then show ?thesis unfolding encodePart_def using enc each by (intro WritePart_total) auto
  qed
  assume b: "encodePart oob xor_enc lib t t' series = Inr b" "length b < 2 ^ 32" "2 ^ 32 \<le> maxSeries"
  have "\<forall>x \<in> set series. (\<exists>sets. seLabels x = lBuild (flProm lib) sets) \<and> length (seSamples x) \<le> 2 ^ 44"
  proof
    fix x assume x: "x \<in> set series"
    obtain f where "frag_labels lib ext f = seLabels x" using each [OF x] unfolding arrived_def by (metis (mono_tags, lifting) concat.simps(1) filter_False list.map(1))
    then have "\<exists>sets. seLabels x = lBuild (flProm lib) sets" unfolding frag_labels_def FragmentLabels_def by metis
    moreover have "length (seSamples x) < 2 ^ 16" using each [OF x] n by simp
    ultimately show "(\<exists>sets. seLabels x = lBuild (flProm lib) sets) \<and> length (seSamples x) \<le> 2 ^ 44" by simp
  qed
  moreover have "\<forall>samples bs. length samples < 2 ^ 16 \<and> xor_enc samples = Some bs \<longrightarrow> xor_dec bs = Some (Inr samples)" using laws(2) unfolding xor_codec_def by blast
  moreover have "length series \<le> maxSeries" using WritePart_series [OF b(1) [unfolded encodePart_def]] b(2,3) by simp
  ultimately obtain p where "OpenPart maxSeries (flProm lib) b = Inr p"
    "\<forall>matchers lo hi. \<exists>out. PartSeries (flProm lib) xor_dec p matchers lo hi = Inr out \<and> answers (filter (selected (flProm lib) matchers lo hi) (by_labels (flProm lib) series)) out"
    using written_part_reads [OF laws(1) _ _ b(1) [unfolded encodePart_def] b(2), of xor_dec maxSeries] by blast
  then show "opens_as maxSeries xor_dec lib ext frags b" using answers_archived [OF a s] unfolding opens_as_def by meson
qed

section \<open>A demonstration\<close>

definition touching_pair :: "Fragment list" where "touching_pair = [block_fragment 20 30, block_fragment 10 20]"

lemma touching_sealed:
  "fst (acc_add listBlock touching_pair (newColdPartAccumulator [])) = None"
  "fst (seal (snd (acc_add listBlock touching_pair (newColdPartAccumulator [])))) =
     ([\<lparr>seLabels = [(bytes_of ''__name__'', bytes_of ''m'')], seSamples = [\<lparr>sT = 10, sV = 7\<rparr>, \<lparr>sT = 20, sV = 8\<rparr>, \<lparr>sT = 30, sV = 8\<rparr>]\<rparr>], 10, 30)"
  by code_simp+

theorem sealed_latest_witness:
  "\<exists>a series t t' a'. acc_add listBlock touching_pair (newColdPartAccumulator []) = (None, a) \<and> seal a = ((series, t, t'), a') \<and> length series = 1 \<and>
     (\<forall>l samples. \<lparr>seLabels = l, seSamples = samples\<rparr> \<in> set series \<longleftrightarrow>
        arrived listBlock [] touching_pair l \<noteq> [] \<and> samples = latest (arrived listBlock [] touching_pair l)) \<and>
     tight_span t t' (set (concat (map (decodedSamples listBlock) touching_pair)))"
proof -
  obtain a where a: "acc_add listBlock touching_pair (newColdPartAccumulator []) = (None, a)" using touching_sealed(1) by (metis prod.collapse)
  obtain series t t' a' where s: "seal a = ((series, t, t'), a')" by (cases "seal a") auto
  have one: "length series = 1" using touching_sealed(2) a s by simp
  have "inj (lString listBlock)" using listBlock_laws by (simp add: block_laws_def)
  from sealed_latest [OF this a s] show ?thesis using a s one by auto
qed

end
