(* ===== verification/ColdSpool.thy ===== *)
theory ColdSpool
  imports FragmentCodec "HOL-Library.Multiset"
begin

text \<open>
  The shippers and the ship worker of the edge processor (\<^verbatim>\<open>processor/asapedgeprocessor/cold_fragment_shipper.go\<close>, \<^verbatim>\<open>cold_spool.go\<close>): batches go from the flush
  goroutine through a bounded queue to a worker, which posts them, keeps those that fail in a bounded spool directory and posts these again later.

  The world outside is a record of functions over a state of any type, so that every sequence of answers is possible: the answer to a
  request, whether a context is done, the clock, and whether a file operation succeeds. The spool directory is the list of its files. \<open>swDelivered\<close> and
  \<open>swDropped\<close> record what was acknowledged and what was given up with a warning; the code does not keep them. Between the steps
  of the worker's goroutine the flush goroutine may enqueue, which the relation \<open>worker_run\<close> allows.
\<close>

section \<open>Posting\<close>

datatype post_answer = BadRequest | DoError | Status nat

record 'e world =
  wPost :: "u8 list \<Rightarrow> 'e \<Rightarrow> post_answer \<times> 'e"
  wDone :: "'e \<Rightarrow> bool \<times> 'e"
  wNow :: "'e \<Rightarrow> nat \<times> 'e"
  wOk :: "'e \<Rightarrow> bool \<times> 'e"

definition maxRetries :: nat where "maxRetries = 3"

text \<open>The attempts of \<^verbatim>\<open>shipEncoded\<close>: before all but the first the context is consulted.\<close>

fun attempts :: "'e world \<Rightarrow> u8 list \<Rightarrow> nat \<Rightarrow> bool \<Rightarrow> 'e \<Rightarrow> bool \<times> 'e" where
  "attempts W body 0 first e = (False, e)"
| "attempts W body (Suc n) first e =
     (case if first then (False, e) else wDone W e of (done, e) \<Rightarrow>
        if done then (False, e)
        else case wPost W body e of
               (BadRequest, e) \<Rightarrow> (False, e)
             | (DoError, e) \<Rightarrow> attempts W body n False e
             | (Status status, e) \<Rightarrow> if status = 200 then (True, e) else attempts W body n False e)"

definition shipEncoded :: "'e world \<Rightarrow> gostr \<Rightarrow> u8 list \<Rightarrow> 'e \<Rightarrow> bool \<times> 'e" where
  "shipEncoded W endpoint body e = (if endpoint = [] \<or> body = [] then (True, e) else attempts W body maxRetries True e)"

section \<open>The worker\<close>

record shipWorker =
  swEndpoint :: gostr
  swSpoolDir :: gostr
  swSpoolMaxBytes :: i64
  swQueueDepth :: nat
  swPid :: nat
  swIn :: "u8 list list"
  swSpool :: "(gostr \<times> u8 list) list"
  swStarted :: bool
  swDelivered :: "u8 list list"
  swDropped :: "u8 list list"

definition newShipWorker :: "gostr \<Rightarrow> gostr \<Rightarrow> i64 \<Rightarrow> nat \<Rightarrow> nat \<Rightarrow> (gostr \<times> u8 list) list \<Rightarrow> shipWorker" where
  "newShipWorker endpoint spoolDir spoolMaxBytes depth pid files =
     \<lparr>swEndpoint = endpoint, swSpoolDir = spoolDir, swSpoolMaxBytes = spoolMaxBytes, swQueueDepth = depth, swPid = pid, swIn = [],
      swSpool = files, swStarted = False, swDelivered = [], swDropped = []\<rparr>"

definition worker_start :: "'e world \<Rightarrow> shipWorker \<Rightarrow> 'e \<Rightarrow> shipWorker \<times> 'e" where
  "worker_start W w e =
     (if swStarted w then (w, e)
      else let w = w\<lparr>swStarted := True\<rparr>
           in if swSpoolDir w = [] then (w, e) else case wOk W e of (ok, e) \<Rightarrow> (if ok then w else w\<lparr>swSpoolDir := []\<rparr>, e))"

text \<open>The name of a spool file: the clock in twenty digits and the process id.\<close>

fun digits :: "nat \<Rightarrow> gostr" where
  "digits n = (if n < 10 then [48 + word_of_nat n] else digits (n div 10) @ [48 + word_of_nat (n mod 10)])"

declare digits.simps [simp del]

definition spoolName :: "nat \<Rightarrow> nat \<Rightarrow> gostr" where
  "spoolName nanos pid = replicate (20 - length (digits nanos)) 48 @ digits nanos @ bytes_of ''-'' @ digits pid @ bytes_of ''.asapfrg.gz''"

definition listSpoolLocked :: "'e world \<Rightarrow> shipWorker \<Rightarrow> 'e \<Rightarrow> ((gostr \<times> u8 list) list \<times> int) \<times> 'e" where
  "listSpoolLocked W w e = (case wOk W e of (ok, e) \<Rightarrow>
     (if ok then (sort_Slice (\<lambda>a b. fst a < fst b) (swSpool w), sum_list (map (int \<circ> length \<circ> snd) (swSpool w))) else ([], 0), e))"

fun evictLoop :: "'e world \<Rightarrow> (gostr \<times> u8 list) list \<Rightarrow> int \<Rightarrow> shipWorker \<Rightarrow> 'e \<Rightarrow> shipWorker \<times> 'e" where
  "evictLoop W [] nbytes w e = (w, e)"
| "evictLoop W (oldest # files) nbytes w e =
     (if nbytes \<le> sint (swSpoolMaxBytes w) then (w, e)
      else case wOk W e of (ok, e) \<Rightarrow>
             if \<not> ok then (w, e)
             else evictLoop W files (nbytes - int (length (snd oldest)))
                    (w\<lparr>swSpool := AList.delete (fst oldest) (swSpool w), swDropped := swDropped w @ [snd oldest]\<rparr>) e)"

definition enforceCapLocked :: "'e world \<Rightarrow> shipWorker \<Rightarrow> 'e \<Rightarrow> shipWorker \<times> 'e" where
  "enforceCapLocked W w e =
     (if sint (swSpoolMaxBytes w) \<le> 0 then (w, e)
      else case listSpoolLocked W w e of ((files, nbytes), e) \<Rightarrow> evictLoop W files nbytes w e)"

definition spool :: "'e world \<Rightarrow> u8 list \<Rightarrow> shipWorker \<Rightarrow> 'e \<Rightarrow> bool \<times> shipWorker \<times> 'e" where
  "spool W body w e =
     (if swSpoolDir w = [] then (False, w, e)
      else case wNow W e of (nanos, e) \<Rightarrow>
           case wOk W e of (written, e) \<Rightarrow>
             if \<not> written then (False, w, e)
             else case wOk W e of (renamed, e) \<Rightarrow>
               if \<not> renamed then (False, w, e)
               else (True, enforceCapLocked W (w\<lparr>swSpool := AList.update (spoolName nanos (swPid w)) body (swSpool w)\<rparr>) e))"

text \<open>A batch that cannot be kept is dropped with a warning.\<close>

definition spoolOrDrop :: "'e world \<Rightarrow> u8 list \<Rightarrow> shipWorker \<Rightarrow> 'e \<Rightarrow> shipWorker \<times> 'e" where
  "spoolOrDrop W body w e = (case spool W body w e of (ok, w, e) \<Rightarrow> (if ok then w else w\<lparr>swDropped := swDropped w @ [body]\<rparr>, e))"

definition enqueue :: "'e world \<Rightarrow> u8 list \<Rightarrow> shipWorker \<Rightarrow> 'e \<Rightarrow> shipWorker \<times> 'e" where
  "enqueue W body w e =
     (if swEndpoint w = [] \<or> body = [] then (w, e)
      else if length (swIn w) < swQueueDepth w then (w\<lparr>swIn := swIn w @ [body]\<rparr>, e)
      else spoolOrDrop W body w e)"

definition shipOrSpool :: "'e world \<Rightarrow> u8 list \<Rightarrow> shipWorker \<Rightarrow> 'e \<Rightarrow> shipWorker \<times> 'e" where
  "shipOrSpool W body w e = (case shipEncoded W (swEndpoint w) body e of (ok, e) \<Rightarrow>
     if ok then (w\<lparr>swDelivered := swDelivered w @ [body]\<rparr>, e) else spoolOrDrop W body w e)"

text \<open>
  One file of \<^verbatim>\<open>drainSpool\<close>: the context is consulted and the file read, \<open>None\<close> in the result when it is passed over; then its bytes are posted, and
  the file is removed on success. The boolean says whether the loop goes on.
\<close>

definition drainRead :: "'e world \<Rightarrow> gostr \<Rightarrow> shipWorker \<Rightarrow> 'e \<Rightarrow> bool \<times> u8 list option \<times> 'e" where
  "drainRead W name w e = (case wDone W e of (done, e) \<Rightarrow>
     if done then (False, None, e)
     else case wOk W e of (ok, e) \<Rightarrow> (True, if ok then map_of (swSpool w) name else None, e))"

definition drainSend :: "'e world \<Rightarrow> gostr \<Rightarrow> u8 list \<Rightarrow> shipWorker \<Rightarrow> 'e \<Rightarrow> bool \<times> shipWorker \<times> 'e" where
  "drainSend W name body w e = (case shipEncoded W (swEndpoint w) body e of (ok, e) \<Rightarrow>
     if \<not> ok then (False, w, e)
     else case wOk W e of (removed, e) \<Rightarrow>
       (True, w\<lparr>swDelivered := swDelivered w @ [body], swSpool := (if removed then AList.delete name (swSpool w) else swSpool w)\<rparr>, e))"

fun drainFiles :: "'e world \<Rightarrow> gostr list \<Rightarrow> shipWorker \<Rightarrow> 'e \<Rightarrow> shipWorker \<times> 'e" where
  "drainFiles W [] w e = (w, e)"
| "drainFiles W (name # names) w e = (case drainRead W name w e of (go, body, e) \<Rightarrow>
     if \<not> go then (w, e)
     else case body of None \<Rightarrow> drainFiles W names w e
          | Some b \<Rightarrow> (case drainSend W name b w e of (go, w, e) \<Rightarrow> if go then drainFiles W names w e else (w, e)))"

definition drainSpool :: "'e world \<Rightarrow> shipWorker \<Rightarrow> 'e \<Rightarrow> shipWorker \<times> 'e" where
  "drainSpool W w e =
     (if swSpoolDir w = [] \<or> swEndpoint w = [] then (w, e)
      else case listSpoolLocked W w e of ((files, _), e) \<Rightarrow> drainFiles W (map fst files) w e)"

text \<open>
  \<^verbatim>\<open>shutdown\<close> after the worker's goroutine has been told to stop; \<open>wDone\<close> decides between its end and the deadline.
\<close>

fun shutdownLoop :: "'e world \<Rightarrow> u8 list list \<Rightarrow> shipWorker \<Rightarrow> 'e \<Rightarrow> shipWorker \<times> 'e" where
  "shutdownLoop W [] w e = drainSpool W w e"
| "shutdownLoop W (body # queue) w e = (case shipOrSpool W body (w\<lparr>swIn := queue\<rparr>) e of (w, e) \<Rightarrow>
     case wDone W e of (done, e) \<Rightarrow> if done then (w, e) else shutdownLoop W queue w e)"

definition worker_shutdown :: "'e world \<Rightarrow> shipWorker \<Rightarrow> 'e \<Rightarrow> shipWorker \<times> 'e" where
  "worker_shutdown W w e =
     (if \<not> swStarted w then (w, e)
      else case wDone W e of (done, e) \<Rightarrow> if done then (w, e) else shutdownLoop W (swIn w) w e)"

text \<open>\<^verbatim>\<open>shipBatch\<close>, with the gzip compression of the standard library as the parameter \<open>gzipBytes\<close>.\<close>

definition shipBatch :: "'e world \<Rightarrow> (u8 list \<Rightarrow> u8 list option) \<Rightarrow> Fragment list \<Rightarrow> shipWorker \<Rightarrow> 'e \<Rightarrow> bool \<times> shipWorker \<times> 'e" where
  "shipBatch W gzipBytes frags w e =
     (if swEndpoint w = [] \<or> frags = [] then (True, w, e)
      else case gzipBytes (EncodeFragmentBatch frags) of None \<Rightarrow> (False, w, e) | Some body \<Rightarrow> (True, enqueue W body w e))"

section \<open>The goroutines\<close>

text \<open>Where the worker's goroutine is: in its \<^verbatim>\<open>select\<close>, shipping a batch from the queue, or at a file of a spool drain.\<close>

datatype worker_at = Selecting | Shipping "u8 list" | Draining "gostr list" | Sending gostr "u8 list" "gostr list"

inductive worker_run :: "'e world \<Rightarrow> shipWorker \<Rightarrow> 'e \<Rightarrow> u8 list multiset \<Rightarrow> worker_at \<Rightarrow> shipWorker \<Rightarrow> 'e \<Rightarrow> bool"
  for W :: "'e world" and w0 :: shipWorker and e0 :: 'e where
  started: "worker_start W w0 e0 = (w, e) \<Longrightarrow> worker_run W w0 e0 (mset (map snd (swSpool w0))) Selecting w e"
| enqueued: "worker_run W w0 e0 A pc w e \<Longrightarrow> enqueue W body w e = (w', e') \<Longrightarrow>
    worker_run W w0 e0 (if swEndpoint w = [] \<or> body = [] then A else add_mset body A) pc w' e'"
| taken: "worker_run W w0 e0 A Selecting w e \<Longrightarrow> swIn w = body # queue \<Longrightarrow> worker_run W w0 e0 A (Shipping body) (w\<lparr>swIn := queue\<rparr>) e"
| shipped: "worker_run W w0 e0 A (Shipping body) w e \<Longrightarrow> shipOrSpool W body w e = (w', e') \<Longrightarrow> worker_run W w0 e0 A Selecting w' e'"
| ticked: "worker_run W w0 e0 A Selecting w e \<Longrightarrow> swSpoolDir w \<noteq> [] \<Longrightarrow> swEndpoint w \<noteq> [] \<Longrightarrow> listSpoolLocked W w e = ((files, nbytes), e') \<Longrightarrow>
    worker_run W w0 e0 A (Draining (map fst files)) w e'"
| reading: "worker_run W w0 e0 A (Draining (name # names)) w e \<Longrightarrow> drainRead W name w e = (go, body, e') \<Longrightarrow>
    worker_run W w0 e0 A (if \<not> go then Selecting else case body of None \<Rightarrow> Draining names | Some b \<Rightarrow> Sending name b names) w e'"
| sent: "worker_run W w0 e0 A (Sending name body names) w e \<Longrightarrow> drainSend W name body w e = (go, w', e') \<Longrightarrow>
    worker_run W w0 e0 A (if go then Draining names else Selecting) w' e'"
| drained: "worker_run W w0 e0 A (Draining []) w e \<Longrightarrow> worker_run W w0 e0 A Selecting w e"

section \<open>Names\<close>

definition decimal :: "gostr \<Rightarrow> nat" where
  "decimal bs = foldl (\<lambda>n b. 10 * n + (unat b - 48)) 0 bs"

lemma decimal_snoc: "decimal (bs @ [b]) = 10 * decimal bs + (unat b - 48)"
  by (simp add: decimal_def)

lemma unat_digit: "n < 10 \<Longrightarrow> unat (48 + word_of_nat n :: u8) = 48 + n"
  using unat_of_nat [of "48 + n", where 'a = 8] by simp

lemma decimal_digits: "decimal (digits n) = n"
proof (induction n rule: digits.induct)
  case (1 n)
  show ?case
  proof (cases "n < 10")
    case True
    then show ?thesis by (subst digits.simps) (simp add: decimal_def unat_digit)
  next
    case False
    then show ?thesis using 1 unat_digit [of "n mod 10"] by (subst digits.simps) (simp add: decimal_snoc)
  qed
qed

lemma decimal_pad: "decimal (replicate k 48 @ bs) = decimal bs"
proof -
  have "foldl (\<lambda>n b. 10 * n + (unat b - 48)) 0 (replicate k (48 :: u8)) = (0 :: nat)" by (induction k) simp_all
  then show ?thesis by (simp add: decimal_def)
qed

lemma digits_no_dash: "b \<in> set (digits n) \<Longrightarrow> b \<noteq> 45"
proof (induction n rule: digits.induct)
  case (1 n)
  have d: "48 + word_of_nat k \<noteq> (45 :: u8)" if k: "k < 10" for k
  proof
    assume "48 + word_of_nat k = (45 :: u8)"
    then have "unat (48 + word_of_nat k :: u8) = 45" by (simp only:) simp
    then show False using unat_digit [OF k] by simp
  qed
  show ?case using 1 d by (subst (asm) digits.simps) (auto split: if_splits)
qed

lemma spoolName_inj: "spoolName n p = spoolName m q \<Longrightarrow> n = m"
proof -
  assume "spoolName n p = spoolName m q"
  moreover have "takeWhile (\<lambda>b. b \<noteq> 45) (spoolName k r) = replicate (20 - length (digits k)) 48 @ digits k" for k r
  proof -
    have "\<forall>b \<in> set (replicate (20 - length (digits k)) 48 @ digits k). b \<noteq> 45" using digits_no_dash by auto
    then show ?thesis using takeWhile_append2 [of "replicate (20 - length (digits k)) 48 @ digits k" "\<lambda>b. b \<noteq> 45"] by (simp add: spoolName_def bytes_of_def)
  qed
  ultimately show ?thesis by (metis decimal_pad decimal_digits)
qed

section \<open>Nothing is lost\<close>

text \<open>The clock never gives a time twice and is not set back; \<open>clk\<close> is the time the world has reached.\<close>

definition ticking :: "'e world \<Rightarrow> ('e \<Rightarrow> nat) \<Rightarrow> bool" where
  "ticking W clk \<longleftrightarrow> (\<forall>e. clk e < fst (wNow W e) \<and> fst (wNow W e) \<le> clk (snd (wNow W e))) \<and>
     (\<forall>e. clk e \<le> clk (snd (wOk W e)) \<and> clk e \<le> clk (snd (wDone W e))) \<and> (\<forall>body e. clk e \<le> clk (snd (wPost W body e)))"

definition named :: "nat \<Rightarrow> gostr \<Rightarrow> bool" where
  "named t name \<longleftrightarrow> (\<exists>n p. name = spoolName n p \<and> n \<le> t)"

lemma named_later: "named t name \<Longrightarrow> t \<le> t' \<Longrightarrow> named t' name"
  unfolding named_def using le_trans by blast

lemma named_new: "named t name \<Longrightarrow> t < n \<Longrightarrow> name \<noteq> spoolName n p"
  unfolding named_def using spoolName_inj by (metis leD)

lemma ticking_steps:
  assumes "ticking W clk"
  shows "wOk W e = (b, e') \<Longrightarrow> clk e \<le> clk e'" "wDone W e = (b, e') \<Longrightarrow> clk e \<le> clk e'" "wPost W body e = (a, e') \<Longrightarrow> clk e \<le> clk e'"
    "wNow W e = (n, e') \<Longrightarrow> clk e < n \<and> n \<le> clk e'"
  using assms unfolding ticking_def by (metis fst_conv snd_conv)+

lemma attempts_clk: "ticking W clk \<Longrightarrow> attempts W body n first e = (ok, e') \<Longrightarrow> clk e \<le> clk e'"
proof (induction n arbitrary: first e)
  case (Suc n)
  obtain dn e1 where d: "(if first then (False, e) else wDone W e) = (dn, e1)" by fastforce
  have e1: "clk e \<le> clk e1" using d ticking_steps(2) [OF Suc.prems(1)] by (auto split: if_splits)
  obtain a e2 where p: "wPost W body e1 = (a, e2)" by fastforce
  have "clk e1 \<le> clk e2" using p ticking_steps(3) [OF Suc.prems(1)] by blast
  then show ?case using Suc e1 d p by (fastforce split: if_splits post_answer.splits)
qed simp

lemma ship_clk: "ticking W clk \<Longrightarrow> shipEncoded W endpoint body e = (ok, e') \<Longrightarrow> clk e \<le> clk e'"
  using attempts_clk by (fastforce simp: shipEncoded_def split: if_splits)

lemma delete_mset:
  assumes "distinct (map fst al)"
  shows "map_of al k = Some v \<Longrightarrow> mset (map snd al) = add_mset v (mset (map snd (AList.delete k al)))"
    "map_of al k = None \<Longrightarrow> AList.delete k al = al"
proof -
  show "AList.delete k al = al" if "map_of al k = None" using that by (simp add: map_of_eq_None_iff delete_idem)
  show "mset (map snd al) = add_mset v (mset (map snd (AList.delete k al)))" if "map_of al k = Some v"
    using assms that
  proof (induction al)
    case (Cons x al)
    show ?case
    proof (cases "fst x = k")
      case True
      then have "k \<notin> fst ` set al" using Cons.prems by auto
      then have "AList.delete k al = al" by (simp add: delete_idem)
      then show ?thesis using True Cons.prems by (cases x) simp
    next
      case False
      then show ?thesis using Cons by (cases x) (simp add: add_mset_commute)
    qed
  qed simp
qed

lemma update_mset: "k \<notin> fst ` set al \<Longrightarrow> mset (map snd (AList.update k v al)) = add_mset v (mset (map snd al))"
  by (induction al) auto

text \<open>What the worker still has or has given up, apart from its queue.\<close>

definition kept :: "shipWorker \<Rightarrow> u8 list multiset" where
  "kept w = mset (map snd (swSpool w)) + mset (swDropped w)"

definition spool_ok :: "nat \<Rightarrow> shipWorker \<Rightarrow> bool" where
  "spool_ok t w \<longleftrightarrow> distinct (map fst (swSpool w)) \<and> (\<forall>name \<in> fst ` set (swSpool w). named t name)"

text \<open>Storing, evicting and dropping keep the queue and the deliveries, never change a file that stays, and report a file that goes.\<close>

definition stores :: "nat \<Rightarrow> nat \<Rightarrow> shipWorker \<Rightarrow> shipWorker \<Rightarrow> bool" where
  "stores t t' w w' \<longleftrightarrow> t \<le> t' \<and> spool_ok t' w' \<and> swIn w' = swIn w \<and> swDelivered w' = swDelivered w \<and>
     (swDropped w \<noteq> [] \<longrightarrow> swDropped w' \<noteq> []) \<and>
     (\<forall>name. named t name \<longrightarrow> map_of (swSpool w') name = map_of (swSpool w) name \<or> map_of (swSpool w') name = None \<and> swDropped w' \<noteq> [])"

lemma stores_refl: "spool_ok t w \<Longrightarrow> t \<le> t' \<Longrightarrow> stores t t' w w"
  by (auto simp: stores_def spool_ok_def intro: named_later)

lemma stores_trans: "stores t t' w w' \<Longrightarrow> stores t' t'' w' w'' \<Longrightarrow> stores t t'' w w''"
  unfolding stores_def
proof (elim conjE, intro conjI allI impI)
  fix name
  assume "t \<le> t'" "named t name" and one: "\<forall>name. named t name \<longrightarrow> map_of (swSpool w') name = map_of (swSpool w) name \<or> map_of (swSpool w') name = None \<and> swDropped w' \<noteq> []"
    and two: "\<forall>name. named t' name \<longrightarrow> map_of (swSpool w'') name = map_of (swSpool w') name \<or> map_of (swSpool w'') name = None \<and> swDropped w'' \<noteq> []"
    and more: "swDropped w' \<noteq> [] \<longrightarrow> swDropped w'' \<noteq> []"
  then have "named t' name" by (blast intro: named_later)
  then show "map_of (swSpool w'') name = map_of (swSpool w) name \<or> map_of (swSpool w'') name = None \<and> swDropped w'' \<noteq> []"
    using one [rule_format, OF \<open>named t name\<close>] two more by metis
qed simp_all

lemma evictLoop_stores:
  "ticking W clk \<Longrightarrow> evictLoop W files nbytes w e = (w', e') \<Longrightarrow> spool_ok (clk e) w \<Longrightarrow> set files \<subseteq> set (swSpool w) \<Longrightarrow> distinct (map fst files) \<Longrightarrow>
   stores (clk e) (clk e') w w' \<and> kept w' = kept w"
proof (induction W files nbytes w e rule: evictLoop.induct)
  case (2 W oldest files nbytes w e)
  show ?case
  proof (cases "nbytes \<le> sint (swSpoolMaxBytes w)")
    case True
    then show ?thesis using 2 by (auto intro: stores_refl)
  next
    case False
    obtain ok e1 where e1: "wOk W e = (ok, e1)" by fastforce
    have c: "clk e \<le> clk e1" using ticking_steps(1) [OF 2(2) e1] .
    show ?thesis
    proof (cases ok)
      case False
      then show ?thesis using 2 e1 c \<open>\<not> nbytes \<le> _\<close> by (auto intro: stores_refl)
    next
      case True
      let ?v = "w\<lparr>swSpool := AList.delete (fst oldest) (swSpool w), swDropped := swDropped w @ [snd oldest]\<rparr>"
      have d: "distinct (map fst (swSpool w))" using 2(4) by (simp add: spool_ok_def)
      have "map_of (swSpool w) (fst oldest) = Some (snd oldest)" using 2(5) d by (simp add: map_of_is_SomeI)
      from delete_mset(1) [OF d this] have k: "kept ?v = kept w" by (simp add: kept_def)
      have sub: "set (AList.delete (fst oldest) (swSpool w)) \<subseteq> set (swSpool w)" by (auto simp: AList.delete_eq)
      then have ok: "spool_ok (clk e1) ?v" using 2(4) c by (auto simp: spool_ok_def distinct_delete intro: named_later)
      have st: "stores (clk e) (clk e1) w ?v" using ok c by (simp add: stores_def delete_conv)
      have "x \<in> set (AList.delete (fst oldest) (swSpool w))" if "x \<in> set files" for x
      proof -
        have "fst x \<in> fst ` set files" using that by (rule imageI)
        then have "fst x \<noteq> fst oldest" using 2(6) by (metis distinct.simps(2) list.set_map list.simps(9))
        moreover have "x \<in> set (swSpool w)" using that 2(5) by auto
        ultimately show ?thesis by (simp add: AList.delete_eq split_beta)
      qed
      then have "set files \<subseteq> set (AList.delete (fst oldest) (swSpool w))" by blast
      moreover have "evictLoop W files (nbytes - int (length (snd oldest))) ?v e1 = (w', e')" using 2(3) False e1 True by simp
      ultimately have "stores (clk e1) (clk e') ?v w' \<and> kept w' = kept ?v" using 2(1) [OF False e1 [symmetric]] 2(2,6) ok True by simp
      then show ?thesis using stores_trans [OF st] k by simp
    qed
  qed
qed (auto intro: stores_refl)

lemma listed:
  assumes "ticking W clk" "listSpoolLocked W w e = ((files, nbytes), e')" "spool_ok t w"
  shows "clk e \<le> clk e'" "set files \<subseteq> set (swSpool w)" "distinct (map fst files)"
proof -
  obtain ok e1 where e1: "wOk W e = (ok, e1)" by fastforce
  have "distinct (map fst (sort_Slice (\<lambda>a b. fst a < fst b) (swSpool w)))" 
    using assms(3) mset_eq_imp_distinct_iff [of "map fst (sort_Slice (\<lambda>a b. fst a < fst b) (swSpool w))" "map fst (swSpool w)"] by (simp add: spool_ok_def)
  then show "clk e \<le> clk e'" "set files \<subseteq> set (swSpool w)" "distinct (map fst files)"
    using assms e1 ticking_steps(1) [OF assms(1) e1] by (auto simp: listSpoolLocked_def split: if_splits)
qed

lemma enforce_stores:
  assumes "ticking W clk" "enforceCapLocked W w e = (w', e')" "spool_ok (clk e) w"
  shows "stores (clk e) (clk e') w w' \<and> kept w' = kept w"
proof (cases "sint (swSpoolMaxBytes w) \<le> 0")
  case True
  then show ?thesis using assms by (simp add: enforceCapLocked_def stores_refl)
next
  case False
  obtain files nbytes e1 where l: "listSpoolLocked W w e = ((files, nbytes), e1)" by (metis prod.exhaust)
  note f = listed [OF assms(1) l assms(3)]
  have "spool_ok (clk e1) w" using assms(3) f(1) by (auto simp: spool_ok_def intro: named_later)
  from evictLoop_stores [OF assms(1) _ this f(2,3)] have "stores (clk e1) (clk e') w w' \<and> kept w' = kept w"
    using assms(2) False l by (simp add: enforceCapLocked_def)
  then show ?thesis using stores_trans [OF stores_refl [OF assms(3) f(1)]] by blast
qed

lemma spool_stores:
  assumes t: "ticking W clk" and s: "spool W body w e = (ok, w', e')" and i: "spool_ok (clk e) w"
  shows "stores (clk e) (clk e') w w' \<and> kept w' = (if ok then add_mset body (kept w) else kept w)"
proof (cases "swSpoolDir w = []")
  case True
  then show ?thesis using s i by (auto simp: spool_def intro: stores_refl)
next
  case False
  obtain nanos e1 where n: "wNow W e = (nanos, e1)" by fastforce
  obtain b1 e2 where b1: "wOk W e1 = (b1, e2)" by fastforce
  obtain b2 e3 where b2: "wOk W e2 = (b2, e3)" by fastforce
  have c: "clk e < nanos" "nanos \<le> clk e1" "clk e1 \<le> clk e2" "clk e2 \<le> clk e3"
    using ticking_steps(4) [OF t n] ticking_steps(1) [OF t] b1 b2 by auto
  show ?thesis
  proof (cases "b1 \<and> b2")
    case False
    then show ?thesis using s i c n b1 b2 \<open>swSpoolDir w \<noteq> []\<close> by (auto simp: spool_def split: if_splits intro: stores_refl)
  next
    case True
    let ?name = "spoolName nanos (swPid w)" let ?v = "w\<lparr>swSpool := AList.update ?name body (swSpool w)\<rparr>"
    have r: "ok" "enforceCapLocked W ?v e3 = (w', e')" using s n b1 b2 True False by (auto simp: spool_def)
    have new: "name \<noteq> ?name" if "named (clk e) name" for name using named_new [OF that c(1)] .
    then have fresh: "?name \<notin> fst ` set (swSpool w)" using i unfolding spool_ok_def by blast
    have here: "named (clk e3) ?name" unfolding named_def using c by (intro exI [of _ nanos] exI [of _ "swPid w"]) simp
    have "named (clk e3) name" if "named (clk e) name" for name using named_later [OF that] c by simp
    moreover have "fst ` set (AList.update ?name body (swSpool w)) = insert ?name (fst ` set (swSpool w))" by (simp add: dom_update)
    ultimately have ok3: "spool_ok (clk e3) ?v" using i here unfolding spool_ok_def by (simp add: distinct_update del: list.set_map)
    have st: "stores (clk e) (clk e3) w ?v" using ok3 c new by (auto simp: stores_def update_conv)
    have "kept ?v = add_mset body (kept w)" using update_mset [OF fresh] by (simp add: kept_def)
    then show ?thesis using enforce_stores [OF t r(2) ok3] stores_trans [OF st] r(1) by simp
  qed
qed

lemma spoolOrDrop_stores:
  assumes "ticking W clk" "spoolOrDrop W body w e = (w', e')" "spool_ok (clk e) w"
  shows "stores (clk e) (clk e') w w' \<and> kept w' = add_mset body (kept w)"
proof -
  obtain ok v where s: "spool W body w e = (ok, v, e')" and w': "w' = (if ok then v else v\<lparr>swDropped := swDropped v @ [body]\<rparr>)"
    using assms(2) by (auto simp: spoolOrDrop_def split: prod.splits)
  from spool_stores [OF assms(1) s assms(3)] show ?thesis unfolding w' by (auto simp: stores_def spool_ok_def kept_def)
qed

text \<open>
  What has been accepted is delivered, queued, on its way, on disk, or has been given up with a warning, once. What there is in excess are repeated
  deliveries; there are none as long as file operations succeed and nothing is given up.
\<close>

fun flight :: "worker_at \<Rightarrow> u8 list multiset" where
  "flight (Shipping body) = {#body#}"
| "flight _ = {#}"

definition places :: "worker_at \<Rightarrow> shipWorker \<Rightarrow> u8 list multiset" where
  "places pc w = mset (swDelivered w) + mset (swIn w) + flight pc + mset (map snd (swSpool w)) + mset (swDropped w)"

definition accounted :: "'e world \<Rightarrow> u8 list multiset \<Rightarrow> worker_at \<Rightarrow> shipWorker \<Rightarrow> bool" where
  "accounted W A pc w \<longleftrightarrow> (\<exists>R. places pc w = A + R \<and> R \<subseteq># mset (swDelivered w) \<and> ((\<forall>e. fst (wOk W e)) \<and> swDropped w = [] \<longrightarrow> R = {#}))"

lemma places_kept: "places pc w = mset (swDelivered w) + mset (swIn w) + flight pc + kept w"
  by (simp add: places_def kept_def)

lemma accounted_step:
  assumes "accounted W A pc w" "places pc' w' = places pc w + X" "mset (swDelivered w) \<subseteq># mset (swDelivered w')" "swDropped w \<noteq> [] \<Longrightarrow> swDropped w' \<noteq> []"
  shows "accounted W (A + X) pc' w'"
proof -
  obtain R where R: "places pc w = A + R" "R \<subseteq># mset (swDelivered w)" "(\<forall>e. fst (wOk W e)) \<and> swDropped w = [] \<longrightarrow> R = {#}"
    using assms(1) unfolding accounted_def by blast
  have "places pc' w' = A + X + R" using assms(2) R(1) by (simp add: ac_simps)
  moreover have "R \<subseteq># mset (swDelivered w')" using R(2) assms(3) by (rule subset_mset.order_trans)
  ultimately show ?thesis using R(3) assms(4) unfolding accounted_def by blast
qed

lemmas accounted_same = accounted_step [where X = "{#}", simplified]

lemma accounted_again:
  assumes "accounted W A pc w" "places pc' w' = add_mset body (places pc w)" "mset (swDelivered w') = add_mset body (mset (swDelivered w))"
    "\<not> (\<forall>e. fst (wOk W e)) \<or> swDropped w' \<noteq> []"
  shows "accounted W A pc' w'"
proof -
  obtain R where R: "places pc w = A + R" "R \<subseteq># mset (swDelivered w)" using assms(1) unfolding accounted_def by blast
  then show ?thesis using assms(2-4) unfolding accounted_def by (intro exI [of _ "add_mset body R"]) auto
qed

fun pc_ok :: "nat \<Rightarrow> worker_at \<Rightarrow> shipWorker \<Rightarrow> bool" where
  "pc_ok t (Sending name body names) w \<longleftrightarrow> named t name \<and> (map_of (swSpool w) name = Some body \<or> map_of (swSpool w) name = None \<and> swDropped w \<noteq> [])"
| "pc_ok t _ w \<longleftrightarrow> True"

lemma stores_pc: "stores t t' w w' \<Longrightarrow> pc_ok t pc w \<Longrightarrow> pc_ok t' pc w'"
  by (cases pc) (auto simp: stores_def intro: named_later)

lemma enqueue_accounted:
  assumes t: "ticking W clk" and q: "enqueue W body w e = (w', e')" and i: "spool_ok (clk e) w" "pc_ok (clk e) pc w" "accounted W A pc w"
  shows "spool_ok (clk e') w' \<and> pc_ok (clk e') pc w' \<and> accounted W (if swEndpoint w = [] \<or> body = [] then A else add_mset body A) pc w'"
proof (cases "swEndpoint w = [] \<or> body = []")
  case True
  then show ?thesis using q i by (auto simp: enqueue_def)
next
  case used: False
  show ?thesis
  proof (cases "length (swIn w) < swQueueDepth w")
    case True
    then have r: "w' = w\<lparr>swIn := swIn w @ [body]\<rparr>" "e' = e" using q used by (auto simp: enqueue_def)
    have "pc_ok (clk e) pc w'" using i(2) by (cases pc) (simp_all add: r)
    moreover have "accounted W (A + {#body#}) pc w'" by (rule accounted_step [OF i(3)]) (simp_all add: r places_def)
    ultimately show ?thesis using i(1) used by (simp add: r spool_ok_def)
  next
    case False
    then have "spoolOrDrop W body w e = (w', e')" using q used by (simp add: enqueue_def)
    note s = spoolOrDrop_stores [OF t this i(1)]
    then have "accounted W (A + {#body#}) pc w'" by (intro accounted_step [OF i(3)]) (auto simp: stores_def places_kept)
    then show ?thesis using s stores_pc [of "clk e" "clk e'" w w' pc] i(2) used by (simp add: stores_def)
  qed
qed

lemma shipOrSpool_accounted:
  assumes t: "ticking W clk" and q: "shipOrSpool W body w e = (w', e')" and i: "spool_ok (clk e) w" "accounted W A (Shipping body) w"
  shows "spool_ok (clk e') w' \<and> accounted W A Selecting w' \<and> swIn w' = swIn w"
proof -
  obtain ok e1 where s: "shipEncoded W (swEndpoint w) body e = (ok, e1)" by fastforce
  have c: "clk e \<le> clk e1" using ship_clk [OF t s] .
  then have i1: "spool_ok (clk e1) w" using i(1) by (auto simp: spool_ok_def intro: named_later)
  show ?thesis
  proof (cases ok)
    case True
    then have "w' = w\<lparr>swDelivered := swDelivered w @ [body]\<rparr>" "e' = e1" using q s by (auto simp: shipOrSpool_def)
    then show ?thesis using i1 by (auto simp: spool_ok_def places_def intro: accounted_same [OF i(2)])
  next
    case False
    then have "spoolOrDrop W body w e1 = (w', e')" using q s by (simp add: shipOrSpool_def)
    from spoolOrDrop_stores [OF t this i1] show ?thesis by (auto simp: stores_def places_kept intro: accounted_same [OF i(2)])
  qed
qed

lemma drainSend_accounted:
  assumes t: "ticking W clk" and q: "drainSend W name body w e = (go, w', e')" and i: "spool_ok (clk e) w" "pc_ok (clk e) (Sending name body names) w" "accounted W A Selecting w"
  shows "spool_ok (clk e') w' \<and> accounted W A Selecting w' \<and> swIn w' = swIn w"
proof -
  obtain ok e1 where s: "shipEncoded W (swEndpoint w) body e = (ok, e1)" by fastforce
  obtain rm e2 where r: "wOk W e1 = (rm, e2)" by fastforce
  have c: "clk e \<le> clk e1" "clk e1 \<le> clk e2" using ship_clk [OF t s] ticking_steps(1) [OF t r] by auto
  then have later: "spool_ok (clk e1) w" "spool_ok (clk e2) w" using i(1) by (auto simp: spool_ok_def intro: named_later)
  show ?thesis
  proof (cases "ok \<and> rm")
    case False
    have fails: "\<not> (\<forall>e. fst (wOk W e))" if "\<not> rm" using that r by (metis fst_conv)
    show ?thesis
    proof (cases ok)
      case True
      then have w': "w' = w\<lparr>swDelivered := swDelivered w @ [body]\<rparr>" "e' = e2" using q s r False by (auto simp: drainSend_def)
      then have "accounted W A Selecting w'" using fails True False by (intro accounted_again [OF i(3)]) (auto simp: places_def)
      then show ?thesis using later(2) by (simp add: w' spool_ok_def)
    next
      case False
      then show ?thesis using q s later(1) i(3) by (auto simp: drainSend_def)
    qed
  next
    case True
    then have w': "w' = w\<lparr>swDelivered := swDelivered w @ [body], swSpool := AList.delete name (swSpool w)\<rparr>" "e' = e2" using q s r by (auto simp: drainSend_def)
    have d: "distinct (map fst (swSpool w))" using i(1) by (simp add: spool_ok_def)
    have "set (AList.delete name (swSpool w)) \<subseteq> set (swSpool w)" by (auto simp: AList.delete_eq)
    then have "spool_ok (clk e') w'" using later(2) by (auto simp: w' spool_ok_def distinct_delete)
    moreover have "accounted W A Selecting w'"
    proof (cases "map_of (swSpool w) name")
      case None
      then have "swDropped w \<noteq> []" "AList.delete name (swSpool w) = swSpool w" using i(2) delete_mset(2) [OF d None] by simp_all
      then show ?thesis by (intro accounted_again [OF i(3)]) (simp_all add: w' places_def)
    next
      case (Some b)
      then have "mset (map snd (swSpool w)) = add_mset body (mset (map snd (AList.delete name (swSpool w))))" using delete_mset(1) [OF d Some] i(2) by simp
      then show ?thesis by - (rule accounted_same [OF i(3)], simp_all add: w' places_def)
    qed
    ultimately show ?thesis by (simp add: w')
  qed
qed

lemma worker_inv:
  assumes "worker_run W w0 e0 A pc w e" and t: "ticking W clk" and w0: "w0 = newShipWorker endpoint dir cap depth pid files" "spool_ok (clk e0) w0"
  shows "spool_ok (clk e) w \<and> pc_ok (clk e) pc w \<and> accounted W A pc w"
  using assms(1)
proof (induction rule: worker_run.induct)
  case (started w e)
  have "clk e0 \<le> clk e" using started ticking_steps(1) [OF t] by (fastforce simp: worker_start_def Let_def split: if_splits prod.splits)
  moreover have "swSpool w = swSpool w0" using started by (auto simp: worker_start_def Let_def split: if_splits prod.splits)
  moreover have "swDelivered w = []" "swIn w = []" "swDropped w = []"
    using started w0(1) by (auto simp: worker_start_def newShipWorker_def Let_def split: if_splits prod.splits)
  ultimately show ?case using w0 by (auto simp: spool_ok_def accounted_def places_def intro: named_later)
next
  case (enqueued A pc w e body w' e')
  then show ?case using enqueue_accounted [OF t] by blast
next
  case (taken A w e body queue)
  then have "accounted W A (Shipping body) (w\<lparr>swIn := queue\<rparr>)" by - (rule accounted_same [of W A Selecting w], simp_all add: places_def)
  then show ?case using taken by (simp add: spool_ok_def)
next
  case (shipped A body w e w' e')
  then have "accounted W A (Shipping body) w" "spool_ok (clk e) w" by simp_all
  from shipOrSpool_accounted [OF t shipped(2) this(2,1)] show ?case by simp
next
  case (ticked A w e files nbytes e')
  then have "clk e \<le> clk e'" using listed(1) [OF t] by blast
  moreover have "accounted W A (Draining (map fst files)) w" using ticked by - (rule accounted_same [of W A Selecting w], simp_all add: places_def)
  ultimately show ?case using ticked by (auto simp: spool_ok_def intro: named_later)
next
  case (reading A name names w e go body e')
  obtain dn e1 where d: "wDone W e = (dn, e1)" by fastforce
  obtain ok e2 where o: "wOk W e1 = (ok, e2)" by fastforce
  have c: "clk e \<le> clk e1" "clk e1 \<le> clk e2" using ticking_steps(1,2) [OF t] d o by blast+
  have e': "e' = (if dn then e1 else e2)" "body = (if \<not> dn \<and> ok then map_of (swSpool w) name else None)"
    using reading(2) d o by (auto simp: drainRead_def split: if_splits)
  then have le: "clk e \<le> clk e'" using c by simp
  then have s: "spool_ok (clk e') w" using reading by (auto simp: spool_ok_def intro: named_later)
  have "pc_ok (clk e') (Sending name b names) w" if "body = Some b" for b
  proof -
    have m: "map_of (swSpool w) name = Some b" using e'(2) that by (simp split: if_splits)
    then have "name \<in> fst ` set (swSpool w)" by (force dest: map_of_SomeD)
    then have "named (clk e') name" using s unfolding spool_ok_def by blast
    then show ?thesis using m by simp
  qed
  moreover have "accounted W A (if \<not> go then Selecting else case body of None \<Rightarrow> Draining names | Some b \<Rightarrow> Sending name b names) w"
    using reading by - (rule accounted_same [of W A "Draining (name # names)" w], auto simp: places_def split: option.splits)
  ultimately show ?case using s by (auto split: option.splits)
next
  case (sent A name body names w e go w' e')
  have "accounted W A Selecting w" using sent by - (rule accounted_same [of W A "Sending name body names" w], simp_all add: places_def)
  from drainSend_accounted [OF t sent(2) _ _ this] sent.IH have a: "spool_ok (clk e') w'" "accounted W A Selecting w'" by blast+
  have "accounted W A (if go then Draining names else Selecting) w'" by - (rule accounted_same [OF a(2)], simp_all add: places_def)
  then show ?case using a(1) by simp
next
  case (drained A w e)
  then have "accounted W A Selecting w" by - (rule accounted_same [of W A "Draining []" w], simp_all add: places_def)
  then show ?case using drained by simp
qed

text \<open>
  Property C15. No batch disappears: whatever the network, the file system and the schedule of the two goroutines do, as long as the clock never shows the same nanosecond
  twice, every batch that was accepted by \<^verbatim>\<open>enqueue\<close>, and every file that the spool directory held at the start, is in exactly one place: acknowledged by the
  merger, in the queue, being shipped, in the spool, or given up with a warning. What these places hold beyond that are batches the merger acknowledged and that are sent
  or given up once more, and there are none as long as file operations succeed and nothing was given up.
\<close>

theorem batches_accounted:
  assumes "worker_run W (newShipWorker endpoint dir cap depth pid files) e0 A pc w e" "ticking W clk"
    and "spool_ok (clk e0) (newShipWorker endpoint dir cap depth pid files)"
  shows "\<exists>R. mset (swDelivered w) + mset (swIn w) + flight pc + mset (map snd (swSpool w)) + mset (swDropped w) = A + R \<and>
    R \<subseteq># mset (swDelivered w) \<and> ((\<forall>e. fst (wOk W e)) \<and> swDropped w = [] \<longrightarrow> R = {#})"
  using worker_inv [OF assms(1,2) refl assms(3)] unfolding accounted_def places_def by blast

section \<open>The size of the spool\<close>

definition spoolBytes :: "shipWorker \<Rightarrow> int" where
  "spoolBytes w = sum_list (map (int \<circ> length \<circ> snd) (swSpool w))"

lemma delete_bytes:
  assumes "distinct (map fst al)" "map_of al k = Some v"
  shows "sum_list (map (int \<circ> length \<circ> snd) (AList.delete k al)) = sum_list (map (int \<circ> length \<circ> snd) al) - int (length v)"
proof -
  have m: "sum_mset (image_mset (int \<circ> length) (mset (map snd xs))) = sum_list (map (int \<circ> length \<circ> snd) xs)" for xs :: "('x \<times> 'y list) list"
    by (simp add: sum_mset_sum_list multiset.map_comp comp_assoc flip: mset_map)
  show ?thesis using m [of al] m [of "AList.delete k al"] delete_mset(1) [OF assms] by simp
qed

lemma bytes_le: "sum_list (map (int \<circ> length \<circ> snd) (AList.delete k al)) \<le> sum_list (map (int \<circ> length \<circ> snd) al)"
  by (induction al) (auto simp: add_mono)

lemma evictLoop_bound:
  "evictLoop W files nbytes w e = (w', e') \<Longrightarrow> \<forall>e. fst (wOk W e) \<Longrightarrow> distinct (map fst (swSpool w)) \<Longrightarrow> distinct (map fst files) \<Longrightarrow> set files = set (swSpool w) \<Longrightarrow>
   nbytes = spoolBytes w \<Longrightarrow> 0 < sint (swSpoolMaxBytes w) \<Longrightarrow> spoolBytes w' \<le> sint (swSpoolMaxBytes w) \<and> swSpoolMaxBytes w' = swSpoolMaxBytes w"
proof (induction W files nbytes w e rule: evictLoop.induct)
  case (2 W oldest files nbytes w e)
  show ?case
  proof (cases "nbytes \<le> sint (swSpoolMaxBytes w)")
    case True
    then show ?thesis using 2 by auto
  next
    case False
    obtain ok e1 where e1: "wOk W e = (ok, e1)" by fastforce
    have ok: ok using 2(3) e1 by (metis fst_conv)
    let ?v = "w\<lparr>swSpool := AList.delete (fst oldest) (swSpool w), swDropped := swDropped w @ [snd oldest]\<rparr>"
    have m: "map_of (swSpool w) (fst oldest) = Some (snd oldest)" using 2(4,6) by (intro map_of_is_SomeI) auto
    have "set files = set (AList.delete (fst oldest) (swSpool w))"
    proof -
      have "fst oldest \<notin> fst ` set files" using 2(5) by simp
      then have f: "x \<in> set files \<Longrightarrow> fst x \<noteq> fst oldest" for x by (metis imageI)
      have s: "x \<in> set (swSpool w) \<longleftrightarrow> x = oldest \<or> x \<in> set files" for x unfolding 2(6) [symmetric] by simp
      have "x \<in> set files \<longleftrightarrow> x \<in> set (swSpool w) \<and> fst x \<noteq> fst oldest" for x using f [of x] s [of x] by blast
      then show ?thesis by (auto simp: AList.delete_eq split_beta)
    qed
    moreover have "nbytes - int (length (snd oldest)) = spoolBytes ?v" using delete_bytes [OF 2(4) m] 2(7) by (simp add: spoolBytes_def)
    moreover have "evictLoop W files (nbytes - int (length (snd oldest))) ?v e1 = (w', e')" using 2(2) False e1 ok by simp
    ultimately show ?thesis using 2(1) [OF False e1 [symmetric]] ok 2(3,4,5,8) by (simp add: distinct_delete)
  qed
qed (auto simp: spoolBytes_def)

lemma listed_all:
  assumes "listSpoolLocked W w e = ((files, nbytes), e')" "\<forall>e. fst (wOk W e)" "distinct (map fst (swSpool w))"
  shows "set files = set (swSpool w)" "distinct (map fst files)" "nbytes = spoolBytes w"
proof -
  have "distinct (map fst (sort_Slice (\<lambda>a b. fst a < fst b) (swSpool w)))"
    using assms(3) mset_eq_imp_distinct_iff [of "map fst (sort_Slice (\<lambda>a b. fst a < fst b) (swSpool w))" "map fst (swSpool w)"] by simp
  moreover obtain e1 where "wOk W e = (True, e1)" using assms(2) by (metis prod.collapse)
  ultimately show "set files = set (swSpool w)" "distinct (map fst files)" "nbytes = spoolBytes w"
    using assms(1) by (auto simp: listSpoolLocked_def spoolBytes_def)
qed

definition within :: "shipWorker \<Rightarrow> bool" where
  "within w \<longleftrightarrow> 0 < sint (swSpoolMaxBytes w) \<and> spoolBytes w \<le> sint (swSpoolMaxBytes w) \<and> distinct (map fst (swSpool w))"

lemma spoolOrDrop_within:
  assumes "spoolOrDrop W body w e = (w', e')" "\<forall>e. fst (wOk W e)" "within w"
  shows "within w'"
proof -
  have dist: "distinct (map fst (swSpool v')) " if "evictLoop W fs n v x = (v', x')" "distinct (map fst (swSpool v))" for fs n v x v' x'
    using that by (induction W fs n v x rule: evictLoop.induct) (auto simp: distinct_delete split: if_splits prod.splits)
  obtain ok v where s: "spool W body w e = (ok, v, e')" and w': "w' = (if ok then v else v\<lparr>swDropped := swDropped v @ [body]\<rparr>)"
    using assms(1) by (auto simp: spoolOrDrop_def split: prod.splits)
  show ?thesis
  proof (cases ok)
    case False
    then have "v = w" using s by (auto simp: spool_def split: if_splits prod.splits)
    then show ?thesis using assms(3) w' False by (simp add: within_def spoolBytes_def)
  next
    case True
    then obtain nanos e3 where en: "enforceCapLocked W (w\<lparr>swSpool := AList.update (spoolName nanos (swPid w)) body (swSpool w)\<rparr>) e3 = (v, e')"
      using s by (auto simp: spool_def split: if_splits prod.splits)
    let ?u = "w\<lparr>swSpool := AList.update (spoolName nanos (swPid w)) body (swSpool w)\<rparr>"
    obtain files nbytes e4 where l: "listSpoolLocked W ?u e3 = ((files, nbytes), e4)" by (metis prod.exhaust)
    have d: "distinct (map fst (swSpool ?u))" using assms(3) by (simp add: within_def distinct_update)
    have ev: "evictLoop W files nbytes ?u e4 = (v, e')" using en l assms(3) by (simp add: enforceCapLocked_def within_def)
    note la = listed_all [OF l assms(2) d]
    have "spoolBytes v \<le> sint (swSpoolMaxBytes ?u) \<and> swSpoolMaxBytes v = swSpoolMaxBytes ?u"
      using evictLoop_bound [OF ev assms(2) d la(2,1,3)] assms(3) by (simp add: within_def)
    then show ?thesis using dist [OF ev d] assms(3) True w' by (simp add: within_def)
  qed
qed

text \<open>
  Property C37. The spool stays within its bound: when it starts within \<^verbatim>\<open>spool_max_bytes\<close> and file operations succeed, the files in the spool directory never exceed this size between two steps of the
  worker and the flush goroutine.
\<close>

theorem spool_bounded:
  assumes "worker_run W w0 e0 A pc w e" "\<forall>e. fst (wOk W e)" "0 < sint (swSpoolMaxBytes w0)" "spoolBytes w0 \<le> sint (swSpoolMaxBytes w0)" "distinct (map fst (swSpool w0))"
  shows "spoolBytes w \<le> sint (swSpoolMaxBytes w)"
proof -
  have within_cong: "within v" if "within u" "swSpool v = swSpool u" "swSpoolMaxBytes v = swSpoolMaxBytes u" for u v using that by (simp add: within_def spoolBytes_def)
  have "within w"
    using assms(1)
  proof (induction rule: worker_run.induct)
    case (started w e)
    have "within w0" using assms(3-5) by (simp add: within_def)
    then show ?case by (rule within_cong) (use started in \<open>auto simp: worker_start_def Let_def split: if_splits prod.splits\<close>)
  next
    case (enqueued A pc w e body w' e')
    then show ?case using spoolOrDrop_within [OF _ assms(2)] by (auto simp: enqueue_def intro: within_cong split: if_splits)
  next
    case (taken A w e body queue)
    then show ?case by (auto intro: within_cong)
  next
    case (shipped A body w e w' e')
    then show ?case using spoolOrDrop_within [OF _ assms(2)] by (auto simp: shipOrSpool_def intro: within_cong split: if_splits prod.splits)
  next
    case (sent A name body names w e go w' e')
    then have "swSpoolMaxBytes w' = swSpoolMaxBytes w \<and> (swSpool w' = swSpool w \<or> swSpool w' = AList.delete name (swSpool w))"
      by (auto simp: drainSend_def split: if_splits prod.splits)
    then show ?case using sent.IH bytes_le [of name "swSpool w"] by (auto simp: within_def spoolBytes_def distinct_delete)
  qed
  then show ?thesis by (simp add: within_def)
qed

section \<open>Shutdown\<close>

text \<open>States of the world from which the merger acknowledges, file operations succeed and no deadline passes.\<close>

definition healthy :: "'e world \<Rightarrow> 'e set \<Rightarrow> bool" where
  "healthy W G \<longleftrightarrow> (\<forall>e \<in> G. (\<forall>body. \<exists>e' \<in> G. wPost W body e = (Status 200, e')) \<and> (\<exists>e' \<in> G. wDone W e = (False, e')) \<and> (\<exists>e' \<in> G. wOk W e = (True, e')))"

lemma ship_healthy: "healthy W G \<Longrightarrow> e \<in> G \<Longrightarrow> \<exists>e' \<in> G. shipEncoded W endpoint body e = (True, e')"
proof -
  assume h: "healthy W G" "e \<in> G"
  then obtain e' where "e' \<in> G" "wPost W body e = (Status 200, e')" unfolding healthy_def by blast
  then show ?thesis using h(2) by (auto simp: shipEncoded_def maxRetries_def numeral_3_eq_3)
qed

lemma drainFiles_healthy:
  assumes "healthy W G" "e \<in> G" "distinct (map fst (swSpool w))" "distinct names" "drainFiles W names w e = (w', e')"
  shows "set (swSpool w') = {x \<in> set (swSpool w). fst x \<notin> set names} \<and> distinct (map fst (swSpool w')) \<and> swIn w' = swIn w \<and> swDropped w' = swDropped w \<and>
    mset (swDelivered w') + mset (map snd (swSpool w')) = mset (swDelivered w) + mset (map snd (swSpool w))"
  using assms(2-5)
proof (induction names arbitrary: w e)
  case (Cons name names)
  obtain e1 where e1: "e1 \<in> G" "wDone W e = (False, e1)" using assms(1) Cons.prems(1) unfolding healthy_def by blast
  obtain e2 where e2: "e2 \<in> G" "wOk W e1 = (True, e2)" using assms(1) e1(1) unfolding healthy_def by blast
  show ?case
  proof (cases "map_of (swSpool w) name")
    case None
    then have "name \<notin> fst ` set (swSpool w)" by (simp add: map_of_eq_None_iff)
    moreover have "drainFiles W names w e2 = (w', e')" using Cons.prems(4) e1 e2 None by (simp add: drainRead_def)
    ultimately show ?thesis using Cons.IH [OF e2(1) Cons.prems(2)] Cons.prems(3) by force
  next
    case (Some body)
    obtain e3 where e3: "e3 \<in> G" "shipEncoded W (swEndpoint w) body e2 = (True, e3)" using ship_healthy [OF assms(1) e2(1)] by blast
    obtain e4 where e4: "e4 \<in> G" "wOk W e3 = (True, e4)" using assms(1) e3(1) unfolding healthy_def by blast
    let ?v = "w\<lparr>swDelivered := swDelivered w @ [body], swSpool := AList.delete name (swSpool w)\<rparr>"
    have r: "drainFiles W names ?v e4 = (w', e')" using Cons.prems(4) e1 e2 e3 e4 Some by (simp add: drainRead_def drainSend_def)
    have dv: "distinct (map fst (swSpool ?v))" using Cons.prems(2) by (simp add: distinct_delete)
    have "set (AList.delete name (swSpool w)) = {x \<in> set (swSpool w). fst x \<noteq> name}" by (auto simp: AList.delete_eq)
    then show ?thesis using Cons.IH [OF e4(1) dv _ r] Cons.prems(3) delete_mset(1) [OF Cons.prems(2) Some] by auto
  qed
qed simp

lemma record_commute: "w\<lparr>swIn := q, swDelivered := d\<rparr> = w\<lparr>swDelivered := d, swIn := q\<rparr>" for w :: shipWorker
  by (cases w) simp

lemma shutdownLoop_healthy:
  assumes "healthy W G" "e \<in> G" "distinct (map fst (swSpool w))" "swSpoolDir w \<noteq> []" "swEndpoint w \<noteq> []" "shutdownLoop W queue (w\<lparr>swIn := queue\<rparr>) e = (w', e')"
  shows "swIn w' = [] \<and> swSpool w' = [] \<and> swDropped w' = swDropped w \<and> mset (swDelivered w') = mset (swDelivered w) + mset queue + mset (map snd (swSpool w))"
  using assms(2-6)
proof (induction queue arbitrary: w e)
  case Nil
  let ?v = "w\<lparr>swIn := []\<rparr>"
  obtain e1 where e1: "e1 \<in> G" "wOk W e = (True, e1)" using assms(1) Nil.prems(1) unfolding healthy_def by blast
  let ?names = "map fst (sort_Slice (\<lambda>a b. fst a < fst b) (swSpool w))"
  have d: "distinct ?names" using Nil.prems(2) mset_eq_imp_distinct_iff [of ?names "map fst (swSpool w)"] by simp
  have dv: "distinct (map fst (swSpool ?v))" using Nil.prems(2) by simp
  have "drainFiles W ?names ?v e1 = (w', e')" using Nil.prems e1 by (simp add: drainSpool_def listSpoolLocked_def)
  note r = drainFiles_healthy [OF assms(1) e1(1) dv d this]
  moreover have "set ?names = fst ` set (swSpool w)" by simp
  ultimately have "set (swSpool w') = {}" by (auto simp del: list.set_map)
  then have "swSpool w' = []" by simp
  then show ?case using r by simp
next
  case (Cons body queue)
  let ?v = "w\<lparr>swIn := queue, swDelivered := swDelivered w @ [body]\<rparr>"
  obtain e1 where e1: "e1 \<in> G" "shipEncoded W (swEndpoint w) body e = (True, e1)" using ship_healthy [OF assms(1) Cons.prems(1)] by blast
  obtain e2 where e2: "e2 \<in> G" "wDone W e1 = (False, e2)" using assms(1) e1(1) unfolding healthy_def by blast
  have "shutdownLoop W queue ?v e2 = (w', e')" using Cons.prems(5) e1 e2 by (simp add: shipOrSpool_def)
  then have "shutdownLoop W queue ((w\<lparr>swDelivered := swDelivered w @ [body]\<rparr>)\<lparr>swIn := queue\<rparr>) e2 = (w', e')" unfolding record_commute .
  from Cons.IH [OF e2(1) _ _ _ this] show ?case using Cons.prems by simp
qed

text \<open>
  Property C20. What was accepted reaches the merger: whatever happened before, when the worker is in its \<^verbatim>\<open>select\<close>, \<^verbatim>\<open>shutdown\<close> is called and from then on the merger acknowledges, files can be read and
  removed and the deadline does not pass, then the queue and the spool end up empty, and every accepted batch that was not given up before has been acknowledged.
\<close>

theorem shutdown_delivers:
  assumes "worker_run W (newShipWorker endpoint dir cap depth pid files) e0 A Selecting w e" "ticking W clk"
    and "spool_ok (clk e0) (newShipWorker endpoint dir cap depth pid files)"
    and up: "healthy W G" "e \<in> G" and on: "swStarted w" "swSpoolDir w \<noteq> []" "swEndpoint w \<noteq> []" and s: "worker_shutdown W w e = (w', e')"
  shows "swIn w' = [] \<and> swSpool w' = [] \<and> swDropped w' = swDropped w \<and> A \<subseteq># mset (swDelivered w') + mset (swDropped w')"
proof -
  have i: "spool_ok (clk e) w" "accounted W A Selecting w" using worker_inv [OF assms(1,2) refl assms(3)] by simp_all
  obtain e1 where e1: "e1 \<in> G" "wDone W e = (False, e1)" using up unfolding healthy_def by blast
  have "shutdownLoop W (swIn w) (w\<lparr>swIn := swIn w\<rparr>) e1 = (w', e')" using s on(1) e1 by (simp add: worker_shutdown_def)
  from shutdownLoop_healthy [OF up(1) e1(1) _ on(2,3) this] i(1)
  have r: "swIn w' = []" "swSpool w' = []" "swDropped w' = swDropped w" "mset (swDelivered w') = mset (swDelivered w) + mset (swIn w) + mset (map snd (swSpool w))"
    by (simp_all add: spool_ok_def)
  obtain R where "places Selecting w = A + R" using i(2) unfolding accounted_def by blast
  then have "A \<subseteq># places Selecting w" by simp
  then show ?thesis using r by (simp add: places_def)
qed

section \<open>What is not kept\<close>

text \<open>
  A batch that the merger refuses for good stays the oldest file, and \<^verbatim>\<open>drainSpool\<close>, which takes any failure for an outage, gives up at it each time:
  the batches behind it are not sent again while it is there.
\<close>

lemma refused_attempts:
  assumes "\<forall>e. \<exists>e' s. wPost W body e = (Status s, e') \<and> s \<noteq> 200" "\<forall>e. \<not> fst (wDone W e)"
  shows "fst (attempts W body n first e) = False"
  using assms
proof (induction n arbitrary: first e)
  case (Suc n)
  obtain e1 where e1: "(if first then (False, e) else wDone W e) = (False, e1)" using Suc.prems(2) by (metis (full_types) prod.collapse)
  obtain s e2 where "wPost W body e1 = (Status s, e2)" "s \<noteq> 200" using Suc.prems(1) by blast
  then show ?case using Suc.IH [OF Suc.prems] e1 by simp
qed simp

theorem refused_batch_blocks:
  assumes files: "sort_Slice (\<lambda>a b. fst a < fst b) (swSpool w) = (name, body) # rest" "distinct (map fst (swSpool w))" "body \<noteq> []"
    and refused: "\<forall>e. \<exists>e' s. wPost W body e = (Status s, e') \<and> s \<noteq> 200" and ok: "\<forall>e. \<not> fst (wDone W e)" "\<forall>e. fst (wOk W e)"
  shows "fst (drainSpool W w e) = w"
proof (cases "swSpoolDir w = [] \<or> swEndpoint w = []")
  case False
  obtain e1 where e1: "wOk W e = (True, e1)" using ok(2) by (metis (full_types) prod.collapse)
  obtain e2 where e2: "wDone W e1 = (False, e2)" using ok(1) by (metis (full_types) prod.collapse)
  obtain e3 where e3: "wOk W e2 = (True, e3)" using ok(2) by (metis (full_types) prod.collapse)
  have "(name, body) \<in> set (swSpool w)" using files(1) by (metis list.set_intros(1) set_sort_Slice)
  then have m: "map_of (swSpool w) name = Some body" using files(2) by (rule map_of_is_SomeI [rotated])
  obtain e4 where "attempts W body maxRetries True e3 = (False, e4)" using refused_attempts [OF refused ok(1)] by (metis prod.collapse)
  then have "drainSend W name body w e3 = (False, w, e4)" using False files(3) by (simp add: drainSend_def shipEncoded_def)
  then show ?thesis using False e1 e2 e3 m files(1) by (simp add: drainSpool_def listSpoolLocked_def drainRead_def)
qed (simp add: drainSpool_def)

text \<open>Two batches that are spooled in the same nanosecond have one name: the second replaces the first, which is neither sent nor reported.\<close>

lemma same_instant_overwrites:
  "AList.update (spoolName t p) b (AList.update (spoolName t p) a files) = AList.update (spoolName t p) b files"
  by (induction files) auto

text \<open>When the deadline passes during \<^verbatim>\<open>shutdown\<close>, the batches that are still in the queue are neither sent nor spooled.\<close>

lemma deadline_leaves_queue:
  assumes "swStarted w" "swIn w = a # b # queue" "wDone W e = (False, e1)" "shipEncoded W (swEndpoint w) a e1 = (True, e2)" "wDone W e2 = (True, e3)"
  shows "worker_shutdown W w e = (w\<lparr>swIn := b # queue, swDelivered := swDelivered w @ [a]\<rparr>, e3)"
  using assms by (simp add: worker_shutdown_def shipOrSpool_def)

section \<open>Witnesses\<close>

text \<open>A world that counts its calls: the merger is down until the count reaches 3, and everything else succeeds.\<close>

definition demo_world :: "nat world" where
  "demo_world = \<lparr>wPost = \<lambda>body e. (Status (if e < 3 then 503 else 200), e + 1), wDone = \<lambda>e. (False, e), wNow = \<lambda>e. (e + 1, e + 1), wOk = \<lambda>e. (True, e)\<rparr>"

definition demo_worker :: shipWorker where
  "demo_worker = newShipWorker (bytes_of ''http://m/'') (bytes_of ''/s'') 10 2 7 [(spoolName 0 3, [1, 2, 3])]"

lemma demo_ticking: "ticking demo_world (\<lambda>e. e)"
  by (simp add: ticking_def demo_world_def)

lemma demo_healthy: "healthy demo_world {3..}"
  by (simp add: healthy_def demo_world_def)

lemma demo_spool_ok: "spool_ok 0 demo_worker"
  unfolding spool_ok_def demo_worker_def newShipWorker_def named_def by auto

text \<open>A batch is taken while the merger is down and spooled; another one waits in the queue.\<close>

definition demo_after :: shipWorker where
  "demo_after = demo_worker\<lparr>swStarted := True, swIn := [[5]], swSpool := [(spoolName 0 3, [1, 2, 3]), (spoolName 4 7, [4])]\<rparr>"

lemma evict_nothing: "n \<le> sint (swSpoolMaxBytes w) \<Longrightarrow> evictLoop W files n w e = (w, e)"
  by (cases files) simp_all

lemma demo_run: "worker_run demo_world demo_worker 0 {#[5], [4], [1, 2, 3]#} Selecting demo_after 4"
proof -
  let ?w = "demo_worker\<lparr>swStarted := True\<rparr>" let ?v = "?w\<lparr>swSpool := [(spoolName 0 3, [1, 2, 3]), (spoolName 4 7, [4])]\<rparr>"
  note eval = demo_worker_def newShipWorker_def demo_world_def bytes_of_def
  have ne: "spoolName 4 7 \<noteq> spoolName 0 3" using spoolName_inj by fastforce
  have "worker_run demo_world demo_worker 0 (mset (map snd (swSpool demo_worker))) Selecting ?w 0"
    by (rule worker_run.started) (simp add: worker_start_def eval)
  from worker_run.enqueued [OF this, of "[4]" "?w\<lparr>swIn := [[4]]\<rparr>" 0]
  have "worker_run demo_world demo_worker 0 {#[4], [1, 2, 3]#} Selecting (?w\<lparr>swIn := [[4]]\<rparr>) 0" by (simp add: enqueue_def eval)
  from worker_run.taken [OF this, of "[4]" "[]"] have "worker_run demo_world demo_worker 0 {#[4], [1, 2, 3]#} (Shipping [4]) ?w 0" by (simp add: eval)
  moreover have "shipOrSpool demo_world [4] ?w 0 = (?v, 4)"
  proof -
    have "enforceCapLocked demo_world ?v 4 = (?v, 4)"
      by (simp add: enforceCapLocked_def listSpoolLocked_def eval evict_nothing)
    moreover have "shipEncoded demo_world (swEndpoint ?w) [4] 0 = (False, 3)" by (simp add: shipEncoded_def maxRetries_def numeral_3_eq_3 eval)
    ultimately show ?thesis using ne by (simp add: shipOrSpool_def spoolOrDrop_def spool_def eval)
  qed
  ultimately have "worker_run demo_world demo_worker 0 {#[4], [1, 2, 3]#} Selecting ?v 4" by (rule worker_run.shipped)
  from worker_run.enqueued [OF this, of "[5]" demo_after 4] show ?thesis by (simp add: enqueue_def demo_after_def eval)
qed

theorem batches_accounted_witness:
  "worker_run demo_world demo_worker 0 {#[5], [4], [1, 2, 3]#} Selecting demo_after 4 \<and>
   mset (swDelivered demo_after) + mset (swIn demo_after) + flight Selecting + mset (map snd (swSpool demo_after)) + mset (swDropped demo_after) = {#[5], [4], [1, 2, 3]#}"
proof -
  have "\<forall>e. fst (wOk demo_world e)" "swDropped demo_after = []" by (simp_all add: demo_world_def demo_after_def demo_worker_def newShipWorker_def)
  then show ?thesis
    using batches_accounted [OF demo_run [unfolded demo_worker_def] demo_ticking] demo_spool_ok demo_run by (auto simp: demo_worker_def)
qed

theorem spool_bounded_witness: "worker_run demo_world demo_worker 0 {#[5], [4], [1, 2, 3]#} Selecting demo_after 4 \<and> spoolBytes demo_after \<le> 10"
proof -
  have "spoolBytes demo_after \<le> sint (swSpoolMaxBytes demo_after)"
    by (rule spool_bounded [OF demo_run]) (simp_all add: demo_world_def demo_worker_def newShipWorker_def spoolBytes_def)
  then show ?thesis using demo_run by (simp add: demo_after_def demo_worker_def newShipWorker_def)
qed

theorem shutdown_delivers_witness:
  "\<exists>w' e'. worker_shutdown demo_world demo_after 4 = (w', e') \<and> swSpool w' = [] \<and> {#[5], [4], [1, 2, 3]#} \<subseteq># mset (swDelivered w')"
proof -
  obtain w' e' where s: "worker_shutdown demo_world demo_after 4 = (w', e')" by fastforce
  have on: "swStarted demo_after" "swSpoolDir demo_after \<noteq> []" "swEndpoint demo_after \<noteq> []" "swDropped demo_after = []"
    by (simp_all add: demo_after_def demo_worker_def newShipWorker_def bytes_of_def)
  have g: "(4 :: nat) \<in> {3..}" by simp
  have "swSpool w' = [] \<and> swDropped w' = swDropped demo_after \<and> {#[5], [4], [1, 2, 3]#} \<subseteq># mset (swDelivered w') + mset (swDropped w')"
    using shutdown_delivers [OF demo_run [unfolded demo_worker_def] demo_ticking demo_spool_ok [unfolded demo_worker_def] demo_healthy g on(1-3) s] by blast
  then show ?thesis using s on(4) by auto
qed

end
