(* ===== verification/EdgeCold.thy ===== *)
theory EdgeCold
  imports ColdAccum ColdSpool
begin

text \<open>
  The cold tier of the edge processor (\<^verbatim>\<open>processor/asapedgeprocessor/cold_encoder.go\<close>, and the cold part of \<^verbatim>\<open>ingest.go\<close> and \<^verbatim>\<open>flush.go\<close>): samples go to the fragment encoder of their
  shard; a flush replaces the encoder, drains the old one, and hands its fragments to the ship worker or, in the intchunk format, to the shard's accumulator, which is sealed into a
  cold part when it spans a block, and at shutdown.

  \<open>ecParts\<close> lists the bodies handed to the cold-part shipper with their shard, whatever becomes of the POST: a block that is full is posted by a detached goroutine
  whose result is only logged (a run lets it happen at any later time), and \<^verbatim>\<open>Shutdown\<close> posts the last blocks itself and only logs a failure as well.
  The warm tier is left out.
\<close>

section \<open>State and operations\<close>

datatype ColdFormat = ColdFormatFragment | ColdFormatIntchunk

record ('c, 'l) edgeCold =
  ecShards :: "'c StreamingFragmentEncoder option list"
  ecReorderGrace :: i64
  ecSource :: gostr
  ecFormat :: ColdFormat
  ecPartEndpoint :: gostr
  ecBlockMs :: i64
  ecAccum :: "'l coldPartAccumulator list"
  ecWorker :: shipWorker
  ecParts :: "(nat \<times> u8 list) list"

fun firstLabel :: "goattrs \<Rightarrow> gostr list \<Rightarrow> gostr" where
  "firstLabel ext [] = []"
| "firstLabel ext (k # ks) = (case map_of ext k of None \<Rightarrow> firstLabel ext ks | Some v \<Rightarrow> if v \<noteq> [] then v else firstLabel ext ks)"

definition coldSourceFromLabels :: "goattrs \<Rightarrow> gostr" where
  "coldSourceFromLabels ext = firstLabel ext [bytes_of ''agent'', bytes_of ''source'', bytes_of ''agent_id'', bytes_of ''instance'']"

definition coldOptions :: "i64 \<Rightarrow> gostr \<Rightarrow> StreamingFragmentOptions" where
  "coldOptions grace source = \<lparr>foReorderGrace = grace, foSamplesPerChunk = 0, foSource = source, foIdleEvict = 0\<rparr>"

definition newColdEncoder :: "('c, 'l) edgeCold \<Rightarrow> 'c StreamingFragmentEncoder" where
  "newColdEncoder p = NewStreamingFragmentEncoder (coldOptions (ecReorderGrace p) (ecSource p))"

text \<open>The cold tier as \<^verbatim>\<open>newProcessor\<close> sets it up when it is enabled.\<close>

definition newEdgeCold :: "nat \<Rightarrow> i64 \<Rightarrow> goattrs \<Rightarrow> ColdFormat \<Rightarrow> gostr \<Rightarrow> i64 \<Rightarrow> shipWorker \<Rightarrow> ('c, 'l) edgeCold" where
  "newEdgeCold shardCount grace ext format partEndpoint blockMs worker =
     \<lparr>ecShards = replicate shardCount (Some (NewStreamingFragmentEncoder (coldOptions grace (coldSourceFromLabels ext)))), ecReorderGrace = grace,
      ecSource = coldSourceFromLabels ext, ecFormat = format, ecPartEndpoint = partEndpoint, ecBlockMs = blockMs,
      ecAccum = (if format = ColdFormatIntchunk then replicate shardCount (newColdPartAccumulator ext) else []), ecWorker = worker, ecParts = []\<rparr>"

text \<open>The cold part of ingesting a point: it is added to the encoder of its shard, whose error is ignored.\<close>

definition ingestCold :: "('c, 'l) fragLib \<Rightarrow> nat \<Rightarrow> TSDBSample \<Rightarrow> ('c, 'l) edgeCold \<Rightarrow> ('c, 'l) edgeCold" where
  "ingestCold lib idx s p = (case ecShards p ! idx of None \<Rightarrow> p
     | Some e \<Rightarrow> (case AddSampleF lib s e of Inl _ \<Rightarrow> p | Inr e' \<Rightarrow> p\<lparr>ecShards := (ecShards p)[idx := Some e']\<rparr>))"

definition drainShardCold :: "('c, 'l) fragLib \<Rightarrow> gostr list \<Rightarrow> nat \<Rightarrow> ('c, 'l) edgeCold \<Rightarrow> Fragment list \<times> ('c, 'l) edgeCold" where
  "drainShardCold lib ord idx p = (case ecShards p ! idx of None \<Rightarrow> ([], p)
     | Some old \<Rightarrow> (fst (DrainF lib ord True old), p\<lparr>ecShards := (ecShards p)[idx := Some (newColdEncoder p)]\<rparr>))"

definition shipFragments :: "'e world \<Rightarrow> (u8 list \<Rightarrow> u8 list option) \<Rightarrow> Fragment list \<Rightarrow> ('c, 'l) edgeCold \<Rightarrow> 'e \<Rightarrow> ('c, 'l) edgeCold \<times> 'e" where
  "shipFragments W gzipBytes frags p e =
     (if frags = [] then (p, e) else case shipBatch W gzipBytes frags (ecWorker p) e of (_, w, e) \<Rightarrow> (p\<lparr>ecWorker := w\<rparr>, e))"

definition sealColdPartBody :: "(f64 \<Rightarrow> i64) \<Rightarrow> xor_encoder \<Rightarrow> ('c, 'l) fragLib \<Rightarrow> nat \<Rightarrow> ('c, 'l) edgeCold \<Rightarrow> (part_error + u8 list) \<times> ('c, 'l) edgeCold" where
  "sealColdPartBody oob xor_enc lib idx p =
     (if acc_empty (ecAccum p ! idx) then (Inr [], p)
      else case seal (ecAccum p ! idx) of ((series, blockStart, blockEnd), a) \<Rightarrow>
           let p = p\<lparr>ecAccum := (ecAccum p)[idx := a]\<rparr>
           in if series = [] \<or> ecPartEndpoint p = [] then (Inr [], p) else (encodePart oob xor_enc lib blockStart blockEnd series, p))"

definition sealAndShipColdPart :: "(f64 \<Rightarrow> i64) \<Rightarrow> xor_encoder \<Rightarrow> ('c, 'l) fragLib \<Rightarrow> nat \<Rightarrow> ('c, 'l) edgeCold \<Rightarrow> ('c, 'l) edgeCold" where
  "sealAndShipColdPart oob xor_enc lib idx p = (case sealColdPartBody oob xor_enc lib idx p of
     (Inl _, p) \<Rightarrow> p | (Inr body, p) \<Rightarrow> if body = [] then p else p\<lparr>ecParts := ecParts p @ [(idx, body)]\<rparr>)"

definition accumulateColdPart :: "(f64 \<Rightarrow> i64) \<Rightarrow> xor_encoder \<Rightarrow> ('c, 'l) fragLib \<Rightarrow> nat \<Rightarrow> Fragment list \<Rightarrow> ('c, 'l) edgeCold \<Rightarrow> ('c, 'l) edgeCold" where
  "accumulateColdPart oob xor_enc lib idx frags p =
     (if length (ecAccum p) \<le> idx then p
      else case acc_add lib frags (ecAccum p ! idx) of (err, a) \<Rightarrow>
           let p = p\<lparr>ecAccum := (ecAccum p)[idx := a]\<rparr>
           in if err \<noteq> None then p
              else if 0 < sint (ecBlockMs p) \<and> sint (ecBlockMs p) \<le> sint (spanMs a) then sealAndShipColdPart oob xor_enc lib idx p else p)"

definition shipFragmentsForShard ::
    "'e world \<Rightarrow> (u8 list \<Rightarrow> u8 list option) \<Rightarrow> (f64 \<Rightarrow> i64) \<Rightarrow> xor_encoder \<Rightarrow> ('c, 'l) fragLib \<Rightarrow> nat \<Rightarrow> Fragment list \<Rightarrow> ('c, 'l) edgeCold \<Rightarrow> 'e \<Rightarrow> ('c, 'l) edgeCold \<times> 'e" where
  "shipFragmentsForShard W gzipBytes oob xor_enc lib idx frags p e =
     (if ecFormat p \<noteq> ColdFormatIntchunk then shipFragments W gzipBytes frags p e else (accumulateColdPart oob xor_enc lib idx frags p, e))"

text \<open>The cold part of \<^verbatim>\<open>flushShardWarmCold\<close> and of \<^verbatim>\<open>flushAll\<close>; \<open>ords\<close> gives the order in which a drain visits the series of a shard.\<close>

definition flushShardCold ::
    "'e world \<Rightarrow> (u8 list \<Rightarrow> u8 list option) \<Rightarrow> (f64 \<Rightarrow> i64) \<Rightarrow> xor_encoder \<Rightarrow> ('c, 'l) fragLib \<Rightarrow> gostr list \<Rightarrow> nat \<Rightarrow> ('c, 'l) edgeCold \<Rightarrow> 'e \<Rightarrow> ('c, 'l) edgeCold \<times> 'e" where
  "flushShardCold W gzipBytes oob xor_enc lib ord idx p e =
     (if length (ecShards p) \<le> idx then (p, e)
      else case drainShardCold lib ord idx p of (frags, p) \<Rightarrow> shipFragmentsForShard W gzipBytes oob xor_enc lib idx frags p e)"

fun drainAllCold :: "('c, 'l) fragLib \<Rightarrow> (nat \<Rightarrow> gostr list) \<Rightarrow> nat list \<Rightarrow> ('c, 'l) edgeCold \<Rightarrow> Fragment list \<times> ('c, 'l) edgeCold" where
  "drainAllCold lib ords [] p = ([], p)"
| "drainAllCold lib ords (i # is) p = (case drainShardCold lib (ords i) i p of (fs, p) \<Rightarrow> case drainAllCold lib ords is p of (gs, p) \<Rightarrow> (fs @ gs, p))"

definition flushAllCold ::
    "'e world \<Rightarrow> (u8 list \<Rightarrow> u8 list option) \<Rightarrow> (f64 \<Rightarrow> i64) \<Rightarrow> xor_encoder \<Rightarrow> ('c, 'l) fragLib \<Rightarrow> (nat \<Rightarrow> gostr list) \<Rightarrow> ('c, 'l) edgeCold \<Rightarrow> 'e \<Rightarrow> ('c, 'l) edgeCold \<times> 'e" where
  "flushAllCold W gzipBytes oob xor_enc lib ords p e =
     (if ecFormat p = ColdFormatIntchunk
      then fold (\<lambda>i (p, e). case drainShardCold lib (ords i) i p of (frags, p) \<Rightarrow> shipFragmentsForShard W gzipBytes oob xor_enc lib i frags p e) [0..<length (ecShards p)] (p, e)
      else case drainAllCold lib ords [0..<length (ecShards p)] p of (frags, p) \<Rightarrow> shipFragments W gzipBytes frags p e)"

text \<open>\<^verbatim>\<open>flushColdPartAccumulators\<close> posts each body before it seals the next shard.\<close>

definition flushColdPartAccumulators ::
    "'e world \<Rightarrow> (f64 \<Rightarrow> i64) \<Rightarrow> xor_encoder \<Rightarrow> ('c, 'l) fragLib \<Rightarrow> ('c, 'l) edgeCold \<Rightarrow> 'e \<Rightarrow> ('c, 'l) edgeCold \<times> 'e" where
  "flushColdPartAccumulators W oob xor_enc lib p e =
     (if ecFormat p \<noteq> ColdFormatIntchunk then (p, e)
      else fold (\<lambda>idx (p, e). case sealColdPartBody oob xor_enc lib idx p of
             (Inl _, p) \<Rightarrow> (p, e)
           | (Inr body, p) \<Rightarrow> if body = [] then (p, e)
               else (p\<lparr>ecParts := ecParts p @ [(idx, body)]\<rparr>, snd (shipEncoded W (ecPartEndpoint p) body e))) [0..<length (ecAccum p)] (p, e))"

text \<open>
  The cold part of \<^verbatim>\<open>Shutdown\<close>. What it finds of the flush loop when it stops waiting: the loop was never started, it has ended with its final \<^verbatim>\<open>flushAll\<close>, or it is
  still running when the grace is over. Then the accumulators are left alone, since the loop may be writing them; the ship worker is drained in every case.
\<close>

datatype flushLoop = NotStarted | Ended | StillRunning

definition shutdownCold ::
    "'e world \<Rightarrow> (u8 list \<Rightarrow> u8 list option) \<Rightarrow> (f64 \<Rightarrow> i64) \<Rightarrow> xor_encoder \<Rightarrow> ('c, 'l) fragLib \<Rightarrow> (nat \<Rightarrow> gostr list) \<Rightarrow> flushLoop \<Rightarrow> ('c, 'l) edgeCold \<Rightarrow> 'e \<Rightarrow> ('c, 'l) edgeCold \<times> 'e" where
  "shutdownCold W gzipBytes oob xor_enc lib ords loop p e =
     (case (if loop = Ended then flushAllCold W gzipBytes oob xor_enc lib ords p e else (p, e)) of (p, e) \<Rightarrow>
      case (if loop \<noteq> StillRunning then flushColdPartAccumulators W oob xor_enc lib p e else (p, e)) of (p, e) \<Rightarrow>
      case worker_shutdown W (ecWorker p) e of (w, e) \<Rightarrow> (p\<lparr>ecWorker := w\<rparr>, e))"

section \<open>One shard\<close>

definition handedParts :: "nat \<Rightarrow> ('c, 'l) edgeCold \<Rightarrow> u8 list list" where
  "handedParts i p = map snd (filter (\<lambda>(j, b). j = i) (ecParts p))"

definition same_settings :: "('c, 'l) edgeCold \<Rightarrow> ('c, 'l) edgeCold \<Rightarrow> bool" where
  "same_settings p p' \<longleftrightarrow>
     length (ecShards p') = length (ecShards p) \<and> length (ecAccum p') = length (ecAccum p) \<and> ecReorderGrace p' = ecReorderGrace p \<and>
     ecSource p' = ecSource p \<and> ecFormat p' = ecFormat p \<and> ecPartEndpoint p' = ecPartEndpoint p \<and> ecBlockMs p' = ecBlockMs p"

text \<open>A step that works on one shard leaves the settings and the other shards as they are.\<close>

definition only_shard :: "nat \<Rightarrow> ('c, 'l) edgeCold \<Rightarrow> ('c, 'l) edgeCold \<Rightarrow> bool" where
  "only_shard i p p' \<longleftrightarrow> same_settings p p' \<and>
     (\<forall>j. j \<noteq> i \<longrightarrow> ecShards p' ! j = ecShards p ! j \<and> ecAccum p' ! j = ecAccum p ! j \<and> handedParts j p' = handedParts j p)"

lemma only_shard_trans: "only_shard i p q \<Longrightarrow> only_shard i q r \<Longrightarrow> only_shard i p r"
  by (simp add: only_shard_def same_settings_def)

lemma only_shard_updates [intro]:
  "only_shard i p p" "only_shard i p (p\<lparr>ecShards := (ecShards p)[i := x]\<rparr>)" "only_shard i p (p\<lparr>ecAccum := (ecAccum p)[i := a]\<rparr>)"
  "only_shard i p (p\<lparr>ecParts := ecParts p @ [(i, b)]\<rparr>)"
  by (simp_all add: only_shard_def same_settings_def handedParts_def)

lemma ingest_only: "only_shard i p (ingestCold lib i s p)"
  by (auto simp: ingestCold_def split: option.splits sum.splits)

lemma drain_only: "drainShardCold lib ord i p = (frags, p') \<Longrightarrow> only_shard i p p'"
  by (auto simp: drainShardCold_def split: option.splits)

lemma body_only: "sealColdPartBody oob xor_enc lib i p = (r, p') \<Longrightarrow> only_shard i p p'"
  by (auto simp: sealColdPartBody_def Let_def split: if_splits prod.splits)

lemma ship_only: "only_shard i p (sealAndShipColdPart oob xor_enc lib i p)"
  using body_only [of oob xor_enc lib i p]
  by (auto simp: sealAndShipColdPart_def split: prod.splits sum.splits if_splits intro: only_shard_trans)

lemma accumulate_only: "only_shard i p (accumulateColdPart oob xor_enc lib i frags p)"
  by (auto simp: accumulateColdPart_def Let_def split: prod.splits intro: only_shard_trans [OF _ ship_only])

lemma flush_shard:
  assumes "ecFormat p = ColdFormatIntchunk" "i < length (ecShards p)" "drainShardCold lib ord i p = (frags, q)"
  shows "flushShardCold W gzipBytes oob xor_enc lib ord i p e = (accumulateColdPart oob xor_enc lib i frags q, e)"
proof -
  have "ecFormat q = ColdFormatIntchunk" using drain_only [OF assms(3)] assms(1) by (simp add: only_shard_def same_settings_def)
  then show ?thesis using assms by (simp add: flushShardCold_def shipFragmentsForShard_def)
qed

section \<open>Blocks\<close>

text \<open>
  A sealed block: the fragments that went into it and, where one was handed to the shipper, its body. A block whose series hold fewer than 65536
  samples has a body, and it opens as the archive of the fragments.
\<close>

definition block_kept :: "nat \<Rightarrow> xor_decoder \<Rightarrow> ('c, 'l) fragLib \<Rightarrow> goattrs \<Rightarrow> Fragment list \<times> u8 list option \<Rightarrow> bool" where
  "block_kept maxSeries xor_dec lib ext blk \<longleftrightarrow>
     (\<forall>l. length (latest (arrived lib ext (fst blk) l)) < 2 ^ 16) \<longrightarrow>
     (\<exists>b. snd blk = Some b \<and> (length b < 2 ^ 32 \<longrightarrow> opens_as maxSeries xor_dec lib ext (fst blk) b))"

text \<open>Fragments cut into blocks whose bodies were handed over, and the ones that are not in a block yet.\<close>

definition cut_into :: "nat \<Rightarrow> xor_decoder \<Rightarrow> ('c, 'l) fragLib \<Rightarrow> goattrs \<Rightarrow> Fragment list \<Rightarrow> u8 list list \<Rightarrow> Fragment list \<Rightarrow> bool" where
  "cut_into maxSeries xor_dec lib ext out bodies rest \<longleftrightarrow>
     (\<exists>blocks. out = concat (map fst blocks) @ rest \<and> bodies = List.map_filter snd blocks \<and> (\<forall>blk \<in> set blocks. block_kept maxSeries xor_dec lib ext blk))"

lemma cut_add: "cut_into M xd lib ext out bodies rest \<Longrightarrow> cut_into M xd lib ext (out @ new) bodies (rest @ new)"
  by (auto simp: cut_into_def)

lemma cut_seal:
  assumes "cut_into M xd lib ext out bodies rest" "block_kept M xd lib ext (rest, r)"
  shows "cut_into M xd lib ext out (bodies @ (case r of None \<Rightarrow> [] | Some b \<Rightarrow> [b])) []"
proof -
  obtain blocks where "out = concat (map fst blocks) @ rest" "bodies = List.map_filter snd blocks" "\<forall>blk \<in> set blocks. block_kept M xd lib ext blk"
    using assms(1) by (auto simp: cut_into_def)
  then show ?thesis unfolding cut_into_def
    using assms(2) by (intro exI [of _ "blocks @ [(rest, r)]"]) (auto simp: List.map_filter_def split: option.splits)
qed

lemma frag_ok_decodes: "frag_ok lib n f \<Longrightarrow> decodedSamples lib f \<noteq> [] \<and> (\<exists>xs. DecodeFragmentSamples lib f = Inr xs)"
  by (auto simp: frag_ok_def decodedSamples_def split: sum.splits)

lemma acc_add_decodes: "\<forall>f \<in> set frags. \<exists>n. frag_ok lib n f \<Longrightarrow> \<exists>a'. acc_add lib frags a = (None, a')"
  by (induction frags arbitrary: a) (auto simp: frag_ok_def Let_def split: sum.splits)

lemma sealed_series:
  assumes "accumulates lib ext frags a" "seal a = ((series, t, t'), a')" "\<not> acc_empty a"
  shows "series \<noteq> []"
proof -
  have "concat (map (decodedSamples lib) frags) \<noteq> []" using assms(1,3) by (auto simp: accumulates_def acc_empty_def Let_def)
  then obtain f where f: "f \<in> set frags" "decodedSamples lib f \<noteq> []" by auto
  then have "arrived lib ext frags (frag_labels lib ext f) \<noteq> []" by (auto simp: arrived_def)
  then show ?thesis using seal_accumulates(2) [OF assms(1,2)] by fastforce
qed

lemma body_seals:
  assumes laws: "label_laws (flProm lib)" "xor_codec xor_enc xor_dec" and M: "2 ^ 32 \<le> maxSeries" and i: "i < length (ecAccum p)" "ecPartEndpoint p \<noteq> []"
    and acc: "accumulates lib ext rest (ecAccum p ! i)" and ok: "\<forall>f \<in> set rest. \<exists>n. frag_ok lib n f"
    and cut: "cut_into maxSeries xor_dec lib ext out bodies rest" and body: "sealColdPartBody oob xor_enc lib i p = (r, p')"
  shows "accumulates lib ext [] (ecAccum p' ! i) \<and> ecShards p' = ecShards p \<and> ecParts p' = ecParts p \<and>
    cut_into maxSeries xor_dec lib ext out (bodies @ (case r of Inl _ \<Rightarrow> [] | Inr b \<Rightarrow> if b = [] then [] else [b])) []"
proof (cases "acc_empty (ecAccum p ! i)")
  case True
  then have "rest = []" using acc ok frag_ok_decodes by (cases rest) (fastforce simp: accumulates_def acc_empty_def Let_def)+
  then show ?thesis using True acc cut body by (auto simp: sealColdPartBody_def)
next
  case False
  obtain series t t' a where s: "seal (ecAccum p ! i) = ((series, t, t'), a)" by (cases "seal (ecAccum p ! i)") auto
  have ne: "series \<noteq> []" by (rule sealed_series [OF acc s False])
  have p': "p' = p\<lparr>ecAccum := (ecAccum p)[i := a]\<rparr>" and r: "r = encodePart oob xor_enc lib t t' series"
    using body s ne False i by (auto simp: sealColdPartBody_def Let_def)
  have "a = newColdPartAccumulator ext" by (rule seal_accumulates(4) [OF acc s])
  then have new: "accumulates lib ext [] (ecAccum p' ! i)" using accumulates_new i(1) by (simp add: p')
  note arch = block_archived [OF laws acc s]
  show ?thesis
  proof (cases r)
    case (Inl err)
    have "block_kept maxSeries xor_dec lib ext (rest, None)" using arch(1) [OF _ ne, of oob] Inl r by (auto simp: block_kept_def)
    from cut_seal [OF cut this] show ?thesis using new Inl by (simp add: p')
  next
    case (Inr b)
    have "block_kept maxSeries xor_dec lib ext (rest, Some b)" using arch(2) [of oob b maxSeries] Inr r M by (auto simp: block_kept_def)
    moreover have "b \<noteq> []" using WritePart_series [of oob xor_enc "flProm lib" t t' series b] ne r Inr by (auto simp: encodePart_def)
    ultimately show ?thesis using cut_seal [OF cut, of "Some b"] new Inr by (simp add: p')
  qed
qed

section \<open>Runs\<close>

text \<open>
  A run of the cold tier in the intchunk format with \<open>N\<close> shards, as shard \<open>i\<close> sees it: the samples that were added to the shard, the fragments its drains handed
  out, and the late samples that the encoders it replaced had dropped. A handed-over body may be posted at any time.
\<close>

inductive edge_run ::
    "'e world \<Rightarrow> (u8 list \<Rightarrow> u8 list option) \<Rightarrow> (f64 \<Rightarrow> i64) \<Rightarrow> xor_encoder \<Rightarrow> ('c, 'l) fragLib \<Rightarrow> nat \<Rightarrow> i64 \<Rightarrow> goattrs \<Rightarrow> gostr \<Rightarrow> i64 \<Rightarrow> nat \<Rightarrow>
     TSDBSample multiset \<Rightarrow> Fragment list \<Rightarrow> nat \<Rightarrow> ('c, 'l) edgeCold \<Rightarrow> 'e \<Rightarrow> bool"
  for W gzipBytes oob xor_enc lib N grace ext endpoint blockMs i where
  started: "edge_run W gzipBytes oob xor_enc lib N grace ext endpoint blockMs i {#} [] 0 (newEdgeCold N grace ext ColdFormatIntchunk endpoint blockMs w) e"
| ingested: "edge_run W gzipBytes oob xor_enc lib N grace ext endpoint blockMs i ss out n p e \<Longrightarrow> idx < N \<Longrightarrow>
    edge_run W gzipBytes oob xor_enc lib N grace ext endpoint blockMs i (if idx = i then add_mset s ss else ss) out n (ingestCold lib idx s p) e"
| flushed: "edge_run W gzipBytes oob xor_enc lib N grace ext endpoint blockMs i ss out n p e \<Longrightarrow> idx < N \<Longrightarrow> ecShards p ! idx = Some enc \<Longrightarrow>
    set ord = fst ` set (eSeries enc) \<Longrightarrow> DrainF lib ord True enc = (frags, enc') \<Longrightarrow> flushShardCold W gzipBytes oob xor_enc lib ord idx p e = (p', e') \<Longrightarrow>
    edge_run W gzipBytes oob xor_enc lib N grace ext endpoint blockMs i ss (if idx = i then out @ frags else out) (if idx = i then n + DroppedSamples enc' else n) p' e'"
| posted: "edge_run W gzipBytes oob xor_enc lib N grace ext endpoint blockMs i ss out n p e \<Longrightarrow> (idx, body) \<in> set (ecParts p) \<Longrightarrow>
    shipEncoded W (ecPartEndpoint p) body e = (ok, e') \<Longrightarrow> edge_run W gzipBytes oob xor_enc lib N grace ext endpoint blockMs i ss out n p e'"

definition configured :: "nat \<Rightarrow> i64 \<Rightarrow> goattrs \<Rightarrow> gostr \<Rightarrow> ('c, 'l) edgeCold \<Rightarrow> bool" where
  "configured N grace ext endpoint p \<longleftrightarrow>
     length (ecShards p) = N \<and> length (ecAccum p) = N \<and> ecReorderGrace p = grace \<and> ecSource p = coldSourceFromLabels ext \<and>
     ecFormat p = ColdFormatIntchunk \<and> ecPartEndpoint p = endpoint"

text \<open>What a shard has done with its samples: those not in its encoder are in fragments or were dropped, and the fragments are in blocks or in the accumulator.\<close>

definition encoder_kept :: "('c, 'l) fragLib \<Rightarrow> StreamingFragmentOptions \<Rightarrow> TSDBSample multiset \<Rightarrow> Fragment list \<Rightarrow> nat \<Rightarrow> 'c StreamingFragmentEncoder option \<Rightarrow> bool" where
  "encoder_kept lib opts ss out n sh \<longleftrightarrow>
     (\<exists>enc prev new D. sh = Some enc \<and> encodes lib opts new [] enc \<and> ss = prev + new \<and> shipped_points lib out + D = image_mset keyed prev \<and> size D = n) \<and>
     (\<forall>f \<in> set out. \<exists>m. frag_ok lib m f)"

definition accum_kept :: "nat \<Rightarrow> xor_decoder \<Rightarrow> ('c, 'l) fragLib \<Rightarrow> goattrs \<Rightarrow> Fragment list \<Rightarrow> u8 list list \<Rightarrow> 'l coldPartAccumulator \<Rightarrow> bool" where
  "accum_kept maxSeries xor_dec lib ext out bodies a \<longleftrightarrow>
     (\<exists>rest. cut_into maxSeries xor_dec lib ext out bodies rest \<and> set rest \<subseteq> set out \<and> accumulates lib ext rest a)"

definition shard_kept :: "nat \<Rightarrow> xor_decoder \<Rightarrow> ('c, 'l) fragLib \<Rightarrow> i64 \<Rightarrow> goattrs \<Rightarrow> nat \<Rightarrow> TSDBSample multiset \<Rightarrow> Fragment list \<Rightarrow> nat \<Rightarrow> ('c, 'l) edgeCold \<Rightarrow> bool" where
  "shard_kept maxSeries xor_dec lib grace ext i ss out n p \<longleftrightarrow>
     encoder_kept lib (coldOptions grace (coldSourceFromLabels ext)) ss out n (ecShards p ! i) \<and>
     accum_kept maxSeries xor_dec lib ext out (handedParts i p) (ecAccum p ! i)"

lemma shard_kept_other: "only_shard j p p' \<Longrightarrow> j \<noteq> i \<Longrightarrow> shard_kept M xd lib grace ext i ss out n p' = shard_kept M xd lib grace ext i ss out n p"
  by (simp add: shard_kept_def only_shard_def)

lemma configured_only: "only_shard j p p' \<Longrightarrow> configured N grace ext endpoint p' = configured N grace ext endpoint p"
  by (simp add: configured_def only_shard_def same_settings_def)

lemma encoder_keptI:
  "encodes lib opts new [] enc \<Longrightarrow> shipped_points lib out + D = image_mset keyed prev \<Longrightarrow> \<forall>f \<in> set out. \<exists>m. frag_ok lib m f \<Longrightarrow>
   encoder_kept lib opts (prev + new) out (size D) (Some enc)"
  unfolding encoder_kept_def by blast

lemma shard_kept_new:
  assumes "i < N"
  shows "shard_kept M xd lib grace ext i {#} [] 0 (newEdgeCold N grace ext ColdFormatIntchunk endpoint blockMs w)"
proof -
  have "cut_into M xd lib ext [] [] []" unfolding cut_into_def by (rule exI [of _ "[]"]) (simp add: List.map_filter_def)
  then show ?thesis using assms accumulates_new [of lib ext] encoder_keptI [OF encodes.created, of lib "[]" "{#}" "{#}"]
    by (auto simp: shard_kept_def accum_kept_def newEdgeCold_def handedParts_def shipped_points_def)
qed

lemma spc_ok: "foSamplesPerChunk (coldOptions grace source) \<le> 65535" by (simp add: coldOptions_def)

lemma ingest_kept:
  assumes laws: "frag_laws lib content" and i: "i < length (ecShards p)" and k: "shard_kept M xd lib grace ext i ss out n p"
  shows "shard_kept M xd lib grace ext i (add_mset s ss) out n (ingestCold lib i s p)"
proof -
  let ?opts = "coldOptions grace (coldSourceFromLabels ext)"
  obtain enc prev new D where e: "ecShards p ! i = Some enc" "encodes lib ?opts new [] enc" "ss = prev + new"
    "shipped_points lib out + D = image_mset keyed prev" "size D = n" and ok: "\<forall>f \<in> set out. \<exists>m. frag_ok lib m f"
    using k by (auto simp: shard_kept_def encoder_kept_def)
  have "\<not> eClosed enc" using encodes_inv [OF e(2) laws spc_ok] by (simp add: run_inv_def)
  then obtain enc' where a: "AddSampleF lib s enc = Inr enc'" by (simp add: AddSampleF_def Let_def split_beta)
  then have p': "ingestCold lib i s p = p\<lparr>ecShards := (ecShards p)[i := Some enc']\<rparr>" using e(1) by (simp add: ingestCold_def)
  have "encodes lib ?opts (add_mset s new) [] enc'" by (rule encodes.added [OF e(2) a])
  from encoder_keptI [OF this e(4) ok] have "encoder_kept lib ?opts (add_mset s ss) out n (Some enc')" using e(3,5) by simp
  then show ?thesis using k i by (simp add: shard_kept_def p' handedParts_def)
qed

lemma drain_account:
  assumes laws: "frag_laws lib content" and k: "encoder_kept lib (coldOptions grace source) ss out n (Some enc)"
    and dr: "set ord = fst ` set (eSeries enc)" "DrainF lib ord True enc = (frags, enc')"
  shows "\<exists>D. shipped_points lib (out @ frags) + D = image_mset keyed ss \<and> size D = n + DroppedSamples enc'" "\<forall>f \<in> set (out @ frags). \<exists>m. frag_ok lib m f"
proof -
  obtain prev new D where e: "encodes lib (coldOptions grace source) new [] enc" "ss = prev + new" "shipped_points lib out + D = image_mset keyed prev" "size D = n"
    and ok: "\<forall>f \<in> set out. \<exists>m. frag_ok lib m f" using k by (auto simp: encoder_kept_def)
  obtain D' where D': "shipped_points lib frags + D' = image_mset keyed new" "size D' = DroppedSamples enc'" "\<forall>f \<in> set frags. frag_ok lib (eSamplesPerChk enc') f"
    using flush_complete [OF laws spc_ok e(1) dr(2,1)] by auto
  show "\<forall>f \<in> set (out @ frags). \<exists>m. frag_ok lib m f" using ok D'(3) by auto
  have "shipped_points lib (out @ frags) + (D + D') = image_mset keyed ss"
    unfolding e(2) image_mset_union e(3) [symmetric] D'(1) [symmetric] by (simp add: shipped_points_def ac_simps)
  then show "\<exists>D. shipped_points lib (out @ frags) + D = image_mset keyed ss \<and> size D = n + DroppedSamples enc'"
    using e(4) D'(2) by (intro exI [of _ "D + D'"]) simp
qed

lemma flush_kept:
  assumes laws: "frag_laws lib content" "label_laws (flProm lib)" "inj (lString lib)" "xor_codec xor_enc xor_dec" "2 ^ 32 \<le> maxSeries"
    and cfg: "configured N grace ext endpoint p" "i < N" "endpoint \<noteq> []" and k: "shard_kept maxSeries xor_dec lib grace ext i ss out n p"
    and sh: "ecShards p ! i = Some enc" and ord: "set ord = fst ` set (eSeries enc)" and dr: "DrainF lib ord True enc = (frags, enc')"
    and fl: "flushShardCold W gzipBytes oob xor_enc lib ord i p e = (p', e')"
  shows "only_shard i p p' \<and> shard_kept maxSeries xor_dec lib grace ext i ss (out @ frags) (n + DroppedSamples enc') p'"
proof -
  let ?opts = "coldOptions grace (coldSourceFromLabels ext)"
  let ?q = "p\<lparr>ecShards := (ecShards p)[i := Some (NewStreamingFragmentEncoder ?opts)]\<rparr>"
  have d: "drainShardCold lib ord i p = (frags, ?q)" using sh dr cfg(1) by (simp add: drainShardCold_def newColdEncoder_def configured_def)
  have p': "p' = accumulateColdPart oob xor_enc lib i frags ?q"
    using flush_shard [OF _ _ d, of W gzipBytes oob xor_enc e] cfg fl by (simp add: configured_def)
  have only: "only_shard i p p'" unfolding p' by (rule only_shard_trans [OF drain_only [OF d] accumulate_only])
  have ek: "encoder_kept lib ?opts ss out n (Some enc)" using k sh by (simp add: shard_kept_def)
  obtain D where D: "shipped_points lib (out @ frags) + D = image_mset keyed ss" "size D = n + DroppedSamples enc'"
    using drain_account(1) [OF laws(1) ek ord dr] by blast
  note ok' = drain_account(2) [OF laws(1) ek ord dr]
  have enc: "encoder_kept lib ?opts ss (out @ frags) (n + DroppedSamples enc') (Some (NewStreamingFragmentEncoder ?opts))"
    using encoder_keptI [OF encodes.created D(1) ok', of ?opts] D(2) by simp
  obtain rest where c: "cut_into maxSeries xor_dec lib ext out (handedParts i p) rest" "set rest \<subseteq> set out" "accumulates lib ext rest (ecAccum p ! i)"
    using k by (auto simp: shard_kept_def accum_kept_def)
  obtain a where a: "acc_add lib frags (ecAccum p ! i) = (None, a)" using acc_add_decodes [of frags lib] ok' by auto
  have acc: "accumulates lib ext (rest @ frags) a" by (rule accumulates_add [OF laws(3) c(3) a])
  note cut = cut_add [OF c(1), of frags]
  have sub: "set (rest @ frags) \<subseteq> set (out @ frags)" using c(2) by auto
  let ?r = "?q\<lparr>ecAccum := (ecAccum p)[i := a]\<rparr>"
  have r: "p' = (if 0 < sint (ecBlockMs p) \<and> sint (ecBlockMs p) \<le> sint (spanMs a) then sealAndShipColdPart oob xor_enc lib i ?r else ?r)"
    using cfg a by (simp add: p' accumulateColdPart_def configured_def Let_def)
  have len: "i < length (ecAccum ?r)" "ecPartEndpoint ?r \<noteq> []" "ecAccum ?r ! i = a" "handedParts i ?r = handedParts i p" "i < length (ecShards p)"
    using cfg by (auto simp: configured_def handedParts_def)
  have "ecShards p' ! i = Some (NewStreamingFragmentEncoder ?opts) \<and> accum_kept maxSeries xor_dec lib ext (out @ frags) (handedParts i p') (ecAccum p' ! i)"
  proof (cases "0 < sint (ecBlockMs p) \<and> sint (ecBlockMs p) \<le> sint (spanMs a)")
    case False
    then have "p' = ?r" using r by auto
    moreover have "accum_kept maxSeries xor_dec lib ext (out @ frags) (handedParts i p) a" using acc cut sub unfolding accum_kept_def by blast
    ultimately show ?thesis using len by simp
  next
    case True
    obtain b s where b: "sealColdPartBody oob xor_enc lib i ?r = (b, s)" by fastforce
    have "\<forall>f \<in> set (rest @ frags). \<exists>m. frag_ok lib m f" using ok' sub by blast
    from body_seals [OF laws(2,4,5) len(1,2) _ this cut b] have
      "accumulates lib ext [] (ecAccum s ! i) \<and> ecShards s = ecShards ?r \<and> ecParts s = ecParts ?r \<and>
       cut_into maxSeries xor_dec lib ext (out @ frags) (handedParts i p @ (case b of Inl _ \<Rightarrow> [] | Inr b \<Rightarrow> if b = [] then [] else [b])) []"
      using acc len(3) by simp
    then show ?thesis using True b len(5) r
      by (auto simp: sealAndShipColdPart_def handedParts_def accum_kept_def split: sum.splits if_splits)
  qed
  then show ?thesis using only enc by (simp add: shard_kept_def)
qed

lemma edge_run_kept:
  assumes "edge_run W gzipBytes oob xor_enc lib N grace ext endpoint blockMs i ss out n p e"
    and laws: "frag_laws lib content" "label_laws (flProm lib)" "inj (lString lib)" "xor_codec xor_enc xor_dec" "2 ^ 32 \<le> maxSeries"
    and i: "i < N" "endpoint \<noteq> []"
  shows "configured N grace ext endpoint p \<and> shard_kept maxSeries xor_dec lib grace ext i ss out n p"
  using assms(1)
proof induction
  case (started w e)
  then show ?case using shard_kept_new [OF i(1)] by (simp add: configured_def newEdgeCold_def)
next
  case (ingested ss out n p e idx s)
  have only: "only_shard idx p (ingestCold lib idx s p)" by (rule ingest_only)
  show ?case
  proof (cases "idx = i")
    case True
    have "shard_kept maxSeries xor_dec lib grace ext i (add_mset s ss) out n (ingestCold lib i s p)"
      using ingested i by (intro ingest_kept [OF laws(1)]) (auto simp: configured_def)
    then show ?thesis using True ingested configured_only [OF only] by simp
  next
    case False
    then show ?thesis using ingested configured_only [OF only] shard_kept_other [OF only False] by simp
  qed
next
  case (flushed ss out n p e idx enc ord frags enc' p' e')
  show ?case
  proof (cases "idx = i")
    case True
    have cfg: "configured N grace ext endpoint p" and k: "shard_kept maxSeries xor_dec lib grace ext i ss out n p" using flushed.IH by auto
    have "only_shard i p p' \<and> shard_kept maxSeries xor_dec lib grace ext i ss (out @ frags) (n + DroppedSamples enc') p'"
      using flushed.hyps unfolding True by (intro flush_kept [OF laws cfg i k])
    then show ?thesis using True cfg configured_only [of i p p'] by simp
  next
    case False
    obtain g q where d: "drainShardCold lib ord idx p = (g, q)" by fastforce
    have "p' = accumulateColdPart oob xor_enc lib idx g q"
      using flush_shard [OF _ _ d, of W gzipBytes oob xor_enc e] flushed by (simp add: configured_def)
    then have only: "only_shard idx p p'" using only_shard_trans [OF drain_only [OF d] accumulate_only] by blast
    then show ?thesis using False flushed.IH configured_only [OF only] shard_kept_other [OF only False] by simp
  qed
next
  case posted
  then show ?case by simp
qed

section \<open>Shutdown\<close>

lemma encoder_there: "encoder_kept lib opts ss out n sh \<Longrightarrow> \<exists>enc. sh = Some enc" by (auto simp: encoder_kept_def)

text \<open>\<^verbatim>\<open>flushAll\<close> in this format flushes one shard after the other.\<close>

lemma flush_only:
  assumes "configured N grace ext endpoint p" "j < N" "flushShardCold W gzipBytes oob xor_enc lib ord j p e = (p', e')"
  shows "only_shard j p p'"
proof -
  obtain g q where d: "drainShardCold lib ord j p = (g, q)" by fastforce
  have "p' = accumulateColdPart oob xor_enc lib j g q" using flush_shard [OF _ _ d, of W gzipBytes oob xor_enc e] assms by (simp add: configured_def)
  then show ?thesis using only_shard_trans [OF drain_only [OF d] accumulate_only] by blast
qed

lemma flush_rounds:
  assumes laws: "frag_laws lib content" "label_laws (flProm lib)" "inj (lString lib)" "xor_codec xor_enc xor_dec" "2 ^ 32 \<le> maxSeries"
    and i: "i < N" "endpoint \<noteq> []" and cfg: "configured N grace ext endpoint p" and k: "shard_kept maxSeries xor_dec lib grace ext i ss out n p"
    and sh: "ecShards p ! i = Some enc" "set (ords i) = fst ` set (eSeries enc)" "DrainF lib (ords i) True enc = (frags, enc')"
  shows "m \<le> N \<Longrightarrow> fold (\<lambda>j (p, e). case drainShardCold lib (ords j) j p of (frags, p) \<Rightarrow> shipFragmentsForShard W gzipBytes oob xor_enc lib j frags p e) [0..<m] (p, e) = (p', e') \<Longrightarrow>
    configured N grace ext endpoint p' \<and>
    (if i < m then shard_kept maxSeries xor_dec lib grace ext i ss (out @ frags) (n + DroppedSamples enc') p'
     else ecShards p' ! i = Some enc \<and> shard_kept maxSeries xor_dec lib grace ext i ss out n p')"
proof (induction m arbitrary: p' e')
  case 0
  then show ?case using cfg k sh by simp
next
  case (Suc m)
  let ?step = "\<lambda>j (p, e). case drainShardCold lib (ords j) j p of (frags, p) \<Rightarrow> shipFragmentsForShard W gzipBytes oob xor_enc lib j frags p e"
  obtain q e1 where q: "fold ?step [0..<m] (p, e) = (q, e1)" by fastforce
  have IH: "configured N grace ext endpoint q \<and>
    (if i < m then shard_kept maxSeries xor_dec lib grace ext i ss (out @ frags) (n + DroppedSamples enc') q
     else ecShards q ! i = Some enc \<and> shard_kept maxSeries xor_dec lib grace ext i ss out n q)" using Suc.IH [OF _ q] Suc.prems(1) by simp
  have "?step m (q, e1) = (p', e')" using Suc.prems(2) q by simp
  then have st: "flushShardCold W gzipBytes oob xor_enc lib (ords m) m q e1 = (p', e')" using IH Suc.prems(1) by (simp add: flushShardCold_def configured_def)
  have only: "only_shard m q p'" using IH Suc.prems(1) by (intro flush_only [OF _ _ st]) auto
  have cfg': "configured N grace ext endpoint p'" using IH configured_only [OF only] by simp
  show ?case
  proof (cases "m = i")
    case True
    have st': "flushShardCold W gzipBytes oob xor_enc lib (ords i) i q e1 = (p', e')" using st True by simp
    have "configured N grace ext endpoint q" "ecShards q ! i = Some enc" "shard_kept maxSeries xor_dec lib grace ext i ss out n q" using IH True by auto
    from flush_kept [OF laws this(1) i this(3,2) sh(2,3) st'] show ?thesis using cfg' True by simp
  next
    case False
    then show ?thesis using IH cfg' only shard_kept_other [OF only False] by (auto simp: only_shard_def)
  qed
qed

lemma accum_rounds:
  assumes laws: "label_laws (flProm lib)" "xor_codec xor_enc xor_dec" "2 ^ 32 \<le> maxSeries"
    and i: "i < N" "endpoint \<noteq> []" and cfg: "configured N grace ext endpoint p" and k: "shard_kept maxSeries xor_dec lib grace ext i ss out n p"
  shows "m \<le> N \<Longrightarrow> fold (\<lambda>idx (p, e). case sealColdPartBody oob xor_enc lib idx p of
             (Inl _, p) \<Rightarrow> (p, e)
           | (Inr body, p) \<Rightarrow> if body = [] then (p, e)
               else (p\<lparr>ecParts := ecParts p @ [(idx, body)]\<rparr>, snd (shipEncoded W (ecPartEndpoint p) body e))) [0..<m] (p, e) = (p', e') \<Longrightarrow>
    configured N grace ext endpoint p' \<and> shard_kept maxSeries xor_dec lib grace ext i ss out n p' \<and>
    (i < m \<longrightarrow> cut_into maxSeries xor_dec lib ext out (handedParts i p') [])"
proof (induction m arbitrary: p' e')
  case 0
  then show ?case using cfg k by simp
next
  case (Suc m)
  let ?step = "\<lambda>idx (p, e). case sealColdPartBody oob xor_enc lib idx p of
             (Inl _, p) \<Rightarrow> (p, e)
           | (Inr body, p) \<Rightarrow> if body = [] then (p, e)
               else (p\<lparr>ecParts := ecParts p @ [(idx, body)]\<rparr>, snd (shipEncoded W (ecPartEndpoint p) body e))"
  obtain q e1 where q: "fold ?step [0..<m] (p, e) = (q, e1)" by fastforce
  have IH: "configured N grace ext endpoint q" "shard_kept maxSeries xor_dec lib grace ext i ss out n q"
    "i < m \<longrightarrow> cut_into maxSeries xor_dec lib ext out (handedParts i q) []" using Suc.IH [OF _ q] Suc.prems(1) by simp_all
  obtain r s where b: "sealColdPartBody oob xor_enc lib m q = (r, s)" by fastforce
  have "?step m (q, e1) = (p', e')" using Suc.prems(2) q by simp
  then have p': "p' = (case r of Inl _ \<Rightarrow> s | Inr body \<Rightarrow> if body = [] then s else s\<lparr>ecParts := ecParts s @ [(m, body)]\<rparr>)"
    using b by (auto split: sum.splits if_splits)
  have only: "only_shard m q p'" using body_only [OF b] by (auto simp: p' split: sum.splits intro: only_shard_trans)
  have cfg': "configured N grace ext endpoint p'" using IH configured_only [OF only] by simp
  show ?case
  proof (cases "m = i")
    case False
    then show ?thesis using IH cfg' only shard_kept_other [OF only False] by (auto simp: only_shard_def)
  next
    case True
    obtain rest where c: "cut_into maxSeries xor_dec lib ext out (handedParts i q) rest" "set rest \<subseteq> set out" "accumulates lib ext rest (ecAccum q ! i)"
      using IH(2) by (auto simp: shard_kept_def accum_kept_def)
    have ok: "\<forall>f \<in> set rest. \<exists>m. frag_ok lib m f" using c(2) IH(2) by (auto simp: shard_kept_def encoder_kept_def)
    have "i < length (ecAccum q)" "ecPartEndpoint q \<noteq> []" using IH(1) i by (auto simp: configured_def)
    from body_seals [OF laws this c(3) ok c(1) b [unfolded True]]
    have s: "accumulates lib ext [] (ecAccum p' ! i)" "ecShards p' = ecShards q" "cut_into maxSeries xor_dec lib ext out (handedParts i p') []"
      unfolding p' True by (auto simp: handedParts_def split: sum.splits if_splits)
    have "accum_kept maxSeries xor_dec lib ext out (handedParts i p') (ecAccum p' ! i)" unfolding accum_kept_def using s(1,3) by (intro exI [of _ "[]"]) simp
    then show ?thesis using s(2,3) IH(2) cfg' by (simp add: shard_kept_def)
  qed
qed

text \<open>
  Property C14. The cold tier archives what it was given: in the intchunk format with a non-empty endpoint, for every interleaving of samples, flushes and posts over
  the shards followed by \<^verbatim>\<open>Shutdown\<close>, the fragments a shard's encoders handed out are cut, in order, into blocks, and the parts handed to the shipper for the shard are
  those of its blocks, in order. Every block whose series hold fewer than 65536 samples each has a part, which (below 4 GiB) opens and in which a query for matchers and
  a time range finds exactly the label sets of the block's fragments that it selects, with their samples, each time once at the value that arrived last.
  If the flush loop ended in time, the blocks cover all fragments, and the samples added to the shard are those of the fragments together with as many late samples
  as the encoders counted as dropped. If the loop was never started, the samples still in the encoder are not flushed; if it is still running, the
  fragments since the last block stay in the accumulator.
\<close>

theorem cold_tier_archives:
  assumes "frag_laws lib content" "label_laws (flProm lib)" "inj (lString lib)" "xor_codec xor_enc xor_dec" "2 ^ 32 \<le> maxSeries"
    and "i < N" "endpoint \<noteq> []" and "edge_run W gzipBytes oob xor_enc lib N grace ext endpoint blockMs i ss out n p e"
    and "ecShards p ! i = Some enc" "set (ords i) = fst ` set (eSeries enc)" "DrainF lib (ords i) True enc = (frags, enc')"
    and "shutdownCold W gzipBytes oob xor_enc lib ords loop p e = (p', e')"
  shows "(\<exists>D. shipped_points lib (out @ frags) + D = image_mset keyed ss \<and> size D = n + DroppedSamples enc') \<and>
    (\<exists>blocks rest. concat (map fst blocks) @ rest = (if loop = Ended then out @ frags else out) \<and> (loop \<noteq> StillRunning \<longrightarrow> rest = []) \<and>
      handedParts i p' = List.map_filter snd blocks \<and> (\<forall>blk \<in> set blocks. block_kept maxSeries xor_dec lib ext blk))"
proof -
  have kept: "configured N grace ext endpoint p" "shard_kept maxSeries xor_dec lib grace ext i ss out n p"
    using edge_run_kept [OF assms(8,1-5,6,7)] by auto
  let ?flush = "if loop = Ended then flushAllCold W gzipBytes oob xor_enc lib ords p e else (p, e)"
  let ?out = "if loop = Ended then out @ frags else out" and ?n = "if loop = Ended then n + DroppedSamples enc' else n"
  obtain q e1 where q: "?flush = (q, e1)" by fastforce
  obtain r e2 where r: "(if loop \<noteq> StillRunning then flushColdPartAccumulators W oob xor_enc lib q e1 else (q, e1)) = (r, e2)" by fastforce
  have handed: "handedParts i p' = handedParts i r" using assms(12) q r by (auto simp: shutdownCold_def handedParts_def split: prod.splits)
  have k: "configured N grace ext endpoint q" "shard_kept maxSeries xor_dec lib grace ext i ss ?out ?n q"
    using flush_rounds [where ords = ords and m = N and W = W and gzipBytes = gzipBytes and oob = oob and e = e and p' = q and e' = e1, OF assms(1-7) kept assms(9-11)] kept q assms(6)
    by (auto simp: flushAllCold_def configured_def split: if_splits)
  have "\<exists>rest. cut_into maxSeries xor_dec lib ext ?out (handedParts i r) rest \<and> (loop \<noteq> StillRunning \<longrightarrow> rest = [])"
  proof (cases "loop = StillRunning")
    case True
    then show ?thesis using k(2) r by (auto simp: shard_kept_def accum_kept_def)
  next
    case False
    then show ?thesis
      using accum_rounds [OF assms(2,4-7) k, where m = N and oob = oob and W = W and e = e1 and p' = r and e' = e2] r k(1) assms(6)
      by (auto simp: flushColdPartAccumulators_def configured_def)
  qed
  moreover have "encoder_kept lib (coldOptions grace (coldSourceFromLabels ext)) ss out n (Some enc)" using kept(2) assms(9) by (simp add: shard_kept_def)
  note drain_account(1) [OF assms(1) this assms(10,11)]
  ultimately show ?thesis unfolding handed cut_into_def by (elim exE conjE, intro conjI) (fastforce, metis)
qed

section \<open>A demonstration\<close>

lemma listBlock_frag: "frag_laws listBlock (\<lambda>c. c)"
  using listFrag_laws listLib_xor by (simp add: frag_laws_def listBlock_def)

lemma plain_codec: "xor_codec plain_enc plain_dec"
  using plain_dec_enc by (auto simp: xor_codec_def plain_enc_def)

definition cold_samples :: "TSDBSample list" where
  "cold_samples = [frag_sample [] 10000000 7, frag_sample [] 20000000 8, frag_sample [] 5000000 9]"

type_synonym demo_cold = "((int \<times> u64) list, (gostr \<times> gostr) list) edgeCold"

definition cold_start :: demo_cold where
  "cold_start = newEdgeCold 2 0 [] ColdFormatIntchunk (bytes_of ''http://m/'') 60000 demo_worker"

definition cold_fed :: demo_cold where
  "cold_fed = fold (ingestCold listBlock 1) cold_samples cold_start"

definition cold_encoder :: "(int \<times> u64) list StreamingFragmentEncoder" where
  "cold_encoder = (case ecShards cold_fed ! 1 of None \<Rightarrow> NewStreamingFragmentEncoder (coldOptions 0 []) | Some e \<Rightarrow> e)"

lemma cold_fed_ok:
  "ecShards cold_fed ! 1 = Some cold_encoder" "map fst (eSeries cold_encoder) = [fragmentKey (bytes_of ''m'') []]"
  "DroppedSamples (snd (DrainF listBlock [fragmentKey (bytes_of ''m'') []] True cold_encoder)) = 1"
  "map (decodedSamples listBlock) (fst (DrainF listBlock [fragmentKey (bytes_of ''m'') []] True cold_encoder)) = [[\<lparr>sT = 10, sV = 7\<rparr>, \<lparr>sT = 20, sV = 8\<rparr>]]"
  by code_simp+

lemma cold_run: "edge_run W gzipBytes oob xor_enc listBlock 2 0 [] (bytes_of ''http://m/'') 60000 1 (mset cold_samples) [] 0 cold_fed e"
proof -
  have "edge_run W gzipBytes oob xor_enc listBlock 2 0 [] (bytes_of ''http://m/'') 60000 1 ss [] 0 p e \<Longrightarrow>
    edge_run W gzipBytes oob xor_enc listBlock 2 0 [] (bytes_of ''http://m/'') 60000 1 (ss + mset xs) [] 0 (fold (ingestCold listBlock 1) xs p) e" for ss p xs
  proof (induction xs arbitrary: ss p)
    case (Cons x xs)
    from edge_run.ingested [OF Cons.prems, of 1 x] show ?case using Cons.IH [of "add_mset x ss" "ingestCold listBlock 1 x p"] by simp
  qed simp
  from this [OF edge_run.started] show ?thesis by (simp add: cold_fed_def cold_start_def)
qed

definition cold_ords :: "nat \<Rightarrow> gostr list" where
  "cold_ords i = (if i = 1 then [fragmentKey (bytes_of ''m'') []] else [])"

definition cold_end :: demo_cold where
  "cold_end = fst (shutdownCold demo_world Some (\<lambda>_. 0) plain_enc listBlock cold_ords Ended cold_fed 0)"

theorem cold_tier_archives_witness:
  "\<exists>frags D blocks. map (decodedSamples listBlock) frags = [[\<lparr>sT = 10, sV = 7\<rparr>, \<lparr>sT = 20, sV = 8\<rparr>]] \<and>
     shipped_points listBlock frags + D = image_mset keyed (mset cold_samples) \<and> size D = 1 \<and> concat (map fst blocks) = frags \<and>
     handedParts 1 cold_end = List.map_filter snd blocks \<and> handedParts 1 cold_end \<noteq> [] \<and> (\<forall>blk \<in> set blocks. block_kept (2 ^ 32) plain_dec listBlock [] blk)"
proof -
  obtain frags enc' where d: "DrainF listBlock (cold_ords 1) True cold_encoder = (frags, enc')" by fastforce
  obtain p' e' where s: "shutdownCold demo_world Some (\<lambda>_. 0) plain_enc listBlock cold_ords Ended cold_fed 0 = (p', e')" by fastforce
  have o: "set (cold_ords 1) = fst ` set (eSeries cold_encoder)" using arg_cong [OF cold_fed_ok(2), of set] by (simp add: cold_ords_def)
  have end': "cold_end = p'" using s by (simp add: cold_end_def)
  have l: "label_laws (flProm listBlock)" "inj (lString listBlock)" using listBlock_laws by (auto simp: block_laws_def)
  have fr: "map (decodedSamples listBlock) frags = [[\<lparr>sT = 10, sV = 7\<rparr>, \<lparr>sT = 20, sV = 8\<rparr>]]" "DroppedSamples enc' = 1" using cold_fed_ok(3,4) d by (simp_all add: cold_ords_def)
  obtain D blocks where r: "shipped_points listBlock frags + D = image_mset keyed (mset cold_samples)" "size D = 1"
    "concat (map fst blocks) = frags" "handedParts 1 p' = List.map_filter snd blocks" "\<forall>blk \<in> set blocks. block_kept (2 ^ 32) plain_dec listBlock [] blk"
    using cold_tier_archives [OF listBlock_frag l plain_codec order_refl _ _ cold_run cold_fed_ok(1) o d s] fr(2) by (auto simp: bytes_of_def)
  obtain f where f: "frags = [f]" "length (decodedSamples listBlock f) = 2" using fr(1) by auto
  then obtain blk where b: "blk \<in> set blocks" using r(3) by (cases blocks) auto
  obtain us vs where "blocks = us @ blk # vs" using split_list [OF b] by blast
  then have "concat (map fst us) @ fst blk @ concat (map fst vs) = [f]" using r(3) f(1) by simp
  then have "fst blk = [] \<or> fst blk = [f]" by (cases "fst blk") (auto simp: append_eq_Cons_conv)
  then have "length (arrived listBlock [] (fst blk) x) \<le> 2" for x using f(2) by (auto simp: arrived_def)
  then have "length (latest (arrived listBlock [] (fst blk) x)) \<le> 2" for x using latest_length le_trans by blast
  then have "length (latest (arrived listBlock [] (fst blk) x)) < 2 ^ 16" for x by (rule le_less_trans) simp
  then obtain body where "snd blk = Some body" using r(5) b by (auto simp: block_kept_def)
  then have "List.map_filter snd blocks \<noteq> []" using b by (auto simp: List.map_filter_def filter_empty_conv)
  then show ?thesis using r fr(1) end' by metis
qed

section \<open>Lost blocks\<close>

lemma Encode_long_nan:
  assumes "2 ^ 16 \<le> length xs" "\<exists>s \<in> set xs. f64_isnan (sV s)"
  shows "Encode oob xor_enc xs = Inl ErrEmpty"
  using assms by (auto simp: Encode_def candidates_def tryScaleToInt64_def encodeGorillaChunk_def xorChunkMaxSamples_def)

lemma encodeEntries_fails: "s \<in> set series \<Longrightarrow> Encode oob xor_enc (seSamples s) = Inl err \<Longrightarrow> \<exists>err. encodeEntries oob xor_enc lib t i series region = Inl err"
proof (induction series arbitrary: i region)
  case (Cons x series)
  show ?case
  proof (cases "x = s")
    case True
    then show ?thesis using Cons.prems(2) by simp
  next
    case False
    show ?thesis
    proof (cases "Encode oob xor_enc (seSamples x)")
      case (Inr res)
      obtain err where "encodeEntries oob xor_enc lib t (i + 1) series (region @ concat (erChunks res)) = Inl err"
        using Cons.IH [OF _ Cons.prems(2), of "i + 1" "region @ concat (erChunks res)"] Cons.prems(1) False by auto
      then show ?thesis using Inr by (simp add: Let_def)
    qed simp
  qed
qed simp

text \<open>
  One series can lose a block: when a series of the accumulator has 65536 samples or more and one of them is NaN, no chunk codec accepts it,
  the part is not written, and because \<^verbatim>\<open>seal\<close> has reset the accumulator, the samples of all series of the shard are gone.
\<close>

theorem long_series_loses_block:
  assumes "accumulates lib ext frags (ecAccum p ! i)" "i < length (ecAccum p)" "ecPartEndpoint p \<noteq> []"
    and "2 ^ 16 \<le> length (latest (arrived lib ext frags l))" "\<exists>s \<in> set (latest (arrived lib ext frags l)). f64_isnan (sV s)"
  shows "sealAndShipColdPart oob xor_enc lib i p = p\<lparr>ecAccum := (ecAccum p)[i := newColdPartAccumulator ext]\<rparr>"
proof -
  obtain series t t' a where s: "seal (ecAccum p ! i) = ((series, t, t'), a)" by (cases "seal (ecAccum p ! i)") auto
  have ne: "arrived lib ext frags l \<noteq> []" using assms(5) by (metis latest_nil empty_iff list.set(1))
  then have m: "\<lparr>seLabels = l, seSamples = latest (arrived lib ext frags l)\<rparr> \<in> set series" using seal_accumulates(2) [OF assms(1) s] by blast
  then have "\<exists>err. encodeEntries oob xor_enc (flProm lib) tab 0 (by_labels (flProm lib) series) [] = Inl err" for tab
    using Encode_long_nan [OF assms(4,5)] by (intro encodeEntries_fails) auto
  then have "WritePart oob xor_enc (flProm lib) t t' series \<noteq> Inr b" for b by (metis WritePart_layout Inl_Inr_False)
  then have "\<exists>err. encodePart oob xor_enc lib t t' series = Inl err" unfolding encodePart_def by (metis sum.exhaust)
  moreover have "\<not> acc_empty (ecAccum p ! i)" using assms(1) ne by (auto simp: acc_empty_def accumulates_def arrived_def Let_def)
  moreover have "series \<noteq> []" using m by auto
  ultimately show ?thesis using s assms(2,3) seal_accumulates(4) [OF assms(1) s] by (auto simp: sealAndShipColdPart_def sealColdPartBody_def Let_def)
qed

text \<open>
  A fragment that does not decode stops the batch: those before it are in the accumulator, it and those behind it are gone with the encoder they came from.
\<close>

lemma bad_fragment_drops_rest:
  assumes "\<forall>f \<in> set good. DecodeFragmentSamples lib f \<in> range Inr" "DecodeFragmentSamples lib bad = Inl err"
  shows "acc_add lib (good @ bad # rest) a = (Some err, snd (acc_add lib good a))"
  using assms by (induction good arbitrary: a) (auto simp: Let_def)

end
