(* ===== verification/SerfBits.thy ===== *)
theory SerfBits
  imports Varint
begin

text \<open>
  The bit streams of the Serf codec: \<^verbatim>\<open>bitWriter\<close> (\<^verbatim>\<open>exporter/serfexporter/bitwriter.go\<close>, with an identical copy in
  \<^verbatim>\<open>processor/serfprocessor\<close>) and \<^verbatim>\<open>bitReader\<close> (\<^verbatim>\<open>receiver/serfreceiver/bitreader.go\<close>). A writer stands for the list of bits written so far, a
  reader for the list of bits that are left; \<open>breads\<close> says that a parser takes a code off the front of these bits and how such
  parsers are put together.
\<close>

section \<open>Writing\<close>

record bitWriter =
  bwBuf :: "u8 list"
  bwCurByte :: u8
  bwNbits :: u8

definition newBitWriter :: bitWriter where
  "newBitWriter = \<lparr>bwBuf = [], bwCurByte = 0, bwNbits = 0\<rparr>"

definition writeBit :: "u8 \<Rightarrow> bitWriter \<Rightarrow> bitWriter" where
  "writeBit b w =
     (let w = (if b \<noteq> 0 then w\<lparr>bwCurByte := bwCurByte w OR push_bit (unat (7 - bwNbits w)) 1\<rparr> else w);
          w = w\<lparr>bwNbits := bwNbits w + 1\<rparr>
      in if bwNbits w = 8 then \<lparr>bwBuf = bwBuf w @ [bwCurByte w], bwCurByte = 0, bwNbits = 0\<rparr> else w)"

fun writeBits :: "u64 \<Rightarrow> nat \<Rightarrow> bitWriter \<Rightarrow> bitWriter" where
  "writeBits v 0 w = w"
| "writeBits v (Suc i) w = writeBits v i (writeBit (ucast (drop_bit i v AND 1)) w)"

lemma bwNbits_writeBit: "bwNbits (writeBit b w) = (if bwNbits w = 7 then 0 else bwNbits w + 1)"
proof -
  have "(8 :: u8) = 7 + 1" by simp
  then have "bwNbits w + 1 = 8 \<longleftrightarrow> bwNbits w = 7" by (simp only: add_right_cancel)
  then show ?thesis by (simp add: writeBit_def Let_def)
qed

function writeByteAlign :: "bitWriter \<Rightarrow> bitWriter" where
  "writeByteAlign w = (if bwNbits w = 0 then w else writeByteAlign (writeBit 0 w))"
  by pat_completeness auto
termination
proof (relation "measure (\<lambda>w. if bwNbits w = 0 then 0 else 256 - unat (bwNbits w))")
  fix w :: bitWriter assume n: "bwNbits w \<noteq> 0"
  then have "bwNbits w + 1 = 0 \<or> unat (bwNbits w + 1) = unat (bwNbits w) + 1" by (metis add.commute unatSuc Suc_eq_plus1)
  then show "(writeBit 0 w, w) \<in> measure (\<lambda>w. if bwNbits w = 0 then 0 else 256 - unat (bwNbits w))"
    using n unsigned_less [of "bwNbits w", where ?'a = nat] by (auto simp: bwNbits_writeBit)
qed simp

declare writeByteAlign.simps [simp del]

definition bw_bytes :: "bitWriter \<Rightarrow> u8 list" where
  "bw_bytes w = bwBuf (writeByteAlign w)"

definition leadingZeros64 :: "u64 \<Rightarrow> nat" where
  "leadingZeros64 x = (if x = 0 then 64 else 64 - len64 x)"

definition trailingZeros64 :: "u64 \<Rightarrow> nat" where
  "trailingZeros64 x = (if x = 0 then 64 else length (takeWhile (\<lambda>i. \<not> bit x i) [0..<64]))"

definition fitsInSignedBits :: "i64 \<Rightarrow> nat \<Rightarrow> bool" where
  "fitsInSignedBits v n =
     (if n = 0 \<or> 64 \<le> n then True
      else let lo = - push_bit (n - 1) (1 :: i64); hi = push_bit (n - 1) 1 - (1 :: i64) in sint lo \<le> sint v \<and> sint v \<le> sint hi)"

section \<open>Reading\<close>

datatype serf_error = EOF | UnexpectedEOF | ErrMagicSerf | ErrUnmarshal | ErrCenterBits | ErrMarshal | ErrMetaTooLarge | SerfPanic

record bitReader =
  brData :: "u8 list"
  brPos :: nat
  brLength :: nat

definition newBitReader :: "u8 list \<Rightarrow> u32 \<Rightarrow> bitReader" where
  "newBitReader data bitLen = \<lparr>brData = data, brPos = 0, brLength = unat bitLen\<rparr>"

definition readBit :: "bitReader \<Rightarrow> serf_error + u8 \<times> bitReader" where
  "readBit r =
     (if brLength r \<le> brPos r then Inl EOF
      else let byteIdx = brPos r div 8; bitIdx = 7 - brPos r mod 8
           in if length (brData r) \<le> byteIdx then Inl SerfPanic
              else Inr (drop_bit bitIdx (brData r ! byteIdx) AND 1, r\<lparr>brPos := brPos r + 1\<rparr>))"

fun readBitsLoop :: "nat \<Rightarrow> u64 \<Rightarrow> bitReader \<Rightarrow> serf_error + u64 \<times> bitReader" where
  "readBitsLoop 0 result r = Inr (result, r)"
| "readBitsLoop (Suc n) result r = res_bind (readBit r) (\<lambda>(b, r). readBitsLoop n (push_bit 1 result OR ucast b) r)"

definition readBits :: "nat \<Rightarrow> bitReader \<Rightarrow> serf_error + u64 \<times> bitReader" where
  "readBits n r = readBitsLoop n 0 r"

section \<open>Streams of bits\<close>

text \<open>Bits are listed most significant first, as in \<open>Varint\<close>.\<close>

lemma to_bits_Suc: "to_bits (Suc n) v = bit v n # to_bits n v"
  by (simp add: to_bits_def)

lemma nth_to_bits: "i < n \<Longrightarrow> to_bits n v ! i = bit v (n - Suc i)"
  by (simp add: to_bits_def rev_nth)

lemma nth_bytes_bits: "i < 8 * length bs \<Longrightarrow> bytes_bits bs ! i = bit (bs ! (i div 8)) (7 - i mod 8)"
proof (induction bs arbitrary: i)
  case (Cons b bs)
  show ?case
  proof (cases "i < 8")
    case True
    then show ?thesis by (simp add: nth_append nth_to_bits)
  next
    case False
    then have "i div 8 = Suc ((i - 8) div 8)" "(i - 8) mod 8 = i mod 8" by (simp_all add: le_div_geq le_mod_geq)
    then show ?thesis using Cons.IH [of "i - 8"] Cons.prems False by (simp add: nth_append)
  qed
qed simp

text \<open>What a writer stands for.\<close>

definition written :: "bitWriter \<Rightarrow> bool list" where
  "written w = bytes_bits (bwBuf w) @ take (unat (bwNbits w)) (to_bits 8 (bwCurByte w))"

definition bw_ok :: "bitWriter \<Rightarrow> bool" where
  "bw_ok w \<longleftrightarrow> bwNbits w < 8 \<and> (\<forall>i < 8 - unat (bwNbits w). \<not> bit (bwCurByte w) i)"

lemma new_writer: "bw_ok newBitWriter" "written newBitWriter = []"
  by (simp_all add: bw_ok_def written_def newBitWriter_def bytes_bits_def)

lemma bit_or_one:
  fixes c :: "'a::len word"
  assumes "k < LENGTH('a)"
  shows "bit (c OR push_bit k 1) i \<longleftrightarrow> bit c i \<or> i = k"
  using assms by (auto simp: bit_or_iff bit_exp_iff)

lemma written_writeBit:
  assumes "bw_ok w"
  shows "bw_ok (writeBit b w)" "written (writeBit b w) = written w @ [b \<noteq> 0]"
proof -
  define n where "n = unat (bwNbits w)"
  define c where "c = (if b \<noteq> 0 then bwCurByte w OR push_bit (7 - n) 1 else bwCurByte w)"
  have n: "n < 8" and low: "\<And>i. i < 8 - n \<Longrightarrow> \<not> bit (bwCurByte w) i" using assms by (simp_all add: bw_ok_def n_def word_less_nat_alt)
  have "unat (7 - bwNbits w) = 7 - n" using n by (simp add: n_def unat_sub word_le_nat_alt)
  then have p: "push_bit (unat (7 - bwNbits w)) 1 = (push_bit (7 - n) 1 :: u8)" by simp
  have w: "writeBit b w = (if bwNbits w + 1 = 8 then \<lparr>bwBuf = bwBuf w @ [c], bwCurByte = 0, bwNbits = 0\<rparr>
      else w\<lparr>bwCurByte := c, bwNbits := bwNbits w + 1\<rparr>)"
    unfolding writeBit_def Let_def c_def p by (cases "b = 0") simp_all
  have c: "bit c i \<longleftrightarrow> bit (bwCurByte w) i \<or> b \<noteq> 0 \<and> i = 7 - n" for i using bit_or_one [of "7 - n" "bwCurByte w" i] by (simp add: c_def)
  have t: "take (Suc n) (to_bits 8 c) = take n (to_bits 8 (bwCurByte w)) @ [b \<noteq> 0]"
  proof (rule nth_equalityI)
    fix i assume "i < length (take (Suc n) (to_bits 8 c))"
    then have "i \<le> n" by simp
    then show "take (Suc n) (to_bits 8 c) ! i = (take n (to_bits 8 (bwCurByte w)) @ [b \<noteq> 0]) ! i"
      using n low [of "7 - n"] by (cases "i = n") (auto simp: nth_append nth_to_bits c)
  qed (use n in simp)
  have s: "unat (bwNbits w + 1) = n + 1" using n by (simp add: n_def unat_word_ariths)
  have "bw_ok (writeBit b w) \<and> written (writeBit b w) = written w @ [b \<noteq> 0]"
  proof (cases "n = 7")
    case True
    then have "bwNbits w + 1 = 8" using s by (simp add: word_unat_eq_iff)
    then show ?thesis using t True by (simp add: w bw_ok_def written_def n_def [symmetric] bytes_bits_def)
  next
    case False
    then have "bwNbits w + 1 \<noteq> 8" using s by auto
    then show ?thesis using t False n low s by (auto simp: w bw_ok_def written_def n_def [symmetric] c word_less_nat_alt)
  qed
  then show "bw_ok (writeBit b w)" "written (writeBit b w) = written w @ [b \<noteq> 0]" by blast+
qed

lemma written_writeBits:
  "bw_ok w \<Longrightarrow> bw_ok (writeBits v n w) \<and> written (writeBits v n w) = written w @ to_bits n v"
proof (induction v n w rule: writeBits.induct)
  case (2 v i w)
  have "(ucast (drop_bit i v AND 1) :: u8) \<noteq> 0 \<longleftrightarrow> bit v i"
    by (simp add: and_one_eq mod_2_eq_odd flip: bit_iff_odd_drop_bit)
  then show ?case using 2 written_writeBit [OF 2(2)] by (simp add: to_bits_Suc)
qed simp

lemma written_align:
  "bw_ok w \<Longrightarrow> bwNbits (writeByteAlign w) = 0 \<and>
   (\<exists>pad. written (writeByteAlign w) = written w @ pad \<and> length pad = (if bwNbits w = 0 then 0 else 8 - unat (bwNbits w)))"
proof (induction w rule: writeByteAlign.induct)
  case (1 w)
  show ?case
  proof (cases "bwNbits w = 0")
    case False
    have n: "unat (bwNbits w) < 8" using "1.prems" by (simp add: bw_ok_def word_less_nat_alt)
    have n': "bwNbits (writeBit 0 w) = (if bwNbits w = 7 then 0 else bwNbits w + 1)" by (rule bwNbits_writeBit)
    have s: "unat (bwNbits w + 1) = unat (bwNbits w) + 1" using n by (simp add: unat_word_ariths)
    obtain pad where p: "bwNbits (writeByteAlign w) = 0" "written (writeByteAlign w) = written (writeBit 0 w) @ pad"
      "length pad = (if bwNbits (writeBit 0 w) = 0 then 0 else 8 - unat (bwNbits (writeBit 0 w)))"
      using "1.IH" [OF False written_writeBit(1) [OF "1.prems"]] False by (auto simp: writeByteAlign.simps [of w])
    have "length pad + 1 = 8 - unat (bwNbits w)"
      using p(3) n n' s by (cases "bwNbits w = 7") (auto simp: word_unat_eq_iff)
    then show ?thesis using p written_writeBit(2) [OF "1.prems", of 0] False by (intro conjI exI [of _ "False # pad"]) auto
  qed (simp add: writeByteAlign.simps [of w])
qed

text \<open>The bytes of a writer hold what was written, then padding to the next byte.\<close>

lemma bw_bytes_bits:
  assumes "bw_ok w"
  obtains pad where "bytes_bits (bw_bytes w) = written w @ pad" "length pad < 8"
proof -
  obtain pad where "bwNbits (writeByteAlign w) = 0" "written (writeByteAlign w) = written w @ pad" "length pad < 8"
    using written_align [OF assms] by (auto simp: word_unat_eq_iff split: if_splits)
  then show thesis using that by (simp add: written_def [of "writeByteAlign w"] bw_bytes_def)
qed

lemma length_bw_bytes: "bw_ok w \<Longrightarrow> 8 * length (bw_bytes w) < length (written w) + 8"
proof -
  assume "bw_ok w"
  then obtain pad where "bytes_bits (bw_bytes w) = written w @ pad" "length pad < 8" by (rule bw_bytes_bits)
  then show ?thesis using length_bytes_bits [of "bw_bytes w"] by simp
qed

text \<open>What a reader stands for, and parsers of codes.\<close>

definition bits_left :: "bitReader \<Rightarrow> bool list \<Rightarrow> bool" where
  "bits_left r bs \<longleftrightarrow> brLength r \<le> 8 * length (brData r) \<and> brPos r \<le> brLength r \<and>
     drop (brPos r) (take (brLength r) (bytes_bits (brData r))) = bs"

definition breads :: "(bitReader \<Rightarrow> serf_error + 'a \<times> bitReader) \<Rightarrow> bool list \<Rightarrow> 'a \<Rightarrow> bool" where
  "breads p x v \<longleftrightarrow> (\<forall>r rest. bits_left r (x @ rest) \<longrightarrow> (\<exists>r'. p r = Inr (v, r') \<and> bits_left r' rest))"

lemma breads_run: "breads p x v \<Longrightarrow> bits_left r (x @ rest) \<Longrightarrow> \<exists>r'. p r = Inr (v, r') \<and> bits_left r' rest"
  by (simp add: breads_def)

lemma breads_return: "breads (\<lambda>r. Inr (v, r)) [] v"
  by (simp add: breads_def)

lemma breads_bind:
  assumes "breads p x v" "breads (q v) y u"
  shows "breads (\<lambda>r. res_bind (p r) (\<lambda>(v, r). q v r)) (x @ y) u"
  unfolding breads_def
proof (intro allI impI)
  fix r rest assume "bits_left r ((x @ y) @ rest)"
  then obtain r' where "p r = Inr (v, r')" "bits_left r' (y @ rest)" using breads_run [OF assms(1), of r "y @ rest"] by auto
  then show "\<exists>r'. res_bind (p r) (\<lambda>(v, r). q v r) = Inr (u, r') \<and> bits_left r' rest" using breads_run [OF assms(2)] by simp
qed

lemma breads_bit: "breads readBit [b] (of_bool b)"
  unfolding breads_def
proof (intro allI impI)
  fix r rest assume r: "bits_left r ([b] @ rest)"
  let ?p = "brPos r" and ?bs = "take (brLength r) (bytes_bits (brData r))"
  have d: "drop ?p ?bs = b # rest" "brLength r \<le> 8 * length (brData r)" using r by (auto simp: bits_left_def)
  then have p: "?p < length ?bs" by (metis drop_all list.distinct(1) not_le)
  then have lt: "?p < brLength r" "?p div 8 < length (brData r)" by auto
  have "b = ?bs ! ?p" using d(1) by (metis hd_drop_conv_nth list.sel(1) p)
  then have b: "b = bit (brData r ! (?p div 8)) (7 - ?p mod 8)" using p by (simp add: nth_bytes_bits)
  have "drop_bit (7 - ?p mod 8) (brData r ! (?p div 8)) AND 1 = of_bool b"
    by (simp add: b and_one_eq mod_2_eq_odd bit_iff_odd_drop_bit)
  moreover have "drop (Suc ?p) ?bs = rest" using d(1) by (metis drop_Suc list.sel(3) tl_drop)
  ultimately show "\<exists>r'. readBit r = Inr (of_bool b, r') \<and> bits_left r' rest" using lt d(2) by (auto simp: readBit_def bits_left_def)
qed

lemma breads_loop: "breads (readBitsLoop n acc) (to_bits n v) (push_bit n acc OR take_bit n v)"
proof (induction n arbitrary: acc)
  case 0
  show ?case using breads_return [of acc] by (simp add: readBitsLoop.simps(1) [abs_def])
next
  case (Suc n)
  let ?acc = "push_bit 1 acc OR ucast (of_bool (bit v n) :: u8)"
  have "bit (push_bit n ?acc OR take_bit n v) i = bit (push_bit (Suc n) acc OR take_bit (Suc n) v) i" if "i < 64" for i
    using that by (cases "i = n") (auto simp: bit_simps less_Suc_eq bit_1_iff)
  then have "push_bit n ?acc OR take_bit n v = push_bit (Suc n) acc OR take_bit (Suc n) v" by (intro bit_word_eqI) simp
  then show ?case using breads_bind [OF breads_bit, of "\<lambda>b. readBitsLoop n (push_bit 1 acc OR ucast b)" "bit v n" "to_bits n v"] Suc [of ?acc]
    by (simp add: to_bits_Suc)
qed

lemma breads_bits: "breads (readBits n) (to_bits n v) (take_bit n v)"
  using breads_loop [of n 0 v] by (simp add: readBits_def [abs_def])

end
