(* ===== verification/SerfCodec.thy ===== *)
theory SerfCodec
  imports SerfBits Float64 PointHeap
begin

text \<open>
  The Serf compression of one series: the timestamp and value encoders of \<^verbatim>\<open>exporter/serfexporter/encoder.go\<close> (which
  \<^verbatim>\<open>processor/serfprocessor\<close> copies) and the decoders of \<^verbatim>\<open>receiver/serfreceiver/decoder.go\<close>.

  Values are 64-bit patterns, \<^verbatim>\<open>math.Float64bits\<close> and \<^verbatim>\<open>math.Float64frombits\<close> are the identity, and floating-point expressions are
  evaluated operation by operation, without fusing a product with a sum. The exporter's out-of-range conversion to \<^verbatim>\<open>int64\<close> is the
  parameter \<open>oob\<close>.
\<close>

section \<open>Timestamps\<close>

record point =
  pTs :: i64
  pV :: f64

record serfTimestampEncoder =
  teBw :: bitWriter
  tePrevTS :: i64
  tePrevDelta :: i64
  teFirstSet :: bool

definition newTsEncoder :: serfTimestampEncoder where
  "newTsEncoder = \<lparr>teBw = newBitWriter, tePrevTS = 0, tePrevDelta = 0, teFirstSet = False\<rparr>"

definition ts_push :: "i64 \<Rightarrow> serfTimestampEncoder \<Rightarrow> serfTimestampEncoder" where
  "ts_push ts e =
     (if \<not> teFirstSet e then e\<lparr>tePrevTS := ts, tePrevDelta := 0, teFirstSet := True\<rparr>
      else let delta = ts - tePrevTS e; dd = delta - tePrevDelta e; bw = teBw e;
               bw = (if dd = 0 then writeBit 0 bw
                     else if fitsInSignedBits dd 7 then writeBits (dd AND (push_bit 7 1 - 1)) 7 (writeBits 0b10 2 bw)
                     else if fitsInSignedBits dd 9 then writeBits (dd AND (push_bit 9 1 - 1)) 9 (writeBits 0b110 3 bw)
                     else if fitsInSignedBits dd 12 then writeBits (dd AND (push_bit 12 1 - 1)) 12 (writeBits 0b1110 4 bw)
                     else writeBits dd 64 (writeBits 0b1111 4 bw))
           in e\<lparr>teBw := bw, tePrevTS := ts, tePrevDelta := delta\<rparr>)"

definition enc_bytes :: "bitWriter \<Rightarrow> u8 list \<times> u32" where
  "enc_bytes bw = (let b = bw_bytes bw in (b, word_of_nat (length b * 8)))"

definition signExtend :: "u64 \<Rightarrow> nat \<Rightarrow> i64" where
  "signExtend v bits = (let signBit = push_bit (bits - 1) 1 in if v AND signBit \<noteq> 0 then v OR push_bit bits (NOT 0) else v)"

text \<open>The delta of deltas of one timestamp.\<close>

definition decodeDD :: "bitReader \<Rightarrow> serf_error + i64 \<times> bitReader" where
  "decodeDD r =
     res_bind (readBit r) (\<lambda>(bit1, r).
     if bit1 = 0 then Inr (0, r)
     else res_bind (readBit r) (\<lambda>(bit2, r).
     if bit2 = 0 then res_bind (readBits 7 r) (\<lambda>(raw, r). Inr (signExtend raw 7, r))
     else res_bind (readBit r) (\<lambda>(bit3, r).
     if bit3 = 0 then res_bind (readBits 9 r) (\<lambda>(raw, r). Inr (signExtend raw 9, r))
     else res_bind (readBit r) (\<lambda>(bit4, r).
     if bit4 = 0 then res_bind (readBits 12 r) (\<lambda>(raw, r). Inr (signExtend raw 12, r))
     else res_bind (readBits 64 r) (\<lambda>(raw, r). Inr (raw, r))))))"

fun decodeTimestampsLoop :: "nat \<Rightarrow> i64 \<Rightarrow> i64 \<Rightarrow> bitReader \<Rightarrow> serf_error + i64 list" where
  "decodeTimestampsLoop 0 prevTS prevDelta r = Inr []"
| "decodeTimestampsLoop (Suc n) prevTS prevDelta r =
     res_bind (decodeDD r) (\<lambda>(dd, r).
       let delta = prevDelta + dd; ts = prevTS + delta
       in res_bind (decodeTimestampsLoop n ts delta r) (\<lambda>rest. Inr (ts # rest)))"

text \<open>The first element of an empty result is written out of range.\<close>

definition decodeTimestampsSerf :: "i64 \<Rightarrow> u8 list \<Rightarrow> u32 \<Rightarrow> u32 \<Rightarrow> serf_error + i64 list" where
  "decodeTimestampsSerf firstTS data bitsLen cnt =
     (if cnt = 0 then Inl SerfPanic
      else if cnt = 1 then Inr [firstTS]
      else res_bind (decodeTimestampsLoop (unat cnt - 1) firstTS 0 (newBitReader data bitsLen)) (\<lambda>rest. Inr (firstTS # rest)))"

section \<open>Values: XOR\<close>

definition serfLeadingRound :: "nat list" where
  "serfLeadingRound =
     [0, 0, 0, 0, 0, 0, 0, 0, 8, 8, 8, 8, 12, 12, 12, 12, 16, 16, 18, 18, 20, 20, 22, 22] @ replicate 40 24"

definition serfLeadingRepresentation :: "nat list" where
  "serfLeadingRepresentation =
     [0, 0, 0, 0, 0, 0, 0, 0, 1, 1, 1, 1, 2, 2, 2, 2, 3, 3, 4, 4, 5, 5, 6, 6] @ replicate 40 7"

definition serfTrailingRound :: "nat list" where
  "serfTrailingRound = replicate 22 0 @
     [22, 22, 22, 22, 22, 22, 28, 28, 28, 28, 32, 32, 32, 32, 36, 36, 36, 36, 40, 40, 42, 42, 42, 42] @ replicate 18 46"

definition serfTrailingRepresentation :: "nat list" where
  "serfTrailingRepresentation = replicate 22 0 @
     [1, 1, 1, 1, 1, 1, 2, 2, 2, 2, 3, 3, 3, 3, 4, 4, 4, 4, 5, 5, 6, 6, 6, 6] @ replicate 18 7"

record serfValueEncoder =
  veBw :: bitWriter
  veStoredVal :: u64
  veFirstValBits :: u64
  veStoredLeadingZeros :: int
  veStoredTrailingZeros :: int
  vePrevSet :: bool
  veMaxDiff :: f64
  veAdjustDigit :: f64

definition f64_two :: f64 where "f64_two = 0x4000000000000000"

definition newSerfValEncoder :: "f64 \<Rightarrow> i64 \<Rightarrow> serfValueEncoder" where
  "newSerfValEncoder maxDiff adjustDigit =
     \<lparr>veBw = newBitWriter, veStoredVal = f64_two, veFirstValBits = 0, veStoredLeadingZeros = 65, veStoredTrailingZeros = 65,
      vePrevSet = False, veMaxDiff = maxDiff, veAdjustDigit = f64_of_int64 adjustDigit\<rparr>"

text \<open>Whether a candidate is within the error bound of the original.\<close>

definition candidateOK :: "f64 \<Rightarrow> f64 \<Rightarrow> f64 \<Rightarrow> u64 \<Rightarrow> bool" where
  "candidateOK maxDiff adjustDigit original resultLong =
     (let diff = f64_sub (f64_sub resultLong adjustDigit) original in f64_le (f64_neg maxDiff) diff \<and> f64_le diff maxDiff)"

fun findAppLoop :: "nat \<Rightarrow> u64 \<Rightarrow> u64 \<Rightarrow> u64 \<Rightarrow> u64 \<Rightarrow> f64 \<Rightarrow> u64 \<Rightarrow> f64 \<Rightarrow> f64 \<Rightarrow> u64" where
  "findAppLoop shift frontMask minBits maxBits signBit original lastLong maxDiff adjustDigit =
     (let front = frontMask AND minBits; rear = NOT frontMask AND lastLong; candidate = rear OR front;
          next = (candidate + push_bit shift 1) AND NOT (push_bit 63 1)
      in if minBits \<le> candidate \<and> candidate \<le> maxBits \<and> candidateOK maxDiff adjustDigit original (candidate XOR signBit)
           then candidate XOR signBit
         else if shift < 64 \<and> next \<le> maxBits \<and> candidateOK maxDiff adjustDigit original (next XOR signBit) then next XOR signBit
         else case shift of 0 \<Rightarrow> f64_add original adjustDigit
           | Suc s \<Rightarrow> findAppLoop s (drop_bit 1 frontMask) minBits maxBits signBit original lastLong maxDiff adjustDigit)"

declare findAppLoop.simps [simp del]

definition findAppLongInner :: "f64 \<Rightarrow> f64 \<Rightarrow> u64 \<Rightarrow> f64 \<Rightarrow> u64 \<Rightarrow> f64 \<Rightarrow> f64 \<Rightarrow> u64" where
  "findAppLongInner minDouble maxDouble signBit original lastLong maxDiff adjustDigit =
     (let minBits = minDouble AND NOT (push_bit 63 1); maxBits = maxDouble; xorMinMax = minBits XOR maxBits;
          leadingCommon = (if xorMinMax = 0 then 64 else 64 - len64 xorMinMax);
          shift = 64 - leadingCommon;
          frontMask = (if leadingCommon = 0 then 0 else push_bit shift (NOT 0))
      in findAppLoop shift frontMask minBits maxBits signBit original lastLong maxDiff adjustDigit)"

definition findAppLong :: "f64 \<Rightarrow> serfValueEncoder \<Rightarrow> u64" where
  "findAppLong v e =
     (if f64_eq (veMaxDiff e) 0 then f64_add v (veAdjustDigit e)
      else let adjustedV = f64_add v (veAdjustDigit e); minVal = f64_sub adjustedV (veMaxDiff e); maxVal = f64_add adjustedV (veMaxDiff e)
           in if f64_le 0 minVal then findAppLongInner minVal maxVal 0 v (veStoredVal e) (veMaxDiff e) (veAdjustDigit e)
              else if f64_le maxVal 0
                then findAppLongInner (f64_neg maxVal) (f64_neg minVal) 0x8000000000000000 v (veStoredVal e) (veMaxDiff e) (veAdjustDigit e)
              else if drop_bit 63 (veStoredVal e) = 0 then findAppLongInner 0 maxVal 0 v (veStoredVal e) (veMaxDiff e) (veAdjustDigit e)
              else findAppLongInner 0 (f64_neg minVal) 0x8000000000000000 v (veStoredVal e) (veMaxDiff e) (veAdjustDigit e))"

definition compressValue :: "u64 \<Rightarrow> serfValueEncoder \<Rightarrow> serfValueEncoder" where
  "compressValue thisVal e =
     (let xor = veStoredVal e XOR thisVal
      in if xor = 0 then e\<lparr>veBw := writeBits 0b01 2 (veBw e)\<rparr>
         else let actualLeading = leadingZeros64 xor; actualTrailing = trailingZeros64 xor;
                  leadingZeros = int (serfLeadingRound ! actualLeading); trailingZeros = int (serfTrailingRound ! actualTrailing);
                  centerBitsStored = 64 - veStoredLeadingZeros e - veStoredTrailingZeros e;
                  savingsIfReuse = (leadingZeros - veStoredLeadingZeros e) + (trailingZeros - veStoredTrailingZeros e);
                  reuseOverhead = 1 + 3 + 3
              in if veStoredLeadingZeros e \<le> leadingZeros \<and> veStoredTrailingZeros e \<le> trailingZeros \<and> savingsIfReuse < reuseOverhead
                   then e\<lparr>veBw := writeBits (drop_bit (nat (veStoredTrailingZeros e)) xor) (nat centerBitsStored) (writeBit 1 (veBw e))\<rparr>
                 else e\<lparr>veStoredLeadingZeros := leadingZeros, veStoredTrailingZeros := trailingZeros,
                        veBw := writeBits (drop_bit (nat trailingZeros) xor) (nat (64 - leadingZeros - trailingZeros))
                                  (writeBits (word_of_nat (serfTrailingRepresentation ! actualTrailing)) 3
                                    (writeBits (word_of_nat (serfLeadingRepresentation ! actualLeading)) 3 (writeBits 0b00 2 (veBw e))))\<rparr>)"

definition val_push :: "f64 \<Rightarrow> serfValueEncoder \<Rightarrow> serfValueEncoder" where
  "val_push v e =
     (if \<not> vePrevSet e then let s = findAppLong v e in e\<lparr>veStoredVal := s, veFirstValBits := s, vePrevSet := True\<rparr>
      else let thisVal = (if f64_less (veMaxDiff e) (f64_abs (f64_sub (f64_sub (veStoredVal e) (veAdjustDigit e)) v)) then findAppLong v e
                          else veStoredVal e)
           in (compressValue thisVal e)\<lparr>veStoredVal := thisVal\<rparr>)"

definition xorLeadingRepr :: "nat list" where
  "xorLeadingRepr = [0, 8, 12, 16, 18, 20, 22, 24]"

definition xorTrailingRepr :: "nat list" where
  "xorTrailingRepr = [0, 22, 28, 32, 36, 40, 42, 46]"

definition decodeXORValue :: "u64 \<Rightarrow> nat \<Rightarrow> nat \<Rightarrow> bitReader \<Rightarrow> serf_error + (u64 \<times> nat \<times> nat) \<times> bitReader" where
  "decodeXORValue storedVal storedLeading storedTrailing r =
     res_bind (readBit r) (\<lambda>(bit1, r).
     if bit1 = 1 then
       (if 64 \<le> storedLeading + storedTrailing then Inr ((storedVal, storedLeading, storedTrailing), r)
        else res_bind (readBits (64 - storedLeading - storedTrailing) r) (\<lambda>(center, r).
             Inr ((storedVal XOR push_bit storedTrailing center, storedLeading, storedTrailing), r)))
     else res_bind (readBit r) (\<lambda>(bit2, r).
     if bit2 = 1 then Inr ((storedVal, storedLeading, storedTrailing), r)
     else res_bind (readBits 3 r) (\<lambda>(leadCode, r).
     res_bind (readBits 3 r) (\<lambda>(trailCode, r).
     let leading = xorLeadingRepr ! unat leadCode; trailing = xorTrailingRepr ! unat trailCode
     in if 64 \<le> leading + trailing then Inl ErrCenterBits
        else res_bind (readBits (64 - leading - trailing) r) (\<lambda>(center, r).
             Inr ((storedVal XOR push_bit trailing center, leading, trailing), r))))))"

fun decodeXORLoop :: "nat \<Rightarrow> u64 \<Rightarrow> nat \<Rightarrow> nat \<Rightarrow> bitReader \<Rightarrow> serf_error + f64 list" where
  "decodeXORLoop 0 storedVal storedLeading storedTrailing r = Inr []"
| "decodeXORLoop (Suc n) storedVal storedLeading storedTrailing r =
     res_bind (decodeXORValue storedVal storedLeading storedTrailing r) (\<lambda>((vBits, newLead, newTrail), r).
     res_bind (decodeXORLoop n vBits newLead newTrail r) (\<lambda>rest. Inr (vBits # rest)))"

section \<open>Values: quantization\<close>

record serfQtValueEncoder =
  qtBw :: bitWriter
  qtPrevValue :: f64
  qtMaxDiff :: f64
  qtStep :: f64

text \<open>The constant 0.999 and the effective step.\<close>

definition f64_0_999 :: f64 where "f64_0_999 = 0x3FEFF7CED916872B"

definition qt_step :: "f64 \<Rightarrow> f64" where
  "qt_step maxDiff = f64_mul f64_two (f64_mul maxDiff f64_0_999)"

definition newSerfQtValEncoder :: "f64 \<Rightarrow> serfQtValueEncoder" where
  "newSerfQtValEncoder maxDiff =
     \<lparr>qtBw = newBitWriter, qtPrevValue = f64_two, qtMaxDiff = f64_mul maxDiff f64_0_999, qtStep = qt_step maxDiff\<rparr>"

fun writeZeros :: "nat \<Rightarrow> bitWriter \<Rightarrow> bitWriter" where
  "writeZeros 0 bw = bw"
| "writeZeros (Suc k) bw = writeZeros k (writeBit 0 bw)"

definition eliasGammaEncode :: "u64 \<Rightarrow> bitWriter \<Rightarrow> bitWriter" where
  "eliasGammaEncode n bw = (let n = (if n = 0 then 1 else n); k = len64 n - 1 in writeBits n (k + 1) (writeZeros k bw))"

definition qt_quantum :: "(f64 \<Rightarrow> i64) \<Rightarrow> f64 \<Rightarrow> f64 \<Rightarrow> f64 \<Rightarrow> i64" where
  "qt_quantum oob step prevValue v = (if f64_less 0 step then f64_to_int64 oob (f64_round (f64_div (f64_sub v prevValue) step)) else 0)"

definition qt_recover :: "f64 \<Rightarrow> f64 \<Rightarrow> i64 \<Rightarrow> f64" where
  "qt_recover step prevValue q = f64_add prevValue (f64_mul step (f64_of_int64 q))"

definition qt_push :: "(f64 \<Rightarrow> i64) \<Rightarrow> f64 \<Rightarrow> serfQtValueEncoder \<Rightarrow> serfQtValueEncoder" where
  "qt_push oob v e =
     (let q = qt_quantum oob (qtStep e) (qtPrevValue e) v
      in e\<lparr>qtBw := eliasGammaEncode (zigzag q + 1) (qtBw e), qtPrevValue := qt_recover (qtStep e) (qtPrevValue e) q\<rparr>)"

text \<open>The zeros before the first one bit; the reader is at most as long as its bits.\<close>

function countZeros :: "nat \<Rightarrow> bitReader \<Rightarrow> serf_error + nat \<times> bitReader" where
  "countZeros k r = (case readBit r of Inl e \<Rightarrow> Inl e | Inr (b, r') \<Rightarrow> if b = 1 then Inr (k, r') else countZeros (k + 1) r')"
  by pat_completeness auto
termination
  by (relation "measure (\<lambda>(k, r). brLength r - brPos r)") (auto simp: readBit_def Let_def split: if_splits)

declare countZeros.simps [simp del]

definition eliasGammaDecode :: "bitReader \<Rightarrow> serf_error + u64 \<times> bitReader" where
  "eliasGammaDecode r =
     res_bind (countZeros 0 r) (\<lambda>(k, r).
     if k = 0 then Inr (1, r) else res_bind (readBits k r) (\<lambda>(rest, r). Inr (push_bit k 1 OR rest, r)))"

definition decodeQtValue :: "f64 \<Rightarrow> f64 \<Rightarrow> bitReader \<Rightarrow> serf_error + f64 \<times> bitReader" where
  "decodeQtValue prevValue step r =
     res_bind (eliasGammaDecode r) (\<lambda>(n, r). Inr (qt_recover step prevValue (unzigzag (n - 1)), r))"

fun decodeQtLoop :: "nat \<Rightarrow> f64 \<Rightarrow> f64 \<Rightarrow> bitReader \<Rightarrow> serf_error + f64 list" where
  "decodeQtLoop 0 prevValue step r = Inr []"
| "decodeQtLoop (Suc n) prevValue step r =
     res_bind (decodeQtValue prevValue step r) (\<lambda>(v, r). res_bind (decodeQtLoop n v step r) (\<lambda>rest. Inr (v # rest)))"

definition decodeValues :: "bool \<Rightarrow> f64 \<Rightarrow> u64 \<Rightarrow> u8 list \<Rightarrow> u32 \<Rightarrow> u32 \<Rightarrow> serf_error + f64 list" where
  "decodeValues qt maxDiff firstValBits data bitsLen cnt =
     (if qt then decodeQtLoop (unat cnt) firstValBits (qt_step maxDiff) (newBitReader data bitsLen)
      else if cnt = 0 then Inl SerfPanic
      else if cnt = 1 then Inr [firstValBits]
      else res_bind (decodeXORLoop (unat cnt - 1) firstValBits 0 0 (newBitReader data bitsLen)) (\<lambda>rest. Inr (firstValBits # rest)))"

section \<open>One series\<close>

record encodedSeries =
  esFirstTS :: i64
  esFirstValBits :: u64
  esTsBits :: "u8 list"
  esTsBitsLen :: u32
  esValBits :: "u8 list"
  esValBitsLen :: u32

definition sortedPoints :: "point list \<Rightarrow> point list" where
  "sortedPoints pts = sort_Slice (\<lambda>p q. sint (pTs p) < sint (pTs q)) pts"

definition sortAndEncode :: "(f64 \<Rightarrow> i64) \<Rightarrow> bool \<Rightarrow> f64 \<Rightarrow> i64 \<Rightarrow> point list \<Rightarrow> encodedSeries" where
  "sortAndEncode oob qt maxDiff adjustDigit pts =
     (if pts = [] then \<lparr>esFirstTS = 0, esFirstValBits = 0, esTsBits = [], esTsBitsLen = 0, esValBits = [], esValBitsLen = 0\<rparr>
      else let pts = sortedPoints pts;
               (tsBits, tsLen) = enc_bytes (teBw (fold (ts_push \<circ> pTs) pts newTsEncoder))
           in if qt then
                let (valBits, valLen) = enc_bytes (qtBw (fold (qt_push oob \<circ> pV) pts (newSerfQtValEncoder maxDiff)))
                in \<lparr>esFirstTS = pTs (hd pts), esFirstValBits = f64_two, esTsBits = tsBits, esTsBitsLen = tsLen, esValBits = valBits, esValBitsLen = valLen\<rparr>
              else
                let e = fold (val_push \<circ> pV) pts (newSerfValEncoder maxDiff adjustDigit); (valBits, valLen) = enc_bytes (veBw e)
                in \<lparr>esFirstTS = pTs (hd pts), esFirstValBits = veFirstValBits e, esTsBits = tsBits, esTsBitsLen = tsLen, esValBits = valBits, esValBitsLen = valLen\<rparr>)"

end
