(* ===== verification/SerfObject.thy ===== *)
theory SerfObject
  imports SerfCodec "HOL-Library.AList"
begin

text \<open>
  The Serf exporter and receiver around the codec: the configuration (\<^verbatim>\<open>config.go\<close>), the window of points (\<^verbatim>\<open>exporter/serfexporter/exporter.go\<close>),
  the SERF1 objects (\<^verbatim>\<open>compress.go\<close>) and their decoding (\<^verbatim>\<open>receiver/serfreceiver/decoder.go\<close>, \<^verbatim>\<open>receiver.go\<close>).

  The metadata of a series travels as JSON: marshalling and unmarshalling are the parameter \<open>serfJson\<close>. A data point carries its attribute
  values as \<^verbatim>\<open>AsString\<close> renders them. \<^verbatim>\<open>flushWindow\<close> yields the bodies that are posted, \<open>postObjects\<close> posts them; the timer and the logs are left out.
\<close>

section \<open>Configuration\<close>

record serfExporterConfig =
  xcEndpoint :: gostr
  xcCompression :: gostr
  xcMaxDiff :: f64
  xcAdjustDigit :: i64
  xcWindowInterval :: i64
  xcMaxObjectBytes :: i64

datatype serf_config_error = ErrEndpoint | ErrCompression

abbreviation compression_xor :: gostr where "compression_xor \<equiv> bytes_of ''xor''"
abbreviation compression_qt :: gostr where "compression_qt \<equiv> bytes_of ''qt''"

definition ValidateExporter :: "serfExporterConfig \<Rightarrow> serf_config_error + serfExporterConfig" where
  "ValidateExporter c =
     (if xcEndpoint c = [] then Inl ErrEndpoint
      else let c = (if xcCompression c = [] then c\<lparr>xcCompression := compression_xor\<rparr> else c)
           in if xcCompression c \<noteq> compression_xor \<and> xcCompression c \<noteq> compression_qt then Inl ErrCompression
              else Inr (if sint (xcWindowInterval c) \<le> 0 then c\<lparr>xcWindowInterval := 10 * 1000000000\<rparr> else c))"

record serfReceiverConfig =
  rcEndpoint :: gostr
  rcCompression :: gostr
  rcMaxDiff :: f64

definition ValidateReceiver :: "serfReceiverConfig \<Rightarrow> serf_config_error + serfReceiverConfig" where
  "ValidateReceiver c =
     (if rcEndpoint c = [] then Inl ErrEndpoint
      else let c = (if rcCompression c = [] then c\<lparr>rcCompression := compression_xor\<rparr> else c)
           in if rcCompression c \<noteq> compression_xor \<and> rcCompression c \<noteq> compression_qt then Inl ErrCompression else Inr c)"

section \<open>The window\<close>

record seriesKeySerf =
  skMetricName :: gostr
  skAttributesKey :: gostr

record seriesBuffer =
  sbAttributes :: goattrs
  sbPoints :: "point list"

datatype numberValue = NDouble f64 | NInt i64 | NEmpty

record numberDataPoint =
  ndAttributes :: goattrs
  ndTimestamp :: u64
  ndValue :: numberValue

datatype metricData = MGauge "numberDataPoint list" | MSum "numberDataPoint list" | MOther

record serfExporter =
  seCfg :: serfExporterConfig
  seSeries :: "(seriesKeySerf \<times> seriesBuffer) list"
  seBlockStart :: "i64 option"
  seBlockEnd :: "i64 option"

definition newExporter :: "serfExporterConfig \<Rightarrow> serfExporter" where
  "newExporter cfg = \<lparr>seCfg = cfg, seSeries = [], seBlockStart = None, seBlockEnd = None\<rparr>"

definition encodeAttributesAsKey :: "goattrs \<Rightarrow> gostr" where
  "encodeAttributesAsKey attrs =
     concat (map (\<lambda>k. k @ bytes_of ''='' @ (case map_of attrs k of None \<Rightarrow> [] | Some v \<Rightarrow> v) @ bytes_of '';'') (sort (map fst attrs)))"

definition attributesToMap :: "goattrs \<Rightarrow> goattrs" where
  "attributesToMap attrs = fold (\<lambda>(k, v) m. AList.update k v m) attrs []"

definition pointValue :: "numberDataPoint \<Rightarrow> f64 option" where
  "pointValue dp = (case ndValue dp of NDouble v \<Rightarrow> Some v | NInt i \<Rightarrow> Some (f64_of_int64 i) | NEmpty \<Rightarrow> None)"

definition addPoint :: "gostr \<Rightarrow> numberDataPoint \<Rightarrow> serfExporter \<Rightarrow> serfExporter" where
  "addPoint metricName dp e =
     (case pointValue dp of None \<Rightarrow> e
      | Some val \<Rightarrow>
          let sk = \<lparr>skMetricName = metricName, skAttributesKey = encodeAttributesAsKey (ndAttributes dp)\<rparr>; ts = ndTimestamp dp;
              buf = (case map_of (seSeries e) sk of None \<Rightarrow> \<lparr>sbAttributes = attributesToMap (ndAttributes dp), sbPoints = []\<rparr> | Some buf \<Rightarrow> buf);
              buf = buf\<lparr>sbPoints := sbPoints buf @ [\<lparr>pTs = ts, pV = val\<rparr>]\<rparr>
          in e\<lparr>seSeries := AList.update sk buf (seSeries e),
               seBlockStart := (case seBlockStart e of None \<Rightarrow> Some ts | Some s \<Rightarrow> if sint ts < sint s then Some ts else Some s),
               seBlockEnd := (case seBlockEnd e of None \<Rightarrow> Some ts | Some s \<Rightarrow> if sint s < sint ts then Some ts else Some s)\<rparr>)"

definition ingestMetric :: "gostr \<times> metricData \<Rightarrow> serfExporter \<Rightarrow> serfExporter" where
  "ingestMetric m e = (case m of (name, MGauge dps) \<Rightarrow> fold (addPoint name) dps e | (name, MSum dps) \<Rightarrow> fold (addPoint name) dps e | (name, MOther) \<Rightarrow> e)"

definition ConsumeMetricsSerf :: "(gostr \<times> metricData) list list list \<Rightarrow> serfExporter \<Rightarrow> serfExporter" where
  "ConsumeMetricsSerf md e = fold (fold (fold ingestMetric)) md e"

section \<open>Objects\<close>

record seriesMeta =
  smMetricName :: gostr
  smAttributes :: goattrs
  smStartTS :: i64
  smEndTS :: i64
  smPointCount :: nat

record serfJson =
  jMarshal :: "seriesMeta \<Rightarrow> u8 list option"
  jUnmarshal :: "u8 list \<Rightarrow> seriesMeta option"

record serfChunk =
  scBuf :: "u8 list"
  scPoints :: nat
  scRawBytes :: nat

record serfObject =
  soData :: "u8 list"
  soSeriesCount :: nat
  soPoints :: nat
  soRawBytes :: nat

definition metaOf :: "seriesKeySerf \<Rightarrow> seriesBuffer \<Rightarrow> seriesMeta" where
  "metaOf key buf =
     (let pts = sortedPoints (sbPoints buf)
      in \<lparr>smMetricName = skMetricName key, smAttributes = sbAttributes buf, smStartTS = pTs (hd pts), smEndTS = pTs (last pts), smPointCount = length pts\<rparr>)"

definition buildChunk :: "serfJson \<Rightarrow> (f64 \<Rightarrow> i64) \<Rightarrow> bool \<Rightarrow> f64 \<Rightarrow> i64 \<Rightarrow> seriesKeySerf \<Rightarrow> seriesBuffer \<Rightarrow> serf_error + serfChunk" where
  "buildChunk j oob qt maxDiff adjustDigit key buf =
     (let es = sortAndEncode oob qt maxDiff adjustDigit (sbPoints buf)
      in case jMarshal j (metaOf key buf) of None \<Rightarrow> Inl ErrMarshal
         | Some mb \<Rightarrow>
             if 65535 < length mb then Inl ErrMetaTooLarge
             else Inr \<lparr>scBuf = putLE 2 (length mb) @ mb @ putUint32 (word_of_nat (length (sbPoints buf))) @ putUint64 (esFirstTS es) @ putUint64 (esFirstValBits es) @
                         putUint32 (esTsBitsLen es) @ esTsBits es @ putUint32 (esValBitsLen es) @ esValBits es,
                       scPoints = length (sbPoints buf), scRawBytes = length (sbPoints buf) * 16\<rparr>)"

fun buildChunks :: "serfJson \<Rightarrow> (f64 \<Rightarrow> i64) \<Rightarrow> bool \<Rightarrow> f64 \<Rightarrow> i64 \<Rightarrow> (seriesKeySerf \<times> seriesBuffer) list \<Rightarrow> serf_error + serfChunk list" where
  "buildChunks j oob qt maxDiff adjustDigit [] = Inr []"
| "buildChunks j oob qt maxDiff adjustDigit ((key, buf) # rest) =
     (if sbPoints buf = [] then buildChunks j oob qt maxDiff adjustDigit rest
      else res_bind (buildChunk j oob qt maxDiff adjustDigit key buf) (\<lambda>c.
           res_bind (buildChunks j oob qt maxDiff adjustDigit rest) (\<lambda>cs. Inr (c # cs))))"

record assembly =
  asCur :: "u8 list"
  asSeries :: nat
  asPoints :: nat
  asRaw :: nat
  asSize :: int
  asObjects :: "serfObject list"

definition writeHeader :: "assembly \<Rightarrow> assembly" where
  "writeHeader a = a\<lparr>asCur := bytes_of ''SERF1'' @ [1] @ putUint32 0, asSeries := 0, asPoints := 0, asRaw := 0, asSize := 10\<rparr>"

definition flushObject :: "assembly \<Rightarrow> assembly" where
  "flushObject a =
     (if asSeries a = 0 then a
      else let buf = take 6 (asCur a) @ putUint32 (word_of_nat (asSeries a)) @ drop 10 (asCur a)
           in writeHeader (a\<lparr>asObjects := asObjects a @ [\<lparr>soData = buf, soSeriesCount = asSeries a, soPoints = asPoints a, soRawBytes = asRaw a\<rparr>]\<rparr>))"

definition addChunk :: "i64 \<Rightarrow> serfChunk \<Rightarrow> assembly \<Rightarrow> assembly" where
  "addChunk maxBytes chunk a =
     (let a = (if 0 < sint maxBytes \<and> 0 < asSeries a \<and> sint maxBytes < asSize a + int (length (scBuf chunk)) then flushObject a else a);
          a = a\<lparr>asCur := asCur a @ scBuf chunk, asSeries := asSeries a + 1, asPoints := asPoints a + scPoints chunk,
                asRaw := asRaw a + scRawBytes chunk, asSize := asSize a + int (length (scBuf chunk))\<rparr>
      in if 0 < sint maxBytes \<and> 0 < asSeries a \<and> sint maxBytes \<le> asSize a then flushObject a else a)"

definition assembleObjects :: "i64 \<Rightarrow> serfChunk list \<Rightarrow> serfObject list" where
  "assembleObjects maxBytes chunks =
     (if chunks = [] then []
      else asObjects (flushObject (fold (addChunk maxBytes) chunks
             (writeHeader \<lparr>asCur = [], asSeries = 0, asPoints = 0, asRaw = 0, asSize = 0, asObjects = []\<rparr>))))"

definition key_less :: "seriesKeySerf \<Rightarrow> seriesKeySerf \<Rightarrow> bool" where
  "key_less a b = (if skMetricName a \<noteq> skMetricName b then skMetricName a < skMetricName b else skAttributesKey a < skAttributesKey b)"

definition buildObjects ::
    "serfJson \<Rightarrow> (f64 \<Rightarrow> i64) \<Rightarrow> (seriesKeySerf \<times> seriesBuffer) list \<Rightarrow> i64 \<Rightarrow> gostr \<Rightarrow> f64 \<Rightarrow> i64 \<Rightarrow> serf_error + serfObject list" where
  "buildObjects j oob series maxObjectBytes compression maxDiff adjustDigit =
     res_bind (buildChunks j oob (compression = compression_qt) maxDiff adjustDigit (sort_Slice (\<lambda>a b. key_less (fst a) (fst b)) series))
       (\<lambda>chunks. Inr (assembleObjects maxObjectBytes chunks))"

definition flushWindow :: "serfJson \<Rightarrow> (f64 \<Rightarrow> i64) \<Rightarrow> serfExporter \<Rightarrow> (serf_error + serfObject list) \<times> serfExporter" where
  "flushWindow j oob e =
     (if seSeries e = [] then (Inr [], e)
      else (buildObjects j oob (seSeries e) (xcMaxObjectBytes (seCfg e)) (xcCompression (seCfg e)) (xcMaxDiff (seCfg e)) (xcAdjustDigit (seCfg e)),
            e\<lparr>seSeries := [], seBlockStart := None, seBlockEnd := None\<rparr>))"

section \<open>Decoding\<close>

text \<open>
  A \<^verbatim>\<open>bytes.Reader\<close> stands for the bytes that are left. \<^verbatim>\<open>Read\<close> fails only when nothing is left; otherwise it fills what it can of the buffer, which
  \<^verbatim>\<open>make\<close> has zeroed. \<^verbatim>\<open>binary.Read\<close> insists on all of its bytes.
\<close>

definition rd_read :: "nat \<Rightarrow> u8 list \<Rightarrow> serf_error + u8 list \<times> u8 list" where
  "rd_read n r = (if r = [] then Inl EOF else Inr (take n r @ replicate (n - length r) 0, drop n r))"

definition rd_full :: "nat \<Rightarrow> u8 list \<Rightarrow> serf_error + u8 list \<times> u8 list" where
  "rd_full n r = (if r = [] then Inl EOF else if length r < n then Inl UnexpectedEOF else Inr (take n r, drop n r))"

definition rd_uint :: "nat \<Rightarrow> u8 list \<Rightarrow> serf_error + 'a::len word \<times> u8 list" where
  "rd_uint n r = res_bind (rd_full n r) (\<lambda>(b, r). Inr (word_of_nat (getLE b), r))"

record decodedSeries =
  dsMetricName :: gostr
  dsAttributes :: goattrs
  dsStartTS :: i64
  dsEndTS :: i64
  dsPoints :: "point list"

definition rd_stream :: "u32 \<Rightarrow> u8 list \<Rightarrow> serf_error + u8 list \<times> u8 list" where
  "rd_stream bitsLen r = (let n = unat ((bitsLen + 7) div 8) in if 0 < n then rd_read n r else Inr ([], r))"

definition decodeOneSeries :: "serfJson \<Rightarrow> bool \<Rightarrow> f64 \<Rightarrow> u8 list \<Rightarrow> serf_error + decodedSeries \<times> u8 list" where
  "decodeOneSeries j qt maxDiff r =
     res_bind (rd_uint 2 r) (\<lambda>(metaLen :: 16 word, r).
     res_bind (rd_read (unat metaLen) r) (\<lambda>(metaBytes, r).
     case jUnmarshal j metaBytes of None \<Rightarrow> Inl ErrUnmarshal | Some meta \<Rightarrow>
     res_bind (rd_uint 4 r) (\<lambda>(pointCount :: u32, r).
     res_bind (rd_uint 8 r) (\<lambda>(firstTS :: u64, r).
     res_bind (rd_uint 8 r) (\<lambda>(firstValBits :: u64, r).
     res_bind (rd_uint 4 r) (\<lambda>(tsBitsLen :: u32, r).
     res_bind (rd_stream tsBitsLen r) (\<lambda>(tsData, r).
     res_bind (rd_uint 4 r) (\<lambda>(valBitsLen :: u32, r).
     res_bind (rd_stream valBitsLen r) (\<lambda>(valData, r).
     let ds = \<lparr>dsMetricName = smMetricName meta, dsAttributes = smAttributes meta, dsStartTS = smStartTS meta, dsEndTS = smEndTS meta, dsPoints = []\<rparr>
     in if pointCount = 0 then Inr (ds, r)
        else res_bind (decodeTimestampsSerf firstTS tsData tsBitsLen pointCount) (\<lambda>timestamps.
             res_bind (decodeValues qt maxDiff firstValBits valData valBitsLen pointCount) (\<lambda>values.
             Inr (ds\<lparr>dsPoints := map2 (\<lambda>t v. \<lparr>pTs = t, pV = v\<rparr>) timestamps values\<rparr>, r))))))))))))"

fun decodeAllSeries :: "serfJson \<Rightarrow> bool \<Rightarrow> f64 \<Rightarrow> nat \<Rightarrow> u8 list \<Rightarrow> serf_error + decodedSeries list" where
  "decodeAllSeries j qt maxDiff 0 r = Inr []"
| "decodeAllSeries j qt maxDiff (Suc n) r =
     res_bind (decodeOneSeries j qt maxDiff r) (\<lambda>(s, r). res_bind (decodeAllSeries j qt maxDiff n r) (\<lambda>ss. Inr (s # ss)))"

definition decodeSERF1 :: "serfJson \<Rightarrow> u8 list \<Rightarrow> gostr \<Rightarrow> f64 \<Rightarrow> serf_error + decodedSeries list" where
  "decodeSERF1 j data compression maxDiff =
     res_bind (rd_read 5 data) (\<lambda>(magic, r).
     if magic \<noteq> bytes_of ''SERF1'' then Inl ErrMagicSerf
     else res_bind (rd_full 1 r) (\<lambda>(version, r).
     res_bind (rd_uint 4 r) (\<lambda>(seriesCount :: u32, r).
     decodeAllSeries j (compression = compression_qt) maxDiff (unat seriesCount) r)))"

text \<open>\<^verbatim>\<open>buildMetrics\<close>: one gauge per series that has points, each point with the attributes of the series.\<close>

definition buildMetrics :: "decodedSeries list \<Rightarrow> (gostr \<times> metricData) list" where
  "buildMetrics series = map (\<lambda>s. (dsMetricName s, MGauge (map (\<lambda>p. \<lparr>ndAttributes = dsAttributes s, ndTimestamp = pTs p, ndValue = NDouble (pV p)\<rparr>) (dsPoints s))))
     (filter (\<lambda>s. dsPoints s \<noteq> []) series)"

section \<open>HTTP\<close>

text \<open>
  A request to the receiver is its method, POST or not, and its body, absent when reading it fails; the consumer downstream accepts the metrics or fails, and
  what it has accepted is kept. The exporter takes a status from 200 to 299 for success, and goes on with the next object after a failure.
\<close>

record serfReceiver =
  srCfg :: serfReceiverConfig
  srBytesRecv :: nat
  srPointsDecoded :: nat
  srConsumed :: "(gostr \<times> metricData) list list"

definition newReceiver :: "serfReceiverConfig \<Rightarrow> serfReceiver" where
  "newReceiver cfg = \<lparr>srCfg = cfg, srBytesRecv = 0, srPointsDecoded = 0, srConsumed = []\<rparr>"

definition DataPointCount :: "(gostr \<times> metricData) list \<Rightarrow> nat" where
  "DataPointCount md = sum_list (map (\<lambda>(_, m). case m of MGauge dps \<Rightarrow> length dps | MSum dps \<Rightarrow> length dps | MOther \<Rightarrow> 0) md)"

definition handleSERF1 :: "serfJson \<Rightarrow> ((gostr \<times> metricData) list \<Rightarrow> bool) \<Rightarrow> bool \<Rightarrow> u8 list option \<Rightarrow> serfReceiver \<Rightarrow> nat \<times> serfReceiver" where
  "handleSERF1 j accepts isPost body r =
     (if \<not> isPost then (405, r)
      else case body of None \<Rightarrow> (500, r)
      | Some data \<Rightarrow>
          let r = r\<lparr>srBytesRecv := srBytesRecv r + length data\<rparr>
          in case decodeSERF1 j data (rcCompression (srCfg r)) (rcMaxDiff (srCfg r)) of Inl _ \<Rightarrow> (400, r)
             | Inr series \<Rightarrow>
                 let md = buildMetrics series; r = r\<lparr>srPointsDecoded := srPointsDecoded r + DataPointCount md\<rparr>
                 in if accepts md then (204, r\<lparr>srConsumed := srConsumed r @ [md]\<rparr>) else (500, r))"

definition postObject :: "(u8 list \<Rightarrow> 's \<Rightarrow> nat \<times> 's) \<Rightarrow> u8 list \<Rightarrow> 's \<Rightarrow> bool \<times> 's" where
  "postObject post data s = (case post data s of (status, s) \<Rightarrow> (200 \<le> status \<and> status < 300, s))"

text \<open>The loop of \<^verbatim>\<open>flushWindow\<close> over the objects, with the counter \<^verbatim>\<open>serf_exporter_bytes_sent_total\<close>.\<close>

fun postObjects :: "(u8 list \<Rightarrow> 's \<Rightarrow> nat \<times> 's) \<Rightarrow> serfObject list \<Rightarrow> nat \<Rightarrow> 's \<Rightarrow> nat \<times> 's" where
  "postObjects post [] bytesSent s = (bytesSent, s)"
| "postObjects post (obj # objs) bytesSent s =
     (case postObject post (soData obj) s of (ok, s) \<Rightarrow> postObjects post objs (if ok then bytesSent + length (soData obj) else bytesSent) s)"

end
