(* ===== verification/SerfRoundtrip.thy ===== *)
theory SerfRoundtrip
  imports SerfCodec
begin

text \<open>
  What the Serf codec keeps of a series: timestamps come back exactly, values as the approximations that the encoder chose, which are within
  the error bound unless a NaN is involved.
\<close>

section \<open>Timestamps\<close>

lemma signExtend_fits:
  assumes "fitsInSignedBits dd n" "0 < n" "n < 64"
  shows "signExtend (take_bit n dd) n = dd"
proof -
  define m where "m = n - 1"
  have n: "n = Suc m" "m < 63" using assms(2,3) by (simp_all add: m_def)
  have le: "(2 :: int) ^ m \<le> 2 ^ 62" using n(2) by (intro power_increasing) simp_all
  have i: "sint (word_of_int k :: i64) = k" if "- (2 ^ 63) \<le> k" "k < 2 ^ 63" for k
    using that by (simp add: signed_of_int signed_take_bit_int_eq_self)
  have w: "(push_bit m 1 :: i64) = word_of_int (2 ^ m)" by simp
  have p: "sint (- push_bit m 1 :: i64) = - (2 ^ m)" "sint (push_bit m 1 - 1 :: i64) = 2 ^ m - 1"
  proof -
    have pos: "0 < (2 :: int) ^ m" by simp
    have b: "- (2 ^ 63) \<le> - ((2 :: int) ^ m)" "- ((2 :: int) ^ m) < 2 ^ 63" "- (2 ^ 63) \<le> (2 :: int) ^ m - 1" "(2 :: int) ^ m - 1 < 2 ^ 63"
      using le pos by (simp_all, linarith+)
    from i [OF b(1,2)] i [OF b(3,4)]
    show "sint (- push_bit m 1 :: i64) = - (2 ^ m)" "sint (push_bit m 1 - 1 :: i64) = 2 ^ m - 1" by (simp_all add: w)
  qed
  then have "signed_take_bit m (sint dd) = sint dd" using assms n by (intro signed_take_bit_int_eq_self) (auto simp: fitsInSignedBits_def Let_def)
  then have high: "bit (sint dd) i = bit (sint dd) (min i m)" for i using bit_signed_take_bit_iff [of m "sint dd" i] by (simp add: min.commute)
  have bits: "bit dd i = bit dd m" if "m \<le> i" "i < 64" for i
    using high [of i] that n by (simp add: bit_sint_iff min_def split: if_splits)
  have s: "take_bit (Suc m) dd AND 2 ^ m = 0 \<longleftrightarrow> \<not> bit dd m"
    using n by (simp add: and_exp_eq_0_iff_not_bit bit_take_bit_iff)
  show ?thesis
  proof (rule bit_word_eqI)
    fix i assume "i < LENGTH(64)"
    then show "bit (signExtend (take_bit n dd) n) i = bit dd i"
      using bits [of i] n by (cases "i < n") (auto simp: signExtend_def Let_def s bit_simps)
  qed
qed

text \<open>The code of a delta of deltas.\<close>

definition dd_bits :: "i64 \<Rightarrow> bool list" where
  "dd_bits dd =
     (if dd = 0 then [False]
      else if fitsInSignedBits dd 7 then [True] @ [False] @ to_bits 7 dd
      else if fitsInSignedBits dd 9 then [True] @ [True] @ [False] @ to_bits 9 dd
      else if fitsInSignedBits dd 12 then [True] @ [True] @ [True] @ [False] @ to_bits 12 dd
      else [True] @ [True] @ [True] @ [True] @ to_bits 64 dd)"

lemma breads_signed: "fitsInSignedBits dd n \<Longrightarrow> 0 < n \<Longrightarrow> n < 64 \<Longrightarrow>
  breads (\<lambda>r. res_bind (readBits n r) (\<lambda>(raw, r). Inr (signExtend raw n, r))) (to_bits n dd) dd"
  using breads_bind [OF breads_bits, of "\<lambda>raw r. Inr (signExtend raw n, r)" n dd "[]"] breads_return [of dd] by (simp add: signExtend_fits)

lemma breads_one: "breads (q 1) y u \<Longrightarrow> breads (\<lambda>r. res_bind (readBit r) (\<lambda>(v, r). q v r)) (True # y) u"
  using breads_bind [OF breads_bit, of q True y] by simp

lemma breads_zero: "breads (q 0) y u \<Longrightarrow> breads (\<lambda>r. res_bind (readBit r) (\<lambda>(v, r). q v r)) (False # y) u"
  using breads_bind [OF breads_bit, of q False y] by simp

lemmas flag_simps = one_neq_zero zero_neq_one if_True if_False refl

lemma breads_dd: "breads decodeDD (dd_bits dd) dd"
proof -
  have full: "breads (\<lambda>r. res_bind (readBits 64 r) (\<lambda>(raw, r). Inr (raw, r))) (to_bits 64 dd) dd"
  proof -
    have "take_bit 64 dd = dd" by (rule bit_word_eqI) (simp add: bit_take_bit_iff)
    then show ?thesis using breads_bind [OF breads_bits, of "\<lambda>raw r. Inr (raw, r)" 64 dd "[]"] breads_return [of dd] by simp
  qed
  consider "dd = 0" | "dd \<noteq> 0" "fitsInSignedBits dd 7" | "dd \<noteq> 0" "\<not> fitsInSignedBits dd 7" "fitsInSignedBits dd 9"
    | "dd \<noteq> 0" "\<not> fitsInSignedBits dd 7" "\<not> fitsInSignedBits dd 9" "fitsInSignedBits dd 12"
    | "dd \<noteq> 0" "\<not> fitsInSignedBits dd 7" "\<not> fitsInSignedBits dd 9" "\<not> fitsInSignedBits dd 12" by blast
  then show ?thesis
  proof cases
    case 1
    show ?thesis unfolding decodeDD_def [abs_def] dd_bits_def 1 by (simp only: flag_simps) (rule breads_zero, simp add: breads_return)
  next
    case 2
    then have "dd_bits dd = True # False # to_bits 7 dd" by (simp add: dd_bits_def)
    then show ?thesis unfolding decodeDD_def [abs_def]
      by (simp only:) (rule breads_one, simp only: flag_simps, rule breads_zero, simp only: flag_simps, simp add: breads_signed 2)
  next
    case 3
    then have "dd_bits dd = True # True # False # to_bits 9 dd" by (simp add: dd_bits_def)
    then show ?thesis unfolding decodeDD_def [abs_def]
      by (simp only:) ((rule breads_one, simp only: flag_simps)+, rule breads_zero, simp only: flag_simps, simp add: breads_signed 3)
  next
    case 4
    then have "dd_bits dd = True # True # True # False # to_bits 12 dd" by (simp add: dd_bits_def)
    then show ?thesis unfolding decodeDD_def [abs_def]
      by (simp only:) ((rule breads_one, simp only: flag_simps)+, rule breads_zero, simp only: flag_simps, simp add: breads_signed 4)
  next
    case 5
    then have "dd_bits dd = True # True # True # True # to_bits 64 dd" by (simp add: dd_bits_def)
    then show ?thesis unfolding decodeDD_def [abs_def]
      by (simp only:) ((rule breads_one, simp only: flag_simps)+, rule full)
  qed
qed

fun ts_bits :: "i64 \<Rightarrow> i64 \<Rightarrow> i64 list \<Rightarrow> bool list" where
  "ts_bits prevTS prevDelta [] = []"
| "ts_bits prevTS prevDelta (t # ts) = dd_bits (t - prevTS - prevDelta) @ ts_bits t (t - prevTS) ts"

lemma length_dd_bits: "length (dd_bits dd) \<le> 68"
  by (simp add: dd_bits_def)

lemma length_ts_bits: "length (ts_bits prevTS prevDelta ts) \<le> 68 * length ts"
proof (induction ts arbitrary: prevTS prevDelta)
  case (Cons t ts)
  then show ?case using length_dd_bits [of "t - prevTS - prevDelta"] by (simp add: add_mono)
qed simp

text \<open>Codes written one after the other.\<close>

definition writes :: "(bitWriter \<Rightarrow> bitWriter) \<Rightarrow> bool list \<Rightarrow> bool" where
  "writes f x \<longleftrightarrow> (\<forall>w. bw_ok w \<longrightarrow> bw_ok (f w) \<and> written (f w) = written w @ x)"

lemma writes_bit: "writes (writeBit b) [b \<noteq> 0]"
  by (simp add: writes_def written_writeBit)

lemma writes_bits: "writes (writeBits v n) (to_bits n v)"
  by (simp add: writes_def written_writeBits)

lemma writes_comp: "writes f x \<Longrightarrow> writes g y \<Longrightarrow> writes (\<lambda>w. g (f w)) (x @ y)"
  by (simp add: writes_def)

lemma writes_zeros: "writes (writeZeros k) (replicate k False)"
proof (induction k)
  case (Suc k)
  show ?case using writes_comp [OF writes_bit [of 0] Suc] by simp
qed (simp add: writes_def)

lemma to_bits_low: "m \<le> n \<Longrightarrow> n < 64 \<Longrightarrow> to_bits m (v AND (push_bit n 1 - 1)) = to_bits m (v :: u64)"
  by (rule to_bits_cong) (auto simp: bit_and_iff bit_mask_iff simp flip: mask_eq_exp_minus_1)

definition ddWrite :: "i64 \<Rightarrow> bitWriter \<Rightarrow> bitWriter" where
  "ddWrite dd bw =
     (if dd = 0 then writeBit 0 bw
      else if fitsInSignedBits dd 7 then writeBits (dd AND (push_bit 7 1 - 1)) 7 (writeBits 0b10 2 bw)
      else if fitsInSignedBits dd 9 then writeBits (dd AND (push_bit 9 1 - 1)) 9 (writeBits 0b110 3 bw)
      else if fitsInSignedBits dd 12 then writeBits (dd AND (push_bit 12 1 - 1)) 12 (writeBits 0b1110 4 bw)
      else writeBits dd 64 (writeBits 0b1111 4 bw))"

lemma writes_dd: "writes (ddWrite dd) (dd_bits dd)"
proof -
  have t: "to_bits 2 (0b10 :: u64) = [True] @ [False]" "to_bits 3 (0b110 :: u64) = [True] @ [True] @ [False]"
    "to_bits 4 (0b1110 :: u64) = [True] @ [True] @ [True] @ [False]" "to_bits 4 (0b1111 :: u64) = [True] @ [True] @ [True] @ [True]"
    by (simp_all add: to_bits_def upt_rec)
  have w: "writes (\<lambda>bw. writeBits (dd AND (push_bit n 1 - 1)) n (writeBits p k bw)) (to_bits k p @ to_bits n dd)" if "n < 64" for n k p
    using writes_comp [OF writes_bits [of p k] writes_bits [of "dd AND (push_bit n 1 - 1)" n]] that by (simp only: to_bits_low order_refl)
  have f: "writes (\<lambda>bw. writeBits dd 64 (writeBits p k bw)) (to_bits k p @ to_bits 64 dd)" for k p by (rule writes_comp [OF writes_bits writes_bits])
  show ?thesis
    using w [where n = 7 and p = "0b10" and k = 2] w [where n = 9 and p = "0b110" and k = 3] w [where n = 12 and p = "0b1110" and k = 4]
      f [where p = "0b1111" and k = 4] writes_bit [of 0]
    unfolding t by (simp add: ddWrite_def [abs_def] dd_bits_def)
qed

lemma ts_push_next:
  "teFirstSet e \<Longrightarrow> ts_push ts e = e\<lparr>teBw := ddWrite (ts - tePrevTS e - tePrevDelta e) (teBw e), tePrevTS := ts, tePrevDelta := ts - tePrevTS e\<rparr>"
  by (simp add: ts_push_def ddWrite_def Let_def)

lemma ts_push_written:
  "teFirstSet e \<Longrightarrow> bw_ok (teBw e) \<Longrightarrow>
   bw_ok (teBw (fold ts_push ts e)) \<and> written (teBw (fold ts_push ts e)) = written (teBw e) @ ts_bits (tePrevTS e) (tePrevDelta e) ts"
proof (induction ts arbitrary: e)
  case (Cons t ts)
  let ?e = "ts_push t e"
  have "bw_ok (teBw ?e)" "written (teBw ?e) = written (teBw e) @ dd_bits (t - tePrevTS e - tePrevDelta e)"
    using Cons.prems writes_dd unfolding writes_def by (simp_all add: ts_push_next)
  moreover have "teFirstSet ?e" "tePrevTS ?e = t" "tePrevDelta ?e = t - tePrevTS e" using Cons.prems by (simp_all add: ts_push_next)
  ultimately show ?case using Cons.IH [of ?e] by simp
qed simp

lemma decode_ts: "bits_left r (ts_bits prevTS prevDelta ts @ rest) \<Longrightarrow> decodeTimestampsLoop (length ts) prevTS prevDelta r = Inr ts"
proof (induction ts arbitrary: prevTS prevDelta r)
  case (Cons t ts)
  then obtain r' where "decodeDD r = Inr (t - prevTS - prevDelta, r')" "bits_left r' (ts_bits t (t - prevTS) ts @ rest)"
    using breads_run [OF breads_dd, of r "t - prevTS - prevDelta" "ts_bits t (t - prevTS) ts @ rest"] by auto
  then show ?case using Cons.IH [of r' t "t - prevTS"] by (simp add: Let_def)
qed simp

text \<open>The reader of an encoder's bytes holds the bits that were written.\<close>

lemma reader_of_bytes:
  assumes "bw_ok w" "enc_bytes w = (data, bitsLen)" "8 * length data < 2 ^ 32"
  obtains pad where "bits_left (newBitReader data bitsLen) (written w @ pad)"
proof -
  have d: "data = bw_bytes w" "bitsLen = word_of_nat (length data * 8)" using assms(2) by (auto simp: enc_bytes_def Let_def)
  obtain pad where "bytes_bits data = written w @ pad" using bw_bytes_bits [OF assms(1)] d(1) by blast
  moreover have "unat bitsLen = 8 * length data" unfolding d(2) using assms(3) unat_of_nat [of "length data * 8", where 'a = 32] by (simp del: of_nat_mult)
  ultimately show thesis using that [of pad] by (simp add: bits_left_def newBitReader_def flip: length_bytes_bits)
qed

lemma timestamps_written:
  assumes "ts = t # us" "w = teBw (fold ts_push ts newTsEncoder)"
  shows "bw_ok w" "written w = ts_bits t 0 us"
proof -
  define e where "e = newTsEncoder\<lparr>tePrevTS := t, tePrevDelta := 0, teFirstSet := True\<rparr>"
  have e: "w = teBw (fold ts_push us e)" "bw_ok (teBw e)" "written (teBw e) = []" "teFirstSet e" "tePrevTS e = t" "tePrevDelta e = 0"
    by (simp_all add: assms e_def ts_push_def newTsEncoder_def new_writer)
  show "bw_ok w" "written w = ts_bits t 0 us" using ts_push_written [OF e(4,2), of us] e by simp_all
qed

lemma timestamps_serf:
  assumes "ts \<noteq> []" "enc_bytes (teBw (fold ts_push ts newTsEncoder)) = (data, bitsLen)" "length ts < 2 ^ 25"
  shows "8 * length data < 2 ^ 32" "decodeTimestampsSerf (hd ts) data bitsLen (word_of_nat (length ts)) = Inr ts"
proof -
  obtain t us where ts: "ts = t # us" using assms(1) by (cases ts) simp_all
  note w = timestamps_written [OF ts refl]
  have "data = bw_bytes (teBw (fold ts_push ts newTsEncoder))" using assms(2) by (simp add: enc_bytes_def Let_def)
  then show len: "8 * length data < 2 ^ 32" using length_bw_bytes [OF w(1)] length_ts_bits [of t 0 us] assms(3) w(2) by (simp add: ts)
  obtain pad where "bits_left (newBitReader data bitsLen) (ts_bits t 0 us @ pad)"
    using reader_of_bytes [OF w(1) assms(2) len] w(2) by auto
  note dec = decode_ts [OF this]
  have n: "unat (word_of_nat (length ts) :: u32) = length ts" using assms(3) by (simp add: unat_of_nat)
  then have "word_of_nat (length ts) \<noteq> (0 :: u32)" using ts by auto
  moreover have "word_of_nat (length ts) = (1 :: u32) \<longleftrightarrow> us = []" using n by (simp add: word_unat_eq_iff ts del: of_nat_Suc)
  ultimately show "decodeTimestampsSerf (hd ts) data bitsLen (word_of_nat (length ts)) = Inr ts"
    using dec n unfolding decodeTimestampsSerf_def by (auto simp: ts simp del: of_nat_Suc)
qed

section \<open>XOR values\<close>

lemma leadingZeros64_bit: "bit x i \<Longrightarrow> i < 64 - leadingZeros64 x"
proof -
  assume b: "bit x i"
  then have "x \<noteq> 0" by auto
  have "\<not> unat x < 2 ^ i"
  proof
    assume "unat x < 2 ^ i"
    then have "\<not> bit (unat x) i" by (simp add: bit_iff_odd)
    then show False using b bit_imp_le_length [OF b] by (simp add: bit_unsigned_iff)
  qed
  then have "i < len64 x" using len64_le_iff [of x i] by simp
  then show ?thesis using len64_le_64 [of x] \<open>x \<noteq> 0\<close> by (simp add: leadingZeros64_def)
qed

lemma trailingZeros64_bit:
  assumes "x \<noteq> 0"
  shows "trailingZeros64 x < 64" "bit x (trailingZeros64 x)" "i < trailingZeros64 x \<Longrightarrow> \<not> bit x i"
proof -
  let ?P = "\<lambda>i. \<not> bit x i" let ?k = "length (takeWhile ?P [0..<64])"
  have k: "trailingZeros64 x = ?k" using assms by (simp add: trailingZeros64_def)
  have below: "\<not> bit x i" if "i < ?k" for i
    using that nth_mem [of i "takeWhile ?P [0..<64]"] takeWhile_nth [of i ?P "[0..<64]"] length_takeWhile_le [of ?P "[0..<64]"]
    by (auto dest!: set_takeWhileD)
  obtain j where "bit x j" using assms by (metis bit_word_eqI bit_0_eq bot_apply bot_bool_def)
  then have "j < 64" using bit_imp_le_length [of x j] by simp
  then have "?k < 64" using below [of j] \<open>bit x j\<close> length_takeWhile_le [of ?P "[0..<64]"] by (cases "?k = 64") auto
  then show "trailingZeros64 x < 64" "bit x (trailingZeros64 x)" using nth_length_takeWhile [of ?P "[0..<64]"] by (auto simp: k)
  show "i < trailingZeros64 x \<Longrightarrow> \<not> bit x i" using below by (simp add: k)
qed

lemma rounding_tables:
  assumes "a < 64"
  shows "serfLeadingRound ! a \<le> a" "serfLeadingRepresentation ! a < 8" "xorLeadingRepr ! (serfLeadingRepresentation ! a) = serfLeadingRound ! a"
    "serfTrailingRound ! a \<le> a" "serfTrailingRepresentation ! a < 8" "xorTrailingRepr ! (serfTrailingRepresentation ! a) = serfTrailingRound ! a"
proof -
  have "\<forall>a \<in> set [0..<64]. serfLeadingRound ! a \<le> a \<and> serfLeadingRepresentation ! a < 8 \<and> xorLeadingRepr ! (serfLeadingRepresentation ! a) = serfLeadingRound ! a \<and>
      serfTrailingRound ! a \<le> a \<and> serfTrailingRepresentation ! a < 8 \<and> xorTrailingRepr ! (serfTrailingRepresentation ! a) = serfTrailingRound ! a"
    by code_simp
  then show "serfLeadingRound ! a \<le> a" "serfLeadingRepresentation ! a < 8" "xorLeadingRepr ! (serfLeadingRepresentation ! a) = serfLeadingRound ! a"
    "serfTrailingRound ! a \<le> a" "serfTrailingRepresentation ! a < 8" "xorTrailingRepr ! (serfTrailingRepresentation ! a) = serfTrailingRound ! a"
    using assms by auto
qed

text \<open>The bits of a word between a number of leading and of trailing zeros determine it.\<close>

definition spans :: "nat \<Rightarrow> nat \<Rightarrow> u64 \<Rightarrow> bool" where
  "spans l t x \<longleftrightarrow> (\<forall>i. bit x i \<longrightarrow> t \<le> i \<and> i < 64 - l)"

lemma spans_center:
  assumes "spans l t x"
  shows "push_bit t (take_bit (64 - l - t) (drop_bit t x)) = x"
proof (rule bit_word_eqI)
  fix i assume "i < LENGTH(64)"
  then show "bit (push_bit t (take_bit (64 - l - t) (drop_bit t x))) i = bit x i"
    using assms by (cases "bit x i") (auto simp: bit_simps spans_def)
qed

lemma breads_center:
  assumes "spans l t x"
  shows "breads (\<lambda>r. res_bind (readBits (64 - l - t) r) (\<lambda>(center, r). Inr ((s XOR push_bit t center, l, t), r)))
    (to_bits (64 - l - t) (drop_bit t x)) (s XOR x, l, t)"
  using breads_bind [OF breads_bits [of "64 - l - t" "drop_bit t x"], of "\<lambda>center r. Inr ((s XOR push_bit t center, l, t), r)" "[]"]
    breads_return [of "(s XOR x, l, t)"] spans_center [OF assms] by simp

lemma breads_reuse:
  assumes "spans l t x" "l + t < 64"
  shows "breads (decodeXORValue s l t) (True # to_bits (64 - l - t) (drop_bit t x)) (s XOR x, l, t)"
  unfolding decodeXORValue_def [abs_def]
  by (rule breads_one) (use assms breads_center in \<open>simp add: not_le\<close>)

lemma breads_same: "breads (decodeXORValue s l t) [False, True] (s, l, t)"
  unfolding decodeXORValue_def [abs_def]
  by (rule breads_zero, simp only: flag_simps, rule breads_one) (simp add: breads_return)

lemma breads_code: "k < 8 \<Longrightarrow> breads (q (word_of_nat k)) y u \<Longrightarrow> breads (\<lambda>r. res_bind (readBits 3 r) (\<lambda>(v, r). q v r)) (to_bits 3 (word_of_nat k :: u64) @ y) u"
proof -
  assume k: "k < 8" and q: "breads (q (word_of_nat k)) y u"
  have "take_bit 3 (word_of_nat k) = (word_of_nat k :: u64)" using k by (simp add: take_bit_eq_mod word_unat_eq_iff unat_mod unat_of_nat)
  then show ?thesis using breads_bind [OF breads_bits [of 3 "word_of_nat k"] , of q y u] q by simp
qed

lemma breads_new:
  assumes "spans l t x" "l + t < 64" "kl < 8" "kt < 8" "xorLeadingRepr ! kl = l" "xorTrailingRepr ! kt = t"
  shows "breads (decodeXORValue s l0 t0) (False # False # to_bits 3 (word_of_nat kl :: u64) @ to_bits 3 (word_of_nat kt :: u64) @ to_bits (64 - l - t) (drop_bit t x)) (s XOR x, l, t)"
proof -
  have u: "unat (word_of_nat kl :: u64) = kl" "unat (word_of_nat kt :: u64) = kt" using assms(3,4) by (simp_all add: unat_of_nat)
  have c: "(64 \<le> l + t) = False" using assms(2) by simp
  show ?thesis
    unfolding decodeXORValue_def [abs_def]
    apply (rule breads_zero, simp only: flag_simps, rule breads_zero, simp only: flag_simps)
    apply (rule breads_code [OF assms(3)], rule breads_code [OF assms(4)])
    apply (simp only: u assms(5,6) Let_def c if_False)
    apply (rule breads_center [OF assms(1)])
    done
qed

text \<open>The encoder's window and the decoder's: alike once there has been one.\<close>

definition windows_agree :: "serfValueEncoder \<Rightarrow> nat \<Rightarrow> nat \<Rightarrow> bool" where
  "windows_agree e l t \<longleftrightarrow>
     veStoredLeadingZeros e = 65 \<and> veStoredTrailingZeros e = 65 \<or>
     veStoredLeadingZeros e = int l \<and> veStoredTrailingZeros e = int t \<and> l + t < 64"

lemma nonzero_spans:
  assumes "x \<noteq> 0"
  shows "leadingZeros64 x < 64" "trailingZeros64 x < 64" "leadingZeros64 x + trailingZeros64 x < 64"
    "l \<le> leadingZeros64 x \<Longrightarrow> t \<le> trailingZeros64 x \<Longrightarrow> spans l t x"
proof -
  note t = trailingZeros64_bit [OF assms]
  show "trailingZeros64 x < 64" by (rule t(1))
  show "leadingZeros64 x + trailingZeros64 x < 64" using leadingZeros64_bit [OF t(2)] by simp
  then show "leadingZeros64 x < 64" by simp
  show "spans l t x" if "l \<le> leadingZeros64 x" "t \<le> trailingZeros64 x"
    unfolding spans_def
  proof (intro allI impI)
    fix i assume "bit x i"
    then show "t \<le> i \<and> i < 64 - l" using leadingZeros64_bit [of x i] t(3) [of i] that by fastforce
  qed
qed

definition xor_lead :: "u64 \<Rightarrow> nat" where "xor_lead x = serfLeadingRound ! leadingZeros64 x"

definition xor_trail :: "u64 \<Rightarrow> nat" where "xor_trail x = serfTrailingRound ! trailingZeros64 x"

definition reuses :: "serfValueEncoder \<Rightarrow> u64 \<Rightarrow> bool" where
  "reuses e x \<longleftrightarrow> veStoredLeadingZeros e \<le> int (xor_lead x) \<and> veStoredTrailingZeros e \<le> int (xor_trail x) \<and>
     (int (xor_lead x) - veStoredLeadingZeros e) + (int (xor_trail x) - veStoredTrailingZeros e) < 7"

lemma compressValue_cases:
  assumes "x = veStoredVal e XOR v"
  shows "x = 0 \<Longrightarrow> compressValue v e = e\<lparr>veBw := writeBits 0b01 2 (veBw e)\<rparr>"
    and "x \<noteq> 0 \<Longrightarrow> reuses e x \<Longrightarrow> compressValue v e = e\<lparr>veBw := writeBits (drop_bit (nat (veStoredTrailingZeros e)) x)
      (nat (64 - veStoredLeadingZeros e - veStoredTrailingZeros e)) (writeBit 1 (veBw e))\<rparr>"
    and "x \<noteq> 0 \<Longrightarrow> \<not> reuses e x \<Longrightarrow> compressValue v e = e\<lparr>veStoredLeadingZeros := int (xor_lead x), veStoredTrailingZeros := int (xor_trail x),
      veBw := writeBits (drop_bit (xor_trail x) x) (nat (64 - int (xor_lead x) - int (xor_trail x)))
        (writeBits (word_of_nat (serfTrailingRepresentation ! trailingZeros64 x)) 3
          (writeBits (word_of_nat (serfLeadingRepresentation ! leadingZeros64 x)) 3 (writeBits 0b00 2 (veBw e))))\<rparr>"
  unfolding compressValue_def Let_def reuses_def xor_lead_def xor_trail_def assms by simp_all auto

lemma xor_window:
  assumes "x \<noteq> 0"
  shows "xor_lead x + xor_trail x < 64" "l \<le> xor_lead x \<Longrightarrow> t \<le> xor_trail x \<Longrightarrow> spans l t x"
    "serfLeadingRepresentation ! leadingZeros64 x < 8" "serfTrailingRepresentation ! trailingZeros64 x < 8"
    "xorLeadingRepr ! (serfLeadingRepresentation ! leadingZeros64 x) = xor_lead x"
    "xorTrailingRepr ! (serfTrailingRepresentation ! trailingZeros64 x) = xor_trail x"
  using rounding_tables [OF nonzero_spans(1) [OF assms]] rounding_tables [OF nonzero_spans(2) [OF assms]] nonzero_spans(3) [OF assms]
    nonzero_spans(4) [OF assms, of l t] by (simp_all add: xor_lead_def xor_trail_def)

lemma compressValue_coded:
  assumes "windows_agree e l t"
  obtains code l' t' where
    "bw_ok (veBw e) \<Longrightarrow> bw_ok (veBw (compressValue v e)) \<and> written (veBw (compressValue v e)) = written (veBw e) @ code"
    "breads (decodeXORValue (veStoredVal e) l t) code (v, l', t')" "windows_agree (compressValue v e) l' t'" "length code \<le> 72"
proof -
  define x where "x = veStoredVal e XOR v"
  have v: "veStoredVal e XOR x = v" by (simp add: x_def flip: xor.assoc)
  consider "x = 0" | "x \<noteq> 0" "reuses e x" | "x \<noteq> 0" "\<not> reuses e x" by blast
  then show thesis
  proof cases
    case 1
    note c = compressValue_cases(1) [OF x_def 1]
    have "to_bits 2 (0b01 :: u64) = [False, True]" by (simp add: to_bits_def upt_rec)
    moreover have "windows_agree (compressValue v e) l t" using assms by (simp add: c windows_agree_def)
    moreover have "v = veStoredVal e" using v 1 by simp
    ultimately show thesis using that [of "[False, True]" l t] breads_same [of v l t] written_writeBits [of "veBw e" "0b01" 2] c by simp
  next
    case 2
    have w: "veStoredLeadingZeros e = int l" "veStoredTrailingZeros e = int t" "l + t < 64" "l \<le> xor_lead x" "t \<le> xor_trail x"
      using assms 2(2) xor_window(1) [OF 2(1)] by (auto simp: windows_agree_def reuses_def)
    have "nat (64 - int l - int t) = 64 - l - t" by simp
    then have c: "compressValue v e = e\<lparr>veBw := writeBits (drop_bit t x) (64 - l - t) (writeBit 1 (veBw e))\<rparr>"
      using compressValue_cases(2) [OF x_def 2] w by simp
    show thesis
      using that [of "True # to_bits (64 - l - t) (drop_bit t x)" l t] breads_reuse [OF xor_window(2) [OF 2(1) w(4,5)] w(3), of "veStoredVal e"] v
        writes_comp [OF writes_bit [of 1] writes_bits [of "drop_bit t x" "64 - l - t"]] w
      by (simp add: c writes_def windows_agree_def)
  next
    case 3
    let ?l = "xor_lead x" and ?t = "xor_trail x"
    let ?kl = "word_of_nat (serfLeadingRepresentation ! leadingZeros64 x) :: u64" and ?kt = "word_of_nat (serfTrailingRepresentation ! trailingZeros64 x) :: u64"
    have "nat (64 - int ?l - int ?t) = 64 - ?l - ?t" by simp
    then have c: "compressValue v e = e\<lparr>veStoredLeadingZeros := int ?l, veStoredTrailingZeros := int ?t,
        veBw := writeBits (drop_bit ?t x) (64 - ?l - ?t) (writeBits ?kt 3 (writeBits ?kl 3 (writeBits 0b00 2 (veBw e))))\<rparr>"
      using compressValue_cases(3) [OF x_def 3] by simp
    have z: "to_bits 2 (0b00 :: u64) = [False, False]" by (simp add: numeral_2_eq_2)
    have "writes (\<lambda>w. writeBits (drop_bit ?t x) (64 - ?l - ?t) (writeBits ?kt 3 (writeBits ?kl 3 (writeBits 0b00 2 w))))
        (False # False # to_bits 3 ?kl @ to_bits 3 ?kt @ to_bits (64 - ?l - ?t) (drop_bit ?t x))"
      using writes_comp [OF writes_comp [OF writes_comp [OF writes_bits [of "0b00" 2] writes_bits [of ?kl 3]] writes_bits [of ?kt 3]]
        writes_bits [of "drop_bit ?t x" "64 - ?l - ?t"]] unfolding z by simp
    then show thesis
      using that [of _ ?l ?t] breads_new [OF xor_window(2) [OF 3(1) order_refl order_refl] xor_window(1,3-6) [OF 3(1)], of "veStoredVal e" l t]
        v xor_window(1) [OF 3(1)] by (simp add: c writes_def windows_agree_def)
  qed
qed

text \<open>The approximations that an encoder stores for its values, in order.\<close>

fun stored_vals :: "serfValueEncoder \<Rightarrow> f64 list \<Rightarrow> u64 list" where
  "stored_vals e [] = []"
| "stored_vals e (v # vs) = veStoredVal (val_push v e) # stored_vals (val_push v e) vs"

lemma length_stored_vals [simp]: "length (stored_vals e vs) = length vs"
  by (induction e vs rule: stored_vals.induct) simp_all

lemma xor_coded:
  "vePrevSet e \<Longrightarrow> bw_ok (veBw e) \<Longrightarrow> windows_agree e l t \<Longrightarrow>
   \<exists>code. length code \<le> 72 * length vs \<and> bw_ok (veBw (fold val_push vs e)) \<and> written (veBw (fold val_push vs e)) = written (veBw e) @ code \<and>
     veFirstValBits (fold val_push vs e) = veFirstValBits e \<and>
     (\<forall>r rest. bits_left r (code @ rest) \<longrightarrow> decodeXORLoop (length vs) (veStoredVal e) l t r = Inr (stored_vals e vs))"
proof (induction vs arbitrary: e l t)
  case (Cons v vs)
  obtain u where u: "val_push v e = (compressValue u e)\<lparr>veStoredVal := u\<rparr>" using Cons.prems(1) by (auto simp: val_push_def Let_def)
  obtain code l' t' where c: "bw_ok (veBw (compressValue u e))" "written (veBw (compressValue u e)) = written (veBw e) @ code"
    "breads (decodeXORValue (veStoredVal e) l t) code (u, l', t')" "windows_agree (compressValue u e) l' t'" "length code \<le> 72"
    using compressValue_coded [OF Cons.prems(3), of u thesis] Cons.prems(2) by blast
  have same: "vePrevSet (val_push v e)" "veFirstValBits (val_push v e) = veFirstValBits e" "veStoredVal (val_push v e) = u"
    using Cons.prems(1) by (simp_all add: u compressValue_def Let_def)
  have "bw_ok (veBw (val_push v e))" "windows_agree (val_push v e) l' t'" using c by (simp_all add: u windows_agree_def)
  then obtain code' where d: "bw_ok (veBw (fold val_push vs (val_push v e)))"
    "written (veBw (fold val_push vs (val_push v e))) = written (veBw (val_push v e)) @ code'"
    "veFirstValBits (fold val_push vs (val_push v e)) = veFirstValBits e"
    "\<forall>r rest. bits_left r (code' @ rest) \<longrightarrow> decodeXORLoop (length vs) u l' t' r = Inr (stored_vals (val_push v e) vs)" "length code' \<le> 72 * length vs"
    using Cons.IH [OF same(1), of l' t'] same(2,3) by auto
  have "decodeXORLoop (length (v # vs)) (veStoredVal e) l t r = Inr (stored_vals e (v # vs))" if left: "bits_left r ((code @ code') @ rest)" for r rest
  proof -
    obtain r' where "decodeXORValue (veStoredVal e) l t r = Inr ((u, l', t'), r')" "bits_left r' (code' @ rest)"
      using breads_run [OF c(3), of r "code' @ rest"] left by auto
    then show ?thesis using d(4) same(3) by auto
  qed
  then show ?case using d c(2,5) by (intro exI [of _ "code @ code'"]) (simp add: u)
qed (auto intro: exI [of _ "[]"])

lemma xor_values_serf:
  assumes "vs \<noteq> []" "e = newSerfValEncoder maxDiff adjustDigit" "enc_bytes (veBw (fold val_push vs e)) = (data, bitsLen)"
    "length vs < 2 ^ 25"
  shows "8 * length data < 2 ^ 32" "decodeValues False maxDiff' (veFirstValBits (fold val_push vs e)) data bitsLen (word_of_nat (length vs)) = Inr (stored_vals e vs)"
proof -
  obtain v us where vs: "vs = v # us" using assms(1) by (cases vs) simp_all
  define d where "d = val_push v e"
  have d: "vePrevSet d" "bw_ok (veBw d)" "written (veBw d) = []" "windows_agree d 0 0" "veFirstValBits d = veStoredVal d"
    by (simp_all add: d_def val_push_def assms(2) newSerfValEncoder_def new_writer windows_agree_def Let_def)
  obtain code where code: "bw_ok (veBw (fold val_push us d))" "written (veBw (fold val_push us d)) = code"
    "veFirstValBits (fold val_push us d) = veStoredVal d"
    "\<And>r rest. bits_left r (code @ rest) \<Longrightarrow> decodeXORLoop (length us) (veStoredVal d) 0 0 r = Inr (stored_vals d us)" "length code \<le> 72 * length us"
    using xor_coded [OF d(1,2,4), of us] d(3,5) by auto
  have "data = bw_bytes (veBw (fold val_push us d))" using assms(3) by (simp add: enc_bytes_def vs d_def Let_def)
  then show len: "8 * length data < 2 ^ 32" using length_bw_bytes [OF code(1)] code(2,5) assms(4) by (simp add: vs)
  obtain pad where "bits_left (newBitReader data bitsLen) (code @ pad)"
    using reader_of_bytes [OF code(1), of data bitsLen] assms(3) len code(2) by (auto simp: vs d_def)
  note dec = code(4) [OF this]
  have n: "unat (word_of_nat (length vs) :: u32) = length vs" using assms(4) by (simp add: unat_of_nat)
  then have "word_of_nat (length vs) \<noteq> (0 :: u32)" using vs by auto
  moreover have "word_of_nat (length vs) = (1 :: u32) \<longleftrightarrow> us = []" using n by (simp add: word_unat_eq_iff vs del: of_nat_Suc)
  ultimately show "decodeValues False maxDiff' (veFirstValBits (fold val_push vs e)) data bitsLen (word_of_nat (length vs)) = Inr (stored_vals e vs)"
    using dec n code(3) unfolding decodeValues_def by (auto simp: vs d_def [symmetric] simp del: of_nat_Suc)
qed

end
