(* ===== verification/SerfBound.thy ===== *)
theory SerfBound
  imports SerfRoundtrip
begin

text \<open>The error bound of the XOR encoder, and where it does not hold: NaN values.\<close>

section \<open>Floating-point facts\<close>

text \<open>The magnitude of a pattern, and the order, NaN and zero in terms of it.\<close>

definition f64_mag :: "f64 \<Rightarrow> nat" where
  "f64_mag x = unat x mod 2 ^ 63"

lemma mag_take_bit: "f64_mag x = unat (take_bit 63 x)"
  unfolding f64_mag_def unsigned_take_bit_eq by (rule take_bit_eq_mod [symmetric])

lemma mag_neg [simp]: "f64_mag (f64_neg x) = f64_mag x"
proof -
  have "take_bit 63 (f64_neg x) = take_bit 63 x" by (rule bit_word_eqI) (auto simp: f64_neg_def bit_simps bit_numeral_rec)
  then show ?thesis by (simp only: mag_take_bit)
qed

lemma mag_abs [simp]: "f64_mag (f64_abs x) = f64_mag x"
proof -
  have "f64_abs x = take_bit 63 x" by (simp add: f64_abs_def take_bit_eq_mask mask_numeral)
  then have "take_bit 63 (f64_abs x) = take_bit 63 x" by (simp only: take_bit_take_bit min.idem)
  then show ?thesis by (simp only: mag_take_bit)
qed

lemma sign_neg [simp]: "f64_sign (f64_neg x) \<longleftrightarrow> \<not> f64_sign x"
  by (simp add: f64_sign_def f64_neg_def bit_simps)

lemma sign_abs [simp]: "\<not> f64_sign (f64_abs x)"
  by (simp add: f64_sign_def f64_abs_def bit_simps)

lemma key_mag: "f64_key x = (if f64_sign x then - int (f64_mag x) else int (f64_mag x))"
  by (simp only: f64_key_def f64_mag_def)

lemma exp_mag: "f64_exp x = f64_mag x div 2 ^ 52" "f64_frac x = f64_mag x mod 2 ^ 52"
proof -
  have "unat x mod (2 ^ 52 * 2 ^ 11) div 2 ^ 52 = unat x div 2 ^ 52 mod 2 ^ 11" unfolding mod_mult2_eq by (simp del: mult_Suc)
  moreover have "(2 :: nat) ^ 52 * 2 ^ 11 = 2 ^ 63" by simp
  ultimately show "f64_exp x = f64_mag x div 2 ^ 52" by (simp only: f64_exp_def f64_mag_def)
  have "unat x mod 2 ^ 63 mod 2 ^ 52 = unat x mod 2 ^ 52" by (rule mod_mod_cancel) simp
  then show "f64_frac x = f64_mag x mod 2 ^ 52" by (simp only: f64_frac_def f64_mag_def)
qed

lemma nan_mag: "f64_isnan x \<longleftrightarrow> 2047 * 2 ^ 52 < f64_mag x"
proof -
  have m: "f64_mag x = f64_exp x * 2 ^ 52 + f64_frac x" unfolding exp_mag by simp
  have "f64_mag x < 2 ^ 63" unfolding f64_mag_def by (rule mod_less_divisor) simp
  then have e: "f64_exp x < 2 ^ 11" unfolding exp_mag by (intro less_mult_imp_div_less) simp
  have "f64_frac x < 2 ^ 52" unfolding f64_frac_def by (rule mod_less_divisor) simp
  show ?thesis
  proof (cases "f64_exp x = 2047")
    case True
    then show ?thesis unfolding f64_isnan_def m by simp
  next
    case False
    then have "f64_exp x \<le> 2046" using e by simp
    then have "f64_exp x * 2 ^ 52 + f64_frac x < 2047 * 2 ^ 52" using \<open>f64_frac x < 2 ^ 52\<close> by simp
    then show ?thesis unfolding f64_isnan_def m using False by simp
  qed
qed

lemma nan_neg [simp]: "f64_isnan (f64_neg x) = f64_isnan x" "f64_isnan (f64_abs x) = f64_isnan x"
  by (simp_all add: nan_mag)

text \<open>A result between the bounds, or not above the bound, is within it.\<close>

lemma le_abs_between: "f64_le (f64_neg m) d \<Longrightarrow> f64_le d m \<Longrightarrow> f64_le (f64_abs d) m"
  by (auto simp: f64_le_def key_mag split: if_splits)

lemma le_abs_not_less: "\<not> f64_less m (f64_abs d) \<Longrightarrow> \<not> f64_isnan m \<Longrightarrow> \<not> f64_isnan d \<Longrightarrow> f64_le (f64_abs d) m"
  by (auto simp: f64_le_def f64_less_def)

lemma nan_operand: "f64_isnan x \<Longrightarrow> f64_isnan (f64_add x y)" "f64_isnan y \<Longrightarrow> f64_isnan (f64_add x y)"
  "f64_isnan x \<Longrightarrow> f64_isnan (f64_sub x y)" "f64_isnan y \<Longrightarrow> f64_isnan (f64_sub x y)"
proof -
  have "f64_isnan f64_nan" by (simp add: f64_isnan_def f64_exp_def f64_frac_def f64_nan_def)
  then show "f64_isnan x \<Longrightarrow> f64_isnan (f64_add x y)" "f64_isnan y \<Longrightarrow> f64_isnan (f64_add x y)"
    "f64_isnan x \<Longrightarrow> f64_isnan (f64_sub x y)" "f64_isnan y \<Longrightarrow> f64_isnan (f64_sub x y)" by (simp_all add: f64_add_def f64_sub_def)
qed

lemma mag_signed: "n < 2 ^ 63 \<Longrightarrow> f64_mag (f64_signed s n) = n"
proof -
  assume n: "n < 2 ^ 63"
  then have "unat (f64_signed s n) = n + (if s then 2 ^ 63 else 0)" unfolding f64_signed_def by (simp add: unat_of_nat del: of_nat_add)
  then show ?thesis using n by (simp add: f64_mag_def)
qed

lemma not_nan_ratio: "\<not> f64_isnan (f64_of_ratio s n d)"
proof -
  have z: "\<not> f64_isnan (f64_signed s b)" if "b \<le> 2047 * 2 ^ 52" for b using that mag_signed [of b s] by (simp add: nan_mag)
  show ?thesis unfolding f64_of_ratio_def f64_zero_def f64_inf_def Let_def by (auto intro!: z simp: not_le)
qed

lemma nan_add:
  assumes "\<not> f64_isnan x" "f64_finite y"
  shows "\<not> f64_isnan (f64_add x y)"
proof -
  have "\<not> f64_isnan y" "\<not> f64_isinf y" using assms(2) by (simp_all add: f64_finite_def f64_isnan_def f64_isinf_def)
  then show ?thesis using assms not_nan_ratio mag_signed [of 0]
    by (auto simp: f64_add_def Let_def f64_of_scaled_def f64_zero_def nan_mag)
qed

lemma mag_zero: "f64_iszero x \<longleftrightarrow> f64_mag x = 0"
proof -
  have "f64_mag x = f64_exp x * 2 ^ 52 + f64_frac x" unfolding exp_mag by simp
  then show ?thesis by (simp add: f64_iszero_def)
qed

lemma iszero_neg [simp]: "f64_iszero (f64_neg x) = f64_iszero x"
  by (simp add: mag_zero)

lemma sub_zero: "\<not> f64_isnan x \<Longrightarrow> f64_sub x 0 = x"
proof -
  assume x: "\<not> f64_isnan x"
  have z: "f64_iszero (f64_neg 0)" "f64_sign (f64_neg 0)" "\<not> f64_isnan (f64_neg 0)" "\<not> f64_isinf (f64_neg 0)"
    by (simp_all add: f64_neg_def f64_iszero_def f64_isinf_def f64_isnan_def f64_sign_def f64_exp_def f64_frac_def)
  have "f64_zero (f64_sign x) = x" if "f64_iszero x" using that by (auto simp: f64_iszero_iff f64_zero_def f64_signed_def f64_sign_def)
  then show ?thesis using x z by (auto simp: f64_sub_def f64_add_def)
qed

lemma sub_self_zero: "f64_finite v \<Longrightarrow> f64_mag (f64_sub v v) = 0"
proof -
  assume v: "f64_finite v"
  have e: "f64_exp (f64_neg v) = f64_exp v" "f64_frac (f64_neg v) = f64_frac v" by (simp_all add: exp_mag)
  then have "f64_smant (f64_neg v) = - f64_smant v" "f64_ex (f64_neg v) = f64_ex v" by (simp_all add: f64_smant_def f64_mant_def f64_ex_def)
  then show ?thesis using v e mag_signed [of 0]
    by (auto simp: f64_sub_def f64_add_def Let_def f64_zero_def f64_finite_def f64_isnan_def f64_isinf_def mag_zero)
qed

lemma add_zero_error: "f64_finite v \<Longrightarrow> f64_mag (f64_sub (f64_add v 0) v) = 0"
proof (cases "f64_iszero v")
  case True
  then have "f64_add v 0 = 0" "f64_iszero (0 :: f64)"
    by (auto simp: f64_iszero_iff f64_add_def f64_isnan_def f64_isinf_def f64_iszero_def f64_exp_def f64_frac_def f64_zero_def f64_signed_def f64_sign_def)
  then show ?thesis using True mag_signed [of 0]
    by (auto simp: f64_sub_def f64_add_def mag_zero f64_zero_def f64_isnan_def f64_isinf_def exp_mag)
next
  case False
  assume "f64_finite v"
  moreover have "f64_iszero (0 :: f64)" by (simp add: f64_iszero_def f64_exp_def f64_frac_def)
  ultimately have "f64_add v 0 = v" using False by (auto simp: f64_add_def f64_finite_def f64_isnan_def f64_isinf_def mag_zero exp_mag)
  then show ?thesis using sub_self_zero \<open>f64_finite v\<close> by simp
qed

section \<open>The bound\<close>

lemma findAppLoop_ok:
  "findAppLoop shift frontMask minBits maxBits signBit original lastLong maxDiff adjustDigit = f64_add original adjustDigit \<or>
   candidateOK maxDiff adjustDigit original (findAppLoop shift frontMask minBits maxBits signBit original lastLong maxDiff adjustDigit)"
proof (induction shift arbitrary: frontMask)
  case 0
  show ?case by (subst (1 2) findAppLoop.simps) (simp add: Let_def)
next
  case (Suc s)
  show ?case using Suc by (subst (1 2) findAppLoop.simps) (simp add: Let_def)
qed

lemma findAppLong_ok:
  "findAppLong v e = f64_add v (veAdjustDigit e) \<or> candidateOK (veMaxDiff e) (veAdjustDigit e) v (findAppLong v e)"
  using findAppLoop_ok by (simp add: findAppLong_def findAppLongInner_def Let_def)

lemma val_push_params [simp]: "veMaxDiff (val_push v e) = veMaxDiff e" "veAdjustDigit (val_push v e) = veAdjustDigit e"
  by (simp_all add: val_push_def compressValue_def Let_def)

text \<open>One value: the stored pattern is the value, exact up to the sign of zero, or within the bound, or not comparable with it.\<close>

lemma val_push_bound:
  assumes "\<not> f64_isnan (veMaxDiff e)" "s = veStoredVal (val_push v e)" "\<not> f64_isnan (f64_sub (f64_sub s (veAdjustDigit e)) v)"
  shows "f64_le (f64_abs (f64_sub (f64_sub s (veAdjustDigit e)) v)) (veMaxDiff e) \<or> s = f64_add v (veAdjustDigit e)"
proof -
  have "s = findAppLong v e \<or> \<not> f64_less (veMaxDiff e) (f64_abs (f64_sub (f64_sub s (veAdjustDigit e)) v))"
    using assms(2) by (auto simp: val_push_def Let_def)
  then show ?thesis using findAppLong_ok [of v e] le_abs_not_less assms(1,3) le_abs_between unfolding candidateOK_def Let_def by metis
qed

lemma f64_of_int64_zero: "f64_of_int64 0 = 0"
  by (simp add: f64_of_int64_def f64_of_ratio_def f64_zero_def f64_signed_def)

lemma val_push_close:
  assumes m: "f64_le 0 (veMaxDiff e)" and a: "veAdjustDigit e = 0" and v: "f64_finite v" and s: "\<not> vePrevSet e \<or> \<not> f64_isnan (veStoredVal e)"
  shows "\<not> f64_isnan (veStoredVal (val_push v e))" "f64_le (f64_abs (f64_sub (veStoredVal (val_push v e)) v)) (veMaxDiff e)"
proof -
  let ?s = "veStoredVal (val_push v e)"
  have z: "f64_finite (0 :: f64)" by (simp add: f64_finite_def f64_exp_def)
  have nv: "\<not> f64_isnan v" using v by (simp add: f64_finite_def f64_isnan_def)
  have "candidateOK (veMaxDiff e) 0 v ?s \<or> ?s = f64_add v 0 \<or> vePrevSet e \<and> ?s = veStoredVal e"
    using findAppLong_ok [of v e] a by (auto simp: val_push_def Let_def)
  then show n: "\<not> f64_isnan ?s"
    using nan_operand(3) s nan_add [OF nv z] unfolding candidateOK_def Let_def f64_le_def by metis
  have fv: "f64_finite (f64_neg v)" using v by (simp add: f64_finite_def exp_mag)
  have "\<not> f64_isnan (f64_sub ?s v)" using nan_add [OF n fv] by (simp add: f64_sub_def)
  then have "f64_le (f64_abs (f64_sub ?s v)) (veMaxDiff e) \<or> ?s = f64_add v 0"
    using val_push_bound [of e ?s v] m sub_zero [OF n] a by (auto simp: f64_le_def)
  moreover have "f64_le (f64_abs (f64_sub (f64_add v 0) v)) (veMaxDiff e)"
  proof -
    let ?d = "f64_sub (f64_add v 0) v"
    have "f64_mag ?d = 0" by (rule add_zero_error [OF v])
    moreover from this have "\<not> f64_isnan ?d" by (simp add: nan_mag)
    moreover have "f64_mag (0 :: f64) = 0" "\<not> f64_sign (0 :: f64)" by (simp_all add: f64_mag_def f64_sign_def)
    ultimately show ?thesis using m by (auto simp: f64_le_def key_mag)
  qed
  ultimately show "f64_le (f64_abs (f64_sub ?s v)) (veMaxDiff e)" by auto
qed

lemma stored_vals_close:
  "f64_le 0 (veMaxDiff e) \<Longrightarrow> veAdjustDigit e = 0 \<Longrightarrow> \<not> vePrevSet e \<or> \<not> f64_isnan (veStoredVal e) \<Longrightarrow> \<forall>v \<in> set vs. f64_finite v \<Longrightarrow>
   list_all2 (\<lambda>v s. f64_le (f64_abs (f64_sub s v)) (veMaxDiff e)) vs (stored_vals e vs)"
proof (induction e vs rule: stored_vals.induct)
  case (2 e v vs)
  note c = val_push_close [OF "2.prems"(1,2) _ "2.prems"(3), of v]
  show ?case using "2.IH" "2.prems" c by simp
qed simp

section \<open>NaN\<close>

lemma less_nan: "f64_isnan y \<Longrightarrow> \<not> f64_less x (f64_abs y)"
  by (simp add: f64_less_def)

text \<open>A NaN after the first value is replaced by the value before it, and a NaN that came first replaces all that follow.\<close>

lemma nan_takes_previous: "vePrevSet e \<Longrightarrow> f64_isnan v \<Longrightarrow> veStoredVal (val_push v e) = veStoredVal e"
  using less_nan nan_operand(4) by (simp add: val_push_def Let_def)

lemma nan_sticks: "vePrevSet e \<Longrightarrow> f64_isnan (veStoredVal e) \<Longrightarrow> veStoredVal (val_push v e) = veStoredVal e \<and> vePrevSet (val_push v e)"
  using less_nan nan_operand(3) by (simp add: val_push_def compressValue_def Let_def)

lemma nan_forever:
  "vePrevSet e \<Longrightarrow> f64_isnan (veStoredVal e) \<Longrightarrow> set (stored_vals e vs) \<subseteq> {veStoredVal e}"
proof (induction e vs rule: stored_vals.induct)
  case (2 e v vs)
  note s = nan_sticks [OF "2.prems", of v]
  then show ?case using "2.IH" "2.prems" by auto
qed simp

lemma first_nan:
  assumes "e = newSerfValEncoder maxDiff adjustDigit" "f64_isnan v" "s \<in> set (stored_vals e (v # vs))"
  shows "f64_isnan s"
proof -
  have "\<not> candidateOK (veMaxDiff e) (veAdjustDigit e) v u" for u using nan_operand(4) [OF assms(2)] by (simp add: candidateOK_def f64_le_def Let_def)
  then have "findAppLong v e = f64_add v (veAdjustDigit e)" using findAppLong_ok by blast
  then have n: "f64_isnan (veStoredVal (val_push v e))" "vePrevSet (val_push v e)"
    using nan_operand(1) [OF assms(2)] by (simp_all add: val_push_def assms(1) newSerfValEncoder_def Let_def)
  then show ?thesis using nan_forever [OF n(2,1), of vs] assms(3) by auto
qed

section \<open>Quantized values\<close>

lemma len64_top: "n \<noteq> 0 \<Longrightarrow> 0 < len64 n \<and> bit n (len64 n - 1)"
proof -
  assume n: "n \<noteq> 0"
  define k where "k = len64 n - 1"
  have pos: "0 < len64 n" using n len64_le_iff [of n 0] by (auto simp: word_unat_eq_iff)
  have "2 ^ k \<le> unat n" "unat n < 2 ^ Suc k" using len64_le_iff [of n k] len64_le_iff [of n "Suc k"] pos by (simp_all add: k_def not_less [symmetric])
  then have "unat n div 2 ^ k = 1" by (intro div_nat_eqI) simp_all
  then have "bit (unat n) k" by (simp add: bit_iff_odd)
  then show ?thesis using pos by (simp add: bit_unsigned_iff k_def)
qed

lemma countZeros_run:
  "bits_left r (replicate k False @ True # rest) \<Longrightarrow> \<exists>r'. countZeros j r = Inr (j + k, r') \<and> bits_left r' rest"
proof (induction k arbitrary: j r)
  case 0
  then obtain r' where "readBit r = Inr (1, r')" "bits_left r' rest" using breads_run [OF breads_bit, of r True rest] by auto
  then show ?case by (simp add: countZeros.simps [of j r])
next
  case (Suc k)
  then obtain r' where "readBit r = Inr (0, r')" "bits_left r' (replicate k False @ True # rest)"
    using breads_run [OF breads_bit, of r False "replicate k False @ True # rest"] by auto
  then show ?case using Suc.IH [of r' "j + 1"] by (simp add: countZeros.simps [of j r])
qed

lemma breads_elias:
  assumes "n \<noteq> 0"
  shows "breads eliasGammaDecode (replicate (len64 n - 1) False @ to_bits (Suc (len64 n - 1)) n) n"
proof -
  define k where "k = len64 n - 1"
  have top: "bit n k" and len: "unat n < 2 ^ Suc k" using len64_top [OF assms] len64_le_iff [of n "Suc k"] by (simp_all add: k_def)
  have v: "push_bit k 1 OR take_bit k n = n"
  proof (rule bit_word_eqI)
    fix i assume "i < LENGTH(64)"
    moreover have "\<not> bit n i" if "k < i"
    proof -
      have "unat n < 2 ^ i" using len power_increasing [of "Suc k" i "2 :: nat"] that by simp
      then have "\<not> bit (unat n) i" by (simp add: bit_iff_odd)
      then show ?thesis by (simp add: bit_unsigned_iff)
    qed
    ultimately show "bit (push_bit k 1 OR take_bit k n) i = bit n i" using top by (cases i k rule: linorder_cases) (auto simp: bit_simps)
  qed
  have b: "breads (\<lambda>r. if k = 0 then Inr (1, r) else res_bind (readBits k r) (\<lambda>(rest, r). Inr (push_bit k 1 OR rest, r))) (to_bits k n) n"
  proof (cases "k = 0")
    case True
    then show ?thesis using v breads_return [of n] by simp
  next
    case False
    then show ?thesis using breads_bind [OF breads_bits [of k n], of "\<lambda>rest r. Inr (push_bit k 1 OR rest, r)" "[]"] breads_return [of n] v by simp
  qed
  show ?thesis
    unfolding breads_def k_def [symmetric]
  proof (intro allI impI)
    fix r rest assume "bits_left r ((replicate k False @ to_bits (Suc k) n) @ rest)"
    then have "bits_left r (replicate k False @ True # to_bits k n @ rest)" using top by (simp add: to_bits_Suc)
    from countZeros_run [OF this, of 0] obtain r' where "countZeros 0 r = Inr (k, r')" "bits_left r' (to_bits k n @ rest)" by auto
    then show "\<exists>r'. eliasGammaDecode r = Inr (n, r') \<and> bits_left r' rest" using breads_run [OF b] by (simp add: eliasGammaDecode_def)
  qed
qed

lemma writes_elias: "n \<noteq> 0 \<Longrightarrow> writes (eliasGammaEncode n) (replicate (len64 n - 1) False @ to_bits (Suc (len64 n - 1)) n)"
  using writes_comp [OF writes_zeros [of "len64 n - 1"] writes_bits [of n "Suc (len64 n - 1)"]] by (simp add: eliasGammaEncode_def [abs_def] Let_def)

text \<open>The quanta of a series and the values they recover to.\<close>

fun qt_quanta :: "(f64 \<Rightarrow> i64) \<Rightarrow> f64 \<Rightarrow> f64 \<Rightarrow> f64 list \<Rightarrow> i64 list" where
  "qt_quanta oob step prev [] = []"
| "qt_quanta oob step prev (v # vs) = (let q = qt_quantum oob step prev v in q # qt_quanta oob step (qt_recover step prev q) vs)"

fun qt_recovered :: "f64 \<Rightarrow> f64 \<Rightarrow> i64 list \<Rightarrow> f64 list" where
  "qt_recovered step prev [] = []"
| "qt_recovered step prev (q # qs) = qt_recover step prev q # qt_recovered step (qt_recover step prev q) qs"

lemma length_qt [simp]: "length (qt_recovered step prev qs) = length qs" "length (qt_quanta oob step prev vs) = length vs"
proof -
  show "length (qt_recovered step prev qs) = length qs" by (induction qs arbitrary: prev) simp_all
  show "length (qt_quanta oob step prev vs) = length vs" by (induction vs arbitrary: prev) (simp_all add: Let_def)
qed

lemma qt_coded:
  "bw_ok (qtBw e) \<Longrightarrow> qtStep e = step \<Longrightarrow> \<forall>q \<in> set (qt_quanta oob step (qtPrevValue e) vs). zigzag q + 1 \<noteq> 0 \<Longrightarrow>
   \<exists>code. bw_ok (qtBw (fold (qt_push oob) vs e)) \<and> written (qtBw (fold (qt_push oob) vs e)) = written (qtBw e) @ code \<and>
     (\<forall>r rest. bits_left r (code @ rest) \<longrightarrow>
        decodeQtLoop (length vs) (qtPrevValue e) step r = Inr (qt_recovered step (qtPrevValue e) (qt_quanta oob step (qtPrevValue e) vs)))"
proof (induction vs arbitrary: e)
  case (Cons v vs)
  define q where "q = qt_quantum oob step (qtPrevValue e) v"
  define d where "d = qt_push oob v e"
  have d: "qtBw d = eliasGammaEncode (zigzag q + 1) (qtBw e)" "qtPrevValue d = qt_recover step (qtPrevValue e) q" "qtStep d = step"
    using Cons.prems(2) by (simp_all add: d_def qt_push_def q_def Let_def)
  have nz: "zigzag q + 1 \<noteq> 0" using Cons.prems(3) by (simp add: q_def Let_def)
  obtain x where x: "writes (eliasGammaEncode (zigzag q + 1)) x" "breads eliasGammaDecode x (zigzag q + 1)"
    using writes_elias [OF nz] breads_elias [OF nz] by blast
  then have w: "bw_ok (qtBw d)" "written (qtBw d) = written (qtBw e) @ x" using Cons.prems(1) by (simp_all add: writes_def d(1))
  have "\<forall>q \<in> set (qt_quanta oob step (qtPrevValue d) vs). zigzag q + 1 \<noteq> 0" using Cons.prems(3) by (simp add: d(2) q_def Let_def)
  from Cons.IH [OF w(1) d(3) this] obtain code where c: "bw_ok (qtBw (fold (qt_push oob) vs d))" "written (qtBw (fold (qt_push oob) vs d)) = written (qtBw d) @ code"
    "\<And>r rest. bits_left r (code @ rest) \<Longrightarrow>
        decodeQtLoop (length vs) (qtPrevValue d) step r = Inr (qt_recovered step (qtPrevValue d) (qt_quanta oob step (qtPrevValue d) vs))" by blast
  have "decodeQtLoop (length (v # vs)) (qtPrevValue e) step r =
      Inr (qt_recovered step (qtPrevValue e) (qt_quanta oob step (qtPrevValue e) (v # vs)))" if left: "bits_left r ((x @ code) @ rest)" for r rest
  proof -
    obtain r' where "eliasGammaDecode r = Inr (zigzag q + 1, r')" "bits_left r' (code @ rest)" using breads_run [OF x(2), of r "code @ rest"] left by auto
    then show ?thesis using c(3) d(2) by (simp add: decodeQtValue_def Let_def q_def)
  qed
  then show ?case using c(1,2) w(2) by (intro exI [of _ "x @ code"]) (simp add: d_def)
qed (auto intro: exI [of _ "[]"])

lemma qt_values_serf:
  assumes "e = newSerfQtValEncoder maxDiff" "enc_bytes (qtBw (fold (qt_push oob) vs e)) = (data, bitsLen)"
    "8 * length data < 2 ^ 32" "length vs < 2 ^ 32" "\<forall>q \<in> set (qt_quanta oob (qt_step maxDiff) f64_two vs). zigzag q + 1 \<noteq> 0"
  shows "decodeValues True maxDiff f64_two data bitsLen (word_of_nat (length vs)) =
    Inr (qt_recovered (qt_step maxDiff) f64_two (qt_quanta oob (qt_step maxDiff) f64_two vs))"
proof -
  have e: "bw_ok (qtBw e)" "written (qtBw e) = []" "qtStep e = qt_step maxDiff" "qtPrevValue e = f64_two" by (simp_all add: assms(1) newSerfQtValEncoder_def new_writer)
  obtain code where c: "bw_ok (qtBw (fold (qt_push oob) vs e))" "written (qtBw (fold (qt_push oob) vs e)) = code"
    "\<And>r rest. bits_left r (code @ rest) \<Longrightarrow> decodeQtLoop (length vs) f64_two (qt_step maxDiff) r =
       Inr (qt_recovered (qt_step maxDiff) f64_two (qt_quanta oob (qt_step maxDiff) f64_two vs))"
    using qt_coded [OF e(1,3), of oob vs] assms(5) e by auto
  obtain pad where "bits_left (newBitReader data bitsLen) (code @ pad)" using reader_of_bytes [OF c(1) assms(2,3)] c(2) by auto
  moreover have "unat (word_of_nat (length vs) :: u32) = length vs" using assms(4) by (simp add: unat_of_nat)
  ultimately show ?thesis using c(3) by (simp add: decodeValues_def)
qed

lemma zigzag_wraps: "zigzag q + 1 = 0 \<longleftrightarrow> q = 0x8000000000000000"
proof -
  have "zigzag q + 1 = 0 \<longleftrightarrow> zigzag q = - 1" by (metis add.commute add_eq_0_iff)
  also have "\<dots> \<longleftrightarrow> q = unzigzag (- 1)" by (metis unzigzag_zigzag zigzag_unzigzag)
  also have "unzigzag (- 1) = 0x8000000000000000" by (rule bit_word_eqI) (auto simp: bit_unzigzag bit_numeral_rec less_Suc_eq numeral_eq_Suc)
  finally show ?thesis .
qed

end
