(* ===== verification/SerfDelivery.thy ===== *)
theory SerfDelivery
  imports SerfObject SerfBound
begin

text \<open>From the exporter's window to the receiver: what a window held is what its objects decode to.\<close>

section \<open>Fields\<close>

definition takes :: "(u8 list \<Rightarrow> serf_error + 'a \<times> u8 list) \<Rightarrow> u8 list \<Rightarrow> 'a \<Rightarrow> bool" where
  "takes p x v \<longleftrightarrow> (\<forall>rest. p (x @ rest) = Inr (v, rest))"

lemma takes_bind: "takes p x v \<Longrightarrow> takes (q v) y u \<Longrightarrow> takes (\<lambda>r. res_bind (p r) (\<lambda>(v, r). q v r)) (x @ y) u"
  by (simp add: takes_def)

lemma takes_return: "takes (\<lambda>r. Inr (v, r)) [] v"
  by (simp add: takes_def)

lemma takes_full: "length x = n \<Longrightarrow> 0 < n \<Longrightarrow> takes (rd_full n) x x"
  by (auto simp: takes_def rd_full_def)

lemma takes_uint:
  assumes "length x = n" "0 < n"
  shows "takes (rd_uint n) x (word_of_nat (getLE x))"
  using assms by (auto simp: takes_def rd_uint_def rd_full_def)

lemma takes_u16: "n < 2 ^ 16 \<Longrightarrow> takes (rd_uint 2) (putLE 2 n) (word_of_nat n :: 16 word)"
  using takes_uint [of "putLE 2 n" 2] by (simp add: getLE_putLE)

lemma takes_u32: "takes (rd_uint 4) (putUint32 v) v"
proof -
  have "unat v < 4294967296" using unsigned_less [of v, where ?'a = nat] by simp
  then show ?thesis using takes_uint [of "putUint32 v" 4, where 'a = 32] by (simp add: getLE_putLE putUint32_def)
qed

lemma takes_u64: "takes (rd_uint 8) (putUint64 v) v"
  using takes_uint [of "putUint64 v" 8, where 'a = 64] unat_u64_less [of v] by (simp add: getLE_putLE putUint64_def)

lemma takes_read: "x \<noteq> [] \<Longrightarrow> takes (rd_read (length x)) x x"
  by (simp add: takes_def rd_read_def)

lemma takes_stream:
  assumes "8 * length b < 2 ^ 32"
  shows "takes (rd_stream (word_of_nat (length b * 8))) b b"
proof -
  have "8 * length b + 7 < 2 ^ 32" using assms by simp
  then have "unat (word_of_nat (length b * 8) + 7 :: u32) = length b * 8 + 7"
    using unat_of_nat [of "length b * 8 + 7", where 'a = 32] by simp
  then have "unat ((word_of_nat (length b * 8) + 7 :: u32) div 8) = length b" by (simp add: unat_div)
  then show ?thesis using takes_read [of b] by (auto simp: rd_stream_def takes_def Let_def)
qed

section \<open>One series\<close>

lemma sortedPoints_simps [simp]: "length (sortedPoints pts) = length pts" "sortedPoints pts = [] \<longleftrightarrow> pts = []" "set (sortedPoints pts) = set pts"
proof -
  show "length (sortedPoints pts) = length pts" by (simp add: sortedPoints_def)
  then show "sortedPoints pts = [] \<longleftrightarrow> pts = []" by (metis length_0_conv)
  show "set (sortedPoints pts) = set pts" by (simp add: sortedPoints_def)
qed

lemma encoded_timestamps:
  assumes "es = sortAndEncode oob qt maxDiff adjustDigit pts" "pts \<noteq> []"
  shows "esFirstTS es = hd (map pTs (sortedPoints pts))"
    "enc_bytes (teBw (fold ts_push (map pTs (sortedPoints pts)) newTsEncoder)) = (esTsBits es, esTsBitsLen es)"
    "esTsBitsLen es = word_of_nat (length (esTsBits es) * 8)" "esValBitsLen es = word_of_nat (length (esValBits es) * 8)"
  using assms by (auto simp: sortAndEncode_def Let_def enc_bytes_def fold_map hd_map split: prod.splits)

lemma encoded_xor:
  assumes "es = sortAndEncode oob False maxDiff adjustDigit pts" "pts \<noteq> []"
  defines "e \<equiv> fold val_push (map pV (sortedPoints pts)) (newSerfValEncoder maxDiff adjustDigit)"
  shows "esFirstValBits es = veFirstValBits e" "enc_bytes (veBw e) = (esValBits es, esValBitsLen es)"
  using assms by (auto simp: sortAndEncode_def Let_def enc_bytes_def fold_map split: prod.splits)

lemma encoded_qt:
  assumes "es = sortAndEncode oob True maxDiff adjustDigit pts" "pts \<noteq> []"
  shows "esFirstValBits es = f64_two"
    "enc_bytes (qtBw (fold (qt_push oob) (map pV (sortedPoints pts)) (newSerfQtValEncoder maxDiff))) = (esValBits es, esValBitsLen es)"
  using assms by (auto simp: sortAndEncode_def Let_def enc_bytes_def fold_map split: prod.splits)

text \<open>JSON keeps the metadata of the series that satisfy \<open>valid\<close> (strings that are UTF-8).\<close>

definition json_laws :: "serfJson \<Rightarrow> (seriesMeta \<Rightarrow> bool) \<Rightarrow> bool" where
  "json_laws j valid \<longleftrightarrow> (\<forall>m bs. valid m \<and> jMarshal j m = Some bs \<longrightarrow> jUnmarshal j bs = Some m \<and> bs \<noteq> [])"

definition decodedAs :: "seriesKeySerf \<Rightarrow> seriesBuffer \<Rightarrow> f64 list \<Rightarrow> decodedSeries" where
  "decodedAs key buf values =
     (let pts = sortedPoints (sbPoints buf)
      in \<lparr>dsMetricName = skMetricName key, dsAttributes = sbAttributes buf, dsStartTS = pTs (hd pts), dsEndTS = pTs (last pts),
          dsPoints = map2 (\<lambda>t v. \<lparr>pTs = t, pV = v\<rparr>) (map pTs pts) values\<rparr>)"

lemma decode_chunk:
  assumes c: "buildChunk j oob qt maxDiff adjustDigit key buf = Inr c" and pts: "sbPoints buf \<noteq> []" "length (sbPoints buf) < 2 ^ 25"
    and json: "json_laws j valid" "valid (metaOf key buf)"
    and es: "es = sortAndEncode oob qt maxDiff adjustDigit (sbPoints buf)" and len: "8 * length (esValBits es) < 2 ^ 32"
    and vals: "decodeValues qt maxDiff' (esFirstValBits es) (esValBits es) (esValBitsLen es) (word_of_nat (length (sbPoints buf))) = Inr values"
  shows "takes (decodeOneSeries j qt maxDiff') (scBuf c) (decodedAs key buf values)"
proof -
  obtain mb where mb: "jMarshal j (metaOf key buf) = Some mb" "length mb \<le> 65535"
    and b: "scBuf c = putLE 2 (length mb) @ mb @ putUint32 (word_of_nat (length (sbPoints buf))) @ putUint64 (esFirstTS es) @ putUint64 (esFirstValBits es) @
       putUint32 (esTsBitsLen es) @ esTsBits es @ putUint32 (esValBitsLen es) @ esValBits es @ []"
    using c es by (auto simp: buildChunk_def Let_def split: option.splits if_splits)
  have um: "jUnmarshal j mb = Some (metaOf key buf)" "mb \<noteq> []" using json mb(1) by (auto simp: json_laws_def)
  note t = encoded_timestamps [OF es pts(1)]
  have lens: "8 * length (esTsBits es) < 2 ^ 32" "8 * length (esValBits es) < 2 ^ 32" using timestamps_serf(1) [OF _ t(2)] len pts by simp_all
  have ts: "decodeTimestampsSerf (esFirstTS es) (esTsBits es) (esTsBitsLen es) (word_of_nat (length (sbPoints buf))) = Inr (map pTs (sortedPoints (sbPoints buf)))"
    using timestamps_serf(2) [OF _ t(2)] pts by (simp add: t(1))
  have ml: "unat (word_of_nat (length mb) :: 16 word) = length mb" using mb(2) by (simp add: unat_of_nat)
  have "unat (word_of_nat (length (sbPoints buf)) :: u32) = length (sbPoints buf)" using pts(2) by (simp add: unat_of_nat)
  then have pc: "(word_of_nat (length (sbPoints buf)) = (0 :: u32)) = False" using pts(1) by (auto simp: word_unat_eq_iff)
  have rm: "takes (rd_read (unat (word_of_nat (length mb) :: 16 word))) mb mb" unfolding ml by (rule takes_read [OF um(2)])
  have rs: "takes (rd_stream (esTsBitsLen es)) (esTsBits es) (esTsBits es)" "takes (rd_stream (esValBitsLen es)) (esValBits es) (esValBits es)"
    unfolding t(3,4) using takes_stream lens by blast+
  show ?thesis
    unfolding decodeOneSeries_def [abs_def] b
    apply (rule takes_bind [OF takes_u16], use mb(2) in simp)
    apply (rule takes_bind [OF rm], simp only: um(1) option.case)
    apply (rule takes_bind [OF takes_u32], rule takes_bind [OF takes_u64], rule takes_bind [OF takes_u64])
    apply (rule takes_bind [OF takes_u32], rule takes_bind [OF rs(1)], rule takes_bind [OF takes_u32], rule takes_bind [OF rs(2)])
    apply (simp only: Let_def pc if_False ts vals res_bind_Inr)
    apply (simp add: takes_def decodedAs_def metaOf_def Let_def)
    done
qed

section \<open>Objects\<close>

definition objectOf :: "serfChunk list \<Rightarrow> serfObject" where
  "objectOf g = \<lparr>soData = bytes_of ''SERF1'' @ [1] @ putUint32 (word_of_nat (length g)) @ concat (map scBuf g), soSeriesCount = length g,
     soPoints = sum_list (map scPoints g), soRawBytes = sum_list (map scRawBytes g)\<rparr>"

definition fits :: "i64 \<Rightarrow> serfChunk list \<Rightarrow> bool" where
  "fits maxBytes g \<longleftrightarrow> sint maxBytes \<le> 0 \<or> length g \<le> 1 \<or> int (length (soData (objectOf g))) \<le> sint maxBytes"

text \<open>The assembly holds the groups that were flushed and the current one.\<close>

definition assembled :: "i64 \<Rightarrow> serfChunk list list \<Rightarrow> serfChunk list \<Rightarrow> assembly \<Rightarrow> bool" where
  "assembled maxBytes gs g a \<longleftrightarrow>
     asObjects a = map objectOf gs \<and> (\<forall>g \<in> set gs. g \<noteq> [] \<and> fits maxBytes g) \<and> fits maxBytes g \<and>
     asCur a = bytes_of ''SERF1'' @ [1] @ putUint32 0 @ concat (map scBuf g) \<and> asSeries a = length g \<and>
     asPoints a = sum_list (map scPoints g) \<and> asRaw a = sum_list (map scRawBytes g) \<and> asSize a = int (length (asCur a))"

lemma magic_length [simp]: "length (bytes_of ''SERF1'') = 5"
  by (simp add: bytes_of_def)

lemma fits_nil [simp]: "fits maxBytes []"
  by (simp add: fits_def)

lemma flushObject_assembled:
  assumes "assembled maxBytes gs g a" "g \<noteq> []"
  shows "assembled maxBytes (gs @ [g]) [] (flushObject a)"
  using assms by (auto simp: assembled_def flushObject_def writeHeader_def objectOf_def Let_def)

lemma addChunk_assembled:
  assumes "assembled maxBytes gs g a"
  shows "\<exists>gs' g'. assembled maxBytes gs' g' (addChunk maxBytes c a) \<and> concat gs' @ g' = concat gs @ g @ [c]"
proof -
  let ?flush = "0 < sint maxBytes \<and> 0 < asSeries a \<and> sint maxBytes < asSize a + int (length (scBuf c))"
  obtain hs h where h: "assembled maxBytes hs h (if ?flush then flushObject a else a)" "concat hs @ h = concat gs @ g"
      "0 < sint maxBytes \<Longrightarrow> h \<noteq> [] \<Longrightarrow> asSize (if ?flush then flushObject a else a) + int (length (scBuf c)) \<le> sint maxBytes"
  proof (cases ?flush)
    case True
    then have "g \<noteq> []" using assms by (auto simp: assembled_def)
    then show thesis using that [of "gs @ [g]" "[]"] flushObject_assembled [OF assms] True by auto
  next
    case False
    then show thesis using that [of gs g] assms by (auto simp: assembled_def)
  qed
  define b where "b = (if ?flush then flushObject a else a)"
  define d where "d = b\<lparr>asCur := asCur b @ scBuf c, asSeries := asSeries b + 1, asPoints := asPoints b + scPoints c,
      asRaw := asRaw b + scRawBytes c, asSize := asSize b + int (length (scBuf c))\<rparr>"
  have "fits maxBytes (h @ [c])" using h(1,3) unfolding b_def [symmetric] by (cases "h = []"; cases "0 < sint maxBytes") (auto simp: fits_def assembled_def objectOf_def)
  then have d: "assembled maxBytes hs (h @ [c]) d" using h(1) unfolding b_def [symmetric] by (auto simp: assembled_def d_def)
  have add: "addChunk maxBytes c a = (if 0 < sint maxBytes \<and> 0 < asSeries d \<and> sint maxBytes \<le> asSize d then flushObject d else d)"
    by (simp add: addChunk_def d_def b_def Let_def)
  show ?thesis
  proof (cases "0 < sint maxBytes \<and> 0 < asSeries d \<and> sint maxBytes \<le> asSize d")
    case True
    have "h @ [c] \<noteq> []" by simp
    from flushObject_assembled [OF d this] True show ?thesis using h(2) unfolding add by (intro exI [of _ "hs @ [h @ [c]]"] exI [of _ "[]"]) simp
  next
    case False
    then have "addChunk maxBytes c a = d" unfolding add by (rule if_not_P)
    then show ?thesis using d h(2) by (intro exI [of _ hs] exI [of _ "h @ [c]"]) simp
  qed
qed

lemma fold_assembled:
  "assembled maxBytes gs g a \<Longrightarrow> \<exists>gs' g'. assembled maxBytes gs' g' (fold (addChunk maxBytes) cs a) \<and> concat gs' @ g' = concat gs @ g @ cs"
proof (induction cs arbitrary: gs g a)
  case (Cons c cs)
  from addChunk_assembled [OF Cons.prems, of c] obtain gs' g' where "assembled maxBytes gs' g' (addChunk maxBytes c a)" "concat gs' @ g' = concat gs @ g @ [c]" by blast
  then show ?case using Cons.IH [of gs' g' "addChunk maxBytes c a"] by (metis append_Cons append_Nil append_assoc fold_simps(2))
qed auto

lemma assembleObjects_groups:
  obtains gs where "assembleObjects maxBytes cs = map objectOf gs" "concat gs = cs" "\<forall>g \<in> set gs. g \<noteq> [] \<and> fits maxBytes g"
proof (cases "cs = []")
  case True
  then show thesis using that [of "[]"] by (simp add: assembleObjects_def)
next
  case False
  let ?a = "writeHeader \<lparr>asCur = [], asSeries = 0, asPoints = 0, asRaw = 0, asSize = 0, asObjects = []\<rparr>"
  have "assembled maxBytes [] [] ?a" by (simp add: assembled_def writeHeader_def)
  from fold_assembled [OF this, of cs] obtain gs g where g: "assembled maxBytes gs g (fold (addChunk maxBytes) cs ?a)" "concat gs @ g = cs" by auto
  show thesis
  proof (cases "g = []")
    case True
    then have "flushObject (fold (addChunk maxBytes) cs ?a) = fold (addChunk maxBytes) cs ?a" using g(1) by (simp add: assembled_def flushObject_def)
    then show thesis using that [of gs] g True False by (simp add: assembleObjects_def assembled_def)
  next
    case ne: False
    show thesis using that [of "gs @ [g]"] flushObject_assembled [OF g(1) ne] g(2) False by (simp add: assembleObjects_def assembled_def)
  qed
qed

text \<open>
  Property C38. No object of a window exceeds the configured size, unless it holds a single series; the series count, points and raw bytes that are logged
  for the objects add up to those of the window's series.
\<close>

theorem objects_within_cap:
  shows "(\<forall>ob \<in> set (assembleObjects maxBytes cs). sint maxBytes \<le> 0 \<or> soSeriesCount ob = 1 \<or> int (length (soData ob)) \<le> sint maxBytes) \<and>
    sum_list (map soSeriesCount (assembleObjects maxBytes cs)) = length cs \<and>
    sum_list (map soPoints (assembleObjects maxBytes cs)) = sum_list (map scPoints cs) \<and>
    sum_list (map soRawBytes (assembleObjects maxBytes cs)) = sum_list (map scRawBytes cs)"
proof -
  obtain gs where gs: "assembleObjects maxBytes cs = map objectOf gs" "concat gs = cs" "\<forall>g \<in> set gs. g \<noteq> [] \<and> fits maxBytes g"
    by (rule assembleObjects_groups)
  have "sum_list (map (\<lambda>g. sum_list (map f g)) hs) = sum_list (map f (concat hs))" for f :: "serfChunk \<Rightarrow> nat" and hs by (induction hs) simp_all
  then have sums: "sum_list (map (\<lambda>g. sum_list (map f g)) gs) = sum_list (map f cs)" for f :: "serfChunk \<Rightarrow> nat" using gs(2) by metis
  have one: "soSeriesCount (objectOf g) = 1 \<or> sint maxBytes \<le> 0 \<or> int (length (soData (objectOf g))) \<le> sint maxBytes" if "g \<in> set gs" for g
  proof -
    have "fits maxBytes g" "0 < length g" using gs(3) that by auto
    then have "sint maxBytes \<le> 0 \<or> length g = 1 \<or> int (length (soData (objectOf g))) \<le> sint maxBytes" unfolding fits_def by linarith
    then show ?thesis by (auto simp: objectOf_def)
  qed
  have "length cs = sum_list (map length gs)" using gs(2) by (metis length_concat)
  then show ?thesis unfolding gs(1) using one sums by (auto simp: objectOf_def comp_def)
qed

definition cap_chunks :: "serfChunk list" where
  "cap_chunks = [\<lparr>scBuf = [7, 8], scPoints = 2, scRawBytes = 32\<rparr>, \<lparr>scBuf = [9], scPoints = 1, scRawBytes = 16\<rparr>, \<lparr>scBuf = [1, 2, 3, 4], scPoints = 3, scRawBytes = 48\<rparr>]"

theorem objects_within_cap_witness:
  "map soSeriesCount (assembleObjects 13 cap_chunks) = [2, 1] \<and> map (length \<circ> soData) (assembleObjects 13 cap_chunks) = [13, 14] \<and>
   list_all (\<lambda>ob. soSeriesCount ob = 1 \<or> length (soData ob) \<le> 13) (assembleObjects 13 cap_chunks) \<and>
   sum_list (map soPoints (assembleObjects 13 cap_chunks)) = 6"
proof -
  have "map soSeriesCount (assembleObjects 13 cap_chunks) = [2, 1]" "map (length \<circ> soData) (assembleObjects 13 cap_chunks) = [13, 14]"
    by code_simp+
  moreover have "sum_list (map scPoints cap_chunks) = 6" by (simp add: cap_chunks_def)
  ultimately show ?thesis using objects_within_cap [of 13 cap_chunks] by (auto simp: list_all_iff)
qed

lemma decodeAll_takes:
  "list_all2 (\<lambda>c d. takes (decodeOneSeries j qt maxDiff) (scBuf c) d) g ds \<Longrightarrow>
   decodeAllSeries j qt maxDiff (length g) (concat (map scBuf g)) = Inr ds"
  by (induction rule: list_all2_induct) (simp_all add: takes_def)

lemma decode_object:
  assumes "list_all2 (\<lambda>c d. takes (decodeOneSeries j (compression = compression_qt) maxDiff) (scBuf c) d) g ds" "length g < 2 ^ 32"
  shows "decodeSERF1 j (soData (objectOf g)) compression maxDiff = Inr ds"
proof -
  have m: "takes (rd_read 5) (bytes_of ''SERF1'') (bytes_of ''SERF1'')" using takes_read [of "bytes_of ''SERF1''"] magic_length by (simp only: length_0_conv [symmetric])
  have v: "takes (rd_full 1) [1] [1]" by (rule takes_full) simp_all
  have "unat (word_of_nat (length g) :: u32) = length g" using assms(2) by (simp add: unat_of_nat)
  then show ?thesis using m v takes_u32 [of "word_of_nat (length g)"] decodeAll_takes [OF assms(1)]
    by (simp add: decodeSERF1_def objectOf_def takes_def)
qed

lemma buildChunks_spec:
  "buildChunks j oob qt maxDiff adjustDigit series = Inr cs \<Longrightarrow> \<forall>(k, b) \<in> set series. sbPoints b \<noteq> [] \<Longrightarrow>
   list_all2 (\<lambda>(k, b) c. buildChunk j oob qt maxDiff adjustDigit k b = Inr c) series cs"
proof (induction j oob qt maxDiff adjustDigit series arbitrary: cs rule: buildChunks.induct)
  case (2 j oob qt maxDiff adjustDigit key buf rest)
  then show ?case by (auto simp: res_bind_eq_Inr_iff)
qed simp

lemma list_all2_choice: "list_all2 (\<lambda>x y. \<exists>z. Q y z \<and> R x z) xs ys \<Longrightarrow> \<exists>zs. list_all2 Q ys zs \<and> list_all2 R xs zs"
proof (induction rule: list_all2_induct)
  case (Cons x xs y ys)
  then obtain z zs where "Q y z" "R x z" "list_all2 Q ys zs" "list_all2 R xs zs" by blast
  then show ?case by (intro exI [of _ "z # zs"]) simp
qed simp

lemma list_all2_split: "list_all2 Q (concat gs) ds \<Longrightarrow> \<exists>dss. concat dss = ds \<and> list_all2 (list_all2 Q) gs dss"
proof (induction gs arbitrary: ds)
  case (Cons g gs)
  then obtain d ds' where d: "ds = d @ ds'" "list_all2 Q g d" "list_all2 Q (concat gs) ds'" by (auto simp: list_all2_append1)
  from Cons.IH [OF d(3)] obtain dss where "concat dss = ds'" "list_all2 (list_all2 Q) gs dss" by blast
  then show ?case using d(1,2) by (intro exI [of _ "d # dss"]) simp
qed simp

text \<open>The objects of a list of series decode to these series, if each series' values do.\<close>

lemma objects_decode:
  assumes chunks: "list_all2 (\<lambda>(k, b) c. buildChunk j oob qt maxDiff adjustDigit k b = Inr c) series cs" and qt: "qt \<longleftrightarrow> compression = compression_qt"
    and count: "length series < 2 ^ 32"
    and dec: "\<And>k b c. (k, b) \<in> set series \<Longrightarrow> buildChunk j oob qt maxDiff adjustDigit k b = Inr c \<Longrightarrow>
      \<exists>d. takes (decodeOneSeries j qt maxDiff') (scBuf c) d \<and> P k b d"
  shows "\<exists>dss. list_all2 (\<lambda>ob ds. decodeSERF1 j (soData ob) compression maxDiff' = Inr ds) (assembleObjects maxBytes cs) dss \<and>
    list_all2 (\<lambda>(k, b) d. P k b d) series (concat dss)"
proof -
  let ?Q = "\<lambda>c d. takes (decodeOneSeries j qt maxDiff') (scBuf c) d"
  obtain gs where gs: "assembleObjects maxBytes cs = map objectOf gs" "concat gs = cs" by (rule assembleObjects_groups)
  have "list_all2 (\<lambda>x c. \<exists>d. ?Q c d \<and> (case x of (k, b) \<Rightarrow> P k b d)) series cs"
  proof (rule list_all2_all_nthI)
    show "length series = length cs" using chunks by (rule list_all2_lengthD)
    fix i assume i: "i < length series"
    obtain k b where kb: "series ! i = (k, b)" by (cases "series ! i")
    have b: "buildChunk j oob qt maxDiff adjustDigit k b = Inr (cs ! i)" using list_all2_nthD [OF chunks i] kb by simp
    show "\<exists>d. ?Q (cs ! i) d \<and> (case series ! i of (k, b) \<Rightarrow> P k b d)" using dec [OF _ b] kb nth_mem [OF i] by auto
  qed
  from list_all2_choice [OF this] obtain ds where ds: "list_all2 ?Q cs ds" "list_all2 (\<lambda>(k, b) d. P k b d) series ds" by (auto simp: case_prod_beta')
  then obtain dss where dss: "concat dss = ds" "list_all2 (list_all2 ?Q) gs dss" using list_all2_split [of ?Q gs ds] gs(2) by auto
  have "length g < 2 ^ 32" if "g \<in> set gs" for g
  proof -
    have "length g \<le> length (concat gs)" using that by (auto simp: length_concat intro: member_le_sum_list)
    then show ?thesis using count list_all2_lengthD [OF chunks] gs(2) by simp
  qed
  then have "list_all2 (\<lambda>g ds. decodeSERF1 j (soData (objectOf g)) compression maxDiff' = Inr ds) gs dss"
    using decode_object [of j compression maxDiff'] unfolding qt [symmetric] by (intro list.rel_mono_strong [OF dss(2)]) blast
  then show ?thesis using ds(2) dss(1) unfolding gs(1) list_all2_map1 by blast
qed

section \<open>The window\<close>

definition keyOf :: "gostr \<Rightarrow> numberDataPoint \<Rightarrow> seriesKeySerf" where
  "keyOf name dp = \<lparr>skMetricName = name, skAttributesKey = encodeAttributesAsKey (ndAttributes dp)\<rparr>"

definition dataPoints :: "metricData \<Rightarrow> numberDataPoint list" where
  "dataPoints m = (case m of MGauge dps \<Rightarrow> dps | MSum dps \<Rightarrow> dps | MOther \<Rightarrow> [])"

text \<open>The data points of a batch, named, in the order in which they are consumed.\<close>

definition numbers :: "(gostr \<times> metricData) list list list \<Rightarrow> (gostr \<times> numberDataPoint) list" where
  "numbers md = concat (map (\<lambda>(name, m). map (Pair name) (dataPoints m)) (concat (concat md)))"

definition pointsFor :: "seriesKeySerf \<Rightarrow> (gostr \<times> numberDataPoint) list \<Rightarrow> point list" where
  "pointsFor k xs = concat (map (\<lambda>(name, dp). case pointValue dp of None \<Rightarrow> []
     | Some v \<Rightarrow> if keyOf name dp = k then [\<lparr>pTs = ndTimestamp dp, pV = v\<rparr>] else []) xs)"

text \<open>The first point of a series that has a value.\<close>

definition firstPoint :: "seriesKeySerf \<Rightarrow> (gostr \<times> numberDataPoint) list \<Rightarrow> (gostr \<times> numberDataPoint) option" where
  "firstPoint k xs = find (\<lambda>(name, dp). pointValue dp \<noteq> None \<and> keyOf name dp = k) xs"

lemma firstPoint_none: "firstPoint k xs = None \<longleftrightarrow> pointsFor k xs = []"
  by (induction xs) (auto simp: firstPoint_def pointsFor_def split: option.splits)

lemma firstPoint_snoc: "firstPoint k (xs @ [x]) = (case firstPoint k xs of None \<Rightarrow> firstPoint k [x] | Some p \<Rightarrow> Some p)"
  by (induction xs) (auto simp: firstPoint_def)

lemma firstPoint_snoc_other: "pointValue dp = None \<or> keyOf name dp \<noteq> k \<Longrightarrow> firstPoint k (xs @ [(name, dp)]) = firstPoint k xs"
  unfolding firstPoint_snoc by (auto simp: firstPoint_def [of _ "[_]"] split: option.split)

lemma fold_nested: "fold (fold f) xss a = fold f (concat xss) a"
  by (induction xss arbitrary: a) simp_all

lemma consume_points: "ConsumeMetricsSerf md e = fold (\<lambda>(name, dp). addPoint name dp) (numbers md) e"
proof -
  have "ingestMetric nm e = fold (\<lambda>(name, dp). addPoint name dp) (case nm of (name, m) \<Rightarrow> map (Pair name) (dataPoints m)) e" for nm e
    by (auto simp: ingestMetric_def dataPoints_def fold_map comp_def split: prod.splits metricData.splits)
  then have "fold ingestMetric ms e = fold (\<lambda>(name, dp). addPoint name dp) (concat (map (\<lambda>(name, m). map (Pair name) (dataPoints m)) ms)) e" for ms e
    by (induction ms arbitrary: e) simp_all
  then show ?thesis by (simp add: ConsumeMetricsSerf_def numbers_def fold_nested)
qed

text \<open>The series of the exporter against the points it has been given.\<close>

fun buffered :: "(gostr \<times> numberDataPoint) list \<Rightarrow> seriesKeySerf \<Rightarrow> seriesBuffer option \<Rightarrow> bool" where
  "buffered xs k None \<longleftrightarrow> pointsFor k xs = []"
| "buffered xs k (Some buf) \<longleftrightarrow> sbPoints buf = pointsFor k xs \<and> pointsFor k xs \<noteq> [] \<and>
     map_option (attributesToMap \<circ> ndAttributes \<circ> snd) (firstPoint k xs) = Some (sbAttributes buf)"

definition buffers :: "(gostr \<times> numberDataPoint) list \<Rightarrow> (seriesKeySerf \<times> seriesBuffer) list \<Rightarrow> bool" where
  "buffers xs series \<longleftrightarrow> distinct (map fst series) \<and> (\<forall>k. buffered xs k (map_of series k))"

lemma buffered_cong: "buffered xs k ob \<Longrightarrow> pointsFor k ys = pointsFor k xs \<Longrightarrow> firstPoint k ys = firstPoint k xs \<Longrightarrow> buffered ys k ob"
  by (cases ob) auto

lemma addPoint_buffers:
  assumes "buffers xs (seSeries e)"
  shows "buffers (xs @ [(name, dp)]) (seSeries (addPoint name dp e))"
proof (cases "pointValue dp")
  case None
  have "pointsFor k (xs @ [(name, dp)]) = pointsFor k xs" for k using None by (simp add: pointsFor_def)
  moreover have "firstPoint k (xs @ [(name, dp)]) = firstPoint k xs" for k using None by (simp add: firstPoint_snoc_other)
  ultimately have "buffers (xs @ [(name, dp)]) (seSeries e)" using assms unfolding buffers_def by (auto intro: buffered_cong)
  then show ?thesis using None by (simp add: addPoint_def)
next
  case (Some v)
  let ?p = "\<lparr>pTs = ndTimestamp dp, pV = v\<rparr>" and ?k = "keyOf name dp"
  define old where "old = (case map_of (seSeries e) ?k of None \<Rightarrow> \<lparr>sbAttributes = attributesToMap (ndAttributes dp), sbPoints = []\<rparr> | Some buf \<Rightarrow> buf)"
  have series: "seSeries (addPoint name dp e) = AList.update ?k (old\<lparr>sbPoints := sbPoints old @ [?p]\<rparr>) (seSeries e)"
    using Some by (simp add: addPoint_def keyOf_def old_def Let_def)
  have pts: "pointsFor k (xs @ [(name, dp)]) = pointsFor k xs @ (if ?k = k then [?p] else [])" for k using Some by (simp add: pointsFor_def)
  have o: "buffered xs ?k (map_of (seSeries e) ?k)" using assms by (simp add: buffers_def)
  have new: "buffered (xs @ [(name, dp)]) ?k (Some (old\<lparr>sbPoints := sbPoints old @ [?p]\<rparr>))"
  proof (cases "map_of (seSeries e) ?k")
    case None
    then have "firstPoint ?k xs = None" using o by (simp add: firstPoint_none)
    then show ?thesis using o None Some by (simp add: old_def pts firstPoint_snoc) (simp add: firstPoint_def)
  next
    case (Some buf)
    then have "old = buf" by (simp add: old_def)
    then show ?thesis using o Some by (auto simp: pts firstPoint_snoc)
  qed
  have "buffered (xs @ [(name, dp)]) k (map_of (seSeries (addPoint name dp e)) k)" for k
  proof (cases "k = ?k")
    case True
    then show ?thesis using new by (simp add: series update_conv)
  next
    case False
    then have "buffered xs k (map_of (seSeries (addPoint name dp e)) k)" using assms by (simp add: series update_conv buffers_def)
    moreover have "pointsFor k (xs @ [(name, dp)]) = pointsFor k xs" using False unfolding pts by simp
    moreover have "firstPoint k (xs @ [(name, dp)]) = firstPoint k xs" using False by (intro firstPoint_snoc_other) auto
    ultimately show ?thesis by (rule buffered_cong)
  qed
  then show ?thesis using assms by (simp add: buffers_def series distinct_update)
qed

lemma consume_buffers: "buffers (numbers md) (seSeries (ConsumeMetricsSerf md (newExporter cfg)))"
proof -
  have "buffers (ys @ xs) (seSeries (fold (\<lambda>(name, dp). addPoint name dp) xs e))" if "buffers ys (seSeries e)" for ys xs e
    using that
  proof (induction xs arbitrary: ys e)
    case (Cons x xs)
    obtain n d where x: "x = (n, d)" by (cases x)
    show ?case using Cons.IH [OF addPoint_buffers [OF Cons.prems, of n d]] x by simp
  qed simp
  moreover have "buffers [] (seSeries (newExporter cfg))" by (simp add: buffers_def newExporter_def pointsFor_def)
  ultimately show ?thesis unfolding consume_points by (metis append_Nil)
qed

lemma consume_cfg: "seCfg (ConsumeMetricsSerf md e) = seCfg e"
proof -
  have "seCfg (addPoint n d e) = seCfg e" for n d e by (simp add: addPoint_def Let_def split: option.splits)
  then have "seCfg (fold (\<lambda>(n, d). addPoint n d) xs e) = seCfg e" for xs by (induction xs arbitrary: e) (auto simp: split_beta)
  then show ?thesis by (simp add: consume_points)
qed

section \<open>Delivery\<close>

text \<open>
  A decoded series against the points that were given for its key: it has the metric name, the attributes of the first point, all timestamps in order, and
  values within \<open>maxDiff\<close>.
\<close>

definition bufferXor :: "f64 \<Rightarrow> seriesKeySerf \<Rightarrow> seriesBuffer \<Rightarrow> decodedSeries \<Rightarrow> bool" where
  "bufferXor maxDiff k buf d \<longleftrightarrow>
     dsMetricName d = skMetricName k \<and> dsAttributes d = sbAttributes buf \<and> map pTs (dsPoints d) = map pTs (sortedPoints (sbPoints buf)) \<and>
     list_all2 (\<lambda>p q. f64_le (f64_abs (f64_sub (pV q) (pV p))) maxDiff) (sortedPoints (sbPoints buf)) (dsPoints d)"

definition deliveredXor :: "f64 \<Rightarrow> (gostr \<times> numberDataPoint) list \<Rightarrow> seriesKeySerf \<Rightarrow> decodedSeries \<Rightarrow> bool" where
  "deliveredXor maxDiff xs k d \<longleftrightarrow>
     dsMetricName d = skMetricName k \<and> map_option (attributesToMap \<circ> ndAttributes \<circ> snd) (firstPoint k xs) = Some (dsAttributes d) \<and>
     map pTs (dsPoints d) = map pTs (sortedPoints (pointsFor k xs)) \<and>
     list_all2 (\<lambda>p q. f64_le (f64_abs (f64_sub (pV q) (pV p))) maxDiff) (sortedPoints (pointsFor k xs)) (dsPoints d)"

lemma bufferXor_delivered: "bufferXor maxDiff k buf d \<Longrightarrow> buffered xs k (Some buf) \<Longrightarrow> deliveredXor maxDiff xs k d"
  by (simp add: bufferXor_def deliveredXor_def)

lemma decode_xor_series:
  assumes c: "buildChunk j oob False maxDiff 0 key buf = Inr c" and pts: "sbPoints buf \<noteq> []" "length (sbPoints buf) < 2 ^ 25"
    and json: "json_laws j valid" "valid (metaOf key buf)"
    and maxDiff: "f64_le 0 maxDiff" and fin: "\<forall>p \<in> set (sbPoints buf). f64_finite (pV p)"
  shows "\<exists>d. takes (decodeOneSeries j False maxDiff') (scBuf c) d \<and> bufferXor maxDiff key buf d"
proof -
  define es where "es = sortAndEncode oob False maxDiff 0 (sbPoints buf)"
  let ?vs = "map pV (sortedPoints (sbPoints buf))" let ?e = "newSerfValEncoder maxDiff 0"
  note x = encoded_xor [OF es_def pts(1)]
  have "takes (decodeOneSeries j False maxDiff') (scBuf c) (decodedAs key buf (stored_vals ?e ?vs))"
    using decode_chunk [OF c pts json es_def] xor_values_serf(1) [OF _ refl x(2)] xor_values_serf(2) [OF _ refl x(2)] pts by (simp add: x(1))
  moreover have "list_all2 (\<lambda>v s. f64_le (f64_abs (f64_sub s v)) maxDiff) ?vs (stored_vals ?e ?vs)"
    using stored_vals_close [of ?e ?vs] maxDiff fin by (simp add: newSerfValEncoder_def f64_of_int64_zero)
  then have "bufferXor maxDiff key buf (decodedAs key buf (stored_vals ?e ?vs))"
    by (auto simp: bufferXor_def decodedAs_def Let_def list_all2_conv_all_nth intro!: nth_equalityI)
  ultimately show ?thesis by blast
qed

lemma window_decodes:
  assumes "json_laws j valid" "e = ConsumeMetricsSerf md (newExporter cfg)" "flushWindow j oob e = (Inr objs, e')"
    and cfg: "xcCompression cfg = compression_xor" "xcAdjustDigit cfg = 0" "f64_le 0 (xcMaxDiff cfg)"
    and series: "\<forall>(k, b) \<in> set (seSeries e). valid (metaOf k b) \<and> length (sbPoints b) < 2 ^ 25" "length (seSeries e) < 2 ^ 32"
    and fin: "\<forall>(name, dp) \<in> set (numbers md). \<forall>v. pointValue dp = Some v \<longrightarrow> f64_finite v"
  shows "\<exists>dss. list_all2 (\<lambda>ob ds. decodeSERF1 j (soData ob) compression_xor maxDiff' = Inr ds) objs dss \<and>
    list_all2 (\<lambda>(k, b) d. deliveredXor (xcMaxDiff cfg) (numbers md) k d) (sort_Slice (\<lambda>a b. key_less (fst a) (fst b)) (seSeries e)) (concat dss) \<and>
    distinct (map fst (seSeries e)) \<and> fst ` set (seSeries e) = {k. pointsFor k (numbers md) \<noteq> []} \<and> seSeries e' = []"
proof -
  let ?ss = "sort_Slice (\<lambda>a b. key_less (fst a) (fst b)) (seSeries e)"
  have buf: "buffers (numbers md) (seSeries e)" using consume_buffers assms(2) by simp
  have c: "seCfg e = cfg" using consume_cfg assms(2) by (simp add: newExporter_def)
  have at: "buffered (numbers md) k (Some b)" "sbPoints b = pointsFor k (numbers md)" "sbPoints b \<noteq> []" if "(k, b) \<in> set ?ss" for k b
  proof -
    have "map_of (seSeries e) k = Some b" using that buf by (simp add: buffers_def map_of_is_SomeI)
    moreover have "buffered (numbers md) k (map_of (seSeries e) k)" using buf by (simp add: buffers_def)
    ultimately show "buffered (numbers md) k (Some b)" "sbPoints b = pointsFor k (numbers md)" "sbPoints b \<noteq> []" by simp_all
  qed
  have keys: "fst ` set (seSeries e) = {k. pointsFor k (numbers md) \<noteq> []}"
  proof (rule set_eqI)
    fix k
    have "buffered (numbers md) k (map_of (seSeries e) k)" using buf by (simp add: buffers_def)
    then show "k \<in> fst ` set (seSeries e) \<longleftrightarrow> k \<in> {k. pointsFor k (numbers md) \<noteq> []}"
      using map_of_eq_None_iff [of "seSeries e" k] by (cases "map_of (seSeries e) k") auto
  qed
  have e': "seSeries e' = []" using assms(3) by (auto simp: flushWindow_def split: if_splits)
  have qt: "compression_xor \<noteq> compression_qt" by (simp add: bytes_of_def)
  obtain cs where cs: "buildChunks j oob False (xcMaxDiff cfg) 0 ?ss = Inr cs" "objs = assembleObjects (xcMaxObjectBytes cfg) cs"
  proof (cases "seSeries e = []")
    case True
    then show thesis using that [of "[]"] assms(3) by (simp add: flushWindow_def sort_Slice_def assembleObjects_def)
  next
    case False
    then show thesis using that assms(3) cfg qt by (auto simp: flushWindow_def buildObjects_def c res_bind_eq_Inr_iff)
  qed
  have "\<forall>(k, b) \<in> set ?ss. sbPoints b \<noteq> []" using at(3) by blast
  from buildChunks_spec [OF cs(1) this]
  have "\<exists>dss. list_all2 (\<lambda>ob ds. decodeSERF1 j (soData ob) compression_xor maxDiff' = Inr ds) (assembleObjects (xcMaxObjectBytes cfg) cs) dss \<and>
      list_all2 (\<lambda>(k, b) d. deliveredXor (xcMaxDiff cfg) (numbers md) k d) ?ss (concat dss)"
  proof (rule objects_decode)
    show "False = (compression_xor = compression_qt)" using qt by simp
    show "length ?ss < 2 ^ 32" using series(2) by simp
    fix k b ch assume kb: "(k, b) \<in> set ?ss" and ch: "buildChunk j oob False (xcMaxDiff cfg) 0 k b = Inr ch"
    have "\<forall>p \<in> set (pointsFor k (numbers md)). f64_finite (pV p)" using fin by (fastforce simp: pointsFor_def split: option.splits if_splits)
    then have f: "\<forall>p \<in> set (sbPoints b). f64_finite (pV p)" using at(2) [OF kb] by simp
    have v: "valid (metaOf k b)" "length (sbPoints b) < 2 ^ 25" using series(1) kb by auto
    show "\<exists>d. takes (decodeOneSeries j False maxDiff') (scBuf ch) d \<and> deliveredXor (xcMaxDiff cfg) (numbers md) k d"
      using decode_xor_series [OF ch at(3) [OF kb] v(2) assms(1) v(1) cfg(3) f] bufferXor_delivered at(1) [OF kb] by blast
  qed
  moreover have "distinct (map fst (seSeries e))" using buf by (simp add: buffers_def)
  ultimately show ?thesis using keys e' cs(2) by blast
qed

text \<open>Objects that decode are acknowledged, counted and handed to the consumer.\<close>

lemma post_decoded:
  assumes "list_all2 (\<lambda>ob ds. decodeSERF1 j (soData ob) (rcCompression (srCfg r)) (rcMaxDiff (srCfg r)) = Inr ds) objs dss" "\<forall>md. accepts md"
  shows "postObjects (\<lambda>data. handleSERF1 j accepts True (Some data)) objs sent r =
    (sent + sum_list (map (length \<circ> soData) objs), r\<lparr>srBytesRecv := srBytesRecv r + sum_list (map (length \<circ> soData) objs),
       srPointsDecoded := srPointsDecoded r + sum_list (map (DataPointCount \<circ> buildMetrics) dss), srConsumed := srConsumed r @ map buildMetrics dss\<rparr>)"
  using assms(1)
proof (induction objs arbitrary: dss r sent)
  case (Cons ob objs)
  then obtain ds dss' where d: "dss = ds # dss'" "decodeSERF1 j (soData ob) (rcCompression (srCfg r)) (rcMaxDiff (srCfg r)) = Inr ds"
    "list_all2 (\<lambda>ob ds. decodeSERF1 j (soData ob) (rcCompression (srCfg r)) (rcMaxDiff (srCfg r)) = Inr ds) objs dss'" by (auto simp: list_all2_Cons1)
  show ?case using d assms(2) Cons.IH [of "r\<lparr>srBytesRecv := srBytesRecv r + length (soData ob), srPointsDecoded := srPointsDecoded r + DataPointCount (buildMetrics ds),
      srConsumed := srConsumed r @ [buildMetrics ds]\<rparr>" dss' "sent + length (soData ob)"] by (simp add: postObject_def handleSERF1_def Let_def add.assoc)
qed simp

text \<open>
  Property C16. What the Serf exporter is given in a window arrives: with XOR compression, \<^verbatim>\<open>adjust_digit\<close> 0, \<^verbatim>\<open>max_diff\<close> not negative, finite values and fewer than \<open>2 ^ 25\<close> points
  for a series, when the window is flushed without an error (the metadata of each series is marshalled) and its objects are posted to a receiver with XOR compression whose consumer
  never fails, every object is acknowledged, so that the exporter counts as sent what the receiver counts as received, and the consumer is given the gauges of decoded
  series that are, in the order of their keys, one for each metric name and attribute key of a point that has a value: each has the name, the attributes of the first
  such point, the timestamps of all such points, sorted, and for each of them a value that differs from the original by at most \<^verbatim>\<open>max_diff\<close> in floating-point arithmetic.
\<close>

theorem serf_window_delivered:
  assumes "json_laws j valid" "e = ConsumeMetricsSerf md (newExporter cfg)" "flushWindow j oob e = (Inr objs, e')"
    and "xcCompression cfg = compression_xor" "xcAdjustDigit cfg = 0" "f64_le 0 (xcMaxDiff cfg)"
    and "\<forall>(k, b) \<in> set (seSeries e). valid (metaOf k b) \<and> length (sbPoints b) < 2 ^ 25" "length (seSeries e) < 2 ^ 32"
    and "\<forall>(name, dp) \<in> set (numbers md). \<forall>v. pointValue dp = Some v \<longrightarrow> f64_finite v"
    and r: "rcCompression rcfg = compression_xor" "\<forall>md. accepts md"
  shows "\<exists>dss ks n r'. postObjects (\<lambda>data. handleSERF1 j accepts True (Some data)) objs 0 (newReceiver rcfg) = (n, r') \<and>
    n = sum_list (map (length \<circ> soData) objs) \<and> srBytesRecv r' = n \<and> srConsumed r' = map buildMetrics dss \<and>
    ks = map fst (sort_Slice (\<lambda>a b. key_less (fst a) (fst b)) (seSeries e)) \<and> distinct ks \<and> set ks = {k. pointsFor k (numbers md) \<noteq> []} \<and>
    list_all2 (deliveredXor (xcMaxDiff cfg) (numbers md)) ks (concat dss) \<and> seSeries e' = []"
proof -
  let ?ss = "sort_Slice (\<lambda>a b. key_less (fst a) (fst b)) (seSeries e)"
  obtain dss where dss: "list_all2 (\<lambda>ob ds. decodeSERF1 j (soData ob) compression_xor (rcMaxDiff rcfg) = Inr ds) objs dss"
    and all: "list_all2 (\<lambda>(k, b) d. deliveredXor (xcMaxDiff cfg) (numbers md) k d) ?ss (concat dss)"
    and keys: "distinct (map fst (seSeries e))" "fst ` set (seSeries e) = {k. pointsFor k (numbers md) \<noteq> []}" "seSeries e' = []"
    using window_decodes [OF assms(1-9), of "rcMaxDiff rcfg"] by blast
  have "postObjects (\<lambda>data. handleSERF1 j accepts True (Some data)) objs 0 (newReceiver rcfg) =
      (sum_list (map (length \<circ> soData) objs), (newReceiver rcfg)\<lparr>srBytesRecv := sum_list (map (length \<circ> soData) objs),
       srPointsDecoded := sum_list (map (DataPointCount \<circ> buildMetrics) dss), srConsumed := map buildMetrics dss\<rparr>)"
    using post_decoded [of j "newReceiver rcfg" objs dss accepts 0] dss r by (simp add: newReceiver_def)
  moreover have "distinct (map fst ?ss)" using keys(1) mset_eq_imp_distinct_iff [of "map fst ?ss" "map fst (seSeries e)"] by simp
  moreover have "list_all2 (deliveredXor (xcMaxDiff cfg) (numbers md)) (map fst ?ss) (concat dss)"
    using all unfolding list.rel_map by (rule list.rel_mono_strong) auto
  ultimately show ?thesis using keys by (intro exI [of _ dss] exI [of _ "map fst ?ss"]) simp
qed

definition demoSerfConfig :: serfExporterConfig where
  "demoSerfConfig = \<lparr>xcEndpoint = bytes_of ''http://r/'', xcCompression = compression_xor, xcMaxDiff = 0, xcAdjustDigit = 0, xcWindowInterval = 1000, xcMaxObjectBytes = 64\<rparr>"

definition demoSerfBatch :: "(gostr \<times> metricData) list list list" where
  "demoSerfBatch = [[[(bytes_of ''cpu'', MGauge [\<lparr>ndAttributes = [(bytes_of ''host'', bytes_of ''a'')], ndTimestamp = 2000, ndValue = NDouble 0x3FF8000000000000\<rparr>,
     \<lparr>ndAttributes = [(bytes_of ''host'', bytes_of ''a'')], ndTimestamp = 1000, ndValue = NDouble 0x4000000000000000\<rparr>])]]]"

definition demoSerfMeta :: seriesMeta where
  "demoSerfMeta = \<lparr>smMetricName = bytes_of ''cpu'', smAttributes = [(bytes_of ''host'', bytes_of ''a'')], smStartTS = 1000, smEndTS = 2000, smPointCount = 2\<rparr>"

definition demoSerfJson :: serfJson where
  "demoSerfJson = \<lparr>jMarshal = \<lambda>m. Some (bytes_of ''{}''), jUnmarshal = \<lambda>b. if b = bytes_of ''{}'' then Some demoSerfMeta else None\<rparr>"

lemma demo_window:
  "seSeries (ConsumeMetricsSerf demoSerfBatch (newExporter demoSerfConfig)) =
     [(\<lparr>skMetricName = bytes_of ''cpu'', skAttributesKey = bytes_of ''host=a;''\<rparr>,
       \<lparr>sbAttributes = [(bytes_of ''host'', bytes_of ''a'')], sbPoints = [\<lparr>pTs = 2000, pV = 0x3FF8000000000000\<rparr>, \<lparr>pTs = 1000, pV = 0x4000000000000000\<rparr>]\<rparr>)]"
  by code_simp

lemma demo_points: "sortedPoints [\<lparr>pTs = 2000, pV = 0x3FF8000000000000\<rparr>, \<lparr>pTs = 1000, pV = 0x4000000000000000\<rparr>] =
    [\<lparr>pTs = 1000, pV = 0x4000000000000000\<rparr>, \<lparr>pTs = 2000, pV = 0x3FF8000000000000\<rparr>]"
  by code_simp

theorem serf_window_delivered_witness:
  "\<exists>objs dss d n r'. fst (flushWindow demoSerfJson (\<lambda>_. 0) (ConsumeMetricsSerf demoSerfBatch (newExporter demoSerfConfig))) = Inr objs \<and>
     postObjects (\<lambda>data. handleSERF1 demoSerfJson (\<lambda>_. True) True (Some data)) objs 0
       (newReceiver \<lparr>rcEndpoint = [], rcCompression = compression_xor, rcMaxDiff = 0\<rparr>) = (n, r') \<and>
     srConsumed r' = map buildMetrics dss \<and> concat dss = [d] \<and> dsMetricName d = bytes_of ''cpu'' \<and>
     dsAttributes d = [(bytes_of ''host'', bytes_of ''a'')] \<and> map pTs (dsPoints d) = [1000, 2000]"
proof -
  let ?e = "ConsumeMetricsSerf demoSerfBatch (newExporter demoSerfConfig)" let ?rc = "\<lparr>rcEndpoint = [], rcCompression = compression_xor, rcMaxDiff = 0\<rparr> :: serfReceiverConfig"
  have pos: "f64_le 0 (xcMaxDiff demoSerfConfig)" by (simp add: demoSerfConfig_def f64_le_def f64_isnan_def f64_frac_def)
  obtain objs e' where f: "flushWindow demoSerfJson (\<lambda>_. 0) ?e = (Inr objs, e')"
    by (simp add: flushWindow_def buildObjects_def demo_window sort_Slice_def buildChunk_def demoSerfJson_def bytes_of_def Let_def)
  have fin: "\<forall>(name, dp) \<in> set (numbers demoSerfBatch). \<forall>v. pointValue dp = Some v \<longrightarrow> f64_finite v"
    by (simp add: demoSerfBatch_def numbers_def dataPoints_def pointValue_def f64_finite_def f64_exp_def)
  have json: "json_laws demoSerfJson (\<lambda>m. m = demoSerfMeta)" by (auto simp: json_laws_def demoSerfJson_def bytes_of_def)
  have c: "xcCompression demoSerfConfig = compression_xor" "xcAdjustDigit demoSerfConfig = 0" "rcCompression ?rc = compression_xor" by (simp_all add: demoSerfConfig_def)
  have ok: "\<forall>(k, b) \<in> set (seSeries ?e). metaOf k b = demoSerfMeta \<and> length (sbPoints b) < 2 ^ 25" "length (seSeries ?e) < 2 ^ 32"
    by (simp_all add: demo_window metaOf_def demo_points demoSerfMeta_def)
  have t: "\<forall>md. (\<lambda>_. True) (md :: (gostr \<times> metricData) list)" by simp
  let ?k = "\<lparr>skMetricName = bytes_of ''cpu'', skAttributesKey = bytes_of ''host=a;''\<rparr>"
  have pts: "pointsFor ?k (numbers demoSerfBatch) = [\<lparr>pTs = 2000, pV = 0x3FF8000000000000\<rparr>, \<lparr>pTs = 1000, pV = 0x4000000000000000\<rparr>]"
    "map_option (attributesToMap \<circ> ndAttributes \<circ> snd) (firstPoint ?k (numbers demoSerfBatch)) = Some [(bytes_of ''host'', bytes_of ''a'')]"
    by code_simp+
  from serf_window_delivered [OF json refl f c(1,2) pos ok fin c(3) t] obtain dss n r' where
    r: "postObjects (\<lambda>data. handleSERF1 demoSerfJson (\<lambda>_. True) True (Some data)) objs 0 (newReceiver ?rc) = (n, r')" "srConsumed r' = map buildMetrics dss"
    and all: "list_all2 (deliveredXor (xcMaxDiff demoSerfConfig) (numbers demoSerfBatch)) (map fst (sort_Slice (\<lambda>a b. key_less (fst a) (fst b)) (seSeries ?e))) (concat dss)" by blast
  from all obtain d where "concat dss = [d]" "deliveredXor (xcMaxDiff demoSerfConfig) (numbers demoSerfBatch) ?k d"
    by (auto simp: demo_window sort_Slice_def list_all2_Cons1)
  then have "concat dss = [d]" "dsMetricName d = bytes_of ''cpu''" "dsAttributes d = [(bytes_of ''host'', bytes_of ''a'')]" "map pTs (dsPoints d) = [1000, 2000]"
    using pts by (simp_all add: deliveredXor_def demo_points)
  then show ?thesis using f r by auto
qed

section \<open>What the codec does not keep\<close>

text \<open>
  A NaN is stored as the value before it, and a series that starts with a NaN decodes to NaN for the rest of the window: the comparison
  \<^verbatim>\<open>math.Abs(prevStored-adjustDigit-v) > maxDiff\<close> is false for NaN, so every later value takes the branch for an unchanged value.
\<close>

lemma nan_poisons_window:
  assumes "f64_isnan v" "vePrevSet e"
  shows "veStoredVal (val_push v e) = veStoredVal e" "f64_isnan (veStoredVal e) \<Longrightarrow> \<forall>s \<in> set (stored_vals e vs). f64_isnan s"
  using assms nan_takes_previous nan_forever by blast+

text \<open>The key of a data point joins its attributes without escaping them: two different attribute sets may share a series.\<close>

lemma serf_keys_collide:
  "encodeAttributesAsKey [(bytes_of ''a'', bytes_of ''1;b=2'')] = encodeAttributesAsKey [(bytes_of ''a'', bytes_of ''1''), (bytes_of ''b'', bytes_of ''2'')]"
  by code_simp

text \<open>The receiver has no adjust digit: what the exporter adds to a value stays in it.\<close>

lemma adjust_digit_stays: "stored_vals (newSerfValEncoder 0 adjustDigit) [v] = [f64_add v (f64_of_int64 adjustDigit)]"
  by (simp add: val_push_def newSerfValEncoder_def findAppLong_def f64_eq_def f64_isnan_def f64_frac_def Let_def)

text \<open>With \<^verbatim>\<open>qt\<close> compression, a quantum of \<open>MinInt64\<close>, as amd64 gives for NaN and infinite values, is coded as \<open>0\<close>, which the Elias gamma code has no word for.\<close>

lemma qt_quantum_has_no_code: "zigzag (0x8000000000000000 :: i64) + 1 = 0"
  using zigzag_wraps by blast

text \<open>A body that is cut within a series' metadata or streams is not refused: \<^verbatim>\<open>Read\<close> leaves the rest of its buffer zero.\<close>

lemma short_read_accepted: "0 < length r \<Longrightarrow> length r < n \<Longrightarrow> rd_read n r = Inr (r @ replicate (n - length r) 0, [])"
  by (auto simp: rd_read_def)

text \<open>One series whose metadata is too large, or cannot be marshalled, discards the points of all the others: the window is emptied before the objects are built.\<close>

lemma large_metadata_drops_window:
  assumes "(k, b) \<in> set (seSeries e)" "sbPoints b \<noteq> []" "jMarshal j (metaOf k b) = Some mb" "65535 < length mb"
  shows "\<exists>err e'. flushWindow j oob e = (Inl err, e') \<and> seSeries e' = []"
proof -
  have "\<exists>err. buildChunks j oob qt maxDiff adjustDigit ss = Inl err" if "(k, b) \<in> set ss" for qt maxDiff adjustDigit ss
    using that
  proof (induction ss)
    case (Cons x ss)
    show ?case
    proof (cases "x = (k, b)")
      case True
      then show ?thesis using assms by (simp add: buildChunk_def)
    next
      case False
      obtain k' b' where x: "x = (k', b')" by (cases x)
      have "\<exists>err. buildChunks j oob qt maxDiff adjustDigit ss = Inl err" using Cons False by auto
      then show ?thesis using x by (cases "buildChunk j oob qt maxDiff adjustDigit k' b'") auto
    qed
  qed simp
  from this [of "sort_Slice (\<lambda>a b. key_less (fst a) (fst b)) (seSeries e)" "xcCompression (seCfg e) = compression_qt" "xcMaxDiff (seCfg e)" "xcAdjustDigit (seCfg e)"]
  show ?thesis using assms(1) by (auto simp: flushWindow_def buildObjects_def)
qed

text \<open>The length in bytes of a stream is computed in 32 bits: for a bit length near \<open>2 ^ 32\<close> it wraps to no byte at all, and the decoder then indexes an empty slice.\<close>

lemma bit_length_wraps:
  "rd_stream 0xFFFFFFFF r = Inr ([], r)" "decodeTimestampsSerf firstTS [] 0xFFFFFFFF 2 = Inl SerfPanic"
proof -
  have "(0xFFFFFFFF + 7 :: u32) div 8 = 0" by code_simp
  then show "rd_stream 0xFFFFFFFF r = Inr ([], r)" by (simp add: rd_stream_def)
  have "readBit (newBitReader [] 0xFFFFFFFF) = Inl SerfPanic" by (simp add: readBit_def newBitReader_def)
  moreover have "unat (2 :: u32) - 1 = Suc 0" by simp
  ultimately show "decodeTimestampsSerf firstTS [] 0xFFFFFFFF 2 = Inl SerfPanic"
    unfolding decodeTimestampsSerf_def by (simp add: decodeDD_def)
qed

end
