(* ===== verification/SeriesDict.thy ===== *)
theory SeriesDict
  imports GoPrelude "HOL-Library.Multiset" "HOL-Library.List_Lexorder" "HOL-Library.Char_ord" "HOL-Library.Product_Lexorder"
begin

text \<open>
  The SDK side of the series-ID protocol: the dictionary of the OTLP gRPC exporter
  (\<^verbatim>\<open>otlpmetricgrpc/internal/series/dictionary.go\<close>), which decides per data point whether the full
  attribute set or a collector-confirmed series ID goes on the wire.

  Attribute values belong to the OpenTelemetry API package: they are the type variable \<open>'v\<close> with
  their textual form \<^verbatim>\<open>Value.Emit\<close> as the parameter \<open>emit\<close>. A data point is reduced to the fields
  the dictionary touches; the two pointers into the aggregator that a point may carry
  (\<^verbatim>\<open>SeriesIDSink\<close>, \<^verbatim>\<open>AttrsClearer\<close>) are addresses of an explicit store of aggregator cells. The
  dictionary's maps are partial functions from keys.
\<close>

type_synonym 'v attrs = "(string \<times> 'v) list"

section \<open>Keys and fingerprints\<close>

definition kvs_string :: "('v \<Rightarrow> string) \<Rightarrow> 'v attrs \<Rightarrow> string" where
  "kvs_string emit kvs = concat (map (\<lambda>(k, v). k @ ''='' @ emit v @ ''|'') kvs)"

definition attributesFingerprint :: "('v \<Rightarrow> string) \<Rightarrow> 'v attrs \<Rightarrow> string" where
  "attributesFingerprint emit attrs =
     (if attrs = [] then '''' else kvs_string emit (sort_key (\<lambda>(k, v). (k, emit v)) attrs))"

definition appendAttributes :: "('v \<Rightarrow> string) \<Rightarrow> string \<Rightarrow> 'v attrs \<Rightarrow> string" where
  "appendAttributes emit builder attrs = builder @ attributesFingerprint emit attrs"

definition appendAttributeSlice :: "('v \<Rightarrow> string) \<Rightarrow> string \<Rightarrow> 'v attrs \<Rightarrow> string" where
  "appendAttributeSlice emit builder attrs =
     (if attrs = [] then builder else builder @ kvs_string emit (sort_key fst attrs))"

record 'v resource =
  resSchemaURL :: string
  resAttributes :: "'v attrs"

record 'v scope =
  scName :: string
  scVersion :: string
  scSchemaURL :: string
  scAttributes :: "'v attrs"

text \<open>A nil \<^verbatim>\<open>*resource.Resource\<close> is \<open>None\<close>; it has no schema URL and no attributes.\<close>

definition resSchema :: "'v resource option \<Rightarrow> string" where
  "resSchema res = (case res of None \<Rightarrow> '''' | Some r \<Rightarrow> resSchemaURL r)"

definition resourceKey :: "('v \<Rightarrow> string) \<Rightarrow> 'v resource option \<Rightarrow> string" where
  "resourceKey emit res =
     appendAttributeSlice emit (resSchema res @ ''|'')
       (case res of None \<Rightarrow> [] | Some r \<Rightarrow> resAttributes r)"

definition scopeKey :: "('v \<Rightarrow> string) \<Rightarrow> 'v scope \<Rightarrow> string" where
  "scopeKey emit sc =
     appendAttributes emit (scName sc @ ''|'' @ scVersion sc @ ''|'' @ scSchemaURL sc @ ''|'')
       (scAttributes sc)"

definition descriptorKeyFromParts :: "string \<Rightarrow> string \<Rightarrow> string \<Rightarrow> string \<Rightarrow> string" where
  "descriptorKeyFromParts sk metricType metricName attrsFingerprint =
     sk @ ''|'' @ metricType @ ''|'' @ metricName @ ''|'' @ attrsFingerprint"

definition descriptorKey :: "('v \<Rightarrow> string) \<Rightarrow> string \<Rightarrow> string \<Rightarrow> string \<Rightarrow> 'v attrs \<Rightarrow> string" where
  "descriptorKey emit sk metricName metricType attrs =
     descriptorKeyFromParts sk metricType metricName (attributesFingerprint emit attrs)"

section \<open>State\<close>

definition staleGenerations :: u64 where
  "staleGenerations = 5"

record seriesEntry =
  eId :: u64
  eRegistered :: bool
  eLastGen :: u64

record sourceState =
  ssNextID :: u64
  ssEntries :: "string \<Rightarrow> seriesEntry option"

record Dictionary =
  dGeneration :: u64
  dSources :: "string \<Rightarrow> sourceState option"

record Assignment =
  aResourceKey :: string
  aScopeKey :: string
  aMetricName :: string
  aMetricType :: string
  aAttributesFingerprint :: string
  aSeriesID :: u64

definition NewDictionary :: Dictionary where
  "NewDictionary = \<lparr>dGeneration = 0, dSources = (\<lambda>_. None)\<rparr>"

definition newSource :: sourceState where
  "newSource = \<lparr>ssNextID = 1, ssEntries = (\<lambda>_. None)\<rparr>"

definition getOrCreateSource :: "Dictionary \<Rightarrow> string \<Rightarrow> sourceState \<times> Dictionary" where
  "getOrCreateSource d key =
     (case dSources d key of
        Some src \<Rightarrow> (src, d)
      | None \<Rightarrow> (newSource, d\<lparr>dSources := (dSources d)(key \<mapsto> newSource)\<rparr>))"

text \<open>\<^verbatim>\<open>lookup\<close> touches the entry of a key, or creates it unregistered with the next local ID.\<close>

definition lookupEntry :: "sourceState \<Rightarrow> string \<Rightarrow> u64 \<Rightarrow> seriesEntry \<times> sourceState" where
  "lookupEntry s key gen =
     (case ssEntries s key of
        Some e \<Rightarrow> let e = e\<lparr>eLastGen := gen\<rparr> in (e, s\<lparr>ssEntries := (ssEntries s)(key \<mapsto> e)\<rparr>)
      | None \<Rightarrow>
          let e = \<lparr>eId = ssNextID s, eRegistered = False, eLastGen = gen\<rparr>
          in (e, s\<lparr>ssNextID := ssNextID s + 1, ssEntries := (ssEntries s)(key \<mapsto> e)\<rparr>))"

definition applyAssignment :: "sourceState \<Rightarrow> string \<Rightarrow> u64 \<Rightarrow> sourceState" where
  "applyAssignment s descriptor i =
     (let e = (case ssEntries s descriptor of
                 Some e \<Rightarrow> e | None \<Rightarrow> \<lparr>eId = 0, eRegistered = False, eLastGen = 0\<rparr>);
          e = e\<lparr>eId := i, eRegistered := True\<rparr>;
          s = s\<lparr>ssEntries := (ssEntries s)(descriptor \<mapsto> e)\<rparr>
      in if ssNextID s \<le> i then s\<lparr>ssNextID := i + 1\<rparr> else s)"

section \<open>Data points\<close>

text \<open>
  The payload encoding of a sketch point matters to the transform only (\<open>EProto\<close>, \<open>EDelta\<close>, or a value
  outside the enumeration).
\<close>

datatype encoding = EProto | EDelta | EUnknown

record 'v dpoint =
  dpSeriesID :: u64
  dpAttrs :: "'v attrs"
  dpEncoding :: encoding
  dpSink :: "nat option"
  dpClearer :: "nat option"

text \<open>The aggregator cells that \<^verbatim>\<open>SeriesIDSink\<close> and \<^verbatim>\<open>AttrsClearer\<close> point to.\<close>

record 'v cells =
  sidCell :: "nat \<Rightarrow> u64"
  attrCell :: "nat \<Rightarrow> 'v attrs"

definition assignSeriesID ::
  "('v \<Rightarrow> string) \<Rightarrow> string \<Rightarrow> string \<Rightarrow> string \<Rightarrow> u64 \<Rightarrow> sourceState \<Rightarrow> 'v dpoint \<Rightarrow> sourceState \<times> 'v dpoint" where
  "assignSeriesID emit sk metricName metricType gen src dp =
     (if dpSeriesID dp \<noteq> 0 then (src, dp)
      else let key = descriptorKey emit sk metricName metricType (dpAttrs dp);
               (entry, src) = lookupEntry src key gen
           in if \<not> eRegistered entry then (src, dp)
              else (src, dp\<lparr>dpSeriesID := eId entry, dpAttrs := []\<rparr>))"

text \<open>The write-back after the assignment, for the point types that carry the two pointers.\<close>

definition writeBack :: "'v cells \<Rightarrow> 'v dpoint \<Rightarrow> 'v cells \<times> 'v dpoint" where
  "writeBack st dp =
     (let (st, dp) = (case dpSink dp of None \<Rightarrow> (st, dp)
            | Some p \<Rightarrow> (st\<lparr>sidCell := (sidCell st)(p := dpSeriesID dp)\<rparr>, dp\<lparr>dpSink := None\<rparr>))
      in case dpClearer dp of None \<Rightarrow> (st, dp)
         | Some p \<Rightarrow> if dpSeriesID dp \<noteq> 0
             then (st\<lparr>attrCell := (attrCell st)(p := [])\<rparr>, dp\<lparr>dpClearer := None\<rparr>) else (st, dp))"

text \<open>
  One body serves the eight \<^verbatim>\<open>annotate...DataPoints\<close> loops of the source: with \<open>sinks\<close> for number
  points and sketches, without for histograms, exponential histograms and summaries.
\<close>

definition annotatePoint ::
  "bool \<Rightarrow> ('v \<Rightarrow> string) \<Rightarrow> string \<Rightarrow> string \<Rightarrow> string \<Rightarrow> u64 \<Rightarrow> sourceState \<times> 'v cells \<Rightarrow> 'v dpoint \<Rightarrow>
     (sourceState \<times> 'v cells) \<times> 'v dpoint" where
  "annotatePoint sinks emit sk metricName metricType gen st dp =
     (let (src, dp) = assignSeriesID emit sk metricName metricType gen (fst st) dp
      in if sinks then let (c, dp) = writeBack (snd st) dp in ((src, c), dp) else ((src, snd st), dp))"

fun annotateDataPoints ::
  "bool \<Rightarrow> ('v \<Rightarrow> string) \<Rightarrow> string \<Rightarrow> string \<Rightarrow> string \<Rightarrow> u64 \<Rightarrow> sourceState \<times> 'v cells \<Rightarrow> 'v dpoint list \<Rightarrow>
     (sourceState \<times> 'v cells) \<times> 'v dpoint list" where
  "annotateDataPoints sinks emit sk metricName metricType gen st [] = (st, [])"
| "annotateDataPoints sinks emit sk metricName metricType gen st (dp # dps) =
     (let (st, dp) = annotatePoint sinks emit sk metricName metricType gen st dp;
          (st, dps) = annotateDataPoints sinks emit sk metricName metricType gen st dps
      in (st, dp # dps))"

datatype numkind = NInt | NFloat

text \<open>The dynamic types of \<^verbatim>\<open>Metrics.Data\<close> that \<^verbatim>\<open>annotateMetric\<close> distinguishes.\<close>

datatype mkind = Gauge numkind | Sum numkind | Histogram numkind | ExponentialHistogram numkind | DDSketch numkind
  | KLLSketch numkind | CountSketch numkind | CountMinSketch numkind | HLLSketch | Summary | OtherData

datatype temporality = CumulativeTemporality | DeltaTemporality | UndefinedTemporality

record 'v metric =
  mName :: string
  mKind :: mkind
  mTemporality :: temporality
  mPoints :: "'v dpoint list"

fun metricTypeSDK :: "mkind \<Rightarrow> string" where
  "metricTypeSDK (Gauge NInt) = ''gauge_int''"
| "metricTypeSDK (Gauge NFloat) = ''gauge_double''"
| "metricTypeSDK (Sum NInt) = ''sum_int''"
| "metricTypeSDK (Sum NFloat) = ''sum_double''"
| "metricTypeSDK (Histogram _) = ''histogram''"
| "metricTypeSDK (ExponentialHistogram _) = ''exponential_histogram''"
| "metricTypeSDK Summary = ''summary''"
| "metricTypeSDK (DDSketch NInt) = ''ddsketch_int''"
| "metricTypeSDK (DDSketch NFloat) = ''ddsketch_double''"
| "metricTypeSDK (KLLSketch NInt) = ''kllsketch_int''"
| "metricTypeSDK (KLLSketch NFloat) = ''kllsketch_double''"
| "metricTypeSDK (CountSketch NInt) = ''countsketch_int''"
| "metricTypeSDK (CountSketch NFloat) = ''countsketch_double''"
| "metricTypeSDK (CountMinSketch NInt) = ''countminsketch_int''"
| "metricTypeSDK (CountMinSketch NFloat) = ''countminsketch_double''"
| "metricTypeSDK HLLSketch = ''hllsketch''"
| "metricTypeSDK OtherData = ''''"

fun hasSinks :: "mkind \<Rightarrow> bool" where
  "hasSinks (Histogram _) = False"
| "hasSinks (ExponentialHistogram _) = False"
| "hasSinks Summary = False"
| "hasSinks _ = True"

definition annotateMetric ::
  "('v \<Rightarrow> string) \<Rightarrow> string \<Rightarrow> u64 \<Rightarrow> sourceState \<times> 'v cells \<Rightarrow> 'v metric \<Rightarrow>
     (sourceState \<times> 'v cells) \<times> 'v metric" where
  "annotateMetric emit sk gen st m =
     (if mKind m = OtherData then (st, m)
      else let (st, dps) = annotateDataPoints (hasSinks (mKind m)) emit sk (mName m)
             (metricTypeSDK (mKind m)) gen st (mPoints m)
           in (st, m\<lparr>mPoints := dps\<rparr>))"

fun annotateMetrics ::
  "('v \<Rightarrow> string) \<Rightarrow> string \<Rightarrow> u64 \<Rightarrow> sourceState \<times> 'v cells \<Rightarrow> 'v metric list \<Rightarrow>
     (sourceState \<times> 'v cells) \<times> 'v metric list" where
  "annotateMetrics emit sk gen st [] = (st, [])"
| "annotateMetrics emit sk gen st (m # ms) =
     (let (st, m) = annotateMetric emit sk gen st m;
          (st, ms) = annotateMetrics emit sk gen st ms
      in (st, m # ms))"

type_synonym 'v scope_metrics = "'v scope \<times> 'v metric list"

fun annotateScopes ::
  "('v \<Rightarrow> string) \<Rightarrow> u64 \<Rightarrow> sourceState \<times> 'v cells \<Rightarrow> 'v scope_metrics list \<Rightarrow>
     (sourceState \<times> 'v cells) \<times> 'v scope_metrics list" where
  "annotateScopes emit gen st [] = (st, [])"
| "annotateScopes emit gen st ((sc, ms) # scs) =
     (let (st, ms) = annotateMetrics emit (scopeKey emit sc) gen st ms;
          (st, scs) = annotateScopes emit gen st scs
      in (st, (sc, ms) # scs))"

record 'v resource_metrics =
  rmResource :: "'v resource option"
  rmScopeMetrics :: "'v scope_metrics list"

section \<open>Dictionary operations\<close>

definition sweepEntries :: "u64 \<Rightarrow> sourceState \<Rightarrow> sourceState" where
  "sweepEntries cutoff s = s\<lparr>ssEntries := (\<lambda>k. case ssEntries s k of
      None \<Rightarrow> None | Some e \<Rightarrow> if eLastGen e < cutoff then None else Some e)\<rparr>"

definition sweep :: "u64 \<Rightarrow> Dictionary \<Rightarrow> Dictionary" where
  "sweep currentGen d =
     (if currentGen \<le> staleGenerations then d
      else d\<lparr>dSources := (\<lambda>k. map_option (sweepEntries (currentGen - staleGenerations)) (dSources d k))\<rparr>)"

text \<open>A nil batch is \<open>None\<close>. The source state is a pointer into the dictionary: written back at its key.\<close>

definition Annotate ::
  "('v \<Rightarrow> string) \<Rightarrow> Dictionary \<times> 'v cells \<Rightarrow> 'v resource_metrics option \<Rightarrow>
     (Dictionary \<times> 'v cells) \<times> 'v resource_metrics option" where
  "Annotate emit st rm =
     (case rm of
        None \<Rightarrow> (st, None)
      | Some rm \<Rightarrow>
          let (d, c) = st;
              gen = dGeneration d + 1;
              d = d\<lparr>dGeneration := gen\<rparr>;
              key = resourceKey emit (rmResource rm);
              (src, d) = getOrCreateSource d key;
              ((src, c), scs) = annotateScopes emit gen (src, c) (rmScopeMetrics rm);
              d = d\<lparr>dSources := (dSources d)(key \<mapsto> src)\<rparr>
          in ((sweep gen d, c), Some (rm\<lparr>rmScopeMetrics := scs\<rparr>)))"

definition applyOne :: "Assignment \<Rightarrow> Dictionary \<Rightarrow> Dictionary" where
  "applyOne asg d =
     (let src = (case dSources d (aResourceKey asg) of Some s \<Rightarrow> s | None \<Rightarrow> newSource);
          key = descriptorKeyFromParts (aScopeKey asg) (aMetricType asg) (aMetricName asg)
                  (aAttributesFingerprint asg)
      in d\<lparr>dSources := (dSources d)(aResourceKey asg \<mapsto> applyAssignment src key (aSeriesID asg))\<rparr>)"

definition Apply :: "Dictionary \<Rightarrow> Assignment list \<Rightarrow> Dictionary" where
  "Apply d assignments = fold applyOne assignments d"

definition evictEntries :: "u64 list \<Rightarrow> sourceState \<Rightarrow> sourceState" where
  "evictEntries sids s = s\<lparr>ssEntries := (\<lambda>k. map_option
      (\<lambda>e. if eId e \<in> set sids then e\<lparr>eId := 0, eRegistered := False\<rparr> else e) (ssEntries s k))\<rparr>"

definition EvictByID :: "Dictionary \<Rightarrow> u64 list \<Rightarrow> Dictionary" where
  "EvictByID d sids = (if sids = [] then d
     else d\<lparr>dSources := (\<lambda>k. map_option (evictEntries sids) (dSources d k))\<rparr>)"

text \<open>What the OTLP transform puts on the wire for a point (\<^verbatim>\<open>seriesIdentity\<close>).\<close>

definition seriesIdentity :: "'v attrs \<Rightarrow> u64 \<Rightarrow> 'v attrs \<times> u64" where
  "seriesIdentity attrs seriesID = (if seriesID = 0 then (attrs, 0) else ([], seriesID))"

section \<open>What an export round does to the dictionary\<close>

text \<open>The collector-confirmed IDs: the only part of a source that decides what goes on the wire.\<close>

definition registeredID :: "sourceState \<Rightarrow> string \<Rightarrow> u64 option" where
  "registeredID s k = (case ssEntries s k of
     Some e \<Rightarrow> if eRegistered e then Some (eId e) else None | None \<Rightarrow> None)"

lemma registeredID_newSource [simp]: "registeredID newSource = (\<lambda>_. None)"
  by (simp add: registeredID_def newSource_def fun_eq_iff)

text \<open>
  \<open>touched gen K s s'\<close>: between the source states \<open>s\<close> and \<open>s'\<close>, exactly the entries with keys in \<open>K\<close>
  were looked up in generation \<open>gen\<close>.
\<close>

definition touched :: "u64 \<Rightarrow> string set \<Rightarrow> sourceState \<Rightarrow> sourceState \<Rightarrow> bool" where
  "touched gen K s s' \<longleftrightarrow> (\<forall>k. case ssEntries s k of
      Some e \<Rightarrow> ssEntries s' k = Some (if k \<in> K then e\<lparr>eLastGen := gen\<rparr> else e)
    | None \<Rightarrow> if k \<in> K then \<exists>i. ssEntries s' k = Some \<lparr>eId = i, eRegistered = False, eLastGen = gen\<rparr>
              else ssEntries s' k = None)"

lemma touched_refl [simp, intro]: "touched gen {} s s"
  by (simp add: touched_def split: option.split)

lemma touched_trans:
  assumes "touched gen K s s'" and "touched gen L s' s''"
  shows "touched gen (K \<union> L) s s''"
  unfolding touched_def
proof
  fix k
  show "case ssEntries s k of
      Some e \<Rightarrow> ssEntries s'' k = Some (if k \<in> K \<union> L then e\<lparr>eLastGen := gen\<rparr> else e)
    | None \<Rightarrow> if k \<in> K \<union> L then \<exists>i. ssEntries s'' k = Some \<lparr>eId = i, eRegistered = False, eLastGen = gen\<rparr>
              else ssEntries s'' k = None"
    using assms(1)[unfolded touched_def, rule_format, of k] assms(2)[unfolded touched_def, rule_format, of k]
    by (cases "ssEntries s k") (auto split: if_splits)
qed

lemma touched_lookup: "touched gen {k} s (snd (lookupEntry s k gen))"
  by (auto simp: touched_def lookupEntry_def Let_def split: option.splits)

lemma touched_registeredID: "touched gen K s s' \<Longrightarrow> registeredID s' = registeredID s"
proof
  fix k
  assume "touched gen K s s'"
  from this[unfolded touched_def, rule_format, of k] show "registeredID s' k = registeredID s k"
    by (auto simp: registeredID_def split: option.splits if_splits)
qed

lemma touched_entry:
  assumes "touched gen K s s'" and "ssEntries s' k = Some e'" and "eRegistered e'"
  obtains e where "ssEntries s k = Some e" and "e' = (if k \<in> K then e\<lparr>eLastGen := gen\<rparr> else e)"
  using assms(1)[unfolded touched_def, rule_format, of k] assms(2,3)
  by (auto split: option.splits if_splits)

text \<open>The point as it leaves the dictionary, given the confirmed IDs.\<close>

definition resolvePoint :: "(string \<Rightarrow> u64 option) \<Rightarrow> string \<Rightarrow> 'v dpoint \<Rightarrow> 'v dpoint" where
  "resolvePoint reg k dp =
     (if dpSeriesID dp \<noteq> 0 then dp else case reg k of
        None \<Rightarrow> dp | Some i \<Rightarrow> dp\<lparr>dpSeriesID := i, dpAttrs := []\<rparr>)"

definition releasePointers :: "bool \<Rightarrow> 'v dpoint \<Rightarrow> 'v dpoint" where
  "releasePointers sinks dp = (if sinks
     then dp\<lparr>dpSink := None, dpClearer := if dpSeriesID dp \<noteq> 0 then None else dpClearer dp\<rparr> else dp)"

lemma releasePointers_simps [simp]:
  "dpSeriesID (releasePointers b dp) = dpSeriesID dp" "dpAttrs (releasePointers b dp) = dpAttrs dp"
  "dpEncoding (releasePointers b dp) = dpEncoding dp" "releasePointers False dp = dp"
  by (simp_all add: releasePointers_def)

lemma resolvePoint_encoding [simp]: "dpEncoding (resolvePoint reg k dp) = dpEncoding dp"
  by (simp add: resolvePoint_def split: option.split)

lemma assignSeriesID_eq:
  "assignSeriesID emit sk n t gen s dp =
     (if dpSeriesID dp \<noteq> 0 then s else snd (lookupEntry s (descriptorKey emit sk n t (dpAttrs dp)) gen),
      resolvePoint (registeredID s) (descriptorKey emit sk n t (dpAttrs dp)) dp)"
  by (auto simp: assignSeriesID_def resolvePoint_def lookupEntry_def registeredID_def Let_def
      split: option.splits)

lemma writeBack_point: "snd (writeBack c dp) = releasePointers True dp"
  by (cases dp) (auto simp: writeBack_def releasePointers_def Let_def split: option.splits)

text \<open>The keys an annotated point, metric or batch looks up.\<close>

definition pointKeys :: "('v \<Rightarrow> string) \<Rightarrow> string \<Rightarrow> string \<Rightarrow> string \<Rightarrow> 'v dpoint list \<Rightarrow> string set" where
  "pointKeys emit sk n t dps =
     {descriptorKey emit sk n t (dpAttrs dp) | dp. dp \<in> set dps \<and> dpSeriesID dp = 0}"

definition metricKeys :: "('v \<Rightarrow> string) \<Rightarrow> string \<Rightarrow> 'v metric \<Rightarrow> string set" where
  "metricKeys emit sk m = (if mKind m = OtherData then {}
     else pointKeys emit sk (mName m) (metricTypeSDK (mKind m)) (mPoints m))"

definition batchKeys :: "('v \<Rightarrow> string) \<Rightarrow> 'v scope_metrics list \<Rightarrow> string set" where
  "batchKeys emit scs = (\<Union>(sc, ms) \<in> set scs. \<Union>m \<in> set ms. metricKeys emit (scopeKey emit sc) m)"

definition resolveMetric ::
  "('v \<Rightarrow> string) \<Rightarrow> string \<Rightarrow> (string \<Rightarrow> u64 option) \<Rightarrow> 'v metric \<Rightarrow> 'v metric" where
  "resolveMetric emit sk reg m = (if mKind m = OtherData then m
     else m\<lparr>mPoints := map (\<lambda>dp. releasePointers (hasSinks (mKind m)) (resolvePoint reg
        (descriptorKey emit sk (mName m) (metricTypeSDK (mKind m)) (dpAttrs dp)) dp)) (mPoints m)\<rparr>)"

definition resolveScopes ::
  "('v \<Rightarrow> string) \<Rightarrow> (string \<Rightarrow> u64 option) \<Rightarrow> 'v scope_metrics list \<Rightarrow> 'v scope_metrics list" where
  "resolveScopes emit reg scs =
     map (\<lambda>(sc, ms). (sc, map (resolveMetric emit (scopeKey emit sc) reg) ms)) scs"

lemma annotatePoint_eq:
  "annotatePoint sinks emit sk n t gen st dp = ((s', c'), dp') \<Longrightarrow>
   touched gen (pointKeys emit sk n t [dp]) (fst st) s' \<and>
   dp' = releasePointers sinks (resolvePoint (registeredID (fst st)) (descriptorKey emit sk n t (dpAttrs dp)) dp)"
  by (auto simp: annotatePoint_def assignSeriesID_eq pointKeys_def prod_eq_iff writeBack_point touched_lookup
      split: prod.splits if_splits)

lemma pointKeys_Cons: "pointKeys emit sk n t (dp # dps) = pointKeys emit sk n t [dp] \<union> pointKeys emit sk n t dps"
  by (auto simp: pointKeys_def)

lemma annotateDataPoints_eq:
  "annotateDataPoints sinks emit sk n t gen st dps = ((s', c'), dps') \<Longrightarrow>
   touched gen (pointKeys emit sk n t dps) (fst st) s' \<and>
   dps' = map (\<lambda>dp. releasePointers sinks (resolvePoint (registeredID (fst st))
      (descriptorKey emit sk n t (dpAttrs dp)) dp)) dps"
proof (induction dps arbitrary: st s' c' dps')
  case Nil
  then show ?case by (simp add: pointKeys_def)
next
  case (Cons dp dps)
  obtain s1 c1 dp1 where 1: "annotatePoint sinks emit sk n t gen st dp = ((s1, c1), dp1)"
    by (metis prod.exhaust)
  obtain s2 c2 dps2 where 2: "annotateDataPoints sinks emit sk n t gen (s1, c1) dps = ((s2, c2), dps2)"
    by (metis prod.exhaust)
  have eq: "s' = s2" "dps' = dp1 # dps2"
    using Cons.prems 1 2 by auto
  show ?case
    unfolding eq pointKeys_Cons [of emit sk n t dp dps]
    using annotatePoint_eq [OF 1] Cons.IH [OF 2] touched_trans touched_registeredID by fastforce
qed

lemma annotateMetric_eq:
  "annotateMetric emit sk gen st m = ((s', c'), m') \<Longrightarrow>
   touched gen (metricKeys emit sk m) (fst st) s' \<and> m' = resolveMetric emit sk (registeredID (fst st)) m"
  by (auto simp: annotateMetric_def metricKeys_def resolveMetric_def split: prod.splits if_splits
      dest!: annotateDataPoints_eq)

lemma annotateMetrics_eq:
  "annotateMetrics emit sk gen st ms = ((s', c'), ms') \<Longrightarrow>
   touched gen (\<Union>m \<in> set ms. metricKeys emit sk m) (fst st) s' \<and>
   ms' = map (resolveMetric emit sk (registeredID (fst st))) ms"
proof (induction ms arbitrary: st s' c' ms')
  case Nil
  then show ?case by simp
next
  case (Cons m ms)
  obtain s1 c1 m1 where 1: "annotateMetric emit sk gen st m = ((s1, c1), m1)"
    by (metis prod.exhaust)
  obtain s2 c2 ms2 where 2: "annotateMetrics emit sk gen (s1, c1) ms = ((s2, c2), ms2)"
    by (metis prod.exhaust)
  have eq: "s' = s2" "ms' = m1 # ms2"
    using Cons.prems 1 2 by auto
  show ?case
    unfolding eq using annotateMetric_eq [OF 1] Cons.IH [OF 2] touched_trans touched_registeredID
    by fastforce
qed

lemma annotateScopes_eq:
  "annotateScopes emit gen st scs = ((s', c'), scs') \<Longrightarrow>
   touched gen (batchKeys emit scs) (fst st) s' \<and> scs' = resolveScopes emit (registeredID (fst st)) scs"
proof (induction scs arbitrary: st s' c' scs')
  case Nil
  then show ?case by (simp add: batchKeys_def resolveScopes_def)
next
  case (Cons x scs)
  obtain sc ms where x: "x = (sc, ms)" by fastforce
  obtain s1 c1 ms1 where 1: "annotateMetrics emit (scopeKey emit sc) gen st ms = ((s1, c1), ms1)"
    by (metis prod.exhaust)
  obtain s2 c2 scs2 where 2: "annotateScopes emit gen (s1, c1) scs = ((s2, c2), scs2)"
    by (metis prod.exhaust)
  have eq: "s' = s2" "scs' = (sc, ms1) # scs2"
    using Cons.prems 1 2 x by auto
  have "batchKeys emit (x # scs) = (\<Union>m \<in> set ms. metricKeys emit (scopeKey emit sc) m) \<union> batchKeys emit scs"
    by (simp add: batchKeys_def x)
  with annotateMetrics_eq [OF 1] Cons.IH [OF 2] touched_trans touched_registeredID show ?case
    unfolding eq by (fastforce simp: resolveScopes_def x)
qed

section \<open>What a descriptor key determines\<close>

definition bar :: char where
  "bar = CHR ''|''"

text \<open>A scope key whose parts do not contain the separator.\<close>

definition clean_scope_key :: "string \<Rightarrow> bool" where
  "clean_scope_key sk \<longleftrightarrow> (\<exists>n v u xs. sk = n @ bar # v @ bar # u @ bar # concat (map (\<lambda>x. x @ [bar]) xs) \<and>
     bar \<notin> set n \<and> bar \<notin> set v \<and> bar \<notin> set u \<and> (\<forall>x \<in> set xs. x \<noteq> [] \<and> bar \<notin> set x))"

definition clean_attrs :: "('v \<Rightarrow> string) \<Rightarrow> 'v attrs \<Rightarrow> bool" where
  "clean_attrs emit kvs \<longleftrightarrow> (\<forall>(k, v) \<in> set kvs. bar \<notin> set k \<and> CHR ''='' \<notin> set k \<and> bar \<notin> set (emit v))"

definition clean_scope :: "('v \<Rightarrow> string) \<Rightarrow> 'v scope \<Rightarrow> bool" where
  "clean_scope emit sc \<longleftrightarrow> bar \<notin> set (scName sc) \<and> bar \<notin> set (scVersion sc) \<and> bar \<notin> set (scSchemaURL sc) \<and>
     clean_attrs emit (scAttributes sc)"

lemma kvs_string_records:
  "kvs_string emit kvs = concat (map (\<lambda>x. x @ [bar]) (map (\<lambda>(k, v). k @ CHR ''='' # emit v) kvs))"
  by (induction kvs) (auto simp: kvs_string_def bar_def)

lemma attributesFingerprint_alt:
  "attributesFingerprint emit kvs = kvs_string emit (sort_key (\<lambda>(k, v). (k, emit v)) kvs)"
  by (simp add: attributesFingerprint_def kvs_string_def)

lemma clean_scope_key_scopeKey: "clean_scope emit sc \<Longrightarrow> clean_scope_key (scopeKey emit sc)"
  unfolding clean_scope_key_def
  by (rule exI [of _ "scName sc"], rule exI [of _ "scVersion sc"], rule exI [of _ "scSchemaURL sc"],
      rule exI [of _ "map (\<lambda>(k, v). k @ CHR ''='' # emit v) (sort_key (\<lambda>(k, v). (k, emit v)) (scAttributes sc))"])
    (auto simp: clean_scope_def clean_attrs_def scopeKey_def appendAttributes_def attributesFingerprint_alt
      kvs_string_records bar_def)

lemma descriptorKeyFromParts_inj:
  assumes "clean_scope_key sk" "clean_scope_key sk'"
    and "bar \<notin> set t" "bar \<notin> set t'" "bar \<notin> set n" "bar \<notin> set n'"
    and "descriptorKeyFromParts sk t n f = descriptorKeyFromParts sk' t' n' f'"
  shows "sk = sk' \<and> t = t' \<and> n = n' \<and> f = f'"
proof -
  obtain a b u xs where sk: "sk = a @ bar # b @ bar # u @ bar # concat (map (\<lambda>x. x @ [bar]) xs)"
    "bar \<notin> set a" "bar \<notin> set b" "bar \<notin> set u" "\<forall>x \<in> set xs. x \<noteq> [] \<and> bar \<notin> set x"
    using assms(1) unfolding clean_scope_key_def by blast
  obtain a' b' u' ys where sk': "sk' = a' @ bar # b' @ bar # u' @ bar # concat (map (\<lambda>x. x @ [bar]) ys)"
    "bar \<notin> set a'" "bar \<notin> set b'" "bar \<notin> set u'" "\<forall>x \<in> set ys. x \<noteq> [] \<and> bar \<notin> set x"
    using assms(2) unfolding clean_scope_key_def by blast
  have "concat (map (\<lambda>x. x @ [bar]) xs) @ bar # t @ bar # n @ bar # f =
      concat (map (\<lambda>x. x @ [bar]) ys) @ bar # t' @ bar # n' @ bar # f'"
    and parts: "a = a'" "b = b'" "u = u'"
    using assms(7) sk(2-4) sk'(2-4)
    by (simp_all add: descriptorKeyFromParts_def sk(1) sk'(1) bar_def [symmetric] sep_cancel)
  from sep_records_cancel [OF sk(5) sk'(5) this(1)] parts assms(3-6) show ?thesis
    by (simp add: sk(1) sk'(1) sep_cancel)
qed

lemma metricTypeSDK_clean: "bar \<notin> set (metricTypeSDK k)"
  by (cases k rule: metricTypeSDK.cases) (simp_all add: bar_def)

lemma attributesFingerprint_inj:
  assumes "clean_attrs emit kvs" "clean_attrs emit kvs'"
    and "attributesFingerprint emit kvs = attributesFingerprint emit kvs'"
  shows "mset (map (\<lambda>(k, v). (k, emit v)) kvs) = mset (map (\<lambda>(k, v). (k, emit v)) kvs')"
proof -
  let ?s = "sort_key (\<lambda>(k, v). (k, emit v))" and ?r = "map (\<lambda>(k, v). k @ CHR ''='' # emit v)"
  let ?p = "map (\<lambda>(k, v). (k, emit v))"
  have "?r (?s kvs) = ?r (?s kvs')"
    using assms by (intro sep_records_inj [of _ bar])
      (auto simp: clean_attrs_def attributesFingerprint_alt kvs_string_records bar_def)
  moreover have "?r xs = ?r ys \<Longrightarrow> clean_attrs emit xs \<Longrightarrow> clean_attrs emit ys \<Longrightarrow> ?p xs = ?p ys" for xs ys
    by (induction xs ys rule: list_induct2') (auto simp: clean_attrs_def sep_cancel)
  moreover have "clean_attrs emit (?s kvs)" "clean_attrs emit (?s kvs')"
    using assms by (auto simp: clean_attrs_def)
  ultimately have "?p (?s kvs) = ?p (?s kvs')"
    by blast
  then have "mset (?p (?s kvs)) = mset (?p (?s kvs'))"
    by simp
  then show ?thesis by simp
qed

end
