(* ===== verification/SeriesCache.thy ===== *)
theory SeriesCache
  imports GoPrelude Float64 "HOL-Library.List_Lexorder" "HOL-Library.Char_ord"
begin

text \<open>
  The collector side of the series-ID protocol: the series cache of the OTLP receiver
  (\<^verbatim>\<open>receiver/otlpreceiver/internal/metrics/series_cache.go\<close> and \<^verbatim>\<open>otlp.go\<close>), which gives new series
  an ID, remembers their attributes, and puts the attributes back on ID-only points.

  Times are nanoseconds (\<open>int\<close>); the clock reading \<^verbatim>\<open>time.Now()\<close> is an argument. Attribute values
  are the data model of \<^verbatim>\<open>pcommon.Value\<close>; its own textual form \<^verbatim>\<open>AsString\<close>, used for resource and
  scope keys, is the parameter \<open>asString\<close>, and \<^verbatim>\<open>strconv.AppendFloat(_, f, fmt, -1, 64)\<close>, the
  shortest decimal form of a float in one of the formats \<^verbatim>\<open>'f'\<close>, \<^verbatim>\<open>'e'\<close>, \<^verbatim>\<open>'g'\<close>, is the parameter
  \<open>fmtf\<close>. A \<^verbatim>\<open>pcommon.Map\<close> is its slice of entries.
\<close>

section \<open>Values and keys\<close>

datatype pvalue =
    VEmpty | VStr string | VBool bool | VInt i64 | VDouble f64 | VBytes "u8 list"
  | VSlice "pvalue list" | VMap "(string \<times> pvalue) list"

type_synonym pmap = "(string \<times> pvalue) list"

definition defaultSeriesCacheTTL :: int where
  "defaultSeriesCacheTTL = 3600000000000"

text \<open>\<^verbatim>\<open>base64.StdEncoding.EncodeToString\<close>.\<close>

definition b64char :: "nat \<Rightarrow> char" where
  "b64char n = ''ABCDEFGHIJKLMNOPQRSTUVWXYZabcdefghijklmnopqrstuvwxyz0123456789+/'' ! n"

fun base64 :: "u8 list \<Rightarrow> string" where
  "base64 [] = ''''"
| "base64 [a] = (let n = unat a * 16 in [b64char (n div 64), b64char (n mod 64), CHR ''='', CHR ''=''])"
| "base64 [a, b] = (let n = (unat a * 256 + unat b) * 4
     in [b64char (n div 4096), b64char (n div 64 mod 64), b64char (n mod 64), CHR ''=''])"
| "base64 (a # b # c # bs) = (let n = (unat a * 256 + unat b) * 256 + unat c
     in [b64char (n div 262144), b64char (n div 4096 mod 64), b64char (n div 64 mod 64), b64char (n mod 64)]
        @ base64 bs)"

fun commaSep :: "string list \<Rightarrow> string" where
  "commaSep [] = ''''"
| "commaSep [x] = x"
| "commaSep (x # xs) = x @ '','' @ commaSep xs"

text \<open>
  \<^verbatim>\<open>formatFloat64\<close>: the exponent form for very small and very large magnitudes (the two numerals are
  the patterns of \<open>1e-6\<close> and \<open>1e21\<close>), with a two-digit negative exponent trimmed to one digit.
\<close>

definition trimExponent :: "string \<Rightarrow> string" where
  "trimExponent b = (let n = length b
     in if 4 \<le> n \<and> b ! (n - 4) = CHR ''e'' \<and> b ! (n - 3) = CHR ''-'' \<and> b ! (n - 2) = CHR ''0''
        then take (n - 1) (b[n - 2 := b ! (n - 1)]) else b)"

definition formatFloat64 :: "(char \<Rightarrow> f64 \<Rightarrow> string) \<Rightarrow> f64 \<Rightarrow> string" where
  "formatFloat64 fmtf f =
     (if f64_isinf f \<or> f64_isnan f then ''json: unsupported value: '' @ fmtf (CHR ''g'') f
      else let a = f64_abs f
           in if \<not> f64_eq a 0 \<and> (f64_less a 0x3EB0C6F7A0B5ED8D \<or> \<not> f64_less a 0x444B1AE4D6E2EF50)
              then trimExponent (fmtf (CHR ''e'') f) else fmtf (CHR ''f'') f)"

text \<open>
  The value of a key in a map: the first entry, as \<^verbatim>\<open>pcommon.Map.Get\<close>. Keys are visited in sorted
  order with their multiplicity, and each looks its value up.
\<close>

function valueString :: "(char \<Rightarrow> f64 \<Rightarrow> string) \<Rightarrow> pvalue \<Rightarrow> string" where
  "valueString fmtf (VStr s) = s"
| "valueString fmtf (VBool b) = (if b then ''true'' else ''false'')"
| "valueString fmtf (VInt i) = FormatInt i"
| "valueString fmtf (VDouble f) = formatFloat64 fmtf f"
| "valueString fmtf (VBytes bs) = base64 bs"
| "valueString fmtf (VSlice vs) = ''['' @ commaSep (map (valueString fmtf) vs) @ '']''"
| "valueString fmtf (VMap m) =
     ''{'' @ commaSep (map (\<lambda>k. k @ ''='' @ (case map_of m k of
        None \<Rightarrow> '''' | Some v \<Rightarrow> valueString fmtf v)) (sort (map fst m))) @ ''}''"
| "valueString fmtf VEmpty = ''''"
  by pat_completeness auto
termination
proof (relation "measure (\<lambda>(_, v). size v)")
  fix vs :: "pvalue list" and v fmtf
  assume "v \<in> set vs"
  then show "((fmtf, v), fmtf, VSlice vs) \<in> measure (\<lambda>(_, v). size v)"
    by (induction vs) auto
next
  fix m :: pmap and k v fmtf
  assume "map_of m k = Some v"
  then have "(k, v) \<in> set m" by (rule map_of_SomeD)
  then show "((fmtf, v), fmtf, VMap m) \<in> measure (\<lambda>(_, v). size v)"
    by (induction m) auto
qed simp

definition fingerprintAttributes :: "(char \<Rightarrow> f64 \<Rightarrow> string) \<Rightarrow> pmap \<Rightarrow> string" where
  "fingerprintAttributes fmtf attrs =
     concat (map (\<lambda>k. case map_of attrs k of
        None \<Rightarrow> '''' | Some v \<Rightarrow> k @ ''='' @ valueString fmtf v @ ''|'') (sort (map fst attrs)))"

definition appendSortedAttributes :: "(pvalue \<Rightarrow> string) \<Rightarrow> string \<Rightarrow> pmap \<Rightarrow> string" where
  "appendSortedAttributes asString builder attrs =
     builder @ concat (map (\<lambda>k. case map_of attrs k of
        None \<Rightarrow> '''' | Some v \<Rightarrow> k @ ''='' @ asString v @ ''|'') (sort (map fst attrs)))"

section \<open>The batch\<close>

text \<open>Whether a number is present in a point and of which kind.\<close>

datatype numtype = TEmpty | TInt | TDouble

datatype mtype = MGauge | MSum | MHistogram | MExponentialHistogram | MSummary | MDDSketch
  | MHLLSketch | MKLLSketch | MCountSketch | MCountMinSketch | MEmpty

text \<open>
  A data point: its ID and attributes, the value type of a number point, and the types of the
  optional sum, minimum and maximum of a DDSketch point.
\<close>

record rpoint =
  rpSeriesID :: u64
  rpAttrs :: pmap
  rpValueType :: numtype
  rpSumType :: numtype
  rpMinType :: numtype
  rpMaxType :: numtype

record rmetric =
  rmName :: string
  rmType :: mtype
  rmPoints :: "rpoint list"

record rscope =
  rsName :: string
  rsVersion :: string
  rsSchemaUrl :: string
  rsAttributes :: pmap
  rsMetrics :: "rmetric list"

record rresource =
  rrSchemaUrl :: string
  rrAttributes :: pmap
  rrScopes :: "rscope list"

definition buildResourceKey :: "(pvalue \<Rightarrow> string) \<Rightarrow> rresource \<Rightarrow> string" where
  "buildResourceKey asString rm = appendSortedAttributes asString (rrSchemaUrl rm @ ''|'') (rrAttributes rm)"

definition buildScopeKey :: "(pvalue \<Rightarrow> string) \<Rightarrow> rscope \<Rightarrow> string" where
  "buildScopeKey asString sc =
     appendSortedAttributes asString (rsName sc @ ''|'' @ rsVersion sc @ ''|'' @ rsSchemaUrl sc @ ''|'')
       (rsAttributes sc)"

fun metricTypeStringForNumber :: "string \<Rightarrow> string \<Rightarrow> numtype \<Rightarrow> string" where
  "metricTypeStringForNumber intKey doubleKey TInt = intKey"
| "metricTypeStringForNumber intKey doubleKey TDouble = doubleKey"
| "metricTypeStringForNumber intKey doubleKey TEmpty = ''''"

definition metricTypeStringForDDSketch :: "rpoint \<Rightarrow> string" where
  "metricTypeStringForDDSketch dp =
     (case rpSumType dp of TInt \<Rightarrow> ''ddsketch_int'' | TDouble \<Rightarrow> ''ddsketch_double'' | TEmpty \<Rightarrow>
      (case rpMinType dp of TInt \<Rightarrow> ''ddsketch_int'' | TDouble \<Rightarrow> ''ddsketch_double'' | TEmpty \<Rightarrow>
       (case rpMaxType dp of TInt \<Rightarrow> ''ddsketch_int'' | TDouble \<Rightarrow> ''ddsketch_double'' | TEmpty \<Rightarrow> '''')))"

section \<open>State\<close>

record seriesRecord =
  srMetricName :: string
  srDataType :: mtype
  srAttrs :: pmap
  srLastSeen :: int

record seriesSource =
  scNextID :: u64
  scSeries :: "u64 \<Rightarrow> seriesRecord option"

record seriesCache =
  cTTL :: int
  cSources :: "string \<Rightarrow> seriesSource option"

record seriesAssignment =
  saResourceKey :: string
  saScopeKey :: string
  saMetricName :: string
  saMetricType :: string
  saAttributesFingerprint :: string
  saSeriesID :: u64

definition newSeriesCache :: "int \<Rightarrow> seriesCache" where
  "newSeriesCache ttl = \<lparr>cTTL = ttl, cSources = (\<lambda>_. None)\<rparr>"

definition newSeriesSource :: seriesSource where
  "newSeriesSource = \<lparr>scNextID = 1, scSeries = (\<lambda>_. None)\<rparr>"

definition getOrCreateSource :: "seriesCache \<Rightarrow> string \<Rightarrow> seriesSource \<times> seriesCache" where
  "getOrCreateSource sc key =
     (case cSources sc key of
        Some src \<Rightarrow> (src, sc)
      | None \<Rightarrow> (newSeriesSource, sc\<lparr>cSources := (cSources sc)(key \<mapsto> newSeriesSource)\<rparr>))"

section \<open>Operations on one source\<close>

definition storeSeries :: "seriesSource \<Rightarrow> u64 \<Rightarrow> string \<Rightarrow> mtype \<Rightarrow> pmap \<Rightarrow> int \<Rightarrow> seriesSource" where
  "storeSeries src i metricName dataType attrs now =
     (let src = (if scNextID src \<le> i then src\<lparr>scNextID := i + 1\<rparr> else src)
      in src\<lparr>scSeries := (scSeries src)(i \<mapsto>
           \<lparr>srMetricName = metricName, srDataType = dataType, srAttrs = attrs, srLastSeen = now\<rparr>)\<rparr>)"

definition assignSeries :: "seriesSource \<Rightarrow> string \<Rightarrow> mtype \<Rightarrow> pmap \<Rightarrow> int \<Rightarrow> u64 \<times> seriesSource" where
  "assignSeries src metricName dataType attrs now =
     (let src = (if scNextID src = 0 then src\<lparr>scNextID := 1\<rparr> else src);
          i = scNextID src;
          src = src\<lparr>scNextID := i + 1\<rparr>
      in (i, src\<lparr>scSeries := (scSeries src)(i \<mapsto>
           \<lparr>srMetricName = metricName, srDataType = dataType, srAttrs = attrs, srLastSeen = now\<rparr>)\<rparr>))"

text \<open>\<open>None\<close>: the ID is unknown or belongs to another metric; otherwise the attributes put on the point.\<close>

definition hydrateFromSeries :: "seriesSource \<Rightarrow> u64 \<Rightarrow> string \<Rightarrow> mtype \<Rightarrow> int \<Rightarrow> pmap option \<times> seriesSource" where
  "hydrateFromSeries src i metricName dataType now =
     (case scSeries src i of
        None \<Rightarrow> (None, src)
      | Some rec \<Rightarrow>
          if srMetricName rec \<noteq> metricName \<or> srDataType rec \<noteq> dataType then (None, src)
          else (Some (srAttrs rec), src\<lparr>scSeries := (scSeries src)(i \<mapsto> rec\<lparr>srLastSeen := now\<rparr>)\<rparr>))"

definition rehydrateDataPointLocked ::
  "(char \<Rightarrow> f64 \<Rightarrow> string) \<Rightarrow> string \<Rightarrow> string \<Rightarrow> string \<Rightarrow> string \<Rightarrow> mtype \<Rightarrow> int \<Rightarrow> seriesSource \<Rightarrow> rpoint \<Rightarrow>
     seriesSource \<times> rpoint \<times> seriesAssignment list" where
  "rehydrateDataPointLocked fmtf rk sk metricName metricType dataType now src dp =
     (let attrs = rpAttrs dp; seriesID = rpSeriesID dp
      in if attrs \<noteq> [] then
           (if seriesID = 0 then
              let (i, src) = assignSeries src metricName dataType attrs now
              in if i = 0 then (src, dp, [])
                 else (src, dp\<lparr>rpSeriesID := i\<rparr>,
                   [\<lparr>saResourceKey = rk, saScopeKey = sk, saMetricName = metricName, saMetricType = metricType,
                     saAttributesFingerprint = fingerprintAttributes fmtf attrs, saSeriesID = i\<rparr>])
            else (storeSeries src seriesID metricName dataType attrs now, dp, []))
         else if seriesID = 0 then (src, dp, [])
         else case hydrateFromSeries src seriesID metricName dataType now of
             (Some as, src) \<Rightarrow> (src, dp\<lparr>rpAttrs := as\<rparr>, [])
           | (None, src) \<Rightarrow> (src, dp, []))"

section \<open>The walk over a batch\<close>

text \<open>The point loop; \<open>typeOf\<close> gives the metric type string of a point.\<close>

fun rehydratePoints ::
  "(char \<Rightarrow> f64 \<Rightarrow> string) \<Rightarrow> string \<Rightarrow> string \<Rightarrow> string \<Rightarrow> (rpoint \<Rightarrow> string) \<Rightarrow> mtype \<Rightarrow> int \<Rightarrow> seriesSource \<Rightarrow> rpoint list \<Rightarrow>
     seriesSource \<times> rpoint list \<times> seriesAssignment list" where
  "rehydratePoints fmtf rk sk metricName typeOf dataType now src [] = (src, [], [])"
| "rehydratePoints fmtf rk sk metricName typeOf dataType now src (dp # dps) =
     (let (src, dp', as) = rehydrateDataPointLocked fmtf rk sk metricName (typeOf dp) dataType now src dp;
          (src, dps, bs) = rehydratePoints fmtf rk sk metricName typeOf dataType now src dps
      in (src, dp' # dps, as @ bs))"

text \<open>
  The metric type string of each point of a metric, \<open>None\<close> where the walk returns without touching
  the points: number metrics take the type of the first point, a DDSketch point its own.
\<close>

definition rehydrateTypeOf :: "mtype \<Rightarrow> rpoint list \<Rightarrow> (rpoint \<Rightarrow> string) option" where
  "rehydrateTypeOf t dps =
     (case t of
        MGauge \<Rightarrow> (if dps = [] then None
          else let s = metricTypeStringForNumber ''gauge_int'' ''gauge_double'' (rpValueType (hd dps))
               in if s = '''' then None else Some (\<lambda>_. s))
      | MSum \<Rightarrow> (if dps = [] then None
          else let s = metricTypeStringForNumber ''sum_int'' ''sum_double'' (rpValueType (hd dps))
               in if s = '''' then None else Some (\<lambda>_. s))
      | MHistogram \<Rightarrow> Some (\<lambda>_. ''histogram'')
      | MExponentialHistogram \<Rightarrow> Some (\<lambda>_. ''exponential_histogram'')
      | MSummary \<Rightarrow> Some (\<lambda>_. ''summary'')
      | MDDSketch \<Rightarrow> Some (\<lambda>dp. let s = metricTypeStringForDDSketch dp in if s = '''' then ''ddsketch'' else s)
      | MHLLSketch \<Rightarrow> Some (\<lambda>_. ''hllsketch'')
      | MKLLSketch \<Rightarrow> Some (\<lambda>_. ''kllsketch'')
      | MCountSketch \<Rightarrow> Some (\<lambda>_. ''countsketch'')
      | MCountMinSketch \<Rightarrow> Some (\<lambda>_. ''countminsketch'')
      | MEmpty \<Rightarrow> None)"

definition rehydrateMetricLocked ::
  "(char \<Rightarrow> f64 \<Rightarrow> string) \<Rightarrow> string \<Rightarrow> string \<Rightarrow> int \<Rightarrow> seriesSource \<Rightarrow> rmetric \<Rightarrow>
     seriesSource \<times> rmetric \<times> seriesAssignment list" where
  "rehydrateMetricLocked fmtf rk sk now src m =
     (case rehydrateTypeOf (rmType m) (rmPoints m) of
        None \<Rightarrow> (src, m, [])
      | Some typeOf \<Rightarrow>
          let (src, dps, as) = rehydratePoints fmtf rk sk (rmName m) typeOf (rmType m) now src (rmPoints m)
          in (src, m\<lparr>rmPoints := dps\<rparr>, as))"

fun rehydrateMetrics ::
  "(char \<Rightarrow> f64 \<Rightarrow> string) \<Rightarrow> string \<Rightarrow> string \<Rightarrow> int \<Rightarrow> seriesSource \<Rightarrow> rmetric list \<Rightarrow>
     seriesSource \<times> rmetric list \<times> seriesAssignment list" where
  "rehydrateMetrics fmtf rk sk now src [] = (src, [], [])"
| "rehydrateMetrics fmtf rk sk now src (m # ms) =
     (let (src, m, as) = rehydrateMetricLocked fmtf rk sk now src m;
          (src, ms, bs) = rehydrateMetrics fmtf rk sk now src ms
      in (src, m # ms, as @ bs))"

fun rehydrateScopes ::
  "(char \<Rightarrow> f64 \<Rightarrow> string) \<Rightarrow> (pvalue \<Rightarrow> string) \<Rightarrow> string \<Rightarrow> int \<Rightarrow> seriesSource \<Rightarrow> rscope list \<Rightarrow>
     seriesSource \<times> rscope list \<times> seriesAssignment list" where
  "rehydrateScopes fmtf asString rk now src [] = (src, [], [])"
| "rehydrateScopes fmtf asString rk now src (sc # scs) =
     (let (src, ms, as) = rehydrateMetrics fmtf rk (buildScopeKey asString sc) now src (rsMetrics sc);
          (src, scs, bs) = rehydrateScopes fmtf asString rk now src scs
      in (src, sc\<lparr>rsMetrics := ms\<rparr> # scs, as @ bs))"

fun rehydrateResources ::
  "(char \<Rightarrow> f64 \<Rightarrow> string) \<Rightarrow> (pvalue \<Rightarrow> string) \<Rightarrow> int \<Rightarrow> seriesCache \<Rightarrow> rresource list \<Rightarrow>
     seriesCache \<times> rresource list \<times> seriesAssignment list" where
  "rehydrateResources fmtf asString now sc [] = (sc, [], [])"
| "rehydrateResources fmtf asString now sc (rm # rms) =
     (let rk = buildResourceKey asString rm;
          (src, sc) = getOrCreateSource sc rk;
          (src, scs, as) = rehydrateScopes fmtf asString rk now src (rrScopes rm);
          sc = sc\<lparr>cSources := (cSources sc)(rk \<mapsto> src)\<rparr>;
          (sc, rms, bs) = rehydrateResources fmtf asString now sc rms
      in (sc, rm\<lparr>rrScopes := scs\<rparr> # rms, as @ bs))"

section \<open>Eviction\<close>

definition evictSource :: "int \<Rightarrow> seriesSource \<Rightarrow> seriesSource" where
  "evictSource cutoff src = src\<lparr>scSeries := (\<lambda>i. case scSeries src i of
      None \<Rightarrow> None | Some rec \<Rightarrow> if srLastSeen rec < cutoff then None else Some rec)\<rparr>"

definition evictLocked :: "int \<Rightarrow> seriesCache \<Rightarrow> seriesCache" where
  "evictLocked now sc =
     (if cTTL sc \<le> 0 then sc
      else let cutoff = now - cTTL sc
           in sc\<lparr>cSources := (\<lambda>k. case cSources sc k of
                None \<Rightarrow> None
              | Some src \<Rightarrow> let src = evictSource cutoff src
                            in if \<forall>i. scSeries src i = None then None else Some src)\<rparr>)"

definition rehydrate ::
  "(char \<Rightarrow> f64 \<Rightarrow> string) \<Rightarrow> (pvalue \<Rightarrow> string) \<Rightarrow> int \<Rightarrow> seriesCache \<Rightarrow> rresource list \<Rightarrow>
     seriesCache \<times> rresource list \<times> seriesAssignment list" where
  "rehydrate fmtf asString now sc md =
     (let (sc, md, as) = rehydrateResources fmtf asString now sc md
      in (evictLocked now sc, md, as))"

section \<open>The contract of a series source\<close>

text \<open>
  What the walk relies on when it registers and resolves series: registering gives an ID never
  known before and remembers the metric and the attributes under it; resolving returns exactly the
  remembered attributes when the metric agrees, and changes no more than the time of last use.
  \<open>known\<close> and \<open>seen\<close> are the observations, \<open>room\<close> the number of IDs left.
\<close>

locale series_registry =
  fixes wf :: "'s \<Rightarrow> bool"
    and room :: "'s \<Rightarrow> nat"
    and known :: "'s \<Rightarrow> 'i \<Rightarrow> ('m \<times> 'a) option"
    and seen :: "'s \<Rightarrow> 'i \<Rightarrow> int option"
    and noID :: 'i
    and assign :: "'s \<Rightarrow> 'm \<Rightarrow> 'a \<Rightarrow> int \<Rightarrow> 'i \<times> 's"
    and hydrate :: "'s \<Rightarrow> 'i \<Rightarrow> 'm \<Rightarrow> int \<Rightarrow> 'a option \<times> 's"
  assumes assign_law: "wf s \<Longrightarrow> 0 < room s \<Longrightarrow> assign s m a now = (i, s') \<Longrightarrow>
      wf s' \<and> room s \<le> room s' + 1 \<and> i \<noteq> noID \<and> known s i = None \<and>
      known s' = (known s)(i \<mapsto> (m, a)) \<and> seen s' = (seen s)(i \<mapsto> now)"
    and hydrate_hit: "wf s \<Longrightarrow> known s i = Some (m, a) \<Longrightarrow> hydrate s i m now = (r, s') \<Longrightarrow>
      r = Some a \<and> wf s' \<and> room s' = room s \<and> known s' = known s \<and> seen s' = (seen s)(i \<mapsto> now)"
    and hydrate_miss: "\<nexists>a. known s i = Some (m, a) \<Longrightarrow> hydrate s i m now = (r, s') \<Longrightarrow> r = None \<and> s' = s"
    and seen_known: "known s i = None \<longleftrightarrow> seen s i = None"
begin

text \<open>Nothing known is forgotten or changed, and what was used is marked with the current time.\<close>

definition grows :: "int \<Rightarrow> 's \<Rightarrow> 's \<Rightarrow> bool" where
  "grows now s s' \<longleftrightarrow> known s \<subseteq>\<^sub>m known s' \<and>
     (\<forall>i. seen s' i = seen s i \<or> seen s' i = Some now)"

lemma grows_refl [simp, intro]: "grows now s s"
  by (simp add: grows_def)

lemma grows_trans: "grows now s s' \<Longrightarrow> grows now s' s'' \<Longrightarrow> grows now s s''"
  unfolding grows_def by (metis map_le_trans)

lemma grows_known: "grows now s s' \<Longrightarrow> known s i = Some d \<Longrightarrow> known s' i = Some d"
  unfolding grows_def map_le_def by (metis domI)

lemma grows_seen: "grows now s s' \<Longrightarrow> seen s i = Some now \<Longrightarrow> seen s' i = Some now"
  unfolding grows_def by metis

lemma assign_grows:
  "wf s \<Longrightarrow> 0 < room s \<Longrightarrow> assign s m a now = (i, s') \<Longrightarrow> grows now s s'"
  using assign_law [of s m a now i s'] by (auto simp: grows_def map_le_def)

lemma hydrate_grows:
  "wf s \<Longrightarrow> hydrate s i m now = (r, s') \<Longrightarrow> grows now s s' \<and> wf s' \<and> room s' = room s"
  using hydrate_hit [of s i m _ now r s'] hydrate_miss [of s i m now r s']
  by (cases "\<exists>a. known s i = Some (m, a)") (auto simp: grows_def)

text \<open>What an ID was assigned for is what it resolves to, whatever happened in between.\<close>

lemma assign_hydrate:
  assumes "wf s" "0 < room s" "assign s m a now = (i, s')" "grows now' s' t" "wf t"
  shows "fst (hydrate t i m now') = Some a"
proof -
  have "known s' i = Some (m, a)"
    using assign_law [OF assms(1-3)] by simp
  with assms(4) have "known t i = Some (m, a)"
    by (rule grows_known)
  with hydrate_hit [OF assms(5)] show ?thesis
    by (metis prod.collapse)
qed

end

definition wf_source :: "seriesSource \<Rightarrow> bool" where
  "wf_source s \<longleftrightarrow> scNextID s \<noteq> 0 \<and> (\<forall>i. scSeries s i \<noteq> None \<longrightarrow> i \<noteq> 0 \<and> i < scNextID s)"

definition idsLeft :: "seriesSource \<Rightarrow> nat" where
  "idsLeft s = 2 ^ 64 - 1 - unat (scNextID s)"

definition knownSeries :: "seriesSource \<Rightarrow> u64 \<Rightarrow> ((string \<times> mtype) \<times> pmap) option" where
  "knownSeries s i = map_option (\<lambda>r. ((srMetricName r, srDataType r), srAttrs r)) (scSeries s i)"

definition seenSeries :: "seriesSource \<Rightarrow> u64 \<Rightarrow> int option" where
  "seenSeries s i = map_option srLastSeen (scSeries s i)"

lemma wf_newSeriesSource [simp]: "wf_source newSeriesSource"
  by (simp add: wf_source_def newSeriesSource_def)

lemma u64_succ:
  fixes n :: u64
  assumes "unat n < 2 ^ 64 - 1"
  shows "unat (n + 1) = unat n + 1" and "n < n + 1" and "n + 1 \<noteq> 0"
proof -
  show *: "unat (n + 1) = unat n + 1"
    using assms by (subst unat_add_lem [THEN iffD1]) simp_all
  show "n < n + 1" using * by (simp add: word_less_nat_alt)
  show "n + 1 \<noteq> 0" using * by (metis Suc_eq_plus1 nat.simps(3) unat_0)
qed

lemma assignSeries_law:
  assumes "wf_source s" "0 < idsLeft s" "assignSeries s n t a now = (i, s')"
  shows "wf_source s' \<and> idsLeft s \<le> idsLeft s' + 1 \<and> i \<noteq> 0 \<and> knownSeries s i = None \<and>
    knownSeries s' = (knownSeries s)(i \<mapsto> ((n, t), a)) \<and> seenSeries s' = (seenSeries s)(i \<mapsto> now)"
proof -
  have n0: "scNextID s \<noteq> 0" and below: "scSeries s j \<noteq> None \<Longrightarrow> j \<noteq> 0 \<and> j < scNextID s" for j
    using assms(1) unfolding wf_source_def by blast+
  have room: "unat (scNextID s) < 2 ^ 64 - 1"
    using assms(2) by (simp add: idsLeft_def)
  have i: "i = scNextID s" and s': "s' = s\<lparr>scNextID := scNextID s + 1,
      scSeries := (scSeries s)(i \<mapsto> \<lparr>srMetricName = n, srDataType = t, srAttrs = a, srLastSeen = now\<rparr>)\<rparr>"
    using assms(3) n0 by (auto simp: assignSeries_def Let_def)
  have fresh: "scSeries s i = None"
    using below [of i] i by fastforce
  have "wf_source s'"
    using n0 below u64_succ(2,3) [OF room] by (auto simp: wf_source_def s' i intro: less_trans)
  moreover have "idsLeft s \<le> idsLeft s' + 1"
    using u64_succ(1) [OF room] by (simp add: idsLeft_def s')
  ultimately show ?thesis
    using n0 i fresh by (auto simp: knownSeries_def seenSeries_def s' fun_eq_iff)
qed

lemma hydrateFromSeries_hit:
  assumes "wf_source s" "knownSeries s i = Some ((n, t), a)" "hydrateFromSeries s i n t now = (r, s')"
  shows "r = Some a \<and> wf_source s' \<and> idsLeft s' = idsLeft s \<and> knownSeries s' = knownSeries s \<and>
    seenSeries s' = (seenSeries s)(i \<mapsto> now)"
proof -
  from assms(2) obtain x where x: "scSeries s i = Some x" "n = srMetricName x" "t = srDataType x" "a = srAttrs x"
    by (auto simp: knownSeries_def)
  with assms(3) have "r = Some a" and s': "s' = s\<lparr>scSeries := (scSeries s)(i \<mapsto> x\<lparr>srLastSeen := now\<rparr>)\<rparr>"
    by (auto simp: hydrateFromSeries_def)
  moreover have "\<forall>j. scSeries s' j \<noteq> None \<longrightarrow> scSeries s j \<noteq> None"
    using x(1) by (simp add: s')
  then have "wf_source s'"
    using assms(1) by (simp add: wf_source_def s')
  ultimately show ?thesis
    using x by (auto simp: knownSeries_def seenSeries_def idsLeft_def fun_eq_iff)
qed

lemma hydrateFromSeries_miss:
  assumes "\<nexists>a. knownSeries s i = Some ((n, t), a)" "hydrateFromSeries s i n t now = (r, s')"
  shows "r = None \<and> s' = s"
  using assms by (auto simp: hydrateFromSeries_def knownSeries_def split: option.splits if_splits)

interpretation reg: series_registry wf_source idsLeft knownSeries seenSeries 0
  "\<lambda>s (n, t) a now. assignSeries s n t a now" "\<lambda>s i (n, t) now. hydrateFromSeries s i n t now"
proof
  show "wf_source s \<Longrightarrow> 0 < idsLeft s \<Longrightarrow> (case m of (n, t) \<Rightarrow> assignSeries s n t) a now = (i, s') \<Longrightarrow>
      wf_source s' \<and> idsLeft s \<le> idsLeft s' + 1 \<and> i \<noteq> 0 \<and> knownSeries s i = None \<and>
      knownSeries s' = (knownSeries s)(i \<mapsto> (m, a)) \<and> seenSeries s' = (seenSeries s)(i \<mapsto> now)" for s m a now i s'
    using assignSeries_law [of s "fst m" "snd m" a now i s'] by (simp add: case_prod_beta)
  show "wf_source s \<Longrightarrow> knownSeries s i = Some (m, a) \<Longrightarrow>
      (case m of (n, t) \<Rightarrow> hydrateFromSeries s i n t) now = (r, s') \<Longrightarrow>
      r = Some a \<and> wf_source s' \<and> idsLeft s' = idsLeft s \<and> knownSeries s' = knownSeries s \<and>
      seenSeries s' = (seenSeries s)(i \<mapsto> now)" for s i m a now r s'
    using hydrateFromSeries_hit [of s i "fst m" "snd m" a now r s'] by (simp add: case_prod_beta)
  show "\<nexists>a. knownSeries s i = Some (m, a) \<Longrightarrow> (case m of (n, t) \<Rightarrow> hydrateFromSeries s i n t) now = (r, s') \<Longrightarrow>
      r = None \<and> s' = s" for s i m now r s'
    using hydrateFromSeries_miss [of s i "fst m" "snd m" now r s'] by (simp add: case_prod_beta)
  show "knownSeries s i = None \<longleftrightarrow> seenSeries s i = None" for s i
    by (simp add: knownSeries_def seenSeries_def)
qed

section \<open>What a batch does to a source\<close>

text \<open>The metric type strings the walk can report for a metric.\<close>

fun typeStrings :: "mtype \<Rightarrow> string set" where
  "typeStrings MGauge = {''gauge_int'', ''gauge_double''}"
| "typeStrings MSum = {''sum_int'', ''sum_double''}"
| "typeStrings MHistogram = {''histogram''}"
| "typeStrings MExponentialHistogram = {''exponential_histogram''}"
| "typeStrings MSummary = {''summary''}"
| "typeStrings MDDSketch = {''ddsketch'', ''ddsketch_int'', ''ddsketch_double''}"
| "typeStrings MHLLSketch = {''hllsketch''}"
| "typeStrings MKLLSketch = {''kllsketch''}"
| "typeStrings MCountSketch = {''countsketch''}"
| "typeStrings MCountMinSketch = {''countminsketch''}"
| "typeStrings MEmpty = {}"

lemma metricTypeStringForNumber_cases:
  "s = metricTypeStringForNumber i d v \<Longrightarrow> s \<noteq> '''' \<Longrightarrow> s = i \<or> s = d"
  by (cases v) simp_all

lemma rehydrateTypeOf_strings: "rehydrateTypeOf t dps = Some f \<Longrightarrow> f dp \<in> typeStrings t"
  using metricTypeStringForNumber_cases
    [of _ "''gauge_int''" "''gauge_double''" "rpValueType (hd dps)", OF refl]
    metricTypeStringForNumber_cases [of _ "''sum_int''" "''sum_double''" "rpValueType (hd dps)", OF refl]
  by (cases t) (auto simp: rehydrateTypeOf_def metricTypeStringForDDSketch_def Let_def
      split: if_splits numtype.splits)

text \<open>Points as the SDK sends them: an ID or attributes, never both.\<close>

definition wirePoint :: "rpoint \<Rightarrow> bool" where
  "wirePoint dp \<longleftrightarrow> rpAttrs dp = [] \<or> rpSeriesID dp = 0"

text \<open>An assignment reported to the client: the ID is known for the metric, with attributes of that fingerprint.\<close>

definition asgOK :: "(char \<Rightarrow> f64 \<Rightarrow> string) \<Rightarrow> string \<Rightarrow> (string \<times> string) set \<Rightarrow> int \<Rightarrow> seriesSource \<Rightarrow> seriesAssignment \<Rightarrow> bool" where
  "asgOK fmtf rk SK now s a \<longleftrightarrow> saSeriesID a \<noteq> 0 \<and> saResourceKey a = rk \<and> (saScopeKey a, saMetricName a) \<in> SK \<and>
     seenSeries s (saSeriesID a) = Some now \<and>
     (\<exists>t as. knownSeries s (saSeriesID a) = Some ((saMetricName a, t), as) \<and> saMetricType a \<in> typeStrings t \<and>
       saAttributesFingerprint a = fingerprintAttributes fmtf as)"

definition pointOutcome :: "int \<Rightarrow> seriesSource \<Rightarrow> seriesSource \<Rightarrow> string \<times> mtype \<Rightarrow> rpoint \<Rightarrow> rpoint \<Rightarrow> bool" where
  "pointOutcome now s s' m dp dp' \<longleftrightarrow>
     dp' = dp\<lparr>rpSeriesID := rpSeriesID dp', rpAttrs := rpAttrs dp'\<rparr> \<and>
     (rpSeriesID dp = 0 \<longrightarrow> rpAttrs dp' = rpAttrs dp) \<and>
     (\<forall>as. rpSeriesID dp \<noteq> 0 \<and> knownSeries s (rpSeriesID dp) = Some (m, as) \<longrightarrow>
        rpAttrs dp' = as \<and> seenSeries s' (rpSeriesID dp) = Some now)"

definition walkOK ::
  "(char \<Rightarrow> f64 \<Rightarrow> string) \<Rightarrow> string \<Rightarrow> (string \<times> string) set \<Rightarrow> int \<Rightarrow> nat \<Rightarrow> seriesSource \<Rightarrow> seriesSource \<Rightarrow> seriesAssignment list \<Rightarrow> bool" where
  "walkOK fmtf rk SK now n s s' as \<longleftrightarrow> wf_source s' \<and> idsLeft s \<le> idsLeft s' + n \<and> reg.grows now s s' \<and>
     (\<forall>a \<in> set as. asgOK fmtf rk SK now s' a)"

lemma asgOK_grows: "asgOK fmtf rk SK now s a \<Longrightarrow> reg.grows now s s' \<Longrightarrow> SK \<subseteq> SK' \<Longrightarrow> asgOK fmtf rk SK' now s' a"
  unfolding asgOK_def using reg.grows_known reg.grows_seen by blast

lemma walkOK_trans:
  "walkOK fmtf rk SK now m s s' as \<Longrightarrow> walkOK fmtf rk SK' now n s' s'' bs \<Longrightarrow>
   walkOK fmtf rk (SK \<union> SK') now (m + n) s s'' (as @ bs)"
  unfolding walkOK_def by (auto intro: reg.grows_trans asgOK_grows)

lemma walkOK_refl: "wf_source s \<Longrightarrow> walkOK fmtf rk SK now n s s []"
  by (simp add: walkOK_def)

lemma pointOutcome_mono:
  "pointOutcome now s1 s2 m dp dp' \<Longrightarrow> reg.grows now s s1 \<Longrightarrow> reg.grows now s2 s3 \<Longrightarrow> pointOutcome now s s3 m dp dp'"
  unfolding pointOutcome_def using reg.grows_known reg.grows_seen by blast

lemma rehydrateDataPoint_ok:
  assumes "rehydrateDataPointLocked fmtf rk sk n ty t now s dp = (s', dp', as)"
    and "wf_source s" "1 \<le> idsLeft s" "wirePoint dp" "ty \<in> typeStrings t"
  shows "walkOK fmtf rk {(sk, n)} now 1 s s' as \<and> pointOutcome now s s' (n, t) dp dp'"
proof (cases "rpAttrs dp = []")
  case False
  obtain i s1 where a: "assignSeries s n t (rpAttrs dp) now = (i, s1)" by fastforce
  have law: "wf_source s1 \<and> idsLeft s \<le> idsLeft s1 + 1 \<and> i \<noteq> 0 \<and> knownSeries s i = None \<and>
    knownSeries s1 = (knownSeries s)(i \<mapsto> ((n, t), rpAttrs dp)) \<and> seenSeries s1 = (seenSeries s)(i \<mapsto> now)"
    using assms(2,3) a by (intro assignSeries_law) auto
  have "reg.grows now s s1"
    using reg.assign_grows [of s "(n, t)" "rpAttrs dp" now i s1] assms(2,3) a by simp
  moreover have "s' = s1" "dp' = dp\<lparr>rpSeriesID := i\<rparr>" "rpSeriesID dp = 0"
    "as = [\<lparr>saResourceKey = rk, saScopeKey = sk, saMetricName = n, saMetricType = ty,
       saAttributesFingerprint = fingerprintAttributes fmtf (rpAttrs dp), saSeriesID = i\<rparr>]"
    using law assms(1,4) a False by (auto simp: rehydrateDataPointLocked_def wirePoint_def)
  ultimately show ?thesis
    using law assms(5) by (simp add: walkOK_def asgOK_def pointOutcome_def)
next
  case True
  obtain r s1 where h: "hydrateFromSeries s (rpSeriesID dp) n t now = (r, s1)" by fastforce
  have g: "reg.grows now s s1 \<and> wf_source s1 \<and> idsLeft s1 = idsLeft s"
    using reg.hydrate_grows [of s "rpSeriesID dp" "(n, t)" now r s1] assms(2) h by simp
  have hit: "knownSeries s (rpSeriesID dp) = Some ((n, t), x) \<Longrightarrow> r = Some x \<and> seenSeries s1 (rpSeriesID dp) = Some now" for x
    using hydrateFromSeries_hit [OF assms(2) _ h] by auto
  show ?thesis
    using assms(1,2) True g hit h
    by (auto simp: rehydrateDataPointLocked_def walkOK_def pointOutcome_def Let_def
        split: if_splits option.splits)
qed

lemma rehydratePoints_ok:
  "rehydratePoints fmtf rk sk n typeOf t now s dps = (s', dps', as) \<Longrightarrow> wf_source s \<Longrightarrow> length dps \<le> idsLeft s \<Longrightarrow>
   \<forall>dp \<in> set dps. wirePoint dp \<Longrightarrow> \<forall>dp. typeOf dp \<in> typeStrings t \<Longrightarrow>
   walkOK fmtf rk {(sk, n)} now (length dps) s s' as \<and> list_all2 (pointOutcome now s s' (n, t)) dps dps'"
proof (induction dps arbitrary: s s' dps' as)
  case Nil
  then show ?case by (simp add: walkOK_refl)
next
  case (Cons dp dps)
  obtain s1 dp1 as1 where 1: "rehydrateDataPointLocked fmtf rk sk n (typeOf dp) t now s dp = (s1, dp1, as1)"
    by (metis prod.exhaust)
  obtain s2 dps2 as2 where 2: "rehydratePoints fmtf rk sk n typeOf t now s1 dps = (s2, dps2, as2)"
    by (metis prod.exhaust)
  have eq: "s' = s2" "dps' = dp1 # dps2" "as = as1 @ as2"
    using Cons.prems(1) 1 2 by auto
  have ok1: "walkOK fmtf rk {(sk, n)} now 1 s s1 as1" "pointOutcome now s s1 (n, t) dp dp1"
    using rehydrateDataPoint_ok [OF 1] Cons.prems by auto
  then have w1: "wf_source s1" "idsLeft s \<le> idsLeft s1 + 1" and g1: "reg.grows now s s1"
    by (auto simp: walkOK_def)
  have ok2: "walkOK fmtf rk {(sk, n)} now (length dps) s1 s2 as2" "list_all2 (pointOutcome now s1 s2 (n, t)) dps dps2"
    using Cons.IH [OF 2] Cons.prems w1 by auto
  then have g2: "reg.grows now s1 s2" by (simp add: walkOK_def)
  show ?case
    using walkOK_trans [OF ok1(1) ok2(1)] pointOutcome_mono [OF ok1(2) reg.grows_refl g2]
      list_all2_mono [OF ok2(2)] pointOutcome_mono [OF _ g1 reg.grows_refl]
    by (simp add: eq)
qed

definition wireMetric :: "rmetric \<Rightarrow> bool" where
  "wireMetric m \<longleftrightarrow> rmType m \<noteq> MEmpty \<and> (\<forall>dp \<in> set (rmPoints m). wirePoint dp \<and>
     (rmType m \<in> {MGauge, MSum} \<longrightarrow> rpValueType dp \<noteq> TEmpty))"

definition metricOutcome :: "int \<Rightarrow> seriesSource \<Rightarrow> seriesSource \<Rightarrow> rmetric \<Rightarrow> rmetric \<Rightarrow> bool" where
  "metricOutcome now s s' m m' \<longleftrightarrow> m' = m\<lparr>rmPoints := rmPoints m'\<rparr> \<and>
     list_all2 (pointOutcome now s s' (rmName m, rmType m)) (rmPoints m) (rmPoints m')"

definition scopeOutcome :: "int \<Rightarrow> seriesSource \<Rightarrow> seriesSource \<Rightarrow> rscope \<Rightarrow> rscope \<Rightarrow> bool" where
  "scopeOutcome now s s' sc sc' \<longleftrightarrow> sc' = sc\<lparr>rsMetrics := rsMetrics sc'\<rparr> \<and>
     list_all2 (metricOutcome now s s') (rsMetrics sc) (rsMetrics sc')"

definition metricsCount :: "rmetric list \<Rightarrow> nat" where
  "metricsCount ms = sum_list (map (\<lambda>m. length (rmPoints m)) ms)"

definition scopesCount :: "rscope list \<Rightarrow> nat" where
  "scopesCount scs = sum_list (map (\<lambda>sc. metricsCount (rsMetrics sc)) scs)"

lemma rehydrateTypeOf_None:
  "wireMetric m \<Longrightarrow> rehydrateTypeOf (rmType m) (rmPoints m) = None \<Longrightarrow> rmPoints m = []"
  by (cases "rmType m"; cases "rmPoints m"; cases "rpValueType (hd (rmPoints m))")
    (auto simp: wireMetric_def rehydrateTypeOf_def Let_def split: if_splits)

lemma metricOutcome_mono:
  assumes "metricOutcome now s1 s2 m m'" "reg.grows now s s1" "reg.grows now s2 s3"
  shows "metricOutcome now s s3 m m'"
  using assms unfolding metricOutcome_def
  by (blast intro: list_all2_mono pointOutcome_mono)

lemma scopeOutcome_mono:
  assumes "scopeOutcome now s1 s2 sc sc'" "reg.grows now s s1" "reg.grows now s2 s3"
  shows "scopeOutcome now s s3 sc sc'"
  using assms unfolding scopeOutcome_def
  by (blast intro: list_all2_mono metricOutcome_mono)

lemma rehydrateMetric_ok:
  assumes "rehydrateMetricLocked fmtf rk sk now s m = (s', m', as)"
    and "wf_source s" "length (rmPoints m) \<le> idsLeft s" "wireMetric m"
  shows "walkOK fmtf rk {(sk, rmName m)} now (length (rmPoints m)) s s' as \<and> metricOutcome now s s' m m'"
proof (cases "rehydrateTypeOf (rmType m) (rmPoints m)")
  case None
  with rehydrateTypeOf_None [OF assms(4)] assms(1,2) show ?thesis
    by (auto simp: rehydrateMetricLocked_def metricOutcome_def walkOK_refl)
next
  case (Some f)
  obtain s1 dps as1 where 1: "rehydratePoints fmtf rk sk (rmName m) f (rmType m) now s (rmPoints m) = (s1, dps, as1)"
    by (metis prod.exhaust)
  have eq: "s' = s1" "m' = m\<lparr>rmPoints := dps\<rparr>" "as = as1"
    using assms(1) Some 1 by (auto simp: rehydrateMetricLocked_def)
  show ?thesis
    using rehydratePoints_ok [OF 1 assms(2,3)] rehydrateTypeOf_strings [OF Some] assms(4)
    by (auto simp: eq metricOutcome_def wireMetric_def)
qed

definition scopeMetricNames :: "(pvalue \<Rightarrow> string) \<Rightarrow> rscope list \<Rightarrow> (string \<times> string) set" where
  "scopeMetricNames asString scs =
     (\<Union>sc \<in> set scs. (\<lambda>m. (buildScopeKey asString sc, rmName m)) ` set (rsMetrics sc))"

lemma rehydrateMetrics_ok:
  "rehydrateMetrics fmtf rk sk now s ms = (s', ms', as) \<Longrightarrow> wf_source s \<Longrightarrow> metricsCount ms \<le> idsLeft s \<Longrightarrow>
   \<forall>m \<in> set ms. wireMetric m \<Longrightarrow>
   walkOK fmtf rk ((\<lambda>m. (sk, rmName m)) ` set ms) now (metricsCount ms) s s' as \<and> list_all2 (metricOutcome now s s') ms ms'"
proof (induction ms arbitrary: s s' ms' as)
  case Nil
  then show ?case by (simp add: walkOK_refl)
next
  case (Cons m ms)
  obtain s1 m1 as1 where 1: "rehydrateMetricLocked fmtf rk sk now s m = (s1, m1, as1)"
    by (metis prod.exhaust)
  obtain s2 ms2 as2 where 2: "rehydrateMetrics fmtf rk sk now s1 ms = (s2, ms2, as2)"
    by (metis prod.exhaust)
  have eq: "s' = s2" "ms' = m1 # ms2" "as = as1 @ as2"
    using Cons.prems(1) 1 2 by auto
  have ok1: "walkOK fmtf rk {(sk, rmName m)} now (length (rmPoints m)) s s1 as1" "metricOutcome now s s1 m m1"
    using rehydrateMetric_ok [OF 1] Cons.prems by (auto simp: metricsCount_def)
  then have w1: "wf_source s1" "idsLeft s \<le> idsLeft s1 + length (rmPoints m)" and g1: "reg.grows now s s1"
    by (auto simp: walkOK_def)
  have ok2: "walkOK fmtf rk ((\<lambda>m. (sk, rmName m)) ` set ms) now (metricsCount ms) s1 s2 as2" "list_all2 (metricOutcome now s1 s2) ms ms2"
    using Cons.IH [OF 2] Cons.prems w1 by (auto simp: metricsCount_def)
  then have g2: "reg.grows now s1 s2" by (simp add: walkOK_def)
  show ?case
    using walkOK_trans [OF ok1(1) ok2(1)] metricOutcome_mono [OF ok1(2) reg.grows_refl g2]
      list_all2_mono [OF ok2(2)] metricOutcome_mono [OF _ g1 reg.grows_refl]
    by (simp add: eq metricsCount_def)
qed

lemma rehydrateScopes_ok:
  "rehydrateScopes fmtf asString rk now s scs = (s', scs', as) \<Longrightarrow> wf_source s \<Longrightarrow> scopesCount scs \<le> idsLeft s \<Longrightarrow>
   \<forall>sc \<in> set scs. \<forall>m \<in> set (rsMetrics sc). wireMetric m \<Longrightarrow>
   walkOK fmtf rk (scopeMetricNames asString scs) now (scopesCount scs) s s' as \<and>
   list_all2 (scopeOutcome now s s') scs scs'"
proof (induction scs arbitrary: s s' scs' as)
  case Nil
  then show ?case by (simp add: walkOK_refl)
next
  case (Cons sc scs)
  obtain s1 ms1 as1 where
    1: "rehydrateMetrics fmtf rk (buildScopeKey asString sc) now s (rsMetrics sc) = (s1, ms1, as1)"
    by (metis prod.exhaust)
  obtain s2 scs2 as2 where 2: "rehydrateScopes fmtf asString rk now s1 scs = (s2, scs2, as2)"
    by (metis prod.exhaust)
  have eq: "s' = s2" "scs' = sc\<lparr>rsMetrics := ms1\<rparr> # scs2" "as = as1 @ as2"
    using Cons.prems(1) 1 2 by auto
  have ok1: "walkOK fmtf rk ((\<lambda>m. (buildScopeKey asString sc, rmName m)) ` set (rsMetrics sc)) now (metricsCount (rsMetrics sc)) s s1 as1"
    "scopeOutcome now s s1 sc (sc\<lparr>rsMetrics := ms1\<rparr>)"
    using rehydrateMetrics_ok [OF 1] Cons.prems by (auto simp: scopesCount_def scopeOutcome_def)
  then have w1: "wf_source s1" "idsLeft s \<le> idsLeft s1 + metricsCount (rsMetrics sc)" and g1: "reg.grows now s s1"
    by (auto simp: walkOK_def)
  have ok2: "walkOK fmtf rk (scopeMetricNames asString scs) now (scopesCount scs) s1 s2 as2"
    "list_all2 (scopeOutcome now s1 s2) scs scs2"
    using Cons.IH [OF 2] Cons.prems w1 by (auto simp: scopesCount_def)
  then have g2: "reg.grows now s1 s2" by (simp add: walkOK_def)
  show ?case
    using walkOK_trans [OF ok1(1) ok2(1)] scopeOutcome_mono [OF ok1(2) reg.grows_refl g2]
      list_all2_mono [OF ok2(2)] scopeOutcome_mono [OF _ g1 reg.grows_refl]
    by (simp add: eq scopesCount_def scopeMetricNames_def)
qed

end
