(* ===== verification/SeriesProtocol.thy ===== *)
theory SeriesProtocol
  imports SeriesDict SeriesCache
begin

text \<open>
  The series-ID protocol end to end: the exporter's \<^verbatim>\<open>Export\<close> (annotate, transform, upload, apply the
  response), the receiver's \<^verbatim>\<open>Export\<close> (rehydrate, answer, consume), and the sessions they form.

  The transform is modelled as far as identity goes: which metrics survive it, and what ID,
  attributes and value type each point carries. Attribute values are converted by the generated
  \<^verbatim>\<open>AttrIter\<close>, the parameter \<open>conv\<close>. \<open>OtherData\<close> is a metric of no aggregation the transform knows.
\<close>

section \<open>The OTLP transform\<close>

datatype transErr = UnknownAggregation | UnknownTemporality | UnknownEncoding

fun wireType :: "mkind \<Rightarrow> mtype" where
  "wireType (Gauge _) = MGauge"
| "wireType (Sum _) = MSum"
| "wireType (Histogram _) = MHistogram"
| "wireType (ExponentialHistogram _) = MExponentialHistogram"
| "wireType Summary = MSummary"
| "wireType (DDSketch _) = MDDSketch"
| "wireType (KLLSketch _) = MKLLSketch"
| "wireType (CountSketch _) = MCountSketch"
| "wireType (CountMinSketch _) = MCountMinSketch"
| "wireType HLLSketch = MHLLSketch"
| "wireType OtherData = MEmpty"

text \<open>The value oneof of a number point; the other point messages have none.\<close>

fun wireValueType :: "mkind \<Rightarrow> numtype" where
  "wireValueType (Gauge NInt) = TInt"
| "wireValueType (Gauge NFloat) = TDouble"
| "wireValueType (Sum NInt) = TInt"
| "wireValueType (Sum NFloat) = TDouble"
| "wireValueType _ = TEmpty"

fun hasTemporality :: "mkind \<Rightarrow> bool" where
  "hasTemporality (Gauge _) = False"
| "hasTemporality Summary = False"
| "hasTemporality _ = True"

fun encodingValue :: "mkind \<Rightarrow> encoding \<Rightarrow> bool" where
  "encodingValue (KLLSketch _) e = (e = EProto)"
| "encodingValue (DDSketch _) e = (e \<noteq> EUnknown)"
| "encodingValue (CountSketch _) e = (e \<noteq> EUnknown)"
| "encodingValue (CountMinSketch _) e = (e \<noteq> EUnknown)"
| "encodingValue HLLSketch e = (e \<noteq> EUnknown)"
| "encodingValue _ e = True"

definition convAttrs :: "('v \<Rightarrow> pvalue) \<Rightarrow> 'v attrs \<Rightarrow> pmap" where
  "convAttrs conv = map (\<lambda>(k, v). (k, conv v))"

definition transformPoint :: "('v \<Rightarrow> pvalue) \<Rightarrow> mkind \<Rightarrow> 'v dpoint \<Rightarrow> rpoint" where
  "transformPoint conv kind dp =
     (let (as, i) = seriesIdentity (dpAttrs dp) (dpSeriesID dp)
      in \<lparr>rpSeriesID = i, rpAttrs = convAttrs conv as, rpValueType = wireValueType kind,
          rpSumType = TEmpty, rpMinType = TEmpty, rpMaxType = TEmpty\<rparr>)"

definition transformMetric :: "('v \<Rightarrow> pvalue) \<Rightarrow> 'v metric \<Rightarrow> transErr + rmetric" where
  "transformMetric conv m =
     (if mKind m = OtherData then Inl UnknownAggregation
      else if hasTemporality (mKind m) \<and> mTemporality m = UndefinedTemporality then Inl UnknownTemporality
      else if \<exists>dp \<in> set (mPoints m). \<not> encodingValue (mKind m) (dpEncoding dp) then Inl UnknownEncoding
      else Inr \<lparr>rmName = mName m, rmType = wireType (mKind m),
                rmPoints = map (transformPoint conv (mKind m)) (mPoints m)\<rparr>)"

text \<open>An invalid metric is dropped and its error reported; the others go through.\<close>

fun transformMetrics :: "('v \<Rightarrow> pvalue) \<Rightarrow> 'v metric list \<Rightarrow> rmetric list \<times> transErr list" where
  "transformMetrics conv [] = ([], [])"
| "transformMetrics conv (m # ms) =
     (let (out, errs) = transformMetrics conv ms
      in case transformMetric conv m of Inl e \<Rightarrow> (out, e # errs) | Inr o' \<Rightarrow> (o' # out, errs))"

definition transformScope :: "('v \<Rightarrow> pvalue) \<Rightarrow> 'v scope_metrics \<Rightarrow> rscope \<times> transErr list" where
  "transformScope conv sm =
     (let (ms, errs) = transformMetrics conv (snd sm)
      in (\<lparr>rsName = scName (fst sm), rsVersion = scVersion (fst sm), rsSchemaUrl = scSchemaURL (fst sm),
           rsAttributes = convAttrs conv (scAttributes (fst sm)), rsMetrics = ms\<rparr>, errs))"

definition transformResource :: "('v \<Rightarrow> pvalue) \<Rightarrow> 'v resource_metrics \<Rightarrow> rresource \<times> transErr list" where
  "transformResource conv rm =
     (let sms = map (transformScope conv) (rmScopeMetrics rm)
      in (\<lparr>rrSchemaUrl = resSchema (rmResource rm),
           rrAttributes = (case rmResource rm of None \<Rightarrow> [] | Some r \<Rightarrow> convAttrs conv (resAttributes r)),
           rrScopes = map fst sms\<rparr>, concat (map snd sms)))"

section \<open>The receiver\<close>

record response =
  rsSeriesAssignments :: "seriesAssignment list"
  rsUnknownSeriesIds :: "u64 list"

definition populateSeriesAssignments :: "seriesAssignment list \<Rightarrow> seriesAssignment list \<Rightarrow> seriesAssignment list" where
  "populateSeriesAssignments dest assignments =
     (if assignments = [] then dest else dest @ assignments)"

definition dataPointCount :: "rresource list \<Rightarrow> nat" where
  "dataPointCount md = sum_list (map (\<lambda>rr. scopesCount (rrScopes rr)) md)"

text \<open>
  The result: the cache, the response, the batch handed to the next consumer (if any), and its
  error. Only series assignments are filled into the response.
\<close>

definition ReceiverExport ::
  "(char \<Rightarrow> f64 \<Rightarrow> string) \<Rightarrow> (pvalue \<Rightarrow> string) \<Rightarrow> (rresource list \<Rightarrow> 'e option) \<Rightarrow> int \<Rightarrow> seriesCache \<Rightarrow> rresource list \<Rightarrow>
     seriesCache \<times> response \<times> rresource list option \<times> 'e option" where
  "ReceiverExport fmtf asString consume now cache md =
     (let (cache, md, assignments) = rehydrate fmtf asString now cache md;
          resp = \<lparr>rsSeriesAssignments = populateSeriesAssignments [] assignments, rsUnknownSeriesIds = []\<rparr>
      in if dataPointCount md = 0 then (cache, resp, None, None)
         else (cache, resp, Some md, consume md))"

section \<open>The exporter\<close>

definition applySeriesAssignments :: "Dictionary \<Rightarrow> response \<Rightarrow> Dictionary" where
  "applySeriesAssignments d resp =
     (if rsSeriesAssignments resp = [] then d
      else Apply d (map (\<lambda>a. \<lparr>aResourceKey = saResourceKey a, aScopeKey = saScopeKey a,
        aMetricName = saMetricName a, aMetricType = saMetricType a,
        aAttributesFingerprint = saAttributesFingerprint a, aSeriesID = saSeriesID a\<rparr>) (rsSeriesAssignments resp)))"

definition applyUnknownSeriesIds :: "Dictionary \<Rightarrow> response \<Rightarrow> Dictionary" where
  "applyUnknownSeriesIds d resp =
     (if rsUnknownSeriesIds resp = [] then d else EvictByID d (rsUnknownSeriesIds resp))"

datatype 'e exportErr = ErrUpload 'e | ErrIncomplete "transErr list" 'e | ErrTransform "transErr list"

definition exportResult :: "transErr list \<Rightarrow> 'e option \<Rightarrow> 'e exportErr option" where
  "exportResult errs upErr =
     (case upErr of
        Some e \<Rightarrow> if errs = [] then Some (ErrUpload e) else Some (ErrIncomplete errs e)
      | None \<Rightarrow> if errs = [] then None else Some (ErrTransform errs))"

definition ExporterExport ::
  "('v \<Rightarrow> string) \<Rightarrow> ('v \<Rightarrow> pvalue) \<Rightarrow> bool \<Rightarrow> (rresource \<Rightarrow> response option \<times> 'e option) \<Rightarrow>
     Dictionary \<times> 'v cells \<Rightarrow> 'v resource_metrics \<Rightarrow> (Dictionary \<times> 'v cells) \<times> 'e exportErr option" where
  "ExporterExport emit conv seriesDictionaryEnabled upload st rm =
     (let ((d, c), rm) = (if seriesDictionaryEnabled
            then (case Annotate emit st (Some rm) of (st, Some rm) \<Rightarrow> (st, rm) | (st, None) \<Rightarrow> (st, rm))
            else (st, rm));
          (otlpRm, errs) = transformResource conv rm;
          (resp, upErr) = upload otlpRm;
          d = (case resp of
                 Some resp \<Rightarrow> if seriesDictionaryEnabled
                   then applyUnknownSeriesIds (applySeriesAssignments d resp) resp else d
               | None \<Rightarrow> d)
      in ((d, c), exportResult errs upErr))"

section \<open>An export round\<close>

text \<open>
  One \<^verbatim>\<open>Export\<close> of the SDK against the collector. The request may be lost, the reply may be lost
  after the collector handled the request, and an error of the consumer becomes a status without a
  response.
\<close>

datatype net = Delivered | ReplyLost | RequestLost

definition exportRound ::
  "('v \<Rightarrow> string) \<Rightarrow> ('v \<Rightarrow> pvalue) \<Rightarrow> (char \<Rightarrow> f64 \<Rightarrow> string) \<Rightarrow> (pvalue \<Rightarrow> string) \<Rightarrow> (rresource list \<Rightarrow> 'e option) \<Rightarrow>
     net \<Rightarrow> int \<Rightarrow> Dictionary \<times> 'v cells \<times> seriesCache \<Rightarrow> 'v resource_metrics \<Rightarrow>
     (Dictionary \<times> 'v cells \<times> seriesCache) \<times> rresource list option" where
  "exportRound emit conv fmtf asString consume net now st rm =
     (let (d, c, cache) = st;
          receive = (\<lambda>w. ReceiverExport fmtf asString consume now cache [w]);
          upload = (\<lambda>w. case net of
              Delivered \<Rightarrow> (case receive w of (_, resp, _, err) \<Rightarrow>
                (if err = None then Some resp else None, map_option Some err))
            | _ \<Rightarrow> (None, Some None));
          ((d', c'), _) = ExporterExport emit conv True upload (d, c) rm;
          w = fst (transformResource conv (the (snd (Annotate emit (d, c) (Some rm)))));
          (cache', consumed) = (case net of
              RequestLost \<Rightarrow> (cache, None)
            | _ \<Rightarrow> (case receive w of (cache', _, consumed, _) \<Rightarrow> (cache', consumed)))
      in ((d', c', cache'), consumed))"

definition sourceOf :: "Dictionary \<Rightarrow> string \<Rightarrow> sourceState" where
  "sourceOf d rk = (case dSources d rk of Some s \<Rightarrow> s | None \<Rightarrow> newSource)"

definition cacheSourceOf :: "seriesCache \<Rightarrow> string \<Rightarrow> seriesSource" where
  "cacheSourceOf cache rk = (case cSources cache rk of Some s \<Rightarrow> s | None \<Rightarrow> newSeriesSource)"

lemma Annotate_Some:
  assumes "Annotate emit (d, c) (Some rm) = ((d1, c1), rm1)"
  obtains s1 where "d1 = sweep (dGeneration d + 1) (d\<lparr>dGeneration := dGeneration d + 1,
      dSources := (dSources d)(resourceKey emit (rmResource rm) \<mapsto> s1)\<rparr>)"
    and "touched (dGeneration d + 1) (batchKeys emit (rmScopeMetrics rm))
      (sourceOf d (resourceKey emit (rmResource rm))) s1"
    and "rm1 = Some (rm\<lparr>rmScopeMetrics := resolveScopes emit
      (registeredID (sourceOf d (resourceKey emit (rmResource rm)))) (rmScopeMetrics rm)\<rparr>)"
proof -
  let ?gen = "dGeneration d + 1" and ?rk = "resourceKey emit (rmResource rm)"
  obtain s1 c2 scs where 1: "annotateScopes emit ?gen (sourceOf d ?rk, c) (rmScopeMetrics rm) = ((s1, c2), scs)"
    by (metis prod.exhaust)
  have "d1 = sweep ?gen (d\<lparr>dGeneration := ?gen, dSources := (dSources d)(?rk \<mapsto> s1)\<rparr>)"
    "rm1 = Some (rm\<lparr>rmScopeMetrics := scs\<rparr>)"
    using assms 1 by (auto simp: Annotate_def SeriesDict.getOrCreateSource_def sourceOf_def Let_def
        split: option.splits)
  then show thesis
    using annotateScopes_eq [OF 1] that by simp
qed

lemma Annotate_generation:
  assumes "Annotate emit (d, c) (Some rm) = ((d1, c1), rm1)"
  shows "dGeneration d1 = dGeneration d + 1"
  by (rule Annotate_Some [OF assms]) (simp add: sweep_def)

lemma rehydrate_single:
  assumes "rehydrate fmtf asString now cache [w] = (cache', md, as)"
  obtains s1 scs where
    "rehydrateScopes fmtf asString (buildResourceKey asString w) now
       (cacheSourceOf cache (buildResourceKey asString w)) (rrScopes w) = (s1, scs, as)"
    and "cache' = evictLocked now (cache\<lparr>cSources := (cSources cache)(buildResourceKey asString w \<mapsto> s1)\<rparr>)"
    and "md = [w\<lparr>rrScopes := scs\<rparr>]"
proof -
  let ?rk = "buildResourceKey asString w"
  obtain s1 scs bs where 1: "rehydrateScopes fmtf asString ?rk now (cacheSourceOf cache ?rk) (rrScopes w) = (s1, scs, bs)"
    by (metis prod.exhaust)
  have "cache' = evictLocked now (cache\<lparr>cSources := (cSources cache)(?rk \<mapsto> s1)\<rparr>)"
    "md = [w\<lparr>rrScopes := scs\<rparr>]" "as = bs"
    using assms 1 by (auto simp: rehydrate_def SeriesCache.getOrCreateSource_def cacheSourceOf_def Let_def
        split: option.splits)
  with 1 show thesis using that by simp
qed

lemma exportRound_cases:
  assumes "exportRound emit conv fmtf asString consume net now (d, c, cache) rm = ((d', c', cache'), consumed)"
    and "net \<noteq> RequestLost"
  obtains d1 rm1 md as where "Annotate emit (d, c) (Some rm) = ((d1, c'), Some rm1)"
    and "rehydrate fmtf asString now cache [fst (transformResource conv rm1)] = (cache', md, as)"
    and "d' = d1 \<or> d' = applySeriesAssignments d1 \<lparr>rsSeriesAssignments = as, rsUnknownSeriesIds = []\<rparr>"
    and "consumed = (if dataPointCount md = 0 then None else Some md)"
proof -
  obtain d1 c1 rm0 where "Annotate emit (d, c) (Some rm) = ((d1, c1), rm0)" by (metis prod.exhaust)
  moreover from Annotate_Some [OF this] obtain rm1 where "rm0 = Some rm1" by metis
  ultimately have A: "Annotate emit (d, c) (Some rm) = ((d1, c1), Some rm1)" by simp
  obtain w errs where w: "transformResource conv rm1 = (w, errs)" by fastforce
  obtain ca md as where R: "rehydrate fmtf asString now cache [w] = (ca, md, as)" by (metis prod.exhaust)
  have pop: "populateSeriesAssignments [] as = as"
    by (simp add: populateSeriesAssignments_def)
  show thesis
    using assms A w R
    by (intro that [of d1 rm1 md as])
      (auto simp: exportRound_def ExporterExport_def ReceiverExport_def applyUnknownSeriesIds_def pop Let_def
        split: net.splits if_splits option.splits)
qed

section \<open>Agreement of the keys computed on both sides\<close>

text \<open>Attributes whose keys are distinct and whose values the two sides spell alike.\<close>

definition agreed :: "('v \<Rightarrow> string) \<Rightarrow> ('v \<Rightarrow> pvalue) \<Rightarrow> (pvalue \<Rightarrow> string) \<Rightarrow> 'v attrs \<Rightarrow> bool" where
  "agreed emit conv str kvs \<longleftrightarrow> distinct (map fst kvs) \<and> (\<forall>(k, v) \<in> set kvs. str (conv v) = emit v)"

lemma kvs_string_sorted:
  assumes "agreed emit conv str kvs" "mset ys = mset kvs" "sorted (map fst ys)"
  shows "kvs_string emit ys = concat (map (\<lambda>k. case map_of (convAttrs conv kvs) k of
      None \<Rightarrow> '''' | Some v \<Rightarrow> k @ ''='' @ str v @ ''|'') (sort (map fst (convAttrs conv kvs))))"
proof -
  have dist: "distinct (map fst kvs)" and str: "(k, v) \<in> set kvs \<Longrightarrow> str (conv v) = emit v" for k v
    using assms(1) by (auto simp: agreed_def)
  have fst_conv: "map fst (convAttrs conv kvs) = map fst kvs"
    by (simp add: convAttrs_def case_prod_beta comp_def)
  have "sort (map fst kvs) = map fst ys"
    using assms(2,3) by (intro properties_for_sort) (metis mset_map)
  moreover have "map_of (convAttrs conv kvs) k = Some (conv v)" if "(k, v) \<in> set ys" for k v
    using that dist mset_eq_setD [OF assms(2)]
    by (intro map_of_is_SomeI) (auto simp only: fst_conv, auto simp: convAttrs_def)
  ultimately show ?thesis
    using str mset_eq_setD [OF assms(2)]
    by (auto simp: kvs_string_def fst_conv intro!: arg_cong [of _ _ concat] map_cong)
qed

lemma sorted_fst_lex:
  fixes xs :: "('a::linorder \<times> 'b) list" and f :: "'b \<Rightarrow> 'c::linorder"
  shows "sorted (map (\<lambda>(k, v). (k, f v)) xs) \<Longrightarrow> sorted (map fst xs)"
proof (induction xs)
  case (Cons x xs)
  have "fst x \<le> fst y" if "y \<in> set xs" for y
    using Cons.prems that by (force simp: less_eq_prod_def case_prod_beta)
  with Cons show ?case by auto
qed simp

lemma sorted_fst_sort_key [simp]:
  fixes kvs :: "('a::linorder \<times> 'b) list" and f :: "'b \<Rightarrow> 'c::linorder"
  shows "sorted (map fst (sort_key (\<lambda>(k, v). (k, f v)) kvs))"
  by (rule sorted_fst_lex [of f]) (rule sorted_sort_key)

lemma fingerprint_agrees:
  "agreed emit conv (valueString fmtf) kvs \<Longrightarrow>
   fingerprintAttributes fmtf (convAttrs conv kvs) = attributesFingerprint emit kvs"
  unfolding attributesFingerprint_alt fingerprintAttributes_def
  by (rule kvs_string_sorted [symmetric]) simp_all

lemma sorted_attributes_agree:
  assumes "agreed emit conv asString kvs"
  shows "appendSortedAttributes asString b (convAttrs conv kvs) = appendAttributes emit b kvs"
    and "appendSortedAttributes asString b (convAttrs conv kvs) = appendAttributeSlice emit b kvs"
proof -
  show "appendSortedAttributes asString b (convAttrs conv kvs) = appendAttributes emit b kvs"
    unfolding appendSortedAttributes_def appendAttributes_def attributesFingerprint_alt
    using kvs_string_sorted [OF assms, of "sort_key (\<lambda>(k, v). (k, emit v)) kvs"] by simp
  show "appendSortedAttributes asString b (convAttrs conv kvs) = appendAttributeSlice emit b kvs"
    unfolding appendSortedAttributes_def appendAttributeSlice_def
    using kvs_string_sorted [OF assms, of "sort_key fst kvs"]
    by (simp add: convAttrs_def)
qed

text \<open>The batches the protocol is meant for, as measured: every point has its attributes and no series ID.\<close>

definition goodMetric :: "('v \<Rightarrow> string) \<Rightarrow> ('v \<Rightarrow> pvalue) \<Rightarrow> (char \<Rightarrow> f64 \<Rightarrow> string) \<Rightarrow> 'v metric \<Rightarrow> bool" where
  "goodMetric emit conv fmtf m \<longleftrightarrow> bar \<notin> set (mName m) \<and> isl (transformMetric conv m) = False \<and>
     (\<forall>dp \<in> set (mPoints m). dpSeriesID dp = 0 \<and> agreed emit conv (valueString fmtf) (dpAttrs dp))"

definition goodBatch ::
  "('v \<Rightarrow> string) \<Rightarrow> ('v \<Rightarrow> pvalue) \<Rightarrow> (char \<Rightarrow> f64 \<Rightarrow> string) \<Rightarrow> (pvalue \<Rightarrow> string) \<Rightarrow> 'v resource_metrics \<Rightarrow> bool" where
  "goodBatch emit conv fmtf asString rm \<longleftrightarrow>
     (\<forall>r. rmResource rm = Some r \<longrightarrow> agreed emit conv asString (resAttributes r)) \<and>
     (\<forall>(sc, ms) \<in> set (rmScopeMetrics rm). clean_scope emit sc \<and> agreed emit conv asString (scAttributes sc) \<and>
        (\<forall>m \<in> set ms. goodMetric emit conv fmtf m))"

lemma buildResourceKey_agrees:
  assumes "goodBatch emit conv fmtf asString rm"
  shows "buildResourceKey asString (fst (transformResource conv (rm\<lparr>rmScopeMetrics := scs\<rparr>))) =
    resourceKey emit (rmResource rm)"
proof (cases "rmResource rm")
  case None
  then show ?thesis
    by (simp add: buildResourceKey_def transformResource_def Let_def resourceKey_def resSchema_def
        appendSortedAttributes_def appendAttributeSlice_def)
next
  case (Some r)
  then have "agreed emit conv asString (resAttributes r)"
    using assms by (simp add: goodBatch_def)
  with Some show ?thesis
    by (simp add: buildResourceKey_def transformResource_def Let_def resourceKey_def sorted_attributes_agree(2))
qed

lemma buildScopeKey_agrees:
  "agreed emit conv asString (scAttributes sc) \<Longrightarrow>
   buildScopeKey asString (fst (transformScope conv (sc, ms))) = scopeKey emit sc"
  by (simp add: buildScopeKey_def transformScope_def Let_def case_prod_beta scopeKey_def sorted_attributes_agree(1))

section \<open>Cached IDs\<close>

text \<open>
  The sketch and raw-buffer aggregators keep the ID that the dictionary wrote through \<^verbatim>\<open>SeriesIDSink\<close>; from then on their \<^verbatim>\<open>exportDataPoint\<close> gives the points
  of the series that ID and neither attributes nor pointers. \<open>cacheBatch\<close> is the batch that reaches the exporter for a measured batch, \<open>ids\<close> the IDs that are
  kept, by descriptor.
\<close>

definition cachePoint :: "(string \<Rightarrow> u64 option) \<Rightarrow> string \<Rightarrow> 'v dpoint \<Rightarrow> 'v dpoint" where
  "cachePoint ids key dp = (case ids key of None \<Rightarrow> dp
     | Some i \<Rightarrow> dp\<lparr>dpSeriesID := i, dpAttrs := [], dpSink := None, dpClearer := None\<rparr>)"

definition cacheMetric :: "('v \<Rightarrow> string) \<Rightarrow> string \<Rightarrow> (string \<Rightarrow> u64 option) \<Rightarrow> 'v metric \<Rightarrow> 'v metric" where
  "cacheMetric emit sk ids m = m\<lparr>mPoints := map (\<lambda>dp. cachePoint ids
     (descriptorKey emit sk (mName m) (metricTypeSDK (mKind m)) (dpAttrs dp)) dp) (mPoints m)\<rparr>"

definition cacheBatch ::
  "('v \<Rightarrow> string) \<Rightarrow> (string \<Rightarrow> u64 option) \<Rightarrow> 'v resource_metrics \<Rightarrow> 'v resource_metrics" where
  "cacheBatch emit ids rm = rm\<lparr>rmScopeMetrics :=
     map (\<lambda>(sc, ms). (sc, map (cacheMetric emit (scopeKey emit sc) ids) ms)) (rmScopeMetrics rm)\<rparr>"

lemma cacheBatch_resource [simp]: "rmResource (cacheBatch emit ids rm) = rmResource rm"
  by (simp add: cacheBatch_def)

text \<open>A cached ID goes on the wire like a confirmed one.\<close>

lemma transformPoint_cached:
  assumes "dpSeriesID dp = 0" "ids key \<noteq> Some 0"
    and "key = descriptorKey emit sk n t (dpAttrs dp)"
  shows "transformPoint conv kind (releasePointers b (resolvePoint reg
      (descriptorKey emit sk n t (dpAttrs (cachePoint ids key dp))) (cachePoint ids key dp))) =
    transformPoint conv kind (releasePointers b (resolvePoint (reg ++ ids) key dp))"
  using assms by (cases "ids key") (auto simp: cachePoint_def resolvePoint_def transformPoint_def seriesIdentity_def
      map_add_def convAttrs_def split: option.splits)

lemma transformMetric_cached:
  assumes "\<forall>dp \<in> set (mPoints m). dpSeriesID dp = 0" "0 \<notin> ran ids"
  shows "transformMetric conv (resolveMetric emit sk reg (cacheMetric emit sk ids m)) =
    transformMetric conv (resolveMetric emit sk (reg ++ ids) m)"
proof (cases "mKind m = OtherData")
  case False
  have "ids k \<noteq> Some 0" for k using assms(2) by (auto simp: ran_def)
  then have pts: "transformPoint conv (mKind m) (releasePointers b (resolvePoint reg
      (descriptorKey emit sk (mName m) (metricTypeSDK (mKind m)) (dpAttrs (cachePoint ids key dp))) (cachePoint ids key dp))) =
    transformPoint conv (mKind m) (releasePointers b (resolvePoint (reg ++ ids) key dp))"
    if "dp \<in> set (mPoints m)" "key = descriptorKey emit sk (mName m) (metricTypeSDK (mKind m)) (dpAttrs dp)" for dp key b
    using that assms(1) by (intro transformPoint_cached) auto
  have enc: "dpEncoding (cachePoint ids k dp) = dpEncoding dp" for k dp by (simp add: cachePoint_def split: option.split)
  show ?thesis
    using False pts by (auto simp: transformMetric_def resolveMetric_def cacheMetric_def enc)
qed (simp add: transformMetric_def resolveMetric_def cacheMetric_def)

lemma transformScopes_cached:
  assumes "\<forall>(sc, ms) \<in> set sms. \<forall>m \<in> set ms. \<forall>dp \<in> set (mPoints m). dpSeriesID dp = 0" "0 \<notin> ran ids"
  shows "map (transformScope conv) (resolveScopes emit reg (map (\<lambda>(sc, ms). (sc, map (cacheMetric emit (scopeKey emit sc) ids) ms)) sms)) =
    map (transformScope conv) (resolveScopes emit (reg ++ ids) sms)"
proof -
  have "transformMetrics conv (map (\<lambda>m. resolveMetric emit sk reg (cacheMetric emit sk ids m)) ms) =
      transformMetrics conv (map (resolveMetric emit sk (reg ++ ids)) ms)"
    if "\<forall>m \<in> set ms. \<forall>dp \<in> set (mPoints m). dpSeriesID dp = 0" for sk ms
    using that by (induction ms) (simp_all add: transformMetric_cached [OF _ assms(2)])
  with assms(1) show ?thesis
    by (auto simp: resolveScopes_def transformScope_def comp_def)
qed

lemma cached_keys:
  assumes "\<forall>(sc, ms) \<in> set (rmScopeMetrics rm). \<forall>m \<in> set ms. \<forall>dp \<in> set (mPoints m). dpSeriesID dp = 0" "0 \<notin> ran ids"
    and "k \<in> batchKeys emit (rmScopeMetrics (cacheBatch emit ids rm))"
  shows "k \<in> batchKeys emit (rmScopeMetrics rm) \<and> ids k = None"
proof -
  obtain sc ms m where m: "(sc, ms) \<in> set (rmScopeMetrics rm)" "m \<in> set ms"
    "k \<in> metricKeys emit (scopeKey emit sc) (cacheMetric emit (scopeKey emit sc) ids m)"
    using assms(3) by (auto simp: batchKeys_def cacheBatch_def)
  then obtain dp where dp: "dp \<in> set (mPoints m)" "mKind m \<noteq> OtherData"
    and c: "dpSeriesID (cachePoint ids (descriptorKey emit (scopeKey emit sc) (mName m) (metricTypeSDK (mKind m)) (dpAttrs dp)) dp) = 0"
      "k = descriptorKey emit (scopeKey emit sc) (mName m) (metricTypeSDK (mKind m))
        (dpAttrs (cachePoint ids (descriptorKey emit (scopeKey emit sc) (mName m) (metricTypeSDK (mKind m)) (dpAttrs dp)) dp))"
    by (auto simp: metricKeys_def pointKeys_def cacheMetric_def split: if_splits)
  have "ids (descriptorKey emit (scopeKey emit sc) (mName m) (metricTypeSDK (mKind m)) (dpAttrs dp)) = None"
    using c(1) assms(2) by (auto simp: cachePoint_def ran_def split: option.splits)
  then have k: "k = descriptorKey emit (scopeKey emit sc) (mName m) (metricTypeSDK (mKind m)) (dpAttrs dp)" "ids k = None"
    using c(2) by (simp_all add: cachePoint_def)
  have "dpSeriesID dp = 0" using assms(1) m(1,2) dp(1) by blast
  then have "k \<in> metricKeys emit (scopeKey emit sc) m" using dp k by (auto simp: metricKeys_def pointKeys_def)
  then show ?thesis using m k(2) by (auto simp: batchKeys_def)
qed

lemma goodBatch_unnumbered:
  "goodBatch emit conv fmtf asString rm \<Longrightarrow> \<forall>(sc, ms) \<in> set (rmScopeMetrics rm). \<forall>m \<in> set ms. \<forall>dp \<in> set (mPoints m). dpSeriesID dp = 0"
  by (fastforce simp: goodBatch_def goodMetric_def)

section \<open>What the consumer receives\<close>

text \<open>The same telemetry: equal up to series IDs and the spelling of attribute values.\<close>

definition samePoint :: "(char \<Rightarrow> f64 \<Rightarrow> string) \<Rightarrow> rpoint \<Rightarrow> rpoint \<Rightarrow> bool" where
  "samePoint fmtf p q \<longleftrightarrow> fingerprintAttributes fmtf (rpAttrs p) = fingerprintAttributes fmtf (rpAttrs q) \<and>
     rpValueType p = rpValueType q \<and> rpSumType p = rpSumType q \<and> rpMinType p = rpMinType q \<and> rpMaxType p = rpMaxType q"

definition sameMetric :: "(char \<Rightarrow> f64 \<Rightarrow> string) \<Rightarrow> rmetric \<Rightarrow> rmetric \<Rightarrow> bool" where
  "sameMetric fmtf m m' \<longleftrightarrow> rmName m = rmName m' \<and> rmType m = rmType m' \<and>
     list_all2 (samePoint fmtf) (rmPoints m) (rmPoints m')"

definition sameScope :: "(char \<Rightarrow> f64 \<Rightarrow> string) \<Rightarrow> rscope \<Rightarrow> rscope \<Rightarrow> bool" where
  "sameScope fmtf sc sc' \<longleftrightarrow> rsName sc = rsName sc' \<and> rsVersion sc = rsVersion sc' \<and>
     rsSchemaUrl sc = rsSchemaUrl sc' \<and> rsAttributes sc = rsAttributes sc' \<and>
     list_all2 (sameMetric fmtf) (rsMetrics sc) (rsMetrics sc')"

definition sameResource :: "(char \<Rightarrow> f64 \<Rightarrow> string) \<Rightarrow> rresource \<Rightarrow> rresource \<Rightarrow> bool" where
  "sameResource fmtf rr rr' \<longleftrightarrow> rrSchemaUrl rr = rrSchemaUrl rr' \<and> rrAttributes rr = rrAttributes rr' \<and>
     list_all2 (sameScope fmtf) (rrScopes rr) (rrScopes rr')"

text \<open>
  The link between an entry of the dictionary and the collector: the ID is known there, for a
  metric and attributes that spell the entry's key; \<open>ls\<close> is when it was last seen.
\<close>

definition linked :: "(char \<Rightarrow> f64 \<Rightarrow> string) \<Rightarrow> seriesSource \<Rightarrow> string \<Rightarrow> u64 \<Rightarrow> int \<Rightarrow> bool" where
  "linked fmtf src k i ls \<longleftrightarrow> i \<noteq> 0 \<and> seenSeries src i = Some ls \<and>
     (\<exists>sk ty n t as. clean_scope_key sk \<and> bar \<notin> set n \<and> ty \<in> typeStrings t \<and>
        knownSeries src i = Some ((n, t), as) \<and> k = descriptorKeyFromParts sk ty n (fingerprintAttributes fmtf as))"

lemma typeStrings_clean: "ty \<in> typeStrings t \<Longrightarrow> bar \<notin> set ty"
  by (cases t) (auto simp: bar_def)

lemma typeStrings_wireType: "metricTypeSDK kind \<in> typeStrings t \<Longrightarrow> t = wireType kind"
  by (cases t; cases kind rule: metricTypeSDK.cases) simp_all

lemma linked_resolves:
  assumes "linked fmtf src (descriptorKey emit (scopeKey emit sc) name (metricTypeSDK kind) attrs) i ls"
    and "clean_scope emit sc" "bar \<notin> set name"
  shows "\<exists>as. knownSeries src i = Some ((name, wireType kind), as) \<and>
    fingerprintAttributes fmtf as = attributesFingerprint emit attrs"
proof -
  obtain sk ty n t as where l: "clean_scope_key sk" "bar \<notin> set n" "ty \<in> typeStrings t"
    "knownSeries src i = Some ((n, t), as)"
    "descriptorKeyFromParts (scopeKey emit sc) (metricTypeSDK kind) name (attributesFingerprint emit attrs) =
      descriptorKeyFromParts sk ty n (fingerprintAttributes fmtf as)"
    using assms(1) unfolding linked_def descriptorKey_def by blast
  from descriptorKeyFromParts_inj [OF clean_scope_key_scopeKey [OF assms(2)] l(1) metricTypeSDK_clean
      typeStrings_clean [OF l(3)] assms(3) l(2) l(5)] l(3,4) typeStrings_wireType
  show ?thesis by metis
qed

definition transMetric :: "('v \<Rightarrow> pvalue) \<Rightarrow> 'v metric \<Rightarrow> rmetric" where
  "transMetric conv m = \<lparr>rmName = mName m, rmType = wireType (mKind m),
     rmPoints = map (transformPoint conv (mKind m)) (mPoints m)\<rparr>"

lemma transformMetrics_valid:
  "\<forall>m \<in> set ms. \<not> isl (transformMetric conv m) \<Longrightarrow> fst (transformMetrics conv ms) = map (transMetric conv) ms"
  by (induction ms) (auto simp: transformMetric_def transMetric_def Let_def split: if_splits prod.splits)

lemma resolveMetric_valid:
  "isl (transformMetric conv (resolveMetric emit sk reg m)) = isl (transformMetric conv m)"
  by (auto simp: transformMetric_def resolveMetric_def)

lemma valid_kind: "\<not> isl (transformMetric conv m) \<Longrightarrow> mKind m \<noteq> OtherData"
  by (auto simp: transformMetric_def split: if_splits)

text \<open>A relation along two mapped lists, with a side result for every element.\<close>

lemma list_all2_map_transfer:
  assumes "list_all2 P (map f xs) ys" and "\<And>x y. x \<in> set xs \<Longrightarrow> P (f x) y \<Longrightarrow> Q y (g x) \<and> R x"
  shows "list_all2 Q ys (map g xs) \<and> (\<forall>x \<in> set xs. R x)"
  using assms by (induction xs arbitrary: ys) (auto simp: list_all2_Cons1)

lemma point_delivered:
  assumes "pointOutcome now src src' (name, wireType kind)
      (transformPoint conv kind (releasePointers b (resolvePoint reg key dp))) p"
    and "dpSeriesID dp = 0" "agreed emit conv (valueString fmtf) (dpAttrs dp)"
    and "key = descriptorKey emit (scopeKey emit sc) name (metricTypeSDK kind) (dpAttrs dp)"
    and "clean_scope emit sc" "bar \<notin> set name" and "\<And>i. reg key = Some i \<Longrightarrow> \<exists>ls. linked fmtf src key i ls"
  shows "samePoint fmtf p (transformPoint conv kind dp) \<and> (\<forall>i. reg key = Some i \<longrightarrow> seenSeries src' i = Some now)"
proof (cases "reg key")
  case None
  then show ?thesis
    using assms(1,2) unfolding pointOutcome_def samePoint_def
    by (cases p) (simp add: resolvePoint_def transformPoint_def seriesIdentity_def)
next
  case (Some i)
  with assms(7) obtain ls where ls: "linked fmtf src key i ls" by blast
  then have "i \<noteq> 0" by (simp add: linked_def)
  from linked_resolves [OF ls [unfolded assms(4)] assms(5,6)] obtain as where
    as: "knownSeries src i = Some ((name, wireType kind), as)"
      "fingerprintAttributes fmtf as = attributesFingerprint emit (dpAttrs dp)" by blast
  with Some \<open>i \<noteq> 0\<close> assms(1,2) fingerprint_agrees [OF assms(3)] show ?thesis
    unfolding pointOutcome_def samePoint_def
    by (cases p) (simp add: resolvePoint_def transformPoint_def seriesIdentity_def)
qed

text \<open>The confirmed IDs of a source are linked to the collector's source.\<close>

definition linkedIDs :: "(char \<Rightarrow> f64 \<Rightarrow> string) \<Rightarrow> seriesSource \<Rightarrow> (string \<Rightarrow> u64 option) \<Rightarrow> bool" where
  "linkedIDs fmtf src reg \<longleftrightarrow> (\<forall>k i. reg k = Some i \<longrightarrow> (\<exists>ls. linked fmtf src k i ls))"

lemma metric_delivered:
  assumes "metricOutcome now src src' (transMetric conv (resolveMetric emit (scopeKey emit sc) reg m)) m'"
    and "goodMetric emit conv fmtf m" "clean_scope emit sc" "linkedIDs fmtf src reg"
  shows "sameMetric fmtf m' (transMetric conv m) \<and>
    (\<forall>k \<in> metricKeys emit (scopeKey emit sc) m. \<forall>i. reg k = Some i \<longrightarrow> seenSeries src' i = Some now)"
proof -
  let ?key = "\<lambda>dp. descriptorKey emit (scopeKey emit sc) (mName m) (metricTypeSDK (mKind m)) (dpAttrs dp)"
  have kind: "mKind m \<noteq> OtherData"
    using assms(2) by (auto simp: goodMetric_def dest!: valid_kind)
  have "list_all2 (samePoint fmtf) (rmPoints m') (map (transformPoint conv (mKind m)) (mPoints m)) \<and>
    (\<forall>dp \<in> set (mPoints m). \<forall>i. reg (?key dp) = Some i \<longrightarrow> seenSeries src' i = Some now)"
  proof (rule list_all2_map_transfer)
    show "list_all2 (pointOutcome now src src' (mName m, wireType (mKind m)))
      (map (\<lambda>dp. transformPoint conv (mKind m) (releasePointers (hasSinks (mKind m)) (resolvePoint reg (?key dp) dp)))
        (mPoints m)) (rmPoints m')"
      using assms(1) kind by (simp add: metricOutcome_def transMetric_def resolveMetric_def comp_def)
  next
    fix dp p
    assume "dp \<in> set (mPoints m)" and "pointOutcome now src src' (mName m, wireType (mKind m))
      (transformPoint conv (mKind m) (releasePointers (hasSinks (mKind m)) (resolvePoint reg (?key dp) dp))) p"
    then show "samePoint fmtf p (transformPoint conv (mKind m) dp) \<and>
        (\<forall>i. reg (?key dp) = Some i \<longrightarrow> seenSeries src' i = Some now)"
      using assms(2-4) by (intro point_delivered) (auto simp: goodMetric_def linkedIDs_def)
  qed
  moreover have "rmName m' = mName m" "rmType m' = wireType (mKind m)"
    using assms(1) kind unfolding metricOutcome_def
    by (cases m', simp add: transMetric_def resolveMetric_def)+
  ultimately show ?thesis
    using kind by (auto simp: sameMetric_def transMetric_def metricKeys_def pointKeys_def)
qed

lemma scope_delivered:
  assumes "scopeOutcome now src src' (fst (transformScope conv (sc, map (resolveMetric emit (scopeKey emit sc) reg) ms))) sc'"
    and "\<forall>m \<in> set ms. goodMetric emit conv fmtf m" "clean_scope emit sc" "linkedIDs fmtf src reg"
  shows "sameScope fmtf sc' (fst (transformScope conv (sc, ms))) \<and>
    (\<forall>m \<in> set ms. \<forall>k \<in> metricKeys emit (scopeKey emit sc) m. \<forall>i. reg k = Some i \<longrightarrow> seenSeries src' i = Some now)"
proof -
  have valid: "\<forall>m \<in> set ms. \<not> isl (transformMetric conv m)"
    using assms(2) by (simp add: goodMetric_def)
  have ws: "fst (transformMetrics conv (map (resolveMetric emit (scopeKey emit sc) reg) ms)) =
      map (\<lambda>m. transMetric conv (resolveMetric emit (scopeKey emit sc) reg m)) ms"
    using valid by (subst transformMetrics_valid) (auto simp: resolveMetric_valid)
  have "list_all2 (sameMetric fmtf) (rsMetrics sc') (map (transMetric conv) ms) \<and>
    (\<forall>m \<in> set ms. \<forall>k \<in> metricKeys emit (scopeKey emit sc) m. \<forall>i. reg k = Some i \<longrightarrow> seenSeries src' i = Some now)"
  proof (rule list_all2_map_transfer)
    show "list_all2 (metricOutcome now src src')
      (map (\<lambda>m. transMetric conv (resolveMetric emit (scopeKey emit sc) reg m)) ms) (rsMetrics sc')"
      using assms(1) ws by (simp add: scopeOutcome_def transformScope_def case_prod_beta Let_def)
  qed (use assms(2-4) metric_delivered in blast)
  with assms(1) transformMetrics_valid [OF valid] show ?thesis
    unfolding scopeOutcome_def sameScope_def
    by (cases sc') (simp add: transformScope_def case_prod_beta Let_def)
qed

lemma batch_delivered:
  assumes "list_all2 (scopeOutcome now src src') (map (\<lambda>sm. fst (transformScope conv sm)) (resolveScopes emit reg sms)) scs'"
    and "goodBatch emit conv fmtf asString rm" "rmScopeMetrics rm = sms" "linkedIDs fmtf src reg"
  shows "list_all2 (sameScope fmtf) scs' (map (\<lambda>sm. fst (transformScope conv sm)) sms) \<and>
    (\<forall>k \<in> batchKeys emit sms. \<forall>i. reg k = Some i \<longrightarrow> seenSeries src' i = Some now)"
proof -
  have "list_all2 (sameScope fmtf) scs' (map (\<lambda>sm. fst (transformScope conv sm)) sms) \<and>
    (\<forall>sm \<in> set sms. \<forall>m \<in> set (snd sm). \<forall>k \<in> metricKeys emit (scopeKey emit (fst sm)) m.
      \<forall>i. reg k = Some i \<longrightarrow> seenSeries src' i = Some now)"
  proof (rule list_all2_map_transfer)
    show "list_all2 (scopeOutcome now src src')
      (map (\<lambda>sm. fst (transformScope conv (fst sm, map (resolveMetric emit (scopeKey emit (fst sm)) reg) (snd sm)))) sms) scs'"
      using assms(1) by (simp add: resolveScopes_def case_prod_beta comp_def)
  next
    fix sm sc'
    assume "sm \<in> set sms" and "scopeOutcome now src src'
      (fst (transformScope conv (fst sm, map (resolveMetric emit (scopeKey emit (fst sm)) reg) (snd sm)))) sc'"
    with scope_delivered [of now src src' conv "fst sm" emit reg "snd sm" sc' fmtf] assms(2-4)
    show "sameScope fmtf sc' (fst (transformScope conv sm)) \<and>
      (\<forall>m \<in> set (snd sm). \<forall>k \<in> metricKeys emit (scopeKey emit (fst sm)) m.
        \<forall>i. reg k = Some i \<longrightarrow> seenSeries src' i = Some now)"
      by (auto simp: goodBatch_def)
  qed
  then show ?thesis by (auto simp: batchKeys_def)
qed

lemma transMetric_wire: "mKind m \<noteq> OtherData \<Longrightarrow> wireMetric (transMetric conv m)"
proof -
  assume "mKind m \<noteq> OtherData"
  then have "wireType (mKind m) \<noteq> MEmpty" "wireType (mKind m) \<in> {MGauge, MSum} \<Longrightarrow> wireValueType (mKind m) \<noteq> TEmpty"
    by (cases "mKind m" rule: wireValueType.cases; simp)+
  then show ?thesis
    by (auto simp: wireMetric_def transMetric_def transformPoint_def seriesIdentity_def wirePoint_def convAttrs_def)
qed

lemma wire_scopes:
  fixes reg :: "string \<Rightarrow> u64 option"
  assumes "goodBatch emit conv fmtf asString rm"
  defines "ws \<equiv> map (\<lambda>sm. fst (transformScope conv sm)) (resolveScopes emit reg (rmScopeMetrics rm))"
  shows "\<forall>sc \<in> set ws. \<forall>m \<in> set (rsMetrics sc). wireMetric m"
    and "scopesCount ws = scopesCount (map (\<lambda>sm. fst (transformScope conv sm)) (rmScopeMetrics rm))"
    and "\<forall>(sk, n) \<in> scopeMetricNames asString ws. clean_scope_key sk \<and> bar \<notin> set n"
proof -
  let ?ms = "\<lambda>sc. map (\<lambda>m. transMetric conv (resolveMetric emit (scopeKey emit sc) reg m))"
  let ?w = "\<lambda>(sc, ms). fst (transformScope conv (sc, map (resolveMetric emit (scopeKey emit sc) reg) ms))"
  have good: "clean_scope emit sc" "agreed emit conv asString (scAttributes sc)" "\<forall>m \<in> set ms. goodMetric emit conv fmtf m"
    if "(sc, ms) \<in> set (rmScopeMetrics rm)" for sc ms
    using assms(1) that by (auto simp: goodBatch_def)
  have ws: "ws = map ?w (rmScopeMetrics rm)"
    by (auto simp: ws_def resolveScopes_def)
  have rs: "rsMetrics (fst (transformScope conv (sc, ms))) = map (transMetric conv) ms"
    and rs': "rsMetrics (?w (sc, ms)) = ?ms sc ms" if "(sc, ms) \<in> set (rmScopeMetrics rm)" for sc ms
    using good(3) [OF that] transformMetrics_valid [of ms conv]
      transformMetrics_valid [of "map (resolveMetric emit (scopeKey emit sc) reg) ms" conv]
    by (auto simp: transformScope_def case_prod_beta Let_def goodMetric_def resolveMetric_valid)
  have kind: "mKind m \<noteq> OtherData" if "(sc, ms) \<in> set (rmScopeMetrics rm)" "m \<in> set ms" for sc ms m
    using good(3) [OF that(1)] that(2) by (auto simp: goodMetric_def dest!: valid_kind)
  show "\<forall>sc \<in> set ws. \<forall>m \<in> set (rsMetrics sc). wireMetric m"
    using rs' kind by (force simp: ws resolveMetric_def intro: transMetric_wire)
  have "metricsCount (rsMetrics (?w sm)) = metricsCount (rsMetrics (fst (transformScope conv sm)))"
    if "sm \<in> set (rmScopeMetrics rm)" for sm
  proof -
    obtain sc ms where sm: "sm = (sc, ms)" by fastforce
    show ?thesis
      using rs [of sc ms] rs' [of sc ms] that
      by (auto simp: sm metricsCount_def comp_def transMetric_def resolveMetric_def intro!: arg_cong [of _ _ sum_list])
  qed
  then show "scopesCount ws = scopesCount (map (\<lambda>sm. fst (transformScope conv sm)) (rmScopeMetrics rm))"
    unfolding ws scopesCount_def by (simp add: comp_def cong: map_cong)
  have key: "buildScopeKey asString (?w (sc, ms)) = scopeKey emit sc" if "(sc, ms) \<in> set (rmScopeMetrics rm)" for sc ms
    using good(2) [OF that] by (simp add: buildScopeKey_agrees)
  have "clean_scope_key sk \<and> bar \<notin> set n" if "(sk, n) \<in> scopeMetricNames asString ws" for sk n
  proof -
    from that obtain sc ms where sm: "(sc, ms) \<in> set (rmScopeMetrics rm)" "sk = buildScopeKey asString (?w (sc, ms))"
      "n \<in> rmName ` set (rsMetrics (?w (sc, ms)))"
      unfolding scopeMetricNames_def ws by (auto simp del: fst_conv split_paired_Ex)
    from sm(3) obtain m where m: "m \<in> set ms" "n = mName m"
      unfolding rs' [OF sm(1)] by (auto simp: transMetric_def resolveMetric_def)
    then have "bar \<notin> set n"
      using good(3) [OF sm(1)] by (simp add: goodMetric_def)
    with sm(2) key [OF sm(1)] good(1) [OF sm(1)] show ?thesis
      by (simp add: clean_scope_key_scopeKey)
  qed
  then show "\<forall>(sk, n) \<in> scopeMetricNames asString ws. clean_scope_key sk \<and> bar \<notin> set n"
    by blast
qed

section \<open>Sessions\<close>

text \<open>
  The invariant of a session: every confirmed entry of the dictionary is linked to the collector,
  and the collector saw it no longer ago than the export interval times the number of generations
  since the dictionary last used it.
\<close>

definition synced :: "(char \<Rightarrow> f64 \<Rightarrow> string) \<Rightarrow> int \<Rightarrow> int \<Rightarrow> Dictionary \<Rightarrow> seriesCache \<Rightarrow> bool" where
  "synced fmtf \<Delta> t d cache \<longleftrightarrow>
     (\<forall>rk src. cSources cache rk = Some src \<longrightarrow> wf_source src) \<and>
     (\<forall>rk s k e. dSources d rk = Some s \<longrightarrow> ssEntries s k = Some e \<longrightarrow> eLastGen e \<le> dGeneration d \<and>
        (eRegistered e \<longrightarrow> (\<exists>src ls. cSources cache rk = Some src \<and> linked fmtf src k (eId e) ls \<and>
           t - ls \<le> \<Delta> * (uint (dGeneration d) - uint (eLastGen e)))))"

lemma synced_initial: "synced fmtf \<Delta> t NewDictionary (newSeriesCache ttl)"
  by (simp add: synced_def NewDictionary_def newSeriesCache_def)

lemma synced_linkedIDs:
  "synced fmtf \<Delta> t d cache \<Longrightarrow> linkedIDs fmtf (cacheSourceOf cache rk) (registeredID (sourceOf d rk))"
  unfolding synced_def linkedIDs_def
  by (fastforce simp: sourceOf_def cacheSourceOf_def registeredID_def newSource_def split: option.splits if_splits)

lemma synced_wf: "synced fmtf \<Delta> t d cache \<Longrightarrow> wf_source (cacheSourceOf cache rk)"
  by (auto simp: synced_def cacheSourceOf_def split: option.split)

lemma linked_seen: "linked fmtf src k i ls \<Longrightarrow> seenSeries src i = Some ls"
  by (simp add: linked_def)

lemma linked_grows:
  assumes "linked fmtf src k i ls" "reg.grows now src src'"
  shows "linked fmtf src' k i ls \<or> linked fmtf src' k i now"
  using assms reg.grows_known [OF assms(2)]
  unfolding linked_def reg.grows_def by metis

lemma collector_round:
  assumes "synced fmtf \<Delta> t d cache" "goodBatch emit conv fmtf asString rm"
    and "Annotate emit (d, c) (Some (cacheBatch emit ids rm)) = ((d1, c1), Some rm1)"
    and "rehydrate fmtf asString now cache [fst (transformResource conv rm1)] = (cache', md, as)"
    and "scopesCount (rrScopes (fst (transformResource conv rm))) \<le> idsLeft (cacheSourceOf cache rk)"
    and rk: "rk = resourceKey emit (rmResource rm)" and ids: "linkedIDs fmtf (cacheSourceOf cache rk) ids"
  obtains src' rr where "cache' = evictLocked now (cache\<lparr>cSources := (cSources cache)(rk \<mapsto> src')\<rparr>)"
    and "wf_source src'" "reg.grows now (cacheSourceOf cache rk) src'"
    and "\<forall>k \<in> batchKeys emit (rmScopeMetrics rm). \<forall>i. (registeredID (sourceOf d rk) ++ ids) k = Some i \<longrightarrow> linked fmtf src' k i now"
    and "\<forall>a \<in> set as. saResourceKey a = rk \<and> linked fmtf src' (descriptorKeyFromParts (saScopeKey a)
      (saMetricType a) (saMetricName a) (saAttributesFingerprint a)) (saSeriesID a) now"
    and "md = [rr]" "sameResource fmtf rr (fst (transformResource conv rm))"
proof -
  let ?reg = "registeredID (sourceOf d rk) ++ ids" and ?src = "cacheSourceOf cache rk"
  let ?sms = "rmScopeMetrics rm" and ?ts = "map (\<lambda>sm. fst (transformScope conv sm))"
  have "0 \<notin> ran ids" using ids by (auto simp: linkedIDs_def linked_def ran_def)
  note cached = transformScopes_cached [OF goodBatch_unnumbered [OF assms(2)] this]
  have w: "fst (transformResource conv rm1) = fst (transformResource conv (rm\<lparr>rmScopeMetrics := resolveScopes emit ?reg ?sms\<rparr>))"
  proof -
    have "rm1 = (cacheBatch emit ids rm)\<lparr>rmScopeMetrics := resolveScopes emit (registeredID (sourceOf d rk)) (rmScopeMetrics (cacheBatch emit ids rm))\<rparr>"
      using Annotate_Some [OF assms(3)] rk by auto
    then show ?thesis using cached [of conv emit "registeredID (sourceOf d rk)"]
      by (simp add: transformResource_def cacheBatch_def Let_def)
  qed
  have ws: "rrScopes (fst (transformResource conv rm1)) = ?ts (resolveScopes emit ?reg ?sms)"
    "rrScopes (fst (transformResource conv rm)) = ?ts ?sms"
    by (simp_all add: w) (simp_all add: transformResource_def Let_def)
  have key: "buildResourceKey asString (fst (transformResource conv rm1)) = rk"
    using buildResourceKey_agrees [OF assms(2)] by (simp add: w rk)
  have link: "linkedIDs fmtf ?src ?reg"
    using synced_linkedIDs [OF assms(1), of rk] ids by (auto simp: linkedIDs_def map_add_Some_iff)
  from rehydrate_single [OF assms(4)] obtain src' scs where
    R: "rehydrateScopes fmtf asString rk now ?src (?ts (resolveScopes emit ?reg ?sms)) = (src', scs, as)"
    and cache': "cache' = evictLocked now (cache\<lparr>cSources := (cSources cache)(rk \<mapsto> src')\<rparr>)"
    and md: "md = [(fst (transformResource conv rm1))\<lparr>rrScopes := scs\<rparr>]"
    unfolding key ws(1) by metis
  note wire = wire_scopes [OF assms(2), of ?reg]
  from rehydrateScopes_ok [OF R synced_wf [OF assms(1)] _ wire(1)] wire(2) assms(5)
  have ok: "walkOK fmtf rk (scopeMetricNames asString (?ts (resolveScopes emit ?reg ?sms))) now (scopesCount (?ts ?sms)) ?src src' as"
    and out: "list_all2 (scopeOutcome now ?src src') (?ts (resolveScopes emit ?reg ?sms)) scs"
    by (auto simp: ws)
  from batch_delivered [OF out assms(2) refl link]
  have same: "list_all2 (sameScope fmtf) scs (?ts ?sms)"
    and used: "\<forall>k \<in> batchKeys emit ?sms. \<forall>i. ?reg k = Some i \<longrightarrow> seenSeries src' i = Some now"
    by auto
  have grows: "reg.grows now ?src src'" using ok by (simp add: walkOK_def)
  have used': "\<forall>k \<in> batchKeys emit ?sms. \<forall>i. ?reg k = Some i \<longrightarrow> linked fmtf src' k i now"
  proof (intro ballI allI impI)
    fix k i assume k: "k \<in> batchKeys emit ?sms" "?reg k = Some i"
    obtain ls where ls: "linked fmtf ?src k i ls" using link [unfolded linkedIDs_def, rule_format, OF k(2)] by blast
    have "seenSeries src' i = Some now" using used [rule_format, OF k] .
    then show "linked fmtf src' k i now" using linked_grows [OF ls grows] linked_seen by (metis option.inject)
  qed
  have "saResourceKey a = rk \<and> linked fmtf src' (descriptorKeyFromParts (saScopeKey a) (saMetricType a)
      (saMetricName a) (saAttributesFingerprint a)) (saSeriesID a) now" if "a \<in> set as" for a
  proof -
    have "asgOK fmtf rk (scopeMetricNames asString (?ts (resolveScopes emit ?reg ?sms))) now src' a"
      using ok that by (simp add: walkOK_def)
    moreover from this wire(3) have "clean_scope_key (saScopeKey a)" "bar \<notin> set (saMetricName a)"
      by (auto simp: asgOK_def)
    ultimately show ?thesis
      unfolding asgOK_def linked_def by metis
  qed
  with ok used' same cache' md show thesis
    by (intro that [of src' "(fst (transformResource conv rm1))\<lparr>rrScopes := scs\<rparr>"])
      (auto simp: walkOK_def sameResource_def w, auto simp: transformResource_def Let_def comp_def)
qed

lemma sweep_entry:
  assumes "dSources (sweep gen d) rk = Some s" "ssEntries s k = Some e"
  obtains s0 where "dSources d rk = Some s0" "ssEntries s0 k = Some e"
    and "staleGenerations < gen \<Longrightarrow> \<not> eLastGen e < gen - staleGenerations"
proof (cases "gen \<le> staleGenerations")
  case True
  with assms that show thesis by (simp add: sweep_def linorder_not_le)
next
  case False
  with assms obtain s0 where "dSources d rk = Some s0" "s = sweepEntries (gen - staleGenerations) s0"
    by (auto simp: sweep_def)
  with assms(2) that show thesis
    by (auto simp: sweepEntries_def split: option.splits if_splits)
qed

lemma annotate_entry:
  assumes "Annotate emit (d, c) (Some rm) = ((d1, c1), rm1)" and rk: "rk = resourceKey emit (rmResource rm)"
    and "dSources d1 rk' = Some s1" "ssEntries s1 k = Some e1"
  shows "eLastGen e1 = dGeneration d + 1 \<or> (\<exists>s. dSources d rk' = Some s \<and> ssEntries s k = Some e1)"
    and "eRegistered e1 \<Longrightarrow> \<exists>s e. dSources d rk' = Some s \<and> ssEntries s k = Some e \<and> eRegistered e \<and> eId e1 = eId e \<and>
      (e1 = e \<or> rk' = rk \<and> k \<in> batchKeys emit (rmScopeMetrics rm) \<and> eLastGen e1 = dGeneration d + 1)"
    and "staleGenerations < dGeneration d + 1 \<Longrightarrow> \<not> eLastGen e1 < dGeneration d + 1 - staleGenerations"
proof -
  let ?gen = "dGeneration d + 1" and ?K = "batchKeys emit (rmScopeMetrics rm)"
  obtain s2 where d1: "d1 = sweep ?gen (d\<lparr>dGeneration := ?gen, dSources := (dSources d)(rk \<mapsto> s2)\<rparr>)"
    and touched: "touched ?gen ?K (sourceOf d rk) s2"
    using Annotate_Some [OF assms(1)] rk by metis
  obtain s0 where s0: "((dSources d)(rk \<mapsto> s2)) rk' = Some s0" "ssEntries s0 k = Some e1"
    and "staleGenerations < ?gen \<Longrightarrow> \<not> eLastGen e1 < ?gen - staleGenerations"
    using sweep_entry [OF assms(3) [unfolded d1] assms(4)] by auto
  then show "staleGenerations < ?gen \<Longrightarrow> \<not> eLastGen e1 < ?gen - staleGenerations" by blast
  have src: "ssEntries (sourceOf d rk) k = Some e \<Longrightarrow> \<exists>s. dSources d rk = Some s \<and> ssEntries s k = Some e" for e
    by (auto simp: sourceOf_def newSource_def split: option.splits)
  show "eLastGen e1 = ?gen \<or> (\<exists>s. dSources d rk' = Some s \<and> ssEntries s k = Some e1)"
    using s0 touched[unfolded touched_def, rule_format, of k] src
    by (cases "rk' = rk") (auto split: option.splits if_splits)
  assume "eRegistered e1"
  show "\<exists>s e. dSources d rk' = Some s \<and> ssEntries s k = Some e \<and> eRegistered e \<and> eId e1 = eId e \<and>
      (e1 = e \<or> rk' = rk \<and> k \<in> ?K \<and> eLastGen e1 = ?gen)"
  proof (cases "rk' = rk")
    case True
    with s0 have "ssEntries s2 k = Some e1" by simp
    from touched_entry [OF touched this \<open>eRegistered e1\<close>] obtain e where
      e: "ssEntries (sourceOf d rk) k = Some e" "e1 = (if k \<in> ?K then e\<lparr>eLastGen := ?gen\<rparr> else e)" .
    from src [OF e(1)] obtain s where "dSources d rk' = Some s" "ssEntries s k = Some e"
      using True by blast
    moreover have "eRegistered e" "eId e1 = eId e" "e1 = e \<or> k \<in> ?K \<and> eLastGen e1 = ?gen"
      using e(2) \<open>eRegistered e1\<close> by (auto split: if_splits)
    ultimately show ?thesis using True by blast
  next
    case False
    with s0 \<open>eRegistered e1\<close> show ?thesis by auto
  qed
qed

lemma evict_keeps:
  assumes "cSources cache rk = Some src" "linked fmtf src k i ls" "now - ls \<le> cTTL cache"
  shows "\<exists>src'. cSources (evictLocked now cache) rk = Some src' \<and> linked fmtf src' k i ls"
proof (cases "cTTL cache \<le> 0")
  case True
  with assms(1,2) show ?thesis by (simp add: evictLocked_def)
next
  case False
  let ?src = "evictSource (now - cTTL cache) src"
  from assms(2) obtain r where r: "scSeries src i = Some r" "srLastSeen r = ls"
    by (auto simp: linked_def seenSeries_def)
  with assms(3) have keep: "scSeries ?src i = Some r"
    by (simp add: evictSource_def)
  with r(1) have "seenSeries ?src i = seenSeries src i" "knownSeries ?src i = knownSeries src i"
    by (simp_all add: seenSeries_def knownSeries_def)
  with assms(2) have "linked fmtf ?src k i ls" by (simp add: linked_def)
  moreover have "cSources (evictLocked now cache) rk = Some ?src"
    using False assms(1) keep by (auto simp: evictLocked_def Let_def)
  ultimately show ?thesis by blast
qed

lemma evict_wf:
  assumes "\<forall>rk src. cSources cache rk = Some src \<longrightarrow> wf_source src" "cSources (evictLocked now cache) rk = Some src"
  shows "wf_source src"
proof (cases "cTTL cache \<le> 0")
  case True
  with assms show ?thesis by (simp add: evictLocked_def)
next
  case False
  with assms(2) obtain src0 where src0: "cSources cache rk = Some src0" "src = evictSource (now - cTTL cache) src0"
    by (auto simp: evictLocked_def Let_def split: option.splits if_splits)
  with assms(1) show ?thesis
    by (auto simp: wf_source_def evictSource_def split: option.splits)
qed

lemma evictLocked_ttl [simp]: "cTTL (evictLocked now cache) = cTTL cache"
  by (simp add: evictLocked_def Let_def)

lemma synced_applyOne:
  assumes "synced fmtf \<Delta> t d cache" "0 \<le> \<Delta>" "cSources cache (aResourceKey a) = Some src"
    and "linked fmtf src (descriptorKeyFromParts (aScopeKey a) (aMetricType a) (aMetricName a)
      (aAttributesFingerprint a)) (aSeriesID a) t"
  shows "synced fmtf \<Delta> t (applyOne a d) cache"
proof -
  let ?k = "descriptorKeyFromParts (aScopeKey a) (aMetricType a) (aMetricName a) (aAttributesFingerprint a)"
  have gen: "dGeneration (applyOne a d) = dGeneration d"
    by (simp add: applyOne_def Let_def)
  have "eLastGen e \<le> dGeneration d \<and> (eRegistered e \<longrightarrow> (\<exists>src ls. cSources cache rk = Some src \<and>
      linked fmtf src k (eId e) ls \<and> t - ls \<le> \<Delta> * (uint (dGeneration d) - uint (eLastGen e))))"
    if "dSources (applyOne a d) rk = Some s" "ssEntries s k = Some e" for rk s k e
  proof (cases "rk = aResourceKey a \<and> k = ?k")
    case False
    with that have "\<exists>s. dSources d rk = Some s \<and> ssEntries s k = Some e"
      by (auto simp: applyOne_def applyAssignment_def Let_def newSource_def split: if_splits option.splits)
    with assms(1) show ?thesis unfolding synced_def by blast
  next
    case True
    with that have e: "eId e = aSeriesID a" "eLastGen e = 0 \<or> (\<exists>s e'. dSources d rk = Some s \<and>
        ssEntries s k = Some e' \<and> eLastGen e = eLastGen e')"
      by (auto simp: applyOne_def applyAssignment_def Let_def newSource_def split: if_splits option.splits)
    with assms(1) have "eLastGen e \<le> dGeneration d"
      unfolding synced_def by fastforce
    moreover from this have "0 \<le> \<Delta> * (uint (dGeneration d) - uint (eLastGen e))"
      using assms(2) by (simp add: word_le_def)
    ultimately show ?thesis
      using True assms(3,4) e(1) by auto
  qed
  with assms(1) show ?thesis
    unfolding synced_def gen by blast
qed

lemma synced_Apply:
  "synced fmtf \<Delta> t d cache \<Longrightarrow> 0 \<le> \<Delta> \<Longrightarrow> \<forall>a \<in> set as. \<exists>src. cSources cache (aResourceKey a) = Some src \<and>
     linked fmtf src (descriptorKeyFromParts (aScopeKey a) (aMetricType a) (aMetricName a)
       (aAttributesFingerprint a)) (aSeriesID a) t \<Longrightarrow>
   synced fmtf \<Delta> t (Apply d as) cache"
  unfolding Apply_def
proof (induction as arbitrary: d)
  case (Cons a as)
  then obtain src where "cSources cache (aResourceKey a) = Some src"
    "linked fmtf src (descriptorKeyFromParts (aScopeKey a) (aMetricType a) (aMetricName a)
       (aAttributesFingerprint a)) (aSeriesID a) t" by auto
  with Cons show ?case by (simp add: synced_applyOne)
qed simp

lemma fresh_generations:
  fixes gen lg :: u64
  assumes "unat gen < 2 ^ 64 - 1" "lg \<le> gen + 1"
    and "staleGenerations < gen + 1 \<Longrightarrow> \<not> lg < gen + 1 - staleGenerations"
  shows "uint (gen + 1) = uint gen + 1" and "uint (gen + 1) - uint lg \<le> 5"
proof -
  show *: "uint (gen + 1) = uint gen + 1"
    using u64_succ(1) [OF assms(1)] by (metis of_nat_1 of_nat_add uint_nat)
  show "uint (gen + 1) - uint lg \<le> 5"
  proof (cases "staleGenerations < gen + 1")
    case True
    then have "uint (gen + 1 - staleGenerations) = uint (gen + 1) - 5"
      by (subst uint_sub_lem [THEN iffD1]) (simp_all add: staleGenerations_def word_less_def word_le_def)
    with assms(3) [OF True] show ?thesis by (simp add: word_less_def)
  next
    case False
    then have "uint (gen + 1) \<le> 5"
      by (simp add: staleGenerations_def word_less_def linorder_not_less)
    then show ?thesis using uint_ge_0 [of lg] by linarith
  qed
qed

lemma synced_annotated:
  assumes inv: "synced fmtf \<Delta> t d cache" and A: "Annotate emit (d, c) (Some rm) = ((d1, c1), rm1)"
    and rk: "rk = resourceKey emit (rmResource rm)"
    and cache': "cache' = evictLocked now (cache\<lparr>cSources := (cSources cache)(rk \<mapsto> src')\<rparr>)"
    and wf: "wf_source src'" and grows: "reg.grows now (cacheSourceOf cache rk) src'"
    and used: "\<forall>k \<in> batchKeys emit (rmScopeMetrics rm). \<forall>i. registeredID (sourceOf d rk) k = Some i \<longrightarrow> seenSeries src' i = Some now"
    and time: "now \<le> t + \<Delta>" "0 \<le> \<Delta>" "5 * \<Delta> \<le> cTTL cache" and gen: "unat (dGeneration d) < 2 ^ 64 - 1"
  shows "synced fmtf \<Delta> now d1 cache'"
proof -
  let ?gen = "dGeneration d + 1" and ?cache = "cache\<lparr>cSources := (cSources cache)(rk \<mapsto> src')\<rparr>"
  have d1: "dGeneration d1 = ?gen"
    by (rule Annotate_generation [OF A])
  have le_gen: "e' \<le> ?gen" if "e' \<le> dGeneration d" for e'
    using that u64_succ(2) [OF gen] by (meson le_less_trans less_imp_le)
  have entry: "eLastGen e1 \<le> ?gen \<and> (eRegistered e1 \<longrightarrow> (\<exists>src ls. cSources cache' rk' = Some src \<and>
      linked fmtf src k (eId e1) ls \<and> now - ls \<le> \<Delta> * (uint ?gen - uint (eLastGen e1))))"
    if s1: "dSources d1 rk' = Some s1" "ssEntries s1 k = Some e1" for rk' s1 k e1
  proof -
    note ent = annotate_entry [OF A rk s1]
    have last: "eLastGen e1 \<le> ?gen"
      using ent(1) inv le_gen unfolding synced_def by fastforce
    note fresh = fresh_generations [OF gen last ent(3)]
    have nonneg: "0 \<le> \<Delta> * (uint ?gen - uint (eLastGen e1))"
      using last time(2) by (simp add: word_le_def)
    have "\<exists>src ls. cSources cache' rk' = Some src \<and> linked fmtf src k (eId e1) ls \<and>
      now - ls \<le> \<Delta> * (uint ?gen - uint (eLastGen e1))" if reg1: "eRegistered e1"
    proof -
      obtain s e where e: "dSources d rk' = Some s" "ssEntries s k = Some e" "eRegistered e" "eId e1 = eId e"
        and cases: "e1 = e \<or> rk' = rk \<and> k \<in> batchKeys emit (rmScopeMetrics rm) \<and> eLastGen e1 = ?gen"
        using ent(2) [OF reg1] by blast
      from inv e obtain src ls where src: "cSources cache rk' = Some src" "linked fmtf src k (eId e1) ls"
        and ls: "t - ls \<le> \<Delta> * (uint (dGeneration d) - uint (eLastGen e))"
        unfolding synced_def by metis
      have "\<exists>src2 ls2. cSources ?cache rk' = Some src2 \<and> linked fmtf src2 k (eId e1) ls2 \<and>
          (ls2 = now \<or> ls2 = ls \<and> e1 = e)"
      proof (cases "rk' = rk")
        case False
        with src cases show ?thesis by auto
      next
        case True
        have "registeredID (sourceOf d rk) k = Some (eId e1)"
          using e True by (simp add: registeredID_def sourceOf_def)
        then have seen: "k \<in> batchKeys emit (rmScopeMetrics rm) \<Longrightarrow> seenSeries src' (eId e1) = Some now"
          using used by blast
        obtain ls2 where ls2: "linked fmtf src' k (eId e1) ls2" "ls2 = ls \<or> ls2 = now"
          using linked_grows [OF src(2)] grows src(1) True by (auto simp: cacheSourceOf_def)
        with cases seen have "ls2 = now \<or> ls2 = ls \<and> e1 = e"
          by (auto dest: linked_seen)
        with ls2(1) True show ?thesis by auto
      qed
      then obtain src2 ls2 where src2: "cSources ?cache rk' = Some src2" "linked fmtf src2 k (eId e1) ls2"
        and ls2: "ls2 = now \<or> ls2 = ls \<and> e1 = e" by blast
      have bound: "now - ls2 \<le> \<Delta> * (uint ?gen - uint (eLastGen e1))"
        using ls2 ls time(1) nonneg fresh(1) by (auto simp: algebra_simps)
      also have "\<dots> \<le> \<Delta> * 5"
        using fresh(2) time(2) by (intro mult_left_mono) auto
      finally have "now - ls2 \<le> cTTL ?cache"
        using time(3) by simp
      from evict_keeps [OF src2 this] bound show ?thesis
        unfolding cache' by blast
    qed
    with last show ?thesis by blast
  qed
  have "wf_source src" if "cSources cache' rk' = Some src" for rk' src
    using evict_wf [of ?cache now rk' src] that inv wf unfolding cache' synced_def by auto
  with entry show ?thesis
    unfolding synced_def d1 by blast
qed

text \<open>
  The IDs an aggregator may have cached: \<open>G\<close> holds, for a source, the descriptors that an export has sent as an ID, with the time of
  that export. While that is not longer ago than the time to live, the collector knows them.
\<close>

definition remembered :: "(char \<Rightarrow> f64 \<Rightarrow> string) \<Rightarrow> int \<Rightarrow> (string \<times> string \<times> u64 \<times> int) set \<Rightarrow> seriesCache \<Rightarrow> bool" where
  "remembered fmtf t G cache \<longleftrightarrow> (\<forall>rk k i u. (rk, k, i, u) \<in> G \<longrightarrow> u \<le> t \<and>
     (t \<le> u + cTTL cache \<longrightarrow> (\<exists>src ls. cSources cache rk = Some src \<and> linked fmtf src k i ls \<and> u \<le> ls)))"

definition sentIDs ::
  "('v \<Rightarrow> string) \<Rightarrow> Dictionary \<Rightarrow> (string \<Rightarrow> u64 option) \<Rightarrow> int \<Rightarrow> 'v resource_metrics \<Rightarrow> (string \<times> string \<times> u64 \<times> int) set" where
  "sentIDs emit d ids now rm = (let rk = resourceKey emit (rmResource rm)
     in {(rk, k, i, now) | k i. k \<in> batchKeys emit (rmScopeMetrics rm) \<and> (registeredID (sourceOf d rk) ++ ids) k = Some i})"

definition usable :: "(string \<times> string \<times> u64 \<times> int) set \<Rightarrow> int \<Rightarrow> int \<Rightarrow> string \<Rightarrow> (string \<Rightarrow> u64 option) \<Rightarrow> bool" where
  "usable G ttl now rk ids \<longleftrightarrow> (\<forall>k i. ids k = Some i \<longrightarrow> (\<exists>u. (rk, k, i, u) \<in> G \<and> now \<le> u + ttl))"

lemma usable_linked:
  assumes "remembered fmtf t G cache" "usable G (cTTL cache) now rk ids" "t \<le> now"
  shows "linkedIDs fmtf (cacheSourceOf cache rk) ids"
  unfolding linkedIDs_def
proof (intro allI impI)
  fix k i assume "ids k = Some i"
  then obtain u where "(rk, k, i, u) \<in> G" "t \<le> u + cTTL cache" using assms(2,3) unfolding usable_def by force
  then obtain src ls where "cSources cache rk = Some src" "linked fmtf src k i ls" using assms(1) unfolding remembered_def by blast
  then show "\<exists>ls. linked fmtf (cacheSourceOf cache rk) k i ls" by (auto simp: cacheSourceOf_def)
qed

lemma remembered_round:
  assumes G: "remembered fmtf t G cache" and time: "t \<le> now" "0 \<le> cTTL cache"
    and cache': "cache' = evictLocked now (cache\<lparr>cSources := (cSources cache)(rk \<mapsto> src')\<rparr>)"
    and grows: "reg.grows now (cacheSourceOf cache rk) src'"
    and new: "\<forall>(rk', k, i, u) \<in> N. rk' = rk \<and> u = now \<and> linked fmtf src' k i now"
  shows "remembered fmtf now (G \<union> N) cache'"
  unfolding remembered_def
proof (intro allI impI)
  fix rk' k i u assume "(rk', k, i, u) \<in> G \<union> N"
  let ?cache = "cache\<lparr>cSources := (cSources cache)(rk \<mapsto> src')\<rparr>"
  have ttl: "cTTL cache' = cTTL cache" by (simp add: cache')
  show "u \<le> now \<and> (now \<le> u + cTTL cache' \<longrightarrow> (\<exists>src ls. cSources cache' rk' = Some src \<and> linked fmtf src k i ls \<and> u \<le> ls))"
  proof (cases "(rk', k, i, u) \<in> N")
    case True
    then have n: "rk' = rk" "u = now" "linked fmtf src' k i now" using new by auto
    have "\<exists>src. cSources (evictLocked now ?cache) rk' = Some src \<and> linked fmtf src k i now"
      using n time(2) by (intro evict_keeps [of _ _ src']) auto
    then show ?thesis using n unfolding cache' by auto
  next
    case False
    then have old: "(rk', k, i, u) \<in> G" using \<open>_ \<in> G \<union> N\<close> by simp
    then have u: "u \<le> t" using G unfolding remembered_def by blast
    have "\<exists>src ls. cSources cache' rk' = Some src \<and> linked fmtf src k i ls \<and> u \<le> ls" if now: "now \<le> u + cTTL cache"
    proof -
      obtain src ls where src: "cSources cache rk' = Some src" "linked fmtf src k i ls" "u \<le> ls"
        using G old now time(1) unfolding remembered_def by (meson order_trans)
      obtain src2 ls2 where src2: "cSources ?cache rk' = Some src2" "linked fmtf src2 k i ls2" "u \<le> ls2"
      proof (cases "rk' = rk")
        case True
        then have "linked fmtf src' k i ls \<or> linked fmtf src' k i now" using linked_grows [OF src(2)] grows src(1) by (simp add: cacheSourceOf_def)
        then show thesis using that [of src'] True src(3) u time(1) by auto
      next
        case False
        then show thesis using that src by simp
      qed
      have "now - ls2 \<le> cTTL ?cache" using now src2(3) by simp
      from evict_keeps [OF src2(1,2) this] show ?thesis using src2(3) unfolding cache' by blast
    qed
    then show ?thesis using u time(1) ttl by simp
  qed
qed

lemma synced_round:
  assumes inv: "synced fmtf \<Delta> t d cache" and good: "goodBatch emit conv fmtf asString rm"
    and round: "exportRound emit conv fmtf asString consume net now (d, c, cache) (cacheBatch emit ids rm) = ((d', c', cache'), consumed)"
    and net: "net \<noteq> RequestLost"
    and room: "scopesCount (rrScopes (fst (transformResource conv rm))) \<le>
      idsLeft (cacheSourceOf cache (resourceKey emit (rmResource rm)))"
    and time: "now \<le> t + \<Delta>" "0 \<le> \<Delta>" "5 * \<Delta> \<le> cTTL cache" and gen: "unat (dGeneration d) < 2 ^ 64 - 1"
    and G: "remembered fmtf t G cache" "usable G (cTTL cache) now (resourceKey emit (rmResource rm)) ids" "t \<le> now"
  shows "synced fmtf \<Delta> now d' cache'" and "cTTL cache' = cTTL cache"
    and "dGeneration d' = dGeneration d + 1"
    and "\<exists>rr. sameResource fmtf rr (fst (transformResource conv rm)) \<and>
      consumed = (if dataPointCount [rr] = 0 then None else Some [rr])"
    and "remembered fmtf now (G \<union> sentIDs emit d ids now rm) cache'"
proof -
  let ?rk = "resourceKey emit (rmResource rm)"
  let ?reg = "registeredID (sourceOf d ?rk)"
  have link: "linkedIDs fmtf (cacheSourceOf cache ?rk) ids" by (rule usable_linked [OF G])
  obtain d1 rm1 md as where A: "Annotate emit (d, c) (Some (cacheBatch emit ids rm)) = ((d1, c'), Some rm1)"
    and R: "rehydrate fmtf asString now cache [fst (transformResource conv rm1)] = (cache', md, as)"
    and d': "d' = d1 \<or> d' = applySeriesAssignments d1 \<lparr>rsSeriesAssignments = as, rsUnknownSeriesIds = []\<rparr>"
    and consumed: "consumed = (if dataPointCount md = 0 then None else Some md)"
    using exportRound_cases [OF round net] by blast
  obtain src' rr where cache': "cache' = evictLocked now (cache\<lparr>cSources := (cSources cache)(?rk \<mapsto> src')\<rparr>)"
    and wf: "wf_source src'" and grows: "reg.grows now (cacheSourceOf cache ?rk) src'"
    and used: "\<forall>k \<in> batchKeys emit (rmScopeMetrics rm). \<forall>i. (?reg ++ ids) k = Some i \<longrightarrow> linked fmtf src' k i now"
    and asg: "\<forall>a \<in> set as. saResourceKey a = ?rk \<and> linked fmtf src' (descriptorKeyFromParts (saScopeKey a)
      (saMetricType a) (saMetricName a) (saAttributesFingerprint a)) (saSeriesID a) now"
    and md: "md = [rr]" "sameResource fmtf rr (fst (transformResource conv rm))"
    using collector_round [OF inv good A R room refl link] by metis
  have "0 \<notin> ran ids" using link by (auto simp: linkedIDs_def linked_def ran_def)
  note keys = cached_keys [OF goodBatch_unnumbered [OF good] this]
  have seen: "\<forall>k \<in> batchKeys emit (rmScopeMetrics (cacheBatch emit ids rm)). \<forall>i. ?reg k = Some i \<longrightarrow> seenSeries src' i = Some now"
    using used keys linked_seen by (metis map_add_find_right map_add_dom_app_simps(3) domIff)
  show "remembered fmtf now (G \<union> sentIDs emit d ids now rm) cache'"
    using used time by (intro remembered_round [OF G(1,3) _ cache' grows]) (auto simp: sentIDs_def Let_def)
  have sync1: "synced fmtf \<Delta> now d1 cache'"
    by (rule synced_annotated [OF inv A _ cache' wf grows seen time gen]) simp
  show "cTTL cache' = cTTL cache" by (simp add: cache')
  have gen1: "dGeneration d1 = dGeneration d + 1"
    by (rule Annotate_generation [OF A])
  have "dGeneration (fold applyOne xs d1) = dGeneration d1" for xs
    by (induction xs arbitrary: d1) (simp_all add: applyOne_def Let_def)
  with gen1 d' show "dGeneration d' = dGeneration d + 1"
    by (auto simp: applySeriesAssignments_def Apply_def)
  have "\<exists>src. cSources cache' (saResourceKey a) = Some src \<and> linked fmtf src (descriptorKeyFromParts (saScopeKey a)
      (saMetricType a) (saMetricName a) (saAttributesFingerprint a)) (saSeriesID a) now" if "a \<in> set as" for a
    unfolding cache' using asg that time by (intro evict_keeps) auto
  with synced_Apply [OF sync1 time(2)] sync1 d' show "synced fmtf \<Delta> now d' cache'"
    by (auto simp: applySeriesAssignments_def)
  show "\<exists>rr. sameResource fmtf rr (fst (transformResource conv rm)) \<and>
      consumed = (if dataPointCount [rr] = 0 then None else Some [rr])"
    using md consumed by blast
qed

text \<open>
  A session: an SDK exporting to a collector, batch after batch, at most \<open>\<Delta>\<close> apart. Every request
  reaches the collector; replies may be lost and the consumer may fail. Points may carry IDs that an
  earlier export has sent for their series, if the last such export is not longer ago than the time to live. The IDs and the generation
  counter do not run out.
\<close>

inductive session ::
  "('v \<Rightarrow> string) \<Rightarrow> ('v \<Rightarrow> pvalue) \<Rightarrow> (char \<Rightarrow> f64 \<Rightarrow> string) \<Rightarrow> (pvalue \<Rightarrow> string) \<Rightarrow> (rresource list \<Rightarrow> 'e option) \<Rightarrow>
     int \<Rightarrow> int \<Rightarrow> nat \<Rightarrow> int \<Rightarrow> (string \<times> string \<times> u64 \<times> int) set \<Rightarrow> Dictionary \<times> 'v cells \<times> seriesCache \<Rightarrow> bool"
  for emit conv fmtf asString consume \<Delta> ttl where
  start: "session emit conv fmtf asString consume \<Delta> ttl 0 t {} (NewDictionary, c, newSeriesCache ttl)"
| round: "session emit conv fmtf asString consume \<Delta> ttl n t G (d, c, cache) \<Longrightarrow>
    goodBatch emit conv fmtf asString rm \<Longrightarrow> t \<le> now \<Longrightarrow> now \<le> t + \<Delta> \<Longrightarrow> n < 2 ^ 64 - 1 \<Longrightarrow> net \<noteq> RequestLost \<Longrightarrow>
    scopesCount (rrScopes (fst (transformResource conv rm))) \<le>
      idsLeft (cacheSourceOf cache (resourceKey emit (rmResource rm))) \<Longrightarrow>
    usable G ttl now (resourceKey emit (rmResource rm)) ids \<Longrightarrow>
    fst (exportRound emit conv fmtf asString consume net now (d, c, cache) (cacheBatch emit ids rm)) = st' \<Longrightarrow>
    session emit conv fmtf asString consume \<Delta> ttl (n + 1) now (G \<union> sentIDs emit d ids now rm) st'"

lemma session_invariant:
  assumes "session emit conv fmtf asString consume \<Delta> ttl n t G st" "0 \<le> \<Delta>" "5 * \<Delta> \<le> ttl"
  shows "synced fmtf \<Delta> t (fst st) (snd (snd st)) \<and> cTTL (snd (snd st)) = ttl \<and> unat (dGeneration (fst st)) = n \<and>
    remembered fmtf t G (snd (snd st))"
  using assms(1)
proof (induction rule: session.induct)
  case (start t c)
  then show ?case
    by (simp add: synced_initial remembered_def) (simp add: newSeriesCache_def NewDictionary_def)
next
  case (round n t G d c cache rm now net ids st')
  obtain d' c' cache' consumed where
    r: "exportRound emit conv fmtf asString consume net now (d, c, cache) (cacheBatch emit ids rm) = ((d', c', cache'), consumed)"
    by (metis prod.exhaust)
  have gen: "unat (dGeneration d) < 2 ^ 64 - 1" "unat (dGeneration d) = n" and ttl: "5 * \<Delta> \<le> cTTL cache"
    using round assms by auto
  from round.IH have inv: "synced fmtf \<Delta> t d cache" "cTTL cache = ttl" "remembered fmtf t G cache" by simp_all
  have use: "usable G (cTTL cache) now (resourceKey emit (rmResource rm)) ids" using round.hyps(8) inv(2) by simp
  note step = synced_round [OF inv(1) round.hyps(2) r round.hyps(6,7,4) assms(2) ttl gen(1) inv(3) use round.hyps(3)]
  have st': "st' = (d', c', cache')" using round.hyps(9) r by simp
  show ?case
    using step(1-3,5) inv(2) u64_succ(1) [OF gen(1)] gen(2) by (simp add: st')
qed

lemma sameResource_count:
  assumes "sameResource fmtf rr rr'"
  shows "dataPointCount [rr] = dataPointCount [rr']"
proof -
  have m: "sameMetric fmtf m m' \<Longrightarrow> length (rmPoints m) = length (rmPoints m')" for m m'
    by (auto simp: sameMetric_def dest: list_all2_lengthD)
  have "list_all2 (sameMetric fmtf) ms ms' \<Longrightarrow> metricsCount ms = metricsCount ms'" for ms ms'
    by (induction rule: list_all2_induct) (auto simp: metricsCount_def m)
  then have sc: "sameScope fmtf sc sc' \<Longrightarrow> metricsCount (rsMetrics sc) = metricsCount (rsMetrics sc')" for sc sc'
    by (auto simp: sameScope_def)
  have "list_all2 (sameScope fmtf) scs scs' \<Longrightarrow> scopesCount scs = scopesCount scs'" for scs scs'
    by (induction rule: list_all2_induct) (auto simp: scopesCount_def sc)
  with assms show ?thesis by (auto simp: dataPointCount_def sameResource_def)
qed

text \<open>
  Property C9. The series dictionary is transparent up to the attribute fingerprint. In a session whose exports are at most \<open>\<Delta>\<close>
  apart with \<open>5 * \<Delta>\<close> no more than the collector's time to live, and of which every request reaches the
  collector, an export hands the next consumer the telemetry as measured: the same resource, scopes, metrics and points, each point with
  attributes of the same fingerprint, although confirmed series travel as bare IDs, points carry IDs that the aggregators cached from earlier exports (the last
  one within the time to live) and no attributes, replies get lost, the dictionary drops
  stale entries and the collector drops old records. Metric names and scope parts do not contain
  the separator, both sides spell the values in use alike, and the IDs do not run out.
\<close>
theorem dictionary_transparent:
  assumes "session emit conv fmtf asString consume \<Delta> ttl n t G (d, c, cache)" "0 \<le> \<Delta>" "5 * \<Delta> \<le> ttl"
    and "goodBatch emit conv fmtf asString rm" "t \<le> now" "now \<le> t + \<Delta>" "n < 2 ^ 64 - 1" "net \<noteq> RequestLost"
    and "scopesCount (rrScopes (fst (transformResource conv rm))) \<le>
      idsLeft (cacheSourceOf cache (resourceKey emit (rmResource rm)))"
    and "dataPointCount [fst (transformResource conv rm)] \<noteq> 0"
    and "usable G ttl now (resourceKey emit (rmResource rm)) ids"
  shows "\<exists>rr. snd (exportRound emit conv fmtf asString consume net now (d, c, cache) (cacheBatch emit ids rm)) = Some [rr] \<and>
    sameResource fmtf rr (fst (transformResource conv rm))"
proof -
  obtain d' c' cache' consumed where
    r: "exportRound emit conv fmtf asString consume net now (d, c, cache) (cacheBatch emit ids rm) = ((d', c', cache'), consumed)"
    by (metis prod.exhaust)
  have inv: "synced fmtf \<Delta> t d cache" "cTTL cache = ttl" "unat (dGeneration d) = n" "remembered fmtf t G cache"
    using session_invariant [OF assms(1-3)] by auto
  obtain rr where "sameResource fmtf rr (fst (transformResource conv rm))"
    "consumed = (if dataPointCount [rr] = 0 then None else Some [rr])"
    using synced_round(4) [OF inv(1) assms(4) r assms(8,9,6,2) _ _ inv(4) _ assms(5)] assms(3,7,11) inv(2,3) by auto
  with sameResource_count assms(10) r show ?thesis by auto
qed

text \<open>A batch with one gauge point, its values strings.\<close>

definition exampleBatch :: "string resource_metrics" where
  "exampleBatch = \<lparr>rmResource = None, rmScopeMetrics = [(\<lparr>scName = ''lib'', scVersion = '''', scSchemaURL = '''',
     scAttributes = []\<rparr>, [\<lparr>mName = ''cpu'', mKind = Gauge NInt, mTemporality = CumulativeTemporality,
       mPoints = [\<lparr>dpSeriesID = 0, dpAttrs = [(''host'', ''a'')], dpEncoding = EUnknown, dpSink = None,
         dpClearer = None\<rparr>]\<rparr>])]\<rparr>"

definition exampleText :: "pvalue \<Rightarrow> string" where
  "exampleText v = (case v of VStr s \<Rightarrow> s | _ \<Rightarrow> '''')"

lemmas example_defs = exampleBatch_def exampleText_def goodBatch_def goodMetric_def agreed_def clean_scope_def
  clean_attrs_def bar_def transformResource_def transformScope_def transformMetric_def transformPoint_def
  seriesIdentity_def convAttrs_def scopesCount_def metricsCount_def dataPointCount_def cacheSourceOf_def
  newSeriesCache_def newSeriesSource_def idsLeft_def

lemma example_good: "goodBatch (\<lambda>s. s) VStr fmtf exampleText exampleBatch"
  by (simp add: example_defs)

lemma example_room: "scopesCount (rrScopes (fst (transformResource VStr exampleBatch))) \<le>
    idsLeft (cacheSourceOf (newSeriesCache ttl) rk)"
  by (simp add: example_defs)

definition exampleState :: "Dictionary \<times> string cells \<times> seriesCache" where
  "exampleState = fst (exportRound (\<lambda>s. s) VStr (\<lambda>_ _. '''') exampleText (\<lambda>_. None::unit option) Delivered 0
     (NewDictionary, \<lparr>sidCell = (\<lambda>_. 0), attrCell = (\<lambda>_. [])\<rparr>, newSeriesCache 50) exampleBatch)"

lemma cacheBatch_empty [simp]: "cacheBatch emit (\<lambda>_. None) rm = rm"
  by (simp add: cacheBatch_def cacheMetric_def [abs_def] cachePoint_def)

lemma usable_empty [simp]: "usable G ttl now rk (\<lambda>_. None)"
  by (simp add: usable_def)

lemma example_first_round:
  "session (\<lambda>s. s) VStr (\<lambda>_ _. '''') exampleText (\<lambda>_. None::unit option) 10 50 (0 + 1) 0
     ({} \<union> sentIDs (\<lambda>s. s) NewDictionary (\<lambda>_. None) 0 exampleBatch)
     (fst exampleState, fst (snd exampleState), snd (snd exampleState))"
  by (rule session.round [OF session.start [where t = 0] example_good _ _ _ _ example_room, where net = Delivered and ids = "\<lambda>_. None"])
    (simp_all add: exampleState_def)

lemma example_count: "dataPointCount [fst (transformResource VStr exampleBatch)] \<noteq> 0"
  by (simp add: example_defs)

lemmas round_defs = exportRound_def ExporterExport_def ReceiverExport_def Annotate_def SeriesDict.getOrCreateSource_def
  annotateMetric_def annotatePoint_def assignSeriesID_def lookupEntry_def writeBack_def sweep_def sweepEntries_def
  staleGenerations_def NewDictionary_def newSource_def rehydrate_def SeriesCache.getOrCreateSource_def
  rehydrateMetricLocked_def rehydrateTypeOf_def rehydrateDataPointLocked_def assignSeries_def evictLocked_def
  evictSource_def applySeriesAssignments_def applyUnknownSeriesIds_def Apply_def applyOne_def applyAssignment_def
  populateSeriesAssignments_def buildResourceKey_def buildScopeKey_def appendSortedAttributes_def
  fingerprintAttributes_def descriptorKey_def descriptorKeyFromParts_def attributesFingerprint_def kvs_string_def
  resourceKey_def resSchema_def appendAttributeSlice_def scopeKey_def appendAttributes_def hydrateFromSeries_def

lemma example_room2: "scopesCount (rrScopes (fst (transformResource VStr exampleBatch))) \<le>
    idsLeft (cacheSourceOf (snd (snd exampleState)) (resourceKey (\<lambda>s. s) (rmResource exampleBatch)))"
  by (simp add: exampleState_def example_defs round_defs Let_def)

text \<open>
  The second export sends the confirmed ID, which the aggregator caches; the third one, whose reply is lost, carries the ID and no attributes.
\<close>

definition exampleState2 :: "Dictionary \<times> string cells \<times> seriesCache" where
  "exampleState2 = fst (exportRound (\<lambda>s. s) VStr (\<lambda>_ _. '''') exampleText (\<lambda>_. None::unit option) Delivered 5
     (fst exampleState, fst (snd exampleState), snd (snd exampleState)) exampleBatch)"

definition exampleKey :: string where
  "exampleKey = descriptorKey (\<lambda>s. s) (scopeKey (\<lambda>s. s) \<lparr>scName = ''lib'', scVersion = '''', scSchemaURL = '''', scAttributes = []\<rparr>)
     ''cpu'' ''gauge_int'' [(''host'', ''a'')]"

lemma example_second_round:
  "session (\<lambda>s. s) VStr (\<lambda>_ _. '''') exampleText (\<lambda>_. None::unit option) 10 50 (0 + 1 + 1) 5
     (({} \<union> sentIDs (\<lambda>s. s) NewDictionary (\<lambda>_. None) 0 exampleBatch) \<union> sentIDs (\<lambda>s. s) (fst exampleState) (\<lambda>_. None) 5 exampleBatch)
     (fst exampleState2, fst (snd exampleState2), snd (snd exampleState2))"
  by (rule session.round [OF example_first_round example_good _ _ _ _ example_room2, where net = Delivered and ids = "\<lambda>_. None"])
    (simp_all add: exampleState2_def)

lemma example_value: "exampleState =
    (\<lparr>dGeneration = 1, dSources = [''|'' \<mapsto> \<lparr>ssNextID = 2, ssEntries = [''lib||||gauge_int|cpu|host=a|'' \<mapsto>
        \<lparr>eId = 1, eRegistered = True, eLastGen = 1\<rparr>]\<rparr>]\<rparr>,
     \<lparr>sidCell = (\<lambda>_. 0), attrCell = (\<lambda>_. [])\<rparr>,
     \<lparr>cTTL = 50, cSources = [''|'' \<mapsto> \<lparr>scNextID = 2, scSeries = [1 \<mapsto>
        \<lparr>srMetricName = ''cpu'', srDataType = MGauge, srAttrs = [(''host'', VStr ''a'')], srLastSeen = 0\<rparr>]\<rparr>]\<rparr>)"
  by (simp add: exampleState_def example_defs round_defs Let_def) (auto simp: evictSource_def Let_def fun_eq_iff)

lemma example_room3: "scopesCount (rrScopes (fst (transformResource VStr exampleBatch))) \<le>
    idsLeft (cacheSourceOf (snd (snd exampleState2)) (resourceKey (\<lambda>s. s) (rmResource exampleBatch)))"
  by (simp add: exampleState2_def example_value example_defs round_defs Let_def)

lemma example_registered: "registeredID (sourceOf (fst exampleState) (resourceKey (\<lambda>s. s) (rmResource exampleBatch))) exampleKey = Some 1"
  by (simp add: example_value exampleKey_def example_defs round_defs registeredID_def sourceOf_def)

lemma example_cached: "usable (({} \<union> sentIDs (\<lambda>s. s) NewDictionary (\<lambda>_. None) 0 exampleBatch) \<union> sentIDs (\<lambda>s. s) (fst exampleState) (\<lambda>_. None) 5 exampleBatch)
    50 7 (resourceKey (\<lambda>s. s) (rmResource exampleBatch)) [exampleKey \<mapsto> 1]"
proof -
  have "exampleKey \<in> batchKeys (\<lambda>s. s) (rmScopeMetrics exampleBatch)"
    by (auto simp: exampleBatch_def exampleKey_def batchKeys_def metricKeys_def pointKeys_def)
  then have "(resourceKey (\<lambda>s. s) (rmResource exampleBatch), exampleKey, 1, 5) \<in> sentIDs (\<lambda>s. s) (fst exampleState) (\<lambda>_. None) 5 exampleBatch"
    using example_registered by (simp add: sentIDs_def Let_def map_add_def)
  then show ?thesis by (force simp: usable_def split: if_splits)
qed

theorem dictionary_transparent_witness:
  "\<exists>rr. snd (exportRound (\<lambda>s. s) VStr (\<lambda>_ _. '''') exampleText (\<lambda>_. None::unit option) ReplyLost 7
        (fst exampleState2, fst (snd exampleState2), snd (snd exampleState2)) (cacheBatch (\<lambda>s. s) [exampleKey \<mapsto> 1] exampleBatch))
      = Some [rr] \<and> sameResource (\<lambda>_ _. '''') rr (fst (transformResource VStr exampleBatch))"
  by (rule dictionary_transparent [OF example_second_round _ _ example_good _ _ _ _ example_room3 example_count example_cached]) simp_all

section \<open>Further properties of the protocol\<close>

text \<open>
  The descriptor key identifies a series: when scope parts, metric names and the
  spelled attributes do not contain the separators, two points have the same key only if they
  agree on the scope key, the metric type, the metric name and the attributes as spelled.
\<close>
theorem descriptorKey_identifies:
  assumes "clean_scope emit sc" "clean_scope emit sc'" "bar \<notin> set n" "bar \<notin> set n'"
    and "clean_attrs emit as" "clean_attrs emit as'"
    and "descriptorKey emit (scopeKey emit sc) n (metricTypeSDK k) as =
      descriptorKey emit (scopeKey emit sc') n' (metricTypeSDK k') as'"
  shows "scopeKey emit sc = scopeKey emit sc' \<and> n = n' \<and> metricTypeSDK k = metricTypeSDK k' \<and>
    mset (map (\<lambda>(k, v). (k, emit v)) as) = mset (map (\<lambda>(k, v). (k, emit v)) as')"
proof -
  have "scopeKey emit sc = scopeKey emit sc' \<and> metricTypeSDK k = metricTypeSDK k' \<and> n = n' \<and>
      attributesFingerprint emit as = attributesFingerprint emit as'"
    using assms descriptorKeyFromParts_inj [OF clean_scope_key_scopeKey clean_scope_key_scopeKey
        metricTypeSDK_clean metricTypeSDK_clean]
    unfolding descriptorKey_def by blast
  with attributesFingerprint_inj [OF assms(5,6)] show ?thesis by blast
qed

theorem descriptorKey_identifies_witness:
  "descriptorKey (\<lambda>s. s) (scopeKey (\<lambda>s. s) \<lparr>scName = ''lib'', scVersion = '''', scSchemaURL = '''', scAttributes = []\<rparr>)
     ''cpu'' (metricTypeSDK HLLSketch) [(''b'', ''1''), (''a'', ''2'')] =
   descriptorKey (\<lambda>s. s) (scopeKey (\<lambda>s. s) \<lparr>scName = ''lib'', scVersion = '''', scSchemaURL = '''', scAttributes = []\<rparr>)
     ''cpu'' (metricTypeSDK HLLSketch) [(''a'', ''2''), (''b'', ''1'')] \<and>
   mset (map (\<lambda>(k, v). (k, v)) [(''b'', ''1''), (''a'', ''2'')]) = mset (map (\<lambda>(k, v). (k, v)) [(''a'', ''2''), (''b'', ''1'')])"
proof -
  let ?sc = "\<lparr>scName = ''lib'', scVersion = '''', scSchemaURL = '''', scAttributes = []\<rparr> :: string scope"
  have *: "descriptorKey (\<lambda>s. s) (scopeKey (\<lambda>s. s) ?sc) ''cpu'' (metricTypeSDK HLLSketch) [(''b'', ''1''), (''a'', ''2'')] =
   descriptorKey (\<lambda>s. s) (scopeKey (\<lambda>s. s) ?sc) ''cpu'' (metricTypeSDK HLLSketch) [(''a'', ''2''), (''b'', ''1'')]"
    by (simp add: descriptorKey_def attributesFingerprint_def less_eq_prod_simp)
  have "clean_scope (\<lambda>s. s) ?sc" "bar \<notin> set ''cpu''"
    "clean_attrs (\<lambda>s. s) [(''b'', ''1''), (''a'', ''2'')]" "clean_attrs (\<lambda>s. s) [(''a'', ''2''), (''b'', ''1'')]"
    by (simp_all add: clean_scope_def clean_attrs_def bar_def)
  with * descriptorKey_identifies [of "\<lambda>s. s" ?sc ?sc "''cpu''" "''cpu''" _ _ HLLSketch HLLSketch] show ?thesis by blast
qed

text \<open>
  The fingerprint does not escape its separators: two different attribute sets have the
  same fingerprint, so both sides take them for the same series.
\<close>
theorem fingerprint_not_injective:
  "attributesFingerprint (\<lambda>s. s) [(''a'', ''1|b=2'')] = attributesFingerprint (\<lambda>s. s) [(''a'', ''1''), (''b'', ''2'')] \<and>
   fingerprintAttributes fmtf [(''a'', VStr ''1|b=2'')] = fingerprintAttributes fmtf [(''a'', VStr ''1''), (''b'', VStr ''2'')]"
  by (simp add: attributesFingerprint_def kvs_string_def fingerprintAttributes_def less_eq_prod_simp)

text \<open>
  The metric type strings of the two sides agree exactly for gauges, sums, histograms,
  exponential histograms, summaries and HLL sketches. For DDSketch, KLL, Count and Count-Min sketches
  the collector confirms a key the SDK never looks up.
\<close>
theorem type_strings_agree_iff:
  assumes "dps \<noteq> []" "rehydrateTypeOf (wireType kind) (map (transformPoint conv kind) dps) = Some typeOf" "dp \<in> set dps"
  shows "typeOf (transformPoint conv kind dp) = metricTypeSDK kind \<longleftrightarrow>
    (case kind of DDSketch _ \<Rightarrow> False | KLLSketch _ \<Rightarrow> False | CountSketch _ \<Rightarrow> False | CountMinSketch _ \<Rightarrow> False | _ \<Rightarrow> True)"
proof -
  have "rpValueType (hd (map (transformPoint conv kind) dps)) = wireValueType kind"
    using assms(1) by (cases dps) (auto simp: transformPoint_def case_prod_beta)
  with assms(1,2) show ?thesis
    by (cases kind rule: metricTypeSDK.cases)
      (auto simp: rehydrateTypeOf_def metricTypeStringForDDSketch_def transformPoint_def case_prod_beta Let_def)
qed

theorem type_strings_agree_iff_witness:
  "(\<lambda>_. ''kllsketch'') (transformPoint VStr (KLLSketch NInt)
      \<lparr>dpSeriesID = 0, dpAttrs = [(''host'', ''a'')], dpEncoding = EProto, dpSink = None, dpClearer = None\<rparr>)
   \<noteq> metricTypeSDK (KLLSketch NInt)"
  using type_strings_agree_iff [of "[\<lparr>dpSeriesID = 0, dpAttrs = [(''host'', ''a'')], dpEncoding = EProto,
      dpSink = None, dpClearer = None\<rparr>]" "KLLSketch NInt" VStr "\<lambda>_. ''kllsketch''"]
  by (simp add: rehydrateTypeOf_def)

lemma registeredID_sweep:
  assumes "ssEntries (sourceOf d rk) k = Some e"
  shows "registeredID (sourceOf (sweep gen d) rk) k =
    (if staleGenerations < gen \<and> eLastGen e < gen - staleGenerations then None else registeredID (sourceOf d rk) k)"
  using assms by (auto simp: sweep_def sourceOf_def registeredID_def sweepEntries_def newSource_def
      linorder_not_less split: option.splits)

text \<open>
  \<^verbatim>\<open>Annotate\<close> advances the generation, sends a bare ID for exactly the points whose
  descriptor the collector confirmed and the full attributes for all others, and afterwards keeps an
  existing entry of the source exactly if the batch used it or it was used within the last five
  generations.
\<close>
theorem Annotate_effect:
  assumes "Annotate emit (d, c) (Some rm) = ((d', c'), rm')" and "rk = resourceKey emit (rmResource rm)"
    and "ssEntries (sourceOf d rk) k = Some e"
  shows "dGeneration d' = dGeneration d + 1 \<and>
    rm' = Some (rm\<lparr>rmScopeMetrics := resolveScopes emit (registeredID (sourceOf d rk)) (rmScopeMetrics rm)\<rparr>) \<and>
    registeredID (sourceOf d' rk) k =
      (if k \<in> batchKeys emit (rmScopeMetrics rm) \<or> dGeneration d + 1 \<le> staleGenerations \<or>
          dGeneration d + 1 - staleGenerations \<le> eLastGen e
       then registeredID (sourceOf d rk) k else None)"
proof -
  let ?gen = "dGeneration d + 1" and ?K = "batchKeys emit (rmScopeMetrics rm)"
  obtain s1 where d': "d' = sweep ?gen (d\<lparr>dGeneration := ?gen, dSources := (dSources d)(rk \<mapsto> s1)\<rparr>)"
    and touched: "touched ?gen ?K (sourceOf d rk) s1"
    and rm': "rm' = Some (rm\<lparr>rmScopeMetrics := resolveScopes emit (registeredID (sourceOf d rk)) (rmScopeMetrics rm)\<rparr>)"
    using Annotate_Some [OF assms(1)] assms(2) by metis
  have s1: "ssEntries s1 k = Some (if k \<in> ?K then e\<lparr>eLastGen := ?gen\<rparr> else e)"
    using touched[unfolded touched_def, rule_format, of k] assms(3) by simp
  have live: "staleGenerations < g \<Longrightarrow> \<not> g < g - staleGenerations" for g
    by (simp add: staleGenerations_def word_less_nat_alt unat_sub_if' not_less)
  have src1: "sourceOf (d\<lparr>dGeneration := ?gen, dSources := (dSources d)(rk \<mapsto> s1)\<rparr>) rk = s1"
    by (simp add: sourceOf_def)
  have "registeredID s1 k = registeredID (sourceOf d rk) k"
    using touched_registeredID [OF touched] by simp
  with registeredID_sweep [of "d\<lparr>dGeneration := ?gen, dSources := (dSources d)(rk \<mapsto> s1)\<rparr>" rk k _ ?gen,
      unfolded src1, OF s1] live [of ?gen]
  have "registeredID (sourceOf d' rk) k =
      (if k \<in> ?K \<or> ?gen \<le> staleGenerations \<or> ?gen - staleGenerations \<le> eLastGen e
       then registeredID (sourceOf d rk) k else None)"
    unfolding d' linorder_not_less [of staleGenerations, symmetric] linorder_not_less [of "eLastGen e", symmetric]
    by (cases "k \<in> ?K", simp, blast, simp)
  with rm' Annotate_generation [OF assms(1)] show ?thesis by blast
qed

theorem Annotate_effect_witness:
  "let (st', rm') = Annotate (\<lambda>s. s) (\<lparr>dGeneration = 8, dSources = [''|'' \<mapsto> \<lparr>ssNextID = 2,
        ssEntries = [''old'' \<mapsto> \<lparr>eId = 1, eRegistered = True, eLastGen = 3\<rparr>]\<rparr>]\<rparr>, \<lparr>sidCell = (\<lambda>_. 0), attrCell = (\<lambda>_. [])\<rparr>)
      (Some (\<lparr>rmResource = None, rmScopeMetrics = []\<rparr> :: string resource_metrics))
   in dGeneration (fst st') = 9 \<and> registeredID (sourceOf (fst st') ''|'') ''old'' = None"
proof -
  let ?d = "\<lparr>dGeneration = 8, dSources = [''|'' \<mapsto> \<lparr>ssNextID = 2,
      ssEntries = [''old'' \<mapsto> \<lparr>eId = 1, eRegistered = True, eLastGen = 3\<rparr>]\<rparr>]\<rparr>"
  let ?c = "\<lparr>sidCell = (\<lambda>_. 0), attrCell = (\<lambda>_. [])\<rparr> :: string cells"
  let ?rm = "\<lparr>rmResource = None, rmScopeMetrics = []\<rparr> :: string resource_metrics"
  obtain d' c' rm' where A: "Annotate (\<lambda>s. s) (?d, ?c) (Some ?rm) = ((d', c'), rm')" by (metis prod.exhaust)
  have "''|'' = resourceKey (\<lambda>s. s) (rmResource ?rm)"
    "ssEntries (sourceOf ?d ''|'') ''old'' = Some \<lparr>eId = 1, eRegistered = True, eLastGen = 3\<rparr>"
    by (simp_all add: sourceOf_def resourceKey_def resSchema_def appendAttributeSlice_def)
  from Annotate_effect [OF A this] A show ?thesis by (simp add: batchKeys_def staleGenerations_def)
qed

lemma registeredID_applyOne:
  "registeredID (sourceOf (applyOne a d) rk) k =
    (if rk = aResourceKey a \<and> k = descriptorKeyFromParts (aScopeKey a) (aMetricType a) (aMetricName a) (aAttributesFingerprint a)
     then Some (aSeriesID a) else registeredID (sourceOf d rk) k)"
  by (auto simp: applyOne_def applyAssignment_def sourceOf_def registeredID_def Let_def newSource_def split: option.splits)

text \<open>
  Confirmation: after the response with an assignment is applied (the last one for its
  series), every point of that series that is exported without a cached ID goes out as exactly the
  assigned ID, without attributes.
\<close>
theorem Apply_confirms:
  assumes "aSeriesID a \<noteq> 0" "dpSeriesID dp = 0"
    and "\<forall>b \<in> set ys. aResourceKey b \<noteq> aResourceKey a \<or>
      descriptorKeyFromParts (aScopeKey b) (aMetricType b) (aMetricName b) (aAttributesFingerprint b) \<noteq>
      descriptorKeyFromParts (aScopeKey a) (aMetricType a) (aMetricName a) (aAttributesFingerprint a)"
    and "aAttributesFingerprint a = attributesFingerprint emit (dpAttrs dp)"
  shows "let p = snd (assignSeriesID emit (aScopeKey a) (aMetricName a) (aMetricType a) gen
      (sourceOf (Apply d (xs @ a # ys)) (aResourceKey a)) dp)
    in seriesIdentity (dpAttrs p) (dpSeriesID p) = ([], aSeriesID a)"
proof -
  let ?k = "descriptorKeyFromParts (aScopeKey a) (aMetricType a) (aMetricName a) (aAttributesFingerprint a)"
  have "registeredID (sourceOf (fold applyOne ys d') (aResourceKey a)) ?k = registeredID (sourceOf d' (aResourceKey a)) ?k" for d'
    using assms(3) by (induction ys arbitrary: d') (auto simp: registeredID_applyOne)
  then have "registeredID (sourceOf (Apply d (xs @ a # ys)) (aResourceKey a)) ?k = Some (aSeriesID a)"
    by (simp add: Apply_def registeredID_applyOne)
  with assms(1,2,4) show ?thesis
    by (simp add: assignSeriesID_eq resolvePoint_def descriptorKey_def seriesIdentity_def)
qed

theorem Apply_confirms_witness:
  "let p = snd (assignSeriesID (\<lambda>s. s) ''s'' ''cpu'' ''gauge_int'' 4
      (sourceOf (Apply NewDictionary [\<lparr>aResourceKey = ''r'', aScopeKey = ''s'', aMetricName = ''cpu'',
        aMetricType = ''gauge_int'', aAttributesFingerprint = ''host=a|'', aSeriesID = 7\<rparr>]) ''r'')
      \<lparr>dpSeriesID = 0, dpAttrs = [(''host'', ''a'')], dpEncoding = EProto, dpSink = None, dpClearer = None\<rparr>)
   in seriesIdentity (dpAttrs p) (dpSeriesID p) = ([], 7)"
  using Apply_confirms [of "\<lparr>aResourceKey = ''r'', aScopeKey = ''s'', aMetricName = ''cpu'',
        aMetricType = ''gauge_int'', aAttributesFingerprint = ''host=a|'', aSeriesID = 7\<rparr>"
      "\<lparr>dpSeriesID = 0, dpAttrs = [(''host'', ''a'')], dpEncoding = EProto, dpSink = None, dpClearer = None\<rparr>"
      "[]" "\<lambda>s. s" 4 NewDictionary "[]"]
  by (simp add: attributesFingerprint_def kvs_string_def)

lemma registeredID_evictEntries:
  "registeredID (evictEntries sids s) k =
    (case registeredID s k of None \<Rightarrow> None | Some i \<Rightarrow> if i \<in> set sids then None else Some i)"
  by (cases "ssEntries s k") (simp_all add: registeredID_def evictEntries_def)

text \<open>
  Eviction by ID un-confirms exactly the listed IDs, so that points exported without an
  ID carry their attributes again; but a point for which the aggregator cached the ID still goes out
  as the bare evicted ID.
\<close>
theorem EvictByID_effect:
  assumes "sids \<noteq> []"
  shows "registeredID (sourceOf (EvictByID d sids) rk) k =
      (case registeredID (sourceOf d rk) k of None \<Rightarrow> None | Some i \<Rightarrow> if i \<in> set sids then None else Some i) \<and>
    (dpSeriesID dp \<noteq> 0 \<longrightarrow> (let p = snd (assignSeriesID emit sk n t gen (sourceOf (EvictByID d sids) rk) dp)
      in seriesIdentity (dpAttrs p) (dpSeriesID p) = ([], dpSeriesID dp)))"
proof -
  have "sourceOf (EvictByID d sids) rk = evictEntries sids (sourceOf d rk)"
    using assms by (simp add: EvictByID_def sourceOf_def evictEntries_def newSource_def split: option.split)
  then show ?thesis
    by (simp add: registeredID_evictEntries assignSeriesID_def seriesIdentity_def Let_def split: option.split)
qed

theorem EvictByID_effect_witness:
  "registeredID (sourceOf (EvictByID (Apply NewDictionary [\<lparr>aResourceKey = ''r'', aScopeKey = ''s'', aMetricName = ''cpu'',
        aMetricType = ''gauge_int'', aAttributesFingerprint = ''host=a|'', aSeriesID = 7\<rparr>]) [7]) ''r'') ''s|gauge_int|cpu|host=a|'' = None"
  using EvictByID_effect [of "[7]" "Apply NewDictionary [\<lparr>aResourceKey = ''r'', aScopeKey = ''s'', aMetricName = ''cpu'',
        aMetricType = ''gauge_int'', aAttributesFingerprint = ''host=a|'', aSeriesID = 7\<rparr>]" "''r''" "''s|gauge_int|cpu|host=a|''"
      "\<lparr>dpSeriesID = 0, dpAttrs = [], dpEncoding = EProto, dpSink = None, dpClearer = None\<rparr>" "\<lambda>s. s" "''''" "''''" "''''" 0]
  by (simp add: Apply_def registeredID_applyOne descriptorKeyFromParts_def)

text \<open>
  The collector's eviction keeps exactly the records seen within the time to live and
  keeps a source exactly if one of its records stays; what stays is unchanged.
\<close>
theorem evictLocked_exact:
  assumes "0 < cTTL cache"
  shows "(\<exists>src'. cSources (evictLocked now cache) rk = Some src' \<and> scSeries src' i = Some r) \<longleftrightarrow>
    (\<exists>src. cSources cache rk = Some src \<and> scSeries src i = Some r \<and> now - cTTL cache \<le> srLastSeen r)"
  using assms by (auto simp: evictLocked_def evictSource_def Let_def not_less split: option.splits if_splits)

theorem evictLocked_exact_witness:
  "\<nexists>src'. cSources (evictLocked 7200 \<lparr>cTTL = 3600, cSources = [''r'' \<mapsto> \<lparr>scNextID = 2, scSeries = [1 \<mapsto>
      \<lparr>srMetricName = ''cpu'', srDataType = MGauge, srAttrs = [(''host'', VStr ''a'')], srLastSeen = 0\<rparr>]\<rparr>]\<rparr>) ''r'' = Some src' \<and>
    scSeries src' 1 = Some \<lparr>srMetricName = ''cpu'', srDataType = MGauge, srAttrs = [(''host'', VStr ''a'')], srLastSeen = 0\<rparr>"
  using evictLocked_exact [of "\<lparr>cTTL = 3600, cSources = [''r'' \<mapsto> \<lparr>scNextID = 2, scSeries = [1 \<mapsto>
      \<lparr>srMetricName = ''cpu'', srDataType = MGauge, srAttrs = [(''host'', VStr ''a'')], srLastSeen = 0\<rparr>]\<rparr>]\<rparr>" 7200 "''r''" 1
      "\<lparr>srMetricName = ''cpu'', srDataType = MGauge, srAttrs = [(''host'', VStr ''a'')], srLastSeen = 0\<rparr>"]
  by simp

text \<open>
  When every record of a source is older than the time to live, the source itself is
  dropped and numbering restarts at 1: the next new series, of any attributes, gets ID 1, and an
  ID-only point still carrying the old ID 1 of the same metric is given the new attributes.
\<close>
theorem evicted_source_reuses_ids:
  assumes "0 < cTTL cache" "cSources cache rk = Some src"
    and "\<forall>i r. scSeries src i = Some r \<longrightarrow> srLastSeen r < now - cTTL cache"
  shows "cSources (evictLocked now cache) rk = None \<and>
    (let (i, src') = assignSeries (fst (SeriesCache.getOrCreateSource (evictLocked now cache) rk)) name t attrs' now'
     in i = 1 \<and> fst (hydrateFromSeries src' 1 name t now'') = Some attrs')"
proof -
  have "cSources (evictLocked now cache) rk = None"
    using assms by (auto simp: evictLocked_def evictSource_def Let_def split: option.splits)
  then show ?thesis
    by (simp add: SeriesCache.getOrCreateSource_def newSeriesSource_def assignSeries_def hydrateFromSeries_def)
qed

theorem evicted_source_reuses_ids_witness:
  "let cache = \<lparr>cTTL = 3600, cSources = [''r'' \<mapsto> \<lparr>scNextID = 2, scSeries = [1 \<mapsto>
      \<lparr>srMetricName = ''cpu'', srDataType = MGauge, srAttrs = [(''host'', VStr ''a'')], srLastSeen = 0\<rparr>]\<rparr>]\<rparr>
   in let (i, src') = assignSeries (fst (SeriesCache.getOrCreateSource (evictLocked 7200 cache) ''r'')) ''cpu'' MGauge
        [(''host'', VStr ''b'')] 7300
      in i = 1 \<and> fst (hydrateFromSeries src' 1 ''cpu'' MGauge 7400) = Some [(''host'', VStr ''b'')]"
  using evicted_source_reuses_ids [of "\<lparr>cTTL = 3600, cSources = [''r'' \<mapsto> \<lparr>scNextID = 2, scSeries = [1 \<mapsto>
      \<lparr>srMetricName = ''cpu'', srDataType = MGauge, srAttrs = [(''host'', VStr ''a'')], srLastSeen = 0\<rparr>]\<rparr>]\<rparr>"
      "''r''" "\<lparr>scNextID = 2, scSeries = [1 \<mapsto> \<lparr>srMetricName = ''cpu'', srDataType = MGauge,
        srAttrs = [(''host'', VStr ''a'')], srLastSeen = 0\<rparr>]\<rparr>" 7200 "''cpu''" MGauge "[(''host'', VStr ''b'')]" 7300 7400]
  by simp

text \<open>
  A collector that lost its cache (a restart, or an outage longer than the time to live)
  consumes ID-only points without attributes, and its response never lists the IDs it did not know:
  the exporter has nothing to evict and keeps sending bare IDs.
\<close>
theorem unknown_id_is_not_reported:
  assumes "rpSeriesID p \<noteq> 0" "rpAttrs p = []" "scSeries src (rpSeriesID p) = None"
  shows "rehydrateDataPointLocked fmtf rk sk name ty t now src p = (src, p, []) \<and>
    (case ReceiverExport fmtf asString consume now cache md of (_, resp, _, _) \<Rightarrow> applyUnknownSeriesIds d resp = d)"
  using assms
  by (simp add: rehydrateDataPointLocked_def hydrateFromSeries_def ReceiverExport_def applyUnknownSeriesIds_def
      Let_def case_prod_beta)

theorem unknown_id_is_not_reported_witness:
  "rehydrateDataPointLocked (\<lambda>_ _. '''') ''r'' ''s'' ''cpu'' ''gauge_int'' MGauge 0 newSeriesSource
     \<lparr>rpSeriesID = 7, rpAttrs = [], rpValueType = TInt, rpSumType = TEmpty, rpMinType = TEmpty, rpMaxType = TEmpty\<rparr> =
   (newSeriesSource,
     \<lparr>rpSeriesID = 7, rpAttrs = [], rpValueType = TInt, rpSumType = TEmpty, rpMinType = TEmpty, rpMaxType = TEmpty\<rparr>, [])"
  using unknown_id_is_not_reported [of "\<lparr>rpSeriesID = 7, rpAttrs = [], rpValueType = TInt, rpSumType = TEmpty,
      rpMinType = TEmpty, rpMaxType = TEmpty\<rparr>" newSeriesSource "\<lambda>_ _. ''''" "''r''" "''s''" "''cpu''" "''gauge_int''" MGauge 0
      NewDictionary exampleText "\<lambda>_. None::unit option" "newSeriesCache 50" "[]"]
  by (simp add: newSeriesSource_def)

end
