(* ===== verification/Config.thy ===== *)
theory Config
  imports GoPrelude Float64
begin

text \<open>
  The configuration of the precompute runtime (\<^verbatim>\<open>asap-precompute-go/config.go\<close>), the tags it shares with
  the envelope (\<^verbatim>\<open>envelope.go\<close>), the monitor's specification (\<^verbatim>\<open>monitor/types.go\<close>) and the observation
  (\<^verbatim>\<open>observation.go\<close>).

  Durations are Go's \<^verbatim>\<open>time.Duration\<close>, 64-bit nanoseconds. A compiled regular expression is its match
  predicate. The knobs the modelled code does not read (\<^verbatim>\<open>Quantiles\<close>, \<^verbatim>\<open>SubWindowInterval\<close>) are left out.
\<close>

type_synonym labels = "(string \<times> string) list"
type_synonym bytes = "u8 list"

section \<open>Tags\<close>

datatype SketchType = SketchTypeUnspecified | SketchTypeDDSketch | SketchTypeKLLSketch | SketchTypeHLLSketch
  | SketchTypeCountSketch | SketchTypeCountMinSketch

fun SketchType_String :: "SketchType \<Rightarrow> string" where
  "SketchType_String SketchTypeDDSketch = ''DDSketch''"
| "SketchType_String SketchTypeKLLSketch = ''KLLSketch''"
| "SketchType_String SketchTypeHLLSketch = ''HLLSketch''"
| "SketchType_String SketchTypeCountSketch = ''CountSketch''"
| "SketchType_String SketchTypeCountMinSketch = ''CountMinSketch''"
| "SketchType_String SketchTypeUnspecified = ''Unspecified''"

datatype AggregationKind = AggKindUnspecified | AggKindSketch | AggKindSum

datatype Encoding = EncodingUnspecified | EncodingProtoFull | EncodingProtoDelta | EncodingMsgpack | EncodingMsgpackDelta
  | EncodingOther "8 word"

fun Encoding_String :: "Encoding \<Rightarrow> string" where
  "Encoding_String EncodingProtoFull = ''PROTO_FULL''"
| "Encoding_String EncodingProtoDelta = ''PROTO_DELTA''"
| "Encoding_String EncodingMsgpack = ''MSGPACK''"
| "Encoding_String EncodingMsgpackDelta = ''MSGPACK_DELTA''"
| "Encoding_String EncodingUnspecified = ''UNSPECIFIED''"
| "Encoding_String (EncodingOther _) = ''UNSPECIFIED''"

fun AggregationKind_String :: "AggregationKind \<Rightarrow> string" where
  "AggregationKind_String AggKindSketch = ''Sketch''"
| "AggregationKind_String AggKindSum = ''Sum''"
| "AggregationKind_String AggKindUnspecified = ''Unspecified''"

section \<open>Monitor specification\<close>

datatype Functional = FunctionalSum | FunctionalCMSPoint | FunctionalLinearBuckets

record MonitorSpec =
  msEnabled :: bool
  msFunctional :: Functional
  msKey :: bytes
  msCoeffs :: "f64 list"
  msCoordinatorURL :: string
  msTau :: f64
  msEpsilon :: f64

definition MonitorSpec_Validate :: "MonitorSpec \<Rightarrow> string option" where
  "MonitorSpec_Validate s =
     (if \<not> msEnabled s then None
      else let e = (case msFunctional s of
               FunctionalSum \<Rightarrow> None
             | FunctionalCMSPoint \<Rightarrow> if msKey s = [] then Some ''cms_point key'' else None
             | FunctionalLinearBuckets \<Rightarrow>
                 if msCoeffs s = [] then Some ''linear_buckets coeffs''
                 else if list_ex (\<lambda>c. f64_less c 0) (msCoeffs s) then Some ''negative coeff'' else None)
           in if e \<noteq> None then e else if msCoordinatorURL s = [] then Some ''coordinator_url'' else None)"

section \<open>Configuration\<close>

datatype AggregationMode = Tumbling | Sliding | Batch
datatype AggMode = ModePerSeries | ModeWholeStream
datatype OnOverflow = OnOverflowDrop | OnOverflowBlock | OnOverflowEvictOldest
datatype MatchOp = MatchEqual | MatchNotEqual | MatchRegex | MatchNotRegex

fun AggregationMode_String :: "AggregationMode \<Rightarrow> string" where
  "AggregationMode_String Tumbling = ''Tumbling''"
| "AggregationMode_String Sliding = ''Sliding''"
| "AggregationMode_String Batch = ''Batch''"

fun AggMode_String :: "AggMode \<Rightarrow> string" where
  "AggMode_String ModePerSeries = ''PerSeries''"
| "AggMode_String ModeWholeStream = ''WholeStream''"

fun OnOverflow_String :: "OnOverflow \<Rightarrow> string" where
  "OnOverflow_String OnOverflowDrop = ''Drop''"
| "OnOverflow_String OnOverflowBlock = ''Block''"
| "OnOverflow_String OnOverflowEvictOldest = ''EvictOldest''"

record LabelMatcher =
  lmName :: string
  lmValue :: string
  lmOp :: MatchOp
  lmCompiled :: "(string \<Rightarrow> bool) option"
  lmPrepared :: bool

record WindowSpec =
  wsSize :: i64
  wsSlide :: i64
  wsAllowedLateness :: i64

record PrecomputeConfig =
  cAggID :: u64
  cSketchType :: SketchType
  cAggKind :: AggregationKind
  cMode :: AggregationMode
  cScope :: AggMode
  cWindow :: WindowSpec
  cMatchers :: "LabelMatcher list"
  cAggregateBy :: "string list"
  cTransmitSketch :: bool
  cDeltaTransmission :: bool
  cDeltaThreshold :: u64
  cEncoding :: Encoding
  cQuantiles :: "f64 list"
  cSketchParams :: "string \<rightharpoonup> f64"
  cSampleP :: f64
  cMaxSeries :: u64
  cOnOverflow :: OnOverflow
  cMetricName :: string
  cTemporality :: "32 word"
  cOmitResourceAttrs :: bool
  cGlobalAggregation :: bool
  cEmitWindowStats :: bool
  cMonitor :: MonitorSpec
  cSubWindowInterval :: i64
  cSubWindowEpsilon :: f64
  cGosDeltaEpsilon :: f64
  cGosSites :: "32 word"

text \<open>Go's zero value of the configuration.\<close>

definition zeroConfig :: PrecomputeConfig where
  "zeroConfig = \<lparr>cAggID = 0, cSketchType = SketchTypeUnspecified, cAggKind = AggKindUnspecified, cMode = Tumbling,
     cScope = ModePerSeries, cWindow = \<lparr>wsSize = 0, wsSlide = 0, wsAllowedLateness = 0\<rparr>, cMatchers = [], cAggregateBy = [],
     cTransmitSketch = False, cDeltaTransmission = False, cDeltaThreshold = 0, cEncoding = EncodingUnspecified, cQuantiles = [],
     cSketchParams = Map.empty, cSampleP = 0, cMaxSeries = 0,
     cOnOverflow = OnOverflowDrop, cMetricName = [], cTemporality = 0, cOmitResourceAttrs = False,
     cGlobalAggregation = False, cEmitWindowStats = False,
     cMonitor = \<lparr>msEnabled = False, msFunctional = FunctionalSum, msKey = [], msCoeffs = [], msCoordinatorURL = [], msTau = 0,
       msEpsilon = 0\<rparr>,
     cSubWindowInterval = 0, cSubWindowEpsilon = 0, cGosDeltaEpsilon = 0, cGosSites = 0\<rparr>"

record 'v Observation =
  oTimestampMs :: u64
  oMetric :: string
  oResourceLabels :: labels
  oLabels :: labels
  oValue :: 'v

definition effectiveScope :: "PrecomputeConfig \<Rightarrow> AggMode" where
  "effectiveScope cfg =
     (if cScope cfg = ModeWholeStream \<or> cGlobalAggregation cfg then ModeWholeStream else ModePerSeries)"

definition isWholeStream :: "PrecomputeConfig \<Rightarrow> bool" where
  "isWholeStream cfg \<longleftrightarrow> effectiveScope cfg = ModeWholeStream"

definition ParseAggMode :: "string \<Rightarrow> AggMode \<times> bool" where
  "ParseAggMode s =
     (if s \<in> {'''', ''per_series'', ''perseries'', ''PerSeries'', ''series''} then (ModePerSeries, True)
      else if s \<in> {''whole_stream'', ''wholestream'', ''WholeStream'', ''whole'', ''global''}
        then (ModeWholeStream, True)
      else (ModePerSeries, False))"

fun FindByAggID :: "PrecomputeConfig list \<Rightarrow> u64 \<Rightarrow> PrecomputeConfig option" where
  "FindByAggID [] aggID = None"
| "FindByAggID (c # cs) aggID = (if cAggID c = aggID then Some c else FindByAggID cs aggID)"

end
