(* ===== verification/SeriesKey.thy ===== *)
theory SeriesKey
  imports Config "HOL-Library.Multiset" "HOL-Library.List_Lexorder" "HOL-Library.Char_ord"
begin

text \<open>
  Label matching and the series keys (\<^verbatim>\<open>asap-precompute-go/matchers.go\<close>, \<^verbatim>\<open>config.go\<close>): two implementations of the key, one over a string builder and one over a pooled
  byte buffer, and the key rebuilt from a stored entry.

  Regular expressions are those of Go's
  \<^verbatim>\<open>regexp\<close> package, the parameter \<open>compile\<close>: the anchored pattern compiled to its match predicate,
  \<open>None\<close> if malformed.
\<close>

section \<open>Matchers\<close>

fun lookupLabel :: "labels \<Rightarrow> string \<Rightarrow> string option" where
  "lookupLabel [] key = None"
| "lookupLabel ((k, v) # ls) key = (if k = key then Some v else lookupLabel ls key)"

definition matcherRegexp :: "(string \<Rightarrow> (string \<Rightarrow> bool) option) \<Rightarrow> LabelMatcher \<Rightarrow> (string \<Rightarrow> bool) option" where
  "matcherRegexp compile m = (if lmPrepared m then lmCompiled m else compile (lmValue m))"

definition ValidateMatchers :: "(string \<Rightarrow> (string \<Rightarrow> bool) option) \<Rightarrow> LabelMatcher list \<Rightarrow> bool" where
  "ValidateMatchers compile ms \<longleftrightarrow>
     (\<forall>m \<in> set ms. lmOp m \<in> {MatchRegex, MatchNotRegex} \<longrightarrow> compile (lmValue m) \<noteq> None)"

text \<open>The preparation of the matchers when a configuration is cloned for activation.\<close>

definition prepareMatcher :: "(string \<Rightarrow> (string \<Rightarrow> bool) option) \<Rightarrow> LabelMatcher \<Rightarrow> LabelMatcher" where
  "prepareMatcher compile m = m\<lparr>lmPrepared := True,
     lmCompiled := (if lmOp m \<in> {MatchRegex, MatchNotRegex} then compile (lmValue m) else None)\<rparr>"

definition matchOne :: "(string \<Rightarrow> (string \<Rightarrow> bool) option) \<Rightarrow> 'v Observation \<Rightarrow> LabelMatcher \<Rightarrow> bool" where
  "matchOne compile obs m =
     (let v = (if lmName m = [] then (if oMetric obs \<noteq> [] then Some (oMetric obs) else None)
               else lookupLabel (oLabels obs) (lmName m))
      in case lmOp m of
           MatchEqual \<Rightarrow> v = Some (lmValue m)
         | MatchNotEqual \<Rightarrow> v \<noteq> Some (lmValue m)
         | MatchRegex \<Rightarrow> (case v of None \<Rightarrow> False
             | Some s \<Rightarrow> (case matcherRegexp compile m of None \<Rightarrow> False | Some re \<Rightarrow> re s))
         | MatchNotRegex \<Rightarrow> (case v of None \<Rightarrow> True
             | Some s \<Rightarrow> (case matcherRegexp compile m of None \<Rightarrow> True | Some re \<Rightarrow> \<not> re s)))"

fun matchAll :: "(string \<Rightarrow> (string \<Rightarrow> bool) option) \<Rightarrow> 'v Observation \<Rightarrow> LabelMatcher list \<Rightarrow> bool" where
  "matchAll compile obs [] = True"
| "matchAll compile obs (m # ms) = (if \<not> matchOne compile obs m then False else matchAll compile obs ms)"

definition Matches :: "(string \<Rightarrow> (string \<Rightarrow> bool) option) \<Rightarrow> PrecomputeConfig \<Rightarrow> 'v Observation \<Rightarrow> bool" where
  "Matches compile cfg obs = (if cMatchers cfg = [] then True else matchAll compile obs (cMatchers cfg))"

section \<open>Series keys\<close>

text \<open>One \<^verbatim>\<open>k=v;\<close> segment per key found, in the order of the keys.\<close>

fun writeKeys :: "string \<Rightarrow> labels \<Rightarrow> string list \<Rightarrow> string" where
  "writeKeys b ls [] = b"
| "writeKeys b ls (k # ks) = (case lookupLabel ls k of
     None \<Rightarrow> writeKeys b ls ks | Some v \<Rightarrow> writeKeys (b @ k @ ''='' @ v @ '';'') ls ks)"

definition writeAttributesKey :: "string \<Rightarrow> labels \<Rightarrow> string list \<Rightarrow> string" where
  "writeAttributesKey b ls aggregateBy =
     (if aggregateBy = [] then writeKeys b ls (sort (map fst ls)) else writeKeys b ls aggregateBy)"

definition SeriesKey :: "u64 \<Rightarrow> labels \<Rightarrow> labels \<Rightarrow> string list \<Rightarrow> string" where
  "SeriesKey aggID resourceLabels ls aggregateBy =
     writeAttributesKey (writeAttributesKey (FormatUint aggID @ ''|'') resourceLabels [] @ ''|'') ls aggregateBy"

definition AttributesKey :: "labels \<Rightarrow> string list \<Rightarrow> string" where
  "AttributesKey ls aggregateBy = writeAttributesKey [] ls aggregateBy"

text \<open>The twin over the pooled scratch: the byte buffer and the reused key slice.\<close>

record seriesKeyScratch =
  skBuf :: string
  skKeys :: "string list"

definition getSeriesKeyScratch :: "seriesKeyScratch \<Rightarrow> seriesKeyScratch" where
  "getSeriesKeyScratch s = s\<lparr>skBuf := []\<rparr>"

fun appendKeys :: "seriesKeyScratch \<Rightarrow> labels \<Rightarrow> string list \<Rightarrow> seriesKeyScratch" where
  "appendKeys s ls [] = s"
| "appendKeys s ls (k # ks) = (case lookupLabel ls k of
     None \<Rightarrow> appendKeys s ls ks
   | Some v \<Rightarrow> appendKeys (s\<lparr>skBuf := (((skBuf s @ k) @ ''='') @ v) @ '';''\<rparr>) ls ks)"

definition appendAttributesKey :: "seriesKeyScratch \<Rightarrow> labels \<Rightarrow> string list \<Rightarrow> seriesKeyScratch" where
  "appendAttributesKey s ls aggregateBy =
     (if aggregateBy = [] then
        let s = s\<lparr>skKeys := []\<rparr>;
            s = s\<lparr>skKeys := skKeys s @ map fst ls\<rparr>;
            s = s\<lparr>skKeys := sort (skKeys s)\<rparr>
        in appendKeys s ls (skKeys s)
      else appendKeys s ls aggregateBy)"

definition appendSeriesKey :: "seriesKeyScratch \<Rightarrow> u64 \<Rightarrow> labels \<Rightarrow> labels \<Rightarrow> string list \<Rightarrow> seriesKeyScratch" where
  "appendSeriesKey s aggID resourceLabels ls aggregateBy =
     (let s = s\<lparr>skBuf := skBuf s @ FormatUint aggID\<rparr>;
          s = s\<lparr>skBuf := skBuf s @ ''|''\<rparr>;
          s = appendAttributesKey s resourceLabels [];
          s = s\<lparr>skBuf := skBuf s @ ''|''\<rparr>
      in appendAttributesKey s ls aggregateBy)"

definition SeriesKeyFor :: "PrecomputeConfig \<Rightarrow> 'v Observation \<Rightarrow> string" where
  "SeriesKeyFor cfg obs =
     (if isWholeStream cfg then SeriesKey (cAggID cfg) [] [] []
      else if cOmitResourceAttrs cfg then SeriesKey (cAggID cfg) [] (oLabels obs) (cAggregateBy cfg)
      else SeriesKey (cAggID cfg) (oResourceLabels obs) (oLabels obs) (cAggregateBy cfg))"

definition buildSeriesKey :: "PrecomputeConfig \<Rightarrow> seriesKeyScratch \<Rightarrow> 'v Observation \<Rightarrow> seriesKeyScratch" where
  "buildSeriesKey cfg s obs =
     (if isWholeStream cfg then appendSeriesKey s (cAggID cfg) [] [] []
      else if cOmitResourceAttrs cfg then appendSeriesKey s (cAggID cfg) [] (oLabels obs) (cAggregateBy cfg)
      else appendSeriesKey s (cAggID cfg) (oResourceLabels obs) (oLabels obs) (cAggregateBy cfg))"

definition SeriesKeyForEntry :: "PrecomputeConfig \<Rightarrow> labels \<Rightarrow> labels \<Rightarrow> string" where
  "SeriesKeyForEntry cfg resourceLabels ls =
     (if isWholeStream cfg then SeriesKey (cAggID cfg) [] [] []
      else if cOmitResourceAttrs cfg then SeriesKey (cAggID cfg) [] ls (cAggregateBy cfg)
      else SeriesKey (cAggID cfg) resourceLabels ls (cAggregateBy cfg))"

fun seriesAttrsBy :: "labels \<Rightarrow> string list \<Rightarrow> labels" where
  "seriesAttrsBy ls [] = []"
| "seriesAttrsBy ls (k # ks) = (case lookupLabel ls k of
     None \<Rightarrow> seriesAttrsBy ls ks | Some v \<Rightarrow> (k, v) # seriesAttrsBy ls ks)"

definition SeriesAttrs :: "labels \<Rightarrow> string list \<Rightarrow> labels" where
  "SeriesAttrs ls aggregateBy = (if aggregateBy = [] then ls else seriesAttrsBy ls aggregateBy)"

section \<open>Properties\<close>

lemma lookupLabel_map_of: "lookupLabel ls k = map_of ls k"
  by (induction ls k rule: lookupLabel.induct) auto

lemma writeKeys_append: "writeKeys b ls ks = b @ writeKeys [] ls ks"
proof (induction ks arbitrary: b)
  case (Cons k ks)
  have *: "writeKeys c ls ks = c @ writeKeys [] ls ks" for c by (rule Cons.IH)
  show ?case
    using * [of "b @ k @ ''='' @ the (lookupLabel ls k) @ '';''"] * [of "k @ ''='' @ the (lookupLabel ls k) @ '';''"] * [of b]
    by (cases "lookupLabel ls k") auto
qed simp

lemma writeKeys_cong:
  "\<forall>k \<in> set ks. lookupLabel ls k = lookupLabel ls' k \<Longrightarrow> writeKeys b ls ks = writeKeys b ls' ks"
  by (induction ks arbitrary: b) (auto split: option.split)

lemma appendKeys_buf: "skBuf (appendKeys s ls ks) = writeKeys (skBuf s) ls ks"
  by (induction s ls ks rule: appendKeys.induct) (auto split: option.split)

lemma appendAttributesKey_buf: "skBuf (appendAttributesKey s ls agg) = writeAttributesKey (skBuf s) ls agg"
  by (simp add: appendAttributesKey_def writeAttributesKey_def appendKeys_buf Let_def)

text \<open>
  The two implementations of the series key agree: building into a pooled scratch that
  held any earlier contents gives byte for byte the key that \<^verbatim>\<open>SeriesKeyFor\<close> returns.
\<close>
theorem buildSeriesKey_eq: "skBuf (buildSeriesKey cfg (getSeriesKeyScratch s) obs) = SeriesKeyFor cfg obs"
  by (simp add: buildSeriesKey_def SeriesKeyFor_def appendSeriesKey_def SeriesKey_def appendAttributesKey_buf
      getSeriesKeyScratch_def Let_def)

lemma seriesAttrsBy_lookup:
  "lookupLabel (seriesAttrsBy ls ks) k = (if k \<in> set ks then lookupLabel ls k else None)"
  by (induction ks) (auto split: option.split)

lemma writeAttributesKey_SeriesAttrs:
  "writeAttributesKey b (SeriesAttrs ls agg) agg = writeAttributesKey b ls agg"
  by (auto simp: writeAttributesKey_def SeriesAttrs_def seriesAttrsBy_lookup intro: writeKeys_cong)

text \<open>
  Grouping is stable along a chain of collectors: the labels an envelope is emitted with
  (\<^verbatim>\<open>SeriesAttrs\<close>) give, at the next hop under the same configuration, the same series key as the
  labels of the observation; and the key does not depend on the order in which labels with distinct
  names arrive.
\<close>
theorem SeriesKey_stable:
  assumes "distinct (map fst ls)" "mset ls' = mset ls"
  shows "SeriesKeyForEntry cfg rs (SeriesAttrs ls (cAggregateBy cfg)) = SeriesKeyForEntry cfg rs ls \<and>
    SeriesKeyForEntry cfg rs ls' = SeriesKeyForEntry cfg rs ls"
proof -
  have "mset (map fst ls') = mset (map fst ls)"
    using assms(2) by simp
  from mset_eq_imp_distinct_iff [OF this] assms(1) have "distinct (map fst ls')"
    by simp
  then have "map_of ls' = map_of ls"
    using map_of_inject_set [of ls' ls] assms(1) mset_eq_setD [OF assms(2)] by simp
  then have look: "lookupLabel ls' k = lookupLabel ls k" for k by (simp add: lookupLabel_map_of)
  have "sort (map fst ls') = sort (map fst ls)"
    using assms(2) by (intro properties_for_sort) (simp_all add: mset_map)
  then have "writeAttributesKey b ls' agg = writeAttributesKey b ls agg" for b agg
    using look by (simp add: writeAttributesKey_def writeKeys_cong)
  then show ?thesis
    by (simp add: SeriesKeyForEntry_def SeriesKey_def writeAttributesKey_SeriesAttrs)
qed

theorem SeriesKey_stable_witness:
  "SeriesKeyForEntry (zeroConfig\<lparr>cAggID := 7, cMatchers := [], cAggregateBy := [''zone'']\<rparr>) []
     (SeriesAttrs [(''zone'', ''a''), (''pod'', ''p'')] [''zone'']) =
   SeriesKeyForEntry (zeroConfig\<lparr>cAggID := 7, cMatchers := [], cAggregateBy := [''zone'']\<rparr>) []
     [(''zone'', ''a''), (''pod'', ''p'')]"
  using SeriesKey_stable [of "[(''zone'', ''a''), (''pod'', ''p'')]" "[(''pod'', ''p''), (''zone'', ''a'')]"
      "(zeroConfig\<lparr>cAggID := 7, cMatchers := [], cAggregateBy := [''zone'']\<rparr>)" "[]"]
  by (simp add: add_mset_commute)

lemma matchAll_iff: "matchAll compile obs ms \<longleftrightarrow> (\<forall>m \<in> set ms. matchOne compile obs m)"
  by (induction ms) auto

lemma matchOne_prepare: "\<not> lmPrepared m \<Longrightarrow> matchOne compile obs (prepareMatcher compile m) = matchOne compile obs m"
  by (cases "lmOp m") (auto simp: matchOne_def prepareMatcher_def matcherRegexp_def Let_def split: option.splits)

text \<open>
  An observation is admitted iff every matcher holds, and the matchers prepared at
  activation (patterns compiled once) decide exactly as the configured ones; an equality and its
  negation, and a valid pattern and its negation on a label that is present, never agree.
\<close>
theorem Matches_correct:
  assumes "\<forall>m \<in> set (cMatchers cfg). \<not> lmPrepared m"
  shows "Matches compile cfg obs = (\<forall>m \<in> set (cMatchers cfg). matchOne compile obs m) \<and>
    Matches compile (cfg\<lparr>cMatchers := map (prepareMatcher compile) (cMatchers cfg)\<rparr>) obs = Matches compile cfg obs \<and>
    (matchOne compile obs (m\<lparr>lmOp := MatchEqual\<rparr>) \<noteq> matchOne compile obs (m\<lparr>lmOp := MatchNotEqual\<rparr>)) \<and>
    (compile (lmValue m) \<noteq> None \<and> \<not> lmPrepared m \<and> lmName m \<noteq> [] \<and> lookupLabel (oLabels obs) (lmName m) \<noteq> None \<longrightarrow>
      matchOne compile obs (m\<lparr>lmOp := MatchRegex\<rparr>) \<noteq> matchOne compile obs (m\<lparr>lmOp := MatchNotRegex\<rparr>))"
  using assms by (simp add: Matches_def matchAll_iff matchOne_prepare)
    (auto simp: matchOne_def matcherRegexp_def Let_def split: option.splits)

theorem Matches_correct_witness:
  "\<not> Matches (\<lambda>p. Some (\<lambda>s. s = p)) (zeroConfig\<lparr>cAggID := 7, cMatchers := [\<lparr>lmName = ''zone'', lmValue = ''b'', lmOp = MatchRegex, lmCompiled = None,
       lmPrepared = False\<rparr>], cAggregateBy := []\<rparr>)
     \<lparr>oTimestampMs = 0, oMetric = [], oResourceLabels = [], oLabels = [(''zone'', ''a'')], oValue = ()\<rparr>"
  using Matches_correct [of "(zeroConfig\<lparr>cAggID := 7, cMatchers := [\<lparr>lmName = ''zone'', lmValue = ''b'', lmOp = MatchRegex, lmCompiled = None,
       lmPrepared = False\<rparr>], cAggregateBy := []\<rparr>)"
      "\<lambda>p. Some (\<lambda>s. s = p)" "\<lparr>oTimestampMs = 0, oMetric = [], oResourceLabels = [], oLabels = [(''zone'', ''a'')], oValue = ()\<rparr>"
      "\<lparr>lmName = ''zone'', lmValue = ''b'', lmOp = MatchRegex, lmCompiled = None, lmPrepared = False\<rparr>"]
  by (simp add: matchOne_def matcherRegexp_def)

end
