(* ===== verification/SnapshotCache.thy ===== *)
theory SnapshotCache
  imports SeriesKey
begin

text \<open>
  The sketch interface of the precompute runtime (\<^verbatim>\<open>asap-precompute-go/precompute.go\<close>) and the
  snapshot cache (\<^verbatim>\<open>snapshot_cache.go\<close>): per-series payloads against which the next delta is computed,
  with a generation count that prunes series that disappeared.

  A family of sketches is a record of its operations over a state type \<open>'s\<close> and a value type \<open>'v\<close>.
  The families wrap the third-party library sketchlib-go, so the operations are parameters. An operation
  that mutates the sketch returns the new state also when it fails. A nil payload is \<open>None\<close>.
\<close>

record ('s, 'v) sketchOps =
  skNew :: 's
  skObserve :: "'s \<Rightarrow> 'v \<Rightarrow> string option \<times> 's"
  skMerge :: "'s \<Rightarrow> 's \<Rightarrow> string option \<times> 's"
  skApplyDelta :: "'s \<Rightarrow> bytes \<Rightarrow> string option \<times> 's"
  skReset :: "'s \<Rightarrow> 's"
  skSnapshot :: "'s \<Rightarrow> string + bytes option"
  skComputeDeltaAgainst :: "'s \<Rightarrow> bytes \<Rightarrow> u64 \<Rightarrow> (string + bytes option \<times> bool) \<times> 's"
  skEmptyBase :: "('s \<Rightarrow> string + bytes) option"
  skSetSampleP :: "f64 \<Rightarrow> 's \<Rightarrow> 's"
  skConsumeWakeSignal :: "'s \<Rightarrow> bool \<times> 's"

text \<open>
  What the window relies on of a family that can be merged: a measure of the amount of data absorbed,
  0 for a new sketch, raised by one by each successful observation and kept by a failing one, added
  up by a merge, which does not fail.
\<close>

locale counted_sketch =
  fixes ops :: "('s, 'v) sketchOps" and mass :: "'s \<Rightarrow> u64"
  assumes mass_new: "mass (skNew ops) = 0"
    and mass_reset: "mass (skReset ops s) = 0"
    and mass_observe: "skObserve ops s v = (e, s') \<Longrightarrow> mass s' = mass s + (if e = None then 1 else 0)"
    and mass_merge: "fst (skMerge ops s t) = None \<and> mass (snd (skMerge ops s t)) = mass s + mass t"
begin

lemma mass_observe_fold:
  "(\<forall>v \<in> set vs. \<forall>s. fst (skObserve ops s v) = None) \<Longrightarrow>
   mass (fold (\<lambda>v s. snd (skObserve ops s v)) vs s) = mass s + of_nat (length vs)"
proof (induction vs arbitrary: s)
  case (Cons v vs)
  have "mass (snd (skObserve ops s v)) = mass s + 1"
    using mass_observe [OF prod.collapse [symmetric], of s v] Cons.prems by simp
  with Cons show ?case by simp
qed simp

lemma mass_merge_fold:
  "mass (fold (\<lambda>t s. snd (skMerge ops s t)) ts s) = mass s + sum_list (map mass ts)"
  by (induction ts arbitrary: s) (simp_all add: mass_merge)

end

section \<open>State and operations\<close>

record SnapshotCache =
  scOutbound :: "string \<Rightarrow> bytes option"
  scInbound :: "string \<Rightarrow> bytes option"
  scGeneration :: u64
  scSeen :: "string \<Rightarrow> u64 option"

definition NewSnapshotCache :: SnapshotCache where
  "NewSnapshotCache = \<lparr>scOutbound = Map.empty, scInbound = Map.empty, scGeneration = 1, scSeen = Map.empty\<rparr>"

text \<open>Caching a nil payload stores an empty one, which is not the same as no entry.\<close>

definition copyPayload :: "bytes option \<Rightarrow> bytes" where
  "copyPayload p = (case p of None \<Rightarrow> [] | Some b \<Rightarrow> b)"

definition CacheOutbound :: "string \<Rightarrow> bytes option \<Rightarrow> SnapshotCache \<Rightarrow> bool \<times> SnapshotCache" where
  "CacheOutbound key payload c =
     (scOutbound c key = None,
      c\<lparr>scOutbound := (scOutbound c)(key \<mapsto> copyPayload payload), scSeen := (scSeen c)(key \<mapsto> scGeneration c)\<rparr>)"

definition GetOutbound :: "string \<Rightarrow> SnapshotCache \<Rightarrow> bytes option" where
  "GetOutbound key c = scOutbound c key"

definition CacheInbound :: "string \<Rightarrow> bytes option \<Rightarrow> SnapshotCache \<Rightarrow> SnapshotCache" where
  "CacheInbound key payload c =
     c\<lparr>scInbound := (scInbound c)(key \<mapsto> copyPayload payload), scSeen := (scSeen c)(key \<mapsto> scGeneration c)\<rparr>"

definition GetInbound :: "string \<Rightarrow> SnapshotCache \<Rightarrow> bytes option" where
  "GetInbound key c = scInbound c key"

definition BeginGeneration :: "SnapshotCache \<Rightarrow> u64 \<times> SnapshotCache" where
  "BeginGeneration c = (scGeneration c + 1, c\<lparr>scGeneration := scGeneration c + 1\<rparr>)"

definition Touch :: "string \<Rightarrow> u64 \<Rightarrow> SnapshotCache \<Rightarrow> SnapshotCache" where
  "Touch key generation c =
     (if generation = scGeneration c then c\<lparr>scSeen := (scSeen c)(key \<mapsto> generation)\<rparr> else c)"

text \<open>A missing entry of \<^verbatim>\<open>seen\<close> reads as generation 0.\<close>

definition seenOf :: "SnapshotCache \<Rightarrow> string \<Rightarrow> u64" where
  "seenOf c key = (case scSeen c key of None \<Rightarrow> 0 | Some g \<Rightarrow> g)"

definition EndGeneration :: "u64 \<Rightarrow> SnapshotCache \<Rightarrow> SnapshotCache" where
  "EndGeneration generation c =
     (if generation \<noteq> scGeneration c then c
      else c\<lparr>scOutbound := (\<lambda>k. if seenOf c k \<noteq> generation then None else scOutbound c k),
             scInbound := (\<lambda>k. if seenOf c k \<noteq> generation then None else scInbound c k),
             scSeen := (\<lambda>k. if seenOf c k \<noteq> generation then None else scSeen c k)\<rparr>)"

definition RetainKeys :: "string set \<Rightarrow> SnapshotCache \<Rightarrow> SnapshotCache" where
  "RetainKeys retain c = c\<lparr>scOutbound := scOutbound c |` retain, scInbound := scInbound c |` retain\<rparr>"

definition DeleteSnapshot :: "string \<Rightarrow> SnapshotCache \<Rightarrow> SnapshotCache" where
  "DeleteSnapshot key c = c\<lparr>scOutbound := (scOutbound c)(key := None), scInbound := (scInbound c)(key := None),
     scSeen := (scSeen c)(key := None)\<rparr>"

definition ResetCache :: "SnapshotCache \<Rightarrow> SnapshotCache" where
  "ResetCache c = \<lparr>scOutbound = Map.empty, scInbound = Map.empty, scGeneration = scGeneration c + 1, scSeen = Map.empty\<rparr>"

section \<open>Deltas\<close>

datatype deltaErr = ErrSnapshot string | ErrComputeDelta string | ErrEmptyBase string

text \<open>The wire payload: the full state if there is no base, else what the sketch computes against it.\<close>

definition wirePayload ::
  "('s, 'v) sketchOps \<Rightarrow> bytes option \<Rightarrow> 's \<Rightarrow> u64 \<Rightarrow> (deltaErr + bytes option \<times> bool) \<times> 's" where
  "wirePayload ops prev current threshold =
     (case prev of
        None \<Rightarrow> (case skSnapshot ops current of
            Inl e \<Rightarrow> (Inl (ErrSnapshot e), current) | Inr full \<Rightarrow> (Inr (full, True), current))
      | Some base \<Rightarrow> (case skComputeDeltaAgainst ops current base threshold of
            (Inl e, current) \<Rightarrow> (Inl (ErrComputeDelta e), current)
          | (Inr (delta, full), current) \<Rightarrow> (Inr (delta, full), current)))"

text \<open>Caching the latest full state: the payload itself if it is full, a fresh snapshot otherwise.\<close>

definition refreshBase ::
  "('s, 'v) sketchOps \<Rightarrow> string \<Rightarrow> 's \<Rightarrow> bytes option \<Rightarrow> bool \<Rightarrow> SnapshotCache \<Rightarrow> (deltaErr + bytes option \<times> bool) \<times> SnapshotCache" where
  "refreshBase ops key current payload isFull c =
     (if isFull then (Inr (payload, isFull), snd (CacheOutbound key payload c))
      else case skSnapshot ops current of
          Inl e \<Rightarrow> (Inl (ErrSnapshot e), c)
        | Inr full \<Rightarrow> (Inr (payload, isFull), snd (CacheOutbound key full c)))"

definition ComputeDelta ::
  "('s, 'v) sketchOps \<Rightarrow> string \<Rightarrow> u64 \<Rightarrow> 's \<Rightarrow> SnapshotCache \<Rightarrow>
     (deltaErr + bytes option \<times> bool) \<times> 's \<times> SnapshotCache" where
  "ComputeDelta ops key threshold current c =
     (case wirePayload ops (scOutbound c key) current threshold of
        (Inl e, current) \<Rightarrow> (Inl e, current, c)
      | (Inr (payload, isFull), current) \<Rightarrow>
          let legacy = (case refreshBase ops key current payload isFull c of (r, c) \<Rightarrow> (r, current, c))
          in case skEmptyBase ops of
               None \<Rightarrow> legacy
             | Some eb \<Rightarrow> (case eb current of
                   Inl e \<Rightarrow> (Inl (ErrEmptyBase e), current, c)
                 | Inr emptyBase \<Rightarrow> if emptyBase \<noteq> []
                     then (Inr (payload, isFull), current, snd (CacheOutbound key (Some emptyBase) c)) else legacy))"

definition ComputeSubWindowDelta ::
  "('s, 'v) sketchOps \<Rightarrow> string \<Rightarrow> u64 \<Rightarrow> 's \<Rightarrow> SnapshotCache \<Rightarrow>
     (deltaErr + bytes option \<times> bool) \<times> 's \<times> SnapshotCache" where
  "ComputeSubWindowDelta ops key threshold current c =
     (case wirePayload ops (scOutbound c key) current threshold of
        (Inl e, current) \<Rightarrow> (Inl e, current, c)
      | (Inr (payload, isFull), current) \<Rightarrow>
          (case refreshBase ops key current payload isFull c of (r, c) \<Rightarrow> (r, current, c)))"

section \<open>Properties\<close>

text \<open>What happens to the cache while a generation is open.\<close>

datatype cacheOp = OpTouch string | OpOutbound string "bytes option" | OpInbound string "bytes option"

fun opKey :: "cacheOp \<Rightarrow> string" where
  "opKey (OpTouch k) = k" | "opKey (OpOutbound k _) = k" | "opKey (OpInbound k _) = k"

fun runOp :: "u64 \<Rightarrow> cacheOp \<Rightarrow> SnapshotCache \<Rightarrow> SnapshotCache" where
  "runOp g (OpTouch k) c = Touch k g c"
| "runOp g (OpOutbound k p) c = snd (CacheOutbound k p c)"
| "runOp g (OpInbound k p) c = CacheInbound k p c"

lemma runOps_seen:
  "scGeneration c = g \<Longrightarrow> scGeneration (fold (runOp g) ops c) = g \<and>
   (seenOf (fold (runOp g) ops c) k = g \<longleftrightarrow> k \<in> opKey ` set ops \<or> seenOf c k = g)"
proof (induction ops arbitrary: c)
  case (Cons op ops)
  have "scGeneration (runOp g op c) = g" "seenOf (runOp g op c) k = g \<longleftrightarrow> k = opKey op \<or> seenOf c k = g"
    using Cons.prems by (cases op; auto simp: Touch_def CacheOutbound_def CacheInbound_def seenOf_def)+
  with Cons.IH [of "runOp g op c"] show ?case by auto
qed simp

text \<open>
  Pruning at a window's end is exact: of a cache in which no entry is marked beyond the
  current generation, closing the next generation keeps the snapshots of exactly the series that
  were touched or cached while it was open, unchanged, and forgets all others.
\<close>
theorem EndGeneration_exact:
  assumes "scGeneration c + 1 = g" "\<forall>k. seenOf c k \<noteq> g"
  shows "let c' = fold (runOp g) ops (snd (BeginGeneration c)); c'' = EndGeneration g c'
    in scOutbound c'' k = (if k \<in> opKey ` set ops then scOutbound c' k else None) \<and>
       scInbound c'' k = (if k \<in> opKey ` set ops then scInbound c' k else None) \<and>
       (scSeen c'' k \<noteq> None \<longrightarrow> k \<in> opKey ` set ops)"
proof -
  let ?c = "snd (BeginGeneration c)"
  have "scGeneration ?c = g" "seenOf ?c k \<noteq> g"
    using assms by (auto simp: BeginGeneration_def seenOf_def split: option.splits)
  with runOps_seen [of ?c g ops k] show ?thesis
    by (auto simp: EndGeneration_def Let_def)
qed

theorem EndGeneration_exact_witness:
  "let c = snd (CacheOutbound ''gone'' (Some [1]) (snd (CacheOutbound ''kept'' (Some [2]) NewSnapshotCache)));
       c' = EndGeneration 2 (fold (runOp 2) [OpTouch ''kept''] (snd (BeginGeneration c)))
   in scOutbound c' ''gone'' = None \<and> scOutbound c' ''kept'' = Some [2]"
  using EndGeneration_exact [of "snd (CacheOutbound ''gone'' (Some [1]) (snd (CacheOutbound ''kept'' (Some [2]) NewSnapshotCache)))"
      2 "[OpTouch ''kept'']" "''gone''"]
    EndGeneration_exact [of "snd (CacheOutbound ''gone'' (Some [1]) (snd (CacheOutbound ''kept'' (Some [2]) NewSnapshotCache)))"
      2 "[OpTouch ''kept'']" "''kept''"]
  by (auto simp: CacheOutbound_def NewSnapshotCache_def seenOf_def copyPayload_def Touch_def BeginGeneration_def Let_def)

text \<open>
  Per-window deltas: for a family that supplies an empty base, a window-close delta
  always resets the base, so that whatever was cached before, the next window's payload of that
  series is computed against the empty base alone and never against an earlier window.
\<close>
theorem ComputeDelta_per_window:
  assumes "ComputeDelta ops key th s c = (Inr p, s', c')" "skEmptyBase ops = Some eb" "eb s' = Inr b" "b \<noteq> []"
  shows "fst (ComputeDelta ops key th' t c') = fst (ComputeDelta ops key th' t
      (snd (CacheOutbound key (Some b) NewSnapshotCache))) \<and>
    (case skComputeDeltaAgainst ops t b th' of
       (Inr (delta, full), t') \<Rightarrow> (case eb t' of Inr b' \<Rightarrow> b' \<noteq> [] \<longrightarrow>
          fst (ComputeDelta ops key th' t c') = Inr (delta, full) | _ \<Rightarrow> True) | _ \<Rightarrow> True)"
proof -
  have base: "scOutbound c' key = Some b"
    using assms by (auto simp: ComputeDelta_def CacheOutbound_def copyPayload_def Let_def
        split: prod.splits sum.splits if_splits)
  have base': "scOutbound (snd (CacheOutbound key (Some b) NewSnapshotCache)) key = Some b"
    by (simp add: CacheOutbound_def copyPayload_def)
  show ?thesis
    unfolding ComputeDelta_def base base'
    by (auto simp: assms(2) wirePayload_def refreshBase_def Let_def split: prod.splits sum.splits)
qed

end
