(* ===== verification/SumSketch.thy ===== *)
theory SumSketch
  imports SnapshotCache
begin

text \<open>
  The Sum aggregate as a sketch family (\<^verbatim>\<open>asap-precompute-go/sketches/sum.go\<close>): a running sum and
  count, its 16-byte payload, incremental deltas, and the insert-time delta gate (GOS mode) that
  captures amounts whenever they cross a threshold. \<^verbatim>\<open>float64\<close> is IEEE binary64 over bit patterns.
\<close>

section \<open>The wrapper\<close>

record SumWrapper =
  swSum :: f64
  swCount :: u64
  gosEpsilon :: f64
  gosSites :: "32 word"
  gosSinceCrossSum :: f64
  gosSinceCrossCount :: u64
  gosReadySum :: f64
  gosReadyCount :: u64
  gosWake :: bool

definition NewSumWrapper :: SumWrapper where
  "NewSumWrapper = \<lparr>swSum = 0, swCount = 0, gosEpsilon = 0, gosSites = 0, gosSinceCrossSum = 0,
     gosSinceCrossCount = 0, gosReadySum = 0, gosReadyCount = 0, gosWake = False\<rparr>"

definition SetGosMode :: "f64 \<Rightarrow> 32 word \<Rightarrow> SumWrapper \<Rightarrow> SumWrapper" where
  "SetGosMode epsilon sites w = w\<lparr>gosEpsilon := epsilon, gosSites := sites\<rparr>"

text \<open>\<^verbatim>\<open>math.Max(1, float64(k))\<close> of an unsigned count is the larger of the two.\<close>

definition SumIsotropicThreshold :: "f64 \<Rightarrow> f64 \<Rightarrow> 32 word \<Rightarrow> f64" where
  "SumIsotropicThreshold epsilon n k = f64_div (f64_mul epsilon n) (f64_of_ratio False (max 1 (unat k)) 1)"

definition Update :: "f64 \<Rightarrow> SumWrapper \<Rightarrow> SumWrapper" where
  "Update v w =
     (let w = w\<lparr>swSum := f64_add (swSum w) v, swCount := swCount w + 1\<rparr>
      in if f64_le (gosEpsilon w) 0 then w
         else let w = w\<lparr>gosSinceCrossSum := f64_add (gosSinceCrossSum w) v,
                        gosSinceCrossCount := gosSinceCrossCount w + 1\<rparr>;
                  threshold = SumIsotropicThreshold (gosEpsilon w) (f64_abs (swSum w)) (gosSites w)
              in if f64_less (f64_abs (gosSinceCrossSum w)) threshold then w
                 else let w = (if gosReadyCount w = 0 then w\<lparr>gosWake := True\<rparr> else w)
                      in w\<lparr>gosReadySum := f64_add (gosReadySum w) (gosSinceCrossSum w),
                           gosReadyCount := gosReadyCount w + gosSinceCrossCount w,
                           gosSinceCrossSum := 0, gosSinceCrossCount := 0\<rparr>)"

definition ApplyAdmittedOccurrence :: "f64 \<Rightarrow> u64 \<Rightarrow> f64 \<Rightarrow> SumWrapper \<Rightarrow> string option \<times> SumWrapper" where
  "ApplyAdmittedOccurrence v admittedRows sampleP w =
     (if admittedRows \<noteq> 1 then (Some ''admitted_rows'', w)
      else if f64_le sampleP 0 \<or> f64_less 0x3FF0000000000000 sampleP \<or> f64_isnan sampleP then (Some ''sample_p'', w)
      else (None, Update (f64_div v sampleP) w))"

definition ConsumeWakeSignal :: "SumWrapper \<Rightarrow> bool \<times> SumWrapper" where
  "ConsumeWakeSignal w = (if \<not> gosWake w then (False, w) else (True, w\<lparr>gosWake := False\<rparr>))"

definition sumPayloadLen :: nat where
  "sumPayloadLen = 16"

definition sumPayload :: "f64 \<Rightarrow> u64 \<Rightarrow> bytes" where
  "sumPayload sm cnt = putUint64 sm @ putUint64 cnt"

definition drainGosDelta :: "SumWrapper \<Rightarrow> (string + bytes option \<times> bool) \<times> SumWrapper" where
  "drainGosDelta w =
     (if gosReadyCount w = 0 then (Inr (None, False), w)
      else (Inr (Some (sumPayload (gosReadySum w) (gosReadyCount w)), False),
            w\<lparr>gosReadySum := 0, gosReadyCount := 0\<rparr>))"

definition SumSnapshot :: "SumWrapper \<Rightarrow> string + bytes option" where
  "SumSnapshot w =
     (if swCount w = 0 then Inr None
      else let (sm, cnt) = (if f64_less 0 (gosEpsilon w)
             then (f64_sub (swSum w) (gosReadySum w), swCount w - gosReadyCount w) else (swSum w, swCount w))
           in Inr (Some (sumPayload sm cnt)))"

definition SumComputeDeltaAgainst :: "SumWrapper \<Rightarrow> bytes \<Rightarrow> u64 \<Rightarrow> (string + bytes option \<times> bool) \<times> SumWrapper" where
  "SumComputeDeltaAgainst w prev th =
     (if f64_less 0 (gosEpsilon w) then drainGosDelta w
      else let (prevSum, prevCount) = (if sumPayloadLen \<le> length prev
             then (getUint64 prev, getUint64 (drop 8 prev)) else (0, 0));
               dSum = f64_sub (swSum w) prevSum; dCount = swCount w - prevCount
           in if f64_eq dSum 0 \<and> dCount = 0 then (Inr (None, False), w)
              else (Inr (Some (sumPayload dSum dCount), False), w))"

definition DeltaAgainstEmptyBase :: "SumWrapper \<Rightarrow> string + bytes" where
  "DeltaAgainstEmptyBase w = Inr (replicate sumPayloadLen 0)"

definition SumApplyDelta :: "SumWrapper \<Rightarrow> bytes \<Rightarrow> string option \<times> SumWrapper" where
  "SumApplyDelta w payload =
     (if payload = [] then (None, w)
      else if length payload < sumPayloadLen then (Some ''payload too short'', w)
      else (None, w\<lparr>swSum := f64_add (swSum w) (getUint64 payload), swCount := swCount w + getUint64 (drop 8 payload)\<rparr>))"

definition SumMerge :: "SumWrapper \<Rightarrow> SumWrapper \<Rightarrow> string option \<times> SumWrapper" where
  "SumMerge w o' = (None, w\<lparr>swSum := f64_add (swSum w) (swSum o'), swCount := swCount w + swCount o'\<rparr>)"

definition SumReset :: "SumWrapper \<Rightarrow> SumWrapper" where
  "SumReset w = w\<lparr>swSum := 0, swCount := 0, gosSinceCrossSum := 0, gosSinceCrossCount := 0, gosReadySum := 0,
     gosReadyCount := 0, gosWake := False\<rparr>"

section \<open>The observer\<close>

datatype ObservationValueKind = KindFloat | KindHash | KindBytes | KindEnvelope

record ObservationValue =
  ovKind :: ObservationValueKind
  ovFloat :: f64
  ovBytes :: string
  ovRowSampled :: bool
  ovAdmittedRows :: u64
  ovSampleP :: f64

definition FloatValue :: "f64 \<Rightarrow> ObservationValue" where
  "FloatValue v = \<lparr>ovKind = KindFloat, ovFloat = v, ovBytes = [], ovRowSampled = False, ovAdmittedRows = 0, ovSampleP = 0\<rparr>"

definition SumObserve :: "SumWrapper \<Rightarrow> ObservationValue \<Rightarrow> string option \<times> SumWrapper" where
  "SumObserve w v =
     (case ovKind v of
        KindFloat \<Rightarrow> if ovRowSampled v then ApplyAdmittedOccurrence (ovFloat v) (ovAdmittedRows v) (ovSampleP v) w
          else (None, Update (ovFloat v) w)
      | _ \<Rightarrow> (Some ''unsupported value kind'', w))"

text \<open>The family: a factory that primes the GOS mode, and the wrapper's methods.\<close>

definition sumOps :: "f64 \<Rightarrow> 32 word \<Rightarrow> (SumWrapper, ObservationValue) sketchOps" where
  "sumOps epsilon sites = \<lparr>skNew = SetGosMode epsilon sites NewSumWrapper, skObserve = SumObserve, skMerge = SumMerge,
     skApplyDelta = SumApplyDelta, skReset = SumReset, skSnapshot = SumSnapshot,
     skComputeDeltaAgainst = SumComputeDeltaAgainst, skEmptyBase = Some DeltaAgainstEmptyBase,
     skSetSampleP = (\<lambda>p w. w), skConsumeWakeSignal = ConsumeWakeSignal\<rparr>"

text \<open>The count of a Sum is such a measure.\<close>

lemma f64_zero_order: "f64_le 0 0" "\<not> f64_less 0 0"
  by (simp_all add: f64_le_def f64_less_def f64_isnan_def f64_exp_def)

lemma swCount_Update [simp]: "swCount (Update v w) = swCount w + 1"
  by (simp add: Update_def Let_def)

interpretation sum_counted: counted_sketch "sumOps epsilon sites" swCount
proof
  show "skObserve (sumOps epsilon sites) s v = (e, s') \<Longrightarrow> swCount s' = swCount s + (if e = None then 1 else 0)" for s v e s'
    by (auto simp: sumOps_def SumObserve_def ApplyAdmittedOccurrence_def split: ObservationValueKind.splits if_splits)
qed (simp_all add: sumOps_def SetGosMode_def NewSumWrapper_def SumReset_def SumMerge_def)

theorem ComputeDelta_per_window_witness:
  "let ops = sumOps 0 1; c' = snd (snd (ComputeDelta ops ''k'' 0 (Update 0x3FF0000000000000 (skNew ops)) NewSnapshotCache))
   in fst (ComputeDelta ops ''k'' 0 (Update 0x4000000000000000 (skNew ops)) c') =
      fst (ComputeDelta ops ''k'' 0 (Update 0x4000000000000000 (skNew ops))
        (snd (CacheOutbound ''k'' (Some (replicate 16 0)) NewSnapshotCache)))"
proof -
  let ?ops = "sumOps 0 1" and ?s = "Update 0x3FF0000000000000 (skNew (sumOps 0 1))"
  have 0: "skSnapshot ?ops ?s = Inr (Some (sumPayload (swSum ?s) (swCount ?s)))"
    by (simp add: sumOps_def SumSnapshot_def SetGosMode_def NewSumWrapper_def Update_def f64_zero_order Let_def)
  have "ComputeDelta ?ops ''k'' 0 ?s NewSnapshotCache = (Inr (Some (sumPayload (swSum ?s) (swCount ?s)), True), ?s,
      snd (CacheOutbound ''k'' (Some (replicate 16 0)) NewSnapshotCache))"
    unfolding ComputeDelta_def wirePayload_def NewSnapshotCache_def
    by (simp add: 0) (simp add: sumOps_def DeltaAgainstEmptyBase_def sumPayloadLen_def)
  from ComputeDelta_per_window [OF this, of DeltaAgainstEmptyBase "replicate 16 0" 0 "Update 0x4000000000000000 (skNew ?ops)"] this
  show ?thesis by (simp add: Let_def sumOps_def DeltaAgainstEmptyBase_def sumPayloadLen_def)
qed

section \<open>Reconstruction from sub-window emits\<close>

text \<open>
  The producer's side of one open window: observations and sub-window emits in any order. The third
  component is what a receiver that adds up the fragments has counted.
\<close>

datatype sumEvent = EvUpdate f64 | EvEmit

definition fragmentCount :: "deltaErr + bytes option \<times> bool \<Rightarrow> u64" where
  "fragmentCount r = (case r of Inr (Some b, _) \<Rightarrow> getUint64 (drop 8 b) | _ \<Rightarrow> 0)"

fun runWindow :: "f64 \<Rightarrow> 32 word \<Rightarrow> string \<Rightarrow> sumEvent list \<Rightarrow> SumWrapper \<times> SnapshotCache \<times> u64 \<Rightarrow> SumWrapper \<times> SnapshotCache \<times> u64" where
  "runWindow eps k key [] st = st"
| "runWindow eps k key (EvUpdate v # evs) (w, c, n) = runWindow eps k key evs (Update v w, c, n)"
| "runWindow eps k key (EvEmit # evs) (w, c, n) =
     (case ComputeSubWindowDelta (sumOps eps k) key 0 w c of
        (r, w, c) \<Rightarrow> runWindow eps k key evs (w, c, n + fragmentCount r))"

definition baseCount :: "bytes option \<Rightarrow> u64" where
  "baseCount b = (case b of Some b \<Rightarrow> if sumPayloadLen \<le> length b then getUint64 (drop 8 b) else 0 | None \<Rightarrow> 0)"

lemma sumPayload_simps [simp]:
  "length (sumPayload s n) = 16" "getUint64 (sumPayload s n) = s" "getUint64 (drop 8 (sumPayload s n)) = n"
  using getUint64_putUint64 [of n "[]"] by (simp_all add: sumPayload_def)

lemma plain_Update [simp]:
  assumes "f64_le (gosEpsilon w) 0"
  shows "swCount (Update v w) = swCount w + 1" "gosEpsilon (Update v w) = gosEpsilon w"
  using assms by (simp_all add: Update_def)

lemma f64_le_not_less: "f64_le x 0 \<Longrightarrow> \<not> f64_less 0 x"
  by (simp add: f64_le_def f64_less_def)

lemma emit_plain:
  assumes "f64_le (gosEpsilon w) 0" "ComputeSubWindowDelta (sumOps eps k) key th w c = (r, w', c')"
  shows "w' = w \<and> baseCount (scOutbound c' key) = swCount w \<and> fragmentCount r = swCount w - baseCount (scOutbound c key)"
proof -
  have ng: "\<not> f64_less 0 (gosEpsilon w)" using assms(1) by (rule f64_le_not_less)
  show ?thesis
  proof (cases "scOutbound c key")
    case None
    with assms(2) ng show ?thesis
      by (auto simp: ComputeSubWindowDelta_def wirePayload_def refreshBase_def sumOps_def SumSnapshot_def
          CacheOutbound_def copyPayload_def baseCount_def fragmentCount_def sumPayloadLen_def split: if_splits)
  next
    case (Some b)
    with assms(2) ng show ?thesis
      by (auto simp: ComputeSubWindowDelta_def wirePayload_def refreshBase_def sumOps_def SumSnapshot_def
          SumComputeDeltaAgainst_def CacheOutbound_def copyPayload_def baseCount_def fragmentCount_def
          sumPayloadLen_def Let_def split: if_splits)
  qed
qed

lemma runWindow_plain:
  "f64_le (gosEpsilon w) 0 \<Longrightarrow> runWindow eps k key evs (w, c, n) = (w', c', n') \<Longrightarrow>
   n' - baseCount (scOutbound c' key) = n - baseCount (scOutbound c key) \<and> f64_le (gosEpsilon w') 0 \<and>
   swCount w' = swCount w + of_nat (length (filter (\<lambda>e. e \<noteq> EvEmit) evs))"
proof (induction evs arbitrary: w c n)
  case (Cons e evs)
  show ?case
  proof (cases e)
    case (EvUpdate v)
    with Cons.IH [of "Update v w" c n] Cons.prems show ?thesis by (simp add: algebra_simps)
  next
    case EvEmit
    obtain r w1 c1 where 1: "ComputeSubWindowDelta (sumOps eps k) key 0 w c = (r, w1, c1)" by (metis prod.exhaust)
    note emit = emit_plain [OF Cons.prems(1) 1]
    have "runWindow eps k key evs (w, c1, n + fragmentCount r) = (w', c', n')"
      using Cons.prems(2) EvEmit 1 emit by simp
    from Cons.IH [OF Cons.prems(1) this] emit EvEmit show ?thesis by simp
  qed
qed simp

text \<open>
  Property C33. Outside GOS mode the sub-window fragments of an open window add up: a receiver that
  sums the counts of all fragments, whatever the interleaving of observations and emits, has after
  each emit exactly the number of observations so far.
\<close>
theorem subwindow_counts_reconstruct:
  assumes "f64_le eps 0" "scOutbound c key = None"
    and "runWindow eps k key (evs @ [EvEmit]) (SetGosMode eps k NewSumWrapper, c, 0) = (w, c', n)"
  shows "n = of_nat (length (filter (\<lambda>e. e \<noteq> EvEmit) evs)) \<and> swCount w = n"
proof -
  let ?w = "SetGosMode eps k NewSumWrapper"
  have split: "runWindow eps k key (xs @ ys) st = runWindow eps k key ys (runWindow eps k key xs st)" for xs ys st
  proof (induction xs arbitrary: st)
    case (Cons e xs)
    obtain v d m where "st = (v, d, m)" by (metis prod.exhaust)
    with Cons show ?case by (cases e) (simp_all split: prod.split)
  qed simp
  obtain w1 c1 n1 where 1: "runWindow eps k key evs (?w, c, 0) = (w1, c1, n1)" by (metis prod.exhaust)
  obtain r w2 c2 where 2: "ComputeSubWindowDelta (sumOps eps k) key 0 w1 c1 = (r, w2, c2)" by (metis prod.exhaust)
  have "f64_le (gosEpsilon ?w) 0" using assms(1) by (simp add: SetGosMode_def)
  note run = runWindow_plain [OF this 1]
  have n1: "n1 = baseCount (scOutbound c1 key)" "swCount w1 = of_nat (length (filter (\<lambda>e. e \<noteq> EvEmit) evs))"
    using run assms(2) by (simp_all add: baseCount_def SetGosMode_def NewSumWrapper_def)
  from emit_plain [OF _ 2] run have "w2 = w1" "fragmentCount r = swCount w1 - baseCount (scOutbound c1 key)" by auto
  with assms(3) 1 2 n1 show ?thesis by (simp add: split)
qed

theorem subwindow_counts_reconstruct_witness:
  "case runWindow 0 1 ''k'' ([EvUpdate 0x3FF0000000000000, EvEmit, EvUpdate 0x4000000000000000, EvUpdate 0] @ [EvEmit])
      (SetGosMode 0 1 NewSumWrapper, NewSnapshotCache, 0) of (w, c', n) \<Rightarrow> n = 3"
proof -
  obtain w c' n where r: "runWindow 0 1 ''k'' ([EvUpdate 0x3FF0000000000000, EvEmit, EvUpdate 0x4000000000000000, EvUpdate 0] @ [EvEmit])
      (SetGosMode 0 1 NewSumWrapper, NewSnapshotCache, 0) = (w, c', n)" by (metis prod.exhaust)
  have "f64_le 0 0" "scOutbound NewSnapshotCache ''k'' = None"
    by (simp_all add: f64_eval NewSnapshotCache_def)
  from subwindow_counts_reconstruct [OF this r] have "n = 3" by simp
  then show ?thesis unfolding r prod.case .
qed

lemmas Update_eval = SetGosMode_def NewSumWrapper_def Update_def

text \<open>The arithmetic of the run below: 1 + 0.25 + 4 with threshold factor one half.\<close>

lemma gos_adds:
  "f64_add 0 0x3FF0000000000000 = 0x3FF0000000000000"
  "f64_add 0x3FF0000000000000 0x3FD0000000000000 = 0x3FF4000000000000"
  "f64_add 0 0x3FD0000000000000 = 0x3FD0000000000000"
  "f64_add 0x3FF4000000000000 0x4010000000000000 = 0x4015000000000000"
  "f64_add 0x3FD0000000000000 0x4010000000000000 = 0x4011000000000000"
  "f64_add 0x3FF0000000000000 0x4011000000000000 = 0x4015000000000000"
  by (simp_all add: f64_eval)

lemma gos_thresholds:
  "SumIsotropicThreshold 0x3FE0000000000000 (f64_abs 0x3FF0000000000000) 1 = 0x3FE0000000000000"
  "SumIsotropicThreshold 0x3FE0000000000000 (f64_abs 0x3FF4000000000000) 1 = 0x3FE4000000000000"
  "SumIsotropicThreshold 0x3FE0000000000000 (f64_abs 0x4015000000000000) 1 = 0x4005000000000000"
  by (simp_all add: f64_eval SumIsotropicThreshold_def)

lemma gos_comparisons:
  "f64_less (f64_abs 0x3FF0000000000000) 0x3FE0000000000000 = False"
  "f64_less (f64_abs 0x3FD0000000000000) 0x3FE4000000000000 = True"
  "f64_less (f64_abs 0x4011000000000000) 0x4005000000000000 = False"
  "f64_le 0x3FE0000000000000 0 = False" "f64_less 0 0x3FE0000000000000 = True"
  by (simp_all add: f64_eval)

lemmas gos_eval = Update_eval gos_adds gos_thresholds gos_comparisons

lemma gos_update_1: "Update 0x3FF0000000000000 (SetGosMode 0x3FE0000000000000 1 NewSumWrapper) =
  \<lparr>swSum = 0x3FF0000000000000, swCount = 1, gosEpsilon = 0x3FE0000000000000, gosSites = 1, gosSinceCrossSum = 0,
   gosSinceCrossCount = 0, gosReadySum = 0x3FF0000000000000, gosReadyCount = 1, gosWake = True\<rparr>"
  by (simp add: gos_eval)

lemma gos_update_2: "Update 0x3FD0000000000000
  \<lparr>swSum = 0x3FF0000000000000, swCount = 1, gosEpsilon = 0x3FE0000000000000, gosSites = 1, gosSinceCrossSum = 0,
   gosSinceCrossCount = 0, gosReadySum = 0x3FF0000000000000, gosReadyCount = 1, gosWake = True\<rparr> =
  \<lparr>swSum = 0x3FF4000000000000, swCount = 2, gosEpsilon = 0x3FE0000000000000, gosSites = 1, gosSinceCrossSum = 0x3FD0000000000000,
   gosSinceCrossCount = 1, gosReadySum = 0x3FF0000000000000, gosReadyCount = 1, gosWake = True\<rparr>"
  by (simp add: gos_eval)

lemma gos_update_3: "Update 0x4010000000000000
  \<lparr>swSum = 0x3FF4000000000000, swCount = 2, gosEpsilon = 0x3FE0000000000000, gosSites = 1, gosSinceCrossSum = 0x3FD0000000000000,
   gosSinceCrossCount = 1, gosReadySum = 0x3FF0000000000000, gosReadyCount = 1, gosWake = True\<rparr> =
  \<lparr>swSum = 0x4015000000000000, swCount = 3, gosEpsilon = 0x3FE0000000000000, gosSites = 1, gosSinceCrossSum = 0,
   gosSinceCrossCount = 0, gosReadySum = 0x4015000000000000, gosReadyCount = 3, gosWake = True\<rparr>"
  by (simp add: gos_eval)

text \<open>
  In GOS mode the first, full emit overlaps a later delta: the snapshot contains the
  amount observed since the last crossing, which the next crossing captures and ships again. After
  the values 1 and 0.25, a first emit, the value 4 and a second emit (threshold factor one half), a
  receiver has counted four observations of three, and 5.5 for a sum of 5.25.
\<close>
theorem gos_first_emit_overlaps:
  "case runWindow 0x3FE0000000000000 1 ''k'' [EvUpdate 0x3FF0000000000000, EvUpdate 0x3FD0000000000000, EvEmit,
        EvUpdate 0x4010000000000000, EvEmit] (SetGosMode 0x3FE0000000000000 1 NewSumWrapper, NewSnapshotCache, 0) of
     (w, c, n) \<Rightarrow> n = 4 \<and> swCount w = 3"
  by (simp add: gos_update_1 gos_update_2 gos_update_3 gos_comparisons ComputeSubWindowDelta_def
      wirePayload_def refreshBase_def sumOps_def SumSnapshot_def SumComputeDeltaAgainst_def drainGosDelta_def
      CacheOutbound_def NewSnapshotCache_def fragmentCount_def copyPayload_def)

end
