(* ===== verification/Envelope.thy ===== *)
theory Envelope
  imports SnapshotCache
begin

text \<open>
  The envelope in which a closed window's sketch travels (\<^verbatim>\<open>asap-precompute-go/envelope.go\<close>): the
  record with the identity attributes (a map, as an association list), the labels, the window range and the
  payload.
\<close>

text \<open>
  \<^verbatim>\<open>HashSpec\<close>, a message of sketchlib-go that the modelled code never sets or reads, is left out.
\<close>

record SketchEnvelope =
  eFrameAttributes :: "(string \<times> string) list"
  eSchemaVersion :: "32 word"
  eSketchType :: SketchType
  eAggKind :: AggregationKind
  eAggID :: u64
  eResourceLabels :: labels
  eLabels :: labels
  eWindowStartMs :: u64
  eWindowEndMs :: u64
  eEncoding :: Encoding
  ePayload :: bytes
  eMetricName :: string
  eCount :: u64
  eTemporality :: "32 word"
  eRelativeAccuracy :: f64

definition EffectiveAggKind :: "SketchEnvelope \<Rightarrow> AggregationKind" where
  "EffectiveAggKind e =
     (if eAggKind e = AggKindUnspecified \<and> eSketchType e \<noteq> SketchTypeUnspecified then AggKindSketch else eAggKind e)"

end
