(* ===== verification/Window.thy ===== *)
theory Window
  imports SumSketch Envelope "HOL-Library.AList"
begin

text \<open>
  The window manager of the precompute runtime (\<^verbatim>\<open>asap-precompute-go/window.go\<close>): admission by timestamp
  and by series cap, tumbling, sliding and batch rotation, and the merge of inbound envelopes.

  Correspondence. \<^verbatim>\<open>map[string]*seriesEntry\<close> is an association list with distinct keys, whose order
  stands for Go's unspecified iteration order; the key is the entry's \<^verbatim>\<open>seriesKey\<close>. The eviction heap
  holds exactly the entries of the series map, re-heapified when a last-seen time changes, so its
  minimum (the contract of \<^verbatim>\<open>container/heap\<close>) is \<open>oldestOf\<close> of the map. Hooks are flags and their calls are
  recorded in \<open>wEvents\<close>; the sampling hook, which may change a new sketch, is a function. The gauge
  \<^verbatim>\<open>stats.ActiveSeries\<close> and the shared snapshot cache are fields. The locks make each call one step.
\<close>

section \<open>State\<close>

record 's seriesEntry =
  seSketch :: 's
  seResourceLabels :: labels
  seLabels :: labels
  seLastSeenMs :: u64
  seCount :: u64
  seDeltaWindowStartMs :: u64
  seDeltaWindowEndMs :: u64
  seSubWindowAcked :: bool
  seAckVal :: f64

type_synonym 's seriesMap = "(string \<times> 's seriesEntry) list"

record 's slidingPane =
  spSeries :: "'s seriesMap"
  spStartMs :: u64
  spEndMs :: u64

datatype 's windowEvent = EvMonitor "'s seriesEntry" u64 | EvMonitorReset u64 | EvWake | EvSink string

record 's windowState =
  wSeries :: "'s seriesMap"
  wCache :: SnapshotCache
  wSink :: bool
  wActiveStartMs :: u64
  wActiveEndMs :: u64
  wInitialized :: bool
  wPanes :: "'s slidingPane list"
  wSketchFactory :: "'s option"
  wMonitorHook :: bool
  wMonitorResetHook :: bool
  wMonitorSampleHook :: "('s \<Rightarrow> 's) option"
  wWakeHook :: bool
  wActiveSeries :: i64
  wEvents :: "'s windowEvent list"

datatype windowErr = ErrFutureData | ErrLateData | ErrSeriesCapExceeded | ErrObserve string
  | ErrApplyDelta string | ErrMergeFull string | ErrEnvelopeEncoding Encoding

definition newWindowState :: "'s windowState" where
  "newWindowState = \<lparr>wSeries = [], wCache = NewSnapshotCache, wSink = False, wActiveStartMs = 0, wActiveEndMs = 0,
     wInitialized = False, wPanes = [], wSketchFactory = None, wMonitorHook = False, wMonitorResetHook = False,
     wMonitorSampleHook = None, wWakeHook = False, wActiveSeries = 0, wEvents = []\<rparr>"

definition logEvent :: "'s windowEvent \<Rightarrow> 's windowState \<Rightarrow> 's windowState" where
  "logEvent e w = w\<lparr>wEvents := wEvents w @ [e]\<rparr>"

definition hasAccumulatedState :: "'s windowState \<Rightarrow> bool" where
  "hasAccumulatedState w \<longleftrightarrow> wSeries w \<noteq> [] \<or> (\<exists>p \<in> set (wPanes w). spSeries p \<noteq> [])"

section \<open>Bounds\<close>

text \<open>\<^verbatim>\<open>uint64(d / time.Millisecond)\<close>: Go's division of a signed duration truncates towards zero.\<close>

definition durMs :: "i64 \<Rightarrow> u64" where
  "durMs d = word_of_int (sgn (sint d) * (\<bar>sint d\<bar> div 1000000))"

definition windowSizeMs :: "PrecomputeConfig \<Rightarrow> u64" where
  "windowSizeMs cfg = (if sint (wsSize (cWindow cfg)) \<le> 0 then 0 else durMs (wsSize (cWindow cfg)))"

definition slideMs :: "PrecomputeConfig \<Rightarrow> u64" where
  "slideMs cfg = (if 0 < sint (wsSlide (cWindow cfg)) then durMs (wsSlide (cWindow cfg)) else windowSizeMs cfg)"

definition panesPerWindow :: "PrecomputeConfig \<Rightarrow> int" where
  "panesPerWindow cfg =
     (let size = windowSizeMs cfg; slide = slideMs cfg
      in if size = 0 \<or> slide = 0 then 1
         else let n = sint ((size + slide - 1) div slide) in if n < 1 then 1 else n)"

definition rotationStepMs :: "PrecomputeConfig \<Rightarrow> u64" where
  "rotationStepMs cfg = (if cMode cfg = Sliding then slideMs cfg else windowSizeMs cfg)"

definition initWindow :: "u64 \<Rightarrow> PrecomputeConfig \<Rightarrow> 's windowState \<Rightarrow> 's windowState" where
  "initWindow refMs cfg w =
     (if wInitialized w then w
      else let size = rotationStepMs cfg
           in if size = 0 then w\<lparr>wActiveStartMs := refMs, wActiveEndMs := refMs, wInitialized := True\<rparr>
              else w\<lparr>wActiveStartMs := refMs div size * size, wActiveEndMs := refMs div size * size + size,
                     wInitialized := True\<rparr>)"

definition validateTimestampLocked :: "'s windowState \<Rightarrow> u64 \<Rightarrow> PrecomputeConfig \<Rightarrow> windowErr option" where
  "validateTimestampLocked w timestampMs cfg =
     (if wActiveEndMs w \<le> timestampMs then Some ErrFutureData
      else if timestampMs < wActiveStartMs w
        then let latenessMs = durMs (wsAllowedLateness (cWindow cfg))
             in if latenessMs < wActiveStartMs w - timestampMs then Some ErrLateData else None
      else None)"

section \<open>Admission\<close>

text \<open>\<^verbatim>\<open>seriesEvictionHeap.Less\<close> and the heap's minimum.\<close>

definition evictionLess :: "string \<times> 's seriesEntry \<Rightarrow> string \<times> 's seriesEntry \<Rightarrow> bool" where
  "evictionLess a b =
     (if seLastSeenMs (snd a) = seLastSeenMs (snd b) then fst a < fst b else seLastSeenMs (snd a) < seLastSeenMs (snd b))"

fun oldestOf :: "'s seriesMap \<Rightarrow> (string \<times> 's seriesEntry) option" where
  "oldestOf [] = None"
| "oldestOf (x # xs) = (case oldestOf xs of None \<Rightarrow> Some x | Some y \<Rightarrow> Some (if evictionLess y x then y else x))"

definition evictOldestLocked :: "'s windowState \<Rightarrow> string \<times> 's windowState" where
  "evictOldestLocked w =
     (case oldestOf (wSeries w) of
        None \<Rightarrow> ([], w)
      | Some (key, e) \<Rightarrow>
          let w = w\<lparr>wSeries := AList.delete key (wSeries w), wCache := DeleteSnapshot key (wCache w)\<rparr>
          in (key, if wSink w then logEvent (EvSink key) w else w))"

text \<open>Making room for one more series; \<open>capped\<close> is the caller's condition that a cap applies.\<close>

definition makeRoom :: "bool \<Rightarrow> PrecomputeConfig \<Rightarrow> 's windowState \<Rightarrow> windowErr option \<times> 's windowState" where
  "makeRoom capped cfg w =
     (if capped \<and> cMaxSeries cfg \<le> of_nat (length (wSeries w))
      then (case cOnOverflow cfg of
              OnOverflowDrop \<Rightarrow> (Some ErrSeriesCapExceeded, w)
            | OnOverflowBlock \<Rightarrow> (Some ErrSeriesCapExceeded, w)
            | OnOverflowEvictOldest \<Rightarrow>
                (case evictOldestLocked w of (oldestKey, w) \<Rightarrow>
                   (None, if oldestKey \<noteq> [] then w\<lparr>wActiveSeries := wActiveSeries w - 1\<rparr> else w)))
      else (None, w))"

definition newEntry :: "'s \<Rightarrow> labels \<Rightarrow> labels \<Rightarrow> u64 \<Rightarrow> 's seriesEntry" where
  "newEntry sketch rs ls ts = \<lparr>seSketch = sketch, seResourceLabels = rs, seLabels = ls, seLastSeenMs = ts, seCount = 0,
     seDeltaWindowStartMs = 0, seDeltaWindowEndMs = 0, seSubWindowAcked = False, seAckVal = 0\<rparr>"

text \<open>The new sketch: the live sampling grant is stamped first, the plan's probability overrides it.\<close>

definition freshSketch :: "('s, 'v) sketchOps \<Rightarrow> PrecomputeConfig \<Rightarrow> 's windowState \<Rightarrow> 's" where
  "freshSketch ops cfg w =
     (let sketch = (case wMonitorSampleHook w of None \<Rightarrow> skNew ops | Some hook \<Rightarrow> hook (skNew ops))
      in if f64_less 0 (cSampleP cfg) then skSetSampleP ops (cSampleP cfg) sketch else sketch)"

definition admitSeriesLocked ::
  "('s, 'v) sketchOps \<Rightarrow> string \<Rightarrow> 'v Observation \<Rightarrow> PrecomputeConfig \<Rightarrow> 's windowState \<Rightarrow> (windowErr + 's seriesEntry) \<times> 's windowState" where
  "admitSeriesLocked ops key obs cfg w =
     (case makeRoom (0 < cMaxSeries cfg \<and> \<not> isWholeStream cfg) cfg w of
        (Some e, w) \<Rightarrow> (Inl e, w)
      | (None, w) \<Rightarrow>
          let ls = (if isWholeStream cfg then [] else oLabels obs);
              rs = (if isWholeStream cfg \<or> cOmitResourceAttrs cfg then [] else oResourceLabels obs);
              entry = newEntry (freshSketch ops cfg w) rs ls (oTimestampMs obs)
          in (Inr entry, w\<lparr>wSeries := AList.update key entry (wSeries w), wActiveSeries := wActiveSeries w + 1\<rparr>))"

definition recordLocked ::
  "('s, 'v) sketchOps \<Rightarrow> string \<Rightarrow> 's seriesEntry \<Rightarrow> 'v Observation \<Rightarrow> 's windowState \<Rightarrow> windowErr option \<times> 's windowState" where
  "recordLocked ops key entry obs w =
     (let entry = (if seLastSeenMs entry < oTimestampMs obs then entry\<lparr>seLastSeenMs := oTimestampMs obs\<rparr> else entry)
      in case skObserve ops (seSketch entry) (oValue obs) of
           (Some e, s) \<Rightarrow> (Some (ErrObserve e), w\<lparr>wSeries := AList.update key (entry\<lparr>seSketch := s\<rparr>) (wSeries w)\<rparr>)
         | (None, s) \<Rightarrow>
             let entry = entry\<lparr>seCount := seCount entry + 1, seSketch := s\<rparr>;
                 w = (if wMonitorHook w then logEvent (EvMonitor entry (wActiveStartMs w)) w else w);
                 (woke, s) = (if wWakeHook w then skConsumeWakeSignal ops s else (False, s));
                 w = w\<lparr>wSeries := AList.update key (entry\<lparr>seSketch := s\<rparr>) (wSeries w)\<rparr>
             in (None, if woke then logEvent EvWake w else w))"

text \<open>The factory is kept by the first call that supplies one.\<close>

definition captureFactory :: "('s, 'v) sketchOps \<Rightarrow> 's windowState \<Rightarrow> 's windowState" where
  "captureFactory ops w = (if wSketchFactory w = None then w\<lparr>wSketchFactory := Some (skNew ops)\<rparr> else w)"

definition observeWithKey ::
  "('s, 'v) sketchOps \<Rightarrow> string \<Rightarrow> 'v Observation \<Rightarrow> PrecomputeConfig \<Rightarrow> 's windowState \<Rightarrow> windowErr option \<times> 's windowState" where
  "observeWithKey ops key obs cfg w =
     (let fast = (if wInitialized w
            then (case validateTimestampLocked w (oTimestampMs obs) cfg of
                    Some e \<Rightarrow> Some (Some e, w)
                  | None \<Rightarrow> (case map_of (wSeries w) key of
                       Some entry \<Rightarrow> Some (recordLocked ops key entry obs w) | None \<Rightarrow> None))
            else None)
      in case fast of
           Some r \<Rightarrow> r
         | None \<Rightarrow>
             let w = initWindow (oTimestampMs obs) cfg (captureFactory ops w)
             in case validateTimestampLocked w (oTimestampMs obs) cfg of
                  Some e \<Rightarrow> (Some e, w)
                | None \<Rightarrow> (case map_of (wSeries w) key of
                    Some entry \<Rightarrow> recordLocked ops key entry obs w
                  | None \<Rightarrow> (case admitSeriesLocked ops key obs cfg w of
                        (Inl e, w) \<Rightarrow> (Some e, w)
                      | (Inr entry, w) \<Rightarrow> recordLocked ops key entry obs w)))"

definition observe ::
  "seriesKeyScratch \<Rightarrow> ('s, 'v) sketchOps \<Rightarrow> 'v Observation \<Rightarrow> PrecomputeConfig \<Rightarrow> 's windowState \<Rightarrow> windowErr option \<times> 's windowState" where
  "observe pooled ops obs cfg w =
     observeWithKey ops (skBuf (buildSeriesKey cfg (getSeriesKeyScratch pooled) obs)) obs cfg w"

definition observeKeyed ::
  "('s, 'v) sketchOps \<Rightarrow> string \<Rightarrow> 'v Observation \<Rightarrow> PrecomputeConfig \<Rightarrow> 's windowState \<Rightarrow> windowErr option \<times> 's windowState" where
  "observeKeyed ops key obs cfg w = observeWithKey ops key obs cfg w"

section \<open>Inbound envelopes\<close>

definition mergeFullEnvelope :: "('s, 'v) sketchOps \<Rightarrow> 's \<Rightarrow> 's \<Rightarrow> bytes \<Rightarrow> string option \<times> 's" where
  "mergeFullEnvelope ops other dst payload =
     (case skApplyDelta ops other payload of
        (Some e, other) \<Rightarrow> (Some e, dst)
      | (None, other) \<Rightarrow> skMerge ops dst other)"

text \<open>The entry an envelope lands on, created if absent; this path has no whole-stream exemption from the cap.\<close>

definition admitEnvelope ::
  "('s, 'v) sketchOps \<Rightarrow> string \<Rightarrow> u64 \<Rightarrow> SketchEnvelope \<Rightarrow> PrecomputeConfig \<Rightarrow> 's windowState \<Rightarrow> (windowErr + 's seriesEntry) \<times> 's windowState" where
  "admitEnvelope ops key refMs env cfg w =
     (case map_of (wSeries w) key of
        Some entry \<Rightarrow> (Inr entry, w)
      | None \<Rightarrow> (case makeRoom (0 < cMaxSeries cfg) cfg w of
            (Some e, w) \<Rightarrow> (Inl e, w)
          | (None, w) \<Rightarrow>
              let entry = newEntry (skNew ops) [] (eLabels env) refMs
              in (Inr entry, w\<lparr>wSeries := AList.update key entry (wSeries w), wActiveSeries := wActiveSeries w + 1\<rparr>)))"

definition isDelta :: "Encoding \<Rightarrow> bool" where
  "isDelta enc \<longleftrightarrow> enc \<in> {EncodingProtoDelta, EncodingMsgpackDelta}"

definition isFullEncoding :: "Encoding \<Rightarrow> bool" where
  "isFullEncoding enc \<longleftrightarrow> enc \<in> {EncodingProtoFull, EncodingMsgpack, EncodingUnspecified}"

definition applyEnvelope ::
  "('s, 'v) sketchOps \<Rightarrow> string \<Rightarrow> SketchEnvelope \<Rightarrow> 's seriesEntry \<Rightarrow> SnapshotCache \<Rightarrow> windowErr option \<times> 's seriesEntry \<times> SnapshotCache" where
  "applyEnvelope ops key env entry cache =
     (if isDelta (eEncoding env)
      then let sketch = (if seDeltaWindowEndMs entry \<noteq> 0 \<and>
                 (seDeltaWindowStartMs entry \<noteq> eWindowStartMs env \<or> seDeltaWindowEndMs entry \<noteq> eWindowEndMs env)
               then skReset ops (seSketch entry) else seSketch entry)
           in case skApplyDelta ops sketch (ePayload env) of
                (Some e, s) \<Rightarrow> (Some (ErrApplyDelta e), entry\<lparr>seSketch := s\<rparr>, cache)
              | (None, s) \<Rightarrow>
                  (None, entry\<lparr>seSketch := s, seDeltaWindowStartMs := eWindowStartMs env, seDeltaWindowEndMs := eWindowEndMs env\<rparr>,
                   case skSnapshot ops s of Inr snap \<Rightarrow> CacheInbound key snap cache | Inl _ \<Rightarrow> cache)
      else if isFullEncoding (eEncoding env)
      then (case mergeFullEnvelope ops (skNew ops) (seSketch entry) (ePayload env) of
              (Some e, s) \<Rightarrow> (Some (ErrMergeFull e), entry\<lparr>seSketch := s\<rparr>, cache)
            | (None, s) \<Rightarrow> (None, entry\<lparr>seSketch := s\<rparr>, CacheInbound key (Some (ePayload env)) cache))
      else (Some (ErrEnvelopeEncoding (eEncoding env)), entry, cache))"

definition observeEnvelope ::
  "('s, 'v) sketchOps \<Rightarrow> SketchEnvelope \<Rightarrow> PrecomputeConfig \<Rightarrow> 's windowState \<Rightarrow> windowErr option \<times> 's windowState" where
  "observeEnvelope ops env cfg w =
     (let refMs = (if eWindowEndMs env = 0 then eWindowStartMs env else eWindowEndMs env);
          w = initWindow refMs cfg (captureFactory ops w);
          key = SeriesKeyForEntry cfg [] (eLabels env)
      in case admitEnvelope ops key refMs env cfg w of
           (Inl e, w) \<Rightarrow> (Some e, w)
         | (Inr entry, w) \<Rightarrow>
             (case applyEnvelope ops key env entry (wCache w) of
                (Some e, entry, cache) \<Rightarrow>
                  (Some e, w\<lparr>wSeries := AList.update key entry (wSeries w), wCache := cache\<rparr>)
              | (None, entry, cache) \<Rightarrow>
                  let entry = entry\<lparr>seCount := seCount entry + eCount env\<rparr>;
                      entry = (if seLastSeenMs entry < refMs then entry\<lparr>seLastSeenMs := refMs\<rparr> else entry)
                  in (None, w\<lparr>wSeries := AList.update key entry (wSeries w), wCache := cache\<rparr>)))"

section \<open>Rotation\<close>

definition fireMonitorReset :: "'s windowState \<Rightarrow> 's windowState" where
  "fireMonitorReset w = (if wMonitorResetHook w then logEvent (EvMonitorReset (wActiveStartMs w)) w else w)"

definition advanceWindow :: "u64 \<Rightarrow> PrecomputeConfig \<Rightarrow> 's windowState \<Rightarrow> 's windowState" where
  "advanceWindow nowMs cfg w =
     (let step = rotationStepMs cfg
      in if step = 0 then fireMonitorReset (w\<lparr>wActiveStartMs := nowMs, wActiveEndMs := nowMs\<rparr>)
         else let bucketStart = nowMs div step * step;
                  start = (if bucketStart \<le> wActiveStartMs w then wActiveEndMs w else bucketStart)
              in fireMonitorReset (w\<lparr>wActiveStartMs := start, wActiveEndMs := start + step\<rparr>))"

text \<open>One step of the pane merge. A failing merge is ignored; the sketch is what the call left.\<close>

definition mergeEntry :: "('s, 'v) sketchOps \<Rightarrow> 's \<Rightarrow> string \<times> 's seriesEntry \<Rightarrow> 's seriesMap \<Rightarrow> 's seriesMap" where
  "mergeEntry ops new p merged =
     (case p of (key, src) \<Rightarrow>
        let dst = (case map_of merged key of Some d \<Rightarrow> d
              | None \<Rightarrow> newEntry new (seResourceLabels src) (seLabels src) (seLastSeenMs src))
        in AList.update key (dst\<lparr>seSketch := snd (skMerge ops (seSketch dst) (seSketch src)),
             seCount := seCount dst + seCount src,
             seLastSeenMs := (if seLastSeenMs dst < seLastSeenMs src then seLastSeenMs src else seLastSeenMs dst)\<rparr>) merged)"

definition mergePanes :: "('s, 'v) sketchOps \<Rightarrow> 's \<Rightarrow> 's slidingPane list \<Rightarrow> 's seriesMap" where
  "mergePanes ops new panes = fold (mergeEntry ops new) (concat (map spSeries panes)) []"

text \<open>A rotation returns the closed series and their range. \<open>None\<close> is the panic of calling a nil factory.\<close>

type_synonym 's rotation = "'s seriesMap \<times> (u64 \<times> u64) \<times> 's windowState"

definition closePane :: "'s windowState \<Rightarrow> 's slidingPane list" where
  "closePane w = wPanes w @ [\<lparr>spSeries = wSeries w, spStartMs = wActiveStartMs w, spEndMs = wActiveEndMs w\<rparr>]"

definition trimPanes :: "nat \<Rightarrow> 'a list \<Rightarrow> 'a list" where
  "trimPanes n panes = (if n < length panes then drop (length panes - n) panes else panes)"

definition rotateSlidingLocked :: "('s, 'v) sketchOps \<Rightarrow> u64 \<Rightarrow> PrecomputeConfig \<Rightarrow> 's windowState \<Rightarrow> 's rotation option" where
  "rotateSlidingLocked ops nowMs cfg w =
     (let panes = trimPanes (nat (panesPerWindow cfg)) (closePane w);
          w = (advanceWindow nowMs cfg (w\<lparr>wSeries := []\<rparr>))\<lparr>wPanes := panes\<rparr>
      in if \<forall>p \<in> set panes. spSeries p = [] then Some ([], (0, 0), w)
         else case wSketchFactory w of
                None \<Rightarrow> None
              | Some new \<Rightarrow> Some (mergePanes ops new panes, (spStartMs (hd panes), spEndMs (List.last panes)), w))"

definition rotateLocked :: "('s, 'v) sketchOps \<Rightarrow> u64 \<Rightarrow> PrecomputeConfig \<Rightarrow> 's windowState \<Rightarrow> 's rotation option" where
  "rotateLocked ops nowMs cfg w =
     (if cMode cfg = Sliding then rotateSlidingLocked ops nowMs cfg w
      else if wSeries w = [] then Some ([], (0, 0), advanceWindow nowMs cfg w)
      else Some (wSeries w, (wActiveStartMs w, wActiveEndMs w), advanceWindow nowMs cfg (w\<lparr>wSeries := []\<rparr>)))"

definition rotate_window :: "('s, 'v) sketchOps \<Rightarrow> u64 \<Rightarrow> PrecomputeConfig \<Rightarrow> 's windowState \<Rightarrow> 's rotation option" where
  "rotate_window ops nowMs cfg w =
     (if \<not> wInitialized w then Some ([], (0, 0), w)
      else if 0 < rotationStepMs cfg \<and> nowMs < wActiveEndMs w then Some ([], (0, 0), w)
      else rotateLocked ops nowMs cfg w)"

definition drain :: "('s, 'v) sketchOps \<Rightarrow> PrecomputeConfig \<Rightarrow> 's windowState \<Rightarrow> 's rotation option" where
  "drain ops cfg w =
     (if \<not> wInitialized w then Some ([], (0, 0), w)
      else if cMode cfg = Sliding \<and> wSeries w = [] \<and> wPanes w = [] then Some ([], (0, 0), w)
      else if cMode cfg \<noteq> Sliding \<and> wSeries w = [] then Some ([], (0, 0), w)
      else rotateLocked ops (wActiveEndMs w) cfg w)"

definition setMonitorHooks :: "bool \<Rightarrow> bool \<Rightarrow> ('s \<Rightarrow> 's) option \<Rightarrow> 's windowState \<Rightarrow> 's windowState" where
  "setMonitorHooks obs rst sample w = w\<lparr>wMonitorHook := obs, wMonitorResetHook := rst, wMonitorSampleHook := sample\<rparr>"

definition setWakeHook :: "bool \<Rightarrow> 's windowState \<Rightarrow> 's windowState" where
  "setWakeHook installed w = w\<lparr>wWakeHook := installed\<rparr>"

definition activeSeriesCount :: "'s windowState \<Rightarrow> nat" where
  "activeSeriesCount w = length (wSeries w)"

definition resetForScopeChange :: "'s windowState \<Rightarrow> 's windowState" where
  "resetForScopeChange w = w\<lparr>wSeries := [], wPanes := []\<rparr>"

text \<open>The visitor may update the entry it is handed; \<open>'r\<close> is what it collects.\<close>

definition subWindowVisit ::
  "PrecomputeConfig \<Rightarrow> (string \<times> 's seriesEntry \<Rightarrow> 'r \<Rightarrow> 's seriesEntry \<times> 'r) \<Rightarrow> 's windowState \<Rightarrow> 'r \<Rightarrow> (u64 \<times> u64) \<times> 's windowState \<times> 'r" where
  "subWindowVisit cfg visit w r =
     (if \<not> wInitialized w \<or> cMode cfg = Sliding then ((0, 0), w, r)
      else let (series, r) = fold (\<lambda>p (acc, r). case visit p r of (e, r) \<Rightarrow> (acc @ [(fst p, e)], r)) (wSeries w) ([], r)
           in ((wActiveStartMs w, wActiveEndMs w), w\<lparr>wSeries := series\<rparr>, r))"

section \<open>Window bounds\<close>

text \<open>Initialised bounds that tile time: one step long, on a step boundary, without wrap-around.\<close>

definition aligned :: "PrecomputeConfig \<Rightarrow> 's windowState \<Rightarrow> bool" where
  "aligned cfg w \<longleftrightarrow> wInitialized w \<and> unat (wActiveEndMs w) = unat (wActiveStartMs w) + unat (rotationStepMs cfg) \<and>
     unat (rotationStepMs cfg) dvd unat (wActiveStartMs w)"

lemma unat_bucket: "unat (x div s * s) = unat x div unat s * unat s" for x s :: u64
proof -
  have "unat (x div s) * unat s \<le> unat x" by (simp add: unat_div_distrib)
  then have "unat (x div s) * unat s < 2 ^ 64" using unat_u64_less [of x] by simp
  then show ?thesis by (simp add: unat_word_ariths(2) unat_div_distrib)
qed

lemma unat_plus_u64: "unat x + unat y < 2 ^ 64 \<Longrightarrow> unat (x + y) = unat x + unat y" for x y :: u64
  by (simp add: unat_word_ariths(1))

lemma bucket_next:
  fixes x s :: nat assumes "0 < s" shows "x div s * s \<le> x" "x < x div s * s + s"
  using div_mult_mod_eq [of x s] mod_less_divisor [OF assms, of x] by linarith+

lemma bucket_mono: "s dvd e \<Longrightarrow> e \<le> x \<Longrightarrow> e \<le> x div s * s" for x s e :: nat
  by (elim dvdE) (auto simp: less_eq_div_iff_mult_less_eq mult.commute)

lemma bucket_word:
  fixes ts step :: u64
  assumes "step \<noteq> 0" "unat ts + unat step < 2 ^ 64"
  shows "ts div step * step \<le> ts" "ts < ts div step * step + step"
    "unat (ts div step * step + step) = unat (ts div step * step) + unat step"
proof -
  have pos: "0 < unat step" using assms(1) by (simp add: unat_gt_0)
  note b = bucket_next [OF pos, of "unat ts"]
  show 3: "unat (ts div step * step + step) = unat (ts div step * step) + unat step"
    using order.strict_trans1 [OF add_right_mono [OF b(1)] assms(2)]
    by (intro unat_plus_u64) (simp only: unat_bucket)
  show "ts div step * step \<le> ts" "ts < ts div step * step + step"
    using b 3 by (simp_all add: word_le_nat_alt word_less_nat_alt unat_bucket)
qed

lemma fireMonitorReset_frame [simp]:
  "wSeries (fireMonitorReset w) = wSeries w" "wActiveStartMs (fireMonitorReset w) = wActiveStartMs w"
  "wActiveEndMs (fireMonitorReset w) = wActiveEndMs w" "wInitialized (fireMonitorReset w) = wInitialized w"
  "wPanes (fireMonitorReset w) = wPanes w" "wSketchFactory (fireMonitorReset w) = wSketchFactory w"
  "wActiveSeries (fireMonitorReset w) = wActiveSeries w" "wCache (fireMonitorReset w) = wCache w"
  by (simp_all add: fireMonitorReset_def logEvent_def)

lemma advanceWindow_frame [simp]:
  "wSeries (advanceWindow n cfg w) = wSeries w" "wInitialized (advanceWindow n cfg w) = wInitialized w"
  "wPanes (advanceWindow n cfg w) = wPanes w" "wSketchFactory (advanceWindow n cfg w) = wSketchFactory w"
  "wActiveSeries (advanceWindow n cfg w) = wActiveSeries w" "wCache (advanceWindow n cfg w) = wCache w"
  by (simp_all add: advanceWindow_def Let_def)

lemma initWindow_aligned:
  assumes "\<not> wInitialized w" "rotationStepMs cfg \<noteq> 0" "unat ts + unat (rotationStepMs cfg) < 2 ^ 64"
  shows "aligned cfg (initWindow ts cfg w) \<and> validateTimestampLocked (initWindow ts cfg w) ts cfg = None"
  using assms bucket_word [OF assms(2,3)]
  by (simp add: aligned_def initWindow_def validateTimestampLocked_def Let_def unat_bucket leD)

lemma advanceWindow_covers:
  assumes "aligned cfg w" "rotationStepMs cfg \<noteq> 0" "wActiveEndMs w \<le> ts" "unat ts + unat (rotationStepMs cfg) < 2 ^ 64"
  shows "aligned cfg (advanceWindow ts cfg w) \<and> wActiveEndMs w \<le> wActiveStartMs (advanceWindow ts cfg w) \<and>
    wActiveStartMs (advanceWindow ts cfg w) \<le> ts \<and> ts < wActiveEndMs (advanceWindow ts cfg w)"
proof -
  let ?s = "rotationStepMs cfg"
  note b = bucket_word [OF assms(2,4)]
  have "unat ?s dvd unat (wActiveEndMs w)" "unat (wActiveEndMs w) \<le> unat ts"
    using assms by (auto simp: aligned_def word_le_nat_alt)
  from bucket_mono [OF this] have le: "wActiveEndMs w \<le> ts div ?s * ?s"
    by (simp add: word_le_nat_alt unat_bucket)
  moreover have "wActiveStartMs w < wActiveEndMs w"
    using assms(1,2) by (simp add: aligned_def word_less_nat_alt unat_gt_0)
  ultimately have "\<not> ts div ?s * ?s \<le> wActiveStartMs w" by simp
  then show ?thesis using assms b le
    by (simp add: advanceWindow_def Let_def aligned_def unat_bucket)
qed

lemma rotate_window_bounds:
  assumes "rotate_window ops now cfg w = Some (closed, rng, w')" "wInitialized w" "wActiveEndMs w \<le> now"
  shows "wSeries w' = [] \<and> wActiveStartMs w' = wActiveStartMs (advanceWindow now cfg w) \<and>
    wActiveEndMs w' = wActiveEndMs (advanceWindow now cfg w) \<and> wInitialized w'"
proof -
  have adv: "wActiveStartMs (advanceWindow now cfg (w\<lparr>wSeries := []\<rparr>)) = wActiveStartMs (advanceWindow now cfg w)"
    "wActiveEndMs (advanceWindow now cfg (w\<lparr>wSeries := []\<rparr>)) = wActiveEndMs (advanceWindow now cfg w)"
    by (simp_all add: advanceWindow_def Let_def)
  from assms have "rotateLocked ops now cfg w = Some (closed, rng, w')"
    by (simp add: rotate_window_def leD)
  then show ?thesis using assms(2) adv
    by (auto simp: rotateLocked_def rotateSlidingLocked_def Let_def split: if_splits option.splits)
qed

text \<open>
  A future sample is never lost to the retry: under a sized configuration, rotating at
  the time of a sample that lies beyond the active window leaves aligned bounds that contain it, later
  than everything the closed window covered, so validating the sample again succeeds.
\<close>
theorem rotate_for_future:
  assumes "aligned cfg w" "rotationStepMs cfg \<noteq> 0" "wActiveEndMs w \<le> ts"
    "unat ts + unat (rotationStepMs cfg) < 2 ^ 64" "rotate_window ops ts cfg w = Some (closed, rng, w')"
  shows "aligned cfg w' \<and> wActiveEndMs w \<le> wActiveStartMs w' \<and> wActiveStartMs w' \<le> ts \<and> ts < wActiveEndMs w' \<and>
    wSeries w' = [] \<and> validateTimestampLocked w' ts cfg = None"
proof -
  have "wInitialized w" using assms(1) by (simp add: aligned_def)
  note b = rotate_window_bounds [OF assms(5) this assms(3)]
  note c = advanceWindow_covers [OF assms(1-4)]
  from b c show ?thesis by (auto simp: aligned_def validateTimestampLocked_def)
qed

text \<open>A configuration for concrete runs: mode, window and slide in milliseconds, no cap, no matchers.\<close>

definition plainConfig :: "AggregationMode \<Rightarrow> u64 \<Rightarrow> u64 \<Rightarrow> PrecomputeConfig" where
  "plainConfig mode sizeMs slide = zeroConfig\<lparr>cAggID := 7, cMode := mode,
     cWindow := \<lparr>wsSize = sizeMs * 1000000, wsSlide = slide * 1000000, wsAllowedLateness = 0\<rparr>\<rparr>"

lemmas bounds_eval = rotationStepMs_def windowSizeMs_def slideMs_def durMs_def plainConfig_def zeroConfig_def

lemma plainConfig_step [simp]:
  "rotationStepMs (plainConfig Tumbling 1000 0) = 1000" "rotationStepMs (plainConfig Sliding 3000 1000) = 1000"
  "panesPerWindow (plainConfig Sliding 3000 1000) = 3" "rotationStepMs (plainConfig Batch 0 0) = 0"
  by (simp_all add: bounds_eval panesPerWindow_def)

lemma plainConfig_fields [simp]:
  "cMode (plainConfig m s l) = m" "cMaxSeries (plainConfig m s l) = 0" "cSampleP (plainConfig m s l) = 0"
  "cOnOverflow (plainConfig m s l) = OnOverflowDrop" "\<not> isWholeStream (plainConfig m s l)"
  "wsAllowedLateness (cWindow (plainConfig m s l)) = 0"
  by (simp_all add: plainConfig_def zeroConfig_def isWholeStream_def effectiveScope_def)

theorem rotate_for_future_witness:
  "let cfg = plainConfig Tumbling 1000 0;
       w = newWindowState\<lparr>wInitialized := True, wActiveStartMs := 5000, wActiveEndMs := 6000\<rparr>
   in validateTimestampLocked w 9321 cfg = Some ErrFutureData \<and>
      (case rotate_window (sumOps 0 1) 9321 cfg w of None \<Rightarrow> False
       | Some (closed, rng, w') \<Rightarrow> validateTimestampLocked w' 9321 cfg = None)"
proof -
  let ?cfg = "plainConfig Tumbling 1000 0"
    and ?w = "(newWindowState :: SumWrapper windowState)\<lparr>wInitialized := True, wActiveStartMs := 5000, wActiveEndMs := 6000\<rparr>"
  have al: "aligned ?cfg ?w" by (simp add: aligned_def)
  have rot: "rotate_window (sumOps 0 1) 9321 ?cfg ?w = Some ([], (0, 0), advanceWindow 9321 ?cfg ?w)"
    by (simp add: rotate_window_def rotateLocked_def newWindowState_def)
  have "validateTimestampLocked (advanceWindow 9321 ?cfg ?w) 9321 ?cfg = None"
    using rotate_for_future [OF al _ _ _ rot] by simp
  then show ?thesis
    unfolding Let_def rot by (simp add: validateTimestampLocked_def)
qed

section \<open>Tumbling windows\<close>

text \<open>
  The specification: what a series' sketch and count must be after a sequence of values, those its observer
  refuses included, and a run of observations that collects in order the ones handed to a sketch.
\<close>

definition absorb :: "('s, 'v) sketchOps \<Rightarrow> 's windowState \<Rightarrow> 'v \<Rightarrow> 's \<times> u64 \<Rightarrow> 's \<times> u64" where
  "absorb ops w v = (\<lambda>(s, n). case skObserve ops s v of
       (Some e, s) \<Rightarrow> (s, n)
     | (None, s) \<Rightarrow> (if wWakeHook w then snd (skConsumeWakeSignal ops s) else s, n + 1))"

text \<open>Whether the outcome of an observation is that of the sketch itself, an error of the observer included.\<close>

definition recorded :: "windowErr option \<Rightarrow> bool" where
  "recorded e = (case e of None \<Rightarrow> True | Some (ErrObserve _) \<Rightarrow> True | _ \<Rightarrow> False)"

definition valuesOf :: "string \<Rightarrow> (string \<times> 'v Observation) list \<Rightarrow> 'v list" where
  "valuesOf key log = map (\<lambda>p. oValue (snd p)) (filter (\<lambda>p. fst p = key) log)"

fun runObs ::
  "('s, 'v) sketchOps \<Rightarrow> PrecomputeConfig \<Rightarrow> (string \<times> 'v Observation) list \<Rightarrow> 's windowState \<Rightarrow> (string \<times> 'v Observation) list \<times> 's windowState" where
  "runObs ops cfg [] w = ([], w)"
| "runObs ops cfg ((key, obs) # rest) w =
     (case observeWithKey ops key obs cfg w of
        (e, w) \<Rightarrow> (case runObs ops cfg rest w of (acc, w) \<Rightarrow> ((if recorded e then [(key, obs)] else []) @ acc, w)))"

definition sameFrame :: "'s windowState \<Rightarrow> 's windowState \<Rightarrow> bool" where
  "sameFrame w w' \<longleftrightarrow> wActiveStartMs w' = wActiveStartMs w \<and> wActiveEndMs w' = wActiveEndMs w \<and>
     wInitialized w' = wInitialized w \<and> wPanes w' = wPanes w \<and> wMonitorSampleHook w' = wMonitorSampleHook w \<and>
     wWakeHook w' = wWakeHook w \<and> wCache w' = wCache w \<and> (wSketchFactory w \<noteq> None \<longrightarrow> wSketchFactory w' = wSketchFactory w)"

lemma sameFrame_refl [simp]: "sameFrame w w"
  by (simp add: sameFrame_def)

lemma sameFrame_trans: "sameFrame w w' \<Longrightarrow> sameFrame w' w'' \<Longrightarrow> sameFrame w w''"
  by (auto simp: sameFrame_def)

lemma sameFrame_validate: "sameFrame w w' \<Longrightarrow> validateTimestampLocked w' ts cfg = validateTimestampLocked w ts cfg"
  by (simp add: sameFrame_def validateTimestampLocked_def)

lemma sameFrame_fresh: "sameFrame w w' \<Longrightarrow> freshSketch ops cfg w' = freshSketch ops cfg w \<and> absorb ops w' = absorb ops w"
  by (simp add: sameFrame_def freshSketch_def absorb_def fun_eq_iff split: prod.split option.split)

lemma recordLocked_ok: "fst (skObserve ops (seSketch entry) (oValue obs)) = None \<Longrightarrow> fst (recordLocked ops key entry obs w) = None"
  by (auto simp: recordLocked_def Let_def split: prod.splits option.splits)

lemma recordLocked_step:
  obtains er e' w' where "recordLocked ops key entry obs w = (er, w')" "recorded er" "wSeries w' = AList.update key e' (wSeries w)"
    "(seSketch e', seCount e') = absorb ops w (oValue obs) (seSketch entry, seCount entry)" "sameFrame w w'" "wSketchFactory w' = wSketchFactory w"
proof -
  obtain r s where o: "skObserve ops (seSketch entry) (oValue obs) = (r, s)" by fastforce
  let ?e = "(if seLastSeenMs entry < oTimestampMs obs then entry\<lparr>seLastSeenMs := oTimestampMs obs\<rparr> else entry)
        \<lparr>seCount := snd (absorb ops w (oValue obs) (seSketch entry, seCount entry)), seSketch := fst (absorb ops w (oValue obs) (seSketch entry, seCount entry))\<rparr>"
  show thesis
  proof (cases r)
    case None
    show thesis
      by (rule that [of "fst (recordLocked ops key entry obs w)" "snd (recordLocked ops key entry obs w)" ?e])
        (auto simp: recordLocked_def o None recorded_def absorb_def Let_def logEvent_def sameFrame_def split: prod.splits)
  next
    case (Some x)
    show thesis
      by (rule that [of "fst (recordLocked ops key entry obs w)" "snd (recordLocked ops key entry obs w)" ?e])
        (auto simp: recordLocked_def o Some recorded_def absorb_def Let_def sameFrame_def)
  qed
qed

text \<open>The outcome of one observation on an initialised window whose cap does not evict.\<close>

definition noEviction :: "PrecomputeConfig \<Rightarrow> bool" where
  "noEviction cfg \<longleftrightarrow> cMaxSeries cfg = 0 \<or> cOnOverflow cfg \<noteq> OnOverflowEvictOldest"

lemma captureFactory_frame [simp]:
  "sameFrame w (captureFactory ops w)" "wSeries (captureFactory ops w) = wSeries w"
  "wInitialized (captureFactory ops w) = wInitialized w"
  by (simp_all add: sameFrame_def captureFactory_def)

lemma observe_new_series:
  assumes "wInitialized w" "validateTimestampLocked w (oTimestampMs obs) cfg = None" "map_of (wSeries w) key = None"
  shows "observeWithKey ops key obs cfg w = (case admitSeriesLocked ops key obs cfg (captureFactory ops w) of
    (Inl e, w) \<Rightarrow> (Some e, w) | (Inr entry, w) \<Rightarrow> recordLocked ops key entry obs w)"
  using assms sameFrame_validate [OF captureFactory_frame(1) [of w ops], of "oTimestampMs obs" cfg]
  by (simp add: observeWithKey_def initWindow_def Let_def)

lemma admit_no_eviction:
  assumes "noEviction cfg"
  shows "admitSeriesLocked ops key obs cfg w = (Inl ErrSeriesCapExceeded, w) \<and> cMaxSeries cfg \<noteq> 0 \<or>
    (\<exists>entry w'. admitSeriesLocked ops key obs cfg w = (Inr entry, w') \<and> seSketch entry = freshSketch ops cfg w \<and>
      seCount entry = 0 \<and> wSeries w' = AList.update key entry (wSeries w) \<and> sameFrame w w')"
proof (cases "0 < cMaxSeries cfg \<and> \<not> isWholeStream cfg \<and> cMaxSeries cfg \<le> of_nat (length (wSeries w))")
  case True
  then have "makeRoom (0 < cMaxSeries cfg \<and> \<not> isWholeStream cfg) cfg w = (Some ErrSeriesCapExceeded, w)"
    using assms by (cases "cOnOverflow cfg") (auto simp: makeRoom_def noEviction_def)
  with True show ?thesis by (auto simp: admitSeriesLocked_def)
next
  case False
  then have "makeRoom (0 < cMaxSeries cfg \<and> \<not> isWholeStream cfg) cfg w = (None, w)"
    by (auto simp: makeRoom_def)
  then show ?thesis by (simp add: admitSeriesLocked_def Let_def newEntry_def sameFrame_def)
qed

lemma observeWithKey_step:
  assumes "wInitialized w" "noEviction cfg"
  shows "(\<exists>e w'. observeWithKey ops key obs cfg w = (Some e, w') \<and> wSeries w' = wSeries w \<and> sameFrame w w' \<and> \<not> recorded (Some e) \<and>
      (validateTimestampLocked w (oTimestampMs obs) cfg = Some e \<or> e = ErrSeriesCapExceeded \<and> cMaxSeries cfg \<noteq> 0)) \<or>
    (\<exists>er e' w'. observeWithKey ops key obs cfg w = (er, w') \<and> recorded er \<and> wSeries w' = AList.update key e' (wSeries w) \<and>
      sameFrame w w' \<and> validateTimestampLocked w (oTimestampMs obs) cfg = None \<and>
      (seSketch e', seCount e') = absorb ops w (oValue obs)
        (case map_of (wSeries w) key of None \<Rightarrow> (freshSketch ops cfg w, 0) | Some e \<Rightarrow> (seSketch e, seCount e)))"
proof (cases "validateTimestampLocked w (oTimestampMs obs) cfg")
  case (Some e)
  moreover have "\<not> recorded (Some e)" using Some by (auto simp: validateTimestampLocked_def recorded_def Let_def split: if_splits)
  ultimately show ?thesis using assms(1) by (auto simp: observeWithKey_def)
next
  case None
  show ?thesis
  proof (cases "map_of (wSeries w) key")
    case (Some entry)
    obtain er e' w' where "recordLocked ops key entry obs w = (er, w')" "recorded er" "wSeries w' = AList.update key e' (wSeries w)"
      "(seSketch e', seCount e') = absorb ops w (oValue obs) (seSketch entry, seCount entry)" "sameFrame w w'"
      using recordLocked_step by metis
    moreover from this have "observeWithKey ops key obs cfg w = (er, w')" using Some None assms(1) by (simp add: observeWithKey_def)
    ultimately show ?thesis using Some None by (intro disjI2) auto
  next
    case new: None
    note slow = observe_new_series [OF assms(1) None new, of ops]
    let ?w = "captureFactory ops w"
    from admit_no_eviction [OF assms(2), of ops key obs ?w] show ?thesis
    proof
      assume "admitSeriesLocked ops key obs cfg ?w = (Inl ErrSeriesCapExceeded, ?w) \<and> cMaxSeries cfg \<noteq> 0"
      with slow show ?thesis by (auto simp: recorded_def)
    next
      assume "\<exists>entry w'. admitSeriesLocked ops key obs cfg ?w = (Inr entry, w') \<and> seSketch entry = freshSketch ops cfg ?w \<and>
        seCount entry = 0 \<and> wSeries w' = AList.update key entry (wSeries ?w) \<and> sameFrame ?w w'"
      then obtain entry w1 where 1: "admitSeriesLocked ops key obs cfg ?w = (Inr entry, w1)"
        "seSketch entry = freshSketch ops cfg w" "seCount entry = 0" "wSeries w1 = AList.update key entry (wSeries w)"
        "sameFrame ?w w1" using sameFrame_fresh [OF captureFactory_frame(1) [of w ops], of ops cfg] by auto
      have fr: "sameFrame w w1" using 1(5) sameFrame_trans captureFactory_frame(1) by blast
      obtain er e' w' where r: "recordLocked ops key entry obs w1 = (er, w')" "recorded er" "wSeries w' = AList.update key e' (wSeries w1)"
        "(seSketch e', seCount e') = absorb ops w1 (oValue obs) (seSketch entry, seCount entry)" "sameFrame w1 w'"
        using recordLocked_step by metis
      have "observeWithKey ops key obs cfg w = (er, w')" using slow 1(1) r(1) by simp
      then show ?thesis using r 1 fr sameFrame_trans [OF fr] sameFrame_fresh [OF fr, of ops cfg] None new by (intro disjI2) auto
    qed
  qed
qed

text \<open>The simulation: the series map represents a log of accepted observations.\<close>

definition represents :: "('s, 'v) sketchOps \<Rightarrow> PrecomputeConfig \<Rightarrow> 's windowState \<Rightarrow> (string \<times> 'v Observation) list \<Rightarrow> 's windowState \<Rightarrow> bool" where
  "represents ops cfg w0 log w \<longleftrightarrow> sameFrame w0 w \<and> distinct (map fst (wSeries w)) \<and>
     (\<forall>k. case map_of (wSeries w) k of
        None \<Rightarrow> valuesOf k log = []
      | Some e \<Rightarrow> valuesOf k log \<noteq> [] \<and> (seSketch e, seCount e) = fold (absorb ops w0) (valuesOf k log) (freshSketch ops cfg w0, 0))"

lemma valuesOf_snoc [simp]: "valuesOf k (log @ [(key, obs)]) = valuesOf k log @ (if key = k then [oValue obs] else [])"
  by (simp add: valuesOf_def)

lemma represents_step:
  assumes "represents ops cfg w0 log w" "wSeries w' = AList.update key e' (wSeries w)" "sameFrame w w'"
    "(seSketch e', seCount e') = absorb ops w (oValue obs)
      (case map_of (wSeries w) key of None \<Rightarrow> (freshSketch ops cfg w, 0) | Some e \<Rightarrow> (seSketch e, seCount e))"
  shows "represents ops cfg w0 (log @ [(key, obs)]) w'"
proof -
  have sf: "sameFrame w0 w" using assms(1) by (simp add: represents_def)
  have fr: "sameFrame w0 w'" "absorb ops w = absorb ops w0" "freshSketch ops cfg w = freshSketch ops cfg w0"
    using sf sameFrame_trans [OF sf assms(3)] sameFrame_fresh [OF sf, of ops cfg] by simp_all
  have rep: "case map_of (wSeries w) k of None \<Rightarrow> valuesOf k log = []
      | Some e \<Rightarrow> valuesOf k log \<noteq> [] \<and> (seSketch e, seCount e) = fold (absorb ops w0) (valuesOf k log) (freshSketch ops cfg w0, 0)" for k
    using assms(1) by (simp add: represents_def)
  have "case map_of (wSeries w') k of None \<Rightarrow> valuesOf k (log @ [(key, obs)]) = []
      | Some e \<Rightarrow> valuesOf k (log @ [(key, obs)]) \<noteq> [] \<and>
          (seSketch e, seCount e) = fold (absorb ops w0) (valuesOf k (log @ [(key, obs)])) (freshSketch ops cfg w0, 0)" for k
    using rep [of k] assms(2,4) fr by (auto simp: update_conv' split: option.splits)
  then show ?thesis using assms(1,2) fr by (simp add: represents_def distinct_update)
qed

lemma runObs_represents:
  assumes "represents ops cfg w0 log w" "wInitialized w0" "noEviction cfg" "runObs ops cfg inputs w = (acc, w')"
  shows "represents ops cfg w0 (log @ acc) w' \<and>
    (cMaxSeries cfg = 0 \<longrightarrow> acc = filter (\<lambda>p. validateTimestampLocked w0 (oTimestampMs (snd p)) cfg = None) inputs)"
  using assms
proof (induction inputs arbitrary: log w acc)
  case (Cons p inputs)
  obtain key obs where p: "p = (key, obs)" by (cases p)
  have ini: "wInitialized w" and val: "validateTimestampLocked w t cfg = validateTimestampLocked w0 t cfg" for t
    using Cons.prems(1,2) sameFrame_validate by (auto simp: represents_def sameFrame_def)
  from observeWithKey_step [OF ini Cons.prems(3), of ops key obs] show ?case
  proof (elim disjE exE conjE)
    fix e w1
    assume 1: "observeWithKey ops key obs cfg w = (Some e, w1)" "wSeries w1 = wSeries w" "sameFrame w w1" and nr: "\<not> recorded (Some e)"
    have "represents ops cfg w0 log w1"
      using Cons.prems(1) 1(2,3) sameFrame_trans by (auto simp: represents_def)
    moreover assume "validateTimestampLocked w (oTimestampMs obs) cfg = Some e"
    ultimately show ?thesis using Cons.IH [of log w1 acc] Cons.prems 1 nr p val by (simp split: prod.splits)
  next
    fix e w1
    assume 1: "observeWithKey ops key obs cfg w = (Some e, w1)" "wSeries w1 = wSeries w" "sameFrame w w1" "cMaxSeries cfg \<noteq> 0" and nr: "\<not> recorded (Some e)"
    have "represents ops cfg w0 log w1"
      using Cons.prems(1) 1(2,3) sameFrame_trans by (auto simp: represents_def)
    then show ?thesis using Cons.IH [of log w1 acc] Cons.prems 1 nr p by (simp split: prod.splits)
  next
    fix er e' w1
    assume 1: "observeWithKey ops key obs cfg w = (er, w1)" "recorded er" and v: "validateTimestampLocked w (oTimestampMs obs) cfg = None"
      and u: "wSeries w1 = AList.update key e' (wSeries w)" "sameFrame w w1"
        "(seSketch e', seCount e') = absorb ops w (oValue obs)
          (case map_of (wSeries w) key of None \<Rightarrow> (freshSketch ops cfg w, 0) | Some e \<Rightarrow> (seSketch e, seCount e))"
    obtain acc' where acc: "runObs ops cfg inputs w1 = (acc', w')" "acc = (key, obs) # acc'"
      using Cons.prems(4) 1 p by (auto split: prod.splits)
    from Cons.IH [OF represents_step [OF Cons.prems(1) u] Cons.prems(2,3) acc(1)]
    show ?thesis using acc(2) v p val by simp
  qed
qed simp

lemma represents_closed:
  assumes "represents ops cfg w acc w'"
  shows "distinct (map fst (wSeries w')) \<and> fst ` set (wSeries w') = fst ` set acc \<and>
    (\<forall>(k, e) \<in> set (wSeries w'). (seSketch e, seCount e) = fold (absorb ops w) (valuesOf k acc) (freshSketch ops cfg w, 0))"
proof -
  have dist: "distinct (map fst (wSeries w'))" using assms by (simp add: represents_def)
  have rep: "case map_of (wSeries w') k of None \<Rightarrow> valuesOf k acc = []
      | Some e \<Rightarrow> valuesOf k acc \<noteq> [] \<and> (seSketch e, seCount e) = fold (absorb ops w) (valuesOf k acc) (freshSketch ops cfg w, 0)" for k
    using assms by (simp add: represents_def)
  have "k \<in> fst ` set (wSeries w') \<longleftrightarrow> k \<in> fst ` set acc" for k
  proof -
    have "k \<in> fst ` set (wSeries w') \<longleftrightarrow> map_of (wSeries w') k \<noteq> None" by (simp add: map_of_eq_None_iff)
    also have "\<dots> \<longleftrightarrow> valuesOf k acc \<noteq> []" using rep [of k] by (auto split: option.splits)
    also have "\<dots> \<longleftrightarrow> k \<in> fst ` set acc" by (force simp: valuesOf_def filter_empty_conv)
    finally show ?thesis .
  qed
  then have "fst ` set (wSeries w') = fst ` set acc" by blast
  moreover have "(seSketch e, seCount e) = fold (absorb ops w) (valuesOf k acc) (freshSketch ops cfg w, 0)"
    if "(k, e) \<in> set (wSeries w')" for k e
    using rep [of k] map_of_is_SomeI [OF dist that] by simp
  ultimately show ?thesis using dist by auto
qed

text \<open>A family whose observer accepts every value: the count is the number of values.\<close>

lemma absorb_counts:
  assumes "\<forall>v \<in> set vs. \<forall>s. fst (skObserve ops s v) = None"
  shows "snd (fold (absorb ops w) vs (s, n)) = n + of_nat (length vs)"
  using assms
proof (induction vs arbitrary: s n)
  case (Cons v vs)
  obtain r s' where o: "skObserve ops s v = (r, s')" by fastforce
  then have "r = None" using Cons.prems by (metis fst_conv list.set_intros(1))
  with o Cons.IH Cons.prems show ?case by (simp add: absorb_def)
qed simp

text \<open>
  Property C5. A tumbling or batch window closes with exactly its data. Starting from an initialised empty
  window, under a configuration that does not evict series, after any sequence of observations (with any
  series keys, interleaved, some too early or too late, some refused by the sketch's observer) the rotation
  that is due returns, under the window's range, one entry per series with an observation that reached its
  sketch; its sketch and count are the fold of the observer over those values of the series in arrival order,
  starting from a fresh sketch and 0, where a value the observer refuses is not counted. When the observer
  refuses none of them, the count is their number. Without a series cap the observations that reach a sketch
  are exactly those whose timestamp the window admits.
\<close>
theorem tumbling_exact:
  assumes "wInitialized w" "wSeries w = []" "cMode cfg \<noteq> Sliding" "noEviction cfg"
    and "runObs ops cfg inputs w = (acc, w')" "acc \<noteq> []" "wActiveEndMs w \<le> now"
  shows "\<exists>closed w''. rotate_window ops now cfg w' = Some (closed, (wActiveStartMs w, wActiveEndMs w), w'') \<and>
    wSeries w'' = [] \<and> distinct (map fst closed) \<and> fst ` set closed = fst ` set acc \<and>
    (\<forall>(k, e) \<in> set closed. (seSketch e, seCount e) = fold (absorb ops w) (valuesOf k acc) (freshSketch ops cfg w, 0) \<and>
       ((\<forall>v \<in> set (valuesOf k acc). \<forall>s. fst (skObserve ops s v) = None) \<longrightarrow> seCount e = of_nat (length (valuesOf k acc)))) \<and>
    (cMaxSeries cfg = 0 \<longrightarrow> acc = filter (\<lambda>p. validateTimestampLocked w (oTimestampMs (snd p)) cfg = None) inputs)"
proof -
  have "represents ops cfg w [] w" using assms(2) by (simp add: represents_def valuesOf_def)
  note run = runObs_represents [OF this assms(1,4,5)]
  then have rep: "represents ops cfg w acc w'" by simp
  note closed = represents_closed [OF rep]
  have ne: "wSeries w' \<noteq> []" using closed assms(6) by auto
  have fr: "wInitialized w'" "wActiveStartMs w' = wActiveStartMs w" "wActiveEndMs w' = wActiveEndMs w"
    using rep assms(1) by (auto simp: represents_def sameFrame_def)
  have rot: "rotate_window ops now cfg w' = Some (wSeries w', (wActiveStartMs w, wActiveEndMs w), advanceWindow now cfg (w'\<lparr>wSeries := []\<rparr>))"
    using fr ne assms(3,7) by (simp add: rotate_window_def rotateLocked_def leD)
  have counts: "seCount e = of_nat (length (valuesOf k acc))"
    if "(seSketch e, seCount e) = fold (absorb ops w) (valuesOf k acc) (freshSketch ops cfg w, 0)"
      "\<forall>v \<in> set (valuesOf k acc). \<forall>s. fst (skObserve ops s v) = None" for k e
    using absorb_counts [OF that(2), of w "freshSketch ops cfg w" 0] that(1) by (metis add_0 snd_conv)
  show ?thesis using closed run rot counts by fastforce
qed

definition sampleAt :: "u64 \<Rightarrow> f64 \<Rightarrow> ObservationValue Observation" where
  "sampleAt ts v = \<lparr>oTimestampMs = ts, oMetric = ''m'', oResourceLabels = [], oLabels = [], oValue = FloatValue v\<rparr>"

definition openWindow :: "SumWrapper windowState" where
  "openWindow = newWindowState\<lparr>wInitialized := True, wActiveStartMs := 5000, wActiveEndMs := 6000,
     wSketchFactory := Some (skNew (sumOps 0 1))\<rparr>"

lemma openWindow_fields [simp]:
  "wInitialized openWindow" "wSeries openWindow = []" "wPanes openWindow = []" "wActiveStartMs openWindow = 5000"
  "wActiveEndMs openWindow = 6000" "wSketchFactory openWindow = Some (skNew (sumOps 0 1))" "wActiveSeries openWindow = 0"
  "wMonitorSampleHook openWindow = None" "\<not> wWakeHook openWindow"
  by (simp_all add: openWindow_def newWindowState_def)

lemma sumOps_float_ok [simp]: "fst (skObserve (sumOps eps k) s (oValue (sampleAt ts v))) = None"
  by (simp add: sumOps_def SumObserve_def sampleAt_def FloatValue_def)

lemma openWindow_admits [simp]:
  "validateTimestampLocked openWindow (oTimestampMs (sampleAt ts v)) (plainConfig m s l) = None \<longleftrightarrow> 5000 \<le> ts \<and> ts < 6000"
  by (auto simp: validateTimestampLocked_def sampleAt_def durMs_def Let_def word_gt_0)

theorem tumbling_exact_witness:
  "let cfg = plainConfig Tumbling 1000 0;
       inputs = [(''a'', sampleAt 5100 0x3FF0000000000000), (''b'', sampleAt 5999 0), (''a'', sampleAt 6000 0),
                 (''c'', sampleAt 4999 0), (''a'', sampleAt 5000 0x4000000000000000)]
   in case runObs (sumOps 0 1) cfg inputs openWindow of (acc, w') \<Rightarrow>
      \<exists>closed w''. rotate_window (sumOps 0 1) 6000 cfg w' = Some (closed, (5000, 6000), w'') \<and> fst ` set closed = {''a'', ''b''}"
proof -
  let ?cfg = "plainConfig Tumbling 1000 0" and ?inputs = "[(''a'', sampleAt 5100 0x3FF0000000000000), (''b'', sampleAt 5999 0),
    (''a'', sampleAt 6000 0), (''c'', sampleAt 4999 0), (''a'', sampleAt 5000 0x4000000000000000)]"
  obtain acc w' where run: "runObs (sumOps 0 1) ?cfg ?inputs openWindow = (acc, w')" by (metis prod.exhaust)
  have rep: "represents (sumOps 0 1) ?cfg openWindow [] openWindow" by (simp add: represents_def valuesOf_def)
  have no: "noEviction ?cfg" by (simp add: noEviction_def)
  have acc: "acc = [(''a'', sampleAt 5100 0x3FF0000000000000), (''b'', sampleAt 5999 0), (''a'', sampleAt 5000 0x4000000000000000)]"
    using runObs_represents [OF rep _ no run] by simp
  from tumbling_exact [OF _ _ _ no run, of 6000] acc
  have "\<exists>closed w''. rotate_window (sumOps 0 1) 6000 ?cfg w' = Some (closed, (5000, 6000), w'') \<and> fst ` set closed = {''a'', ''b''}"
    by (auto simp: insert_commute)
  then show ?thesis unfolding Let_def run prod.case .
qed

section \<open>The series cap\<close>

lemma length_delete_mem: "distinct (map fst xs) \<Longrightarrow> k \<in> fst ` set xs \<Longrightarrow> Suc (length (AList.delete k xs)) = length xs"
  by (induction xs) auto

lemma length_update: "length (AList.update k v xs) = (if k \<in> fst ` set xs then length xs else Suc (length xs))"
  by (induction xs) auto

lemma evictionLess_iff:
  "evictionLess a b \<longleftrightarrow> seLastSeenMs (snd a) < seLastSeenMs (snd b) \<or>
     seLastSeenMs (snd a) = seLastSeenMs (snd b) \<and> fst a < fst b"
  by (auto simp: evictionLess_def)

lemma oldestOf_None [simp]: "oldestOf xs = None \<longleftrightarrow> xs = []"
  by (cases xs) (auto split: option.splits)

lemma oldestOf_min: "oldestOf xs = Some y \<Longrightarrow> y \<in> set xs \<and> (\<forall>x \<in> set xs. \<not> evictionLess x y)"
proof (induction xs arbitrary: y)
  case (Cons x xs)
  show ?case
  proof (cases "oldestOf xs")
    case None
    with Cons.prems show ?thesis by (simp add: evictionLess_iff)
  next
    case (Some z)
    note z = Cons.IH [OF Some]
    show ?thesis
    proof (cases "evictionLess z x")
      case True
      with Cons.prems Some z show ?thesis by (auto simp: evictionLess_iff)
    next
      case False
      with Cons.prems Some z show ?thesis by (auto simp: evictionLess_iff)
    qed
  qed
qed simp

text \<open>
  Eviction removes the least recently seen series: with the eviction policy, making room
  in a full window drops exactly one series, one that no other was seen before (ties by smaller key),
  forgets its snapshots and keeps every other series and its snapshots untouched.
\<close>
theorem evict_least_recent:
  assumes "wSeries w \<noteq> []" "distinct (map fst (wSeries w))" "evictOldestLocked w = (key, w')"
  shows "\<exists>e. (key, e) \<in> set (wSeries w) \<and> (\<forall>p \<in> set (wSeries w). \<not> evictionLess p (key, e)) \<and>
    Suc (length (wSeries w')) = length (wSeries w) \<and>
    map_of (wSeries w') = (map_of (wSeries w))(key := None) \<and>
    scOutbound (wCache w') = (scOutbound (wCache w))(key := None) \<and> scInbound (wCache w') = (scInbound (wCache w))(key := None)"
proof -
  obtain k e where o: "oldestOf (wSeries w) = Some (k, e)"
    using assms(1) by (cases "oldestOf (wSeries w)") auto
  note min = oldestOf_min [OF o]
  have w': "key = k" "wSeries w' = AList.delete k (wSeries w)" "wCache w' = DeleteSnapshot k (wCache w)"
    using assms(3) o by (auto simp: evictOldestLocked_def logEvent_def Let_def)
  have "Suc (length (AList.delete k (wSeries w))) = length (wSeries w)"
    using min assms(2) by (intro length_delete_mem) force+
  then show ?thesis using w' min by (auto simp: delete_conv' DeleteSnapshot_def)
qed

theorem evict_least_recent_witness:
  "let w = openWindow\<lparr>wSeries := [(''new'', newEntry NewSumWrapper [] [] 5500), (''old'', newEntry NewSumWrapper [] [] 5100)]\<rparr>
   in fst (evictOldestLocked w) = ''old''"
proof -
  let ?w = "openWindow\<lparr>wSeries := [(''new'', newEntry NewSumWrapper [] [] 5500), (''old'', newEntry NewSumWrapper [] [] 5100)]\<rparr>"
  obtain key w' where e: "evictOldestLocked ?w = (key, w')" by (metis prod.exhaust)
  from evict_least_recent [OF _ _ e] have "key = ''old''" by (auto simp: evictionLess_iff newEntry_def)
  then show ?thesis unfolding Let_def e by simp
qed

text \<open>
  The invariant of a window under a fixed configuration, over every operation that changes it.
\<close>

definition windowInv :: "PrecomputeConfig \<Rightarrow> 's windowState \<Rightarrow> bool" where
  "windowInv cfg w \<longleftrightarrow> distinct (map fst (wSeries w)) \<and>
     (0 < cMaxSeries cfg \<and> \<not> isWholeStream cfg \<longrightarrow> length (wSeries w) \<le> unat (cMaxSeries cfg)) \<and>
     (wSketchFactory w = None \<longrightarrow> wSeries w = [] \<and> (\<forall>p \<in> set (wPanes w). spSeries p = [])) \<and>
     length (wPanes w) \<le> nat (panesPerWindow cfg)"

inductive reachableWindow :: "('s, 'v) sketchOps \<Rightarrow> PrecomputeConfig \<Rightarrow> 's windowState \<Rightarrow> bool"
  for ops :: "('s, 'v) sketchOps" and cfg :: PrecomputeConfig where
  new: "reachableWindow ops cfg newWindowState"
| obs: "reachableWindow ops cfg w \<Longrightarrow> reachableWindow ops cfg (snd (observeWithKey ops key ob cfg w))"
| env: "reachableWindow ops cfg w \<Longrightarrow> reachableWindow ops cfg (snd (observeEnvelope ops e cfg w))"
| rot: "reachableWindow ops cfg w \<Longrightarrow> rotate_window ops now cfg w = Some (closed, rng, w') \<Longrightarrow> reachableWindow ops cfg w'"
| drn: "reachableWindow ops cfg w \<Longrightarrow> drain ops cfg w = Some (closed, rng, w') \<Longrightarrow> reachableWindow ops cfg w'"
| hooks: "reachableWindow ops cfg w \<Longrightarrow> reachableWindow ops cfg (setMonitorHooks a b c w)"
| wake: "reachableWindow ops cfg w \<Longrightarrow> reachableWindow ops cfg (setWakeHook b w)"
| scope: "reachableWindow ops cfg w \<Longrightarrow> reachableWindow ops cfg (resetForScopeChange w)"

lemma windowInv_update:
  "windowInv cfg w \<Longrightarrow> wSketchFactory w \<noteq> None \<Longrightarrow> key \<in> fst ` set (wSeries w) \<Longrightarrow> wSeries w' = AList.update key e (wSeries w) \<Longrightarrow>
   wSketchFactory w' = wSketchFactory w \<Longrightarrow> wPanes w' = wPanes w \<Longrightarrow> windowInv cfg w'"
  by (simp add: windowInv_def distinct_update length_update)

lemma recordLocked_frame:
  "\<exists>e. wSeries (snd (recordLocked ops key entry obs w)) = AList.update key e (wSeries w) \<and>
     wSketchFactory (snd (recordLocked ops key entry obs w)) = wSketchFactory w \<and>
     wPanes (snd (recordLocked ops key entry obs w)) = wPanes w"
  by (auto simp: recordLocked_def logEvent_def Let_def split: prod.splits option.splits)

lemma recordLocked_inv:
  "windowInv cfg w \<Longrightarrow> wSketchFactory w \<noteq> None \<Longrightarrow> key \<in> fst ` set (wSeries w) \<Longrightarrow> windowInv cfg (snd (recordLocked ops key entry obs w))"
  using recordLocked_frame [of ops key entry obs w] windowInv_update by metis

lemma makeRoom_frame:
  assumes "makeRoom capped cfg w = (r, w')" "distinct (map fst (wSeries w))"
  shows "distinct (map fst (wSeries w')) \<and> wSketchFactory w' = wSketchFactory w \<and> wPanes w' = wPanes w \<and>
    fst ` set (wSeries w') \<subseteq> fst ` set (wSeries w) \<and> length (wSeries w') \<le> length (wSeries w) \<and>
    (r = None \<and> capped \<and> 0 < cMaxSeries cfg \<and> length (wSeries w) \<le> unat (cMaxSeries cfg) \<longrightarrow> length (wSeries w') < unat (cMaxSeries cfg))"
proof (cases "capped \<and> cMaxSeries cfg \<le> of_nat (length (wSeries w)) \<and> cOnOverflow cfg = OnOverflowEvictOldest")
  case False
  have "unat (cMaxSeries cfg) > length (wSeries w)" if "\<not> cMaxSeries cfg \<le> of_nat (length (wSeries w))" "length (wSeries w) \<le> unat (cMaxSeries cfg)"
    using that unat_u64_less [of "cMaxSeries cfg"] by (simp add: word_le_nat_alt unat_of_nat)
  with False assms show ?thesis
    by (auto simp: makeRoom_def split: if_splits OnOverflow.splits)
next
  case True
  obtain key w1 where e: "evictOldestLocked w = (key, w1)" by (metis prod.exhaust)
  have w1: "wSeries w1 = (case oldestOf (wSeries w) of None \<Rightarrow> wSeries w | Some (k, _) \<Rightarrow> AList.delete k (wSeries w))"
    "wSketchFactory w1 = wSketchFactory w" "wPanes w1 = wPanes w"
    using e by (auto simp: evictOldestLocked_def logEvent_def Let_def split: option.splits)
  have w': "wSeries w' = wSeries w1" "wSketchFactory w' = wSketchFactory w1" "wPanes w' = wPanes w1"
    using assms(1) True e by (auto simp: makeRoom_def)
  show ?thesis
  proof (cases "wSeries w")
    case Nil
    with w1 w' show ?thesis by (simp add: unat_gt_0 word_gt_0)
  next
    case (Cons p ps)
    then have "wSeries w \<noteq> []" by simp
    then obtain k en where o: "oldestOf (wSeries w) = Some (k, en)" by (cases "oldestOf (wSeries w)") auto
    then have "k \<in> fst ` set (wSeries w)" using oldestOf_min by force
    from length_delete_mem [OF assms(2) this] show ?thesis
      using w1 w' o assms(2) dom_delete_subset [of k "wSeries w"] by (simp add: distinct_delete)
  qed
qed

lemma windowInv_admit:
  assumes "windowInv cfg w" "wSketchFactory w \<noteq> None" "0 < cMaxSeries cfg \<and> \<not> isWholeStream cfg \<longrightarrow> capped"
    "makeRoom capped cfg w = (None, w1)" "wSeries w' = AList.update key e (wSeries w1)"
    "wSketchFactory w' = wSketchFactory w1" "wPanes w' = wPanes w1"
  shows "windowInv cfg w' \<and> wSketchFactory w' \<noteq> None \<and> key \<in> fst ` set (wSeries w')"
  using assms makeRoom_frame [OF assms(4)]
  by (auto simp: windowInv_def distinct_update length_update dom_update)

lemma admitSeriesLocked_inv:
  assumes "windowInv cfg w" "wSketchFactory w \<noteq> None" "admitSeriesLocked ops key obs cfg w = (r, w')"
  shows "windowInv cfg w' \<and> (\<forall>e. r = Inr e \<longrightarrow> wSketchFactory w' \<noteq> None \<and> key \<in> fst ` set (wSeries w'))"
proof -
  let ?c = "0 < cMaxSeries cfg \<and> \<not> isWholeStream cfg"
  obtain m w1 where m: "makeRoom ?c cfg w = (m, w1)" by (metis prod.exhaust)
  show ?thesis
  proof (cases m)
    case (Some e)
    then have "w1 = w" using m by (auto simp: makeRoom_def split: if_splits OnOverflow.splits prod.splits)
    with Some m assms show ?thesis by (auto simp: admitSeriesLocked_def)
  next
    case None
    with m assms(3) windowInv_admit [OF assms(1,2) _ m [unfolded None], of w' key] show ?thesis
      by (auto simp: admitSeriesLocked_def Let_def)
  qed
qed

lemma admitEnvelope_inv:
  assumes "windowInv cfg w" "wSketchFactory w \<noteq> None" "admitEnvelope ops key refMs env cfg w = (r, w')"
  shows "windowInv cfg w' \<and> (\<forall>e. r = Inr e \<longrightarrow> wSketchFactory w' \<noteq> None \<and> key \<in> fst ` set (wSeries w'))"
proof (cases "map_of (wSeries w) key")
  case (Some e)
  with assms show ?thesis using map_of_SomeD [OF Some] by (force simp: admitEnvelope_def)
next
  case new: None
  obtain m w1 where m: "makeRoom (0 < cMaxSeries cfg) cfg w = (m, w1)" by (metis prod.exhaust)
  show ?thesis
  proof (cases m)
    case (Some e)
    then have "w1 = w" using m by (auto simp: makeRoom_def split: if_splits OnOverflow.splits prod.splits)
    with Some m new assms show ?thesis by (auto simp: admitEnvelope_def)
  next
    case None
    with m new assms(3) windowInv_admit [OF assms(1,2) _ m [unfolded None], of w' key] show ?thesis
      by (auto simp: admitEnvelope_def Let_def)
  qed
qed

lemma captureFactory_inv [simp]: "windowInv cfg w \<Longrightarrow> windowInv cfg (initWindow ts cfg (captureFactory ops w))"
  "wSketchFactory (initWindow ts cfg (captureFactory ops w)) \<noteq> None"
  by (auto simp: windowInv_def captureFactory_def initWindow_def Let_def)

lemma observeWithKey_inv:
  assumes "windowInv cfg w"
  shows "windowInv cfg (snd (observeWithKey ops key obs cfg w))"
proof -
  let ?w = "initWindow (oTimestampMs obs) cfg (captureFactory ops w)"
  have iw: "windowInv cfg ?w" using assms by simp
  have rec: "windowInv cfg (snd (recordLocked ops key e obs v))"
    if "windowInv cfg v" "map_of (wSeries v) key = Some e" for e v
    using that recordLocked_inv [of cfg v key ops e obs] map_of_SomeD [OF that(2)]
    by (cases "wSketchFactory v") (force simp: windowInv_def)+
  show ?thesis
  proof (cases "wInitialized w \<and> (validateTimestampLocked w (oTimestampMs obs) cfg \<noteq> None \<or> map_of (wSeries w) key \<noteq> None)")
    case True
    with rec [of w] assms show ?thesis by (auto simp: observeWithKey_def split: option.splits)
  next
    case False
    then have "observeWithKey ops key obs cfg w =
      (case validateTimestampLocked ?w (oTimestampMs obs) cfg of Some e \<Rightarrow> (Some e, ?w)
       | None \<Rightarrow> (case map_of (wSeries ?w) key of Some entry \<Rightarrow> recordLocked ops key entry obs ?w
         | None \<Rightarrow> (case admitSeriesLocked ops key obs cfg ?w of (Inl e, w) \<Rightarrow> (Some e, w)
           | (Inr entry, w) \<Rightarrow> recordLocked ops key entry obs w)))"
      by (auto simp: observeWithKey_def Let_def)
    note slow = this
    obtain r w1 where a: "admitSeriesLocked ops key obs cfg ?w = (r, w1)" by (metis prod.exhaust)
    note inv = admitSeriesLocked_inv [OF iw captureFactory_inv(2) a]
    have "windowInv cfg (snd (recordLocked ops key entry obs w1))" if "r = Inr entry" for entry
      using inv that recordLocked_inv [of cfg w1 key ops entry obs] by simp
    with slow a inv show ?thesis using iw
      by (cases "validateTimestampLocked ?w (oTimestampMs obs) cfg"; cases "map_of (wSeries ?w) key"; cases r) (simp_all add: rec)
  qed
qed

lemma observeEnvelope_inv:
  assumes "windowInv cfg w"
  shows "windowInv cfg (snd (observeEnvelope ops env cfg w))"
proof -
  define ref where "ref = (if eWindowEndMs env = 0 then eWindowStartMs env else eWindowEndMs env)"
  define key where "key = SeriesKeyForEntry cfg [] (eLabels env)"
  define v where "v = initWindow ref cfg (captureFactory ops w)"
  have iv: "windowInv cfg v" "wSketchFactory v \<noteq> None"
    unfolding v_def by (rule captureFactory_inv(1) [OF assms], rule captureFactory_inv(2))
  obtain r w1 where a: "admitEnvelope ops key ref env cfg v = (r, w1)" by (metis prod.exhaust)
  note inv = admitEnvelope_inv [OF iv a]
  have upd: "windowInv cfg (w1\<lparr>wSeries := AList.update key e (wSeries w1), wCache := c\<rparr>)" if "r = Inr entry" for e c entry
    using that inv by (auto intro: windowInv_update [of cfg w1 key _ e])
  have eq: "observeEnvelope ops env cfg w = (case r of Inl e \<Rightarrow> (Some e, w1) | Inr entry \<Rightarrow>
      (case applyEnvelope ops key env entry (wCache w1) of
         (Some e, entry, cache) \<Rightarrow> (Some e, w1\<lparr>wSeries := AList.update key entry (wSeries w1), wCache := cache\<rparr>)
       | (None, entry, cache) \<Rightarrow>
           let entry = entry\<lparr>seCount := seCount entry + eCount env\<rparr>;
               entry = (if seLastSeenMs entry < ref then entry\<lparr>seLastSeenMs := ref\<rparr> else entry)
           in (None, w1\<lparr>wSeries := AList.update key entry (wSeries w1), wCache := cache\<rparr>)))"
    by (simp only: observeEnvelope_def Let_def ref_def [symmetric] key_def [symmetric] v_def [symmetric] a prod.case)
  show ?thesis
  proof (cases r)
    case (Inl e)
    with inv show ?thesis by (simp add: eq)
  next
    case (Inr entry)
    obtain x e c where "applyEnvelope ops key env entry (wCache w1) = (x, e, c)" by (metis prod.exhaust)
    with Inr upd [OF Inr] show ?thesis by (cases x) (simp_all add: eq Let_def)
  qed
qed

lemma advanceWindow_inv: "windowInv cfg w \<Longrightarrow> windowInv cfg (advanceWindow now cfg w)"
  by (simp add: windowInv_def)

lemma panesPerWindow_pos: "1 \<le> panesPerWindow cfg"
  by (simp add: panesPerWindow_def Let_def)

lemma length_trimPanes [simp]: "length (trimPanes n ps) = min n (length ps)"
  by (auto simp: trimPanes_def)

lemma set_trimPanes: "set (trimPanes n ps) \<subseteq> set ps"
  by (auto simp: trimPanes_def dest: in_set_dropD)

lemma rotateLocked_inv:
  assumes "windowInv cfg w"
  shows "\<exists>closed rng w'. rotateLocked ops now cfg w = Some (closed, rng, w') \<and> windowInv cfg w'"
proof (cases "cMode cfg = Sliding")
  case False
  with assms show ?thesis by (simp add: rotateLocked_def windowInv_def)
next
  case True
  let ?panes = "trimPanes (nat (panesPerWindow cfg)) (closePane w)"
  have none: "\<forall>p \<in> set ?panes. spSeries p = []" if "wSketchFactory w = None"
    using that assms set_trimPanes [of "nat (panesPerWindow cfg)" "closePane w"] by (auto simp: windowInv_def closePane_def)
  have "windowInv cfg ((advanceWindow now cfg (w\<lparr>wSeries := []\<rparr>))\<lparr>wPanes := ?panes\<rparr>)"
    using none by (simp add: windowInv_def)
  with none True show ?thesis
    by (cases "wSketchFactory w"; cases "\<forall>p \<in> set ?panes. spSeries p = []") (simp_all add: rotateLocked_def rotateSlidingLocked_def Let_def)
qed

lemma rotate_window_inv:
  "windowInv cfg w \<Longrightarrow> \<exists>closed rng w'. rotate_window ops now cfg w = Some (closed, rng, w') \<and> windowInv cfg w'"
  using rotateLocked_inv [of cfg w ops now] by (simp add: rotate_window_def)

lemma drain_inv: "windowInv cfg w \<Longrightarrow> \<exists>closed rng w'. drain ops cfg w = Some (closed, rng, w') \<and> windowInv cfg w'"
  using rotateLocked_inv [of cfg w ops "wActiveEndMs w"] by (simp add: drain_def)

lemma reachableWindow_inv: "reachableWindow ops cfg w \<Longrightarrow> windowInv cfg w"
proof (induction rule: reachableWindow.induct)
  case new
  show ?case using panesPerWindow_pos [of cfg] by (simp add: windowInv_def newWindowState_def)
next
  case (obs w key ob)
  then show ?case by (simp add: observeWithKey_inv)
next
  case (env w e)
  then show ?case by (simp add: observeEnvelope_inv)
next
  case (rot w now closed rng w')
  then show ?case using rotate_window_inv [of cfg w ops now] by auto
next
  case (drn w closed rng w')
  then show ?case using drain_inv [of cfg w ops] by auto
qed (auto simp: windowInv_def setMonitorHooks_def setWakeHook_def resetForScopeChange_def)

text \<open>
  Property C12. Bounded state and no panic: in every state the window can reach under a configuration,
  whatever is observed, merged, rotated or drained and in whatever order, each series key occurs once,
  the number of series never exceeds a per-series cap, the ring never holds more panes than tile a
  window, and rotation and drain return (the factory they call was always captured before a series
  existed).
\<close>
theorem window_invariant:
  assumes "reachableWindow ops cfg w"
  shows "distinct (map fst (wSeries w)) \<and>
    (0 < cMaxSeries cfg \<and> \<not> isWholeStream cfg \<longrightarrow> activeSeriesCount w \<le> unat (cMaxSeries cfg)) \<and>
    int (length (wPanes w)) \<le> panesPerWindow cfg \<and>
    rotate_window ops now cfg w \<noteq> None \<and> drain ops cfg w \<noteq> None"
proof -
  have inv: "windowInv cfg w" using assms by (rule reachableWindow_inv)
  have "rotate_window ops now cfg w \<noteq> None" "drain ops cfg w \<noteq> None"
    using rotate_window_inv [OF inv, of ops now] drain_inv [OF inv, of ops] by (elim exE conjE, simp)+
  moreover have "int (length (wPanes w)) \<le> panesPerWindow cfg"
    using inv panesPerWindow_pos [of cfg] unfolding windowInv_def by linarith
  ultimately show ?thesis using inv by (simp add: windowInv_def activeSeriesCount_def)
qed

theorem window_invariant_witness:
  "let cfg = (plainConfig Tumbling 1000 0)\<lparr>cMaxSeries := 1\<rparr>;
       w = snd (observeWithKey (sumOps 0 1) ''b'' (sampleAt 5200 0) cfg
             (snd (observeWithKey (sumOps 0 1) ''a'' (sampleAt 5100 0) cfg newWindowState)))
   in activeSeriesCount w \<le> 1"
proof -
  let ?cfg = "(plainConfig Tumbling 1000 0)\<lparr>cMaxSeries := 1\<rparr>"
  have "\<not> isWholeStream ?cfg" by (simp add: plainConfig_def zeroConfig_def isWholeStream_def effectiveScope_def)
  moreover have "reachableWindow (sumOps 0 1) ?cfg (snd (observeWithKey (sumOps 0 1) ''b'' (sampleAt 5200 0) ?cfg
      (snd (observeWithKey (sumOps 0 1) ''a'' (sampleAt 5100 0) ?cfg newWindowState))))"
    by (intro reachableWindow.obs reachableWindow.new)
  note window_invariant [OF this]
  ultimately show ?thesis unfolding Let_def by simp
qed

end
