(* ===== verification/WindowRotate.thy ===== *)
theory WindowRotate
  imports Window
begin

text \<open>
  Rotation in the other modes and the composition of the window with a sketch family: sliding windows
  as merges of panes, draining, unsized configurations, inbound envelopes, and the active-series gauge.
\<close>

section \<open>Sliding windows\<close>

text \<open>The entries of one series in a list of keyed entries, in order.\<close>

definition entriesOf :: "string \<Rightarrow> 's seriesMap \<Rightarrow> 's seriesEntry list" where
  "entriesOf k xs = map snd (filter (\<lambda>p. fst p = k) xs)"

lemma entriesOf_simps [simp]:
  "entriesOf k [] = []" "entriesOf k ((j, e) # xs) = (if j = k then e # entriesOf k xs else entriesOf k xs)"
  by (simp_all add: entriesOf_def)

lemma entriesOf_eq_Nil: "entriesOf k xs = [] \<longleftrightarrow> k \<notin> fst ` set xs"
  by (force simp: entriesOf_def filter_empty_conv)

lemma mergeEntry_keys: "fst ` set (mergeEntry ops new p m) = insert (fst p) (fst ` set m)"
  by (cases p) (simp add: mergeEntry_def dom_update Let_def)

lemma mergeEntry_lookup:
  "map_of (mergeEntry ops new (j, src) m) k =
   (if k = j then Some (let dst = (case map_of m j of Some d \<Rightarrow> d | None \<Rightarrow> newEntry new (seResourceLabels src) (seLabels src) (seLastSeenMs src))
      in dst\<lparr>seSketch := snd (skMerge ops (seSketch dst) (seSketch src)), seCount := seCount dst + seCount src,
             seLastSeenMs := (if seLastSeenMs dst < seLastSeenMs src then seLastSeenMs src else seLastSeenMs dst)\<rparr>)
    else map_of m k)"
  by (simp add: mergeEntry_def update_conv' Let_def)

text \<open>Merging keyed entries folds each series separately: its sketches in order, and its counts.\<close>

lemma mergeEntries_fold:
  "case map_of (fold (mergeEntry ops new) xs m) k of
     None \<Rightarrow> map_of m k = None \<and> entriesOf k xs = []
   | Some e \<Rightarrow> (map_of m k \<noteq> None \<or> entriesOf k xs \<noteq> []) \<and>
       seSketch e = fold (\<lambda>t s. snd (skMerge ops s t)) (map seSketch (entriesOf k xs))
         (case map_of m k of None \<Rightarrow> new | Some d \<Rightarrow> seSketch d) \<and>
       seCount e = (case map_of m k of None \<Rightarrow> 0 | Some d \<Rightarrow> seCount d) + sum_list (map seCount (entriesOf k xs))"
proof (induction xs arbitrary: m)
  case Nil
  then show ?case by (auto split: option.splits)
next
  case (Cons p xs)
  obtain j e where p: "p = (j, e)" by (cases p)
  from Cons.IH [of "mergeEntry ops new p m"] show ?case
    by (cases "k = j"; cases "map_of m j"; cases "map_of (fold (mergeEntry ops new) xs (mergeEntry ops new p m)) k")
      (simp_all add: p mergeEntry_lookup newEntry_def Let_def add.assoc)
qed

lemma mergeEntry_distinct: "distinct (map fst m) \<Longrightarrow> distinct (map fst (mergeEntry ops new p m))"
  by (cases p) (simp add: mergeEntry_def distinct_update Let_def)

lemma mergePanes_distinct: "distinct (map fst (mergePanes ops new panes))"
proof -
  have "distinct (map fst m) \<Longrightarrow> distinct (map fst (fold (mergeEntry ops new) xs m))" for xs m
    by (induction xs arbitrary: m) (auto simp: mergeEntry_distinct simp del: distinct_map)
  then show ?thesis by (simp add: mergePanes_def del: distinct_map)
qed

text \<open>What one series contributed to a list of panes, oldest pane first.\<close>

definition paneEntries :: "string \<Rightarrow> 's slidingPane list \<Rightarrow> 's seriesEntry list" where
  "paneEntries k panes = entriesOf k (concat (map spSeries panes))"

lemma mergePanes_spec:
  "case map_of (mergePanes ops new panes) k of
     None \<Rightarrow> paneEntries k panes = []
   | Some e \<Rightarrow> paneEntries k panes \<noteq> [] \<and>
       seSketch e = fold (\<lambda>t s. snd (skMerge ops s t)) (map seSketch (paneEntries k panes)) new \<and>
       seCount e = sum_list (map seCount (paneEntries k panes))"
  using mergeEntries_fold [where ops = ops and new = new and xs = "concat (map spSeries panes)" and m = "[]" and k = k]
  by (simp add: mergePanes_def paneEntries_def split: option.splits)

lemma rotateSlidingLocked_spec:
  assumes "rotateSlidingLocked ops now cfg w = Some (closed, rng, w')" "wSketchFactory w = Some new"
  shows "closed = mergePanes ops new (wPanes w') \<and> wPanes w' = trimPanes (nat (panesPerWindow cfg)) (closePane w) \<and>
    (closed \<noteq> [] \<longrightarrow> rng = (spStartMs (hd (wPanes w')), wActiveEndMs w))"
proof -
  let ?p = "trimPanes (nat (panesPerWindow cfg)) (closePane w)"
  have "1 \<le> nat (panesPerWindow cfg)" using panesPerWindow_pos [of cfg] by simp
  then have last: "spEndMs (last ?p) = wActiveEndMs w" by (auto simp: trimPanes_def closePane_def)
  show ?thesis
  proof (cases "\<forall>p \<in> set ?p. spSeries p = []")
    case True
    then have "concat (map spSeries ?p) = []" by simp
    then have "mergePanes ops new ?p = []" by (simp only: mergePanes_def fold_simps)
    with True assms show ?thesis by (auto simp: rotateSlidingLocked_def Let_def)
  next
    case False
    with assms last show ?thesis by (auto simp: rotateSlidingLocked_def Let_def)
  qed
qed

context counted_sketch
begin

text \<open>A merged series carries the data of all its panes.\<close>

lemma sliding_mass:
  assumes "rotateSlidingLocked ops now cfg w = Some (closed, rng, w')" "wSketchFactory w = Some (skNew ops)" "(k, e) \<in> set closed"
  shows "mass (seSketch e) = sum_list (map (\<lambda>s. mass (seSketch s)) (paneEntries k (wPanes w'))) \<and>
    seCount e = sum_list (map seCount (paneEntries k (wPanes w')))"
proof -
  have c: "closed = mergePanes ops (skNew ops) (wPanes w')"
    using rotateSlidingLocked_spec [OF assms(1,2)] by simp
  then have "map_of closed k = Some e"
    using assms(3) by (simp add: map_of_is_SomeI mergePanes_distinct del: distinct_map)
  with mergePanes_spec [where ops = ops and new = "skNew ops" and panes = "wPanes w'" and k = k] c show ?thesis
    by (simp add: mass_merge_fold mass_new comp_def)
qed

end

text \<open>The number of panes: the least number of slides that cover the window. Durations of 63 bits of nanoseconds never overflow in milliseconds.\<close>

lemma durMs_bound:
  assumes "0 < sint d"
  shows "unat (durMs d) < 2 ^ 44"
proof -
  have "sint d < 2 ^ 63" using sint_lt [of d] by simp
  then have lt: "sint d div 1000000 < 2 ^ 44" by auto
  obtain k where k: "sint d div 1000000 = int k" using assms by (metis pos_imp_zdiv_nonneg_iff zero_le_imp_eq_int less_imp_le zero_less_numeral)
  then have "durMs d = of_nat k" using assms by (simp add: durMs_def)
  then show ?thesis using lt k by (simp add: unat_of_nat)
qed

lemma window_bounds: "unat (windowSizeMs cfg) < 2 ^ 44" "unat (slideMs cfg) < 2 ^ 44"
  using durMs_bound by (simp_all add: windowSizeMs_def slideMs_def)

lemma panesPerWindow_tiles:
  assumes "windowSizeMs cfg \<noteq> 0" "slideMs cfg \<noteq> 0"
  shows "(nat (panesPerWindow cfg) - 1) * unat (slideMs cfg) < unat (windowSizeMs cfg)" "unat (windowSizeMs cfg) \<le> nat (panesPerWindow cfg) * unat (slideMs cfg)"
proof -
  let ?a = "unat (windowSizeMs cfg)" and ?b = "unat (slideMs cfg)"
  have pos: "0 < ?a" "0 < ?b" using assms by (simp_all add: unat_gt_0)
  have "windowSizeMs cfg + slideMs cfg - 1 = of_nat (?a + ?b - 1)" using pos by (simp add: of_nat_diff)
  then have "unat (windowSizeMs cfg + slideMs cfg - 1) = ?a + ?b - 1" using window_bounds [of cfg] by (simp add: unat_of_nat)
  then have u: "unat ((windowSizeMs cfg + slideMs cfg - 1) div slideMs cfg) = (?a + ?b - 1) div ?b" by (simp add: unat_div)
  have "(?a + ?b - 1) div ?b < 2 ^ 63" using window_bounds [of cfg] by (intro le_less_trans [OF div_le_dividend]) simp
  then have s: "sint ((windowSizeMs cfg + slideMs cfg - 1) div slideMs cfg) = int ((?a + ?b - 1) div ?b)"
    using sint_of_nat_u64 [of "(?a + ?b - 1) div ?b"] unfolding u [symmetric] by simp
  have ge: "1 \<le> (?a + ?b - 1) div ?b" using pos by (simp add: Suc_le_eq div_greater_zero_iff)
  then have n: "nat (panesPerWindow cfg) = (?a + ?b - 1) div ?b" using assms s by (simp add: panesPerWindow_def Let_def)
  have m: "(?a + ?b - 1) div ?b * ?b + (?a + ?b - 1) mod ?b = ?a + ?b - 1" "(?a + ?b - 1) mod ?b < ?b" using pos by simp_all
  show "?a \<le> nat (panesPerWindow cfg) * ?b" unfolding n using m pos by linarith
  have "((?a + ?b - 1) div ?b - 1) * ?b = (?a + ?b - 1) div ?b * ?b - ?b" by (simp add: diff_mult_distrib)
  then show "(nat (panesPerWindow cfg) - 1) * ?b < ?a" unfolding n using m pos by linarith
qed

text \<open>Panes of one slide each, without gaps.\<close>

fun consecutive :: "u64 \<Rightarrow> 's slidingPane list \<Rightarrow> bool" where
  "consecutive step [] = True"
| "consecutive step (p # ps) = (spEndMs p = spStartMs p + step \<and> (case ps of [] \<Rightarrow> True | q # _ \<Rightarrow> spStartMs q = spEndMs p) \<and> consecutive step ps)"

lemma consecutive_drop: "consecutive step ps \<Longrightarrow> consecutive step (drop n ps)"
  by (induction ps arbitrary: n) (auto simp: drop_Cons' split: list.splits)

lemma consecutive_range: "consecutive step (p # ps) \<Longrightarrow> spEndMs (last (p # ps)) = spStartMs p + of_nat (length (p # ps)) * step"
proof (induction ps arbitrary: p)
  case (Cons q ps)
  then have "spEndMs (last (q # ps)) = spStartMs q + of_nat (length (q # ps)) * step" "spStartMs q = spStartMs p + step" by auto
  then show ?case by (simp add: algebra_simps)
qed simp

text \<open>
  Property C32. A sliding window of Sums is exact over its panes. A slide keeps the most recent panes,
  the just-closed one last, as many as the least number of slides that cover the window (or all, while
  there are fewer), emits one merged entry for exactly the series that occur in one of them, and each
  merged entry's observation count is the sum of the counts in those panes, both in the sketch and in
  the entry; the range runs from the oldest kept pane to the closed one, and when the panes follow each
  other without a gap it is as long as the kept panes together.
\<close>
theorem sliding_sum_exact:
  assumes "cMode cfg = Sliding" "wSketchFactory w = Some (skNew (sumOps eps sites))"
    and "rotateLocked (sumOps eps sites) now cfg w = Some (closed, rng, w')"
  shows "wPanes w' = drop (Suc (length (wPanes w)) - nat (panesPerWindow cfg)) (closePane w) \<and>
    (windowSizeMs cfg \<noteq> 0 \<and> slideMs cfg \<noteq> 0 \<longrightarrow>
       (nat (panesPerWindow cfg) - 1) * unat (slideMs cfg) < unat (windowSizeMs cfg) \<and>
       unat (windowSizeMs cfg) \<le> nat (panesPerWindow cfg) * unat (slideMs cfg)) \<and>
    distinct (map fst closed) \<and>
    (\<forall>k. k \<in> fst ` set closed \<longleftrightarrow> paneEntries k (wPanes w') \<noteq> []) \<and>
    (\<forall>(k, e) \<in> set closed.
       swCount (seSketch e) = sum_list (map (\<lambda>s. swCount (seSketch s)) (paneEntries k (wPanes w'))) \<and>
       seCount e = sum_list (map seCount (paneEntries k (wPanes w')))) \<and>
    (closed \<noteq> [] \<longrightarrow> rng = (spStartMs (hd (wPanes w')), wActiveEndMs w) \<and>
       (consecutive (slideMs cfg) (closePane w) \<longrightarrow> snd rng = fst rng + of_nat (length (wPanes w')) * slideMs cfg))"
proof -
  have rot: "rotateSlidingLocked (sumOps eps sites) now cfg w = Some (closed, rng, w')"
    using assms(1,3) by (simp add: rotateLocked_def)
  note spec = rotateSlidingLocked_spec [OF rot assms(2)]
  have n: "1 \<le> nat (panesPerWindow cfg)" using panesPerWindow_pos [of cfg] by simp
  have panes: "wPanes w' = drop (Suc (length (wPanes w)) - nat (panesPerWindow cfg)) (closePane w)"
    using spec by (auto simp: trimPanes_def closePane_def)
  have "k \<in> fst ` set closed \<longleftrightarrow> paneEntries k (wPanes w') \<noteq> []" for k
    using spec mergePanes_spec [where ops = "sumOps eps sites" and new = "skNew (sumOps eps sites)" and panes = "wPanes w'" and k = k] map_of_eq_None_iff [of closed k]
    by (auto split: option.splits)
  moreover have "distinct (map fst closed)" using spec mergePanes_distinct by simp
  moreover have "snd rng = fst rng + of_nat (length (wPanes w')) * slideMs cfg" if "closed \<noteq> []" "consecutive (slideMs cfg) (closePane w)"
  proof -
    have ne: "Suc (length (wPanes w)) - nat (panesPerWindow cfg) < length (closePane w)" using n by (simp add: closePane_def)
    then obtain p ps where p: "wPanes w' = p # ps" unfolding panes by (metis Cons_nth_drop_Suc)
    have "last (wPanes w') = last (closePane w)" using ne unfolding panes by (simp add: last_drop)
    then have "spEndMs (last (p # ps)) = wActiveEndMs w" by (simp add: p closePane_def)
    moreover have "consecutive (slideMs cfg) (p # ps)" using consecutive_drop [OF that(2)] panes p by metis
    ultimately have "wActiveEndMs w = spStartMs p + of_nat (length (wPanes w')) * slideMs cfg" using consecutive_range [of "slideMs cfg" p ps] p by simp
    moreover have "rng = (spStartMs p, wActiveEndMs w)" using spec that(1) p by simp
    ultimately show ?thesis by simp
  qed
  ultimately show ?thesis using spec panes panesPerWindow_tiles [of cfg] sum_counted.sliding_mass [OF rot assms(2)] by auto
qed

theorem sliding_sum_exact_witness:
  "let cfg = plainConfig Sliding 3000 1000;
       e = (\<lambda>n. (newEntry (NewSumWrapper\<lparr>swCount := n\<rparr>) [] [] 0)\<lparr>seCount := n\<rparr>);
       pane = (\<lambda>n. \<lparr>spSeries = [(''a'', e n)], spStartMs = n * 1000, spEndMs = (n + 1) * 1000\<rparr>);
       w = openWindow\<lparr>wSeries := [(''a'', e 5)], wPanes := [pane 2, pane 3, pane 4]\<rparr>
   in case rotateLocked (sumOps 0 1) 6000 cfg w of None \<Rightarrow> False
      | Some (closed, rng, w') \<Rightarrow> rng = (3000, 6000) \<and> fst ` set closed = {''a''} \<and>
          (\<forall>(k, e) \<in> set closed. swCount (seSketch e) = 12)"
proof -
  let ?cfg = "plainConfig Sliding 3000 1000"
    and ?e = "\<lambda>n. (newEntry (NewSumWrapper\<lparr>swCount := n\<rparr>) [] [] 0)\<lparr>seCount := n\<rparr>"
  let ?pane = "\<lambda>n. \<lparr>spSeries = [(''a'', ?e n)], spStartMs = n * 1000, spEndMs = (n + 1) * 1000\<rparr>"
  let ?w = "openWindow\<lparr>wSeries := [(''a'', ?e 5)], wPanes := [?pane 2, ?pane 3, ?pane 4]\<rparr>"
  have "windowInv ?cfg ?w" by (simp add: windowInv_def)
  then obtain closed rng w' where rot: "rotateLocked (sumOps 0 1) 6000 ?cfg ?w = Some (closed, rng, w')"
    using rotateLocked_inv [of ?cfg ?w "sumOps 0 1" 6000] by blast
  have m: "cMode ?cfg = Sliding" "wSketchFactory ?w = Some (skNew (sumOps 0 1))" by simp_all
  note spec = sliding_sum_exact [OF m rot]
  note keys = spec [THEN conjunct2, THEN conjunct2, THEN conjunct2, THEN conjunct1] and
    counts = spec [THEN conjunct2, THEN conjunct2, THEN conjunct2, THEN conjunct2, THEN conjunct1] and
    range = spec [THEN conjunct2, THEN conjunct2, THEN conjunct2, THEN conjunct2, THEN conjunct2]
  have w': "wPanes w' = [?pane 3, ?pane 4, \<lparr>spSeries = [(''a'', ?e 5)], spStartMs = 5000, spEndMs = 6000\<rparr>]"
    unfolding spec [THEN conjunct1] by (simp add: closePane_def)
  have key: "k \<in> fst ` set closed \<longleftrightarrow> k = ''a''" for k
    using keys [rule_format, of k] by (simp add: w' paneEntries_def)
  have "swCount (seSketch e) = 12" if "(k, e) \<in> set closed" for k e
  proof -
    have "k = ''a''" using key [of k] that by force
    moreover have "swCount (seSketch e) = sum_list (map (\<lambda>s. swCount (seSketch s)) (paneEntries k (wPanes w')))"
      using bspec [OF counts that] by simp
    ultimately show ?thesis by (simp add: w' paneEntries_def newEntry_def)
  qed
  moreover have "fst ` set closed = {''a''}" using key by blast
  moreover have "rng = (3000, 6000)" using mp [OF range, THEN conjunct1] \<open>fst ` set closed = {''a''}\<close> by (cases closed) (simp_all add: w')
  ultimately show ?thesis unfolding Let_def rot option.case prod.case by (intro conjI ballI) auto
qed

text \<open>
  The range can exceed the window. After an idle time the active pane jumps to the bucket of the present, but panes are dropped by their number only:
  with windows of three seconds and slides of one, a pane of second 5 is still merged, and reported, with one of second 9, under a range of five seconds.
\<close>
lemma idle_gap_widens_range:
  "let cfg = plainConfig Sliding 3000 1000; e = (newEntry (NewSumWrapper\<lparr>swCount := 1\<rparr>) [] [] 0)\<lparr>seCount := 1\<rparr>
   in \<exists>c1 r1 w1 c2 w2. rotate_window (sumOps 0 1) 9321 cfg (openWindow\<lparr>wSeries := [(''a'', e)]\<rparr>) = Some (c1, r1, w1) \<and>
        rotate_window (sumOps 0 1) 10000 cfg (w1\<lparr>wSeries := [(''a'', e)]\<rparr>) = Some (c2, (5000, 10000), w2) \<and>
        map (\<lambda>(k, e). (k, seCount e)) c2 = [(''a'', 2)]"
proof -
  let ?cfg = "plainConfig Sliding 3000 1000" and ?ops = "sumOps 0 1"
  define e where "e = (newEntry (NewSumWrapper\<lparr>swCount := 1\<rparr>) [] [] 0)\<lparr>seCount := 1\<rparr>"
  define p where "p = (\<lambda>a b. \<lparr>spSeries = [(''a'', e)], spStartMs = a, spEndMs = b\<rparr>)"
  define w1 where "w1 = openWindow\<lparr>wSeries := [], wActiveStartMs := 9000, wActiveEndMs := 10000, wPanes := [p 5000 6000]\<rparr>"
  have hook: "\<not> wMonitorResetHook openWindow" by (simp add: openWindow_def newWindowState_def)
  note defs = rotate_window_def rotateLocked_def rotateSlidingLocked_def closePane_def trimPanes_def advanceWindow_def fireMonitorReset_def Let_def
  have 1: "rotate_window ?ops 9321 ?cfg (openWindow\<lparr>wSeries := [(''a'', e)]\<rparr>) = Some (mergePanes ?ops (skNew ?ops) [p 5000 6000], (5000, 6000), w1)"
    by (simp add: defs hook w1_def p_def)
  have 2: "\<exists>w2. rotate_window ?ops 10000 ?cfg (w1\<lparr>wSeries := [(''a'', e)]\<rparr>) =
      Some (mergePanes ?ops (skNew ?ops) [p 5000 6000, p 9000 10000], (5000, 10000), w2)"
    by (simp add: defs hook w1_def p_def)
  have "map (\<lambda>(k, e). (k, seCount e)) (mergePanes ?ops (skNew ?ops) [p 5000 6000, p 9000 10000]) = [(''a'', 2)]"
    by (simp add: mergePanes_def mergeEntry_def p_def e_def newEntry_def Let_def case_prod_beta)
  moreover obtain w2 where "rotate_window ?ops 10000 ?cfg (w1\<lparr>wSeries := [(''a'', e)]\<rparr>) =
      Some (mergePanes ?ops (skNew ?ops) [p 5000 6000, p 9000 10000], (5000, 10000), w2)" using 2 by (rule exE)
  ultimately show ?thesis unfolding Let_def e_def [symmetric] by (intro exI conjI) (rule 1)
qed

section \<open>Draining\<close>

text \<open>
  Draining flushes everything, once: outside sliding mode, draining an initialised window
  hands out the whole active map under the window's range, whatever the time, and a second drain
  returns nothing and changes nothing.
\<close>
theorem drain_flushes:
  assumes "wInitialized w" "cMode cfg \<noteq> Sliding"
  shows "\<exists>w'. drain ops cfg w = Some (wSeries w, if wSeries w = [] then (0, 0) else (wActiveStartMs w, wActiveEndMs w), w') \<and>
    wSeries w' = [] \<and> drain ops cfg w' = Some ([], (0, 0), w')"
  using assms by (simp add: drain_def rotateLocked_def)

theorem drain_flushes_witness:
  "let w = openWindow\<lparr>wSeries := [(''a'', newEntry NewSumWrapper [] [] 5500)]\<rparr>
   in \<exists>w'. drain (sumOps 0 1) (plainConfig Tumbling 1000 0) w =
        Some ([(''a'', newEntry NewSumWrapper [] [] 5500)], (5000, 6000), w') \<and>
      drain (sumOps 0 1) (plainConfig Tumbling 1000 0) w' = Some ([], (0, 0), w')"
  using drain_flushes [of "openWindow\<lparr>wSeries := [(''a'', newEntry NewSumWrapper [] [] 5500)]\<rparr>"
      "plainConfig Tumbling 1000 0" "sumOps 0 1"] by (auto simp: Let_def)

text \<open>
  In sliding mode draining an empty window is not a no-op: once the ring holds a pane,
  even an empty one, every drain without any accumulated state returns nothing but still moves the
  window bounds forward by a step.
\<close>
theorem sliding_drain_advances_empty:
  assumes "aligned cfg w" "cMode cfg = Sliding" "rotationStepMs cfg \<noteq> 0" "\<not> hasAccumulatedState w" "wPanes w \<noteq> []"
    "unat (wActiveEndMs w) + unat (rotationStepMs cfg) < 2 ^ 64"
  shows "\<exists>w'. drain ops cfg w = Some ([], (0, 0), w') \<and> \<not> hasAccumulatedState w' \<and>
    wActiveStartMs w' = wActiveEndMs w \<and> wActiveEndMs w' = wActiveEndMs w + rotationStepMs cfg"
proof -
  let ?panes = "trimPanes (nat (panesPerWindow cfg)) (closePane w)"
  have empty: "\<forall>p \<in> set ?panes. spSeries p = []"
    using assms(4) set_trimPanes [of "nat (panesPerWindow cfg)" "closePane w"] by (auto simp: hasAccumulatedState_def closePane_def)
  have "unat (rotationStepMs cfg) dvd unat (wActiveEndMs w)" using assms(1) by (auto simp: aligned_def)
  then have "unat (wActiveEndMs w div rotationStepMs cfg * rotationStepMs cfg) = unat (wActiveEndMs w)"
    by (simp add: unat_bucket)
  then have bucket: "wActiveEndMs w div rotationStepMs cfg * rotationStepMs cfg = wActiveEndMs w"
    by (simp only: word_unat_eq_iff)
  let ?w = "(advanceWindow (wActiveEndMs w) cfg (w\<lparr>wSeries := []\<rparr>))\<lparr>wPanes := ?panes\<rparr>"
  have "drain ops cfg w = Some ([], (0, 0), ?w)"
    using assms(1,2,5) empty by (simp add: drain_def rotateLocked_def rotateSlidingLocked_def aligned_def Let_def)
  moreover have "\<not> hasAccumulatedState ?w" using empty by (simp add: hasAccumulatedState_def)
  moreover have "wActiveStartMs ?w = wActiveEndMs w" "wActiveEndMs ?w = wActiveEndMs w + rotationStepMs cfg"
    using assms(3) by (simp_all add: advanceWindow_def Let_def bucket)
  ultimately show ?thesis by blast
qed

theorem sliding_drain_advances_empty_witness:
  "let w = openWindow\<lparr>wPanes := [\<lparr>spSeries = [], spStartMs = 4000, spEndMs = 5000\<rparr>]\<rparr>
   in \<exists>w'. drain (sumOps 0 1) (plainConfig Sliding 3000 1000) w = Some ([], (0, 0), w') \<and> wActiveStartMs w' = 6000"
  using sliding_drain_advances_empty [of "plainConfig Sliding 3000 1000"
      "openWindow\<lparr>wPanes := [\<lparr>spSeries = [], spStartMs = 4000, spEndMs = 5000\<rparr>]\<rparr>" "sumOps 0 1"]
  by (auto simp: Let_def aligned_def hasAccumulatedState_def)

section \<open>Unsized configurations\<close>

text \<open>
  A configuration without a window size (batch mode) admits no current observation: the
  first one initialises an empty range at its own timestamp and is rejected as future data, and after
  the rotation at its timestamp, which is what the runtime retries with, it is rejected again.
\<close>
theorem unsized_rejects:
  assumes "rotationStepMs cfg = 0"
  shows "(\<not> wInitialized w \<longrightarrow> fst (observeWithKey ops key obs cfg w) = Some ErrFutureData) \<and>
    (wInitialized w \<and> rotate_window ops (oTimestampMs obs) cfg w = Some (closed, rng, w') \<longrightarrow>
       observeWithKey ops key obs cfg w' = (Some ErrFutureData, w'))"
proof (intro conjI impI)
  assume "\<not> wInitialized w"
  with assms show "fst (observeWithKey ops key obs cfg w) = Some ErrFutureData"
    by (simp add: observeWithKey_def initWindow_def captureFactory_def validateTimestampLocked_def Let_def)
next
  assume a: "wInitialized w \<and> rotate_window ops (oTimestampMs obs) cfg w = Some (closed, rng, w')"
  have adv: "wActiveEndMs (advanceWindow (oTimestampMs obs) cfg v) = oTimestampMs obs" for v :: "'a windowState"
    using assms by (simp add: advanceWindow_def Let_def)
  have "rotateLocked ops (oTimestampMs obs) cfg w = Some (closed, rng, w')"
    using conjunct2 [OF a] conjunct1 [OF a] assms by (simp add: rotate_window_def)
  then have "wActiveEndMs w' = oTimestampMs obs" "wInitialized w'" using a adv
    by (auto simp: rotateLocked_def rotateSlidingLocked_def Let_def split: if_splits option.splits)
  then show "observeWithKey ops key obs cfg w' = (Some ErrFutureData, w')"
    by (simp add: observeWithKey_def validateTimestampLocked_def)
qed

theorem unsized_rejects_witness:
  "fst (observeWithKey (sumOps 0 1) ''a'' (sampleAt 5100 0) (plainConfig Batch 0 0) newWindowState) = Some ErrFutureData"
  using unsized_rejects [of "plainConfig Batch 0 0" newWindowState "sumOps 0 1" "''a''" "sampleAt 5100 0"]
  by (simp add: newWindowState_def)

section \<open>The gauge\<close>

text \<open>
  The active-series gauge is not the size of the active map: a rotation empties the map
  and leaves the gauge, so that after any number of windows it counts every series ever admitted and
  not evicted.
\<close>
theorem gauge_survives_rotation:
  assumes "wInitialized w" "wActiveEndMs w \<le> now" "rotate_window ops now cfg w = Some (closed, rng, w')"
  shows "activeSeriesCount w' = 0 \<and> wActiveSeries w' = wActiveSeries w"
proof -
  from assms have "rotateLocked ops now cfg w = Some (closed, rng, w')"
    by (simp add: rotate_window_def leD)
  then have "wActiveSeries w' = wActiveSeries w"
    by (auto simp: rotateLocked_def rotateSlidingLocked_def Let_def split: if_splits option.splits)
  with rotate_window_bounds [OF assms(3,1,2)] show ?thesis by (simp add: activeSeriesCount_def)
qed

theorem gauge_survives_rotation_witness:
  "let w = openWindow\<lparr>wSeries := [(''a'', newEntry NewSumWrapper [] [] 5500)], wActiveSeries := 1\<rparr>
   in case rotate_window (sumOps 0 1) 6000 (plainConfig Tumbling 1000 0) w of None \<Rightarrow> False
      | Some (closed, rng, w') \<Rightarrow> activeSeriesCount w' = 0 \<and> wActiveSeries w' = 1"
proof -
  let ?w = "openWindow\<lparr>wSeries := [(''a'', newEntry NewSumWrapper [] [] 5500)], wActiveSeries := 1\<rparr>"
  have inv: "windowInv (plainConfig Tumbling 1000 0) ?w" using panesPerWindow_pos by (simp add: windowInv_def)
  obtain closed rng w' where rot: "rotate_window (sumOps 0 1) 6000 (plainConfig Tumbling 1000 0) ?w = Some (closed, rng, w')"
    using rotate_window_inv [OF inv, of "sumOps 0 1" 6000] by blast
  from gauge_survives_rotation [OF _ _ rot] show ?thesis unfolding Let_def rot by simp
qed

section \<open>Inbound envelopes of Sums\<close>

lemma SumApplyDelta_payload [simp]:
  "SumApplyDelta w (sumPayload s n) = (None, w\<lparr>swSum := f64_add (swSum w) s, swCount := swCount w + n\<rparr>)"
proof -
  have "sumPayload s n \<noteq> []" using sumPayload_simps(1) [of s n] by (metis length_0_conv zero_neq_numeral)
  then show ?thesis by (simp add: SumApplyDelta_def sumPayloadLen_def)
qed

lemma observeEnvelope_uncapped:
  assumes "wInitialized w" "cMaxSeries cfg = 0" "wSketchFactory w \<noteq> None"
    and "key = SeriesKeyForEntry cfg [] (eLabels env)"
    and "applyEnvelope ops key env
      (case map_of (wSeries w) key of Some e \<Rightarrow> e
       | None \<Rightarrow> newEntry (skNew ops) [] (eLabels env) (if eWindowEndMs env = 0 then eWindowStartMs env else eWindowEndMs env))
      (wCache w) = (None, e', cache)"
  shows "\<exists>e'' w'. observeEnvelope ops env cfg w = (None, w') \<and> seSketch e'' = seSketch e' \<and>
    seCount e'' = seCount e' + eCount env \<and> map_of (wSeries w') = (map_of (wSeries w))(key \<mapsto> e'') \<and> wCache w' = cache"
proof -
  define ref where "ref = (if eWindowEndMs env = 0 then eWindowStartMs env else eWindowEndMs env)"
  have w: "initWindow ref cfg (captureFactory ops w) = w"
    using assms(1,3) by (simp add: initWindow_def captureFactory_def)
  let ?c = "e'\<lparr>seCount := seCount e' + eCount env\<rparr>"
  let ?l = "if seLastSeenMs ?c < ref then ?c\<lparr>seLastSeenMs := ref\<rparr> else ?c"
  have l: "seSketch ?l = seSketch e'" "seCount ?l = seCount e' + eCount env" by simp_all
  show ?thesis
  proof (cases "map_of (wSeries w) key")
    case (Some e)
    then have "admitEnvelope ops key ref env cfg w = (Inr e, w)" by (simp add: admitEnvelope_def)
    with assms(5) Some l show ?thesis
      by (intro exI [of _ ?l]) (simp add: observeEnvelope_def ref_def [symmetric] assms(4) [symmetric] w Let_def update_conv')
  next
    case None
    let ?e = "newEntry (skNew ops) [] (eLabels env) ref"
    have "admitEnvelope ops key ref env cfg w =
      (Inr ?e, w\<lparr>wSeries := AList.update key ?e (wSeries w), wActiveSeries := wActiveSeries w + 1\<rparr>)"
      using None assms(2) by (simp add: admitEnvelope_def makeRoom_def Let_def)
    with assms(5) None l show ?thesis
      by (intro exI [of _ ?l]) (simp add: observeEnvelope_def ref_def [symmetric] assms(4) [symmetric] w Let_def update_conv')
  qed
qed

text \<open>
  Chained aggregation adds up: merging the full snapshot of an upstream Sum into a window
  raises the count of the series its labels name, new or known, by the upstream count in the sketch
  and by the envelope's count in the entry, and leaves every other series alone.
\<close>
theorem envelope_chain:
  assumes "wInitialized w" "cMaxSeries cfg = 0" "wSketchFactory w \<noteq> None"
    and "\<not> f64_less 0 (gosEpsilon u)" "SumSnapshot u = Inr (Some (ePayload env))" "isFullEncoding (eEncoding env)"
    and "key = SeriesKeyForEntry cfg [] (eLabels env)"
  shows "\<exists>e w'. observeEnvelope (sumOps eps sites) env cfg w = (None, w') \<and> map_of (wSeries w') = (map_of (wSeries w))(key \<mapsto> e) \<and>
    swCount (seSketch e) = (case map_of (wSeries w) key of Some d \<Rightarrow> swCount (seSketch d) | None \<Rightarrow> 0) + swCount u \<and>
    seCount e = (case map_of (wSeries w) key of Some d \<Rightarrow> seCount d | None \<Rightarrow> 0) + eCount env"
proof -
  let ?e = "case map_of (wSeries w) key of Some e \<Rightarrow> e
    | None \<Rightarrow> newEntry (skNew (sumOps eps sites)) [] (eLabels env) (if eWindowEndMs env = 0 then eWindowStartMs env else eWindowEndMs env)"
  have p: "ePayload env = sumPayload (swSum u) (swCount u)"
    using assms(4,5) by (auto simp: SumSnapshot_def split: if_splits)
  obtain e' cache where a: "applyEnvelope (sumOps eps sites) key env ?e (wCache w) = (None, e', cache)"
    "swCount (seSketch e') = swCount (seSketch ?e) + swCount u" "seCount e' = seCount ?e"
    using assms(6) by (auto simp: applyEnvelope_def isDelta_def isFullEncoding_def mergeFullEnvelope_def p sumOps_def SumMerge_def SetGosMode_def NewSumWrapper_def)
  have new: "swCount (skNew (sumOps eps sites)) = 0" by (rule sum_counted.mass_new)
  from observeEnvelope_uncapped [OF assms(1-3,7) a(1)] obtain e'' w' where
    "observeEnvelope (sumOps eps sites) env cfg w = (None, w')" "seSketch e'' = seSketch e'"
    "seCount e'' = seCount e' + eCount env" "map_of (wSeries w') = (map_of (wSeries w))(key \<mapsto> e'')" by blast
  with a(2,3) new show ?thesis
    by (intro exI [of _ e'']) (cases "map_of (wSeries w) key"; simp add: newEntry_def)
qed

theorem envelope_chain_witness:
  "let env = \<lparr>eFrameAttributes = [], eSchemaVersion = 1, eSketchType = SketchTypeUnspecified, eAggKind = AggKindSum,
         eAggID = 7, eResourceLabels = [], eLabels = [(''zone'', ''a'')], eWindowStartMs = 5000, eWindowEndMs = 6000,
         eEncoding = EncodingProtoFull, ePayload = sumPayload 0 9, eMetricName = [], eCount = 9, eTemporality = 1, eRelativeAccuracy = 0\<rparr>
   in \<exists>e w'. observeEnvelope (sumOps 0 1) env (plainConfig Tumbling 1000 0) openWindow = (None, w') \<and>
        map_of (wSeries w') (SeriesKeyForEntry (plainConfig Tumbling 1000 0) [] (eLabels env)) = Some e \<and> swCount (seSketch e) = 9"
proof -
  let ?env = "\<lparr>eFrameAttributes = [], eSchemaVersion = 1, eSketchType = SketchTypeUnspecified, eAggKind = AggKindSum,
     eAggID = 7, eResourceLabels = [], eLabels = [(''zone'', ''a'')], eWindowStartMs = 5000, eWindowEndMs = 6000,
     eEncoding = EncodingProtoFull, ePayload = sumPayload 0 9, eMetricName = [], eCount = 9, eTemporality = 1, eRelativeAccuracy = 0\<rparr>"
  have "SumSnapshot (NewSumWrapper\<lparr>swCount := 9\<rparr>) = Inr (Some (ePayload ?env))" "\<not> f64_less 0 (gosEpsilon (NewSumWrapper\<lparr>swCount := 9\<rparr>))"
    by (simp_all add: SumSnapshot_def NewSumWrapper_def f64_zero_order)
  from envelope_chain [OF _ _ _ this(2,1) _ refl, of openWindow "plainConfig Tumbling 1000 0" 0 1]
  show ?thesis unfolding Let_def by (auto simp: isFullEncoding_def NewSumWrapper_def)
qed

text \<open>
  The envelope count drifts from the sketch when an upstream window is replaced: a delta of
  another upstream window resets the series' sketch, which afterwards holds only the new window's
  observations, but the entry's count, which the next emission carries, keeps the replaced ones.
\<close>
theorem delta_replace_keeps_count:
  assumes "wInitialized w" "cMaxSeries cfg = 0" "wSketchFactory w \<noteq> None"
    and "key = SeriesKeyForEntry cfg [] (eLabels env)" "map_of (wSeries w) key = Some old"
    and "seDeltaWindowEndMs old \<noteq> 0" "seDeltaWindowEndMs old \<noteq> eWindowEndMs env"
    and "isDelta (eEncoding env)" "ePayload env = sumPayload s (eCount env)"
  shows "\<exists>e w'. observeEnvelope (sumOps eps sites) env cfg w = (None, w') \<and> map_of (wSeries w') key = Some e \<and>
    swCount (seSketch e) = eCount env \<and> seCount e = seCount old + eCount env"
proof -
  obtain e' cache where a: "applyEnvelope (sumOps eps sites) key env old (wCache w) = (None, e', cache)"
    "swCount (seSketch e') = eCount env" "seCount e' = seCount old"
    using assms(6-9) by (simp add: applyEnvelope_def sumOps_def SumReset_def Let_def)
  from observeEnvelope_uncapped [OF assms(1-4), of "sumOps eps sites" e' cache] a assms(5) show ?thesis by auto
qed

theorem delta_replace_keeps_count_witness:
  "let env = \<lparr>eFrameAttributes = [], eSchemaVersion = 1, eSketchType = SketchTypeUnspecified, eAggKind = AggKindSum,
         eAggID = 7, eResourceLabels = [], eLabels = [(''zone'', ''a'')], eWindowStartMs = 5000, eWindowEndMs = 6000,
         eEncoding = EncodingProtoDelta, ePayload = sumPayload 0 3, eMetricName = [], eCount = 3, eTemporality = 1, eRelativeAccuracy = 0\<rparr>;
       key = SeriesKeyForEntry (plainConfig Tumbling 1000 0) [] (eLabels env);
       old = (newEntry (NewSumWrapper\<lparr>swCount := 5\<rparr>) [] [] 5000)\<lparr>seCount := 5, seDeltaWindowStartMs := 4000, seDeltaWindowEndMs := 5000\<rparr>
   in \<exists>e w'. observeEnvelope (sumOps 0 1) env (plainConfig Tumbling 1000 0) (openWindow\<lparr>wSeries := [(key, old)]\<rparr>) = (None, w') \<and>
        map_of (wSeries w') key = Some e \<and> swCount (seSketch e) = 3 \<and> seCount e = 8"
proof -
  let ?env = "\<lparr>eFrameAttributes = [], eSchemaVersion = 1, eSketchType = SketchTypeUnspecified, eAggKind = AggKindSum,
     eAggID = 7, eResourceLabels = [], eLabels = [(''zone'', ''a'')], eWindowStartMs = 5000, eWindowEndMs = 6000,
     eEncoding = EncodingProtoDelta, ePayload = sumPayload 0 3, eMetricName = [], eCount = 3, eTemporality = 1, eRelativeAccuracy = 0\<rparr>"
  let ?key = "SeriesKeyForEntry (plainConfig Tumbling 1000 0) [] (eLabels ?env)"
  let ?old = "(newEntry (NewSumWrapper\<lparr>swCount := 5\<rparr>) [] [] 5000)\<lparr>seCount := 5, seDeltaWindowStartMs := 4000, seDeltaWindowEndMs := 5000\<rparr>"
  from delta_replace_keeps_count [of "openWindow\<lparr>wSeries := [(?key, ?old)]\<rparr>" "plainConfig Tumbling 1000 0" ?key ?env ?old 0 0 1]
  show ?thesis unfolding Let_def by (auto simp: isDelta_def)
qed

end
