(* ===== verification/CollectorPlan.thy ===== *)
theory CollectorPlan
  imports Config
begin

text \<open>
  The physical plan a collector executes (\<^verbatim>\<open>asap-precompute-go/collector_plan.go\<close>): its types, the
  validation of its transmission rules and its translation into runtime configurations.

  JSON decoding is Go's \<^verbatim>\<open>encoding/json\<close>; \<open>DecodeCollectorPlan\<close> starts from its two results, the decoded
  plan (\<open>None\<close> for a decoding error) and whether the end of the input follows. Optional pointers are
  options, maps are maps. The Go specification leaves out-of-range conversions of \<^verbatim>\<open>float64\<close> to the
  implementation; they are the parameters \<open>oob64\<close> and \<open>oob32\<close>.
\<close>

section \<open>Types\<close>

record CollectorPlanEnvelope =
  pePlanID :: u64
  pePlanVersion :: u64
  peGeneratedAtUnixMS :: u64
  peActivationUnixMS :: u64
  peExpiryUnixMS :: "u64 option"
  peBackendCompat :: string
  pePlannerRevision :: string
  peCapabilitySnapshotID :: string

record CollectorLifecycle =
  clKind :: string
  clMaintenanceMode :: string
  clEvaluationSchedule :: string
  clOutputRepresentation :: string

definition SupportedCollectorLifecycle :: CollectorLifecycle where
  "SupportedCollectorLifecycle = \<lparr>clKind = ''continuously_maintained'', clMaintenanceMode = ''incremental'',
     clEvaluationSchedule = ''per_update'', clOutputRepresentation = ''summary_state''\<rparr>"

record CollectorMaterialization =
  cmQueryID :: string
  cmMaterialization :: u64
  cmMetric :: string
  cmAlgorithm :: string
  cmParameters :: "string \<rightharpoonup> f64"
  cmGroupBy :: "string list"
  cmWindowSecs :: u64
  cmAbstractWindowFramework :: string
  cmWindowImplementationID :: string
  cmPaneSecs :: u64
  cmStateLayout :: string
  cmEvidenceSource :: "string option"
  cmLifecycle :: CollectorLifecycle

record SamplingPolicy =
  spMode :: string
  spProbability :: f64
  spEstimator :: string

record GOSPolicy =
  gpEpsilonStaleness :: f64
  gpSites :: "32 word"
  gpThresholdMode :: string

record DeltaPolicy =
  dpAbsoluteThreshold :: f64
  dpGOS :: "GOSPolicy option"

record AdaptiveF64Bounds =
  afMin :: f64
  afMax :: f64
  afMaxStep :: f64

record AdaptiveU64Bounds =
  auMin :: u64
  auMax :: u64
  auMaxStep :: u64

record RuntimeAdaptationPolicy =
  raEnabled :: bool
  raNotBeforeUnixMS :: u64
  raMaxEvidenceAgeMS :: u64
  raMinEvidenceSamples :: u64
  raSampleProbability :: "AdaptiveF64Bounds option"
  raEmitEveryMS :: "AdaptiveU64Bounds option"
  raDeltaThreshold :: "AdaptiveF64Bounds option"
  raGOSEpsilonStaleness :: "AdaptiveF64Bounds option"

record RuntimeRulePolicy =
  rpSampling :: SamplingPolicy
  rpDelta :: "DeltaPolicy option"
  rpAdaptation :: RuntimeAdaptationPolicy

record TransmissionRule =
  trMaterialization :: u64
  trProducerID :: string
  trSchemaID :: string
  trMode :: string
  trEncoding :: string
  trEmitEveryMS :: u64
  trFullCheckpointEveryMS :: "u64 option"
  trDestinationRef :: string
  trRuntimePolicy :: RuntimeRulePolicy

record CollectorPlan =
  cpCollectorID :: string
  cpEnvelope :: CollectorPlanEnvelope
  cpMaterializations :: "CollectorMaterialization list"
  cpTransmissionRules :: "TransmissionRule list"

text \<open>\<^verbatim>\<open>strings.TrimSpace(s) == ""\<close>: the string is a sequence of UTF-8 encoded white-space characters.\<close>

fun isBlank :: "string \<Rightarrow> bool" where
  "isBlank s = (case map of_char s of
     [] \<Rightarrow> True
   | (c :: nat) # _ \<Rightarrow>
       if c \<in> {9, 10, 11, 12, 13, 32} then isBlank (tl s)
       else (case map of_char s of
           (a :: nat) # b # _ \<Rightarrow>
             if a = 0xC2 \<and> b \<in> {0x85, 0xA0} then isBlank (drop 2 s)
             else (case map of_char s of
                 (a :: nat) # b # d # _ \<Rightarrow>
                   if (a = 0xE1 \<and> b = 0x9A \<and> d = 0x80) \<or>
                      (a = 0xE2 \<and> b = 0x80 \<and> (d \<in> {0x80..0x8A} \<or> d \<in> {0xA8, 0xA9, 0xAF})) \<or>
                      (a = 0xE2 \<and> b = 0x81 \<and> d = 0x9F) \<or> (a = 0xE3 \<and> b = 0x80 \<and> d = 0x80)
                   then isBlank (drop 3 s) else False
               | _ \<Rightarrow> False)
         | _ \<Rightarrow> False))"

declare isBlank.simps [simp del]

lemma isBlank_printable: "32 < (of_char c :: nat) \<Longrightarrow> (of_char c :: nat) < 128 \<Longrightarrow> \<not> isBlank (c # s)"
  by (auto simp: isBlank.simps split: list.splits)

section \<open>Validation\<close>

datatype planErr = ErrDecode | ErrTrailing | ErrTarget | ErrIdentity | ErrRuleBinding | ErrDuplicateRule | ErrQueryID
  | ErrDuplicateMaterialization | ErrNoRule | ErrRuleCount | ErrRule string | ErrMaterialization string

definition validateAdaptiveF64 :: "AdaptiveF64Bounds option \<Rightarrow> f64 \<Rightarrow> f64 \<Rightarrow> bool" where
  "validateAdaptiveF64 bounds domainMin domainMax =
     (case bounds of None \<Rightarrow> True
      | Some b \<Rightarrow> \<not> (f64_isnan (afMin b) \<or> f64_isnan (afMax b) \<or> f64_isnan (afMaxStep b) \<or>
          f64_isinf (afMin b) \<or> f64_isinf (afMax b) \<or> f64_isinf (afMaxStep b) \<or>
          f64_less (afMin b) domainMin \<or> f64_less domainMax (afMax b) \<or> f64_less (afMax b) (afMin b) \<or> f64_le (afMaxStep b) 0))"

abbreviation f64_one :: f64 where "f64_one \<equiv> 0x3FF0000000000000"
abbreviation f64_max :: f64 where "f64_max \<equiv> 0x7FEFFFFFFFFFFFFF"

definition validateSampling :: "SamplingPolicy \<Rightarrow> string \<Rightarrow> string option" where
  "validateSampling sampling algorithm =
     (let mode = (if spMode sampling = [] then ''disabled'' else spMode sampling); p = spProbability sampling
      in if mode = ''fixed'' then
           if f64_isnan p \<or> f64_isinf p \<or> f64_le p 0 \<or> f64_less f64_one p then Some ''sample probability''
           else if (algorithm = ''hll'' \<and> spEstimator sampling = ''hash_threshold'') \<or>
             (algorithm \<in> {''cms'', ''cmswithheap''} \<and> spEstimator sampling = ''geometric_admission'') then None
           else Some ''sampling estimator''
         else if mode \<noteq> ''disabled'' then Some ''sampling mode'' else None)"

definition validateDelta :: "DeltaPolicy option \<Rightarrow> string \<Rightarrow> string option" where
  "validateDelta delta algorithm =
     (case delta of None \<Rightarrow> None
      | Some d \<Rightarrow>
          let t = dpAbsoluteThreshold d
          in if f64_isnan t \<or> f64_isinf t \<or> f64_less t 0 \<or> \<not> f64_eq (f64_truncf t) t then Some ''delta threshold''
             else if algorithm \<notin> {''ddsketch'', ''hll'', ''cms'', ''cmswithheap'', ''countsketch'', ''countsketchwithheap''}
               then Some ''delta family''
             else (case dpGOS d of None \<Rightarrow> None
               | Some gos \<Rightarrow>
                   if algorithm \<notin> {''countsketch'', ''countsketchwithheap''} \<or> f64_le (gpEpsilonStaleness gos) 0 \<or>
                      f64_less f64_one (gpEpsilonStaleness gos) \<or> gpSites gos = 0 \<or> gpThresholdMode gos \<noteq> ''isotropic''
                   then Some ''GOS policy'' else None))"

definition validateGuardrails :: "TransmissionRule \<Rightarrow> string option" where
  "validateGuardrails rule =
     (let ad = rpAdaptation (trRuntimePolicy rule); sampling = rpSampling (trRuntimePolicy rule);
          delta = rpDelta (trRuntimePolicy rule);
          currentSampleP = (if spMode sampling = ''fixed'' then spProbability sampling else f64_one)
      in if raEnabled ad \<and> (raMaxEvidenceAgeMS ad = 0 \<or> raMinEvidenceSamples ad = 0) then Some ''evidence constraints''
         else if \<not> validateAdaptiveF64 (raSampleProbability ad) 0 f64_one then Some ''guardrails''
         else if \<not> validateAdaptiveF64 (raDeltaThreshold ad) 0 f64_max then Some ''guardrails''
         else if \<not> validateAdaptiveF64 (raGOSEpsilonStaleness ad) 0 f64_one then Some ''guardrails''
         else if (case raEmitEveryMS ad of None \<Rightarrow> False | Some b \<Rightarrow> auMin b = 0 \<or> auMax b < auMin b \<or> auMaxStep b = 0 \<or>
             trEmitEveryMS rule < auMin b \<or> auMax b < trEmitEveryMS rule) then Some ''emit interval guardrails''
         else if (case raSampleProbability ad of None \<Rightarrow> False
             | Some b \<Rightarrow> f64_less currentSampleP (afMin b) \<or> f64_less (afMax b) currentSampleP) then Some ''sample probability guardrails''
         else if (case raDeltaThreshold ad of None \<Rightarrow> False
             | Some b \<Rightarrow> (case delta of None \<Rightarrow> True
                 | Some d \<Rightarrow> f64_less (dpAbsoluteThreshold d) (afMin b) \<or> f64_less (afMax b) (dpAbsoluteThreshold d)))
           then Some ''delta threshold guardrails''
         else if (case raGOSEpsilonStaleness ad of None \<Rightarrow> False
             | Some b \<Rightarrow> (case delta of None \<Rightarrow> True | Some d \<Rightarrow> (case dpGOS d of None \<Rightarrow> True
                 | Some g \<Rightarrow> f64_less (gpEpsilonStaleness g) (afMin b) \<or> f64_less (afMax b) (gpEpsilonStaleness g))))
           then Some ''GOS guardrails'' else None)"

definition validateTransmissionRule :: "TransmissionRule \<Rightarrow> CollectorMaterialization \<Rightarrow> string option" where
  "validateTransmissionRule rule m =
     (let delta = rpDelta (trRuntimePolicy rule)
      in if isBlank (trSchemaID rule) \<or> isBlank (trDestinationRef rule) \<or> trEmitEveryMS rule = 0 then Some ''identity or cadence''
         else if trEmitEveryMS rule \<noteq> cmWindowSecs m * 1000 then Some ''cadence must match the window''
         else if trMode rule = ''delta'' \<and> (trFullCheckpointEveryMS rule = None \<or> trFullCheckpointEveryMS rule = Some 0 \<or> delta = None)
           then Some ''delta mode requires checkpoints''
         else if trMode rule \<noteq> ''delta'' \<and> (trMode rule \<noteq> ''full'' \<or> trFullCheckpointEveryMS rule \<noteq> None \<or> delta \<noteq> None)
           then Some ''full mode must not carry delta''
         else if trEncoding rule \<notin> {''sketchlib_protobuf_v1'', ''sketch_core_msgpack_v1'', ''exact_accumulator_v1''}
           then Some ''unsupported encoding''
         else if (cmAlgorithm m = ''sum'') \<noteq> (trEncoding rule = ''exact_accumulator_v1'') then Some ''encoding incompatible''
         else case validateSampling (rpSampling (trRuntimePolicy rule)) (cmAlgorithm m) of
             Some e \<Rightarrow> Some e
           | None \<Rightarrow> (case validateDelta delta (cmAlgorithm m) of
               Some e \<Rightarrow> Some e | None \<Rightarrow> validateGuardrails rule))"

section \<open>Translation\<close>

definition requireParam :: "(string \<rightharpoonup> f64) \<Rightarrow> string \<Rightarrow> string \<Rightarrow> (string \<rightharpoonup> f64) \<Rightarrow> string + (string \<rightharpoonup> f64)" where
  "requireParam parameters wire runtime params =
     (case parameters wire of
        None \<Rightarrow> Inl wire
      | Some v \<Rightarrow> if f64_isnan v \<or> f64_isinf v \<or> f64_le v 0 then Inl wire else Inr (params(runtime \<mapsto> v)))"

definition runtimeSketch :: "CollectorMaterialization \<Rightarrow> string + SketchType \<times> AggregationKind \<times> (string \<rightharpoonup> f64) \<times> bool" where
  "runtimeSketch m =
     (let req = requireParam (cmParameters m); a = cmAlgorithm m
      in if a = ''sum'' then Inl ''exact sum is not implemented''
         else if a = ''ddsketch'' then
           res_bind (req ''alpha'' ''relative_accuracy'' Map.empty) (\<lambda>ps.
             if f64_le f64_one (the (ps ''relative_accuracy'')) then Inl ''alpha must be in (0, 1)''
             else Inr (SketchTypeDDSketch, AggKindSketch, ps, False))
         else if a = ''kll'' then
           res_bind (req ''k'' ''k'' Map.empty) (\<lambda>ps.
             if f64_less (the (ps ''k'')) 0x4020000000000000 then Inl ''KLL k must be at least 8''
             else Inr (SketchTypeKLLSketch, AggKindSketch, ps, False))
         else if a = ''hll'' then
           res_bind (req ''precision'' ''precision'' Map.empty) (\<lambda>ps.
             if f64_less (the (ps ''precision'')) 0x4010000000000000 \<or> f64_less 0x4032000000000000 (the (ps ''precision''))
             then Inl ''HLL precision must be in [4, 18]''
             else Inr (SketchTypeHLLSketch, AggKindSketch, ps, False))
         else if a = ''cms'' then
           res_bind (req ''width'' ''columns'' Map.empty) (\<lambda>ps. res_bind (req ''depth'' ''rows'' ps) (\<lambda>ps.
             Inr (SketchTypeCountMinSketch, AggKindSketch, ps, False)))
         else if a = ''cmswithheap'' then Inl ''keyed CMS heap serving path is not implemented''
         else if a = ''countsketch'' \<or> a = ''countsketchwithheap'' then
           let topk = (a = ''countsketchwithheap'')
           in res_bind (req ''width'' ''width'' Map.empty) (\<lambda>ps. res_bind (req ''depth'' ''depth'' ps) (\<lambda>ps.
                res_bind (if topk then req ''heap_size'' ''heap_size'' ps else Inr ps) (\<lambda>ps.
                  Inr (SketchTypeCountSketch, AggKindSketch, ps, topk))))
         else Inl ''unsupported algorithm'')"

definition deltaThreshold :: "(f64 \<Rightarrow> u64) \<Rightarrow> DeltaPolicy option \<Rightarrow> u64" where
  "deltaThreshold oob64 policy =
     (case policy of None \<Rightarrow> 0 | Some d \<Rightarrow> f64_to_uint oob64 (f64_ceil (dpAbsoluteThreshold d)))"

definition getParam :: "(string \<rightharpoonup> f64) \<Rightarrow> string \<Rightarrow> f64 \<Rightarrow> f64" where
  "getParam params key dflt = (case params key of Some v \<Rightarrow> v | None \<Rightarrow> dflt)"

definition precomputeConfig ::
  "(f64 \<Rightarrow> u64) \<Rightarrow> (f64 \<Rightarrow> 32 word) \<Rightarrow> TransmissionRule \<Rightarrow> CollectorMaterialization \<Rightarrow> string + PrecomputeConfig" where
  "precomputeConfig oob64 oob32 rule m =
     (if isBlank (cmMetric m) \<or> cmWindowSecs m = 0 \<or> isBlank (cmWindowImplementationID m) \<or> cmPaneSecs m = 0 \<or>
         isBlank (cmStateLayout m) then Inl ''required fields''
      else if cmAbstractWindowFramework m \<noteq> ''tumbling'' \<or> cmWindowImplementationID m \<noteq> ''collector-tumbling-v1'' \<or>
         cmPaneSecs m \<noteq> cmWindowSecs m \<or> cmStateLayout m \<noteq> ''anchored-pane-v1'' then Inl ''unsupported window realization''
      else if cmLifecycle m \<noteq> SupportedCollectorLifecycle then Inl ''unsupported lifecycle''
      else res_bind (runtimeSketch m) (\<lambda>(kind, aggKind, params, topk).
        if topk \<and> (case cmEvidenceSource m of None \<Rightarrow> True | Some e \<Rightarrow> isBlank e) then Inl ''evidence_source''
        else
          let sampling = rpSampling (trRuntimePolicy rule); delta = rpDelta (trRuntimePolicy rule);
              window = cmWindowSecs m * 1000000000;
              fixed = (spMode sampling = ''fixed'');
              sampleP = (if fixed then spProbability sampling else f64_one);
              params = (if fixed then params(''sample_p'' \<mapsto> sampleP) else params);
              params = (case delta of None \<Rightarrow> params | Some d \<Rightarrow> (case dpGOS d of None \<Rightarrow> params
                | Some g \<Rightarrow> params(''gos_delta_epsilon'' \<mapsto> gpEpsilonStaleness g,
                    ''gos_sites'' \<mapsto> f64_of_ratio False (unat (gpSites g)) 1)))
          in Inr (zeroConfig\<lparr>cAggID := cmMaterialization m, cSketchType := kind, cAggKind := aggKind, cMode := Tumbling,
               cWindow := \<lparr>wsSize = window, wsSlide = window, wsAllowedLateness = 0\<rparr>, cAggregateBy := cmGroupBy m,
               cTransmitSketch := True, cDeltaTransmission := (trMode rule = ''delta''),
               cDeltaThreshold := deltaThreshold oob64 delta,
               cEncoding := (if trEncoding rule = ''sketch_core_msgpack_v1'' then EncodingMsgpack else EncodingProtoFull),
               cSketchParams := params, cSampleP := sampleP, cGosDeltaEpsilon := getParam params ''gos_delta_epsilon'' 0,
               cGosSites := f64_to_uint oob32 (getParam params ''gos_sites'' 0), cMetricName := cmMetric m\<rparr>)))"

section \<open>Decoding\<close>

definition validIdentity :: "CollectorPlanEnvelope \<Rightarrow> bool" where
  "validIdentity e \<longleftrightarrow> \<not> (pePlanID e = 0 \<or> pePlanVersion e = 0 \<or> peGeneratedAtUnixMS e = 0 \<or> peActivationUnixMS e = 0 \<or>
     peActivationUnixMS e < peGeneratedAtUnixMS e \<or>
     (case peExpiryUnixMS e of None \<Rightarrow> False | Some x \<Rightarrow> x \<le> peActivationUnixMS e) \<or>
     isBlank (peBackendCompat e) \<or> isBlank (pePlannerRevision e) \<or> isBlank (peCapabilitySnapshotID e))"

fun collectRules :: "string \<Rightarrow> TransmissionRule list \<Rightarrow> (u64 \<times> TransmissionRule) list \<Rightarrow> planErr + (u64 \<times> TransmissionRule) list" where
  "collectRules collectorID [] rules = Inr rules"
| "collectRules collectorID (r # rs) rules =
     (if trMaterialization r = 0 \<or> trProducerID r \<noteq> collectorID then Inl ErrRuleBinding
      else if map_of rules (trMaterialization r) \<noteq> None then Inl ErrDuplicateRule
      else collectRules collectorID rs ((trMaterialization r, r) # rules))"

fun collectConfigs ::
  "(f64 \<Rightarrow> u64) \<Rightarrow> (f64 \<Rightarrow> 32 word) \<Rightarrow> (u64 \<times> TransmissionRule) list \<Rightarrow> CollectorMaterialization list \<Rightarrow> u64 list \<Rightarrow>
     PrecomputeConfig list \<Rightarrow> planErr + u64 list \<times> PrecomputeConfig list" where
  "collectConfigs oob64 oob32 rules [] seen configs = Inr (seen, configs)"
| "collectConfigs oob64 oob32 rules (m # ms) seen configs =
     (if isBlank (cmQueryID m) \<or> cmMaterialization m = 0 then Inl ErrQueryID
      else if cmMaterialization m \<in> set seen then Inl ErrDuplicateMaterialization
      else case map_of rules (cmMaterialization m) of
          None \<Rightarrow> Inl ErrNoRule
        | Some rule \<Rightarrow> (case validateTransmissionRule rule m of
            Some e \<Rightarrow> Inl (ErrRule e)
          | None \<Rightarrow> (case precomputeConfig oob64 oob32 rule m of
              Inl e \<Rightarrow> Inl (ErrMaterialization e)
            | Inr cfg \<Rightarrow> collectConfigs oob64 oob32 rules ms (cmMaterialization m # seen) (configs @ [cfg]))))"

record PrecomputeConfigSet =
  csVersion :: u64
  csCollectorPlan :: "CollectorPlan option"
  csConfigs :: "PrecomputeConfig list"

definition DecodeCollectorPlan ::
  "(f64 \<Rightarrow> u64) \<Rightarrow> (f64 \<Rightarrow> 32 word) \<Rightarrow> CollectorPlan option \<Rightarrow> bool \<Rightarrow> string \<Rightarrow> planErr + PrecomputeConfigSet" where
  "DecodeCollectorPlan oob64 oob32 decoded atEnd collectorID =
     (case decoded of
        None \<Rightarrow> Inl ErrDecode
      | Some plan \<Rightarrow>
          if \<not> atEnd then Inl ErrTrailing
          else if cpCollectorID plan \<noteq> collectorID then Inl ErrTarget
          else if \<not> validIdentity (cpEnvelope plan) then Inl ErrIdentity
          else res_bind (collectRules (cpCollectorID plan) (cpTransmissionRules plan) []) (\<lambda>rules.
            res_bind (collectConfigs oob64 oob32 rules (cpMaterializations plan) [] []) (\<lambda>(seen, configs).
              if length rules \<noteq> length seen then Inl ErrRuleCount
              else Inr \<lparr>csVersion = pePlanVersion (cpEnvelope plan), csCollectorPlan = Some plan, csConfigs = configs\<rparr>)))"

section \<open>Properties\<close>

lemma collectRules_spec:
  "collectRules cid rs rules0 = Inr rules \<Longrightarrow> distinct (map fst rules0) \<Longrightarrow>
   distinct (map fst rules) \<and> set rules = (\<lambda>r. (trMaterialization r, r)) ` set rs \<union> set rules0 \<and>
   length rules = length rs + length rules0 \<and> (\<forall>r \<in> set rs. trMaterialization r \<noteq> 0 \<and> trProducerID r = cid)"
proof (induction rs arbitrary: rules0)
  case (Cons r rs)
  from Cons.prems(1) have ok: "trMaterialization r \<noteq> 0" "trProducerID r = cid" "map_of rules0 (trMaterialization r) = None"
    "collectRules cid rs ((trMaterialization r, r) # rules0) = Inr rules" by (auto split: if_splits)
  have "distinct (map fst ((trMaterialization r, r) # rules0))"
    using Cons.prems(2) ok(3) by (simp add: map_of_eq_None_iff)
  from Cons.IH [OF ok(4) this] ok show ?case by auto
qed simp

text \<open>How one materialization becomes one configuration under its rule.\<close>

definition realizes ::
  "(f64 \<Rightarrow> u64) \<Rightarrow> (f64 \<Rightarrow> 32 word) \<Rightarrow> (u64 \<times> TransmissionRule) list \<Rightarrow> CollectorMaterialization \<Rightarrow> PrecomputeConfig \<Rightarrow> bool" where
  "realizes oob64 oob32 rules m cfg \<longleftrightarrow> cmMaterialization m \<noteq> 0 \<and>
     (\<exists>rule. map_of rules (cmMaterialization m) = Some rule \<and> validateTransmissionRule rule m = None \<and>
        precomputeConfig oob64 oob32 rule m = Inr cfg)"

lemma collectConfigs_spec:
  "collectConfigs oob64 oob32 rules ms seen0 configs0 = Inr (seen, configs) \<Longrightarrow> distinct seen0 \<Longrightarrow>
   seen = rev (map cmMaterialization ms) @ seen0 \<and> distinct seen \<and>
   (\<exists>cs. configs = configs0 @ cs \<and> list_all2 (realizes oob64 oob32 rules) ms cs)"
proof (induction ms arbitrary: seen0 configs0)
  case (Cons m ms)
  from Cons.prems(1) obtain rule cfg where ok: "cmMaterialization m \<noteq> 0" "cmMaterialization m \<notin> set seen0"
    "map_of rules (cmMaterialization m) = Some rule" "validateTransmissionRule rule m = None"
    "precomputeConfig oob64 oob32 rule m = Inr cfg"
    "collectConfigs oob64 oob32 rules ms (cmMaterialization m # seen0) (configs0 @ [cfg]) = Inr (seen, configs)"
    by (auto split: if_splits option.splits sum.splits)
  have "distinct (cmMaterialization m # seen0)" using Cons.prems(2) ok(2) by simp
  from Cons.IH [OF ok(6) this] obtain cs where "configs = configs0 @ cfg # cs"
    "list_all2 (realizes oob64 oob32 rules) ms cs" and seen: "seen = rev (map cmMaterialization (m # ms)) @ seen0" "distinct seen"
    by auto
  then have "configs = configs0 @ (cfg # cs) \<and> list_all2 (realizes oob64 oob32 rules) (m # ms) (cfg # cs)"
    using ok by (auto simp: realizes_def)
  with seen show ?case by blast
qed simp

lemma precomputeConfig_fields:
  "precomputeConfig oob64 oob32 rule m = Inr cfg \<Longrightarrow>
   cAggID cfg = cmMaterialization m \<and> cMode cfg = Tumbling \<and> cAggregateBy cfg = cmGroupBy m \<and> cMetricName cfg = cmMetric m \<and>
   (cDeltaTransmission cfg \<longleftrightarrow> trMode rule = ''delta'') \<and> wsSize (cWindow cfg) = cmWindowSecs m * 1000000000 \<and>
   cmWindowSecs m \<noteq> 0 \<and> wsAllowedLateness (cWindow cfg) = 0 \<and> cMaxSeries cfg = 0"
  by (auto simp: precomputeConfig_def res_bind_eq_Inr_iff Let_def zeroConfig_def split: if_splits prod.splits)

lemma validateTransmissionRule_delta:
  "validateTransmissionRule rule m = None \<Longrightarrow> trMode rule \<in> {''full'', ''delta''} \<and>
   (trMode rule = ''delta'' \<longleftrightarrow> (\<exists>c. trFullCheckpointEveryMS rule = Some c \<and> c \<noteq> 0) \<and> rpDelta (trRuntimePolicy rule) \<noteq> None) \<and>
   trEmitEveryMS rule = cmWindowSecs m * 1000"
  by (auto simp: validateTransmissionRule_def Let_def split: if_splits)

lemma realizes_contract:
  assumes "realizes oob64 oob32 rules m cfg" "set rules = (\<lambda>r. (trMaterialization r, r)) ` R"
  shows "cMode cfg = Tumbling \<and> cMetricName cfg = cmMetric m \<and> cAggregateBy cfg = cmGroupBy m \<and>
    (\<exists>r \<in> R. trMaterialization r = cAggID cfg \<and>
      (cDeltaTransmission cfg \<longleftrightarrow> (\<exists>c. trFullCheckpointEveryMS r = Some c \<and> c \<noteq> 0) \<and> rpDelta (trRuntimePolicy r) \<noteq> None))"
proof -
  obtain rule where rl: "map_of rules (cmMaterialization m) = Some rule" "validateTransmissionRule rule m = None"
    "precomputeConfig oob64 oob32 rule m = Inr cfg" using assms(1) by (auto simp: realizes_def)
  have "rule \<in> R" "trMaterialization rule = cmMaterialization m" using map_of_SomeD [OF rl(1)] assms(2) by auto
  with precomputeConfig_fields [OF rl(3)] validateTransmissionRule_delta [OF rl(2)] show ?thesis by auto
qed

text \<open>
  Property C11. An accepted plan is executed completely and exactly: it yields one configuration per
  materialization, in order, with distinct non-zero identifiers; every materialization has exactly one
  transmission rule, bound to this collector, and there is no other rule; each configuration is a
  tumbling one for its materialization's metric and grouping, and it transmits deltas just when its rule
  carries a delta policy and a positive full-checkpoint cadence.
\<close>
theorem DecodeCollectorPlan_sound:
  assumes "DecodeCollectorPlan oob64 oob32 (Some plan) atEnd cid = Inr cs"
  shows "csVersion cs = pePlanVersion (cpEnvelope plan) \<and> map cAggID (csConfigs cs) = map cmMaterialization (cpMaterializations plan) \<and>
    distinct (map cAggID (csConfigs cs)) \<and> 0 \<notin> set (map cAggID (csConfigs cs)) \<and>
    distinct (map trMaterialization (cpTransmissionRules plan)) \<and>
    set (map trMaterialization (cpTransmissionRules plan)) = set (map cAggID (csConfigs cs)) \<and>
    (\<forall>r \<in> set (cpTransmissionRules plan). trProducerID r = cid) \<and>
    list_all2 (\<lambda>m cfg. cMode cfg = Tumbling \<and> cMetricName cfg = cmMetric m \<and> cAggregateBy cfg = cmGroupBy m \<and>
      (\<exists>r \<in> set (cpTransmissionRules plan). trMaterialization r = cAggID cfg \<and>
        (cDeltaTransmission cfg \<longleftrightarrow> (\<exists>c. trFullCheckpointEveryMS r = Some c \<and> c \<noteq> 0) \<and> rpDelta (trRuntimePolicy r) \<noteq> None)))
      (cpMaterializations plan) (csConfigs cs)"
proof -
  from assms obtain rules seen where cid: "cpCollectorID plan = cid"
    and r: "collectRules cid (cpTransmissionRules plan) [] = Inr rules"
    and c: "collectConfigs oob64 oob32 rules (cpMaterializations plan) [] [] = Inr (seen, csConfigs cs)"
    and n: "length rules = length seen" and v: "csVersion cs = pePlanVersion (cpEnvelope plan)"
    by (auto simp: DecodeCollectorPlan_def res_bind_eq_Inr_iff split: if_splits prod.splits)
  note R = collectRules_spec [OF r]
  from collectConfigs_spec [OF c] have S: "seen = rev (map cmMaterialization (cpMaterializations plan))" "distinct seen"
    and L: "list_all2 (realizes oob64 oob32 rules) (cpMaterializations plan) (csConfigs cs)" by auto
  have ids: "map cAggID (csConfigs cs) = map cmMaterialization (cpMaterializations plan)"
    using L by (induction rule: list_all2_induct) (auto simp: realizes_def dest: precomputeConfig_fields)
  have nz: "0 \<notin> set (map cmMaterialization (cpMaterializations plan))"
    using L by (induction rule: list_all2_induct) (auto simp: realizes_def)
  have sub: "set (map cmMaterialization (cpMaterializations plan)) \<subseteq> fst ` set rules"
    using L by (induction rule: list_all2_induct) (force simp: realizes_def dest: map_of_SomeD)+
  have keys: "set (map trMaterialization (cpTransmissionRules plan)) = fst ` set rules" using R by (auto simp: image_image)
  have card: "card (fst ` set rules) = length rules" using R distinct_card [of "map fst rules"] by simp
  then have "distinct (map trMaterialization (cpTransmissionRules plan))"
    using R keys by (intro card_distinct) simp
  moreover have "set (map cmMaterialization (cpMaterializations plan)) = fst ` set rules"
    using sub card n S distinct_card [of "map cmMaterialization (cpMaterializations plan)"]
    by (intro card_subset_eq) simp_all
  moreover have "list_all2 (\<lambda>m cfg. cMode cfg = Tumbling \<and> cMetricName cfg = cmMetric m \<and> cAggregateBy cfg = cmGroupBy m \<and>
      (\<exists>r \<in> set (cpTransmissionRules plan). trMaterialization r = cAggID cfg \<and>
        (cDeltaTransmission cfg \<longleftrightarrow> (\<exists>c. trFullCheckpointEveryMS r = Some c \<and> c \<noteq> 0) \<and> rpDelta (trRuntimePolicy r) \<noteq> None)))
      (cpMaterializations plan) (csConfigs cs)"
    using L by (rule list_all2_mono) (rule realizes_contract, use R in auto)
  ultimately show ?thesis using v ids nz R keys S by simp
qed

text \<open>A plan with one Count-Min materialization, for concrete runs.\<close>

definition samplePolicy :: RuntimeRulePolicy where
  "samplePolicy = \<lparr>rpSampling = \<lparr>spMode = [], spProbability = 0, spEstimator = []\<rparr>, rpDelta = None,
     rpAdaptation = \<lparr>raEnabled = False, raNotBeforeUnixMS = 0, raMaxEvidenceAgeMS = 0, raMinEvidenceSamples = 0,
       raSampleProbability = None, raEmitEveryMS = None, raDeltaThreshold = None, raGOSEpsilonStaleness = None\<rparr>\<rparr>"

definition sampleRule :: "u64 \<Rightarrow> TransmissionRule" where
  "sampleRule secs = \<lparr>trMaterialization = 5, trProducerID = ''c'', trSchemaID = ''s'', trMode = ''full'',
     trEncoding = ''sketchlib_protobuf_v1'', trEmitEveryMS = secs * 1000, trFullCheckpointEveryMS = None,
     trDestinationRef = ''d'', trRuntimePolicy = samplePolicy\<rparr>"

definition sampleMaterialization :: "u64 \<Rightarrow> CollectorMaterialization" where
  "sampleMaterialization secs = \<lparr>cmQueryID = ''q'', cmMaterialization = 5, cmMetric = ''m'', cmAlgorithm = ''cms'',
     cmParameters = [''width'' \<mapsto> f64_one, ''depth'' \<mapsto> f64_one], cmGroupBy = [], cmWindowSecs = secs,
     cmAbstractWindowFramework = ''tumbling'', cmWindowImplementationID = ''collector-tumbling-v1'', cmPaneSecs = secs,
     cmStateLayout = ''anchored-pane-v1'', cmEvidenceSource = None, cmLifecycle = SupportedCollectorLifecycle\<rparr>"

definition samplePlan :: "u64 \<Rightarrow> CollectorPlan" where
  "samplePlan secs = \<lparr>cpCollectorID = ''c'', cpEnvelope = \<lparr>pePlanID = 1, pePlanVersion = 3, peGeneratedAtUnixMS = 1,
     peActivationUnixMS = 2, peExpiryUnixMS = None, peBackendCompat = ''b'', pePlannerRevision = ''p'',
     peCapabilitySnapshotID = ''s''\<rparr>, cpMaterializations = [sampleMaterialization secs], cpTransmissionRules = [sampleRule secs]\<rparr>"

lemmas sample_defs = samplePolicy_def sampleRule_def sampleMaterialization_def samplePlan_def

lemma sample_positive: "f64_le f64_one 0 = False" "f64_isnan f64_one = False" "f64_isinf f64_one = False"
  by (simp_all add: f64_eval)

lemma sampleRule_valid:
  "secs * 1000 \<noteq> 0 \<Longrightarrow> validateTransmissionRule (sampleRule secs) (sampleMaterialization secs) = None"
  by (simp add: sample_defs validateTransmissionRule_def validateSampling_def validateDelta_def validateGuardrails_def
      validateAdaptiveF64_def isBlank_printable Let_def)

lemma sampleConfig:
  "secs \<noteq> 0 \<Longrightarrow> \<exists>cfg. precomputeConfig oob64 oob32 (sampleRule secs) (sampleMaterialization secs) = Inr cfg"
  by (simp add: sample_defs precomputeConfig_def runtimeSketch_def requireParam_def sample_positive isBlank_printable Let_def)

lemma samplePlan_accepted:
  assumes "secs * 1000 \<noteq> 0" "secs \<noteq> 0"
  shows "\<exists>cs. DecodeCollectorPlan oob64 oob32 (Some (samplePlan secs)) True ''c'' = Inr cs \<and>
    (\<exists>cfg. csConfigs cs = [cfg] \<and> precomputeConfig oob64 oob32 (sampleRule secs) (sampleMaterialization secs) = Inr cfg)"
proof -
  obtain cfg where c: "precomputeConfig oob64 oob32 (sampleRule secs) (sampleMaterialization secs) = Inr cfg"
    using sampleConfig [OF assms(2)] by blast
  have "collectRules ''c'' [sampleRule secs] [] = Inr [(5, sampleRule secs)]" by (simp add: sampleRule_def)
  moreover have "collectConfigs oob64 oob32 [(5, sampleRule secs)] [sampleMaterialization secs] [] [] = Inr ([5], [cfg])"
    using sampleRule_valid [OF assms(1)] c by (simp add: sampleMaterialization_def isBlank_printable)
  ultimately show ?thesis using c
    by (simp add: DecodeCollectorPlan_def samplePlan_def validIdentity_def isBlank_printable)
qed

theorem DecodeCollectorPlan_sound_witness:
  "\<exists>cs. DecodeCollectorPlan (\<lambda>_. 0) (\<lambda>_. 0) (Some (samplePlan 60)) True ''c'' = Inr cs \<and> map cAggID (csConfigs cs) = [5]"
proof -
  obtain cs where cs: "DecodeCollectorPlan (\<lambda>_. 0) (\<lambda>_. 0) (Some (samplePlan 60)) True ''c'' = Inr cs"
    using samplePlan_accepted [of 60 "\<lambda>_. 0" "\<lambda>_. 0"] by auto
  have "map cAggID (csConfigs cs) = map cmMaterialization (cpMaterializations (samplePlan 60))"
    using DecodeCollectorPlan_sound [OF cs] by (elim conjE)
  then have "map cAggID (csConfigs cs) = [5]" by (simp add: samplePlan_def sampleMaterialization_def)
  with cs show ?thesis by (intro exI [of _ cs]) simp
qed

end
