(* ===== verification/FrameProtocol.thy ===== *)
theory FrameProtocol
  imports CollectorPlan Envelope
begin

text \<open>
  The frame protocol between a producer and the runtime that merges its envelopes: the sender's
  sequencer (\<^verbatim>\<open>asap-precompute-go/frame_identity.go\<close>), which numbers the frames of each lineage and binds
  every delta to its last full checkpoint, and the receiver (\<^verbatim>\<open>frame_receiver.go\<close>), which verifies a
  checksum, drops duplicates and refuses gaps, in two phases around the merge.

  Go maps of attributes are association lists with distinct keys, whose order stands for the unspecified
  iteration order; a missing attribute reads as the empty string. SHA-256 (\<^verbatim>\<open>crypto/sha256\<close>) is the
  parameter \<open>sha\<close>.
\<close>

type_synonym attrs = "(string \<times> string) list"

section \<open>The sender\<close>

record SummaryFrameIdentity =
  fiIdentityVersion :: "32 word"
  fiPlanID :: u64
  fiPlanVersion :: u64
  fiBackendCompat :: string
  fiMaterialization :: u64
  fiSeriesIdentity :: string
  fiSchemaID :: string
  fiProducerID :: string
  fiProducerEpoch :: string
  fiWindowStartUnixNano :: u64
  fiWindowEndUnixNano :: u64
  fiSequence :: u64
  fiKind :: string
  fiEncoding :: string
  fiCheckpointID :: string
  fiBaseCheckpointID :: string

record frameLineageKey =
  lkPlanID :: u64
  lkPlanVersion :: u64
  lkMaterialization :: u64
  lkSeriesIdentity :: string
  lkProducerID :: string
  lkProducerEpoch :: string

record frameLineageState =
  lsSequence :: u64
  lsCheckpointID :: string
  lsCheckpointAtMS :: u64

type_synonym FrameSequencer = "frameLineageKey \<rightharpoonup> frameLineageState"

record FrameEmission =
  feSeriesIdentity :: string
  feWindowStartUnixNano :: u64
  feWindowEndUnixNano :: u64
  feNowUnixMS :: u64
  feEmittedFull :: bool

datatype senderErr = ErrInvalidLineage | ErrForeignRule | ErrDeltaForFull

text \<open>
  \<^verbatim>\<open>reflect.DeepEqual\<close> on rules: pointers by what they point to, floating-point fields by \<open>==\<close>.
\<close>

fun optEqual :: "('a \<Rightarrow> 'a \<Rightarrow> bool) \<Rightarrow> 'a option \<Rightarrow> 'a option \<Rightarrow> bool" where
  "optEqual eq None None = True"
| "optEqual eq (Some x) (Some y) = eq x y"
| "optEqual eq _ _ = False"

definition boundsEqual :: "AdaptiveF64Bounds \<Rightarrow> AdaptiveF64Bounds \<Rightarrow> bool" where
  "boundsEqual a b \<longleftrightarrow> f64_eq (afMin a) (afMin b) \<and> f64_eq (afMax a) (afMax b) \<and> f64_eq (afMaxStep a) (afMaxStep b)"

definition policyEqual :: "RuntimeRulePolicy \<Rightarrow> RuntimeRulePolicy \<Rightarrow> bool" where
  "policyEqual a b \<longleftrightarrow>
     spMode (rpSampling a) = spMode (rpSampling b) \<and> f64_eq (spProbability (rpSampling a)) (spProbability (rpSampling b)) \<and>
     spEstimator (rpSampling a) = spEstimator (rpSampling b) \<and>
     optEqual (\<lambda>c d. f64_eq (dpAbsoluteThreshold c) (dpAbsoluteThreshold d) \<and>
       optEqual (\<lambda>g h. f64_eq (gpEpsilonStaleness g) (gpEpsilonStaleness h) \<and> gpSites g = gpSites h \<and>
         gpThresholdMode g = gpThresholdMode h) (dpGOS c) (dpGOS d)) (rpDelta a) (rpDelta b) \<and>
     (let x = rpAdaptation a; y = rpAdaptation b
      in raEnabled x = raEnabled y \<and> raNotBeforeUnixMS x = raNotBeforeUnixMS y \<and> raMaxEvidenceAgeMS x = raMaxEvidenceAgeMS y \<and>
         raMinEvidenceSamples x = raMinEvidenceSamples y \<and> optEqual boundsEqual (raSampleProbability x) (raSampleProbability y) \<and>
         raEmitEveryMS x = raEmitEveryMS y \<and> optEqual boundsEqual (raDeltaThreshold x) (raDeltaThreshold y) \<and>
         optEqual boundsEqual (raGOSEpsilonStaleness x) (raGOSEpsilonStaleness y))"

definition ruleDeepEqual :: "TransmissionRule \<Rightarrow> TransmissionRule \<Rightarrow> bool" where
  "ruleDeepEqual a b \<longleftrightarrow> trMaterialization a = trMaterialization b \<and> trProducerID a = trProducerID b \<and>
     trSchemaID a = trSchemaID b \<and> trMode a = trMode b \<and> trEncoding a = trEncoding b \<and> trEmitEveryMS a = trEmitEveryMS b \<and>
     trFullCheckpointEveryMS a = trFullCheckpointEveryMS b \<and> trDestinationRef a = trDestinationRef b \<and>
     policyEqual (trRuntimePolicy a) (trRuntimePolicy b)"

definition lineageOf :: "CollectorPlan \<Rightarrow> TransmissionRule \<Rightarrow> string \<Rightarrow> string \<Rightarrow> frameLineageKey" where
  "lineageOf plan rule producerEpoch seriesIdentity =
     \<lparr>lkPlanID = pePlanID (cpEnvelope plan), lkPlanVersion = pePlanVersion (cpEnvelope plan),
      lkMaterialization = trMaterialization rule, lkSeriesIdentity = seriesIdentity,
      lkProducerID = trProducerID rule, lkProducerEpoch = producerEpoch\<rparr>"

definition checkpointName :: "string \<Rightarrow> string \<Rightarrow> u64 \<Rightarrow> u64 \<Rightarrow> string" where
  "checkpointName producerID producerEpoch windowStart sequence =
     producerID @ '':'' @ producerEpoch @ '':'' @ FormatUint windowStart @ '':'' @ FormatUint sequence"

definition zeroLineage :: frameLineageState where
  "zeroLineage = \<lparr>lsSequence = 0, lsCheckpointID = [], lsCheckpointAtMS = 0\<rparr>"

definition checkpointDue :: "TransmissionRule \<Rightarrow> frameLineageState \<Rightarrow> u64 \<Rightarrow> bool" where
  "checkpointDue rule state nowUnixMS =
     (case trFullCheckpointEveryMS rule of None \<Rightarrow> False
      | Some every \<Rightarrow> lsCheckpointAtMS state \<le> nowUnixMS \<and> every \<le> nowUnixMS - lsCheckpointAtMS state)"

definition frameOf ::
  "CollectorPlan \<Rightarrow> TransmissionRule \<Rightarrow> string \<Rightarrow> string \<Rightarrow> u64 \<Rightarrow> u64 \<Rightarrow> frameLineageState \<Rightarrow> bool \<Rightarrow> SummaryFrameIdentity" where
  "frameOf plan rule producerEpoch seriesIdentity windowStart windowEnd state full =
     \<lparr>fiIdentityVersion = 1, fiPlanID = pePlanID (cpEnvelope plan), fiPlanVersion = pePlanVersion (cpEnvelope plan),
      fiBackendCompat = peBackendCompat (cpEnvelope plan), fiMaterialization = trMaterialization rule,
      fiSeriesIdentity = seriesIdentity, fiSchemaID = trSchemaID rule, fiProducerID = trProducerID rule,
      fiProducerEpoch = producerEpoch, fiWindowStartUnixNano = windowStart, fiWindowEndUnixNano = windowEnd,
      fiSequence = lsSequence state, fiKind = (if full then ''full'' else ''delta''), fiEncoding = trEncoding rule,
      fiCheckpointID = (if full then lsCheckpointID state else []),
      fiBaseCheckpointID = (if full then [] else lsCheckpointID state)\<rparr>"

definition frame_next ::
  "CollectorPlan \<Rightarrow> TransmissionRule \<Rightarrow> string \<Rightarrow> string \<Rightarrow> u64 \<Rightarrow> u64 \<Rightarrow> u64 \<Rightarrow> bool option \<Rightarrow> FrameSequencer \<Rightarrow>
     (senderErr + SummaryFrameIdentity) \<times> FrameSequencer" where
  "frame_next plan rule producerEpoch seriesIdentity windowStart windowEnd nowUnixMS emittedFull s =
     (if producerEpoch = [] \<or> seriesIdentity = [] \<or> windowEnd \<le> windowStart \<or> trProducerID rule \<noteq> cpCollectorID plan
      then (Inl ErrInvalidLineage, s)
      else if \<not> list_ex (\<lambda>candidate. ruleDeepEqual candidate rule) (cpTransmissionRules plan) then (Inl ErrForeignRule, s)
      else
        let key = lineageOf plan rule producerEpoch seriesIdentity;
            state = (case s key of Some st \<Rightarrow> st | None \<Rightarrow> zeroLineage);
            state = state\<lparr>lsSequence := lsSequence state + 1\<rparr>;
            required = (lsSequence state = 1 \<or> trMode rule = ''full'' \<or> checkpointDue rule state nowUnixMS)
        in if required \<and> emittedFull = Some False then (Inl ErrDeltaForFull, s)
           else
             let full = (case emittedFull of Some b \<Rightarrow> b | None \<Rightarrow> required);
                 state = (if full then state\<lparr>lsCheckpointID := checkpointName (trProducerID rule) producerEpoch windowStart (lsSequence state),
                            lsCheckpointAtMS := nowUnixMS\<rparr> else state)
             in (Inr (frameOf plan rule producerEpoch seriesIdentity windowStart windowEnd state full), s(key \<mapsto> state)))"

definition Next :: "CollectorPlan \<Rightarrow> TransmissionRule \<Rightarrow> string \<Rightarrow> string \<Rightarrow> u64 \<Rightarrow> u64 \<Rightarrow> u64 \<Rightarrow> FrameSequencer \<Rightarrow>
    (senderErr + SummaryFrameIdentity) \<times> FrameSequencer" where
  "Next plan rule producerEpoch seriesIdentity windowStart windowEnd nowUnixMS s =
     frame_next plan rule producerEpoch seriesIdentity windowStart windowEnd nowUnixMS None s"

definition NextForEmission :: "CollectorPlan \<Rightarrow> TransmissionRule \<Rightarrow> string \<Rightarrow> FrameEmission \<Rightarrow> FrameSequencer \<Rightarrow>
    (senderErr + SummaryFrameIdentity) \<times> FrameSequencer" where
  "NextForEmission plan rule producerEpoch em s =
     frame_next plan rule producerEpoch (feSeriesIdentity em) (feWindowStartUnixNano em) (feWindowEndUnixNano em)
       (feNowUnixMS em) (Some (feEmittedFull em)) s"

fun allocate :: "CollectorPlan \<Rightarrow> TransmissionRule \<Rightarrow> string \<Rightarrow> FrameEmission list \<Rightarrow> FrameSequencer \<Rightarrow>
    senderErr + SummaryFrameIdentity list \<times> FrameSequencer" where
  "allocate plan rule producerEpoch [] candidate = Inr ([], candidate)"
| "allocate plan rule producerEpoch (em # ems) candidate =
     (case NextForEmission plan rule producerEpoch em candidate of
        (Inl e, _) \<Rightarrow> Inl e
      | (Inr frame, candidate) \<Rightarrow> res_bind (allocate plan rule producerEpoch ems candidate) (\<lambda>(frames, candidate).
          Inr (frame # frames, candidate)))"

text \<open>The batch works on a copy of the lineages, installed only on success.\<close>

definition NextBatchForEmission :: "CollectorPlan \<Rightarrow> TransmissionRule \<Rightarrow> string \<Rightarrow> FrameEmission list \<Rightarrow> FrameSequencer \<Rightarrow>
    (senderErr + SummaryFrameIdentity list) \<times> FrameSequencer" where
  "NextBatchForEmission plan rule producerEpoch emissions s =
     (case allocate plan rule producerEpoch emissions s of
        Inl e \<Rightarrow> (Inl e, s)
      | Inr (frames, candidate) \<Rightarrow> (Inr frames, candidate))"

definition OTLPAttributes :: "SummaryFrameIdentity \<Rightarrow> attrs" where
  "OTLPAttributes f =
     [(''asap.frame.identity_version'', nat_digits (unat (fiIdentityVersion f))),
      (''asap.frame.plan_id'', FormatUint (fiPlanID f)),
      (''asap.frame.plan_version'', FormatUint (fiPlanVersion f)),
      (''asap.frame.backend_compat'', fiBackendCompat f),
      (''asap.frame.materialization'', FormatUint (fiMaterialization f)),
      (''asap.frame.series_identity'', fiSeriesIdentity f),
      (''asap.frame.schema_id'', fiSchemaID f),
      (''asap.frame.producer_id'', fiProducerID f),
      (''asap.frame.producer_epoch'', fiProducerEpoch f),
      (''asap.frame.sequence'', FormatUint (fiSequence f)),
      (''asap.frame.kind'', fiKind f),
      (''asap.frame.encoding'', fiEncoding f)] @
     (if fiCheckpointID f \<noteq> [] then [(''asap.frame.checkpoint_id'', fiCheckpointID f)] else []) @
     (if fiBaseCheckpointID f \<noteq> [] then [(''asap.frame.base_checkpoint_id'', fiBaseCheckpointID f)] else [])"

section \<open>The checksum\<close>

definition stringBytes :: "string \<Rightarrow> bytes" where
  "stringBytes s = map (\<lambda>c. of_nat (of_char c)) s"

text \<open>\<^verbatim>\<open>binary.BigEndian.PutUint32(size[:], uint32(n))\<close>.\<close>

definition be32 :: "nat \<Rightarrow> bytes" where
  "be32 n = [of_nat (n div 2 ^ 24), of_nat (n div 2 ^ 16), of_nat (n div 2 ^ 8), of_nat n]"

definition lookupAttr :: "attrs \<Rightarrow> string \<Rightarrow> string" where
  "lookupAttr a k = (case map_of a k of Some v \<Rightarrow> v | None \<Rightarrow> [])"

definition checksumKey :: string where
  "checksumKey = ''asap.frame.payload_checksum''"

definition canonicalHeader :: "attrs \<Rightarrow> bytes" where
  "canonicalHeader a = concat (map (\<lambda>k. be32 (length k) @ stringBytes k @ be32 (length (lookupAttr a k)) @ stringBytes (lookupAttr a k))
     (sort (filter (\<lambda>k. k \<noteq> checksumKey) (map fst a))))"

text \<open>\<^verbatim>\<open>hex.EncodeToString\<close>.\<close>

definition hexDigit :: "nat \<Rightarrow> char" where
  "hexDigit n = (if n < 10 then char_of (48 + n) else char_of (87 + n))"

definition hexEncode :: "bytes \<Rightarrow> string" where
  "hexEncode bs = concat (map (\<lambda>b. [hexDigit (unat b div 16), hexDigit (unat b mod 16)]) bs)"

definition FrameChecksum :: "(bytes \<Rightarrow> bytes) \<Rightarrow> attrs \<Rightarrow> bytes \<Rightarrow> string" where
  "FrameChecksum sha a payload =
     (let header = canonicalHeader a
      in hexEncode (sha (stringBytes ''ASAP-FRAME-V1'' @ be32 (length header) @ header @ payload)))"

definition SealFrameAttributes :: "(bytes \<Rightarrow> bytes) \<Rightarrow> attrs \<Rightarrow> bytes \<Rightarrow> attrs" where
  "SealFrameAttributes sha a payload =
     (let rest = filter (\<lambda>p. fst p \<noteq> checksumKey) a in rest @ [(checksumKey, FrameChecksum sha a payload)])"

section \<open>The receiver\<close>

datatype receiverErr = ErrFrameAttr string | ErrIncomplete | ErrFrameChecksum | ErrFrameGap | ErrFrameBase | ErrFrameConflict | ErrFrameKind

record receivedFrameState =
  rsSequence :: u64
  rsCheckpoint :: string
  rsFingerprint :: bytes
  rsLastUsed :: u64

record frameReceiver =
  frLineages :: "(frameLineageKey \<times> receivedFrameState) list"
  frClock :: u64

record frameReceipt =
  rcKey :: frameLineageKey
  rcState :: receivedFrameState
  rcFramed :: bool
  rcDuplicate :: bool
  rcLimit :: u64

definition zeroReceived :: receivedFrameState where
  "zeroReceived = \<lparr>rsSequence = 0, rsCheckpoint = [], rsFingerprint = replicate 32 0, rsLastUsed = 0\<rparr>"

definition zeroReceipt :: frameReceipt where
  "zeroReceipt = \<lparr>rcKey = \<lparr>lkPlanID = 0, lkPlanVersion = 0, lkMaterialization = 0, lkSeriesIdentity = [], lkProducerID = [],
     lkProducerEpoch = []\<rparr>, rcState = zeroReceived, rcFramed = False, rcDuplicate = False, rcLimit = 0\<rparr>"

text \<open>\<^verbatim>\<open>strconv.ParseUint(s, 10, 64)\<close>.\<close>

definition isDigit :: "char \<Rightarrow> bool" where
  "isDigit c \<longleftrightarrow> 48 \<le> (of_char c :: nat) \<and> (of_char c :: nat) \<le> 57"

definition digitsValue :: "string \<Rightarrow> nat" where
  "digitsValue s = foldl (\<lambda>n c. 10 * n + (of_char c - 48)) 0 s"

definition ParseUint :: "string \<Rightarrow> u64 option" where
  "ParseUint s = (if s \<noteq> [] \<and> list_all isDigit s \<and> digitsValue s < 2 ^ 64 then Some (of_nat (digitsValue s)) else None)"

definition parseRequiredUint :: "attrs \<Rightarrow> string \<Rightarrow> receiverErr + u64" where
  "parseRequiredUint a name =
     (case ParseUint (lookupAttr a name) of None \<Rightarrow> Inl (ErrFrameAttr name)
      | Some v \<Rightarrow> if v = 0 then Inl (ErrFrameAttr name) else Inr v)"

text \<open>
  \<^verbatim>\<open>strings.ToLower\<close> on ASCII. The result is only compared with a string of hexadecimal digits, which no
  other character is mapped to.
\<close>

definition toLower :: "string \<Rightarrow> string" where
  "toLower s = map (\<lambda>c. if 65 \<le> (of_char c :: nat) \<and> (of_char c :: nat) \<le> 90 then char_of ((of_char c :: nat) + 32) else c) s"

definition receivedKey :: "attrs \<Rightarrow> receiverErr + frameLineageKey \<times> u64" where
  "receivedKey a =
     res_bind (parseRequiredUint a ''asap.frame.plan_id'') (\<lambda>planID.
     res_bind (parseRequiredUint a ''asap.frame.plan_version'') (\<lambda>version.
     res_bind (parseRequiredUint a ''asap.frame.materialization'') (\<lambda>materialization.
     res_bind (parseRequiredUint a ''asap.frame.sequence'') (\<lambda>sequence.
       let key = \<lparr>lkPlanID = planID, lkPlanVersion = version, lkMaterialization = materialization,
             lkSeriesIdentity = lookupAttr a ''asap.frame.series_identity'',
             lkProducerID = lookupAttr a ''asap.frame.producer_id'', lkProducerEpoch = lookupAttr a ''asap.frame.producer_epoch''\<rparr>
       in if lkSeriesIdentity key = [] \<or> lkProducerID key = [] \<or> lkProducerEpoch key = [] then Inl ErrIncomplete
          else Inr (key, sequence)))))"

definition previousState :: "frameReceiver \<Rightarrow> frameLineageKey \<Rightarrow> receivedFrameState" where
  "previousState r key = (case map_of (frLineages r) key of Some st \<Rightarrow> st | None \<Rightarrow> zeroReceived)"

definition setLineage :: "frameLineageKey \<Rightarrow> receivedFrameState \<Rightarrow> frameReceiver \<Rightarrow> frameReceiver" where
  "setLineage key st r = r\<lparr>frLineages := (key, st) # filter (\<lambda>p. fst p \<noteq> key) (frLineages r)\<rparr>"

definition prepare :: "(bytes \<Rightarrow> bytes) \<Rightarrow> SketchEnvelope \<Rightarrow> u64 \<Rightarrow> frameReceiver \<Rightarrow> (receiverErr + frameReceipt) \<times> frameReceiver" where
  "prepare sha env limit r =
     (let a = eFrameAttributes env
      in if a = [] then (Inr zeroReceipt, r)
         else case receivedKey a of
             Inl e \<Rightarrow> (Inl e, r)
           | Inr (key, sequence) \<Rightarrow>
               let want = toLower (lookupAttr a checksumKey)
               in if want = [] \<or> want \<noteq> FrameChecksum sha a (ePayload env) then (Inl ErrFrameChecksum, r)
                  else
                    let fingerprint = sha (stringBytes want @ [0] @ ePayload env);
                        r = r\<lparr>frClock := frClock r + 1\<rparr>;
                        previous = previousState r key
                    in if sequence = rsSequence previous \<and> sequence \<noteq> 0 then
                         if rsFingerprint previous \<noteq> fingerprint then (Inl ErrFrameConflict, r)
                         else (Inr (zeroReceipt\<lparr>rcFramed := True, rcDuplicate := True\<rparr>),
                               setLineage key (previous\<lparr>rsLastUsed := frClock r\<rparr>) r)
                       else if sequence \<noteq> rsSequence previous + 1 then (Inl ErrFrameGap, r)
                       else
                         let kind = lookupAttr a ''asap.frame.kind'';
                             next = \<lparr>rsSequence = sequence, rsCheckpoint = rsCheckpoint previous, rsFingerprint = fingerprint,
                               rsLastUsed = frClock r\<rparr>;
                             ok = (\<lambda>st. (Inr \<lparr>rcKey = key, rcState = st, rcFramed = True, rcDuplicate = False,
                               rcLimit = (if limit = 0 then 100000 else limit)\<rparr>, r))
                         in if kind = ''full'' then
                              let cp = lookupAttr a ''asap.frame.checkpoint_id''
                              in if cp = [] then (Inl ErrFrameBase, r) else ok (next\<lparr>rsCheckpoint := cp\<rparr>)
                            else if kind = ''delta'' then
                              if rsCheckpoint previous = [] \<or> lookupAttr a ''asap.frame.base_checkpoint_id'' \<noteq> rsCheckpoint previous
                              then (Inl ErrFrameBase, r) else ok next
                            else (Inl ErrFrameKind, r))"

text \<open>The least recently used lineage; \<open>None\<close> leaves the zero key, which is in no map.\<close>

definition oldestLineage :: "(frameLineageKey \<times> receivedFrameState) list \<Rightarrow> frameLineageKey option" where
  "oldestLineage ls = fst (fold (\<lambda>(k, st) (oldest, use). if rsLastUsed st < use then (Some k, rsLastUsed st) else (oldest, use)) ls
     (None, - 1))"

definition commit :: "frameReceipt \<Rightarrow> frameReceiver \<Rightarrow> frameReceiver" where
  "commit receipt r =
     (if \<not> rcFramed receipt \<or> rcDuplicate receipt then r
      else let r = (if map_of (frLineages r) (rcKey receipt) = None \<and> rcLimit receipt \<le> of_nat (length (frLineages r))
             then (case oldestLineage (frLineages r) of None \<Rightarrow> r
               | Some k \<Rightarrow> r\<lparr>frLineages := filter (\<lambda>p. fst p \<noteq> k) (frLineages r)\<rparr>) else r)
           in setLineage (rcKey receipt) (rcState receipt) r)"

section \<open>Encoding facts\<close>

lemma nat_digits_digits: "nat_digits n \<noteq> [] \<and> list_all isDigit (nat_digits n) \<and> digitsValue (nat_digits n) = n"
proof (induction n rule: nat_digits.induct)
  case (1 n)
  have digit: "(of_char (char_of (48 + k) :: char) :: nat) = 48 + k" if "k < 10" for k
    using that by (simp add: of_char_of)
  have m: "n mod 10 < 10" by simp
  show ?case
  proof (cases "n < 10")
    case True
    with digit [of n] show ?thesis by (simp add: nat_digits.simps [of n] isDigit_def digitsValue_def)
  next
    case False
    with 1 digit [OF m] show ?thesis by (simp add: nat_digits.simps [of n] isDigit_def digitsValue_def)
  qed
qed

lemma ParseUint_FormatUint [simp, roundtrip]: "ParseUint (FormatUint v) = Some v"
  using nat_digits_digits [of "unat v"] unat_u64_less [of v] by (simp add: ParseUint_def FormatUint_def)

lemma hexDigit_lower: "n < 16 \<Longrightarrow> toLower [hexDigit n] = [hexDigit n]"
  by (auto simp: toLower_def hexDigit_def of_char_of)

lemma toLower_append: "toLower (s @ t) = toLower s @ toLower t"
  by (simp add: toLower_def)

lemma toLower_hexEncode [simp]: "toLower (hexEncode bs) = hexEncode bs"
proof (induction bs)
  case (Cons b bs)
  have b: "unat b div 16 < 16" "unat b mod 16 < 16"
    using unsigned_less [of b, where ?'a = nat] by auto
  have "hexEncode (b # bs) = [hexDigit (unat b div 16)] @ [hexDigit (unat b mod 16)] @ hexEncode bs"
    by (simp add: hexEncode_def)
  then show ?case by (simp only: toLower_append hexDigit_lower [OF b(1)] hexDigit_lower [OF b(2)] Cons.IH)
qed (simp add: toLower_def hexEncode_def)

lemma hexEncode_Nil [simp]: "hexEncode bs = [] \<longleftrightarrow> bs = []"
  by (cases bs) (simp_all add: hexEncode_def)

lemma lookupAttr_seal:
  "lookupAttr (SealFrameAttributes sha a p) k = (if k = checksumKey then FrameChecksum sha a p else lookupAttr a k)"
proof -
  have "map_of (filter (\<lambda>p. fst p \<noteq> checksumKey) a) k = (if k = checksumKey then None else map_of a k)"
    by (induction a) auto
  then show ?thesis
    by (auto simp: SealFrameAttributes_def lookupAttr_def map_add_def Let_def split: option.splits)
qed

lemma seal_not_Nil [simp]: "SealFrameAttributes sha a p \<noteq> []"
  by (simp add: SealFrameAttributes_def Let_def)

text \<open>Sealing does not disturb what is sealed.\<close>

lemma FrameChecksum_seal: "FrameChecksum sha (SealFrameAttributes sha' a p') p = FrameChecksum sha a p"
proof -
  have keys: "filter (\<lambda>k. k \<noteq> checksumKey) (map fst (SealFrameAttributes sha' a p')) = filter (\<lambda>k. k \<noteq> checksumKey) (map fst a)"
    by (simp add: SealFrameAttributes_def Let_def filter_map comp_def)
  have "canonicalHeader (SealFrameAttributes sha' a p') = canonicalHeader a"
    unfolding canonicalHeader_def keys by (rule arg_cong [where f = concat], rule map_cong) (auto simp: lookupAttr_seal)
  then show ?thesis by (simp add: FrameChecksum_def)
qed

text \<open>
  The checksum is canonical: it does not depend on the order in which the attributes are
  listed, and not on a checksum already attached.
\<close>
theorem FrameChecksum_canonical:
  assumes "distinct (map fst a)" "mset b = mset a"
  shows "FrameChecksum sha b p = FrameChecksum sha a p \<and> FrameChecksum sha (SealFrameAttributes sha b p) p = FrameChecksum sha a p"
proof -
  have "mset (map fst b) = mset (map fst a)" using assms(2) by simp
  from mset_eq_imp_distinct_iff [OF this] assms(1) have "distinct (map fst b)" by simp
  then have "map_of b = map_of a"
    using map_of_inject_set [of b a] assms(1) mset_eq_setD [OF assms(2)] by simp
  then have look: "lookupAttr b k = lookupAttr a k" for k by (simp add: lookupAttr_def)
  have "sort (filter (\<lambda>k. k \<noteq> checksumKey) (map fst b)) = sort (filter (\<lambda>k. k \<noteq> checksumKey) (map fst a))"
    using assms(2) by (intro properties_for_sort) (simp_all add: mset_filter)
  then have "canonicalHeader b = canonicalHeader a" by (simp add: canonicalHeader_def look)
  then show ?thesis by (simp add: FrameChecksum_seal) (simp add: FrameChecksum_def)
qed

theorem FrameChecksum_canonical_witness:
  "FrameChecksum rev [(''b'', ''2''), (''a'', ''1'')] [7] = FrameChecksum rev [(''a'', ''1''), (''b'', ''2'')] [7]"
  using FrameChecksum_canonical [of "[(''a'', ''1''), (''b'', ''2'')]" "[(''b'', ''2''), (''a'', ''1'')]" rev "[7]"]
  by (simp add: add_mset_commute)

section \<open>The sender's numbering\<close>

definition senderState :: "FrameSequencer \<Rightarrow> frameLineageKey \<Rightarrow> frameLineageState" where
  "senderState s key = (case s key of Some st \<Rightarrow> st | None \<Rightarrow> zeroLineage)"

text \<open>What one successful allocation does: the next number, and a checkpoint that is renewed by a full frame only.\<close>

lemma frame_next_ok:
  assumes "frame_next plan rule epoch series ws we now em s = (Inr f, s')"
  defines "key \<equiv> lineageOf plan rule epoch series"
  shows "s' = s(key \<mapsto> senderState s' key) \<and> epoch \<noteq> [] \<and> series \<noteq> [] \<and> trProducerID rule = cpCollectorID plan \<and>
    lsSequence (senderState s' key) = lsSequence (senderState s key) + 1 \<and>
    (\<exists>full. f = frameOf plan rule epoch series ws we (senderState s' key) full \<and>
      (if full then lsCheckpointID (senderState s' key) \<noteq> []
       else lsSequence (senderState s' key) \<noteq> 1 \<and> lsCheckpointID (senderState s' key) = lsCheckpointID (senderState s key)))"
proof -
  define st where "st = (senderState s key)\<lparr>lsSequence := lsSequence (senderState s key) + 1\<rparr>"
  define required where "required \<longleftrightarrow> lsSequence st = 1 \<or> trMode rule = ''full'' \<or> checkpointDue rule st now"
  define full where "full = (case em of Some b \<Rightarrow> b | None \<Rightarrow> required)"
  define st' where "st' = (if full then st\<lparr>lsCheckpointID := checkpointName (trProducerID rule) epoch ws (lsSequence st), lsCheckpointAtMS := now\<rparr> else st)"
  have next_eq: "frame_next plan rule epoch series ws we now em s =
    (if epoch = [] \<or> series = [] \<or> we \<le> ws \<or> trProducerID rule \<noteq> cpCollectorID plan then (Inl ErrInvalidLineage, s)
     else if \<not> list_ex (\<lambda>candidate. ruleDeepEqual candidate rule) (cpTransmissionRules plan) then (Inl ErrForeignRule, s)
     else if required \<and> em = Some False then (Inl ErrDeltaForFull, s)
     else (Inr (frameOf plan rule epoch series ws we st' full), s(key \<mapsto> st')))"
    by (simp only: frame_next_def Let_def st'_def full_def required_def st_def senderState_def key_def)
  from assms(1) have g: "epoch \<noteq> []" "series \<noteq> []" "trProducerID rule = cpCollectorID plan" "\<not> (required \<and> em = Some False)"
    "f = frameOf plan rule epoch series ws we st' full" "s' = s(key \<mapsto> st')"
    unfolding next_eq by (simp_all split: if_splits)
  have "senderState s' key = st'" using g(6) by (simp add: senderState_def)
  moreover have "lsSequence st' = lsSequence (senderState s key) + 1" by (simp add: st'_def st_def)
  moreover have "if full then lsCheckpointID st' \<noteq> [] else lsSequence st' \<noteq> 1 \<and> lsCheckpointID st' = lsCheckpointID (senderState s key)"
    using g(4) by (auto simp: st'_def st_def full_def required_def checkpointName_def split: option.splits)
  ultimately show ?thesis
    using g(1,2,3) g(5) by (intro conjI exI [of _ full]) (simp_all only: g(6) not_False_eq_True)
qed

text \<open>The specification of a lineage's frames: every delta is against the latest full frame before it.\<close>

fun deltasBound :: "string \<Rightarrow> SummaryFrameIdentity list \<Rightarrow> bool" where
  "deltasBound cp [] = True"
| "deltasBound cp (f # fs) =
     (if fiKind f = ''full'' then fiCheckpointID f \<noteq> [] \<and> deltasBound (fiCheckpointID f) fs
      else fiKind f = ''delta'' \<and> cp \<noteq> [] \<and> fiBaseCheckpointID f = cp \<and> deltasBound cp fs)"

definition seqFrom :: "u64 \<Rightarrow> nat \<Rightarrow> u64 list" where
  "seqFrom n k = map (\<lambda>i. n + of_nat (Suc i)) [0..<k]"

lemma seqFrom_Suc [simp]: "seqFrom n (Suc k) = (n + 1) # seqFrom (n + 1) k" "seqFrom n 0 = []"
  unfolding seqFrom_def by (simp_all add: upt_conv_Cons map_Suc_upt [symmetric] comp_def algebra_simps del: upt_Suc)

lemma allocate_spec:
  assumes "allocate plan rule epoch ems s = Inr (frames, s')" "\<forall>e \<in> set ems. feSeriesIdentity e = series"
    "lsSequence (senderState s (lineageOf plan rule epoch series)) \<noteq> 0 \<longrightarrow> lsCheckpointID (senderState s (lineageOf plan rule epoch series)) \<noteq> []"
    "unat (lsSequence (senderState s (lineageOf plan rule epoch series))) + length ems < 2 ^ 64"
  shows "map fiSequence frames = seqFrom (lsSequence (senderState s (lineageOf plan rule epoch series))) (length ems) \<and>
    deltasBound (lsCheckpointID (senderState s (lineageOf plan rule epoch series))) frames"
  using assms
proof (induction ems arbitrary: s frames)
  case (Cons e ems)
  let ?key = "lineageOf plan rule epoch series"
  from Cons.prems(1) obtain f s1 fs where n: "NextForEmission plan rule epoch e s = (Inr f, s1)"
    and a: "allocate plan rule epoch ems s1 = Inr (fs, s')" "frames = f # fs"
    by (auto simp: res_bind_eq_Inr_iff split: prod.splits sum.splits)
  have "feSeriesIdentity e = series" using Cons.prems(2) by simp
  from frame_next_ok [OF n [unfolded NextForEmission_def this]] obtain full where
    nz: "lsSequence (senderState s1 ?key) = lsSequence (senderState s ?key) + 1"
    and f: "f = frameOf plan rule epoch series (feWindowStartUnixNano e) (feWindowEndUnixNano e) (senderState s1 ?key) full"
    and full: "if full then lsCheckpointID (senderState s1 ?key) \<noteq> []
       else lsSequence (senderState s1 ?key) \<noteq> 1 \<and> lsCheckpointID (senderState s1 ?key) = lsCheckpointID (senderState s ?key)"
    by auto
  have un: "unat (lsSequence (senderState s1 ?key)) = unat (lsSequence (senderState s ?key)) + 1"
    using Cons.prems(4) unfolding nz by (simp add: unat_word_ariths(1))
  then have ne: "lsSequence (senderState s1 ?key) \<noteq> 0" by (metis add_is_0 one_neq_zero unat_0)
  have cp: "lsCheckpointID (senderState s1 ?key) \<noteq> []"
    using full Cons.prems(3) nz by (auto split: if_splits)
  from Cons.IH [OF a(1)] Cons.prems(2,4) cp un
  have "map fiSequence fs = seqFrom (lsSequence (senderState s1 ?key)) (length ems) \<and> deltasBound (lsCheckpointID (senderState s1 ?key)) fs"
    by simp
  with full a(2) cp nz f show ?case by (auto simp: frameOf_def)
qed simp

text \<open>
  Frames of a series are numbered without gaps and deltas are anchored: a batch for one
  series takes the numbers after the last one used, its first frame ever is full, and each delta names
  the checkpoint of the latest full frame before it; a batch that fails changes no lineage.
\<close>
theorem batch_numbering:
  assumes "\<forall>e \<in> set ems. feSeriesIdentity e = series" "key = lineageOf plan rule epoch series"
    "lsSequence (senderState s key) \<noteq> 0 \<longrightarrow> lsCheckpointID (senderState s key) \<noteq> []"
    "unat (lsSequence (senderState s key)) + length ems < 2 ^ 64"
  shows "case NextBatchForEmission plan rule epoch ems s of
      (Inl e, s') \<Rightarrow> s' = s
    | (Inr frames, s') \<Rightarrow> map fiSequence frames = seqFrom (lsSequence (senderState s key)) (length ems) \<and>
        deltasBound (lsCheckpointID (senderState s key)) frames"
  using assms allocate_spec [of plan rule epoch ems s _ _ series]
  by (auto simp: NextBatchForEmission_def split: sum.splits)

lemma sampleRule_equal: "ruleDeepEqual (sampleRule n) (sampleRule n)"
  by (simp add: ruleDeepEqual_def policyEqual_def sampleRule_def samplePolicy_def f64_eq_def f64_isnan_def f64_exp_def)

theorem batch_numbering_witness:
  "let e = \<lparr>feSeriesIdentity = ''x'', feWindowStartUnixNano = 0, feWindowEndUnixNano = 60, feNowUnixMS = 1, feEmittedFull = True\<rparr>
   in case NextBatchForEmission (samplePlan 60) (sampleRule 60) ''e1'' [e, e, e] Map.empty of
      (Inl _, _) \<Rightarrow> False
    | (Inr frames, _) \<Rightarrow> map fiSequence frames = [1, 2, 3]"
proof -
  let ?e = "\<lparr>feSeriesIdentity = ''x'', feWindowStartUnixNano = 0, feWindowEndUnixNano = 60, feNowUnixMS = 1, feEmittedFull = True\<rparr>"
  have ok: "\<exists>f s'. NextForEmission (samplePlan 60) (sampleRule 60) ''e1'' ?e s = (Inr f, s')" for s
    using sampleRule_equal [of 60] by (simp add: NextForEmission_def frame_next_def samplePlan_def Let_def) (simp add: sampleRule_def)
  have "\<exists>fs s'. allocate (samplePlan 60) (sampleRule 60) ''e1'' es s = Inr (fs, s')" if "set es \<subseteq> {?e}" for es s
    using that
  proof (induction es arbitrary: s)
    case (Cons x es)
    obtain f s1 where "NextForEmission (samplePlan 60) (sampleRule 60) ''e1'' ?e s = (Inr f, s1)" using ok by blast
    with Cons.IH [of s1] Cons.prems show ?case by auto
  qed simp
  from this [of "[?e, ?e, ?e]" Map.empty] obtain fs s' where
    a: "allocate (samplePlan 60) (sampleRule 60) ''e1'' [?e, ?e, ?e] Map.empty = Inr (fs, s')" by auto
  have b: "NextBatchForEmission (samplePlan 60) (sampleRule 60) ''e1'' [?e, ?e, ?e] Map.empty = (Inr fs, s')"
    by (simp only: NextBatchForEmission_def a sum.case prod.case)
  have "map fiSequence fs = [1, 2, 3]"
    using batch_numbering [of "[?e, ?e, ?e]" "''x''" "lineageOf (samplePlan 60) (sampleRule 60) ''e1'' ''x''"
        "samplePlan 60" "sampleRule 60" "''e1''" Map.empty]
    unfolding b by (simp add: senderState_def zeroLineage_def numeral_3_eq_3)
  then show ?thesis unfolding Let_def b by simp
qed

section \<open>Sender and receiver\<close>

lemma OTLP_lookup:
  "lookupAttr (OTLPAttributes f) ''asap.frame.plan_id'' = FormatUint (fiPlanID f)"
  "lookupAttr (OTLPAttributes f) ''asap.frame.plan_version'' = FormatUint (fiPlanVersion f)"
  "lookupAttr (OTLPAttributes f) ''asap.frame.materialization'' = FormatUint (fiMaterialization f)"
  "lookupAttr (OTLPAttributes f) ''asap.frame.sequence'' = FormatUint (fiSequence f)"
  "lookupAttr (OTLPAttributes f) ''asap.frame.series_identity'' = fiSeriesIdentity f"
  "lookupAttr (OTLPAttributes f) ''asap.frame.producer_id'' = fiProducerID f"
  "lookupAttr (OTLPAttributes f) ''asap.frame.producer_epoch'' = fiProducerEpoch f"
  "lookupAttr (OTLPAttributes f) ''asap.frame.kind'' = fiKind f"
  "lookupAttr (OTLPAttributes f) ''asap.frame.checkpoint_id'' = fiCheckpointID f"
  "lookupAttr (OTLPAttributes f) ''asap.frame.base_checkpoint_id'' = fiBaseCheckpointID f"
  by (simp_all add: OTLPAttributes_def lookupAttr_def)

text \<open>The envelope the host sends for a frame: any envelope whose attributes are the sealed identity.\<close>

definition carries :: "(bytes \<Rightarrow> bytes) \<Rightarrow> SummaryFrameIdentity \<Rightarrow> SketchEnvelope \<Rightarrow> bool" where
  "carries sha f env \<longleftrightarrow> eFrameAttributes env = SealFrameAttributes sha (OTLPAttributes f) (ePayload env)"

lemma sealed_lookup:
  "k \<noteq> checksumKey \<Longrightarrow> lookupAttr (SealFrameAttributes sha a p) k = lookupAttr a k"
  by (simp add: lookupAttr_seal)

lemma receivedKey_carries:
  assumes "fiPlanID f \<noteq> 0" "fiPlanVersion f \<noteq> 0" "fiMaterialization f \<noteq> 0" "fiSequence f \<noteq> 0"
    "fiSeriesIdentity f \<noteq> []" "fiProducerID f \<noteq> []" "fiProducerEpoch f \<noteq> []"
  shows "receivedKey (SealFrameAttributes sha (OTLPAttributes f) p) =
    Inr (\<lparr>lkPlanID = fiPlanID f, lkPlanVersion = fiPlanVersion f, lkMaterialization = fiMaterialization f,
      lkSeriesIdentity = fiSeriesIdentity f, lkProducerID = fiProducerID f, lkProducerEpoch = fiProducerEpoch f\<rparr>, fiSequence f)"
  using assms by (simp add: receivedKey_def parseRequiredUint_def sealed_lookup checksumKey_def OTLP_lookup Let_def)

definition frameKey :: "SummaryFrameIdentity \<Rightarrow> frameLineageKey" where
  "frameKey f = \<lparr>lkPlanID = fiPlanID f, lkPlanVersion = fiPlanVersion f, lkMaterialization = fiMaterialization f,
     lkSeriesIdentity = fiSeriesIdentity f, lkProducerID = fiProducerID f, lkProducerEpoch = fiProducerEpoch f\<rparr>"

definition validFrame :: "SummaryFrameIdentity \<Rightarrow> bool" where
  "validFrame f \<longleftrightarrow> fiPlanID f \<noteq> 0 \<and> fiPlanVersion f \<noteq> 0 \<and> fiMaterialization f \<noteq> 0 \<and> fiSequence f \<noteq> 0 \<and>
     fiSeriesIdentity f \<noteq> [] \<and> fiProducerID f \<noteq> [] \<and> fiProducerEpoch f \<noteq> []"

definition fingerprintOf :: "(bytes \<Rightarrow> bytes) \<Rightarrow> SummaryFrameIdentity \<Rightarrow> SketchEnvelope \<Rightarrow> bytes" where
  "fingerprintOf sha f env = sha (stringBytes (FrameChecksum sha (OTLPAttributes f) (ePayload env)) @ [0] @ ePayload env)"

text \<open>The receiver's decision on a frame that a sender sealed.\<close>

lemma prepare_carries:
  fixes r :: frameReceiver
  assumes "carries sha f env" "validFrame f" "\<forall>x. length (sha x) = 32"
  defines "previous \<equiv> previousState r (frameKey f)" and "r1 \<equiv> r\<lparr>frClock := frClock r + 1\<rparr>"
  shows "prepare sha env limit r =
    (if fiSequence f = rsSequence previous then
       if rsFingerprint previous \<noteq> fingerprintOf sha f env then (Inl ErrFrameConflict, r1)
       else (Inr (zeroReceipt\<lparr>rcFramed := True, rcDuplicate := True\<rparr>), setLineage (frameKey f) (previous\<lparr>rsLastUsed := frClock r1\<rparr>) r1)
     else if fiSequence f \<noteq> rsSequence previous + 1 then (Inl ErrFrameGap, r1)
     else
       let next = \<lparr>rsSequence = fiSequence f, rsCheckpoint = rsCheckpoint previous, rsFingerprint = fingerprintOf sha f env, rsLastUsed = frClock r1\<rparr>;
           ok = (\<lambda>st. (Inr \<lparr>rcKey = frameKey f, rcState = st, rcFramed = True, rcDuplicate = False, rcLimit = (if limit = 0 then 100000 else limit)\<rparr>, r1))
       in if fiKind f = ''full'' then if fiCheckpointID f = [] then (Inl ErrFrameBase, r1) else ok (next\<lparr>rsCheckpoint := fiCheckpointID f\<rparr>)
          else if fiKind f = ''delta'' then
            if rsCheckpoint previous = [] \<or> fiBaseCheckpointID f \<noteq> rsCheckpoint previous then (Inl ErrFrameBase, r1) else ok next
          else (Inl ErrFrameKind, r1))"
proof -
  let ?a = "SealFrameAttributes sha (OTLPAttributes f) (ePayload env)"
  have key: "receivedKey ?a = Inr (frameKey f, fiSequence f)"
    using receivedKey_carries [of f sha] assms(2) by (simp add: validFrame_def frameKey_def)
  have low: "toLower (lookupAttr ?a checksumKey) = FrameChecksum sha (OTLPAttributes f) (ePayload env)"
    by (simp add: lookupAttr_seal) (simp add: FrameChecksum_def Let_def)
  have "length (sha x) \<noteq> 0" for x using assms(3) by simp
  then have ne: "FrameChecksum sha (OTLPAttributes f) (ePayload env) \<noteq> []" by (simp add: FrameChecksum_def Let_def)
  have prev: "previousState r1 (frameKey f) = previous" by (simp add: previous_def r1_def previousState_def)
  have look: "lookupAttr ?a ''asap.frame.kind'' = fiKind f" "lookupAttr ?a ''asap.frame.checkpoint_id'' = fiCheckpointID f"
    "lookupAttr ?a ''asap.frame.base_checkpoint_id'' = fiBaseCheckpointID f"
    by (simp_all add: sealed_lookup checksumKey_def OTLP_lookup)
  have "fiSequence f \<noteq> 0" using assms(2) by (simp add: validFrame_def)
  then show ?thesis
    unfolding prepare_def assms(1) [unfolded carries_def] Let_def key low FrameChecksum_seal look r1_def [symmetric]
    by (simp add: ne prev fingerprintOf_def)
qed

text \<open>The two ends of a lineage agree.\<close>

definition inSync :: "FrameSequencer \<Rightarrow> frameReceiver \<Rightarrow> frameLineageKey \<Rightarrow> bool" where
  "inSync s r key \<longleftrightarrow> rsSequence (previousState r key) = lsSequence (senderState s key) \<and>
     rsCheckpoint (previousState r key) = lsCheckpointID (senderState s key) \<and>
     (lsSequence (senderState s key) \<noteq> 0 \<longrightarrow> lsCheckpointID (senderState s key) \<noteq> [])"

definition validPlan :: "CollectorPlan \<Rightarrow> TransmissionRule \<Rightarrow> bool" where
  "validPlan plan rule \<longleftrightarrow> pePlanID (cpEnvelope plan) \<noteq> 0 \<and> pePlanVersion (cpEnvelope plan) \<noteq> 0 \<and> trMaterialization rule \<noteq> 0 \<and>
     cpCollectorID plan \<noteq> []"

lemma frame_next_valid:
  assumes "frame_next plan rule epoch series ws we now em s = (Inr f, s')" "validPlan plan rule"
    "lsSequence (senderState s (lineageOf plan rule epoch series)) + 1 \<noteq> 0"
  shows "validFrame f \<and> frameKey f = lineageOf plan rule epoch series"
  using frame_next_ok [OF assms(1)] assms(2,3)
  by (auto simp: frameOf_def validFrame_def frameKey_def lineageOf_def validPlan_def)

lemma previousState_setLineage: "previousState (setLineage key st r) k = (if k = key then st else previousState r k)"
proof -
  have "map_of (filter (\<lambda>p. fst p \<noteq> key) xs) k = (if k = key then None else map_of xs k)" for xs :: "(frameLineageKey \<times> receivedFrameState) list"
    by (induction xs) auto
  then show ?thesis by (simp add: previousState_def setLineage_def)
qed

lemma previousState_commit:
  "rcFramed rc \<Longrightarrow> \<not> rcDuplicate rc \<Longrightarrow> previousState (commit rc r) (rcKey rc) = rcState rc"
  by (simp add: commit_def previousState_setLineage Let_def)

definition acceptedState :: "(bytes \<Rightarrow> bytes) \<Rightarrow> SummaryFrameIdentity \<Rightarrow> SketchEnvelope \<Rightarrow> string \<Rightarrow> u64 \<Rightarrow> receivedFrameState" where
  "acceptedState sha f env cp clock = \<lparr>rsSequence = fiSequence f, rsCheckpoint = cp, rsFingerprint = fingerprintOf sha f env, rsLastUsed = clock\<rparr>"

lemma deliver_accept:
  assumes "frame_next plan rule epoch series ws we now em s = (Inr f, s')" "key = lineageOf plan rule epoch series"
    "validPlan plan rule" "inSync s r key" "lsSequence (senderState s key) + 1 \<noteq> 0"
    "carries sha f env" "\<forall>x. length (sha x) = 32"
  shows "prepare sha env limit r = (Inr \<lparr>rcKey = key, rcState = acceptedState sha f env (lsCheckpointID (senderState s' key)) (frClock r + 1),
      rcFramed = True, rcDuplicate = False, rcLimit = (if limit = 0 then 100000 else limit)\<rparr>, r\<lparr>frClock := frClock r + 1\<rparr>) \<and>
    validFrame f \<and> frameKey f = key \<and> fiSequence f = lsSequence (senderState s' key) \<and> lsCheckpointID (senderState s' key) \<noteq> []"
proof -
  have vf: "validFrame f" and fk: "frameKey f = key"
    using frame_next_valid [OF assms(1,3) assms(5) [unfolded assms(2)]] assms(2) by auto
  from frame_next_ok [OF assms(1)] assms(2) obtain full where
    seq: "lsSequence (senderState s' key) = lsSequence (senderState s key) + 1"
    and f: "f = frameOf plan rule epoch series ws we (senderState s' key) full"
    and full: "if full then lsCheckpointID (senderState s' key) \<noteq> []
       else lsSequence (senderState s' key) \<noteq> 1 \<and> lsCheckpointID (senderState s' key) = lsCheckpointID (senderState s key)"
    by auto
  have sf: "fiSequence f = lsSequence (senderState s' key)" "fiKind f = (if full then ''full'' else ''delta'')"
    "fiCheckpointID f = (if full then lsCheckpointID (senderState s' key) else [])"
    "fiBaseCheckpointID f = (if full then [] else lsCheckpointID (senderState s' key))"
    by (simp_all add: f frameOf_def)
  have prev: "rsSequence (previousState r key) = lsSequence (senderState s key)"
    "rsCheckpoint (previousState r key) = lsCheckpointID (senderState s key)" using assms(4) by (auto simp: inSync_def)
  have cp: "lsCheckpointID (senderState s' key) \<noteq> []"
    using full seq assms(4,5) by (auto simp: inSync_def split: if_splits)
  then have "prepare sha env limit r = (Inr \<lparr>rcKey = key, rcState = acceptedState sha f env (lsCheckpointID (senderState s' key)) (frClock r + 1),
      rcFramed = True, rcDuplicate = False, rcLimit = (if limit = 0 then 100000 else limit)\<rparr>, r\<lparr>frClock := frClock r + 1\<rparr>)"
    using full seq
    by (cases full) (simp_all add: prepare_carries [OF assms(6) vf assms(7)] fk prev sf acceptedState_def Let_def)
  then show ?thesis using vf fk sf(1) cp by simp
qed

lemma redeliver_duplicate:
  assumes "carries sha f env" "validFrame f" "\<forall>x. length (sha x) = 32" "previousState r (frameKey f) = acceptedState sha f env cp c"
  shows "\<exists>rc r'. prepare sha env limit r = (Inr rc, r') \<and> rcDuplicate rc \<and> commit rc r' = r' \<and>
    rsSequence (previousState r' (frameKey f)) = fiSequence f \<and> rsCheckpoint (previousState r' (frameKey f)) = cp"
  by (simp add: prepare_carries [OF assms(1-3)] assms(4) previousState_setLineage commit_def) (simp add: acceptedState_def)

text \<open>
  Delivery keeps both ends in step. If a producer and the receiver agree on a lineage, then
  the next frame the producer's sequencer allocates, sealed and delivered in any envelope, is accepted
  with its delta base known, whether full or delta, and committing it makes both agree again; if it is
  delivered once more it is recognised as a duplicate and changes neither number nor checkpoint.
\<close>
lemma deliver_in_sync:
  assumes "frame_next plan rule epoch series ws we now em s = (Inr f, s')" "key = lineageOf plan rule epoch series"
    "validPlan plan rule" "inSync s r key" "lsSequence (senderState s key) + 1 \<noteq> 0"
    "carries sha f env" "\<forall>x. length (sha x) = 32"
  shows "\<exists>rc r'. prepare sha env limit r = (Inr rc, r') \<and> rcFramed rc \<and> \<not> rcDuplicate rc \<and> rcKey rc = key \<and>
    inSync s' (commit rc r') key \<and>
    (\<exists>rc2 r2. prepare sha env limit (commit rc r') = (Inr rc2, r2) \<and> rcDuplicate rc2 \<and> inSync s' (commit rc2 r2) key)"
proof -
  note acc = deliver_accept [OF assms, of limit]
  let ?rc = "\<lparr>rcKey = key, rcState = acceptedState sha f env (lsCheckpointID (senderState s' key)) (frClock r + 1),
      rcFramed = True, rcDuplicate = False, rcLimit = (if limit = 0 then 100000 else limit)\<rparr>"
  let ?r = "commit ?rc (r\<lparr>frClock := frClock r + 1\<rparr>)"
  have st: "previousState ?r (frameKey f) = acceptedState sha f env (lsCheckpointID (senderState s' key)) (frClock r + 1)"
    using previousState_commit [of ?rc "r\<lparr>frClock := frClock r + 1\<rparr>"] acc by simp
  have vf: "validFrame f" using acc by simp
  from redeliver_duplicate [OF assms(6) vf assms(7) st, of limit] obtain rc2 r2 where
    "prepare sha env limit ?r = (Inr rc2, r2)" "rcDuplicate rc2" "inSync s' (commit rc2 r2) key"
    using acc by (auto simp: inSync_def)
  moreover have "inSync s' ?r key" using st acc by (simp add: inSync_def acceptedState_def)
  ultimately show ?thesis using acc by auto
qed

definition sampleEnvelope :: SketchEnvelope where
  "sampleEnvelope = \<lparr>eFrameAttributes = [], eSchemaVersion = 1, eSketchType = SketchTypeUnspecified, eAggKind = AggKindSum,
         eAggID = 7, eResourceLabels = [], eLabels = [], eWindowStartMs = 0, eWindowEndMs = 60,
         eEncoding = EncodingProtoFull, ePayload = [1, 2], eMetricName = [], eCount = 3, eTemporality = 1, eRelativeAccuracy = 0\<rparr>"

text \<open>
  A session seen from one series: an emission of it is allocated, sealed over its payload and handed to the receiver, some of them (flag \<open>True\<close>)
  twice; in between, envelopes of any other origin reach the same receiver. The result lists the receiver's errors on the frames of the series, with
  the states of both ends.
\<close>

datatype sessionStep = Emission FrameEmission SketchEnvelope bool | Other SketchEnvelope

definition sealedEnvelope :: "(bytes \<Rightarrow> bytes) \<Rightarrow> SummaryFrameIdentity \<Rightarrow> SketchEnvelope \<Rightarrow> SketchEnvelope" where
  "sealedEnvelope sha f env = env\<lparr>eFrameAttributes := SealFrameAttributes sha (OTLPAttributes f) (ePayload env)\<rparr>"

definition receive_frame :: "(bytes \<Rightarrow> bytes) \<Rightarrow> u64 \<Rightarrow> SketchEnvelope \<Rightarrow> frameReceiver \<Rightarrow> receiverErr list \<times> frameReceiver" where
  "receive_frame sha limit env r = (case prepare sha env limit r of (Inl e, r) \<Rightarrow> ([e], r) | (Inr rc, r) \<Rightarrow> ([], commit rc r))"

fun session :: "(bytes \<Rightarrow> bytes) \<Rightarrow> u64 \<Rightarrow> CollectorPlan \<Rightarrow> TransmissionRule \<Rightarrow> string \<Rightarrow> sessionStep list \<Rightarrow>
    FrameSequencer \<times> frameReceiver \<Rightarrow> receiverErr list \<times> FrameSequencer \<times> frameReceiver" where
  "session sha limit plan rule epoch [] st = ([], st)"
| "session sha limit plan rule epoch (Emission em env twice # rest) (s, r) =
     (case NextForEmission plan rule epoch em s of
        (Inl e, s) \<Rightarrow> session sha limit plan rule epoch rest (s, r)
      | (Inr f, s) \<Rightarrow>
          let (e1, r) = receive_frame sha limit (sealedEnvelope sha f env) r;
              (e2, r) = (if twice then receive_frame sha limit (sealedEnvelope sha f env) r else ([], r));
              (es, st) = session sha limit plan rule epoch rest (s, r)
          in (e1 @ e2 @ es, st))"
| "session sha limit plan rule epoch (Other env # rest) (s, r) = session sha limit plan rule epoch rest (s, snd (receive_frame sha limit env r))"

lemma frame_next_error: "frame_next plan rule epoch series ws we now em s = (Inl e, s') \<Longrightarrow> s' = s"
  by (auto simp: frame_next_def Let_def split: if_splits)

lemma carries_sealed: "carries sha f (sealedEnvelope sha f env)"
  by (simp add: carries_def sealedEnvelope_def)

text \<open>How much room the receiver has, and what it keeps as long as there is room.\<close>

definition effectiveLimit :: "u64 \<Rightarrow> u64" where
  "effectiveLimit limit = (if limit = 0 then 100000 else limit)"

lemma length_setLineage_le: "length (frLineages (setLineage k st r)) \<le> Suc (length (frLineages r))"
  by (simp add: setLineage_def le_imp_less_Suc order_less_imp_le length_filter_le)

lemma commit_room:
  assumes "length (frLineages r) < unat (rcLimit rc)"
  shows "commit rc r = (if rcFramed rc \<and> \<not> rcDuplicate rc then setLineage (rcKey rc) (rcState rc) r else r)"
proof -
  have "of_nat (length (frLineages r)) < rcLimit rc"
    using assms unsigned_less [of "rcLimit rc", where 'a = nat] by (simp add: word_less_nat_alt unat_of_nat)
  then show ?thesis by (auto simp: commit_def)
qed

lemma receive_frame_room:
  assumes "receive_frame sha limit env r = (es, r')" "length (frLineages r) < unat (effectiveLimit limit)"
  shows "length (frLineages r') \<le> Suc (length (frLineages r))"
    "\<nexists>n. receivedKey (eFrameAttributes env) = Inr (key, n) \<Longrightarrow> previousState r' key = previousState r key"
proof -
  have clock: "previousState (r\<lparr>frClock := c\<rparr>) k = previousState r k" for c k by (simp add: previousState_def)
  have room: "length (frLineages (r\<lparr>frClock := c\<rparr>)) < unat (if limit = 0 then 100000 else limit)" for c
    using assms(2) by (simp add: effectiveLimit_def)
  show "length (frLineages r') \<le> Suc (length (frLineages r))"
    using assms(1) length_setLineage_le [of _ _ "r\<lparr>frClock := frClock r + 1\<rparr>"] room
    by (auto simp: receive_frame_def prepare_def zeroReceipt_def commit_room Let_def split: if_splits sum.splits prod.splits) (auto simp: commit_def)
  show "previousState r' key = previousState r key" if "\<nexists>n. receivedKey (eFrameAttributes env) = Inr (key, n)"
    using assms(1) that room clock
    by (auto simp: receive_frame_def prepare_def zeroReceipt_def commit_room previousState_setLineage Let_def split: if_splits sum.splits prod.splits)
      (auto simp: commit_def previousState_setLineage)
qed

lemma filter_present_shorter: "map_of xs k = Some v \<Longrightarrow> length (filter (\<lambda>p. fst p \<noteq> k) xs) < length xs"
  by (induction xs) (auto simp: less_Suc_eq_le split: if_splits)

lemma duplicate_keeps_length:
  assumes "prepare sha env limit r = (Inr rc, r')" "rcDuplicate rc"
  shows "length (frLineages r') \<le> length (frLineages r)"
proof -
  obtain k st where d: "r' = setLineage k st (r\<lparr>frClock := frClock r + 1\<rparr>)" "rsSequence (previousState (r\<lparr>frClock := frClock r + 1\<rparr>) k) \<noteq> 0"
    using assms by (auto simp: prepare_def zeroReceipt_def Let_def split: if_splits sum.splits)
  then obtain v where "map_of (frLineages r) k = Some v" by (auto simp: previousState_def zeroReceived_def split: option.splits)
  from filter_present_shorter [OF this] d(1) show ?thesis by (simp add: setLineage_def)
qed

text \<open>
  Property C10. A session without losses never fails: whatever the producer emits for a series, full
  frames and deltas in the order its rule allows, with any frame delivered twice and any envelopes of other lineages in
  between, the receiver reports no error on the frames of the series from start to end, and afterwards both ends agree
  on its number and checkpoint. The receiver must have room for the other lineages (it evicts none as long as its
  lineages and the steps of the session together stay within its limit).
\<close>
theorem session_error_free:
  assumes "validPlan plan rule" "\<forall>x. length (sha x) = 32" "key = lineageOf plan rule epoch series" "inSync s r key"
    "\<forall>em env twice. Emission em env twice \<in> set xs \<longrightarrow> feSeriesIdentity em = series"
    "\<forall>env n. Other env \<in> set xs \<longrightarrow> receivedKey (eFrameAttributes env) \<noteq> Inr (key, n)"
    "unat (lsSequence (senderState s key)) + length xs < 2 ^ 64"
    "length (frLineages r) + length xs \<le> unat (effectiveLimit limit)"
  shows "\<exists>s' r'. session sha limit plan rule epoch xs (s, r) = ([], s', r') \<and> inSync s' r' key"
  using assms(4-8)
proof (induction xs arbitrary: s r)
  case (Cons x xs)
  have room: "length (frLineages r) < unat (effectiveLimit limit)" using Cons.prems(5) by simp
  have rest: "\<forall>em env twice. Emission em env twice \<in> set xs \<longrightarrow> feSeriesIdentity em = series"
    "\<forall>env n. Other env \<in> set xs \<longrightarrow> receivedKey (eFrameAttributes env) \<noteq> Inr (key, n)" using Cons.prems(2,3) by auto
  show ?case
  proof (cases x)
    case (Other env)
    obtain es r1 where rf: "receive_frame sha limit env r = (es, r1)" by fastforce
    have "previousState r1 key = previousState r key" "length (frLineages r1) \<le> Suc (length (frLineages r))"
      using receive_frame_room [OF rf room] Cons.prems(3) Other by auto
    then have "inSync s r1 key" "length (frLineages r1) + length xs \<le> unat (effectiveLimit limit)"
      using Cons.prems(1,5) by (simp_all add: inSync_def)
    from Cons.IH [OF this(1) rest _ this(2)] Cons.prems(4) show ?thesis by (simp add: Other rf)
  next
    case (Emission em env twice)
    have ser: "feSeriesIdentity em = series" using Cons.prems(2) Emission by simp
    obtain res s1 where n: "NextForEmission plan rule epoch em s = (res, s1)" by (metis prod.exhaust)
    show ?thesis
    proof (cases res)
      case (Inl e)
      then have "s1 = s" using n frame_next_error unfolding NextForEmission_def by blast
      with Inl n Emission Cons.IH [OF Cons.prems(1) rest] Cons.prems(4,5) show ?thesis by simp
    next
      case (Inr f)
      note fn = n [unfolded NextForEmission_def Inr ser]
      have nz: "lsSequence (senderState s key) + 1 \<noteq> 0"
      proof
        assume "lsSequence (senderState s key) + 1 = 0"
        then have "unat (lsSequence (senderState s key) + 1) = 0" by simp
        then show False using Cons.prems(4) by (simp add: unat_word_ariths(1))
      qed
      from deliver_in_sync [OF fn assms(3,1) Cons.prems(1) nz carries_sealed assms(2), of env limit] obtain rc r' rc2 r2 where
        1: "prepare sha (sealedEnvelope sha f env) limit r = (Inr rc, r')" "inSync s1 (commit rc r') key"
        and 2: "prepare sha (sealedEnvelope sha f env) limit (commit rc r') = (Inr rc2, r2)" "rcDuplicate rc2" "inSync s1 (commit rc2 r2) key" by blast
      have rf: "receive_frame sha limit (sealedEnvelope sha f env) r = ([], commit rc r')" by (simp add: receive_frame_def 1(1))
      have rf2: "receive_frame sha limit (sealedEnvelope sha f env) (commit rc r') = ([], commit rc2 r2)" by (simp add: receive_frame_def 2(1))
      have len: "length (frLineages (commit rc r')) \<le> Suc (length (frLineages r))" using receive_frame_room(1) [OF rf room] .
      have len2: "length (frLineages (commit rc2 r2)) \<le> length (frLineages (commit rc r'))"
        using duplicate_keeps_length [OF 2(1,2)] 2(2) by (simp add: commit_def)
      have "lsSequence (senderState s1 key) = lsSequence (senderState s key) + 1" using frame_next_ok [OF fn] assms(3) by simp
      then have un: "unat (lsSequence (senderState s1 key)) + length xs < 2 ^ 64"
        using Cons.prems(4) by (simp add: unat_word_ariths(1))
      obtain s2 r3 where "session sha limit plan rule epoch xs (s1, if twice then commit rc2 r2 else commit rc r') = ([], s2, r3) \<and> inSync s2 r3 key"
        using Cons.IH [OF 1(2) rest un] Cons.IH [OF 2(3) rest un] len len2 Cons.prems(5) by (cases twice) auto
      then show ?thesis using n Inr by (cases twice) (simp_all add: Emission rf rf2)
    qed
  qed
qed simp

theorem session_error_free_witness:
  "let em = \<lparr>feSeriesIdentity = ''x'', feWindowStartUnixNano = 0, feWindowEndUnixNano = 60, feNowUnixMS = 1, feEmittedFull = True\<rparr>;
       steps = [Emission em sampleEnvelope False, Other sampleEnvelope, Emission em sampleEnvelope True]
   in \<exists>s' r'. session (\<lambda>_. replicate 32 9) 0 (samplePlan 60) (sampleRule 60) ''e1'' steps (Map.empty, \<lparr>frLineages = [], frClock = 0\<rparr>) = ([], s', r') \<and>
        inSync s' r' (lineageOf (samplePlan 60) (sampleRule 60) ''e1'' ''x'')"
  unfolding Let_def
  by (rule session_error_free [where series = "''x''", OF _ _ refl])
    (auto simp: validPlan_def samplePlan_def sampleRule_def inSync_def previousState_def senderState_def zeroReceived_def zeroLineage_def
      effectiveLimit_def sampleEnvelope_def receivedKey_def parseRequiredUint_def lookupAttr_def ParseUint_def)

text \<open>
  Property C40. A lost frame is never recovered from: once the receiver is behind the producer on a
  lineage, every later frame, the periodic full checkpoints included, is refused as a gap, and the
  receiver stays behind.
\<close>
theorem gap_never_recovers:
  assumes "frame_next plan rule epoch series ws we now em s = (Inr f, s')" "key = lineageOf plan rule epoch series"
    "validPlan plan rule" "rsSequence (previousState r key) < lsSequence (senderState s key)"
    "lsSequence (senderState s key) < lsSequence (senderState s key) + 1" "carries sha f env" "\<forall>x. length (sha x) = 32"
  shows "fst (prepare sha env limit r) = Inl ErrFrameGap \<and>
    previousState (snd (prepare sha env limit r)) key = previousState r key \<and>
    rsSequence (previousState r key) < lsSequence (senderState s' key)"
proof -
  have nz: "lsSequence (senderState s key) + 1 \<noteq> 0" using assms(5) by auto
  have vf: "validFrame f" and fk: "frameKey f = key"
    using frame_next_valid [OF assms(1,3) nz [unfolded assms(2)]] assms(2) by auto
  from frame_next_ok [OF assms(1)] assms(2) have seq: "lsSequence (senderState s' key) = lsSequence (senderState s key) + 1"
    and fs: "fiSequence f = lsSequence (senderState s' key)" by (auto simp: frameOf_def)
  have lt: "rsSequence (previousState r key) < fiSequence f" using assms(4,5) seq fs by simp
  moreover have "fiSequence f \<noteq> rsSequence (previousState r key) + 1" using assms(4) seq fs by auto
  ultimately have "prepare sha env limit r = (Inl ErrFrameGap, r\<lparr>frClock := frClock r + 1\<rparr>)"
    using lt by (auto simp: prepare_carries [OF assms(6) vf assms(7)] fk)
  moreover have "previousState (r\<lparr>frClock := frClock r + 1\<rparr>) key = previousState r key" by (simp add: previousState_def)
  ultimately show ?thesis using lt fs by simp
qed

lemma gap_frame:
  "frame_next (samplePlan 60) (sampleRule 60) ''e1'' ''x'' 0 60 9 (Some True)
     [lineageOf (samplePlan 60) (sampleRule 60) ''e1'' ''x'' \<mapsto> \<lparr>lsSequence = 4, lsCheckpointID = ''c'', lsCheckpointAtMS = 1\<rparr>] =
   (Inr (frameOf (samplePlan 60) (sampleRule 60) ''e1'' ''x'' 0 60
      \<lparr>lsSequence = 5, lsCheckpointID = checkpointName (trProducerID (sampleRule 60)) ''e1'' 0 5, lsCheckpointAtMS = 9\<rparr> True),
    [lineageOf (samplePlan 60) (sampleRule 60) ''e1'' ''x'' \<mapsto>
      \<lparr>lsSequence = 5, lsCheckpointID = checkpointName (trProducerID (sampleRule 60)) ''e1'' 0 5, lsCheckpointAtMS = 9\<rparr>])"
  by (simp add: frame_next_def samplePlan_def sampleRule_def ruleDeepEqual_def policyEqual_def samplePolicy_def f64_eval Let_def)

theorem gap_never_recovers_witness:
  "let f = frameOf (samplePlan 60) (sampleRule 60) ''e1'' ''x'' 0 60
         \<lparr>lsSequence = 5, lsCheckpointID = checkpointName (trProducerID (sampleRule 60)) ''e1'' 0 5, lsCheckpointAtMS = 9\<rparr> True;
       env = sealedEnvelope (\<lambda>_. replicate 32 9) f
         sampleEnvelope
   in fst (prepare (\<lambda>_. replicate 32 9) env 0 \<lparr>frLineages = [], frClock = 0\<rparr>) = Inl ErrFrameGap"
  unfolding Let_def
  by (rule gap_never_recovers [OF gap_frame refl _ _ _ carries_sealed, THEN conjunct1])
    (simp_all add: validPlan_def samplePlan_def sampleRule_def previousState_def senderState_def zeroReceived_def)

section \<open>The receiver's memory\<close>

lemma oldestLineage_fold:
  "fst (fold (\<lambda>(k, st) (oldest, use). if rsLastUsed st < use then (Some k, rsLastUsed st) else (oldest, use)) ls (acc, u)) \<in>
     insert acc (Some ` fst ` set ls)"
proof (induction ls arbitrary: acc u)
  case (Cons p ls)
  obtain k st where "p = (k, st)" by fastforce
  then show ?case using Cons [of "Some k" "rsLastUsed st"] Cons [of acc u] by (auto simp: image_iff)
qed simp

lemma oldestLineage_some:
  assumes "p \<in> set ls" "\<forall>q \<in> set ls. rsLastUsed (snd q) < - 1"
  shows "\<exists>k \<in> fst ` set ls. oldestLineage ls = Some k"
proof -
  obtain q qs where ls: "ls = q # qs" using assms(1) by (cases ls) auto
  obtain k st where q: "q = (k, st)" by fastforce
  have "rsLastUsed st < - 1" using assms(2) ls q by auto
  then show ?thesis
    using oldestLineage_fold [of qs "Some k" "rsLastUsed st"] by (auto simp: oldestLineage_def ls q image_iff)
qed

definition receiverInv :: "nat \<Rightarrow> frameReceiver \<Rightarrow> bool" where
  "receiverInv bound r \<longleftrightarrow> distinct (map fst (frLineages r)) \<and> unat (frClock r) < 2 ^ 64 - 1 \<and>
     (\<forall>p \<in> set (frLineages r). rsLastUsed (snd p) \<le> frClock r) \<and> length (frLineages r) \<le> bound"

lemma filter_key_absent: "k \<notin> fst ` set xs \<Longrightarrow> filter (\<lambda>p. fst p \<noteq> k) xs = xs"
  by (induction xs) auto

lemma length_filter_key:
  "distinct (map fst xs) \<Longrightarrow> k \<in> fst ` set xs \<Longrightarrow> Suc (length (filter (\<lambda>p. fst p \<noteq> k) xs)) = length xs"
  by (induction xs) (auto simp: filter_key_absent)

lemma length_setLineage:
  "distinct (map fst (frLineages r)) \<Longrightarrow> length (frLineages (setLineage k st r)) =
     (if k \<in> fst ` set (frLineages r) then length (frLineages r) else Suc (length (frLineages r)))"
  by (simp add: setLineage_def length_filter_key filter_key_absent)

lemma setLineage_inv:
  assumes "receiverInv bound r" "rsLastUsed st \<le> frClock r" "k \<in> fst ` set (frLineages r) \<or> length (frLineages r) < bound"
  shows "receiverInv bound (setLineage k st r)"
  using assms length_setLineage [of r k st]
  by (auto simp: receiverInv_def setLineage_def distinct_map inj_on_def split: if_splits)

lemma prepare_inv:
  assumes "receiverInv bound r" "unat (frClock r) + 1 < 2 ^ 64 - 1" "prepare sha env limit r = (res, r')"
  shows "receiverInv bound r' \<and> unat (frClock r') \<le> unat (frClock r) + 1 \<and>
    (\<forall>rc. res = Inr rc \<and> rcFramed rc \<and> \<not> rcDuplicate rc \<longrightarrow>
       rsLastUsed (rcState rc) \<le> frClock r' \<and> rcLimit rc = effectiveLimit limit)"
proof -
  let ?r = "r\<lparr>frClock := frClock r + 1\<rparr>"
  have u: "unat (frClock r + 1) = unat (frClock r) + 1" using assms(2) by (simp add: unat_word_ariths(1))
  then have le: "frClock r \<le> frClock r + 1" by (simp add: word_le_nat_alt)
  have tick: "receiverInv bound ?r" using assms(1,2) u le by (auto simp: receiverInv_def)
  have dup: "receiverInv bound (setLineage k ((previousState ?r k)\<lparr>rsLastUsed := frClock r + 1\<rparr>) ?r)"
    if "rsSequence (previousState ?r k) \<noteq> 0" for k
    by (rule setLineage_inv [OF tick])
      (use that in \<open>auto simp: previousState_def zeroReceived_def dest: map_of_SomeD split: option.splits intro: rev_image_eqI\<close>)
  show ?thesis
  proof (cases "res")
    case (Inl e)
    then show ?thesis using assms(1,3) tick u
      by (auto simp: prepare_def Let_def split: if_splits sum.splits)
  next
    case (Inr rc)
    then show ?thesis using assms(1,3) tick u dup
      by (auto simp: prepare_def zeroReceipt_def setLineage_def effectiveLimit_def Let_def split: if_splits sum.splits)
  qed
qed

text \<open>A full receiver always finds a lineage to evict.\<close>

lemma full_evicts:
  assumes "receiverInv bound r" "frLineages r \<noteq> []"
  shows "\<exists>old \<in> fst ` set (frLineages r). oldestLineage (frLineages r) = Some old"
proof -
  have "frClock r < - 1"
    using assms(1) by (simp add: receiverInv_def word_less_nat_alt unsigned_minus_1_eq_mask mask_eq_exp_minus_1)
  then have "\<forall>q \<in> set (frLineages r). rsLastUsed (snd q) < - 1"
    using assms(1) by (auto simp: receiverInv_def intro: le_less_trans)
  then show ?thesis using oldestLineage_some assms(2) by (metis list.set_intros(1) neq_Nil_conv)
qed

lemma commit_inv:
  assumes "receiverInv bound r" "bound < 2 ^ 64" "rcFramed rc \<and> \<not> rcDuplicate rc \<longrightarrow>
    rsLastUsed (rcState rc) \<le> frClock r \<and> rcLimit rc \<noteq> 0 \<and> unat (rcLimit rc) \<le> bound"
  shows "receiverInv bound (commit rc r) \<and> frClock (commit rc r) = frClock r"
proof (cases "rcFramed rc \<and> \<not> rcDuplicate rc")
  case True
  let ?k = "rcKey rc"
  have used: "rsLastUsed (rcState rc) \<le> frClock r" "rcLimit rc \<noteq> 0" "unat (rcLimit rc) \<le> bound" using True assms(3) by auto
  have full: "rcLimit rc \<le> of_nat (length (frLineages r)) \<longleftrightarrow> unat (rcLimit rc) \<le> length (frLineages r)"
    using assms(1,2) by (auto simp: receiverInv_def word_le_nat_alt unat_of_nat)
  show ?thesis
  proof (cases "map_of (frLineages r) ?k = None \<and> unat (rcLimit rc) \<le> length (frLineages r)")
    case evict: True
    then have "frLineages r \<noteq> []" using used(2) by (auto simp: unat_eq_0)
    then obtain old where old: "old \<in> fst ` set (frLineages r)" "oldestLineage (frLineages r) = Some old"
      using full_evicts [OF assms(1)] by blast
    let ?r = "r\<lparr>frLineages := filter (\<lambda>p. fst p \<noteq> old) (frLineages r)\<rparr>"
    have shrink: "Suc (length (frLineages ?r)) = length (frLineages r)"
      using length_filter_key [OF _ old(1)] assms(1) by (simp add: receiverInv_def)
    have "receiverInv bound ?r" using assms(1) shrink by (auto simp: receiverInv_def distinct_map inj_on_def)
    then have "receiverInv bound (setLineage ?k (rcState rc) ?r)"
      by (rule setLineage_inv) (use used(1) shrink assms(1) in \<open>auto simp: receiverInv_def\<close>)
    moreover have "commit rc r = setLineage ?k (rcState rc) ?r"
      using True evict full old(2) by (simp add: commit_def Let_def)
    ultimately show ?thesis by (simp add: setLineage_def)
  next
    case False
    then have "commit rc r = setLineage ?k (rcState rc) r" using True full by (auto simp: commit_def Let_def)
    moreover have "receiverInv bound (setLineage ?k (rcState rc) r)"
      by (rule setLineage_inv [OF assms(1) used(1)]) (use False used(3) in \<open>auto simp: map_of_eq_None_iff\<close>)
    ultimately show ?thesis by (simp add: setLineage_def)
  qed
next
  case False
  then have "commit rc r = r" by (auto simp: commit_def)
  then show ?thesis using assms(1) by simp
qed

text \<open>
  Property C36. The receiver's memory is bounded: whatever envelopes arrive, framed or not, valid or
  forged, each under the series limit of the configuration then in force, the receiver remembers each
  lineage once and never more lineages than the largest limit that was in force (a limit of 0 standing
  for 100000).
\<close>
theorem receiver_memory_bounded:
  assumes "length xs < 2 ^ 64 - 1" "\<forall>(limit, env) \<in> set xs. unat (effectiveLimit limit) \<le> bound" "bound < 2 ^ 64"
  shows "let r = fold (\<lambda>(limit, env) r. snd (receive_frame sha limit env r)) xs \<lparr>frLineages = [], frClock = 0\<rparr>
    in length (frLineages r) \<le> bound \<and> distinct (map fst (frLineages r))"
proof -
  have "receiverInv bound (fold (\<lambda>(limit, env) r. snd (receive_frame sha limit env r)) xs r)"
    if "receiverInv bound r" "unat (frClock r) + length xs < 2 ^ 64 - 1" "\<forall>(limit, env) \<in> set xs. unat (effectiveLimit limit) \<le> bound" for r xs
    using that
  proof (induction xs arbitrary: r)
    case (Cons x xs)
    obtain limit env where x: "x = (limit, env)" by fastforce
    obtain res r1 where p: "prepare sha env limit r = (res, r1)" by fastforce
    have "unat (frClock r) + 1 < 2 ^ 64 - 1" using Cons.prems(2) by simp
    note inv = prepare_inv [OF Cons.prems(1) this p]
    have "effectiveLimit limit \<noteq> 0" "unat (effectiveLimit limit) \<le> bound" using Cons.prems(3) x by (auto simp: effectiveLimit_def)
    then have "receiverInv bound (snd (receive_frame sha limit env r)) \<and>
        unat (frClock (snd (receive_frame sha limit env r))) \<le> unat (frClock r) + 1"
      using inv commit_inv [of bound r1, OF _ assms(3)] by (auto simp: receive_frame_def p split: sum.splits)
    then show ?case using Cons.IH Cons.prems(2,3) by (simp add: x)
  qed simp
  from this [of "\<lparr>frLineages = [], frClock = 0\<rparr>" xs] assms(1,2) show ?thesis by (simp add: receiverInv_def Let_def)
qed

theorem receiver_memory_bounded_witness:
  "let frame = (\<lambda>series. sealedEnvelope (\<lambda>_. replicate 32 9) (frameOf (samplePlan 60) (sampleRule 60) ''e1'' series 0 60
         \<lparr>lsSequence = 1, lsCheckpointID = ''c'', lsCheckpointAtMS = 9\<rparr> True) sampleEnvelope);
       xs = [(2, frame ''x''), (2, frame ''y''), (1, frame ''z'')];
       r = fold (\<lambda>(limit, env) r. snd (receive_frame (\<lambda>_. replicate 32 9) limit env r)) xs \<lparr>frLineages = [], frClock = 0\<rparr>
   in length (frLineages r) \<le> 2 \<and> distinct (map fst (frLineages r))"
  unfolding Let_def by (rule receiver_memory_bounded [unfolded Let_def]) (simp_all add: effectiveLimit_def)

end
