(* ===== verification/MonitorEngine.thy ===== *)
theory MonitorEngine
  imports Config "HOL-Library.AList"
begin

text \<open>
  The edge side of continuous monitoring (\<^verbatim>\<open>asap-precompute-go/monitor/engine.go\<close>, messages from
  \<^verbatim>\<open>monitor/types.go\<close>): one state per monitored aggregation and key, which registers once per epoch,
  reports its rate on a fixed cadence and keeps the sampling probability the coordinator grants.

  The map of states is an association list with distinct keys, whose order stands for Go's iteration
  order. The transport is the list of messages handed to it, \<open>enSent\<close>. Each method holds the engine's
  mutex, so a call is one step.
\<close>

section \<open>Messages\<close>

record Registration =
  rgEdgeID :: string
  rgAggID :: u64
  rgKey :: bytes
  rgEpochWindowMs :: u64
  rgWindowStartMs :: u64

record Report =
  rpEdgeID :: string
  rpAggID :: u64
  rpKey :: bytes
  rpWindowStartMs :: u64
  rpLocalValue :: f64
  rpRound :: u64
  rpSeq :: u64
  rpRate :: f64

record Grant =
  gAggID :: u64
  gKey :: bytes
  gRound :: u64
  gLocalSlack :: f64
  gWindowStartMs :: u64
  gSampleP :: f64

record Poll =
  plAggID :: u64
  plKey :: bytes
  plRound :: u64
  plWindowStartMs :: u64

record Close =
  clAggID :: u64
  clRound :: u64
  clWindowStartMs :: u64

datatype monitorMsg = MsgRegister Registration | MsgReport Report

section \<open>State\<close>

definition ReportEveryN :: u64 where
  "ReportEveryN = 64"

record monitorState =
  moAggID :: u64
  moKey :: bytes
  moWindowStart :: u64
  moLastValue :: f64
  moObsCount :: u64
  moReportedAt :: u64
  moGrantedSampleP :: f64
  moRound :: u64
  moSeq :: u64
  moRegistered :: bool

record Engine =
  enStates :: "((u64 \<times> bytes) \<times> monitorState) list"
  enReporter :: bool
  enEdgeID :: string
  enEpochWindowMs :: u64
  enSent :: "monitorMsg list"

definition NewEngine :: "string \<Rightarrow> u64 \<Rightarrow> bool \<Rightarrow> Engine" where
  "NewEngine edgeID epochWindowMs reporter =
     \<lparr>enStates = [], enReporter = reporter, enEdgeID = edgeID, enEpochWindowMs = epochWindowMs, enSent = []\<rparr>"

definition SetReporter :: "bool \<Rightarrow> Engine \<Rightarrow> Engine" where
  "SetReporter r e = e\<lparr>enReporter := r\<rparr>"

definition newMonitor :: "u64 \<Rightarrow> bytes \<Rightarrow> u64 \<Rightarrow> monitorState" where
  "newMonitor aggID key windowStart = \<lparr>moAggID = aggID, moKey = key, moWindowStart = windowStart, moLastValue = 0,
     moObsCount = 0, moReportedAt = 0, moGrantedSampleP = 0, moRound = 0, moSeq = 0, moRegistered = False\<rparr>"

section \<open>Operations\<close>

definition resetStateLocked :: "u64 \<Rightarrow> monitorState \<Rightarrow> monitorState" where
  "resetStateLocked windowStart st = st\<lparr>moWindowStart := windowStart, moLastValue := 0, moObsCount := 0, moReportedAt := 0,
     moRound := 0, moRegistered := False\<rparr>"

definition reportOf :: "string \<Rightarrow> monitorState \<Rightarrow> Report" where
  "reportOf edgeID st = \<lparr>rpEdgeID = edgeID, rpAggID = moAggID st, rpKey = moKey st, rpWindowStartMs = moWindowStart st,
     rpLocalValue = moLastValue st, rpRound = moRound st, rpSeq = moSeq st,
     rpRate = f64_of_ratio False (unat (moObsCount st)) 1\<rparr>"

definition sendReportLocked :: "monitorState \<Rightarrow> Engine \<Rightarrow> Engine" where
  "sendReportLocked st e =
     (if enReporter e then e\<lparr>enSent := enSent e @ [MsgReport (reportOf (enEdgeID e) st)]\<rparr> else e)"

definition setState :: "u64 \<times> bytes \<Rightarrow> monitorState \<Rightarrow> Engine \<Rightarrow> Engine" where
  "setState mk st e = e\<lparr>enStates := AList.update mk st (enStates e)\<rparr>"

definition EngineObserve :: "u64 \<Rightarrow> bytes \<Rightarrow> f64 \<Rightarrow> u64 \<Rightarrow> Engine \<Rightarrow> Engine" where
  "EngineObserve aggID key v windowStart e =
     (let mk = (aggID, key);
          st = (case map_of (enStates e) mk of None \<Rightarrow> newMonitor aggID key windowStart | Some st \<Rightarrow> st);
          st = (if moWindowStart st \<noteq> windowStart then resetStateLocked windowStart st else st);
          st = st\<lparr>moLastValue := v, moObsCount := moObsCount st + 1\<rparr>;
          e = (if \<not> moRegistered st \<and> enReporter e
               then e\<lparr>enSent := enSent e @ [MsgRegister \<lparr>rgEdgeID = enEdgeID e, rgAggID = aggID, rgKey = key,
                      rgEpochWindowMs = enEpochWindowMs e, rgWindowStartMs = windowStart\<rparr>]\<rparr> else e);
          st = st\<lparr>moRegistered := True\<rparr>
      in if moObsCount st = 1 \<or> ReportEveryN \<le> moObsCount st - moReportedAt st
         then let st = st\<lparr>moReportedAt := moObsCount st, moSeq := moSeq st + 1\<rparr>
              in sendReportLocked st (setState mk st e)
         else setState mk st e)"

definition OnGrant :: "Grant \<Rightarrow> Engine \<Rightarrow> Engine" where
  "OnGrant g e =
     (case map_of (enStates e) (gAggID g, gKey g) of
        None \<Rightarrow> e
      | Some st \<Rightarrow> if moWindowStart st \<noteq> gWindowStartMs g then e
          else setState (gAggID g, gKey g) (st\<lparr>moRound := gRound g, moGrantedSampleP := gSampleP g\<rparr>) e)"

definition OnPoll :: "Poll \<Rightarrow> Engine \<Rightarrow> Engine" where
  "OnPoll p e =
     (case map_of (enStates e) (plAggID p, plKey p) of
        None \<Rightarrow> e
      | Some st \<Rightarrow> if moWindowStart st \<noteq> plWindowStartMs p then e
          else let st = st\<lparr>moRound := plRound p, moSeq := moSeq st + 1, moReportedAt := moObsCount st\<rparr>
               in sendReportLocked st (setState (plAggID p, plKey p) st e))"

definition mapStates :: "(monitorState \<Rightarrow> monitorState) \<Rightarrow> Engine \<Rightarrow> Engine" where
  "mapStates f e = e\<lparr>enStates := map (\<lambda>(mk, st). (mk, f st)) (enStates e)\<rparr>"

definition OnClose :: "Close \<Rightarrow> Engine \<Rightarrow> Engine" where
  "OnClose c e = mapStates (\<lambda>st. if moAggID st = clAggID c \<and> moWindowStart st = clWindowStartMs c
     then st\<lparr>moRound := clRound c\<rparr> else st) e"

definition EpochReset :: "u64 \<Rightarrow> Engine \<Rightarrow> Engine" where
  "EpochReset newWindowStart e = mapStates (resetStateLocked newWindowStart) e"

definition ForceReregister :: "Engine \<Rightarrow> Engine" where
  "ForceReregister e = mapStates (\<lambda>st. st\<lparr>moRegistered := False, moGrantedSampleP := 0, moRound := 0\<rparr>) e"

definition GrantedSampleP :: "u64 \<Rightarrow> Engine \<Rightarrow> f64" where
  "GrantedSampleP aggID e =
     (case find (\<lambda>(_, st). moAggID st = aggID \<and> f64_less 0 (moGrantedSampleP st)) (enStates e) of
        None \<Rightarrow> 0x3FF0000000000000 | Some (_, st) \<Rightarrow> moGrantedSampleP st)"

section \<open>Runs\<close>

datatype engineOp = OpObserve u64 bytes f64 u64 | OpGrant Grant | OpPoll Poll | OpClose Close | OpEpochReset u64 | OpForceReregister
  | OpSetReporter bool

fun runEngineOp :: "engineOp \<Rightarrow> Engine \<Rightarrow> Engine" where
  "runEngineOp (OpObserve aggID key v windowStart) e = EngineObserve aggID key v windowStart e"
| "runEngineOp (OpGrant g) e = OnGrant g e"
| "runEngineOp (OpPoll p) e = OnPoll p e"
| "runEngineOp (OpClose c) e = OnClose c e"
| "runEngineOp (OpEpochReset windowStart) e = EpochReset windowStart e"
| "runEngineOp OpForceReregister e = ForceReregister e"
| "runEngineOp (OpSetReporter r) e = SetReporter r e"

section \<open>The reporting cadence\<close>

text \<open>The state with which an observation for an epoch starts.\<close>

definition epochState :: "u64 \<Rightarrow> bytes \<Rightarrow> u64 \<Rightarrow> Engine \<Rightarrow> monitorState" where
  "epochState aggID key windowStart e =
     (let st = (case map_of (enStates e) (aggID, key) of None \<Rightarrow> newMonitor aggID key windowStart | Some st \<Rightarrow> st)
      in if moWindowStart st \<noteq> windowStart then resetStateLocked windowStart st else st)"

definition observeAll :: "u64 \<Rightarrow> bytes \<Rightarrow> u64 \<Rightarrow> f64 list \<Rightarrow> Engine \<Rightarrow> Engine" where
  "observeAll aggID key windowStart vs e = fold (\<lambda>v. EngineObserve aggID key v windowStart) vs e"

text \<open>The monitor after \<open>n\<close> observations of an epoch that began in state \<open>st\<close>, and its \<open>k\<close>-th report.\<close>

definition afterObs :: "monitorState \<Rightarrow> f64 list \<Rightarrow> monitorState" where
  "afterObs st vs = st\<lparr>moLastValue := last vs, moObsCount := of_nat (length vs),
     moReportedAt := of_nat (64 * ((length vs - 1) div 64) + 1), moSeq := moSeq st + of_nat ((length vs + 63) div 64),
     moRegistered := True\<rparr>"

definition cadenceReport :: "string \<Rightarrow> monitorState \<Rightarrow> f64 list \<Rightarrow> nat \<Rightarrow> Report" where
  "cadenceReport edge st vs k = \<lparr>rpEdgeID = edge, rpAggID = moAggID st, rpKey = moKey st, rpWindowStartMs = moWindowStart st,
     rpLocalValue = vs ! (64 * k), rpRound = moRound st, rpSeq = moSeq st + of_nat (k + 1),
     rpRate = f64_of_ratio False (64 * k + 1) 1\<rparr>"

definition sentInEpoch :: "Engine \<Rightarrow> u64 \<Rightarrow> bytes \<Rightarrow> u64 \<Rightarrow> f64 list \<Rightarrow> monitorMsg list" where
  "sentInEpoch e aggID key windowStart vs =
     (if vs = [] then [] else [MsgRegister \<lparr>rgEdgeID = enEdgeID e, rgAggID = aggID, rgKey = key,
        rgEpochWindowMs = enEpochWindowMs e, rgWindowStartMs = windowStart\<rparr>]) @
     map (\<lambda>k. MsgReport (cadenceReport (enEdgeID e) (epochState aggID key windowStart e) vs k)) [0..<(length vs + 63) div 64]"

text \<open>An observation in terms of the epoch's state: count it, then report if due.\<close>

definition observed :: "f64 \<Rightarrow> monitorState \<Rightarrow> monitorState" where
  "observed v st = st\<lparr>moLastValue := v, moObsCount := moObsCount st + 1, moRegistered := True\<rparr>"

definition reportDue :: "monitorState \<Rightarrow> bool" where
  "reportDue st \<longleftrightarrow> moObsCount st = 1 \<or> ReportEveryN \<le> moObsCount st - moReportedAt st"

definition reported :: "monitorState \<Rightarrow> monitorState" where
  "reported st = (if reportDue st then st\<lparr>moReportedAt := moObsCount st, moSeq := moSeq st + 1\<rparr> else st)"

lemma EngineObserve_eq:
  fixes v aggID key windowStart e
  defines "st \<equiv> epochState aggID key windowStart e"
  shows "EngineObserve aggID key v windowStart e = e\<lparr>enStates := AList.update (aggID, key) (reported (observed v st)) (enStates e),
    enSent := enSent e @ (if \<not> moRegistered st \<and> enReporter e
      then [MsgRegister \<lparr>rgEdgeID = enEdgeID e, rgAggID = aggID, rgKey = key, rgEpochWindowMs = enEpochWindowMs e,
        rgWindowStartMs = windowStart\<rparr>] else []) @
      (if reportDue (observed v st) \<and> enReporter e then [MsgReport (reportOf (enEdgeID e) (reported (observed v st)))] else [])\<rparr>"
proof -
  have fold_st: "EngineObserve aggID key v windowStart e =
     (let st = st\<lparr>moLastValue := v, moObsCount := moObsCount st + 1\<rparr>;
          e = (if \<not> moRegistered st \<and> enReporter e
               then e\<lparr>enSent := enSent e @ [MsgRegister \<lparr>rgEdgeID = enEdgeID e, rgAggID = aggID, rgKey = key,
                      rgEpochWindowMs = enEpochWindowMs e, rgWindowStartMs = windowStart\<rparr>]\<rparr> else e);
          st = st\<lparr>moRegistered := True\<rparr>
      in if moObsCount st = 1 \<or> ReportEveryN \<le> moObsCount st - moReportedAt st
         then let st = st\<lparr>moReportedAt := moObsCount st, moSeq := moSeq st + 1\<rparr>
              in sendReportLocked st (setState (aggID, key) st e)
         else setState (aggID, key) st e)"
    by (simp only: EngineObserve_def st_def epochState_def Let_def)
  show ?thesis
    unfolding fold_st by (cases e) (simp add: Let_def observed_def reported_def reportDue_def setState_def sendReportLocked_def)
qed

lemma cadence_split:
  fixes n :: nat
  assumes "0 < n"
  obtains q r where "n = r + 64 * q" "r < 64" "n mod 64 = r" "n div 64 = q" "(n + 63) div 64 = (if r = 0 then q else q + 1)"
    "(n - 1) div 64 = (if r = 0 then q - 1 else q)" "r = 0 \<Longrightarrow> 0 < q"
proof -
  obtain q r where n: "n = r + 64 * q" "r < 64" by (rule that [of "n mod 64" "n div 64"]) simp_all
  have up: "(n + 63) div 64 = (if r = 0 then q else q + 1)"
  proof (cases "r = 0")
    case False
    have "(r + 63) div 64 = 1" by (rule div_nat_eqI) (use False n(2) in simp_all)
    moreover have "n + 63 = (r + 63) + 64 * q" using n(1) by simp
    ultimately show ?thesis using False by (simp only: div_mult_self2) simp
  qed (simp add: n(1))
  have down: "(n - 1) div 64 = (if r = 0 then q - 1 else q)"
    by (rule div_nat_eqI) (use assms n in \<open>auto simp: diff_mult_distrib2\<close>)
  show thesis by (rule that [OF n _ _ up down]) (use n assms in auto)
qed

lemma cadence_due:
  assumes "0 < n" "n + 1 < 2 ^ 64"
  shows "(of_nat (n + 1) = (1 :: u64) \<or> ReportEveryN \<le> of_nat (n + 1) - of_nat (64 * ((n - 1) div 64) + 1)) \<longleftrightarrow> n mod 64 = 0"
proof -
  let ?m = "64 * ((n - 1) div 64) + 1"
  from cadence_split [OF assms(1)] obtain q r where n: "n = r + 64 * q" "r < 64" "n mod 64 = r"
    "(n - 1) div 64 = (if r = 0 then q - 1 else q)" "r = 0 \<Longrightarrow> 0 < q" by metis
  have m: "?m \<le> n + 1" using n by (simp add: diff_mult_distrib2)
  have "unat (of_nat (n + 1) :: u64) = n + 1" by (subst unat_of_nat) (use assms(2) in simp)
  then have one: "of_nat (n + 1) \<noteq> (1 :: u64)" using assms(1) by (metis add_cancel_left_left less_numeral_extra(3) unsigned_1)
  have "of_nat (n + 1) - of_nat ?m = (of_nat (n + 1 - ?m) :: u64)" using m by (simp add: of_nat_diff)
  moreover have "unat (of_nat (n + 1 - ?m) :: u64) = n + 1 - ?m" by (subst unat_of_nat) (use assms(2) in simp)
  ultimately have "ReportEveryN \<le> of_nat (n + 1) - of_nat ?m \<longleftrightarrow> 64 \<le> n + 1 - ?m"
    by (simp add: ReportEveryN_def word_le_nat_alt del: of_nat_add)
  also have "\<dots> \<longleftrightarrow> n mod 64 = 0" unfolding n(3,4) using n(1,2,5) by (auto simp: diff_mult_distrib2)
  finally show ?thesis using one by simp
qed

lemma cadence_counts:
  fixes n :: nat
  assumes "0 < n"
  shows "(n + 1 + 63) div 64 = (if n mod 64 = 0 then (n + 63) div 64 + 1 else (n + 63) div 64)"
    "64 * ((n + 1 - 1) div 64) + 1 = (if n mod 64 = 0 then n + 1 else 64 * ((n - 1) div 64) + 1)"
    "n mod 64 = 0 \<Longrightarrow> 64 * ((n + 63) div 64) = n"
proof -
  from cadence_split [OF assms] obtain q r where n: "n = r + 64 * q" "n mod 64 = r" "n div 64 = q"
    "(n + 63) div 64 = (if r = 0 then q else q + 1)" "(n - 1) div 64 = (if r = 0 then q - 1 else q)" by metis
  have "(n + 1 + 63) div 64 = q + 1" using n(3) by simp
  then show "(n + 1 + 63) div 64 = (if n mod 64 = 0 then (n + 63) div 64 + 1 else (n + 63) div 64)" using n by simp
  show "64 * ((n + 1 - 1) div 64) + 1 = (if n mod 64 = 0 then n + 1 else 64 * ((n - 1) div 64) + 1)"
    using n by simp
  show "n mod 64 = 0 \<Longrightarrow> 64 * ((n + 63) div 64) = n" using n by simp
qed

lemma afterObs_snoc:
  assumes "vs \<noteq> []" "length vs + 1 < 2 ^ 64"
  shows "reportDue (observed v (afterObs st vs)) \<longleftrightarrow> length vs mod 64 = 0"
    "reported (observed v (afterObs st vs)) = afterObs st (vs @ [v])"
proof -
  have n: "0 < length vs" using assms(1) by simp
  show due: "reportDue (observed v (afterObs st vs)) \<longleftrightarrow> length vs mod 64 = 0"
    using cadence_due [OF n assms(2)] by (simp add: reportDue_def observed_def afterObs_def add.commute)
  show "reported (observed v (afterObs st vs)) = afterObs st (vs @ [v])"
    unfolding reported_def due
    using cadence_counts(1,2) [OF n]
    by (cases st; cases "length vs mod 64 = 0") (simp_all add: observed_def afterObs_def add.commute)
qed

lemma observeAll_run:
  assumes "enReporter e" "st0 = epochState aggID key windowStart e" "moObsCount st0 = 0" "\<not> moRegistered st0"
    "moAggID st0 = aggID" "moKey st0 = key" "moWindowStart st0 = windowStart" "vs \<noteq> []" "length vs < 2 ^ 64"
  shows "map_of (enStates (observeAll aggID key windowStart vs e)) (aggID, key) = Some (afterObs st0 vs) \<and>
    enSent (observeAll aggID key windowStart vs e) = enSent e @ sentInEpoch e aggID key windowStart vs \<and>
    enReporter (observeAll aggID key windowStart vs e) \<and> enEdgeID (observeAll aggID key windowStart vs e) = enEdgeID e"
  using assms(8,9)
proof (induction vs rule: rev_induct)
  case (snoc v vs)
  show ?case
  proof (cases "vs = []")
    case True
    have one: "reportDue (observed v st0)" "reported (observed v st0) = afterObs st0 [v]"
      using assms(3) by (cases st0; simp add: reportDue_def observed_def reported_def afterObs_def)+
    show ?thesis unfolding True using assms(1,4-7) one
      by (simp add: observeAll_def EngineObserve_eq assms(2) [symmetric] update_conv' sentInEpoch_def)
        (simp add: reportOf_def afterObs_def cadenceReport_def)
  next
    case False
    let ?e = "observeAll aggID key windowStart vs e"
    have IH: "map_of (enStates ?e) (aggID, key) = Some (afterObs st0 vs)" "enSent ?e = enSent e @ sentInEpoch e aggID key windowStart vs"
      "enReporter ?e" "enEdgeID ?e = enEdgeID e" using snoc.IH False snoc.prems by auto
    have n: "length vs + 1 < 2 ^ 64" "0 < length vs" using snoc.prems False by auto
    have st: "epochState aggID key windowStart ?e = afterObs st0 vs"
      using IH(1) assms(7) by (simp add: epochState_def Let_def afterObs_def)
    have same: "map (\<lambda>k. MsgReport (cadenceReport E st0 (vs @ [v]) k)) [0..<(length vs + 63) div 64] =
        map (\<lambda>k. MsgReport (cadenceReport E st0 vs k)) [0..<(length vs + 63) div 64]" for E
      by (rule map_cong) (auto simp: cadenceReport_def nth_append)
    have len: "unat (1 + of_nat (length vs) :: u64) = Suc (length vs)"
      using unat_of_nat [of "Suc (length vs)", where 'a = 64] n(1) by simp
    have new: "sentInEpoch e aggID key windowStart (vs @ [v]) = sentInEpoch e aggID key windowStart vs @
        (if length vs mod 64 = 0 then [MsgReport (reportOf (enEdgeID e) (afterObs st0 (vs @ [v])))] else [])"
      using cadence_counts(1,3) [OF n(2)] False same len
      by (simp add: sentInEpoch_def assms(2) [symmetric] reportOf_def afterObs_def cadenceReport_def nth_append)
    show ?thesis
      using IH new afterObs_snoc [OF False n(1)]
      by (simp add: observeAll_def EngineObserve_eq st [unfolded observeAll_def] update_conv') (simp add: afterObs_def)
  qed
qed simp

definition wfEngine :: "Engine \<Rightarrow> bool" where
  "wfEngine e \<longleftrightarrow> (\<forall>mk st. map_of (enStates e) mk = Some st \<longrightarrow> mk = (moAggID st, moKey st))"

lemma epochState_wf:
  assumes "wfEngine e"
  shows "moAggID (epochState aggID key ws e) = aggID \<and> moKey (epochState aggID key ws e) = key \<and>
    moWindowStart (epochState aggID key ws e) = ws"
  using assms by (auto simp: wfEngine_def epochState_def Let_def newMonitor_def resetStateLocked_def split: option.splits)

text \<open>
  Property C34. The reporting cadence is exact: in an epoch a monitor has not been observed in, \<open>n\<close>
  observations send one registration, first, and then one report for the observations number 1, 65,
  129 and so on, \<open>(n + 63) div 64\<close> in all, each carrying the value and the count observed so far and
  the next sequence number.
\<close>
theorem report_cadence:
  assumes "wfEngine e" "enReporter e" "moObsCount (epochState aggID key windowStart e) = 0"
    "\<not> moRegistered (epochState aggID key windowStart e)" "length vs < 2 ^ 64"
  shows "enSent (observeAll aggID key windowStart vs e) = enSent e @ sentInEpoch e aggID key windowStart vs"
proof (cases "vs = []")
  case True
  then show ?thesis by (simp add: observeAll_def sentInEpoch_def)
next
  case False
  with observeAll_run [OF assms(2) refl assms(3,4)] epochState_wf [OF assms(1)] assms(5) show ?thesis by simp
qed

theorem report_cadence_witness:
  "enSent (observeAll 7 [1] 60000 (replicate 65 3) (NewEngine ''edge'' 60000 True)) =
   sentInEpoch (NewEngine ''edge'' 60000 True) 7 [1] 60000 (replicate 65 3)"
  using report_cadence [of "NewEngine ''edge'' 60000 True" 7 "[1]" 60000 "replicate 65 3"]
  by (simp add: NewEngine_def wfEngine_def epochState_def newMonitor_def)

section \<open>Sequence numbers and grants\<close>

fun reportIn :: "u64 \<times> bytes \<Rightarrow> monitorMsg \<Rightarrow> Report list" where
  "reportIn mk (MsgReport r) = (if (rpAggID r, rpKey r) = mk then [r] else [])"
| "reportIn mk (MsgRegister r) = []"

definition reportsOf :: "u64 \<times> bytes \<Rightarrow> Engine \<Rightarrow> Report list" where
  "reportsOf mk e = concat (map (reportIn mk) (enSent e))"

text \<open>The last number a monitor used, whether or not a transport was there to take the report.\<close>

definition seqOf :: "u64 \<times> bytes \<Rightarrow> Engine \<Rightarrow> u64" where
  "seqOf mk e = (case map_of (enStates e) mk of None \<Rightarrow> 0 | Some st \<Rightarrow> moSeq st)"

lemma wfEngine_lookup: "wfEngine e \<Longrightarrow> map_of (enStates e) mk = Some st \<Longrightarrow> mk = (moAggID st, moKey st)"
  unfolding wfEngine_def by blast

lemma wfEngine_update: "wfEngine e \<Longrightarrow> mk = (moAggID st, moKey st) \<Longrightarrow> enStates e' = AList.update mk st (enStates e) \<Longrightarrow> wfEngine e'"
  by (auto simp: wfEngine_def update_conv')

lemma seqOf_update: "enStates e' = AList.update mk st (enStates e) \<Longrightarrow> seqOf k e' = (if k = mk then moSeq st else seqOf k e)"
  by (simp add: seqOf_def update_conv')

text \<open>What one call does for one monitor: nothing, or the next number, with a report that carries it exactly when there is a transport.\<close>

definition stepped :: "u64 \<times> bytes \<Rightarrow> Engine \<Rightarrow> Engine \<Rightarrow> bool" where
  "stepped mk e e' \<longleftrightarrow>
     reportsOf mk e' = reportsOf mk e \<and> seqOf mk e' = seqOf mk e \<or>
     reportsOf mk e' = reportsOf mk e \<and> seqOf mk e' = seqOf mk e + 1 \<and> \<not> enReporter e \<or>
     (\<exists>r. reportsOf mk e' = reportsOf mk e @ [r] \<and> rpSeq r = seqOf mk e + 1 \<and> seqOf mk e' = seqOf mk e + 1)"

lemma stepped_update:
  assumes "wfEngine e" "mk = (moAggID st, moKey st)" "\<forall>m \<in> set extra. \<exists>r. m = MsgRegister r"
    "moSeq st = seqOf mk e + (if due then 1 else 0)" "enStates e' = AList.update mk st (enStates e)"
    "enSent e' = enSent e @ extra @ (if due \<and> enReporter e then [MsgReport (reportOf (enEdgeID e) st)] else [])"
  shows "wfEngine e' \<and> (\<forall>k. stepped k e e')"
proof -
  have "concat (map (reportIn k) extra) = []" for k using assms(3) by auto
  then have rep: "reportsOf k e' = reportsOf k e @ (if k = mk \<and> due \<and> enReporter e then [reportOf (enEdgeID e) st] else [])" for k
    using assms(2,6) by (auto simp: reportsOf_def reportOf_def)
  have sq: "seqOf k e' = (if k = mk then moSeq st else seqOf k e)" for k by (rule seqOf_update [OF assms(5)])
  have rq: "rpSeq (reportOf (enEdgeID e) st) = moSeq st" by (simp add: reportOf_def)
  have "stepped k e e'" for k using assms(4) by (cases "k = mk"; cases due; cases "enReporter e") (simp_all add: stepped_def rep sq rq)
  then show ?thesis using wfEngine_update [OF assms(1,2,5)] by blast
qed

lemma stepped_mapStates:
  assumes "wfEngine e" "\<forall>st. moAggID (f st) = moAggID st \<and> moKey (f st) = moKey st \<and> moSeq (f st) = moSeq st"
  shows "wfEngine (mapStates f e) \<and> (\<forall>k. stepped k e (mapStates f e))"
proof -
  have m: "map_of (enStates (mapStates f e)) mk = map_option f (map_of (enStates e) mk)" for mk
    by (simp add: mapStates_def map_of_map [of f])
  have "reportsOf mk (mapStates f e) = reportsOf mk e" for mk by (simp add: reportsOf_def mapStates_def)
  moreover have "seqOf mk (mapStates f e) = seqOf mk e" for mk using assms(2) by (simp add: seqOf_def m split: option.splits)
  moreover have "wfEngine (mapStates f e)" using assms by (auto simp: wfEngine_def m)
  ultimately show ?thesis by (simp add: stepped_def)
qed

lemma stepped_observe:
  assumes "wfEngine e"
  shows "wfEngine (EngineObserve aggID key v ws e) \<and> (\<forall>k. stepped k e (EngineObserve aggID key v ws e))"
proof -
  let ?st = "epochState aggID key ws e"
  have wf: "moAggID ?st = aggID" "moKey ?st = key" using epochState_wf [OF assms] by auto
  have "moSeq ?st = seqOf (aggID, key) e"
    by (auto simp: seqOf_def epochState_def Let_def newMonitor_def resetStateLocked_def split: option.splits)
  then have st: "(aggID, key) = (moAggID (reported (observed v ?st)), moKey (reported (observed v ?st)))"
    "moSeq (reported (observed v ?st)) = seqOf (aggID, key) e + (if reportDue (observed v ?st) then 1 else 0)"
    using wf by (simp_all add: reported_def observed_def)
  show ?thesis by (rule stepped_update [OF assms st(1) _ st(2)]) (auto simp: EngineObserve_eq)
qed

lemma stepped_grant:
  assumes "wfEngine e"
  shows "wfEngine (OnGrant g e) \<and> (\<forall>k. stepped k e (OnGrant g e))"
proof (cases "\<exists>st. map_of (enStates e) (gAggID g, gKey g) = Some st \<and> moWindowStart st = gWindowStartMs g")
  case True
  then obtain st where st: "map_of (enStates e) (gAggID g, gKey g) = Some st" "moWindowStart st = gWindowStartMs g" by blast
  have k: "(gAggID g, gKey g) = (moAggID st, moKey st)" by (rule wfEngine_lookup [OF assms st(1)])
  have sq: "moSeq st = seqOf (gAggID g, gKey g) e" by (simp add: seqOf_def st(1))
  have "OnGrant g e = setState (gAggID g, gKey g) (st\<lparr>moRound := gRound g, moGrantedSampleP := gSampleP g\<rparr>) e" by (simp add: OnGrant_def st)
  then show ?thesis
    by (intro stepped_update [where mk = "(gAggID g, gKey g)" and st = "st\<lparr>moRound := gRound g, moGrantedSampleP := gSampleP g\<rparr>" and extra = "[]" and due = False, OF assms])
      (use k sq in \<open>simp_all add: setState_def\<close>)
next
  case False
  then have "OnGrant g e = e" by (auto simp: OnGrant_def split: option.splits)
  then show ?thesis using assms by (simp add: stepped_def)
qed

lemma stepped_poll:
  assumes "wfEngine e"
  shows "wfEngine (OnPoll p e) \<and> (\<forall>k. stepped k e (OnPoll p e))"
proof (cases "\<exists>st. map_of (enStates e) (plAggID p, plKey p) = Some st \<and> moWindowStart st = plWindowStartMs p")
  case True
  then obtain st where st: "map_of (enStates e) (plAggID p, plKey p) = Some st" "moWindowStart st = plWindowStartMs p" by blast
  define st' where "st' = st\<lparr>moRound := plRound p, moSeq := moSeq st + 1, moReportedAt := moObsCount st\<rparr>"
  have k: "(plAggID p, plKey p) = (moAggID st', moKey st')" using wfEngine_lookup [OF assms st(1)] by (simp add: st'_def)
  have sq: "moSeq st' = seqOf (plAggID p, plKey p) e + (if True then 1 else 0)" by (simp add: seqOf_def st(1) st'_def)
  have "OnPoll p e = sendReportLocked st' (setState (plAggID p, plKey p) st' e)" by (simp add: OnPoll_def st st'_def Let_def)
  then show ?thesis
    by (intro stepped_update [where mk = "(plAggID p, plKey p)" and st = st' and extra = "[]" and due = True, OF assms k _ sq])
      (simp_all add: setState_def sendReportLocked_def)
next
  case False
  then have "OnPoll p e = e" by (auto simp: OnPoll_def split: option.splits)
  then show ?thesis using assms by (simp add: stepped_def)
qed

lemma stepped_run:
  assumes "wfEngine e"
  shows "wfEngine (runEngineOp op e) \<and> (\<forall>k. stepped k e (runEngineOp op e))"
proof (cases op)
  case (OpSetReporter b)
  have "reportsOf k (SetReporter b e) = reportsOf k e" "seqOf k (SetReporter b e) = seqOf k e" for k
    by (simp_all add: SetReporter_def reportsOf_def seqOf_def)
  moreover have "wfEngine (SetReporter b e)" using assms by (simp add: SetReporter_def wfEngine_def)
  ultimately show ?thesis by (simp add: OpSetReporter stepped_def)
qed (use assms in \<open>simp_all add: stepped_observe stepped_grant stepped_poll stepped_mapStates OnClose_def EpochReset_def ForceReregister_def resetStateLocked_def\<close>)

lemma reporter_run: "enReporter (runEngineOp op e) = (case op of OpSetReporter b \<Rightarrow> b | _ \<Rightarrow> enReporter e)"
  by (cases op) (simp_all add: EngineObserve_eq OnGrant_def OnPoll_def OnClose_def EpochReset_def ForceReregister_def SetReporter_def mapStates_def
      setState_def sendReportLocked_def Let_def split: option.split)

text \<open>With a transport throughout, all reports of a monitor are numbered from 1 without gaps, and its state holds the last number.\<close>

definition numberedFor :: "u64 \<times> bytes \<Rightarrow> Engine \<Rightarrow> bool" where
  "numberedFor mk e \<longleftrightarrow> map rpSeq (reportsOf mk e) = map of_nat [1..<Suc (length (reportsOf mk e))] \<and>
     of_nat (length (reportsOf mk e)) = seqOf mk e"

lemma numberedFor_step: "numberedFor mk e \<Longrightarrow> stepped mk e e' \<Longrightarrow> enReporter e \<Longrightarrow> numberedFor mk e'"
  by (auto simp: numberedFor_def stepped_def add.commute)

lemma numbered_fold:
  assumes "wfEngine e" "enReporter e" "numberedFor mk e" "OpSetReporter False \<notin> set ops"
  shows "numberedFor mk (fold runEngineOp ops e)"
  using assms
proof (induction ops arbitrary: e)
  case (Cons op ops)
  have s: "wfEngine (runEngineOp op e)" "stepped mk e (runEngineOp op e)" using stepped_run [OF Cons.prems(1)] by blast+
  have "enReporter (runEngineOp op e)" using Cons.prems(2,4) by (auto simp: reporter_run split: engineOp.splits)
  then show ?case using Cons.IH [OF s(1)] numberedFor_step [OF Cons.prems(3) s(2)] Cons.prems(2,4) by simp
qed simp

text \<open>With transports coming and going numbers may be skipped, but none is used twice.\<close>

definition ascendingFor :: "u64 \<times> bytes \<Rightarrow> nat \<Rightarrow> Engine \<Rightarrow> bool" where
  "ascendingFor mk n e \<longleftrightarrow> sorted_wrt (<) (map rpSeq (reportsOf mk e)) \<and> (\<forall>r \<in> set (reportsOf mk e). rpSeq r \<le> seqOf mk e) \<and> unat (seqOf mk e) \<le> n"

lemma ascendingFor_step:
  assumes "ascendingFor mk n e" "stepped mk e e'" "Suc n < 2 ^ 64"
  shows "ascendingFor mk (Suc n) e'"
proof -
  have n: "unat (seqOf mk e) + 1 < 2 ^ 64" using assms(1,3) by (simp add: ascendingFor_def)
  then have u: "unat (seqOf mk e + 1) = unat (seqOf mk e) + 1" by (simp add: unat_word_ariths(1))
  then have up: "x \<le> seqOf mk e \<Longrightarrow> x < seqOf mk e + 1" for x by (simp add: word_le_nat_alt word_less_nat_alt)
  then have "x \<le> seqOf mk e \<Longrightarrow> x \<le> seqOf mk e + 1" for x by (simp add: less_imp_le)
  then show ?thesis using assms(1,2) up u by (auto simp: ascendingFor_def stepped_def sorted_wrt_append)
qed

lemma ascending_fold:
  assumes "wfEngine e" "ascendingFor mk n e" "n + length ops < 2 ^ 64"
  shows "ascendingFor mk (n + length ops) (fold runEngineOp ops e)"
  using assms
proof (induction ops arbitrary: e n)
  case (Cons op ops)
  have s: "wfEngine (runEngineOp op e)" "stepped mk e (runEngineOp op e)" using stepped_run [OF Cons.prems(1)] by blast+
  have "Suc n < 2 ^ 64" using Cons.prems(3) by simp
  from Cons.IH [OF s(1) ascendingFor_step [OF Cons.prems(2) s(2) this]] Cons.prems(3) show ?case by simp
qed simp

text \<open>
  Property C35. Report numbers serve for recognising repetitions: over any sequence of fewer than \<open>2 ^ 64\<close> calls on a
  new engine, with or without a transport, installed, replaced or removed at any time, the numbers of the reports sent
  for one monitor strictly increase, also across epochs and reconnections; and when a transport is installed before
  the first call, as the edge processor does, and none is removed, they are 1, 2, 3 and so on without gaps.
\<close>
theorem report_numbers:
  "(length ops < 2 ^ 64 \<longrightarrow> sorted_wrt (<) (map rpSeq (reportsOf mk (fold runEngineOp ops (NewEngine edgeID epochWindowMs reporter))))) \<and>
   (OpSetReporter False \<notin> set ops \<longrightarrow>
     (let e = fold runEngineOp ops (SetReporter True (NewEngine edgeID epochWindowMs reporter))
      in map rpSeq (reportsOf mk e) = map of_nat [1..<Suc (length (reportsOf mk e))]))"
proof (intro conjI impI)
  have wf: "wfEngine (NewEngine edgeID epochWindowMs reporter)" "wfEngine (SetReporter True (NewEngine edgeID epochWindowMs reporter))"
    by (simp_all add: wfEngine_def NewEngine_def SetReporter_def)
  have z: "ascendingFor mk 0 (NewEngine edgeID epochWindowMs reporter)" by (simp add: ascendingFor_def reportsOf_def seqOf_def NewEngine_def)
  show "sorted_wrt (<) (map rpSeq (reportsOf mk (fold runEngineOp ops (NewEngine edgeID epochWindowMs reporter))))" if "length ops < 2 ^ 64"
    using ascending_fold [OF wf(1) z] that by (simp add: ascendingFor_def)
  have "numberedFor mk (SetReporter True (NewEngine edgeID epochWindowMs reporter))" "enReporter (SetReporter True (NewEngine edgeID epochWindowMs reporter))"
    by (simp_all add: numberedFor_def seqOf_def NewEngine_def SetReporter_def reportsOf_def)
  from numbered_fold [OF wf(2) this(2,1)]
  show "let e = fold runEngineOp ops (SetReporter True (NewEngine edgeID epochWindowMs reporter))
      in map rpSeq (reportsOf mk e) = map of_nat [1..<Suc (length (reportsOf mk e))]" if "OpSetReporter False \<notin> set ops"
    using that unfolding numberedFor_def Let_def by blast
qed

theorem report_numbers_witness:
  "let ops = [OpObserve 7 [1] 5 60000, OpPoll \<lparr>plAggID = 7, plKey = [1], plRound = 1, plWindowStartMs = 60000\<rparr>, OpEpochReset 120000];
       e = fold runEngineOp ops (SetReporter True (NewEngine ''edge'' 60000 False))
   in map rpSeq (reportsOf (7, [1]) e) = map of_nat [1..<Suc (length (reportsOf (7, [1]) e))] \<and>
      sorted_wrt (<) (map rpSeq (reportsOf (7, [1]) (fold runEngineOp (OpSetReporter True # ops) (NewEngine ''edge'' 60000 False))))"
  using report_numbers [of "[OpObserve 7 [1] 5 60000, OpPoll \<lparr>plAggID = 7, plKey = [1], plRound = 1, plWindowStartMs = 60000\<rparr>, OpEpochReset 120000]" "(7, [1])" "''edge''" 60000 False]
    report_numbers [of "[OpSetReporter True, OpObserve 7 [1] 5 60000, OpPoll \<lparr>plAggID = 7, plKey = [1], plRound = 1, plWindowStartMs = 60000\<rparr>, OpEpochReset 120000]" "(7, [1])" "''edge''" 60000 False]
  by (simp add: Let_def)

text \<open>A report that no transport takes still uses a number: an engine observed before its transport is installed starts at 2.\<close>

lemma early_observation_skips_number:
  "map rpSeq (reportsOf (7, [1]) (fold runEngineOp [OpObserve 7 [1] 5 60000, OpSetReporter True, OpPoll \<lparr>plAggID = 7, plKey = [1], plRound = 1, plWindowStartMs = 60000\<rparr>]
     (NewEngine ''edge'' 60000 False))) = [2]"
  by (simp add: EngineObserve_def OnPoll_def SetReporter_def NewEngine_def newMonitor_def setState_def sendReportLocked_def reportsOf_def reportOf_def ReportEveryN_def Let_def)

text \<open>The only monitor of an aggregation, with the probability it was granted.\<close>

definition grantOf :: "Engine \<Rightarrow> u64 \<times> bytes \<Rightarrow> f64 option" where
  "grantOf e mk = map_option moGrantedSampleP (map_of (enStates e) mk)"

definition soleGrant :: "u64 \<Rightarrow> bytes \<Rightarrow> f64 \<Rightarrow> Engine \<Rightarrow> bool" where
  "soleGrant aggID key p e \<longleftrightarrow> wfEngine e \<and> distinct (map fst (enStates e)) \<and> grantOf e (aggID, key) = Some p \<and>
     (\<forall>k. k \<noteq> key \<longrightarrow> grantOf e (aggID, k) = None)"

fun keepsGrant :: "u64 \<Rightarrow> bytes \<Rightarrow> engineOp \<Rightarrow> bool" where
  "keepsGrant aggID key (OpObserve a k v ws) \<longleftrightarrow> a \<noteq> aggID \<or> k = key"
| "keepsGrant aggID key (OpGrant g) \<longleftrightarrow> gAggID g \<noteq> aggID"
| "keepsGrant aggID key OpForceReregister \<longleftrightarrow> False"
| "keepsGrant aggID key _ \<longleftrightarrow> True"

lemma soleGrant_update:
  assumes "soleGrant aggID key p e" "enStates e' = AList.update mk st (enStates e)" "mk = (moAggID st, moKey st)"
    "if moAggID st = aggID then moKey st = key \<and> moGrantedSampleP st = p' else p' = p"
  shows "soleGrant aggID key p' e'"
proof -
  have wf: "wfEngine e'" using wfEngine_update [of e mk st e'] assms(1-3) by (simp add: soleGrant_def)
  have d: "distinct (map fst (enStates e'))" using assms(1,2) by (simp add: soleGrant_def distinct_update)
  have g: "grantOf e' k = (if k = mk then Some (moGrantedSampleP st) else grantOf e k)" for k
    by (simp add: grantOf_def assms(2) update_conv')
  have old: "grantOf e (aggID, key) = Some p" "k \<noteq> key \<Longrightarrow> grantOf e (aggID, k) = None" for k
    using assms(1) by (simp_all add: soleGrant_def)
  show ?thesis
  proof (cases "moAggID st = aggID")
    case True
    then have "mk = (aggID, key)" "moGrantedSampleP st = p'" using assms(3,4) by simp_all
    then show ?thesis unfolding soleGrant_def using wf d old(2) by (simp add: g)
  next
    case False
    then have "(aggID, k) \<noteq> mk" "p' = p" for k using assms(3,4) by simp_all
    then show ?thesis unfolding soleGrant_def using wf d old by (simp add: g)
  qed
qed

lemma soleGrant_mapStates:
  assumes "soleGrant aggID key p e" "\<forall>st. moAggID (f st) = moAggID st \<and> moKey (f st) = moKey st \<and> moGrantedSampleP (f st) = moGrantedSampleP st"
  shows "soleGrant aggID key p (mapStates f e)"
proof -
  have m: "map_of (enStates (mapStates f e)) mk = map_option f (map_of (enStates e) mk)" for mk
    by (simp add: mapStates_def map_of_map [of f])
  have "map fst (enStates (mapStates f e)) = map fst (enStates e)" by (simp add: mapStates_def case_prod_beta comp_def)
  moreover have "grantOf (mapStates f e) mk = grantOf e mk" for mk
    using assms(2) by (simp add: grantOf_def m option.map_comp comp_def)
  moreover have "wfEngine (mapStates f e)" using assms unfolding wfEngine_def soleGrant_def m by force
  ultimately show ?thesis using assms(1) by (simp only: soleGrant_def) simp
qed

lemma soleGrant_same_states: "soleGrant aggID key p e \<Longrightarrow> enStates e' = enStates e \<Longrightarrow> soleGrant aggID key p e'"
  by (simp add: soleGrant_def wfEngine_def grantOf_def del: map_of_eq_Some_iff)

lemma soleGrant_run:
  assumes "soleGrant aggID key p e" "keepsGrant aggID key op"
  shows "soleGrant aggID key p (runEngineOp op e)"
proof -
  have wf: "wfEngine e" using assms(1) by (simp add: soleGrant_def)
  show ?thesis
  proof (cases op)
    case (OpObserve a k v ws)
    have "moGrantedSampleP (epochState aggID key ws e) = p"
      using assms(1) by (auto simp: soleGrant_def grantOf_def epochState_def Let_def resetStateLocked_def simp del: map_of_eq_Some_iff)
    moreover define st where "st = reported (observed v (epochState a k ws e))"
    have st: "moAggID st = a" "moKey st = k" "moGrantedSampleP st = moGrantedSampleP (epochState a k ws e)"
      using epochState_wf [OF wf, of a k ws] by (simp_all add: st_def reported_def observed_def)
    have "enStates (EngineObserve a k v ws e) = AList.update (a, k) st (enStates e)" by (simp add: EngineObserve_eq st_def)
    from soleGrant_update [OF assms(1) this, of p] calculation show ?thesis using assms(2) OpObserve st by auto
  next
    case (OpGrant g)
    show ?thesis
    proof (cases "map_of (enStates e) (gAggID g, gKey g)")
      case (Some st)
      have st: "(gAggID g, gKey g) = (moAggID st, moKey st)" by (rule wfEngine_lookup [OF wf Some])
      have "soleGrant aggID key p (setState (gAggID g, gKey g) (st\<lparr>moRound := gRound g, moGrantedSampleP := gSampleP g\<rparr>) e)"
        by (rule soleGrant_update [OF assms(1), where mk = "(gAggID g, gKey g)" and
              st = "st\<lparr>moRound := gRound g, moGrantedSampleP := gSampleP g\<rparr>"])
          (use assms(2) OpGrant st in \<open>auto simp: setState_def\<close>)
      then show ?thesis using assms(1) by (simp add: OpGrant OnGrant_def Some)
    qed (simp add: OpGrant OnGrant_def assms(1))
  next
    case (OpPoll pl)
    show ?thesis
    proof (cases "map_of (enStates e) (plAggID pl, plKey pl)")
      case (Some st)
      have st: "(plAggID pl, plKey pl) = (moAggID st, moKey st)" by (rule wfEngine_lookup [OF wf Some])
      have keyed: "moAggID st = aggID \<Longrightarrow> moKey st = key \<and> moGrantedSampleP st = p"
        using assms(1) st Some by (cases "moKey st = key") (auto simp: soleGrant_def grantOf_def simp del: map_of_eq_Some_iff)
      have "soleGrant aggID key p (setState (plAggID pl, plKey pl) (st\<lparr>moRound := plRound pl, moSeq := moSeq st + 1, moReportedAt := moObsCount st\<rparr>) e)"
        by (rule soleGrant_update [OF assms(1), where mk = "(plAggID pl, plKey pl)" and
              st = "st\<lparr>moRound := plRound pl, moSeq := moSeq st + 1, moReportedAt := moObsCount st\<rparr>"])
          (use keyed st in \<open>auto simp: setState_def\<close>)
      then show ?thesis using OpPoll assms(1)
        by (auto simp: OnPoll_def Some sendReportLocked_def Let_def intro: soleGrant_same_states)
    qed (simp add: OpPoll OnPoll_def assms(1))
  next
    case (OpSetReporter b)
    then show ?thesis using soleGrant_same_states [OF assms(1)] by (simp add: SetReporter_def)
  qed (use assms in \<open>auto simp: OnClose_def EpochReset_def resetStateLocked_def intro!: soleGrant_mapStates\<close>)
qed

lemma soleGrant_granted:
  assumes "soleGrant aggID key p e" "f64_less 0 p"
  shows "GrantedSampleP aggID e = p"
proof -
  let ?P = "\<lambda>(mk :: u64 \<times> bytes, st). moAggID st = aggID \<and> f64_less 0 (moGrantedSampleP st)"
  from assms(1) obtain st where st: "map_of (enStates e) (aggID, key) = Some st" "moGrantedSampleP st = p"
    by (auto simp: soleGrant_def grantOf_def simp del: map_of_eq_Some_iff)
  have wf: "wfEngine e" "distinct (map fst (enStates e))" using assms(1) by (auto simp: soleGrant_def)
  have "?P ((aggID, key), st)" using wfEngine_lookup [OF wf(1) st(1)] st(2) assms(2) by simp
  then obtain x where x: "find ?P (enStates e) = Some x"
    using map_of_SomeD [OF st(1)] by (cases "find ?P (enStates e)") (auto simp: find_None_iff)
  then have xs: "x \<in> set (enStates e)" "?P x" by (auto simp: find_Some_iff in_set_conv_nth)
  obtain mk st' where xx: "x = (mk, st')" by fastforce
  have look: "map_of (enStates e) mk = Some st'" using xs(1) wf(2) xx by (simp add: map_of_eq_Some_iff)
  from wfEngine_lookup [OF wf(1) this] have "mk = (aggID, moKey st')" using xs(2) xx by simp
  then have "st' = st" using assms(1) look st(1) by (cases "moKey st' = key") (auto simp: soleGrant_def grantOf_def simp del: map_of_eq_Some_iff)
  then show ?thesis using x xx st(2) by (simp add: GrantedSampleP_def)
qed

text \<open>
  A grant lasts: once the coordinator's grant for the current epoch is accepted, the
  probability the runtime reads for the aggregation is the granted one, through any observations,
  polls, closes, window changes and grants to other aggregations; only a new grant or a reconnection
  changes it. A grant for another epoch changes nothing.
\<close>
theorem grant_persists:
  assumes "soleGrant aggID key p e" "map_of (enStates e) (aggID, key) = Some st" "gAggID g = aggID" "gKey g = key"
    "f64_less 0 (gSampleP g)" "f64_less 0 p" "\<forall>op \<in> set ops. keepsGrant aggID key op"
  shows "GrantedSampleP aggID (fold runEngineOp ops (OnGrant g e)) =
    (if gWindowStartMs g = moWindowStart st then gSampleP g else p)"
proof -
  have run: "soleGrant aggID key q (fold runEngineOp ops e)" if "soleGrant aggID key q e" for q e
    using that assms(7) by (induction ops arbitrary: e) (auto intro: soleGrant_run)
  have wf: "(aggID, key) = (moAggID st, moKey st)" using wfEngine_lookup assms(1,2) soleGrant_def by blast
  have "soleGrant aggID key (if gWindowStartMs g = moWindowStart st then gSampleP g else p) (OnGrant g e)"
  proof (cases "gWindowStartMs g = moWindowStart st")
    case True
    have "soleGrant aggID key (gSampleP g) (setState (aggID, key) (st\<lparr>moRound := gRound g, moGrantedSampleP := gSampleP g\<rparr>) e)"
      by (rule soleGrant_update [OF assms(1), where mk = "(aggID, key)" and
            st = "st\<lparr>moRound := gRound g, moGrantedSampleP := gSampleP g\<rparr>"]) (use wf in \<open>auto simp: setState_def\<close>)
    then show ?thesis using True assms(2-4) by (simp add: OnGrant_def)
  qed (use assms(1-4) in \<open>simp add: OnGrant_def\<close>)
  from soleGrant_granted [OF run [OF this]] assms(5,6) show ?thesis by simp
qed

theorem grant_persists_witness:
  "let st = (newMonitor 7 [1] 0)\<lparr>moGrantedSampleP := 0x3FE0000000000000\<rparr>;
       e = (NewEngine ''edge'' 60000 True)\<lparr>enStates := [((7, [1]), st)]\<rparr>;
       g = \<lparr>gAggID = 7, gKey = [1], gRound = 1, gLocalSlack = 0, gWindowStartMs = 0, gSampleP = 0x3FD0000000000000\<rparr>
   in GrantedSampleP 7 (fold runEngineOp [OpEpochReset 60000, OpObserve 7 [1] 5 60000] (OnGrant g e)) = 0x3FD0000000000000"
  unfolding Let_def
  by (subst grant_persists [where key = "[1]" and p = "0x3FE0000000000000" and st = "(newMonitor 7 [1] 0)\<lparr>moGrantedSampleP := 0x3FE0000000000000\<rparr>"])
    (simp_all add: soleGrant_def grantOf_def NewEngine_def wfEngine_def newMonitor_def f64_eval)

end
