(* ===== verification/Runtime.thy ===== *)
theory Runtime
  imports WindowRotate FrameProtocol MonitorEngine
begin

text \<open>
  The precompute runtime (\<^verbatim>\<open>asap-precompute-go/precompute.go\<close>): the object that owns the configuration, the
  window, the frame receiver, the pending output and the monitor engine, with every method of its
  interface.

  Correspondence. A call is one step. Every method but the two observing ones is one critical section of
  the generation lock; \<^verbatim>\<open>Observe\<close> and \<^verbatim>\<open>ObserveKeyed\<close> are up to three (attempt, rotation, retry), and what
  other goroutines do between them is not modelled. The snapshot cache and the sketch sink, which the runtime shares with the window,
  and the gauge \<^verbatim>\<open>stats.ActiveSeries\<close> are the fields of the window's state. The optional interfaces
  of a sketch that the runtime asserts, the regular-expression compiler, SHA-256 and the reused scratch
  of the key builder are the parameters of \<open>runtimeEnv\<close>. The hooks installed in the window are closures over
  the engine: the model hands the window the sampling hook evaluated on the engine of the moment, and
  delivers the calls the window logged to the engine right after the window call that made them. The
  latency observer is left out. A nil envelope slice is the empty list. \<open>None\<close> as a result is a panic.
\<close>

section \<open>State\<close>

record ('s, 'v) runtimeEnv =
  rtOps :: "('s, 'v) sketchOps"
  rtCompile :: "string \<Rightarrow> (string \<Rightarrow> bool) option"
  rtSha :: "bytes \<Rightarrow> bytes"
  rtScratch :: seriesKeyScratch
  rtEnvelope :: "'v \<Rightarrow> SketchEnvelope option"
  rtSum :: "('s \<Rightarrow> f64) option"
  rtEstimateCount :: "('s \<Rightarrow> bytes \<Rightarrow> f64) option"
  rtLinearReadout :: "('s \<Rightarrow> f64 list \<Rightarrow> f64) option"
  rtEstimateCardinality :: "('s \<Rightarrow> f64) option"
  rtL2Divergence :: "('s \<Rightarrow> f64 \<times> f64) option"
  rtMarkSubWindowEmitted :: "('s \<Rightarrow> 's) option"
  rtSetGosMode :: "(f64 \<Rightarrow> 32 word \<Rightarrow> 's \<Rightarrow> 's) option"
  rtSetGosModeKLL :: "(f64 \<Rightarrow> 's \<Rightarrow> 's) option"
  rtRelativeAccuracy :: "('s \<Rightarrow> f64) option"

record PrecomputeStats =
  stInputObservations :: u64
  stInputEnvelopes :: u64
  stOutputEnvelopes :: u64
  stDroppedOverflow :: u64
  stDroppedLate :: u64
  stDroppedSerialize :: u64
  stLastTickMs :: u64
  stLastEmittedEnvelopes :: u64

record 's precompute =
  pCfg :: "PrecomputeConfig option"
  pPendingCfg :: "PrecomputeConfig option"
  pHasFactory :: bool
  pHasObserver :: bool
  pWindow :: "'s windowState"
  pStats :: PrecomputeStats
  pSketchType :: SketchType
  pClosed :: bool
  pFrameReceiver :: frameReceiver
  pPendingOutput :: "SketchEnvelope list"
  pMonitorEngine :: "Engine option"

datatype precomputeErr = ErrClosed | ErrNoConfig | ErrAggIDMismatch | ErrSketchTypeMismatch | ErrNoFactory | ErrNoObserver
  | ErrWindow windowErr | ErrFrame receiverErr

definition NewPrecomputeStats :: PrecomputeStats where
  "NewPrecomputeStats = \<lparr>stInputObservations = 0, stInputEnvelopes = 0, stOutputEnvelopes = 0, stDroppedOverflow = 0,
     stDroppedLate = 0, stDroppedSerialize = 0, stLastTickMs = 0, stLastEmittedEnvelopes = 0\<rparr>"

section \<open>Configuration\<close>

definition clonePrecomputeConfig :: "('s, 'v) runtimeEnv \<Rightarrow> PrecomputeConfig \<Rightarrow> PrecomputeConfig" where
  "clonePrecomputeConfig env source = source\<lparr>cMatchers := map (prepareMatcher (rtCompile env)) (cMatchers source)\<rparr>"

definition New :: "('s, 'v) runtimeEnv \<Rightarrow> PrecomputeConfig option \<Rightarrow> bool \<Rightarrow> bool \<Rightarrow> 's precompute" where
  "New env initialCfg sketchFactory observer =
     (let p = \<lparr>pCfg = None, pPendingCfg = None, pHasFactory = sketchFactory, pHasObserver = observer, pWindow = newWindowState,
            pStats = NewPrecomputeStats, pSketchType = SketchTypeUnspecified, pClosed = False,
            pFrameReceiver = \<lparr>frLineages = [], frClock = 0\<rparr>, pPendingOutput = [], pMonitorEngine = None\<rparr>
      in case initialCfg of
           None \<Rightarrow> p
         | Some cfg \<Rightarrow> if ValidateMatchers (rtCompile env) (cMatchers cfg)
             then p\<lparr>pCfg := Some (clonePrecomputeConfig env cfg), pSketchType := cSketchType cfg\<rparr> else p)"

section \<open>Monitoring\<close>

definition monitorValue :: "('s, 'v) runtimeEnv \<Rightarrow> MonitorSpec \<Rightarrow> 's \<Rightarrow> f64 option" where
  "monitorValue env spec s =
     (case msFunctional spec of
        FunctionalSum \<Rightarrow> map_option (\<lambda>r. r s) (rtSum env)
      | FunctionalCMSPoint \<Rightarrow> map_option (\<lambda>r. r s (msKey spec)) (rtEstimateCount env)
      | FunctionalLinearBuckets \<Rightarrow> map_option (\<lambda>r. r s (msCoeffs spec)) (rtLinearReadout env))"

fun joinLabels :: "labels \<Rightarrow> string" where
  "joinLabels [] = []"
| "joinLabels [(k, v)] = k @ ''='' @ v"
| "joinLabels ((k, v) # kvs) = k @ ''='' @ v @ '';'' @ joinLabels kvs"

text \<open>Labels have distinct keys, so the order of Go's unstable sort is determined.\<close>

definition groupKeyBytes :: "labels \<Rightarrow> bytes" where
  "groupKeyBytes ls = stringBytes (joinLabels (sort_key fst ls))"

definition applyGrantedSampleP :: "('s, 'v) runtimeEnv \<Rightarrow> Engine \<Rightarrow> u64 \<Rightarrow> SketchType \<Rightarrow> ('s \<Rightarrow> 's) option" where
  "applyGrantedSampleP env eng aggID st =
     (if st \<in> {SketchTypeCountMinSketch, SketchTypeCountSketch, SketchTypeDDSketch}
      then Some (\<lambda>s. let p = GrantedSampleP aggID eng in if f64_le f64_one p \<or> f64_le p 0 then s else skSetSampleP (rtOps env) p s)
      else None)"

text \<open>The observe hook: which engine call an observation recorded by the window leads to.\<close>

definition monitorObserve :: "('s, 'v) runtimeEnv \<Rightarrow> PrecomputeConfig \<Rightarrow> 's seriesEntry \<Rightarrow> u64 \<Rightarrow> Engine \<Rightarrow> Engine" where
  "monitorObserve env cfg entry windowStartMs eng =
     (case monitorValue env (cMonitor cfg) (seSketch entry) of
        None \<Rightarrow> eng
      | Some v \<Rightarrow>
          let key = (if msFunctional (cMonitor cfg) \<noteq> FunctionalCMSPoint then groupKeyBytes (seLabels entry) else msKey (cMonitor cfg))
          in EngineObserve (cAggID cfg) key v windowStartMs eng)"

fun monitorEvent :: "('s, 'v) runtimeEnv \<Rightarrow> PrecomputeConfig \<Rightarrow> 's windowEvent \<Rightarrow> Engine \<Rightarrow> Engine" where
  "monitorEvent env cfg (EvMonitor entry windowStartMs) eng = monitorObserve env cfg entry windowStartMs eng"
| "monitorEvent env cfg (EvMonitorReset newWindowStartMs) eng = EpochReset newWindowStartMs eng"
| "monitorEvent env cfg _ eng = eng"

text \<open>The window after a call, with the calls it logged delivered to the engine.\<close>

definition setWindow :: "('s, 'v) runtimeEnv \<Rightarrow> PrecomputeConfig \<Rightarrow> 's windowState \<Rightarrow> 's precompute \<Rightarrow> 's precompute" where
  "setWindow env cfg w p = p\<lparr>pWindow := w,
     pMonitorEngine := map_option (fold (monitorEvent env cfg) (drop (length (wEvents (pWindow p))) (wEvents w))) (pMonitorEngine p)\<rparr>"

text \<open>The window before a call: the sampling hook reads the engine's current grant.\<close>

definition liveWindow :: "('s, 'v) runtimeEnv \<Rightarrow> PrecomputeConfig \<Rightarrow> 's precompute \<Rightarrow> 's windowState" where
  "liveWindow env cfg p =
     (case (wMonitorSampleHook (pWindow p), pMonitorEngine p) of
        (Some _, Some eng) \<Rightarrow> (pWindow p)\<lparr>wMonitorSampleHook := applyGrantedSampleP env eng (cAggID cfg) (cSketchType cfg)\<rparr>
      | _ \<Rightarrow> pWindow p)"

definition rewireMonitorHooks :: "('s, 'v) runtimeEnv \<Rightarrow> 's precompute \<Rightarrow> 's precompute" where
  "rewireMonitorHooks env p =
     (let off = p\<lparr>pWindow := setMonitorHooks False False None (pWindow p)\<rparr>
      in case (pMonitorEngine p, pCfg p) of
           (Some eng, Some cfg) \<Rightarrow>
             if \<not> msEnabled (cMonitor cfg) \<or> MonitorSpec_Validate (cMonitor cfg) \<noteq> None then off
             else if cSketchType cfg = SketchTypeCountMinSketch \<and> msFunctional (cMonitor cfg) = FunctionalCMSPoint \<and>
               f64_less 0 (cGosDeltaEpsilon cfg) then off
             else p\<lparr>pWindow := setMonitorHooks True True (applyGrantedSampleP env eng (cAggID cfg) (cSketchType cfg)) (pWindow p)\<rparr>
         | _ \<Rightarrow> off)"

definition SetMonitorEngine :: "('s, 'v) runtimeEnv \<Rightarrow> Engine option \<Rightarrow> 's precompute \<Rightarrow> 's precompute" where
  "SetMonitorEngine env e p = rewireMonitorHooks env (p\<lparr>pMonitorEngine := e\<rparr>)"

definition SetWakeHook :: "bool \<Rightarrow> 's precompute \<Rightarrow> 's precompute" where
  "SetWakeHook installed p = p\<lparr>pWindow := setWakeHook installed (pWindow p)\<rparr>"

definition SetSketchSink :: "bool \<Rightarrow> 's precompute \<Rightarrow> 's precompute" where
  "SetSketchSink installed p = p\<lparr>pWindow := (pWindow p)\<lparr>wSink := installed\<rparr>\<rparr>"

section \<open>Changing the configuration\<close>

definition UpdateConfig :: "('s, 'v) runtimeEnv \<Rightarrow> PrecomputeConfigSet option \<Rightarrow> 's precompute \<Rightarrow> 's precompute" where
  "UpdateConfig env cs p =
     (case cs of
        None \<Rightarrow> p
      | Some cs \<Rightarrow>
          if csConfigs cs = [] then p
          else
            let chosen = (case pCfg p of None \<Rightarrow> hd (csConfigs cs)
                  | Some active \<Rightarrow> (case FindByAggID (csConfigs cs) (cAggID active) of None \<Rightarrow> hd (csConfigs cs) | Some c \<Rightarrow> c))
            in if \<not> ValidateMatchers (rtCompile env) (cMatchers chosen) then p
               else
                 let cfgCopy = clonePrecomputeConfig env chosen
                 in if pCfg p \<noteq> None \<and> hasAccumulatedState (pWindow p) then p\<lparr>pPendingCfg := Some cfgCopy\<rparr>
                    else rewireMonitorHooks env (p\<lparr>pCfg := Some cfgCopy, pPendingCfg := None, pSketchType := cSketchType cfgCopy\<rparr>))"

definition activatePendingConfig :: "('s, 'v) runtimeEnv \<Rightarrow> 's precompute \<Rightarrow> 's precompute" where
  "activatePendingConfig env p =
     (case pPendingCfg p of
        None \<Rightarrow> p
      | Some pending \<Rightarrow> rewireMonitorHooks env (p\<lparr>pPendingCfg := None, pCfg := Some pending, pSketchType := cSketchType pending,
          pWindow := (pWindow p)\<lparr>wCache := ResetCache (wCache (pWindow p))\<rparr>\<rparr>))"

definition ResetDeltaBase :: "'s precompute \<Rightarrow> 's precompute" where
  "ResetDeltaBase p = p\<lparr>pWindow := (pWindow p)\<lparr>wCache := ResetCache (wCache (pWindow p))\<rparr>\<rparr>"

section \<open>Serialisation\<close>

definition applyGosMode :: "('s, 'v) runtimeEnv \<Rightarrow> PrecomputeConfig \<Rightarrow> 's \<Rightarrow> 's" where
  "applyGosMode env cfg s =
     (if f64_le (cGosDeltaEpsilon cfg) 0 then s
      else if cSketchType cfg = SketchTypeKLLSketch
        then (case rtSetGosModeKLL env of None \<Rightarrow> s | Some f \<Rightarrow> f (cGosDeltaEpsilon cfg) s)
        else (case rtSetGosMode env of None \<Rightarrow> s | Some f \<Rightarrow> f (cGosDeltaEpsilon cfg) (cGosSites cfg) s))"

text \<open>\<^verbatim>\<open>uint64(cfg.Window.Size / time.Second)\<close> and the attributes of \<^verbatim>\<open>EmitWindowStats\<close>.\<close>

definition windowSeconds :: "PrecomputeConfig \<Rightarrow> u64" where
  "windowSeconds cfg = (let d = sint (wsSize (cWindow cfg)) in word_of_int (sgn d * (\<bar>d\<bar> div 1000000000)))"

definition envelopeLabels :: "PrecomputeConfig \<Rightarrow> 's seriesEntry \<Rightarrow> labels" where
  "envelopeLabels cfg entry =
     SeriesAttrs (seLabels entry) (cAggregateBy cfg) @
     (if cEmitWindowStats cfg
      then [(''sample_count'', FormatUint (seCount entry)), (''window_duration_seconds'', FormatUint (windowSeconds cfg))] else [])"

definition sketchRelativeAccuracy :: "('s, 'v) runtimeEnv \<Rightarrow> 's \<Rightarrow> f64" where
  "sketchRelativeAccuracy env s = (case rtRelativeAccuracy env of None \<Rightarrow> 0 | Some r \<Rightarrow> r s)"

definition makeEnvelope :: "PrecomputeConfig \<Rightarrow> 's seriesEntry \<Rightarrow> u64 \<times> u64 \<Rightarrow> Encoding \<Rightarrow> f64 \<Rightarrow> bytes \<Rightarrow> SketchEnvelope" where
  "makeEnvelope cfg entry rng enc accuracy payload =
     \<lparr>eFrameAttributes = [], eSchemaVersion = 1, eSketchType = cSketchType cfg, eAggKind = cAggKind cfg, eAggID = cAggID cfg,
      eResourceLabels = seResourceLabels entry, eLabels = envelopeLabels cfg entry, eWindowStartMs = fst rng,
      eWindowEndMs = snd rng, eEncoding = enc, ePayload = payload, eMetricName = cMetricName cfg, eCount = seCount entry,
      eTemporality = cTemporality cfg, eRelativeAccuracy = accuracy\<rparr>"

definition deltaEncoding :: "PrecomputeConfig \<Rightarrow> bool \<Rightarrow> Encoding" where
  "deltaEncoding cfg isFull =
     (if cEncoding cfg = EncodingMsgpack then if isFull then EncodingMsgpack else EncodingMsgpackDelta
      else if isFull then EncodingProtoFull else EncodingProtoDelta)"

datatype serializeErr = ErrDelta deltaErr | ErrSnapshotFull string

definition serializeSeries ::
  "('s, 'v) runtimeEnv \<Rightarrow> PrecomputeConfig \<Rightarrow> u64 \<times> u64 \<Rightarrow> string \<times> 's seriesEntry \<Rightarrow> SnapshotCache \<Rightarrow>
     (serializeErr + SketchEnvelope option) \<times> SnapshotCache" where
  "serializeSeries env cfg rng keyed cache =
     (case keyed of (key, entry) \<Rightarrow>
        let seriesKey = (if key = [] then SeriesKeyForEntry cfg (seResourceLabels entry) (seLabels entry) else key);
            wrap = (\<lambda>s enc. map_option (makeEnvelope cfg entry rng enc (sketchRelativeAccuracy env s)))
        in if cDeltaTransmission cfg
           then (case ComputeDelta (rtOps env) seriesKey (cDeltaThreshold cfg) (applyGosMode env cfg (seSketch entry)) cache of
                   (Inl e, _, cache) \<Rightarrow> (Inl (ErrDelta e), cache)
                 | (Inr (payload, isFull), s, cache) \<Rightarrow> (Inr (wrap s (deltaEncoding cfg isFull) payload), cache))
           else (case skSnapshot (rtOps env) (seSketch entry) of
                   Inl e \<Rightarrow> (Inl (ErrSnapshotFull e), cache)
                 | Inr payload \<Rightarrow>
                     (Inr (wrap (seSketch entry) (if cEncoding cfg = EncodingMsgpack then EncodingMsgpack else EncodingProtoFull) payload),
                      snd (CacheOutbound seriesKey payload cache))))"

fun serializeClosed ::
  "('s, 'v) runtimeEnv \<Rightarrow> PrecomputeConfig \<Rightarrow> u64 \<times> u64 \<Rightarrow> u64 \<Rightarrow> 's seriesMap \<Rightarrow> SnapshotCache \<Rightarrow>
     SketchEnvelope list \<times> u64 \<times> SnapshotCache" where
  "serializeClosed env cfg rng generation [] cache = ([], 0, cache)"
| "serializeClosed env cfg rng generation (p # ps) cache =
     (let cache = (if generation \<noteq> 0 then Touch (fst p) generation cache else cache);
          (res, cache) = serializeSeries env cfg rng p cache;
          (envs, dropped, cache) = serializeClosed env cfg rng generation ps cache
      in case res of Inr (Some e) \<Rightarrow> (e # envs, dropped, cache) | _ \<Rightarrow> (envs, dropped + 1, cache))"

definition finishRotate ::
  "('s, 'v) runtimeEnv \<Rightarrow> PrecomputeConfig \<Rightarrow> 's seriesMap \<Rightarrow> u64 \<times> u64 \<Rightarrow> u64 \<Rightarrow> 's precompute \<Rightarrow> SketchEnvelope list \<times> 's precompute" where
  "finishRotate env cfg closed rng nowMs p =
     (if closed = [] then ([], p)
      else
        let w = pWindow p;
            (generation, cache) = (if cDeltaTransmission cfg then BeginGeneration (wCache w) else (0, wCache w));
            (envelopes, dropped, cache) = serializeClosed env cfg rng generation closed cache;
            cache = (if generation \<noteq> 0 then EndGeneration generation cache else cache);
            w = w\<lparr>wCache := cache, wEvents := wEvents w @ (if wSink w then map (EvSink \<circ> fst) closed else [])\<rparr>;
            st = pStats p
        in (envelopes, p\<lparr>pWindow := w, pStats := st\<lparr>stDroppedSerialize := stDroppedSerialize st + dropped,
              stOutputEnvelopes := stOutputEnvelopes st + of_nat (length envelopes),
              stLastEmittedEnvelopes := of_nat (length envelopes), stLastTickMs := nowMs\<rparr>\<rparr>))"

definition takePendingOutput :: "SketchEnvelope list \<Rightarrow> 's precompute \<Rightarrow> SketchEnvelope list \<times> 's precompute" where
  "takePendingOutput current p = (pPendingOutput p @ current, p\<lparr>pPendingOutput := []\<rparr>)"

section \<open>Rotation\<close>

definition Tick :: "('s, 'v) runtimeEnv \<Rightarrow> u64 \<Rightarrow> 's precompute \<Rightarrow> (SketchEnvelope list \<times> 's precompute) option" where
  "Tick env nowMs p =
     (case pCfg p of
        None \<Rightarrow> Some ([], p)
      | Some cfg \<Rightarrow> (case rotate_window (rtOps env) nowMs cfg (pWindow p) of
          None \<Rightarrow> None
        | Some (closed, rng, w) \<Rightarrow>
            let (envelopes, p) = finishRotate env cfg closed rng nowMs (setWindow env cfg w p);
                p = (if rng \<noteq> (0, 0) then activatePendingConfig env p else p)
            in Some (takePendingOutput envelopes p)))"

definition Drain :: "('s, 'v) runtimeEnv \<Rightarrow> 's precompute \<Rightarrow> (SketchEnvelope list \<times> 's precompute) option" where
  "Drain env p =
     (case pCfg p of
        None \<Rightarrow> Some ([], p)
      | Some cfg \<Rightarrow> (case drain (rtOps env) cfg (pWindow p) of
          None \<Rightarrow> None
        | Some (closed, rng, w) \<Rightarrow>
            let (envelopes, p) = finishRotate env cfg closed rng (snd rng) (setWindow env cfg w p)
            in Some (takePendingOutput envelopes (activatePendingConfig env p))))"

definition rotateForFuture :: "('s, 'v) runtimeEnv \<Rightarrow> u64 \<Rightarrow> 's precompute \<Rightarrow> 's precompute option" where
  "rotateForFuture env timestampMs p =
     (case pCfg p of
        None \<Rightarrow> Some p
      | Some cfg \<Rightarrow> (case rotate_window (rtOps env) timestampMs cfg (pWindow p) of
          None \<Rightarrow> None
        | Some (closed, rng, w) \<Rightarrow>
            let (envelopes, p) = finishRotate env cfg closed rng timestampMs (setWindow env cfg w p);
                p = (if rng \<noteq> (0, 0) then activatePendingConfig env p else p)
            in Some (p\<lparr>pPendingOutput := pPendingOutput p @ envelopes\<rparr>)))"

section \<open>Input\<close>

definition observeOnce ::
  "('s, 'v) runtimeEnv \<Rightarrow> string \<Rightarrow> 'v Observation \<Rightarrow> bool \<Rightarrow> 's precompute \<Rightarrow> precomputeErr option \<times> 's precompute" where
  "observeOnce env key obs keyed p =
     (case pCfg p of
        None \<Rightarrow> (Some ErrNoConfig, p)
      | Some cfg \<Rightarrow>
          if \<not> Matches (rtCompile env) cfg obs then (None, p)
          else if \<not> pHasFactory p then (Some ErrNoFactory, p)
          else if \<not> pHasObserver p then (Some ErrNoObserver, p)
          else
            let (e, w) = (if keyed
                  then observeKeyed (rtOps env) (if key = [] then SeriesKeyFor cfg obs else key) obs cfg (liveWindow env cfg p)
                  else observe (rtScratch env) (rtOps env) obs cfg (liveWindow env cfg p))
            in (map_option ErrWindow e, setWindow env cfg w p))"

definition ObserveEnvelope ::
  "('s, 'v) runtimeEnv \<Rightarrow> SketchEnvelope \<Rightarrow> 's precompute \<Rightarrow> precomputeErr option \<times> 's precompute" where
  "ObserveEnvelope env e p =
     (if pClosed p then (Some ErrClosed, p)
      else case pCfg p of
        None \<Rightarrow> (Some ErrNoConfig, p)
      | Some cfg \<Rightarrow>
          if cAggID cfg \<noteq> 0 \<and> eAggID e \<noteq> 0 \<and> eAggID e \<noteq> cAggID cfg then (Some ErrAggIDMismatch, p)
          else if cSketchType cfg \<noteq> SketchTypeUnspecified \<and> eSketchType e \<noteq> SketchTypeUnspecified \<and> eSketchType e \<noteq> cSketchType cfg
            then (Some ErrSketchTypeMismatch, p)
          else if \<not> pHasFactory p then (Some ErrNoFactory, p)
          else case prepare (rtSha env) e (cMaxSeries cfg) (pFrameReceiver p) of
              (Inl err, r) \<Rightarrow> (Some (ErrFrame err), p\<lparr>pFrameReceiver := r\<rparr>)
            | (Inr receipt, r) \<Rightarrow>
                if rcDuplicate receipt then (None, p\<lparr>pFrameReceiver := r\<rparr>)
                else
                  let st = (pStats p)\<lparr>stInputEnvelopes := stInputEnvelopes (pStats p) + 1\<rparr>;
                      (err, w) = observeEnvelope (rtOps env) e cfg (pWindow p);
                      p = setWindow env cfg w p
                  in case err of
                       Some er \<Rightarrow> (Some (ErrWindow er), p\<lparr>pFrameReceiver := r, pStats :=
                         (if er = ErrSeriesCapExceeded then st\<lparr>stDroppedOverflow := stDroppedOverflow st + 1\<rparr> else st)\<rparr>)
                     | None \<Rightarrow> (None, p\<lparr>pFrameReceiver := commit receipt r, pStats := st\<rparr>))"

definition countDrop :: "precomputeErr option \<Rightarrow> PrecomputeStats \<Rightarrow> PrecomputeStats" where
  "countDrop e st =
     (if e = Some (ErrWindow ErrSeriesCapExceeded) then st\<lparr>stDroppedOverflow := stDroppedOverflow st + 1\<rparr>
      else if e = Some (ErrWindow ErrLateData) then st\<lparr>stDroppedLate := stDroppedLate st + 1\<rparr> else st)"

text \<open>The body \<^verbatim>\<open>Observe\<close> and \<^verbatim>\<open>ObserveKeyed\<close> share. The retry rebuilds the key.\<close>

definition observeWith ::
  "('s, 'v) runtimeEnv \<Rightarrow> string \<Rightarrow> bool \<Rightarrow> 'v Observation \<Rightarrow> 's precompute \<Rightarrow> (precomputeErr option \<times> 's precompute) option" where
  "observeWith env key keyed obs p =
     (if pClosed p then Some (Some ErrClosed, p)
      else
        let p = p\<lparr>pStats := (pStats p)\<lparr>stInputObservations := stInputObservations (pStats p) + 1\<rparr>\<rparr>
        in case rtEnvelope env (oValue obs) of
             Some e \<Rightarrow> Some (ObserveEnvelope env e p)
           | None \<Rightarrow>
               let done = (\<lambda>(e, p). Some (e, p\<lparr>pStats := countDrop e (pStats p)\<rparr>))
               in case observeOnce env key obs keyed p of (e, p) \<Rightarrow>
                    if e = Some (ErrWindow ErrFutureData)
                    then (case rotateForFuture env (oTimestampMs obs) p of
                            None \<Rightarrow> None | Some p \<Rightarrow> done (observeOnce env [] obs keyed p))
                    else done (e, p))"

definition Observe :: "('s, 'v) runtimeEnv \<Rightarrow> 'v Observation \<Rightarrow> 's precompute \<Rightarrow> (precomputeErr option \<times> 's precompute) option" where
  "Observe env obs p = observeWith env [] False obs p"

definition ObserveKeyed ::
  "('s, 'v) runtimeEnv \<Rightarrow> string \<Rightarrow> 'v Observation \<Rightarrow> 's precompute \<Rightarrow> (precomputeErr option \<times> 's precompute) option" where
  "ObserveKeyed env key obs p = observeWith env key True obs p"

definition Shutdown :: "string option \<Rightarrow> 's precompute \<Rightarrow> string option \<times> 's precompute" where
  "Shutdown ctxErr p = (if pClosed p then (None, p) else (ctxErr, p\<lparr>pClosed := True\<rparr>))"

section \<open>Sub-window emission\<close>

definition subWindowSegmentMode :: "PrecomputeConfig \<Rightarrow> bool" where
  "subWindowSegmentMode cfg \<longleftrightarrow> cSketchType cfg = SketchTypeKLLSketch"

definition f64_of_u64 :: "u64 \<Rightarrow> f64" where
  "f64_of_u64 n = f64_of_ratio False (unat n) 1"

definition subWindowDivergence :: "('s, 'v) runtimeEnv \<Rightarrow> PrecomputeConfig \<Rightarrow> 's seriesEntry \<Rightarrow> f64 \<times> f64" where
  "subWindowDivergence env cfg entry =
     (let cur = f64_of_u64 (seCount entry); byCount = (f64_sub cur (seAckVal entry), cur)
      in if cAggKind cfg = AggKindSum
         then (case rtSum env of None \<Rightarrow> byCount
           | Some r \<Rightarrow> (f64_abs (f64_sub (r (seSketch entry)) (seAckVal entry)), f64_abs (r (seSketch entry))))
         else if cSketchType cfg = SketchTypeHLLSketch
         then (case rtEstimateCardinality env of None \<Rightarrow> byCount
           | Some r \<Rightarrow> (f64_abs (f64_sub (r (seSketch entry)) (seAckVal entry)), r (seSketch entry)))
         else if cSketchType cfg = SketchTypeCountSketch
         then (case rtL2Divergence env of None \<Rightarrow> byCount | Some r \<Rightarrow> r (seSketch entry))
         else byCount)"

definition subWindowShouldEmit :: "('s, 'v) runtimeEnv \<Rightarrow> PrecomputeConfig \<Rightarrow> 's seriesEntry \<Rightarrow> bool" where
  "subWindowShouldEmit env cfg entry =
     (if cSketchType cfg \<in> {SketchTypeCountSketch, SketchTypeCountMinSketch, SketchTypeDDSketch, SketchTypeHLLSketch} \<and>
         f64_less 0 (cGosDeltaEpsilon cfg) then True
      else if cAggKind cfg = AggKindSum \<and> f64_less 0 (cGosDeltaEpsilon cfg) then True
      else if cSketchType cfg = SketchTypeKLLSketch \<and> f64_less 0 (cGosDeltaEpsilon cfg) then True
      else if f64_le (cSubWindowEpsilon cfg) 0 \<or> \<not> seSubWindowAcked entry then True
      else case subWindowDivergence env cfg entry of (diverged, norm) \<Rightarrow>
        f64_le norm 0 \<or> f64_le (f64_mul (cSubWindowEpsilon cfg) norm) diverged)"

definition subWindowMarkEmitted :: "('s, 'v) runtimeEnv \<Rightarrow> PrecomputeConfig \<Rightarrow> 's seriesEntry \<Rightarrow> 's seriesEntry" where
  "subWindowMarkEmitted env cfg entry =
     (let entry = entry\<lparr>seSubWindowAcked := True\<rparr>; gos = f64_less 0 (cGosDeltaEpsilon cfg)
      in if cAggKind cfg = AggKindSum
         then if gos then entry
              else (case rtSum env of None \<Rightarrow> entry | Some r \<Rightarrow> entry\<lparr>seAckVal := r (seSketch entry)\<rparr>)
         else if cSketchType cfg = SketchTypeHLLSketch
         then if gos then entry
              else (case rtEstimateCardinality env of None \<Rightarrow> entry | Some r \<Rightarrow> entry\<lparr>seAckVal := r (seSketch entry)\<rparr>)
         else if cSketchType cfg = SketchTypeCountSketch
         then if gos then entry
              else (case rtMarkSubWindowEmitted env of None \<Rightarrow> entry | Some r \<Rightarrow> entry\<lparr>seSketch := r (seSketch entry)\<rparr>)
         else if cSketchType cfg \<in> {SketchTypeCountMinSketch, SketchTypeKLLSketch}
         then if gos then entry else entry\<lparr>seAckVal := f64_of_u64 (seCount entry)\<rparr>
         else entry\<lparr>seAckVal := f64_of_u64 (seCount entry)\<rparr>)"

text \<open>The envelope of a live series, its range stamped by the caller; the sketch and the cache move on also without one.\<close>

definition serializeSubWindowSeries ::
  "('s, 'v) runtimeEnv \<Rightarrow> PrecomputeConfig \<Rightarrow> 's seriesEntry \<Rightarrow> SnapshotCache \<Rightarrow>
     (deltaErr + SketchEnvelope option) \<times> 's seriesEntry \<times> SnapshotCache" where
  "serializeSubWindowSeries env cfg entry cache =
     (case ComputeSubWindowDelta (rtOps env) (SeriesKeyForEntry cfg (seResourceLabels entry) (seLabels entry)) (cDeltaThreshold cfg)
        (applyGosMode env cfg (seSketch entry)) cache of
        (Inl e, s, cache) \<Rightarrow> (Inl e, entry\<lparr>seSketch := s\<rparr>, cache)
      | (Inr (payload, isFull), s, cache) \<Rightarrow>
          (Inr (map_option (makeEnvelope cfg entry (0, 0) (if isFull then EncodingProtoFull else EncodingProtoDelta) 0) payload),
           entry\<lparr>seSketch := s\<rparr>, cache))"

definition subWindowEmitOne ::
  "('s, 'v) runtimeEnv \<Rightarrow> PrecomputeConfig \<Rightarrow> string \<times> 's seriesEntry \<Rightarrow> SketchEnvelope list \<times> SnapshotCache \<Rightarrow>
     's seriesEntry \<times> SketchEnvelope list \<times> SnapshotCache" where
  "subWindowEmitOne env cfg keyed st =
     (case (keyed, st) of ((_, entry), (envs, cache)) \<Rightarrow>
        if \<not> subWindowShouldEmit env cfg entry then (entry, envs, cache)
        else case serializeSubWindowSeries env cfg entry cache of
            (Inr (Some e), entry, cache) \<Rightarrow>
              let entry = subWindowMarkEmitted env cfg entry;
                  entry = (if subWindowSegmentMode cfg then entry\<lparr>seSketch := skReset (rtOps env) (seSketch entry)\<rparr> else entry)
              in (entry, envs @ [e], cache)
          | (_, entry, cache) \<Rightarrow> (entry, envs, cache))"

definition EmitSubWindow :: "('s, 'v) runtimeEnv \<Rightarrow> u64 \<Rightarrow> 's precompute \<Rightarrow> SketchEnvelope list \<times> 's precompute" where
  "EmitSubWindow env nowMs p =
     (case pCfg p of
        None \<Rightarrow> ([], p)
      | Some cfg \<Rightarrow>
          if \<not> cDeltaTransmission cfg then ([], p)
          else
            let (rng, w, envelopes, cache) = subWindowVisit cfg (subWindowEmitOne env cfg) (pWindow p) ([], wCache (pWindow p));
                p = p\<lparr>pWindow := w\<lparr>wCache := cache\<rparr>\<rparr>;
                st = pStats p
            in if rng = (0, 0) \<or> envelopes = [] then ([], p)
               else (map (\<lambda>e. e\<lparr>eWindowStartMs := fst rng, eWindowEndMs := snd rng\<rparr>) envelopes,
                     p\<lparr>pStats := st\<lparr>stOutputEnvelopes := stOutputEnvelopes st + of_nat (length envelopes),
                       stLastEmittedEnvelopes := of_nat (length envelopes), stLastTickMs := nowMs\<rparr>\<rparr>))"

end
