(* ===== verification/RuntimeRuns.thy ===== *)
theory RuntimeRuns
  imports Runtime
begin

text \<open>
  The properties of the precompute runtime: the retry of early samples, exactly-once merging of framed
  envelopes, the accounting of output envelopes and of observations over arbitrary runs, staged
  configurations, the composition of the collector plan with the window, and the monitor key.
\<close>

section \<open>Future samples\<close>

lemma setWindow_fields [simp]:
  "pWindow (setWindow env cfg w p) = w" "pCfg (setWindow env cfg w p) = pCfg p" "pPendingCfg (setWindow env cfg w p) = pPendingCfg p"
  "pHasFactory (setWindow env cfg w p) = pHasFactory p" "pHasObserver (setWindow env cfg w p) = pHasObserver p"
  "pStats (setWindow env cfg w p) = pStats p" "pClosed (setWindow env cfg w p) = pClosed p"
  "pFrameReceiver (setWindow env cfg w p) = pFrameReceiver p" "pPendingOutput (setWindow env cfg w p) = pPendingOutput p"
  by (simp_all add: setWindow_def)

lemma rewire_fields [simp]:
  "pCfg (rewireMonitorHooks env p) = pCfg p" "pPendingCfg (rewireMonitorHooks env p) = pPendingCfg p"
  "pStats (rewireMonitorHooks env p) = pStats p" "pPendingOutput (rewireMonitorHooks env p) = pPendingOutput p"
  "pFrameReceiver (rewireMonitorHooks env p) = pFrameReceiver p" "pClosed (rewireMonitorHooks env p) = pClosed p"
  "pHasFactory (rewireMonitorHooks env p) = pHasFactory p" "pHasObserver (rewireMonitorHooks env p) = pHasObserver p"
  "wSeries (pWindow (rewireMonitorHooks env p)) = wSeries (pWindow p)" "wPanes (pWindow (rewireMonitorHooks env p)) = wPanes (pWindow p)"
  "wActiveStartMs (pWindow (rewireMonitorHooks env p)) = wActiveStartMs (pWindow p)"
  "wActiveEndMs (pWindow (rewireMonitorHooks env p)) = wActiveEndMs (pWindow p)"
  "wInitialized (pWindow (rewireMonitorHooks env p)) = wInitialized (pWindow p)"
  by (simp_all add: rewireMonitorHooks_def setMonitorHooks_def Let_def split: option.splits)

lemma activate_fields [simp]:
  "pCfg (activatePendingConfig env p) = (if pPendingCfg p = None then pCfg p else pPendingCfg p)"
  "pPendingCfg (activatePendingConfig env p) = None"
  "pStats (activatePendingConfig env p) = pStats p" "pPendingOutput (activatePendingConfig env p) = pPendingOutput p"
  "pFrameReceiver (activatePendingConfig env p) = pFrameReceiver p" "pClosed (activatePendingConfig env p) = pClosed p"
  "pHasFactory (activatePendingConfig env p) = pHasFactory p" "pHasObserver (activatePendingConfig env p) = pHasObserver p"
  "wSeries (pWindow (activatePendingConfig env p)) = wSeries (pWindow p)" "wPanes (pWindow (activatePendingConfig env p)) = wPanes (pWindow p)"
  "wActiveStartMs (pWindow (activatePendingConfig env p)) = wActiveStartMs (pWindow p)"
  "wActiveEndMs (pWindow (activatePendingConfig env p)) = wActiveEndMs (pWindow p)"
  "wInitialized (pWindow (activatePendingConfig env p)) = wInitialized (pWindow p)"
  by (auto simp: activatePendingConfig_def split: option.splits)

lemma finishRotate_fields [simp]:
  "pCfg (snd (finishRotate env cfg closed rng n p)) = pCfg p" "pPendingCfg (snd (finishRotate env cfg closed rng n p)) = pPendingCfg p"
  "pPendingOutput (snd (finishRotate env cfg closed rng n p)) = pPendingOutput p"
  "pFrameReceiver (snd (finishRotate env cfg closed rng n p)) = pFrameReceiver p" "pClosed (snd (finishRotate env cfg closed rng n p)) = pClosed p"
  "pHasFactory (snd (finishRotate env cfg closed rng n p)) = pHasFactory p" "pHasObserver (snd (finishRotate env cfg closed rng n p)) = pHasObserver p"
  "wSeries (pWindow (snd (finishRotate env cfg closed rng n p))) = wSeries (pWindow p)"
  "wPanes (pWindow (snd (finishRotate env cfg closed rng n p))) = wPanes (pWindow p)"
  "wActiveStartMs (pWindow (snd (finishRotate env cfg closed rng n p))) = wActiveStartMs (pWindow p)"
  "wActiveEndMs (pWindow (snd (finishRotate env cfg closed rng n p))) = wActiveEndMs (pWindow p)"
  "wInitialized (pWindow (snd (finishRotate env cfg closed rng n p))) = wInitialized (pWindow p)"
  by (simp_all add: finishRotate_def Let_def case_prod_beta)

lemma liveWindow_fields [simp]:
  "wSeries (liveWindow env cfg p) = wSeries (pWindow p)" "wPanes (liveWindow env cfg p) = wPanes (pWindow p)"
  "wActiveStartMs (liveWindow env cfg p) = wActiveStartMs (pWindow p)" "wActiveEndMs (liveWindow env cfg p) = wActiveEndMs (pWindow p)"
  "wInitialized (liveWindow env cfg p) = wInitialized (pWindow p)" "wActiveSeries (liveWindow env cfg p) = wActiveSeries (pWindow p)"
  by (simp_all add: liveWindow_def split: option.splits)


lemma recordLocked_no_window_error:
  "fst (recordLocked ops key entry obs w) \<in> {None} \<union> range (\<lambda>e. Some (ErrObserve e))"
  by (auto simp: recordLocked_def Let_def split: prod.splits option.splits)

lemma admitSeriesLocked_error: "fst (admitSeriesLocked ops key obs cfg w) = Inl e \<Longrightarrow> e = ErrSeriesCapExceeded"
  by (auto simp: admitSeriesLocked_def makeRoom_def Let_def split: prod.splits option.splits if_splits OnOverflow.splits)

text \<open>The ways an observation goes through the window: refused or recorded, with the read lock or after opening the window.\<close>

lemma observeWithKey_cases:
  assumes "observeWithKey ops key obs cfg w = (e, w')"
  defines "w0 \<equiv> initWindow (oTimestampMs obs) cfg (captureFactory ops w)"
  obtains (time) x where "wInitialized w" "validateTimestampLocked w (oTimestampMs obs) cfg = Some x" "e = Some x" "w' = w"
  | (fast) entry where "wInitialized w" "map_of (wSeries w) key = Some entry" "recordLocked ops key entry obs w = (e, w')"
  | (slow_time) x where "validateTimestampLocked w0 (oTimestampMs obs) cfg = Some x" "e = Some x" "w' = w0"
  | (known) entry where "map_of (wSeries w0) key = Some entry" "recordLocked ops key entry obs w0 = (e, w')"
  | (refused) er where "map_of (wSeries w0) key = None" "admitSeriesLocked ops key obs cfg w0 = (Inl er, w')" "e = Some er"
  | (admitted) entry w1 where "map_of (wSeries w0) key = None" "admitSeriesLocked ops key obs cfg w0 = (Inr entry, w1)"
      "recordLocked ops key entry obs w1 = (e, w')"
proof (cases "wInitialized w \<and> (validateTimestampLocked w (oTimestampMs obs) cfg \<noteq> None \<or> map_of (wSeries w) key \<noteq> None)")
  case True
  show ?thesis
  proof (cases "validateTimestampLocked w (oTimestampMs obs) cfg")
    case None
    then obtain entry where m: "map_of (wSeries w) key = Some entry" using True by auto
    then have "recordLocked ops key entry obs w = (e, w')" using assms(1) None True by (simp add: observeWithKey_def)
    then show ?thesis using fast True m by blast
  next
    case (Some x)
    then have "e = Some x" "w' = w" using assms(1) True by (simp_all add: observeWithKey_def)
    then show ?thesis using time True Some by blast
  qed
next
  case False
  then have skip: "(if wInitialized w
            then (case validateTimestampLocked w (oTimestampMs obs) cfg of
                    Some e \<Rightarrow> Some (Some e, w)
                  | None \<Rightarrow> (case map_of (wSeries w) key of
                       Some entry \<Rightarrow> Some (recordLocked ops key entry obs w) | None \<Rightarrow> None))
            else None) = None" by auto
  have "(case validateTimestampLocked w0 (oTimestampMs obs) cfg of
                  Some e \<Rightarrow> (Some e, w0)
                | None \<Rightarrow> (case map_of (wSeries w0) key of
                    Some entry \<Rightarrow> recordLocked ops key entry obs w0
                  | None \<Rightarrow> (case admitSeriesLocked ops key obs cfg w0 of
                        (Inl e, w) \<Rightarrow> (Some e, w)
                      | (Inr entry, w) \<Rightarrow> recordLocked ops key entry obs w))) = (e, w')"
    using assms(1) unfolding observeWithKey_def Let_def skip option.case w0_def .
  then show ?thesis using slow_time known refused admitted
    by (auto split: option.splits prod.splits sum.splits)
qed

lemma validate_opened:
  "validateTimestampLocked (initWindow ts cfg (captureFactory ops w)) ts cfg = validateTimestampLocked (initWindow ts cfg w) ts cfg"
  by (simp add: validateTimestampLocked_def initWindow_def captureFactory_def Let_def)

text \<open>The time errors of an observation are exactly those of the validation against the opened bounds.\<close>

lemma observeWithKey_time_error:
  assumes "observeWithKey ops key obs cfg w = (Some e, w')" "e \<in> {ErrFutureData, ErrLateData}"
  shows "validateTimestampLocked (initWindow (oTimestampMs obs) cfg w) (oTimestampMs obs) cfg = Some e \<and>
    w' \<in> {w, initWindow (oTimestampMs obs) cfg (captureFactory ops w)}"
proof -
  have rec: "recordLocked ops key entry obs v \<noteq> (Some e, v')" for entry v v'
    using recordLocked_no_window_error [of ops key entry obs v] assms(2) by auto
  have adm: "admitSeriesLocked ops key obs cfg v \<noteq> (Inl e, v')" for v v'
    using admitSeriesLocked_error [of ops key obs cfg v] assms(2) by auto
  from assms(1) show ?thesis
    by (cases rule: observeWithKey_cases) (auto simp: rec adm validate_opened, simp add: initWindow_def)
qed

text \<open>Advancing for a time beyond the window covers it, also under a configuration the bounds were not made for.\<close>

lemma advanceWindow_catches_up:
  assumes "wActiveStartMs w \<le> wActiveEndMs w" "rotationStepMs cfg \<noteq> 0" "wActiveEndMs w \<le> ts" "unat ts + unat (rotationStepMs cfg) < 2 ^ 64"
  shows "wActiveStartMs (advanceWindow ts cfg w) \<le> ts \<and> ts < wActiveEndMs (advanceWindow ts cfg w)"
proof -
  let ?s = "rotationStepMs cfg" and ?b = "ts div rotationStepMs cfg * rotationStepMs cfg"
  note b = bucket_word [OF assms(2,4)]
  have "unat (wActiveEndMs w) + unat ?s < 2 ^ 64" using assms(3,4) by (simp add: word_le_nat_alt)
  then have e: "unat (wActiveEndMs w + ?s) = unat (wActiveEndMs w) + unat ?s" by (simp add: unat_word_ariths(1))
  have "ts < wActiveEndMs w + ?s" if "?b \<le> wActiveStartMs w"
  proof -
    have "unat ts < unat ?b + unat ?s" using b by (auto simp: word_less_nat_alt word_le_nat_alt unat_bucket)
    also have "\<dots> \<le> unat (wActiveEndMs w) + unat ?s" using that assms(1) by (simp add: word_le_nat_alt)
    finally show ?thesis using e by (simp add: word_less_nat_alt)
  qed
  then show ?thesis using b assms(3) by (auto simp: advanceWindow_def Let_def)
qed

lemma rotate_window_total:
  assumes "cMode cfg = Sliding \<longrightarrow> wSketchFactory w \<noteq> None"
  shows "\<exists>closed rng w'. rotate_window ops now cfg w = Some (closed, rng, w')"
  using assms by (auto simp: rotate_window_def rotateLocked_def rotateSlidingLocked_def Let_def)

lemma observeOnce_future:
  assumes "observeOnce env key obs keyed p = (Some (ErrWindow ErrFutureData), p')" "pCfg p = Some cfg"
  shows "\<exists>w. validateTimestampLocked (initWindow (oTimestampMs obs) cfg (pWindow p)) (oTimestampMs obs) cfg = Some ErrFutureData \<and>
    pWindow p' \<in> {w, initWindow (oTimestampMs obs) cfg (captureFactory (rtOps env) w)} \<and> w = liveWindow env cfg p \<and>
    pCfg p' = pCfg p \<and> pPendingCfg p' = pPendingCfg p"
proof -
  obtain k e w where o: "observeWithKey (rtOps env) k obs cfg (liveWindow env cfg p) = (e, w)" "e = Some ErrFutureData" "p' = setWindow env cfg w p"
    using assms by (auto simp: observeOnce_def observe_def observeKeyed_def Let_def split: if_splits prod.splits)
  have "validateTimestampLocked (initWindow ts cfg (liveWindow env cfg p)) ts cfg = validateTimestampLocked (initWindow ts cfg (pWindow p)) ts cfg" for ts
    by (simp add: validateTimestampLocked_def initWindow_def Let_def)
  with observeWithKey_time_error [OF o(1) [unfolded o(2)]] o(3) show ?thesis by auto
qed

lemma validate_within: "wActiveStartMs w \<le> ts \<Longrightarrow> ts < wActiveEndMs w \<Longrightarrow> validateTimestampLocked w ts cfg = None"
  by (auto simp: validateTimestampLocked_def)

lemma initWindow_covers:
  assumes "\<not> wInitialized w" "rotationStepMs cfg \<noteq> 0" "unat ts + unat (rotationStepMs cfg) < 2 ^ 64"
  shows "validateTimestampLocked (initWindow ts cfg w) ts cfg = None"
  using initWindow_aligned [OF assms] by simp

lemma rotateForFuture_covers:
  assumes "pCfg p = Some cfg" "rotationStepMs cfg \<noteq> 0" "unat ts + unat (rotationStepMs cfg) < 2 ^ 64" "wInitialized (pWindow p)"
    "wActiveStartMs (pWindow p) \<le> wActiveEndMs (pWindow p)" "wActiveEndMs (pWindow p) \<le> ts"
    "cMode cfg = Sliding \<longrightarrow> wSketchFactory (pWindow p) \<noteq> None"
  shows "\<exists>p'. rotateForFuture env ts p = Some p' \<and> pCfg p' \<noteq> None \<and> wInitialized (pWindow p') \<and>
    wActiveStartMs (pWindow p') \<le> ts \<and> ts < wActiveEndMs (pWindow p')"
proof -
  obtain closed rng w where r: "rotate_window (rtOps env) ts cfg (pWindow p) = Some (closed, rng, w)"
    using rotate_window_total [OF assms(7)] by blast
  note b = rotate_window_bounds [OF r assms(4,6)] and c = advanceWindow_catches_up [OF assms(5,2,6,3)]
  show ?thesis using b c assms(1) by (simp add: rotateForFuture_def r Let_def case_prod_beta)
qed

text \<open>
  Property C3. A sample is never refused for being early: under a configuration with a window size, a
  sample beyond the active window makes the runtime close it, keep its envelopes for the next tick,
  switch to a staged configuration if there is one, and admit the sample; whatever the matchers, the
  cap, the mode and the entry point are, the call returns and its error is not the future-data error.
\<close>
theorem Observe_never_future:
  assumes "pCfg p = Some cfg" "rotationStepMs cfg \<noteq> 0" "unat (oTimestampMs obs) + unat (rotationStepMs cfg) < 2 ^ 64"
    "wActiveStartMs (pWindow p) \<le> wActiveEndMs (pWindow p)" "cMode cfg = Sliding \<longrightarrow> wSketchFactory (pWindow p) \<noteq> None"
    "rtEnvelope env (oValue obs) = None"
  shows "\<exists>e p'. observeWith env key keyed obs p = Some (e, p') \<and> e \<noteq> Some (ErrWindow ErrFutureData)"
proof (cases "pClosed p")
  case False
  let ?ts = "oTimestampMs obs"
  define q where "q = p\<lparr>pStats := (pStats p)\<lparr>stInputObservations := stInputObservations (pStats p) + 1\<rparr>\<rparr>"
  obtain e1 p1 where o1: "observeOnce env key obs keyed q = (e1, p1)" by fastforce
  have step: "observeWith env key keyed obs p =
      (if e1 = Some (ErrWindow ErrFutureData)
       then (case rotateForFuture env ?ts p1 of None \<Rightarrow> None
             | Some p2 \<Rightarrow> (case observeOnce env [] obs keyed p2 of (e, p3) \<Rightarrow> Some (e, p3\<lparr>pStats := countDrop e (pStats p3)\<rparr>)))
       else Some (e1, p1\<lparr>pStats := countDrop e1 (pStats p1)\<rparr>))"
    using False assms(6) o1 by (simp add: observeWith_def q_def [symmetric] Let_def)
  show ?thesis
  proof (cases "e1 = Some (ErrWindow ErrFutureData)")
    case True
    have qc: "pCfg q = Some cfg" using assms(1) by (simp add: q_def)
    have qw: "pWindow q = pWindow p" by (simp add: q_def)
    obtain w where w: "w = liveWindow env cfg q" "pWindow p1 \<in> {w, initWindow ?ts cfg (captureFactory (rtOps env) w)}" "pCfg p1 = Some cfg"
      and v: "validateTimestampLocked (initWindow ?ts cfg (pWindow q)) ?ts cfg = Some ErrFutureData"
      using observeOnce_future [OF o1 [unfolded True] qc] qc by auto
    have init: "wInitialized (pWindow p)" using initWindow_covers [OF _ assms(2,3), of "pWindow q"] v qw by force
    then have "wActiveEndMs (pWindow p) \<le> ?ts"
      using v qw by (auto simp: initWindow_def validateTimestampLocked_def Let_def split: if_splits)
    moreover have "wInitialized (pWindow p1)" "wActiveStartMs (pWindow p1) = wActiveStartMs (pWindow p)"
      "wActiveEndMs (pWindow p1) = wActiveEndMs (pWindow p)" "wSketchFactory (pWindow p) \<noteq> None \<Longrightarrow> wSketchFactory (pWindow p1) \<noteq> None"
      using w init qw by (auto simp: initWindow_def captureFactory_def liveWindow_def split: option.splits)
    ultimately obtain p2 where p2: "rotateForFuture env ?ts p1 = Some p2" "pCfg p2 \<noteq> None" "wInitialized (pWindow p2)"
      "wActiveStartMs (pWindow p2) \<le> ?ts" "?ts < wActiveEndMs (pWindow p2)"
      using rotateForFuture_covers [OF w(3) assms(2,3), of env] assms(4,5) by auto
    obtain e3 p3 where o3: "observeOnce env [] obs keyed p2 = (e3, p3)" by fastforce
    have "e3 \<noteq> Some (ErrWindow ErrFutureData)"
    proof
      assume "e3 = Some (ErrWindow ErrFutureData)"
      with observeOnce_future [OF o3 [unfolded this]] p2 validate_within [OF p2(4,5)] show False
        by (auto simp: initWindow_def)
    qed
    then show ?thesis using step True p2(1) o3 by simp
  qed (use step in auto)
qed (simp add: observeWith_def)

section \<open>Envelopes are merged once\<close>

lemma receivedKey_sequence: "receivedKey a = Inr (key, sequence) \<Longrightarrow> sequence \<noteq> 0"
  by (auto simp: receivedKey_def parseRequiredUint_def Let_def split: sum.splits option.splits if_splits)

text \<open>A framed envelope the receiver has accepted is a duplicate from then on.\<close>

lemma prepare_again:
  assumes "prepare sha e limit r = (Inr rc, r')" "eFrameAttributes e \<noteq> []"
  shows "\<exists>rc2 r2. prepare sha e limit (commit rc r') = (Inr rc2, r2) \<and> rcDuplicate rc2"
proof -
  let ?a = "eFrameAttributes e" and ?want = "toLower (lookupAttr (eFrameAttributes e) checksumKey)"
  obtain key sequence where key: "receivedKey ?a = Inr (key, sequence)" and sum: "?want \<noteq> []" "?want = FrameChecksum sha ?a (ePayload e)"
    using assms by (auto simp: prepare_def Let_def split: if_splits sum.splits)
  let ?fp = "sha (stringBytes ?want @ [0] @ ePayload e)"
  have "rsSequence (previousState (commit rc r') key) = sequence \<and> rsFingerprint (previousState (commit rc r') key) = ?fp"
  proof (cases "rcDuplicate rc")
    case True
    then show ?thesis using assms key sum
      by (auto simp: prepare_def Let_def commit_def previousState_setLineage split: if_splits)
  next
    case False
    then have "rcFramed rc" "rcKey rc = key" "rsSequence (rcState rc) = sequence" "rsFingerprint (rcState rc) = ?fp"
      using assms key sum by (auto simp: prepare_def Let_def split: if_splits)
    with False previousState_commit [of rc r'] show ?thesis by simp
  qed
  moreover have "previousState (commit rc r'\<lparr>frClock := c\<rparr>) key = previousState (commit rc r') key" for c
    by (simp add: previousState_def)
  ultimately show ?thesis using assms(2) key sum receivedKey_sequence [OF key] by (simp add: prepare_def Let_def)
qed

lemma prepare_error_keeps: "prepare sha e limit r = (Inl err, r') \<Longrightarrow> frLineages r' = frLineages r"
  by (auto simp: prepare_def Let_def split: if_splits sum.splits)

lemma prepare_fresh_keeps: "prepare sha e limit r = (Inr rc, r') \<Longrightarrow> \<not> rcDuplicate rc \<Longrightarrow> frLineages r' = frLineages r"
  by (auto simp: prepare_def Let_def split: if_splits sum.splits)

text \<open>An envelope that passes the checks of the runtime itself reaches the receiver.\<close>

definition admissible :: "PrecomputeConfig \<Rightarrow> SketchEnvelope \<Rightarrow> 's precompute \<Rightarrow> bool" where
  "admissible cfg e p \<longleftrightarrow> \<not> pClosed p \<and> pCfg p = Some cfg \<and> pHasFactory p \<and>
     \<not> (cAggID cfg \<noteq> 0 \<and> eAggID e \<noteq> 0 \<and> eAggID e \<noteq> cAggID cfg) \<and>
     \<not> (cSketchType cfg \<noteq> SketchTypeUnspecified \<and> eSketchType e \<noteq> SketchTypeUnspecified \<and> eSketchType e \<noteq> cSketchType cfg)"

lemma ObserveEnvelope_admissible:
  assumes "admissible cfg e p" "prepare (rtSha env) e (cMaxSeries cfg) (pFrameReceiver p) = (res, r)"
  shows "ObserveEnvelope env e p =
    (case res of
       Inl err \<Rightarrow> (Some (ErrFrame err), p\<lparr>pFrameReceiver := r\<rparr>)
     | Inr rc \<Rightarrow> if rcDuplicate rc then (None, p\<lparr>pFrameReceiver := r\<rparr>)
         else let st = (pStats p)\<lparr>stInputEnvelopes := stInputEnvelopes (pStats p) + 1\<rparr>;
                  (err, w) = observeEnvelope (rtOps env) e cfg (pWindow p);
                  p = setWindow env cfg w p
              in case err of
                   Some er \<Rightarrow> (Some (ErrWindow er), p\<lparr>pFrameReceiver := r, pStats :=
                     (if er = ErrSeriesCapExceeded then st\<lparr>stDroppedOverflow := stDroppedOverflow st + 1\<rparr> else st)\<rparr>)
                 | None \<Rightarrow> (None, p\<lparr>pFrameReceiver := commit rc r, pStats := st\<rparr>))"
proof -
  have g: "(cAggID cfg \<noteq> 0 \<and> eAggID e \<noteq> 0 \<and> eAggID e \<noteq> cAggID cfg) = False" "pClosed p = False" "pCfg p = Some cfg" "(\<not> pHasFactory p) = False"
    "(cSketchType cfg \<noteq> SketchTypeUnspecified \<and> eSketchType e \<noteq> SketchTypeUnspecified \<and> eSketchType e \<noteq> cSketchType cfg) = False"
    using assms(1) by (auto simp: admissible_def)
  show ?thesis by (simp only: ObserveEnvelope_def g assms(2) option.case if_False prod.case)
qed

lemma ObserveEnvelope_inadmissible:
  assumes "\<forall>cfg. \<not> admissible cfg e p"
  shows "\<exists>err. ObserveEnvelope env e p = (Some err, p)"
  using assms by (cases "pCfg p") (auto simp: ObserveEnvelope_def admissible_def)

section \<open>Runs of the runtime\<close>

text \<open>
  What a call contributes: an observation counts one if it was accepted and matches the configuration
  that handled it, an envelope counts its observations if it was merged.
\<close>

definition mergedCount :: "SketchEnvelope \<Rightarrow> precomputeErr option \<Rightarrow> 's precompute \<Rightarrow> 's precompute \<Rightarrow> u64" where
  "mergedCount e err p p' =
     (if err = None \<and> stInputEnvelopes (pStats p') \<noteq> stInputEnvelopes (pStats p) then eCount e else 0)"

definition observedCount :: "('s, 'v) runtimeEnv \<Rightarrow> 'v Observation \<Rightarrow> precomputeErr option \<Rightarrow> 's precompute \<Rightarrow> 's precompute \<Rightarrow> u64" where
  "observedCount env obs err p p' =
     (case rtEnvelope env (oValue obs) of
        Some e \<Rightarrow> mergedCount e err p p'
      | None \<Rightarrow> if err = None \<and> (case pCfg p' of None \<Rightarrow> False | Some cfg \<Rightarrow> Matches (rtCompile env) cfg obs) then 1 else 0)"

text \<open>
  The states reached by calls in any order, with the envelopes handed out so far and the observations
  counted so far; configurations come from the set \<open>C\<close>.
\<close>

inductive runs :: "('s, 'v) runtimeEnv \<Rightarrow> PrecomputeConfig set \<Rightarrow> 's precompute \<Rightarrow> SketchEnvelope list \<Rightarrow> u64 \<Rightarrow> 's precompute \<Rightarrow> bool"
  for env C p0 where
  run_start: "runs env C p0 [] 0 p0"
| run_observe: "runs env C p0 out n p \<Longrightarrow> observeWith env key keyed obs p = Some (e, p') \<Longrightarrow>
    runs env C p0 out (n + observedCount env obs e p p') p'"
| run_envelope: "runs env C p0 out n p \<Longrightarrow> ObserveEnvelope env e p = (err, p') \<Longrightarrow> runs env C p0 out (n + mergedCount e err p p') p'"
| run_tick: "runs env C p0 out n p \<Longrightarrow> Tick env now p = Some (envs, p') \<Longrightarrow> runs env C p0 (out @ envs) n p'"
| run_drain: "runs env C p0 out n p \<Longrightarrow> Drain env p = Some (envs, p') \<Longrightarrow> runs env C p0 (out @ envs) n p'"
| run_emit: "runs env C p0 out n p \<Longrightarrow> EmitSubWindow env now p = (envs, p') \<Longrightarrow> runs env C p0 (out @ envs) n p'"
| run_update: "runs env C p0 out n p \<Longrightarrow> set (csConfigs cs) \<subseteq> C \<Longrightarrow> runs env C p0 out n (UpdateConfig env (Some cs) p)"
| run_reset: "runs env C p0 out n p \<Longrightarrow> runs env C p0 out n (ResetDeltaBase p)"
| run_engine: "runs env C p0 out n p \<Longrightarrow> runs env C p0 out n (SetMonitorEngine env eng p)"
| run_wake: "runs env C p0 out n p \<Longrightarrow> runs env C p0 out n (SetWakeHook b p)"
| run_sink: "runs env C p0 out n p \<Longrightarrow> runs env C p0 out n (SetSketchSink b p)"
| run_shutdown: "runs env C p0 out n p \<Longrightarrow> runs env C p0 out n (snd (Shutdown ctx p))"

text \<open>The envelopes still owed: the counter of emitted envelopes less those pending.\<close>

definition handedOut :: "'s precompute \<Rightarrow> u64" where
  "handedOut p = stOutputEnvelopes (pStats p) - of_nat (length (pPendingOutput p))"

lemma finishRotate_output:
  "stOutputEnvelopes (pStats (snd (finishRotate env cfg closed rng n p))) =
   stOutputEnvelopes (pStats p) + of_nat (length (fst (finishRotate env cfg closed rng n p)))"
  by (simp add: finishRotate_def Let_def case_prod_beta)

lemma rotateForFuture_handedOut: "rotateForFuture env ts p = Some p' \<Longrightarrow> handedOut p' = handedOut p"
  by (auto simp: rotateForFuture_def handedOut_def finishRotate_output Let_def case_prod_beta split: option.splits if_splits)

lemma observeOnce_stats: "observeOnce env key obs keyed p = (e, p') \<Longrightarrow> pStats p' = pStats p \<and> pPendingOutput p' = pPendingOutput p"
  by (auto simp: observeOnce_def Let_def split: option.splits if_splits prod.splits)

lemma ObserveEnvelope_handedOut: "ObserveEnvelope env e p = (err, p') \<Longrightarrow> handedOut p' = handedOut p"
proof (cases "\<exists>cfg. admissible cfg e p")
  case False
  moreover assume "ObserveEnvelope env e p = (err, p')"
  ultimately show ?thesis using ObserveEnvelope_inadmissible [of e p env] by auto
next
  case True
  moreover assume o: "ObserveEnvelope env e p = (err, p')"
  ultimately obtain cfg where ad: "admissible cfg e p" by blast
  obtain res r where prep: "prepare (rtSha env) e (cMaxSeries cfg) (pFrameReceiver p) = (res, r)" by fastforce
  show ?thesis using o unfolding ObserveEnvelope_admissible [OF ad prep]
    by (auto simp: handedOut_def Let_def split: sum.splits if_splits prod.splits option.splits)
qed

lemma countDrop_output [simp]: "stOutputEnvelopes (countDrop e st) = stOutputEnvelopes st" "stInputEnvelopes (countDrop e st) = stInputEnvelopes st"
  by (simp_all add: countDrop_def)

text \<open>The four ways an observation can go.\<close>

definition countInput :: "'s precompute \<Rightarrow> 's precompute" where
  "countInput p = p\<lparr>pStats := (pStats p)\<lparr>stInputObservations := stInputObservations (pStats p) + 1\<rparr>\<rparr>"

definition dropCounted :: "precomputeErr option \<Rightarrow> 's precompute \<Rightarrow> 's precompute" where
  "dropCounted e p = p\<lparr>pStats := countDrop e (pStats p)\<rparr>"

lemma countInput_fields [simp]:
  "pWindow (countInput p) = pWindow p" "pCfg (countInput p) = pCfg p" "pPendingCfg (countInput p) = pPendingCfg p"
  "pPendingOutput (countInput p) = pPendingOutput p" "handedOut (countInput p) = handedOut p"
  "stInputEnvelopes (pStats (countInput p)) = stInputEnvelopes (pStats p)"
  by (simp_all add: countInput_def handedOut_def)

lemma dropCounted_fields [simp]:
  "pWindow (dropCounted e p) = pWindow p" "pCfg (dropCounted e p) = pCfg p" "pPendingCfg (dropCounted e p) = pPendingCfg p"
  "pPendingOutput (dropCounted e p) = pPendingOutput p" "handedOut (dropCounted e p) = handedOut p"
  by (simp_all add: dropCounted_def handedOut_def)

lemma observeWith_cases:
  assumes "observeWith env key keyed obs p = Some (e, p')"
  obtains (closed) "e = Some ErrClosed" "p' = p"
  | (envelope) en where "rtEnvelope env (oValue obs) = Some en" "ObserveEnvelope env en (countInput p) = (e, p')"
  | (once) p1 where "rtEnvelope env (oValue obs) = None" "observeOnce env key obs keyed (countInput p) = (e, p1)"
      "e \<noteq> Some (ErrWindow ErrFutureData)" "p' = dropCounted e p1"
  | (retry) p1 p2 p3 where "rtEnvelope env (oValue obs) = None"
      "observeOnce env key obs keyed (countInput p) = (Some (ErrWindow ErrFutureData), p1)"
      "rotateForFuture env (oTimestampMs obs) p1 = Some p2" "observeOnce env [] obs keyed p2 = (e, p3)" "p' = dropCounted e p3"
  using assms unfolding observeWith_def countInput_def [symmetric] dropCounted_def [symmetric] Let_def
  by (auto split: if_splits option.splits prod.splits)

lemma observeOnce_handedOut: "observeOnce env key obs keyed p = (e, p') \<Longrightarrow> handedOut p' = handedOut p"
  using observeOnce_stats [of env key obs keyed p e p'] by (simp add: handedOut_def)

lemma observeWith_handedOut:
  assumes "observeWith env key keyed obs p = Some (e, p')"
  shows "handedOut p' = handedOut p"
  using assms
proof (cases rule: observeWith_cases)
  case (envelope en)
  then show ?thesis using ObserveEnvelope_handedOut by fastforce
next
  case (once p1)
  then show ?thesis using observeOnce_handedOut [OF once(2)] by simp
next
  case (retry p1 p2 p3)
  then show ?thesis using observeOnce_handedOut [OF retry(2)] observeOnce_handedOut [OF retry(4)] rotateForFuture_handedOut by fastforce
qed simp

lemma Tick_handedOut: "Tick env now p = Some (envs, p') \<Longrightarrow> handedOut p' = handedOut p + of_nat (length envs) \<and> (pCfg p \<noteq> None \<longrightarrow> pPendingOutput p' = [])"
  by (auto simp: Tick_def handedOut_def takePendingOutput_def finishRotate_output Let_def case_prod_beta split: option.splits if_splits)

lemma Drain_handedOut: "Drain env p = Some (envs, p') \<Longrightarrow> handedOut p' = handedOut p + of_nat (length envs) \<and> (pCfg p \<noteq> None \<longrightarrow> pPendingOutput p' = [])"
  by (auto simp: Drain_def handedOut_def takePendingOutput_def finishRotate_output Let_def case_prod_beta split: option.splits if_splits)

lemma EmitSubWindow_handedOut: "EmitSubWindow env now p = (envs, p') \<Longrightarrow> handedOut p' = handedOut p + of_nat (length envs)"
  by (auto simp: EmitSubWindow_def handedOut_def Let_def split: option.splits if_splits prod.splits)

lemma UpdateConfig_handedOut: "handedOut (UpdateConfig env cs p) = handedOut p"
  by (simp add: UpdateConfig_def handedOut_def Let_def split: option.splits)

lemma setters_fields [simp]:
  "handedOut (ResetDeltaBase p) = handedOut p" "handedOut (SetMonitorEngine env eng p) = handedOut p"
  "handedOut (SetWakeHook b p) = handedOut p" "handedOut (SetSketchSink b p) = handedOut p" "handedOut (snd (Shutdown ctx p)) = handedOut p"
  by (simp_all add: handedOut_def ResetDeltaBase_def SetMonitorEngine_def SetWakeHook_def SetSketchSink_def Shutdown_def)

text \<open>
  Property C2. No envelope is lost or handed out twice: in every run of the runtime from its start, by
  any calls in any order, the counter of output envelopes is the number of envelopes returned to the
  host plus the number waiting from windows that samples closed early; and every tick or drain with a
  configuration hands out all that waited.
\<close>
theorem outputs_accounted:
  assumes "runs env C (New env initial factory observer) out n p"
  shows "stOutputEnvelopes (pStats p) = of_nat (length out) + of_nat (length (pPendingOutput p)) \<and>
    (\<forall>now envs p'. Tick env now p = Some (envs, p') \<and> pCfg p \<noteq> None \<longrightarrow> pPendingOutput p' = []) \<and>
    (\<forall>envs p'. Drain env p = Some (envs, p') \<and> pCfg p \<noteq> None \<longrightarrow> pPendingOutput p' = [])"
proof -
  have "handedOut p = of_nat (length out)" using assms
  proof (induction rule: runs.induct)
    case run_start
    show ?case by (simp add: handedOut_def New_def NewPrecomputeStats_def Let_def split: option.splits)
  qed (auto simp: observeWith_handedOut ObserveEnvelope_handedOut EmitSubWindow_handedOut UpdateConfig_handedOut
    dest: Tick_handedOut Drain_handedOut)
  then show ?thesis using Tick_handedOut [of env _ p] Drain_handedOut [of env p] by (auto simp: handedOut_def algebra_simps)
qed

section \<open>Envelopes stay merged\<close>

text \<open>One call, and the states reached by calls after each of which the receiver still holds the lineage \<open>key\<close>.\<close>

inductive call :: "('s, 'v) runtimeEnv \<Rightarrow> 's precompute \<Rightarrow> 's precompute \<Rightarrow> bool" for env where
  call_observe: "observeWith env key keyed obs p = Some (e, p') \<Longrightarrow> call env p p'"
| call_envelope: "ObserveEnvelope env e p = (err, p') \<Longrightarrow> call env p p'"
| call_tick: "Tick env now p = Some (envs, p') \<Longrightarrow> call env p p'"
| call_drain: "Drain env p = Some (envs, p') \<Longrightarrow> call env p p'"
| call_emit: "EmitSubWindow env now p = (envs, p') \<Longrightarrow> call env p p'"
| call_update: "call env p (UpdateConfig env cs p)"
| call_reset: "call env p (ResetDeltaBase p)"
| call_engine: "call env p (SetMonitorEngine env eng p)"
| call_wake: "call env p (SetWakeHook b p)"
| call_sink: "call env p (SetSketchSink b p)"
| call_shutdown: "call env p (snd (Shutdown ctx p))"

inductive remembering :: "('s, 'v) runtimeEnv \<Rightarrow> frameLineageKey \<Rightarrow> 's precompute \<Rightarrow> 's precompute \<Rightarrow> bool" for env key p0 where
  remember_start: "remembering env key p0 p0"
| remember_call: "remembering env key p0 p \<Longrightarrow> call env p p' \<Longrightarrow> map_of (frLineages (pFrameReceiver p')) key \<noteq> None \<Longrightarrow> remembering env key p0 p'"

text \<open>A receiver that holds a lineage never goes back in it, it can only lose it altogether.\<close>

definition advances :: "frameReceiver \<Rightarrow> frameReceiver \<Rightarrow> bool" where
  "advances r r' \<longleftrightarrow> (\<forall>key st st'. map_of (frLineages r) key = Some st \<longrightarrow> map_of (frLineages r') key = Some st' \<longrightarrow> rsSequence st \<le> rsSequence st')"

lemma advances_same: "frLineages r' = frLineages r \<Longrightarrow> advances r r'"
  by (simp add: advances_def)

lemma map_of_filter_fst: "map_of (filter (\<lambda>p. fst p \<noteq> k) xs) key = (if key = k then None else map_of xs key)"
  by (induction xs) auto

lemma lineage_after_set: "map_of (frLineages (setLineage k st r)) key = (if key = k then Some st else map_of (frLineages r) key)"
  by (simp add: setLineage_def map_of_filter_fst)

lemma lineage_after_commit:
  assumes "rcFramed rc" "\<not> rcDuplicate rc"
  shows "map_of (frLineages (commit rc r)) (rcKey rc) = Some (rcState rc)"
    "map_of (frLineages (commit rc r)) key = Some st \<Longrightarrow> key \<noteq> rcKey rc \<Longrightarrow> map_of (frLineages r) key = Some st"
  using assms by (auto simp: commit_def Let_def lineage_after_set map_of_filter_fst split: if_splits option.splits)

lemma prepare_sequence:
  assumes "prepare sha e limit r = (Inr rc, r')" "rcFramed rc" "\<not> rcDuplicate rc"
  shows "\<exists>n. receivedKey (eFrameAttributes e) = Inr (rcKey rc, n) \<and> rsSequence (rcState rc) = n \<and> n = rsSequence (previousState r (rcKey rc)) + 1"
proof -
  have [simp]: "previousState (r\<lparr>frClock := c\<rparr>) k = previousState r k" for c k by (simp add: previousState_def)
  show ?thesis using assms by (auto simp: prepare_def zeroReceipt_def Let_def split: if_splits sum.splits)
qed

lemma prepare_duplicate:
  assumes "prepare sha e limit r = (Inr rc, r')" "rcDuplicate rc"
  shows "\<exists>key n st. receivedKey (eFrameAttributes e) = Inr (key, n) \<and> map_of (frLineages r) key = Some st \<and> rsSequence st = n \<and>
    frLineages r' = frLineages (setLineage key (st\<lparr>rsLastUsed := frClock r + 1\<rparr>) r)"
  using assms by (auto simp: prepare_def zeroReceipt_def zeroReceived_def previousState_def setLineage_def Let_def split: if_splits sum.splits option.splits)

lemma next_sequence: "(n :: u64) \<noteq> 0 \<Longrightarrow> n = m + 1 \<Longrightarrow> m < n"
  using unatSuc [of m] by (simp add: word_less_nat_alt add.commute)

lemma receipt_advances:
  assumes "prepare sha e limit r = (Inr rc, r')"
  shows "advances r r'" "advances r (commit rc r')"
proof -
  show 1: "advances r r'"
  proof (cases "rcDuplicate rc")
    case True
    then show ?thesis using prepare_duplicate [OF assms] by (auto simp: advances_def lineage_after_set split: if_splits)
  next
    case False
    then show ?thesis using prepare_fresh_keeps [OF assms] advances_same by blast
  qed
  show "advances r (commit rc r')"
  proof (cases "rcFramed rc \<and> \<not> rcDuplicate rc")
    case True
    then obtain n where n: "receivedKey (eFrameAttributes e) = Inr (rcKey rc, n)" "rsSequence (rcState rc) = n" "n = rsSequence (previousState r (rcKey rc)) + 1"
      using prepare_sequence [OF assms] by blast
    have lt: "rsSequence (previousState r (rcKey rc)) < n" using next_sequence [OF receivedKey_sequence [OF n(1)] n(3)] .
    have keep: "frLineages r' = frLineages r" using prepare_fresh_keeps [OF assms] True by blast
    show ?thesis unfolding advances_def
    proof (intro allI impI)
      fix key st st'
      assume l: "map_of (frLineages r) key = Some st" "map_of (frLineages (commit rc r')) key = Some st'"
      show "rsSequence st \<le> rsSequence st'"
      proof (cases "key = rcKey rc")
        case True
        then show ?thesis using l lineage_after_commit(1) [of rc r'] \<open>rcFramed rc \<and> \<not> rcDuplicate rc\<close> n(2) lt by (auto simp: previousState_def)
      next
        case False
        then show ?thesis using l lineage_after_commit(2) [of rc r' key st'] True keep by auto
      qed
    qed
  next
    case False
    then show ?thesis using 1 by (auto simp: commit_def)
  qed
qed

lemma ObserveEnvelope_advances:
  assumes "ObserveEnvelope env e p = (err, p')"
  shows "advances (pFrameReceiver p) (pFrameReceiver p')"
proof (cases "\<exists>cfg. admissible cfg e p")
  case False
  then show ?thesis using ObserveEnvelope_inadmissible [of e p env] assms by (auto simp: advances_same)
next
  case True
  then obtain cfg where ad: "admissible cfg e p" by blast
  obtain res r where prep: "prepare (rtSha env) e (cMaxSeries cfg) (pFrameReceiver p) = (res, r)" by fastforce
  obtain werr w where win: "observeEnvelope (rtOps env) e cfg (pWindow p) = (werr, w)" by fastforce
  show ?thesis
  proof (cases res)
    case (Inl er)
    then show ?thesis using assms prepare_error_keeps prep unfolding ObserveEnvelope_admissible [OF ad prep] by (auto intro: advances_same)
  next
    case (Inr rc)
    note a = receipt_advances [OF prep [unfolded Inr]]
    show ?thesis using assms a unfolding ObserveEnvelope_admissible [OF ad prep] Inr
      by (auto simp: win Let_def split: if_splits option.splits)
  qed
qed

lemma call_advances:
  assumes "call env p p'"
  shows "advances (pFrameReceiver p) (pFrameReceiver p')"
  using assms
proof cases
  case (call_observe key keyed obs e)
  have once: "observeOnce env k o' b q = (er, q') \<Longrightarrow> pFrameReceiver q' = pFrameReceiver q" for k o' b q er q'
    by (auto simp: observeOnce_def Let_def split: option.splits if_splits prod.splits)
  have rot: "rotateForFuture env ts q = Some q' \<Longrightarrow> pFrameReceiver q' = pFrameReceiver q" for ts q q'
    by (auto simp: rotateForFuture_def Let_def case_prod_beta split: option.splits if_splits)
  from call_observe show ?thesis
  proof (cases rule: observeWith_cases)
    case (envelope en)
    then show ?thesis using ObserveEnvelope_advances [of env en "countInput p"] by (simp add: countInput_def)
  qed (auto intro!: advances_same dest!: once rot simp: countInput_def dropCounted_def)
next
  case (call_envelope e err)
  then show ?thesis by (rule ObserveEnvelope_advances)
qed (auto intro!: advances_same simp: Tick_def Drain_def takePendingOutput_def EmitSubWindow_def UpdateConfig_def ResetDeltaBase_def SetMonitorEngine_def
    SetWakeHook_def SetSketchSink_def Shutdown_def Let_def case_prod_beta split: option.splits if_splits)

text \<open>An accepted frame is remembered by its lineage; whatever a lineage remembers is not merged again.\<close>

lemma accepted_lineage:
  assumes "ObserveEnvelope env e p = (None, p')" "eFrameAttributes e \<noteq> []"
  shows "\<exists>key n st. receivedKey (eFrameAttributes e) = Inr (key, n) \<and> map_of (frLineages (pFrameReceiver p')) key = Some st \<and> rsSequence st = n"
proof -
  obtain cfg where ad: "admissible cfg e p" using ObserveEnvelope_inadmissible [of e p env] assms(1) by fastforce
  obtain res r where prep: "prepare (rtSha env) e (cMaxSeries cfg) (pFrameReceiver p) = (res, r)" by fastforce
  obtain werr w where win: "observeEnvelope (rtOps env) e cfg (pWindow p) = (werr, w)" by fastforce
  note eq = assms(1) [unfolded ObserveEnvelope_admissible [OF ad prep]]
  obtain rc where rc: "res = Inr rc" using eq by (cases res) auto
  show ?thesis
  proof (cases "rcDuplicate rc")
    case True
    then have "pFrameReceiver p' = r" using eq rc by auto
    then show ?thesis using prepare_duplicate [OF prep [unfolded rc] True] by (auto simp: lineage_after_set)
  next
    case False
    have fr: "rcFramed rc" using prep False assms(2) unfolding rc by (auto simp: prepare_def Let_def split: if_splits sum.splits)
    have "pFrameReceiver p' = commit rc r" using eq False unfolding rc by (auto simp: win Let_def split: option.splits)
    then show ?thesis using prepare_sequence [OF prep [unfolded rc] fr False] lineage_after_commit(1) [OF fr False] by auto
  qed
qed

lemma remembered_not_merged:
  assumes "receivedKey (eFrameAttributes e) = Inr (key, n)" "map_of (frLineages (pFrameReceiver q)) key = Some st" "n \<le> rsSequence st"
  shows "\<exists>err r. ObserveEnvelope env e q = (err, q\<lparr>pFrameReceiver := r\<rparr>)"
proof (cases "\<exists>cfg. admissible cfg e q")
  case False
  then obtain er where "ObserveEnvelope env e q = (Some er, q)" using ObserveEnvelope_inadmissible by blast
  then show ?thesis by (intro exI [of _ "Some er"] exI [of _ "pFrameReceiver q"]) simp
next
  case True
  then obtain cfg where ad: "admissible cfg e q" by blast
  obtain res r where prep: "prepare (rtSha env) e (cMaxSeries cfg) (pFrameReceiver q) = (res, r)" by fastforce
  have a: "eFrameAttributes e \<noteq> []" using assms(1) by (auto simp: receivedKey_def parseRequiredUint_def lookupAttr_def ParseUint_def)
  have "rcDuplicate rc" if rc: "res = Inr rc" for rc
  proof (rule ccontr)
    assume nd: "\<not> rcDuplicate rc"
    have fr: "rcFramed rc" using prep nd a unfolding rc by (auto simp: prepare_def Let_def split: if_splits sum.splits)
    have "n = rsSequence st + 1" using prepare_sequence [OF prep [unfolded rc] fr nd] assms(1,2) by (auto simp: previousState_def)
    from next_sequence [OF receivedKey_sequence [OF assms(1)] this] assms(3) show False by simp
  qed
  then show ?thesis unfolding ObserveEnvelope_admissible [OF ad prep] by (cases res) auto
qed

lemma remembering_advances:
  assumes "remembering env key p q" "map_of (frLineages (pFrameReceiver p)) key = Some st"
  shows "\<exists>st'. map_of (frLineages (pFrameReceiver q)) key = Some st' \<and> rsSequence st \<le> rsSequence st'"
  using assms
proof (induction rule: remembering.induct)
  case (remember_call p' q')
  then obtain st1 st2 where 1: "map_of (frLineages (pFrameReceiver p')) key = Some st1" "rsSequence st \<le> rsSequence st1"
    "map_of (frLineages (pFrameReceiver q')) key = Some st2" by auto
  then have "rsSequence st1 \<le> rsSequence st2" using call_advances [OF remember_call.hyps(2)] by (auto simp: advances_def)
  with 1 show ?case by auto
qed simp

lemma immediate_redelivery:
  assumes "ObserveEnvelope env e p = (None, p')" "eFrameAttributes e \<noteq> []"
  shows "\<exists>r. ObserveEnvelope env e p' = (None, p'\<lparr>pFrameReceiver := r\<rparr>)"
proof -
  obtain cfg where ad: "admissible cfg e p" using ObserveEnvelope_inadmissible [of e p env] assms(1) by fastforce
  obtain res r where prep: "prepare (rtSha env) e (cMaxSeries cfg) (pFrameReceiver p) = (res, r)" by fastforce
  obtain werr w where win: "observeEnvelope (rtOps env) e cfg (pWindow p) = (werr, w)" by fastforce
  note eq = assms(1) [unfolded ObserveEnvelope_admissible [OF ad prep]]
  obtain rc where rc: "res = Inr rc" using eq by (cases res) auto
  have p': "pFrameReceiver p' = commit rc r" "pClosed p' = pClosed p" "pCfg p' = pCfg p" "pHasFactory p' = pHasFactory p"
    using eq unfolding rc by (auto simp: win Let_def commit_def split: if_splits option.splits)
  obtain rc2 r2 where dup: "prepare (rtSha env) e (cMaxSeries cfg) (pFrameReceiver p') = (Inr rc2, r2)" "rcDuplicate rc2"
    using prepare_again [OF prep [unfolded rc] assms(2)] p'(1) by auto
  have "admissible cfg e p'" using ad p'(2-4) by (simp add: admissible_def)
  from ObserveEnvelope_admissible [OF this dup(1)] dup(2) show ?thesis by auto
qed

lemma refused_keeps_lineages:
  assumes "ObserveEnvelope env e p = (Some err, p')"
  shows "frLineages (pFrameReceiver p') = frLineages (pFrameReceiver p)"
proof (cases "\<exists>cfg. admissible cfg e p")
  case False
  then show ?thesis using ObserveEnvelope_inadmissible [of e p env] assms by auto
next
  case True
  then obtain cfg where ad: "admissible cfg e p" by blast
  obtain res r where prep: "prepare (rtSha env) e (cMaxSeries cfg) (pFrameReceiver p) = (res, r)" by fastforce
  obtain werr w where win: "observeEnvelope (rtOps env) e cfg (pWindow p) = (werr, w)" by fastforce
  show ?thesis using assms prepare_error_keeps prepare_fresh_keeps prep unfolding ObserveEnvelope_admissible [OF ad prep]
    by (cases res) (fastforce simp: win Let_def split: if_splits option.splits)+
qed

text \<open>
  Property C4. Envelopes are merged at most once for as long as their lineage is remembered: when a framed envelope has
  been accepted, delivering it again at once succeeds and changes neither the window nor any counter, and delivering it
  after any further calls, as long as the receiver has not evicted the lineage, changes nothing but the receiver's own
  bookkeeping, whether it is then reported as a duplicate or as a gap; when its merge or its checks fail, the
  receiver's lineages are as before, so that a corrected retry is not taken for a duplicate.
\<close>
theorem ObserveEnvelope_once:
  assumes "ObserveEnvelope env e p = (err, p')"
  shows "case err of
     Some _ \<Rightarrow> frLineages (pFrameReceiver p') = frLineages (pFrameReceiver p)
   | None \<Rightarrow> eFrameAttributes e = [] \<or>
       (\<exists>r. ObserveEnvelope env e p' = (None, p'\<lparr>pFrameReceiver := r\<rparr>)) \<and>
       (\<exists>key n. receivedKey (eFrameAttributes e) = Inr (key, n) \<and>
          (\<forall>q. remembering env key p' q \<longrightarrow> (\<exists>err' r. ObserveEnvelope env e q = (err', q\<lparr>pFrameReceiver := r\<rparr>))))"
proof (cases err)
  case None
  show ?thesis
  proof (cases "eFrameAttributes e = []")
    case False
    note ok = assms [unfolded None]
    obtain key n st where k: "receivedKey (eFrameAttributes e) = Inr (key, n)" "map_of (frLineages (pFrameReceiver p')) key = Some st" "rsSequence st = n"
      using accepted_lineage [OF ok False] by blast
    have "\<exists>err' r. ObserveEnvelope env e q = (err', q\<lparr>pFrameReceiver := r\<rparr>)" if "remembering env key p' q" for q
      using remembering_advances [OF that k(2)] remembered_not_merged [OF k(1)] k(3) by blast
    then show ?thesis using None False k(1) immediate_redelivery [OF ok False] by auto
  qed (simp add: None)
qed (use refused_keeps_lineages assms in auto)

section \<open>Conservation\<close>

definition winMass :: "'s windowState \<Rightarrow> u64" where
  "winMass w = sum_list (map (seCount \<circ> snd) (wSeries w))"

definition envMass :: "SketchEnvelope list \<Rightarrow> u64" where
  "envMass envs = sum_list (map eCount envs)"

lemma envMass_append [simp]: "envMass (xs @ ys) = envMass xs + envMass ys" "envMass [] = 0"
  by (simp_all add: envMass_def)


text \<open>Configurations under which nothing is evicted, merged across panes or sent as a difference.\<close>

definition lossless :: "PrecomputeConfig \<Rightarrow> bool" where
  "lossless cfg \<longleftrightarrow> cMode cfg \<noteq> Sliding \<and> \<not> cDeltaTransmission cfg \<and> (cMaxSeries cfg = 0 \<or> cOnOverflow cfg \<noteq> OnOverflowEvictOldest)"






text \<open>
  A series is dropped at serialisation when its sketch yields no bytes: the families' Snapshot fails, or returns nil as that of an empty Sum or KLL does.
  The runtime counts such series, not what they held; the counts lost with them are the debt of the run.
\<close>

definition unserializable :: "('s, 'v) runtimeEnv \<Rightarrow> 's seriesEntry \<Rightarrow> bool" where
  "unserializable env entry \<longleftrightarrow> (\<nexists>b. skSnapshot (rtOps env) (seSketch entry) = Inr (Some b))"

definition owed :: "('s, 'v) runtimeEnv \<Rightarrow> u64 \<Rightarrow> u64 \<Rightarrow> bool" where
  "owed env dropped m \<longleftrightarrow> (\<exists>lost. dropped = of_nat (length lost) \<and> list_all (unserializable env) lost \<and> sum_list (map seCount lost) = m)"

lemma owed_none [simp]: "owed env 0 0"
  unfolding owed_def by (rule exI [of _ "[]"]) simp














text \<open>The invariant of a lossless run: what was counted is in the window, waiting, or handed out.\<close>

definition conserved :: "('s, 'v) runtimeEnv \<Rightarrow> SketchEnvelope list \<Rightarrow> u64 \<Rightarrow> 's precompute \<Rightarrow> bool" where
  "conserved env out n p \<longleftrightarrow> (\<forall>cfg. pCfg p = Some cfg \<or> pPendingCfg p = Some cfg \<longrightarrow> lossless cfg) \<and>
     (wInitialized (pWindow p) \<or> winMass (pWindow p) = 0) \<and> (pCfg p = None \<longrightarrow> winMass (pWindow p) = 0) \<and>
     owed env (stDroppedSerialize (pStats p)) (n - (envMass out + envMass (pPendingOutput p) + winMass (pWindow p)))"

lemma winMass_cong: "wSeries w = wSeries w' \<Longrightarrow> winMass w = winMass w'"
  by (simp add: winMass_def)



lemma counting_drops [simp]:
  "stDroppedSerialize (pStats (countInput p)) = stDroppedSerialize (pStats p)" "stDroppedSerialize (pStats (dropCounted e p)) = stDroppedSerialize (pStats p)"
  by (simp_all add: countInput_def dropCounted_def countDrop_def split: option.splits windowErr.splits precomputeErr.splits)







lemma conserved_dropCounted [simp]: "conserved env out n (dropCounted e p) = conserved env out n p"
  by (simp add: conserved_def)




lemma setters_conserved [simp]:
  "conserved env out n (ResetDeltaBase p) = conserved env out n p" "conserved env out n (SetMonitorEngine env eng p) = conserved env out n p"
  "conserved env out n (SetWakeHook b p) = conserved env out n p" "conserved env out n (SetSketchSink b p) = conserved env out n p"
  "conserved env out n (snd (Shutdown ctx p)) = conserved env out n p"
  by (simp_all add: conserved_def winMass_def ResetDeltaBase_def SetMonitorEngine_def SetWakeHook_def setWakeHook_def SetSketchSink_def Shutdown_def)


section \<open>Staged configurations\<close>

lemma finishRotate_pending:
  "finishRotate env cfg closed rng now (setWindow env cfg w (p\<lparr>pPendingCfg := c\<rparr>)) =
   (fst (finishRotate env cfg closed rng now (setWindow env cfg w p)),
    (snd (finishRotate env cfg closed rng now (setWindow env cfg w p)))\<lparr>pPendingCfg := c\<rparr>)"
  by (simp add: finishRotate_def setWindow_def Let_def case_prod_beta)

lemma rewire_cache [simp]: "wCache (pWindow (rewireMonitorHooks env p)) = wCache (pWindow p)"
  by (simp add: rewireMonitorHooks_def setMonitorHooks_def Let_def split: option.splits)

lemma activate_pending_cache:
  "scOutbound (wCache (pWindow (activatePendingConfig env (p\<lparr>pPendingCfg := Some c\<rparr>)))) = Map.empty"
  by (simp add: activatePendingConfig_def ResetCache_def)

text \<open>
  Property C30. A configuration change waits for the window: a configuration that arrives while series
  are accumulated leaves the running window untouched, and the next tick emits exactly the envelopes
  it would have emitted without the change; if that tick closes the window, the new configuration,
  with its matchers compiled, is active afterwards and every series starts again from a full frame,
  otherwise the old one stays active.
\<close>
theorem UpdateConfig_staged:
  assumes "pCfg p = Some cfg" "hasAccumulatedState (pWindow p)" "FindByAggID (csConfigs cs) (cAggID cfg) = Some c"
    "ValidateMatchers (rtCompile env) (cMatchers c)" "Tick env now p = Some (out, q)"
    "rotate_window (rtOps env) now cfg (pWindow p) = Some (closed, rng, w)"
  shows "pWindow (UpdateConfig env (Some cs) p) = pWindow p \<and> pCfg (UpdateConfig env (Some cs) p) = Some cfg \<and>
    (\<exists>q'. Tick env now (UpdateConfig env (Some cs) p) = Some (out, q') \<and>
      pCfg q' = Some (if rng = (0, 0) then cfg else clonePrecomputeConfig env c) \<and>
      (rng \<noteq> (0, 0) \<longrightarrow> scOutbound (wCache (pWindow q')) = Map.empty))"
proof -
  have "csConfigs cs \<noteq> []" using assms(3) by auto
  then have u: "UpdateConfig env (Some cs) p = p\<lparr>pPendingCfg := Some (clonePrecomputeConfig env c)\<rparr>"
    using assms(1-4) by (simp add: UpdateConfig_def Let_def)
  have out: "out = pPendingOutput p @ fst (finishRotate env cfg closed rng now (setWindow env cfg w p))"
    using assms(5,6) by (auto simp: Tick_def assms(1) takePendingOutput_def Let_def case_prod_beta split: if_splits)
  show ?thesis unfolding u
    by (simp add: Tick_def assms(1,6) takePendingOutput_def finishRotate_pending out activate_pending_cache)
qed

text \<open>
  In sliding mode the switch comes too early: when a tick rotates a sliding window, the
  staged configuration becomes active although the pane just closed, with the sketches accumulated
  under the old configuration, is still to be merged into the next windows.
\<close>
theorem staged_sliding_mixes:
  assumes "pCfg p = Some cfg" "cMode cfg = Sliding" "pPendingCfg p = Some c" "wInitialized (pWindow p)"
    "wActiveEndMs (pWindow p) \<le> now" "wSeries (pWindow p) \<noteq> []" "wSketchFactory (pWindow p) \<noteq> None" "0 < wActiveEndMs (pWindow p)"
  shows "\<exists>out q. Tick env now p = Some (out, q) \<and> pCfg q = Some c \<and> hasAccumulatedState (pWindow q)"
proof -
  let ?w = "pWindow p"
  let ?pane = "\<lparr>spSeries = wSeries ?w, spStartMs = wActiveStartMs ?w, spEndMs = wActiveEndMs ?w\<rparr>"
  let ?panes = "trimPanes (nat (panesPerWindow cfg)) (closePane ?w)"
  have n: "0 < nat (panesPerWindow cfg)" by (auto simp: panesPerWindow_def Let_def)
  have pane: "?pane \<in> set ?panes" "List.last ?panes = ?pane"
    using n by (auto simp: trimPanes_def closePane_def)
  then have some: "\<not> (\<forall>q \<in> set ?panes. spSeries q = [])" using assms(6) by (metis slidingPane.select_convs(1))
  obtain new where new: "wSketchFactory ?w = Some new" using assms(7) by auto
  define w' where "w' = (advanceWindow now cfg (?w\<lparr>wSeries := []\<rparr>))\<lparr>wPanes := ?panes\<rparr>"
  have rot: "rotate_window (rtOps env) now cfg ?w = Some (mergePanes (rtOps env) new ?panes, (spStartMs (hd ?panes), wActiveEndMs ?w), w')"
    using assms(2,4,5) some pane(2) new by (auto simp: rotate_window_def rotateLocked_def rotateSlidingLocked_def leD Let_def w'_def)
  have rng: "(spStartMs (hd ?panes), wActiveEndMs ?w) \<noteq> (0, 0)" using assms(8) by auto
  have "wPanes w' = ?panes" by (simp add: w'_def)
  then have "hasAccumulatedState v" if "wPanes v = wPanes w'" for v
    using that pane(1) assms(6) unfolding hasAccumulatedState_def by fastforce
  then show ?thesis using rot rng assms(1,3)
    by (simp add: Tick_def takePendingOutput_def Let_def case_prod_beta)
qed

section \<open>From the plan to the window\<close>

lemma planned_step:
  assumes "unat secs * 1000000000 < 2 ^ 63" "cMode cfg = Tumbling" "wsSize (cWindow cfg) = secs * 1000000000" "secs \<noteq> 0"
  shows "rotationStepMs cfg = secs * 1000 \<and> rotationStepMs cfg \<noteq> 0"
proof -
  have "wsSize (cWindow cfg) = of_nat (unat secs * 1000000000)" by (simp add: assms(3))
  then have s: "sint (wsSize (cWindow cfg)) = int (unat secs) * 1000000000"
    using sint_of_nat_u64 [OF assms(1)] by (simp only: of_nat_mult of_nat_numeral)
  have pos: "0 < unat secs" using assms(4) by (simp add: unat_gt_0)
  then have "0 < sint (wsSize (cWindow cfg))" "sgn (sint (wsSize (cWindow cfg))) = 1"
    unfolding s by (simp_all only: zero_less_mult_iff of_nat_0_less_iff zero_less_numeral sgn_pos simp_thms)
  moreover have "\<bar>sint (wsSize (cWindow cfg))\<bar> div 1000000 = int (unat secs * 1000)" unfolding s by simp
  ultimately have "rotationStepMs cfg = word_of_int (int (unat secs * 1000))"
    using assms(2) by (simp add: rotationStepMs_def windowSizeMs_def durMs_def)
  moreover have "word_of_int (int (unat secs * 1000)) = secs * 1000" by simp
  moreover have "unat (secs * 1000) = unat secs * 1000" using assms(1) by (simp add: unat_word_ariths(2))
  then have "secs * 1000 \<noteq> 0" using pos by (metis mult_eq_0_iff not_gr_zero unsigned_0 zero_neq_numeral)
  ultimately show ?thesis by simp
qed

text \<open>
  The plan's cadence is the window's: for every accepted plan, each configuration whose
  window fits Go's duration (at most 9223372036 seconds) rotates its windows exactly every
  \<^verbatim>\<open>emit_every_ms\<close> of the transmission rule of its materialization.
\<close>
theorem plan_cadence:
  assumes "DecodeCollectorPlan oob64 oob32 (Some plan) atEnd cid = Inr cs"
  shows "list_all2 (\<lambda>m cfg. \<exists>r \<in> set (cpTransmissionRules plan). trMaterialization r = cAggID cfg \<and>
      (unat (cmWindowSecs m) * 1000000000 < 2 ^ 63 \<longrightarrow> rotationStepMs cfg = trEmitEveryMS r \<and> rotationStepMs cfg \<noteq> 0))
    (cpMaterializations plan) (csConfigs cs)"
proof -
  from assms obtain rules seen where r: "collectRules cid (cpTransmissionRules plan) [] = Inr rules"
    and c: "collectConfigs oob64 oob32 rules (cpMaterializations plan) [] [] = Inr (seen, csConfigs cs)"
    by (auto simp: DecodeCollectorPlan_def res_bind_eq_Inr_iff split: if_splits prod.splits)
  have set_r: "set rules = (\<lambda>r. (trMaterialization r, r)) ` set (cpTransmissionRules plan)" using collectRules_spec [OF r] by simp
  have "list_all2 (realizes oob64 oob32 rules) (cpMaterializations plan) (csConfigs cs)" using collectConfigs_spec [OF c] by auto
  then show ?thesis
  proof (rule list_all2_mono)
    fix m cfg
    assume "realizes oob64 oob32 rules m cfg"
    then obtain rule where rl: "map_of rules (cmMaterialization m) = Some rule" "validateTransmissionRule rule m = None"
      "precomputeConfig oob64 oob32 rule m = Inr cfg" by (auto simp: realizes_def)
    note f = precomputeConfig_fields [OF rl(3)] and v = validateTransmissionRule_delta [OF rl(2)]
    have "rule \<in> set (cpTransmissionRules plan)" "trMaterialization rule = cAggID cfg"
      using map_of_SomeD [OF rl(1)] set_r f by auto
    then show "\<exists>r \<in> set (cpTransmissionRules plan). trMaterialization r = cAggID cfg \<and>
        (unat (cmWindowSecs m) * 1000000000 < 2 ^ 63 \<longrightarrow> rotationStepMs cfg = trEmitEveryMS r \<and> rotationStepMs cfg \<noteq> 0)"
      using planned_step [of "cmWindowSecs m" cfg] f v by (intro bexI [of _ rule]) auto
  qed
qed

theorem plan_cadence_witness:
  "\<exists>cs cfg. DecodeCollectorPlan (\<lambda>_. 0) (\<lambda>_. 0) (Some (samplePlan 60)) True ''c'' = Inr cs \<and> csConfigs cs = [cfg] \<and>
     rotationStepMs cfg = trEmitEveryMS (sampleRule 60)"
proof -
  obtain cs cfg where cs: "DecodeCollectorPlan (\<lambda>_. 0) (\<lambda>_. 0) (Some (samplePlan 60)) True ''c'' = Inr cs" "csConfigs cs = [cfg]"
    using samplePlan_accepted [of 60 "\<lambda>_. 0" "\<lambda>_. 0"] by auto
  from plan_cadence [OF cs(1)] cs(2) have "rotationStepMs cfg = trEmitEveryMS (sampleRule 60)"
    by (simp add: samplePlan_def sampleMaterialization_def)
  with cs show ?thesis by blast
qed

text \<open>
  A window that does not fit is accepted and stops the aggregation: a plan with a window
  of \<open>2 ^ 55\<close> seconds passes every check, but its duration in nanoseconds wraps to 0, so the
  configuration has no window size.
\<close>
theorem plan_window_wraps:
  "\<exists>cs cfg. DecodeCollectorPlan oob64 oob32 (Some (samplePlan (2 ^ 55))) True ''c'' = Inr cs \<and> csConfigs cs = [cfg] \<and>
     cAggID cfg = 5 \<and> rotationStepMs cfg = 0"
proof -
  have "(2 ^ 55 :: u64) * 1000 \<noteq> 0" "(2 ^ 55 :: u64) \<noteq> 0" by simp_all
  from samplePlan_accepted [OF this, of oob64 oob32] obtain cs cfg where
    cs: "DecodeCollectorPlan oob64 oob32 (Some (samplePlan (2 ^ 55))) True ''c'' = Inr cs" "csConfigs cs = [cfg]"
    and p: "precomputeConfig oob64 oob32 (sampleRule (2 ^ 55)) (sampleMaterialization (2 ^ 55)) = Inr cfg" by blast
  have "(2 ^ 55 :: u64) * 1000000000 = 0" by simp
  then have "rotationStepMs cfg = 0" "cAggID cfg = 5"
    using precomputeConfig_fields [OF p] by (simp_all add: sampleMaterialization_def rotationStepMs_def windowSizeMs_def)
  with cs show ?thesis by blast
qed

section \<open>Monitor keys\<close>

text \<open>
  The monitor key of a series depends on its first sample: under grouping by zone, samples of
  two hosts of one zone have the same series key, but the series created by the first has another
  monitor key than the series created by the second, so two edges of one group report under different keys.
\<close>
theorem monitor_key_of_first_sample:
  "let cfg = zeroConfig\<lparr>cAggID := 7, cAggregateBy := [''zone'']\<rparr>;
       sample = (\<lambda>host. \<lparr>oTimestampMs = 0, oMetric = ''m'', oResourceLabels = [], oLabels = [(''zone'', ''z0''), (''host'', host)],
         oValue = FloatValue 0\<rparr>);
       entry = (\<lambda>host. fst (admitSeriesLocked (sumOps 0 1) (SeriesKeyFor cfg (sample host)) (sample host) cfg newWindowState))
   in SeriesKeyFor cfg (sample ''a'') = SeriesKeyFor cfg (sample ''b'') \<and>
      (\<exists>x y. entry ''a'' = Inr x \<and> entry ''b'' = Inr y \<and> groupKeyBytes (seLabels x) \<noteq> groupKeyBytes (seLabels y))"
  by (simp add: Let_def SeriesKeyFor_def SeriesKey_def writeAttributesKey_def isWholeStream_def effectiveScope_def zeroConfig_def
      admitSeriesLocked_def makeRoom_def newEntry_def groupKeyBytes_def stringBytes_def sort_key_def)

section \<open>Sub-window emission\<close>

text \<open>What a sub-window emission leaves of a series: its key and everything but the sketch and the divergence marks.\<close>

definition seriesFacts :: "string \<times> 's seriesEntry \<Rightarrow> string \<times> labels \<times> labels \<times> u64 \<times> u64" where
  "seriesFacts p = (fst p, seLabels (snd p), seResourceLabels (snd p), seCount (snd p), seLastSeenMs (snd p))"

lemma subWindowMarkEmitted_facts: "seriesFacts (k, subWindowMarkEmitted env cfg e) = seriesFacts (k, e)"
  by (simp add: seriesFacts_def subWindowMarkEmitted_def Let_def split: option.splits)

lemma subWindowEmitOne_facts:
  "subWindowEmitOne env cfg p (envs, c) = (e', envs', c') \<Longrightarrow> seriesFacts (fst p, e') = seriesFacts p"
  using subWindowMarkEmitted_facts [of _ env cfg]
  by (auto simp: subWindowEmitOne_def serializeSubWindowSeries_def Let_def seriesFacts_def split: prod.splits if_splits sum.splits option.splits)

text \<open>An envelope that describes a live series of the window.\<close>

definition describes :: "PrecomputeConfig \<Rightarrow> SketchEnvelope \<Rightarrow> string \<times> 's seriesEntry \<Rightarrow> bool" where
  "describes cfg e p \<longleftrightarrow> eCount e = seCount (snd p) \<and> eLabels e = envelopeLabels cfg (snd p) \<and>
     eResourceLabels e = seResourceLabels (snd p) \<and> eRelativeAccuracy e = 0"

lemma subWindowEmitOne_envs:
  "subWindowEmitOne env cfg p (envs, c) = (e', envs', c') \<Longrightarrow> envs' = envs \<or> (\<exists>e. envs' = envs @ [e] \<and> describes cfg e p)"
  by (auto simp: subWindowEmitOne_def serializeSubWindowSeries_def Let_def describes_def makeEnvelope_def
      split: prod.splits if_splits sum.splits option.splits)

lemma emitAll_facts:
  assumes "fold (\<lambda>p (acc, r). case subWindowEmitOne env cfg p r of (e, r) \<Rightarrow> (acc @ [(fst p, e)], r)) ps (acc, envs, c) = (acc', envs', c')"
  shows "map seriesFacts acc' = map seriesFacts (acc @ ps) \<and>
    (\<exists>new. envs' = envs @ new \<and> length new \<le> length ps \<and> (\<forall>e \<in> set new. \<exists>p \<in> set ps. describes cfg e p))"
  using assms
proof (induction ps arbitrary: acc envs c)
  case (Cons p ps)
  obtain e1 envs1 c1 where one: "subWindowEmitOne env cfg p (envs, c) = (e1, envs1, c1)" by (metis prod.exhaust)
  with Cons.prems have "fold (\<lambda>p (acc, r). case subWindowEmitOne env cfg p r of (e, r) \<Rightarrow> (acc @ [(fst p, e)], r)) ps
      (acc @ [(fst p, e1)], envs1, c1) = (acc', envs', c')" by simp
  from Cons.IH [OF this] subWindowEmitOne_facts [OF one] subWindowEmitOne_envs [OF one] show ?case
    by (auto simp: le_SucI)
qed simp

text \<open>
  Property C31. A sub-window emission does not disturb the window: the bounds and every series with its labels,
  count and last timestamp stay as they were; it returns at most one envelope per series, each stamped with
  the open window's range and with the labels and running count of a live series. Unlike at a rotation, the
  relative accuracy is never set.
\<close>

theorem EmitSubWindow_live:
  assumes "EmitSubWindow env now p = (envs, p')" "pCfg p = Some cfg"
  shows "map seriesFacts (wSeries (pWindow p')) = map seriesFacts (wSeries (pWindow p)) \<and>
    wActiveStartMs (pWindow p') = wActiveStartMs (pWindow p) \<and> wActiveEndMs (pWindow p') = wActiveEndMs (pWindow p) \<and>
    length envs \<le> length (wSeries (pWindow p)) \<and>
    (\<forall>e \<in> set envs. eWindowStartMs e = wActiveStartMs (pWindow p) \<and> eWindowEndMs e = wActiveEndMs (pWindow p) \<and>
       (\<exists>s \<in> set (wSeries (pWindow p)). describes cfg e s))"
proof -
  obtain rng w new c where v: "subWindowVisit cfg (subWindowEmitOne env cfg) (pWindow p) ([], wCache (pWindow p)) = (rng, w, new, c)"
    by (metis prod.exhaust)
  have vis: "map seriesFacts (wSeries w) = map seriesFacts (wSeries (pWindow p)) \<and> wActiveStartMs w = wActiveStartMs (pWindow p) \<and>
      wActiveEndMs w = wActiveEndMs (pWindow p) \<and> (new \<noteq> [] \<longrightarrow> rng = (wActiveStartMs (pWindow p), wActiveEndMs (pWindow p))) \<and>
      length new \<le> length (wSeries (pWindow p)) \<and> (\<forall>e \<in> set new. \<exists>s \<in> set (wSeries (pWindow p)). describes cfg e s)"
    using v by (auto simp: subWindowVisit_def split: if_splits prod.splits dest!: emitAll_facts)
  have upd: "describes cfg (e\<lparr>eWindowStartMs := a, eWindowEndMs := b\<rparr>) s = describes cfg e s" for e a b and s :: "string \<times> 'a seriesEntry"
    by (simp add: describes_def)
  from assms vis v show ?thesis by (auto simp: EmitSubWindow_def Let_def upd split: if_splits)
qed

section \<open>Concrete runs\<close>

text \<open>A runtime over sums, with one-second tumbling windows.\<close>

definition sampleRuntime :: "(SumWrapper, ObservationValue) runtimeEnv" where
  "sampleRuntime = \<lparr>rtOps = sumOps 0 1, rtCompile = \<lambda>_. None,
     rtSha = \<lambda>_. replicate 32 9, rtScratch = \<lparr>skBuf = [], skKeys = []\<rparr>, rtEnvelope = \<lambda>_. None, rtSum = Some swSum, rtEstimateCount = None,
     rtLinearReadout = None, rtEstimateCardinality = None, rtL2Divergence = None, rtMarkSubWindowEmitted = None,
     rtSetGosMode = Some SetGosMode, rtSetGosModeKLL = None, rtRelativeAccuracy = None\<rparr>"

definition samplePrecompute :: "SumWrapper precompute" where
  "samplePrecompute = New sampleRuntime (Some (plainConfig Tumbling 1000 0)) True True"

lemma sampleRuntime_fields [simp]:
  "rtEnvelope sampleRuntime v = None" "rtCompile sampleRuntime = (\<lambda>_. None)"
  "fst (skObserve (rtOps sampleRuntime) s (oValue (sampleAt ts x))) = None"
  by (simp_all add: sampleRuntime_def sumOps_def SumObserve_def sampleAt_def FloatValue_def)

lemma plainConfig_more [simp]: "lossless (plainConfig Tumbling s l)" "cMatchers (plainConfig m s l) = []" "cAggID (plainConfig m s l) = 7"
  by (simp_all add: lossless_def plainConfig_def zeroConfig_def)

lemma clone_plain [simp]: "clonePrecomputeConfig env (plainConfig m s l) = plainConfig m s l"
  by (simp add: clonePrecomputeConfig_def)

lemma samplePrecompute_fields [simp]:
  "pCfg samplePrecompute = Some (plainConfig Tumbling 1000 0)" "pPendingCfg samplePrecompute = None" "pWindow samplePrecompute = newWindowState"
  "\<not> pClosed samplePrecompute" "pHasFactory samplePrecompute" "pHasObserver samplePrecompute"
  by (simp_all add: samplePrecompute_def New_def ValidateMatchers_def Let_def)

theorem Observe_never_future_witness:
  "\<exists>e p'. observeWith sampleRuntime [] False (sampleAt 9321 0) (samplePrecompute\<lparr>pWindow := openWindow\<rparr>) = Some (e, p') \<and>
     e \<noteq> Some (ErrWindow ErrFutureData)"
  by (rule Observe_never_future [where cfg = "plainConfig Tumbling 1000 0"]) (simp_all add: sampleAt_def)


text \<open>The first sample opens the window and is accepted.\<close>

lemma sample_accepted:
  "\<exists>p'. observeWith sampleRuntime [] False (sampleAt 5321 x) samplePrecompute = Some (None, p') \<and> pCfg p' = Some (plainConfig Tumbling 1000 0)"
proof -
  let ?o = "sampleAt 5321 x" and ?c = "plainConfig Tumbling 1000 0" and ?p = "countInput samplePrecompute"
  let ?k = "skBuf (buildSeriesKey ?c (getSeriesKeyScratch (rtScratch sampleRuntime)) ?o)"
  have live: "liveWindow sampleRuntime ?c ?p = newWindowState" by (simp add: liveWindow_def newWindowState_def)
  obtain e w' where o: "observeWithKey (rtOps sampleRuntime) ?k ?o ?c newWindowState = (e, w')" by fastforce
  have rec: "fst (recordLocked (rtOps sampleRuntime) k entry ?o w) = None" for k entry w
    by (rule recordLocked_ok) simp
  from o have "e = None"
  proof (cases rule: observeWithKey_cases)
    case (slow_time x)
    then show ?thesis by (simp add: initWindow_def captureFactory_def newWindowState_def validateTimestampLocked_def sampleAt_def Let_def)
  next
    case (refused er)
    then show ?thesis by (simp add: admitSeriesLocked_def makeRoom_def Let_def)
  next
    case (admitted entry w1)
    then show ?thesis using rec [of ?k entry w1] by simp
  next
    case (known entry)
    then show ?thesis by (simp add: initWindow_def captureFactory_def newWindowState_def Let_def)
  qed (simp_all add: newWindowState_def)
  then have once: "observeOnce sampleRuntime [] ?o False ?p = (None, setWindow sampleRuntime ?c w' ?p)"
    using o by (simp add: observeOnce_def Matches_def observe_def live Let_def)
      (simp add: countInput_def)
  have "\<not> pClosed samplePrecompute" by simp
  then show ?thesis
    unfolding observeWith_def countInput_def [symmetric] dropCounted_def [symmetric] by (simp add: once Let_def)
qed

theorem outputs_accounted_witness:
  "\<exists>p. runs sampleRuntime {} samplePrecompute [] 1 p \<and> stOutputEnvelopes (pStats p) = of_nat (length (pPendingOutput p))"
proof -
  obtain p where o: "observeWith sampleRuntime [] False (sampleAt 5321 0) samplePrecompute = Some (None, p)"
    "pCfg p = Some (plainConfig Tumbling 1000 0)" using sample_accepted by blast
  have "runs sampleRuntime {} samplePrecompute [] (0 + observedCount sampleRuntime (sampleAt 5321 0) None samplePrecompute p) p"
    by (rule run_observe [OF run_start o(1)])
  then have r: "runs sampleRuntime {} samplePrecompute [] 1 p" using o(2) by (simp add: observedCount_def Matches_def)
  from outputs_accounted [OF r [unfolded samplePrecompute_def]] r show ?thesis by auto
qed


text \<open>The first frame of a lineage, carrying a sum.\<close>

definition sampleFrame :: SummaryFrameIdentity where
  "sampleFrame = frameOf (samplePlan 60) (sampleRule 60) ''e1'' ''x'' 0 60 \<lparr>lsSequence = 1, lsCheckpointID = ''c'', lsCheckpointAtMS = 9\<rparr> True"

definition sampleFramed :: SketchEnvelope where
  "sampleFramed = sealedEnvelope (\<lambda>_. replicate 32 9) sampleFrame (sampleEnvelope\<lparr>ePayload := sumPayload f64_one 1\<rparr>)"

lemma sampleFramed_prepared:
  "\<exists>rc r. prepare (\<lambda>_. replicate 32 9) sampleFramed 0 \<lparr>frLineages = [], frClock = 0\<rparr> = (Inr rc, r) \<and> \<not> rcDuplicate rc"
proof -
  have "validFrame sampleFrame" by (simp add: validFrame_def sampleFrame_def frameOf_def samplePlan_def sampleRule_def)
  from prepare_carries [OF carries_sealed this, of "\<lambda>_. replicate 32 9" "sampleEnvelope\<lparr>ePayload := sumPayload f64_one 1\<rparr>" 0 "\<lparr>frLineages = [], frClock = 0\<rparr>"]
  show ?thesis by (simp add: sampleFramed_def previousState_def zeroReceived_def) (simp add: sampleFrame_def frameOf_def)
qed

lemma sampleFramed_merged:
  "\<exists>w. observeEnvelope (rtOps sampleRuntime) sampleFramed (plainConfig Tumbling 1000 0) newWindowState = (None, w)"
  by (simp add: observeEnvelope_def admitEnvelope_def initWindow_def captureFactory_def newWindowState_def makeRoom_def applyEnvelope_def isDelta_def isFullEncoding_def
      mergeFullEnvelope_def sampleFramed_def sealedEnvelope_def sampleEnvelope_def sampleRuntime_def sumOps_def SumApplyDelta_def SumMerge_def
      sumPayloadLen_def Let_def)

lemma sampleFramed_accepted:
  "\<exists>p'. ObserveEnvelope sampleRuntime sampleFramed samplePrecompute = (None, p')"
proof -
  obtain rc r where rc: "prepare (rtSha sampleRuntime) sampleFramed (cMaxSeries (plainConfig Tumbling 1000 0)) (pFrameReceiver samplePrecompute) = (Inr rc, r)" "\<not> rcDuplicate rc"
    using sampleFramed_prepared by (auto simp: sampleRuntime_def samplePrecompute_def New_def ValidateMatchers_def Let_def plainConfig_def zeroConfig_def)
  have ad: "admissible (plainConfig Tumbling 1000 0) sampleFramed samplePrecompute"
    by (simp add: admissible_def) (simp add: sampleFramed_def sealedEnvelope_def sampleEnvelope_def)
  obtain w where w: "observeEnvelope (rtOps sampleRuntime) sampleFramed (plainConfig Tumbling 1000 0) (pWindow samplePrecompute) = (None, w)"
    using sampleFramed_merged by auto
  show ?thesis using rc(2) w by (simp add: ObserveEnvelope_admissible [OF ad rc(1)] Let_def)
qed

theorem ObserveEnvelope_once_witness:
  "\<exists>p' err' r key n. ObserveEnvelope sampleRuntime sampleFramed samplePrecompute = (None, p') \<and>
     receivedKey (eFrameAttributes sampleFramed) = Inr (key, n) \<and> remembering sampleRuntime key p' (ResetDeltaBase p') \<and>
     ObserveEnvelope sampleRuntime sampleFramed (ResetDeltaBase p') = (err', (ResetDeltaBase p')\<lparr>pFrameReceiver := r\<rparr>)"
proof -
  have framed: "eFrameAttributes sampleFramed \<noteq> []" by (simp add: sampleFramed_def sealedEnvelope_def)
  obtain p' where ok: "ObserveEnvelope sampleRuntime sampleFramed samplePrecompute = (None, p')" using sampleFramed_accepted by blast
  from ObserveEnvelope_once [OF ok] framed obtain key n where k: "receivedKey (eFrameAttributes sampleFramed) = Inr (key, n)"
    "\<forall>q. remembering sampleRuntime key p' q \<longrightarrow> (\<exists>err' r. ObserveEnvelope sampleRuntime sampleFramed q = (err', q\<lparr>pFrameReceiver := r\<rparr>))" by auto
  have "map_of (frLineages (pFrameReceiver p')) key \<noteq> None" using accepted_lineage [OF ok framed] k(1) by auto
  then have "map_of (frLineages (pFrameReceiver (ResetDeltaBase p'))) key \<noteq> None" by (simp add: ResetDeltaBase_def)
  then have "remembering sampleRuntime key p' (ResetDeltaBase p')" by (rule remember_call [OF remember_start call_reset])
  then show ?thesis using ok k by blast
qed

text \<open>A window holding one series, under a tumbling or a sliding configuration.\<close>

definition busySketch :: SumWrapper where
  "busySketch = Update f64_one (skNew (sumOps 0 1))"

definition busyWindow :: "SumWrapper windowState" where
  "busyWindow = openWindow\<lparr>wSeries := [(''k'', (newEntry busySketch [] [] 5100)\<lparr>seCount := 1\<rparr>)]\<rparr>"

lemma busySketch_snapshot: "skSnapshot (rtOps sampleRuntime) busySketch = Inr (Some (sumPayload (swSum busySketch) 1))"
  by (simp add: sampleRuntime_def busySketch_def sumOps_def SumSnapshot_def SetGosMode_def NewSumWrapper_def Update_def f64_zero_order Let_def)

lemma busyWindow_fields [simp]:
  "wSeries busyWindow = [(''k'', (newEntry busySketch [] [] 5100)\<lparr>seCount := 1\<rparr>)]" "wInitialized busyWindow" "wActiveEndMs busyWindow = 6000"
  "wActiveStartMs busyWindow = 5000" "wSketchFactory busyWindow \<noteq> None" "hasAccumulatedState busyWindow"
  by (simp_all add: busyWindow_def hasAccumulatedState_def)

theorem UpdateConfig_staged_witness:
  "let cs = \<lparr>csVersion = 2, csCollectorPlan = None, csConfigs = [plainConfig Tumbling 2000 0]\<rparr>;
       p = samplePrecompute\<lparr>pWindow := busyWindow\<rparr>
   in \<exists>out q q'. Tick sampleRuntime 6000 p = Some (out, q) \<and> Tick sampleRuntime 6000 (UpdateConfig sampleRuntime (Some cs) p) = Some (out, q') \<and>
      pCfg q' = Some (plainConfig Tumbling 2000 0)"
proof -
  let ?cs = "\<lparr>csVersion = 2, csCollectorPlan = None, csConfigs = [plainConfig Tumbling 2000 0]\<rparr>" and ?cfg = "plainConfig Tumbling 1000 0"
    and ?p = "samplePrecompute\<lparr>pWindow := busyWindow\<rparr>"
  have rot: "\<exists>w. rotate_window (rtOps sampleRuntime) 6000 ?cfg busyWindow = Some (wSeries busyWindow, (5000, 6000), w)"
    by (simp add: rotate_window_def rotateLocked_def)
  then obtain w where w: "rotate_window (rtOps sampleRuntime) 6000 ?cfg (pWindow ?p) = Some (wSeries busyWindow, (5000, 6000), w)" by auto
  have cfg: "pCfg ?p = Some ?cfg" by simp
  obtain out q where t: "Tick sampleRuntime 6000 ?p = Some (out, q)" using w by (simp add: Tick_def takePendingOutput_def Let_def case_prod_beta)
  have "hasAccumulatedState (pWindow ?p)" "FindByAggID (csConfigs ?cs) (cAggID ?cfg) = Some (plainConfig Tumbling 2000 0)"
    "ValidateMatchers (rtCompile sampleRuntime) (cMatchers (plainConfig Tumbling 2000 0))" by (simp_all add: ValidateMatchers_def)
  from UpdateConfig_staged [OF cfg this t w] t show ?thesis unfolding Let_def by auto
qed

theorem staged_sliding_mixes_witness:
  "\<exists>out q. Tick sampleRuntime 6000 (samplePrecompute\<lparr>pCfg := Some (plainConfig Sliding 3000 1000), pPendingCfg := Some (plainConfig Tumbling 1000 0),
     pWindow := busyWindow\<rparr>) = Some (out, q) \<and> pCfg q = Some (plainConfig Tumbling 1000 0) \<and> hasAccumulatedState (pWindow q)"
  by (rule staged_sliding_mixes [where cfg = "plainConfig Sliding 3000 1000"]) simp_all

theorem EmitSubWindow_live_witness:
  "let cfg = (plainConfig Tumbling 1000 0)\<lparr>cDeltaTransmission := True\<rparr>;
       p = samplePrecompute\<lparr>pCfg := Some cfg, pWindow := busyWindow\<rparr>
   in \<exists>e p'. EmitSubWindow sampleRuntime 5500 p = ([e], p') \<and> eWindowEndMs e = 6000 \<and> eCount e = 1 \<and>
        map seriesFacts (wSeries (pWindow p')) = map seriesFacts (wSeries busyWindow)"
proof -
  let ?cfg = "(plainConfig Tumbling 1000 0)\<lparr>cDeltaTransmission := True\<rparr>"
  let ?p = "samplePrecompute\<lparr>pCfg := Some ?cfg, pWindow := busyWindow\<rparr>"
  obtain envs p' where em: "EmitSubWindow sampleRuntime 5500 ?p = (envs, p')" by fastforce
  have fields: "cSubWindowEpsilon ?cfg = 0" "cSketchType ?cfg = SketchTypeUnspecified" "scOutbound (wCache busyWindow) = Map.empty"
    "subWindowShouldEmit sampleRuntime ?cfg en" "applyGosMode sampleRuntime ?cfg s = s" for en s
    by (simp_all add: plainConfig_def zeroConfig_def busyWindow_def openWindow_def subWindowShouldEmit_def f64_zero_order
        newWindowState_def NewSnapshotCache_def applyGosMode_def)
  have "length envs = 1"
    using em by (auto simp: EmitSubWindow_def subWindowVisit_def subWindowEmitOne_def serializeSubWindowSeries_def
        ComputeSubWindowDelta_def wirePayload_def refreshBase_def Let_def fields newEntry_def busySketch_snapshot split: prod.splits)
  then obtain e where "envs = [e]" by (auto simp: length_Suc_conv)
  with EmitSubWindow_live [OF em, of ?cfg] em show ?thesis unfolding Let_def
    by (auto simp: describes_def newEntry_def)
qed

end
