(* ===== verification/Spec2Isabelle.thy ===== *)
theory Spec2Isabelle
  imports FragmentBlock FragmentCodec EdgeCold SerfDelivery IntChunk SeriesProtocol RuntimeRuns
begin

text \<open>
  A verification library of ASAPCollector, an OpenTelemetry collector distribution that compresses metrics at
  the edge: applications send series by identifier instead of by attributes, the collector folds samples into
  windowed sketches under a centrally computed plan and ships them as framed envelopes, and raw samples go to
  a cold tier as compressed chunks. The Go code is modelled by executable definitions that carry its names; paths
  below are relative to \<^verbatim>\<open>src/\<close>.

  \<^bold>\<open>The parts and how they interact.\<close>

  \<^item> \<^emph>\<open>Series dictionary protocol.\<close> The SDK's OTLP exporter keeps a dictionary from series to numeric identifiers
    (\<^verbatim>\<open>opentelemetry-go-patch/.../internal/series/dictionary.go\<close>, \<^verbatim>\<open>exporter.go\<close>, \<^verbatim>\<open>transform/metricdata.go\<close>); the
    collector's receiver assigns the identifiers, remembers the attributes and puts them back
    (\<^verbatim>\<open>opentelemetry-collector-patch/receiver/otlpreceiver/internal/metrics\<close>). Theories \<open>SeriesDict\<close>,
    \<open>SeriesCache\<close>, \<open>SeriesProtocol\<close>.

  \<^item> \<^emph>\<open>Precompute runtime\<close> (\<^verbatim>\<open>asap-precompute-go\<close>). A plan from the controller (\<^verbatim>\<open>collector_plan.go\<close>, theory
    \<open>CollectorPlan\<close>) becomes configurations (\<^verbatim>\<open>config.go\<close>, \<open>Config\<close>). The runtime (\<^verbatim>\<open>precompute.go\<close>, \<open>Runtime\<close>
    and \<open>RuntimeRuns\<close>) matches observations and builds their series keys (\<^verbatim>\<open>matchers.go\<close>, \<open>SeriesKey\<close>), folds them
    into a window of sketches (\<^verbatim>\<open>window.go\<close>, \<open>Window\<close> and \<open>WindowRotate\<close>; the family modelled in full is the
    Sum, \<^verbatim>\<open>sketches/sum.go\<close>, \<open>SumSketch\<close>), serialises closed windows as full states or differences
    (\<^verbatim>\<open>snapshot_cache.go\<close>, \<open>SnapshotCache\<close>) into envelopes (\<^verbatim>\<open>envelope.go\<close>, \<open>Envelope\<close>), merges envelopes of upstream
    instances after checking their frame identity (\<^verbatim>\<open>frame_identity.go\<close>, \<^verbatim>\<open>frame_receiver.go\<close>, \<open>FrameProtocol\<close>), and
    reports rates to a coordinator that grants sampling probabilities (\<^verbatim>\<open>monitor/engine.go\<close>, \<open>MonitorEngine\<close>).

  \<^item> \<^emph>\<open>Cold tier encoders\<close> (\<^verbatim>\<open>asap-gorilla-go\<close>). Samples that arrive out of order within a grace are reordered per series and become
    TSDB blocks (\<^verbatim>\<open>tsdb.go\<close>, \<open>TsdbBuilder\<close>, \<open>TsdbKeys\<close>, \<open>TsdbRuns\<close>, \<open>TsdbBlock\<close>) or self-contained fragments (\<^verbatim>\<open>fragment.go\<close>,
    \<open>FragmentStream\<close>, \<open>FragmentRuns\<close>), which a receiver decodes (\<^verbatim>\<open>fragment_codec.go\<close>, \<open>FragmentCodec\<close>) and assembles into blocks
    (\<open>FragmentBlock\<close>). The queues are \<^verbatim>\<open>container/heap\<close> (\<open>GoHeap\<close>, \<open>PointHeap\<close>). The other format is a part (\<^verbatim>\<open>coldpart/coldpart.go\<close>,
    \<open>ColdPart\<close>, \<open>ColdPartFormat\<close>, reading through \<open>ByteCursor\<close>) whose series are encoded by the best of several integer codecs or the
    Prometheus XOR codec (\<^verbatim>\<open>intchunk\<close>, \<open>IntChunk\<close>; \<open>Varint\<close> has varints, zigzag and bit packing, \<open>Float64\<close> IEEE binary64 over its
    bit patterns).

  \<^item> \<^emph>\<open>Edge processor, cold tier\<close> (\<^verbatim>\<open>opentelemetry-collector-contrib-patch/processor/asapedgeprocessor\<close>). Samples are sharded over encoders and
    accumulators (\<^verbatim>\<open>cold_encoder.go\<close>, \<^verbatim>\<open>cold_intchunk_accum.go\<close>, \<open>ColdAccum\<close>, \<open>EdgeCold\<close>), encoded at flush and shipped by a worker with a
    queue, retries and a spool directory (\<^verbatim>\<open>cold_spool.go\<close> and the two shippers, \<open>ColdSpool\<close>).

  \<^item> \<^emph>\<open>Serf\<close> (\<^verbatim>\<open>exporter/serfexporter\<close>, \<^verbatim>\<open>receiver/serfreceiver\<close>). Windows of points are compressed with a bounded error into objects that
    the receiver decodes: bit streams and codecs (\<open>SerfBits\<close>, \<open>SerfCodec\<close>), their round trip and error bound (\<open>SerfRoundtrip\<close>,
    \<open>SerfBound\<close>), objects (\<open>SerfObject\<close>) and the way from one to the other (\<open>SerfDelivery\<close>).

  \<open>GoPrelude\<close> holds what they share: machine integers, the result type, byte and list lemmas, the lemma collections.

  \<^bold>\<open>How the code is rendered.\<close> Structs are records, enumerations datatypes, \<^verbatim>\<open>uint64\<close> and \<^verbatim>\<open>int64\<close> are 64-bit words
  with wrap-around, \<^verbatim>\<open>float64\<close> a 64-bit word with IEEE operations (an enumeration whose values outside the named ones matter has a constructor for them); a Go map is an association list or a map, where the
  order of the list stands for the unspecified iteration order, so that theorems hold for every order. Methods take
  and return the state; errors are values of a sum or option type, a panic is \<open>None\<close>. Calls under a lock are
  single steps. The aggregator cells an exporter writes through pointers are an explicit store. Code outside the
  repository is a parameter: the XOR chunk of Prometheus, SHA-256, the regular-expression compiler,
  strconv's float formatting, the JSON codec, the sketches (an operation record \<open>sketchOps\<close>), ULIDs, and the HTTP posts, file operations and
  clock of the ship worker.

  \<^bold>\<open>Interfaces.\<close> \<open>series_registry\<close> is what the exporter relies on of the receiver's cache, interpreted by the cache as
  \<open>reg\<close>; \<open>counted_sketch\<close> is what the conservation of counts needs of a sketch family, interpreted by the Sum wrapper
  as \<open>sum_counted\<close>; \<open>min_queue\<close> is the contract of a priority queue that the reordering code relies on, interpreted by the model of
  \<^verbatim>\<open>container/heap\<close> as \<open>go_heap\<close>; \<open>byte_cursor\<close> is what decoding needs of the primitive reads, interpreted by the fragment codec and the part reader.

  \<^bold>\<open>What is shown.\<close>

  \<^item> Runtime: every accepted observation is reported exactly once or is of a series whose sketch yields no bytes, which is counted as dropped;
    envelopes are neither lost nor handed out twice, an observation is never refused for being early, a redelivered envelope is
    merged once while its lineage is remembered, a configuration
    change waits for the window, sub-window emission leaves the window alone, the plan's cadence is the window's.

  \<^item> Window: a tumbling window closes with the fold of exactly its samples (refinement of a list of accepted
    values), a sliding one with the sum over its panes, whose number is the least that covers the window; the invariant of reachable states with its bounds and the
    absence of panics; least-recent eviction; chained aggregation.

  \<^item> Snapshot cache and Sum: pruning is exact, window deltas do not reach across windows, fragments of an open
    window add up.

  \<^item> Plan and keys: an accepted plan is realized rule by rule; keys are independent of label order; matching
    agrees with its meaning.

  \<^item> Frames and monitor: ordered frames are always accepted and sender and receiver stay in step, among frames of other
    lineages; memory is bounded; report numbering, with transports installed and removed, and cadence; persistence of grants.

  \<^item> Series protocol: with exports often enough, of which none is lost, the consumer sees the telemetry that would have been sent without
    the dictionary, up to the fingerprint of the attributes, also for points that carry an identifier cached by an aggregator; keys identify series; what one
    annotation does.

  \<^item> Chunks: decoding inverts encoding up to the sign of zero, the smallest candidate is chosen, the cut is
    maximal and terminates, decoding arbitrary bytes panics for sane counts only where the XOR library does.

  \<^item> Blocks and fragments: samples within the grace are kept in order and complete, every other one is counted as dropped; the
    queue-driven drain equals a scan of all series and ends; what is handed to the Prometheus writers is in the order they require;
    series keys identify label sets; a batch of fragments decodes to itself and no truncated one is accepted.

  \<^item> Parts: a query on a written part returns the selected series with their samples; a part with one byte changed is refused.

  \<^item> Cold tier: for every interleaving of samples and flushes the samples of a shard are in parts handed to the shipper or counted as late; every batch is at
    every moment in exactly one place, apart from repeated deliveries; the spool is bounded; with a healthy receiver shutdown delivers everything; sealing keeps the value that
    arrived last.

  \<^item> Serf: with XOR compression the finite points of a window arrive with their attributes, their times and values within the error bound; objects respect the size cap.

  \<^item> Theorems named in the findings show where code and intention differ: a lost frame is never recovered, staged
    configurations and sliding panes mix, plan windows overflow, counts drift from replaced sketches, identifier
    reuse after eviction, unreported unknown identifiers, mismatched type names, the sign of zero, a panic on
    huge counts or on short XOR chunks, batch mode, windows wider than configured after an idle time, skipped report numbers, a block lost to one long series, fragments dropped behind a bad one.

  \<^bold>\<open>Bounds and fuel.\<close> Loops are structural recursions or folds over their data, except the chunk cut, the digit
  printers, the heap sifts, the drain loop and the bit decoders, whose measures are proved; there is no fuel. Bounds in hypotheses are those of the machine integers
  (no wrap of a timestamp plus one window step, less than \<open>2 ^ 64\<close> observations) and the exporter's TTL.

  \<^bold>\<open>Not modelled.\<close> Concurrency inside one call (the model is sequential; between the attempts of one observation other
  goroutines may run), latency hooks, and the parts that are I/O, generated or built on code outside the
  repository: the other sketch wrappers over sketchlib-go, transports (HTTP polling, OpAMP, gRPC), pdata and
  protobuf code, the object-store processors, the warm tier and the control plane of the edge processor, generators and demos, and the ports in
  other languages.
\<close>

end
